(* ===== verification/Fve_Prelude.thy ===== *)
theory Fve_Prelude
  imports Complex_Main "HOL-Library.Word" "HOL-Library.Char_ord" "HOL-Library.List_Lexorder"
begin

text \<open>
  Material the components share: the collections of facts the component proofs pass to the
  simplifier, the ordered association lists that stand for \<open>std::map\<close>, the interface a
  keyed store offers to its clients, and small facts on lists.

  A \<open>std::map<K, V>\<close> is a list of key and value pairs in strictly ascending key order, which
  is the order the code's range-for loops visit the map in. Strings are ordered byte by byte
  (theory \<open>Char_ord\<close>), as \<open>std::string\<close> compares them.
\<close>

named_theorems fval_simps \<open>evaluation of the double operations on constructors\<close>
named_theorems bnd \<open>bounds of reals by doubles\<close>
named_theorems encl \<open>inclusion lemmas of the interval operations\<close>

type_synonym byte = "8 word"
type_synonym ('k, 'v) omap = "('k \<times> 'v) list"

section \<open>Ordered maps\<close>

text \<open>The effect of \<open>m[k] = v\<close>: overwrite the entry of \<open>k\<close>, or insert at its place.\<close>

fun mput :: "'k::linorder \<Rightarrow> 'v \<Rightarrow> ('k, 'v) omap \<Rightarrow> ('k, 'v) omap" where
  "mput k v [] = [(k, v)]"
| "mput k v ((k', v') # m) =
     (if k < k' then (k, v) # (k', v') # m
      else if k = k' then (k, v) # m
      else (k', v') # mput k v m)"

definition mget :: "('k, 'v) omap \<Rightarrow> 'k \<Rightarrow> 'v option" where
  "mget m k = map_of m k"

text \<open>The effect of \<open>m.erase(k)\<close>.\<close>

definition mdel :: "'k \<Rightarrow> ('k, 'v) omap \<Rightarrow> ('k, 'v) omap" where
  "mdel k m = filter (\<lambda>p. fst p \<noteq> k) m"

definition mkeys :: "('k, 'v) omap \<Rightarrow> 'k list" where
  "mkeys m = map fst m"

definition mwf :: "('k::linorder, 'v) omap \<Rightarrow> bool" where
  "mwf m \<longleftrightarrow> sorted_wrt (<) (map fst m)"

lemma mget_Nil [simp]: "mget [] k = None"
  by (simp add: mget_def)

lemma mget_Cons [simp]: "mget ((k', v) # m) k = (if k = k' then Some v else mget m k)"
  by (auto simp: mget_def)

lemma mget_mput: "mget (mput k v m) k' = (if k' = k then Some v else mget m k')"
  by (induction m) auto

lemma mget_mdel: "mget (mdel k m) k' = (if k' = k then None else mget m k')"
  by (induction m) (auto simp: mdel_def)

lemma keys_mput: "fst ` set (mput k v m) = insert k (fst ` set m)"
  by (induction k v m rule: mput.induct) (simp_all add: insert_commute)

lemma mget_None_iff: "mget m k = None \<longleftrightarrow> k \<notin> fst ` set m"
  by (simp add: mget_def map_of_eq_None_iff)

lemma mget_Some_in: "mget m k = Some v \<Longrightarrow> (k, v) \<in> set m"
  by (simp add: mget_def map_of_SomeD)

lemma mwf_Nil [simp]: "mwf []"
  by (simp add: mwf_def)

lemma mwf_Cons [simp]: "mwf ((k, v) # m) \<longleftrightarrow> (\<forall>p\<in>set m. k < fst p) \<and> mwf m"
  by (auto simp: mwf_def)

lemma in_mput: "p \<in> set (mput k v m) \<Longrightarrow> p = (k, v) \<or> p \<in> set m"
  by (induction m) (auto split: if_splits)

lemma mwf_mput [simp]: "mwf m \<Longrightarrow> mwf (mput k v m)"
proof (induction m)
  case (Cons p m)
  obtain k' v' where p: "p = (k', v')" by (cases p)
  consider "k < k'" | "k = k'" | "k > k'" by (rule linorder_cases)
  then show ?case
  proof cases
    case 1
    then show ?thesis using Cons.prems p by fastforce
  next
    case 2
    then show ?thesis using Cons.prems p by simp
  next
    case 3
    then show ?thesis using Cons p by (auto dest!: in_mput)
  qed
qed simp

lemma mwf_mdel: "mwf m \<Longrightarrow> mwf (mdel k m)"
  by (auto simp: mwf_def mdel_def sorted_wrt_map intro: sorted_wrt_filter)

lemma mwf_get_in: "mwf m \<Longrightarrow> (k, v) \<in> set m \<Longrightarrow> mget m k = Some v"
  by (induction m) fastforce+

text \<open>Two ordered maps with the same entries are the same list.\<close>

lemma mwf_ext: "mwf m \<Longrightarrow> mwf n \<Longrightarrow> (\<And>k. mget m k = mget n k) \<Longrightarrow> m = n"
proof (induction m arbitrary: n)
  case Nil
  have "n = []"
  proof (cases n)
    case (Cons p n')
    then show ?thesis using Nil.prems(3)[of "fst p"] by (cases p) simp
  qed simp
  then show ?case by simp
next
  case (Cons p m)
  obtain k v where p: "p = (k, v)" by (cases p)
  from Cons.prems(3)[of k] p obtain k' v' n' where n: "n = (k', v') # n'"
    by (cases n) auto
  have lt1: "\<forall>q\<in>set m. k < fst q" and lt2: "\<forall>q\<in>set n'. k' < fst q"
    using Cons.prems p n by auto
  have kk: "k = k'"
  proof (rule ccontr)
    assume ne: "k \<noteq> k'"
    have "mget n' k = Some v" using Cons.prems(3)[of k] p n ne by simp
    from mget_Some_in[OF this] have "k' < k" using lt2 by auto
    moreover have "mget m k' = Some v'" using Cons.prems(3)[of k'] p n ne by simp
    from mget_Some_in[OF this] have "k < k'" using lt1 by auto
    ultimately show False by simp
  qed
  have vv: "v = v'" using Cons.prems(3)[of k] p n kk by simp
  have "mget m j = mget n' j" for j
  proof (cases "j = k")
    case True
    have "mget m k = None" "mget n' k = None"
      using lt1 lt2 kk by (auto simp: mget_None_iff)
    then show ?thesis using True by simp
  next
    case False
    then show ?thesis using Cons.prems(3)[of j] p n kk by simp
  qed
  then have "m = n'" using Cons p n by auto
  then show ?case using p n kk vv by simp
qed

section \<open>The interface of a keyed store\<close>

text \<open>
  What a client of a map or of a document store may rely on: a lookup after an update, and
  an invariant every update keeps. Proved once for any provider: later updates win, updates
  of different keys commute, and a run of updates has the effect of the last one per key.
\<close>

locale keyed_store =
  fixes find :: "'s \<Rightarrow> 'k \<Rightarrow> 'v option"
    and upd :: "'k \<Rightarrow> 'v \<Rightarrow> 's \<Rightarrow> 's"
    and inv :: "'s \<Rightarrow> bool"
  assumes find_upd: "find (upd k v s) k' = (if k' = k then Some v else find s k')"
    and inv_upd: "inv s \<Longrightarrow> inv (upd k v s)"
begin

definition upd_all :: "('k \<times> 'v) list \<Rightarrow> 's \<Rightarrow> 's" where
  "upd_all ps s = foldl (\<lambda>t p. upd (fst p) (snd p) t) s ps"

lemma find_upd_same: "find (upd k v s) k = Some v"
  by (simp add: find_upd)

lemma find_upd_other: "k' \<noteq> k \<Longrightarrow> find (upd k v s) k' = find s k'"
  by (simp add: find_upd)

lemma find_upd_upd: "find (upd k v (upd k w s)) j = find (upd k v s) j"
  by (simp add: find_upd)

lemma find_upd_commute:
  "k \<noteq> k' \<Longrightarrow> find (upd k v (upd k' w s)) j = find (upd k' w (upd k v s)) j"
  by (simp add: find_upd)

lemma find_upd_all: "find (upd_all ps s) k =
    (case map_of (rev ps) k of Some v \<Rightarrow> Some v | None \<Rightarrow> find s k)"
proof (induction ps arbitrary: s)
  case (Cons p ps)
  have "find (upd_all (p # ps) s) k = find (upd_all ps (upd (fst p) (snd p) s)) k"
    by (simp add: upd_all_def)
  then show ?case
    by (cases p) (simp add: Cons.IH find_upd map_add_def split: option.splits)
qed (simp add: upd_all_def)

lemma inv_upd_all: "inv s \<Longrightarrow> inv (upd_all ps s)"
  by (induction ps arbitrary: s) (auto simp: upd_all_def inv_upd)

end

interpretation om: keyed_store mget mput mwf
  by unfold_locales (auto simp: mget_mput)

text \<open>Building a map from a list of assignments, later ones overwriting earlier ones.\<close>

definition mbuild :: "('k::linorder \<times> 'v) list \<Rightarrow> ('k, 'v) omap" where
  "mbuild ps = foldl (\<lambda>m p. mput (fst p) (snd p) m) [] ps"

lemma mbuild_upd_all: "mbuild ps = om.upd_all ps []"
  by (simp add: mbuild_def om.upd_all_def)

lemma mget_mbuild: "mget (mbuild ps) k = map_of (rev ps) k"
  by (simp add: mbuild_upd_all om.find_upd_all split: option.splits)

lemma mwf_mbuild [simp]: "mwf (mbuild ps)"
  by (simp add: mbuild_upd_all om.inv_upd_all)

lemma mwf_distinct: "mwf m \<Longrightarrow> distinct (map fst m)"
  by (auto simp: mwf_def strict_sorted_iff)

lemma mbuild_id:
  assumes "mwf m"
  shows "mbuild m = m"
proof (rule mwf_ext)
  have "distinct (map fst m)" using assms by (rule mwf_distinct)
  then have "map_of (rev m) = map_of m"
    by (intro map_of_eqI) (auto simp: rev_map[symmetric] map_of_eq_Some_iff)
  then show "mget (mbuild m) k = mget m k" for k
    unfolding mget_mbuild by (simp add: mget_def)
qed (simp_all add: assms)

section \<open>Lists\<close>

lemma foldl_inv: "P a \<Longrightarrow> (\<And>a x. P a \<Longrightarrow> x \<in> set xs \<Longrightarrow> P (f a x)) \<Longrightarrow> P (foldl f a xs)"
  by (induction xs arbitrary: a) auto

section \<open>Machine integers\<close>

text \<open>A wider integer converted to a C++ \<open>int\<close>: its lower 32 bits.\<close>

definition cast_int :: "int \<Rightarrow> int" where
  "cast_int v = (v + 2 ^ 31) mod 2 ^ 32 - 2 ^ 31"

lemma cast_int_id: "- (2 ^ 31) \<le> v \<Longrightarrow> v < 2 ^ 31 \<Longrightarrow> cast_int v = v"
  by (simp add: cast_int_def)

lemma cast_int_again [simp]: "cast_int (cast_int v) = cast_int v"
  by (simp add: cast_int_def)

end
