(* ===== verification/Fve_Double.thy ===== *)
theory Fve_Double
  imports Fve_Prelude "HOL-Library.Log_Nat"
begin

text \<open>
  The C++ \<open>double\<close>: IEEE-754 binary64 with its not-a-number value, infinities, signed zeros
  and the three rounding directions the code selects with \<open>fesetround\<close> (nearest is the
  default). A finite non-zero value is its exact real number; \<open>Fin 0\<close> is the positive zero.
  The payload of a NaN is not modelled. Every operation is computable. The first group of
  lemmas characterises rounding: the downward rounding of a real is the greatest double not
  above it, the upward rounding the least one not below it.
\<close>

datatype double = NaN | PInf | NInf | NegZero | Fin real

datatype rmode = RNear | RDown | RUp

section \<open>Rounding a real to a double\<close>

text \<open>The exponent \<open>e\<close> with \<open>2^e \<le> q < 2^(e+1)\<close>, for a positive \<open>q\<close>.\<close>

definition ilog2 :: "real \<Rightarrow> int" where
  "ilog2 q = (if 1 \<le> q then bitlen \<lfloor>q\<rfloor> - 1 else - bitlen (\<lceil>1 / q\<rceil> - 1))"

text \<open>The exponent of the last place of the doubles around \<open>q\<close>: 53 bits, not below \<open>-1074\<close>.\<close>

definition qexp :: "real \<Rightarrow> int" where
  "qexp q = max (ilog2 \<bar>q\<bar> - 52) (- 1074)"

definition max_fin :: real where
  "max_fin = (2 ^ 53 - 1) * 2 ^ 971"

fun round_int :: "rmode \<Rightarrow> real \<Rightarrow> int" where
  "round_int RDown x = \<lfloor>x\<rfloor>"
| "round_int RUp x = \<lceil>x\<rceil>"
| "round_int RNear x =
     (let f = \<lfloor>x\<rfloor>; d = x - of_int f
      in if d < 1 / 2 then f else if 1 / 2 < d then f + 1 else if even f then f else f + 1)"

definition grid :: "rmode \<Rightarrow> real \<Rightarrow> real" where
  "grid m q = (let u = 2 powi qexp q in of_int (round_int m (q / u)) * u)"

text \<open>A rounded value overflows when it is above the largest finite double; the exponent test
  comes first, since below it no overflow is possible.\<close>

definition overflows :: "real \<Rightarrow> real \<Rightarrow> bool" where
  "overflows q r = (if 971 \<le> qexp q then max_fin < \<bar>r\<bar> else False)"

definition fround :: "rmode \<Rightarrow> real \<Rightarrow> double" where
  "fround m q =
     (if q = 0 then Fin 0
      else let r = grid m q
           in if r = 0 then (if q < 0 then NegZero else Fin 0)
              else if overflows q r
                   then (if 0 < r then (if m = RDown then Fin max_fin else PInf)
                         else (if m = RUp then Fin (- max_fin) else NInf))
              else Fin r)"

text \<open>The reals that are finite doubles.\<close>

definition representable :: "real \<Rightarrow> bool" where
  "representable r \<longleftrightarrow> (\<exists>m e. r = of_int m * 2 powi e \<and> \<bar>m\<bar> < 2 ^ 53 \<and> - 1074 \<le> e \<and> e \<le> 971)"

fun fval :: "double \<Rightarrow> real" where
  "fval (Fin r) = r"
| "fval _ = 0"

fun is_fin :: "double \<Rightarrow> bool" where
  "is_fin (Fin r) = True"
| "is_fin NegZero = True"
| "is_fin _ = False"

fun dwf :: "double \<Rightarrow> bool" where
  "dwf (Fin r) = representable r"
| "dwf _ = True"

section \<open>Comparison, minimum and maximum\<close>

fun flt :: "double \<Rightarrow> double \<Rightarrow> bool" where
  "flt NaN _ = False"
| "flt _ NaN = False"
| "flt PInf _ = False"
| "flt _ PInf = True"
| "flt _ NInf = False"
| "flt NInf _ = True"
| "flt x y = (fval x < fval y)"

fun feq :: "double \<Rightarrow> double \<Rightarrow> bool" where
  "feq NaN _ = False"
| "feq _ NaN = False"
| "feq PInf y = (y = PInf)"
| "feq x PInf = False"
| "feq NInf y = (y = NInf)"
| "feq x NInf = False"
| "feq x y = (fval x = fval y)"

definition fle :: "double \<Rightarrow> double \<Rightarrow> bool" where
  "fle x y = (flt x y \<or> feq x y)"

text \<open>\<open>std::min\<close> and \<open>std::max\<close> return the first argument unless the comparison holds, so
  a NaN in the second place is dropped and one in the first place stays.\<close>

definition std_min :: "double \<Rightarrow> double \<Rightarrow> double" where
  "std_min a b = (if flt b a then b else a)"

definition std_max :: "double \<Rightarrow> double \<Rightarrow> double" where
  "std_max a b = (if flt a b then b else a)"

section \<open>Arithmetic\<close>

fun fneg :: "double \<Rightarrow> double" where
  "fneg NaN = NaN"
| "fneg PInf = NInf"
| "fneg NInf = PInf"
| "fneg NegZero = Fin 0"
| "fneg (Fin r) = (if r = 0 then NegZero else Fin (- r))"

fun signbit :: "double \<Rightarrow> bool" where
  "signbit NInf = True"
| "signbit NegZero = True"
| "signbit (Fin r) = (r < 0)"
| "signbit _ = False"

fun fabs :: "double \<Rightarrow> double" where
  "fabs NaN = NaN"
| "fabs PInf = PInf"
| "fabs NInf = PInf"
| "fabs NegZero = Fin 0"
| "fabs (Fin r) = Fin \<bar>r\<bar>"

definition fzero :: "bool \<Rightarrow> double" where
  "fzero neg = (if neg then NegZero else Fin 0)"

definition finf :: "bool \<Rightarrow> double" where
  "finf neg = (if neg then NInf else PInf)"

fun fadd :: "rmode \<Rightarrow> double \<Rightarrow> double \<Rightarrow> double" where
  "fadd m NaN _ = NaN"
| "fadd m _ NaN = NaN"
| "fadd m PInf y = (if y = NInf then NaN else PInf)"
| "fadd m x PInf = (if x = NInf then NaN else PInf)"
| "fadd m NInf y = NInf"
| "fadd m x NInf = NInf"
| "fadd m x y =
     (if fval x + fval y = 0
      then (if fval x = 0 \<and> signbit x = signbit y then x else fzero (m = RDown))
      else fround m (fval x + fval y))"

definition fsub :: "rmode \<Rightarrow> double \<Rightarrow> double \<Rightarrow> double" where
  "fsub m x y = fadd m x (fneg y)"

fun is_inf :: "double \<Rightarrow> bool" where
  "is_inf PInf = True"
| "is_inf NInf = True"
| "is_inf _ = False"

definition is_zero :: "double \<Rightarrow> bool" where
  "is_zero x = (is_fin x \<and> fval x = 0)"

definition fmul :: "rmode \<Rightarrow> double \<Rightarrow> double \<Rightarrow> double" where
  "fmul m x y =
     (if x = NaN \<or> y = NaN then NaN
      else if is_inf x \<or> is_inf y
           then (if is_zero x \<or> is_zero y then NaN else finf (signbit x \<noteq> signbit y))
      else if is_zero x \<or> is_zero y then fzero (signbit x \<noteq> signbit y)
      else fround m (fval x * fval y))"

definition fdiv :: "rmode \<Rightarrow> double \<Rightarrow> double \<Rightarrow> double" where
  "fdiv m x y =
     (if x = NaN \<or> y = NaN then NaN
      else if is_inf x then (if is_inf y then NaN else finf (signbit x \<noteq> signbit y))
      else if is_inf y then fzero (signbit x \<noteq> signbit y)
      else if is_zero y then (if is_zero x then NaN else finf (signbit x \<noteq> signbit y))
      else if is_zero x then fzero (signbit x \<noteq> signbit y)
      else fround m (fval x / fval y))"

text \<open>\<open>std::nextafter\<close> towards minus and plus infinity: the neighbour of a finite double is the
  directed rounding of a real that is closer to it than a quarter of its last place.\<close>

definition nudge :: "real \<Rightarrow> real" where
  "nudge r = (if r = 0 then 2 powi (- 1075) else 2 powi (qexp r - 2))"

fun next_dn :: "double \<Rightarrow> double" where
  "next_dn NaN = NaN"
| "next_dn NInf = NInf"
| "next_dn PInf = Fin max_fin"
| "next_dn x = (if fval x = 0 then Fin (- (2 powi (- 1074))) else fround RDown (fval x - nudge (fval x)))"

fun next_up :: "double \<Rightarrow> double" where
  "next_up NaN = NaN"
| "next_up PInf = PInf"
| "next_up NInf = Fin (- max_fin)"
| "next_up x = (if fval x = 0 then Fin (2 powi (- 1074)) else fround RUp (fval x + nudge (fval x)))"

section \<open>The exponent of a real\<close>

lemma ilog2_bounds:
  assumes "0 < q"
  shows "2 powi ilog2 q \<le> q" and "q < 2 powi (ilog2 q + 1)"
proof -
  have both: "2 powi ilog2 q \<le> q \<and> q < 2 powi (ilog2 q + 1)"
  proof (cases "1 \<le> q")
    case True
    define n where "n = \<lfloor>q\<rfloor>"
    have n1: "0 < n" using True by (simp add: n_def)
    have b1: "1 \<le> bitlen n"
      using n1 bitlen_eq_zero_iff[of n] bitlen_nonneg[of n] by linarith
    have lo: "2 ^ nat (bitlen n - 1) \<le> n" and hi: "n < 2 ^ nat (bitlen n)"
      using bitlen_bounds[OF n1] by auto
    have "(2::real) powi (bitlen n - 1) = of_int (2 ^ nat (bitlen n - 1))"
      using b1 by (simp add: power_int_nonneg_exp)
    also have "\<dots> \<le> of_int n" using lo by (simp only: of_int_le_iff)
    also have "\<dots> \<le> q" by (simp add: n_def)
    finally have l: "2 powi (bitlen n - 1) \<le> q" .
    have "n + 1 \<le> 2 ^ nat (bitlen n)" using hi by simp
    then have "of_int (n + 1) \<le> (of_int (2 ^ nat (bitlen n)) :: real)"
      by (simp only: of_int_le_iff)
    moreover have "q < of_int (n + 1)" by (simp add: n_def)
    moreover have "of_int (2 ^ nat (bitlen n)) = (2::real) powi bitlen n"
      using b1 by (simp add: power_int_nonneg_exp)
    ultimately have "q < 2 powi bitlen n" by linarith
    then show ?thesis using l True by (simp add: ilog2_def n_def)
  next
    case False
    define m where "m = \<lceil>1 / q\<rceil> - 1"
    have "1 < 1 / q" using False assms by (simp add: field_simps)
    then have m1: "0 < m" by (simp add: m_def)
    have lo: "2 ^ nat (bitlen m - 1) \<le> m" and hi: "m < 2 ^ nat (bitlen m)"
      using bitlen_bounds[OF m1] by auto
    have b1: "1 \<le> bitlen m"
      using m1 bitlen_eq_zero_iff[of m] bitlen_nonneg[of m] by linarith
    have ql: "of_int m < 1 / q" and qu: "1 / q \<le> of_int m + 1"
      unfolding m_def by linarith+
    have "of_int (2 ^ nat (bitlen m - 1)) \<le> (of_int m :: real)"
      using lo by (simp only: of_int_le_iff)
    moreover have "(2::real) powi (bitlen m - 1) = of_int (2 ^ nat (bitlen m - 1))"
      using b1 by (simp add: power_int_nonneg_exp)
    ultimately have "2 powi (bitlen m - 1) < 1 / q" using ql by linarith
    then have "q < inverse (2 powi (bitlen m - 1))"
      using assms by (simp add: field_simps)
    then have u: "q < 2 powi (- bitlen m + 1)"
      by (simp flip: power_int_minus add: algebra_simps)
    have "m + 1 \<le> 2 ^ nat (bitlen m)" using hi by simp
    then have "of_int (m + 1) \<le> (of_int (2 ^ nat (bitlen m)) :: real)"
      by (simp only: of_int_le_iff)
    moreover have "of_int (2 ^ nat (bitlen m)) = (2::real) powi bitlen m"
      using b1 by (simp add: power_int_nonneg_exp)
    ultimately have "1 / q \<le> 2 powi bitlen m" using qu by simp
    then have "inverse (2 powi bitlen m) \<le> q"
      using assms by (simp add: field_simps)
    then have "2 powi (- bitlen m) \<le> q" by (simp add: power_int_minus)
    then show ?thesis using u False by (simp add: ilog2_def m_def)
  qed
  show "2 powi ilog2 q \<le> q" using both by simp
  show "q < 2 powi (ilog2 q + 1)" using both by simp
qed

lemma powi2_pos [simp]: "0 < (2::real) powi k"
  by (simp add: zero_less_power_int)

lemma powi2_add: "(2::real) powi (a + b) = 2 powi a * 2 powi b"
  by (simp add: power_int_add)

lemma powi2_le_iff [simp]: "(2::real) powi a \<le> 2 powi b \<longleftrightarrow> a \<le> b"
  using power_int_increasing[of a b "2::real"] power_int_strict_increasing[of b a "2::real"]
  by (cases "a \<le> b") auto

lemma powi2_less_iff [simp]: "(2::real) powi a < 2 powi b \<longleftrightarrow> a < b"
  by (meson linorder_not_le powi2_le_iff)

text \<open>Scaled to its last place, a real is below \<open>2^53\<close>, and at or above \<open>2^52\<close> unless the
  exponent is the smallest one.\<close>

lemma scaled_upper: "\<bar>q\<bar> < 2 ^ 53 * 2 powi qexp q"
proof (cases "q = 0")
  case False
  have "\<bar>q\<bar> < 2 powi (ilog2 \<bar>q\<bar> + 1)" using ilog2_bounds(2)[of "\<bar>q\<bar>"] False by simp
  also have "\<dots> \<le> 2 powi (53 + qexp q)" unfolding powi2_le_iff qexp_def by simp
  also have "\<dots> = 2 ^ 53 * 2 powi qexp q" by (simp add: powi2_add)
  finally show ?thesis .
qed simp

lemma scaled_lower: "q \<noteq> 0 \<Longrightarrow> - 1074 < qexp q \<Longrightarrow> 2 ^ 52 * 2 powi qexp q \<le> \<bar>q\<bar>"
proof -
  assume q: "q \<noteq> 0" and k: "- 1074 < qexp q"
  have e: "qexp q = ilog2 \<bar>q\<bar> - 52" using k by (auto simp: qexp_def)
  have "2 ^ 52 * (2::real) powi qexp q = 2 powi (52 + qexp q)" by (simp add: powi2_add)
  also have "\<dots> = 2 powi ilog2 \<bar>q\<bar>" by (simp add: e)
  also have "\<dots> \<le> \<bar>q\<bar>" using ilog2_bounds(1)[of "\<bar>q\<bar>"] q by simp
  finally show ?thesis .
qed

lemma qexp_ge: "- 1074 \<le> qexp q"
  by (simp add: qexp_def)

lemma qexp_minus [simp]: "qexp (- q) = qexp q"
  by (simp add: qexp_def)

lemma scaled_abs: "\<bar>q / 2 powi qexp q\<bar> < 2 ^ 53"
  using scaled_upper[of q] by (simp add: pos_divide_less_eq)

section \<open>Rounding is directed\<close>

lemma round_int_bounds:
  "of_int (round_int RDown x) \<le> x" "x < of_int (round_int RDown x) + 1"
  "x \<le> of_int (round_int RUp x)" "of_int (round_int RUp x) - 1 < x"
  by (simp_all add: ceiling_correct)

lemma grid_dn_le: "grid RDown q \<le> q"
proof -
  have "of_int (round_int RDown (q / 2 powi qexp q)) * 2 powi qexp q
      \<le> (q / 2 powi qexp q) * 2 powi qexp q"
    by (intro mult_right_mono round_int_bounds) simp
  then show ?thesis by (simp add: grid_def Let_def)
qed

lemma grid_up_ge: "q \<le> grid RUp q"
proof -
  have "(q / 2 powi qexp q) * 2 powi qexp q
      \<le> of_int (round_int RUp (q / 2 powi qexp q)) * 2 powi qexp q"
    by (intro mult_right_mono round_int_bounds) simp
  then show ?thesis by (simp add: grid_def Let_def)
qed

lemma grid_up_dn: "grid RUp q = - grid RDown (- q)"
  by (simp add: grid_def Let_def ceiling_def)

lemma round_int_le: "x \<le> of_int j \<Longrightarrow> round_int m x \<le> j"
proof (cases m)
  assume x: "x \<le> of_int j"
  case RNear
  have "\<lfloor>x\<rfloor> \<le> j" using x by linarith
  moreover have "\<lfloor>x\<rfloor> + 1 \<le> j" if "\<not> x - of_int \<lfloor>x\<rfloor> < 1 / 2"
  proof -
    have "of_int \<lfloor>x\<rfloor> < (of_int j :: real)" using that x by linarith
    then show ?thesis by simp
  qed
  ultimately show ?thesis using RNear by (simp add: Let_def)
qed (simp_all add: floor_le_iff ceiling_le_iff)

lemma round_int_ge: "of_int j \<le> x \<Longrightarrow> j \<le> round_int m x"
proof -
  assume x: "of_int j \<le> x"
  have "j \<le> \<lfloor>x\<rfloor>" using x by (simp add: le_floor_iff)
  moreover have "\<lfloor>x\<rfloor> \<le> round_int m x" by (cases m) (simp_all add: Let_def floor_le_ceiling)
  ultimately show ?thesis by linarith
qed

lemma round_int_of_int [simp]: "round_int m (of_int j) = j"
  by (intro antisym round_int_le round_int_ge) simp_all

text \<open>A grid value within the finite range is a double; \<open>round_int\<close> may be any rounding.\<close>

lemma representable_grid:
  assumes "q \<noteq> 0" and "\<bar>grid m q\<bar> \<le> max_fin"
  shows "representable (grid m q)"
proof -
  define k where "k = qexp q"
  define x where "x = q / 2 powi k"
  define j where "j = round_int m x"
  have r: "grid m q = of_int j * 2 powi k"
    by (simp add: grid_def Let_def k_def x_def j_def)
  have kge: "- 1074 \<le> k" by (simp add: k_def qexp_ge)
  have xu: "\<bar>x\<bar> < 2 ^ 53" using scaled_abs[of q] by (simp add: x_def k_def)
  have "x \<le> of_int (2 ^ 53)" and "of_int (- (2 ^ 53)) \<le> x" using xu by simp_all
  then have j53: "\<bar>j\<bar> \<le> 2 ^ 53"
    using round_int_le[of x "2 ^ 53" m] round_int_ge[of "- (2 ^ 53)" x m] by (simp add: j_def)
  have k971: "k \<le> 971"
  proof (cases "k = - 1074")
    case False
    then have k1: "- 1074 < k" using kge by simp
    have xl: "2 ^ 52 \<le> \<bar>x\<bar>"
      using scaled_lower[OF assms(1)] k1
      by (simp add: x_def k_def pos_le_divide_eq)
    have jl: "2 ^ 52 \<le> \<bar>j\<bar>"
    proof (cases "0 \<le> x")
      case True
      then have "of_int (2 ^ 52) \<le> x" using xl by simp
      from round_int_ge[OF this, of m] show ?thesis by (simp add: j_def)
    next
      case neg: False
      then have "x \<le> of_int (- (2 ^ 52))" using xl by simp
      from round_int_le[OF this, of m] show ?thesis by (simp add: j_def)
    qed
    have "2 ^ 52 * 2 powi k \<le> \<bar>of_int j\<bar> * (2::real) powi k"
    proof (rule mult_right_mono)
      have "of_int (2 ^ 52) \<le> (of_int \<bar>j\<bar> :: real)" using jl by (simp only: of_int_le_iff)
      then show "2 ^ 52 \<le> \<bar>of_int j :: real\<bar>" by simp
    qed simp
    also have "\<dots> = \<bar>grid m q\<bar>" by (simp add: r abs_mult)
    also have "\<dots> \<le> max_fin" by (rule assms)
    also have "max_fin < 2 powi 1024" by (simp add: max_fin_def)
    finally have "(2::real) powi (52 + k) < 2 powi 1024" by (simp add: powi2_add)
    then show ?thesis by (simp only: powi2_less_iff)
  qed simp
  show ?thesis
  proof (cases "\<bar>j\<bar> = 2 ^ 53")
    case False
    then have "\<bar>j\<bar> < 2 ^ 53" using j53 by simp
    then show ?thesis unfolding representable_def r using kge k971 by blast
  next
    case True
    have "2 ^ 53 * 2 powi k = \<bar>grid m q\<bar>"
    proof -
      have "\<bar>of_int j :: real\<bar> = 2 ^ 53" using True by (metis of_int_abs of_int_numeral of_int_power)
      then show ?thesis by (simp add: r abs_mult)
    qed
    also have "\<dots> < 2 powi 1024" using assms(2) by (simp add: max_fin_def)
    finally have "(2::real) powi (53 + k) < 2 powi 1024" by (simp add: powi2_add)
    then have "k + 1 \<le> 971" by (simp only: powi2_less_iff)
    moreover have "grid m q = of_int (sgn j * 2 ^ 52) * 2 powi (k + 1)"
    proof -
      have "j = sgn j * 2 ^ 53" using True by (metis abs_mult_sgn mult.commute)
      then have "(of_int j :: real) = of_int (sgn j) * 2 ^ 53" by (metis of_int_mult of_int_numeral of_int_power)
      then show ?thesis by (simp add: r powi2_add)
    qed
    moreover have "\<bar>sgn j * 2 ^ 52\<bar> < (2 ^ 53 :: int)" by (simp add: abs_mult sgn_if)
    ultimately show ?thesis unfolding representable_def using kge
      by (intro exI[of _ "sgn j * 2 ^ 52"] exI[of _ "k + 1"]) simp
  qed
qed

text \<open>The greatest representable real not above \<open>q\<close>.\<close>

lemma grid_dn_greatest:
  assumes d: "representable d" and le: "d \<le> q" and q: "q \<noteq> 0"
  shows "d \<le> grid RDown q"
proof -
  define k where "k = qexp q"
  obtain m e where m: "d = of_int m * 2 powi e" "\<bar>m\<bar> < 2 ^ 53" "- 1074 \<le> e"
    using d unfolding representable_def by blast
  have via: "of_int i * 2 powi k \<le> grid RDown q" if "of_int i * 2 powi k \<le> q" for i
  proof -
    have "of_int i \<le> q / 2 powi k" using that by (simp add: pos_le_divide_eq)
    then have "i \<le> \<lfloor>q / 2 powi k\<rfloor>" by (simp add: le_floor_iff)
    then have "(of_int i :: real) \<le> of_int \<lfloor>q / 2 powi k\<rfloor>" by (simp only: of_int_le_iff)
    then show ?thesis by (simp add: grid_def Let_def k_def mult_right_mono)
  qed
  show ?thesis
  proof (cases "k \<le> e")
    case True
    have "d = of_int (m * 2 ^ nat (e - k)) * 2 powi k"
    proof -
      have "(2::real) powi e = 2 powi ((e - k) + k)" by simp
      also have "\<dots> = 2 ^ nat (e - k) * 2 powi k"
        using True by (simp only: powi2_add) (simp add: power_int_nonneg_exp)
      finally show ?thesis by (simp add: m(1))
    qed
    then show ?thesis using via le by metis
  next
    case False
    then have k1: "- 1074 < k" using m(3) by simp
    have big: "2 ^ 52 * 2 powi k \<le> \<bar>q\<bar>"
      using scaled_lower[OF q] k1 by (simp add: k_def)
    have "\<bar>of_int m\<bar> < (2 ^ 53 :: real)"
      using m(2) by (metis of_int_abs of_int_less_iff of_int_numeral of_int_power)
    then have "\<bar>d\<bar> < 2 ^ 53 * 2 powi e" by (simp add: m(1) abs_mult)
    also have "\<dots> = 2 powi (53 + e)" by (simp add: powi2_add)
    also have "\<dots> \<le> 2 powi (52 + k)" using False by (simp only: powi2_le_iff)
    also have "\<dots> = 2 ^ 52 * 2 powi k" by (simp add: powi2_add)
    finally have small: "\<bar>d\<bar> < 2 ^ 52 * 2 powi k" .
    have "0 < q" using small big le by linarith
    then have "of_int (2 ^ 52) * 2 powi k \<le> q" using big by simp
    from via[OF this] show ?thesis using small by simp
  qed
qed

lemma representable_uminus [simp]: "representable (- r) \<longleftrightarrow> representable r"
proof -
  have "representable (- r)" if rr: "representable r" for r
  proof -
    obtain m e where "r = of_int m * 2 powi e" "\<bar>m\<bar> < 2 ^ 53" "- 1074 \<le> e" "e \<le> 971"
      using rr unfolding representable_def by blast
    then show ?thesis unfolding representable_def
      by (intro exI[of _ "- m"] exI[of _ e]) simp
  qed
  from this[of r] this[of "- r"] show ?thesis by auto
qed

lemma grid_up_least: "representable d \<Longrightarrow> q \<le> d \<Longrightarrow> q \<noteq> 0 \<Longrightarrow> grid RUp q \<le> d"
  using grid_dn_greatest[of "- d" "- q"] by (simp add: grid_up_dn)

lemma grid_between: "grid RDown q \<le> grid m q" "grid m q \<le> grid RUp q"
proof -
  have a: "\<lfloor>x\<rfloor> \<le> round_int m x" for x
    by (rule round_int_ge) simp
  have b: "round_int m x \<le> \<lceil>x\<rceil>" for x
    by (rule round_int_le) (simp add: ceiling_correct)
  show "grid RDown q \<le> grid m q" "grid m q \<le> grid RUp q"
    using a[of "q / 2 powi qexp q"] b[of "q / 2 powi qexp q"]
    by (simp_all add: grid_def Let_def mult_right_mono)
qed

lemma grid_exact: "representable q \<Longrightarrow> grid m q = q"
proof (cases "q = 0")
  case False
  assume r: "representable q"
  show ?thesis
    using grid_between(1)[of q m] grid_between(2)[of m q] grid_dn_greatest[OF r _ False] grid_up_least[OF r _ False]
    by force
qed (simp add: grid_def Let_def round_int_of_int[of m 0, simplified])

lemma grid_sgn: "0 < q \<Longrightarrow> 0 \<le> grid m q" "q < 0 \<Longrightarrow> grid m q \<le> 0"
  using round_int_ge[of 0 "q / 2 powi qexp q" m] round_int_le[of "q / 2 powi qexp q" 0 m]
  by (simp_all add: grid_def Let_def mult_nonpos_nonneg divide_nonpos_pos)

lemma representable_0 [simp]: "representable 0"
  unfolding representable_def by (intro exI[of _ 0] exI[of _ 0]) simp

lemma representable_max_fin [simp]: "representable max_fin"
proof -
  have "max_fin = of_int (2 ^ 53 - 1) * 2 powi 971"
    unfolding max_fin_def power_int_numeral of_int_diff of_int_power of_int_numeral of_int_1 ..
  moreover have "\<bar>2 ^ 53 - 1\<bar> < (2 ^ 53 :: int)" by simp
  ultimately show ?thesis unfolding representable_def
    by (intro exI[of _ "2 ^ 53 - 1"] exI[of _ 971] conjI) (assumption | simp only:, simp)+
qed

lemma representable_le_max: "representable r \<Longrightarrow> \<bar>r\<bar> \<le> max_fin"
proof -
  assume "representable r"
  then obtain m e where m: "r = of_int m * 2 powi e" "\<bar>m\<bar> < 2 ^ 53" "e \<le> 971"
    unfolding representable_def by blast
  have "\<bar>of_int m\<bar> \<le> (2 ^ 53 - 1 :: real)"
  proof -
    have "\<bar>m\<bar> \<le> 2 ^ 53 - 1" using m(2) by simp
    then have "of_int \<bar>m\<bar> \<le> (of_int (2 ^ 53 - 1) :: real)" by (simp only: of_int_le_iff)
    then show ?thesis by simp
  qed
  moreover have "(2::real) powi e \<le> 2 powi 971" using m(3) by (simp only: powi2_le_iff)
  ultimately have "\<bar>of_int m\<bar> * 2 powi e \<le> (2 ^ 53 - 1) * (2::real) powi 971"
    by (intro mult_mono) simp_all
  moreover have "\<bar>r\<bar> = \<bar>of_int m\<bar> * 2 powi e" by (simp add: m(1) abs_mult)
  ultimately show ?thesis by (simp add: max_fin_def)
qed

lemma overflows_iff:
  assumes "q \<noteq> 0"
  shows "overflows q (grid m q) \<longleftrightarrow> max_fin < \<bar>grid m q\<bar>"
proof (cases "971 \<le> qexp q")
  case False
  define k where "k = qexp q"
  have xu: "\<bar>q / 2 powi k\<bar> < 2 ^ 53" using scaled_abs[of q] by (simp add: k_def)
  have "q / 2 powi k \<le> of_int (2 ^ 53)" and "of_int (- (2 ^ 53)) \<le> q / 2 powi k"
    using abs_less_iff[THEN iffD1, OF xu] by simp_all
  from round_int_le[OF this(1), of m] round_int_ge[OF this(2), of m]
  have "\<bar>round_int m (q / 2 powi k)\<bar> \<le> 2 ^ 53" by simp
  then have "of_int \<bar>round_int m (q / 2 powi k)\<bar> \<le> (of_int (2 ^ 53) :: real)"
    by (simp only: of_int_le_iff)
  then have "\<bar>grid m q\<bar> \<le> 2 ^ 53 * 2 powi k"
    by (simp add: grid_def Let_def k_def abs_mult)
  also have "\<dots> = 2 powi (53 + k)" by (simp add: powi2_add)
  also have "\<dots> \<le> 2 powi 1023" using False unfolding powi2_le_iff k_def by simp
  also have "\<dots> \<le> max_fin" by (simp add: max_fin_def)
  finally show ?thesis using False by (simp add: overflows_def)
qed (simp add: overflows_def)

section \<open>Bounds of reals by doubles\<close>

text \<open>\<open>below d x\<close>: the double \<open>d\<close> is a lower bound of the real \<open>x\<close>. \<open>above d x\<close>: an upper
  bound. A NaN bounds nothing.\<close>

fun below :: "double \<Rightarrow> real \<Rightarrow> bool" where
  "below NInf x = True"
| "below NegZero x = (0 \<le> x)"
| "below (Fin r) x = (r \<le> x)"
| "below _ x = False"

fun above :: "double \<Rightarrow> real \<Rightarrow> bool" where
  "above PInf x = True"
| "above NegZero x = (x \<le> 0)"
| "above (Fin r) x = (x \<le> r)"
| "above _ x = False"

lemma fround_cases:
  assumes "q \<noteq> 0"
  obtains (zero) "grid m q = 0" "fround m q = fzero (q < 0)"
  | (high) "max_fin < grid m q" "fround m q = (if m = RDown then Fin max_fin else PInf)"
  | (low) "grid m q < - max_fin" "fround m q = (if m = RUp then Fin (- max_fin) else NInf)"
  | (fin) "grid m q \<noteq> 0" "\<bar>grid m q\<bar> \<le> max_fin" "fround m q = Fin (grid m q)"
proof -
  have pos: "0 < max_fin" by (simp add: max_fin_def)
  show ?thesis
  proof (cases "grid m q = 0")
    case True
    then show ?thesis using zero assms by (simp add: fround_def fzero_def Let_def)
  next
    case nz: False
    show ?thesis
    proof (cases "overflows q (grid m q)")
      case True
      then have "max_fin < \<bar>grid m q\<bar>" using overflows_iff[OF assms] by simp
      then consider "max_fin < grid m q" | "grid m q < - max_fin" by linarith
      then show ?thesis
        using high low True nz assms pos by cases (simp_all add: fround_def Let_def)
    next
      case False
      then have "\<bar>grid m q\<bar> \<le> max_fin" using overflows_iff[OF assms] by (simp add: not_less)
      then show ?thesis using fin False nz assms by (simp add: fround_def Let_def)
    qed
  qed
qed

lemma fround_0 [simp]: "fround m 0 = Fin 0"
  by (simp add: fround_def)

theorem fround_dwf [simp]: "dwf (fround m q)"
proof (cases "q = 0")
  case False
  show ?thesis
    by (cases rule: fround_cases[OF False, of m])
      (auto simp: fzero_def intro: representable_grid)
qed simp

lemma fround_not_nan [simp]: "fround m q \<noteq> NaN"
proof (cases "q = 0")
  case False
  show ?thesis by (cases rule: fround_cases[OF False, of m]) (auto simp: fzero_def)
qed simp

theorem below_fround [bnd]: "below (fround RDown q) q"
proof (cases "q = 0")
  case False
  show ?thesis
    using grid_dn_le[of q]
    by (cases rule: fround_cases[OF False, of RDown]) (auto simp: fzero_def)
qed simp

theorem above_fround [bnd]: "above (fround RUp q) q"
proof (cases "q = 0")
  case False
  show ?thesis
    using grid_up_ge[of q]
    by (cases rule: fround_cases[OF False, of RUp]) (auto simp: fzero_def)
qed simp

text \<open>Directed rounding is optimal: no double lies strictly between the result and the real.\<close>

theorem fround_dn_greatest: "representable d \<Longrightarrow> d \<le> q \<Longrightarrow> fle (Fin d) (fround RDown q)"
proof (cases "q = 0")
  case False
  assume d: "representable d" "d \<le> q"
  have g: "d \<le> grid RDown q" by (rule grid_dn_greatest[OF d False])
  have b: "\<bar>d\<bar> \<le> max_fin" by (rule representable_le_max[OF d(1)])
  show ?thesis using g b
    by (cases rule: fround_cases[OF False, of RDown]) (auto simp: fzero_def fle_def)
qed (auto simp: fle_def)

theorem fround_up_least: "representable d \<Longrightarrow> q \<le> d \<Longrightarrow> fle (fround RUp q) (Fin d)"
proof (cases "q = 0")
  case False
  assume d: "representable d" "q \<le> d"
  have g: "grid RUp q \<le> d" by (rule grid_up_least[OF d False])
  have b: "\<bar>d\<bar> \<le> max_fin" by (rule representable_le_max[OF d(1)])
  show ?thesis using g b
    by (cases rule: fround_cases[OF False, of RUp]) (auto simp: fzero_def fle_def)
qed (auto simp: fle_def)

text \<open>A representable value is its own rounding in every mode.\<close>

theorem fround_exact: "representable q \<Longrightarrow> fround m q = Fin q"
proof (cases "q = 0")
  case False
  assume r: "representable q"
  show ?thesis using False grid_exact[OF r, of m] representable_le_max[OF r]
    by (cases rule: fround_cases[OF False, of m]) auto
qed simp

text \<open>Rounding keeps the sign, in every mode: a positive result comes from a positive real.\<close>

lemma fround_pos: "flt (Fin 0) (fround m q) \<Longrightarrow> 0 < q"
proof (cases "q = 0")
  case False
  assume a: "flt (Fin 0) (fround m q)"
  have p: "0 < max_fin" by (simp add: max_fin_def)
  have "grid m q \<le> 0 \<or> 0 < q" using False grid_sgn(2)[of q m] by linarith
  then show ?thesis using False a p
    by (cases rule: fround_cases[OF False, of m])
      (auto simp: fzero_def not_less split: if_splits)
qed simp

lemma fround_neg: "flt (fround m q) (Fin 0) \<Longrightarrow> q < 0"
proof (cases "q = 0")
  case False
  assume a: "flt (fround m q) (Fin 0)"
  have p: "0 < max_fin" by (simp add: max_fin_def)
  have "0 \<le> grid m q \<or> q < 0" using False grid_sgn(1)[of q m] by linarith
  then show ?thesis using False a p
    by (cases rule: fround_cases[OF False, of m])
      (auto simp: fzero_def not_less split: if_splits)
qed simp

text \<open>Integers of at most 53 bits round to themselves, so the arithmetic of small integers is
  evaluated by the simplifier.\<close>

lemma representable_int: "\<bar>n\<bar> < 2 ^ 53 \<Longrightarrow> representable (of_int n)"
  unfolding representable_def by (intro exI[of _ n] exI[of _ 0]) simp

lemma representable_scaled: "\<bar>n\<bar> < 2 ^ 53 \<Longrightarrow> k \<le> 1074 \<Longrightarrow> representable (of_int n / 2 ^ k)"
  unfolding representable_def
  by (intro exI[of _ n] exI[of _ "- int k"]) (simp add: power_int_minus divide_inverse)

lemma fround_numeral [simp]:
  "(numeral n :: int) < 9007199254740992 \<Longrightarrow> fround m (numeral n) = Fin (numeral n)"
  "(numeral n :: int) < 9007199254740992 \<Longrightarrow> fround m (- numeral n) = Fin (- numeral n)"
  "fround m 1 = Fin 1" "fround m (- 1) = Fin (- 1)"
  using representable_int[of "numeral n"] representable_int[of "- numeral n"]
    representable_int[of 1] representable_int[of "- 1"]
  by (simp_all add: fround_exact)

section \<open>Order\<close>

lemma fle_simps [simp]:
  "fle x NaN = False" "fle NaN x = False" "fle NInf y = (y \<noteq> NaN)" "fle x PInf = (x \<noteq> NaN)"
  "fle PInf y = (y = PInf)" "fle x NInf = (x = NInf)"
  "fle (Fin r) (Fin s) = (r \<le> s)" "fle NegZero (Fin s) = (0 \<le> s)" "fle (Fin r) NegZero = (r \<le> 0)"
  "fle NegZero NegZero = True"
  by (cases x; cases y; auto simp: fle_def)+

lemma flt_fle: "flt x y \<Longrightarrow> fle x y"
  by (simp add: fle_def)

lemma fle_refl: "x \<noteq> NaN \<Longrightarrow> fle x x"
  by (cases x) auto

lemma fle_trans: "fle x y \<Longrightarrow> fle y z \<Longrightarrow> fle x z"
  by (cases x; cases y; cases z) auto

lemma not_flt: "x \<noteq> NaN \<Longrightarrow> y \<noteq> NaN \<Longrightarrow> \<not> flt x y \<longleftrightarrow> fle y x"
  by (cases x; cases y) (auto simp: not_less)

lemma fle_total: "x \<noteq> NaN \<Longrightarrow> y \<noteq> NaN \<Longrightarrow> fle x y \<or> fle y x"
  using not_flt flt_fle by blast

lemma below_fle: "fle c d \<Longrightarrow> below d x \<Longrightarrow> below c x"
  by (cases c; cases d) auto

lemma above_fle: "fle d c \<Longrightarrow> above d x \<Longrightarrow> above c x"
  by (cases c; cases d) auto

lemma below_mono: "below d x \<Longrightarrow> x \<le> y \<Longrightarrow> below d y"
  by (cases d) auto

lemma above_mono: "above d x \<Longrightarrow> y \<le> x \<Longrightarrow> above d y"
  by (cases d) auto

lemma below_above_le: "below l x \<Longrightarrow> above h x \<Longrightarrow> fle l h"
  by (cases l; cases h) auto

lemma below_fin: "is_fin d \<Longrightarrow> below d x \<longleftrightarrow> fval d \<le> x"
  by (cases d) auto

lemma above_fin: "is_fin d \<Longrightarrow> above d x \<longleftrightarrow> x \<le> fval d"
  by (cases d) auto

lemma fle_fin: "is_fin c \<Longrightarrow> is_fin d \<Longrightarrow> fle c d \<longleftrightarrow> fval c \<le> fval d"
  by (cases c; cases d) auto

lemma flt_fin: "is_fin c \<Longrightarrow> is_fin d \<Longrightarrow> flt c d \<longleftrightarrow> fval c < fval d"
  by (cases c; cases d) auto

lemma not_nan_if: "below d x \<Longrightarrow> d \<noteq> NaN" "above d x \<Longrightarrow> d \<noteq> NaN" "is_fin d \<Longrightarrow> d \<noteq> NaN"
  by auto

lemma std_min_below: "a \<noteq> NaN \<Longrightarrow> b \<noteq> NaN \<Longrightarrow> below a x \<or> below b x \<Longrightarrow> below (std_min a b) x"
  by (cases "flt b a") (auto simp: std_min_def not_flt intro: below_fle[OF flt_fle] below_fle)

lemma std_max_above: "a \<noteq> NaN \<Longrightarrow> b \<noteq> NaN \<Longrightarrow> above a x \<or> above b x \<Longrightarrow> above (std_max a b) x"
  by (cases "flt a b") (auto simp: std_max_def not_flt intro: above_fle[OF flt_fle] above_fle)

lemma std_max_below: "below a x \<Longrightarrow> below b x \<Longrightarrow> below (std_max a b) x"
  by (simp add: std_max_def)

lemma std_min_above: "above a x \<Longrightarrow> above b x \<Longrightarrow> above (std_min a b) x"
  by (simp add: std_min_def)

lemma std_min_not_nan [simp]: "a \<noteq> NaN \<Longrightarrow> b \<noteq> NaN \<Longrightarrow> std_min a b \<noteq> NaN"
  by (simp add: std_min_def)

lemma std_max_not_nan [simp]: "a \<noteq> NaN \<Longrightarrow> b \<noteq> NaN \<Longrightarrow> std_max a b \<noteq> NaN"
  by (simp add: std_max_def)

section \<open>Arithmetic is bounded by its directed roundings\<close>

lemma fneg_bounds [bnd]: "above d x \<Longrightarrow> below (fneg d) (- x)" "below d x \<Longrightarrow> above (fneg d) (- x)"
  by (cases d; auto)+

lemma fval_fneg [simp]: "fval (fneg d) = - fval d"
  by (cases d) auto

lemma is_fin_fneg [simp]: "is_fin (fneg d) = is_fin d"
  by (cases d) auto

lemma fneg_fneg [simp]: "fneg (fneg d) = d"
  by (cases d) auto

lemma fneg_nan [simp]: "fneg d = NaN \<longleftrightarrow> d = NaN"
  by (cases d) auto

lemma dwf_fneg [simp]: "dwf (fneg d) = dwf d"
  by (cases d) auto

lemma fadd_fin: "is_fin x \<Longrightarrow> is_fin y \<Longrightarrow> fval x + fval y \<noteq> 0 \<Longrightarrow>
    fadd m x y = fround m (fval x + fval y)"
  by (cases x; cases y) auto

lemma fadd_cancel: "is_fin x \<Longrightarrow> is_fin y \<Longrightarrow> fval x + fval y = 0 \<Longrightarrow>
    is_fin (fadd m x y) \<and> fval (fadd m x y) = 0"
  by (cases x; cases y) (auto simp: fzero_def)

lemma below_fadd [bnd]:
  assumes "below a x" "below b y"
  shows "below (fadd RDown a b) (x + y)"
proof (cases "is_fin a \<and> is_fin b")
  case True
  have le: "fval a + fval b \<le> x + y" using assms True by (simp add: below_fin add_mono)
  show ?thesis
  proof (cases "fval a + fval b = 0")
    case z: True
    show ?thesis using fadd_cancel[of a b RDown] True z le by (simp add: below_fin)
  next
    case False
    show ?thesis using True False le
      by (simp add: fadd_fin below_mono[OF below_fround])
  qed
next
  case False
  then show ?thesis using assms by (cases a; cases b) auto
qed

lemma fadd_neg: "fadd RUp (fneg a) (fneg b) = fneg (fadd RDown a b)"
  if "a \<noteq> NaN" "b \<noteq> NaN" "is_fin a \<and> is_fin b \<longrightarrow> fval a + fval b = 0"
  using that by (cases a; cases b) (auto simp: fzero_def)

lemma above_fadd [bnd]:
  assumes "above a x" "above b y"
  shows "above (fadd RUp a b) (x + y)"
proof (cases "is_fin a \<and> is_fin b")
  case True
  have le: "x + y \<le> fval a + fval b" using assms True by (simp add: above_fin add_mono)
  show ?thesis
  proof (cases "fval a + fval b = 0")
    case z: True
    show ?thesis using fadd_cancel[of a b RUp] True z le by (simp add: above_fin)
  next
    case False
    show ?thesis using True False le
      by (simp add: fadd_fin above_mono[OF above_fround])
  qed
next
  case False
  then show ?thesis using assms by (cases a; cases b) auto
qed

lemma below_fsub [bnd]: "below a x \<Longrightarrow> above b y \<Longrightarrow> below (fsub RDown a b) (x - y)"
  using below_fadd[OF _ fneg_bounds(1)] by (simp add: fsub_def)

lemma above_fsub [bnd]: "above a x \<Longrightarrow> below b y \<Longrightarrow> above (fsub RUp a b) (x - y)"
  using above_fadd[OF _ fneg_bounds(2)] by (simp add: fsub_def)

lemma is_fin_not_inf: "is_fin d \<Longrightarrow> \<not> is_inf d" "is_inf d \<Longrightarrow> \<not> is_fin d"
  by (cases d; simp)+

lemma fval_fzero [simp]: "fval (fzero s) = 0" "is_fin (fzero s)"
  by (simp_all add: fzero_def)

lemma fmul_fin_cases: "is_fin a \<Longrightarrow> is_fin b \<Longrightarrow>
    fmul m a b = (if fval a * fval b = 0 then fzero (signbit a \<noteq> signbit b)
                  else fround m (fval a * fval b))"
  by (auto simp: fmul_def is_zero_def is_fin_not_inf)

lemma below_fmul [bnd]: "is_fin a \<Longrightarrow> is_fin b \<Longrightarrow> below (fmul RDown a b) (fval a * fval b)"
  by (simp add: fmul_fin_cases below_fin below_fround)

lemma above_fmul [bnd]: "is_fin a \<Longrightarrow> is_fin b \<Longrightarrow> above (fmul RUp a b) (fval a * fval b)"
  by (simp add: fmul_fin_cases above_fin above_fround)

lemma fmul_fin_not_nan: "is_fin a \<Longrightarrow> is_fin b \<Longrightarrow> fmul m a b \<noteq> NaN"
  by (simp add: fmul_fin_cases fzero_def)

lemma fdiv_fin_cases: "is_fin a \<Longrightarrow> is_fin b \<Longrightarrow> fval b \<noteq> 0 \<Longrightarrow>
    fdiv m a b = (if fval a = 0 then fzero (signbit a \<noteq> signbit b)
                  else fround m (fval a / fval b))"
  by (auto simp: fdiv_def is_zero_def is_fin_not_inf)

lemma below_fdiv [bnd]:
  "is_fin a \<Longrightarrow> is_fin b \<Longrightarrow> fval b \<noteq> 0 \<Longrightarrow> below (fdiv RDown a b) (fval a / fval b)"
  by (simp add: fdiv_fin_cases below_fin below_fround)

lemma above_fdiv [bnd]:
  "is_fin a \<Longrightarrow> is_fin b \<Longrightarrow> fval b \<noteq> 0 \<Longrightarrow> above (fdiv RUp a b) (fval a / fval b)"
  by (simp add: fdiv_fin_cases above_fin above_fround)

lemma fdiv_fin_not_nan: "is_fin a \<Longrightarrow> is_fin b \<Longrightarrow> fval b \<noteq> 0 \<Longrightarrow> fdiv m a b \<noteq> NaN"
  by (simp add: fdiv_fin_cases fzero_def)

lemma nudge_pos: "0 < nudge r"
  by (simp add: nudge_def)

lemma below_next_dn [bnd]: "below d x \<Longrightarrow> below (next_dn d) x"
proof -
  assume b: "below d x"
  have "below (fround RDown (r - nudge r)) x" if "r \<le> x" for r
    by (rule below_mono[OF below_fround]) (use that nudge_pos[of r] in linarith)
  moreover have "- (2 powi (- 1074)) \<le> x" if "0 \<le> x" using powi2_pos[of "- 1074"] that by linarith
  ultimately show ?thesis using b
    by (cases d) (auto simp del: power_int_minus power_int_numeral_neg_numeral)
qed

lemma above_next_up [bnd]: "above d x \<Longrightarrow> above (next_up d) x"
proof -
  assume b: "above d x"
  have "above (fround RUp (r + nudge r)) x" if "x \<le> r" for r
    by (rule above_mono[OF above_fround]) (use that nudge_pos[of r] in linarith)
  moreover have "x \<le> 2 powi (- 1074)" if "x \<le> 0" using powi2_pos[of "- 1074"] that by linarith
  ultimately show ?thesis using b
    by (cases d) (auto simp del: power_int_minus power_int_numeral_neg_numeral)
qed

lemma fadd_pos: "is_fin a \<Longrightarrow> is_fin b \<Longrightarrow> flt (Fin 0) (fadd m a b) \<Longrightarrow> 0 < fval a + fval b"
  using fadd_cancel[of a b m] fround_pos[of m "fval a + fval b"] fadd_fin[of a b m]
  by (cases "fval a + fval b = 0") (auto simp: flt_fin)

section \<open>Square root, floor and ceiling\<close>

text \<open>The integer square root, by dividing by four.\<close>

fun floor_root :: "nat \<Rightarrow> nat" where
  "floor_root n =
     (if n = 0 then 0
      else let r = 2 * floor_root (n div 4) in if (r + 1) * (r + 1) \<le> n then r + 1 else r)"

declare floor_root.simps [simp del]

lemma floor_root_bounds: "floor_root n * floor_root n \<le> n \<and> n < (floor_root n + 1) * (floor_root n + 1)"
proof (induction n rule: floor_root.induct)
  case (1 n)
  show ?case
  proof (cases "n = 0")
    case False
    define s where "s = floor_root (n div 4)"
    have ih: "s * s \<le> n div 4" "n div 4 < (s + 1) * (s + 1)"
      using 1 False by (simp_all add: s_def)
    have "4 * (s * s) \<le> n" and "n < 4 * ((s + 1) * (s + 1))"
      using ih by linarith+
    then have a: "(2 * s) * (2 * s) \<le> n" and b: "n < (2 * s + 2) * (2 * s + 2)"
      by (simp_all add: algebra_simps)
    show ?thesis
      using False a b by (subst (1 2 3 4) floor_root.simps) (auto simp: s_def[symmetric] Let_def not_le)
  qed (simp add: floor_root.simps)
qed

definition fround_sqrt :: "rmode \<Rightarrow> real \<Rightarrow> real" where
  "fround_sqrt m r =
     (let u = 2 powi (ilog2 r div 2 - 52); s = real (floor_root (nat \<lfloor>r / (u * u)\<rfloor>))
      in case m of
           RDown \<Rightarrow> s * u
         | RUp \<Rightarrow> (if s * u * (s * u) = r then s * u else (s + 1) * u)
         | RNear \<Rightarrow> (if r \<le> (s + 1 / 2) * u * ((s + 1 / 2) * u) then s * u else (s + 1) * u))"

fun fsqrt :: "rmode \<Rightarrow> double \<Rightarrow> double" where
  "fsqrt m NaN = NaN"
| "fsqrt m PInf = PInf"
| "fsqrt m NInf = NaN"
| "fsqrt m NegZero = NegZero"
| "fsqrt m (Fin r) = (if r < 0 then NaN else if r = 0 then Fin 0 else Fin (fround_sqrt m r))"

lemma fround_sqrt_bounds:
  assumes "0 < r"
  shows "fround_sqrt RDown r \<le> sqrt r" and "sqrt r \<le> fround_sqrt RUp r"
proof -
  define u :: real where "u = 2 powi (ilog2 r div 2 - 52)"
  define s where "s = floor_root (nat \<lfloor>r / (u * u)\<rfloor>)"
  have u: "0 < u" by (simp add: u_def)
  have x: "0 \<le> r / (u * u)" using assms by simp
  have f: "real (nat \<lfloor>r / (u * u)\<rfloor>) \<le> r / (u * u)" using x by simp
  have g: "r / (u * u) < real (nat \<lfloor>r / (u * u)\<rfloor>) + 1" using x by linarith
  have "real (s * s) \<le> real (nat \<lfloor>r / (u * u)\<rfloor>)"
    using floor_root_bounds[of "nat \<lfloor>r / (u * u)\<rfloor>"] unfolding s_def of_nat_le_iff by simp
  then have "real s * real s \<le> r / (u * u)" using f by simp
  then have lo: "real s * u * (real s * u) \<le> r" using u by (simp add: pos_le_divide_eq algebra_simps)
  have "nat \<lfloor>r / (u * u)\<rfloor> + 1 \<le> (s + 1) * (s + 1)"
    using floor_root_bounds[of "nat \<lfloor>r / (u * u)\<rfloor>"] by (simp add: s_def)
  then have "real (nat \<lfloor>r / (u * u)\<rfloor> + 1) \<le> real ((s + 1) * (s + 1))"
    by (simp only: of_nat_le_iff)
  then have "real (nat \<lfloor>r / (u * u)\<rfloor>) + 1 \<le> (real s + 1) * (real s + 1)"
    by (simp only: of_nat_add of_nat_mult of_nat_1)
  then have "r / (u * u) \<le> (real s + 1) * (real s + 1)" using g by linarith
  then have hi: "r \<le> (real s + 1) * u * ((real s + 1) * u)"
    using u by (simp add: pos_divide_le_eq algebra_simps)
  have "real s * u \<le> sqrt r"
    by (rule real_le_rsqrt) (use lo in \<open>simp add: power2_eq_square\<close>)
  then show "fround_sqrt RDown r \<le> sqrt r"
    by (simp add: fround_sqrt_def Let_def s_def u_def)
  have "sqrt r \<le> (real s + 1) * u"
    using hi u by (intro real_le_lsqrt) (simp_all add: power2_eq_square)
  moreover have "sqrt r = real s * u" if "real s * u * (real s * u) = r"
  proof -
    have "sqrt r = sqrt (real s * u * (real s * u))" using that by simp
    also have "\<dots> = \<bar>real s * u\<bar>" by (rule real_sqrt_abs2)
    finally show ?thesis using u by simp
  qed
  ultimately show "sqrt r \<le> fround_sqrt RUp r"
    by (auto simp: fround_sqrt_def Let_def s_def u_def)
qed

lemma below_fsqrt [bnd]: "is_fin d \<Longrightarrow> 0 \<le> fval d \<Longrightarrow> below (fsqrt RDown d) (sqrt (fval d))"
  using fround_sqrt_bounds(1)[of "fval d"] by (cases d) auto

lemma above_fsqrt [bnd]: "is_fin d \<Longrightarrow> 0 \<le> fval d \<Longrightarrow> above (fsqrt RUp d) (sqrt (fval d))"
  using fround_sqrt_bounds(2)[of "fval d"] by (cases d) auto

text \<open>\<open>std::floor\<close> and \<open>std::ceil\<close>; a negative value above \<open>-1\<close> has the ceiling \<open>-0\<close>.\<close>

fun ffloor :: "double \<Rightarrow> double" where
  "ffloor (Fin r) = Fin (of_int \<lfloor>r\<rfloor>)"
| "ffloor d = d"

fun fceil :: "double \<Rightarrow> double" where
  "fceil (Fin r) = (if \<lceil>r\<rceil> = 0 \<and> r < 0 then NegZero else Fin (of_int \<lceil>r\<rceil>))"
| "fceil d = d"

section \<open>The mathematical library\<close>

text \<open>
  The transcendental functions of \<open>libm\<close> are implementation-defined: they are a parameter of
  the model. What the enclosures rely on is stated as \<open>faithful\<close>: the result is one of the two
  doubles next to the true value, which is the accuracy the C library documents (below one unit
  in the last place).
\<close>

record libm =
  l_sin :: "double \<Rightarrow> double"
  l_cos :: "double \<Rightarrow> double"
  l_tan :: "double \<Rightarrow> double"
  l_exp :: "double \<Rightarrow> double"
  l_log :: "double \<Rightarrow> double"
  l_pow :: "double \<Rightarrow> double \<Rightarrow> double"

definition faithful :: "double \<Rightarrow> real \<Rightarrow> bool" where
  "faithful d x \<longleftrightarrow> d = fround RDown x \<or> d = fround RUp x"

text \<open>One step down from the upward rounding is a lower bound, one step up from the downward
  rounding an upper bound: the neighbour of the least double above \<open>q\<close> lies below \<open>q\<close>.\<close>

lemma representable_tiny: "representable (2 powi (- 1074))"
  unfolding representable_def by (intro exI[of _ 1] exI[of _ "- 1074"]) simp

lemma dwf_fval: "is_fin d \<Longrightarrow> dwf d \<Longrightarrow> representable (fval d)"
  by (cases d) auto

lemma below_next_dn_up: "below (next_dn (fround RUp q)) q"
proof -
  define d where "d = fround RUp q"
  have least: "fval d \<le> p" if "representable p" "q \<le> p" "is_fin d" for p
    using fround_up_least[OF that(1,2)] that(3) fle_fin[of d "Fin p"] by (simp add: d_def)
  consider "d = PInf" | "is_fin d" | "d = NInf"
    using fround_not_nan[of RUp q] unfolding d_def[symmetric] by (cases d) auto
  then have "below (next_dn d) q"
  proof cases
    case 1
    have "max_fin \<le> q"
    proof (rule ccontr)
      assume "\<not> max_fin \<le> q"
      then have "fle d (Fin max_fin)" unfolding d_def by (intro fround_up_least) simp_all
      then show False using 1 by simp
    qed
    then show ?thesis using 1 by simp
  next
    case 2
    define r where "r = fval d"
    show ?thesis
    proof (cases "r = 0")
      case True
      have "- (2 powi (- 1074)) \<le> q"
      proof (rule ccontr)
        assume "\<not> - (2 powi (- 1074)) \<le> q"
        then have "r \<le> - (2 powi (- 1074))"
          using least[of "- (2 powi (- 1074))"] representable_tiny 2 unfolding r_def by simp
        then show False using True powi2_pos[of "- 1074"] by linarith
      qed
      then show ?thesis using 2 True
        by (cases d) (simp_all add: r_def del: power_int_minus power_int_numeral_neg_numeral)
    next
      case False
      define p where "p = fround RDown (r - nudge r)"
      have n: "next_dn d = p" using 2 False by (cases d) (simp_all add: r_def p_def)
      have b: "below p (r - nudge r)" by (simp add: p_def below_fround)
      show ?thesis
      proof (cases "is_fin p")
        case True
        have "fval p < r" using b True nudge_pos[of r] by (simp add: below_fin)
        moreover have "r \<le> fval p" if "q \<le> fval p"
          using least[OF dwf_fval[OF True] that 2] by (simp add: r_def p_def)
        ultimately have "fval p \<le> q" by linarith
        then show ?thesis using True n by (simp add: below_fin)
      next
        case False
        then show ?thesis using b n by (cases p) auto
      qed
    qed
  next
    case 3
    then show ?thesis by simp
  qed
  then show ?thesis by (simp add: d_def)
qed

lemma fround_uminus: "q \<noteq> 0 \<Longrightarrow> fround RUp (- q) = fneg (fround RDown q)"
proof -
  assume q: "q \<noteq> 0"
  have g: "grid RUp (- q) = - grid RDown q" by (simp add: grid_up_dn)
  have "0 < max_fin" by (simp add: max_fin_def)
  then show ?thesis using q by (auto simp: fround_def g Let_def overflows_def)
qed

lemma above_below: "above d x \<longleftrightarrow> below (fneg d) (- x)"
  by (cases d) auto

lemma above_fround_uminus: "above (fround RUp q) x \<longleftrightarrow> below (fround RDown (- q)) (- x)"
  using fround_uminus[of "- q"] by (cases "q = 0") (auto simp: above_below)

lemma nudge_uminus [simp]: "nudge (- r) = nudge r"
  by (simp add: nudge_def)

lemma above_next_up_iff: "above (next_up d) x \<longleftrightarrow> below (next_dn (fneg d)) (- x)"
proof (cases d)
  case (Fin r)
  have "above (fround RUp (r + nudge r)) x \<longleftrightarrow> below (fround RDown (- r - nudge r)) (- x)"
    using above_fround_uminus[of "r + nudge r" x] by (simp add: algebra_simps)
  then show ?thesis using Fin by (auto simp del: power_int_minus power_int_numeral_neg_numeral)
qed (auto simp del: power_int_minus power_int_numeral_neg_numeral)

lemma above_next_up_dn: "above (next_up (fround RDown q)) q"
proof (cases "q = 0")
  case True
  then show ?thesis using powi2_pos[of "- 1074"]
    by (simp add: less_imp_le del: power_int_minus power_int_numeral_neg_numeral)
next
  case False
  then show ?thesis
    using below_next_dn_up[of "- q"] fround_uminus[OF False] by (simp add: above_next_up_iff)
qed

lemma faithful_below: "faithful d x \<Longrightarrow> below (next_dn d) x"
  unfolding faithful_def using below_next_dn[OF below_fround] below_next_dn_up by blast

lemma faithful_above: "faithful d x \<Longrightarrow> above (next_up d) x"
  unfolding faithful_def using above_next_up[OF above_fround] above_next_up_dn by blast

section \<open>Directed sums are the tightest\<close>

lemma fadd_real: "is_fin a \<Longrightarrow> is_fin b \<Longrightarrow> fval a + fval b \<noteq> 0 \<Longrightarrow> fadd m a b = fround m (fval a + fval b)"
  by (cases a; cases b) auto

lemma fadd_real_zero: "is_fin a \<Longrightarrow> is_fin b \<Longrightarrow> fval a + fval b = 0 \<Longrightarrow> is_fin (fadd m a b) \<and> fval (fadd m a b) = 0"
  by (cases a; cases b) (auto simp: fzero_def)

lemma fadd_tight:
  assumes "is_fin a" "is_fin b" "representable d"
  shows "d \<le> fval a + fval b \<Longrightarrow> fle (Fin d) (fadd RDown a b)"
    and "fval a + fval b \<le> d \<Longrightarrow> fle (fadd RUp a b) (Fin d)"
proof -
  have z: "is_fin x \<Longrightarrow> fval x = 0 \<Longrightarrow> fle (Fin d) x \<longleftrightarrow> d \<le> 0" "is_fin x \<Longrightarrow> fval x = 0 \<Longrightarrow> fle x (Fin d) \<longleftrightarrow> 0 \<le> d" for x
    by (cases x; auto simp: fle_def)+
  show "d \<le> fval a + fval b \<Longrightarrow> fle (Fin d) (fadd RDown a b)"
    using fround_dn_greatest[OF assms(3)] fadd_real[OF assms(1,2), of RDown] fadd_real_zero[OF assms(1,2), of RDown] z(1)
    by (cases "fval a + fval b = 0") auto
  show "fval a + fval b \<le> d \<Longrightarrow> fle (fadd RUp a b) (Fin d)"
    using fround_up_least[OF assms(3)] fadd_real[OF assms(1,2), of RUp] fadd_real_zero[OF assms(1,2), of RUp] z(2)
    by (cases "fval a + fval b = 0") auto
qed

end
