(* ===== verification/Fve_Interval.thy ===== *)
theory Fve_Interval
  imports Fve_Double
begin

text \<open>
  The interval type of \<open>core/interval\<close>: pairs of doubles, every operation of \<open>ival.cpp\<close> in
  its order of tests, with the rounding direction of each arithmetic step written out. The
  membership predicate \<open>imem\<close> gives an interval its meaning, the set of reals it encloses; the
  inclusion lemmas state that an operation applied to enclosures encloses the real operation.
\<close>

record ival =
  lo :: double
  hi :: double

abbreviation Ival :: "double \<Rightarrow> double \<Rightarrow> ival" where
  "Ival l h \<equiv> \<lparr>lo = l, hi = h\<rparr>"

definition point :: "double \<Rightarrow> ival" where
  "point x = Ival x x"

definition ival_of :: "double \<Rightarrow> double \<Rightarrow> ival" where
  "ival_of a b = (if fle a b then Ival a b else Ival b a)"

definition ival_empty :: ival where
  "ival_empty = Ival PInf NInf"

definition entire :: ival where
  "entire = Ival NInf PInf"

definition nonneg :: ival where
  "nonneg = Ival (Fin 0) PInf"

definition is_empty :: "ival \<Rightarrow> bool" where
  "is_empty a = flt (hi a) (lo a)"

definition is_entire :: "ival \<Rightarrow> bool" where
  "is_entire a = (feq (lo a) NInf \<and> feq (hi a) PInf)"

definition ival_contains :: "ival \<Rightarrow> double \<Rightarrow> bool" where
  "ival_contains a x = (\<not> is_empty a \<and> fle (lo a) x \<and> fle x (hi a))"

definition ival_subset :: "ival \<Rightarrow> ival \<Rightarrow> bool" where
  "ival_subset a b =
     (if is_empty a then True
      else if is_empty b then False
      else fle (lo b) (lo a) \<and> fle (hi a) (hi b))"

text \<open>The outward slack of two units in the last place; infinities and NaN stay.\<close>

definition slack_dn :: "double \<Rightarrow> double" where
  "slack_dn x = (if is_inf x \<or> x = NaN then x else next_dn (next_dn x))"

definition slack_up :: "double \<Rightarrow> double" where
  "slack_up x = (if is_inf x \<or> x = NaN then x else next_up (next_up x))"

definition width :: "ival \<Rightarrow> double" where
  "width a = (if is_empty a then Fin 0 else slack_up (fsub RNear (hi a) (lo a)))"

definition mid :: "ival \<Rightarrow> double" where
  "mid a = (if is_empty a then NaN else fmul RNear (Fin (1 / 2)) (fadd RNear (lo a) (hi a)))"

definition mag :: "ival \<Rightarrow> double" where
  "mag a = (if is_empty a then Fin 0 else std_max (fabs (lo a)) (fabs (hi a)))"

definition ival_eq :: "ival \<Rightarrow> ival \<Rightarrow> bool" where
  "ival_eq a b = ((is_empty a \<and> is_empty b) \<or> (feq (lo a) (lo b) \<and> feq (hi a) (hi b)))"

section \<open>Arithmetic\<close>

definition dmin4 :: "double \<Rightarrow> double \<Rightarrow> double \<Rightarrow> double \<Rightarrow> double" where
  "dmin4 a b c d = std_min (std_min a b) (std_min c d)"

definition dmax4 :: "double \<Rightarrow> double \<Rightarrow> double \<Rightarrow> double \<Rightarrow> double" where
  "dmax4 a b c d = std_max (std_max a b) (std_max c d)"

definition neg :: "ival \<Rightarrow> ival" where
  "neg a = (if is_empty a then a else Ival (fneg (hi a)) (fneg (lo a)))"

definition add :: "ival \<Rightarrow> ival \<Rightarrow> ival" where
  "add a b =
     (if is_empty a \<or> is_empty b then ival_empty
      else Ival (fadd RDown (lo a) (lo b)) (fadd RUp (hi a) (hi b)))"

definition sub :: "ival \<Rightarrow> ival \<Rightarrow> ival" where
  "sub a b =
     (if is_empty a \<or> is_empty b then ival_empty
      else Ival (fsub RDown (lo a) (hi b)) (fsub RUp (hi a) (lo b)))"

definition mul :: "ival \<Rightarrow> ival \<Rightarrow> ival" where
  "mul a b =
     (if is_empty a \<or> is_empty b then ival_empty
      else Ival
        (dmin4 (fmul RDown (lo a) (lo b)) (fmul RDown (lo a) (hi b))
               (fmul RDown (hi a) (lo b)) (fmul RDown (hi a) (hi b)))
        (dmax4 (fmul RUp (lo a) (lo b)) (fmul RUp (lo a) (hi b))
               (fmul RUp (hi a) (lo b)) (fmul RUp (hi a) (hi b))))"

definition divi :: "ival \<Rightarrow> ival \<Rightarrow> ival" where
  "divi a b =
     (if is_empty a \<or> is_empty b then ival_empty
      else if fle (lo b) (Fin 0) \<and> fle (Fin 0) (hi b) then entire
      else Ival
        (dmin4 (fdiv RDown (lo a) (lo b)) (fdiv RDown (lo a) (hi b))
               (fdiv RDown (hi a) (lo b)) (fdiv RDown (hi a) (hi b)))
        (dmax4 (fdiv RUp (lo a) (lo b)) (fdiv RUp (lo a) (hi b))
               (fdiv RUp (hi a) (lo b)) (fdiv RUp (hi a) (hi b))))"

definition sqr :: "ival \<Rightarrow> ival" where
  "sqr a =
     (if is_empty a then a
      else let l = fabs (lo a); h = fabs (hi a);
               mx = std_max l h;
               mn = (if fle (lo a) (Fin 0) \<and> fle (Fin 0) (hi a) then Fin 0 else std_min l h)
           in Ival (fmul RDown mn mn) (fmul RUp mx mx))"

text \<open>The square-and-multiply loop of \<open>ipow\<close>, on the exponent.\<close>

fun pow_loop :: "ival \<Rightarrow> ival \<Rightarrow> nat \<Rightarrow> ival" where
  "pow_loop r base e =
     (if e = 0 then r
      else let r' = (if odd e then mul r base else r);
               e' = e div 2;
               base' = (if e' \<noteq> 0 then mul base base else base)
           in pow_loop r' base' e')"

declare pow_loop.simps [simp del]

definition ipow_pos :: "ival \<Rightarrow> nat \<Rightarrow> ival" where
  "ipow_pos a n =
     (if is_empty a then a
      else if n = 0 then point (Fin 1)
      else let r = pow_loop (point (Fin 1)) a n
           in if even n \<and> flt (lo a) (Fin 0) \<and> flt (Fin 0) (hi a) then r\<lparr>lo := Fin 0\<rparr> else r)"

definition ipow :: "ival \<Rightarrow> int \<Rightarrow> ival" where
  "ipow a n =
     (if is_empty a then a
      else if n = 0 then point (Fin 1)
      else if n < 0 then divi (point (Fin 1)) (ipow_pos a (nat (- n)))
      else ipow_pos a (nat n))"

definition isqrt :: "ival \<Rightarrow> ival" where
  "isqrt a =
     (if is_empty a then a
      else if flt (hi a) (Fin 0) then ival_empty
      else Ival (fsqrt RDown (std_max (lo a) (Fin 0))) (fsqrt RUp (hi a)))"

text \<open>A real exponent: integers of moderate size go to \<open>ipow\<close>, the rest through \<open>pow\<close>.\<close>

definition rpow :: "libm \<Rightarrow> ival \<Rightarrow> double \<Rightarrow> ival" where
  "rpow L a p =
     (if is_empty a then a
      else if feq (ffloor p) p \<and> flt (fabs p) (Fin 1000000000) then ipow a \<lfloor>fval p\<rfloor>
      else let l = std_max (lo a) (Fin 0); h = std_max (hi a) (Fin 0)
           in if flt (hi a) (Fin 0) then ival_empty
              else let fl = l_pow L l p; fh = l_pow L h p
                   in Ival (slack_dn (std_min fl fh)) (slack_up (std_max fl fh)))"

definition ilog :: "libm \<Rightarrow> ival \<Rightarrow> ival" where
  "ilog L a =
     (if is_empty a then a
      else if fle (hi a) (Fin 0) then ival_empty
      else Ival (if fle (lo a) (Fin 0) then NInf else slack_dn (l_log L (lo a)))
                (slack_up (l_log L (hi a))))"

definition iexp :: "libm \<Rightarrow> ival \<Rightarrow> ival" where
  "iexp L a =
     (if is_empty a then a else Ival (slack_dn (l_exp L (lo a))) (slack_up (l_exp L (hi a))))"

text \<open>The double nearest to pi, and the test for a critical point \<open>base + k * period\<close>.\<close>

definition PI :: double where
  "PI = Fin (884279719003555 / 281474976710656)"

definition crit_in :: "double \<Rightarrow> double \<Rightarrow> double \<Rightarrow> double \<Rightarrow> bool" where
  "crit_in base period l h =
     (let k0 = fceil (fdiv RNear (fsub RNear l base) period);
          v = fadd RNear base (fmul RNear k0 period)
      in fle l v \<and> fle v h)"

definition TWO_PI :: double where
  "TWO_PI = fmul RNear (Fin 2) PI"

definition HALF_PI :: double where
  "HALF_PI = fdiv RNear PI (Fin 2)"

definition isin :: "libm \<Rightarrow> ival \<Rightarrow> ival" where
  "isin L a =
     (if is_empty a then a
      else if fle TWO_PI (width a) then Ival (Fin (- 1)) (Fin 1)
      else let sl = l_sin L (lo a); sh = l_sin L (hi a);
               h = (if crit_in HALF_PI TWO_PI (lo a) (hi a) then Fin 1 else std_max sl sh);
               l = (if crit_in (fneg HALF_PI) TWO_PI (lo a) (hi a) then Fin (- 1) else std_min sl sh)
           in Ival (std_max (Fin (- 1)) (slack_dn l)) (std_min (Fin 1) (slack_up h)))"

definition icos :: "libm \<Rightarrow> ival \<Rightarrow> ival" where
  "icos L a =
     (if is_empty a then a
      else if fle TWO_PI (width a) then Ival (Fin (- 1)) (Fin 1)
      else let cl = l_cos L (lo a); ch = l_cos L (hi a);
               h = (if crit_in (Fin 0) TWO_PI (lo a) (hi a) then Fin 1 else std_max cl ch);
               l = (if crit_in PI TWO_PI (lo a) (hi a) then Fin (- 1) else std_min cl ch)
           in Ival (std_max (Fin (- 1)) (slack_dn l)) (std_min (Fin 1) (slack_up h)))"

definition itan :: "libm \<Rightarrow> ival \<Rightarrow> ival" where
  "itan L a =
     (if is_empty a then a
      else if fle PI (width a) then entire
      else if crit_in HALF_PI PI (lo a) (hi a) then entire
      else Ival (slack_dn (l_tan L (lo a))) (slack_up (l_tan L (hi a))))"

definition ihull :: "ival \<Rightarrow> ival \<Rightarrow> ival" where
  "ihull a b =
     (if is_empty a then b
      else if is_empty b then a
      else Ival (std_min (lo a) (lo b)) (std_max (hi a) (hi b)))"

definition meet :: "ival \<Rightarrow> ival \<Rightarrow> ival" where
  "meet a b =
     (if is_empty a \<or> is_empty b then ival_empty
      else let l = std_max (lo a) (lo b); h = std_min (hi a) (hi b)
           in if fle l h then Ival l h else ival_empty)"

section \<open>The reals an interval encloses\<close>

definition imem :: "real \<Rightarrow> ival \<Rightarrow> bool" where
  "imem x a \<longleftrightarrow> below (lo a) x \<and> above (hi a) x"

definition ifin :: "ival \<Rightarrow> bool" where
  "ifin a \<longleftrightarrow> is_fin (lo a) \<and> is_fin (hi a)"

lemma imemI: "below (lo a) x \<Longrightarrow> above (hi a) x \<Longrightarrow> imem x a"
  by (simp add: imem_def)

lemma imem_not_empty: "imem x a \<Longrightarrow> \<not> is_empty a"
  using below_above_le[of "lo a" x "hi a"] not_flt[of "hi a" "lo a"]
  by (auto simp: imem_def is_empty_def dest: not_nan_if)

lemma imem_fin: "ifin a \<Longrightarrow> imem x a \<longleftrightarrow> fval (lo a) \<le> x \<and> x \<le> fval (hi a)"
  by (simp add: imem_def ifin_def below_fin above_fin)

lemma imem_entire [simp]: "imem x entire"
  by (simp add: imem_def entire_def)

lemma imem_empty [simp]: "\<not> imem x ival_empty"
  by (simp add: imem_def ival_empty_def)

lemma imem_point: "is_fin d \<Longrightarrow> imem (fval d) (point d)"
  by (simp add: imem_def point_def below_fin above_fin)

lemma imem_subset: "ival_subset a b \<Longrightarrow> imem x a \<Longrightarrow> imem x b"
  using imem_not_empty[of x a] by (auto simp: ival_subset_def imem_def split: if_splits
      intro: below_fle above_fle)

section \<open>Inclusion\<close>

theorem neg_incl [encl]: "imem x a \<Longrightarrow> imem (- x) (neg a)"
  by (auto simp: neg_def imem_not_empty imem_def bnd)

theorem add_incl [encl]: "imem x a \<Longrightarrow> imem y b \<Longrightarrow> imem (x + y) (add a b)"
  by (auto simp: add_def dest: imem_not_empty) (auto simp: imem_def bnd)

theorem sub_incl [encl]: "imem x a \<Longrightarrow> imem y b \<Longrightarrow> imem (x - y) (sub a b)"
  by (auto simp: sub_def dest: imem_not_empty) (auto simp: imem_def bnd)

text \<open>A bilinear form on a box takes its extreme values at the corners.\<close>

lemma mult_corners:
  fixes x y :: real
  assumes "al \<le> x" "x \<le> ah" "bl \<le> y" "y \<le> bh"
  shows "al * bl \<le> x * y \<or> al * bh \<le> x * y \<or> ah * bl \<le> x * y \<or> ah * bh \<le> x * y"
    and "x * y \<le> al * bl \<or> x * y \<le> al * bh \<or> x * y \<le> ah * bl \<or> x * y \<le> ah * bh"
proof -
  have lin: "(p * bl \<le> p * y \<and> p * y \<le> p * bh) \<or> (p * bh \<le> p * y \<and> p * y \<le> p * bl)" for p
    using assms(3,4) mult_left_mono[of bl y p] mult_left_mono[of y bh p]
      mult_left_mono_neg[of bl y p] mult_left_mono_neg[of y bh p] by linarith
  have liny: "(al * y \<le> x * y \<and> x * y \<le> ah * y) \<or> (ah * y \<le> x * y \<and> x * y \<le> al * y)"
    using assms(1,2) mult_right_mono[of al x y] mult_right_mono[of x ah y]
      mult_right_mono_neg[of al x y] mult_right_mono_neg[of x ah y] by linarith
  show "al * bl \<le> x * y \<or> al * bh \<le> x * y \<or> ah * bl \<le> x * y \<or> ah * bh \<le> x * y"
    using lin[of al] lin[of ah] liny by linarith
  show "x * y \<le> al * bl \<or> x * y \<le> al * bh \<or> x * y \<le> ah * bl \<or> x * y \<le> ah * bh"
    using lin[of al] lin[of ah] liny by linarith
qed

lemma dmin4_below:
  assumes "a \<noteq> NaN" "b \<noteq> NaN" "c \<noteq> NaN" "d \<noteq> NaN"
    and "below a x \<or> below b x \<or> below c x \<or> below d x"
  shows "below (dmin4 a b c d) x"
  unfolding dmin4_def using assms by (intro std_min_below) (auto intro: std_min_below)

lemma dmax4_above:
  assumes "a \<noteq> NaN" "b \<noteq> NaN" "c \<noteq> NaN" "d \<noteq> NaN"
    and "above a x \<or> above b x \<or> above c x \<or> above d x"
  shows "above (dmax4 a b c d) x"
  unfolding dmax4_def using assms by (intro std_max_above) (auto intro: std_max_above)

theorem mul_incl [encl]:
  assumes "ifin a" "ifin b" "imem x a" "imem y b"
  shows "imem (x * y) (mul a b)"
proof -
  note f = assms(1,2)[unfolded ifin_def]
  note c = mult_corners[of "fval (lo a)" x "fval (hi a)" "fval (lo b)" y "fval (hi b)"]
  have r: "fval (lo a) \<le> x" "x \<le> fval (hi a)" "fval (lo b) \<le> y" "y \<le> fval (hi b)"
    using assms by (simp_all add: imem_fin)
  have "below (lo (mul a b)) (x * y)"
    using c(1)[OF r] assms f
    by (auto simp: mul_def imem_not_empty fmul_fin_not_nan intro!: dmin4_below
        intro: below_mono[OF below_fmul])
  moreover have "above (hi (mul a b)) (x * y)"
    using c(2)[OF r] assms f
    by (auto simp: mul_def imem_not_empty fmul_fin_not_nan intro!: dmax4_above
        intro: above_mono[OF above_fmul])
  ultimately show ?thesis by (rule imemI)
qed

lemma recip_antimono: "y \<le> z \<Longrightarrow> 0 < y \<or> z < 0 \<Longrightarrow> 1 / z \<le> 1 / (y::real)"
  by (auto simp: field_split_simps)

text \<open>When the divisor may be zero the result is the entire line, so the quotient needs no
  hypothesis on \<open>y\<close>.\<close>

theorem divi_incl [encl]:
  assumes "ifin a" "ifin b" "imem x a" "imem y b"
  shows "imem (x / y) (divi a b)"
proof (cases "fle (lo b) (Fin 0) \<and> fle (Fin 0) (hi b)")
  case True
  then show ?thesis using assms by (simp add: divi_def imem_not_empty)
next
  case False
  note f = assms(1,2)[unfolded ifin_def]
  have r: "fval (lo a) \<le> x" "x \<le> fval (hi a)" "fval (lo b) \<le> y" "y \<le> fval (hi b)"
    using assms by (simp_all add: imem_fin)
  have same: "0 < fval (lo b) \<or> fval (hi b) < 0"
    using False f fle_fin[of "lo b" "Fin 0"] fle_fin[of "Fin 0" "hi b"] by auto
  then have nz: "fval (lo b) \<noteq> 0" "fval (hi b) \<noteq> 0" using r by auto
  have inv: "1 / fval (hi b) \<le> 1 / y" "1 / y \<le> 1 / fval (lo b)"
    using same r by (auto intro: recip_antimono)
  note c = mult_corners[OF r(1,2) inv]
  have e: "x * (1 / y) = x / y" "\<And>p. p * (1 / fval (hi b)) = p / fval (hi b)"
    "\<And>p. p * (1 / fval (lo b)) = p / fval (lo b)" by simp_all
  have "below (lo (divi a b)) (x / y)"
    using c(1)[unfolded e] assms f nz False
    by (auto simp: divi_def imem_not_empty fdiv_fin_not_nan intro!: dmin4_below
        intro: below_mono[OF below_fdiv])
  moreover have "above (hi (divi a b)) (x / y)"
    using c(2)[unfolded e] assms f nz False
    by (auto simp: divi_def imem_not_empty fdiv_fin_not_nan intro!: dmax4_above
        intro: above_mono[OF above_fdiv])
  ultimately show ?thesis by (rule imemI)
qed

theorem ihull_incl: "imem x a \<or> imem x b \<Longrightarrow> lo a \<noteq> NaN \<Longrightarrow> hi a \<noteq> NaN \<Longrightarrow> lo b \<noteq> NaN \<Longrightarrow>
    hi b \<noteq> NaN \<Longrightarrow> imem x (ihull a b)"
  using imem_not_empty[of x a] imem_not_empty[of x b]
  by (auto simp: ihull_def imem_def intro: std_min_below std_max_above)

theorem meet_incl: "imem x a \<Longrightarrow> imem x b \<Longrightarrow> imem x (meet a b)"
  using imem_not_empty[of x a] imem_not_empty[of x b]
    below_above_le[OF std_max_below[of "lo a" x "lo b"] std_min_above[of "hi a" x "hi b"]]
  by (auto simp: meet_def Let_def imem_def std_max_below std_min_above)

lemma sqr_incl [encl]: "ifin a \<Longrightarrow> imem x a \<Longrightarrow> imem (x * x) (sqr a)"
proof -
  assume f: "ifin a" and m: "imem x a"
  have r: "fval (lo a) \<le> x" "x \<le> fval (hi a)" using m f by (simp_all add: imem_fin)
  have fl: "is_fin (lo a)" "is_fin (hi a)" using f by (simp_all add: ifin_def)
  have ab: "is_fin (fabs d) \<and> fval (fabs d) = \<bar>fval d\<bar>" if "is_fin d" for d
    using that by (cases d) auto
  define mx where "mx = std_max (fabs (lo a)) (fabs (hi a))"
  define mn where "mn = (if fle (lo a) (Fin 0) \<and> fle (Fin 0) (hi a) then Fin 0
      else std_min (fabs (lo a)) (fabs (hi a)))"
  have mx: "is_fin mx" "fval mx = max \<bar>fval (lo a)\<bar> \<bar>fval (hi a)\<bar>"
    using ab fl by (auto simp: mx_def std_max_def flt_fin)
  have mn_eq: "is_fin mn" "fval mn = (if fval (lo a) \<le> 0 \<and> 0 \<le> fval (hi a) then 0
      else min \<bar>fval (lo a)\<bar> \<bar>fval (hi a)\<bar>)"
    using ab fl fle_fin[of "lo a" "Fin 0"] fle_fin[of "Fin 0" "hi a"]
    by (simp_all add: mn_def std_min_def flt_fin)
  have mn: "is_fin mn" "0 \<le> fval mn" "fval mn \<le> \<bar>x\<bar>"
    using mn_eq r by (auto split: if_splits)
  have "\<bar>x\<bar> \<le> fval mx" using r mx(2) by linarith
  then have u: "x * x \<le> fval mx * fval mx"
    using mult_mono'[of "\<bar>x\<bar>" "fval mx" "\<bar>x\<bar>" "fval mx"] by simp
  have l: "fval mn * fval mn \<le> x * x"
    using mult_mono'[OF mn(3) mn(3) mn(2) mn(2)] by simp
  show ?thesis
    using imem_not_empty[OF m] below_mono[OF below_fmul[OF mn(1) mn(1)] l]
      above_mono[OF above_fmul[OF mx(1) mx(1)] u]
    by (simp add: sqr_def Let_def imem_def mx_def mn_def)
qed

section \<open>Powers\<close>

text \<open>The operands of every multiplication of the power loop have finite endpoints.\<close>

fun pow_fin :: "ival \<Rightarrow> ival \<Rightarrow> nat \<Rightarrow> bool" where
  "pow_fin r base e =
     (if e = 0 then True
      else (if odd e then ifin r \<and> ifin base else True)
           \<and> (if e div 2 \<noteq> 0 then ifin base else True)
           \<and> pow_fin (if odd e then mul r base else r)
               (if e div 2 \<noteq> 0 then mul base base else base) (e div 2))"

declare pow_fin.simps [simp del]

lemma pow_loop_incl:
  "pow_fin r base e \<Longrightarrow> imem y r \<Longrightarrow> imem x base \<Longrightarrow> imem (y * x ^ e) (pow_loop r base e)"
proof (induction r base e arbitrary: y x rule: pow_loop.induct)
  case (1 r base e)
  show ?case
  proof (cases "e = 0")
    case True
    then show ?thesis using "1.prems" by (subst pow_loop.simps) simp
  next
    case False
    define r' where "r' = (if odd e then mul r base else r)"
    define b' where "b' = (if e div 2 \<noteq> 0 then mul base base else base)"
    define y' where "y' = (if odd e then y * x else y)"
    define x' where "x' = (if e div 2 \<noteq> 0 then x * x else x)"
    have ok: "odd e \<Longrightarrow> ifin r \<and> ifin base" "e div 2 \<noteq> 0 \<Longrightarrow> ifin base"
      and fin': "pow_fin r' b' (e div 2)"
      using "1.prems"(1) False by (subst (asm) pow_fin.simps; simp add: r'_def b'_def)+
    have yr: "imem y' r'" using "1.prems" ok by (auto simp: y'_def r'_def encl)
    have xb: "imem x' b'" using "1.prems" ok by (auto simp: x'_def b'_def encl)
    have "imem (y' * x' ^ (e div 2)) (pow_loop r' b' (e div 2))"
      by (rule "1.IH"[OF False _ _ _ fin' yr xb]) (simp_all add: r'_def b'_def)
    moreover have "y' * x' ^ (e div 2) = y * x ^ e"
    proof -
      have "x ^ e = (if odd e then x else 1) * (x * x) ^ (e div 2)"
        by (cases "odd e") (auto elim!: oddE evenE simp: power2_eq_square[symmetric] power_mult)
      then show ?thesis by (auto simp: y'_def x'_def)
    qed
    ultimately show ?thesis using False
      by (subst pow_loop.simps) (simp add: Let_def r'_def b'_def)
  qed
qed

lemma imem_one: "imem 1 (point (Fin 1))"
  using imem_point[of "Fin 1"] by simp

lemma ipow_pos_incl:
  assumes "pow_fin (point (Fin 1)) a n" "imem x a"
  shows "imem (x ^ n) (ipow_pos a n)"
proof -
  have r: "imem (x ^ n) (pow_loop (point (Fin 1)) a n)"
    using pow_loop_incl[OF assms(1) imem_one assms(2)] by simp
  have "0 \<le> x ^ n" if "even n" using that by (simp add: zero_le_power_eq)
  then show ?thesis using r imem_not_empty[OF assms(2)] imem_one
    by (auto simp: ipow_pos_def Let_def imem_def)
qed

theorem ipow_incl [encl]:
  assumes "pow_fin (point (Fin 1)) a (nat \<bar>n\<bar>)" "imem x a"
    and "n < 0 \<Longrightarrow> ifin (ipow_pos a (nat (- n)))"
  shows "imem (x powi n) (ipow a n)"
proof -
  have p: "imem (x ^ nat \<bar>n\<bar>) (ipow_pos a (nat \<bar>n\<bar>))"
    using assms(1,2) by (rule ipow_pos_incl)
  consider "n = 0" | "0 < n" | "n < 0" by linarith
  then show ?thesis
  proof cases
    case 1
    then show ?thesis using imem_not_empty[OF assms(2)] imem_one by (simp add: ipow_def)
  next
    case 2
    then show ?thesis using p imem_not_empty[OF assms(2)]
      by (simp add: ipow_def power_int_def)
  next
    case 3
    have "imem (1 / x ^ nat (- n)) (divi (point (Fin 1)) (ipow_pos a (nat (- n))))"
      using p 3 assms(3) by (intro divi_incl imem_one) (simp_all add: ifin_def point_def)
    then show ?thesis using 3 imem_not_empty[OF assms(2)]
      by (simp add: ipow_def power_int_def divide_inverse power_inverse)
  qed
qed

section \<open>Roots, exponentials and logarithms\<close>

text \<open>What the enclosures assume of the mathematical library: faithful results on finite
  arguments, and the limits at the infinities.\<close>

definition exp_ok :: "libm \<Rightarrow> bool" where
  "exp_ok L \<longleftrightarrow> (\<forall>d. is_fin d \<longrightarrow> faithful (l_exp L d) (exp (fval d)))
     \<and> l_exp L NInf = Fin 0 \<and> l_exp L PInf = PInf"

definition log_ok :: "libm \<Rightarrow> bool" where
  "log_ok L \<longleftrightarrow> (\<forall>d. is_fin d \<and> 0 < fval d \<longrightarrow> faithful (l_log L d) (ln (fval d)))
     \<and> l_log L PInf = PInf"

lemma slack_dn_faithful: "faithful d x \<Longrightarrow> d \<noteq> PInf \<Longrightarrow> below (slack_dn d) x"
  using below_next_dn[OF faithful_below, of d x]
  by (cases d) (auto simp: slack_dn_def faithful_def)

lemma slack_up_faithful: "faithful d x \<Longrightarrow> d \<noteq> NInf \<Longrightarrow> above (slack_up d) x"
  using above_next_up[OF faithful_above, of d x]
  by (cases d) (auto simp: slack_up_def faithful_def)

lemma isqrt_incl [encl]: "imem x a \<Longrightarrow> 0 \<le> x \<Longrightarrow> imem (sqrt x) (isqrt a)"
proof -
  assume m: "imem x a" and x: "0 \<le> x"
  have b: "below (lo a) x" and h: "above (hi a) x" using m by (simp_all add: imem_def)
  have nh: "\<not> flt (hi a) (Fin 0)" using h x by (cases "hi a") auto
  define l where "l = std_max (lo a) (Fin 0)"
  have l: "is_fin l" "0 \<le> fval l" "fval l \<le> x"
    using b x by (cases "lo a"; auto simp: l_def std_max_def)+
  have "below (fsqrt RDown l) (sqrt x)"
    by (rule below_mono[OF below_fsqrt[OF l(1,2)]]) (simp add: l(3))
  moreover have "above (fsqrt RUp (hi a)) (sqrt x)"
  proof (cases "is_fin (hi a)")
    case True
    then have "x \<le> fval (hi a)" using h by (simp add: above_fin)
    moreover have "above (fsqrt RUp (hi a)) (sqrt (fval (hi a)))"
      using True x \<open>x \<le> fval (hi a)\<close> by (intro above_fsqrt) simp_all
    ultimately show ?thesis by (elim above_mono) simp
  next
    case False
    then show ?thesis using h by (cases "hi a") auto
  qed
  ultimately show ?thesis using imem_not_empty[OF m] nh
    by (simp add: isqrt_def imem_def l_def)
qed

lemma iexp_incl [encl]:
  assumes "exp_ok L" "imem x a" "l_exp L (lo a) \<noteq> PInf"
  shows "imem (exp x) (iexp L a)"
proof -
  have b: "below (lo a) x" and h: "above (hi a) x" using assms(2) by (simp_all add: imem_def)
  have "below (slack_dn (l_exp L (lo a))) (exp x)"
  proof (cases "is_fin (lo a)")
    case True
    then have "below (slack_dn (l_exp L (lo a))) (exp (fval (lo a)))"
      using assms(1,3) by (intro slack_dn_faithful) (simp_all add: exp_ok_def)
    then show ?thesis using b True by (elim below_mono) (simp add: below_fin)
  next
    case False
    then have e: "l_exp L (lo a) = Fin 0" using b assms(1) by (cases "lo a") (auto simp: exp_ok_def)
    have "below (next_dn (next_dn (Fin 0))) (exp x)"
      by (intro below_next_dn) simp
    then show ?thesis by (simp only: e slack_dn_def is_inf.simps double.distinct if_False simp_thms)
  qed
  moreover have "above (slack_up (l_exp L (hi a))) (exp x)"
  proof (cases "is_fin (hi a)")
    case True
    have "l_exp L (hi a) \<noteq> NInf"
    proof
      assume n: "l_exp L (hi a) = NInf"
      have f: "faithful (l_exp L (hi a)) (exp (fval (hi a)))" using assms(1) True by (simp add: exp_ok_def)
      show False using n f above_next_up[OF faithful_above[OF f]]
          fround_dn_greatest[of 0 "exp (fval (hi a))"] above_fround[of "exp (fval (hi a))"]
        by (auto simp: faithful_def)
    qed
    then have "above (slack_up (l_exp L (hi a))) (exp (fval (hi a)))"
      using assms(1) True by (intro slack_up_faithful) (simp_all add: exp_ok_def)
    then show ?thesis using h True by (elim above_mono) (simp add: above_fin)
  next
    case False
    then show ?thesis using h assms(1) by (cases "hi a") (auto simp: exp_ok_def slack_up_def)
  qed
  ultimately show ?thesis using imem_not_empty[OF assms(2)] by (simp add: iexp_def imem_def)
qed

lemma fround_big: "\<bar>x\<bar> \<le> max_fin \<Longrightarrow> is_fin (fround m x)"
proof (cases "x = 0")
  case False
  assume b: "\<bar>x\<bar> \<le> max_fin"
  have "grid RUp x \<le> max_fin" "- max_fin \<le> grid RDown x"
    using b False grid_up_least[of max_fin x] grid_dn_greatest[of "- max_fin" x] by simp_all
  then have "\<bar>grid m x\<bar> \<le> max_fin" using grid_between(1)[of x m] grid_between(2)[of m x] by linarith
  then show ?thesis by (cases rule: fround_cases[OF False, of m]) (auto simp: fzero_def)
qed simp

lemma ilog_incl [encl]:
  assumes "log_ok L" "imem x a" "0 < x"
    and nl: "0 < fval (lo a) \<Longrightarrow> is_fin (l_log L (lo a))" and nh: "is_fin (hi a) \<Longrightarrow> is_fin (l_log L (hi a))"
  shows "imem (ln x) (ilog L a)"
proof -
  have b: "below (lo a) x" and h: "above (hi a) x" using assms(2) by (simp_all add: imem_def)
  have nle: "\<not> fle (hi a) (Fin 0)" using h assms(3) by (cases "hi a") auto
  have "below (if fle (lo a) (Fin 0) then NInf else slack_dn (l_log L (lo a))) (ln x)"
  proof (cases "fle (lo a) (Fin 0)")
    case False
    then have f: "is_fin (lo a)" "0 < fval (lo a)" "fval (lo a) \<le> x"
      using b by (cases "lo a"; auto)+
    have "below (slack_dn (l_log L (lo a))) (ln (fval (lo a)))"
      using assms(1) f nl by (intro slack_dn_faithful) (auto simp: log_ok_def)
    then show ?thesis using False f by (simp add: below_mono)
  qed simp
  moreover have "above (slack_up (l_log L (hi a))) (ln x)"
  proof (cases "is_fin (hi a)")
    case True
    then have f: "x \<le> fval (hi a)" using h by (simp add: above_fin)
    have "above (slack_up (l_log L (hi a))) (ln (fval (hi a)))"
      using assms(1,3) f True nh by (intro slack_up_faithful) (auto simp: log_ok_def)
    then show ?thesis using f assms(3) by (elim above_mono) simp
  next
    case False
    then show ?thesis using h assms(1) by (cases "hi a") (auto simp: log_ok_def slack_up_def)
  qed
  ultimately show ?thesis using imem_not_empty[OF assms(2)] nle by (simp add: ilog_def imem_def)
qed

section \<open>Where the product is not an enclosure\<close>

text \<open>
  With an infinite endpoint against a zero one, two of the four products are NaN, and
  \<open>std::max\<close> keeps or drops them by position: the product of two half lines \<open>[0, inf]\<close> is the
  single point \<open>0\<close>, so \<open>ifin\<close> in \<open>mul_incl\<close> cannot be dropped.
\<close>

lemma mul_nonneg_nonneg: "mul nonneg nonneg = point (Fin 0)"
  by (simp add: mul_def nonneg_def point_def is_empty_def dmin4_def dmax4_def fmul_def is_zero_def
      std_min_def std_max_def fzero_def finf_def)

lemma imem_nonneg: "imem x nonneg \<longleftrightarrow> 0 \<le> x"
  by (simp add: imem_def nonneg_def)

end
