(* ===== verification/Fve_Affine.thy ===== *)
theory Fve_Affine
  imports Fve_Interval
begin

text \<open>
  The affine forms of \<open>core/affine\<close>: a centre, a coefficient per noise symbol and an
  accumulated error. The counter \<open>next_\<close> that names fresh symbols is passed and returned as an
  integer. All arithmetic rounds to nearest, as the code runs it outside the interval kernel.
  The lemmas: the difference of a form with itself has radius zero, and sums of forms do not
  account for the rounding of the centre.
\<close>

record aff =
  ctr :: double
  trm :: "(int, double) omap"
  aerr :: double

definition aff_const :: "double \<Rightarrow> aff" where
  "aff_const v = \<lparr>ctr = v, trm = [], aerr = Fin 0\<rparr>"

definition aff_sym :: "int \<Rightarrow> double \<Rightarrow> double \<Rightarrow> aff \<times> int" where
  "aff_sym n center radius =
     (if \<not> feq radius (Fin 0)
      then (\<lparr>ctr = center, trm = [(n, fabs radius)], aerr = Fin 0\<rparr>, n + 1)
      else (\<lparr>ctr = center, trm = [], aerr = Fin 0\<rparr>, n))"

definition aff_from_ival :: "int \<Rightarrow> ival \<Rightarrow> aff \<times> int" where
  "aff_from_ival n x =
     (if is_empty x then (aff_const NaN, n)
      else aff_sym n (mid x) (fmul RNear (Fin (1 / 2)) (width x)))"

definition abs_sum :: "double \<Rightarrow> (int, double) omap \<Rightarrow> double" where
  "abs_sum r t = foldl (\<lambda>r kv. fadd RNear r (fabs (snd kv))) r t"

definition aff_rad :: "aff \<Rightarrow> double" where
  "aff_rad a = abs_sum (aerr a) (trm a)"

definition aff_to_ival :: "aff \<Rightarrow> ival" where
  "aff_to_ival a = (let r = aff_rad a in add (point (ctr a)) (ival_of (fneg r) r))"

text \<open>\<open>r.t_[k] += v\<close>: a missing key starts at zero.\<close>

definition tadd :: "(int, double) omap \<Rightarrow> int \<Rightarrow> double \<Rightarrow> (int, double) omap" where
  "tadd t k v = mput k (fadd RNear (case mget t k of None \<Rightarrow> Fin 0 | Some w \<Rightarrow> w) v) t"

definition aff_add :: "aff \<Rightarrow> aff \<Rightarrow> aff" where
  "aff_add a b =
     \<lparr>ctr = fadd RNear (ctr a) (ctr b),
      trm = foldl (\<lambda>t kv. tadd t (fst kv) (snd kv)) (trm a) (trm b),
      aerr = fadd RNear (aerr a) (aerr b)\<rparr>"

definition aff_neg :: "aff \<Rightarrow> aff" where
  "aff_neg a = \<lparr>ctr = fneg (ctr a), trm = map (\<lambda>(k, v). (k, fneg v)) (trm a), aerr = aerr a\<rparr>"

definition aff_sub :: "aff \<Rightarrow> aff \<Rightarrow> aff" where
  "aff_sub a b = aff_add a (aff_neg b)"

definition aff_scale :: "double \<Rightarrow> aff \<Rightarrow> aff" where
  "aff_scale s a =
     \<lparr>ctr = fmul RNear s (ctr a), trm = map (\<lambda>(k, v). (k, fmul RNear s v)) (trm a),
      aerr = fmul RNear (fabs s) (aerr a)\<rparr>"

definition aff_add_const :: "aff \<Rightarrow> double \<Rightarrow> aff" where
  "aff_add_const a s = a\<lparr>ctr := fadd RNear (ctr a) s\<rparr>"

definition aff_mul :: "aff \<Rightarrow> aff \<Rightarrow> aff" where
  "aff_mul a b =
     (let t1 = foldl (\<lambda>t kv. tadd t (fst kv) (fmul RNear (ctr b) (snd kv))) [] (trm a);
          t2 = foldl (\<lambda>t kv. tadd t (fst kv) (fmul RNear (ctr a) (snd kv))) t1 (trm b);
          ra = abs_sum (Fin 0) (trm a); rb = abs_sum (Fin 0) (trm b)
      in \<lparr>ctr = fmul RNear (ctr a) (ctr b), trm = t2,
          aerr = fadd RNear
            (fadd RNear
              (fadd RNear (fmul RNear (aerr a) (fadd RNear (fabs (ctr b)) rb))
                          (fmul RNear (aerr b) (fadd RNear (fabs (ctr a)) ra)))
              (fmul RNear (aerr a) (aerr b)))
            (fmul RNear ra rb)\<rparr>)"

definition aff_inv :: "int \<Rightarrow> aff \<Rightarrow> aff \<times> int" where
  "aff_inv n a = aff_from_ival n (divi (point (Fin 1)) (aff_to_ival a))"

definition aff_div :: "int \<Rightarrow> aff \<Rightarrow> aff \<Rightarrow> aff \<times> int" where
  "aff_div n a b = (let (i, n') = aff_inv n b in (aff_mul a i, n'))"

section \<open>Well-formed forms\<close>

text \<open>The symbols of a form are an ordered map.\<close>

definition aff_wf :: "aff \<Rightarrow> bool" where
  "aff_wf a \<longleftrightarrow> mwf (trm a)"

lemma mwf_tadd [simp]: "mwf t \<Longrightarrow> mwf (tadd t k v)"
  by (simp add: tadd_def)

lemma mwf_foldl_tadd: "mwf t \<Longrightarrow> mwf (foldl (\<lambda>t kv. tadd t (fst kv) (f kv)) t ps)"
  by (induction ps arbitrary: t) simp_all

lemma mwf_map_snd: "mwf (map (\<lambda>(k, v). (k, f v)) t) = mwf t"
  by (simp add: mwf_def case_prod_beta' comp_def)

lemma aff_wf_ops:
  "aff_wf (aff_const v)" "aff_wf (fst (aff_sym n c r))" "aff_wf (fst (aff_from_ival n x))"
  "aff_wf a \<Longrightarrow> aff_wf (aff_add a b)" "aff_wf a \<Longrightarrow> aff_wf (aff_neg a)" "aff_wf a \<Longrightarrow> aff_wf (aff_sub a b)"
  "aff_wf a \<Longrightarrow> aff_wf (aff_scale s a)" "aff_wf a \<Longrightarrow> aff_wf (aff_add_const a s)"
  "aff_wf (aff_mul a b)"
  by (simp_all add: aff_wf_def aff_const_def aff_sym_def aff_from_ival_def aff_add_def aff_neg_def
      aff_sub_def aff_scale_def aff_add_const_def aff_mul_def Let_def mwf_foldl_tadd mwf_map_snd)

section \<open>Cancellation\<close>

definition aff_fin :: "aff \<Rightarrow> bool" where
  "aff_fin a \<longleftrightarrow> is_fin (ctr a) \<and> is_fin (aerr a) \<and> list_all (\<lambda>kv. is_fin (snd kv)) (trm a)"

lemma mget_map_snd: "mget (map (\<lambda>(k, v). (k, f v)) t) k = map_option f (mget t k)"
  by (induction t) (auto simp: mget_def)

lemma mget_tadd: "mget (tadd t k v) k' =
    (if k' = k then Some (fadd RNear (case mget t k of None \<Rightarrow> Fin 0 | Some w \<Rightarrow> w) v) else mget t k')"
  by (simp add: tadd_def mget_mput)

lemma mget_foldl_tadd:
  "mwf ps \<Longrightarrow> mget (foldl (\<lambda>t kv. tadd t (fst kv) (snd kv)) t ps) k =
    (case mget ps k of None \<Rightarrow> mget t k
     | Some v \<Rightarrow> Some (fadd RNear (case mget t k of None \<Rightarrow> Fin 0 | Some w \<Rightarrow> w) v))"
proof (induction ps arbitrary: t)
  case (Cons p ps)
  obtain k' v' where p: "p = (k', v')" by (cases p)
  have nk: "mget ps k' = None" using Cons.prems by (force simp: p mget_def map_of_eq_None_iff)
  show ?case using Cons.IH[of "tadd t k' v'"] Cons.prems nk
    by (auto simp: p mget_tadd split: option.splits)
qed (simp add: mget_def)

lemma mget_fin: "list_all (\<lambda>kv. is_fin (snd kv)) t \<Longrightarrow> mget t k = Some v \<Longrightarrow> is_fin v"
  by (auto simp: mget_def list_all_iff dest!: map_of_SomeD)

lemma fval_fadd_uminus: "is_fin v \<Longrightarrow> is_fin (fadd m v (fneg v)) \<and> fval (fadd m v (fneg v)) = 0"
  using fadd_cancel[of v "fneg v" m] by (cases v) auto

lemma abs_sum_zero:
  "list_all (\<lambda>kv. is_fin (snd kv) \<and> fval (snd kv) = 0) t \<Longrightarrow> is_fin r \<Longrightarrow> fval r = 0 \<Longrightarrow>
    is_fin (abs_sum r t) \<and> fval (abs_sum r t) = 0"
proof (induction t arbitrary: r)
  case (Cons p t)
  have f: "is_fin (fabs (snd p))" "fval (fabs (snd p)) = 0" using Cons.prems(1) by (cases "snd p"; simp)+
  have "is_fin (fadd RNear r (fabs (snd p)))" "fval (fadd RNear r (fabs (snd p))) = 0"
    using fadd_cancel[of r "fabs (snd p)" RNear] f Cons.prems by auto
  then show ?case using Cons.IH[of "fadd RNear r (fabs (snd p))"] Cons.prems by (simp add: abs_sum_def)
qed (simp add: abs_sum_def)

text \<open>The difference of a form with itself: every shared symbol cancels exactly.\<close>

lemma aff_sub_self:
  assumes "aff_wf a" "aff_fin a"
  shows "fval (ctr (aff_sub a a)) = 0" "is_fin (ctr (aff_sub a a))"
    and "list_all (\<lambda>kv. is_fin (snd kv) \<and> fval (snd kv) = 0) (trm (aff_sub a a))"
proof -
  show "fval (ctr (aff_sub a a)) = 0" "is_fin (ctr (aff_sub a a))"
    using assms fval_fadd_uminus by (auto simp: aff_sub_def aff_add_def aff_neg_def aff_fin_def)
  define t where "t = trm (aff_sub a a)"
  have w: "mwf t" using assms(1) by (simp add: t_def aff_wf_def[symmetric] aff_wf_ops)
  have "is_fin v \<and> fval v = 0" if kv: "(k, v) \<in> set t" for k v
  proof -
    have "mget t k = Some v" using mwf_get_in[OF w kv] .
    then obtain u where u: "mget (trm a) k = Some u" "v = fadd RNear u (fneg u)"
      using assms(1) mget_foldl_tadd[of "map (\<lambda>(k, v). (k, fneg v)) (trm a)" "trm a" k]
      by (auto simp: t_def aff_sub_def aff_add_def aff_neg_def mget_map_snd mwf_map_snd aff_wf_def
          split: option.splits)
    then show ?thesis using fval_fadd_uminus[of u RNear] mget_fin[OF _ u(1)] assms(2)
      by (simp add: aff_fin_def)
  qed
  then show "list_all (\<lambda>kv. is_fin (snd kv) \<and> fval (snd kv) = 0) (trm (aff_sub a a))"
    by (auto simp: list_all_iff t_def)
qed

lemma aff_rad_sub_self:
  assumes "aff_wf a" "aff_fin a" "fval (aerr a) = 0"
  shows "is_fin (aff_rad (aff_sub a a))" "fval (aff_rad (aff_sub a a)) = 0"
proof -
  have e: "is_fin (aerr (aff_sub a a))" "fval (aerr (aff_sub a a)) = 0"
    using assms fadd_cancel[of "aerr a" "aerr a" RNear]
    by (auto simp: aff_sub_def aff_add_def aff_neg_def aff_fin_def)
  show "is_fin (aff_rad (aff_sub a a))" "fval (aff_rad (aff_sub a a)) = 0"
    using abs_sum_zero[OF aff_sub_self(3)[OF assms(1,2)] e] by (simp_all add: aff_rad_def)
qed

lemma aff_to_ival_zero:
  assumes "is_fin (ctr a)" "fval (ctr a) = 0" "is_fin (aff_rad a)" "fval (aff_rad a) = 0"
  shows "imem x (aff_to_ival a) \<longleftrightarrow> x = 0"
proof -
  define r where "r = aff_rad a"
  have r: "is_fin r" "fval r = 0" using assms(3,4) by (simp_all add: r_def)
  have o: "ival_of (fneg r) r = Ival (fneg r) r" using r by (simp add: ival_of_def fle_fin)
  have l: "is_fin (fadd m (ctr a) s) \<and> fval (fadd m (ctr a) s) = 0" if "is_fin s" "fval s = 0" for m s
    using fadd_cancel[of "ctr a" s m] assms(1,2) that by auto
  have ne: "\<not> is_empty (point (ctr a))" "\<not> is_empty (Ival (fneg r) r)"
    using assms(1) r by (simp_all add: is_empty_def point_def flt_fin)
  show ?thesis using l[of "fneg r" RDown] l[of r RUp] r ne
    by (auto simp: aff_to_ival_def r_def[symmetric] o add_def point_def imem_def below_fin above_fin Let_def)
qed

lemma aff_self_difference:
  "aff_wf a \<Longrightarrow> aff_fin a \<Longrightarrow> fval (aerr a) = 0 \<Longrightarrow> imem x (aff_to_ival (aff_sub a a)) \<longleftrightarrow> x = 0"
  using aff_to_ival_zero[OF aff_sub_self(2,1) aff_rad_sub_self] by blast

section \<open>Rounding of the centre\<close>

text \<open>
  The sum of two exact constants has error zero, yet its centre is rounded: the form of
  \<open>2^53 + 1\<close> is the point \<open>2^53\<close>, so an affine sum is not an enclosure of the real sum.
\<close>

definition big :: double where
  "big = Fin 9007199254740992"

lemma aff_sum_rounds: "aff_to_ival (aff_add (aff_const big) (aff_const (Fin 1))) = point big"
  by code_simp

end
