(* ===== verification/Fve_Text.thy ===== *)
theory Fve_Text
  imports Fve_Double "HOL-Library.Code_Target_Nat"
begin

text \<open>
  Text conversions the code takes from the standard library: decimal integers
  (\<open>std::to_string\<close>, streams), \<open>printf\<close>'s \<open>%g\<close> with a precision, and \<open>std::stod\<close>. Characters
  are bytes. The lemmas state that a decimal numeral reads back as the number it shows.
\<close>

section \<open>Decimal numerals\<close>

definition digit_char :: "nat \<Rightarrow> char" where
  "digit_char d = char_of (48 + d)"

definition char_digit :: "char \<Rightarrow> nat" where
  "char_digit c = of_char c - 48"

definition is_digit :: "char \<Rightarrow> bool" where
  "is_digit c = (48 \<le> (of_char c :: nat) \<and> (of_char c :: nat) \<le> 57)"

fun show_nat :: "nat \<Rightarrow> string" where
  "show_nat n = (if n < 10 then [digit_char n] else show_nat (n div 10) @ [digit_char (n mod 10)])"

declare show_nat.simps [simp del]

definition show_int :: "int \<Rightarrow> string" where
  "show_int i = (if i < 0 then CHR ''-'' # show_nat (nat (- i)) else show_nat (nat i))"

definition digits_val :: "string \<Rightarrow> nat" where
  "digits_val s = foldl (\<lambda>n c. 10 * n + char_digit c) 0 s"

lemma char_digit_char [simp]: "d < 10 \<Longrightarrow> char_digit (digit_char d) = d"
  by (simp add: char_digit_def digit_char_def of_char_of)

lemma is_digit_char [simp]: "d < 10 \<Longrightarrow> is_digit (digit_char d)"
  by (simp add: is_digit_def digit_char_def of_char_of)

lemma digits_val_snoc: "digits_val (s @ [c]) = 10 * digits_val s + char_digit c"
  by (simp add: digits_val_def)

lemma digits_val_show_nat [simp]: "digits_val (show_nat n) = n"
proof (induction n rule: show_nat.induct)
  case (1 n)
  show ?case
  proof (cases "n < 10")
    case True
    then show ?thesis by (subst show_nat.simps) (simp add: digits_val_def)
  next
    case False
    then show ?thesis using 1 by (subst show_nat.simps) (simp add: digits_val_snoc)
  qed
qed

lemma show_nat_digits: "list_all is_digit (show_nat n)"
proof (induction n rule: show_nat.induct)
  case (1 n)
  then show ?case by (cases "n < 10"; subst show_nat.simps; simp)
qed

lemma show_nat_nonempty [simp]: "show_nat n \<noteq> []"
  by (subst show_nat.simps) simp

lemma show_nat_inject: "show_nat m = show_nat n \<Longrightarrow> m = n"
  by (metis digits_val_show_nat)

section \<open>printf's g conversion\<close>

text \<open>The decimal exponent of a positive real, from the digit counts of integers.\<close>

definition dlen :: "nat \<Rightarrow> nat" where
  "dlen n = length (show_nat n)"

definition ilog10 :: "real \<Rightarrow> int" where
  "ilog10 q = (if 1 \<le> q then int (dlen (nat \<lfloor>q\<rfloor>)) - 1 else - int (dlen (nat (\<lceil>1 / q\<rceil> - 1))))"

text \<open>The \<open>P\<close> significant digits of \<open>q\<close>, rounded to nearest, with the decimal exponent.\<close>

definition dec_round :: "nat \<Rightarrow> real \<Rightarrow> nat \<times> int" where
  "dec_round P q =
     (let x = ilog10 q; d = round_int RNear (q / 10 powi (x - int P + 1))
      in if d = 10 ^ P then (10 ^ (P - 1), x + 1) else (nat d, x))"

definition strip_zeros :: "string \<Rightarrow> string" where
  "strip_zeros s = rev (dropWhile (\<lambda>c. c = CHR ''0'') (rev s))"

definition dot_frac :: "string \<Rightarrow> string" where
  "dot_frac s = (if s = [] then [] else CHR ''.'' # s)"

definition show_exp :: "int \<Rightarrow> string" where
  "show_exp x =
     CHR ''e'' # (if x < 0 then CHR ''-'' else CHR ''+'')
     # (let s = show_nat (nat \<bar>x\<bar>) in if length s < 2 then CHR ''0'' # s else s)"

definition fmt_pos :: "nat \<Rightarrow> real \<Rightarrow> string" where
  "fmt_pos P q =
     (let (d, x) = dec_round P q; ds = show_nat d
      in if x < - 4 \<or> int P \<le> x
         then take 1 ds @ dot_frac (strip_zeros (drop 1 ds)) @ show_exp x
         else if 0 \<le> x
              then take (nat x + 1) ds @ dot_frac (strip_zeros (drop (nat x + 1) ds))
              else ''0.'' @ replicate (nat (- x) - 1) (CHR ''0'') @ strip_zeros ds)"

fun fmt_g :: "nat \<Rightarrow> double \<Rightarrow> string" where
  "fmt_g P NaN = ''nan''"
| "fmt_g P PInf = ''inf''"
| "fmt_g P NInf = ''-inf''"
| "fmt_g P NegZero = ''-0''"
| "fmt_g P (Fin r) =
     (if r = 0 then ''0'' else if r < 0 then CHR ''-'' # fmt_pos P (- r) else fmt_pos P r)"

section \<open>std::stod\<close>

text \<open>
  The longest numeral at the start of the text: a sign, digits with an optional point, an
  exponent that counts only with at least one digit. The value is rounded to nearest; no
  digits, an overflow, or a result below the normal range that is not exact is an exception
  (\<open>invalid_argument\<close> or \<open>out_of_range\<close>), here \<open>None\<close>.
\<close>

definition take_sign :: "string \<Rightarrow> bool \<times> string" where
  "take_sign s =
     (case s of [] \<Rightarrow> (False, [])
      | c # s' \<Rightarrow> (if c = CHR ''-'' then (True, s') else if c = CHR ''+'' then (False, s') else (False, s)))"

definition take_exp :: "string \<Rightarrow> int" where
  "take_exp s =
     (case s of [] \<Rightarrow> 0
      | c # s' \<Rightarrow>
          (if c = CHR ''e'' \<or> c = CHR ''E''
           then let (ng, t) = take_sign s'; ds = takeWhile is_digit t
                in if ng then - int (digits_val ds) else int (digits_val ds)
           else 0))"

definition fneg_if :: "bool \<Rightarrow> double \<Rightarrow> double" where
  "fneg_if ng d = (if ng then fneg d else d)"

definition subnormal_inexact :: "real \<Rightarrow> double \<Rightarrow> bool" where
  "subnormal_inexact q d = (if ilog2 q < - 1022 then fval d \<noteq> q else False)"

definition stod :: "string \<Rightarrow> double option" where
  "stod s =
     (let (ng, s1) = take_sign s;
          d1 = takeWhile is_digit s1; s2 = dropWhile is_digit s1;
          (d2, s3) = (case s2 of [] \<Rightarrow> ([], [])
                      | c # s' \<Rightarrow> (if c = CHR ''.'' then (takeWhile is_digit s', dropWhile is_digit s')
                                  else ([], s2)))
      in if d1 @ d2 = [] then None
         else let q = real (digits_val (d1 @ d2)) * 10 powi (take_exp s3 - int (length d2));
                  d = fround RNear q
              in if is_inf d \<or> subnormal_inexact q d then None
                 else Some (fneg_if ng d))"

lemma takeWhile_digits: "list_all is_digit s \<Longrightarrow> takeWhile is_digit s = s"
  by (simp add: list_all_iff)

lemma dropWhile_digits: "list_all is_digit s \<Longrightarrow> dropWhile is_digit s = []"
  by (simp add: list_all_iff)

lemma show_nat_sign: "take_sign (show_nat n) = (False, show_nat n)"
proof -
  obtain c s where cs: "show_nat n = c # s" by (cases "show_nat n") auto
  then have "is_digit c" using show_nat_digits[of n] by simp
  then have "c \<noteq> CHR ''-'' \<and> c \<noteq> CHR ''+''" by (auto simp: is_digit_def)
  then show ?thesis by (simp add: take_sign_def cs)
qed

lemma fround_of_nat: "n < 2 ^ 53 \<Longrightarrow> fround m (real n) = Fin (real n)"
  using representable_int[of "int n"] by (simp add: fround_exact)

lemma subnormal_nat: "\<not> subnormal_inexact (real n) (Fin (real n))"
  by (simp add: subnormal_inexact_def)

lemma stod_digits:
  assumes "take_sign s = (ng, show_nat n)" "n < 2 ^ 53"
  shows "stod s = Some (fneg_if ng (Fin (real n)))"
  using assms show_nat_digits[of n]
  by (simp add: stod_def Let_def takeWhile_digits dropWhile_digits take_exp_def
      fround_of_nat subnormal_nat)

lemma stod_show_int: "\<bar>i\<bar> < 2 ^ 53 \<Longrightarrow> stod (show_int i) = Some (Fin (of_int i))"
  using stod_digits[OF show_nat_sign, of "nat i"] stod_digits[of "show_int i" True "nat (- i)"]
  by (cases "i < 0") (auto simp: show_int_def take_sign_def fneg_if_def)

section \<open>Seventeen digits determine a double\<close>

text \<open>Reading a numeral given by its sign, its digits around the point and its exponent.\<close>

lemma digits_val_foldl: "foldl (\<lambda>n c. 10 * n + char_digit c) m s = m * 10 ^ length s + digits_val s"
proof (induction s rule: rev_induct)
  case (snoc c s)
  then show ?case by (simp add: digits_val_def algebra_simps)
qed (simp add: digits_val_def)

lemma digits_val_append: "digits_val (s @ t) = digits_val s * 10 ^ length t + digits_val t"
  using digits_val_foldl[of "digits_val s" t] by (simp add: digits_val_def)

lemma char_digit_zero [simp]: "char_digit (CHR ''0'') = 0"
  by (simp add: char_digit_def)

lemma is_digit_zero [simp]: "is_digit (CHR ''0'')"
  by (simp add: is_digit_def)

lemma digits_val_zeros [simp]: "digits_val (replicate k (CHR ''0'')) = 0"
  by (induction k) (simp_all add: digits_val_def)

lemma digits_val_zero_Cons [simp]: "digits_val (CHR ''0'' # s) = digits_val s"
  using digits_val_append[of "[CHR ''0'']" s] by (simp add: digits_val_def)

lemma strip_zeros_append: "\<exists>k. s = strip_zeros s @ replicate k (CHR ''0'')"
proof -
  define t where "t = takeWhile (\<lambda>c. c = CHR ''0'') (rev s)"
  have t: "t = replicate (length t) (CHR ''0'')"
    by (rule sym, rule replicate_length_same) (auto simp: t_def dest: set_takeWhileD)
  have "rev s = t @ dropWhile (\<lambda>c. c = CHR ''0'') (rev s)" by (simp add: t_def)
  then have "s = strip_zeros s @ rev t" unfolding strip_zeros_def by (metis rev_append rev_rev_ident)
  then show ?thesis using t by (metis rev_replicate)
qed

text \<open>The real a digit string stands for, \<open>k\<close> of its digits behind the point.\<close>

definition dec_val :: "string \<Rightarrow> int \<Rightarrow> real" where
  "dec_val s x = real (digits_val s) * 10 powi x"

lemma powi10_add: "(10::real) powi (a + b) = 10 powi a * 10 powi b"
  by (simp add: power_int_add)

lemma dec_val_strip:
  "dec_val (a @ strip_zeros b) (x - int (length (strip_zeros b))) = dec_val (a @ b) (x - int (length b))"
proof -
  obtain k where k: "b = strip_zeros b @ replicate k (CHR ''0'')" using strip_zeros_append by blast
  define c where "c = strip_zeros b"
  have b: "b = c @ replicate k (CHR ''0'')" using k by (simp add: c_def)
  have "real (digits_val (a @ b)) = real (digits_val (a @ c)) * 10 ^ k"
    by (simp add: b digits_val_append power_add algebra_simps)
  moreover have "(10::real) powi (x - int (length c)) = 10 ^ k * 10 powi (x - int (length b))"
    using powi10_add[of "int k" "x - int (length b)"] by (simp add: b)
  ultimately show ?thesis by (simp add: dec_val_def c_def)
qed

lemma take_exp_show_exp: "take_exp (show_exp x) = x"
proof -
  define s where "s = show_nat (nat \<bar>x\<bar>)"
  define t where "t = (if length s < 2 then CHR ''0'' # s else s)"
  have d: "list_all is_digit t" using show_nat_digits[of "nat \<bar>x\<bar>"] by (simp add: t_def s_def)
  have v: "digits_val t = nat \<bar>x\<bar>" by (simp add: t_def s_def)
  show ?thesis
    using takeWhile_digits[OF d] v
    by (simp add: show_exp_def Let_def take_exp_def take_sign_def flip: s_def t_def del: takeWhile_eq_all_conv)
qed

lemma stod_numeral:
  assumes "take_sign s = (ng, a @ dot_frac b @ e)" "list_all is_digit a" "list_all is_digit b" "a \<noteq> []"
    and e: "e = [] \<or> (\<exists>x. e = show_exp x)"
    and f: "fround RNear (dec_val (a @ b) (take_exp e - int (length b))) = d" "\<not> is_inf d"
    and n: "\<not> subnormal_inexact (dec_val (a @ b) (take_exp e - int (length b))) d"
  shows "stod s = Some (fneg_if ng d)"
proof -
  have ne: "\<not> is_digit (CHR ''.'')" "\<not> is_digit (CHR ''e'')" by (simp_all add: is_digit_def)
  have he: "e = [] \<or> (\<exists>t. e = CHR ''e'' # t)" using e by (auto simp: show_exp_def)
  have hd: "r = [] \<or> (\<exists>c t. r = c # t \<and> \<not> is_digit c)" if "r = dot_frac b @ e \<or> r = e" for r
    using that he ne by (cases "b = []") (auto simp: dot_frac_def)
  have tw: "takeWhile is_digit (x @ r) = x \<and> dropWhile is_digit (x @ r) = r"
    if "list_all is_digit x" "r = dot_frac b @ e \<or> r = e" for x r
    using hd[OF that(2)] that(1) by (auto simp: list_all_iff takeWhile_append dropWhile_append)
  have s2: "(case dot_frac b @ e of [] \<Rightarrow> ([], [])
      | c # s' \<Rightarrow> (if c = CHR ''.'' then (takeWhile is_digit s', dropWhile is_digit s') else ([], dot_frac b @ e))) = (b, e)"
    using tw[OF assms(3), of e] he by (cases "b = []") (auto simp: dot_frac_def)
  show ?thesis
    using assms(4) f n
    unfolding stod_def assms(1) Let_def prod.case conjunct1[OF tw[OF assms(2) disjI1[OF refl]]]
      conjunct2[OF tw[OF assms(2) disjI1[OF refl]]] s2
    by (simp add: dec_val_def)
qed
text \<open>What \<open>%g\<close> prints of a positive number reads as its digits times the power of ten.\<close>

lemma fmt_pos_numeral:
  assumes "dec_round P q = (d, x)" "length (show_nat d) = P" "0 < P" "0 < d"
  shows "\<exists>a b e. fmt_pos P q = a @ dot_frac b @ e \<and> list_all is_digit a \<and> list_all is_digit b \<and> a \<noteq> []
    \<and> (e = [] \<or> (\<exists>y. e = show_exp y)) \<and> dec_val (a @ b) (take_exp e - int (length b)) = real d * 10 powi (x - int P + 1)"
proof -
  define ds where "ds = show_nat d"
  have ds: "list_all is_digit ds" "length ds = P" "digits_val ds = d" "ds \<noteq> []"
    using show_nat_digits[of d] assms(2) by (simp_all add: ds_def)
  have strip: "list_all is_digit (strip_zeros s)" if "list_all is_digit s" for s
    using that by (auto simp: list_all_iff strip_zeros_def dest: set_dropWhileD)
  have sub: "list_all is_digit (take k ds)" "list_all is_digit (drop k ds)" for k
    using ds(1) by (auto simp: list_all_iff dest: in_set_takeD in_set_dropD)
  have te: "take_exp [] = 0" by (simp add: take_exp_def)
  consider (exp) "x < - 4 \<or> int P \<le> x" | (int) "0 \<le> x" "x < int P" | (frac) "- 4 \<le> x" "x < 0" by linarith
  then show ?thesis
  proof cases
    case exp
    have "dec_val (take 1 ds @ strip_zeros (drop 1 ds)) (x - int (length (strip_zeros (drop 1 ds))))
        = real d * 10 powi (x - int P + 1)"
      unfolding dec_val_strip unfolding append_take_drop_id dec_val_def ds(3) length_drop ds(2)
      using assms(3) by (simp add: of_nat_diff algebra_simps)
    then show ?thesis
      using exp assms(1) ds sub strip take_exp_show_exp[of x]
      by (intro exI[of _ "take 1 ds"] exI[of _ "strip_zeros (drop 1 ds)"] exI[of _ "show_exp x"])
        (auto simp: fmt_pos_def Let_def simp flip: ds_def)
  next
    case int
    have "dec_val (take (nat x + 1) ds @ strip_zeros (drop (nat x + 1) ds)) (0 - int (length (strip_zeros (drop (nat x + 1) ds))))
        = real d * 10 powi (x - int P + 1)"
      unfolding dec_val_strip unfolding append_take_drop_id dec_val_def ds(3) length_drop ds(2)
      using int by (simp add: of_nat_diff algebra_simps)
    then show ?thesis
      using int assms(1) ds sub strip te
      by (intro exI[of _ "take (nat x + 1) ds"] exI[of _ "strip_zeros (drop (nat x + 1) ds)"] exI[of _ "[]"])
        (auto simp: fmt_pos_def Let_def simp flip: ds_def)
  next
    case frac
    define z where "z = replicate (nat (- x) - 1) (CHR ''0'')"
    have ne: "z @ strip_zeros ds \<noteq> []"
    proof
      assume "z @ strip_zeros ds = []"
      then obtain k where "ds = replicate k (CHR ''0'')" using strip_zeros_append[of ds] by auto
      then show False using ds(3) assms(4) by simp
    qed
    have "dec_val ((CHR ''0'' # z) @ strip_zeros ds) ((x + 1) - int (length (strip_zeros ds)))
        = real d * 10 powi (x - int P + 1)"
      unfolding dec_val_strip unfolding dec_val_def using frac
      by (simp add: z_def digits_val_append ds algebra_simps)
    moreover have "(x + 1) - int (length (strip_zeros ds)) = 0 - int (length (z @ strip_zeros ds))"
      using frac by (simp add: z_def)
    ultimately have v: "dec_val ([CHR ''0''] @ z @ strip_zeros ds) (0 - int (length (z @ strip_zeros ds)))
        = real d * 10 powi (x - int P + 1)" by simp
    show ?thesis
      using ne frac assms(1) ds sub strip[OF ds(1)] te v
      by (intro exI[of _ "[CHR ''0'']"] exI[of _ "z @ strip_zeros ds"] exI[of _ "[]"])
        (auto simp: fmt_pos_def Let_def dot_frac_def list_all_iff z_def simp flip: ds_def)
  qed
qed
lemma powi10_pos [simp]: "0 < (10::real) powi k"
  by (simp add: zero_less_power_int)

lemma dlen_bounds: "0 < n \<Longrightarrow> 10 ^ (dlen n - 1) \<le> n \<and> n < 10 ^ dlen n"
proof (induction n rule: show_nat.induct)
  case (1 n)
  show ?case
  proof (cases "n < 10")
    case True
    then show ?thesis using "1.prems" by (simp add: dlen_def show_nat.simps[of n])
  next
    case False
    have d: "dlen n = Suc (dlen (n div 10))" using False by (simp add: dlen_def show_nat.simps[of n])
    have i: "10 ^ (dlen (n div 10) - 1) \<le> n div 10" "n div 10 < 10 ^ dlen (n div 10)"
      using "1.IH"[OF False] False by auto
    have p: "0 < dlen (n div 10)" by (simp add: dlen_def)
    have "10 * 10 ^ (dlen (n div 10) - 1) \<le> n" using i(1) by linarith
    then have "10 ^ dlen (n div 10) \<le> n" using p by (simp flip: power_Suc)
    moreover have "n < 10 * 10 ^ dlen (n div 10)" using i(2) by linarith
    ultimately show ?thesis by (simp add: d)
  qed
qed

lemma dlen_unique: "10 ^ (k - 1) \<le> n \<Longrightarrow> n < 10 ^ k \<Longrightarrow> 0 < k \<Longrightarrow> dlen n = k"
proof -
  assume a: "10 ^ (k - 1) \<le> n" "n < 10 ^ k" "0 < k"
  have n: "0 < n" using a(1) by (metis less_le_trans zero_less_numeral zero_less_power)
  note b = dlen_bounds[OF n]
  have "(10::nat) ^ (k - 1) < 10 ^ dlen n" "(10::nat) ^ (dlen n - 1) < 10 ^ k" using a b by linarith+
  then have "k - 1 < dlen n" "dlen n - 1 < k" by simp_all
  moreover have "0 < dlen n" by (simp add: dlen_def)
  ultimately show "dlen n = k" using a(3) by linarith
qed

lemma ilog10_bounds: "0 < q \<Longrightarrow> 10 powi ilog10 q \<le> q \<and> q < 10 powi (ilog10 q + 1)"
proof (cases "1 \<le> q")
  case True
  define n where "n = nat \<lfloor>q\<rfloor>"
  have n: "0 < n" "real n \<le> q" "q < real n + 1" using True by (simp_all add: n_def)
  note b = dlen_bounds[OF n(1)]
  have p: "0 < dlen n" by (simp add: dlen_def)
  have r: "(10::real) ^ (dlen n - 1) \<le> real n" "real n + 1 \<le> 10 ^ dlen n"
  proof -
    have "real (10 ^ (dlen n - 1)) \<le> real n" "real (n + 1) \<le> real (10 ^ dlen n)"
      unfolding of_nat_le_iff using b by auto
    then show "(10::real) ^ (dlen n - 1) \<le> real n" "real n + 1 \<le> 10 ^ dlen n"
      by (simp_all only: of_nat_power of_nat_numeral of_nat_add of_nat_1)
  qed
  have "10 ^ (dlen n - 1) \<le> q" "q < 10 ^ dlen n" using r n(2,3) by linarith+
  moreover have "(10::real) powi (int (dlen n) - 1) = 10 ^ (dlen n - 1)"
    using p by (simp add: power_int_def nat_diff_distrib)
  ultimately show ?thesis using True by (simp add: ilog10_def n_def)
next
  case False
  assume q: "0 < q"
  define n where "n = nat (\<lceil>1 / q\<rceil> - 1)"
  have "1 < 1 / q" using False q by (simp add: field_simps)
  then have c: "2 \<le> \<lceil>1 / q\<rceil>" by linarith
  then have rn: "real n = of_int \<lceil>1 / q\<rceil> - 1" "0 < n" unfolding n_def by linarith+
  then have n: "real n < 1 / q" "1 / q \<le> real n + 1" by linarith+
  note b = dlen_bounds[OF rn(2)]
  have p: "0 < dlen n" by (simp add: dlen_def)
  have r: "(10::real) ^ (dlen n - 1) \<le> real n" "real n + 1 \<le> 10 ^ dlen n"
  proof -
    have "real (10 ^ (dlen n - 1)) \<le> real n" "real (n + 1) \<le> real (10 ^ dlen n)"
      unfolding of_nat_le_iff using b by auto
    then show "(10::real) ^ (dlen n - 1) \<le> real n" "real n + 1 \<le> 10 ^ dlen n"
      by (simp_all only: of_nat_power of_nat_numeral of_nat_add of_nat_1)
  qed
  have "10 ^ (dlen n - 1) < 1 / q" "1 / q \<le> 10 ^ dlen n" using r n by linarith+
  then have "q < inverse (10 ^ (dlen n - 1))" "inverse (10 ^ dlen n) \<le> q"
    using q by (simp_all add: field_simps)
  moreover have "(10::real) powi (- int (dlen n)) = inverse (10 ^ dlen n)"
    by (simp add: power_int_minus)
  moreover have "(10::real) powi (- int (dlen n) + 1) = inverse (10 ^ (dlen n - 1))"
  proof -
    have "- int (dlen n) + 1 = - int (dlen n - 1)" using p by simp
    then show ?thesis by (simp only: power_int_minus power_int_of_nat)
  qed
  ultimately show ?thesis using False by (simp add: ilog10_def n_def)
qed

lemma round_near_error: "\<bar>of_int (round_int RNear y) - y\<bar> \<le> 1 / 2"
  by (simp add: Let_def split: if_split) linarith?

lemma round_near_unique: "\<bar>y - of_int m\<bar> < 1 / 2 \<Longrightarrow> round_int RNear y = m"
proof -
  assume a: "\<bar>y - of_int m\<bar> < 1 / 2"
  consider "\<lfloor>y\<rfloor> = m" | "\<lfloor>y\<rfloor> = m - 1" using a by linarith
  then show ?thesis
  proof cases
    case 2
    then have "real_of_int \<lfloor>y\<rfloor> = of_int m - 1" by simp
    then have "1 / 2 < y - of_int \<lfloor>y\<rfloor>" using a by linarith
    then show ?thesis using 2 by (simp add: Let_def)
  next
    case 1
    then have "y - of_int \<lfloor>y\<rfloor> < 1 / 2" using a by linarith
    then show ?thesis using 1 by (simp add: Let_def)
  qed
qed

text \<open>The printed digits are within half a unit of their last place.\<close>

lemma dec_round_error:
  assumes "0 < q" "0 < P" "dec_round P q = (d, x)"
  shows "dlen d = P" "0 < d" "\<bar>real d * 10 powi (x - int P + 1) - q\<bar> * (2 * 10 ^ (P - 1)) \<le> q"
proof -
  define k where "k = ilog10 q"
  define u where "u = (10::real) powi (k - int P + 1)"
  define m where "m = round_int RNear (q / u)"
  have u: "0 < u" by (simp add: u_def)
  have b: "10 powi k \<le> q" "q < 10 powi (k + 1)" using ilog10_bounds[OF assms(1)] by (simp_all add: k_def)
  have "(10::real) powi k = 10 ^ (P - 1) * u" "(10::real) powi (k + 1) = 10 ^ P * u"
    using powi10_add[of "int (P - 1)" "k - int P + 1"] powi10_add[of "int P" "k - int P + 1"] assms(2)
    by (simp_all add: u_def of_nat_diff flip: power_int_of_nat)
  then have y: "10 ^ (P - 1) \<le> q / u" "q / u < 10 ^ P" using b u by (simp_all add: field_simps)
  have "10 ^ (P - 1) \<le> m" unfolding m_def by (rule round_int_ge) (use y(1) in simp)
  moreover have "m \<le> 10 ^ P" unfolding m_def by (rule round_int_le) (use y(2) in simp)
  ultimately have m: "10 ^ (P - 1) \<le> m" "m \<le> 10 ^ P" by simp_all
  have m0: "0 < m" using m(1) by (metis less_le_trans zero_less_numeral zero_less_power)
  have e: "\<bar>of_int m * u - q\<bar> * 2 \<le> u"
  proof -
    have "\<bar>of_int m - q / u\<bar> \<le> 1 / 2" unfolding m_def by (rule round_near_error)
    then have "\<bar>of_int m - q / u\<bar> * u \<le> 1 / 2 * u" using u by (intro mult_right_mono) simp_all
    moreover have "\<bar>of_int m - q / u\<bar> * u = \<bar>(of_int m - q / u) * u\<bar>" using u by (simp add: abs_mult)
    moreover have "(of_int m - q / u) * u = of_int m * u - q" using u by (simp add: field_simps)
    ultimately show ?thesis by simp
  qed
  have dx: "dlen d = P \<and> 0 < d \<and> real d * 10 powi (x - int P + 1) = of_int m * u"
  proof (cases "m = 10 ^ P")
    case True
    then have "d = 10 ^ (P - 1)" "x = k + 1"
      using assms(3) by (simp_all add: dec_round_def Let_def k_def[symmetric] u_def[symmetric] m_def[symmetric] del: round_int.simps)
    moreover have "real (10 ^ (P - 1)) * 10 powi (k + 1 - int P + 1) = 10 ^ P * u"
      using powi10_add[of 1 "k - int P + 1"] assms(2) power_Suc[of "10::real" "P - 1"] by (simp add: u_def algebra_simps)
    ultimately show ?thesis using True assms(2) by (simp add: dlen_unique)
  next
    case False
    then have d: "d = nat m" "x = k"
      using assms(3) by (simp_all add: dec_round_def Let_def k_def[symmetric] u_def[symmetric] m_def[symmetric] del: round_int.simps)
    have "m < 10 ^ P" using False m(2) by simp
    then have "nat m < 10 ^ P" "10 ^ (P - 1) \<le> nat m"
      using m(1) m0 by (simp_all add: nat_less_iff le_nat_iff)
    then show ?thesis using d m0 assms(2) by (simp add: dlen_unique u_def)
  qed
  show "dlen d = P" "0 < d" using dx by simp_all
  have "\<bar>of_int m * u - q\<bar> * (2 * 10 ^ (P - 1)) \<le> u * 10 ^ (P - 1)"
    using mult_right_mono[OF e, of "10 ^ (P - 1)"] by (simp add: algebra_simps)
  also have "\<dots> \<le> q" using y(1) u by (simp add: field_simps)
  finally show "\<bar>real d * 10 powi (x - int P + 1) - q\<bar> * (2 * 10 ^ (P - 1)) \<le> q" using dx by simp
qed

lemma ilog2_eq: "2 powi k \<le> q \<Longrightarrow> q < 2 powi (k + 1) \<Longrightarrow> ilog2 q = k"
proof -
  assume a: "2 powi k \<le> q" "q < 2 powi (k + 1)"
  have q: "0 < q" using a(1) powi2_pos[of k] by linarith
  have "(2::real) powi k < 2 powi (ilog2 q + 1)" "(2::real) powi ilog2 q < 2 powi (k + 1)"
    using a ilog2_bounds[OF q] by linarith+
  then show ?thesis by simp
qed

lemma half_abs: "2 * \<bar>x\<bar> < u \<Longrightarrow> x < u \<and> - x < u \<and> - (2 * x) < (u::real)"
  by linarith

text \<open>
  A real within one part in \<open>2 * 10^16\<close> of a double above the smallest normal one rounds to that
  double, from either side of a power of two.
\<close>

lemma fround_near_close:
  assumes "representable q" "2 powi (- 1022) < q" "\<bar>v - q\<bar> * (2 * 10 ^ 16) \<le> q"
  shows "fround RNear v = Fin q" "- 1022 \<le> ilog2 v" "0 < v"
proof -
  define e where "e = ilog2 q"
  define u where "u = (2::real) powi (e - 52)"
  have q0: "0 < q" using assms(2) powi2_pos[of "- 1022"] by linarith
  have b: "2 powi e \<le> q" "q < 2 powi (e + 1)" using ilog2_bounds[OF q0] by (simp_all add: e_def)
  have "(2::real) powi (- 1022) < 2 powi (e + 1)" using assms(2) b(2) by linarith
  then have e1022: "- 1022 \<le> e" unfolding powi2_less_iff by simp
  have qe: "qexp q = e - 52" using q0 e1022 by (simp add: qexp_def e_def)
  have u: "0 < u" by (simp add: u_def)
  have pe: "(2::real) powi e = 2 ^ 52 * u" "(2::real) powi (e + 1) = 2 ^ 53 * u"
    using powi2_add[of 52 "e - 52"] powi2_add[of 53 "e - 52"] by (simp_all add: u_def add.commute)
  define m where "m = round_int RNear (q / u)"
  have qm: "q = of_int m * u" using grid_exact[OF assms(1), of RNear] by (simp add: grid_def qe u_def m_def Let_def)
  have m: "2 ^ 52 \<le> m" "m < 2 ^ 53"
  proof -
    have "2 ^ 52 * u \<le> of_int m * u" "of_int m * u < 2 ^ 53 * u" using b qm pe by simp_all
    then have "(2::real) ^ 52 \<le> of_int m" "of_int m < (2::real) ^ 53"
      by (simp_all only: mult_le_cancel_right_pos[OF u] mult_less_cancel_right_pos[OF u])
    then show "2 ^ 52 \<le> m" "m < 2 ^ 53" by simp_all
  qed
  have err: "\<bar>v - q\<bar> * (2 * 10 ^ 16) \<le> of_int m * u" using assms(3) qm by simp
  have "of_int m \<le> (2::real) ^ 53" using m(2) by simp
  then have "of_int m * u \<le> 2 ^ 53 * u" using u by (intro mult_right_mono) simp_all
  then have "\<bar>v - q\<bar> * (2 * 10 ^ 16) \<le> 2 ^ 53 * u" using err by linarith
  then have close: "2 * \<bar>v - q\<bar> < u" using u by simp
  have fin: "fround RNear v = Fin q" if g: "grid RNear v = q" and v: "v \<noteq> 0"
  proof -
    have "\<not> overflows v q" using representable_le_max[OF assms(1)] by (simp add: overflows_def)
    then show ?thesis using g v q0 by (simp add: fround_def Let_def)
  qed
  have below53: "v < 2 powi (e + 1)"
  proof -
    have "of_int m \<le> (2::real) ^ 53 - 1" using m(2) by (simp add: of_int_less_numeral_power_cancel_iff)
    then have "of_int m * u \<le> (2 ^ 53 - 1) * u" using u by (intro mult_right_mono) simp_all
    then have "q \<le> 2 ^ 53 * u - u" using qm by (simp add: algebra_simps)
    moreover have "v - q < u" using half_abs[OF close] by simp
    ultimately show ?thesis unfolding pe by simp
  qed
  have "fround RNear v = Fin q \<and> - 1022 \<le> ilog2 v \<and> 0 < v"
  proof (cases "2 powi e \<le> v")
    case True
    have v0: "0 < v" using True powi2_pos[of e] by linarith
    have ev: "ilog2 v = e" using True below53 by (rule ilog2_eq)
    have qv: "qexp v = e - 52" using ev v0 e1022 by (simp add: qexp_def)
    have "\<bar>v / u - of_int m\<bar> < 1 / 2"
    proof -
      have "v / u - of_int m = (v - q) / u" using u by (simp add: qm field_simps)
      moreover have "\<bar>v - q\<bar> * 2 < u" using close by simp
      ultimately show ?thesis using u by simp
    qed
    from round_near_unique[OF this] have "grid RNear v = q"
      unfolding grid_def qv Let_def u_def[symmetric] by (simp only: qm)
    then show ?thesis using fin v0 ev e1022 by simp
  next
    case False
    have "m = 2 ^ 52"
    proof (rule ccontr)
      assume "m \<noteq> 2 ^ 52"
      then have "2 ^ 52 + 1 \<le> m" using m(1) by simp
      then have "(2::real) ^ 52 + 1 \<le> of_int m" by (simp add: numeral_power_le_of_int_cancel_iff flip: of_int_le_iff)
      then have "(2 ^ 52 + 1) * u \<le> q" unfolding qm using u by (intro mult_right_mono) simp_all
      then have "2 ^ 52 * u + u \<le> q" by (simp add: algebra_simps)
      moreover have "q - v < u" using half_abs[OF close] by simp
      ultimately show False using False unfolding pe by simp
    qed
    then have q: "q = 2 powi e" using qm pe by simp
    have e1021: "- 1021 \<le> e" using assms(2) unfolding q powi2_less_iff by simp
    have pe1: "(2::real) powi e = 2 * 2 powi (e - 1)" using powi2_add[of 1 "e - 1"] by simp
    have "u \<le> 2 powi (e - 1)" unfolding u_def powi2_le_iff by simp
    moreover have "q - v < u" using half_abs[OF close] by simp
    ultimately have vl: "2 powi (e - 1) \<le> v" using pe1 q by linarith
    have v0: "0 < v" using vl powi2_pos[of "e - 1"] by linarith
    have ev: "ilog2 v = e - 1" using vl False by (intro ilog2_eq) simp_all
    have qv: "qexp v = e - 53" using ev v0 e1021 by (simp add: qexp_def)
    define w where "w = (2::real) powi (e - 53)"
    have w: "0 < w" "u = 2 * w" using powi2_add[of 1 "e - 53"] by (simp_all add: w_def u_def)
    have qw: "q = 2 ^ 53 * w" using pe(1) q w(2) by simp
    have "\<bar>v - q\<bar> * (2 * 10 ^ 16) \<le> 2 ^ 53 * w" using assms(3) qw by simp
    then have c2: "2 * \<bar>v - q\<bar> < w" using w(1) by simp
    have "\<bar>v / w - of_int (2 ^ 53)\<bar> < 1 / 2"
    proof -
      have "v / w - of_int (2 ^ 53) = (v - q) / w" using w(1) by (simp add: qw field_simps)
      moreover have "\<bar>v - q\<bar> * 2 < w" using c2 by simp
      ultimately show ?thesis using w(1) by simp
    qed
    from round_near_unique[OF this] have "grid RNear v = of_int (2 ^ 53) * w"
      unfolding grid_def qv Let_def w_def[symmetric] by (simp only:)
    then have "grid RNear v = q" using qw by simp
    then show ?thesis using fin v0 ev e1021 by simp
  qed
  then show "fround RNear v = Fin q" "- 1022 \<le> ilog2 v" "0 < v" by simp_all
qed

lemma take_sign_digit: "is_digit c \<Longrightarrow> take_sign (c # s) = (False, c # s)"
  by (auto simp: take_sign_def is_digit_def)

lemma stod_fmt_pos:
  assumes "representable q" "2 powi (- 1022) < q" "take_sign s = (ng, fmt_pos 17 q)"
  shows "stod s = Some (fneg_if ng (Fin q))"
proof -
  have q0: "0 < q" using assms(2) powi2_pos[of "- 1022"] by linarith
  obtain d x where d: "dec_round 17 q = (d, x)" by fastforce
  note r = dec_round_error[OF q0 _ d, simplified]
  obtain a b e where f: "fmt_pos 17 q = a @ dot_frac b @ e" "list_all is_digit a" "list_all is_digit b" "a \<noteq> []"
    "e = [] \<or> (\<exists>y. e = show_exp y)" "dec_val (a @ b) (take_exp e - int (length b)) = real d * 10 powi (x - 17 + 1)"
    using fmt_pos_numeral[OF d] r(1,2) by (auto simp: dlen_def)
  define v where "v = dec_val (a @ b) (take_exp e - int (length b))"
  have "\<bar>v - q\<bar> * (2 * 10 ^ 16) \<le> q" using r(3) f(6) by (simp add: v_def)
  note c = fround_near_close[OF assms(1,2) this]
  show ?thesis
    by (rule stod_numeral[OF assms(3)[unfolded f(1)] f(2-5) c(1)[unfolded v_def]])
      (use c(2) in \<open>simp_all add: subnormal_inexact_def v_def\<close>)
qed

text \<open>The doubles that \<open>%.17g\<close> and \<open>stod\<close> carry through: zero and the normal range.\<close>

fun num_normal :: "double \<Rightarrow> bool" where
  "num_normal (Fin r) = (representable r \<and> (r = 0 \<or> 2 powi (- 1022) < \<bar>r\<bar>))"
| "num_normal _ = False"

lemma fmt_pos_digit: "0 < q \<Longrightarrow> \<exists>c s. fmt_pos 17 q = c # s \<and> is_digit c"
proof -
  assume q: "0 < q"
  obtain d x where d: "dec_round 17 q = (d, x)" by fastforce
  note r = dec_round_error[OF q _ d, simplified]
  obtain a b e where f: "fmt_pos 17 q = a @ dot_frac b @ e" "list_all is_digit a" "a \<noteq> []"
    using fmt_pos_numeral[OF d] r(1,2) by (auto simp: dlen_def)
  then show ?thesis by (cases a) auto
qed

lemma stod_fmt_g: "num_normal v \<Longrightarrow> stod (fmt_g 17 v) = Some v"
proof (cases v)
  case (Fin r)
  assume n: "num_normal v"
  have tiny: "(0::real) < 2 powi (- 1022)" by (rule powi2_pos)
  consider "r = 0" | "r < 0" | "0 < r" by linarith
  then show ?thesis
  proof cases
    case 1
    have "show_int 0 = ''0''" by code_simp
    then show ?thesis using 1 stod_show_int[of 0] by (simp add: Fin)
  next
    case 2
    then have "representable (- r)" "2 powi (- 1022) < - r" using n Fin by auto
    then have "stod (CHR ''-'' # fmt_pos 17 (- r)) = Some (fneg_if True (Fin (- r)))"
      by (rule stod_fmt_pos) (simp add: take_sign_def)
    then show ?thesis using 2 by (simp add: Fin fneg_if_def)
  next
    case 3
    then have w: "representable r" "2 powi (- 1022) < r" using n Fin tiny by auto
    obtain c s where c: "fmt_pos 17 r = c # s" "is_digit c" using fmt_pos_digit[OF 3] by blast
    have "stod (fmt_pos 17 r) = Some (fneg_if False (Fin r))"
      by (rule stod_fmt_pos[OF w]) (simp add: c take_sign_digit)
    then show ?thesis using 3 by (simp add: Fin fneg_if_def)
  qed
qed simp_all

section \<open>printf's f conversion\<close>

text \<open>\<open>%.Pf\<close>: the exact decimal rounded to \<open>P\<close> places, ties to even; \<open>std::to_string\<close> uses six.\<close>

definition fmt_f_pos :: "nat \<Rightarrow> real \<Rightarrow> string" where
  "fmt_f_pos P q =
     (let n = nat (round_int RNear (q * 10 ^ P)); ds = show_nat (n mod 10 ^ P)
      in show_nat (n div 10 ^ P) @ (if P = 0 then [] else CHR ''.'' # replicate (P - length ds) (CHR ''0'') @ ds))"

fun fmt_f :: "nat \<Rightarrow> double \<Rightarrow> string" where
  "fmt_f P NaN = ''nan''"
| "fmt_f P PInf = ''inf''"
| "fmt_f P NInf = ''-inf''"
| "fmt_f P NegZero = CHR ''-'' # fmt_f_pos P 0"
| "fmt_f P (Fin r) = (if r < 0 then CHR ''-'' # fmt_f_pos P (- r) else fmt_f_pos P r)"

end
