(* ===== verification/Fve_Json.thy ===== *)
theory Fve_Json
  imports Fve_Text
begin

text \<open>
  The JSON values of \<open>core/ast/json\<close>, their text form and the parser. An object is an ordered
  map, as \<open>std::map\<close> keeps it. The parser works on the rest of the text; an exception of
  \<open>std::stod\<close> is \<open>PThrow\<close>, and the recursion carries fuel, \<open>PFuel\<close> when it runs out. The
  lemmas: the fuel \<open>parse\<close> gives is always enough, and what \<open>dump\<close> prints of a value with
  zero and normal numbers parses back to the value.
\<close>

datatype json =
    JNull
  | JBool bool
  | JNum double
  | JStr string
  | JArr "json list"
  | JObj "(string, json) omap"

section \<open>Access\<close>

fun jobj :: "json \<Rightarrow> (string, json) omap" where
  "jobj (JObj m) = m"
| "jobj _ = []"

fun jarr :: "json \<Rightarrow> json list" where
  "jarr (JArr xs) = xs"
| "jarr _ = []"

text \<open>The members \<open>num\<close>, \<open>s\<close> and \<open>b\<close> keep their defaults in a value of another type.\<close>

fun jnum :: "json \<Rightarrow> double" where
  "jnum (JNum v) = v"
| "jnum _ = Fin 0"

fun jstring :: "json \<Rightarrow> string" where
  "jstring (JStr s) = s"
| "jstring _ = []"

fun jbool :: "json \<Rightarrow> bool" where
  "jbool (JBool b) = b"
| "jbool _ = False"

definition jhas :: "json \<Rightarrow> string \<Rightarrow> bool" where
  "jhas j k = (mget (jobj j) k \<noteq> None)"

definition jat :: "json \<Rightarrow> string \<Rightarrow> json" where
  "jat j k = (case mget (jobj j) k of None \<Rightarrow> JNull | Some v \<Rightarrow> v)"

definition jn :: "json \<Rightarrow> string \<Rightarrow> double \<Rightarrow> double" where
  "jn j k def = (case mget (jobj j) k of Some (JNum v) \<Rightarrow> v | _ \<Rightarrow> def)"

definition jstr :: "json \<Rightarrow> string \<Rightarrow> string \<Rightarrow> string" where
  "jstr j k def = (case mget (jobj j) k of Some (JStr s) \<Rightarrow> s | _ \<Rightarrow> def)"

definition mkobj :: "(string \<times> json) list \<Rightarrow> json" where
  "mkobj ps = JObj (mbuild ps)"

section \<open>Printing\<close>

fun esc_char :: "char \<Rightarrow> string" where
  "esc_char c =
     (if c = CHR ''\"'' then [CHR 92, CHR ''\"'']
      else if c = CHR 92 then [CHR 92, CHR 92]
      else if c = CHR 10 then [CHR 92, CHR ''n'']
      else if c = CHR 9 then [CHR 92, CHR ''t'']
      else if c = CHR 13 then [CHR 92, CHR ''r'']
      else [c])"

definition esc :: "string \<Rightarrow> string" where
  "esc s = CHR ''\"'' # concat (map esc_char s) @ [CHR ''\"'']"

text \<open>Integers below \<open>10^15\<close> print as integers, other numbers with 17 digits.\<close>

fun num_out :: "double \<Rightarrow> string" where
  "num_out NaN = esc ''nan''"
| "num_out PInf = esc ''inf''"
| "num_out NInf = esc ''-inf''"
| "num_out d =
     (if fval d = of_int \<lfloor>fval d\<rfloor> \<and> \<bar>fval d\<bar> < 10 ^ 15 then show_int \<lfloor>fval d\<rfloor> else fmt_g 17 d)"

fun join :: "char \<Rightarrow> string list \<Rightarrow> string" where
  "join c [] = []"
| "join c [x] = x"
| "join c (x # y # xs) = x @ c # join c (y # xs)"

fun dump :: "json \<Rightarrow> string" where
  "dump JNull = ''null''"
| "dump (JBool b) = (if b then ''true'' else ''false'')"
| "dump (JNum v) = num_out v"
| "dump (JStr s) = esc s"
| "dump (JArr xs) = CHR ''['' # join (CHR '','') (map dump xs) @ '']''"
| "dump (JObj m) =
     CHR ''{'' # join (CHR '','') (map (\<lambda>(k, v). esc k @ CHR '':'' # dump v) m) @ ''}''"

section \<open>Parsing\<close>

datatype 'a pres = POk 'a string | PThrow | PFuel

definition is_ws :: "char \<Rightarrow> bool" where
  "is_ws c = (c = CHR '' '' \<or> c = CHR 10 \<or> c = CHR 9 \<or> c = CHR 13)"

definition ws :: "string \<Rightarrow> string" where
  "ws s = dropWhile is_ws s"

definition peek :: "string \<Rightarrow> char" where
  "peek s = (case s of [] \<Rightarrow> char_of (0::nat) | c # _ \<Rightarrow> c)"

fun unesc :: "char \<Rightarrow> char" where
  "unesc e =
     (if e = CHR ''n'' then CHR 10 else if e = CHR ''t'' then CHR 9
      else if e = CHR ''r'' then CHR 13 else e)"

text \<open>The characters of a string after its opening quote, and the text after its closing one.\<close>

fun str_body :: "string \<Rightarrow> string \<times> string" where
  "str_body [] = ([], [])"
| "str_body [c] = (if c = CHR ''\"'' then ([], []) else ([c], []))"
| "str_body (c # e # s) =
     (if c = CHR ''\"'' then ([], e # s)
      else if c = CHR 92 then (let (out, r) = str_body s in (unesc e # out, r))
      else (let (out, r) = str_body (e # s) in (c # out, r)))"

definition pstring :: "string \<Rightarrow> string \<times> string" where
  "pstring s = str_body (drop 1 s)"

definition num_char :: "char \<Rightarrow> bool" where
  "num_char c = (c = CHR ''-'' \<or> c = CHR ''+'' \<or> c = CHR ''.'' \<or> c = CHR ''e'' \<or> c = CHR ''E'' \<or> is_digit c)"

definition pnumber :: "string \<Rightarrow> json pres" where
  "pnumber s =
     (if peek s = CHR ''\"''
      then let (t, r) = pstring s
           in POk (JNum (if t = ''inf'' then PInf else if t = ''-inf'' then NInf else NaN)) r
      else case stod (takeWhile num_char s) of
             None \<Rightarrow> PThrow
           | Some v \<Rightarrow> POk (JNum v) (dropWhile num_char s))"

definition pboolean :: "string \<Rightarrow> json pres" where
  "pboolean s = (if peek s = CHR ''t'' then POk (JBool True) (drop 4 s) else POk (JBool False) (drop 5 s))"

fun pvalue :: "nat \<Rightarrow> string \<Rightarrow> json pres"
and pmembers :: "nat \<Rightarrow> string \<Rightarrow> (string, json) omap \<Rightarrow> json pres"
and pelements :: "nat \<Rightarrow> string \<Rightarrow> json list \<Rightarrow> json pres" where
  "pvalue 0 s = PFuel"
| "pvalue (Suc f) s0 =
     (let s = ws s0; c = peek s
      in if c = CHR ''{''
         then (let s = ws (drop 1 s)
               in if peek s = CHR ''}'' then POk (JObj []) (drop 1 s) else pmembers f s [])
         else if c = CHR ''[''
         then (let s = ws (drop 1 s)
               in if peek s = CHR '']'' then POk (JArr []) (drop 1 s) else pelements f s [])
         else if c = CHR ''\"'' then (let (t, r) = pstring s in POk (JStr t) r)
         else if c = CHR ''t'' \<or> c = CHR ''f'' then pboolean s
         else if c = CHR ''n'' then POk JNull (drop 4 s)
         else pnumber s)"
| "pmembers 0 s m = PFuel"
| "pmembers (Suc f) s m =
     (let (k, r) = pstring (ws s)
      in case pvalue f (drop 1 (ws r)) of
           PThrow \<Rightarrow> PThrow
         | PFuel \<Rightarrow> PFuel
         | POk v r \<Rightarrow>
             (let m = mput k v m; r = ws r
              in if peek r = CHR '','' then pmembers f (drop 1 r) m
                 else POk (JObj m) (if peek r = CHR ''}'' then drop 1 r else r)))"
| "pelements 0 s xs = PFuel"
| "pelements (Suc f) s xs =
     (case pvalue f s of
        PThrow \<Rightarrow> PThrow
      | PFuel \<Rightarrow> PFuel
      | POk v r \<Rightarrow>
          (let xs = xs @ [v]; r = ws r
           in if peek r = CHR '','' then pelements f (drop 1 r) xs
              else POk (JArr xs) (if peek r = CHR '']'' then drop 1 r else r)))"

declare pvalue.simps [simp del] pmembers.simps [simp del] pelements.simps [simp del]

definition parse :: "string \<Rightarrow> json option" where
  "parse text =
     (case pvalue (2 * length text + 1) text of POk v _ \<Rightarrow> Some v | _ \<Rightarrow> None)"

section \<open>The fuel is enough\<close>

lemma length_ws: "length (ws s) \<le> length s"
  by (simp add: ws_def length_dropWhile_le)

lemma length_str_body: "length (snd (str_body s)) \<le> length s"
  by (induction s rule: str_body.induct) (auto split: prod.splits)

lemma length_pstring: "pstring s = (t, r) \<Longrightarrow> length r \<le> length s - 1"
  using length_str_body[of "drop 1 s"] by (simp add: pstring_def)

lemma open_char_nonzero: "c \<in> set ''{[,'' \<Longrightarrow> c \<noteq> char_of (0::nat)"
  by (auto simp: char_of_def)

lemma peek_nonempty: "peek s = c \<Longrightarrow> c \<noteq> char_of (0::nat) \<Longrightarrow> 0 < length s"
  by (auto simp: peek_def split: list.splits)

definition pres_ok :: "'a pres \<Rightarrow> nat \<Rightarrow> bool" where
  "pres_ok r n = (case r of POk v t \<Rightarrow> length t \<le> n | PThrow \<Rightarrow> True | PFuel \<Rightarrow> False)"

lemma pnumber_ok: "pres_ok (pnumber s) (length s)"
  using length_pstring[of s]
  by (auto simp: pnumber_def pres_ok_def length_dropWhile_le split: option.splits prod.splits)

lemma pboolean_ok: "pres_ok (pboolean s) (length s)"
  by (simp add: pboolean_def pres_ok_def)

lemma pres_ok_mono: "pres_ok r n \<Longrightarrow> n \<le> m \<Longrightarrow> pres_ok r m"
  by (cases r) (auto simp: pres_ok_def)

lemma parse_fuel:
  "2 * length s < f \<Longrightarrow> pres_ok (pvalue f s) (length s)"
  "2 * length s + 1 < f \<Longrightarrow> pres_ok (pmembers f s m) (length s)"
  "2 * length s + 1 < f \<Longrightarrow> pres_ok (pelements f s xs) (length s)"
proof (induction f s and f s m and f s xs rule: pvalue_pmembers_pelements.induct)
  case (2 f s0)
  define s where "s = ws s0"
  define s1 where "s1 = ws (drop 1 s)"
  have le: "length s \<le> length s0" by (simp add: s_def length_ws)
  have le1: "length s1 \<le> length s - 1" using length_ws[of "drop 1 s"] by (simp add: s1_def)
  have brace: "0 < length s" if "peek s = CHR ''{'' \<or> peek s = CHR ''[''"
    using that peek_nonempty[of s] by (auto simp: open_char_nonzero)
  have small: "2 * length s1 + 1 < f \<and> length s1 \<le> length s0" if "peek s = CHR ''{'' \<or> peek s = CHR ''[''"
    using brace[OF that] "2.prems" le le1 by linarith
  have mem: "pres_ok (pmembers f s1 []) (length s0)" if "peek s = CHR ''{''" "peek s1 \<noteq> CHR ''}''"
    using "2.IH"(1)[OF s_def refl that(1) s1_def that(2)] small that(1) by (auto intro: pres_ok_mono)
  have el: "pres_ok (pelements f s1 []) (length s0)" if "peek s = CHR ''[''" "peek s1 \<noteq> CHR '']''"
    using "2.IH"(2)[OF s_def refl _ that(1) s1_def that(2)] small that(1) by (auto intro: pres_ok_mono)
  have str: "pres_ok (case pstring s of (t, r) \<Rightarrow> POk (JStr t) r) (length s0)"
    using le length_pstring[of s] by (cases "pstring s") (fastforce simp: pres_ok_def)
  show ?case
    using mem el str pres_ok_mono[OF pnumber_ok le] pres_ok_mono[OF pboolean_ok le] le le1
    unfolding pvalue.simps Let_def s_def[symmetric] s1_def[symmetric]
    by (auto simp: pres_ok_def)
next
  case (4 f s m)
  obtain k r where k: "pstring (ws s) = (k, r)" by fastforce
  have lr: "length r \<le> length s" using length_pstring[OF k] length_ws[of s] by simp
  define r1 where "r1 = drop 1 (ws r)"
  have lr1: "length r1 \<le> length s" using length_ws[of r] lr by (simp add: r1_def)
  have v: "pres_ok (pvalue f r1) (length r1)"
    using "4.IH"(1)[OF k[symmetric] refl] "4.prems" lr1 by (simp add: r1_def)
  show ?case
  proof (cases "pvalue f r1")
    case (POk w t)
    define t1 where "t1 = ws t"
    have lt: "length t1 \<le> length s" using v POk lr1 length_ws[of t] by (simp add: pres_ok_def t1_def)
    have rec: "pres_ok (pmembers f (drop 1 t1) (mput k w m)) (length s)" if c: "peek t1 = CHR '',''"
    proof -
      have "0 < length t1" using peek_nonempty[OF c] by (simp add: open_char_nonzero)
      then have "length (drop 1 t1) < length s" using lt unfolding length_drop by linarith
      then show ?thesis
        using "4.IH"(2)[OF k[symmetric] refl POk[unfolded r1_def] refl t1_def c] "4.prems"
        by (auto elim: pres_ok_mono)
    qed
    have "pmembers (Suc f) s m = (if peek t1 = CHR '','' then pmembers f (drop 1 t1) (mput k w m)
       else POk (JObj (mput k w m)) (if peek t1 = CHR ''}'' then drop 1 t1 else t1))"
      using POk unfolding pmembers.simps k r1_def t1_def Let_def prod.case pres.case by simp
    then show ?thesis using rec lt by (auto simp: pres_ok_def)
  next
    case PThrow
    then show ?thesis unfolding pmembers.simps k r1_def by (simp add: pres_ok_def)
  next
    case PFuel
    then show ?thesis using v by (simp add: pres_ok_def)
  qed
next
  case (6 f s xs)
  have v: "pres_ok (pvalue f s) (length s)" using "6.IH"(1) "6.prems" by simp
  show ?case
  proof (cases "pvalue f s")
    case (POk w t)
    define t1 where "t1 = ws t"
    have lt: "length t1 \<le> length s" using v POk length_ws[of t] by (simp add: pres_ok_def t1_def)
    have rec: "pres_ok (pelements f (drop 1 t1) (xs @ [w])) (length s)" if c: "peek t1 = CHR '',''"
    proof -
      have "0 < length t1" using peek_nonempty[OF c] by (simp add: open_char_nonzero)
      then have "length (drop 1 t1) < length s" using lt unfolding length_drop by linarith
      then show ?thesis
        using "6.IH"(2)[OF POk refl t1_def c] "6.prems" by (auto elim: pres_ok_mono)
    qed
    have "pelements (Suc f) s xs = (if peek t1 = CHR '','' then pelements f (drop 1 t1) (xs @ [w])
       else POk (JArr (xs @ [w])) (if peek t1 = CHR '']'' then drop 1 t1 else t1))"
      using POk unfolding pelements.simps t1_def Let_def by simp
    then show ?thesis using rec lt by (auto simp: pres_ok_def)
  qed (use v in \<open>simp_all add: pelements.simps pres_ok_def\<close>)
qed simp_all

lemma parse_not_fuel: "pvalue (2 * length text + 1) text \<noteq> PFuel"
  using parse_fuel(1)[of "text" "2 * length text + 1"] by (auto simp: pres_ok_def)

text \<open>More fuel does not change a result.\<close>

lemma fuel_mono:
  "pvalue f s \<noteq> PFuel \<Longrightarrow> f \<le> g \<Longrightarrow> pvalue g s = pvalue f s"
  "pmembers f s m \<noteq> PFuel \<Longrightarrow> f \<le> g \<Longrightarrow> pmembers g s m = pmembers f s m"
  "pelements f s xs \<noteq> PFuel \<Longrightarrow> f \<le> g \<Longrightarrow> pelements g s xs = pelements f s xs"
proof (induction f s and f s m and f s xs arbitrary: g and g and g rule: pvalue_pmembers_pelements.induct)
  case (2 f s0)
  obtain g' where g: "g = Suc g'" "f \<le> g'" using Suc_le_D[OF "2.prems"(2)] "2.prems"(2) by auto
  define s where "s = ws s0"
  define s1 where "s1 = ws (drop 1 s)"
  have mem: "pmembers f s1 [] \<noteq> PFuel \<Longrightarrow> pmembers g' s1 [] = pmembers f s1 []"
    if "peek s = CHR ''{''" "peek s1 \<noteq> CHR ''}''"
    using "2.IH"(1)[OF s_def refl that(1) s1_def that(2)] g(2) by blast
  have el: "pelements f s1 [] \<noteq> PFuel \<Longrightarrow> pelements g' s1 [] = pelements f s1 []"
    if "peek s = CHR ''[''" "peek s1 \<noteq> CHR '']''"
  proof -
    have "peek s \<noteq> CHR ''{''" using that(1) by simp
    from "2.IH"(2)[OF s_def refl this that(1) s1_def that(2)] g(2)
    show "pelements f s1 [] \<noteq> PFuel \<Longrightarrow> pelements g' s1 [] = pelements f s1 []" by blast
  qed
  show ?case using mem el "2.prems"(1)
    unfolding g(1) pvalue.simps Let_def s_def[symmetric] s1_def[symmetric]
    apply (cases "peek s = CHR ''{''")
     apply (cases "peek s1 = CHR ''}''"; simp)
    apply (cases "peek s = CHR ''[''")
     apply (cases "peek s1 = CHR '']''"; simp)
    apply (simp only: if_False)
    done
next
  case (4 f s m)
  obtain g' where g: "g = Suc g'" "f \<le> g'" using Suc_le_D[OF "4.prems"(2)] "4.prems"(2) by auto
  obtain k r where k: "pstring (ws s) = (k, r)" by fastforce
  define r1 where "r1 = drop 1 (ws r)"
  have nf: "pvalue f r1 \<noteq> PFuel" using "4.prems"(1) unfolding pmembers.simps k prod.case r1_def by (cases "pvalue f (drop 1 (ws r))") simp_all
  have v: "pvalue g' r1 = pvalue f r1" using "4.IH"(1)[OF k[symmetric] refl] nf g(2) unfolding r1_def by blast
  show ?case
  proof (cases "pvalue f r1")
    case (POk w t)
    have step: "pmembers (Suc h) s m = (if peek (ws t) = CHR '','' then pmembers h (drop 1 (ws t)) (mput k w m)
       else POk (JObj (mput k w m)) (if peek (ws t) = CHR ''}'' then drop 1 (ws t) else ws t))"
      if "pvalue h r1 = POk w t" for h
      using that unfolding pmembers.simps k r1_def Let_def prod.case pres.case by simp
    show ?thesis
    proof (cases "peek (ws t) = CHR '',''")
      case True
      have "pmembers f (drop 1 (ws t)) (mput k w m) \<noteq> PFuel"
        using "4.prems"(1) step[OF POk] True by simp
      then have "pmembers g' (drop 1 (ws t)) (mput k w m) = pmembers f (drop 1 (ws t)) (mput k w m)"
        using "4.IH"(2)[OF k[symmetric] refl POk[unfolded r1_def] refl refl True] g(2) by blast
      then show ?thesis unfolding g(1) step[OF POk] step[OF v[unfolded POk]] using True by simp
    qed (simp only: g(1) step[OF POk] step[OF v[unfolded POk]] if_False)
  qed (use v nf in \<open>simp_all add: pmembers.simps k g(1) r1_def\<close>)
next
  case (6 f s xs)
  obtain g' where g: "g = Suc g'" "f \<le> g'" using Suc_le_D[OF "6.prems"(2)] "6.prems"(2) by auto
  have nf: "pvalue f s \<noteq> PFuel" using "6.prems"(1) unfolding pelements.simps by (cases "pvalue f s") simp_all
  have v: "pvalue g' s = pvalue f s" using "6.IH"(1) nf g(2) by blast
  show ?case
  proof (cases "pvalue f s")
    case (POk w t)
    have step: "pelements (Suc h) s xs = (if peek (ws t) = CHR '','' then pelements h (drop 1 (ws t)) (xs @ [w])
       else POk (JArr (xs @ [w])) (if peek (ws t) = CHR '']'' then drop 1 (ws t) else ws t))"
      if "pvalue h s = POk w t" for h
      using that unfolding pelements.simps Let_def by simp
    show ?thesis
    proof (cases "peek (ws t) = CHR '',''")
      case True
      have "pelements f (drop 1 (ws t)) (xs @ [w]) \<noteq> PFuel"
        using "6.prems"(1) step[OF POk] True by simp
      then have "pelements g' (drop 1 (ws t)) (xs @ [w]) = pelements f (drop 1 (ws t)) (xs @ [w])"
        using "6.IH"(2)[OF POk refl refl True] g(2) by blast
      then show ?thesis unfolding g(1) step[OF POk] step[OF v[unfolded POk]] using True by simp
    qed (simp only: g(1) step[OF POk] step[OF v[unfolded POk]] if_False)
  qed (use v nf in \<open>simp_all add: pelements.simps g(1)\<close>)
qed (simp_all add: pvalue.simps pmembers.simps pelements.simps)

lemma parse_eq: "pvalue f text = POk v r \<Longrightarrow> parse text = Some v"
proof -
  assume f: "pvalue f text = POk v r"
  define n where "n = 2 * length text + 1"
  have "pvalue n text = POk v r"
  proof (cases "n \<le> f")
    case True
    then show ?thesis using fuel_mono(1)[OF parse_not_fuel, of "text" f] f by (simp add: n_def)
  next
    case False
    then show ?thesis using fuel_mono(1)[of f "text" n] f by simp
  qed
  then show ?thesis by (simp add: parse_def n_def)
qed

section \<open>Printing and parsing round trip\<close>

text \<open>The values the text form carries: zero and normal numbers, ordered objects.\<close>

fun json_plain :: "json \<Rightarrow> bool" where
  "json_plain (JNum v) = num_normal v"
| "json_plain (JArr xs) = list_all json_plain xs"
| "json_plain (JObj m) = (mwf m \<and> list_all (\<lambda>p. json_plain (snd p)) m)"
| "json_plain _ = True"

lemma str_body_esc: "str_body (concat (map esc_char s) @ CHR ''\"'' # r) = (s, r)"
proof (induction s)
  case Nil
  show ?case by (cases r) auto
next
  case (Cons c s)
  have q: "str_body (c # concat (map esc_char s) @ CHR ''\"'' # r) = (c # s, r)"
    if "c \<noteq> CHR ''\"''" "c \<noteq> CHR 92"
  proof -
    obtain d t where dt: "concat (map esc_char s) @ CHR ''\"'' # r = d # t"
      by (cases "concat (map esc_char s) @ CHR ''\"'' # r") auto
    show ?thesis using Cons.IH that unfolding dt by simp
  qed
  show ?case
  proof (cases "c \<in> {CHR ''\"'', CHR 92, CHR 10, CHR 9, CHR 13}")
    case True
    then have "\<exists>e. esc_char c = [CHR 92, e] \<and> unesc e = c" by auto
    then obtain e where "esc_char c = [CHR 92, e]" "unesc e = c" by blast
    then show ?thesis using Cons.IH by (simp del: esc_char.simps unesc.simps)
  next
    case False
    then have "esc_char c = [c]" by simp
    then show ?thesis using q False by (simp del: esc_char.simps)
  qed
qed

lemma pstring_esc [simp]: "pstring (esc s @ r) = (s, r)"
  using str_body_esc[of s r] by (simp add: pstring_def esc_def)

lemma pstring_esc_Nil [simp]: "pstring (esc s) = (s, [])"
  using pstring_esc[of s "[]"] by simp

text \<open>What may follow a value inside a document.\<close>

definition stops :: "string \<Rightarrow> bool" where
  "stops r = (r = [] \<or> \<not> num_char (r ! 0))"

lemma is_digit_num_char: "is_digit c \<Longrightarrow> num_char c"
  by (simp add: num_char_def)

lemma show_int_num_char: "list_all num_char (show_int i)"
  using show_nat_digits[of "nat i"] show_nat_digits[of "nat (- i)"]
  by (auto simp: show_int_def list_all_iff is_digit_num_char) (simp add: num_char_def)

lemma takeWhile_stops: "list_all num_char s \<Longrightarrow> stops r \<Longrightarrow> takeWhile num_char (s @ r) = s \<and> dropWhile num_char (s @ r) = r"
  by (cases r) (auto simp: list_all_iff stops_def takeWhile_append dropWhile_append)

lemma num_char_token:
  assumes "num_char c"
  shows "\<not> is_ws c" "c \<notin> set ''{[\"tfn,]}:''"
  using assms by (auto simp: num_char_def is_ws_def is_digit_def)

lemma show_int_nonempty [simp]: "show_int i \<noteq> []"
  by (simp add: show_int_def)

lemma show_exp_num_char: "list_all num_char (show_exp x)"
  using show_nat_digits[of "nat \<bar>x\<bar>"]
  by (auto simp: show_exp_def Let_def list_all_iff is_digit_num_char) (simp_all add: num_char_def is_digit_num_char)

lemma fmt_pos_num_char: "0 < q \<Longrightarrow> list_all num_char (fmt_pos 17 q)"
proof -
  assume q: "0 < q"
  obtain d x where d: "dec_round 17 q = (d, x)" by fastforce
  note r = dec_round_error[OF q _ d, simplified]
  obtain a b e where f: "fmt_pos 17 q = a @ dot_frac b @ e" "list_all is_digit a" "list_all is_digit b"
    "e = [] \<or> (\<exists>y. e = show_exp y)"
    using fmt_pos_numeral[OF d] r(1,2) by (auto simp: dlen_def)
  have "num_char (CHR ''.'')" by (simp add: num_char_def)
  then show ?thesis using f show_exp_num_char
    by (auto simp: list_all_iff dot_frac_def is_digit_num_char)
qed

lemma num_out_normal: "num_normal v \<Longrightarrow> stod (num_out v) = Some v \<and> list_all num_char (num_out v) \<and> num_out v \<noteq> []"
proof (cases v)
  case (Fin r)
  assume n: "num_normal v"
  show ?thesis
  proof (cases "r = of_int \<lfloor>r\<rfloor> \<and> \<bar>r\<bar> < 10 ^ 15")
    case True
    then have "real_of_int \<bar>\<lfloor>r\<rfloor>\<bar> < real_of_int (10 ^ 15)" by simp
    then have "\<bar>\<lfloor>r\<rfloor>\<bar> < 10 ^ 15" unfolding of_int_less_iff .
    then have "\<bar>\<lfloor>r\<rfloor>\<bar> < 2 ^ 53" by simp
    then show ?thesis using True stod_show_int[of "\<lfloor>r\<rfloor>"] show_int_num_char by (simp add: Fin)
  next
    case False
    then have r0: "r \<noteq> 0" by auto
    have c: "fmt_g 17 v = (if r < 0 then CHR ''-'' # fmt_pos 17 (- r) else fmt_pos 17 r)" using r0 by (simp add: Fin)
    have "num_char (CHR ''-'')" by (simp add: num_char_def)
    then have "list_all num_char (fmt_g 17 v) \<and> fmt_g 17 v \<noteq> []"
      using fmt_pos_num_char[of r] fmt_pos_num_char[of "- r"] fmt_pos_digit[of r] r0 unfolding c by auto
    moreover have "num_out v = fmt_g 17 v" using False unfolding Fin num_out.simps fval.simps by (simp only: if_False)
    ultimately show ?thesis using stod_fmt_g[OF n] by simp
  qed
qed simp_all

lemma pvalue_num:
  assumes "num_normal v" "stops r"
  shows "pvalue (Suc 0) (num_out v @ r) = POk (JNum v) r"
proof -
  define s where "s = num_out v"
  have s: "stod s = Some v" "list_all num_char s" "s \<noteq> []" using num_out_normal[OF assms(1)] by (simp_all add: s_def)
  obtain c t where ct: "s = c # t" using s(3) by (cases s) auto
  have c: "num_char c" using s(2) by (simp add: ct)
  have w: "ws (s @ r) = s @ r" using num_char_token(1)[OF c] by (simp add: ws_def ct)
  have p: "peek (s @ r) = c" by (simp add: peek_def ct)
  have "pnumber (s @ r) = POk (JNum v) r"
    using takeWhile_stops[OF s(2) assms(2)] num_char_token(2)[OF c] p s(1) by (simp add: pnumber_def)
  then show ?thesis using num_char_token(2)[OF c] p by (simp add: pvalue.simps w flip: s_def)
qed

text \<open>Some fuel makes the parser read one printed value and stop behind it.\<close>

lemma pvalue_dump_start: "json_plain j \<Longrightarrow> \<exists>c t. dump j = c # t \<and> \<not> is_ws c \<and> c \<notin> set '',]}:''"
proof (cases j)
  case (JNum v)
  assume "json_plain j"
  then have n: "list_all num_char (num_out v)" "num_out v \<noteq> []" using num_out_normal[of v] JNum by simp_all
  obtain c t where ct: "num_out v = c # t" using n(2) by (cases "num_out v") auto
  have "num_char c" using n(1) by (simp add: ct)
  from num_char_token[OF this] show ?thesis using JNum ct by auto
qed (auto simp: is_ws_def esc_def)

lemma ws_token: "\<not> is_ws c \<Longrightarrow> ws (c # t) = c # t"
  by (simp add: ws_def)

lemma stops_token: "c \<in> set '',]}'' \<Longrightarrow> stops (c # t)"
  by (auto simp: stops_def num_char_def is_digit_def)

lemma ws_sep [simp]: "c \<in> set '',]}:{[\"'' \<Longrightarrow> ws (c # t) = c # t"
  by (intro ws_token) (auto simp: is_ws_def)

lemma join_Cons: "join c (x # xs) = x @ concat (map (\<lambda>y. c # y) xs)"
  by (induction xs arbitrary: x) auto

lemma pelements_dump:
  assumes "\<And>x r. x \<in> set (y # ys) \<Longrightarrow> stops r \<Longrightarrow> \<exists>f. pvalue f (dump x @ r) = POk x r"
  shows "\<exists>f. pelements f (join (CHR '','') (map dump (y # ys)) @ CHR '']'' # r) acc = POk (JArr (acc @ y # ys)) r"
  using assms
proof (induction ys arbitrary: y acc)
  case Nil
  obtain f where f: "pvalue f (dump y @ CHR '']'' # r) = POk y (CHR '']'' # r)"
    using Nil[of y "CHR '']'' # r"] by (auto simp: stops_token)
  show ?case by (rule exI[of _ "Suc f"]) (simp add: pelements.simps f peek_def)
next
  case (Cons z ys)
  let ?t = "join (CHR '','') (map dump (z # ys)) @ CHR '']'' # r"
  obtain f where f: "pvalue f (dump y @ CHR '','' # ?t) = POk y (CHR '','' # ?t)"
    using Cons.prems[of y "CHR '','' # ?t"] by (auto simp: stops_token)
  obtain g where g: "pelements g ?t (acc @ [y]) = POk (JArr ((acc @ [y]) @ z # ys)) r"
    using Cons.IH[of z "acc @ [y]"] Cons.prems by auto
  let ?h = "max f g"
  have "pvalue ?h (dump y @ CHR '','' # ?t) = POk y (CHR '','' # ?t)" using fuel_mono(1)[of f _ ?h] f by simp
  moreover have "pelements ?h ?t (acc @ [y]) = POk (JArr ((acc @ [y]) @ z # ys)) r"
    using fuel_mono(3)[of g _ _ ?h] g by simp
  moreover have "join (CHR '','') (map dump (y # z # ys)) @ CHR '']'' # r = dump y @ CHR '','' # ?t" by simp
  ultimately have "pelements (Suc ?h) (join (CHR '','') (map dump (y # z # ys)) @ CHR '']'' # r) acc
      = POk (JArr (acc @ y # z # ys)) r"
    by (simp only: pelements.simps) (simp add: peek_def)
  then show ?case by blast
qed

definition member :: "string \<times> json \<Rightarrow> string" where
  "member p = esc (fst p) @ CHR '':'' # dump (snd p)"

lemma dump_JObj: "dump (JObj m) = CHR ''{'' # join (CHR '','') (map member m) @ ''}''"
proof -
  have "(\<lambda>(k, v). esc k @ CHR '':'' # dump v) = member" by (auto simp: member_def)
  then show ?thesis by simp
qed

lemma ws_esc [simp]: "ws (esc k @ r) = esc k @ r"
  by (simp add: esc_def)

lemma pmembers_dump:
  assumes "\<And>p r. p \<in> set (q # ps) \<Longrightarrow> stops r \<Longrightarrow> \<exists>f. pvalue f (dump (snd p) @ r) = POk (snd p) r"
  shows "\<exists>f. pmembers f (join (CHR '','') (map member (q # ps)) @ CHR ''}'' # r) acc
    = POk (JObj (foldl (\<lambda>m p. mput (fst p) (snd p) m) acc (q # ps))) r"
  using assms
proof (induction ps arbitrary: q acc)
  case Nil
  obtain f where f: "pvalue f (dump (snd q) @ CHR ''}'' # r) = POk (snd q) (CHR ''}'' # r)"
    using Nil[of q "CHR ''}'' # r"] by (auto simp: stops_token)
  show ?case by (rule exI[of _ "Suc f"]) (simp add: pmembers.simps f peek_def member_def)
next
  case (Cons z ps)
  let ?t = "join (CHR '','') (map member (z # ps)) @ CHR ''}'' # r"
  let ?acc = "mput (fst q) (snd q) acc"
  obtain f where f: "pvalue f (dump (snd q) @ CHR '','' # ?t) = POk (snd q) (CHR '','' # ?t)"
    using Cons.prems[of q "CHR '','' # ?t"] by (auto simp: stops_token)
  obtain g where g: "pmembers g ?t ?acc = POk (JObj (foldl (\<lambda>m p. mput (fst p) (snd p) m) ?acc (z # ps))) r"
    using Cons.IH[of z ?acc] Cons.prems by auto
  let ?h = "max f g"
  have h1: "pvalue ?h (dump (snd q) @ CHR '','' # ?t) = POk (snd q) (CHR '','' # ?t)"
    using fuel_mono(1)[of f _ ?h] f by simp
  have h2: "pmembers ?h ?t ?acc = POk (JObj (foldl (\<lambda>m p. mput (fst p) (snd p) m) ?acc (z # ps))) r"
    using fuel_mono(2)[of g _ _ ?h] g by simp
  have "join (CHR '','') (map member (q # z # ps)) @ CHR ''}'' # r
      = esc (fst q) @ CHR '':'' # dump (snd q) @ CHR '','' # ?t" by (simp add: member_def)
  with h1 h2 have "pmembers (Suc ?h) (join (CHR '','') (map member (q # z # ps)) @ CHR ''}'' # r) acc
      = POk (JObj (foldl (\<lambda>m p. mput (fst p) (snd p) m) acc (q # z # ps))) r"
    by (simp only: pmembers.simps) (simp add: peek_def)
  then show ?case by blast
qed

lemma peek_Cons [simp]: "peek (c # t) = c"
  by (simp add: peek_def)

lemma peek_esc [simp]: "peek (esc k @ r) = CHR ''\"''"
  by (simp add: peek_def esc_def)

lemma pvalue_dump: "json_plain j \<Longrightarrow> stops r \<Longrightarrow> \<exists>f. pvalue f (dump j @ r) = POk j r"
proof (induction j arbitrary: r)
  case (JNum v)
  then show ?case using pvalue_num[of v r] by auto
next
  case (JArr xs)
  show ?case
  proof (cases xs)
    case Nil
    show ?thesis by (rule exI[of _ "1"]) (simp add: pvalue.simps peek_def Nil One_nat_def)
  next
    case (Cons y ys)
    obtain f where f: "pelements f (join (CHR '','') (map dump xs) @ CHR '']'' # r) [] = POk (JArr xs) r"
    proof -
      have "\<exists>f. pvalue f (dump x @ t) = POk x t" if "x \<in> set (y # ys)" "stops t" for x t
        using JArr.IH[of x t] JArr.prems that by (auto simp: Cons list_all_iff)
      from pelements_dump[of y ys r "[]", OF this] that show ?thesis by (auto simp: Cons)
    qed
    obtain c t where ct: "dump y = c # t" "\<not> is_ws c" "c \<notin> set '',]}:''"
      using pvalue_dump_start[of y] JArr.prems(1) by (auto simp: Cons)
    obtain t' where t': "join (CHR '','') (map dump xs) @ CHR '']'' # r = c # t'"
      by (simp add: Cons join_Cons ct(1))
    show ?thesis using f ct by (intro exI[of _ "Suc f"]) (simp add: pvalue.simps peek_def t' ws_token)
  qed
next
  case (JObj m)
  have m: "mwf m" using JObj.prems by simp
  show ?case
  proof (cases m)
    case Nil
    show ?thesis by (rule exI[of _ "1"]) (simp add: pvalue.simps peek_def Nil One_nat_def)
  next
    case (Cons q ps)
    obtain f where f: "pmembers f (join (CHR '','') (map member m) @ CHR ''}'' # r) [] = POk (JObj m) r"
    proof -
      have "\<exists>f. pvalue f (dump (snd p) @ t) = POk (snd p) t" if "p \<in> set (q # ps)" "stops t" for p t
        using JObj.IH[of p "snd p" t] JObj.prems that by (cases p) (auto simp: Cons list_all_iff)
      from pmembers_dump[of q ps r "[]", OF this] mbuild_id[OF m] that
      show ?thesis unfolding Cons mbuild_def by auto
    qed
    obtain t' where t': "join (CHR '','') (map member m) @ CHR ''}'' # r = CHR ''\"'' # t'"
      by (simp add: Cons join_Cons member_def esc_def)
    show ?thesis using f by (intro exI[of _ "Suc f"]) (simp add: pvalue.simps peek_def dump_JObj t' del: dump.simps)
  qed
qed (rule exI[of _ "Suc 0"]; auto simp: pvalue.simps ws_token is_ws_def pboolean_def)+

lemma parse_dump: "json_plain j \<Longrightarrow> parse (dump j) = Some j"
  using pvalue_dump[of j "[]"] parse_eq by (auto simp: stops_def)

end
