(* ===== verification/Fve_Types.thy ===== *)
theory Fve_Types
  imports Fve_Interval Fve_Text
begin

text \<open>
  The dimensional types of \<open>core/types\<close>: a dimension is the vector of the seven SI exponents,
  multiplication adds exponents, division subtracts, a power scales. The exponents are the
  code's \<open>int\<close>s, whose signed overflow is undefined, so they are unbounded here. The lemmas
  state that dimensions form an abelian group on which powers act.
\<close>

type_synonym dim = "int list"

definition dim_none :: dim where
  "dim_none = replicate 7 0"

definition dim_base :: "int \<Rightarrow> dim" where
  "dim_base i = (if 0 \<le> i \<and> i < 7 then dim_none[nat i := 1] else dim_none)"

definition dim_wf :: "dim \<Rightarrow> bool" where
  "dim_wf d \<longleftrightarrow> length d = 7"

definition dimensionless :: "dim \<Rightarrow> bool" where
  "dimensionless d = list_all (\<lambda>e. e = 0) d"

definition si_names :: "string list" where
  "si_names = [''kg'', ''m'', ''s'', ''A'', ''K'', ''mol'', ''cd'']"

text \<open>\<open>Dim::str\<close>: the non-zero exponents, joined by a star.\<close>

fun dim_str_from :: "bool \<Rightarrow> string list \<Rightarrow> dim \<Rightarrow> string" where
  "dim_str_from first (n # ns) (e # es) =
     (if e = 0 then dim_str_from first ns es
      else (if first then [] else ''*'') @ n @ (if e \<noteq> 1 then ''^'' @ show_int e else [])
           @ dim_str_from False ns es)"
| "dim_str_from first _ _ = []"

definition dim_str :: "dim \<Rightarrow> string" where
  "dim_str d = (if dimensionless d then ''1'' else dim_str_from True si_names d)"

definition dim_mul :: "dim \<Rightarrow> dim \<Rightarrow> dim" where
  "dim_mul a b = map2 (+) a b"

definition dim_div :: "dim \<Rightarrow> dim \<Rightarrow> dim" where
  "dim_div a b = map2 (-) a b"

definition powd :: "dim \<Rightarrow> int \<Rightarrow> dim" where
  "powd a n = map (\<lambda>e. e * n) a"

definition compatible :: "dim \<Rightarrow> dim \<Rightarrow> bool" where
  "compatible a b = (a = b)"

record si_unit =
  u_name :: string
  u_dim :: dim
  scale :: double
  offset :: double

definition to_si :: "si_unit \<Rightarrow> double \<Rightarrow> double" where
  "to_si u v = fadd RNear (fmul RNear v (scale u)) (offset u)"

definition from_si :: "si_unit \<Rightarrow> double \<Rightarrow> double" where
  "from_si u v = fdiv RNear (fsub RNear v (offset u)) (scale u)"

record phys =
  p_dim :: dim
  p_range :: ival

definition phys_any :: "dim \<Rightarrow> phys" where
  "phys_any d = \<lparr>p_dim = d, p_range = entire\<rparr>"

definition phys_pos :: "dim \<Rightarrow> phys" where
  "phys_pos d = \<lparr>p_dim = d, p_range = Ival (Fin 0) (hi entire)\<rparr>"

definition phys_of :: "dim \<Rightarrow> double \<Rightarrow> double \<Rightarrow> phys" where
  "phys_of d l h = \<lparr>p_dim = d, p_range = ival_of l h\<rparr>"

record symbol =
  sym_id :: string
  sym_dim :: dim
  sym_phys :: ival
  sym_unit :: string

text \<open>\<open>to_str\<close> of an interval: a stream with precision 15.\<close>

definition ival_str :: "ival \<Rightarrow> string" where
  "ival_str a =
     (if is_empty a then ''[empty]''
      else ''['' @ fmt_g 15 (lo a) @ '', '' @ fmt_g 15 (hi a) @ '']'')"

section \<open>Dimensions form an abelian group\<close>

lemma dim_wf_ops [simp]:
  "dim_wf dim_none" "dim_wf (dim_base i)"
  "dim_wf a \<Longrightarrow> dim_wf b \<Longrightarrow> dim_wf (dim_mul a b)"
  "dim_wf a \<Longrightarrow> dim_wf b \<Longrightarrow> dim_wf (dim_div a b)"
  "dim_wf a \<Longrightarrow> dim_wf (powd a n)"
  by (simp_all add: dim_wf_def dim_none_def dim_base_def dim_mul_def dim_div_def powd_def)

lemma dim_ext: "dim_wf a \<Longrightarrow> dim_wf b \<Longrightarrow> (\<And>i. i < 7 \<Longrightarrow> a ! i = b ! i) \<Longrightarrow> a = b"
  by (simp add: dim_wf_def nth_equalityI)

lemma dim_nth [simp]:
  "i < 7 \<Longrightarrow> dim_none ! i = 0"
  "i < 7 \<Longrightarrow> dim_wf a \<Longrightarrow> dim_wf b \<Longrightarrow> dim_mul a b ! i = a ! i + b ! i"
  "i < 7 \<Longrightarrow> dim_wf a \<Longrightarrow> dim_wf b \<Longrightarrow> dim_div a b ! i = a ! i - b ! i"
  "i < 7 \<Longrightarrow> dim_wf a \<Longrightarrow> powd a n ! i = a ! i * n"
  by (simp_all add: dim_wf_def dim_none_def dim_mul_def dim_div_def powd_def)

lemma dim_mul_commute: "dim_wf a \<Longrightarrow> dim_wf b \<Longrightarrow> dim_mul a b = dim_mul b a"
  by (rule dim_ext) simp_all

lemma dim_mul_assoc:
  "dim_wf a \<Longrightarrow> dim_wf b \<Longrightarrow> dim_wf c \<Longrightarrow> dim_mul (dim_mul a b) c = dim_mul a (dim_mul b c)"
  by (rule dim_ext) simp_all

lemma dim_mul_none: "dim_wf a \<Longrightarrow> dim_mul a dim_none = a"
  by (rule dim_ext) simp_all

lemma dim_div_mul: "dim_wf a \<Longrightarrow> dim_wf b \<Longrightarrow> dim_mul (dim_div a b) b = a"
  by (rule dim_ext) simp_all

lemma powd_add: "dim_wf a \<Longrightarrow> powd a (m + n) = dim_mul (powd a m) (powd a n)"
  by (rule dim_ext) (simp_all add: algebra_simps)

lemma powd_mul: "dim_wf a \<Longrightarrow> dim_wf b \<Longrightarrow> powd (dim_mul a b) n = dim_mul (powd a n) (powd b n)"
  by (rule dim_ext) (simp_all add: algebra_simps)

lemma dim_div_eq_mul: "dim_wf a \<Longrightarrow> dim_wf b \<Longrightarrow> dim_div a b = dim_mul a (powd b (- 1))"
  by (rule dim_ext) simp_all

end
