(* ===== verification/Fve_Sha256.thy ===== *)
theory Fve_Sha256
  imports Fve_Prelude
begin

text \<open>
  SHA-256 as \<open>core/merkle/sha256.cpp\<close> computes it: the block function on 32-bit words, the
  one-shot hash of a buffer, and the streaming hash of a file, which fills a 64-byte block and
  compresses it when it is full. The main lemma is that the two agree on every input. The
  hexadecimal form of a digest reads back as the digest.
\<close>

unbundle bit_operations_syntax

type_synonym u32 = "32 word"
type_synonym digest = "byte list"

definition sha_K :: "u32 list" where
  "sha_K = concat [
    [0x428a2f98, 0x71374491, 0xb5c0fbcf, 0xe9b5dba5, 0x3956c25b, 0x59f111f1],
    [0x923f82a4, 0xab1c5ed5, 0xd807aa98, 0x12835b01, 0x243185be, 0x550c7dc3],
    [0x72be5d74, 0x80deb1fe, 0x9bdc06a7, 0xc19bf174, 0xe49b69c1, 0xefbe4786],
    [0x0fc19dc6, 0x240ca1cc, 0x2de92c6f, 0x4a7484aa, 0x5cb0a9dc, 0x76f988da],
    [0x983e5152, 0xa831c66d, 0xb00327c8, 0xbf597fc7, 0xc6e00bf3, 0xd5a79147],
    [0x06ca6351, 0x14292967, 0x27b70a85, 0x2e1b2138, 0x4d2c6dfc, 0x53380d13],
    [0x650a7354, 0x766a0abb, 0x81c2c92e, 0x92722c85, 0xa2bfe8a1, 0xa81a664b],
    [0xc24b8b70, 0xc76c51a3, 0xd192e819, 0xd6990624, 0xf40e3585, 0x106aa070],
    [0x19a4c116, 0x1e376c08, 0x2748774c, 0x34b0bcb5, 0x391c0cb3, 0x4ed8aa4a],
    [0x5b9cca4f, 0x682e6ff3, 0x748f82ee, 0x78a5636f, 0x84c87814, 0x8cc70208],
    [0x90befffa, 0xa4506ceb, 0xbef9a3f7, 0xc67178f2]]"

definition ror :: "u32 \<Rightarrow> nat \<Rightarrow> u32" where
  "ror x n = (drop_bit n x OR push_bit (32 - n) x)"

definition be32 :: "byte \<Rightarrow> byte \<Rightarrow> byte \<Rightarrow> byte \<Rightarrow> u32" where
  "be32 a b c d = (push_bit 24 (ucast a) OR push_bit 16 (ucast b) OR push_bit 8 (ucast c) OR ucast d)"

text \<open>The first sixteen words of the schedule, big endian, from a 64-byte block.\<close>

fun load_words :: "byte list \<Rightarrow> u32 list" where
  "load_words (a # b # c # d # p) = be32 a b c d # load_words p"
| "load_words _ = []"

definition sched_word :: "u32 list \<Rightarrow> u32" where
  "sched_word w =
     (let i = length w; w15 = w ! (i - 15); w2 = w ! (i - 2);
          s0 = ror w15 7 XOR ror w15 18 XOR drop_bit 3 w15;
          s1 = ror w2 17 XOR ror w2 19 XOR drop_bit 10 w2
      in w ! (i - 16) + s0 + w ! (i - 7) + s1)"

fun extend :: "nat \<Rightarrow> u32 list \<Rightarrow> u32 list" where
  "extend 0 w = w"
| "extend (Suc n) w = extend n (w @ [sched_word w])"

definition schedule :: "byte list \<Rightarrow> u32 list" where
  "schedule p = extend 48 (load_words p)"

text \<open>The eight working variables; one round consumes a round constant and a schedule word.\<close>

datatype sha_state = ShaState u32 u32 u32 u32 u32 u32 u32 u32

fun sha_round :: "sha_state \<Rightarrow> u32 \<times> u32 \<Rightarrow> sha_state" where
  "sha_round (ShaState a b c d e f g h) (k, w) =
     (let S1 = ror e 6 XOR ror e 11 XOR ror e 25;
          ch = (e AND f) XOR (NOT e AND g);
          t1 = h + S1 + ch + k + w;
          S0 = ror a 2 XOR ror a 13 XOR ror a 22;
          maj = (a AND b) XOR (a AND c) XOR (b AND c);
          t2 = S0 + maj
      in ShaState (t1 + t2) a b c (d + t1) e f g)"

fun state_add :: "sha_state \<Rightarrow> sha_state \<Rightarrow> sha_state" where
  "state_add (ShaState a b c d e f g h) (ShaState a' b' c' d' e' f' g' h') =
     ShaState (a + a') (b + b') (c + c') (d + d') (e + e') (f + f') (g + g') (h + h')"

text \<open>\<open>block\<close>: compress one 64-byte block into the state.\<close>

definition sha_block :: "sha_state \<Rightarrow> byte list \<Rightarrow> sha_state" where
  "sha_block h p = state_add h (foldl sha_round h (zip sha_K (schedule p)))"

definition sha_init :: sha_state where
  "sha_init = ShaState 0x6a09e667 0xbb67ae85 0x3c6ef372 0xa54ff53a
                       0x510e527f 0x9b05688c 0x1f83d9ab 0x5be0cd19"

text \<open>\<open>uint8_t(x >> (i * 8))\<close>.\<close>

definition byte_of :: "'a::len word \<Rightarrow> nat \<Rightarrow> byte" where
  "byte_of x i = ucast (drop_bit (8 * i) x)"

definition be_bytes :: "u32 \<Rightarrow> byte list" where
  "be_bytes x = map (byte_of x) [3, 2, 1, 0]"

definition le_bytes32 :: "u32 \<Rightarrow> byte list" where
  "le_bytes32 x = map (byte_of x) [0..<4]"

definition le_bytes64 :: "64 word \<Rightarrow> byte list" where
  "le_bytes64 x = map (byte_of x) [0..<8]"

fun sha_out :: "sha_state \<Rightarrow> digest" where
  "sha_out (ShaState a b c d e f g h) = concat (map be_bytes [a, b, c, d, e, f, g, h])"

text \<open>The padding of the last partial block: the bit \<open>1\<close>, zeros, and the length in bits.\<close>

definition sha_tail :: "byte list \<Rightarrow> nat \<Rightarrow> byte list" where
  "sha_tail rest n =
     (let rem = length rest;
          pad = (if rem < 56 then 64 else 128);
          bits = (of_nat n :: 64 word) * 8
      in rest @ [0x80] @ replicate (pad - 8 - (rem + 1)) 0 @ rev (le_bytes64 bits))"

text \<open>Compress the 64-byte blocks of a byte list; a rest of fewer bytes is left over.\<close>

fun sha_blocks :: "sha_state \<Rightarrow> byte list \<Rightarrow> sha_state" where
  "sha_blocks h p = (if length p < 64 then h else sha_blocks (sha_block h (take 64 p)) (drop 64 p))"

declare sha_blocks.simps [simp del]

definition sha256 :: "byte list \<Rightarrow> digest" where
  "sha256 d =
     (let n = length d; full = n div 64;
          h = sha_blocks sha_init (take (full * 64) d);
          tail = sha_tail (drop (full * 64) d) n
      in sha_out (sha_blocks h tail))"

definition bytes_of :: "string \<Rightarrow> byte list" where
  "bytes_of s = map (\<lambda>c. of_char c) s"

definition sha256_str :: "string \<Rightarrow> digest" where
  "sha256_str s = sha256 (bytes_of s)"

text \<open>
  The streaming hash: the state, the partial block and the byte count, advanced byte by byte.
  The chunks in which the file is read do not matter to the loop, so a file is its byte list;
  a file that cannot be opened is read as empty, as the code does.
\<close>

record sha_stream =
  s_h :: sha_state
  s_blk :: "byte list"
  s_total :: nat

definition stream_byte :: "sha_stream \<Rightarrow> byte \<Rightarrow> sha_stream" where
  "stream_byte s b =
     (let blk = s_blk s @ [b]
      in if length blk = 64
         then s\<lparr>s_h := sha_block (s_h s) blk, s_blk := [], s_total := s_total s + 1\<rparr>
         else s\<lparr>s_blk := blk, s_total := s_total s + 1\<rparr>)"

definition sha256_file :: "byte list list \<Rightarrow> digest" where
  "sha256_file chunks =
     (let s = foldl (foldl stream_byte) \<lparr>s_h = sha_init, s_blk = [], s_total = 0\<rparr> chunks
      in sha_out (sha_blocks (s_h s) (sha_tail (s_blk s) (s_total s))))"

section \<open>Hexadecimal digests\<close>

definition hex_digits :: string where
  "hex_digits = ''0123456789abcdef''"

definition hex_byte :: "byte \<Rightarrow> string" where
  "hex_byte b = [hex_digits ! unat (drop_bit 4 b), hex_digits ! unat (b AND 15)]"

definition hex :: "digest \<Rightarrow> string" where
  "hex d = concat (map hex_byte d)"

definition nib :: "char \<Rightarrow> nat" where
  "nib c =
     (let n = of_char c :: nat
      in if 48 \<le> n \<and> n \<le> 57 then n - 48
         else if 97 \<le> n \<and> n \<le> 102 then n - 97 + 10
         else if 65 \<le> n \<and> n \<le> 70 then n - 65 + 10
         else 0)"

text \<open>\<open>from_hex\<close> fills a zero digest from the pairs that are there, at most 32 of them.\<close>

fun hex_pairs :: "nat \<Rightarrow> string \<Rightarrow> byte list" where
  "hex_pairs (Suc n) (a # b # s) = (push_bit 4 (of_nat (nib a)) OR of_nat (nib b)) # hex_pairs n s"
| "hex_pairs n _ = replicate n 0"

definition from_hex :: "string \<Rightarrow> digest" where
  "from_hex s = hex_pairs 32 s"

section \<open>The streaming hash is the hash\<close>

lemma sha_blocks_short: "length p < 64 \<Longrightarrow> sha_blocks h p = h"
  by (subst sha_blocks.simps) simp

lemma sha_blocks_step: "length p = 64 \<Longrightarrow> sha_blocks h (p @ q) = sha_blocks (sha_block h p) q"
  by (subst sha_blocks.simps) simp

lemma sha_blocks_append:
  "length p = 64 * k \<Longrightarrow> sha_blocks h (p @ q) = sha_blocks (sha_blocks h p) q"
proof (induction k arbitrary: h p)
  case 0
  then show ?case by (simp add: sha_blocks_short)
next
  case (Suc k)
  define b where "b = take 64 p"
  define r where "r = drop 64 p"
  have p: "p = b @ r" and b: "length b = 64" and r: "length r = 64 * k"
    using Suc.prems by (simp_all add: b_def r_def)
  show ?case using Suc.IH[OF r, of "sha_block h b"] by (simp add: p sha_blocks_step b)
qed

definition full_part :: "byte list \<Rightarrow> byte list" where
  "full_part d = take (length d div 64 * 64) d"

definition rest_part :: "byte list \<Rightarrow> byte list" where
  "rest_part d = drop (length d div 64 * 64) d"

lemma parts: "full_part d @ rest_part d = d" "length (rest_part d) = length d mod 64"
    "length (full_part d) = 64 * (length d div 64)"
proof -
  have le: "length d div 64 * 64 \<le> length d" by simp
  show "full_part d @ rest_part d = d" "length (rest_part d) = length d mod 64"
    by (simp_all add: full_part_def rest_part_def minus_div_mult_eq_mod)
  show "length (full_part d) = 64 * (length d div 64)"
    using le by (simp only: full_part_def length_take)
qed

lemma parts_unique: "d = f @ r \<Longrightarrow> length f = 64 * k \<Longrightarrow> length r < 64 \<Longrightarrow>
    full_part d = f \<and> rest_part d = r"
proof -
  assume d: "d = f @ r" "length f = 64 * k" "length r < 64"
  have "length d div 64 = k" using d by simp
  then show ?thesis using d by (simp add: full_part_def rest_part_def)
qed

lemma stream_byte_rec: "stream_byte \<lparr>s_h = h, s_blk = k, s_total = n\<rparr> b =
    (if length k = 63 then \<lparr>s_h = sha_block h (k @ [b]), s_blk = [], s_total = n + 1\<rparr>
     else \<lparr>s_h = h, s_blk = k @ [b], s_total = n + 1\<rparr>)"
  by (simp add: stream_byte_def Let_def)

lemma stream_inv:
  "foldl stream_byte \<lparr>s_h = sha_init, s_blk = [], s_total = 0\<rparr> d =
     \<lparr>s_h = sha_blocks sha_init (full_part d), s_blk = rest_part d, s_total = length d\<rparr>"
proof (induction d rule: rev_induct)
  case Nil
  show ?case by (simp add: full_part_def rest_part_def sha_blocks_short)
next
  case (snoc b d)
  have l: "length (rest_part d) < 64" by (simp add: parts)
  show ?case
  proof (cases "length (rest_part d) = 63")
    case True
    have "full_part (d @ [b]) = full_part d @ (rest_part d @ [b]) \<and> rest_part (d @ [b]) = []"
    proof (rule parts_unique[of _ _ _ "Suc (length d div 64)"])
      show "d @ [b] = (full_part d @ rest_part d @ [b]) @ []" by (simp add: parts(1) flip: append_assoc)
      show "length (full_part d @ rest_part d @ [b]) = 64 * Suc (length d div 64)"
        using True by (simp only: length_append parts(3) list.size) simp
    qed simp
    moreover have "sha_blocks sha_init (full_part d @ (rest_part d @ [b])) =
        sha_block (sha_blocks sha_init (full_part d)) (rest_part d @ [b])"
      using sha_blocks_append[OF parts(3), of sha_init d "rest_part d @ [b]"]
        sha_blocks_step[of "rest_part d @ [b]" _ "[]"] True by (simp add: sha_blocks_short)
    ultimately show ?thesis by (simp add: snoc stream_byte_rec True)
  next
    case False
    have "full_part (d @ [b]) = full_part d \<and> rest_part (d @ [b]) = rest_part d @ [b]"
      by (rule parts_unique[of _ _ _ "length d div 64"])
        (use False l in \<open>simp_all add: parts(1,3) flip: append_assoc\<close>)
    then show ?thesis using False by (simp add: snoc stream_byte_rec)
  qed
qed

lemma foldl_foldl_concat: "foldl (foldl f) s xss = foldl f s (concat xss)"
  by (induction xss arbitrary: s) simp_all

lemma sha256_parts:
  "sha256 d = sha_out (sha_blocks (sha_blocks sha_init (full_part d)) (sha_tail (rest_part d) (length d)))"
  by (simp add: sha256_def full_part_def rest_part_def Let_def)

lemma sha256_file_stream: "sha256_file chunks = sha256 (concat chunks)"
  by (simp add: sha256_file_def foldl_foldl_concat stream_inv sha256_parts Let_def)

section \<open>Sizes\<close>

lemma length_sha_out [simp]: "length (sha_out s) = 32"
  by (cases s) (simp add: be_bytes_def)

lemma length_sha256 [simp]: "length (sha256 d) = 32" "length (sha256_str s) = 32"
  by (simp_all add: sha256_def sha256_str_def Let_def)

text \<open>The padded tail is a whole number of blocks, so no byte of the message is left over.\<close>

lemma length_sha_tail: "length r < 64 \<Longrightarrow> length (sha_tail r n) = (if length r < 56 then 64 else 128)"
  by (simp add: sha_tail_def Let_def le_bytes64_def)

section \<open>Hexadecimal round trip\<close>

lemma nib_hex_digit: "n < 16 \<Longrightarrow> nib (hex_digits ! n) = n"
proof -
  have "\<forall>n < 16. nib (hex_digits ! n) = n" by code_simp
  then show "n < 16 \<Longrightarrow> ?thesis" by blast
qed

lemma byte_nibbles: "push_bit 4 (drop_bit 4 b) OR (b AND 15) = (b :: byte)"
proof -
  have m: "(15 :: byte) = mask 4" by (simp add: mask_eq_exp_minus_1)
  show ?thesis unfolding m
    by (rule bit_eqI) (auto simp: bit_simps)
qed

lemma unat_nibbles: "unat (drop_bit 4 (b :: byte)) < 16" "unat (b AND 15 :: byte) < 16"
proof -
  have "unat b < 256" using unsigned_less[of b] by simp
  then show "unat (drop_bit 4 b) < 16" by (simp add: unat_drop_bit_eq drop_bit_nat_def)
  have "b AND 15 = take_bit 4 b" by (simp add: take_bit_eq_mask mask_eq_exp_minus_1)
  then show "unat (b AND 15) < 16" by (simp add: unsigned_take_bit_eq take_bit_nat_def)
qed

lemma hex_pairs_hex: "hex_pairs (length d) (hex d) = d"
  by (induction d) (simp_all add: hex_def hex_byte_def nib_hex_digit unat_nibbles byte_nibbles)

lemma from_hex_hex: "length d = 32 \<Longrightarrow> from_hex (hex d) = d"
  using hex_pairs_hex[of d] by (simp add: from_hex_def)

lemma hex_inject: "length d = 32 \<Longrightarrow> length e = 32 \<Longrightarrow> hex d = hex e \<Longrightarrow> d = e"
  by (metis from_hex_hex)

lemma length_hex: "length (hex d) = 2 * length d"
  by (induction d) (simp_all add: hex_def hex_byte_def)

end
