(* ===== verification/Fve_Ast.thy ===== *)
theory Fve_Ast
  imports Fve_Json Fve_Types Fve_Sha256
begin

text \<open>
  The hashed expression graph of \<open>core/ast\<close>: nodes with the fields of the code's \<open>struct Node\<close>,
  their content hash, the constructors, the JSON form and its reader, and the linear form with
  one slot per distinct hash. A node is immutable and shared by pointer, so it is a value. The
  lemmas: what the constructors build is well formed, the JSON form reads back, two nodes of one
  hash that differ exhibit a SHA-256 collision, and slots refer only to earlier slots.
\<close>

datatype op = Add | Sub | Mul | Div | Neg | Pow | Sqrt | Log | Exp | Sin | Cos | Tan

datatype kind = KConst | KVar | KOper | KCall | KHole | KDisj

datatype node = Node
  (n_kind: kind) (n_op: op) (n_val: double) (n_sym: string) (n_fn: string) (n_hole: string)
  (n_regime: char) (n_arity: int) (n_dim: dim) (n_phys: ival) (n_args: "node list")
  (n_cands: "node list") (n_hash: digest)

section \<open>Content hash\<close>

fun op_index :: "op \<Rightarrow> byte" where
  "op_index Add = 0" | "op_index Sub = 1" | "op_index Mul = 2" | "op_index Div = 3"
| "op_index Neg = 4" | "op_index Pow = 5" | "op_index Sqrt = 6" | "op_index Log = 7"
| "op_index Exp = 8" | "op_index Sin = 9" | "op_index Cos = 10" | "op_index Tan = 11"

fun kind_index :: "kind \<Rightarrow> byte" where
  "kind_index KConst = 0" | "kind_index KVar = 1" | "kind_index KOper = 2"
| "kind_index KCall = 3" | "kind_index KHole = 4" | "kind_index KDisj = 5"

text \<open>
  The binary64 pattern that \<open>memcpy\<close> reads from a double: sign, biased exponent, fraction. A NaN
  has one value in the model, so one pattern.
\<close>

definition mag_bits :: "real \<Rightarrow> nat" where
  "mag_bits q =
     (let e = qexp q; m = nat \<lfloor>q / 2 powi e\<rfloor>
      in if q = 0 then 0 else if m < 2 ^ 52 then m else nat (e + 1075) * 2 ^ 52 + (m - 2 ^ 52))"

fun double_bits :: "double \<Rightarrow> nat" where
  "double_bits NaN = 0x7FF8000000000000"
| "double_bits PInf = 0x7FF0000000000000"
| "double_bits NInf = 0xFFF0000000000000"
| "double_bits NegZero = 0x8000000000000000"
| "double_bits (Fin r) = (if r < 0 then 2 ^ 63 + mag_bits (- r) else mag_bits r)"

definition put_str :: "string \<Rightarrow> byte list" where
  "put_str s = le_bytes32 (of_nat (length s)) @ bytes_of s"

definition put_d :: "double \<Rightarrow> byte list" where
  "put_d d = le_bytes64 (of_nat (double_bits d))"

definition put_int :: "int \<Rightarrow> byte list" where
  "put_int e = le_bytes32 (of_int e)"

definition hash_bytes :: "node \<Rightarrow> byte list" where
  "hash_bytes n =
     [kind_index (n_kind n), op_index (n_op n)] @ put_d (n_val n)
     @ put_str (n_sym n) @ put_str (n_fn n) @ put_str (n_hole n)
     @ [of_char (n_regime n)] @ concat (map put_int (n_dim n))
     @ put_d (lo (n_phys n)) @ put_d (hi (n_phys n))
     @ concat (map n_hash (n_args n)) @ concat (map n_hash (n_cands n))"

definition compute_hash :: "node \<Rightarrow> digest" where
  "compute_hash n = sha256 (hash_bytes n)"

fun set_hash :: "digest \<Rightarrow> node \<Rightarrow> node" where
  "set_hash h (Node k o' v s f hl r a d p as cs _) = Node k o' v s f hl r a d p as cs h"

definition finish :: "node \<Rightarrow> node" where
  "finish n = set_hash (compute_hash n) n"

section \<open>Constructors\<close>

text \<open>The members of a fresh \<open>Node\<close> have the defaults of the struct; each constructor sets its own.\<close>

definition zero_digest :: digest where
  "zero_digest = replicate 32 0"

definition konst :: "double \<Rightarrow> dim \<Rightarrow> node" where
  "konst v d = finish (Node KConst Add v [] [] [] CHR ''A'' 0 d (point v) [] [] zero_digest)"

definition var :: "string \<Rightarrow> dim \<Rightarrow> ival \<Rightarrow> node" where
  "var s d p = finish (Node KVar Add (Fin 0) s [] [] CHR ''A'' 0 d p [] [] zero_digest)"

definition oper :: "op \<Rightarrow> node list \<Rightarrow> node" where
  "oper o' as = finish (Node KOper o' (Fin 0) [] [] [] CHR ''A'' 0 dim_none entire as [] zero_digest)"

definition call :: "string \<Rightarrow> node list \<Rightarrow> node" where
  "call f as = finish (Node KCall Add (Fin 0) [] f [] CHR ''A'' 0 dim_none entire as [] zero_digest)"

definition hole :: "string \<Rightarrow> int \<Rightarrow> ival \<Rightarrow> char \<Rightarrow> node list \<Rightarrow> node" where
  "hole i ar p rg as = finish (Node KHole Add (Fin 0) [] [] i rg ar dim_none p as [] zero_digest)"

definition disj :: "node list \<Rightarrow> node" where
  "disj cs = finish (Node KDisj Add (Fin 0) [] [] [] CHR ''A'' 0 dim_none entire [] cs zero_digest)"

section \<open>Operator names\<close>

definition OPS :: "(op \<times> string) list" where
  "OPS = [(Add, ''add''), (Sub, ''sub''), (Mul, ''mul''), (Div, ''div''),
          (Neg, ''neg''), (Pow, ''pow''), (Sqrt, ''sqrt''), (Log, ''log''),
          (Exp, ''exp''), (Sin, ''sin''), (Cos, ''cos''), (Tan, ''tan'')]"

definition op_name :: "op \<Rightarrow> string" where
  "op_name o' = (case map_of OPS o' of Some s \<Rightarrow> s | None \<Rightarrow> ''add'')"

definition op_from_name :: "string \<Rightarrow> op option" where
  "op_from_name s = map_of (map (\<lambda>(o', n). (n, o')) OPS) s"

definition op_arity :: "op \<Rightarrow> int" where
  "op_arity o' = (if o' \<in> {Neg, Sqrt, Log, Exp, Sin, Cos, Tan} then 1 else 2)"

section \<open>JSON form\<close>

definition ival_json :: "ival \<Rightarrow> json" where
  "ival_json p = JArr [JNum (lo p), JNum (hi p)]"

fun to_json :: "node \<Rightarrow> json" where
  "to_json (Node k o' v s f hl r a d p as cs h) =
     (case k of
        KConst \<Rightarrow> mkobj [(''k'', JStr ''const''), (''v'', JNum v)]
      | KVar \<Rightarrow> mkobj ([(''k'', JStr ''var''), (''sym'', JStr s)]
                        @ (if is_entire p then [] else [(''phys'', ival_json p)]))
      | KOper \<Rightarrow> mkobj [(''k'', JStr ''op''), (''op'', JStr (op_name o')), (''args'', JArr (map to_json as))]
      | KCall \<Rightarrow> mkobj [(''k'', JStr ''call''), (''fn'', JStr f), (''args'', JArr (map to_json as))]
      | KHole \<Rightarrow> mkobj [(''k'', JStr ''hole''), (''id'', JStr hl), (''arity'', JNum (Fin (of_int a))),
                         (''regime'', JStr [r]), (''phys'', ival_json p), (''args'', JArr (map to_json as))]
      | KDisj \<Rightarrow> mkobj [(''k'', JStr ''disj''), (''cands'', JArr (map to_json cs))])"

text \<open>
  Where the reader leaves the language: an index beyond an array, an operator of an unknown
  name (an uninitialised variable), an arity that no \<open>int\<close> holds. These are errors of the model.
\<close>

datatype ast_err = OutOfRange | UninitOp | BadInt | BadText

fun seq_results :: "('e + 'a) list \<Rightarrow> 'e + 'a list" where
  "seq_results [] = Inr []"
| "seq_results (Inl e # rs) = Inl e"
| "seq_results (Inr x # rs) = (case seq_results rs of Inl e \<Rightarrow> Inl e | Inr xs \<Rightarrow> Inr (x # xs))"

definition bindE :: "'e + 'a \<Rightarrow> ('a \<Rightarrow> 'e + 'b) \<Rightarrow> 'e + 'b" where
  "bindE m f = (case m of Inl e \<Rightarrow> Inl e | Inr x \<Rightarrow> f x)"

text \<open>The conversion \<open>(int) d\<close>: truncation, undefined when no \<open>int\<close> holds the result.\<close>

definition to_int32 :: "double \<Rightarrow> ast_err + int" where
  "to_int32 d =
     (let i = (if 0 \<le> fval d then \<lfloor>fval d\<rfloor> else \<lceil>fval d\<rceil>)
      in if is_fin d \<and> - 2147483648 \<le> i \<and> i \<le> 2147483647 then Inr i else Inl BadInt)"

definition ival_at :: "json \<Rightarrow> ast_err + ival" where
  "ival_at a = (case jarr a of x # y # _ \<Rightarrow> Inr (ival_of (jnum x) (jnum y)) | _ \<Rightarrow> Inl OutOfRange)"

lemma json_child_size: "c \<in> set (jarr (jat j k)) \<Longrightarrow> size c < size j"
proof (cases j)
  case (JObj m)
  assume c: "c \<in> set (jarr (jat j k))"
  then obtain v where v: "mget m k = Some v" "c \<in> set (jarr v)"
    by (auto simp: jat_def JObj split: option.splits)
  have kv: "(k, v) \<in> set m" using v(1) by (rule mget_Some_in)
  have "size c < size v" using v(2) by (cases v) (auto dest: size_list_estimation'[OF _ order_refl, of _ _ size] simp: less_Suc_eq_le)
  moreover have "size v < size j"
    using size_list_estimation'[OF kv, of "size_prod (\<lambda>_. 0) size (k, v)" "size_prod (\<lambda>_. 0) size"]
    by (simp add: JObj)
  ultimately show ?thesis by simp
qed (simp_all add: jat_def)

lemma bindE_simps [simp]: "bindE (Inl e) f = Inl e" "bindE (Inr x) f = f x"
  by (simp_all add: bindE_def)

lemma bindE_cong [fundef_cong]: "m = m' \<Longrightarrow> (\<And>x. m' = Inr x \<Longrightarrow> f x = g x) \<Longrightarrow> bindE m f = bindE m' g"
  by (auto simp: bindE_def split: sum.splits)

function from_json :: "json \<Rightarrow> ast_err + node" where
  "from_json j =
     (let k = jstr j ''k'' [];
          as = seq_results (map from_json (jarr (jat j ''args'')))
      in if k = ''const'' then Inr (konst (jn j ''v'' (Fin 0)) dim_none)
         else if k = ''var'' then
           bindE (if jhas j ''phys'' then ival_at (jat j ''phys'') else Inr entire)
             (\<lambda>p. Inr (var (jstr j ''sym'' []) dim_none p))
         else if k = ''op'' then
           (case op_from_name (jstr j ''op'' []) of
              None \<Rightarrow> Inl UninitOp
            | Some o' \<Rightarrow> bindE as (\<lambda>as. Inr (oper o' as)))
         else if k = ''call'' then bindE as (\<lambda>as. Inr (call (jstr j ''fn'' []) as))
         else if k = ''hole'' then
           (let a = jat j ''phys''; rg = jstr j ''regime'' ''A''
            in bindE (if length (jarr a) \<ge> 2 then ival_at a else Inr entire) (\<lambda>p.
               bindE as (\<lambda>as.
               bindE (to_int32 (jn j ''arity'' (Fin 0))) (\<lambda>n.
                 Inr (hole (jstr j ''id'' []) n p (if rg = [] then CHR ''A'' else rg ! 0) as)))))
         else if k = ''disj'' then
           bindE (seq_results (map from_json (jarr (jat j ''cands'')))) (\<lambda>cs. Inr (disj cs))
         else Inr (konst (Fin 0) dim_none))"
  by pat_completeness auto
termination
  by (relation "measure size") (auto intro: json_child_size)

declare from_json.simps [simp del]

definition serialize :: "node \<Rightarrow> string" where
  "serialize n = dump (to_json n)"

definition deserialize :: "string \<Rightarrow> ast_err + node" where
  "deserialize s = (case parse s of None \<Rightarrow> Inl BadText | Some j \<Rightarrow> from_json j)"

section \<open>Linear form\<close>

record slot =
  s_kind :: kind
  s_op :: op
  s_val :: double
  s_sym :: string
  s_fn :: string
  s_hole :: string
  s_args :: "nat list"
  s_cands :: "nat list"
  s_hash :: digest

type_synonym lin_state = "(string, nat) omap \<times> slot list"

text \<open>One node after its children; a hash seen before returns its slot without a new one.\<close>

function emit_slot :: "node \<Rightarrow> lin_state \<Rightarrow> nat \<times> lin_state"
and emit_slots :: "node list \<Rightarrow> lin_state \<Rightarrow> nat list \<times> lin_state" where
  "emit_slot n st =
     (case mget (fst st) (hex (n_hash n)) of
        Some i \<Rightarrow> (i, st)
      | None \<Rightarrow>
          (let (as, st1) = emit_slots (n_args n) st;
               (cs, st2) = emit_slots (n_cands n) st1;
               idx = length (snd st2);
               s = \<lparr>s_kind = n_kind n, s_op = n_op n, s_val = n_val n, s_sym = n_sym n, s_fn = n_fn n,
                    s_hole = n_hole n, s_args = as, s_cands = cs, s_hash = n_hash n\<rparr>
           in (idx, (mput (hex (n_hash n)) idx (fst st2), snd st2 @ [s]))))"
| "emit_slots [] st = ([], st)"
| "emit_slots (n # ns) st =
     (let (i, st1) = emit_slot n st; (is, st2) = emit_slots ns st1 in (i # is, st2))"
  by pat_completeness auto

lemma node_children_size: "size_list size (n_args n) < size n" "size_list size (n_cands n) < size n"
  by (cases n; simp)+

termination emit_slot
  by (relation "measure (\<lambda>x. case x of Inl (n, _) \<Rightarrow> size n | Inr (ns, _) \<Rightarrow> size_list size ns)")
    (auto simp: node_children_size)

declare emit_slot.simps [simp del]

definition linearize :: "node \<Rightarrow> slot list" where
  "linearize n = snd (snd (emit_slot n ([], [])))"

section \<open>Well-formed nodes\<close>

text \<open>A well-formed node is what its kind's constructor builds from well-formed children.\<close>

fun rebuild :: "node \<Rightarrow> node" where
  "rebuild (Node k o' v s f hl r a d p as cs h) =
     (case k of
        KConst \<Rightarrow> konst v d | KVar \<Rightarrow> var s d p | KOper \<Rightarrow> oper o' as | KCall \<Rightarrow> call f as
      | KHole \<Rightarrow> hole hl a p r as | KDisj \<Rightarrow> disj cs)"

fun node_wf :: "node \<Rightarrow> bool" where
  "node_wf (Node k o' v s f hl r a d p as cs h) =
     (rebuild (Node k o' v s f hl r a d p as cs h) = Node k o' v s f hl r a d p as cs h
      \<and> dim_wf d \<and> list_all node_wf as \<and> list_all node_wf cs)"

lemmas constructor_defs = konst_def var_def oper_def call_def hole_def disj_def

lemma finish_sel [simp]:
  "n_kind (finish n) = n_kind n" "n_op (finish n) = n_op n" "n_val (finish n) = n_val n"
  "n_sym (finish n) = n_sym n" "n_fn (finish n) = n_fn n" "n_hole (finish n) = n_hole n"
  "n_regime (finish n) = n_regime n" "n_arity (finish n) = n_arity n" "n_dim (finish n) = n_dim n"
  "n_phys (finish n) = n_phys n" "n_args (finish n) = n_args n" "n_cands (finish n) = n_cands n"
  "n_hash (finish n) = compute_hash n"
  by (cases n; simp add: finish_def)+

lemma compute_hash_finish [simp]: "compute_hash (finish n) = compute_hash n"
  by (simp add: compute_hash_def hash_bytes_def)

lemma finish_finish: "finish (set_hash h n) = finish n"
  by (cases n) (simp add: finish_def compute_hash_def hash_bytes_def)

lemma finish_Node:
  "finish (Node k o' v s f hl r a d p as cs h) =
     Node k o' v s f hl r a d p as cs (compute_hash (Node k o' v s f hl r a d p as cs zero_digest))"
  by (simp add: finish_def compute_hash_def hash_bytes_def)

lemma constructors_wf:
  "dim_wf d \<Longrightarrow> node_wf (konst v d)" "dim_wf d \<Longrightarrow> node_wf (var s d p)"
  "list_all node_wf as \<Longrightarrow> node_wf (oper o' as)" "list_all node_wf as \<Longrightarrow> node_wf (call f as)"
  "list_all node_wf as \<Longrightarrow> node_wf (hole i ar p rg as)" "list_all node_wf cs \<Longrightarrow> node_wf (disj cs)"
  by (simp_all add: constructor_defs finish_Node)

lemma node_wf_cases [consumes 1, case_names konst var oper call hole disj]:
  assumes "node_wf n"
  obtains v d where "n = konst v d" "dim_wf d" | s d p where "n = var s d p" "dim_wf d"
  | o' as where "n = oper o' as" "list_all node_wf as" | f as where "n = call f as" "list_all node_wf as"
  | i ar p rg as where "n = hole i ar p rg as" "list_all node_wf as"
  | cs where "n = disj cs" "list_all node_wf cs"
proof -
  obtain k o' v s f hl r a d p as cs h where n: "n = Node k o' v s f hl r a d p as cs h" by (cases n)
  have w: "rebuild n = n" "dim_wf d" "list_all node_wf as" "list_all node_wf cs" using assms by (simp_all add: n)
  show thesis
    using w(1)[unfolded n rebuild.simps, symmetric] w(2-4) that unfolding n[symmetric]
    by (cases k) auto
qed

lemma node_wf_hash: "node_wf n \<Longrightarrow> n_hash n = compute_hash n"
  by (erule node_wf_cases) (simp_all add: constructor_defs)

lemma length_node_hash: "node_wf n \<Longrightarrow> length (n_hash n) = 32"
  by (simp add: node_wf_hash compute_hash_def)

section \<open>JSON round trip\<close>

lemma op_from_name_name [simp]: "op_from_name (op_name o') = Some o'"
  by (cases o') (simp_all add: op_from_name_def op_name_def OPS_def)

text \<open>
  The nodes the JSON form determines: no dimension on a constant or a variable, and a physical
  range whose ends are in order, as \<open>Ival::of\<close> leaves them.
\<close>

fun json_node :: "node \<Rightarrow> bool" where
  "json_node (Node k o' v s f hl r a d p as cs h) =
     (d = dim_none \<and> (if k \<in> {KVar, KHole} then ival_of (lo p) (hi p) = p else True)
      \<and> (if k = KHole then - 2147483648 \<le> a \<and> a \<le> 2147483647 else True)
      \<and> list_all json_node as \<and> list_all json_node cs)"

lemma jget_mkobj:
  "jat (mkobj ps) k = (case map_of (rev ps) k of None \<Rightarrow> JNull | Some v \<Rightarrow> v)"
  "jhas (mkobj ps) k = (map_of (rev ps) k \<noteq> None)"
  "jn (mkobj ps) k d = (case map_of (rev ps) k of Some (JNum v) \<Rightarrow> v | _ \<Rightarrow> d)"
  "jstr (mkobj ps) k e = (case map_of (rev ps) k of Some (JStr s) \<Rightarrow> s | _ \<Rightarrow> e)"
  by (simp_all add: jat_def jhas_def jn_def jstr_def mkobj_def mget_mbuild)

lemma seq_results_Inr: "list_all (\<lambda>x. f x = Inr (g x)) xs \<Longrightarrow> seq_results (map f xs) = Inr (map g xs)"
  by (induction xs) simp_all

lemma is_entire_eq: "is_entire p \<longleftrightarrow> p = entire"
  by (cases p; cases "lo p"; cases "hi p") (auto simp: is_entire_def entire_def)

lemma ival_at_json: "ival_of (lo p) (hi p) = p \<Longrightarrow> ival_at (ival_json p) = Inr p"
  by (simp add: ival_at_def ival_json_def)

lemma to_int32_of_int: "- 2147483648 \<le> a \<Longrightarrow> a \<le> 2147483647 \<Longrightarrow> to_int32 (Fin (of_int a)) = Inr a"
  by (simp add: to_int32_def)

lemma jarr_ival_json: "length (jarr (ival_json p)) = 2"
  by (simp add: ival_json_def)

lemma from_to_json: "node_wf n \<Longrightarrow> json_node n \<Longrightarrow> from_json (to_json n) = Inr n"
proof (induction n)
  case (Node k o' v s f hl r a d p as cs h)
  let ?n = "Node k o' v s f hl r a d p as cs h"
  have rb: "rebuild ?n = ?n" using Node.prems(1) by simp
  have as: "seq_results (map (from_json \<circ> to_json) as) = Inr as"
    using Node.IH(1) Node.prems seq_results_Inr[of "from_json \<circ> to_json" id as]
    by (simp add: list_all_iff)
  have cs: "seq_results (map (from_json \<circ> to_json) cs) = Inr cs"
    using Node.IH(2) Node.prems seq_results_Inr[of "from_json \<circ> to_json" id cs]
    by (simp add: list_all_iff)
  show ?case using rb as cs Node.prems
    by (cases k) (auto simp: from_json.simps[of "mkobj _"] jget_mkobj Let_def is_entire_eq ival_at_json
        to_int32_of_int jarr_ival_json)
qed

lemma deserialize_serialize:
  "node_wf n \<Longrightarrow> json_node n \<Longrightarrow> json_plain (to_json n) \<Longrightarrow> deserialize (serialize n) = Inr n"
  by (simp add: deserialize_def serialize_def parse_dump from_to_json)

section \<open>The binary64 pattern determines the double\<close>

definition bits_real :: "nat \<Rightarrow> real" where
  "bits_real n =
     (let x = n div 2 ^ 52; f = n mod 2 ^ 52
      in if x = 0 then of_nat f * 2 powi (- 1074) else of_nat (f + 2 ^ 52) * 2 powi (int x - 1075))"

lemma mag_bits_dec:
  assumes "representable q" "0 < q"
  shows "bits_real (mag_bits q) = q" "mag_bits q < 0x7FF0000000000000"
proof -
  define e where "e = qexp q"
  define m where "m = \<lfloor>q / 2 powi e\<rfloor>"
  have pos: "0 < (2::real) powi e" by simp
  have "grid RDown q = q" using grid_exact[OF assms(1)] .
  then have qm: "q = of_int m * 2 powi e" by (simp add: grid_def e_def m_def Let_def)
  have m0: "0 < m" using assms(2) pos by (simp add: qm zero_less_mult_iff)
  have "\<bar>q\<bar> < 2 ^ 53 * 2 powi e" using scaled_upper[of q] by (simp add: e_def)
  then have "of_int m * 2 powi e < (2 ^ 53) * (2::real) powi e" using assms(2) qm by simp
  then have "of_int m < (2::real) ^ 53" by (simp only: mult_less_cancel_right_pos[OF pos])
  then have mu: "m < 2 ^ 53" by (metis of_int_less_numeral_power_cancel_iff)
  have ge: "- 1074 \<le> e" by (simp add: e_def qexp_ge)
  have nm: "int (nat m) = m" using m0 by simp
  have le: "\<bar>q\<bar> \<le> max_fin" using representable_le_max[OF assms(1)] .
  show "bits_real (mag_bits q) = q"
  proof (cases "m < 2 ^ 52")
    case True
    then have small: "nat m < 2 ^ 52" by simp
    have "e = - 1074"
    proof (rule ccontr)
      assume "e \<noteq> - 1074"
      then have "2 ^ 52 * 2 powi e \<le> \<bar>q\<bar>" using scaled_lower[of q] assms(2) ge by (simp add: e_def)
      then have "2 ^ 52 * (2::real) powi e \<le> of_int m * 2 powi e" using assms(2) qm by simp
      then have "(2::real) ^ 52 \<le> of_int m" by (simp only: mult_le_cancel_right_pos[OF pos])
      then have "2 ^ 52 \<le> m" by (metis numeral_power_le_of_int_cancel_iff)
      then show False using True by simp
    qed
    have "mag_bits q = nat m"
      using small assms(2) by (simp add: mag_bits_def e_def[symmetric] m_def[symmetric] Let_def)
    moreover have "nat m div 2 ^ 52 = 0" "nat m mod 2 ^ 52 = nat m" using small by simp_all
    ultimately have "bits_real (mag_bits q) = of_nat (nat m) * 2 powi e"
      unfolding \<open>e = - 1074\<close> bits_real_def Let_def by (simp only: if_True refl)
    then show ?thesis using qm nm by (metis of_int_of_nat_eq)
  next
    case False
    define f where "f = nat m - 2 ^ 52"
    have f: "f < 2 ^ 52" "nat m = f + 2 ^ 52" using False mu by (auto simp: f_def)
    define x where "x = nat (e + 1075)"
    have x: "0 < x" "int x = e + 1075" using ge by (auto simp: x_def)
    have "mag_bits q = x * 2 ^ 52 + f"
    proof -
      have "q \<noteq> 0" "\<not> nat m < 2 ^ 52" using False assms(2) by auto
      then show ?thesis
        unfolding mag_bits_def e_def[symmetric] m_def[symmetric] Let_def x_def f_def by (simp only: if_False)
    qed
    moreover have "(x * 2 ^ 52 + f) div 2 ^ 52 = x" "(x * 2 ^ 52 + f) mod 2 ^ 52 = f"
      using f(1) by (simp_all add: div_mult_self3)
    moreover have "int x - 1075 = e" using x(2) by simp
    ultimately have "bits_real (mag_bits q) = of_nat (nat m) * 2 powi e"
      using x(1) f(2) unfolding bits_real_def Let_def by (simp only: less_not_refl if_False neq0_conv split: if_split) simp
    then show ?thesis using qm nm by (metis of_int_of_nat_eq)
  qed
  have "e \<le> 971"
  proof (rule ccontr)
    assume "\<not> e \<le> 971"
    then have "2 ^ 52 * 2 powi e \<le> \<bar>q\<bar>" using scaled_lower[of q] assms(2) by (simp add: e_def)
    moreover have "(2::real) powi 972 \<le> 2 powi e" using \<open>\<not> e \<le> 971\<close> unfolding powi2_le_iff by linarith
    then have "(2::real) ^ 52 * 2 powi 972 \<le> 2 ^ 52 * 2 powi e" by (rule mult_left_mono) simp
    ultimately have "2 ^ 52 * (2::real) powi 972 \<le> max_fin" using le by linarith
    moreover have "(2::real) powi 972 = 2 ^ 972" using power_int_of_nat[of "2::real" 972] by simp
    ultimately show False by (simp add: max_fin_def)
  qed
  then have xu: "nat (e + 1075) \<le> 2046" by simp
  have mb: "mag_bits q \<le> nat (e + 1075) * 2 ^ 52 + 2 ^ 52"
    using mu by (auto simp: mag_bits_def e_def[symmetric] m_def[symmetric] Let_def)
  show "mag_bits q < 0x7FF0000000000000"
  proof (cases "m < 2 ^ 52")
    case True
    then show ?thesis using assms(2) by (auto simp: mag_bits_def e_def[symmetric] m_def[symmetric] Let_def)
  next
    case False
    then have "mag_bits q = nat (e + 1075) * 2 ^ 52 + (nat m - 2 ^ 52)"
      using assms(2) by (simp add: mag_bits_def e_def[symmetric] m_def[symmetric] Let_def not_less)
    moreover have "nat m - 2 ^ 52 < 2 ^ 52" using mu by auto
    ultimately show ?thesis using xu by simp
  qed
qed

lemma mag_bits_0 [simp]: "mag_bits 0 = 0"
  by (simp add: mag_bits_def)

lemma bits_real_0 [simp]: "bits_real 0 = 0"
  by (simp add: bits_real_def)

lemma mag_bits_nonneg:
  "representable q \<Longrightarrow> 0 \<le> q \<Longrightarrow> bits_real (mag_bits q) = q \<and> mag_bits q < 0x7FF0000000000000"
  using mag_bits_dec[of q] by (cases "q = 0") auto

definition bits_double :: "nat \<Rightarrow> double" where
  "bits_double n =
     (if n = 0x7FF8000000000000 then NaN else if n = 0x7FF0000000000000 then PInf
      else if n = 0xFFF0000000000000 then NInf else if n = 0x8000000000000000 then NegZero
      else if n < 2 ^ 63 then Fin (bits_real n) else Fin (- bits_real (n - 2 ^ 63)))"

lemma mag_bits_eq_0: "representable q \<Longrightarrow> 0 < q \<Longrightarrow> mag_bits q \<noteq> 0"
  using mag_bits_dec(1)[of q] by (metis bits_real_0 less_irrefl)

lemma bits_double_bits: "dwf d \<Longrightarrow> bits_double (double_bits d) = d"
proof (cases d)
  case (Fin r)
  assume w: "dwf d"
  show ?thesis
  proof (cases "r < 0")
    case True
    have "representable (- r)" using w Fin by simp
    then show ?thesis using mag_bits_nonneg[of "- r"] mag_bits_eq_0[of "- r"] True Fin
      by (simp add: bits_double_def)
  next
    case False
    then show ?thesis using mag_bits_nonneg[of r] w Fin by (simp add: bits_double_def)
  qed
qed (simp_all add: bits_double_def)

lemma double_bits_less: "dwf d \<Longrightarrow> double_bits d < 2 ^ 64"
proof (cases d)
  case (Fin r)
  assume "dwf d"
  then show ?thesis using mag_bits_nonneg[of r] mag_bits_nonneg[of "- r"] Fin by (cases "r < 0") auto
qed simp_all

section \<open>Content addressing\<close>

text \<open>The limits within which the hashed bytes determine the fields: 32-bit lengths and exponents.\<close>

definition int32 :: "int \<Rightarrow> bool" where
  "int32 e \<longleftrightarrow> - 2147483648 \<le> e \<and> e \<le> 2147483647"

fun hashable :: "node \<Rightarrow> bool" where
  "hashable (Node k o' v s f hl r a d p as cs h) =
     (dwf v \<and> dwf (lo p) \<and> dwf (hi p) \<and> length s < 2 ^ 32 \<and> length f < 2 ^ 32 \<and> length hl < 2 ^ 32
      \<and> list_all int32 d \<and> list_all hashable as \<and> list_all hashable cs)"

text \<open>The arity of a hole is not hashed.\<close>

fun no_arity :: "node \<Rightarrow> node" where
  "no_arity (Node k o' v s f hl r a d p as cs h) =
     Node k o' v s f hl r 0 d p (map no_arity as) (map no_arity cs) h"

fun first_some :: "'a option list \<Rightarrow> 'a option" where
  "first_some [] = None"
| "first_some (Some x # xs) = Some x"
| "first_some (None # xs) = first_some xs"

text \<open>Two nodes of one hash: the first pair of nodes below them that hash different strings.\<close>

lemma node_child_size: "x \<in> set (n_args n @ n_cands n) \<Longrightarrow> size x < size n"
  using node_children_size[of n] by (auto dest: size_list_estimation'[OF _ order_refl, of _ _ size])

function hash_clash :: "node \<Rightarrow> node \<Rightarrow> (byte list \<times> byte list) option" where
  "hash_clash a b =
     (if hash_bytes a \<noteq> hash_bytes b \<and> compute_hash a = compute_hash b
      then Some (hash_bytes a, hash_bytes b)
      else first_some (map (\<lambda>(x, y). hash_clash x y)
             (zip (n_args a @ n_cands a) (n_args b @ n_cands b))))"
  by pat_completeness auto
termination
  by (relation "measure (\<lambda>(a, b). size a)") (auto dest!: set_zip_leftD intro: node_child_size)

declare hash_clash.simps [simp del]

lemma first_some_in: "first_some xs = Some y \<Longrightarrow> Some y \<in> set xs"
  by (induction xs rule: first_some.induct) auto

lemma first_some_None: "first_some xs = None \<longleftrightarrow> (\<forall>x\<in>set xs. x = None)"
  by (induction xs rule: first_some.induct) auto

lemma hash_clash_sound: "hash_clash a b = Some (x, y) \<Longrightarrow> x \<noteq> y \<and> sha256 x = sha256 y"
proof (induction a b rule: hash_clash.induct)
  case (1 a b)
  show ?case
  proof (cases "hash_bytes a \<noteq> hash_bytes b \<and> compute_hash a = compute_hash b")
    case True
    then have "Some (x, y) = Some (hash_bytes a, hash_bytes b)"
      using "1.prems" by (subst (asm) hash_clash.simps) simp
    then show ?thesis using True by (simp add: compute_hash_def)
  next
    case False
    then obtain u v where "(u, v) \<in> set (zip (n_args a @ n_cands a) (n_args b @ n_cands b))"
      "hash_clash u v = Some (x, y)"
      using "1.prems" by (subst (asm) hash_clash.simps) (auto dest!: first_some_in)
    then show ?thesis using "1.IH"[OF False] by blast
  qed
qed

lemma byte_of_nth': "i < LENGTH('a) div 8 \<Longrightarrow> n < 8 \<Longrightarrow> bit (byte_of (x :: 'a::len word) i) n = bit x (8 * i + n)"
  by (simp add: byte_of_def bit_simps)

lemma le_bytes_word: "map (byte_of (x::'a::len word)) [0..<LENGTH('a) div 8] = map (byte_of y) [0..<LENGTH('a) div 8] \<Longrightarrow>
    8 dvd LENGTH('a) \<Longrightarrow> x = y"
proof (rule bit_word_eqI)
  fix n assume e: "map (byte_of x) [0..<LENGTH('a) div 8] = map (byte_of y) [0..<LENGTH('a) div 8]"
    and n: "n < LENGTH('a)" and d8: "8 dvd LENGTH('a)"
  have d: "n div 8 < LENGTH('a) div 8" "n mod 8 < 8" using n d8 by (auto elim!: dvdE)
  have "byte_of x (n div 8) = byte_of y (n div 8)" using e d(1) by simp
  then have "bit x (8 * (n div 8) + n mod 8) = bit y (8 * (n div 8) + n mod 8)"
    using byte_of_nth'[OF d] by metis
  then show "bit x n = bit y n" by simp
qed

lemma le_bytes32_inject: "le_bytes32 x = le_bytes32 y \<Longrightarrow> x = y"
  using le_bytes_word[of x y] by (simp add: le_bytes32_def)

lemma le_bytes64_inject': "le_bytes64 x = le_bytes64 y \<Longrightarrow> x = y"
  using le_bytes_word[of x y] by (simp add: le_bytes64_def)

lemma length_le_bytes [simp]: "length (le_bytes32 x) = 4" "length (put_int e) = 4" "length (put_d d) = 8"
  by (simp_all add: le_bytes32_def put_int_def put_d_def le_bytes64_def)

lemma put_d_inject: "dwf c \<Longrightarrow> dwf d \<Longrightarrow> put_d c = put_d d \<Longrightarrow> c = d"
proof -
  assume w: "dwf c" "dwf d" and e: "put_d c = put_d d"
  have "(of_nat (double_bits c) :: 64 word) = of_nat (double_bits d)"
    using e by (simp add: put_d_def le_bytes64_inject')
  then have "double_bits c = double_bits d"
    using double_bits_less[OF w(1)] double_bits_less[OF w(2)]
    by (simp add: of_nat_eq_iff word_of_nat_eq_iff take_bit_nat_eq_self)
  then show "c = d" using bits_double_bits[OF w(1)] bits_double_bits[OF w(2)] by metis
qed

lemma put_int_inject: "int32 c \<Longrightarrow> int32 d \<Longrightarrow> put_int c = put_int d \<Longrightarrow> c = d"
proof -
  assume w: "int32 c" "int32 d" and e: "put_int c = put_int d"
  have "(of_int c :: 32 word) = of_int d" using e by (simp add: put_int_def le_bytes32_inject)
  then have "2 ^ 32 dvd c - d" by (simp add: word_of_int_eq_iff take_bit_eq_mod mod_eq_dvd_iff)
  moreover have "\<bar>c - d\<bar> < 2 ^ 32" using w unfolding int32_def by (simp add: abs_le_iff) linarith
  ultimately show "c = d" using dvd_imp_le_int[of "c - d" "2 ^ 32"] by fastforce
qed

lemma bytes_of_inject: "bytes_of s = bytes_of t \<Longrightarrow> s = t"
proof -
  assume "bytes_of s = bytes_of t"
  then have "map (\<lambda>c. of_char c :: byte) s = map (\<lambda>c. of_char c) t" by (simp add: bytes_of_def)
  moreover have "inj (\<lambda>c. of_char c :: byte)"
  proof (rule injI)
    fix c d :: char assume "(of_char c :: byte) = of_char d"
    then have "(of_nat (of_char c :: nat) :: byte) = of_nat (of_char d :: nat)" by (simp only: of_nat_of_char)
    then have "take_bit 8 (of_char c :: nat) = take_bit 8 (of_char d)" by (simp add: word_of_nat_eq_iff)
    then have "(of_char c :: nat) = of_char d" by (simp add: take_bit_eq_mod)
    then show "c = d" by simp
  qed
  ultimately show "s = t" using map_injective by blast
qed

lemma put_str_inject:
  "length s < 2 ^ 32 \<Longrightarrow> length t < 2 ^ 32 \<Longrightarrow> put_str s @ r = put_str t @ r' \<Longrightarrow> s = t \<and> r = r'"
proof -
  assume l: "length s < 2 ^ 32" "length t < 2 ^ 32" and e: "put_str s @ r = put_str t @ r'"
  have "le_bytes32 (of_nat (length s)) = le_bytes32 (of_nat (length t))"
    and b: "bytes_of s @ r = bytes_of t @ r'"
    using e by (simp_all add: put_str_def)
  then have "(of_nat (length s) :: 32 word) = of_nat (length t)" by (simp add: le_bytes32_inject)
  then have "length s = length t" using l by (simp add: word_of_nat_eq_iff take_bit_nat_eq_self)
  then have "bytes_of s = bytes_of t \<and> r = r'" using b by (simp add: bytes_of_def)
  then show ?thesis using bytes_of_inject by blast
qed
lemma concat_inject:
  assumes "list_all (\<lambda>x. length (f x) = k) xs" "list_all (\<lambda>x. length (f x) = k) ys" "0 < k"
    and "concat (map f xs) = concat (map f ys)"
  shows "map f xs = map f ys"
  using assms(1,2,4)
proof (induction xs arbitrary: ys)
  case Nil
  then show ?case using assms(3) by (cases ys) auto
next
  case (Cons x xs)
  obtain y ys' where y: "ys = y # ys'"
    using Cons.prems assms(3) by (cases ys) auto
  show ?case using Cons.prems Cons.IH[of ys'] by (simp add: y)
qed

lemma kind_index_inject: "kind_index k = kind_index l \<Longrightarrow> k = l"
  by (cases k; cases l; simp)

lemma op_index_inject: "op_index k = op_index l \<Longrightarrow> k = l"
  by (cases k; cases l; simp)

lemma of_char_byte_inject: "(of_char c :: byte) = of_char d \<Longrightarrow> c = d"
  using bytes_of_inject[of "[c]" "[d]"] by (simp add: bytes_of_def)

lemma hash_bytes_inject:
  assumes "node_wf a" "node_wf b" "hashable a" "hashable b" "hash_bytes a = hash_bytes b"
  shows "n_kind a = n_kind b \<and> n_op a = n_op b \<and> n_val a = n_val b \<and> n_sym a = n_sym b \<and> n_fn a = n_fn b
    \<and> n_hole a = n_hole b \<and> n_regime a = n_regime b \<and> n_dim a = n_dim b \<and> n_phys a = n_phys b
    \<and> map n_hash (n_args a) = map n_hash (n_args b) \<and> map n_hash (n_cands a) = map n_hash (n_cands b)"
proof -
  obtain k o' v s f hl r ar d p as cs h where a: "a = Node k o' v s f hl r ar d p as cs h" by (cases a)
  obtain k2 o2 v2 s2 f2 hl2 r2 ar2 d2 p2 as2 cs2 h2
    where b: "b = Node k2 o2 v2 s2 f2 hl2 r2 ar2 d2 p2 as2 cs2 h2" by (cases b)
  note e = assms(5)[unfolded a b hash_bytes_def node.sel]
  let ?R = "put_str s @ put_str f @ put_str hl @ [of_char r] @ concat (map put_int d) @ put_d (lo p) @ put_d (hi p)
      @ concat (map n_hash as) @ concat (map n_hash cs)"
  let ?R2 = "put_str s2 @ put_str f2 @ put_str hl2 @ [of_char r2] @ concat (map put_int d2) @ put_d (lo p2) @ put_d (hi p2)
      @ concat (map n_hash as2) @ concat (map n_hash cs2)"
  have e0: "kind_index k = kind_index k2" "op_index o' = op_index o2" "put_d v @ ?R = put_d v2 @ ?R2"
    using e by (simp_all only: append_Cons append_Nil list.inject)
  have v: "put_d v = put_d v2 \<and> ?R = ?R2"
    by (rule append_eq_append_conv[THEN iffD1, OF _ e0(3)]) simp
  have kv: "k = k2" "o' = o2" using e0(1,2) by (simp_all add: kind_index_inject op_index_inject)
  have kv3: "v = v2" using conjunct1[OF v] assms(3,4) by (simp add: a b put_d_inject)
  note e1 = conjunct2[OF v]
  have l: "length s < 2 ^ 32" "length s2 < 2 ^ 32" "length f < 2 ^ 32" "length f2 < 2 ^ 32"
    "length hl < 2 ^ 32" "length hl2 < 2 ^ 32" using assms(3,4) by (simp_all add: a b)
  note s = put_str_inject[OF l(1,2) e1]
  note f = put_str_inject[OF l(3,4) conjunct2[OF s]]
  note hl = put_str_inject[OF l(5,6) conjunct2[OF f]]
  have ld: "length d = 7" "length d2 = 7" using assms(1,2) by (simp_all add: a b dim_wf_def)
  then have lc: "length (concat (map put_int d)) = length (concat (map put_int d2))"
    by (simp add: length_concat comp_def sum_list_triv)
  have rr: "of_char r = (of_char r2 :: byte)"
    and e2': "concat (map put_int d) @ put_d (lo p) @ put_d (hi p) @ concat (map n_hash as) @ concat (map n_hash cs)
      = concat (map put_int d2) @ put_d (lo p2) @ put_d (hi p2) @ concat (map n_hash as2) @ concat (map n_hash cs2)"
    using conjunct2[OF hl] by (simp_all only: append_Cons append_Nil list.inject)
  have r: "r = r2" by (rule of_char_byte_inject[OF rr])
  have e2: "concat (map put_int d) = concat (map put_int d2) \<and>
      put_d (lo p) @ put_d (hi p) @ concat (map n_hash as) @ concat (map n_hash cs)
      = put_d (lo p2) @ put_d (hi p2) @ concat (map n_hash as2) @ concat (map n_hash cs2)"
    by (rule append_eq_append_conv[THEN iffD1, OF _ e2']) (simp add: lc)
  have e3: "put_d (lo p) = put_d (lo p2) \<and> put_d (hi p) @ concat (map n_hash as) @ concat (map n_hash cs)
      = put_d (hi p2) @ concat (map n_hash as2) @ concat (map n_hash cs2)"
    by (rule append_eq_append_conv[THEN iffD1, OF _ conjunct2[OF e2]]) simp
  have e4: "put_d (hi p) = put_d (hi p2) \<and> concat (map n_hash as) @ concat (map n_hash cs)
      = concat (map n_hash as2) @ concat (map n_hash cs2)"
    by (rule append_eq_append_conv[THEN iffD1, OF _ conjunct2[OF e3]]) simp
  have "map put_int d = map put_int d2"
    using conjunct1[OF e2] by (rule concat_inject[of _ 4, rotated 3]) (simp_all add: list_all_iff)
  moreover have "inj_on put_int (set d \<union> set d2)"
    using assms(3,4) by (intro inj_onI put_int_inject) (auto simp: a b list_all_iff)
  ultimately have d: "d = d2" using map_inj_on by blast
  have "lo p = lo p2" "hi p = hi p2" using e3 e4 assms(3,4) by (simp_all add: a b put_d_inject)
  then have p: "p = p2" by simp
  have hs: "list_all (\<lambda>x. length (n_hash x) = 32) (as @ cs)" "list_all (\<lambda>x. length (n_hash x) = 32) (as2 @ cs2)"
    using assms(1,2) by (auto simp: a b list_all_iff length_node_hash)
  have m: "map n_hash (as @ cs) = map n_hash (as2 @ cs2)"
    using conjunct2[OF e4] by (intro concat_inject[OF hs]) simp_all
  have one: "if k = KDisj then as = [] \<and> as2 = [] else cs = [] \<and> cs2 = []"
    using assms(1,2) kv(1) by (cases k) (auto simp: a b constructor_defs finish_Node)
  show ?thesis using kv kv3 s f hl r d p m one by (auto simp: a b split: if_splits)
qed

lemma no_arity_eq:
  assumes "n_kind a = n_kind b" "n_op a = n_op b" "n_val a = n_val b" "n_sym a = n_sym b" "n_fn a = n_fn b"
    "n_hole a = n_hole b" "n_regime a = n_regime b" "n_dim a = n_dim b" "n_phys a = n_phys b" "n_hash a = n_hash b"
    "map no_arity (n_args a) = map no_arity (n_args b)" "map no_arity (n_cands a) = map no_arity (n_cands b)"
  shows "no_arity a = no_arity b"
  using assms by (cases a; cases b) simp

lemma children_wf:
  "node_wf n \<Longrightarrow> x \<in> set (n_args n @ n_cands n) \<Longrightarrow> node_wf x"
  "hashable n \<Longrightarrow> x \<in> set (n_args n @ n_cands n) \<Longrightarrow> hashable x"
  by (cases n; auto simp: list_all_iff)+

lemma hash_clash_complete:
  "node_wf a \<Longrightarrow> node_wf b \<Longrightarrow> hashable a \<Longrightarrow> hashable b \<Longrightarrow> n_hash a = n_hash b \<Longrightarrow>
     hash_clash a b = None \<Longrightarrow> no_arity a = no_arity b"
proof (induction a b rule: hash_clash.induct)
  case (1 a b)
  have ch: "compute_hash a = compute_hash b" using "1.prems"(1,2,5) by (simp add: node_wf_hash)
  then have hb: "hash_bytes a = hash_bytes b"
    using "1.prems"(6) by (subst (asm) hash_clash.simps) (simp split: if_splits)
  note eq = hash_bytes_inject[OF "1.prems"(1-4) hb]
  have none: "hash_clash x y = None" if "(x, y) \<in> set (zip (n_args a @ n_cands a) (n_args b @ n_cands b))" for x y
    using "1.prems"(6) that hb by (subst (asm) hash_clash.simps) (force simp: first_some_None)
  have la: "length (n_args a) = length (n_args b)" "length (n_cands a) = length (n_cands b)"
    using eq by (metis length_map)+
  have one: "no_arity x = no_arity y"
    if xy: "(x, y) \<in> set (zip (n_args a @ n_cands a) (n_args b @ n_cands b))" and "n_hash x = n_hash y" for x y
  proof -
    have m: "x \<in> set (n_args a @ n_cands a)" "y \<in> set (n_args b @ n_cands b)"
      using xy by (auto dest: set_zip_leftD set_zip_rightD simp del: set_append)
    show ?thesis
      using "1.IH"[OF _ xy refl] hb that(2) none[OF xy] children_wf(1)[OF "1.prems"(1) m(1)] children_wf(1)[OF "1.prems"(2) m(2)]
        children_wf(2)[OF "1.prems"(3) m(1)] children_wf(2)[OF "1.prems"(4) m(2)] "1.prems"(1,2) by blast
  qed
  have "map no_arity (n_args a) = map no_arity (n_args b)"
  proof (rule nth_equalityI)
    fix i assume i: "i < length (map no_arity (n_args a))"
    have "(n_args a ! i, n_args b ! i) \<in> set (zip (n_args a) (n_args b))" using i la by (auto simp: set_zip)
    moreover have "n_hash (n_args a ! i) = n_hash (n_args b ! i)" using eq i la by (metis length_map nth_map)
    ultimately have "no_arity (n_args a ! i) = no_arity (n_args b ! i)" using one la by simp
    then show "map no_arity (n_args a) ! i = map no_arity (n_args b) ! i" using i la by simp
  qed (simp add: la)
  moreover have "map no_arity (n_cands a) = map no_arity (n_cands b)"
  proof (rule nth_equalityI)
    fix i assume i: "i < length (map no_arity (n_cands a))"
    have "(n_cands a ! i, n_cands b ! i) \<in> set (zip (n_cands a) (n_cands b))" using i la by (auto simp: set_zip)
    moreover have "n_hash (n_cands a ! i) = n_hash (n_cands b ! i)" using eq i la by (metis length_map nth_map)
    ultimately have "no_arity (n_cands a ! i) = no_arity (n_cands b ! i)" using one la by simp
    then show "map no_arity (n_cands a) ! i = map no_arity (n_cands b) ! i" using i la by simp
  qed (simp add: la)
  ultimately show ?case using eq "1.prems"(5) by (intro no_arity_eq) simp_all
qed

lemma hash_arity: "n_hash (hole i ar p r as) = n_hash (hole i ar' p r as)"
  by (simp add: hole_def compute_hash_def hash_bytes_def)

section \<open>The linear form\<close>

text \<open>
  The invariant of the emission: a recorded hash has a slot with that hash, and every slot refers
  only to slots before it, so one pass in order evaluates them.
\<close>

definition lin_ok :: "lin_state \<Rightarrow> bool" where
  "lin_ok st \<longleftrightarrow>
     (\<forall>h i. mget (fst st) h = Some i \<longrightarrow> i < length (snd st) \<and> hex (s_hash (snd st ! i)) = h)
     \<and> (\<forall>i < length (snd st). \<forall>j \<in> set (s_args (snd st ! i) @ s_cands (snd st ! i)). j < i)"

definition lin_le :: "lin_state \<Rightarrow> lin_state \<Rightarrow> bool" where
  "lin_le st st' \<longleftrightarrow> (\<exists>ss. snd st' = snd st @ ss)"

lemma lin_le_refl: "lin_le st st"
  by (simp add: lin_le_def)

lemma lin_le_trans: "lin_le a b \<Longrightarrow> lin_le b c \<Longrightarrow> lin_le a c"
  by (auto simp: lin_le_def)

lemma lin_le_nth: "lin_le st st' \<Longrightarrow> i < length (snd st) \<Longrightarrow> i < length (snd st') \<and> snd st' ! i = snd st ! i"
  by (auto simp: lin_le_def nth_append)

lemma lin_ok_snoc:
  assumes "lin_ok st" "\<forall>j \<in> set (s_args s @ s_cands s). j < length (snd st)"
  shows "lin_ok (mput (hex (s_hash s)) (length (snd st)) (fst st), snd st @ [s])"
proof -
  have a: "mget (mput (hex (s_hash s)) (length (snd st)) (fst st)) h = Some i \<Longrightarrow>
      i < length (snd st @ [s]) \<and> hex (s_hash ((snd st @ [s]) ! i)) = h" for h i
    using assms(1) by (cases "h = hex (s_hash s)") (auto simp: lin_ok_def mget_mput nth_append less_SucI)
  have b: "j < i" if "i < length (snd st @ [s])" "j \<in> set (s_args ((snd st @ [s]) ! i) @ s_cands ((snd st @ [s]) ! i))" for i j
  proof (cases "i < length (snd st)")
    case True
    then show ?thesis using assms(1) that(2) unfolding lin_ok_def by (auto simp: nth_append)
  next
    case False
    then have "i = length (snd st)" using that(1) by simp
    then show ?thesis using assms(2) that(2) by simp
  qed
  show ?thesis unfolding lin_ok_def fst_conv snd_conv using a b by blast
qed

lemma emit_ok:
  "emit_slot n st = (i, st') \<Longrightarrow> lin_ok st \<Longrightarrow>
     lin_ok st' \<and> lin_le st st' \<and> i < length (snd st') \<and> hex (s_hash (snd st' ! i)) = hex (n_hash n)"
  "emit_slots ns st = (is, st') \<Longrightarrow> lin_ok st \<Longrightarrow>
     lin_ok st' \<and> lin_le st st' \<and> (\<forall>i \<in> set is. i < length (snd st'))"
proof (induction n st and ns st arbitrary: i st' and "is" st' rule: emit_slot_emit_slots.induct)
  case (1 n st)
  show ?case
  proof (cases "mget (fst st) (hex (n_hash n))")
    case (Some j)
    then show ?thesis using "1.prems" by (subst (asm) emit_slot.simps) (auto simp: lin_ok_def lin_le_refl)
  next
    case None
    obtain as st1 where as: "emit_slots (n_args n) st = (as, st1)" by (cases "emit_slots (n_args n) st")
    obtain cs st2 where cs: "emit_slots (n_cands n) st1 = (cs, st2)" by (cases "emit_slots (n_cands n) st1")
    define s where "s = \<lparr>s_kind = n_kind n, s_op = n_op n, s_val = n_val n, s_sym = n_sym n, s_fn = n_fn n,
        s_hole = n_hole n, s_args = as, s_cands = cs, s_hash = n_hash n\<rparr>"
    have r: "i = length (snd st2)" "st' = (mput (hex (n_hash n)) (length (snd st2)) (fst st2), snd st2 @ [s])"
      using "1.prems"(1) None as cs by (subst (asm) emit_slot.simps; simp add: s_def Let_def)+
    have a: "lin_ok st1" "lin_le st st1" "\<forall>i \<in> set as. i < length (snd st1)"
      using "1.IH"(1)[OF None as "1.prems"(2)] by blast+
    have c: "lin_ok st2" "lin_le st1 st2" "\<forall>i \<in> set cs. i < length (snd st2)"
      using "1.IH"(2)[OF None as[symmetric] refl cs a(1)] by blast+
    have "\<forall>j \<in> set (s_args s @ s_cands s). j < length (snd st2)"
      using a(3) c(3) lin_le_nth[OF c(2)] by (auto simp: s_def)
    from lin_ok_snoc[OF c(1) this]
    show ?thesis using lin_le_trans[OF a(2) c(2)] by (auto simp: r s_def lin_le_def)
  qed
next
  case (3 n ns st)
  obtain j st1 where j: "emit_slot n st = (j, st1)" by (cases "emit_slot n st")
  obtain js st2 where js: "emit_slots ns st1 = (js, st2)" by (cases "emit_slots ns st1")
  have r: "is = j # js" "st' = st2" using "3.prems"(1) j js by simp_all
  have a: "lin_ok st1" "lin_le st st1" "j < length (snd st1)" using "3.IH"(1)[OF j "3.prems"(2)] by blast+
  have b: "lin_ok st2" "lin_le st1 st2" "\<forall>i \<in> set js. i < length (snd st2)"
    using "3.IH"(2)[OF j[symmetric] refl js a(1)] by blast+
  show ?case using lin_le_trans[OF a(2) b(2)] a(3) b lin_le_nth[OF b(2)] by (auto simp: r)
qed (auto simp: lin_le_refl)

lemma emit_slot_last: "emit_slot n ([], []) = (i, st') \<Longrightarrow> i = length (snd st') - 1"
  by (subst (asm) emit_slot.simps) (auto simp: Let_def split: prod.splits)

text \<open>The slots are in evaluation order and the last one is the root's.\<close>

lemma linearize_ordered:
  "i < length (linearize n) \<Longrightarrow> j \<in> set (s_args (linearize n ! i) @ s_cands (linearize n ! i)) \<Longrightarrow> j < i"
  "linearize n \<noteq> []" "hex (s_hash (last (linearize n))) = hex (n_hash n)"
proof -
  obtain k st where e: "emit_slot n ([], []) = (k, st)" by (cases "emit_slot n ([], [])")
  have ok: "lin_ok st" "k < length (snd st)" "hex (s_hash (snd st ! k)) = hex (n_hash n)"
    using emit_ok(1)[OF e] by (simp_all add: lin_ok_def)
  have l: "linearize n = snd st" by (simp add: linearize_def e)
  show "i < length (linearize n) \<Longrightarrow> j \<in> set (s_args (linearize n ! i) @ s_cands (linearize n ! i)) \<Longrightarrow> j < i"
    using ok(1) by (auto simp: l lin_ok_def)
  show ne: "linearize n \<noteq> []" using ok(2) by (auto simp: l)
  show "hex (s_hash (last (linearize n))) = hex (n_hash n)"
    using ok(3) emit_slot_last[OF e] ne by (simp add: l last_conv_nth)
qed

section \<open>What the reader builds is well formed\<close>

lemma seq_results_all: "seq_results rs = Inr xs \<Longrightarrow> (\<And>r x. r \<in> set rs \<Longrightarrow> r = Inr x \<Longrightarrow> P x) \<Longrightarrow> list_all P xs"
proof (induction rs arbitrary: xs rule: seq_results.induct)
  case (3 x rs)
  then show ?case by (auto split: sum.splits)
qed simp_all

lemma bindE_Inr: "bindE m f = Inr y \<longleftrightarrow> (\<exists>x. m = Inr x \<and> f x = Inr y)"
  by (cases m) simp_all

lemma from_json_wf: "from_json j = Inr n \<Longrightarrow> node_wf n"
proof (induction j arbitrary: n rule: from_json.induct)
  case (1 j)
  have as: "list_all node_wf xs" if "seq_results (map from_json (jarr (jat j ''args''))) = Inr xs" for xs
    using that by (rule seq_results_all) (use "1.IH"(1) in fastforce)
  have cs: "list_all node_wf xs"
    if "seq_results (map from_json (jarr (jat j ''cands''))) = Inr xs"
      "jstr j ''k'' [] = ''disj''" for xs
    using that(1)
  proof (rule seq_results_all)
    fix r x assume r: "r \<in> set (map from_json (jarr (jat j ''cands'')))" "r = Inr x"
    then obtain c where "c \<in> set (jarr (jat j ''cands''))" "from_json c = Inr x" by auto
    then show "node_wf x" using "1.IH"(2) that(2) by simp
  qed
  show ?case using "1.prems" as cs constructors_wf
    by (subst (asm) from_json.simps) (auto simp: bindE_Inr Let_def split: if_splits option.splits)
qed

end
