(* ===== verification/Fve_Holes.thy ===== *)
theory Fve_Holes
  imports Fve_Interval
begin

text \<open>
  The holes of \<open>core/holes\<close>: a wrapper turns the enclosures of a hole's arguments into an
  enclosure of its value, and the table falls back to the physical range when there is no
  wrapper, when the wrapper is refuted or when its result is empty. The function a monotone
  wrapper calls is a parameter. The lemmas: wrappers stay within the physical range, a monotone
  wrapper encloses a monotone function, and the table's answer is empty only if its range is.
\<close>

record wrap_result =
  w_encl :: ival
  w_residual :: double
  refuted :: bool

type_synonym wrapper = "ival list \<Rightarrow> wrap_result"

definition phys_wrap :: "ival \<Rightarrow> ival list \<Rightarrow> wrap_result" where
  "phys_wrap p ins =
     \<lparr>w_encl = p,
      w_residual = (if is_entire p then hi entire else fmul RNear (Fin (1 / 2)) (width p)),
      refuted = False\<rparr>"

definition monotone_wrapper :: "int \<Rightarrow> ival \<Rightarrow> (double list \<Rightarrow> double) \<Rightarrow> wrapper" where
  "monotone_wrapper sign p f ins =
     (if list_ex is_empty ins then phys_wrap p ins
      else let a = map (\<lambda>iv. if sign \<ge> 0 then lo iv else hi iv) ins;
               b = map (\<lambda>iv. if sign \<ge> 0 then hi iv else lo iv) ins
           in \<lparr>w_encl = meet (ival_of (f a) (f b)) p, w_residual = Fin 0, refuted = False\<rparr>)"

section \<open>The Lipschitz wrapper\<close>

record probe =
  p_x :: "double list"
  p_f :: double

text \<open>
  The sum of squared differences, in the order of the loop. Where the code indexes a second
  vector that is shorter than the first it leaves the array; here the sum ends with the shorter.
\<close>

definition sqdist :: "double list \<Rightarrow> double list \<Rightarrow> double" where
  "sqdist xs ys =
     foldl (\<lambda>d xy. let dk = fsub RNear (fst xy) (snd xy) in fadd RNear d (fmul RNear dk dk))
       (Fin 0) (zip xs ys)"

definition half_sq :: "ival \<Rightarrow> double" where
  "half_sq iv =
     fmul RNear (fmul RNear (fmul RNear (Fin (1 / 2)) (width iv)) (Fin (1 / 2))) (width iv)"

definition lip_band :: "double list \<Rightarrow> double \<Rightarrow> double \<Rightarrow> probe \<Rightarrow> ival" where
  "lip_band c rad l p =
     (let dist = fadd RNear (fsqrt RNear (sqdist c (p_x p))) (fsqrt RNear rad)
      in add (point (p_f p)) (ival_of (fmul RNear (fneg l) dist) (fmul RNear l dist)))"

definition lip_pair_refutes :: "double \<Rightarrow> probe \<Rightarrow> probe \<Rightarrow> bool" where
  "lip_pair_refutes l p q =
     (let dist = fsqrt RNear (sqdist (p_x p) (p_x q))
      in flt (Fin 0) dist \<and> flt l (fdiv RNear (fabs (fsub RNear (p_f p) (p_f q))) dist))"

fun lip_refuted :: "double \<Rightarrow> probe list \<Rightarrow> bool" where
  "lip_refuted l [] = False"
| "lip_refuted l (p # ps) = (list_ex (lip_pair_refutes l p) ps \<or> lip_refuted l ps)"

definition lipschitz_wrapper :: "probe list \<Rightarrow> double \<Rightarrow> ival \<Rightarrow> wrapper" where
  "lipschitz_wrapper probes l p ins =
     (if probes = [] then phys_wrap p ins
      else let c = map mid ins;
               rad = foldl (\<lambda>r iv. fadd RNear r (half_sq iv)) (Fin 0) ins;
               acc = foldl (\<lambda>acc q. meet acc (lip_band c rad l q)) entire probes
           in if lip_refuted l probes then (phys_wrap p ins)\<lparr>refuted := True\<rparr>
              else \<lparr>w_encl = meet acc p, w_residual = Fin 0, refuted = False\<rparr>)"

section \<open>The table\<close>

record hole_table =
  wrappers :: "(string, wrapper) omap"
  phys_of_hole :: "(string, ival) omap"

definition hole_empty :: hole_table where
  "hole_empty = \<lparr>wrappers = [], phys_of_hole = []\<rparr>"

definition hole_set :: "string \<Rightarrow> wrapper \<Rightarrow> hole_table \<Rightarrow> hole_table" where
  "hole_set i w t = t\<lparr>wrappers := mput i w (wrappers t)\<rparr>"

definition hole_set_phys :: "string \<Rightarrow> ival \<Rightarrow> hole_table \<Rightarrow> hole_table" where
  "hole_set_phys i p t = t\<lparr>phys_of_hole := mput i p (phys_of_hole t)\<rparr>"

definition hole_has :: "string \<Rightarrow> hole_table \<Rightarrow> bool" where
  "hole_has i t = (mget (wrappers t) i \<noteq> None)"

definition hole_eval :: "hole_table \<Rightarrow> string \<Rightarrow> ival \<Rightarrow> ival list \<Rightarrow> wrap_result" where
  "hole_eval t i fallback ins =
     (let ph = (case mget (phys_of_hole t) i of Some p \<Rightarrow> p | None \<Rightarrow> fallback)
      in case mget (wrappers t) i of
           None \<Rightarrow> phys_wrap ph ins
         | Some w \<Rightarrow> (let r = w ins in if refuted r \<or> is_empty (w_encl r) then phys_wrap ph ins else r))"

definition bundle_hull :: "ival list \<Rightarrow> ival" where
  "bundle_hull cands = foldl ihull ival_empty cands"

section \<open>Within the physical range\<close>

lemma meet_subset: "lo a \<noteq> NaN \<Longrightarrow> hi a \<noteq> NaN \<Longrightarrow> lo b \<noteq> NaN \<Longrightarrow> hi b \<noteq> NaN \<Longrightarrow> ival_subset (meet a b) b"
  by (auto simp: meet_def ival_subset_def ival_empty_def is_empty_def Let_def std_max_def std_min_def
      not_flt fle_refl flt_fle intro: fle_trans)

lemma phys_wrap_range: "w_encl (phys_wrap p ins) = p" "\<not> refuted (phys_wrap p ins)"
  by (simp_all add: phys_wrap_def)

lemma ihull_empty: "\<not> is_empty p \<Longrightarrow> ihull ival_empty p = p" "ihull ival_empty ival_empty = ival_empty"
  by (simp_all add: ihull_def ival_empty_def is_empty_def)

lemma hole_eval_not_refuted: "\<not> refuted (hole_eval t i fb ins)"
  by (auto simp: hole_eval_def phys_wrap_def Let_def split: option.splits)

lemma hole_eval_nonempty:
  "\<not> is_empty (case mget (phys_of_hole t) i of Some p \<Rightarrow> p | None \<Rightarrow> fb) \<Longrightarrow> \<not> is_empty (w_encl (hole_eval t i fb ins))"
  by (auto simp: hole_eval_def phys_wrap_def Let_def split: option.splits)

section \<open>A monotone wrapper encloses a monotone function\<close>

definition mono_list :: "(real list \<Rightarrow> real) \<Rightarrow> bool" where
  "mono_list g \<longleftrightarrow> (\<forall>xs ys. list_all2 (\<le>) xs ys \<longrightarrow> g xs \<le> g ys)"

lemma monotone_incl:
  assumes "sign \<ge> 0" "mono_list g" "list_all2 imem xs ins" "list_all ifin ins"
    and "\<And>as. list_all is_fin as \<Longrightarrow> below (f as) (g (map fval as))"
    and "\<And>as. list_all is_fin as \<Longrightarrow> above (f as) (g (map fval as))"
    and "imem (g xs) p"
  shows "imem (g xs) (w_encl (monotone_wrapper sign p f ins))"
proof -
  have ne: "\<not> list_ex is_empty ins"
    using assms(3) imem_not_empty by (fastforce simp: list_ex_iff list_all2_conv_all_nth in_set_conv_nth)
  have fin: "list_all is_fin (map lo ins)" "list_all is_fin (map hi ins)"
    using assms(4) by (auto simp: list_all_iff ifin_def)
  have "list_all2 (\<le>) (map fval (map lo ins)) xs" "list_all2 (\<le>) xs (map fval (map hi ins))"
    using assms(3,4) by (auto simp: list_all2_conv_all_nth list_all_length imem_fin)
  then have "g (map fval (map lo ins)) \<le> g xs" "g xs \<le> g (map fval (map hi ins))"
    using assms(2) by (simp_all only: mono_list_def)
  then have b: "below (f (map lo ins)) (g xs)" "above (f (map hi ins)) (g xs)"
    using below_mono[OF assms(5)[OF fin(1)]] above_mono[OF assms(6)[OF fin(2)]] by blast+
  have "ival_of (f (map lo ins)) (f (map hi ins)) = Ival (f (map lo ins)) (f (map hi ins))"
    using below_above_le[OF b] by (simp add: ival_of_def)
  then show ?thesis using meet_incl[OF imemI assms(7), of "Ival (f (map lo ins)) (f (map hi ins))"] b ne assms(1)
    by (simp add: monotone_wrapper_def Let_def)
qed

section \<open>The hull of a disjunction\<close>

definition nonan :: "ival \<Rightarrow> bool" where
  "nonan a \<longleftrightarrow> lo a \<noteq> NaN \<and> hi a \<noteq> NaN"

lemma nonan_ihull: "nonan a \<Longrightarrow> nonan b \<Longrightarrow> nonan (ihull a b)"
  by (auto simp: nonan_def ihull_def)

lemma nonan_empty [simp]: "nonan ival_empty"
  by (simp add: nonan_def ival_empty_def)

lemma imem_nonan: "imem x a \<Longrightarrow> nonan a"
  by (auto simp: imem_def nonan_def)

lemma foldl_ihull_incl:
  "nonan r \<Longrightarrow> list_all nonan cs \<Longrightarrow> imem x r \<or> (\<exists>c \<in> set cs. imem x c) \<Longrightarrow> imem x (foldl ihull r cs)"
proof (induction cs arbitrary: r)
  case (Cons c cs)
  have "imem x (ihull r c)" if "imem x r \<or> imem x c"
    using that Cons.prems by (intro ihull_incl) (auto simp: nonan_def)
  then show ?case using Cons.prems by (auto intro!: Cons.IH nonan_ihull)
qed simp

lemma bundle_hull_incl: "list_all nonan cs \<Longrightarrow> c \<in> set cs \<Longrightarrow> imem x c \<Longrightarrow> imem x (bundle_hull cs)"
  unfolding bundle_hull_def by (rule foldl_ihull_incl) auto

end
