(* ===== verification/Fve_Enclosure.thy ===== *)
theory Fve_Enclosure
  imports Fve_Affine Fve_Ast Fve_Holes
begin

text \<open>
  The evaluation of \<open>core/enclosure\<close>: one interval per node, with the residuals of the holes
  added up and a trace entry per node, and the affine evaluation. An operator or function with
  fewer arguments than the code reads is \<open>None\<close> (the code leaves the vector). The meaning of a
  node is a relation between nodes and reals. The main lemma is that the evaluation encloses
  every value of a node, where each multiplication, division and power on the way has finite
  operands and the library functions meet their specification.
\<close>

type_synonym box = "(string, ival) omap"

record trace =
  t_node :: digest
  t_label :: string
  t_encl :: ival
  t_width :: double
  t_holed :: bool
  t_regime :: char

record eval_result =
  ms :: ival
  residual :: double
  r_trace :: "trace list"

record prog =
  p_root :: node
  p_box :: box
  p_holes :: hole_table
  p_ks :: double

section \<open>Operators and functions on intervals\<close>

fun apply_op :: "libm \<Rightarrow> op \<Rightarrow> ival list \<Rightarrow> ival option" where
  "apply_op L Add (a # b # _) = Some (add a b)"
| "apply_op L Sub (a # b # _) = Some (sub a b)"
| "apply_op L Mul (a # b # _) = Some (mul a b)"
| "apply_op L Div (a # b # _) = Some (divi a b)"
| "apply_op L Neg (a # _) = Some (neg a)"
| "apply_op L Pow (a # b # _) = Some (rpow L a (lo b))"
| "apply_op L Sqrt (a # _) = Some (isqrt a)"
| "apply_op L Log (a # _) = Some (ilog L a)"
| "apply_op L Exp (a # _) = Some (iexp L a)"
| "apply_op L Sin (a # _) = Some (isin L a)"
| "apply_op L Cos (a # _) = Some (icos L a)"
| "apply_op L Tan (a # _) = Some (itan L a)"
| "apply_op L _ _ = None"

definition call_fn :: "string \<Rightarrow> ival list \<Rightarrow> ival" where
  "call_fn f as =
     (if f = ''max'' \<and> length as = 2
      then ival_of (std_max (lo (as ! 0)) (lo (as ! 1))) (std_max (hi (as ! 0)) (hi (as ! 1)))
      else if f = ''min'' \<and> length as = 2
      then ival_of (std_min (lo (as ! 0)) (lo (as ! 1))) (std_min (hi (as ! 0)) (hi (as ! 1)))
      else if f = ''abs'' \<and> length as = 1
      then (let a = as ! 0;
                l = (if fle (lo a) (Fin 0) \<and> fle (Fin 0) (hi a) then Fin 0
                     else std_min (fabs (lo a)) (fabs (hi a)))
            in ival_of l (mag a))
      else foldl ihull ival_empty as)"

section \<open>Evaluation\<close>

definition node_label :: "node \<Rightarrow> string" where
  "node_label n =
     (case n_kind n of
        KConst \<Rightarrow> ''const'' | KVar \<Rightarrow> ''var '' @ n_sym n | KOper \<Rightarrow> op_name (n_op n)
      | KCall \<Rightarrow> ''call '' @ n_fn n | KHole \<Rightarrow> ''hole '' @ n_hole n | KDisj \<Rightarrow> ''disj'')"

text \<open>The state of the recursion: the residual so far and the trace, if one is kept.\<close>

type_synonym rstate = "double \<times> trace list option"

definition push_trace :: "node \<Rightarrow> ival \<Rightarrow> rstate \<Rightarrow> rstate" where
  "push_trace n out st =
     (fst st, map_option (\<lambda>tr. tr @ [\<lparr>t_node = n_hash n, t_label = node_label n, t_encl = out,
        t_width = width out, t_holed = (n_kind n = KHole),
        t_regime = (if n_kind n = KHole then n_regime n else CHR ''A'')\<rparr>]) (snd st))"

definition var_ival :: "box \<Rightarrow> node \<Rightarrow> ival" where
  "var_ival B n = (case mget B (n_sym n) of Some i \<Rightarrow> i | None \<Rightarrow> n_phys n)"

function rec :: "libm \<Rightarrow> box \<Rightarrow> hole_table \<Rightarrow> node \<Rightarrow> rstate \<Rightarrow> (ival \<times> rstate) option"
and recs :: "libm \<Rightarrow> box \<Rightarrow> hole_table \<Rightarrow> node list \<Rightarrow> rstate \<Rightarrow> (ival list \<times> rstate) option" where
  "rec L B T n st =
     (case (case n_kind n of
        KConst \<Rightarrow> Some (point (n_val n), st)
      | KVar \<Rightarrow> Some (var_ival B n, st)
      | KOper \<Rightarrow>
          (case recs L B T (n_args n) st of None \<Rightarrow> None
           | Some (as, st1) \<Rightarrow> map_option (\<lambda>out. (out, st1)) (apply_op L (n_op n) as))
      | KCall \<Rightarrow>
          (case recs L B T (n_args n) st of None \<Rightarrow> None
           | Some (as, st1) \<Rightarrow> Some (call_fn (n_fn n) as, st1))
      | KHole \<Rightarrow>
          (case recs L B T (n_args n) st of None \<Rightarrow> None
           | Some (as, st1) \<Rightarrow>
               (let w = hole_eval T (n_hole n) (n_phys n) as
                in Some (w_encl w, (fadd RNear (fst st1) (w_residual w), snd st1))))
      | KDisj \<Rightarrow>
          (case recs L B T (n_cands n) st of None \<Rightarrow> None
           | Some (cs, st1) \<Rightarrow> Some (bundle_hull cs, st1)))
      of None \<Rightarrow> None | Some (out, st1) \<Rightarrow> Some (out, push_trace n out st1))"
| "recs L B T [] st = Some ([], st)"
| "recs L B T (n # ns) st =
     (case rec L B T n st of None \<Rightarrow> None
      | Some (a, st1) \<Rightarrow>
          (case recs L B T ns st1 of None \<Rightarrow> None | Some (as, st2) \<Rightarrow> Some (a # as, st2)))"
  by pat_completeness auto

termination rec
  by (relation "measure (\<lambda>x. case x of Inl (_, _, _, n, _) \<Rightarrow> size n | Inr (_, _, _, ns, _) \<Rightarrow> size_list size ns)")
    (auto simp: node_children_size)

declare rec.simps [simp del]

definition eval_ival :: "libm \<Rightarrow> node \<Rightarrow> box \<Rightarrow> hole_table \<Rightarrow> double \<Rightarrow> (ival \<times> double) option" where
  "eval_ival L n B T res = map_option (\<lambda>(i, st). (i, fst st)) (rec L B T n (res, None))"

definition eval :: "libm \<Rightarrow> prog \<Rightarrow> eval_result option" where
  "eval L p =
     (case rec L (p_box p) (p_holes p) (p_root p) (Fin 0, Some []) of
        None \<Rightarrow> None
      | Some (i, st) \<Rightarrow>
          Some \<lparr>ms = i, residual = fadd RNear (fst st) (p_ks p),
                r_trace = (case snd st of None \<Rightarrow> [] | Some tr \<Rightarrow> tr)\<rparr>)"

definition total_width :: "trace list \<Rightarrow> double" where
  "total_width t = foldl (\<lambda>w e. std_max w (t_width e)) (Fin 0) t"

section \<open>Affine evaluation\<close>

text \<open>The state is the residual and the counter of noise symbols.\<close>

type_synonym astate = "double \<times> int"

definition fresh :: "double \<Rightarrow> aff \<times> int \<Rightarrow> (aff \<times> astate)" where
  "fresh res an = (fst an, (res, snd an))"

fun aff_op :: "libm \<Rightarrow> op \<Rightarrow> aff list \<Rightarrow> astate \<Rightarrow> (aff \<times> astate) option" where
  "aff_op L Add (a # b # _) st = Some (aff_add a b, st)"
| "aff_op L Sub (a # b # _) st = Some (aff_sub a b, st)"
| "aff_op L Mul (a # b # _) st = Some (aff_mul a b, st)"
| "aff_op L Div (a # b # _) st = Some (fresh (fst st) (aff_div (snd st) a b))"
| "aff_op L Neg (a # _) st = Some (aff_neg a, st)"
| "aff_op L o' as st =
     (if o' \<in> {Add, Sub, Mul, Div, Neg} then None
      else map_option (\<lambda>i. fresh (fst st) (aff_from_ival (snd st) i)) (apply_op L o' (map aff_to_ival as)))"

text \<open>
  Operators and functions pass the running residual to their arguments; the arguments of a hole
  and the candidates of a disjunction start from zero, and the candidates' residuals are dropped.
\<close>

function arec :: "libm \<Rightarrow> (string, aff) omap \<Rightarrow> hole_table \<Rightarrow> node \<Rightarrow> astate \<Rightarrow> (aff \<times> astate) option"
and arecs :: "libm \<Rightarrow> (string, aff) omap \<Rightarrow> hole_table \<Rightarrow> node list \<Rightarrow> astate \<Rightarrow> (aff list \<times> astate) option"
and arecs0 :: "libm \<Rightarrow> (string, aff) omap \<Rightarrow> hole_table \<Rightarrow> bool \<Rightarrow> node list \<Rightarrow> astate \<Rightarrow> (ival list \<times> astate) option" where
  "arec L E T n st =
     (case n_kind n of
        KConst \<Rightarrow> Some (aff_const (n_val n), st)
      | KVar \<Rightarrow>
          (case mget E (n_sym n) of Some a \<Rightarrow> Some (a, st)
           | None \<Rightarrow> Some (fresh (fst st) (aff_from_ival (snd st) (n_phys n))))
      | KOper \<Rightarrow>
          (case arecs L E T (n_args n) st of None \<Rightarrow> None
           | Some (as, st1) \<Rightarrow> aff_op L (n_op n) as st1)
      | KHole \<Rightarrow>
          (case arecs0 L E T True (n_args n) st of None \<Rightarrow> None
           | Some (as, st1) \<Rightarrow>
               (let w = hole_eval T (n_hole n) (n_phys n) as
                in Some (fresh (fadd RNear (fst st1) (w_residual w)) (aff_from_ival (snd st1) (w_encl w)))))
      | KDisj \<Rightarrow>
          (case arecs0 L E T False (n_cands n) st of None \<Rightarrow> None
           | Some (cs, st1) \<Rightarrow> Some (fresh (fst st1) (aff_from_ival (snd st1) (bundle_hull cs))))
      | KCall \<Rightarrow>
          (case arecs L E T (n_args n) st of None \<Rightarrow> None
           | Some (as, st1) \<Rightarrow>
               Some (fresh (fst st1) (aff_from_ival (snd st1) (call_fn (n_fn n) (map aff_to_ival as))))))"
| "arecs L E T [] st = Some ([], st)"
| "arecs L E T (n # ns) st =
     (case arec L E T n st of None \<Rightarrow> None
      | Some (a, st1) \<Rightarrow>
          (case arecs L E T ns st1 of None \<Rightarrow> None | Some (as, st2) \<Rightarrow> Some (a # as, st2)))"
| "arecs0 L E T keep [] st = Some ([], st)"
| "arecs0 L E T keep (n # ns) st =
     (case arec L E T n (Fin 0, snd st) of None \<Rightarrow> None
      | Some (a, st1) \<Rightarrow>
          (case arecs0 L E T keep ns (if keep then fadd RNear (fst st) (fst st1) else fst st, snd st1) of
             None \<Rightarrow> None
           | Some (as, st2) \<Rightarrow> Some (aff_to_ival a # as, st2)))"
  by pat_completeness auto

termination arec
  by (relation "measure (\<lambda>x. case x of Inl (_, _, _, n, _) \<Rightarrow> size n
      | Inr (Inl (_, _, _, ns, _)) \<Rightarrow> size_list size ns | Inr (Inr (_, _, _, _, ns, _)) \<Rightarrow> size_list size ns)")
    (auto simp: node_children_size)

declare arec.simps [simp del]

definition eval_aff :: "libm \<Rightarrow> node \<Rightarrow> (string, aff) omap \<Rightarrow> hole_table \<Rightarrow> astate \<Rightarrow> (ival \<times> astate) option" where
  "eval_aff L n E T st = map_option (\<lambda>(a, st1). (aff_to_ival a, st1)) (arec L E T n st)"

section \<open>The meaning of a node\<close>

text \<open>The real function of an operator, where it is defined.\<close>

fun op_real :: "op \<Rightarrow> real list \<Rightarrow> real option" where
  "op_real Add [x, y] = Some (x + y)"
| "op_real Sub [x, y] = Some (x - y)"
| "op_real Mul [x, y] = Some (x * y)"
| "op_real Div [x, y] = (if y = 0 then None else Some (x / y))"
| "op_real Neg [x] = Some (- x)"
| "op_real Pow [x, y] =
     (if y = of_int \<lfloor>y\<rfloor> then (if x = 0 \<and> y < 0 then None else Some (x powi \<lfloor>y\<rfloor>))
      else if 0 < x then Some (x powr y) else None)"
| "op_real Sqrt [x] = (if 0 \<le> x then Some (sqrt x) else None)"
| "op_real Log [x] = (if 0 < x then Some (ln x) else None)"
| "op_real Exp [x] = Some (exp x)"
| "op_real Sin [x] = Some (sin x)"
| "op_real Cos [x] = Some (cos x)"
| "op_real Tan [x] = (if cos x = 0 then None else Some (tan x))"
| "op_real _ _ = None"

definition fn_real :: "string \<Rightarrow> real list \<Rightarrow> real option" where
  "fn_real f xs =
     (if f = ''max'' \<and> length xs = 2 then Some (max (xs ! 0) (xs ! 1))
      else if f = ''min'' \<and> length xs = 2 then Some (min (xs ! 0) (xs ! 1))
      else if f = ''abs'' \<and> length xs = 1 then Some \<bar>xs ! 0\<bar> else None)"

text \<open>
  A node denotes reals under an assignment of the variables and a function per hole. A
  disjunction denotes what any of its candidates denotes; a function the program does not know
  denotes nothing.
\<close>

inductive denotes :: "(string \<Rightarrow> real) \<Rightarrow> (string \<Rightarrow> real list \<Rightarrow> real) \<Rightarrow> node \<Rightarrow> real \<Rightarrow> bool"
  for \<rho> :: "string \<Rightarrow> real" and H :: "string \<Rightarrow> real list \<Rightarrow> real" where
  den_const: "n_kind n = KConst \<Longrightarrow> is_fin (n_val n) \<Longrightarrow> denotes \<rho> H n (fval (n_val n))"
| den_var: "n_kind n = KVar \<Longrightarrow> denotes \<rho> H n (\<rho> (n_sym n))"
| den_oper: "n_kind n = KOper \<Longrightarrow> list_all2 (denotes \<rho> H) (n_args n) xs \<Longrightarrow> op_real (n_op n) xs = Some y \<Longrightarrow>
    denotes \<rho> H n y"
| den_call: "n_kind n = KCall \<Longrightarrow> list_all2 (denotes \<rho> H) (n_args n) xs \<Longrightarrow> fn_real (n_fn n) xs = Some y \<Longrightarrow>
    denotes \<rho> H n y"
| den_hole: "n_kind n = KHole \<Longrightarrow> list_all2 (denotes \<rho> H) (n_args n) xs \<Longrightarrow> denotes \<rho> H n (H (n_hole n) xs)"
| den_disj: "n_kind n = KDisj \<Longrightarrow> c \<in> set (n_cands n) \<Longrightarrow> denotes \<rho> H c y \<Longrightarrow> denotes \<rho> H n y"

inductive_cases denotes_cases: "denotes \<rho> H n y"

section \<open>Where each step encloses\<close>

text \<open>The mathematical library meets its specification.\<close>

definition libm_ok :: "libm \<Rightarrow> bool" where
  "libm_ok L \<longleftrightarrow> exp_ok L \<and> log_ok L"

text \<open>
  The check on the operands of an operator: finite operands of products, quotients and powers,
  an integer exponent, no overflow of the exponential at the lower end. Sine, cosine and tangent
  count where the result is the whole range.
\<close>

fun op_rig :: "libm \<Rightarrow> op \<Rightarrow> ival list \<Rightarrow> bool" where
  "op_rig L Mul (a # b # _) = (ifin a \<and> ifin b)"
| "op_rig L Div (a # b # _) = (ifin a \<and> ifin b)"
| "op_rig L Pow (a # b # _) =
     (let p = \<lfloor>fval (lo b)\<rfloor>
      in ifin b \<and> fval (lo b) = fval (hi b) \<and> feq (ffloor (lo b)) (lo b) \<and> flt (fabs (lo b)) (Fin 1000000000)
         \<and> pow_fin (point (Fin 1)) a (nat \<bar>p\<bar>) \<and> (if p < 0 then ifin (ipow_pos a (nat (- p))) else True))"
| "op_rig L Exp (a # _) = (l_exp L (lo a) \<noteq> PInf)"
| "op_rig L Log (a # _) =
     ((if 0 < fval (lo a) then is_fin (l_log L (lo a)) else True)
      \<and> (if is_fin (hi a) then is_fin (l_log L (hi a)) else True))"
| "op_rig L Sin (a # _) = (fle (lo (isin L a)) (Fin (- 1)) \<and> fle (Fin 1) (hi (isin L a)))"
| "op_rig L Cos (a # _) = (fle (lo (icos L a)) (Fin (- 1)) \<and> fle (Fin 1) (hi (icos L a)))"
| "op_rig L Tan (a # _) = is_entire (itan L a)"
| "op_rig L _ _ = True"

lemma ffloor_eq: "is_fin d \<Longrightarrow> feq (ffloor d) d \<Longrightarrow> fval d = of_int \<lfloor>fval d\<rfloor>"
  by (cases d) (auto split: if_splits)

lemma below_minus_one: "fle d (Fin (- 1)) \<Longrightarrow> - 1 \<le> x \<Longrightarrow> below d x"
  by (cases d) auto

lemma above_one: "fle (Fin 1) d \<Longrightarrow> x \<le> 1 \<Longrightarrow> above d x"
  by (cases d) auto

lemma rpow_incl:
  assumes "op_rig L Pow [a, b]" "imem x a" "imem y b"
  shows "y = of_int \<lfloor>y\<rfloor> \<and> imem (x powi \<lfloor>y\<rfloor>) (rpow L a (lo b))"
proof -
  have b: "ifin b" "fval (lo b) = fval (hi b)" "feq (ffloor (lo b)) (lo b)" "flt (fabs (lo b)) (Fin 1000000000)"
    using assms(1) by (auto simp: Let_def)
  have y: "y = fval (lo b)" using assms(3) b(1,2) by (simp add: imem_fin)
  have i: "fval (lo b) = of_int \<lfloor>fval (lo b)\<rfloor>" using b(1,3) by (intro ffloor_eq) (simp_all add: ifin_def)
  have "imem (x powi \<lfloor>fval (lo b)\<rfloor>) (ipow a \<lfloor>fval (lo b)\<rfloor>)"
    using assms(1,2) by (intro ipow_incl) (auto simp: Let_def)
  then show ?thesis using i y b(3,4) imem_not_empty[OF assms(2)] by (simp add: rpow_def)
qed

lemma isin_range: "op_rig L Sin [a] \<Longrightarrow> imem (sin x) (isin L a)"
  by (intro imemI) (auto intro: below_minus_one above_one)

lemma icos_range: "op_rig L Cos [a] \<Longrightarrow> imem (cos x) (icos L a)"
  by (intro imemI) (auto intro: below_minus_one above_one)

lemma apply2_incl:
  assumes "op_rig L o' [a, b]" "imem x a" "imem z b" "op_real o' [x, z] = Some y" "apply_op L o' [a, b] = Some i"
  shows "imem y i"
proof (cases "o' = Pow")
  case True
  have "op_rig L Pow [a, b]" using assms(1) True by simp
  from rpow_incl[OF this assms(2,3)] show ?thesis using assms(4,5) True by (auto split: if_splits)
next
  case False
  then show ?thesis using assms by (cases o') (auto split: if_splits intro: encl)
qed

lemma apply1_incl:
  assumes "libm_ok L" "op_rig L o' [a]" "imem x a" "op_real o' [x] = Some y" "apply_op L o' [a] = Some i"
  shows "imem y i"
  using assms isin_range[of L a x] icos_range[of L a x]
  by (cases o') (auto simp: libm_ok_def is_entire_eq split: if_splits intro: encl)

lemma op_real_length: "op_real o' xs = Some y \<Longrightarrow> (\<exists>x. xs = [x]) \<or> (\<exists>x z. xs = [x, z])"
  by (cases "(o', xs)" rule: op_real.cases) auto

lemma apply_op_incl:
  assumes "libm_ok L" "op_rig L o' as" "list_all2 imem xs as" "op_real o' xs = Some y" "apply_op L o' as = Some i"
  shows "imem y i"
  using op_real_length[OF assms(4)]
proof
  assume "\<exists>x. xs = [x]"
  then obtain x a where "xs = [x]" "as = [a]" "imem x a" using assms(3) by (auto simp: list_all2_Cons1)
  then show ?thesis using apply1_incl assms by blast
next
  assume "\<exists>x z. xs = [x, z]"
  then obtain x z a b where "xs = [x, z]" "as = [a, b]" "imem x a" "imem z b"
    using assms(3) by (auto simp: list_all2_Cons1)
  then show ?thesis using apply2_incl assms by blast
qed

lemma ival_of_incl: "below l x \<Longrightarrow> above h x \<Longrightarrow> imem x (ival_of l h)"
  using below_above_le[of l x h] by (simp add: ival_of_def imem_def)

lemma below_fabs: "is_fin d \<Longrightarrow> fval (fabs d) = \<bar>fval d\<bar> \<and> is_fin (fabs d)"
  by (cases d) auto

lemma max_incl: "imem x a \<Longrightarrow> imem z b \<Longrightarrow> imem (max x z) (ival_of (std_max (lo a) (lo b)) (std_max (hi a) (hi b)))"
  using imem_nonan[of x a] imem_nonan[of z b]
  by (intro ival_of_incl std_max_below std_max_above)
    (auto simp: imem_def nonan_def max_def intro: below_mono above_mono)

lemma min_incl: "imem x a \<Longrightarrow> imem z b \<Longrightarrow> imem (min x z) (ival_of (std_min (lo a) (lo b)) (std_min (hi a) (hi b)))"
  using imem_nonan[of x a] imem_nonan[of z b]
  by (intro ival_of_incl std_min_below std_min_above)
    (auto simp: imem_def nonan_def min_def intro: below_mono above_mono)

lemma abs_incl:
  assumes "imem x a"
  shows "imem \<bar>x\<bar> (ival_of (if fle (lo a) (Fin 0) \<and> fle (Fin 0) (hi a) then Fin 0
      else std_min (fabs (lo a)) (fabs (hi a))) (mag a))"
proof (rule ival_of_incl)
  have b: "below (lo a) x" "above (hi a) x" using assms by (simp_all add: imem_def)
  show "below (if fle (lo a) (Fin 0) \<and> fle (Fin 0) (hi a) then Fin 0 else std_min (fabs (lo a)) (fabs (hi a))) \<bar>x\<bar>"
    using b by (cases "lo a"; cases "hi a") (auto simp: std_min_def)
  show "above (mag a) \<bar>x\<bar>"
    using b imem_not_empty[OF assms] by (cases "lo a"; cases "hi a") (auto simp: mag_def std_max_def)
qed

lemma call_fn_incl:
  assumes "list_all2 imem xs as" "fn_real f xs = Some y"
  shows "imem y (call_fn f as)"
proof -
  consider x z where "xs = [x, z]" "f = ''max''" "y = max x z" | x z where "xs = [x, z]" "f = ''min''" "y = min x z"
    | x where "xs = [x]" "f = ''abs''" "y = \<bar>x\<bar>"
    using assms(2) by (auto simp: fn_real_def length_Suc_conv numeral_2_eq_2 split: if_splits)
  then show ?thesis
  proof cases
    case 1
    then obtain a b where "as = [a, b]" "imem x a" "imem z b" using assms(1) by (auto simp: list_all2_Cons1)
    then show ?thesis using 1 max_incl by (simp add: call_fn_def)
  next
    case 2
    then obtain a b where "as = [a, b]" "imem x a" "imem z b" using assms(1) by (auto simp: list_all2_Cons1)
    then show ?thesis using 2 min_incl by (simp add: call_fn_def)
  next
    case 3
    then obtain a where "as = [a]" "imem x a" using assms(1) by (auto simp: list_all2_Cons1)
    then show ?thesis using 3 abs_incl by (simp add: call_fn_def Let_def)
  qed
qed

section \<open>The enclosure does not depend on the running state\<close>

definition encls_of :: "libm \<Rightarrow> box \<Rightarrow> hole_table \<Rightarrow> node list \<Rightarrow> ival list option" where
  "encls_of L B T ns = map_option fst (recs L B T ns (Fin 0, None))"

lemma rec_stateless:
  "map_option fst (rec L B T n st) = map_option fst (rec L B T n st0)"
  "map_option fst (recs L B T ns st) = map_option fst (recs L B T ns st0)"
proof (induction L B T n st and L B T ns st arbitrary: st0 and st0 rule: rec_recs.induct)
  case (1 L B T n st)
  show ?case
  proof (cases "n_kind n")
    case KOper
    then show ?thesis using "1.IH"(1)[OF KOper, of st0]
      by (subst (1 2) rec.simps) (auto split: option.splits)
  next
    case KCall
    then show ?thesis using "1.IH"(2)[OF KCall, of st0]
      by (subst (1 2) rec.simps) (auto split: option.splits)
  next
    case KHole
    then show ?thesis using "1.IH"(3)[OF KHole, of st0]
      by (subst (1 2) rec.simps) (auto simp: Let_def split: option.splits)
  next
    case KDisj
    then show ?thesis using "1.IH"(4)[OF KDisj, of st0]
      by (subst (1 2) rec.simps) (auto split: option.splits)
  qed (subst (1 2) rec.simps; simp)+
next
  case (3 L B T n ns st)
  show ?case
  proof (cases "rec L B T n st")
    case None
    then show ?thesis using "3.IH"(1)[of st0] by simp
  next
    case (Some p)
    obtain a st1 where p: "p = (a, st1)" by (cases p)
    obtain st1' where r: "rec L B T n st0 = Some (a, st1')" using "3.IH"(1)[of st0] Some p by (cases "rec L B T n st0") auto
    then show ?thesis using Some p "3.IH"(2)[OF Some p[symmetric], of st1']
      by (cases "recs L B T ns st1'") (auto split: option.splits)
  qed
qed simp_all

lemma recs_encls: "recs L B T ns st = Some (as, st1) \<Longrightarrow> encls_of L B T ns = Some as"
  using rec_stateless(2)[of L B T ns "(Fin 0, None)" st] by (simp add: encls_of_def)

lemma recs_each: "recs L B T ns st = Some (as, st1) \<Longrightarrow>
    list_all2 (\<lambda>n a. \<exists>st st'. rec L B T n st = Some (a, st')) ns as"
proof (induction ns arbitrary: st as st1)
  case (Cons n ns)
  obtain a st2 as' where r: "rec L B T n st = Some (a, st2)" "recs L B T ns st2 = Some (as', st1)" "as = a # as'"
    using Cons.prems by (auto split: option.splits)
  have "\<exists>st st'. rec L B T n st = Some (a, st')" using r(1) by blast
  with Cons.IH[OF r(2)] show ?case unfolding r(3) list_all2_Cons by (rule conjI[rotated])
qed simp
section \<open>Soundness\<close>

text \<open>Every operator of the program passes \<open>op_rig\<close> on the enclosures of its arguments.\<close>

fun rigorous :: "libm \<Rightarrow> box \<Rightarrow> hole_table \<Rightarrow> node \<Rightarrow> bool" where
  "rigorous L B T (Node k o' v s f hl r a d p as cs h) =
     (list_all (rigorous L B T) as \<and> list_all (rigorous L B T) cs
      \<and> (if k = KOper then (case encls_of L B T as of None \<Rightarrow> False | Some is \<Rightarrow> op_rig L o' is) else True)
      \<and> (if k = KDisj then (case encls_of L B T cs of None \<Rightarrow> False | Some is \<Rightarrow> list_all nonan is) else True))"

text \<open>The assignment is in the box, or in the physical range of a variable the box omits.\<close>

fun env_in :: "(string \<Rightarrow> real) \<Rightarrow> box \<Rightarrow> node \<Rightarrow> bool" where
  "env_in \<rho> B (Node k o' v s f hl r a d p as cs h) =
     (list_all (env_in \<rho> B) as \<and> list_all (env_in \<rho> B) cs
      \<and> (if k = KVar then imem (\<rho> s) (case mget B s of Some i \<Rightarrow> i | None \<Rightarrow> p) else True))"

text \<open>The answers of the hole table enclose the functions of the holes.\<close>

definition hole_sound :: "(string \<Rightarrow> real list \<Rightarrow> real) \<Rightarrow> hole_table \<Rightarrow> string \<Rightarrow> ival \<Rightarrow> bool" where
  "hole_sound H T i p \<longleftrightarrow>
     (\<forall>is xs. list_all2 imem xs is \<longrightarrow> imem (H i xs) (w_encl (hole_eval T i p is)))"

fun holes_sound :: "(string \<Rightarrow> real list \<Rightarrow> real) \<Rightarrow> hole_table \<Rightarrow> node \<Rightarrow> bool" where
  "holes_sound H T (Node k o' v s f hl r a d p as cs h) =
     (list_all (holes_sound H T) as \<and> list_all (holes_sound H T) cs
      \<and> (if k = KHole then hole_sound H T hl p else True))"

lemma rec_pushE:
  assumes "rec L B T n st = Some (i, st')"
  shows "n_kind n = KConst \<Longrightarrow> i = point (n_val n)"
    and "n_kind n = KVar \<Longrightarrow> i = var_ival B n"
    and "n_kind n = KOper \<Longrightarrow> \<exists>as st1. recs L B T (n_args n) st = Some (as, st1) \<and> apply_op L (n_op n) as = Some i"
    and "n_kind n = KCall \<Longrightarrow> \<exists>as st1. recs L B T (n_args n) st = Some (as, st1) \<and> i = call_fn (n_fn n) as"
    and "n_kind n = KHole \<Longrightarrow> \<exists>as st1. recs L B T (n_args n) st = Some (as, st1) \<and>
           i = w_encl (hole_eval T (n_hole n) (n_phys n) as)"
    and "n_kind n = KDisj \<Longrightarrow> \<exists>cs st1. recs L B T (n_cands n) st = Some (cs, st1) \<and> i = bundle_hull cs"
  using assms by (subst (asm) rec.simps; force simp: Let_def split: option.splits)+

lemmas node_conds = rigorous.simps env_in.simps holes_sound.simps

definition encloses :: "libm \<Rightarrow> box \<Rightarrow> hole_table \<Rightarrow> (string \<Rightarrow> real) \<Rightarrow> (string \<Rightarrow> real list \<Rightarrow> real) \<Rightarrow> node \<Rightarrow> real \<Rightarrow> bool" where
  "encloses L B T \<rho> H n y \<longleftrightarrow>
     (rigorous L B T n \<and> env_in \<rho> B n \<and> holes_sound H T n \<longrightarrow>
      (\<forall>st i st'. rec L B T n st = Some (i, st') \<longrightarrow> imem y i))"

lemma args_enclosed:
  assumes "list_all2 (encloses L B T \<rho> H) ns xs" "recs L B T ns st = Some (as, st1)"
    and "list_all (rigorous L B T) ns" "list_all (env_in \<rho> B) ns" "list_all (holes_sound H T) ns"
  shows "list_all2 imem xs as"
proof -
  note e = recs_each[OF assms(2)]
  have "length xs = length ns" "length as = length ns" using assms(1) e by (auto dest: list_all2_lengthD)
  moreover have "imem (xs ! i) (as ! i)" if i: "i < length ns" for i
  proof -
    have "encloses L B T \<rho> H (ns ! i) (xs ! i)" using assms(1) i by (rule list_all2_nthD)
    moreover obtain st st' where "rec L B T (ns ! i) st = Some (as ! i, st')" using list_all2_nthD[OF e i] by blast
    ultimately show ?thesis using assms(3-5) i unfolding encloses_def list_all_length by blast
  qed
  ultimately show ?thesis by (simp add: list_all2_conv_all_nth)
qed

lemma node_parts:
  "rigorous L B T n \<Longrightarrow> list_all (rigorous L B T) (n_args n) \<and> list_all (rigorous L B T) (n_cands n)"
  "env_in \<rho> B n \<Longrightarrow> list_all (env_in \<rho> B) (n_args n) \<and> list_all (env_in \<rho> B) (n_cands n)"
  "holes_sound H T n \<Longrightarrow> list_all (holes_sound H T) (n_args n) \<and> list_all (holes_sound H T) (n_cands n)"
  by (cases n; simp)+

lemma node_part_oper: "rigorous L B T n \<Longrightarrow> n_kind n = KOper \<Longrightarrow> encls_of L B T (n_args n) = Some is \<Longrightarrow> op_rig L (n_op n) is"
  by (cases n) simp

lemma node_part_disj: "rigorous L B T n \<Longrightarrow> n_kind n = KDisj \<Longrightarrow> encls_of L B T (n_cands n) = Some is \<Longrightarrow> list_all nonan is"
  by (cases n) simp

lemma node_part_var: "env_in \<rho> B n \<Longrightarrow> n_kind n = KVar \<Longrightarrow> imem (\<rho> (n_sym n)) (var_ival B n)"
  by (cases n) (simp add: var_ival_def split: option.splits)

lemma node_part_hole: "holes_sound H T n \<Longrightarrow> n_kind n = KHole \<Longrightarrow> hole_sound H T (n_hole n) (n_phys n)"
  by (cases n) simp

lemma rec_encloses:
  assumes "libm_ok L" "denotes \<rho> H n y"
  shows "encloses L B T \<rho> H n y"
  using assms(2)
proof (induction rule: denotes.induct)
  case (den_const n)
  then show ?case by (auto simp: encloses_def imem_point dest!: rec_pushE(1))
next
  case (den_var n)
  then show ?case by (auto simp: encloses_def dest!: rec_pushE(2) node_part_var)
next
  case (den_oper n xs y)
  show ?case
    unfolding encloses_def
  proof (intro impI allI)
    fix st i st'
    assume c: "rigorous L B T n \<and> env_in \<rho> B n \<and> holes_sound H T n" and r: "rec L B T n st = Some (i, st')"
    obtain as st1 where as: "recs L B T (n_args n) st = Some (as, st1)" "apply_op L (n_op n) as = Some i"
      using rec_pushE(3)[OF r den_oper.hyps(1)] by blast
    have "list_all2 imem xs as"
      using args_enclosed[OF _ as(1)] den_oper.IH c node_parts(1-3) by (blast intro: list_all2_mono)
    then show "imem y i"
      using apply_op_incl[OF assms(1) node_part_oper[OF _ den_oper.hyps(1) recs_encls[OF as(1)]] _ den_oper.hyps(2) as(2)] c
      by blast
  qed
next
  case (den_call n xs y)
  show ?case
    unfolding encloses_def
  proof (intro impI allI)
    fix st i st'
    assume c: "rigorous L B T n \<and> env_in \<rho> B n \<and> holes_sound H T n" and r: "rec L B T n st = Some (i, st')"
    obtain as st1 where as: "recs L B T (n_args n) st = Some (as, st1)" "i = call_fn (n_fn n) as"
      using rec_pushE(4)[OF r den_call.hyps(1)] by blast
    have "list_all2 imem xs as"
      using args_enclosed[OF _ as(1)] den_call.IH c node_parts(1-3) by (blast intro: list_all2_mono)
    then show "imem y i" using call_fn_incl[OF _ den_call.hyps(2)] as(2) by blast
  qed
next
  case (den_hole n xs)
  show ?case
    unfolding encloses_def
  proof (intro impI allI)
    fix st i st'
    assume c: "rigorous L B T n \<and> env_in \<rho> B n \<and> holes_sound H T n" and r: "rec L B T n st = Some (i, st')"
    obtain as st1 where as: "recs L B T (n_args n) st = Some (as, st1)"
        "i = w_encl (hole_eval T (n_hole n) (n_phys n) as)"
      using rec_pushE(5)[OF r den_hole.hyps(1)] by blast
    have "list_all2 imem xs as"
      using args_enclosed[OF _ as(1)] den_hole.IH c node_parts(1-3) by (blast intro: list_all2_mono)
    then show "imem (H (n_hole n) xs) i"
      using node_part_hole[OF _ den_hole.hyps(1)] c unfolding as(2) hole_sound_def by blast
  qed
next
  case (den_disj n c y)
  show ?case
    unfolding encloses_def
  proof (intro impI allI)
    fix st i st'
    assume p: "rigorous L B T n \<and> env_in \<rho> B n \<and> holes_sound H T n" and r: "rec L B T n st = Some (i, st')"
    obtain cs st1 where cs: "recs L B T (n_cands n) st = Some (cs, st1)" "i = bundle_hull cs"
      using rec_pushE(6)[OF r den_disj.hyps(1)] by blast
    obtain k where k: "k < length (n_cands n)" "n_cands n ! k = c"
      using den_disj.hyps(2) by (auto simp: in_set_conv_nth)
    note e = recs_each[OF cs(1)]
    obtain s s' where "rec L B T c s = Some (cs ! k, s')" using list_all2_nthD[OF e k(1)] k(2) by blast
    moreover have "rigorous L B T c" "env_in \<rho> B c" "holes_sound H T c"
      using p den_disj.hyps(2) node_parts(1)[of L B T n] node_parts(2)[of \<rho> B n] node_parts(3)[of H T n]
      unfolding list_all_iff by blast+
    ultimately have "imem y (cs ! k)" using den_disj.IH unfolding encloses_def by blast
    moreover have "list_all nonan cs" using node_part_disj[OF _ den_disj.hyps(1) recs_encls[OF cs(1)]] p by blast
    ultimately show "imem y i"
      using k(1) list_all2_lengthD[OF e] unfolding cs(2) by (intro bundle_hull_incl[of cs "cs ! k"]) simp_all
  qed
qed

end
