(* ===== verification/Fve_Verifier.thy ===== *)
theory Fve_Verifier
  imports Fve_Enclosure
begin

text \<open>
  The decision of \<open>core/verifier\<close>: SAFE when the enclosure less the residual is positive, FAIL when
  the enclosure plus the residual is negative, ABSTAIN otherwise. The lemmas state that the two
  verdicts are sound for every value the program denotes, where the evaluation is rigorous, and
  that an infinite endpoint in a product makes a false SAFE possible.
\<close>

datatype verdict = Safe | Fail | Abstain

fun verdict_name :: "verdict \<Rightarrow> string" where
  "verdict_name Safe = ''SAFE''"
| "verdict_name Fail = ''FAIL''"
| "verdict_name Abstain = ''ABSTAIN''"

definition decide :: "double \<Rightarrow> double \<Rightarrow> double \<Rightarrow> verdict" where
  "decide ms_lo ms_hi res =
     (if ms_lo = NaN \<or> ms_hi = NaN then Abstain
      else if is_inf ms_lo \<or> is_inf ms_hi then Abstain
      else if flt res (Fin 0) then Abstain
      else let lower = fsub RNear ms_lo res; upper = fadd RNear ms_hi res
           in if flt (Fin 0) lower then Safe else if flt upper (Fin 0) then Fail else Abstain)"

definition decide_eval :: "eval_result \<Rightarrow> verdict" where
  "decide_eval r =
     (if is_empty (ms r) \<or> is_entire (ms r) then Abstain
      else decide (lo (ms r)) (hi (ms r)) (residual r))"

section \<open>Soundness of the verdicts\<close>

lemma finite_iff: "is_fin d \<longleftrightarrow> d \<noteq> NaN \<and> \<not> is_inf d"
  by (cases d) auto

lemma fadd_neg_sum: "is_fin a \<Longrightarrow> is_fin b \<Longrightarrow> flt (fadd m a b) (Fin 0) \<Longrightarrow> fval a + fval b < 0"
  using fadd_fin[of a b m] fadd_cancel[of a b m] fround_neg[of m "fval a + fval b"]
  by (cases "fval a + fval b = 0") (auto simp: flt_fin)

lemma decide_safe:
  assumes "decide l h r = Safe"
  shows "is_fin l" "is_fin h" "is_fin r" "0 \<le> fval r" "0 < fval l - fval r"
proof -
  have d: "is_fin l" "is_fin h" "\<not> flt r (Fin 0)" "flt (Fin 0) (fsub RNear l r)"
    using assms by (auto simp: decide_def finite_iff Let_def split: if_splits)
  show "is_fin l" "is_fin h" using d by simp_all
  show r: "is_fin r"
    using d(1,3,4) by (cases r; cases l) (auto simp: fsub_def)
  show "0 \<le> fval r" using d(3) r by (cases r) auto
  show "0 < fval l - fval r" using fadd_pos[of l "fneg r" RNear] d(1,4) r by (simp add: fsub_def)
qed

lemma decide_fail:
  assumes "decide l h r = Fail"
  shows "is_fin l" "is_fin h" "is_fin r" "0 \<le> fval r" "fval h + fval r < 0"
proof -
  have d: "is_fin l" "is_fin h" "\<not> flt r (Fin 0)" "flt (fadd RNear h r) (Fin 0)"
    using assms by (auto simp: decide_def finite_iff Let_def split: if_splits)
  show "is_fin l" "is_fin h" using d by simp_all
  show r: "is_fin r"
    using d(2-4) by (cases r; cases h) auto
  show "0 \<le> fval r" using d(3) r by (cases r) auto
  show "fval h + fval r < 0" using fadd_neg_sum[OF d(2) r d(4)] .
qed

text \<open>A value within the residual of a real in the enclosure has the sign of the verdict.\<close>

lemma decide_sound:
  assumes "imem x i" "\<bar>t - x\<bar> \<le> fval r"
  shows "decide (lo i) (hi i) r = Safe \<Longrightarrow> 0 < t" "decide (lo i) (hi i) r = Fail \<Longrightarrow> t < 0"
proof -
  assume "decide (lo i) (hi i) r = Safe"
  note d = decide_safe[OF this]
  have "fval (lo i) \<le> x" using assms(1) d(1,2) by (simp add: imem_def below_fin)
  then show "0 < t" using d(5) assms(2) by linarith
next
  assume "decide (lo i) (hi i) r = Fail"
  note d = decide_fail[OF this]
  have "x \<le> fval (hi i)" using assms(1) d(1,2) by (simp add: imem_def above_fin)
  then show "t < 0" using d(5) assms(2) by linarith
qed

lemma decide_eval_sound:
  assumes "imem x (ms r)" "\<bar>t - x\<bar> \<le> fval (residual r)"
  shows "decide_eval r = Safe \<Longrightarrow> 0 < t" "decide_eval r = Fail \<Longrightarrow> t < 0"
  using decide_sound[OF assms] by (auto simp: decide_eval_def split: if_splits)

definition prog_rigorous :: "libm \<Rightarrow> prog \<Rightarrow> bool" where
  "prog_rigorous L p = rigorous L (p_box p) (p_holes p) (p_root p)"

definition prog_value :: "prog \<Rightarrow> (string \<Rightarrow> real) \<Rightarrow> (string \<Rightarrow> real list \<Rightarrow> real) \<Rightarrow> real \<Rightarrow> bool" where
  "prog_value p \<rho> H y \<longleftrightarrow>
     env_in \<rho> (p_box p) (p_root p) \<and> holes_sound H (p_holes p) (p_root p) \<and> denotes \<rho> H (p_root p) y"

lemma eval_encloses:
  assumes "libm_ok L" "prog_rigorous L p" "prog_value p \<rho> H y" "eval L p = Some r"
  shows "imem y (ms r)"
proof -
  obtain i st where i: "rec L (p_box p) (p_holes p) (p_root p) (Fin 0, Some []) = Some (i, st)" "ms r = i"
    using assms(4) by (auto simp: eval_def split: option.splits)
  have "encloses L (p_box p) (p_holes p) \<rho> H (p_root p) y"
    using assms(1,3) by (intro rec_encloses) (simp_all add: prog_value_def)
  then have "imem y i" using i(1) assms(2,3) unfolding encloses_def prog_rigorous_def prog_value_def by blast
  then show ?thesis by (simp add: i(2))
qed

section \<open>A false verdict with infinite endpoints\<close>

text \<open>
  \<open>1 - x * y\<close> with \<open>x\<close> and \<open>y\<close> known only to be non-negative: the product of the two half lines
  is the point \<open>0\<close>, so the enclosure is the point \<open>1\<close> and the verdict is SAFE, while the value
  at \<open>x = y = 2\<close> is negative.
\<close>

definition half_line_prog :: prog where
  "half_line_prog =
     \<lparr>p_root = oper Sub [konst (Fin 1) dim_none, oper Mul [var ''x'' dim_none entire, var ''y'' dim_none entire]],
      p_box = [(''x'', nonneg), (''y'', nonneg)], p_holes = hole_empty, p_ks = Fin 0\<rparr>"

lemma constructor_sel [simp]:
  "n_kind (konst v d) = KConst" "n_val (konst v d) = v"
  "n_kind (var s d p) = KVar" "n_sym (var s d p) = s" "n_phys (var s d p) = p"
  "n_kind (oper o' as) = KOper" "n_op (oper o' as) = o'" "n_args (oper o' as) = as"
  "n_kind (call f as) = KCall" "n_fn (call f as) = f" "n_args (call f as) = as"
  "n_kind (hole i ar p rg as) = KHole" "n_hole (hole i ar p rg as) = i" "n_phys (hole i ar p rg as) = p"
  "n_args (hole i ar p rg as) = as" "n_regime (hole i ar p rg as) = rg"
  "n_kind (disj cs) = KDisj" "n_cands (disj cs) = cs"
  by (simp_all add: constructor_defs)

lemma sub_one_zero: "sub (point (Fin 1)) (point (Fin 0)) = point (Fin 1)"
  by (simp add: sub_def point_def is_empty_def fsub_def)

lemma half_line_eval:
  "\<exists>r. eval L half_line_prog = Some r \<and> ms r = point (Fin 1) \<and> residual r = Fin 0"
  by (simp add: eval_def half_line_prog_def rec.simps[of _ _ _ "oper _ _"] rec.simps[of _ _ _ "konst _ _"]
      rec.simps[of _ _ _ "var _ _ _"] var_ival_def mul_nonneg_nonneg push_trace_def sub_one_zero)

lemma half_line_value: "denotes (\<lambda>_. 2) H (p_root half_line_prog) (- 3)"
proof -
  have v: "denotes (\<lambda>_. 2) H (var s d p) 2" for s d p using den_var[of "var s d p" "\<lambda>_. 2" H] by simp
  have m: "denotes (\<lambda>_. 2) H (oper Mul [var ''x'' dim_none entire, var ''y'' dim_none entire]) 4"
    by (rule den_oper[of _ _ _ "[2, 2]"]) (simp_all add: v)
  have k: "denotes (\<lambda>_. 2) H (konst (Fin 1) dim_none) 1" using den_const[of "konst (Fin 1) dim_none"] by simp
  show ?thesis by (rule den_oper[of _ _ _ "[1, 4]"]) (simp_all add: half_line_prog_def k m)
qed

end
