(* ===== verification/Fve_Proof.thy ===== *)
theory Fve_Proof
  imports Fve_Verifier
begin

text \<open>
  The certificates of \<open>core/proof\<close>: built from a program and its evaluation, written to JSON,
  hashed, and validated without the program. The lemmas: a certificate with a verdict other than
  ABSTAIN validates when it is built, a validated verdict has the margin it claims, the text
  form reads back, and two valid certificates of one digest are equal or exhibit a collision.
\<close>

record certificate =
  program_hash :: digest
  ms_lo :: double
  ms_hi :: double
  c_residual :: double
  c_ks :: double
  c_method :: string
  c_regime :: char
  c_verdict :: verdict
  conditions :: "string list"
  c_digest :: digest

definition rg_of :: "eval_result \<Rightarrow> char" where
  "rg_of r = (if list_ex (\<lambda>t. t_holed t \<and> t_regime t = CHR ''B'') (r_trace r) then CHR ''B'' else CHR ''A'')"

definition cert_json :: "certificate \<Rightarrow> json" where
  "cert_json c = mkobj
     [(''program_hash'', JStr (hex (program_hash c))), (''ms_lo'', JNum (ms_lo c)),
      (''ms_hi'', JNum (ms_hi c)), (''residual'', JNum (c_residual c)), (''ks'', JNum (c_ks c)),
      (''method'', JStr (c_method c)), (''regime'', JStr [c_regime c]),
      (''verdict'', JStr (verdict_name (c_verdict c))), (''conditions'', JArr (map JStr (conditions c)))]"

definition cert_hash :: "certificate \<Rightarrow> digest" where
  "cert_hash c = sha256_str (dump (cert_json c))"

definition build_cert :: "prog \<Rightarrow> eval_result \<Rightarrow> string \<Rightarrow> certificate" where
  "build_cert p r method =
     (let v = decide_eval r;
          conds = map (\<lambda>t. ''regime_B_class_unrefuted:'' @ t_label t)
                    (filter (\<lambda>t. t_holed t \<and> t_regime t = CHR ''B'') (r_trace r))
                  @ (if v = Abstain then [''enclosure_too_wide_or_undecidable''] else []);
          c = \<lparr>program_hash = n_hash (p_root p), ms_lo = lo (ms r), ms_hi = hi (ms r),
               c_residual = residual r, c_ks = p_ks p, c_method = method, c_regime = rg_of r,
               c_verdict = v, conditions = conds, c_digest = zero_digest\<rparr>
      in c\<lparr>c_digest := cert_hash c\<rparr>)"

definition verdict_of :: "string \<Rightarrow> verdict" where
  "verdict_of s = (if s = ''SAFE'' then Safe else if s = ''FAIL'' then Fail else Abstain)"

definition cert_from_json :: "json \<Rightarrow> certificate" where
  "cert_from_json j =
     (let rg = jstr j ''regime'' ''A'';
          c = \<lparr>program_hash = from_hex (jstr j ''program_hash'' []), ms_lo = jn j ''ms_lo'' (Fin 0),
               ms_hi = jn j ''ms_hi'' (Fin 0), c_residual = jn j ''residual'' (Fin 0), c_ks = jn j ''ks'' (Fin 0),
               c_method = jstr j ''method'' [], c_regime = (if rg = [] then CHR ''A'' else rg ! 0),
               c_verdict = verdict_of (jstr j ''verdict'' []),
               conditions = map jstring (jarr (jat j ''conditions'')), c_digest = zero_digest\<rparr>
      in c\<lparr>c_digest := cert_hash c\<rparr>)"

definition validate :: "certificate \<Rightarrow> bool" where
  "validate c =
     (if cert_hash c \<noteq> c_digest c then False
      else if ms_lo c = NaN \<or> ms_hi c = NaN then False
      else if flt (c_residual c) (Fin 0) then False
      else if flt (ms_hi c) (ms_lo c) then False
      else let lower = fsub RNear (ms_lo c) (c_residual c); upper = fadd RNear (ms_hi c) (c_residual c)
           in case c_verdict c of Safe \<Rightarrow> flt (Fin 0) lower | Fail \<Rightarrow> flt upper (Fin 0) | Abstain \<Rightarrow> True)"

definition cert_dump :: "certificate \<Rightarrow> string" where
  "cert_dump c =
     dump (JObj (mput ''digest'' (JStr (hex (c_digest c))) (jobj (cert_json c))))"

section \<open>Validation\<close>

lemma cert_json_digest [simp]: "cert_json (c\<lparr>c_digest := d\<rparr>) = cert_json c"
  by (simp add: cert_json_def)

lemma cert_hash_digest [simp]: "cert_hash (c\<lparr>c_digest := d\<rparr>) = cert_hash c"
  by (simp add: cert_hash_def)

lemma build_cert_digest: "c_digest (build_cert p r m) = cert_hash (build_cert p r m)"
  unfolding build_cert_def Let_def cert_hash_digest by simp

lemma build_cert_sel:
  "ms_lo (build_cert p r m) = lo (ms r)" "ms_hi (build_cert p r m) = hi (ms r)"
  "c_residual (build_cert p r m) = residual r" "c_verdict (build_cert p r m) = decide_eval r"
  "program_hash (build_cert p r m) = n_hash (p_root p)"
  by (simp_all add: build_cert_def Let_def)

lemma decide_not_abstain:
  assumes "decide l h r \<noteq> Abstain"
  shows "l \<noteq> NaN" "h \<noteq> NaN" "\<not> flt r (Fin 0)"
    "decide l h r = Safe \<Longrightarrow> flt (Fin 0) (fsub RNear l r)" "decide l h r = Fail \<Longrightarrow> flt (fadd RNear h r) (Fin 0)"
  using assms by (auto simp: decide_def Let_def split: if_splits)

lemma validate_build: "decide_eval r \<noteq> Abstain \<Longrightarrow> validate (build_cert p r m)"
proof -
  assume a: "decide_eval r \<noteq> Abstain"
  then have e: "decide_eval r = decide (lo (ms r)) (hi (ms r)) (residual r)" "\<not> is_empty (ms r)"
    by (auto simp: decide_eval_def split: if_splits)
  note d = decide_not_abstain[OF a[unfolded e(1)]]
  show ?thesis using a d e
    by (cases "decide_eval r") (simp_all add: validate_def build_cert_sel build_cert_digest is_empty_def Let_def)
qed

text \<open>What a validated verdict says about the numbers in the certificate.\<close>

lemma validate_margin:
  assumes "validate c" "is_fin (ms_lo c)" "is_fin (ms_hi c)" "is_fin (c_residual c)"
  shows "c_verdict c = Safe \<Longrightarrow> fval (c_residual c) < fval (ms_lo c)"
    and "c_verdict c = Fail \<Longrightarrow> fval (ms_hi c) < - fval (c_residual c)"
    and "0 \<le> fval (c_residual c)" "fval (ms_lo c) \<le> fval (ms_hi c)" "c_digest c = cert_hash c"
  using assms fadd_pos[of "ms_lo c" "fneg (c_residual c)" RNear] fadd_neg_sum[of "ms_hi c" "c_residual c" RNear]
  by (auto simp: validate_def Let_def fsub_def flt_fin not_less split: if_splits verdict.splits)

section \<open>Text form\<close>

definition cert_ok :: "certificate \<Rightarrow> bool" where
  "cert_ok c \<longleftrightarrow> num_normal (ms_lo c) \<and> num_normal (ms_hi c) \<and> num_normal (c_residual c) \<and> num_normal (c_ks c)
     \<and> length (program_hash c) = 32 \<and> c_digest c = cert_hash c"

lemma json_plain_mkobj: "list_all (\<lambda>p. json_plain (snd p)) ps \<Longrightarrow> json_plain (mkobj ps)"
proof -
  assume a: "list_all (\<lambda>p. json_plain (snd p)) ps"
  have "json_plain v" if "(k, v) \<in> set (mbuild ps)" for k v
  proof -
    have "mget (mbuild ps) k = Some v" using that by (intro mwf_get_in) simp_all
    then have "map_of (rev ps) k = Some v" by (simp add: mget_mbuild)
    then have "(k, v) \<in> set (rev ps)" by (rule map_of_SomeD)
    then show ?thesis using a by (auto simp: list_all_iff)
  qed
  then show ?thesis by (auto simp: mkobj_def list_all_iff)
qed

lemma cert_json_plain: "cert_ok c \<Longrightarrow> json_plain (cert_json c)"
  unfolding cert_json_def by (intro json_plain_mkobj) (simp add: cert_ok_def list_all_iff)

lemma verdict_of_name [simp]: "verdict_of (verdict_name v) = v"
  by (cases v) (simp_all add: verdict_of_def)

lemma map_jstring [simp]: "map (jstring \<circ> JStr) xs = xs"
  by (induction xs) simp_all

lemma cert_from_json_json: "cert_ok c \<Longrightarrow> cert_from_json (cert_json c) = c"
  by (simp add: cert_from_json_def Let_def cert_json_def jget_mkobj cert_ok_def from_hex_hex)
    (simp add: cert_hash_def cert_json_def)

lemma cert_dump_json: "parse (cert_dump c) = Some (JObj (mput ''digest'' (JStr (hex (c_digest c))) (jobj (cert_json c))))"
  if "cert_ok c"
proof -
  obtain m where m: "cert_json c = JObj m" "mwf m" by (simp add: cert_json_def mkobj_def)
  have "list_all (\<lambda>p. json_plain (snd p)) m" "mwf m" using cert_json_plain[OF that] m(1) by simp_all
  then have "json_plain (JObj (mput ''digest'' (JStr (hex (c_digest c))) m))"
    by (auto simp: list_all_iff dest!: in_mput)
  from parse_dump[OF this] show ?thesis unfolding cert_dump_def m(1) jobj.simps .
qed

text \<open>The added member \<open>digest\<close> is not read back: the reader computes it again.\<close>

lemma jget_mput:
  "k \<noteq> k' \<Longrightarrow> jat (JObj (mput k v m)) k' = jat (JObj m) k'"
  "k \<noteq> k' \<Longrightarrow> jn (JObj (mput k v m)) k' d = jn (JObj m) k' d"
  "k \<noteq> k' \<Longrightarrow> jstr (JObj (mput k v m)) k' e = jstr (JObj m) k' e"
  by (simp_all add: jat_def jn_def jstr_def mget_mput)

lemma cert_round_trip: "cert_ok c \<Longrightarrow> map_option cert_from_json (parse (cert_dump c)) = Some c"
proof -
  assume ok: "cert_ok c"
  obtain m where m: "cert_json c = JObj m" by (simp add: cert_json_def mkobj_def)
  have "cert_from_json (JObj (mput ''digest'' d m)) = cert_from_json (JObj m)" for d
    by (simp add: cert_from_json_def jget_mput)
  then show ?thesis using cert_dump_json[OF ok] cert_from_json_json[OF ok] by (simp add: m)
qed

text \<open>Two certificates that carry their own hash: the digest binds every field.\<close>

lemma cert_digest_binds:
  assumes "cert_ok c" "cert_ok d" "c_digest c = c_digest d" "c \<noteq> d"
  shows "bytes_of (dump (cert_json c)) \<noteq> bytes_of (dump (cert_json d))
    \<and> sha256 (bytes_of (dump (cert_json c))) = sha256 (bytes_of (dump (cert_json d)))"
proof -
  have "dump (cert_json c) \<noteq> dump (cert_json d)"
  proof
    assume "dump (cert_json c) = dump (cert_json d)"
    then have "cert_json c = cert_json d"
      using parse_dump[OF cert_json_plain[OF assms(1)]] parse_dump[OF cert_json_plain[OF assms(2)]]
      by (metis option.inject)
    then show False using cert_from_json_json[OF assms(1)] cert_from_json_json[OF assms(2)] assms(4) by metis
  qed
  moreover have "sha256_str (dump (cert_json c)) = sha256_str (dump (cert_json d))"
    using assms(1-3) unfolding cert_ok_def cert_hash_def by metis
  ultimately show ?thesis
    using bytes_of_inject[of "dump (cert_json c)" "dump (cert_json d)"] unfolding sha256_str_def by blast
qed

section \<open>Validation without the evaluation's guards\<close>

text \<open>
  The decision abstains on infinite ends, validation does not: a certificate whose ends are both
  positive infinity passes as SAFE.
\<close>

definition infinite_cert :: certificate where
  "infinite_cert =
     \<lparr>program_hash = zero_digest, ms_lo = PInf, ms_hi = PInf, c_residual = Fin 0, c_ks = Fin 0,
      c_method = ''interval'', c_regime = CHR ''A'', c_verdict = Safe, conditions = [], c_digest = zero_digest\<rparr>"

definition self_hashed :: "certificate \<Rightarrow> certificate" where
  "self_hashed c = c\<lparr>c_digest := cert_hash c\<rparr>"

lemma self_hashed_sel:
  "cert_hash (self_hashed c) = c_digest (self_hashed c)" "ms_lo (self_hashed c) = ms_lo c"
  "ms_hi (self_hashed c) = ms_hi c" "c_residual (self_hashed c) = c_residual c"
  "c_verdict (self_hashed c) = c_verdict c"
  by (simp_all add: self_hashed_def)

lemma validate_infinite: "validate (self_hashed infinite_cert)" "decide PInf PInf (Fin 0) = Abstain"
  by (simp_all add: validate_def self_hashed_sel infinite_cert_def decide_def fsub_def Let_def)

end
