(* ===== verification/Fve_Merkle.thy ===== *)
theory Fve_Merkle
  imports Fve_Sha256
begin

text \<open>
  The Merkle tree and the audit chain of \<open>core/merkle\<close>. A tree keeps its levels from the
  leaves to the root, a proof walks them, and every proof of a leaf verifies against the root.
  The chain links each entry to the hash of the one before it; appending keeps it valid, and
  two valid chains with one head are equal unless their difference exhibits a collision of
  SHA-256, which a function of the model extracts.
\<close>

definition leaf_hash :: "byte list \<Rightarrow> digest" where
  "leaf_hash b = sha256 (0x00 # b)"

definition node_pre :: "digest \<Rightarrow> digest \<Rightarrow> byte list" where
  "node_pre l r = 0x01 # l @ r"

definition node_hash :: "digest \<Rightarrow> digest \<Rightarrow> digest" where
  "node_hash l r = sha256 (node_pre l r)"

section \<open>The tree\<close>

record step =
  sib :: digest
  right :: bool

record merkle =
  m_n :: nat
  m_levels :: "digest list list"
  m_root :: digest

text \<open>One level from the one below: pairs are hashed, an odd last node is paired with itself.\<close>

fun merkle_up :: "digest list \<Rightarrow> digest list" where
  "merkle_up (l # r # cur) = node_hash l r # merkle_up cur"
| "merkle_up [l] = [node_hash l l]"
| "merkle_up [] = []"

lemma length_merkle_up [simp]: "length (merkle_up cur) = (length cur + 1) div 2"
  by (induction cur rule: merkle_up.induct) auto

function merkle_levels :: "digest list \<Rightarrow> digest list list" where
  "merkle_levels cur = (if length cur > 1 then cur # merkle_levels (merkle_up cur) else [cur])"
  by pat_completeness auto
termination
  by (relation "measure length") auto

declare merkle_levels.simps [simp del]

definition merkle_build :: "digest list \<Rightarrow> merkle" where
  "merkle_build leaves =
     (if leaves = []
      then let r = sha256_str '''' in \<lparr>m_n = 0, m_levels = [[r]], m_root = r\<rparr>
      else let ls = merkle_levels leaves
           in \<lparr>m_n = length leaves, m_levels = ls, m_root = hd (last ls)\<rparr>)"

fun proof_path :: "digest list list \<Rightarrow> nat \<Rightarrow> step list" where
  "proof_path (cur # nxt # ls) idx =
     (let r = even idx;
          s = (if r then idx + 1 else idx - 1);
          s' = (if s \<ge> length cur then idx else s)
      in \<lparr>sib = cur ! s', right = r\<rparr> # proof_path (nxt # ls) (idx div 2))"
| "proof_path _ _ = []"

definition merkle_proof :: "merkle \<Rightarrow> nat \<Rightarrow> step list" where
  "merkle_proof m i = (if i \<ge> m_n m then [] else proof_path (m_levels m) i)"

definition step_hash :: "digest \<Rightarrow> step \<Rightarrow> digest" where
  "step_hash acc s = (if right s then node_hash acc (sib s) else node_hash (sib s) acc)"

definition merkle_verify :: "digest \<Rightarrow> step list \<Rightarrow> digest \<Rightarrow> bool" where
  "merkle_verify leaf path rt = (foldl step_hash leaf path = rt)"

lemma merkle_up_nth:
  "j < (length cur + 1) div 2 \<Longrightarrow> merkle_up cur ! j =
     node_hash (cur ! (2 * j)) (if 2 * j + 1 < length cur then cur ! (2 * j + 1) else cur ! (2 * j))"
proof (induction cur arbitrary: j rule: merkle_up.induct)
  case (1 l r cur)
  then show ?case by (cases j) auto
qed auto

lemma merkle_levels_nonempty [simp]: "merkle_levels cur \<noteq> []"
  by (subst merkle_levels.simps) simp

lemma merkle_levels_Cons: "\<exists>ls. merkle_levels cur = cur # ls"
  by (subst merkle_levels.simps) simp

lemma proof_path_levels:
  "i < length cur \<Longrightarrow> foldl step_hash (cur ! i) (proof_path (merkle_levels cur) i) = hd (last (merkle_levels cur))"
proof (induction cur arbitrary: i rule: merkle_levels.induct)
  case (1 cur)
  show ?case
  proof (cases "length cur > 1")
    case False
    then have "i = 0" "length cur = 1" using "1.prems" by simp_all
    moreover have "cur \<noteq> []" using "1.prems" by auto
    ultimately show ?thesis by (subst (1 2) merkle_levels.simps) (simp add: hd_conv_nth)
  next
    case True
    define up where "up = merkle_up cur"
    obtain ls where ls: "merkle_levels up = up # ls" using merkle_levels_Cons by blast
    have lv: "merkle_levels cur = cur # up # ls"
      using True ls by (subst merkle_levels.simps) (simp add: up_def)
    have j: "i div 2 < length up" using "1.prems" by (simp add: up_def)
    have "step_hash (cur ! i) (hd (proof_path (cur # up # ls) i)) = up ! (i div 2)"
      using merkle_up_nth[of "i div 2" cur] j "1.prems"
      by (cases "even i") (auto simp: up_def step_hash_def Let_def elim!: evenE oddE)
    then have "foldl step_hash (cur ! i) (proof_path (cur # up # ls) i)
        = foldl step_hash (up ! (i div 2)) (proof_path (up # ls) (i div 2))"
      by (simp add: Let_def)
    also have "\<dots> = hd (last (up # ls))"
      using "1.IH"[OF True, of "i div 2"] j unfolding up_def[symmetric] ls by blast
    finally show ?thesis by (simp add: lv)
  qed
qed

section \<open>Binding\<close>

text \<open>
  From two leaves that verify along paths with the same directions, the first level where the
  hashed strings differ but their hashes agree.
\<close>

definition step_pre :: "digest \<Rightarrow> step \<Rightarrow> byte list" where
  "step_pre acc s = (if right s then node_pre acc (sib s) else node_pre (sib s) acc)"

fun path_collision :: "digest \<Rightarrow> step list \<Rightarrow> digest \<Rightarrow> step list \<Rightarrow> (byte list \<times> byte list) option" where
  "path_collision a (s # p) b (t # q) =
     (if step_pre a s \<noteq> step_pre b t \<and> step_hash a s = step_hash b t
      then Some (step_pre a s, step_pre b t)
      else path_collision (step_hash a s) p (step_hash b t) q)"
| "path_collision _ _ _ _ = None"

lemma step_hash_pre: "step_hash a s = sha256 (step_pre a s)"
  by (simp add: step_hash_def step_pre_def node_hash_def)

lemma path_collision_sound:
  "path_collision a p b q = Some (x, y) \<Longrightarrow> x \<noteq> y \<and> sha256 x = sha256 y"
  by (induction a p b q rule: path_collision.induct) (auto simp: step_hash_pre split: if_splits)

lemma step_pre_inject: "step_pre a s = step_pre b t \<Longrightarrow> right s = right t \<Longrightarrow>
    length a = 32 \<Longrightarrow> length b = 32 \<Longrightarrow> length (sib s) = 32 \<Longrightarrow> length (sib t) = 32 \<Longrightarrow> a = b"
  by (cases "right t") (auto simp: step_pre_def node_pre_def)

lemma path_collision_found:
  assumes "map right p = map right q" "list_all (\<lambda>s. length (sib s) = 32) (p @ q)"
    and "length a = 32" "length b = 32" "a \<noteq> b" "foldl step_hash a p = foldl step_hash b q"
  shows "path_collision a p b q \<noteq> None"
  using assms
proof (induction p arbitrary: a b q)
  case (Cons s p)
  then obtain t q' where q: "q = t # q'" by (cases q) auto
  have ne: "step_pre a s \<noteq> step_pre b t"
    using step_pre_inject[of a s b t] Cons.prems q by auto
  show ?case
  proof (cases "step_hash a s = step_hash b t")
    case True
    then show ?thesis using ne q by simp
  next
    case False
    have "path_collision (step_hash a s) p (step_hash b t) q' \<noteq> None"
      using Cons.prems q False by (intro Cons.IH) (simp_all add: step_hash_pre)
    then show ?thesis using False q by simp
  qed
qed simp

section \<open>The audit chain\<close>

record audit_entry =
  seq :: "64 word"
  payload :: digest
  prev :: digest
  e_hash :: digest

record audit_chain =
  entries :: "audit_entry list"
  head :: digest

definition entry_pre :: "64 word \<Rightarrow> digest \<Rightarrow> digest \<Rightarrow> byte list" where
  "entry_pre sq pl pv = le_bytes64 sq @ pv @ pl"

definition entry_hash :: "64 word \<Rightarrow> digest \<Rightarrow> digest \<Rightarrow> digest" where
  "entry_hash sq pl pv = sha256 (entry_pre sq pl pv)"

definition genesis :: digest where
  "genesis = sha256_str ''fve-audit-genesis''"

definition chain_new :: audit_chain where
  "chain_new = \<lparr>entries = [], head = genesis\<rparr>"

definition chain_append :: "digest \<Rightarrow> audit_chain \<Rightarrow> audit_chain" where
  "chain_append pl c =
     (let sq = of_nat (length (entries c)); h = entry_hash sq pl (head c)
      in \<lparr>entries = entries c @ [\<lparr>seq = sq, payload = pl, prev = head c, e_hash = h\<rparr>], head = h\<rparr>)"

fun verify_from :: "digest \<Rightarrow> audit_entry list \<Rightarrow> digest \<Rightarrow> bool" where
  "verify_from pv [] h = (pv = h)"
| "verify_from pv (en # es) h =
     (if prev en \<noteq> pv then False
      else if e_hash en \<noteq> entry_hash (seq en) (payload en) (prev en) then False
      else verify_from (e_hash en) es h)"

definition chain_verify :: "audit_chain \<Rightarrow> bool" where
  "chain_verify c = verify_from genesis (entries c) (head c)"

lemma verify_from_snoc:
  "verify_from pv (es @ [en]) h \<longleftrightarrow>
     verify_from pv es (prev en) \<and> e_hash en = entry_hash (seq en) (payload en) (prev en) \<and> e_hash en = h"
  by (induction es arbitrary: pv) auto

lemma contents_new: "map payload (entries chain_new) = []"
  by (simp add: chain_new_def)

lemma contents_append: "map payload (entries (chain_append pl c)) = map payload (entries c) @ [pl]"
  by (simp add: chain_append_def Let_def)

lemma chain_verify_new: "chain_verify chain_new"
  by (simp add: chain_verify_def chain_new_def)

lemma chain_verify_append: "chain_verify c \<Longrightarrow> chain_verify (chain_append pl c)"
  by (simp add: chain_verify_def chain_append_def Let_def verify_from_snoc)

text \<open>The interface a log of hashed payloads offers to the components that append to it.\<close>

locale hash_log =
  fixes new :: 'c and app :: "'p \<Rightarrow> 'c \<Rightarrow> 'c" and valid :: "'c \<Rightarrow> bool" and contents :: "'c \<Rightarrow> 'p list"
  assumes valid_new: "valid new" and valid_app: "valid c \<Longrightarrow> valid (app p c)"
    and contents_new: "contents new = []" and contents_app: "contents (app p c) = contents c @ [p]"
begin

lemma replay_valid: "valid c \<Longrightarrow> valid (fold app ps c)"
  by (induction ps arbitrary: c) (auto simp: valid_app)

lemma replay_contents: "contents (fold app ps c) = contents c @ ps"
  by (induction ps arbitrary: c) (auto simp: contents_app)

lemma rebuild: "valid (fold app ps new) \<and> contents (fold app ps new) = ps"
  by (simp add: replay_valid valid_new replay_contents contents_new)

end

interpretation ac: hash_log chain_new chain_append chain_verify "\<lambda>c. map payload (entries c)"
  by unfold_locales
    (auto simp: chain_verify_new chain_verify_append contents_new contents_append)

text \<open>Two entry lists, last entry first: the last pair of entries that hash different strings.\<close>

definition en_pre :: "audit_entry \<Rightarrow> byte list" where
  "en_pre en = entry_pre (seq en) (payload en) (prev en)"

fun chain_collision :: "audit_entry list \<Rightarrow> audit_entry list \<Rightarrow> (byte list \<times> byte list) option" where
  "chain_collision (e # es) (f # fs) =
     (if en_pre e \<noteq> en_pre f then Some (en_pre e, en_pre f) else chain_collision es fs)"
| "chain_collision _ _ = None"

definition entry_wf :: "audit_entry \<Rightarrow> bool" where
  "entry_wf en \<longleftrightarrow> length (payload en) = 32 \<and> length (prev en) = 32"

lemma byte_of_nth: "i < 8 \<Longrightarrow> n < 8 \<Longrightarrow> bit (byte_of (x :: 64 word) i) n = bit x (8 * i + n)"
  by (simp add: byte_of_def bit_simps)

lemma le_bytes64_inject: "le_bytes64 x = le_bytes64 y \<Longrightarrow> x = y"
proof (rule bit_word_eqI)
  fix n assume e: "le_bytes64 x = le_bytes64 y" and n: "n < LENGTH(64)"
  have d: "n div 8 < 8" "n mod 8 < 8" using n by auto
  have "byte_of x (n div 8) = byte_of y (n div 8)"
    using e d(1) by (simp add: le_bytes64_def)
  then have "bit x (8 * (n div 8) + n mod 8) = bit y (8 * (n div 8) + n mod 8)"
    using byte_of_nth[OF d] by metis
  then show "bit x n = bit y n" by simp
qed

lemma length_le_bytes64 [simp]: "length (le_bytes64 x) = 8"
  by (simp add: le_bytes64_def)

lemma en_pre_inject:
  "entry_wf e \<Longrightarrow> entry_wf f \<Longrightarrow> en_pre e = en_pre f \<Longrightarrow>
     seq e = seq f \<and> payload e = payload f \<and> prev e = prev f"
  by (auto simp: en_pre_def entry_pre_def entry_wf_def dest: le_bytes64_inject)

lemma chain_collision_found:
  assumes "verify_from g es h" "verify_from g fs h" "length es = length fs" "es \<noteq> fs"
    and "list_all entry_wf (es @ fs)"
  shows "\<exists>x y. chain_collision (rev es) (rev fs) = Some (x, y) \<and> x \<noteq> y \<and> sha256 x = sha256 y"
  using assms
proof (induction es arbitrary: fs h rule: rev_induct)
  case (snoc e es)
  then obtain f fs' where fs: "fs = fs' @ [f]" by (cases fs rule: rev_cases) auto
  have e: "verify_from g es (prev e)" "e_hash e = sha256 (en_pre e)" "e_hash e = h"
    and f: "verify_from g fs' (prev f)" "e_hash f = sha256 (en_pre f)" "e_hash f = h"
    using snoc.prems(1,2) fs by (auto simp: verify_from_snoc en_pre_def entry_hash_def)
  show ?case
  proof (cases "en_pre e = en_pre f")
    case False
    then show ?thesis using e f fs by simp
  next
    case True
    have eq: "seq e = seq f" "payload e = payload f" "prev e = prev f"
      using en_pre_inject[OF _ _ True] snoc.prems(5) fs by auto
    then have "e = f" using e(3) f(3) by simp
    then have "es \<noteq> fs'" using snoc.prems(4) fs by simp
    then show ?thesis
      using snoc.IH[OF e(1), of fs'] f(1) eq snoc.prems(3,5) fs True by simp
  qed
qed simp

text \<open>Two chains with the same head are equal or expose two strings with one digest.\<close>

lemma chain_binds:
  assumes "chain_verify c" "chain_verify d" "head c = head d" "length (entries c) = length (entries d)"
    and "list_all entry_wf (entries c @ entries d)"
  shows "c = d \<or> (\<exists>x y. chain_collision (rev (entries c)) (rev (entries d)) = Some (x, y) \<and> x \<noteq> y \<and> sha256 x = sha256 y)"
proof (cases "entries c = entries d")
  case True
  then show ?thesis using assms(3) by (cases c; cases d) simp
next
  case False
  then show ?thesis using chain_collision_found[of genesis "entries c" "head c" "entries d"] assms
    by (auto simp: chain_verify_def)
qed

lemma entry_wf_append: "length pl = 32 \<Longrightarrow> length (head c) = 32 \<Longrightarrow> list_all entry_wf (entries c) \<Longrightarrow>
    list_all entry_wf (entries (chain_append pl c)) \<and> length (head (chain_append pl c)) = 32"
  by (simp add: chain_append_def entry_wf_def entry_hash_def Let_def)

lemma merkle_levels_digests:
  "list_all (\<lambda>d. length d = 32) cur \<Longrightarrow> l \<in> set (merkle_levels cur) \<Longrightarrow> d \<in> set l \<Longrightarrow> length d = 32"
proof (induction cur rule: merkle_levels.induct)
  case (1 cur)
  have up: "list_all (\<lambda>d. length d = 32) (merkle_up cur)"
    by (auto simp: list_all_length merkle_up_nth node_hash_def)
  show ?case
  proof (cases "length cur > 1")
    case True
    then have "merkle_levels cur = cur # merkle_levels (merkle_up cur)" by (subst merkle_levels.simps) simp
    then show ?thesis using "1.prems" "1.IH"[OF True up] by (auto simp: list_all_iff)
  next
    case False
    then have "merkle_levels cur = [cur]" by (subst merkle_levels.simps) simp
    then show ?thesis using "1.prems" by (auto simp: list_all_iff)
  qed
qed

end
