(* ===== verification/Fve_Engine.thy ===== *)
theory Fve_Engine
  imports Fve_Proof Fve_Merkle
begin

text \<open>
  The engine of \<open>core/engine\<close>: a program is read from JSON, evaluated, decided and certified, and
  the hash of the certificate's text is appended to the audit chain. The lemmas: a run adds one
  entry, whose payload is the leaf hash of the certificate it returns, keeps the chain valid,
  and its verdict is sound where the evaluation is rigorous.
\<close>

definition box_of_json :: "json \<Rightarrow> box" where
  "box_of_json j =
     mbuild (map (\<lambda>kv. (fst kv, ival_of (jnum (jarr (snd kv) ! 0)) (jnum (jarr (snd kv) ! 1))))
       (filter (\<lambda>kv. 2 \<le> length (jarr (snd kv))) (jobj (jat j ''box''))))"

definition load_program :: "string \<Rightarrow> hole_table \<Rightarrow> ast_err + prog" where
  "load_program text holes =
     (case parse text of None \<Rightarrow> Inl BadText
      | Some j \<Rightarrow> bindE (from_json (jat j ''ast'')) (\<lambda>rt.
          Inr \<lparr>p_root = rt, p_box = (if jhas j ''box'' then box_of_json j else []),
               p_holes = holes, p_ks = jn j ''ks'' (Fin 0)\<rparr>))"

record run_result =
  rr_verdict :: verdict
  rr_eval :: eval_result
  rr_cert :: certificate
  rr_leaf :: digest
  rr_report :: json

definition trace_json :: "trace \<Rightarrow> json" where
  "trace_json t = mkobj
     ([(''node'', JStr (take 12 (hex (t_node t)))), (''op'', JStr (t_label t)),
       (''encl'', JArr [JNum (lo (t_encl t)), JNum (hi (t_encl t))]), (''width'', JNum (t_width t))]
      @ (if t_holed t then [(''holed'', JBool True)] else []))"

definition make_report :: "verdict \<Rightarrow> eval_result \<Rightarrow> certificate \<Rightarrow> digest \<Rightarrow> json" where
  "make_report v r c leaf = mkobj
     [(''verdict'', JStr (verdict_name v)),
      (''ms_enclosure'', mkobj [(''lower'', JNum (lo (ms r))), (''upper'', JNum (hi (ms r)))]),
      (''residual'', JNum (residual r)),
      (''certificate_ref'', JStr (''sha256:'' @ hex (c_digest c))),
      (''audit_leaf'', JStr (''sha256:'' @ hex leaf)),
      (''regime'', JStr [c_regime c]),
      (''derivation'', JArr (map trace_json (r_trace r)))]"

definition run :: "libm \<Rightarrow> prog \<Rightarrow> audit_chain \<Rightarrow> string \<Rightarrow> (run_result \<times> audit_chain) option" where
  "run L p chain method =
     (case eval L p of None \<Rightarrow> None
      | Some r \<Rightarrow>
          (let v = decide_eval r; c = build_cert p r method;
               chain' = chain_append (leaf_hash (bytes_of (cert_dump c))) chain; leaf = head chain'
           in Some (\<lparr>rr_verdict = v, rr_eval = r, rr_cert = c, rr_leaf = leaf,
                     rr_report = make_report v r c leaf\<rparr>, chain')))"

section \<open>What a run promises\<close>

lemma run_parts:
  assumes "run L p chain m = Some (r, chain')"
  shows "eval L p = Some (rr_eval r)" "rr_verdict r = decide_eval (rr_eval r)"
    "rr_cert r = build_cert p (rr_eval r) m"
    "chain' = chain_append (leaf_hash (bytes_of (cert_dump (rr_cert r)))) chain" "rr_leaf r = head chain'"
  using assms by (auto simp: run_def Let_def split: option.splits)

lemma run_appends:
  assumes "run L p chain m = Some (r, chain')"
  shows "map payload (entries chain') = map payload (entries chain) @ [leaf_hash (bytes_of (cert_dump (rr_cert r)))]"
    "chain_verify chain \<Longrightarrow> chain_verify chain'"
  using run_parts(4)[OF assms] by (simp_all add: ac.contents_app ac.valid_app)

lemma run_cert_valid:
  assumes "run L p chain m = Some (r, chain')" "rr_verdict r \<noteq> Abstain"
  shows "validate (rr_cert r)" "c_verdict (rr_cert r) = rr_verdict r"
  using run_parts[OF assms(1)] assms(2) by (simp_all add: validate_build build_cert_sel)

lemma run_sound:
  assumes "libm_ok L" "prog_rigorous L p" "prog_value p \<rho> H y" "run L p chain m = Some (r, chain')"
    and "\<bar>t - y\<bar> \<le> fval (residual (rr_eval r))"
  shows "rr_verdict r = Safe \<Longrightarrow> 0 < t" "rr_verdict r = Fail \<Longrightarrow> t < 0"
  using eval_encloses[OF assms(1-3) run_parts(1)[OF assms(4)]] run_parts(2)[OF assms(4)]
    decide_eval_sound[OF _ assms(5)] by simp_all

section \<open>Several runs over one chain\<close>

text \<open>A session is a list of programs run one after the other; an abort stops it.\<close>

fun run_all :: "libm \<Rightarrow> (prog \<times> string) list \<Rightarrow> audit_chain \<Rightarrow> (run_result list \<times> audit_chain) option" where
  "run_all L [] chain = Some ([], chain)"
| "run_all L ((p, m) # ps) chain =
     (case run L p chain m of None \<Rightarrow> None
      | Some (r, chain1) \<Rightarrow>
          (case run_all L ps chain1 of None \<Rightarrow> None
           | Some (rs, chain2) \<Rightarrow> Some (r # rs, chain2)))"

lemma run_all_log:
  "run_all L ps chain = Some (rs, chain') \<Longrightarrow>
     map payload (entries chain') = map payload (entries chain) @ map (\<lambda>r. leaf_hash (bytes_of (cert_dump (rr_cert r)))) rs
     \<and> (chain_verify chain \<longrightarrow> chain_verify chain')"
proof (induction ps arbitrary: chain rs)
  case (Cons pm ps)
  obtain p m where pm: "pm = (p, m)" by (cases pm)
  obtain r chain1 rs' where r: "run L p chain m = Some (r, chain1)" "run_all L ps chain1 = Some (rs', chain')" "rs = r # rs'"
    using Cons.prems by (auto simp: pm split: option.splits)
  show ?case using Cons.IH[OF r(2)] run_appends[OF r(1)] by (simp add: r(3))
qed simp

end
