(* ===== verification/Fve_Sivia.thy ===== *)
theory Fve_Sivia
  imports Fve_Verifier
begin

text \<open>
  The paving of \<open>core/sivia\<close>: a stack of boxes, each evaluated and then kept as safe, dropped as
  failed, kept as unknown or split in two. The loop counts its iterations, so the fuel is the
  code's own bound. The lemmas: a split loses no point of the box, no point of the initial box
  is lost by the paving, every box of the result was accepted by the test, and the test accepts
  a negative residual that the verifier refuses.
\<close>

definition box_max_width :: "box \<Rightarrow> double" where
  "box_max_width b = foldl (\<lambda>m kv. std_max m (width (snd kv))) (Fin 0) b"

text \<open>The widest variable: the empty name when there is none, as the loop starts.\<close>

definition widest :: "box \<Rightarrow> string \<times> double" where
  "widest b =
     foldl (\<lambda>(w, m) kv. if flt m (width (snd kv)) then (fst kv, width (snd kv)) else (w, m)) ([], Fin (- 1)) b"

definition bisect :: "box \<Rightarrow> box \<times> box" where
  "bisect b =
     (let w = fst (widest b)
      in if w = [] then (b, b)
         else case mget b w of
                None \<Rightarrow> (b, b)
              | Some i \<Rightarrow> (mput w (ival_of (lo i) (mid i)) b, mput w (ival_of (mid i) (hi i)) b))"

definition box_volume :: "box \<Rightarrow> double" where
  "box_volume b =
     foldl (\<lambda>v kv. let w = width (snd kv) in fmul RNear v (if flt (Fin 0) w then w else Fin 1)) (Fin 1) b"

record sivia_config =
  epsilon :: double
  max_iterations :: int

record sivia_state =
  work :: "box list"
  safe_boxes :: "box list"
  unknown_boxes :: "box list"
  iterations :: int
  safe_vol :: double

datatype paving = PSafe | PFailed | PUnknown | PSplit

text \<open>What the loop does with an evaluated box.\<close>

definition classify_box :: "double \<Rightarrow> box \<Rightarrow> eval_result \<Rightarrow> paving" where
  "classify_box eps x r =
     (if lo (ms r) = NaN \<or> hi (ms r) = NaN
      then (if flt (box_max_width x) eps then PUnknown else PSplit)
      else if flt (Fin 0) (fsub RNear (lo (ms r)) (residual r)) then PSafe
      else if flt (fadd RNear (hi (ms r)) (residual r)) (Fin 0) then PFailed
      else if flt (box_max_width x) eps then PUnknown else PSplit)"

text \<open>One iteration on the box at the back of the vector.\<close>

definition sivia_step :: "libm \<Rightarrow> prog \<Rightarrow> double \<Rightarrow> sivia_state \<Rightarrow> sivia_state option" where
  "sivia_step L p eps s =
     (let x = last (work s); s1 = s\<lparr>work := butlast (work s), iterations := iterations s + 1\<rparr>
      in case eval L (p\<lparr>p_box := x\<rparr>) of None \<Rightarrow> None
         | Some r \<Rightarrow> Some
             (case classify_box eps x r of
                PSafe \<Rightarrow> s1\<lparr>safe_boxes := safe_boxes s1 @ [x], safe_vol := fadd RNear (safe_vol s1) (box_volume x)\<rparr>
              | PFailed \<Rightarrow> s1
              | PUnknown \<Rightarrow> s1\<lparr>unknown_boxes := unknown_boxes s1 @ [x]\<rparr>
              | PSplit \<Rightarrow> s1\<lparr>work := work s1 @ [fst (bisect x), snd (bisect x)]\<rparr>))"

fun sivia_loop :: "libm \<Rightarrow> prog \<Rightarrow> double \<Rightarrow> nat \<Rightarrow> sivia_state \<Rightarrow> sivia_state option" where
  "sivia_loop L p eps 0 s = Some s"
| "sivia_loop L p eps (Suc n) s =
     (if work s = [] then Some s
      else case sivia_step L p eps s of None \<Rightarrow> None | Some s' \<Rightarrow> sivia_loop L p eps n s')"

record sivia_result =
  sr_safe :: "box list"
  sr_unknown :: "box list"
  sr_iterations :: int
  sr_fraction :: double

definition sivia :: "libm \<Rightarrow> prog \<Rightarrow> box \<Rightarrow> sivia_config \<Rightarrow> sivia_result option" where
  "sivia L p b cfg =
     (let total = box_volume b;
          s0 = \<lparr>work = [b], safe_boxes = [], unknown_boxes = [], iterations = 0, safe_vol = Fin 0\<rparr>
      in map_option (\<lambda>s. \<lparr>sr_safe = safe_boxes s, sr_unknown = unknown_boxes s @ work s,
             sr_iterations = iterations s,
             sr_fraction = (if flt (Fin 0) total then fdiv RNear (safe_vol s) total else Fin 0)\<rparr>)
           (sivia_loop L p (epsilon cfg) (nat (max_iterations cfg)) s0))"

section \<open>A split loses no point\<close>

definition in_box :: "(string \<Rightarrow> real) \<Rightarrow> box \<Rightarrow> bool" where
  "in_box \<rho> b \<longleftrightarrow> (\<forall>k i. mget b k = Some i \<longrightarrow> imem (\<rho> k) i)"

text \<open>An interval whose midpoint is a number: not the entire line.\<close>

definition splittable :: "ival \<Rightarrow> bool" where
  "splittable i \<longleftrightarrow> \<not> (lo i = NInf \<and> hi i = PInf)"

definition box_splittable :: "box \<Rightarrow> bool" where
  "box_splittable b \<longleftrightarrow> (\<forall>k i. mget b k = Some i \<longrightarrow> splittable i)"

lemma mid_not_nan: "imem x i \<Longrightarrow> splittable i \<Longrightarrow> mid i \<noteq> NaN"
proof -
  assume m: "imem x i" and s: "splittable i"
  have "fadd RNear (lo i) (hi i) \<noteq> NaN"
    using m s by (cases "lo i"; cases "hi i") (auto simp: imem_def splittable_def fzero_def)
  then have "fmul RNear (Fin (1 / 2)) (fadd RNear (lo i) (hi i)) \<noteq> NaN"
    by (cases "fadd RNear (lo i) (hi i)") (auto simp: fmul_def is_zero_def Let_def fzero_def finf_def)
  then show ?thesis using imem_not_empty[OF m] by (simp add: mid_def)
qed

lemma below_or_above: "d \<noteq> NaN \<Longrightarrow> below d x \<or> above d x"
  by (cases d) auto

lemma halves:
  assumes "imem x i" "splittable i"
  shows "imem x (ival_of (lo i) (mid i)) \<or> imem x (ival_of (mid i) (hi i))"
  using below_or_above[OF mid_not_nan[OF assms], of x] assms(1) ival_of_incl
  by (auto simp: imem_def[of x i])

lemma mid_infinite:
  assumes "imem x i" "splittable i"
  shows "lo i = NInf \<Longrightarrow> mid i = NInf" "hi i = PInf \<Longrightarrow> mid i = PInf"
  using assms imem_not_empty[OF assms(1)]
  by (cases "lo i"; cases "hi i"; simp add: imem_def splittable_def mid_def fmul_def is_zero_def finf_def)+

lemma halves_splittable:
  assumes "imem x i" "splittable i"
  shows "splittable (ival_of (lo i) (mid i))" "splittable (ival_of (mid i) (hi i))"
  using mid_infinite[OF assms] assms(1)
  by (auto simp: splittable_def ival_of_def imem_def)

lemma bisect_covers:
  assumes "in_box \<rho> b" "box_splittable b"
  shows "(in_box \<rho> (fst (bisect b)) \<and> box_splittable (fst (bisect b))) \<or>
    (in_box \<rho> (snd (bisect b)) \<and> box_splittable (snd (bisect b)))"
proof (cases "mget b (fst (widest b))")
  case None
  then show ?thesis using assms by (simp add: bisect_def Let_def)
next
  case (Some i)
  have i: "imem (\<rho> (fst (widest b))) i" "splittable i"
    using assms Some by (auto simp: in_box_def box_splittable_def)
  then show ?thesis using halves[OF i] halves_splittable[OF i] assms Some
    by (auto simp: bisect_def Let_def in_box_def box_splittable_def mget_mput)
qed

section \<open>The paving covers the box\<close>

definition failed :: "libm \<Rightarrow> prog \<Rightarrow> box \<Rightarrow> bool" where
  "failed L p b \<longleftrightarrow> (\<exists>r. eval L (p\<lparr>p_box := b\<rparr>) = Some r \<and> flt (fadd RNear (hi (ms r)) (residual r)) (Fin 0))"

definition accepted :: "libm \<Rightarrow> prog \<Rightarrow> box \<Rightarrow> bool" where
  "accepted L p b \<longleftrightarrow> (\<exists>r. eval L (p\<lparr>p_box := b\<rparr>) = Some r \<and> flt (Fin 0) (fsub RNear (lo (ms r)) (residual r)))"

text \<open>The boxes the loop discards, in the order it does: those it takes from the stack and classifies as failed.\<close>

fun dropped_boxes :: "libm \<Rightarrow> prog \<Rightarrow> double \<Rightarrow> nat \<Rightarrow> sivia_state \<Rightarrow> box list" where
  "dropped_boxes L p eps 0 s = []"
| "dropped_boxes L p eps (Suc n) s =
     (if work s = [] then []
      else case eval L (p\<lparr>p_box := last (work s)\<rparr>) of None \<Rightarrow> []
         | Some r \<Rightarrow> (if classify_box eps (last (work s)) r = PFailed then [last (work s)] else [])
             @ (case sivia_step L p eps s of None \<Rightarrow> [] | Some s' \<Rightarrow> dropped_boxes L p eps n s'))"

definition sivia_start :: "box \<Rightarrow> sivia_state" where
  "sivia_start b = \<lparr>work = [b], safe_boxes = [], unknown_boxes = [], iterations = 0, safe_vol = Fin 0\<rparr>"

definition sivia_dropped :: "libm \<Rightarrow> prog \<Rightarrow> box \<Rightarrow> sivia_config \<Rightarrow> box list" where
  "sivia_dropped L p b cfg = dropped_boxes L p (epsilon cfg) (nat (max_iterations cfg)) (sivia_start b)"

definition covered :: "(string \<Rightarrow> real) \<Rightarrow> box list \<Rightarrow> bool" where
  "covered \<rho> bs \<longleftrightarrow> (\<exists>b\<in>set bs. in_box \<rho> b \<and> box_splittable b)"

lemma covered_simps [simp]:
  "\<not> covered \<rho> []" "covered \<rho> (b # bs) \<longleftrightarrow> in_box \<rho> b \<and> box_splittable b \<or> covered \<rho> bs"
  "covered \<rho> (bs @ cs) \<longleftrightarrow> covered \<rho> bs \<or> covered \<rho> cs"
  by (auto simp: covered_def)

text \<open>A step keeps a point of one of its boxes, unless it drops the box.\<close>

lemma sivia_step_covers:
  assumes "covered \<rho> (work s @ safe_boxes s @ unknown_boxes s)" "work s \<noteq> []" "sivia_step L p eps s = Some s'"
    and "eval L (p\<lparr>p_box := last (work s)\<rparr>) = Some r"
  shows "covered \<rho> (work s' @ safe_boxes s' @ unknown_boxes s')
    \<or> (in_box \<rho> (last (work s)) \<and> box_splittable (last (work s)) \<and> classify_box eps (last (work s)) r = PFailed)"
proof -
  define x where "x = last (work s)"
  have w: "work s = butlast (work s) @ [x]" using assms(2) by (simp add: x_def)
  have c: "covered \<rho> (butlast (work s)) \<or> (in_box \<rho> x \<and> box_splittable x) \<or> covered \<rho> (safe_boxes s) \<or> covered \<rho> (unknown_boxes s)"
    using assms(1) by (subst (asm) w) auto
  have st: "s' = (case classify_box eps x r of
        PSafe \<Rightarrow> s\<lparr>work := butlast (work s), iterations := iterations s + 1, safe_boxes := safe_boxes s @ [x],
                    safe_vol := fadd RNear (safe_vol s) (box_volume x)\<rparr>
      | PFailed \<Rightarrow> s\<lparr>work := butlast (work s), iterations := iterations s + 1\<rparr>
      | PUnknown \<Rightarrow> s\<lparr>work := butlast (work s), iterations := iterations s + 1, unknown_boxes := unknown_boxes s @ [x]\<rparr>
      | PSplit \<Rightarrow> s\<lparr>work := butlast (work s) @ [fst (bisect x), snd (bisect x)], iterations := iterations s + 1\<rparr>)"
    using assms(3,4) by (cases s; auto simp: sivia_step_def Let_def x_def split: paving.splits)
  show ?thesis using c bisect_covers[of \<rho> x]
    by (cases "classify_box eps x r") (auto simp: st x_def[symmetric])
qed

lemma sivia_loop_covers:
  assumes "sivia_loop L p eps n s = Some s'" "covered \<rho> (work s @ safe_boxes s @ unknown_boxes s)"
  shows "covered \<rho> (work s' @ safe_boxes s' @ unknown_boxes s') \<or> covered \<rho> (dropped_boxes L p eps n s)"
  using assms
proof (induction L p eps n s rule: sivia_loop.induct)
  case (2 L p eps n s)
  show ?case
  proof (cases "work s = []")
    case False
    then obtain t where t: "sivia_step L p eps s = Some t" "sivia_loop L p eps n t = Some s'"
      using "2.prems"(1) by (auto split: option.splits)
    then obtain r where r: "eval L (p\<lparr>p_box := last (work s)\<rparr>) = Some r"
      by (auto simp: sivia_step_def Let_def split: option.splits)
    have d: "dropped_boxes L p eps (Suc n) s =
        (if classify_box eps (last (work s)) r = PFailed then [last (work s)] else []) @ dropped_boxes L p eps n t"
      using False r t(1) by simp
    show ?thesis using sivia_step_covers[OF "2.prems"(2) False t(1) r] "2.IH"[OF False t]
      unfolding d by auto
  qed (use 2 in simp)
qed simp

lemma dropped_failed: "list_all (failed L p) (dropped_boxes L p eps n s)"
proof (induction n arbitrary: s)
  case (Suc n)
  have "failed L p x" if "eval L (p\<lparr>p_box := x\<rparr>) = Some r" "classify_box eps x r = PFailed" for x r
    using that by (auto simp: failed_def classify_box_def split: if_splits)
  then show ?case using Suc by (auto split: option.splits)
qed simp

lemma sivia_covers:
  assumes "sivia L p b cfg = Some r" "in_box \<rho> b" "box_splittable b"
  shows "covered \<rho> (sr_safe r @ sr_unknown r) \<or> covered \<rho> (sivia_dropped L p b cfg)"
proof -
  obtain s where s: "sivia_loop L p (epsilon cfg) (nat (max_iterations cfg)) (sivia_start b) = Some s"
    "sr_safe r = safe_boxes s" "sr_unknown r = unknown_boxes s @ work s"
    using assms(1) by (auto simp: sivia_def Let_def sivia_start_def)
  have "covered \<rho> (work (sivia_start b) @ safe_boxes (sivia_start b) @ unknown_boxes (sivia_start b))"
    using assms(2,3) by (simp add: sivia_start_def)
  from sivia_loop_covers[OF s(1) this] show ?thesis by (auto simp: s(2,3) sivia_dropped_def)
qed

text \<open>A dropped box has only negative values, where its evaluation is rigorous and its residual is not negative.\<close>

lemma failed_sound:
  assumes "imem y (ms r)" "fle (Fin 0) (residual r)" "flt (fadd RNear (hi (ms r)) (residual r)) (Fin 0)"
  shows "y < 0"
proof -
  have a: "above (hi (ms r)) y" using assms(1) by (simp add: imem_def)
  have f: "is_fin (hi (ms r))" "is_fin (residual r)" using a assms(2,3)
    by (cases "hi (ms r)"; cases "residual r"; auto simp: imem_def split: if_splits)+
  have "fval (hi (ms r)) + fval (residual r) < 0"
    using fadd_cancel[of "hi (ms r)" "residual r" RNear] fround_neg[of RNear "fval (hi (ms r)) + fval (residual r)"]
      fadd_fin[of "hi (ms r)" "residual r" RNear] assms(3) f
    by (cases "fval (hi (ms r)) + fval (residual r) = 0") (auto simp: flt_fin)
  moreover have "0 \<le> fval (residual r)" using assms(2) f(2) fle_fin[of "Fin 0" "residual r"] by simp
  moreover have "y \<le> fval (hi (ms r))" using a f(1) by (simp add: above_fin)
  ultimately show ?thesis by linarith
qed

section \<open>Accepted boxes are safe where the residual is not negative\<close>

lemma fsub_pos_fin:
  "below l y \<Longrightarrow> fle (Fin 0) d \<Longrightarrow> flt (Fin 0) (fsub RNear l d) \<Longrightarrow> is_fin l \<and> is_fin d"
  by (cases l; cases d) (auto simp: fsub_def split: if_splits)

lemma accepted_sound:
  assumes "imem y (ms r)" "fle (Fin 0) (residual r)" "flt (Fin 0) (fsub RNear (lo (ms r)) (residual r))"
  shows "0 < y"
proof -
  have b: "below (lo (ms r)) y" using assms(1) by (simp add: imem_def)
  have f: "is_fin (lo (ms r))" "is_fin (residual r)"
    using fsub_pos_fin[OF b assms(2,3)] by simp_all
  have "0 < fval (lo (ms r)) - fval (residual r)"
    using fadd_pos[of "lo (ms r)" "fneg (residual r)" RNear] assms(3) f by (simp add: fsub_def)
  moreover have "0 \<le> fval (residual r)" using assms(2) f(2) fle_fin[of "Fin 0" "residual r"] by simp
  moreover have "fval (lo (ms r)) \<le> y" using b f(1) by (simp add: below_fin)
  ultimately show ?thesis by linarith
qed

text \<open>
  The test does not look at the sign of the residual: a program whose constant \<open>ks\<close> is \<open>-2\<close> has
  its box accepted although its only value is \<open>-1\<close>; the verifier abstains on it.
\<close>

definition negative_ks_prog :: prog where
  "negative_ks_prog = \<lparr>p_root = konst (Fin (- 1)) dim_none, p_box = [], p_holes = hole_empty, p_ks = Fin (- 2)\<rparr>"

lemma negative_ks_eval:
  "\<exists>tr. eval L negative_ks_prog = Some \<lparr>ms = point (Fin (- 1)), residual = Fin (- 2), r_trace = tr\<rparr>"
proof -
  have f: "fadd RNear (Fin 0) (Fin (- 2)) = Fin (- 2)" by simp
  have r: "\<exists>tr. rec L [] hole_empty (konst (Fin (- 1)) dim_none) (Fin 0, Some []) = Some (point (Fin (- 1)), Fin 0, Some tr)"
    by (subst rec.simps) (simp add: push_trace_def)
  then show ?thesis by (auto simp only: eval_def negative_ks_prog_def prog.simps f fst_conv snd_conv option.case prod.case)
qed

lemma negative_ks:
  "\<exists>r. eval L negative_ks_prog = Some r \<and> decide_eval r = Abstain
     \<and> flt (Fin 0) (fsub RNear (lo (ms r)) (residual r))"
proof -
  obtain tr where e: "eval L negative_ks_prog = Some \<lparr>ms = point (Fin (- 1)), residual = Fin (- 2), r_trace = tr\<rparr>"
    using negative_ks_eval by blast
  have s: "fsub RNear (Fin (- 1)) (Fin (- 2)) = Fin 1" by (simp add: fsub_def)
  show ?thesis
    by (intro exI conjI, rule e)
      (simp_all add: decide_eval_def decide_def point_def is_empty_def is_entire_def s)
qed

lemma negative_ks_value: "denotes \<rho> H (p_root negative_ks_prog) (- 1)"
  using den_const[of "konst (Fin (- 1)) dim_none"] by (simp add: negative_ks_prog_def)

section \<open>The kept boxes\<close>

lemma sivia_step_accepted:
  "sivia_step L p eps s = Some s' \<Longrightarrow> list_all (accepted L p) (safe_boxes s) \<Longrightarrow> list_all (accepted L p) (safe_boxes s')"
  by (auto simp: sivia_step_def classify_box_def accepted_def Let_def
      split: option.splits paving.splits if_splits prod.splits)

lemma sivia_accepted:
  assumes "sivia L p b cfg = Some r"
  shows "list_all (accepted L p) (sr_safe r)"
proof -
  have "sivia_loop L p eps n s = Some s' \<Longrightarrow> list_all (accepted L p) (safe_boxes s) \<Longrightarrow>
      list_all (accepted L p) (safe_boxes s')" for eps n s s'
    by (induction L p eps n s rule: sivia_loop.induct)
      (auto split: if_splits option.splits intro: sivia_step_accepted)
  from this[of "epsilon cfg" "nat (max_iterations cfg)"] show ?thesis
    using assms by (fastforce simp: sivia_def Let_def)
qed

end
