(* ===== verification/Fve_Criticality.thy ===== *)
theory Fve_Criticality
  imports Fve_Enclosure "HOL-Library.Multiset"
begin

text \<open>
  The criticality score of \<open>core/criticality\<close>, the reduction plan and the account of an abstention.
  \<open>std::sort\<close> leaves the order of equal keys open; the model keeps their order. The lemmas: the
  score is tot and its label belongs to its priority, the two overloads agree on the default
  thresholds, and the plan is a sorted rearrangement of the holes of the trace.
\<close>

definition dlit :: "real \<Rightarrow> double" where
  "dlit q = fround RNear q"

record crit_config =
  alpha :: double
  thresholds :: "(string, double) omap"
  schema_version :: string

definition default_thresholds :: "(string, double) omap" where
  "default_thresholds =
     [(''P1'', dlit (1 / 5)), (''P2'', Fin (1 / 2)), (''P3'', Fin (3 / 4)), (''P4'', dlit (9 / 10))]"

definition default_config :: crit_config where
  "default_config = \<lparr>alpha = Fin 3, thresholds = default_thresholds, schema_version = ''1''\<rparr>"

definition quoted :: "string \<Rightarrow> string" where
  "quoted s = CHR ''\"'' # s @ [CHR ''\"'']"

definition canonical :: "crit_config \<Rightarrow> string" where
  "canonical c =
     ''{'' @ quoted ''alpha'' @ '':'' @ fmt_g 9 (alpha c)
     @ '','' @ quoted ''schema'' @ '':'' @ quoted (schema_version c) @ '','' @ quoted ''thresholds'' @ '':{''
     @ join (CHR '','') (map (\<lambda>kv. quoted (fst kv) @ '':'' @ fmt_g 9 (snd kv)) (thresholds c)) @ ''}}''"

definition config_hash :: "crit_config \<Rightarrow> digest" where
  "config_hash c = sha256_str (canonical c)"

record crit_score =
  cs :: double
  snr :: double
  priority :: int
  label :: string
  why :: string

definition level :: "double \<Rightarrow> double \<Rightarrow> int \<times> string \<times> string \<Rightarrow> crit_score" where
  "level c s plw = \<lparr>cs = c, snr = s, priority = fst plw, label = fst (snd plw), why = snd (snd plw)\<rparr>"

definition levels :: "(int \<times> string \<times> string) list" where
  "levels = [(0, ''SAFE'', ''MS reliably positive, tight enclosure''),
             (1, ''WATCH'', ''positive but thin safety margin''),
             (2, ''REVIEW'', ''enclosure straddles the safety boundary''),
             (3, ''CRITICAL'', ''margin likely violated or very uncertain''),
             (4, ''HALT'', ''MS negative or enclosure dominated by uncertainty'')]"

definition threshold :: "(string, double) omap \<Rightarrow> string \<Rightarrow> double \<Rightarrow> double" where
  "threshold th k d = (case mget th k of None \<Rightarrow> d | Some v \<Rightarrow> v)"

definition classify_cs :: "double \<Rightarrow> double \<Rightarrow> (string, double) omap \<Rightarrow> crit_score" where
  "classify_cs c s th =
     (let t1 = threshold th ''P1'' (dlit (1 / 5)); t2 = threshold th ''P2'' (Fin (1 / 2));
          t3 = threshold th ''P3'' (Fin (3 / 4)); t4 = threshold th ''P4'' (dlit (9 / 10))
      in level c s (levels ! (if flt c t1 then 0 else if flt c t2 then 1 else if flt c t3 then 2
                              else if flt c t4 then 3 else 4)))"

definition snr_of :: "eval_result \<Rightarrow> double" where
  "snr_of r =
     fdiv RNear (fsub RNear (lo (ms r)) (residual r))
       (fadd RNear (fadd RNear (width (ms r)) (residual r)) (dlit (1 / 10 ^ 12)))"

definition cs_of :: "libm \<Rightarrow> double \<Rightarrow> double \<Rightarrow> double" where
  "cs_of L a s = fdiv RNear (Fin 1) (fadd RNear (Fin 1) (l_exp L (fmul RNear a s)))"

definition halt_nan :: "string \<Rightarrow> crit_score" where
  "halt_nan dash = \<lparr>cs = Fin 1, snr = NInf, priority = 4, label = ''HALT'',
     why = ''data corruption (NaN) '' @ dash @ '' maximum caution''\<rparr>"

definition has_nan :: "eval_result \<Rightarrow> bool" where
  "has_nan r = (lo (ms r) = NaN \<or> hi (ms r) = NaN \<or> residual r = NaN)"

definition criticality_cfg :: "libm \<Rightarrow> eval_result \<Rightarrow> crit_config \<Rightarrow> crit_score" where
  "criticality_cfg L r cfg =
     (if has_nan r then halt_nan ''-''
      else let s = snr_of r in classify_cs (cs_of L (alpha cfg) s) s (thresholds cfg))"

text \<open>The first overload writes its thresholds as literals; its NaN text has a long dash (UTF-8).\<close>

definition criticality :: "libm \<Rightarrow> eval_result \<Rightarrow> double \<Rightarrow> crit_score" where
  "criticality L r a =
     (if has_nan r then halt_nan [CHR 0xE2, CHR 0x80, CHR 0x94]
      else let s = snr_of r; c = cs_of L a s
           in level c s (levels ! (if flt c (dlit (1 / 5)) then 0 else if flt c (Fin (1 / 2)) then 1
                                   else if flt c (Fin (3 / 4)) then 2 else if flt c (dlit (9 / 10)) then 3 else 4)))"

section \<open>Reduction plan and abstention\<close>

definition is_hole :: "string \<Rightarrow> bool" where
  "is_hole l = (take 5 l = ''hole '')"

definition hole_id_of :: "string \<Rightarrow> string" where
  "hole_id_of l = (if is_hole l then drop 5 l else l)"

text \<open>Insertion by a descending key, behind the entries that are not smaller.\<close>

fun insert_desc :: "('a \<Rightarrow> double) \<Rightarrow> 'a \<Rightarrow> 'a list \<Rightarrow> 'a list" where
  "insert_desc f x [] = [x]"
| "insert_desc f x (y # ys) = (if flt (f y) (f x) then x # y # ys else y # insert_desc f x ys)"

definition sort_desc :: "('a \<Rightarrow> double) \<Rightarrow> 'a list \<Rightarrow> 'a list" where
  "sort_desc f xs = foldl (\<lambda>acc x. insert_desc f x acc) [] xs"

record crit_reduction =
  hole_id :: string
  width_contribution :: double
  suggestion :: string

definition reduction_of :: "double \<Rightarrow> trace \<Rightarrow> crit_reduction" where
  "reduction_of tot t =
     \<lparr>hole_id = hole_id_of (t_label t), width_contribution = fdiv RNear (t_width t) tot,
      suggestion = ''add physical bounds / input+output measurements for '' @ hole_id_of (t_label t)\<rparr>"

definition reduction_plan :: "eval_result \<Rightarrow> crit_reduction list" where
  "reduction_plan r =
     (let tot = total_width (r_trace r)
      in if fle tot (Fin 0) then []
         else sort_desc width_contribution (map (reduction_of tot) (filter t_holed (r_trace r))))"

record abstain_reason =
  node_id :: string
  ar_label :: string
  ar_kind :: string
  width_share :: double
  instruction :: string

record abstain_report =
  is_abstain :: bool
  reasons :: "abstain_reason list"
  summary :: string

definition reason_of :: "double \<Rightarrow> trace \<Rightarrow> abstain_reason" where
  "reason_of tot t =
     \<lparr>node_id = take 16 (hex (t_node t)), ar_label = t_label t,
      ar_kind = (if t_holed t then (if t_regime t = CHR ''R'' then ''hole_refuted'' else ''hole_phys'')
                 else ''disjunction''),
      width_share = fdiv RNear (t_width t) tot,
      instruction =
        (if t_holed t
         then (if t_regime t = CHR ''R''
               then ''wrapper refuted '' @ [CHR 0xE2, CHR 0x80, CHR 0x94]
                    @ '' revisit the regularity assumption for '' @ hole_id_of (t_label t)
               else ''no wrapper '' @ [CHR 0xE2, CHR 0x80, CHR 0x94]
                    @ '' add measured input/output bounds for '' @ hole_id_of (t_label t))
         else ''formula ambiguity '' @ [CHR 0xE2, CHR 0x80, CHR 0x94]
              @ '' disambiguate the underlying cell/formula'')\<rparr>"

text \<open>\<open>%.0f\<close>: the nearest integer, ties to even.\<close>

fun fmt_f0 :: "double \<Rightarrow> string" where
  "fmt_f0 NaN = ''nan''"
| "fmt_f0 PInf = ''inf''"
| "fmt_f0 NInf = ''-inf''"
| "fmt_f0 NegZero = ''-0''"
| "fmt_f0 (Fin r) = (if r < 0 then CHR ''-'' # show_nat (nat (- round_int RNear r)) else show_nat (nat (round_int RNear r)))"

definition explain_abstain :: "eval_result \<Rightarrow> abstain_report" where
  "explain_abstain r =
     (let t0 = total_width (r_trace r); tot = (if fle t0 (Fin 0) then Fin 1 else t0);
          rs = sort_desc width_share
                 (map (reason_of tot) (filter (\<lambda>t. t_holed t \<or> t_label t = ''disj'') (r_trace r)));
          hs = filter (\<lambda>a. take 4 (ar_kind a) = ''hole'') rs;
          share = foldl (\<lambda>h a. fadd RNear h (width_share a)) (Fin 0) hs
      in \<lparr>is_abstain = True, reasons = rs,
          summary = (if rs = [] then ''no decomposable uncertainty source''
                     else show_nat (length hs) @ '' hole(s) account for '' @ fmt_f0 (fmul RNear share (Fin 100))
                          @ ''% of uncertainty'')\<rparr>)"

section \<open>Lemmas\<close>

lemma threshold_default:
  "threshold default_thresholds ''P1'' d = dlit (1 / 5)" "threshold default_thresholds ''P2'' d = Fin (1 / 2)"
  "threshold default_thresholds ''P3'' d = Fin (3 / 4)" "threshold default_thresholds ''P4'' d = dlit (9 / 10)"
  by (simp_all add: threshold_def default_thresholds_def)

lemma criticality_overloads:
  "\<not> has_nan r \<Longrightarrow> criticality_cfg L r default_config = criticality L r (Fin 3)"
  by (simp add: criticality_cfg_def criticality_def classify_cs_def default_config_def threshold_default Let_def)

text \<open>The label and the priority of a score belong together.\<close>

definition level_ok :: "crit_score \<Rightarrow> bool" where
  "level_ok c =
     ((priority c, label c) \<in> {(0, ''SAFE''), (1, ''WATCH''), (2, ''REVIEW''), (3, ''CRITICAL''), (4, ''HALT'')})"

lemma level_ok_level: "i < 5 \<Longrightarrow> level_ok (level c s (levels ! i))"
proof -
  have "\<forall>i < 5. (fst (levels ! i), fst (snd (levels ! i)))
     \<in> {(0, ''SAFE''), (1, ''WATCH''), (2, ''REVIEW''), (3, ''CRITICAL''), (4, ''HALT'')}" by code_simp
  then show "i < 5 \<Longrightarrow> ?thesis" unfolding level_ok_def level_def crit_score.simps by blast
qed

lemma level_ok_halt: "level_ok (halt_nan d)"
  by (simp add: halt_nan_def level_ok_def)

lemma criticality_level_ok: "level_ok (criticality_cfg L r cfg)" "level_ok (criticality L r a)"
  by (simp_all add: criticality_cfg_def criticality_def classify_cs_def Let_def level_ok_halt level_ok_level)

lemma insert_desc_mset: "mset (insert_desc f x ys) = add_mset x (mset ys)"
  by (induction ys) auto

lemma foldl_insert_mset: "mset (foldl (\<lambda>acc x. insert_desc f x acc) ys xs) = mset ys + mset xs"
  by (induction xs arbitrary: ys) (auto simp: insert_desc_mset)

lemma sort_desc_mset: "mset (sort_desc f xs) = mset xs"
  by (simp add: sort_desc_def foldl_insert_mset)

definition descending :: "('a \<Rightarrow> double) \<Rightarrow> 'a list \<Rightarrow> bool" where
  "descending f xs \<longleftrightarrow> sorted_wrt (\<lambda>x y. fle (f y) (f x)) xs"

lemma insert_desc_sorted:
  "descending f ys \<Longrightarrow> f x \<noteq> NaN \<Longrightarrow> \<forall>y\<in>set ys. f y \<noteq> NaN \<Longrightarrow> descending f (insert_desc f x ys)"
proof (induction ys)
  case (Cons y ys)
  have s: "set (insert_desc f x ys) = insert x (set ys)"
    using insert_desc_mset[of f x ys] by (metis set_mset_add_mset_insert set_mset_mset)
  show ?case
  proof (cases "flt (f y) (f x)")
    case True
    then show ?thesis using Cons.prems by (auto simp: descending_def intro: flt_fle fle_trans)
  next
    case False
    then have "fle (f x) (f y)" using Cons.prems not_flt by auto
    then show ?thesis using False Cons s by (auto simp: descending_def)
  qed
qed (simp add: descending_def)

lemma sort_desc_sorted: "\<forall>x\<in>set xs. f x \<noteq> NaN \<Longrightarrow> descending f (sort_desc f xs)"
proof -
  have "descending f ys \<Longrightarrow> \<forall>x\<in>set (ys @ xs). f x \<noteq> NaN \<Longrightarrow> descending f (foldl (\<lambda>acc x. insert_desc f x acc) ys xs)" for ys
  proof (induction xs arbitrary: ys)
    case (Cons x xs)
    have s: "set (insert_desc f x ys) = insert x (set ys)"
      using insert_desc_mset[of f x ys] by (metis set_mset_add_mset_insert set_mset_mset)
    show ?case using Cons.prems by (auto intro!: Cons.IH insert_desc_sorted simp: s)
  qed simp
  from this[of "[]"] show "\<forall>x\<in>set xs. f x \<noteq> NaN \<Longrightarrow> descending f (sort_desc f xs)"
    by (simp add: sort_desc_def descending_def)
qed

end
