(* ===== verification/Fve_Libm.thy ===== *)
theory Fve_Libm
  imports Fve_Verifier
begin

text \<open>
  A mathematical library that meets the specification \<open>libm_ok\<close>, so that the theorems with that
  hypothesis are not empty: every function rounds the real result down.
\<close>

definition real_fun :: "(real \<Rightarrow> real) \<Rightarrow> double \<Rightarrow> double \<Rightarrow> double \<Rightarrow> double" where
  "real_fun f ninf pinf d =
     (if d = NaN then NaN else if d = NInf then ninf else if d = PInf then pinf else fround RDown (f (fval d)))"

definition ideal_libm :: libm where
  "ideal_libm =
     \<lparr>l_sin = real_fun sin NaN NaN, l_cos = real_fun cos NaN NaN, l_tan = real_fun tan NaN NaN,
      l_exp = real_fun exp (Fin 0) PInf, l_log = real_fun ln NaN PInf,
      l_pow = (\<lambda>x y. fround RDown (fval x powr fval y))\<rparr>"

lemma is_fin_real_fun: "is_fin d \<Longrightarrow> real_fun f n p d = fround RDown (f (fval d))"
  by (cases d) (simp_all add: real_fun_def)

lemma ideal_libm_ok: "libm_ok ideal_libm"
  by (auto simp: libm_ok_def exp_ok_def log_ok_def ideal_libm_def is_fin_real_fun faithful_def)
    (auto simp: real_fun_def)

end
