(* ===== verification/Fve_Workbook.thy ===== *)
theory Fve_Workbook
  imports Fve_Json "HOL-Library.Product_Lexorder"
begin

text \<open>
  The workbook (\<open>model/workbook\<close>): cell references in A1 notation, sheets as ordered maps from
  positions to cells, names, and the cell identifiers of the oracle. \<open>None\<close> as the result of
  \<open>col_index\<close> and \<open>parse_a1\<close> is the signed overflow of the column number or the exception of
  \<open>std::stoi\<close>. The main lemma is that a printed reference parses back to its position.
\<close>

section \<open>References\<close>

definition int_max :: int where
  "int_max = 2147483647"

record cell_ref =
  r_sheet :: int
  r_row :: int
  r_col :: int
  abs_row :: bool
  abs_col :: bool

definition ref_default :: cell_ref where
  "ref_default = \<lparr>r_sheet = 0, r_row = 0, r_col = 0, abs_row = False, abs_col = False\<rparr>"

definition ref_less :: "cell_ref \<Rightarrow> cell_ref \<Rightarrow> bool" where
  "ref_less a b =
     (if r_sheet a \<noteq> r_sheet b then r_sheet a < r_sheet b
      else if r_row a \<noteq> r_row b then r_row a < r_row b
      else r_col a < r_col b)"

definition ref_eq :: "cell_ref \<Rightarrow> cell_ref \<Rightarrow> bool" where
  "ref_eq a b = (r_sheet a = r_sheet b \<and> r_row a = r_row b \<and> r_col a = r_col b)"

datatype cell_id = CellId (c_sheet: int) (c_row: int) (c_col: int)

definition cell_before :: "cell_id \<Rightarrow> cell_id \<Rightarrow> bool" where
  "cell_before a b =
     (if c_sheet a \<noteq> c_sheet b then c_sheet a < c_sheet b
      else if c_row a \<noteq> c_row b then c_row a < c_row b
      else c_col a < c_col b)"

text \<open>The comparison of the code is the order of the type, so that cells are keys of ordered maps.\<close>

instantiation cell_id :: linorder
begin

definition less_cell_id :: "cell_id \<Rightarrow> cell_id \<Rightarrow> bool" where
  "less_cell_id = cell_before"

definition less_eq_cell_id :: "cell_id \<Rightarrow> cell_id \<Rightarrow> bool" where
  "less_eq_cell_id a b = (a < b \<or> a = b)"

instance
proof
  fix a b c :: cell_id
  show "(a < b) = (a \<le> b \<and> \<not> b \<le> a)" by (auto simp: less_cell_id_def cell_before_def less_eq_cell_id_def split: if_splits)
  show "a \<le> a" by (simp add: less_eq_cell_id_def)
  show "a \<le> b \<Longrightarrow> b \<le> c \<Longrightarrow> a \<le> c" by (auto simp: less_cell_id_def cell_before_def less_eq_cell_id_def split: if_splits)
  show "a \<le> b \<Longrightarrow> b \<le> a \<Longrightarrow> a = b" by (auto simp: less_cell_id_def cell_before_def less_eq_cell_id_def split: if_splits)
  show "a \<le> b \<or> b \<le> a"
    by (cases a; cases b) (auto simp: less_cell_id_def cell_before_def less_eq_cell_id_def)
qed

end

section \<open>Columns\<close>

fun col_letters :: "nat \<Rightarrow> string \<Rightarrow> string" where
  "col_letters 0 s = s"
| "col_letters (Suc c) s = col_letters (c div 26) (char_of (65 + c mod 26) # s)"

declare col_letters.simps(2) [simp del]

definition col_name :: "int \<Rightarrow> string" where
  "col_name col = col_letters (nat (col + 1)) []"

definition is_upper :: "char \<Rightarrow> bool" where
  "is_upper c = (65 \<le> (of_char c :: nat) \<and> (of_char c :: nat) \<le> 90)"

definition is_lower :: "char \<Rightarrow> bool" where
  "is_lower c = (97 \<le> (of_char c :: nat) \<and> (of_char c :: nat) \<le> 122)"

definition is_alpha :: "char \<Rightarrow> bool" where
  "is_alpha c = (is_upper c \<or> is_lower c)"

definition upper_char :: "char \<Rightarrow> char" where
  "upper_char c = (if is_lower c then char_of (of_char c - 32 :: nat) else c)"

definition lower_char :: "char \<Rightarrow> char" where
  "lower_char c = (if is_upper c then char_of (of_char c + 32 :: nat) else c)"

text \<open>The loop of \<open>col_index\<close>: it stops at the first character that is no letter.\<close>

fun col_acc :: "int \<Rightarrow> string \<Rightarrow> int option" where
  "col_acc c [] = Some c"
| "col_acc c (ch # s) =
     (let u = upper_char ch
      in if \<not> is_upper u then Some c
         else let c' = c * 26 + (int (of_char u) - 64)
              in if int_max < c' then None else col_acc c' s)"

definition col_index :: "string \<Rightarrow> int option" where
  "col_index s = map_option (\<lambda>c. c - 1) (col_acc 0 s)"

definition a1 :: "int \<Rightarrow> int \<Rightarrow> string" where
  "a1 row col = col_name col @ show_int (row + 1)"

definition stoi_digits :: "string \<Rightarrow> int option" where
  "stoi_digits ds = (let v = int (digits_val ds) in if int_max < v then None else Some v)"

text \<open>The output of \<open>parse_a1\<close>: its result, the row and column if it wrote them, and the two flags.\<close>

record a1_parse =
  a1_ok :: bool
  a1_pos :: "(int \<times> int) option"
  a1_ar :: bool
  a1_ac :: bool

definition take_dollar :: "string \<Rightarrow> bool \<times> string" where
  "take_dollar s = (case s of [] \<Rightarrow> (False, []) | c # s' \<Rightarrow> if c = CHR ''$'' then (True, s') else (False, s))"

definition parse_a1 :: "string \<Rightarrow> a1_parse option" where
  "parse_a1 s =
     (let (ac, s1) = take_dollar s;
          letters = takeWhile is_alpha s1; s2 = dropWhile is_alpha s1
      in if letters = [] then Some \<lparr>a1_ok = False, a1_pos = None, a1_ar = False, a1_ac = ac\<rparr>
         else
           let (ar, s3) = take_dollar s2;
               ds = takeWhile is_digit s3; s4 = dropWhile is_digit s3
           in if ds = [] then Some \<lparr>a1_ok = False, a1_pos = None, a1_ar = ar, a1_ac = ac\<rparr>
              else case col_index letters of None \<Rightarrow> None
                 | Some c \<Rightarrow>
                     (case stoi_digits ds of None \<Rightarrow> None
                      | Some r \<Rightarrow> Some \<lparr>a1_ok = (s4 = []), a1_pos = Some (r - 1, c), a1_ar = ar, a1_ac = ac\<rparr>))"

section \<open>Sheets\<close>

record cell =
  has_value :: bool
  cell_value :: double
  cell_text :: string
  cell_formula :: string
  is_input :: bool

definition cell_default :: cell where
  "cell_default = \<lparr>has_value = False, cell_value = Fin 0, cell_text = [], cell_formula = [], is_input = False\<rparr>"

record sheet =
  sh_name :: string
  sh_cells :: "(int \<times> int, cell) omap"

definition sheet_at :: "sheet \<Rightarrow> int \<Rightarrow> int \<Rightarrow> cell option" where
  "sheet_at sh r c = mget (sh_cells sh) (r, c)"

definition sheet_set :: "int \<Rightarrow> int \<Rightarrow> cell \<Rightarrow> sheet \<Rightarrow> sheet" where
  "sheet_set r c v sh = sh\<lparr>sh_cells := mput (r, c) v (sh_cells sh)\<rparr>"

record wb_name =
  wn_id :: string
  wn_target :: cell_ref
  wn_sheet :: int
  wn_is_range :: bool
  wn_end :: cell_ref

record workbook =
  wb_sheets :: "sheet list"
  wb_names :: "(string, wb_name) omap"

fun index_of :: "('a \<Rightarrow> bool) \<Rightarrow> int \<Rightarrow> 'a list \<Rightarrow> int" where
  "index_of P i [] = - 1"
| "index_of P i (x # xs) = (if P x then i else index_of P (i + 1) xs)"

definition sheet_index :: "workbook \<Rightarrow> string \<Rightarrow> int" where
  "sheet_index wb nm = index_of (\<lambda>s. sh_name s = nm) 0 (wb_sheets wb)"

text \<open>\<open>Workbook::sheet\<close> finds or adds a sheet; the reference it returns is here its index.\<close>

definition wb_sheet :: "string \<Rightarrow> workbook \<Rightarrow> nat \<times> workbook" where
  "wb_sheet nm wb =
     (let i = sheet_index wb nm
      in if 0 \<le> i then (nat i, wb)
         else (length (wb_sheets wb), wb\<lparr>wb_sheets := wb_sheets wb @ [\<lparr>sh_name = nm, sh_cells = []\<rparr>]\<rparr>))"

definition wb_key_ref :: "workbook \<Rightarrow> cell_ref \<Rightarrow> string" where
  "wb_key_ref wb r =
     ((if 0 \<le> r_sheet r \<and> r_sheet r < int (length (wb_sheets wb))
       then sh_name (wb_sheets wb ! nat (r_sheet r)) else show_int (r_sheet r))
      @ CHR ''!'' # a1 (r_row r) (r_col r))"

definition wb_key :: "workbook \<Rightarrow> int \<Rightarrow> int \<Rightarrow> int \<Rightarrow> string" where
  "wb_key wb sh r c = wb_key_ref wb (ref_default\<lparr>r_sheet := sh, r_row := r, r_col := c\<rparr>)"

definition ref_str :: "workbook \<Rightarrow> cell_ref \<Rightarrow> string" where
  "ref_str wb r = wb_key_ref wb r"

section \<open>A printed reference parses back\<close>

lemma col_char: "c < 26 \<Longrightarrow> is_upper (char_of (65 + c)) \<and> (of_char (char_of (65 + c) :: char) :: nat) = 65 + c
    \<and> upper_char (char_of (65 + c)) = char_of (65 + c)"
  by (simp add: is_upper_def upper_char_def is_lower_def)

lemma col_letters_upper: "list_all is_upper s \<Longrightarrow> list_all is_upper (col_letters c s)"
  by (induction c s rule: col_letters.induct) (simp_all add: col_letters.simps col_char)

lemma col_letters_nonempty: "s \<noteq> [] \<Longrightarrow> col_letters c s \<noteq> []"
  by (induction c s rule: col_letters.induct) (simp_all add: col_letters.simps)

lemma col_acc_letters: "int c \<le> int_max \<Longrightarrow> col_acc 0 (col_letters c s) = col_acc (int c) s"
proof (induction c s rule: col_letters.induct)
  case (2 c s)
  have d: "int (c div 26) * 26 + int (c mod 26) = int c"
    by (metis div_mult_mod_eq of_nat_add of_nat_mult of_nat_numeral)
  have k: "int (65 + c mod 26) - 64 = int (c mod 26) + 1" by simp
  have "int (c div 26) \<le> int_max" using "2.prems" by (simp add: zdiv_int int_max_def)
  then have "col_acc 0 (col_letters (Suc c) s) = col_acc (int (c div 26)) (char_of (65 + c mod 26) # s)"
    using "2.IH" by (simp add: col_letters.simps)
  also have "\<dots> = col_acc (int (Suc c)) s"
    using col_char[of "c mod 26"] d "2.prems" by (simp add: Let_def algebra_simps del: of_nat_mod)
  finally show ?case .
qed simp

lemma col_index_name: "0 \<le> col \<Longrightarrow> col < int_max \<Longrightarrow> col_index (col_name col) = Some col"
  by (simp add: col_index_def col_name_def col_acc_letters)

lemma col_name_letters: "0 \<le> col \<Longrightarrow> col_name col \<noteq> [] \<and> list_all is_upper (col_name col)"
proof -
  assume "0 \<le> col"
  then obtain c where "nat (col + 1) = Suc c" by (cases "nat (col + 1)") auto
  then show ?thesis by (simp add: col_name_def col_letters.simps col_letters_nonempty col_letters_upper col_char)
qed

lemma takeWhile_all: "list_all P xs \<Longrightarrow> ys = [] \<or> \<not> P (ys ! 0) \<Longrightarrow> takeWhile P (xs @ ys) = xs \<and> dropWhile P (xs @ ys) = ys"
  by (induction xs) (cases ys; auto)+

lemma take_dollar_other: "s = [] \<or> s ! 0 \<noteq> CHR ''$'' \<Longrightarrow> take_dollar s = (False, s)"
  by (cases s) (auto simp: take_dollar_def)

lemma upper_not_dollar: "is_alpha c \<or> is_digit c \<Longrightarrow> c \<noteq> CHR ''$''"
  by (auto simp: is_alpha_def is_upper_def is_lower_def is_digit_def)

lemma digit_not_alpha: "is_digit c \<Longrightarrow> \<not> is_alpha c"
  by (auto simp: is_alpha_def is_upper_def is_lower_def is_digit_def)

lemma parse_a1_a1:
  assumes "0 \<le> row" "row < int_max" "0 \<le> col" "col < int_max"
  shows "parse_a1 (a1 row col) = Some \<lparr>a1_ok = True, a1_pos = Some (row, col), a1_ar = False, a1_ac = False\<rparr>"
proof -
  define L D where "L = col_name col" and "D = show_nat (nat (row + 1))"
  have L: "L \<noteq> []" "list_all is_alpha L" "col_index L = Some col"
    using col_name_letters[of col] col_index_name[of col] assms by (auto simp: L_def is_alpha_def list_all_iff)
  have D: "D \<noteq> []" "list_all is_digit D" "stoi_digits D = Some (row + 1)"
    using assms by (simp_all add: D_def show_nat_digits stoi_digits_def int_max_def)
  have a: "a1 row col = L @ D" using assms by (simp add: a1_def L_def D_def show_int_def)
  have hd: "is_alpha (L ! 0)" "is_digit (D ! 0)" using L D by (simp_all add: list_all_length)
  have t1: "take_dollar (L @ D) = (False, L @ D)"
    by (rule take_dollar_other) (use L hd(1) upper_not_dollar[of "L ! 0"] in \<open>auto simp: nth_append\<close>)
  have t2: "take_dollar D = (False, D)"
    by (rule take_dollar_other) (use hd(2) upper_not_dollar[of "D ! 0"] in auto)
  have s: "takeWhile is_alpha (L @ D) = L \<and> dropWhile is_alpha (L @ D) = D"
    by (rule takeWhile_all) (use L digit_not_alpha[OF hd(2)] in auto)
  have d: "takeWhile is_digit D = D" "dropWhile is_digit D = []"
    using D(2) by (simp_all add: takeWhile_digits dropWhile_digits)
  show ?thesis by (simp add: parse_a1_def a t1 t2 s d L D)
qed

lemma a1_inject:
  assumes "0 \<le> r" "r < int_max" "0 \<le> c" "c < int_max" "0 \<le> r'" "r' < int_max" "0 \<le> c'" "c' < int_max"
    and "a1 r c = a1 r' c'"
  shows "r = r' \<and> c = c'"
proof -
  have "parse_a1 (a1 r c) = parse_a1 (a1 r' c')" using assms(9) by (rule arg_cong)
  then show ?thesis unfolding parse_a1_a1[OF assms(1-4)] parse_a1_a1[OF assms(5-8)] by simp
qed

section \<open>Sheets as stores of cells\<close>

interpretation sc: keyed_store "\<lambda>sh rc. sheet_at sh (fst rc) (snd rc)" "\<lambda>rc. sheet_set (fst rc) (snd rc)"
    "\<lambda>sh. mwf (sh_cells sh)"
  by unfold_locales (auto simp: sheet_at_def sheet_set_def mget_mput)

lemma index_of_bounds: "index_of P i xs = - 1 \<or> i \<le> index_of P i xs \<and> index_of P i xs < i + int (length xs)"
  by (induction P i xs rule: index_of.induct) auto

lemma index_of_found:
  "0 \<le> i \<Longrightarrow> 0 \<le> index_of P i xs \<Longrightarrow> P (xs ! nat (index_of P i xs - i))"
proof (induction P i xs rule: index_of.induct)
  case (2 P i x xs)
  show ?case
  proof (cases "P x")
    case False
    then have e: "index_of P i (x # xs) = index_of P (i + 1) xs" by simp
    have le: "i + 1 \<le> index_of P (i + 1) xs" using "2.prems" index_of_bounds[of P "i + 1" xs] e by auto
    then have "nat (index_of P (i + 1) xs - i) = Suc (nat (index_of P (i + 1) xs - (i + 1)))" by auto
    then show ?thesis using "2.IH"[OF False] "2.prems" le e by simp
  qed simp
qed simp

text \<open>The sheet that \<open>Workbook::sheet\<close> returns has the name, and a second call changes nothing.\<close>

lemma index_of_snoc: "index_of P i (xs @ [x]) = (if index_of P i xs \<noteq> - 1 then index_of P i xs else if P x then i + int (length xs) else - 1)"
  if "0 \<le> i"
  using that by (induction P i xs rule: index_of.induct) auto

lemma wb_sheet_ok:
  assumes "wb_sheet nm wb = (i, wb')"
  shows "i < length (wb_sheets wb')" "sh_name (wb_sheets wb' ! i) = nm" "wb_sheet nm wb' = (i, wb')"
proof -
  let ?P = "\<lambda>s. sh_name s = nm"
  let ?k = "sheet_index wb nm"
  have b: "?k = - 1 \<or> 0 \<le> ?k \<and> ?k < int (length (wb_sheets wb))"
    using index_of_bounds[of ?P 0 "wb_sheets wb"] by (simp add: sheet_index_def)
  have "i < length (wb_sheets wb') \<and> sh_name (wb_sheets wb' ! i) = nm \<and> wb_sheet nm wb' = (i, wb')"
  proof (cases "0 \<le> ?k")
    case True
    have "sh_name (wb_sheets wb ! nat ?k) = nm"
      using index_of_found[of 0 ?P "wb_sheets wb"] True by (simp add: sheet_index_def)
    moreover have "nat ?k < length (wb_sheets wb)" using True b by linarith
    moreover have "wb_sheet nm wb = (nat ?k, wb)" using True by (simp add: wb_sheet_def Let_def)
    moreover from this have "i = nat ?k" "wb' = wb" using assms by simp_all
    ultimately show ?thesis using assms by metis
  next
    case False
    then have k: "?k = - 1" using b by simp
    define s where "s = \<lparr>sh_name = nm, sh_cells = []\<rparr>"
    have i: "i = length (wb_sheets wb)" and w: "wb_sheets wb' = wb_sheets wb @ [s]"
      using assms False by (auto simp: wb_sheet_def Let_def s_def)
    have "sheet_index wb' nm = int i"
      using index_of_snoc[of 0 ?P "wb_sheets wb" s] k by (simp add: sheet_index_def w i s_def)
    then show ?thesis by (simp add: wb_sheet_def w i) (simp add: s_def)
  qed
  then show "i < length (wb_sheets wb')" "sh_name (wb_sheets wb' ! i) = nm" "wb_sheet nm wb' = (i, wb')" by auto
qed

end
