(* ===== verification/Fve_Formula.thy ===== *)
theory Fve_Formula
  imports Fve_Workbook
begin

text \<open>
  The spreadsheet formula reader (\<open>extractor/formula\<close>): the lexer over the remaining text, the
  precedence-climbing parser over the current token, the references a formula makes and its
  printed form. The parser is a group of mutually recursive functions with fuel; the lemmas show
  that six steps per remaining character are enough for every text, so that it always returns.
  \<open>XThrow\<close> is the exception or overflow inside \<open>parse_a1\<close>, which the parser does not catch.
\<close>

section \<open>Trees\<close>

datatype xast =
    XNum double
  | XStr string
  | XCell string cell_ref
  | XRange string cell_ref cell_ref
  | XName string
  | XCall string "xast list"
  | XBin string xast xast
  | XUn string xast

section \<open>Tokens\<close>

datatype tk = TNum | TStr | TIdent | TRef | TOp | TLP | TRP | TComma | TEnd

record tok =
  tt :: tk
  ts :: string
  tnum :: double

abbreviation Tok :: "tk \<Rightarrow> string \<Rightarrow> tok" where
  "Tok t s \<equiv> \<lparr>tt = t, ts = s, tnum = Fin 0\<rparr>"

definition is_alnum :: "char \<Rightarrow> bool" where
  "is_alnum c = (is_alpha c \<or> is_digit c)"

definition is_blank :: "char \<Rightarrow> bool" where
  "is_blank c = (c = CHR '' '' \<or> c = CHR 9 \<or> c = CHR 10)"

definition lex_skip :: "string \<Rightarrow> string" where
  "lex_skip s = dropWhile is_blank s"

definition starts :: "(char \<Rightarrow> bool) \<Rightarrow> string \<Rightarrow> bool" where
  "starts P s = (case s of [] \<Rightarrow> False | c # _ \<Rightarrow> P c)"

definition is_ref_start :: "string \<Rightarrow> bool" where
  "is_ref_start s = starts (\<lambda>c. c = CHR ''$'' \<or> is_alpha c) s"

definition ref_char :: "char \<Rightarrow> bool" where
  "ref_char c = (is_alnum c \<or> c = CHR ''$'' \<or> c = CHR '':'')"

text \<open>The body of a string token after its opening quote; a doubled quote is one quote.\<close>

fun string_tok :: "string \<Rightarrow> string \<times> string" where
  "string_tok [] = ([], [])"
| "string_tok (c # s) =
     (if c = CHR ''\"''
      then (if starts (\<lambda>d. d = CHR ''\"'') s
            then (case string_tok (tl s) of (t, r) \<Rightarrow> (CHR ''\"'' # t, r)) else ([], s))
      else (case string_tok s of (t, r) \<Rightarrow> (c # t, r)))"

text \<open>\<open>std::strtod\<close> on a token of digits, points and an exponent: the longest numeral at its start.\<close>

definition strtod :: "string \<Rightarrow> double" where
  "strtod s =
     (let d1 = takeWhile is_digit s; s2 = dropWhile is_digit s;
          (d2, s3) = (case s2 of [] \<Rightarrow> ([], [])
                      | c # s' \<Rightarrow> (if c = CHR ''.'' then (takeWhile is_digit s', dropWhile is_digit s') else ([], s2)))
      in fround RNear (real (digits_val (d1 @ d2)) * 10 powi (take_exp s3 - int (length d2))))"

definition lex_number :: "string \<Rightarrow> tok \<times> string" where
  "lex_number s =
     (let m = takeWhile (\<lambda>c. is_digit c \<or> c = CHR ''.'') s; r = dropWhile (\<lambda>c. is_digit c \<or> c = CHR ''.'') s;
          (e, r') =
            (case r of [] \<Rightarrow> ([], [])
             | c # r1 \<Rightarrow>
                 (if c = CHR ''e'' \<or> c = CHR ''E''
                  then let sg = (if starts (\<lambda>d. d = CHR ''+'' \<or> d = CHR ''-'') r1 then take 1 r1 else []);
                           r2 = drop (length sg) r1
                       in (c # sg @ takeWhile is_digit r2, dropWhile is_digit r2)
                  else ([], r)))
      in (\<lparr>tt = TNum, ts = m @ e, tnum = strtod (m @ e)\<rparr>, r'))"

definition sheet_ref :: "string \<Rightarrow> tok \<times> string" where
  "sheet_ref s =
     (let q = CHR 39; nm = takeWhile (\<lambda>c. c \<noteq> q) s; r = drop 1 (dropWhile (\<lambda>c. c \<noteq> q) s)
      in if starts (\<lambda>c. c = CHR ''!'') r
         then (Tok TRef (q # nm @ [q, CHR ''!''] @ takeWhile ref_char (tl r)), dropWhile ref_char (tl r))
         else (Tok TRef (q # nm @ [q]), r))"

definition looks_ref :: "string \<Rightarrow> bool" where
  "looks_ref w =
     (let w1 = snd (take_dollar w); letters = takeWhile is_alpha w1;
          w2 = snd (take_dollar (dropWhile is_alpha w1)); ds = takeWhile is_digit w2
      in letters \<noteq> [] \<and> ds \<noteq> [] \<and> dropWhile is_digit w2 = [])"

definition word_char :: "char \<Rightarrow> bool" where
  "word_char c = (is_alnum c \<or> c = CHR ''$'' \<or> c = CHR ''_'' \<or> c = CHR ''.'')"

definition ident_or_ref :: "string \<Rightarrow> tok \<times> string" where
  "ident_or_ref s =
     (let w = takeWhile word_char s; r = dropWhile word_char s; rc = (\<lambda>c. is_alnum c \<or> c = CHR ''$'')
      in if starts (\<lambda>c. c = CHR ''!'') r
         then (Tok TRef (w @ CHR ''!'' # takeWhile ref_char (tl r)), dropWhile ref_char (tl r))
         else if looks_ref w \<and> starts (\<lambda>c. c = CHR '':'') r \<and> is_ref_start (tl r)
         then (Tok TRef (w @ CHR '':'' # takeWhile rc (tl r)), dropWhile rc (tl r))
         else if starts (\<lambda>c. c = CHR ''('') (lex_skip r) then (Tok TIdent w, lex_skip r)
         else if looks_ref w then (Tok TRef w, r)
         else (Tok TIdent w, r))"

definition lex_op :: "string \<Rightarrow> tok \<times> string" where
  "lex_op s =
     (let c = s ! 0; r = tl s
      in if (c = CHR ''<'' \<or> c = CHR ''>'') \<and> starts (\<lambda>d. d = CHR ''='') r then (Tok TOp [c, CHR ''=''], tl r)
         else if c = CHR ''<'' \<and> starts (\<lambda>d. d = CHR ''>'') r then (Tok TOp ''<>'', tl r)
         else (Tok TOp [c], r))"

definition lex_next :: "string \<Rightarrow> tok \<times> string" where
  "lex_next s0 =
     (let s = lex_skip s0
      in case s of [] \<Rightarrow> (Tok TEnd [], [])
         | c # r \<Rightarrow>
             (if c = CHR ''('' then (Tok TLP ''('', r)
              else if c = CHR '')'' then (Tok TRP '')'', r)
              else if c = CHR '','' then (Tok TComma '','', r)
              else if c = CHR ''\"'' then (case string_tok r of (t, r') \<Rightarrow> (Tok TStr t, r'))
              else if c = CHR 39 then sheet_ref r
              else if is_digit c \<or> (c = CHR ''.'' \<and> starts is_digit r) then lex_number s
              else if is_alpha c \<or> c = CHR ''$'' \<or> c = CHR ''_'' then ident_or_ref s
              else lex_op s))"

section \<open>References in tokens\<close>

definition split_sheet :: "string \<Rightarrow> string \<times> string" where
  "split_sheet raw =
     (if CHR ''!'' \<notin> set raw then ([], raw)
      else let body = rev (takeWhile (\<lambda>c. c \<noteq> CHR ''!'') (rev raw));
               sh = take (length raw - length body - 1) raw
           in ((if sh \<noteq> [] \<and> sh ! 0 = CHR 39 \<and> last sh = CHR 39 then take (length sh - 2) (drop 1 sh) else sh), body))"

definition ref_at :: "a1_parse \<Rightarrow> cell_ref" where
  "ref_at p = (let (r, c) = (case a1_pos p of Some rc \<Rightarrow> rc | None \<Rightarrow> (0, 0))
     in ref_default\<lparr>r_row := r, r_col := c, abs_row := a1_ar p, abs_col := a1_ac p\<rparr>)"

definition make_ref :: "string \<Rightarrow> xast option" where
  "make_ref raw =
     (let (sh, body) = split_sheet raw; b1 = takeWhile (\<lambda>c. c \<noteq> CHR '':'') body
      in if CHR '':'' \<in> set body
         then (case parse_a1 b1 of None \<Rightarrow> None
               | Some p \<Rightarrow> (case parse_a1 (drop (length b1 + 1) body) of None \<Rightarrow> None
                   | Some q \<Rightarrow> Some (XRange sh (ref_at p)
                       (if a1_ok q then ref_at (q\<lparr>a1_ar := False, a1_ac := False\<rparr>) else ref_default))))
         else (case parse_a1 body of None \<Rightarrow> None
               | Some p \<Rightarrow> Some (if a1_ok p then XCell sh (ref_at p) else XName body)))"

section \<open>The parser\<close>

record pst =
  p_cur :: tok
  p_rest :: string
  p_ok :: bool
  p_err :: string

datatype ('a, 's) xres = XOk 'a 's | XThrow | XFuel

fun xbind :: "('a, 's) xres \<Rightarrow> ('a \<Rightarrow> 's \<Rightarrow> ('b, 't) xres) \<Rightarrow> ('b, 't) xres" where
  "xbind (XOk x st) k = k x st"
| "xbind XThrow k = XThrow"
| "xbind XFuel k = XFuel"

definition p_adv :: "pst \<Rightarrow> pst" where
  "p_adv st = (let (t, r) = lex_next (p_rest st) in st\<lparr>p_cur := t, p_rest := r\<rparr>)"

definition p_fail :: "string \<Rightarrow> pst \<Rightarrow> pst" where
  "p_fail m st = (if p_ok st then st\<lparr>p_ok := False, p_err := m\<rparr> else st)"

definition prec :: "string \<Rightarrow> nat" where
  "prec s =
     (if s \<in> {''='', ''<>'', ''<'', ''>'', ''<='', ''>=''} then 1 else if s = ''&'' then 2
      else if s = ''+'' \<or> s = ''-'' then 3 else if s = ''*'' \<or> s = ''/'' then 4 else if s = ''^'' then 5 else 0)"

definition is_op :: "string list \<Rightarrow> pst \<Rightarrow> bool" where
  "is_op os st = (tt (p_cur st) = TOp \<and> ts (p_cur st) \<in> set os)"

fun parse_expr :: "nat \<Rightarrow> nat \<Rightarrow> pst \<Rightarrow> (xast, pst) xres"
  and expr_loop :: "nat \<Rightarrow> nat \<Rightarrow> xast \<Rightarrow> pst \<Rightarrow> (xast, pst) xres"
  and parse_unary :: "nat \<Rightarrow> pst \<Rightarrow> (xast, pst) xres"
  and post_loop :: "nat \<Rightarrow> xast \<Rightarrow> pst \<Rightarrow> (xast, pst) xres"
  and parse_primary :: "nat \<Rightarrow> pst \<Rightarrow> (xast, pst) xres"
  and parse_args :: "nat \<Rightarrow> xast list \<Rightarrow> pst \<Rightarrow> (xast list, pst) xres" where
  "parse_expr 0 mp st = XFuel"
| "parse_expr (Suc f) mp st = xbind (parse_unary f st) (\<lambda>lhs. expr_loop f mp lhs)"
| "expr_loop 0 mp lhs st = XFuel"
| "expr_loop (Suc f) mp lhs st =
     (let op' = ts (p_cur st); p = prec op'
      in if p_ok st \<and> tt (p_cur st) = TOp \<and> mp \<le> p \<and> 0 < p
         then xbind (parse_expr f (if op' = ''^'' then p else p + 1) (p_adv st))
                (\<lambda>rhs. expr_loop f mp (XBin op' lhs rhs))
         else XOk lhs st)"
| "parse_unary 0 st = XFuel"
| "parse_unary (Suc f) st =
     (if is_op [''-'', ''+''] st
      then xbind (parse_unary f (p_adv st)) (\<lambda>x. XOk (XUn (ts (p_cur st)) x))
      else xbind (parse_primary f st) (post_loop f))"
| "post_loop 0 x st = XFuel"
| "post_loop (Suc f) x st =
     (if p_ok st \<and> is_op [''%''] st then post_loop f (XUn ''%'' x) (p_adv st) else XOk x st)"
| "parse_primary 0 st = XFuel"
| "parse_primary (Suc f) st =
     (let t = p_cur st
      in case tt t of
           TNum \<Rightarrow> XOk (XNum (tnum t)) (p_adv st)
         | TStr \<Rightarrow> XOk (XStr (ts t)) (p_adv st)
         | TRef \<Rightarrow> (case make_ref (ts t) of None \<Rightarrow> XThrow | Some a \<Rightarrow> XOk a (p_adv st))
         | TLP \<Rightarrow> xbind (parse_expr f 1 (p_adv st))
                   (\<lambda>e st1. XOk e (if tt (p_cur st1) = TRP then p_adv st1 else p_fail ''expected )'' st1))
         | TIdent \<Rightarrow>
             (let st1 = p_adv st
              in if tt (p_cur st1) = TLP
                 then let st2 = p_adv st1
                      in xbind (if tt (p_cur st2) = TRP then XOk [] st2 else parse_args f [] st2)
                           (\<lambda>as st3. XOk (XCall (map upper_char (ts t)) as)
                              (if tt (p_cur st3) = TRP then p_adv st3 else p_fail ''expected ) in call'' st3))
                 else XOk (XName (ts t)) st1)
         | _ \<Rightarrow> XOk (XNum (Fin 0)) (p_fail ''unexpected token'' st))"
| "parse_args 0 as st = XFuel"
| "parse_args (Suc f) as st =
     xbind (parse_expr f 1 st)
       (\<lambda>a st1. if tt (p_cur st1) = TComma then parse_args f (as @ [a]) (p_adv st1) else XOk (as @ [a]) st1)"

record xparse =
  xp_ast :: "xast option"
  xp_ok :: bool
  xp_err :: string

definition expr_fuel :: "string \<Rightarrow> nat" where
  "expr_fuel s = 6 * length s + 11"

text \<open>\<open>None\<close> is an exception that xleaves \<open>parse_formula\<close>.\<close>

definition formula_body :: "string \<Rightarrow> string" where
  "formula_body s = (if starts (\<lambda>c. c = CHR ''='') s then tl s else s)"

definition parse_formula :: "string \<Rightarrow> xparse option" where
  "parse_formula src =
     (let body = formula_body src
      in if body = [] then Some \<lparr>xp_ast = None, xp_ok = False, xp_err = ''empty''\<rparr>
         else
           let st0 = p_adv \<lparr>p_cur = Tok TEnd [], p_rest = body, p_ok = True, p_err = []\<rparr>
           in case parse_expr (expr_fuel body) 1 st0 of
                XOk a st \<Rightarrow>
                  let g = (p_ok st \<and> tt (p_cur st) = TEnd)
                  in Some \<lparr>xp_ast = Some a, xp_ok = g,
                       xp_err = (if g then [] else if p_err st = [] then ''trailing tokens'' else p_err st)\<rparr>
              | _ \<Rightarrow> None)"

section \<open>References and printing\<close>

record xrefs =
  x_cells :: "cell_ref list"
  x_ranges :: "(cell_ref \<times> cell_ref) list"
  x_names :: "string list"

fun collect_refs :: "xast \<Rightarrow> xrefs \<Rightarrow> xrefs" where
  "collect_refs (XCell _ r) a = a\<lparr>x_cells := x_cells a @ [r]\<rparr>"
| "collect_refs (XRange _ r e) a = a\<lparr>x_ranges := x_ranges a @ [(r, e)]\<rparr>"
| "collect_refs (XName n) a = a\<lparr>x_names := x_names a @ [n]\<rparr>"
| "collect_refs (XCall _ xs) a = foldl (\<lambda>a x. collect_refs x a) a xs"
| "collect_refs (XBin _ x y) a = collect_refs y (collect_refs x a)"
| "collect_refs (XUn _ x) a = collect_refs x a"
| "collect_refs _ a = a"

definition with_sheet :: "string \<Rightarrow> string \<Rightarrow> string" where
  "with_sheet sh s = (if sh = [] then s else sh @ CHR ''!'' # s)"

fun xast_str :: "xast \<Rightarrow> string" where
  "xast_str (XNum v) = fmt_f 6 v"
| "xast_str (XStr s) = CHR ''\"'' # s @ [CHR ''\"'']"
| "xast_str (XCell sh r) = with_sheet sh (a1 (r_row r) (r_col r))"
| "xast_str (XRange sh r e) = with_sheet sh (a1 (r_row r) (r_col r) @ CHR '':'' # a1 (r_row e) (r_col e))"
| "xast_str (XName n) = n"
| "xast_str (XUn o' x) = o' @ xast_str x"
| "xast_str (XBin o' x y) = CHR ''('' # xast_str x @ o' @ xast_str y @ '')''"
| "xast_str (XCall f xs) = f @ CHR ''('' # join (CHR '','') (map xast_str xs) @ '')''"

section \<open>The parser returns on every text\<close>

lemma length_dropWhile: "length (dropWhile P s) \<le> length s"
  by (induction s) auto

lemma length_dropWhile_less: "starts P s \<Longrightarrow> length (dropWhile P s) < length s"
  by (cases s) (auto simp: starts_def le_imp_less_Suc length_dropWhile)

lemma length_string_tok: "length (snd (string_tok s)) \<le> length s"
  by (induction s rule: string_tok.induct) (auto simp: le_SucI split: prod.splits)

lemma length_tl_le: "length (dropWhile P (tl s)) \<le> length s"
  using length_dropWhile[of P "tl s"] by simp

lemma length_sheet_ref: "length (snd (sheet_ref s)) \<le> length s"
  using length_dropWhile[of "\<lambda>c. c \<noteq> CHR 39" s]
    length_tl_le[of ref_char "drop 1 (dropWhile (\<lambda>c. c \<noteq> CHR 39) s)"]
  by (auto simp: sheet_ref_def Let_def)

lemma length_lex_number:
  "starts (\<lambda>c. is_digit c \<or> c = CHR ''.'') s \<Longrightarrow> length (snd (lex_number s)) < length s"
proof -
  assume "starts (\<lambda>c. is_digit c \<or> c = CHR ''.'') s"
  then have a: "length (dropWhile (\<lambda>c. is_digit c \<or> c = CHR ''.'') s) < length s" by (rule length_dropWhile_less)
  show ?thesis
  proof (cases "dropWhile (\<lambda>c. is_digit c \<or> c = CHR ''.'') s")
    case Nil
    show ?thesis using a by (simp only: lex_number_def Let_def Nil) simp
  next
    case (Cons c u)
    have "length (dropWhile is_digit (drop n u)) \<le> length u" for n
      using length_dropWhile[of is_digit "drop n u"] by simp
    then have "length (dropWhile is_digit (drop n u)) < length s" for n
      using a Cons by (metis Suc_lessD le_less_trans length_Cons)
    then show ?thesis using a Cons by (simp add: lex_number_def Let_def)
  qed
qed

lemma length_ident: "starts word_char s \<Longrightarrow> length (snd (ident_or_ref s)) < length s"
proof -
  assume "starts word_char s"
  then have a: "length (dropWhile word_char s) < length s" by (rule length_dropWhile_less)
  have b: "length (dropWhile P (tl (dropWhile word_char s))) < length s" for P
    using length_tl_le[of P "dropWhile word_char s"] a by simp
  have c: "length (lex_skip (dropWhile word_char s)) < length s"
    using length_dropWhile[of is_blank "dropWhile word_char s"] a by (simp add: lex_skip_def)
  show ?thesis using a b c by (simp add: ident_or_ref_def Let_def)
qed

lemma lex_next_shorter:
  assumes "lex_next s = (t, r)"
  shows "length r \<le> length s" "tt t \<noteq> TEnd \<Longrightarrow> length r < length s"
proof -
  have k: "length (lex_skip s) \<le> length s" by (simp add: lex_skip_def length_dropWhile)
  have l: "lex_skip s = [] \<and> tt t = TEnd \<and> r = [] \<or> length r < length (lex_skip s)"
  proof (cases "lex_skip s")
    case (Cons c u)
    have n: "length (snd (lex_number (c # u))) < length (c # u)" if "is_digit c \<or> c = CHR ''.''"
      by (rule length_lex_number) (use that in \<open>simp add: starts_def\<close>)
    have i: "length (snd (ident_or_ref (c # u))) < length (c # u)" if "is_alpha c \<or> c = CHR ''$'' \<or> c = CHR ''_''"
      by (rule length_ident) (use that in \<open>auto simp: starts_def word_char_def is_alnum_def\<close>)
    have o: "length (snd (lex_op (c # u))) < length (c # u)" by (auto simp: lex_op_def Let_def)
    have st: "string_tok u = (x, y) \<Longrightarrow> length y \<le> length u" for x y using length_string_tok[of u] by simp
    have "length (snd (lex_next s)) < length (c # u)"
      unfolding lex_next_def Cons Let_def list.case
      using n i o length_sheet_ref[of u] st by (auto simp: le_imp_less_Suc split: prod.split)
    then show ?thesis using assms Cons by simp
  qed (use assms in \<open>auto simp: lex_next_def\<close>)
  show "length r \<le> length s" "tt t \<noteq> TEnd \<Longrightarrow> length r < length s" using k l by auto
qed

definition mu :: "pst \<Rightarrow> nat" where
  "mu st = length (p_rest st) + (if tt (p_cur st) = TEnd then 0 else 1)"

lemma mu_adv: "tt (p_cur st) \<noteq> TEnd \<Longrightarrow> mu (p_adv st) < mu st"
  using lex_next_shorter[of "p_rest st"]
  by (auto simp: mu_def p_adv_def Let_def split: prod.splits)

lemma mu_fail [simp]: "mu (p_fail m st) = mu st"
  by (simp add: mu_def p_fail_def)

lemma mu_close: "mu (if tt (p_cur st) = TRP then p_adv st else p_fail m st) \<le> mu st"
  using mu_adv[of st] by auto

definition xres_ok :: "('a, pst) xres \<Rightarrow> nat \<Rightarrow> bool" where
  "xres_ok r n = (case r of XOk v st \<Rightarrow> mu st \<le> n | XThrow \<Rightarrow> True | XFuel \<Rightarrow> False)"

lemma xres_ok_simps [simp]: "xres_ok (XOk v st) n \<longleftrightarrow> mu st \<le> n" "xres_ok XThrow n" "\<not> xres_ok XFuel n"
  by (simp_all add: xres_ok_def)

lemma xres_ok_bind: "xres_ok m n \<Longrightarrow> (\<And>x st. mu st \<le> n \<Longrightarrow> xres_ok (k x st) n') \<Longrightarrow> xres_ok (xbind m k) n'"
  by (cases m) simp_all

lemma xres_ok_mono: "xres_ok r n \<Longrightarrow> n \<le> m \<Longrightarrow> xres_ok r m"
  by (cases r) simp_all

lemma expr_returns:
  "6 * mu st + 4 < f \<Longrightarrow> xres_ok (parse_expr f mp st) (mu st)"
  "6 * mu st < f \<Longrightarrow> xres_ok (expr_loop f mp lhs st) (mu st)"
  "6 * mu st + 3 < f \<Longrightarrow> xres_ok (parse_unary f st) (mu st)"
  "6 * mu st < f \<Longrightarrow> xres_ok (post_loop f x st) (mu st)"
  "6 * mu st < f \<Longrightarrow> xres_ok (parse_primary f st) (mu st)"
  "6 * mu st + 5 < f \<Longrightarrow> xres_ok (parse_args f as st) (mu st)"
proof (induction f mp st and f mp lhs st and f st and f x st and f st and f as st
    rule: parse_expr_expr_loop_parse_unary_post_loop_parse_primary_parse_args.induct)
  case (2 f mp st)
  show ?case unfolding parse_expr.simps
  proof (rule xres_ok_bind)
    show "xres_ok (parse_unary f st) (mu st)" using "2.prems" by (intro "2.IH"(1)) simp
    show "xres_ok (expr_loop f mp x st1) (mu st)" if "mu st1 \<le> mu st" for x st1
      by (rule xres_ok_mono[OF "2.IH"(2) that]) (use "2.prems" that in simp)
  qed
next
  case (4 f mp lhs st)
  show ?case
  proof (cases "p_ok st \<and> tt (p_cur st) = TOp \<and> mp \<le> prec (ts (p_cur st)) \<and> 0 < prec (ts (p_cur st))")
    case True
    have m: "mu (p_adv st) < mu st" using True by (intro mu_adv) simp
    have "xres_ok (xbind (parse_expr f q (p_adv st)) (\<lambda>rhs. expr_loop f mp (XBin (ts (p_cur st)) lhs rhs))) (mu st)"
      if q: "q = (if ts (p_cur st) = ''^'' then prec (ts (p_cur st)) else prec (ts (p_cur st)) + 1)" for q
    proof (rule xres_ok_bind)
      show "xres_ok (parse_expr f q (p_adv st)) (mu (p_adv st))" unfolding q
        by (rule "4.IH"(1)[OF refl refl True]) (use "4.prems" m in simp)
      show "xres_ok (expr_loop f mp (XBin (ts (p_cur st)) lhs x) st1) (mu st)" if "mu st1 \<le> mu (p_adv st)" for x st1
        by (rule xres_ok_mono[OF "4.IH"(2)[OF refl refl True]]) (use "4.prems" m that in simp_all)
    qed
    then show ?thesis using True by (simp add: Let_def)
  next
    case False
    show ?thesis unfolding expr_loop.simps Let_def if_not_P[OF False] by simp
  qed
next
  case (6 f st)
  show ?case
  proof (cases "is_op [''-'', ''+''] st")
    case True
    have m: "mu (p_adv st) < mu st" using True by (intro mu_adv) (simp add: is_op_def)
    have "xres_ok (parse_unary f (p_adv st)) (mu (p_adv st))" using "6.prems" m by (intro "6.IH"(1)[OF True]) simp
    then show ?thesis using True m by (auto intro!: xres_ok_bind)
  next
    case False
    have "xres_ok (xbind (parse_primary f st) (post_loop f)) (mu st)"
    proof (rule xres_ok_bind)
      show "xres_ok (parse_primary f st) (mu st)" using "6.prems" by (intro "6.IH"(2)[OF False]) simp
      show "xres_ok (post_loop f x st1) (mu st)" if "mu st1 \<le> mu st" for x st1
        by (rule xres_ok_mono[OF "6.IH"(3)[OF False] that]) (use "6.prems" that in simp)
    qed
    then show ?thesis using False by simp
  qed
next
  case (8 f x st)
  show ?case
  proof (cases "p_ok st \<and> is_op [''%''] st")
    case True
    have m: "mu (p_adv st) < mu st" using True by (intro mu_adv) (simp add: is_op_def)
    have "xres_ok (post_loop f (XUn ''%'' x) (p_adv st)) (mu st)"
      by (rule xres_ok_mono[OF "8.IH"[OF True]]) (use "8.prems" m in simp_all)
    then show ?thesis using True by simp
  next
    case False
    show ?thesis unfolding post_loop.simps if_not_P[OF False] by simp
  qed
next
  case (10 f st)
  note adv = mu_adv[of st]
  show ?case
  proof (cases "tt (p_cur st)")
    case TRef
    then show ?thesis using adv by (simp add: Let_def split: option.splits)
  next
    case TLP
    have e: "xres_ok (parse_expr f 1 (p_adv st)) (mu (p_adv st))"
      using "10.prems" adv TLP by (intro "10.IH"(2)[OF refl TLP]) simp
    have "xres_ok (xbind (parse_expr f 1 (p_adv st))
        (\<lambda>e st1. XOk e (if tt (p_cur st1) = TRP then p_adv st1 else p_fail ''expected )'' st1))) (mu st)"
      by (rule xres_ok_bind[OF e]) (use adv TLP mu_close le_trans in \<open>fastforce\<close>)
    then show ?thesis using TLP by (simp add: Let_def)
  next
    case TIdent
    define st1 where "st1 = p_adv st"
    define st2 where "st2 = p_adv st1"
    have m1: "mu st1 < mu st" using adv TIdent by (simp add: st1_def)
    show ?thesis
    proof (cases "tt (p_cur st1) = TLP")
      case True
      have m2: "mu st2 < mu st1" using True mu_adv[of st1] by (simp add: st2_def)
      have "xres_ok (parse_args f [] st2) (mu st2)" if "tt (p_cur st2) \<noteq> TRP"
        using "10.prems" m1 m2 that True TIdent
        by (intro "10.IH"(1)[OF refl TIdent, of st1 st2]) (simp_all add: st1_def st2_def)
      then have e: "xres_ok (if tt (p_cur st2) = TRP then XOk [] st2 else parse_args f [] st2) (mu st2)" by simp
      have "xres_ok (xbind (if tt (p_cur st2) = TRP then XOk [] st2 else parse_args f [] st2)
           (\<lambda>as st3. XOk (XCall (map upper_char (ts (p_cur st))) as)
              (if tt (p_cur st3) = TRP then p_adv st3 else p_fail ''expected ) in call'' st3))) (mu st)"
        by (rule xres_ok_bind[OF e]) (use m1 m2 mu_close le_trans in \<open>fastforce\<close>)
      then show ?thesis using True TIdent by (simp add: Let_def st1_def st2_def cong: if_cong)
    qed (use TIdent m1 in \<open>simp add: Let_def st1_def\<close>)
  qed (use adv in \<open>simp_all add: Let_def\<close>)
next
  case (12 f as st)
  have e: "xres_ok (parse_expr f 1 st) (mu st)" using "12.prems" by (intro "12.IH"(1)) simp
  show ?case unfolding parse_args.simps
  proof (rule xres_ok_bind[OF e])
    fix a st1 assume s1: "mu st1 \<le> mu st"
    show "xres_ok (if tt (p_cur st1) = TComma then parse_args f (as @ [a]) (p_adv st1) else XOk (as @ [a]) st1) (mu st)"
    proof (cases "tt (p_cur st1) = TComma")
      case True
      have m: "mu (p_adv st1) < mu st1" using True by (intro mu_adv) simp
      have "xres_ok (parse_args f (as @ [a]) (p_adv st1)) (mu st)"
        by (rule xres_ok_mono[OF "12.IH"(2)[OF True]]) (use "12.prems" m s1 in simp_all)
      then show ?thesis using True by simp
    qed (use s1 in simp)
  qed
qed simp_all

lemma parse_formula_returns:
  "parse_expr (expr_fuel s) 1 (p_adv \<lparr>p_cur = Tok TEnd [], p_rest = s, p_ok = True, p_err = []\<rparr>) \<noteq> XFuel"
proof -
  let ?st = "p_adv \<lparr>p_cur = Tok TEnd [], p_rest = s, p_ok = True, p_err = []\<rparr>"
  have "mu ?st \<le> length s + 1"
    using lex_next_shorter(1)[of s] by (auto simp: mu_def p_adv_def Let_def split: prod.splits)
  then have "xres_ok (parse_expr (expr_fuel s) 1 ?st) (mu ?st)"
    by (intro expr_returns(1)) (simp add: expr_fuel_def)
  then show ?thesis by (cases "parse_expr (expr_fuel s) 1 ?st") simp_all
qed

text \<open>The references of a tree, as the nodes at its xleaves in the order of the text.\<close>

fun xleaves :: "xast \<Rightarrow> xast list" where
  "xleaves (XCall _ xs) = concat (map xleaves xs)"
| "xleaves (XBin _ x y) = xleaves x @ xleaves y"
| "xleaves (XUn _ x) = xleaves x"
| "xleaves a = [a]"

lemma concat_map_concat: "concat (map k (concat (map g xs))) = concat (map (\<lambda>x. concat (map k (g x))) xs)"
  by (induction xs) simp_all

lemma foldl_refs:
  "(\<And>a s. a \<in> set ys \<Longrightarrow> sel (collect_refs a s) = sel s @ g a) \<Longrightarrow>
     sel (foldl (\<lambda>s x. collect_refs x s) s ys) = sel s @ concat (map g ys)"
  by (induction ys arbitrary: s) simp_all

definition leaf_cells :: "xast \<Rightarrow> cell_ref list" where
  "leaf_cells l = (case l of XCell _ r \<Rightarrow> [r] | _ \<Rightarrow> [])"

definition leaf_ranges :: "xast \<Rightarrow> (cell_ref \<times> cell_ref) list" where
  "leaf_ranges l = (case l of XRange _ r e \<Rightarrow> [(r, e)] | _ \<Rightarrow> [])"

definition leaf_names :: "xast \<Rightarrow> string list" where
  "leaf_names l = (case l of XName n \<Rightarrow> [n] | _ \<Rightarrow> [])"

lemma collect_cells: "x_cells (collect_refs a s) = x_cells s @ concat (map leaf_cells (xleaves a))"
proof (induction a arbitrary: s)
  case (XCall f xs)
  then show ?case using foldl_refs[of xs x_cells "\<lambda>a. concat (map leaf_cells (xleaves a))" s]
    by (simp add: concat_map_concat)
qed (simp_all add: leaf_cells_def)

lemma collect_ranges: "x_ranges (collect_refs a s) = x_ranges s @ concat (map leaf_ranges (xleaves a))"
proof (induction a arbitrary: s)
  case (XCall f xs)
  then show ?case using foldl_refs[of xs x_ranges "\<lambda>a. concat (map leaf_ranges (xleaves a))" s]
    by (simp add: concat_map_concat)
qed (simp_all add: leaf_ranges_def)

lemma collect_names: "x_names (collect_refs a s) = x_names s @ concat (map leaf_names (xleaves a))"
proof (induction a arbitrary: s)
  case (XCall f xs)
  then show ?case using foldl_refs[of xs x_names "\<lambda>a. concat (map leaf_names (xleaves a))" s]
    by (simp add: concat_map_concat)
qed (simp_all add: leaf_names_def)

end
