(* ===== verification/Fve_Lower.thy ===== *)
theory Fve_Lower
  imports Fve_Formula Fve_Enclosure
begin

text \<open>
  Lowering a workbook cell to a formula tree (\<open>model/lower\<close>). The lifter's state is the memo of
  finished cells, the set of cells on the recursion path, the base values of the inputs and the
  number of holes made so far. A reference back into the path and every construct without an
  interval meaning become holes. \<open>XThrow\<close> stands for a formula that is read out of its argument
  list, for a sheet index outside the workbook and for an exception of the formula reader.
\<close>

section \<open>Folds\<close>

definition fold_op :: "op \<Rightarrow> node list \<Rightarrow> node" where
  "fold_op o' xs =
     (case xs of [] \<Rightarrow> konst (Fin 0) dim_none | x # ys \<Rightarrow> foldl (\<lambda>acc y. oper o' [acc, y]) x ys)"

definition fold_call :: "string \<Rightarrow> node list \<Rightarrow> node" where
  "fold_call fn xs =
     (case xs of [] \<Rightarrow> konst (Fin 0) dim_none | x # ys \<Rightarrow> foldl (\<lambda>acc y. call fn [acc, y]) x ys)"

text \<open>The functions of a list of expanded arguments, and the functions of one argument.\<close>

definition agg_fn :: "string \<Rightarrow> (node list \<Rightarrow> node) option" where
  "agg_fn f =
     (if f = ''SUM'' then Some (fold_op Add)
      else if f = ''AVERAGE'' then
        Some (\<lambda>xs. oper Div [fold_op Add xs, konst (fround RNear (real (length xs))) dim_none])
      else if f = ''MIN'' then Some (fold_call ''min'')
      else if f = ''MAX'' then Some (fold_call ''max'')
      else if f = ''PRODUCT'' then Some (fold_op Mul)
      else if f = ''SUMSQ'' then Some (\<lambda>xs. fold_op Add (map (\<lambda>x. oper Mul [x, x]) xs))
      else None)"

definition un_fn :: "string \<Rightarrow> (node \<Rightarrow> node) option" where
  "un_fn f =
     (if f = ''ABS'' then Some (\<lambda>x. call ''abs'' [x])
      else if f = ''SQRT'' then Some (\<lambda>x. oper Sqrt [x])
      else if f = ''EXP'' then Some (\<lambda>x. oper Exp [x])
      else if f = ''LN'' then Some (\<lambda>x. oper Log [x])
      else if f = ''SIN'' then Some (\<lambda>x. oper Sin [x])
      else if f = ''COS'' then Some (\<lambda>x. oper Cos [x])
      else if f = ''TAN'' then Some (\<lambda>x. oper Tan [x])
      else if f = ''DEGREES'' then Some (\<lambda>x. oper Mul [x, konst (fdiv RNear (Fin 180) PI) dim_none])
      else if f = ''RADIANS'' then Some (\<lambda>x. oper Mul [x, konst (fdiv RNear PI (Fin 180)) dim_none])
      else None)"

definition bin_op :: "string \<Rightarrow> op option" where
  "bin_op o' =
     (if o' = ''+'' then Some Add else if o' = ''-'' then Some Sub else if o' = ''*'' then Some Mul
      else if o' = ''/'' then Some Div else if o' = ''^'' then Some Pow else None)"

definition un_node :: "string \<Rightarrow> node \<Rightarrow> node" where
  "un_node o' x =
     (if o' = ''-'' then oper Neg [x]
      else if o' = ''%'' then oper Mul [x, konst (fround RNear (1 / 100)) dim_none] else x)"

section \<open>The lifter\<close>

record lift =
  memo :: "(cell_id, node) omap"
  visiting :: "cell_id list"
  base :: "(string, double) omap"
  n_holes :: int

definition mk_hole :: "lift \<Rightarrow> (node, lift) xres" where
  "mk_hole st =
     XOk (hole (CHR ''h'' # show_int (n_holes st)) 0 entire (CHR ''B'') []) (st\<lparr>n_holes := n_holes st + 1\<rparr>)"

fun lmap :: "('a \<Rightarrow> 's \<Rightarrow> ('b, 's) xres) \<Rightarrow> 'a list \<Rightarrow> 's \<Rightarrow> ('b list, 's) xres" where
  "lmap k [] st = XOk [] st"
| "lmap k (x # xs) st = xbind (k x st) (\<lambda>y st1. xbind (lmap k xs st1) (\<lambda>ys. XOk (y # ys)))"

definition done_cell :: "cell_id \<Rightarrow> node \<Rightarrow> lift \<Rightarrow> (node, lift) xres" where
  "done_cell i n st = XOk n (st\<lparr>visiting := filter (\<lambda>j. j \<noteq> i) (visiting st), memo := mput i n (memo st)\<rparr>)"

definition range_ids :: "workbook \<Rightarrow> string \<Rightarrow> cell_ref \<Rightarrow> cell_ref \<Rightarrow> int \<Rightarrow> cell_id list" where
  "range_ids wb shn r e cur =
     (let sh0 = (if shn = [] then cur else sheet_index wb shn);
          sh = (if sh0 < 0 then cur else sh0)
      in concat (map (\<lambda>row. map (CellId sh row) [min (r_col r) (r_col e) .. max (r_col r) (r_col e)])
           [min (r_row r) (r_row e) .. max (r_row r) (r_row e)]))"

text \<open>\<open>ref_node\<close>: a negative sheet index is the sheet of the formula.\<close>

definition ref_id :: "int \<Rightarrow> int \<Rightarrow> cell_ref \<Rightarrow> cell_id" where
  "ref_id sh cur r = CellId (if sh < 0 then cur else sh) (r_row r) (r_col r)"

definition cell_target :: "workbook \<Rightarrow> string \<Rightarrow> cell_ref \<Rightarrow> int \<Rightarrow> cell_id" where
  "cell_target wb shn r cur = ref_id (if shn = [] then - 1 else sheet_index wb shn) cur r"

definition cell_of :: "workbook \<Rightarrow> cell_id \<Rightarrow> cell option option" where
  "cell_of wb i =
     (if 0 \<le> c_sheet i \<and> c_sheet i < int (length (wb_sheets wb))
      then Some (sheet_at (wb_sheets wb ! nat (c_sheet i)) (c_row i) (c_col i)) else None)"

definition cell_key :: "workbook \<Rightarrow> cell_id \<Rightarrow> string" where
  "cell_key wb i = wb_key wb (c_sheet i) (c_row i) (c_col i)"

fun lower_cell :: "nat \<Rightarrow> workbook \<Rightarrow> cell_id \<Rightarrow> lift \<Rightarrow> (node, lift) xres"
  and lower_x :: "nat \<Rightarrow> workbook \<Rightarrow> int \<Rightarrow> xast \<Rightarrow> lift \<Rightarrow> (node, lift) xres"
  and expand_arg :: "nat \<Rightarrow> workbook \<Rightarrow> int \<Rightarrow> xast \<Rightarrow> lift \<Rightarrow> (node list, lift) xres" where
  "lower_cell 0 wb i st = XFuel"
| "lower_cell (Suc f) wb i st =
     (case mget (memo st) i of Some n \<Rightarrow> XOk n st
      | None \<Rightarrow>
          if i \<in> set (visiting st) then mk_hole st
          else
            let st1 = st\<lparr>visiting := i # visiting st\<rparr>
            in case cell_of wb i of None \<Rightarrow> XThrow
               | Some None \<Rightarrow> done_cell i (konst (Fin 0) dim_none) st1
               | Some (Some c) \<Rightarrow>
                   if cell_formula c \<noteq> [] then
                     (case parse_formula (cell_formula c) of None \<Rightarrow> XThrow
                      | Some p \<Rightarrow>
                          (case xp_ast p of
                             Some a \<Rightarrow> xbind (if xp_ok p then lower_x f wb (c_sheet i) a st1 else mk_hole st1) (done_cell i)
                           | None \<Rightarrow> xbind (mk_hole st1) (done_cell i)))
                   else if has_value c \<and> cell_text c = [] then
                     done_cell i (var (cell_key wb i) dim_none entire)
                       (st1\<lparr>base := mput (cell_key wb i) (cell_value c) (base st1)\<rparr>)
                   else done_cell i (konst (Fin 0) dim_none) st1)"
| "lower_x 0 wb cur a st = XFuel"
| "lower_x (Suc f) wb cur a st =
     (case a of
        XNum v \<Rightarrow> XOk (konst v dim_none) st
      | XStr _ \<Rightarrow> mk_hole st
      | XCell shn r \<Rightarrow> lower_cell f wb (cell_target wb shn r cur) st
      | XRange _ _ _ \<Rightarrow> mk_hole st
      | XName nm \<Rightarrow>
          (case mget (wb_names wb) nm of
             Some t \<Rightarrow> lower_cell f wb (ref_id (r_sheet (wn_target t)) cur (wn_target t)) st
           | None \<Rightarrow> mk_hole st)
      | XUn o' x \<Rightarrow> xbind (lower_x f wb cur x st) (\<lambda>n. XOk (un_node o' n))
      | XBin o' x y \<Rightarrow>
          xbind (lower_x f wb cur x st) (\<lambda>m st1. xbind (lower_x f wb cur y st1)
            (\<lambda>n st2. case bin_op o' of Some b \<Rightarrow> XOk (oper b [m, n]) st2 | None \<Rightarrow> mk_hole st2))
      | XCall fn xs \<Rightarrow>
          (let arg = (\<lambda>k st'. if k < length xs then lower_x f wb cur (xs ! k) st' else XThrow);
               opt = (\<lambda>k st'. if k < length xs then lower_x f wb cur (xs ! k) st' else XOk (konst (Fin 0) dim_none) st')
           in case agg_fn fn of
                Some g \<Rightarrow> xbind (lmap (\<lambda>x st'. expand_arg f wb cur x st') xs st) (\<lambda>xss. XOk (g (concat xss)))
              | None \<Rightarrow>
                  (case un_fn fn of Some g \<Rightarrow> xbind (arg 0 st) (\<lambda>n. XOk (g n))
                   | None \<Rightarrow>
                       if fn = ''LOG'' \<or> fn = ''LOG10'' then
                         xbind (arg 0 st) (\<lambda>m st1.
                           if fn = ''LOG'' \<and> 1 < length xs
                           then xbind (arg 1 st1) (\<lambda>n. XOk (oper Div [oper Log [m], oper Log [n]]))
                           else XOk (oper Div [oper Log [m], oper Log [konst (Fin 10) dim_none]]) st1)
                       else if fn = ''POWER'' then
                         xbind (arg 0 st) (\<lambda>m st1. xbind (arg 1 st1) (\<lambda>n. XOk (oper Pow [m, n])))
                       else if fn = ''PI'' then XOk (konst PI dim_none) st
                       else if fn = ''IF'' then
                         xbind (arg 1 st) (\<lambda>m st1. xbind (opt 2 st1) (\<lambda>n. XOk (disj [m, n])))
                       else if fn = ''IFERROR'' then
                         xbind (arg 0 st) (\<lambda>m st1. xbind (opt 1 st1) (\<lambda>n. XOk (disj [m, n])))
                       else mk_hole st)))"
| "expand_arg 0 wb cur a st = XFuel"
| "expand_arg (Suc f) wb cur a st =
     (case a of
        XRange shn r e \<Rightarrow> lmap (\<lambda>i st'. lower_cell f wb i st') (range_ids wb shn r e cur) st
      | _ \<Rightarrow> xbind (lower_x f wb cur a st) (\<lambda>n. XOk [n]))"

section \<open>Reasoning about the lifter\<close>

text \<open>A postcondition of a computation: partial when \<open>b\<close> holds, total when it does not.\<close>

definition xwp :: "bool \<Rightarrow> ('a, 's) xres \<Rightarrow> ('a \<Rightarrow> 's \<Rightarrow> bool) \<Rightarrow> bool" where
  "xwp b r Q = (case r of XOk x st \<Rightarrow> Q x st | XThrow \<Rightarrow> True | XFuel \<Rightarrow> b)"

lemma xwp_simps [simp]: "xwp b (XOk x st) Q = Q x st" "xwp b XThrow Q" "xwp b XFuel Q = b"
  by (simp_all add: xwp_def)

lemma xwp_bind: "xwp b (xbind r k) Q = xwp b r (\<lambda>x st. xwp b (k x st) Q)"
  by (cases r) simp_all

lemma xwp_mono: "xwp b r Q \<Longrightarrow> (\<And>x st. Q x st \<Longrightarrow> Q' x st) \<Longrightarrow> xwp b r Q'"
  by (cases r) simp_all

lemma xwp_lmap:
  assumes "\<And>x st. x \<in> set xs \<Longrightarrow> I st \<Longrightarrow> xwp b (k x st) (\<lambda>y st'. I st' \<and> R st st' \<and> P x y st')"
    and "\<And>st. R st st" "\<And>s t u. R s t \<Longrightarrow> R t u \<Longrightarrow> R s u"
    and "\<And>x y s t. P x y s \<Longrightarrow> R s t \<Longrightarrow> I t \<Longrightarrow> P x y t" and "I st"
  shows "xwp b (lmap k xs st) (\<lambda>ys st'. I st' \<and> R st st' \<and> list_all2 (\<lambda>x y. P x y st') xs ys)"
  using assms(1,5)
proof (induction xs arbitrary: st)
  case Nil
  then show ?case by (simp add: assms(2))
next
  case (Cons x xs)
  show ?case unfolding lmap.simps xwp_bind
  proof (rule xwp_mono[OF Cons.prems(1)[OF _ Cons.prems(2)]])
    fix y st1 assume s1: "I st1 \<and> R st st1 \<and> P x y st1"
    show "xwp b (lmap k xs st1) (\<lambda>ys st2. xwp b (XOk (y # ys) st2)
        (\<lambda>ys st'. I st' \<and> R st st' \<and> list_all2 (\<lambda>x y. P x y st') (x # xs) ys))"
      by (rule xwp_mono[OF Cons.IH]) (use Cons.prems(1) s1 assms(3,4) in auto)
  qed simp
qed

section \<open>Enough fuel\<close>

fun xrank :: "xast \<Rightarrow> nat" where
  "xrank (XCall _ xs) = 4 + sum_list (map xrank xs)"
| "xrank (XBin _ x y) = 3 + xrank x + xrank y"
| "xrank (XUn _ x) = 3 + xrank x"
| "xrank _ = 3"

lemma xrank_arg: "x \<in> set xs \<Longrightarrow> xrank x \<le> sum_list (map xrank xs)"
  by (metis in_set_conv_decomp le_add1 le_add2 le_trans map_append list.simps(9) sum_list.append sum_list.Cons)

definition formula_tree :: "cell \<Rightarrow> xast option" where
  "formula_tree c = (if cell_formula c = [] then None else Option.bind (parse_formula (cell_formula c)) xp_ast)"

definition formula_ids :: "workbook \<Rightarrow> cell_id list" where
  "formula_ids wb = concat (map (\<lambda>(si, sh). map (\<lambda>((r, c), _). CellId (int si) r c)
       (filter (\<lambda>(_, c). cell_formula c \<noteq> []) (sh_cells sh))) (enumerate 0 (wb_sheets wb)))"

definition cell_rank :: "(int \<times> int) \<times> cell \<Rightarrow> nat" where
  "cell_rank p = (case formula_tree (snd p) of None \<Rightarrow> 0 | Some a \<Rightarrow> xrank a)"

definition formula_rank :: "workbook \<Rightarrow> nat" where
  "formula_rank wb = foldl max 0 (concat (map (\<lambda>sh. map cell_rank (sh_cells sh)) (wb_sheets wb)))"

definition lower_fuel :: "workbook \<Rightarrow> nat" where
  "lower_fuel wb = length (formula_ids wb) * (formula_rank wb + 3) + 2"

lemma foldl_max: "x \<in> set xs \<Longrightarrow> x \<le> foldl max m xs" "m \<le> foldl max m (xs :: nat list)"
proof (induction xs arbitrary: m)
  case (Cons y xs)
  {
    case 1
    then show ?case using Cons.IH(1)[of "max m y"] Cons.IH(2)[of "max m y"] by auto
  next
    case 2
    then show ?case using Cons.IH(2)[of "max m y"] by simp
  }
qed simp_all

lemma cell_of_found:
  assumes "cell_of wb i = Some (Some c)"
  shows "\<exists>sh \<in> set (wb_sheets wb). ((c_row i, c_col i), c) \<in> set (sh_cells sh)"
    "cell_formula c \<noteq> [] \<Longrightarrow> i \<in> set (formula_ids wb)"
proof -
  define k where "k = nat (c_sheet i)"
  have k: "k < length (wb_sheets wb)" "c_sheet i = int k" "((c_row i, c_col i), c) \<in> set (sh_cells (wb_sheets wb ! k))"
    using assms by (auto simp: cell_of_def k_def sheet_at_def mget_def dest: map_of_SomeD split: if_splits)
  then show "\<exists>sh \<in> set (wb_sheets wb). ((c_row i, c_col i), c) \<in> set (sh_cells sh)" by force
  show "i \<in> set (formula_ids wb)" if "cell_formula c \<noteq> []"
  proof -
    have "(k, wb_sheets wb ! k) \<in> set (enumerate 0 (wb_sheets wb))"
      using k(1) by (simp add: in_set_enumerate_eq)
    moreover have "i \<in> set (map (\<lambda>((r, c), _). CellId (int k) r c)
        (filter (\<lambda>(_, c). cell_formula c \<noteq> []) (sh_cells (wb_sheets wb ! k))))"
      using k(2,3) that by (cases i) force
    ultimately show ?thesis by (force simp: formula_ids_def)
  qed
qed

lemma formula_rank_bound:
  assumes "cell_of wb i = Some (Some c)" "formula_tree c = Some a"
  shows "xrank a \<le> formula_rank wb"
proof -
  obtain sh where "sh \<in> set (wb_sheets wb)" "((c_row i, c_col i), c) \<in> set (sh_cells sh)"
    using cell_of_found(1)[OF assms(1)] by blast
  then have "cell_rank ((c_row i, c_col i), c) \<in> set (concat (map (\<lambda>sh. map cell_rank (sh_cells sh)) (wb_sheets wb)))"
    by (auto intro!: bexI[of _ sh])
  moreover have "cell_rank ((c_row i, c_col i), c) = xrank a" by (simp add: cell_rank_def assms(2))
  ultimately show ?thesis unfolding formula_rank_def using foldl_max(1) by metis
qed

definition free_cells :: "workbook \<Rightarrow> lift \<Rightarrow> nat" where
  "free_cells wb st = card (set (formula_ids wb) - set (visiting st))"

lemma free_cells_visit:
  "i \<in> set (formula_ids wb) \<Longrightarrow> i \<notin> set (visiting st) \<Longrightarrow>
     Suc (free_cells wb (st\<lparr>visiting := i # visiting st\<rparr>)) = free_cells wb st"
proof -
  assume a: "i \<in> set (formula_ids wb)" "i \<notin> set (visiting st)"
  have "set (formula_ids wb) - insert i (set (visiting st)) = (set (formula_ids wb) - set (visiting st)) - {i}" by auto
  then show ?thesis using a card_Suc_Diff1[of "set (formula_ids wb) - set (visiting st)" i] by (simp add: free_cells_def)
qed

lemma free_cells_eq: "visiting st' = visiting st \<Longrightarrow> free_cells wb st' = free_cells wb st"
  by (simp add: free_cells_def)

lemma xwp_if: "(c \<Longrightarrow> xwp b x Q) \<Longrightarrow> (\<not> c \<Longrightarrow> xwp b y Q) \<Longrightarrow> xwp b (if c then x else y) Q"
  by simp

definition keeps_path :: "lift \<Rightarrow> 'a \<Rightarrow> lift \<Rightarrow> bool" where
  "keeps_path st x st' \<longleftrightarrow> visiting st' = visiting st"

lemma mk_hole_path [simp]: "xwp b (mk_hole st) (keeps_path st)"
  by (simp add: mk_hole_def keeps_path_def)

lemma keeps_path_refl [simp]: "keeps_path st x st"
  by (simp add: keeps_path_def)

text \<open>Two steps in a row, the second with the fuel the first left untouched.\<close>

lemma path_bind:
  "xwp b r (keeps_path st) \<Longrightarrow> (\<And>x st1. keeps_path st x st1 \<Longrightarrow> xwp b (k x st1) (keeps_path st1)) \<Longrightarrow>
     xwp b (xbind r k) (keeps_path st)"
  unfolding xwp_bind keeps_path_def by (erule xwp_mono) simp

lemma path_lmap:
  "(\<And>x st1. x \<in> set xs \<Longrightarrow> visiting st1 = visiting st \<Longrightarrow> xwp b (k x st1) (keeps_path st1)) \<Longrightarrow>
     xwp b (lmap k xs st) (keeps_path st)"
proof (induction xs arbitrary: st)
  case (Cons x xs)
  show ?case unfolding lmap.simps
  proof (rule path_bind)
    show "xwp b (k x st) (keeps_path st)" using Cons.prems by simp
    show "xwp b (xbind (lmap k xs st1) (\<lambda>ys. XOk (y # ys))) (keeps_path st1)" if "keeps_path st y st1" for y st1
      by (rule path_bind[OF Cons.IH]) (use Cons.prems that in \<open>simp_all add: keeps_path_def\<close>)
  qed
qed simp

lemma done_cell_path:
  "i \<notin> set (visiting st) \<Longrightarrow> visiting st1 = i # visiting st \<Longrightarrow> xwp b (done_cell i n st1) (keeps_path st)"
  by (auto simp: done_cell_def keeps_path_def filter_id_conv)

lemma lower_total:
  "(free_cells wb st * (formula_rank wb + 3) + 1 < f \<longrightarrow> xwp False (lower_cell f wb i st) (keeps_path st))
   \<and> (free_cells wb st * (formula_rank wb + 3) + xrank a < f \<longrightarrow> xwp False (lower_x f wb cur a st) (keeps_path st))
   \<and> (free_cells wb st * (formula_rank wb + 3) + xrank a + 1 < f \<longrightarrow> xwp False (expand_arg f wb cur a st) (keeps_path st))"
proof (induction f arbitrary: i cur a st)
  case (Suc f)
  let ?K = "formula_rank wb + 3"
  have C: "xwp False (lower_cell f wb j s) (keeps_path s)" if "free_cells wb s * ?K + 1 < f" for j s
    using Suc.IH that by blast
  have X: "xwp False (lower_x f wb cu x s) (keeps_path s)" if "free_cells wb s * ?K + xrank x < f" for cu x s
    using Suc.IH that by blast
  have E: "xwp False (expand_arg f wb cu x s) (keeps_path s)" if "free_cells wb s * ?K + xrank x + 1 < f" for cu x s
    using Suc.IH that by blast
  have F: "free_cells wb s = free_cells wb st" if "keeps_path st x s" for x s
    using that by (simp add: keeps_path_def free_cells_def)
  have cell: "xwp False (lower_cell (Suc f) wb i st) (keeps_path st)" if b: "free_cells wb st * ?K + 1 < Suc f"
  proof -
    define st1 where "st1 = st\<lparr>visiting := i # visiting st\<rparr>"
    have v: "visiting st1 = i # visiting st" by (simp add: st1_def)
    have fin: "xwp False (xbind r (done_cell i)) (keeps_path st)"
      if "xwp False r (keeps_path st1)" "i \<notin> set (visiting st)" for r
      unfolding xwp_bind using that(1)
      by (rule xwp_mono) (use that(2) v in \<open>auto intro!: done_cell_path simp: keeps_path_def\<close>)
    have tree: "xwp False (lower_x f wb (c_sheet i) x st1) (keeps_path st1)"
      if "i \<notin> set (visiting st)" "cell_of wb i = Some (Some c)" "formula_tree c = Some x" for c x
    proof (rule X)
      have "cell_formula c \<noteq> []" using that(3) by (auto simp: formula_tree_def split: if_splits)
      then have "i \<in> set (formula_ids wb)" by (rule cell_of_found(2)[OF that(2)])
      then have "Suc (free_cells wb st1) = free_cells wb st" using free_cells_visit that(1) by (simp add: st1_def)
      then have "free_cells wb st1 * ?K + ?K = free_cells wb st * ?K" by (metis add.commute mult_Suc)
      moreover have "xrank x \<le> formula_rank wb" by (rule formula_rank_bound[OF that(2,3)])
      ultimately show "free_cells wb st1 * ?K + xrank x < f" using b by linarith
    qed
    show ?thesis
    proof (cases "mget (memo st) i = None \<and> i \<notin> set (visiting st)")
      case False
      then show ?thesis by (auto split: option.splits)
    next
      case True
      then have n: "mget (memo st) i = None" "i \<notin> set (visiting st)" by simp_all
      have d: "xwp False (done_cell i m (st1\<lparr>base := B\<rparr>)) (keeps_path st)" "xwp False (done_cell i m st1) (keeps_path st)" for m B
        by (rule done_cell_path[OF n(2)], simp add: v)+
      show ?thesis
      proof (cases "cell_of wb i")
        case (Some oc)
        show ?thesis
        proof (cases oc)
          case None
          then show ?thesis using n Some d(2) by (simp add: Let_def st1_def)
        next
          case (Some c)
          note o = \<open>cell_of wb i = Some oc\<close>[unfolded Some]
          show ?thesis
          proof (cases "cell_formula c = []")
            case True
            then show ?thesis using n o d by (simp add: Let_def st1_def)
          next
            case ne: False
            have p: "xwp False (case xp_ast p of
                Some a \<Rightarrow> xbind (if xp_ok p then lower_x f wb (c_sheet i) a st1 else mk_hole st1) (done_cell i)
              | None \<Rightarrow> xbind (mk_hole st1) (done_cell i)) (keeps_path st)"
              if q: "parse_formula (cell_formula c) = Some p" for p
            proof (cases "xp_ast p")
              case None
              then show ?thesis using fin[OF mk_hole_path n(2)] by simp
            next
              case (Some x)
              have "formula_tree c = Some x" using q Some ne by (simp add: formula_tree_def)
              then show ?thesis using fin[OF mk_hole_path n(2)] fin[OF tree[OF n(2) o] n(2)] Some by simp
            qed
            show ?thesis
              by (simp add: n o ne Let_def split: option.split) (use p st1_def in \<open>auto split: option.splits\<close>)
          qed
        qed
      qed (use n in \<open>simp add: Let_def\<close>)
    qed
  qed
  have expr: "xwp False (lower_x (Suc f) wb cur a st) (keeps_path st)"
    if b: "free_cells wb st * ?K + xrank a < Suc f"
  proof -
    have C': "xwp False (lower_cell f wb j st) (keeps_path st)" for j
      by (rule C) (use b in \<open>cases a; simp\<close>)
    have X': "xwp False (lower_x f wb cur x s) (keeps_path s)" if "keeps_path st y s" "xrank x < xrank a" for x y s
      by (rule X) (use b that(2) F[OF that(1)] in simp)
    show ?thesis
    proof (cases a)
      case (XBin o' x y)
      show ?thesis unfolding lower_x.simps XBin xast.case
        by (intro path_bind X'[of _ _ x] X'[of _ _ y]) (auto simp: XBin keeps_path_def mk_hole_def split: option.split)
    next
      case (XUn o' x)
      show ?thesis unfolding lower_x.simps XUn xast.case
        by (intro path_bind X'[of _ _ x]) (simp_all add: XUn)
    next
      case (XCall fn xs)
      have A: "xwp False (if k < length xs then lower_x f wb cur (xs ! k) s else XThrow) (keeps_path s)"
        "xwp False (if k < length xs then lower_x f wb cur (xs ! k) s else XOk m s) (keeps_path s)" if "keeps_path st y s" for k s y m
        using X'[OF that, of "xs ! k"] xrank_arg[OF nth_mem, of k xs] by (auto simp: XCall)
      have L: "xwp False (lmap (\<lambda>x st'. expand_arg f wb cur x st') xs st) (keeps_path st)"
      proof (rule path_lmap)
        fix x and s :: lift assume x: "x \<in> set xs" and s: "visiting s = visiting st"
        have "free_cells wb s = free_cells wb st" using s by (simp add: free_cells_def)
        then show "xwp False (expand_arg f wb cur x s) (keeps_path s)"
          using b xrank_arg[OF x] by (intro E) (simp add: XCall)
      qed
      have L': "xwp False (xbind (lmap (\<lambda>x st'. expand_arg f wb cur x st') xs st) (\<lambda>xss. XOk (g (concat xss)))) (keeps_path st)" for g
        by (rule path_bind[OF L]) simp
      note A0 = A[OF keeps_path_refl]
      show ?thesis
      proof (cases "agg_fn fn")
        case (Some g)
        then show ?thesis unfolding lower_x.simps XCall xast.case Let_def using L' by simp
      next
        case ag: None
        show ?thesis
        proof (cases "un_fn fn")
          case (Some g)
          have "xwp False (xbind (if 0 < length xs then lower_x f wb cur (xs ! 0) st else XThrow) (\<lambda>n. XOk (g n))) (keeps_path st)"
            by (rule path_bind[OF A0(1)]) simp
          then show ?thesis unfolding lower_x.simps XCall xast.case Let_def ag Some option.case .
        next
          case un: None
          have two: "xwp False (xbind (if j < length xs then lower_x f wb cur (xs ! j) st else XThrow)
              (\<lambda>m st1. xbind (if k < length xs then lower_x f wb cur (xs ! k) st1 else XThrow) (\<lambda>n. XOk (g m n)))) (keeps_path st)"
            for j k g
            by (rule path_bind[OF A0(1)], rule path_bind[OF A(1)], assumption, simp)
          have opt: "xwp False (xbind (if j < length xs then lower_x f wb cur (xs ! j) st else XThrow)
              (\<lambda>m st1. xbind (if k < length xs then lower_x f wb cur (xs ! k) st1 else XOk d st1) (\<lambda>n. XOk (g m n)))) (keeps_path st)"
            for j k d g
            by (rule path_bind[OF A0(1)], rule path_bind[OF A(2)], assumption, simp)
          have log: "xwp False (xbind (if 0 < length xs then lower_x f wb cur (xs ! 0) st else XThrow) (\<lambda>m st1.
              if c then xbind (if 1 < length xs then lower_x f wb cur (xs ! 1) st1 else XThrow) (\<lambda>n. XOk (g m n))
              else XOk (h m) st1)) (keeps_path st)" for c g h
            by (rule path_bind[OF A0(1)], cases c, simp_all only: if_True if_False, rule path_bind[OF A(1)], assumption, simp_all)
          show ?thesis unfolding lower_x.simps XCall xast.case Let_def ag un option.case
            by (intro xwp_if log two opt mk_hole_path) simp_all
        qed
      qed
    qed (use C' in \<open>simp_all split: option.split\<close>)
  qed
  have "xwp False (expand_arg (Suc f) wb cur a st) (keeps_path st)"
    if b: "free_cells wb st * ?K + xrank a + 1 < Suc f"
  proof -
    have "xwp False (lower_x f wb cur a st) (keeps_path st)" by (rule X) (use b in simp)
    then have "xwp False (xbind (lower_x f wb cur a st) (\<lambda>n. XOk [n])) (keeps_path st)" by (rule path_bind) simp
    moreover have "xwp False (lmap (\<lambda>i st'. lower_cell f wb i st') (range_ids wb sh r e cur) st) (keeps_path st)" for sh r e
    proof (rule path_lmap)
      fix j and s :: lift assume "visiting s = visiting st"
      then have "free_cells wb s = free_cells wb st" by (simp add: free_cells_def)
      then show "xwp False (lower_cell f wb j s) (keeps_path s)" using b by (intro C) (cases a; simp)
    qed
    ultimately show ?thesis unfolding expand_arg.simps by (cases a) simp_all
  qed
  then show ?case using cell expr by blast
qed simp

section \<open>The lowered target\<close>

record lowered =
  lw_root :: node
  lw_base :: "(string, double) omap"
  lw_holes :: int
  lw_ok :: bool

definition lift_start :: lift where
  "lift_start = \<lparr>memo = [], visiting = [], base = [], n_holes = 0\<rparr>"

definition lower_target :: "workbook \<Rightarrow> cell_id \<Rightarrow> (lowered, unit) xres" where
  "lower_target wb i =
     (case lower_cell (lower_fuel wb) wb i lift_start of
        XOk n st \<Rightarrow> XOk \<lparr>lw_root = n, lw_base = base st, lw_holes = n_holes st, lw_ok = True\<rparr> ()
      | XThrow \<Rightarrow> XThrow | XFuel \<Rightarrow> XFuel)"

lemma lower_target_total: "lower_target wb i \<noteq> XFuel"
proof -
  have "free_cells wb lift_start \<le> length (formula_ids wb)"
    by (simp add: free_cells_def lift_start_def card_length)
  then have "free_cells wb lift_start * (formula_rank wb + 3) \<le> length (formula_ids wb) * (formula_rank wb + 3)"
    by (rule mult_right_mono) simp
  then have "free_cells wb lift_start * (formula_rank wb + 3) + 1 < lower_fuel wb" unfolding lower_fuel_def by linarith
  then have "xwp False (lower_cell (lower_fuel wb) wb i lift_start) (keeps_path lift_start)"
    using lower_total by blast
  then show ?thesis
    by (cases "lower_cell (lower_fuel wb) wb i lift_start") (simp_all add: lower_target_def)
qed

lemma lower_target_ok:
  "lower_target wb i = XOk l u \<longleftrightarrow>
     (\<exists>st. lower_cell (lower_fuel wb) wb i lift_start = XOk (lw_root l) st \<and> lw_base l = base st \<and> lw_holes l = n_holes st \<and> lw_ok l)"
  by (cases l) (auto simp: lower_target_def split: xres.splits)

end
