(* ===== verification/Fve_LowerSound.thy ===== *)
theory Fve_LowerSound
  imports Fve_Lower Fve_Verifier
begin

text \<open>
  What a workbook means over the reals, and the proof that lowering implements it: a formula
  tree made without a hole denotes every value its cell has. The meaning gives no value to a
  percentage, to PI, DEGREES and RADIANS, whose constants the code rounds.
\<close>

section \<open>The values of a workbook\<close>

definition real_agg :: "string \<Rightarrow> real list \<Rightarrow> real option" where
  "real_agg f xs =
     (if f = ''SUM'' then Some (sum_list xs)
      else if f = ''AVERAGE'' then
        (if xs = [] \<or> 2 ^ 53 \<le> length xs then None else Some (sum_list xs / real (length xs)))
      else if f = ''MIN'' then Some (if xs = [] then 0 else Min (set xs))
      else if f = ''MAX'' then Some (if xs = [] then 0 else Max (set xs))
      else if f = ''PRODUCT'' then Some (if xs = [] then 0 else prod_list xs)
      else if f = ''SUMSQ'' then Some (sum_list (map (\<lambda>x. x * x) xs))
      else None)"

definition real_un :: "string \<Rightarrow> real \<Rightarrow> real option" where
  "real_un f x =
     (if f = ''ABS'' then Some \<bar>x\<bar>
      else if f = ''SQRT'' then (if 0 \<le> x then Some (sqrt x) else None)
      else if f = ''EXP'' then Some (exp x)
      else if f = ''LN'' then (if 0 < x then Some (ln x) else None)
      else if f = ''SIN'' then Some (sin x)
      else if f = ''COS'' then Some (cos x)
      else if f = ''TAN'' then (if cos x = 0 then None else Some (tan x))
      else None)"

definition real_truth :: "bool \<Rightarrow> real" where
  "real_truth b = (if b then 1 else 0)"

text \<open>The power of a spreadsheet: a whole exponent, also of a negative base, or any exponent of a positive base.\<close>

definition real_pow :: "real \<Rightarrow> real \<Rightarrow> real option" where
  "real_pow x y =
     (if y = of_int \<lfloor>y\<rfloor> then (if x = 0 \<and> y < 0 then None else Some (x powi \<lfloor>y\<rfloor>))
      else if 0 < x then Some (x powr y) else None)"

text \<open>The operators by their signs, as a spreadsheet defines them.\<close>

definition real_bin :: "string \<Rightarrow> real \<Rightarrow> real \<Rightarrow> real option" where
  "real_bin o' x y =
     (if o' = ''+'' then Some (x + y) else if o' = ''-'' then Some (x - y)
      else if o' = ''*'' then Some (x * y)
      else if o' = ''/'' then (if y = 0 then None else Some (x / y))
      else if o' = ''^'' then real_pow x y
      else if o' = ''='' then Some (real_truth (x = y)) else if o' = ''<>'' then Some (real_truth (x \<noteq> y))
      else if o' = ''<'' then Some (real_truth (x < y)) else if o' = ''>'' then Some (real_truth (x > y))
      else if o' = ''<='' then Some (real_truth (x \<le> y)) else if o' = ''>='' then Some (real_truth (x \<ge> y))
      else None)"

text \<open>
  A cell with a formula has the values of the formula, an input the value the assignment gives
  its key. A conditional has the value of the branch its condition selects; the second argument
  of IFERROR counts whether or not the first has a value.
\<close>

inductive cell_real :: "workbook \<Rightarrow> (string \<Rightarrow> real) \<Rightarrow> cell_id \<Rightarrow> real \<Rightarrow> bool"
  and x_real :: "workbook \<Rightarrow> (string \<Rightarrow> real) \<Rightarrow> int \<Rightarrow> xast \<Rightarrow> real \<Rightarrow> bool"
  and arg_real :: "workbook \<Rightarrow> (string \<Rightarrow> real) \<Rightarrow> int \<Rightarrow> xast \<Rightarrow> real list \<Rightarrow> bool"
  for wb :: workbook and \<rho> :: "string \<Rightarrow> real" where
  cr_blank: "cell_of wb i = Some None \<Longrightarrow> cell_real wb \<rho> i 0"
| cr_input: "cell_of wb i = Some (Some c) \<Longrightarrow> cell_formula c = [] \<Longrightarrow> has_value c \<Longrightarrow> cell_text c = [] \<Longrightarrow>
    cell_real wb \<rho> i (\<rho> (cell_key wb i))"
| cr_text: "cell_of wb i = Some (Some c) \<Longrightarrow> cell_formula c = [] \<Longrightarrow> \<not> (has_value c \<and> cell_text c = []) \<Longrightarrow>
    cell_real wb \<rho> i 0"
| cr_formula: "cell_of wb i = Some (Some c) \<Longrightarrow> cell_formula c \<noteq> [] \<Longrightarrow> parse_formula (cell_formula c) = Some p \<Longrightarrow>
    xp_ok p \<Longrightarrow> xp_ast p = Some a \<Longrightarrow> x_real wb \<rho> (c_sheet i) a y \<Longrightarrow> cell_real wb \<rho> i y"
| xr_num: "is_fin v \<Longrightarrow> x_real wb \<rho> cur (XNum v) (fval v)"
| xr_cell: "cell_real wb \<rho> (cell_target wb shn r cur) y \<Longrightarrow> x_real wb \<rho> cur (XCell shn r) y"
| xr_name: "mget (wb_names wb) nm = Some t \<Longrightarrow> cell_real wb \<rho> (ref_id (r_sheet (wn_target t)) cur (wn_target t)) y \<Longrightarrow>
    x_real wb \<rho> cur (XName nm) y"
| xr_neg: "x_real wb \<rho> cur x y \<Longrightarrow> x_real wb \<rho> cur (XUn ''-'' x) (- y)"
| xr_plus: "x_real wb \<rho> cur x y \<Longrightarrow> o' \<noteq> ''-'' \<Longrightarrow> o' \<noteq> ''%'' \<Longrightarrow> x_real wb \<rho> cur (XUn o' x) y"
| xr_bin: "x_real wb \<rho> cur x u \<Longrightarrow> x_real wb \<rho> cur y v \<Longrightarrow> real_bin o' u v = Some z \<Longrightarrow> x_real wb \<rho> cur (XBin o' x y) z"
| xr_agg: "list_all2 (arg_real wb \<rho> cur) xs vss \<Longrightarrow> real_agg f (concat vss) = Some y \<Longrightarrow> x_real wb \<rho> cur (XCall f xs) y"
| xr_un: "x_real wb \<rho> cur x u \<Longrightarrow> real_un f u = Some y \<Longrightarrow> x_real wb \<rho> cur (XCall f (x # xs)) y"
| xr_log10: "x_real wb \<rho> cur x u \<Longrightarrow> 0 < u \<Longrightarrow> f = ''LOG10'' \<or> f = ''LOG'' \<and> xs = [] \<Longrightarrow>
    x_real wb \<rho> cur (XCall f (x # xs)) (ln u / ln 10)"
| xr_log: "x_real wb \<rho> cur x u \<Longrightarrow> x_real wb \<rho> cur b v \<Longrightarrow> 0 < u \<Longrightarrow> 0 < v \<Longrightarrow> v \<noteq> 1 \<Longrightarrow>
    x_real wb \<rho> cur (XCall ''LOG'' (x # b # xs)) (ln u / ln v)"
| xr_power: "x_real wb \<rho> cur x u \<Longrightarrow> x_real wb \<rho> cur y v \<Longrightarrow> real_pow u v = Some z \<Longrightarrow>
    x_real wb \<rho> cur (XCall ''POWER'' (x # y # xs)) z"
| xr_then: "x_real wb \<rho> cur c w \<Longrightarrow> w \<noteq> 0 \<Longrightarrow> x_real wb \<rho> cur x u \<Longrightarrow> x_real wb \<rho> cur (XCall ''IF'' (c # x # xs)) u"
| xr_else: "x_real wb \<rho> cur c 0 \<Longrightarrow> x_real wb \<rho> cur y u \<Longrightarrow> x_real wb \<rho> cur (XCall ''IF'' (c # x # y # xs)) u"
| xr_no_else: "x_real wb \<rho> cur c 0 \<Longrightarrow> x_real wb \<rho> cur (XCall ''IF'' [c, x]) 0"
| xr_noerror: "x_real wb \<rho> cur x u \<Longrightarrow> x_real wb \<rho> cur (XCall ''IFERROR'' (x # xs)) u"
| xr_error: "x_real wb \<rho> cur y u \<Longrightarrow> x_real wb \<rho> cur (XCall ''IFERROR'' (x # y # xs)) u"
| xr_error0: "x_real wb \<rho> cur (XCall ''IFERROR'' [x]) 0"
| ar_range: "list_all2 (cell_real wb \<rho>) (range_ids wb shn r e cur) vs \<Longrightarrow> arg_real wb \<rho> cur (XRange shn r e) vs"
| ar_one: "x_real wb \<rho> cur a v \<Longrightarrow> (\<And>shn r e. a \<noteq> XRange shn r e) \<Longrightarrow> arg_real wb \<rho> cur a [v]"

inductive_cases cell_realE: "cell_real wb \<rho> i y"
inductive_cases x_numE: "x_real wb \<rho> cur (XNum v) y"
inductive_cases x_strE: "x_real wb \<rho> cur (XStr s) y"
inductive_cases x_cellE: "x_real wb \<rho> cur (XCell shn r) y"
inductive_cases x_nameE: "x_real wb \<rho> cur (XName nm) y"
inductive_cases x_unE: "x_real wb \<rho> cur (XUn o' x) y"
inductive_cases x_binE: "x_real wb \<rho> cur (XBin o' x z) y"
inductive_cases x_callE: "x_real wb \<rho> cur (XCall f xs) y"
inductive_cases arg_rangeE: "arg_real wb \<rho> cur (XRange shn r e) vs"
inductive_cases arg_realE: "arg_real wb \<rho> cur a vs"

section \<open>The nodes the lifter builds\<close>

lemma den_konst: "is_fin v \<Longrightarrow> fval v = y \<Longrightarrow> denotes \<rho> H (konst v d) y"
  using den_const[of "konst v d" \<rho> H] by (auto simp: konst_def)

lemma den_variable: "\<rho> s = y \<Longrightarrow> denotes \<rho> H (var s d p) y"
  using den_var[of "var s d p" \<rho> H] by (auto simp: var_def)

lemma den_op1: "denotes \<rho> H m x \<Longrightarrow> op_real o' [x] = Some z \<Longrightarrow> denotes \<rho> H (oper o' [m]) z"
  by (rule den_oper[of _ _ _ "[x]"]) (simp_all add: oper_def)

lemma den_op2: "denotes \<rho> H m x \<Longrightarrow> denotes \<rho> H n y \<Longrightarrow> op_real o' [x, y] = Some z \<Longrightarrow> denotes \<rho> H (oper o' [m, n]) z"
  by (rule den_oper[of _ _ _ "[x, y]"]) (simp_all add: oper_def)

text \<open>The operator the code chooses for a sign computes what the sign means.\<close>

lemma den_bin:
  "bin_op o' = Some b \<Longrightarrow> denotes \<rho> H m x \<Longrightarrow> denotes \<rho> H n y \<Longrightarrow> real_bin o' x y = Some z \<Longrightarrow> denotes \<rho> H (oper b [m, n]) z"
  by (rule den_op2) (auto simp: bin_op_def real_bin_def real_pow_def split: if_splits)

lemma den_pow: "denotes \<rho> H m x \<Longrightarrow> denotes \<rho> H n y \<Longrightarrow> real_pow x y = Some z \<Longrightarrow> denotes \<rho> H (oper Pow [m, n]) z"
  by (rule den_op2) (auto simp: real_pow_def)

lemma den_fn1: "denotes \<rho> H m x \<Longrightarrow> fn_real f [x] = Some z \<Longrightarrow> denotes \<rho> H (call f [m]) z"
  by (rule den_call[of _ _ _ "[x]"]) (simp_all add: call_def)

lemma den_fn2: "denotes \<rho> H m x \<Longrightarrow> denotes \<rho> H n y \<Longrightarrow> fn_real f [x, y] = Some z \<Longrightarrow> denotes \<rho> H (call f [m, n]) z"
  by (rule den_call[of _ _ _ "[x, y]"]) (simp_all add: call_def)

lemma den_either: "denotes \<rho> H m y \<or> denotes \<rho> H n y \<Longrightarrow> denotes \<rho> H (disj [m, n]) y"
  using den_disj[of "disj [m, n]" m \<rho> H y] den_disj[of "disj [m, n]" n \<rho> H y] by (auto simp: disj_def)

lemma den_foldl:
  assumes step: "\<And>m n x y. denotes \<rho> H m x \<Longrightarrow> denotes \<rho> H n y \<Longrightarrow> denotes \<rho> H (g m n) (f x y)"
  shows "list_all2 (denotes \<rho> H) ns vs \<Longrightarrow> denotes \<rho> H m v \<Longrightarrow> denotes \<rho> H (foldl g m ns) (foldl f v vs)"
  by (induction ns vs arbitrary: m v rule: list_all2_induct) (auto intro: step)

lemma den_fold_op:
  assumes "list_all2 (denotes \<rho> H) ns vs" "\<And>x y. op_real o' [x, y] = Some (f x y)"
  shows "denotes \<rho> H (fold_op o' ns) (case vs of [] \<Rightarrow> 0 | x # ys \<Rightarrow> foldl f x ys)"
  using assms(1)
  by (cases rule: list_all2_induct[OF assms(1)])
    (auto simp: fold_op_def intro!: den_foldl den_konst intro: den_op2[OF _ _ assms(2)] split: list.split)

lemma den_fold_call:
  assumes "list_all2 (denotes \<rho> H) ns vs" "\<And>x y. fn_real fn [x, y] = Some (f x y)"
  shows "denotes \<rho> H (fold_call fn ns) (case vs of [] \<Rightarrow> 0 | x # ys \<Rightarrow> foldl f x ys)"
  using assms(1)
  by (cases rule: list_all2_induct[OF assms(1)])
    (auto simp: fold_call_def intro!: den_foldl den_konst intro: den_fn2[OF _ _ assms(2)] split: list.split)

lemma foldl_sum: "foldl (+) (x::real) ys = x + sum_list ys"
  by (induction ys arbitrary: x) simp_all

lemma foldl_prod: "foldl (*) (x::real) ys = x * prod_list ys"
  by (induction ys arbitrary: x) simp_all

lemma foldl_min: "foldl min (x::real) ys = Min (insert x (set ys))"
proof (induction ys arbitrary: x)
  case (Cons y ys)
  then show ?case by (cases "ys = []") (simp_all add: min.assoc)
qed simp

lemma foldl_max_real: "foldl max (x::real) ys = Max (insert x (set ys))"
proof (induction ys arbitrary: x)
  case (Cons y ys)
  then show ?case by (cases "ys = []") (simp_all add: max.assoc)
qed simp

lemma representable_nat: "n < 2 ^ 53 \<Longrightarrow> representable (real n)"
  unfolding representable_def
  by (rule exI[of _ "int n"], rule exI[of _ 0]) (simp add: nat_less_iff)

lemma den_agg:
  assumes "agg_fn f = Some g" "list_all2 (denotes \<rho> H) ns vs" "real_agg f vs = Some y"
  shows "denotes \<rho> H (g ns) y"
proof -
  have len: "length ns = length vs" using assms(2) by (rule list_all2_lengthD)
  have sum: "denotes \<rho> H (fold_op Add xs) (sum_list us)" if "list_all2 (denotes \<rho> H) xs us" for xs us
    using den_fold_op[OF that, of Add "(+)"] by (cases us) (simp_all add: foldl_sum)
  have prod: "denotes \<rho> H (fold_op Mul ns) (if vs = [] then 0 else prod_list vs)"
    using den_fold_op[OF assms(2), of Mul "(*)"] by (cases vs) (simp_all add: foldl_prod)
  have mi: "denotes \<rho> H (fold_call ''min'' ns) (if vs = [] then 0 else Min (set vs))"
    using den_fold_call[OF assms(2), of "''min''" min] by (cases vs) (simp_all add: foldl_min fn_real_def)
  have ma: "denotes \<rho> H (fold_call ''max'' ns) (if vs = [] then 0 else Max (set vs))"
    using den_fold_call[OF assms(2), of "''max''" max] by (cases vs) (simp_all add: foldl_max_real fn_real_def)
  have avg: "denotes \<rho> H (oper Div [fold_op Add ns, konst (fround RNear (real (length ns))) dim_none]) y"
    if "f = ''AVERAGE''"
  proof -
    have l: "vs \<noteq> []" "length vs < 2 ^ 53" "y = sum_list vs / real (length vs)"
      using assms(3) that by (auto simp: real_agg_def split: if_splits)
    have "denotes \<rho> H (konst (fround RNear (real (length ns))) dim_none) (real (length vs))"
      using fround_exact[OF representable_nat[OF l(2)], of RNear] len l(1) by (intro den_konst) simp_all
    then show ?thesis by (rule den_op2[OF sum[OF assms(2)]]) (use l in simp)
  qed
  have sq: "denotes \<rho> H (fold_op Add (map (\<lambda>x. oper Mul [x, x]) ns)) (sum_list (map (\<lambda>x. x * x) vs))"
    by (rule sum, unfold list_all2_map1 list_all2_map2, rule list_all2_mono[OF assms(2)]) (auto intro: den_op2)
  show ?thesis
    using assms(1,3) sum[OF assms(2)] prod mi ma avg sq
    by (auto simp: agg_fn_def real_agg_def split: if_splits)
qed

lemma den_un:
  assumes "un_fn f = Some g" "denotes \<rho> H n x" "real_un f x = Some y"
  shows "denotes \<rho> H (g n) y"
  using assms by (auto simp: un_fn_def real_un_def split: if_splits intro!: den_op1 den_fn1 simp: fn_real_def)

text \<open>Which rule gives a call its value.\<close>

lemma real_agg_fn: "real_agg f xs = Some y \<Longrightarrow> \<exists>g. agg_fn f = Some g"
  by (auto simp: real_agg_def agg_fn_def split: if_splits)

lemma real_un_fn: "real_un f x = Some y \<Longrightarrow> agg_fn f = None \<and> (\<exists>g. un_fn f = Some g)"
  by (auto simp: real_un_def un_fn_def agg_fn_def split: if_splits)

lemma call_agg:
  assumes "x_real wb \<rho> cur (XCall f xs) y" "agg_fn f = Some g"
  obtains vss where "list_all2 (arg_real wb \<rho> cur) xs vss" "real_agg f (concat vss) = Some y"
  using assms by (elim x_callE) (auto simp: agg_fn_def dest: real_un_fn)

lemma call_un:
  assumes "x_real wb \<rho> cur (XCall f xs) y" "agg_fn f = None" "un_fn f = Some g"
  obtains x ys u where "xs = x # ys" "x_real wb \<rho> cur x u" "real_un f u = Some y"
  using assms by (elim x_callE) (auto simp: un_fn_def dest: real_agg_fn)

lemma call_log:
  assumes "x_real wb \<rho> cur (XCall f xs) y" "f = ''LOG'' \<or> f = ''LOG10''"
  obtains u where "x_real wb \<rho> cur (xs ! 0) u" "0 < u" "\<not> (f = ''LOG'' \<and> 1 < length xs)" "y = ln u / ln 10"
  | u v where "x_real wb \<rho> cur (xs ! 0) u" "x_real wb \<rho> cur (xs ! 1) v" "0 < u" "0 < v" "v \<noteq> 1" "1 < length xs" "f = ''LOG''" "y = ln u / ln v"
  using assms by (elim x_callE) (auto simp: real_agg_def real_un_def split: if_splits)

lemma call_power:
  assumes "x_real wb \<rho> cur (XCall ''POWER'' xs) z"
  obtains u v where "x_real wb \<rho> cur (xs ! 0) u" "x_real wb \<rho> cur (xs ! 1) v" "real_pow u v = Some z"
  using assms by (elim x_callE) (auto simp: real_agg_def real_un_def split: if_splits)

lemma call_pi: "\<not> x_real wb \<rho> cur (XCall ''PI'' xs) z"
  by (auto elim!: x_callE simp: real_agg_def real_un_def)

lemma call_if:
  assumes "x_real wb \<rho> cur (XCall ''IF'' xs) y"
  obtains "x_real wb \<rho> cur (xs ! 1) y" | "2 < length xs" "x_real wb \<rho> cur (xs ! 2) y" | "length xs = 2" "y = 0"
  using assms by (elim x_callE) (auto simp: real_agg_def real_un_def split: if_splits)

lemma call_iferror:
  assumes "x_real wb \<rho> cur (XCall ''IFERROR'' xs) y"
  obtains "x_real wb \<rho> cur (xs ! 0) y" | "1 < length xs" "x_real wb \<rho> cur (xs ! 1) y" | "length xs = 1" "y = 0"
  using assms by (elim x_callE) (auto simp: real_agg_def real_un_def split: if_splits)

section \<open>Lowering keeps the values\<close>

definition denoted :: "(string \<Rightarrow> real) \<Rightarrow> (string \<Rightarrow> real list \<Rightarrow> real) \<Rightarrow> (real \<Rightarrow> bool) \<Rightarrow> node \<Rightarrow> bool" where
  "denoted \<rho> H V n \<longleftrightarrow> (\<forall>y. V y \<longrightarrow> denotes \<rho> H n y)"

definition memo_ok :: "workbook \<Rightarrow> (string \<Rightarrow> real) \<Rightarrow> (string \<Rightarrow> real list \<Rightarrow> real) \<Rightarrow> lift \<Rightarrow> bool" where
  "memo_ok wb \<rho> H st \<longleftrightarrow> 0 \<le> n_holes st \<and>
     (n_holes st = 0 \<longrightarrow> (\<forall>i n. mget (memo st) i = Some n \<longrightarrow> denoted \<rho> H (cell_real wb \<rho> i) n))"

text \<open>After a step from \<open>st\<close>: the memo is right, holes are only added, and the result is right if there are none.\<close>

definition good :: "workbook \<Rightarrow> (string \<Rightarrow> real) \<Rightarrow> (string \<Rightarrow> real list \<Rightarrow> real) \<Rightarrow> lift \<Rightarrow> ('a \<Rightarrow> bool) \<Rightarrow> 'a \<Rightarrow> lift \<Rightarrow> bool" where
  "good wb \<rho> H st P x st' \<longleftrightarrow> memo_ok wb \<rho> H st' \<and> n_holes st \<le> n_holes st' \<and> (n_holes st' = 0 \<longrightarrow> P x)"

lemma good_ok: "memo_ok wb \<rho> H s \<Longrightarrow> (n_holes s = 0 \<Longrightarrow> P x) \<Longrightarrow> xwp True (XOk x s) (good wb \<rho> H s P)"
  by (simp add: good_def)

lemma good_hole: "memo_ok wb \<rho> H s \<Longrightarrow> xwp True (mk_hole s) (good wb \<rho> H s P)"
  by (simp add: good_def mk_hole_def memo_ok_def)

lemma good_bind:
  assumes "xwp True r (good wb \<rho> H st P)" "memo_ok wb \<rho> H st"
    and "\<And>x s. memo_ok wb \<rho> H s \<Longrightarrow> (n_holes s = 0 \<Longrightarrow> n_holes st = 0 \<and> P x) \<Longrightarrow> xwp True (k x s) (good wb \<rho> H s Q)"
  shows "xwp True (xbind r k) (good wb \<rho> H st Q)"
  unfolding xwp_bind
proof (rule xwp_mono[OF assms(1)])
  fix x s assume g: "good wb \<rho> H st P x s"
  have "xwp True (k x s) (good wb \<rho> H s Q)"
    by (rule assms(3)) (use g assms(2) in \<open>auto simp: good_def memo_ok_def\<close>)
  then show "xwp True (k x s) (good wb \<rho> H st Q)"
    by (rule xwp_mono) (use g in \<open>simp add: good_def\<close>)
qed

lemma good_lmap:
  assumes "\<And>x s. x \<in> set xs \<Longrightarrow> memo_ok wb \<rho> H s \<Longrightarrow> xwp True (k x s) (good wb \<rho> H s (P x))" "memo_ok wb \<rho> H st"
  shows "xwp True (lmap k xs st) (good wb \<rho> H st (list_all2 P xs))"
  using assms
proof (induction xs arbitrary: st)
  case (Cons x xs)
  show ?case unfolding lmap.simps
  proof (rule good_bind[OF Cons.prems(1)])
    fix y s assume s: "memo_ok wb \<rho> H s" "n_holes s = 0 \<Longrightarrow> n_holes st = 0 \<and> P x y"
    have "xwp True (lmap k xs s) (good wb \<rho> H s (list_all2 P xs))"
      by (rule Cons.IH) (use Cons.prems(1) s(1) in auto)
    then show "xwp True (xbind (lmap k xs s) (\<lambda>ys. XOk (y # ys))) (good wb \<rho> H s (list_all2 P (x # xs)))"
      by (rule good_bind[OF _ s(1)]) (use s(2) in \<open>auto simp: good_def\<close>)
  qed (use Cons.prems in auto)
qed (simp add: good_def)

lemma good_done:
  "memo_ok wb \<rho> H s \<Longrightarrow> (n_holes s = 0 \<Longrightarrow> denoted \<rho> H (cell_real wb \<rho> i) n) \<Longrightarrow>
     xwp True (done_cell i n s) (good wb \<rho> H s (denoted \<rho> H (cell_real wb \<rho> i)))"
  by (auto simp: done_cell_def good_def memo_ok_def mget_mput)

lemma good_start: "xwp b r (good wb \<rho> H s' P) \<Longrightarrow> n_holes s' = n_holes s \<Longrightarrow> xwp b r (good wb \<rho> H s P)"
  by (erule xwp_mono) (simp add: good_def)

lemma den_neg: "denotes \<rho> H m x \<Longrightarrow> denotes \<rho> H (oper Neg [m]) (- x)"
  by (rule den_op1) simp_all

lemma den_log: "denotes \<rho> H m x \<Longrightarrow> 0 < x \<Longrightarrow> denotes \<rho> H (oper Log [m]) (ln x)"
  by (rule den_op1[of _ _ _ x]) auto

text \<open>One expression, from the calls with less fuel.\<close>

lemma lower_x_good:
  assumes C: "\<And>j s. memo_ok wb \<rho> H s \<Longrightarrow> xwp True (lower_cell f wb j s) (good wb \<rho> H s (denoted \<rho> H (cell_real wb \<rho> j)))"
    and X: "\<And>x s. memo_ok wb \<rho> H s \<Longrightarrow> xwp True (lower_x f wb cur x s) (good wb \<rho> H s (denoted \<rho> H (x_real wb \<rho> cur x)))"
    and E: "\<And>x s. memo_ok wb \<rho> H s \<Longrightarrow> xwp True (expand_arg f wb cur x s)
      (good wb \<rho> H s (\<lambda>ns. \<forall>vs. arg_real wb \<rho> cur x vs \<longrightarrow> list_all2 (denotes \<rho> H) ns vs))"
    and m: "memo_ok wb \<rho> H st"
  shows "xwp True (lower_x (Suc f) wb cur a st) (good wb \<rho> H st (denoted \<rho> H (x_real wb \<rho> cur a)))"
proof -
  let ?good = "good wb \<rho> H" and ?P = "denoted \<rho> H (x_real wb \<rho> cur a)"
  note dn = denoted_def
  have sub: "xwp True r (?good st ?P)" if "xwp True r (?good st (denoted \<rho> H V))" "\<And>y. x_real wb \<rho> cur a y \<Longrightarrow> V y" for r V
    by (rule xwp_mono[OF that(1)]) (use that(2) in \<open>auto simp: good_def dn\<close>)
  show ?thesis
  proof (cases a)
    case (XNum v)
    have "denoted \<rho> H (x_real wb \<rho> cur a) (konst v dim_none)"
      unfolding XNum by (auto simp: dn elim!: x_numE intro!: den_konst)
    then show ?thesis using m by (simp add: XNum good_def)
  next
    case (XCell shn r)
    show ?thesis unfolding XCell lower_x.simps xast.case
      by (rule sub[OF C[OF m], unfolded XCell]) (auto elim: x_cellE)
  next
    case (XName nm)
    show ?thesis
    proof (cases "mget (wb_names wb) nm")
      case (Some t)
      have "xwp True (lower_cell f wb (ref_id (r_sheet (wn_target t)) cur (wn_target t)) st) (?good st ?P)"
        by (rule sub[OF C[OF m]]) (use Some in \<open>auto simp: XName elim: x_nameE\<close>)
      then show ?thesis using Some by (simp add: XName)
    qed (use good_hole[OF m] in \<open>simp add: XName\<close>)
  next
    case (XUn o' x)
    have "denoted \<rho> H (x_real wb \<rho> cur a) (un_node o' n)" if "denoted \<rho> H (x_real wb \<rho> cur x) n" for n
      using that unfolding XUn un_node_def by (auto simp: dn elim!: x_unE intro: den_neg)
    then show ?thesis unfolding XUn lower_x.simps xast.case
      by (intro good_bind[OF X[OF m] m] good_ok) (auto simp: XUn)
  next
    case (XBin o' x y)
    have b: "denoted \<rho> H (x_real wb \<rho> cur a) (oper b [k, n])"
      if "denoted \<rho> H (x_real wb \<rho> cur x) k" "denoted \<rho> H (x_real wb \<rho> cur y) n" "bin_op o' = Some b" for b k n
      using that unfolding XBin by (auto simp: dn elim!: x_binE intro: den_bin)
    show ?thesis unfolding XBin lower_x.simps xast.case
    proof (rule good_bind[OF X[OF m] m], rule good_bind[OF X])
      fix k n s1 s2
      assume s: "memo_ok wb \<rho> H s2" "n_holes s1 = 0 \<Longrightarrow> n_holes st = 0 \<and> denoted \<rho> H (x_real wb \<rho> cur x) k"
        "n_holes s2 = 0 \<Longrightarrow> n_holes s1 = 0 \<and> denoted \<rho> H (x_real wb \<rho> cur y) n"
      show "xwp True (case bin_op o' of None \<Rightarrow> mk_hole s2 | Some b \<Rightarrow> XOk (oper b [k, n]) s2)
          (?good s2 (denoted \<rho> H (x_real wb \<rho> cur (XBin o' x y))))"
        using good_hole[OF s(1)] b[unfolded XBin] s by (cases "bin_op o'") (auto simp: good_def)
    qed
  next
    case (XCall fn xs)
    have A: "xwp True (if k < length xs then lower_x f wb cur (xs ! k) s else XThrow) (?good s (denoted \<rho> H (x_real wb \<rho> cur (xs ! k))))"
      if "memo_ok wb \<rho> H s" for k s
      using X[OF that] by simp
    have O: "xwp True (if k < length xs then lower_x f wb cur (xs ! k) s else XOk (konst (Fin 0) dim_none) s)
        (?good s (denoted \<rho> H (\<lambda>y. if k < length xs then x_real wb \<rho> cur (xs ! k) y else y = 0)))"
      if "memo_ok wb \<rho> H s" for k s
      using X[OF that] that by (auto simp: good_def dn intro!: den_konst)
    have two: "xwp True (xbind r (\<lambda>p s. xbind (q s) (\<lambda>n. XOk (g p n)))) (?good st ?P)"
      if "xwp True r (?good st (denoted \<rho> H V))" "\<And>s. memo_ok wb \<rho> H s \<Longrightarrow> xwp True (q s) (?good s (denoted \<rho> H W))"
        "\<And>p n. denoted \<rho> H V p \<Longrightarrow> denoted \<rho> H W n \<Longrightarrow> denoted \<rho> H (x_real wb \<rho> cur a) (g p n)" for r q g V W
      by (rule good_bind[OF that(1) m], rule good_bind[OF that(2)], assumption, assumption, rule good_ok)
        (auto intro: that(3))
    have hole: "xwp True (mk_hole st) (?good st ?P)" by (rule good_hole[OF m])
    show ?thesis
    proof (cases "agg_fn fn")
      case (Some g)
      have "denoted \<rho> H (x_real wb \<rho> cur a) (g (concat nss))"
        if n: "list_all2 (\<lambda>x ns. \<forall>vs. arg_real wb \<rho> cur x vs \<longrightarrow> list_all2 (denotes \<rho> H) ns vs) xs nss" for nss
        unfolding dn XCall
      proof (intro allI impI)
        fix y assume "x_real wb \<rho> cur (XCall fn xs) y"
        then obtain vss where v: "list_all2 (arg_real wb \<rho> cur) xs vss" "real_agg fn (concat vss) = Some y"
          using Some by (rule call_agg)
        have "list_all2 (list_all2 (denotes \<rho> H)) nss vss" using n v(1) by (auto simp: list_all2_conv_all_nth)
        then have "list_all2 (denotes \<rho> H) (concat nss) (concat vss)"
          by (induction rule: list_all2_induct) (auto intro: list_all2_appendI)
        then show "denotes \<rho> H (g (concat nss)) y" by (rule den_agg[OF Some _ v(2)])
      qed
      then have "xwp True (xbind (lmap (\<lambda>x st'. expand_arg f wb cur x st') xs st) (\<lambda>xss. XOk (g (concat xss)))) (?good st ?P)"
        by (intro good_bind[OF good_lmap[OF E m] m] good_ok) auto
      then show ?thesis by (simp add: XCall Some Let_def)
    next
      case ag: None
      show ?thesis
      proof (cases "un_fn fn")
        case (Some g)
        have "denoted \<rho> H (x_real wb \<rho> cur a) (g n)" if "denoted \<rho> H (x_real wb \<rho> cur (xs ! 0)) n" for n
          using that unfolding dn XCall by (auto elim!: call_un[OF _ ag Some] intro: den_un[OF Some])
        then have "xwp True (xbind (if 0 < length xs then lower_x f wb cur (xs ! 0) st else XThrow) (\<lambda>n. XOk (g n))) (?good st ?P)"
          by (intro good_bind[OF A[OF m] m] good_ok) auto
        then show ?thesis by (simp add: XCall ag Some Let_def)
      next
        case un: None
        have lg: "xwp True (xbind (if 0 < length xs then lower_x f wb cur (xs ! 0) st else XThrow) (\<lambda>p st1.
              if fn = ''LOG'' \<and> 1 < length xs
              then xbind (if 1 < length xs then lower_x f wb cur (xs ! 1) st1 else XThrow) (\<lambda>n. XOk (oper Div [oper Log [p], oper Log [n]]))
              else XOk (oper Div [oper Log [p], oper Log [konst (Fin 10) dim_none]]) st1)) (?good st ?P)"
          if fn: "fn = ''LOG'' \<or> fn = ''LOG10''"
        proof (cases "fn = ''LOG'' \<and> 1 < length xs")
          case True
          have "denotes \<rho> H (oper Div [oper Log [p], oper Log [n]]) y"
            if "denoted \<rho> H (x_real wb \<rho> cur (xs ! 0)) p" "denoted \<rho> H (x_real wb \<rho> cur (xs ! 1)) n"
              "x_real wb \<rho> cur (XCall fn xs) y" for p n y
            using that(3) fn
          proof (rule call_log)
            fix u v assume uv: "x_real wb \<rho> cur (xs ! 0) u" "x_real wb \<rho> cur (xs ! 1) v" "0 < u" "0 < v" "v \<noteq> 1" "y = ln u / ln v"
            have "denotes \<rho> H (oper Log [p]) (ln u)" "denotes \<rho> H (oper Log [n]) (ln v)"
              using that(1,2) uv by (auto simp: dn intro: den_log)
            then show ?thesis by (rule den_op2) (use uv in auto)
          qed (use True in simp)
          then show ?thesis unfolding if_P[OF True] by (intro two[OF A[OF m] A]) (auto simp: dn XCall)
        next
          case False
          have "denotes \<rho> H (oper Div [oper Log [p], oper Log [konst (Fin 10) dim_none]]) y"
            if "denoted \<rho> H (x_real wb \<rho> cur (xs ! 0)) p" "x_real wb \<rho> cur (XCall fn xs) y" for p y
            using that(2) fn
          proof (rule call_log)
            fix u assume uv: "x_real wb \<rho> cur (xs ! 0) u" "0 < u" "y = ln u / ln 10"
            have "denotes \<rho> H (oper Log [p]) (ln u)" "denotes \<rho> H (oper Log [konst (Fin 10) dim_none]) (ln 10)"
              using that(1) uv by (auto simp: dn intro!: den_log den_konst)
            then show ?thesis by (rule den_op2) (use uv in auto)
          qed (use False in simp)
          then show ?thesis unfolding if_not_P[OF False]
            by (intro good_bind[OF A[OF m] m] good_ok) (auto simp: dn XCall)
        qed
        have pw: "xwp True (xbind (if 0 < length xs then lower_x f wb cur (xs ! 0) st else XThrow)
            (\<lambda>p st1. xbind (if 1 < length xs then lower_x f wb cur (xs ! 1) st1 else XThrow) (\<lambda>n. XOk (oper Pow [p, n])))) (?good st ?P)"
          if fn: "fn = ''POWER''"
          by (rule two[OF A[OF m] A], assumption)
            (simp add: XCall fn dn del: real_pow_def, meson call_power[unfolded One_nat_def] den_pow)
        have cond: "xwp True (xbind (if j < length xs then lower_x f wb cur (xs ! j) st else XThrow)
            (\<lambda>p st1. xbind (if Suc j < length xs then lower_x f wb cur (xs ! Suc j) st1 else XOk (konst (Fin 0) dim_none) st1)
              (\<lambda>n. XOk (disj [p, n])))) (?good st ?P)"
          if "fn = ''IF'' \<and> j = 1 \<or> fn = ''IFERROR'' \<and> j = 0" for j
          by (rule two[OF A[OF m] O])
            (use that in \<open>auto simp: XCall dn numeral_2_eq_2 elim!: call_if call_iferror intro!: den_either\<close>)
        have pi: "denoted \<rho> H (x_real wb \<rho> cur a) (konst PI dim_none)" if "fn = ''PI''"
          using that call_pi by (simp add: XCall dn)
        show ?thesis unfolding XCall lower_x.simps xast.case Let_def ag un option.case
          using lg pw cond[of 1] cond[of 0] pi hole m
          by (simp add: XCall numeral_2_eq_2 good_def cong: if_cong)
      qed
    qed
  qed (use good_hole[OF m] in simp_all)
qed

lemma lower_good:
  "(memo_ok wb \<rho> H st \<longrightarrow> xwp True (lower_cell f wb i st) (good wb \<rho> H st (denoted \<rho> H (cell_real wb \<rho> i))))
   \<and> (memo_ok wb \<rho> H st \<longrightarrow> xwp True (lower_x f wb cur a st) (good wb \<rho> H st (denoted \<rho> H (x_real wb \<rho> cur a))))
   \<and> (memo_ok wb \<rho> H st \<longrightarrow> xwp True (expand_arg f wb cur a st)
        (good wb \<rho> H st (\<lambda>ns. \<forall>vs. arg_real wb \<rho> cur a vs \<longrightarrow> list_all2 (denotes \<rho> H) ns vs)))"
proof (induction f arbitrary: i cur a st)
  case (Suc f)
  let ?good = "good wb \<rho> H"
  have C: "xwp True (lower_cell f wb j s) (?good s (denoted \<rho> H (cell_real wb \<rho> j)))" if "memo_ok wb \<rho> H s" for j s
    using Suc.IH that by blast
  have X: "xwp True (lower_x f wb cu x s) (?good s (denoted \<rho> H (x_real wb \<rho> cu x)))" if "memo_ok wb \<rho> H s" for cu x s
    using Suc.IH that by blast
  have E: "xwp True (expand_arg f wb cu x s) (?good s (\<lambda>ns. \<forall>vs. arg_real wb \<rho> cu x vs \<longrightarrow> list_all2 (denotes \<rho> H) ns vs))"
    if "memo_ok wb \<rho> H s" for cu x s
    using Suc.IH that by blast
  have cell: "xwp True (lower_cell (Suc f) wb i st) (?good st (denoted \<rho> H (cell_real wb \<rho> i)))" if m: "memo_ok wb \<rho> H st"
  proof (cases "mget (memo st) i = None \<and> i \<notin> set (visiting st)")
    case False
    then show ?thesis using m good_hole[OF m]
      by (auto simp: good_def memo_ok_def split: option.splits)
  next
    case True
    define st1 where "st1 = st\<lparr>visiting := i # visiting st\<rparr>"
    have m1: "memo_ok wb \<rho> H st1" "n_holes st1 = n_holes st" using m by (simp_all add: st1_def memo_ok_def)
    have m2: "memo_ok wb \<rho> H (st1\<lparr>base := B\<rparr>)" "n_holes (st1\<lparr>base := B\<rparr>) = n_holes st" for B
      using m1 by (simp_all add: memo_ok_def)
    note fin1 = good_start[OF good_done[OF m1(1)] m1(2)]
    note fin2 = good_start[OF good_done[OF m2(1)] m2(2)]
    have fin: "xwp True (xbind r (done_cell i)) (?good st (denoted \<rho> H (cell_real wb \<rho> i)))"
      if "xwp True r (?good st1 (denoted \<rho> H (cell_real wb \<rho> i)))" for r
      by (rule good_start[OF good_bind[OF that m1(1)] m1(2)]) (auto intro: good_done)
    consider "cell_of wb i = None" | "cell_of wb i = Some None"
      | c where "cell_of wb i = Some (Some c)" "cell_formula c = []" "has_value c \<and> cell_text c = []"
      | c where "cell_of wb i = Some (Some c)" "cell_formula c = []" "\<not> (has_value c \<and> cell_text c = [])"
      | c where "cell_of wb i = Some (Some c)" "cell_formula c \<noteq> []"
      by (metis option.exhaust)
    then show ?thesis
    proof cases
      case 2
      have "denoted \<rho> H (cell_real wb \<rho> i) (konst (Fin 0) dim_none)"
        using 2 by (auto simp: denoted_def elim!: cell_realE intro!: den_konst)
      then show ?thesis using True 2 fin1 by (simp add: Let_def st1_def)
    next
      case (3 c)
      have "denoted \<rho> H (cell_real wb \<rho> i) (var (cell_key wb i) dim_none entire)"
        using 3 by (auto simp: denoted_def elim!: cell_realE intro!: den_variable)
      then show ?thesis using True 3 fin2[of "mput (cell_key wb i) (cell_value c) (base st1)"] by (simp add: Let_def st1_def)
    next
      case (4 c)
      have "denoted \<rho> H (cell_real wb \<rho> i) (konst (Fin 0) dim_none)"
        using 4 by (auto simp: denoted_def elim!: cell_realE intro!: den_konst)
      then show ?thesis using True 4 fin1 by (auto simp: Let_def st1_def)
    next
      case (5 c)
      show ?thesis
      proof (cases "parse_formula (cell_formula c)")
        case (Some p)
        note ho = fin[OF good_hole[OF m1(1)]]
        have tr: "xwp True (xbind (lower_x f wb (c_sheet i) x st1) (done_cell i)) (?good st (denoted \<rho> H (cell_real wb \<rho> i)))"
          if "xp_ast p = Some x" "xp_ok p" for x
        proof (rule fin, rule xwp_mono[OF X[OF m1(1)]])
          fix n s assume "?good st1 (denoted \<rho> H (x_real wb \<rho> (c_sheet i) x)) n s"
          moreover have "x_real wb \<rho> (c_sheet i) x y" if "cell_real wb \<rho> i y" for y
            using that 5 Some \<open>xp_ast p = Some x\<close> by (auto elim: cell_realE)
          ultimately show "?good st1 (denoted \<rho> H (cell_real wb \<rho> i)) n s" by (auto simp: good_def denoted_def)
        qed
        show ?thesis using True 5 Some ho tr
          by (cases "xp_ast p"; cases "xp_ok p") (simp_all add: Let_def st1_def)
      qed (use True 5 in \<open>simp add: Let_def\<close>)
    qed (use True in \<open>simp add: Let_def\<close>)
  qed
  have arg: "xwp True (expand_arg (Suc f) wb cur a st)
      (?good st (\<lambda>ns. \<forall>vs. arg_real wb \<rho> cur a vs \<longrightarrow> list_all2 (denotes \<rho> H) ns vs))" if m: "memo_ok wb \<rho> H st"
  proof (cases "\<exists>shn r e. a = XRange shn r e")
    case True
    then obtain shn r e where a: "a = XRange shn r e" by blast
    have "xwp True (lmap (\<lambda>i st'. lower_cell f wb i st') (range_ids wb shn r e cur) st)
      (?good st (list_all2 (\<lambda>j. denoted \<rho> H (cell_real wb \<rho> j)) (range_ids wb shn r e cur)))"
      by (rule good_lmap[OF C m])
    moreover have "list_all2 (denotes \<rho> H) ns vs"
      if "list_all2 (\<lambda>j. denoted \<rho> H (cell_real wb \<rho> j)) (range_ids wb shn r e cur) ns" "arg_real wb \<rho> cur a vs" for ns vs
    proof -
      have "list_all2 (cell_real wb \<rho>) (range_ids wb shn r e cur) vs" using that(2) unfolding a by (elim arg_rangeE) auto
      then show ?thesis using that(1) by (auto simp: list_all2_conv_all_nth denoted_def)
    qed
    ultimately show ?thesis unfolding a expand_arg.simps xast.case by (elim xwp_mono) (auto simp: good_def)
  next
    case False
    have e: "expand_arg (Suc f) wb cur a st = xbind (lower_x f wb cur a st) (\<lambda>n. XOk [n])"
      using False by (cases a) auto
    have "arg_real wb \<rho> cur a vs \<Longrightarrow> \<exists>v. vs = [v] \<and> x_real wb \<rho> cur a v" for vs using False by (auto elim: arg_realE)
    then show ?thesis unfolding e
      by (intro good_bind[OF X[OF m] m] good_ok) (fastforce simp: denoted_def)+
  qed
  have expr: "xwp True (lower_x (Suc f) wb cur a st) (?good st (denoted \<rho> H (x_real wb \<rho> cur a)))" if m: "memo_ok wb \<rho> H st"
    by (rule lower_x_good[OF C X E m])
  show ?case using cell arg expr by blast
qed simp

section \<open>The target\<close>

lemma lower_target_denotes:
  assumes "lower_target wb i = XOk l u" "lw_holes l = 0" "cell_real wb \<rho> i y"
  shows "denotes \<rho> H (lw_root l) y"
proof -
  obtain st where st: "lower_cell (lower_fuel wb) wb i lift_start = XOk (lw_root l) st" "lw_holes l = n_holes st"
    using assms(1) by (auto simp: lower_target_ok)
  have "memo_ok wb \<rho> H lift_start" by (simp add: memo_ok_def lift_start_def)
  then have "xwp True (lower_cell (lower_fuel wb) wb i lift_start) (good wb \<rho> H lift_start (denoted \<rho> H (cell_real wb \<rho> i)))"
    using lower_good by blast
  then show ?thesis using assms(2,3) st by (simp add: good_def denoted_def)
qed

lemma lower_run_sound:
  assumes "libm_ok L" "prog_rigorous L p" "lower_target wb i = XOk l u" "lw_holes l = 0" "p_root p = lw_root l"
    and "cell_real wb \<rho> i y" "env_in \<rho> (p_box p) (p_root p)" "holes_sound H (p_holes p) (p_root p)"
  shows "prog_value p \<rho> H y"
  using assms lower_target_denotes[OF assms(3,4,6)] by (simp add: prog_value_def)

section \<open>A concrete sheet\<close>

text \<open>Two inputs A1 = 2 and B1 = 1 and the formula of C1.\<close>

definition input_cell :: "double \<Rightarrow> cell" where
  "input_cell d = cell_default\<lparr>has_value := True, cell_value := d\<rparr>"

definition demo_wb :: workbook where
  "demo_wb = \<lparr>wb_sheets = [\<lparr>sh_name = ''S'', sh_cells =
      [((0, 0), input_cell (Fin 2)), ((0, 1), input_cell (Fin 1)), ((0, 2), cell_default\<lparr>cell_formula := ''=A1*A1-B1''\<rparr>)]\<rparr>],
     wb_names = []\<rparr>"

definition demo_tree :: xast where
  "demo_tree = XBin ''-'' (XBin ''*'' (XCell [] (ref_default\<lparr>r_row := 0, r_col := 0\<rparr>)) (XCell [] (ref_default\<lparr>r_row := 0, r_col := 0\<rparr>)))
     (XCell [] (ref_default\<lparr>r_row := 0, r_col := 1\<rparr>))"

definition demo_node :: node where
  "demo_node = oper Sub [oper Mul [var ''S!A1'' dim_none entire, var ''S!A1'' dim_none entire], var ''S!B1'' dim_none entire]"

lemma demo_parse: "parse_formula ''=A1*A1-B1'' = Some \<lparr>xp_ast = Some demo_tree, xp_ok = True, xp_err = []\<rparr>"
  by code_simp

lemma demo_keys: "cell_key demo_wb (CellId 0 0 0) = ''S!A1''" "cell_key demo_wb (CellId 0 0 1) = ''S!B1''"
  by code_simp+

lemma demo_cells:
  "cell_of demo_wb (CellId 0 0 0) = Some (Some (input_cell (Fin 2)))"
  "cell_of demo_wb (CellId 0 0 1) = Some (Some (input_cell (Fin 1)))"
  "cell_of demo_wb (CellId 0 0 2) = Some (Some (cell_default\<lparr>cell_formula := ''=A1*A1-B1''\<rparr>))"
  by (simp_all add: cell_of_def demo_wb_def sheet_at_def)

lemma demo_fuel: "lower_fuel demo_wb = 20"
proof -
  have t: "formula_tree (cell_default\<lparr>cell_formula := ''=A1*A1-B1''\<rparr>) = Some demo_tree"
    unfolding formula_tree_def by (simp add: demo_parse)
  have "formula_tree (input_cell d) = None" for d by (simp add: formula_tree_def input_cell_def cell_default_def)
  then show ?thesis
    using t by (simp add: lower_fuel_def formula_ids_def formula_rank_def cell_rank_def demo_wb_def demo_tree_def
        input_cell_def cell_default_def enumerate_eq_zip)
qed

lemma demo_targets:
  "cell_target demo_wb [] (ref_default\<lparr>r_row := 0, r_col := k\<rparr>) 0 = CellId 0 0 k"
  by (simp add: cell_target_def ref_id_def)

lemma demo_lowered:
  "lower_target demo_wb (CellId 0 0 2) =
     XOk \<lparr>lw_root = demo_node, lw_base = [(''S!A1'', Fin 2), (''S!B1'', Fin 1)], lw_holes = 0, lw_ok = True\<rparr> ()"
  unfolding lower_target_def demo_fuel
  by (simp add: eval_nat_numeral demo_cells demo_keys demo_parse demo_targets lift_start_def Let_def input_cell_def
      cell_default_def done_cell_def demo_tree_def bin_op_def demo_node_def)

lemma demo_cell_real: "cell_real demo_wb (\<lambda>s. if s = ''S!A1'' then 2 else 1) (CellId 0 0 2) 3"
proof -
  let ?r = "\<lambda>s. if s = ''S!A1'' then 2 else (1 :: real)"
  have c: "cell_formula (input_cell d) = [] \<and> has_value (input_cell d) \<and> cell_text (input_cell d) = []" for d
    by (simp add: input_cell_def cell_default_def)
  have a: "x_real demo_wb ?r 0 (XCell [] (ref_default\<lparr>r_row := 0, r_col := 0\<rparr>)) 2"
    using cr_input[OF demo_cells(1), of ?r] c by (intro xr_cell) (simp add: demo_targets demo_keys)
  have b: "x_real demo_wb ?r 0 (XCell [] (ref_default\<lparr>r_row := 0, r_col := 1\<rparr>)) 1"
    using cr_input[OF demo_cells(2), of ?r] c by (intro xr_cell) (simp add: demo_targets demo_keys)
  have "x_real demo_wb ?r 0 demo_tree 3"
    unfolding demo_tree_def by (rule xr_bin[OF xr_bin[OF a a] b]) (simp_all add: real_bin_def)
  then show ?thesis
    using cr_formula[OF demo_cells(3) _ _ _ _ , where p = "\<lparr>xp_ast = Some demo_tree, xp_ok = True, xp_err = []\<rparr>" and a = demo_tree]
    by (simp add: demo_parse)
qed

end
