(* ===== verification/Fve_Oracle.thy ===== *)
theory Fve_Oracle
  imports Fve_Lower
begin

text \<open>
  The workbook as an executable oracle (\<open>oracle/oracle\<close>): its inputs and outputs, the cached
  evaluation of formulas in double arithmetic, interventions on inputs and the dependency graph
  they induce (\<open>oracle/intervene\<close>), and the bounded run of \<open>oracle/runtime\<close>. The functions of the
  C library are the record \<open>mathlib\<close>. \<open>None\<close> stands for a read past the end of an argument list
  and for an exception of the formula reader. A formula below 257 others has the value NaN.
\<close>

section \<open>The mathematical library\<close>

record mathlib = libm +
  l_log10 :: "double \<Rightarrow> double"
  l_asin :: "double \<Rightarrow> double"
  l_acos :: "double \<Rightarrow> double"
  l_atan :: "double \<Rightarrow> double"
  l_atan2 :: "double \<Rightarrow> double \<Rightarrow> double"
  l_sinh :: "double \<Rightarrow> double"
  l_cosh :: "double \<Rightarrow> double"
  l_tanh :: "double \<Rightarrow> double"

definition fin_int :: "real \<Rightarrow> int \<Rightarrow> double" where
  "fin_int r k = (if k = 0 \<and> r < 0 then NegZero else Fin (of_int k))"

fun fround_half :: "double \<Rightarrow> double" where
  "fround_half (Fin r) = fin_int r (if 0 \<le> r then \<lfloor>r + 1 / 2\<rfloor> else \<lceil>r - 1 / 2\<rceil>)"
| "fround_half d = d"

fun ftrunc :: "double \<Rightarrow> double" where
  "ftrunc (Fin r) = fin_int r (if 0 \<le> r then \<lfloor>r\<rfloor> else \<lceil>r\<rceil>)"
| "ftrunc d = d"

definition fbool :: "bool \<Rightarrow> double" where
  "fbool b = (if b then Fin 1 else Fin 0)"

definition fcount :: "nat \<Rightarrow> double" where
  "fcount n = fround RNear (real n)"

abbreviation no_nan :: "double list \<Rightarrow> double list" where
  "no_nan xs \<equiv> filter (\<lambda>x. x \<noteq> NaN) xs"

definition fsum :: "double list \<Rightarrow> double" where
  "fsum xs = foldl (fadd RNear) (Fin 0) xs"

section \<open>The functions of a formula\<close>

text \<open>Rows of SUMPRODUCT over the columns; a short column makes the row NaN.\<close>

fun sp_row :: "double list list \<Rightarrow> nat \<Rightarrow> double \<Rightarrow> double" where
  "sp_row [] i p = p"
| "sp_row (c # cs) i p = (if i < length c then sp_row cs i (fmul RNear p (c ! i)) else NaN)"

definition sumproduct :: "double list list \<Rightarrow> double" where
  "sumproduct av =
     (case av of [] \<Rightarrow> Fin 0
      | c # _ \<Rightarrow> fsum (no_nan (map (\<lambda>i. sp_row av i (Fin 1)) [0..<length c])))"

definition orc_bin :: "'a mathlib_scheme \<Rightarrow> string \<Rightarrow> double \<Rightarrow> double \<Rightarrow> double" where
  "orc_bin M o' x y =
     (if o' = ''+'' then fadd RNear x y else if o' = ''-'' then fsub RNear x y
      else if o' = ''*'' then fmul RNear x y
      else if o' = ''/'' then (if feq y (Fin 0) then NaN else fdiv RNear x y)
      else if o' = ''^'' then l_pow M x y
      else if o' = ''='' then fbool (feq x y) else if o' = ''<>'' then fbool (\<not> feq x y)
      else if o' = ''<'' then fbool (flt x y) else if o' = ''>'' then fbool (flt y x)
      else if o' = ''<='' then fbool (fle x y) else if o' = ''>='' then fbool (fle y x)
      else NaN)"

definition orc_un :: "string \<Rightarrow> double \<Rightarrow> double" where
  "orc_un o' x = (if o' = ''-'' then fneg x else if o' = ''%'' then fdiv RNear x (Fin 100) else x)"

text \<open>The functions of all values, in the code's order.\<close>

definition orc_agg :: "string \<Rightarrow> double list list \<Rightarrow> double option" where
  "orc_agg f av =
     (let v = no_nan (concat av)
      in if f = ''SUM'' then Some (fsum v)
         else if f = ''AVERAGE'' then Some (if v = [] then NaN else fdiv RNear (fsum v) (fcount (length v)))
         else if f = ''MIN'' then Some (foldl std_min (fround RNear (10 ^ 300)) v)
         else if f = ''MAX'' then Some (foldl std_max (fround RNear (- (10 ^ 300))) v)
         else if f = ''COUNT'' then Some (fcount (length v))
         else if f = ''PRODUCT'' then Some (foldl (fmul RNear) (Fin 1) v)
         else if f = ''SUMSQ'' then Some (fsum (map (\<lambda>x. fmul RNear x x) v))
         else if f = ''SUMPRODUCT'' then Some (sumproduct av)
         else None)"

definition fn1 :: "'a mathlib_scheme \<Rightarrow> string \<Rightarrow> (double \<Rightarrow> double) option" where
  "fn1 M f =
     (if f = ''ABS'' then Some fabs else if f = ''SQRT'' then Some (fsqrt RNear)
      else if f = ''EXP'' then Some (l_exp M) else if f = ''LN'' then Some (l_log M)
      else if f = ''LOG10'' then Some (l_log10 M)
      else if f = ''SIN'' then Some (l_sin M) else if f = ''COS'' then Some (l_cos M) else if f = ''TAN'' then Some (l_tan M)
      else if f = ''ASIN'' then Some (l_asin M) else if f = ''ACOS'' then Some (l_acos M) else if f = ''ATAN'' then Some (l_atan M)
      else if f = ''SINH'' then Some (l_sinh M) else if f = ''COSH'' then Some (l_cosh M) else if f = ''TANH'' then Some (l_tanh M)
      else if f = ''DEGREES'' then Some (\<lambda>x. fdiv RNear (fmul RNear x (Fin 180)) PI)
      else if f = ''RADIANS'' then Some (\<lambda>x. fdiv RNear (fmul RNear x PI) (Fin 180))
      else if f = ''INT'' then Some ffloor
      else if f = ''SIGN'' then Some (\<lambda>x. if flt (Fin 0) x then Fin 1 else if flt x (Fin 0) then Fin (- 1) else Fin 0)
      else if f = ''NOT'' then Some (\<lambda>x. fbool (feq x (Fin 0)))
      else None)"

text \<open>The functions of a value and an optional second one, whose default is given.\<close>

definition fn_opt :: "'a mathlib_scheme \<Rightarrow> string \<Rightarrow> (double \<times> (double \<Rightarrow> double \<Rightarrow> double)) option" where
  "fn_opt M f =
     (let scaled = (\<lambda>g x p. let m = l_pow M (Fin 10) p in fdiv RNear (g (fmul RNear x m)) m);
          signed = (\<lambda>g x p. let m = l_pow M (Fin 10) p
             in fmul RNear (fdiv RNear (g (fmul RNear (fabs x) m)) m) (if flt x (Fin 0) then Fin (- 1) else Fin 1));
          step = (\<lambda>g x s. if feq s (Fin 0) then Fin 0 else fmul RNear (g (fdiv RNear x s)) s)
      in if f = ''TRUNC'' then Some (Fin 0, scaled ftrunc)
         else if f = ''ROUND'' then Some (Fin 0, scaled fround_half)
         else if f = ''FLOOR'' then Some (Fin 1, step ffloor)
         else if f = ''CEILING'' then Some (Fin 1, step fceil)
         else if f = ''ROUNDUP'' then Some (Fin 0, signed fceil)
         else if f = ''ROUNDDOWN'' then Some (Fin 0, signed ffloor)
         else if f = ''IFERROR'' then Some (Fin 0, \<lambda>x y. if x = NaN then y else x)
         else None)"

definition fn2 :: "'a mathlib_scheme \<Rightarrow> string \<Rightarrow> (double \<Rightarrow> double \<Rightarrow> double) option" where
  "fn2 M f =
     (if f = ''ATAN2'' then Some (\<lambda>x y. l_atan2 M y x)
      else if f = ''POWER'' then Some (l_pow M)
      else if f = ''MOD'' then
        Some (\<lambda>x y. if feq y (Fin 0) then NaN else fsub RNear x (fmul RNear y (ffloor (fdiv RNear x y))))
      else None)"

definition orc_call :: "'a mathlib_scheme \<Rightarrow> string \<Rightarrow> double list list \<Rightarrow> double option" where
  "orc_call M f av =
     (let v = concat av; n = length v
      in case orc_agg f av of Some d \<Rightarrow> Some d
         | None \<Rightarrow>
         (case fn1 M f of Some g \<Rightarrow> if 0 < n then Some (g (v ! 0)) else None
          | None \<Rightarrow>
          (case fn2 M f of Some g \<Rightarrow> if 1 < n then Some (g (v ! 0) (v ! 1)) else None
           | None \<Rightarrow>
           (case fn_opt M f of Some (d, g) \<Rightarrow> if 0 < n then Some (g (v ! 0) (if 1 < n then v ! 1 else d)) else None
            | None \<Rightarrow>
              if f = ''LOG'' then
                (if n = 0 then None
                 else if 1 < n then Some (fdiv RNear (l_log M (v ! 0)) (l_log M (v ! 1))) else Some (l_log10 M (v ! 0)))
              else if f = ''PI'' then Some PI
              else if f = ''IF'' then
                (if n = 0 then None
                 else if \<not> feq (v ! 0) (Fin 0) then (if 1 < n then Some (v ! 1) else None)
                 else Some (if 2 < n then v ! 2 else Fin 0))
              else if f = ''AND'' then Some (fbool (\<not> list_ex (\<lambda>x. feq x (Fin 0)) v))
              else if f = ''OR'' then Some (fbool (list_ex (\<lambda>x. \<not> feq x (Fin 0)) v))
              else Some NaN))))"

section \<open>The state of an oracle\<close>

record orc_state =
  o_wb :: workbook
  o_val :: "(cell_id, double) omap"
  o_fx :: "(cell_id, xast option) omap"
  o_base :: "(cell_id, double) omap"
  o_in :: "cell_id list"
  o_out :: "cell_id list"

definition orc_new :: "workbook \<Rightarrow> orc_state" where
  "orc_new wb = \<lparr>o_wb = wb, o_val = [], o_fx = [], o_base = [], o_in = [], o_out = []\<rparr>"

definition build_cell :: "int \<Rightarrow> (int \<times> int) \<times> cell \<Rightarrow> orc_state \<Rightarrow> orc_state option" where
  "build_cell si kv orc =
     (let i = CellId si (fst (fst kv)) (snd (fst kv)); c = snd kv
      in if cell_formula c \<noteq> [] then
           (case parse_formula (cell_formula c) of None \<Rightarrow> None
            | Some p \<Rightarrow>
                Some (if xp_ok p then orc\<lparr>o_fx := mput i (xp_ast p) (o_fx orc), o_out := o_out orc @ [i]\<rparr> else orc))
         else if has_value c \<and> cell_text c = [] then
           Some (orc\<lparr>o_val := mput i (cell_value c) (o_val orc), o_base := mput i (cell_value c) (o_base orc),
             o_in := o_in orc @ [i]\<rparr>)
         else Some orc)"

fun build_cells :: "(int \<times> (int \<times> int) \<times> cell) list \<Rightarrow> orc_state \<Rightarrow> orc_state option" where
  "build_cells [] orc = Some orc"
| "build_cells ((si, kv) # ks) orc = Option.bind (build_cell si kv orc) (build_cells ks)"

definition wb_cells :: "workbook \<Rightarrow> (int \<times> (int \<times> int) \<times> cell) list" where
  "wb_cells wb = concat (map (\<lambda>(si, sh). map (\<lambda>kv. (int si, kv)) (sh_cells sh)) (enumerate 0 (wb_sheets wb)))"

definition orc_build :: "orc_state \<Rightarrow> orc_state option" where
  "orc_build orc = build_cells (wb_cells (o_wb orc)) (orc_new (o_wb orc))"

definition resolve_name :: "orc_state \<Rightarrow> string \<Rightarrow> cell_ref option" where
  "resolve_name orc nm =
     (case mget (wb_names (o_wb orc)) nm of None \<Rightarrow> None
      | Some t \<Rightarrow> Some (let r = wn_target t in if r_sheet r < 0 then r\<lparr>r_sheet := 0\<rparr> else r))"

definition orc_set :: "cell_id \<Rightarrow> double \<Rightarrow> orc_state \<Rightarrow> orc_state" where
  "orc_set i v orc = orc\<lparr>o_val := mput i v (o_val orc)\<rparr>"

definition orc_reset :: "orc_state \<Rightarrow> orc_state" where
  "orc_reset orc = orc\<lparr>o_val := mbuild (o_base orc)\<rparr>"

section \<open>Evaluation\<close>

text \<open>
  The cache is threaded through the evaluation. Each cell looked up below a formula is one level
  deeper; at level 257 the value is NaN, so that the recursion ends on a cycle too.
\<close>

type_synonym vals = "(cell_id, double) omap"

function o_eval :: "'a mathlib_scheme \<Rightarrow> orc_state \<Rightarrow> nat \<Rightarrow> int \<Rightarrow> xast \<Rightarrow> vals \<Rightarrow> (double \<times> vals) option"
  and o_args :: "'a mathlib_scheme \<Rightarrow> orc_state \<Rightarrow> nat \<Rightarrow> int \<Rightarrow> xast list \<Rightarrow> vals \<Rightarrow> (double list list \<times> vals) option"
  and o_cell :: "'a mathlib_scheme \<Rightarrow> orc_state \<Rightarrow> nat \<Rightarrow> cell_id \<Rightarrow> vals \<Rightarrow> (double \<times> vals) option"
  and o_cells :: "'a mathlib_scheme \<Rightarrow> orc_state \<Rightarrow> nat \<Rightarrow> cell_id list \<Rightarrow> vals \<Rightarrow> (double list \<times> vals) option" where
  "o_eval M orc d cur a st =
     (case a of
        XNum v \<Rightarrow> Some (v, st)
      | XStr _ \<Rightarrow> Some (NaN, st)
      | XCell shn r \<Rightarrow> o_cell M orc d (cell_target (o_wb orc) shn r cur) st
      | XRange shn r e \<Rightarrow>
          (case o_cells M orc d (range_ids (o_wb orc) shn r e cur) st of
             Some (v, st1) \<Rightarrow> Some (if v = [] then NaN else v ! 0, st1) | None \<Rightarrow> None)
      | XName nm \<Rightarrow>
          (case resolve_name orc nm of Some r \<Rightarrow> o_cell M orc d (ref_id (r_sheet r) cur r) st | None \<Rightarrow> Some (NaN, st))
      | XUn o' x \<Rightarrow>
          (case o_eval M orc d cur x st of Some (u, st1) \<Rightarrow> Some (orc_un o' u, st1) | None \<Rightarrow> None)
      | XBin o' x y \<Rightarrow>
          (case o_eval M orc d cur x st of
             Some (u, st1) \<Rightarrow>
               (case o_eval M orc d cur y st1 of Some (w, st2) \<Rightarrow> Some (orc_bin M o' u w, st2) | None \<Rightarrow> None)
           | None \<Rightarrow> None)
      | XCall fn xs \<Rightarrow>
          (case o_args M orc d cur xs st of
             Some (av, st1) \<Rightarrow> (case orc_call M fn av of Some v \<Rightarrow> Some (v, st1) | None \<Rightarrow> None)
           | None \<Rightarrow> None))"
| "o_args M orc d cur [] st = Some ([], st)"
| "o_args M orc d cur (a # as) st =
     (case (case a of
              XRange shn r e \<Rightarrow> o_cells M orc d (range_ids (o_wb orc) shn r e cur) st
            | _ \<Rightarrow> (case o_eval M orc d cur a st of Some (v, st1) \<Rightarrow> Some ([v], st1) | None \<Rightarrow> None)) of
        Some (one, st1) \<Rightarrow>
          (case o_args M orc d cur as st1 of Some (av, st2) \<Rightarrow> Some (one # av, st2) | None \<Rightarrow> None)
      | None \<Rightarrow> None)"
| "o_cell M orc d i st =
     (case mget st i of Some v \<Rightarrow> Some (v, st)
      | None \<Rightarrow>
          (case mget (o_fx orc) i of
             Some oa \<Rightarrow>
               if 256 < d then Some (NaN, st)
               else
                 (case (case oa of Some a \<Rightarrow> o_eval M orc (d + 1) (c_sheet i) a st | None \<Rightarrow> Some (NaN, st)) of
                    Some (v, st1) \<Rightarrow> Some (v, mput i v st1) | None \<Rightarrow> None)
           | None \<Rightarrow> Some (Fin 0, st)))"
| "o_cells M orc d [] st = Some ([], st)"
| "o_cells M orc d (i # is) st =
     (case o_cell M orc d i st of
        Some (v, st1) \<Rightarrow> (case o_cells M orc d is st1 of Some (vs, st2) \<Rightarrow> Some (v # vs, st2) | None \<Rightarrow> None)
      | None \<Rightarrow> None)"
  by pat_completeness auto
termination
proof (relation "inv_image (less_than <*lex*> less_than <*lex*> less_than)
    (\<lambda>x. case x of Inl (Inl (M, orc, d, cur, a, st)) \<Rightarrow> (257 - d, size a + 1, 0)
       | Inl (Inr (M, orc, d, cur, as, st)) \<Rightarrow> (257 - d, size_list size as + 1, 0)
       | Inr (Inl (M, orc, d, i, st)) \<Rightarrow> (257 - d, 0, 0)
       | Inr (Inr (M, orc, d, is, st)) \<Rightarrow> (257 - d, 0, 1 + length is))", goal_cases)
  case 1
  show ?case by (intro wf_inv_image wf_lex_prod) simp_all
qed auto

definition orc_value :: "'a mathlib_scheme \<Rightarrow> cell_id \<Rightarrow> orc_state \<Rightarrow> (double \<times> orc_state) option" where
  "orc_value M i orc =
     (case mget (o_val orc) i of Some v \<Rightarrow> Some (v, orc)
      | None \<Rightarrow>
          (case mget (o_fx orc) i of
             Some oa \<Rightarrow>
               (case (case oa of Some a \<Rightarrow> o_eval M orc 0 (c_sheet i) a (o_val orc) | None \<Rightarrow> Some (NaN, o_val orc)) of
                  Some (v, st) \<Rightarrow> Some (v, orc\<lparr>o_val := mput i v st\<rparr>) | None \<Rightarrow> None)
           | None \<Rightarrow> Some (Fin 0, orc)))"

declare o_eval.simps [simp del] o_cell.simps [simp del]

section \<open>Interventions\<close>

record dep_edge =
  de_from :: cell_id
  de_to :: cell_id
  de_sens :: double

record dep_graph =
  dg_in :: "cell_id list"
  dg_out :: "cell_id list"
  dg_edges :: "dep_edge list"
  dg_deps :: "(cell_id, cell_id list) omap"

fun base_values :: "'a mathlib_scheme \<Rightarrow> cell_id list \<Rightarrow> vals \<Rightarrow> orc_state \<Rightarrow> (vals \<times> orc_state) option" where
  "base_values M [] b orc = Some (b, orc)"
| "base_values M (i # is) b orc =
     (case orc_value M i orc of Some (v, orc1) \<Rightarrow> base_values M is (mput i v b) orc1 | None \<Rightarrow> None)"

definition base_at :: "vals \<Rightarrow> cell_id \<Rightarrow> double" where
  "base_at b i = (case mget b i of Some v \<Rightarrow> v | None \<Rightarrow> Fin 0)"

definition add_edge :: "cell_id \<Rightarrow> cell_id \<Rightarrow> double \<Rightarrow> dep_graph \<Rightarrow> dep_graph" where
  "add_edge i t s g =
     g\<lparr>dg_edges := dg_edges g @ [\<lparr>de_from = i, de_to = t, de_sens = s\<rparr>],
       dg_deps := mput t ((case mget (dg_deps g) t of Some xs \<Rightarrow> xs | None \<Rightarrow> []) @ [i]) (dg_deps g)\<rparr>"

fun respond :: "'a mathlib_scheme \<Rightarrow> vals \<Rightarrow> double \<Rightarrow> double \<Rightarrow> cell_id \<Rightarrow> cell_id list \<Rightarrow> dep_graph \<Rightarrow> orc_state \<Rightarrow>
    (dep_graph \<times> orc_state) option" where
  "respond M b tol d i [] g orc = Some (g, orc)"
| "respond M b tol d i (t # tos) g orc =
     (case orc_value M t orc of
        Some (v, orc1) \<Rightarrow>
          let delta = fsub RNear v (base_at b t)
          in respond M b tol d i tos
               (if v \<noteq> NaN \<and> flt tol (fabs delta) then add_edge i t (fdiv RNear delta d) g else g) orc1
      | None \<Rightarrow> None)"

definition step_size :: "double \<Rightarrow> double \<Rightarrow> double" where
  "step_size rel b = (if flt (Fin 1) (fabs b) then fmul RNear (fabs b) rel else rel)"

fun perturb :: "'a mathlib_scheme \<Rightarrow> vals \<Rightarrow> double \<Rightarrow> double \<Rightarrow> cell_id list \<Rightarrow> dep_graph \<Rightarrow> orc_state \<Rightarrow>
    (dep_graph \<times> orc_state) option" where
  "perturb M b rel tol [] g orc = Some (g, orc)"
| "perturb M b rel tol (i # is) g orc =
     (case orc_value M i (orc_reset orc) of
        Some (v, orc1) \<Rightarrow>
          (let d = step_size rel v
           in case respond M b tol d i (dg_out g) g (orc_set i (fadd RNear v d) orc1) of
                Some (g1, orc2) \<Rightarrow> perturb M b rel tol is g1 orc2 | None \<Rightarrow> None)
      | None \<Rightarrow> None)"

definition induce_deps :: "'a mathlib_scheme \<Rightarrow> double \<Rightarrow> double \<Rightarrow> orc_state \<Rightarrow> (dep_graph \<times> orc_state) option" where
  "induce_deps M rel tol orc =
     (case base_values M (o_out orc) [] (orc_reset orc) of
        Some (b, orc1) \<Rightarrow>
          (case perturb M b rel tol (o_in orc) \<lparr>dg_in = o_in orc, dg_out = o_out orc, dg_edges = [], dg_deps = []\<rparr> orc1 of
             Some (g, orc2) \<Rightarrow> Some (g, orc_reset orc2) | None \<Rightarrow> None)
      | None \<Rightarrow> None)"

section \<open>The bounded run\<close>

record run_limits =
  max_cells :: int
  max_evals :: int

definition default_limits :: run_limits where
  "default_limits = \<lparr>max_cells = 100000, max_evals = 2000000\<rparr>"

record run_stats =
  st_evals :: int
  st_cells :: int
  st_limit_hit :: bool

fun run_outputs :: "'a mathlib_scheme \<Rightarrow> int \<Rightarrow> cell_id list \<Rightarrow> int \<Rightarrow> (string, json) omap \<Rightarrow> orc_state \<Rightarrow>
    (bool \<times> int \<times> (string, json) omap \<times> orc_state) option" where
  "run_outputs M mx [] n outs orc = Some (True, n, outs, orc)"
| "run_outputs M mx (i # is) n outs orc =
     (case orc_value M i orc of
        Some (v, orc1) \<Rightarrow>
          (let outs1 = mput (cell_key (o_wb orc) i) (JNum v) outs
           in if mx < n + 1 then Some (False, n + 1, outs1, orc1) else run_outputs M mx is (n + 1) outs1 orc1)
      | None \<Rightarrow> None)"

fun run_inputs :: "'a mathlib_scheme \<Rightarrow> cell_id list \<Rightarrow> (string, json) omap \<Rightarrow> orc_state \<Rightarrow>
    ((string, json) omap \<times> orc_state) option" where
  "run_inputs M [] ins orc = Some (ins, orc)"
| "run_inputs M (i # is) ins orc =
     (case orc_value M i orc of
        Some (v, orc1) \<Rightarrow> run_inputs M is (mput (cell_key (o_wb orc) i) (JNum v) ins) orc1 | None \<Rightarrow> None)"

definition cell_count :: "workbook \<Rightarrow> int" where
  "cell_count wb = int (sum_list (map (length \<circ> sh_cells) (wb_sheets wb)))"

text \<open>The result, the statistics (from \<open>limit_hit\<close> as passed in) and the artifact of the run.\<close>

definition orc_run :: "'a mathlib_scheme \<Rightarrow> run_limits \<Rightarrow> json option \<Rightarrow> run_stats \<Rightarrow> orc_state \<Rightarrow>
    (bool \<times> run_stats \<times> json option \<times> orc_state) option" where
  "orc_run M cap art st orc =
     (case orc_build orc of None \<Rightarrow> None
      | Some orc0 \<Rightarrow>
          (let n = cell_count (o_wb orc); st0 = st\<lparr>st_evals := 0, st_cells := n\<rparr>
           in if max_cells cap < n then Some (False, st0\<lparr>st_limit_hit := True\<rparr>, art, orc0)
              else
                (case run_outputs M (max_evals cap) (o_out orc0) 0 [] orc0 of
                   None \<Rightarrow> None
                 | Some (False, k, _, orc1) \<Rightarrow>
                     Some (False, st0\<lparr>st_evals := k, st_limit_hit := True\<rparr>, Some (mkobj []), orc1)
                 | Some (True, k, outs, orc1) \<Rightarrow>
                     (case run_inputs M (o_in orc1) [] orc1 of
                        None \<Rightarrow> None
                      | Some (ins, orc2) \<Rightarrow>
                          Some (True, st0\<lparr>st_evals := k\<rparr>,
                            Some (mkobj [(''inputs'', JObj ins), (''outputs'', JObj outs),
                              (''cells'', JNum (fround RNear (of_int n))), (''evals'', JNum (fround RNear (of_int k)))]), orc2)))))"

definition orc_capture :: "json option \<Rightarrow> json" where
  "orc_capture art = (case art of Some j \<Rightarrow> j | None \<Rightarrow> mkobj [])"

section \<open>A cached value stays\<close>

text \<open>Evaluation keeps the cached values and adds only cells with a formula.\<close>

definition extends :: "(cell_id, xast option) omap \<Rightarrow> vals \<Rightarrow> vals \<Rightarrow> bool" where
  "extends fx st st' \<longleftrightarrow> (\<forall>i v. mget st i = Some v \<longrightarrow> mget st' i = Some v) \<and> (\<forall>i. mget fx i = None \<longrightarrow> mget st' i = mget st i)"

lemma extends_refl [simp]: "extends fx st st"
  by (simp add: extends_def)

lemma extends_trans [trans]: "extends fx a b \<Longrightarrow> extends fx b c \<Longrightarrow> extends fx a c"
  by (simp add: extends_def)

lemma extends_mput: "mget st i = None \<Longrightarrow> mget fx i = Some a \<Longrightarrow> extends fx st st' \<Longrightarrow> extends fx st (mput i v st')"
  by (auto simp: extends_def mget_mput)

lemma o_extends:
  "o_eval M orc d cur a st = Some (v, st') \<Longrightarrow> extends (o_fx orc) st st'"
  "o_args M orc d cur as st = Some (av, st') \<Longrightarrow> extends (o_fx orc) st st'"
  "o_cell M orc d i st = Some (v, st') \<Longrightarrow> extends (o_fx orc) st st'"
  "o_cells M orc d is st = Some (vs, st') \<Longrightarrow> extends (o_fx orc) st st'"
proof (induction M orc d cur a st and M orc d cur as st and M orc d i st and M orc d "is" st
    arbitrary: v st' and av st' and v st' and vs st' rule: o_eval_o_args_o_cell_o_cells.induct)
  case (1 M orc d cur a st)
  then show ?case by (auto simp: o_eval.simps[of M orc d cur a] split: xast.splits option.splits prod.splits) (meson extends_trans)+
next
  case (3 M orc d cur a as st)
  then show ?case  by (auto split: xast.splits option.splits prod.splits) (meson extends_trans)+
next
  case (4 M orc d i st)
  then show ?case  by (auto simp: o_cell.simps[of M orc d i] split: if_splits option.splits prod.splits intro: extends_mput)
next
  case (6 M orc d i "is" st)
  then show ?case by (auto split: option.splits prod.splits intro: extends_trans)
qed simp_all

lemma same_val: "\<exists>st. orc = orc\<lparr>o_val := st\<rparr>"
  by (rule exI[of _ "o_val orc"]) simp

lemma orc_value_step:
  assumes "orc_value M i orc = Some (v, orc')"
  shows "extends (o_fx orc) (o_val orc) (o_val orc')" "\<exists>st. orc' = orc\<lparr>o_val := st\<rparr>"
    "mget (o_val orc') i = Some v \<or> mget (o_val orc') i = None \<and> mget (o_fx orc) i = None \<and> v = Fin 0"
  using assms by (auto simp: orc_value_def mget_mput split: option.splits prod.splits intro!: extends_mput same_val intro: o_extends(1))

lemma orc_value_again:
  assumes "orc_value M i orc = Some (v, orc1)" "extends (o_fx orc) (o_val orc1) (o_val orc2)" "o_fx orc2 = o_fx orc"
  shows "orc_value M i orc2 = Some (v, orc2)"
  using orc_value_step(3)[OF assms(1)] assms(2,3) by (auto simp: orc_value_def extends_def)

section \<open>The state after building\<close>

definition orc_inv :: "orc_state \<Rightarrow> bool" where
  "orc_inv orc \<longleftrightarrow> o_val orc = o_base orc \<and> mwf (o_base orc)
     \<and> (\<forall>i. i \<in> set (o_in orc) \<longleftrightarrow> mget (o_base orc) i \<noteq> None) \<and> (\<forall>i. i \<in> set (o_out orc) \<longleftrightarrow> mget (o_fx orc) i \<noteq> None)"

lemma build_cell_inv: "build_cell si kv orc = Some orc' \<Longrightarrow> orc_inv orc \<Longrightarrow> orc_inv orc'"
  by (auto simp: build_cell_def Let_def orc_inv_def mget_mput split: if_splits option.splits)

lemma build_cells_inv: "build_cells ks orc = Some orc' \<Longrightarrow> orc_inv orc \<Longrightarrow> orc_inv orc'"
  by (induction ks orc rule: build_cells.induct) (auto split: bind_splits dest: build_cell_inv)

lemma orc_build_inv: "orc_build orc = Some orc' \<Longrightarrow> orc_inv orc'"
  unfolding orc_build_def by (erule build_cells_inv) (simp add: orc_new_def orc_inv_def)

lemma orc_reset_inv: "orc_inv orc \<Longrightarrow> orc_reset orc = orc"
  by (simp add: orc_inv_def orc_reset_def mbuild_id)

section \<open>Interventions\<close>

text \<open>What a session does to an oracle after building it.\<close>

inductive orc_step :: "'a mathlib_scheme \<Rightarrow> orc_state \<Rightarrow> orc_state \<Rightarrow> bool" for M where
  step_value: "orc_value M i orc = Some (v, orc') \<Longrightarrow> orc_step M orc orc'"
| step_set: "orc_step M orc (orc_set i v orc)"
| step_reset: "orc_step M orc (orc_reset orc)"

lemma orc_step_reset: "orc_step M orc orc' \<Longrightarrow> orc_reset orc' = orc_reset orc"
proof (induction rule: orc_step.induct)
  case (step_value i orc v orc')
  then obtain st where "orc' = orc\<lparr>o_val := st\<rparr>" using orc_value_step(2) by blast
  then show ?case by (simp add: orc_reset_def)
qed (simp_all add: orc_reset_def orc_set_def)

lemma orc_session_reset: "(orc_step M)\<^sup>*\<^sup>* orc orc' \<Longrightarrow> orc_reset orc' = orc_reset orc"
  by (induction rule: rtranclp_induct) (simp_all add: orc_step_reset)

definition deps_at :: "dep_graph \<Rightarrow> cell_id \<Rightarrow> cell_id list" where
  "deps_at g t = (case mget (dg_deps g) t of Some xs \<Rightarrow> xs | None \<Rightarrow> [])"

text \<open>The graph is consistent: the dependencies of an output are its edges, in their order.\<close>

definition graph_ok :: "cell_id list \<Rightarrow> cell_id list \<Rightarrow> dep_graph \<Rightarrow> bool" where
  "graph_ok ins outs g \<longleftrightarrow> dg_in g = ins \<and> dg_out g = outs
     \<and> list_all (\<lambda>e. de_from e \<in> set ins \<and> de_to e \<in> set outs) (dg_edges g)
     \<and> (\<forall>t. deps_at g t = map de_from (filter (\<lambda>e. de_to e = t) (dg_edges g)))"

lemma add_edge_ok: "graph_ok ins outs g \<Longrightarrow> i \<in> set ins \<Longrightarrow> t \<in> set outs \<Longrightarrow> graph_ok ins outs (add_edge i t s g)"
  by (auto simp: graph_ok_def add_edge_def deps_at_def mget_mput)

lemma respond_ok:
  "respond M b tol d i tos g orc = Some (g', orc') \<Longrightarrow> graph_ok ins outs g \<Longrightarrow> i \<in> set ins \<Longrightarrow> set tos \<subseteq> set outs \<Longrightarrow>
     graph_ok ins outs g' \<and> orc_reset orc' = orc_reset orc"
proof (induction tos arbitrary: g orc)
  case (Cons t tos)
  obtain v orc1 where v: "orc_value M t orc = Some (v, orc1)" using Cons.prems(1) by (auto split: option.splits)
  have "orc_reset orc1 = orc_reset orc" by (rule orc_step_reset[OF step_value[OF v]])
  then show ?case using Cons v add_edge_ok by (auto simp: Let_def split: if_splits)
qed auto

lemma perturb_ok:
  "perturb M b rel tol is g orc = Some (g', orc') \<Longrightarrow> graph_ok ins outs g \<Longrightarrow> set is \<subseteq> set ins \<Longrightarrow>
     graph_ok ins outs g' \<and> orc_reset orc' = orc_reset orc"
proof (induction "is" arbitrary: g orc)
  case (Cons i "is")
  obtain v orc1 g1 orc2 where v: "orc_value M i (orc_reset orc) = Some (v, orc1)"
    "respond M b tol (step_size rel v) i (dg_out g) g (orc_set i (fadd RNear v (step_size rel v)) orc1) = Some (g1, orc2)"
    "perturb M b rel tol is g1 orc2 = Some (g', orc')"
    using Cons.prems(1) by (auto simp: Let_def split: option.splits)
  have r: "orc_reset (orc_set i w orc1) = orc_reset orc" for w
    using orc_step_reset[OF step_value[OF v(1)]] by (simp add: orc_reset_def orc_set_def)
  have "set (dg_out g) \<subseteq> set outs" using Cons.prems(2) by (simp add: graph_ok_def)
  then show ?case using respond_ok[OF v(2) Cons.prems(2)] Cons.IH[OF v(3)] Cons.prems(3) r by auto
qed simp

lemma base_values_reset: "base_values M is b orc = Some (b', orc') \<Longrightarrow> orc_reset orc' = orc_reset orc \<and> o_in orc' = o_in orc \<and> o_out orc' = o_out orc"
proof (induction "is" arbitrary: b orc)
  case (Cons i "is")
  obtain v orc1 where v: "orc_value M i orc = Some (v, orc1)" using Cons.prems by (auto split: option.splits)
  have "o_in orc1 = o_in orc \<and> o_out orc1 = o_out orc" using orc_value_step(2)[OF v] by auto
  then show ?case using orc_step_reset[OF step_value[OF v]] Cons v by auto
qed simp

lemma induce_deps_ok:
  assumes "induce_deps M rel tol orc = Some (g, orc')"
  shows "graph_ok (o_in orc) (o_out orc) g" "orc' = orc_reset orc"
proof -
  obtain b orc1 orc2 where s: "base_values M (o_out orc) [] (orc_reset orc) = Some (b, orc1)"
    "perturb M b rel tol (o_in orc) \<lparr>dg_in = o_in orc, dg_out = o_out orc, dg_edges = [], dg_deps = []\<rparr> orc1 = Some (g, orc2)"
    "orc' = orc_reset orc2"
    using assms by (auto simp: induce_deps_def split: option.splits)
  have "graph_ok (o_in orc) (o_out orc) \<lparr>dg_in = o_in orc, dg_out = o_out orc, dg_edges = [], dg_deps = []\<rparr>"
    by (simp add: graph_ok_def deps_at_def)
  from perturb_ok[OF s(2) this]
  show "graph_ok (o_in orc) (o_out orc) g" "orc' = orc_reset orc"
    using base_values_reset[OF s(1)] s(3) by (simp_all add: orc_reset_def)
qed

section \<open>The limits\<close>

lemma run_outputs_count:
  "run_outputs M mx is n outs orc = Some (r, k, outs', orc') \<Longrightarrow> n \<le> mx \<Longrightarrow>
     r = (n + int (length is) \<le> mx) \<and> k = (if r then n + int (length is) else mx + 1)"
proof (induction "is" arbitrary: n outs orc)
  case (Cons i "is")
  obtain v orc1 where v: "orc_value M i orc = Some (v, orc1)" using Cons.prems(1) by (auto split: option.splits)
  show ?case
  proof (cases "mx < n + 1")
    case False
    then have "r = (n + 1 + int (length is) \<le> mx) \<and> k = (if r then n + 1 + int (length is) else mx + 1)"
      using Cons.prems v by (intro Cons.IH) (auto simp: Let_def)
    then show ?thesis by (simp add: add_ac)
  qed (use Cons.prems v in \<open>auto simp: Let_def\<close>)
qed auto

lemma orc_run_limits:
  assumes "orc_run M cap art st orc = Some (r, st', art', orc')" "0 \<le> max_evals cap"
  shows "\<exists>orc0. orc_build orc = Some orc0
     \<and> r = (cell_count (o_wb orc) \<le> max_cells cap \<and> int (length (o_out orc0)) \<le> max_evals cap)
     \<and> st_cells st' = cell_count (o_wb orc) \<and> st_evals st' \<le> max_evals cap + 1 \<and> (\<not> r \<longrightarrow> st_limit_hit st')"
  using assms
  by (auto simp: orc_run_def Let_def split: option.splits if_splits bool.splits prod.splits dest!: run_outputs_count[OF _ assms(2)])

section \<open>Cycles\<close>

lemma o_cell_self:
  assumes "mget (o_fx orc) i = Some (Some (XCell shn r))" "cell_target (o_wb orc) shn r (c_sheet i) = i"
  shows "mget st i = None \<Longrightarrow> \<exists>st'. o_cell M orc d i st = Some (NaN, st')"
proof (induction "257 - d" arbitrary: d)
  case 0
  then show ?case using assms(1) by (simp add: o_cell.simps)
next
  case (Suc k)
  have "257 - (d + 1) = k" using Suc.hyps(2) by simp
  then obtain st1 where "o_cell M orc (d + 1) i st = Some (NaN, st1)" using Suc.hyps(1)[of "d + 1"] Suc.prems by auto
  then show ?case using assms Suc.prems by (simp add: o_cell.simps[of M orc d] o_eval.simps)
qed

lemma orc_value_self:
  assumes "mget (o_fx orc) i = Some (Some (XCell shn r))" "cell_target (o_wb orc) shn r (c_sheet i) = i"
    and "mget (o_val orc) i = None"
  shows "\<exists>orc'. orc_value M i orc = Some (NaN, orc')"
proof -
  obtain st where "o_cell M orc 0 i (o_val orc) = Some (NaN, st)" using o_cell_self[OF assms] by blast
  then show ?thesis using assms by (simp add: orc_value_def o_eval.simps)
qed

end
