(* ===== verification/Fve_Sheets.thy ===== *)
theory Fve_Sheets
  imports Fve_LowerSound Fve_Oracle Fve_Libm Fve_Engine
begin

text \<open>
  The properties of the spreadsheet side: references, the formula reader, lowering with its end
  to end consequence for a verdict, and the oracle.
\<close>

section \<open>From a cell to a verdict\<close>

text \<open>C5. A formula tree lowered without a hole denotes every real value its cell has in the workbook. The value
  of a cell is defined on the parsed formulas with real arithmetic, a meaning of its own for every operator and
  function, and does not refer to the tables of the lowering; it gives no value to a percentage, PI, DEGREES and
  RADIANS, whose constants the code rounds.\<close>

theorem lowering_refines:
  assumes "lower_target wb i = XOk l u" "lw_holes l = 0" "cell_real wb \<rho> i y"
  shows "denotes \<rho> H (lw_root l) y"
  using lower_target_denotes[OF assms] .

theorem lowering_refines_witness: "denotes (\<lambda>s. if s = ''S!A1'' then 2 else 1) (\<lambda>_ _. 0) demo_node 3"
proof -
  have "denotes (\<lambda>s. if s = ''S!A1'' then 2 else 1) (\<lambda>_ _. 0)
      (lw_root \<lparr>lw_root = demo_node, lw_base = [(''S!A1'', Fin 2), (''S!B1'', Fin 1)], lw_holes = 0, lw_ok = True\<rparr>) 3"
    by (rule lowering_refines[OF demo_lowered _ demo_cell_real]) simp
  then show ?thesis by simp
qed

text \<open>C18. Lowering ends for every workbook and cell: the fuel bound over the formulas of the workbook is
  enough.\<close>

theorem lowering_terminates: "lower_target wb i \<noteq> XFuel"
  by (rule lower_target_total)

text \<open>A program over the lowered cell, its inputs fixed.\<close>

definition sheet_prog :: prog where
  "sheet_prog = \<lparr>p_root = demo_node, p_box = [(''S!A1'', Ival (Fin 2) (Fin 2)), (''S!B1'', Ival (Fin 1) (Fin 1))],
     p_holes = hole_empty, p_ks = Fin 0\<rparr>"

lemma sheet_eval: "\<exists>tr. eval L sheet_prog = Some \<lparr>ms = Ival (Fin 3) (Fin 3), residual = Fin 0, r_trace = tr\<rparr>"
  by (simp add: eval_def sheet_prog_def demo_node_def rec.simps[of _ _ _ "oper _ _"]
      rec.simps[of _ _ _ "var _ _ _"] var_ival_def push_trace_def sub_def mul_def dmin4_def dmax4_def std_min_def std_max_def
      is_empty_def fsub_def fmul_def is_zero_def fabs.simps)

lemma sheet_rigorous: "prog_rigorous L sheet_prog"
  by (simp add: prog_rigorous_def sheet_prog_def demo_node_def constructor_defs finish_Node encls_of_def
      rec.simps[of _ _ _ "Node _ _ _ _ _ _ _ _ _ _ _ _ _"] push_trace_def var_ival_def ifin_def)

lemma sheet_env: "env_in (\<lambda>s. if s = ''S!A1'' then 2 else 1) (p_box sheet_prog) (p_root sheet_prog)"
  by (simp add: sheet_prog_def demo_node_def constructor_defs finish_Node imem_def var_ival_def)

lemma sheet_holes: "holes_sound H (p_holes sheet_prog) (p_root sheet_prog)"
  by (simp add: sheet_prog_def demo_node_def constructor_defs finish_Node)

lemma sheet_run: "\<exists>r c. run L sheet_prog chain_new m = Some (r, c) \<and> rr_verdict r = Safe \<and> residual (rr_eval r) = Fin 0"
proof -
  obtain tr where e: "eval L sheet_prog = Some \<lparr>ms = Ival (Fin 3) (Fin 3), residual = Fin 0, r_trace = tr\<rparr>"
    using sheet_eval by blast
  show ?thesis by (simp add: run_def e Let_def decide_eval_def decide_def is_empty_def is_entire_def fsub_def)
qed

text \<open>The verdict of a run over a lowered cell holds for the cell of the workbook: under SAFE every real
  value of the cell is positive, under FAIL it is negative, where the evaluation is rigorous.\<close>

theorem cell_verdict_sound:
  assumes "libm_ok L" "prog_rigorous L p" "lower_target wb i = XOk l u" "lw_holes l = 0" "p_root p = lw_root l"
    and "cell_real wb \<rho> i y" "env_in \<rho> (p_box p) (p_root p)" "holes_sound H (p_holes p) (p_root p)"
    and "run L p chain m = Some (r, chain')" "0 \<le> fval (residual (rr_eval r))"
  shows "(rr_verdict r = Safe \<longrightarrow> 0 < y) \<and> (rr_verdict r = Fail \<longrightarrow> y < 0)"
  using run_sound[OF assms(1,2) lower_run_sound[OF assms(1-8)] assms(9)] assms(10) by simp

theorem cell_verdict_sound_witness:
  "\<exists>r c. run ideal_libm sheet_prog chain_new ''interval'' = Some (r, c) \<and> rr_verdict r = Safe \<and> 0 < (3 :: real)"
proof -
  obtain r c where r: "run ideal_libm sheet_prog chain_new ''interval'' = Some (r, c)" "rr_verdict r = Safe"
    "residual (rr_eval r) = Fin 0" using sheet_run by blast
  have root: "p_root sheet_prog =
      lw_root \<lparr>lw_root = demo_node, lw_base = [(''S!A1'', Fin 2), (''S!B1'', Fin 1)], lw_holes = 0, lw_ok = True\<rparr>"
    by (simp add: sheet_prog_def)
  have "0 \<le> fval (residual (rr_eval r))" by (simp add: r(3))
  from cell_verdict_sound[OF ideal_libm_ok sheet_rigorous demo_lowered _ root demo_cell_real sheet_env sheet_holes[of "\<lambda>_ _. 0"] r(1) this]
  show ?thesis using r(1,2) by auto
qed

section \<open>References and formulas\<close>

text \<open>A printed A1 reference parses back to its row and column.\<close>

theorem a1_round_trip:
  assumes "0 \<le> row" "row < int_max" "0 \<le> col" "col < int_max"
  shows "parse_a1 (a1 row col) = Some \<lparr>a1_ok = True, a1_pos = Some (row, col), a1_ar = False, a1_ac = False\<rparr>"
  using parse_a1_a1[OF assms] .

theorem a1_round_trip_witness:
  "parse_a1 (a1 41 701) = Some \<lparr>a1_ok = True, a1_pos = Some (41, 701), a1_ar = False, a1_ac = False\<rparr>"
  by (rule a1_round_trip) (simp_all add: int_max_def)

text \<open>The formula reader returns on every text: the fuel of six steps per character is enough.\<close>

theorem formula_reader_terminates:
  "parse_expr (expr_fuel s) 1 (p_adv \<lparr>p_cur = Tok TEnd [], p_rest = s, p_ok = True, p_err = []\<rparr>) \<noteq> XFuel"
  by (rule parse_formula_returns)

text \<open>The references collected from a formula are those at the leaves of its tree, in their order.\<close>

theorem references_are_leaves:
  "collect_refs a \<lparr>x_cells = [], x_ranges = [], x_names = []\<rparr> =
     \<lparr>x_cells = concat (map leaf_cells (xleaves a)), x_ranges = concat (map leaf_ranges (xleaves a)),
      x_names = concat (map leaf_names (xleaves a))\<rparr>"
  by (rule xrefs.equality) (simp_all add: collect_cells collect_ranges collect_names)

section \<open>The oracle\<close>

text \<open>A mathematical library and the oracle of the sheet, for the witnesses.\<close>

definition ideal_mathlib :: mathlib where
  "ideal_mathlib = libm.extend ideal_libm
     (mathlib.fields (real_fun (log 10) NaN PInf) (real_fun arcsin NaN NaN) (real_fun arccos NaN NaN)
       (real_fun arctan (fround RDown (- pi / 2)) (fround RDown (pi / 2)))
       (\<lambda>y x. fround RDown (Arg (Complex (fval x) (fval y))))
       (real_fun sinh NInf PInf) (real_fun cosh PInf PInf) (real_fun tanh (Fin (- 1)) (Fin 1)))"

definition demo_orc :: orc_state where
  "demo_orc = \<lparr>o_wb = demo_wb, o_val = [(CellId 0 0 0, Fin 2), (CellId 0 0 1, Fin 1)],
     o_fx = [(CellId 0 0 2, Some demo_tree)], o_base = [(CellId 0 0 0, Fin 2), (CellId 0 0 1, Fin 1)],
     o_in = [CellId 0 0 0, CellId 0 0 1], o_out = [CellId 0 0 2]\<rparr>"

lemma cell_id_less: "CellId a b c < CellId d e f \<longleftrightarrow> a < d \<or> a = d \<and> (b < e \<or> b = e \<and> c < f)"
  by (auto simp: less_cell_id_def cell_before_def)

lemma demo_orc_build: "orc_build (orc_new demo_wb) = Some demo_orc"
  by (simp add: orc_build_def wb_cells_def demo_wb_def enumerate_eq_zip orc_new_def build_cell_def Let_def demo_parse
      input_cell_def cell_default_def demo_orc_def cell_id_less)

lemma demo_orc_eval:
  "mget st (CellId 0 0 0) = Some (Fin 2) \<Longrightarrow> mget st (CellId 0 0 1) = Some (Fin 1) \<Longrightarrow>
     o_eval M (demo_orc\<lparr>o_val := S\<rparr>) 0 0 demo_tree st = Some (Fin 3, st)"
  by (simp add: demo_tree_def o_eval.simps o_cell.simps demo_orc_def demo_targets orc_bin_def fmul_def fsub_def is_zero_def)

lemma demo_orc_value:
  "orc_value M (CellId 0 0 2) demo_orc = Some (Fin 3, demo_orc\<lparr>o_val := mput (CellId 0 0 2) (Fin 3) (o_val demo_orc)\<rparr>)"
  using demo_orc_eval[of "o_val demo_orc" M "o_val demo_orc"] by (simp add: orc_value_def demo_orc_def)

lemma demo_orc_input:
  "orc_value M (CellId 0 0 0) (demo_orc\<lparr>o_val := mput (CellId 0 0 2) (Fin 3) (o_val demo_orc)\<rparr>)
     = Some (Fin 2, demo_orc\<lparr>o_val := mput (CellId 0 0 2) (Fin 3) (o_val demo_orc)\<rparr>)"
  by (simp add: orc_value_def mget_mput demo_orc_def)

definition like_demo :: "orc_state \<Rightarrow> bool" where
  "like_demo orc \<longleftrightarrow> o_wb orc = demo_wb \<and> o_fx orc = [(CellId 0 0 2, Some demo_tree)]"

lemma like_demo_value: "like_demo orc \<Longrightarrow> \<exists>v orc'. orc_value M t orc = Some (v, orc') \<and> like_demo orc'"
  by (auto simp: like_demo_def orc_value_def demo_tree_def o_eval.simps o_cell.simps demo_targets split: option.splits)

lemma demo_base: "like_demo orc \<Longrightarrow> \<exists>b' orc'. base_values M is b orc = Some (b', orc') \<and> like_demo orc'"
proof (induction "is" arbitrary: b orc)
  case (Cons i "is")
  from like_demo_value[OF Cons.prems, of M i] obtain v orc1 where v: "orc_value M i orc = Some (v, orc1)" "like_demo orc1" by blast
  show ?case using Cons.IH[OF v(2), of "mput i v b"] v(1) by simp
qed simp

lemma demo_respond: "like_demo orc \<Longrightarrow> \<exists>g' orc'. respond M b tol d i tos g orc = Some (g', orc') \<and> like_demo orc'"
proof (induction tos arbitrary: g orc)
  case (Cons t tos)
  from like_demo_value[OF Cons.prems, of M t] obtain v orc1 where v: "orc_value M t orc = Some (v, orc1)" "like_demo orc1" by blast
  show ?case unfolding respond.simps v(1) option.case prod.case Let_def by (rule Cons.IH[OF v(2)])
qed simp

lemma demo_perturb: "like_demo orc \<Longrightarrow> \<exists>g' orc'. perturb M b rel tol is g orc = Some (g', orc')"
proof (induction "is" arbitrary: g orc)
  case (Cons i "is")
  have "like_demo (orc_reset orc)" using Cons.prems by (simp add: like_demo_def orc_reset_def)
  from like_demo_value[OF this, of M i] obtain v orc1 where v: "orc_value M i (orc_reset orc) = Some (v, orc1)" "like_demo orc1" by blast
  have "like_demo (orc_set i w orc1)" for w using v(2) by (simp add: like_demo_def orc_set_def)
  from demo_respond[OF this] obtain g1 orc2 where
    "respond M b tol (step_size rel v) i (dg_out g) g (orc_set i (fadd RNear v (step_size rel v)) orc1) = Some (g1, orc2)" "like_demo orc2"
    by blast
  then show ?case using Cons.IH[of orc2 g1] v(1) by (simp add: Let_def)
qed simp

lemma demo_induce: "\<exists>g orc'. induce_deps M (Fin 1) (Fin 0) demo_orc = Some (g, orc')"
proof -
  have "like_demo (orc_reset demo_orc)" by (simp add: like_demo_def orc_reset_def demo_orc_def)
  from demo_base[OF this] obtain b orc1 where
    b: "base_values M (o_out demo_orc) [] (orc_reset demo_orc) = Some (b, orc1)" "like_demo orc1" by blast
  obtain g orc2 where "perturb M b (Fin 1) (Fin 0) (o_in demo_orc)
      \<lparr>dg_in = o_in demo_orc, dg_out = o_out demo_orc, dg_edges = [], dg_deps = []\<rparr> orc1 = Some (g, orc2)"
    using demo_perturb[OF b(2)] by blast
  then show ?thesis by (simp add: induce_deps_def b(1))
qed

lemma demo_orc_run:
  "\<exists>r st' art' orc'. orc_run M default_limits None \<lparr>st_evals = 0, st_cells = 0, st_limit_hit = False\<rparr> (orc_new demo_wb)
     = Some (r, st', art', orc')"
proof -
  have w: "o_wb (orc_new demo_wb) = demo_wb" "cell_count demo_wb = 3" by (simp_all add: orc_new_def cell_count_def demo_wb_def)
  have o: "o_out demo_orc = [CellId 0 0 2]" "o_in demo_orc = [CellId 0 0 0, CellId 0 0 1]" by (simp_all add: demo_orc_def)
  show ?thesis
    by (simp add: orc_run_def demo_orc_build w default_limits_def o demo_orc_value Let_def)
      (simp add: orc_value_def demo_orc_def cell_id_less ex_bool_eq)
qed

text \<open>The value of a cell does not change while other cells are evaluated.\<close>

theorem oracle_value_stable:
  assumes "orc_value M i orc = Some (v, orc1)" "orc_value M j orc1 = Some (w, orc2)"
  shows "orc_value M i orc2 = Some (v, orc2)"
  by (rule orc_value_again[OF assms(1)])
    (use orc_value_step(1)[OF assms(2)] orc_value_step(2)[OF assms(1)] orc_value_step(2)[OF assms(2)] in auto)

theorem oracle_value_stable_witness: "\<exists>orc. orc_value ideal_mathlib (CellId 0 0 2) orc = Some (Fin 3, orc)"
  using oracle_value_stable[OF demo_orc_value demo_orc_input] by blast

text \<open>After building, whatever values are read, set and reset, a reset restores the built state.\<close>

theorem oracle_reset_restores:
  assumes "orc_build orc0 = Some orc" "(orc_step M)\<^sup>*\<^sup>* orc orc'"
  shows "orc_reset orc' = orc"
  using orc_session_reset[OF assms(2)] orc_reset_inv[OF orc_build_inv[OF assms(1)]] by simp

theorem oracle_reset_restores_witness: "orc_reset (orc_set (CellId 0 0 0) (Fin 5) demo_orc) = demo_orc"
  by (rule oracle_reset_restores[OF demo_orc_build, of ideal_mathlib], rule r_into_rtranclp, rule step_set)

text \<open>Inducing the dependencies leaves the oracle reset, and lists for each output exactly the inputs
  whose edges end in it, inputs and outputs being those of the oracle.\<close>

theorem induced_graph_consistent:
  assumes "induce_deps M rel tol orc = Some (g, orc')"
  shows "orc' = orc_reset orc \<and> dg_in g = o_in orc \<and> dg_out g = o_out orc
    \<and> list_all (\<lambda>e. de_from e \<in> set (o_in orc) \<and> de_to e \<in> set (o_out orc)) (dg_edges g)
    \<and> (\<forall>t. deps_at g t = map de_from (filter (\<lambda>e. de_to e = t) (dg_edges g)))"
  using induce_deps_ok[OF assms] by (simp add: graph_ok_def)

theorem induced_graph_consistent_witness:
  "\<exists>g orc'. induce_deps ideal_mathlib (Fin 1) (Fin 0) demo_orc = Some (g, orc') \<and> dg_in g = [CellId 0 0 0, CellId 0 0 1]"
proof -
  obtain g orc' where g: "induce_deps ideal_mathlib (Fin 1) (Fin 0) demo_orc = Some (g, orc')" using demo_induce by blast
  show ?thesis using g induced_graph_consistent[OF g] by (simp add: demo_orc_def)
qed

text \<open>A run of the oracle succeeds exactly when the cells and the outputs of the workbook are within the
  limits, and it never evaluates more than one output past the limit.\<close>

theorem oracle_run_bounded:
  assumes "orc_run M cap art st orc = Some (r, st', art', orc')" "0 \<le> max_evals cap"
  shows "\<exists>orc0. orc_build orc = Some orc0
     \<and> r = (cell_count (o_wb orc) \<le> max_cells cap \<and> int (length (o_out orc0)) \<le> max_evals cap)
     \<and> st_cells st' = cell_count (o_wb orc) \<and> st_evals st' \<le> max_evals cap + 1 \<and> (\<not> r \<longrightarrow> st_limit_hit st')"
  using orc_run_limits[OF assms] .

theorem oracle_run_bounded_witness:
  "\<exists>r st' art' orc'. orc_run ideal_mathlib default_limits None \<lparr>st_evals = 0, st_cells = 0, st_limit_hit = False\<rparr> (orc_new demo_wb)
     = Some (r, st', art', orc') \<and> st_cells st' = 3 \<and> r"
proof -
  obtain r st' art' orc' where r: "orc_run ideal_mathlib default_limits None \<lparr>st_evals = 0, st_cells = 0, st_limit_hit = False\<rparr>
      (orc_new demo_wb) = Some (r, st', art', orc')" using demo_orc_run by blast
  have w: "o_wb (orc_new demo_wb) = demo_wb" "cell_count demo_wb = 3" by (simp_all add: orc_new_def cell_count_def demo_wb_def)
  have "0 \<le> max_evals default_limits" by (simp add: default_limits_def)
  from oracle_run_bounded[OF r this] r show ?thesis
    by (auto simp: demo_orc_build w default_limits_def demo_orc_def)
qed

end
