(* ===== verification/Fve_Zip.thy ===== *)
theory Fve_Zip
  imports Fve_Sha256
begin

text \<open>
  The zip reader (\<open>extractor/zip\<close>): the bit reader, canonical Huffman codes, the inflater with
  its ring window and its output chunks, and the two readers of the central directory. A file is
  its bytes. The inflater has fuel: after the end of the input the bit reader yields zeros, and the
  symbol loop does not look at its error flag, so that it need not end (see \<open>hang_bytes\<close>).
  \<open>None\<close> in the functions over offsets is a read outside the buffer.
\<close>

section \<open>Bits\<close>

record bits =
  bt_data :: "byte list"
  bt_pos :: nat
  bt_buf :: byte
  bt_cnt :: nat
  bt_bad :: bool

definition bits_of :: "byte list \<Rightarrow> bits" where
  "bits_of data = \<lparr>bt_data = data, bt_pos = 0, bt_buf = 0, bt_cnt = 0, bt_bad = False\<rparr>"

definition shift_bit :: "bits \<Rightarrow> nat \<times> bits" where
  "shift_bit b = (if odd (unat (bt_buf b)) then 1 else 0, b\<lparr>bt_buf := drop_bit 1 (bt_buf b), bt_cnt := bt_cnt b - 1\<rparr>)"

definition get_bit :: "bits \<Rightarrow> nat \<times> bits" where
  "get_bit b =
     (if bt_cnt b = 0 then
        (if length (bt_data b) \<le> bt_pos b then (0, b\<lparr>bt_bad := True\<rparr>)
         else shift_bit (b\<lparr>bt_buf := bt_data b ! bt_pos b, bt_pos := bt_pos b + 1, bt_cnt := 8\<rparr>))
      else shift_bit b)"

text \<open>The loop over \<open>i < k\<close> that ors the bits at their places; the places are distinct.\<close>

fun get_bits_from :: "nat \<Rightarrow> nat \<Rightarrow> nat \<Rightarrow> bits \<Rightarrow> nat \<times> bits" where
  "get_bits_from i 0 v b = (v, b)"
| "get_bits_from i (Suc k) v b = (let (x, b1) = get_bit b in get_bits_from (Suc i) k (v + x * 2 ^ i) b1)"

definition get_bits :: "nat \<Rightarrow> bits \<Rightarrow> nat \<times> bits" where
  "get_bits k b = get_bits_from 0 k 0 b"

definition align :: "bits \<Rightarrow> bits" where
  "align b = b\<lparr>bt_cnt := 0\<rparr>"

section \<open>Huffman codes\<close>

record huff =
  hf_count :: "nat list"
  hf_sym :: "nat list"
  hf_max :: nat

definition bump :: "nat \<Rightarrow> nat list \<Rightarrow> nat list" where
  "bump i xs = xs[i := xs ! i + 1]"

definition place_sym :: "nat list \<times> nat list \<Rightarrow> nat \<times> nat \<Rightarrow> nat list \<times> nat list" where
  "place_sym so li =
     (let (sy, offs) = so; (l, i) = li
      in if l \<noteq> 0 then (sy[offs ! l := i], bump l offs) else (sy, offs))"

definition huff_build :: "nat list \<Rightarrow> huff" where
  "huff_build lens =
     (let mb = foldl max 0 lens;
          count = (foldl (\<lambda>c l. bump l c) (replicate (mb + 1) 0) lens)[0 := 0];
          offs = foldl (\<lambda>o' i. o'[i + 1 := o' ! i + count ! i]) (replicate (mb + 2) 0) [1..<mb + 1];
          sy = fst (foldl place_sym (replicate (length lens) 0, offs) (zip lens [0..<length lens]))
      in \<lparr>hf_count = count, hf_sym = sy, hf_max = mb\<rparr>)"

text \<open>\<open>n\<close> lengths are left to try; the result \<open>- 1\<close> means no code matched.\<close>

fun huff_loop :: "huff \<Rightarrow> nat \<Rightarrow> int \<Rightarrow> int \<Rightarrow> nat \<Rightarrow> bits \<Rightarrow> int \<times> bits" where
  "huff_loop h 0 code fst' idx b = (- 1, b)"
| "huff_loop h (Suc n) code fst' idx b =
     (let (x, b1) = get_bit b; code1 = code + int x; c = hf_count h ! (hf_max h - n)
      in if code1 - fst' < int c then (int (hf_sym h ! nat (int idx + (code1 - fst'))), b1)
         else huff_loop h n (2 * code1) (2 * (fst' + int c)) (idx + c) b1)"

definition huff_decode :: "huff \<Rightarrow> bits \<Rightarrow> int \<times> bits" where
  "huff_decode h b = huff_loop h (hf_max h) 0 0 0 b"

definition LBASE :: "nat list" where
  "LBASE = [3, 4, 5, 6, 7, 8, 9, 10, 11, 13, 15, 17, 19, 23, 27, 31, 35, 43, 51, 59, 67, 83, 99, 115, 131, 163, 195, 227, 258]"

definition LEXT :: "nat list" where
  "LEXT = replicate 8 0 @ [1, 1, 1, 1, 2, 2, 2, 2, 3, 3, 3, 3, 4, 4, 4, 4, 5, 5, 5, 5, 0]"

definition DBASE :: "nat list" where
  "DBASE = [1, 2, 3, 4, 5, 7, 9, 13, 17, 25, 33, 49, 65, 97, 129, 193, 257, 385, 513, 769, 1025, 1537, 2049, 3073, 4097,
     6145, 8193, 12289, 16385, 24577]"

definition DEXT :: "nat list" where
  "DEXT = [0, 0, 0, 0] @ concat (map (\<lambda>k. [k, k]) [1..<14])"

definition fixed_huff :: "huff \<times> huff" where
  "fixed_huff =
     (huff_build (replicate 144 8 @ replicate 112 9 @ replicate 24 7 @ replicate 8 8), huff_build (replicate 30 5))"

definition cl_order :: "nat list" where
  "cl_order = [16, 17, 18, 0, 8, 7, 9, 6, 10, 5, 11, 4, 12, 3, 13, 2, 14, 1, 15]"

fun cl_lens :: "nat list \<Rightarrow> nat list \<Rightarrow> bits \<Rightarrow> nat list \<times> bits" where
  "cl_lens [] cl b = (cl, b)"
| "cl_lens (i # is) cl b = (let (x, b1) = get_bits 3 b in cl_lens is (cl[i := x]) b1)"

function code_lens :: "huff \<Rightarrow> nat \<Rightarrow> nat list \<Rightarrow> bits \<Rightarrow> (nat list \<times> bits) option" where
  "code_lens h n lens b =
     (if n \<le> length lens then Some (lens, b)
      else
        let (s, b1) = huff_decode h b
        in if s < 0 then None
           else if s < 16 then code_lens h n (lens @ [nat s]) b1
           else if s = 16 then
             (let (r, b2) = get_bits 2 b1
              in if lens = [] then None else code_lens h n (lens @ replicate (r + 3) (last lens)) b2)
           else if s = 17 then (let (r, b2) = get_bits 3 b1 in code_lens h n (lens @ replicate (r + 3) 0) b2)
           else (let (r, b2) = get_bits 7 b1 in code_lens h n (lens @ replicate (r + 11) 0) b2))"
  by pat_completeness auto
termination by (relation "measure (\<lambda>(h, n, lens, b). n - length lens)") auto

definition dynamic_huff :: "bits \<Rightarrow> (huff \<times> huff \<times> bits) option" where
  "dynamic_huff b =
     (let (x, b1) = get_bits 5 b; (y, b2) = get_bits 5 b1; (z, b3) = get_bits 4 b2;
          hlit = x + 257; hdist = y + 1; hclen = z + 4;
          (cl, b4) = cl_lens (take hclen cl_order) (replicate 19 0) b3
      in case code_lens (huff_build cl) (hlit + hdist) [] b4 of
           Some (lens, b5) \<Rightarrow> Some (huff_build (take hlit lens), huff_build (take hdist (drop hlit lens)), b5)
         | None \<Rightarrow> None)"

section \<open>The inflater\<close>

record infl =
  if_window :: "nat \<Rightarrow> byte"
  if_wpos :: nat
  if_produced :: nat
  if_chunk :: "byte list"
  if_sunk :: "byte list list"

definition infl_start :: infl where
  "infl_start = \<lparr>if_window = (\<lambda>_. 0), if_wpos = 0, if_produced = 0, if_chunk = [], if_sunk = []\<rparr>"

definition flush :: "infl \<Rightarrow> infl" where
  "flush st = (if if_chunk st = [] then st else st\<lparr>if_chunk := [], if_sunk := if_sunk st @ [if_chunk st]\<rparr>)"

definition emit :: "byte \<Rightarrow> infl \<Rightarrow> infl" where
  "emit y st =
     (let st1 = st\<lparr>if_window := (if_window st)(if_wpos st := y), if_wpos := (if_wpos st + 1) mod 32768,
        if_produced := if_produced st + 1, if_chunk := if_chunk st @ [y]\<rparr>
      in if length (if_chunk st1) = 65536 then flush st1 else st1)"

definition window_at :: "nat \<Rightarrow> infl \<Rightarrow> byte" where
  "window_at d st = if_window st (nat ((int (if_wpos st) - int d) mod 32768))"

fun copy_back :: "nat \<Rightarrow> nat \<Rightarrow> infl \<Rightarrow> infl" where
  "copy_back 0 d st = st"
| "copy_back (Suc n) d st = copy_back n d (emit (window_at d st) st)"

fun codes :: "nat \<Rightarrow> huff \<Rightarrow> huff \<Rightarrow> bits \<Rightarrow> infl \<Rightarrow> (bits \<times> infl) option" where
  "codes 0 lit dst b st = None"
| "codes (Suc f) lit dst b st =
     (let (s, b1) = huff_decode lit b
      in if s < 0 then Some (b1\<lparr>bt_bad := True\<rparr>, st)
         else if s = 256 then Some (b1, st)
         else if s < 256 then codes f lit dst b1 (emit (word_of_int s) st)
         else if 29 \<le> s - 257 then Some (b1\<lparr>bt_bad := True\<rparr>, st)
         else
           let k = nat (s - 257); (x, b2) = get_bits (LEXT ! k) b1; len = LBASE ! k + x; (ds, b3) = huff_decode dst b2
           in if ds < 0 \<or> 30 \<le> ds then Some (b3\<lparr>bt_bad := True\<rparr>, st)
              else
                let (y, b4) = get_bits (DEXT ! nat ds) b3; d = DBASE ! nat ds + y
                in if if_produced st < d then Some (b4\<lparr>bt_bad := True\<rparr>, st)
                   else codes f lit dst b4 (copy_back len d st))"

text \<open>A stored block: its bytes up to the length it gives, or to the end of the input.\<close>

fun emit_all :: "byte list \<Rightarrow> infl \<Rightarrow> infl" where
  "emit_all [] st = st"
| "emit_all (y # ys) st = emit_all ys (emit y st)"

definition stored :: "bits \<Rightarrow> infl \<Rightarrow> (bits \<times> infl) option" where
  "stored b st =
     (let p = bt_pos b; data = bt_data b
      in if length data < p + 4 then None
         else let len = unat (data ! p) + 256 * unat (data ! (p + 1)); ys = take len (drop (p + 4) data)
              in Some (b\<lparr>bt_pos := p + 4 + length ys\<rparr>, emit_all ys st))"

fun blocks :: "nat \<Rightarrow> bits \<Rightarrow> infl \<Rightarrow> infl option" where
  "blocks 0 b st = None"
| "blocks (Suc f) b st =
     (if bt_bad b then Some st
      else
        let (fin, b1) = get_bit b; (type, b2) = get_bits 2 b1
        in if type = 0 then
             (case stored (align b2) st of None \<Rightarrow> Some st
              | Some (b3, st1) \<Rightarrow> if fin = 1 then Some st1 else blocks f b3 st1)
           else if type = 1 \<or> type = 2 then
             (case (if type = 1 then Some (fst fixed_huff, snd fixed_huff, b2) else dynamic_huff b2) of
                None \<Rightarrow> Some st
              | Some (lit, dst, b3) \<Rightarrow>
                  (case codes f lit dst b3 st of None \<Rightarrow> None
                   | Some (b4, st1) \<Rightarrow> if fin = 1 then Some st1 else blocks f b4 st1))
           else Some st)"

text \<open>The chunks the sink receives, and the whole output.\<close>

definition inflate_cb :: "nat \<Rightarrow> byte list \<Rightarrow> byte list list option" where
  "inflate_cb f data = (case blocks f (bits_of data) infl_start of Some st \<Rightarrow> Some (if_sunk (flush st)) | None \<Rightarrow> None)"

definition inflate :: "nat \<Rightarrow> byte list \<Rightarrow> byte list option" where
  "inflate f data = (case inflate_cb f data of Some cs \<Rightarrow> Some (concat cs) | None \<Rightarrow> None)"

section \<open>A truncated stream on which the inflater does not end\<close>

definition spent :: "bits \<Rightarrow> bool" where
  "spent b \<longleftrightarrow> bt_buf b = 0 \<and> length (bt_data b) \<le> bt_pos b"

lemma get_bit_spent: "spent b \<Longrightarrow> fst (get_bit b) = 0 \<and> spent (snd (get_bit b))"
  by (simp add: spent_def get_bit_def shift_bit_def)

text \<open>A code of two one-bit words whose word 0 is the literal 0.\<close>

definition zero_code :: "huff \<Rightarrow> bool" where
  "zero_code h \<longleftrightarrow> hf_max h = 1 \<and> hf_count h ! 1 = 2 \<and> hf_sym h ! 0 = 0"

lemma decode_spent: "spent b \<Longrightarrow> zero_code h \<Longrightarrow> \<exists>b'. huff_decode h b = (0, b') \<and> spent b'"
  using get_bit_spent[of b] by (auto simp: huff_decode_def zero_code_def split: prod.splits)

lemma codes_spent: "spent b \<Longrightarrow> zero_code h \<Longrightarrow> codes f h dst b st = None"
proof (induction f arbitrary: b st)
  case (Suc f)
  from decode_spent[OF Suc.prems] obtain b' where "huff_decode h b = (0, b')" "spent b'" by blast
  then show ?case using Suc by simp
qed simp

definition hang_bytes :: "byte list" where
  "hang_bytes = [5, 192, 129, 0, 0, 0, 0, 0, 16, 255, 213, 0]"

definition hang_bits :: bits where
  "hang_bits = snd (get_bits 2 (snd (get_bit (bits_of hang_bytes))))"

lemma hang_header: "fst (get_bits 2 (snd (get_bit (bits_of hang_bytes)))) = 2"
  by code_simp

lemma hang_codes:
  "case dynamic_huff hang_bits of Some (l, d, b) \<Rightarrow> hf_max l = 1 \<and> hf_count l ! 1 = 2 \<and> hf_sym l ! 0 = 0
     \<and> bt_buf b = 0 \<and> length (bt_data b) \<le> bt_pos b | None \<Rightarrow> False"
  by code_simp

lemma not_bad_start [simp]: "\<not> bt_bad (bits_of data)"
  by (simp add: bits_of_def)

lemma hang: "inflate f hang_bytes = None"
proof -
  obtain l d b where h: "dynamic_huff hang_bits = Some (l, d, b)" "zero_code l" "spent b"
    using hang_codes by (auto simp: zero_code_def spent_def split: option.splits)
  obtain x b1 where b1: "get_bit (bits_of hang_bytes) = (x, b1)" by fastforce
  have b2: "get_bits 2 b1 = (2, hang_bits)"
    using hang_header b1 by (simp add: hang_bits_def prod_eq_iff)
  have "blocks f (bits_of hang_bytes) infl_start = None"
    by (cases f) (simp_all add: b1 b2 h codes_spent)
  then show ?thesis by (simp add: inflate_def inflate_cb_def)
qed

section \<open>Stored blocks\<close>

definition hist :: "infl \<Rightarrow> byte list" where
  "hist st = concat (if_sunk st) @ if_chunk st"

lemma hist_flush [simp]: "hist (flush st) = hist st"
  by (simp add: hist_def flush_def)

lemma hist_emit [simp]: "hist (emit y st) = hist st @ [y]"
  by (simp add: hist_def emit_def flush_def Let_def)

lemma hist_emit_all [simp]: "hist (emit_all ys st) = hist st @ ys"
  by (induction ys st rule: emit_all.induct) simp_all

lemma inflate_hist: "inflate f data = (case blocks f (bits_of data) infl_start of Some st \<Rightarrow> Some (hist st) | None \<Rightarrow> None)"
proof -
  have "concat (if_sunk (flush st)) = hist st" for st by (simp add: flush_def hist_def)
  then show ?thesis by (simp add: inflate_def inflate_cb_def split: option.splits)
qed

text \<open>A writer of stored blocks, as the format describes them.\<close>

definition store_block :: "bool \<Rightarrow> byte list \<Rightarrow> byte list" where
  "store_block fin ys =
     (let n = length ys; l = word_of_nat (n mod 256); h = word_of_nat (n div 256)
      in [if fin then 1 else 0, l, h, NOT l, NOT h] @ ys)"

fun store_all :: "byte list list \<Rightarrow> byte list" where
  "store_all [] = store_block True []"
| "store_all [ys] = store_block True ys"
| "store_all (ys # yss) = store_block False ys @ store_all yss"

lemma header_bits:
  assumes "bt_cnt b = 0" "bt_pos b < length (bt_data b)" "bt_data b ! bt_pos b = (if fin then 1 else 0)"
  shows "get_bit b = (if fin then 1 else 0, b\<lparr>bt_pos := bt_pos b + 1, bt_buf := 0, bt_cnt := 7\<rparr>)"
    "get_bits 2 (b\<lparr>bt_pos := p, bt_buf := 0, bt_cnt := 7\<rparr>) = (0, b\<lparr>bt_pos := p, bt_buf := 0, bt_cnt := 5\<rparr>)"
  using assms by (simp_all add: get_bit_def shift_bit_def get_bits_def numeral_2_eq_2)

lemma len_bytes: "n < 65536 \<Longrightarrow> unat (word_of_nat (n mod 256) :: byte) + 256 * unat (word_of_nat (n div 256) :: byte) = n"
  by (simp add: unat_of_nat take_bit_eq_mod less_mult_imp_div_less)

lemma stored_block:
  assumes "bt_data b = pre @ store_block fin ys @ post" "bt_pos b = length pre" "bt_cnt b = 0" "\<not> bt_bad b" "length ys < 65536"
  shows "blocks (Suc f) b st =
    (let b' = b\<lparr>bt_pos := length pre + 5 + length ys, bt_buf := 0, bt_cnt := 0\<rparr>; st' = emit_all ys st
     in if fin then Some st' else blocks f b' st')"
proof -
  define n where "n = length ys"
  define l h where "l = (word_of_nat (n mod 256) :: byte)" and "h = (word_of_nat (n div 256) :: byte)"
  have d: "bt_data b = pre @ (if fin then 1 else 0) # l # h # NOT l # NOT h # ys @ post"
    by (simp add: assms(1) store_block_def Let_def n_def l_def h_def)
  have at: "bt_data b ! (length pre + k) = ((if fin then 1 else 0) # l # h # NOT l # NOT h # ys @ post) ! k" for k
    by (simp add: d nth_append)
  have g: "get_bit b = (if fin then 1 else 0, b\<lparr>bt_pos := length pre + 1, bt_buf := 0, bt_cnt := 7\<rparr>)"
    using header_bits(1)[of b fin] at[of 0] assms(2,3) by (simp add: d)
  have g2: "get_bits 2 (b\<lparr>bt_pos := length pre + 1, bt_buf := 0, bt_cnt := 7\<rparr>) = (0, b\<lparr>bt_pos := length pre + 1, bt_buf := 0, bt_cnt := 5\<rparr>)"
    by (rule header_bits(2)[of b fin]) (use assms(2,3) at[of 0] in \<open>simp_all add: d\<close>)
  have len: "unat l + 256 * unat h = length ys" using len_bytes[OF assms(5)] by (simp add: l_def h_def n_def)
  have "stored (align (b\<lparr>bt_pos := length pre + 1, bt_buf := 0, bt_cnt := 5\<rparr>)) st
      = Some (b\<lparr>bt_pos := length pre + 5 + length ys, bt_buf := 0, bt_cnt := 0\<rparr>, emit_all ys st)"
    using at[of 1] at[of 2] len by (simp add: stored_def align_def Let_def d)
  then show ?thesis using assms(4) g g2 by (simp add: Let_def)
qed

lemma stored_blocks:
  assumes "bt_data b = pre @ store_all yss" "bt_pos b = length pre" "bt_cnt b = 0" "\<not> bt_bad b"
    "list_all (\<lambda>ys. length ys < 65536) yss" "length yss < f"
  shows "\<exists>st'. blocks f b st = Some st' \<and> hist st' = hist st @ concat yss"
  using assms
proof (induction yss arbitrary: f b st pre rule: store_all.induct)
  case 1
  then obtain k where "f = Suc k" by (cases f) auto
  then show ?case using stored_block[of b pre True "[]" "[]" k st] 1 by simp
next
  case (2 ys)
  then obtain k where "f = Suc k" by (cases f) auto
  then show ?case using stored_block[of b pre True ys "[]" k st] 2 by simp
next
  case (3 ys y2 yss)
  then obtain k where k: "f = Suc k" by (cases f) auto
  let ?b = "b\<lparr>bt_pos := length pre + 5 + length ys, bt_buf := 0, bt_cnt := 0\<rparr>"
  have "\<exists>st'. blocks k ?b (emit_all ys st) = Some st' \<and> hist st' = hist (emit_all ys st) @ concat (y2 # yss)"
    by (rule 3(1)[of _ "pre @ store_block False ys"]) (use 3(2-) k in \<open>simp_all add: store_block_def Let_def\<close>)
  then show ?case using stored_block[of b pre False ys "store_all (y2 # yss)" k st] 3(2-) k by simp
qed

lemma inflate_store_all:
  assumes "list_all (\<lambda>ys. length ys < 65536) yss" "length yss < f"
  shows "inflate f (store_all yss) = Some (concat yss)"
proof -
  have "\<exists>st'. blocks f (bits_of (store_all yss)) infl_start = Some st' \<and> hist st' = hist infl_start @ concat yss"
    by (rule stored_blocks[where pre = "[]"]) (use assms in \<open>simp_all add: bits_of_def\<close>)
  then show ?thesis by (auto simp: inflate_hist infl_start_def hist_def)
qed

section \<open>The codes stay inside their tables\<close>

definition huff_ok :: "huff \<Rightarrow> nat \<Rightarrow> bool" where
  "huff_ok h n \<longleftrightarrow> length (hf_count h) = hf_max h + 1 \<and> length (hf_sym h) = n \<and> sum_list (hf_count h) \<le> n
     \<and> list_all (\<lambda>s. s < n \<or> s = 0) (hf_sym h)"

lemma bump_sum: "i < length c \<Longrightarrow> sum_list (bump i c) = sum_list c + 1"
  by (simp add: bump_def sum_list_update)

lemma foldl_bump:
  "list_all (\<lambda>l. l < length c) ls \<Longrightarrow>
     length (foldl (\<lambda>c l. bump l c) c ls) = length c \<and> sum_list (foldl (\<lambda>c l. bump l c) c ls) = sum_list c + length ls"
proof (induction ls arbitrary: c)
  case (Cons l ls)
  have "length (bump l c) = length c" by (simp add: bump_def)
  then show ?case using Cons bump_sum[of l c] by simp
qed simp

lemma foldl_max_bound: "l \<in> set ls \<Longrightarrow> l \<le> foldl max (m::nat) ls"
proof (induction ls arbitrary: m)
  case (Cons k ls)
  have mono: "m \<le> foldl max m ks" for m :: nat and ks by (induction ks arbitrary: m) (simp, simp, meson max.boundedE)
  have "k \<le> foldl max (max m k) ls" using mono[of "max m k" ls] by (meson max.boundedE)
  then show ?case using Cons by auto
qed simp

lemma place_syms:
  "list_all (\<lambda>s. s < n \<or> s = 0) sy \<Longrightarrow> list_all (\<lambda>(l, i). i < n) lis \<Longrightarrow>
     length (fst (foldl place_sym (sy, offs) lis)) = length sy \<and> list_all (\<lambda>s. s < n \<or> s = 0) (fst (foldl place_sym (sy, offs) lis))"
proof (induction lis arbitrary: sy offs)
  case (Cons li lis)
  obtain l i where li: "li = (l, i)" by (cases li)
  show ?case
  proof (cases "l = 0")
    case False
    have "list_all (\<lambda>s. s < n \<or> s = 0) (sy[offs ! l := i])"
      using Cons.prems by (auto simp: list_all_iff li dest: set_update_subset_insert[THEN subsetD])
    then show ?thesis using Cons.IH[of "sy[offs ! l := i]" "bump l offs"] Cons.prems False by (simp add: li place_sym_def)
  qed (use Cons in \<open>simp add: li place_sym_def\<close>)
qed simp

lemma huff_build_ok: "huff_ok (huff_build lens) (length lens)"
proof -
  define mb where "mb = foldl max 0 lens"
  define c where "c = foldl (\<lambda>c l. bump l c) (replicate (mb + 1) 0) lens"
  have c: "length c = mb + 1" "sum_list c = length lens"
    using foldl_bump[of "replicate (mb + 1) 0" lens] foldl_max_bound[of _ lens 0]
    by (auto simp: c_def list_all_iff mb_def le_imp_less_Suc)
  define offs where "offs = foldl (\<lambda>o' i. o'[i + 1 := o' ! i + (c[0 := 0]) ! i]) (replicate (mb + 2) 0) [1..<mb + 1]"
  have h: "huff_build lens = \<lparr>hf_count = c[0 := 0],
      hf_sym = fst (foldl place_sym (replicate (length lens) 0, offs) (zip lens [0..<length lens])), hf_max = mb\<rparr>"
    by (simp only: huff_build_def Let_def mb_def c_def offs_def)
  have "sum_list (c[0 := 0]) \<le> length lens" using c by (cases c) auto
  moreover have "list_all (\<lambda>(l, i). i < length lens) (zip lens [0..<length lens])" by (auto simp: list_all_iff dest: set_zip_rightD)
  ultimately show ?thesis
    using c place_syms[of "length lens" "replicate (length lens) 0" "zip lens [0..<length lens]" offs]
    by (simp add: h huff_ok_def list_all_iff)
qed

text \<open>The place read in the symbol table is inside it, also for lengths that overfill the code space.\<close>

lemma huff_loop_range:
  assumes "huff_ok h N" "n \<le> hf_max h" "fst' \<le> code" "idx + sum_list (drop (hf_max h - n + 1) (hf_count h)) \<le> N"
    and "huff_loop h n code fst' idx b = (s, b')" "s \<noteq> - 1"
  shows "\<exists>k < length (hf_sym h). s = int (hf_sym h ! k)"
  using assms(2-)
proof (induction n arbitrary: code fst' idx b)
  case (Suc n)
  obtain x b1 where x: "get_bit b = (x, b1)" by fastforce
  define c where "c = hf_count h ! (hf_max h - n)"
  have len: "hf_max h - n < length (hf_count h)" using assms(1) by (simp add: huff_ok_def)
  have "drop (hf_max h - Suc n + 1) (hf_count h) = c # drop (hf_max h - n + 1) (hf_count h)"
    using Suc.prems(1) Cons_nth_drop_Suc[OF len] by (simp add: c_def Suc_diff_Suc)
  then have tot: "idx + c + sum_list (drop (hf_max h - n + 1) (hf_count h)) \<le> N" using Suc.prems(3) by simp
  show ?case
  proof (cases "code + int x - fst' < int c")
    case True
    have "nat (int idx + (code + int x - fst')) < N" using True tot Suc.prems(2) by simp
    moreover have "s = int (hf_sym h ! nat (int idx + (code + int x - fst')))"
      using Suc.prems(4) True by (simp add: x c_def Let_def)
    ultimately show ?thesis using assms(1) by (auto simp: huff_ok_def)
  next
    case False
    have "huff_loop h n (2 * (code + int x)) (2 * (fst' + int c)) (idx + c) b1 = (s, b')"
      using Suc.prems(4) False by (simp add: x c_def Let_def)
    then show ?thesis using Suc.IH[of "2 * (fst' + int c)" "2 * (code + int x)" "idx + c" b1] Suc.prems(1,5) tot False by simp
  qed
qed simp

lemma huff_decode_range:
  assumes "huff_decode (huff_build lens) b = (s, b')" "s \<noteq> - 1"
  shows "0 \<le> s \<and> s < int (length lens) \<and> (\<exists>k < length (hf_sym (huff_build lens)). s = int (hf_sym (huff_build lens) ! k))"
proof -
  note ok = huff_build_ok[of lens]
  have "sum_list (drop 1 (hf_count (huff_build lens))) \<le> sum_list (hf_count (huff_build lens))"
    by (metis append_take_drop_id le_add2 sum_list_append)
  then have "\<exists>k < length (hf_sym (huff_build lens)). s = int (hf_sym (huff_build lens) ! k)"
    using huff_loop_range[OF ok, of "hf_max (huff_build lens)" 0 0 0 b s b'] assms ok by (simp add: huff_decode_def huff_ok_def)
  then obtain k where k: "k < length (hf_sym (huff_build lens))" "s = int (hf_sym (huff_build lens) ! k)" by blast
  moreover from k(1) have "0 < length lens" using ok by (auto simp: huff_ok_def)
  ultimately show ?thesis using ok by (fastforce simp: huff_ok_def list_all_length)
qed

section \<open>The ring window is the output\<close>

text \<open>
  The reference inflater keeps the whole output and copies from its end; it has no window, no
  position and no chunks.
\<close>

fun ref_copy :: "nat \<Rightarrow> nat \<Rightarrow> byte list \<Rightarrow> byte list" where
  "ref_copy 0 d out = out"
| "ref_copy (Suc n) d out = ref_copy n d (out @ [out ! (length out - d)])"

fun ref_codes :: "nat \<Rightarrow> huff \<Rightarrow> huff \<Rightarrow> bits \<Rightarrow> byte list \<Rightarrow> (bits \<times> byte list) option" where
  "ref_codes 0 lit dst b out = None"
| "ref_codes (Suc f) lit dst b out =
     (let (s, b1) = huff_decode lit b
      in if s < 0 then Some (b1\<lparr>bt_bad := True\<rparr>, out)
         else if s = 256 then Some (b1, out)
         else if s < 256 then ref_codes f lit dst b1 (out @ [word_of_int s])
         else if 29 \<le> s - 257 then Some (b1\<lparr>bt_bad := True\<rparr>, out)
         else
           let k = nat (s - 257); (x, b2) = get_bits (LEXT ! k) b1; (ds, b3) = huff_decode dst b2
           in if ds < 0 \<or> 30 \<le> ds then Some (b3\<lparr>bt_bad := True\<rparr>, out)
              else
                let (y, b4) = get_bits (DEXT ! nat ds) b3; d = DBASE ! nat ds + y
                in if length out < d then Some (b4\<lparr>bt_bad := True\<rparr>, out)
                   else ref_codes f lit dst b4 (ref_copy (LBASE ! k + x) d out))"

fun ref_blocks :: "nat \<Rightarrow> bits \<Rightarrow> byte list \<Rightarrow> byte list option" where
  "ref_blocks 0 b out = None"
| "ref_blocks (Suc f) b out =
     (if bt_bad b then Some out
      else
        let (fin, b1) = get_bit b; (type, b2) = get_bits 2 b1
        in if type = 0 then
             let p = bt_pos b2; data = bt_data b2
             in if length data < p + 4 then Some out
                else
                  let ys = take (unat (data ! p) + 256 * unat (data ! (p + 1))) (drop (p + 4) data)
                  in if fin = 1 then Some (out @ ys)
                     else ref_blocks f (b2\<lparr>bt_cnt := 0, bt_pos := p + 4 + length ys\<rparr>) (out @ ys)
           else if type = 1 \<or> type = 2 then
             (case (if type = 1 then Some (fst fixed_huff, snd fixed_huff, b2) else dynamic_huff b2) of
                None \<Rightarrow> Some out
              | Some (lit, dst, b3) \<Rightarrow>
                  (case ref_codes f lit dst b3 out of None \<Rightarrow> None
                   | Some (b4, out1) \<Rightarrow> if fin = 1 then Some out1 else ref_blocks f b4 out1))
           else Some out)"

definition ring_ok :: "infl \<Rightarrow> bool" where
  "ring_ok st \<longleftrightarrow> if_produced st = length (hist st) \<and> if_wpos st = if_produced st mod 32768
     \<and> (\<forall>d. 1 \<le> d \<longrightarrow> d \<le> 32768 \<longrightarrow> d \<le> length (hist st) \<longrightarrow> window_at d st = hist st ! (length (hist st) - d))"

lemma emit_sel [simp]:
  "if_produced (emit y st) = if_produced st + 1" "if_wpos (emit y st) = (if_wpos st + 1) mod 32768"
  "if_window (emit y st) = (if_window st)(if_wpos st := y)"
  by (simp_all add: emit_def flush_def Let_def)

lemma ring_emit: "ring_ok st \<Longrightarrow> ring_ok (emit y st)"
proof -
  assume r: "ring_ok st"
  have w: "if_wpos st < 32768" using r by (simp add: ring_ok_def)
  have "window_at d (emit y st) = (hist st @ [y]) ! (length (hist st) + 1 - d)"
    if d: "1 \<le> d" "d \<le> 32768" "d \<le> length (hist st) + 1" for d
  proof (cases "d = 1")
    case True
    have "(int ((if_wpos st + 1) mod 32768) - 1) mod 32768 = int (if_wpos st)"
      using w by (simp add: zmod_int mod_simps)
    then show ?thesis by (simp add: window_at_def True nth_append)
  next
    case False
    have e: "(int ((if_wpos st + 1) mod 32768) - int d) mod 32768 = (int (if_wpos st) - int (d - 1)) mod 32768"
      using d(1) by (simp add: zmod_int mod_simps of_nat_diff) (simp add: algebra_simps)
    have "(int (if_wpos st) - int (d - 1)) mod 32768 \<noteq> int (if_wpos st)"
    proof
      assume "(int (if_wpos st) - int (d - 1)) mod 32768 = int (if_wpos st)"
      then have "(int (if_wpos st) - int (d - 1)) mod 32768 = int (if_wpos st) mod 32768" using w by simp
      then have "32768 dvd int (d - 1)" by (simp add: mod_eq_dvd_iff)
      then have "int (d - 1) = 0" using d by (auto dest: zdvd_imp_le)
      then show False using False d(1) by simp
    qed
    then have "nat ((int (if_wpos st) - int (d - 1)) mod 32768) \<noteq> if_wpos st" by auto
    then have "window_at d (emit y st) = window_at (d - 1) st" unfolding window_at_def emit_sel e by (rule fun_upd_other)
    also have "\<dots> = hist st ! (length (hist st) - (d - 1))" using r d False by (auto simp: ring_ok_def)
    also have "\<dots> = (hist st @ [y]) ! (length (hist st) + 1 - d)"
      using d False by (auto simp: nth_append) 
    finally show ?thesis .
  qed
  then show ?thesis using r by (simp add: ring_ok_def mod_Suc_eq)
qed

lemma ring_emit_all: "ring_ok st \<Longrightarrow> ring_ok (emit_all ys st)"
  by (induction ys st rule: emit_all.induct) (simp_all add: ring_emit)

lemma ring_copy:
  "ring_ok st \<Longrightarrow> 1 \<le> d \<Longrightarrow> d \<le> 32768 \<Longrightarrow> d \<le> length (hist st) \<Longrightarrow>
     ring_ok (copy_back n d st) \<and> hist (copy_back n d st) = ref_copy n d (hist st)"
proof (induction n arbitrary: st)
  case (Suc n)
  have "window_at d st = hist st ! (length (hist st) - d)" using Suc.prems by (simp add: ring_ok_def)
  then show ?case using Suc.IH[of "emit (window_at d st) st"] Suc.prems ring_emit by simp
qed simp

lemma get_bits_bound: "fst (get_bits_from i k v b) < v + 2 ^ (i + k) - 2 ^ i + 1"
proof (induction k arbitrary: i v b)
  case (Suc k)
  obtain x b1 where x: "get_bit b = (x, b1)" by fastforce
  have "x \<le> 1" using x by (auto simp: get_bit_def shift_bit_def split: if_splits)
  then have "x * 2 ^ i \<le> 2 ^ i" by simp
  moreover have "fst (get_bits_from (Suc i) k (v + x * 2 ^ i) b1) < v + x * 2 ^ i + 2 ^ (Suc i + k) - 2 ^ Suc i + 1" by (rule Suc.IH)
  moreover have "(2::nat) ^ Suc i \<le> 2 ^ (Suc i + k)" by (rule power_increasing) simp_all
  moreover have "(2::nat) ^ Suc i = 2 * 2 ^ i" by simp
  ultimately show ?case unfolding get_bits_from.simps x Let_def prod.case add_Suc_right add_Suc by linarith
qed simp

lemma get_bits_less: "get_bits k b = (v, b') \<Longrightarrow> v < 2 ^ k"
  using get_bits_bound[of 0 k 0 b] by (simp add: get_bits_def)

lemma distance_bound:
  assumes "k < 30" "y < 2 ^ (DEXT ! k)"
  shows "1 \<le> DBASE ! k + y \<and> DBASE ! k + y \<le> 32768"
proof -
  have all: "list_all (\<lambda>(c, e). 1 \<le> c \<and> c + 2 ^ e \<le> 32769) (zip DBASE DEXT)"
    by (simp add: DBASE_def DEXT_def upt_rec)
  have "length DBASE = 30" "length DEXT = 30" by (simp_all add: DBASE_def DEXT_def upt_rec)
  then have "1 \<le> DBASE ! k \<and> DBASE ! k + 2 ^ (DEXT ! k) \<le> 32769" using all assms(1) by (simp add: list_all_length)
  then show ?thesis using assms(2) by simp
qed

lemma ring_codes:
  "ring_ok st \<Longrightarrow> ref_codes f lit dst b (hist st) = map_option (map_prod id hist) (codes f lit dst b st)
     \<and> (\<forall>b' st'. codes f lit dst b st = Some (b', st') \<longrightarrow> ring_ok st')"
proof (induction f arbitrary: b st)
  case (Suc f)
  have len: "if_produced st = length (hist st)" using Suc.prems by (simp add: ring_ok_def)
  obtain s b1 where s: "huff_decode lit b = (s, b1)" by fastforce
  show ?case
  proof (cases "s < 0 \<or> 256 \<le> s \<and> (s = 256 \<or> 29 \<le> s - 257)")
    case True
    then show ?thesis using Suc.prems by (auto simp: s)
  next
    case ns: False
    show ?thesis
    proof (cases "s < 256")
      case True
      then show ?thesis using ns Suc.IH[OF ring_emit[OF Suc.prems]] by (simp add: s)
    next
      case False
      define k where "k = nat (s - 257)"
      obtain x b2 where x: "get_bits (LEXT ! k) b1 = (x, b2)" by fastforce
      obtain ds b3 where ds: "huff_decode dst b2 = (ds, b3)" by fastforce
      obtain y b4 where y: "get_bits (DEXT ! nat ds) b3 = (y, b4)" by fastforce
      define d where "d = DBASE ! nat ds + y"
      have step: "codes (Suc f) lit dst b st = (if ds < 0 \<or> 30 \<le> ds then Some (b3\<lparr>bt_bad := True\<rparr>, st)
          else if if_produced st < d then Some (b4\<lparr>bt_bad := True\<rparr>, st) else codes f lit dst b4 (copy_back (LBASE ! k + x) d st))"
        and rstep: "ref_codes (Suc f) lit dst b (hist st) = (if ds < 0 \<or> 30 \<le> ds then Some (b3\<lparr>bt_bad := True\<rparr>, hist st)
          else if length (hist st) < d then Some (b4\<lparr>bt_bad := True\<rparr>, hist st)
          else ref_codes f lit dst b4 (ref_copy (LBASE ! k + x) d (hist st)))"
        using ns False by (simp_all add: s k_def[symmetric] x ds y d_def)
      show ?thesis
      proof (cases "ds < 0 \<or> 30 \<le> ds \<or> length (hist st) < d")
        case True
        then show ?thesis unfolding step rstep using Suc.prems by (auto simp: len)
      next
        case ok: False
        then have "1 \<le> d \<and> d \<le> 32768" using distance_bound[of "nat ds" y] get_bits_less[OF y] by (simp add: d_def nat_less_iff)
        from ring_copy[OF Suc.prems this[THEN conjunct1] this[THEN conjunct2], of "LBASE ! k + x"] ok
        have "ring_ok (copy_back (LBASE ! k + x) d st)" "hist (copy_back (LBASE ! k + x) d st) = ref_copy (LBASE ! k + x) d (hist st)"
          by simp_all
        then show ?thesis unfolding step rstep using ok Suc.IH[of "copy_back (LBASE ! k + x) d st" b4] by (simp add: len)
      qed
    qed
  qed
qed simp

lemma ring_blocks: "ring_ok st \<Longrightarrow> ref_blocks f b (hist st) = map_option hist (blocks f b st)"
proof (induction f arbitrary: b st)
  case (Suc f)
  obtain fin b1 type b2 where h: "get_bit b = (fin, b1)" "get_bits 2 b1 = (type, b2)" by (metis surj_pair)
  show ?case
  proof (cases "bt_bad b \<or> type \<noteq> 0 \<and> type \<noteq> 1 \<and> type \<noteq> 2")
    case True
    then show ?thesis by (auto simp: h)
  next
    case nb: False
    show ?thesis
    proof (cases "type = 0")
      case True
      define ys where "ys = take (unat (bt_data b2 ! bt_pos b2) + 256 * unat (bt_data b2 ! Suc (bt_pos b2))) (drop (bt_pos b2 + 4) (bt_data b2))"
      have "stored (align b2) st = (if length (bt_data b2) < bt_pos b2 + 4 then None
          else Some (b2\<lparr>bt_cnt := 0, bt_pos := bt_pos b2 + 4 + length ys\<rparr>, emit_all ys st))"
        by (simp add: stored_def align_def Let_def ys_def)
      then show ?thesis using True nb Suc.IH[OF ring_emit_all[OF Suc.prems, of ys]]
        by (simp add: h Let_def ys_def[symmetric])
    next
      case False
      define hf where "hf = (if type = 1 then Some (fst fixed_huff, snd fixed_huff, b2) else dynamic_huff b2)"
      have e: "blocks (Suc f) b st = (case hf of None \<Rightarrow> Some st | Some (lit, dst, b3) \<Rightarrow>
            (case codes f lit dst b3 st of None \<Rightarrow> None | Some (b4, st1) \<Rightarrow> if fin = 1 then Some st1 else blocks f b4 st1))"
        "ref_blocks (Suc f) b (hist st) = (case hf of None \<Rightarrow> Some (hist st) | Some (lit, dst, b3) \<Rightarrow>
            (case ref_codes f lit dst b3 (hist st) of None \<Rightarrow> None | Some (b4, out) \<Rightarrow> if fin = 1 then Some out else ref_blocks f b4 out))"
        using nb False by (simp_all add: h hf_def)
      show ?thesis unfolding e
      proof (cases hf)
        case (Some q)
        obtain lit dst b3 where q: "q = (lit, dst, b3)" by (cases q)
        note c = ring_codes[OF Suc.prems, of f lit dst b3]
        show "(case hf of None \<Rightarrow> Some (hist st) | Some (lit, dst, b3) \<Rightarrow>
            (case ref_codes f lit dst b3 (hist st) of None \<Rightarrow> None | Some (b4, out) \<Rightarrow> if fin = 1 then Some out else ref_blocks f b4 out))
          = map_option hist (case hf of None \<Rightarrow> Some st | Some (lit, dst, b3) \<Rightarrow>
            (case codes f lit dst b3 st of None \<Rightarrow> None | Some (b4, st1) \<Rightarrow> if fin = 1 then Some st1 else blocks f b4 st1))"
          using c Suc.IH by (cases "codes f lit dst b3 st") (auto simp: Some q)
      qed simp
    qed
  qed
qed simp

lemma inflate_ref: "inflate f data = ref_blocks f (bits_of data) []"
proof -
  have "ring_ok infl_start" by (simp add: ring_ok_def infl_start_def hist_def)
  then show ?thesis using ring_blocks[of infl_start f "bits_of data"]
    by (simp add: inflate_hist infl_start_def hist_def map_option_case)
qed

end
