(* ===== verification/Fve_Archive.thy ===== *)
theory Fve_Archive
  imports Fve_Zip Fve_Prelude
begin

text \<open>
  The archive readers of \<open>extractor/zip\<close>: the whole archive in memory (\<open>read_zip\<close>) and the index
  over a file with entries extracted one by one (\<open>open_zip_file\<close>, \<open>ZipIndex\<close>). The file system is a
  function from paths to bytes. \<open>ZUB\<close> is a range that leaves its buffer, \<open>ZFuel\<close> an inflater that
  has not ended within its fuel. Sums of 32-bit fields wrap as in the code.
\<close>

section \<open>Fields\<close>

datatype 'a zres = ZOk 'a | ZUB | ZFuel

fun zbind :: "'a zres \<Rightarrow> ('a \<Rightarrow> 'b zres) \<Rightarrow> 'b zres" where
  "zbind (ZOk x) k = k x"
| "zbind ZUB k = ZUB"
| "zbind ZFuel k = ZFuel"

definition rd16 :: "byte list \<Rightarrow> nat \<Rightarrow> nat zres" where
  "rd16 buf p = (if p + 2 \<le> length buf then ZOk (unat (buf ! p) + 256 * unat (buf ! (p + 1))) else ZUB)"

definition rd32 :: "byte list \<Rightarrow> nat \<Rightarrow> nat zres" where
  "rd32 buf p =
     (if p + 4 \<le> length buf
      then ZOk (unat (buf ! p) + 256 * unat (buf ! (p + 1)) + 65536 * unat (buf ! (p + 2)) + 16777216 * unat (buf ! (p + 3)))
      else ZUB)"

definition slice :: "byte list \<Rightarrow> nat \<Rightarrow> nat \<Rightarrow> byte list zres" where
  "slice buf p n = (if p + n \<le> length buf then ZOk (take n (drop p buf)) else ZUB)"

definition text_of :: "byte list \<Rightarrow> string" where
  "text_of ys = map (\<lambda>y. char_of (unat y)) ys"

definition inflate_res :: "nat \<Rightarrow> byte list \<Rightarrow> byte list zres" where
  "inflate_res f ys = (case inflate f ys of Some out \<Rightarrow> ZOk out | None \<Rightarrow> ZFuel)"

definition EOCD_SIG :: nat where "EOCD_SIG = 101010256"
definition CD_SIG :: nat where "CD_SIG = 33639248"
definition LOCAL_SIG :: nat where "LOCAL_SIG = 67324752"

text \<open>The scan backwards for the end record; it also stops at 0.\<close>

fun find_eocd :: "byte list \<Rightarrow> nat \<Rightarrow> nat zres" where
  "find_eocd buf 0 = ZOk 0"
| "find_eocd buf (Suc e) = zbind (rd32 buf (Suc e)) (\<lambda>s. if s \<noteq> EOCD_SIG then find_eocd buf e else ZOk (Suc e))"

record zip_entry =
  ze_name :: string
  ze_method :: nat
  ze_csize :: nat
  ze_usize :: nat
  ze_lho :: nat

definition next_off :: "byte list \<Rightarrow> nat \<Rightarrow> nat zres" where
  "next_off p off =
     zbind (rd16 p (off + 28)) (\<lambda>fnlen. zbind (rd16 p (off + 30)) (\<lambda>extra. zbind (rd16 p (off + 32)) (\<lambda>comment.
       ZOk (off + 46 + fnlen + extra + comment))))"

text \<open>One record of the central directory.\<close>

definition cd_entry :: "byte list \<Rightarrow> nat \<Rightarrow> zip_entry zres" where
  "cd_entry p off =
     zbind (rd16 p (off + 10)) (\<lambda>method. zbind (rd32 p (off + 20)) (\<lambda>csize. zbind (rd32 p (off + 24)) (\<lambda>usize.
     zbind (rd16 p (off + 28)) (\<lambda>fnlen. zbind (rd32 p (off + 42)) (\<lambda>lho. zbind (slice p (off + 46) fnlen) (\<lambda>name.
       ZOk \<lparr>ze_name = text_of name, ze_method = method, ze_csize = csize, ze_usize = usize, ze_lho = lho\<rparr>))))))"

section \<open>The archive in memory\<close>

record archive =
  z_entries :: "(string, byte list) omap"
  z_ok :: bool

definition zip_none :: archive where
  "zip_none = \<lparr>z_entries = [], z_ok = False\<rparr>"

definition add_entry :: "nat \<Rightarrow> byte list \<Rightarrow> zip_entry \<Rightarrow> archive \<Rightarrow> archive zres" where
  "add_entry f p e z =
     (if length p < (ze_lho e + 30) mod 4294967296 then ZOk z
      else
        zbind (rd16 p (ze_lho e + 26)) (\<lambda>lfn. zbind (rd16 p (ze_lho e + 28)) (\<lambda>lextra.
          let ds = (ze_lho e + 30 + lfn + lextra) mod 4294967296
          in if ze_method e = 0 then
               zbind (slice p ds (ze_usize e)) (\<lambda>ys. ZOk (z\<lparr>z_entries := mput (ze_name e) ys (z_entries z)\<rparr>))
             else if ze_method e = 8 then
               zbind (slice p ds (ze_csize e)) (\<lambda>ys. zbind (inflate_res f ys)
                 (\<lambda>out. ZOk (z\<lparr>z_entries := mput (ze_name e) out (z_entries z)\<rparr>)))
             else ZOk z)))"

fun zip_loop :: "nat \<Rightarrow> byte list \<Rightarrow> nat \<Rightarrow> nat \<Rightarrow> archive \<Rightarrow> archive zres" where
  "zip_loop f p 0 off z = ZOk z"
| "zip_loop f p (Suc k) off z =
     (if length p < off + 46 then ZOk z
      else zbind (rd32 p off) (\<lambda>s. if s \<noteq> CD_SIG then ZOk z
        else zbind (cd_entry p off) (\<lambda>e. zbind (add_entry f p e z) (\<lambda>z1. zbind (next_off p off) (\<lambda>off1. zip_loop f p k off1 z1)))))"

definition read_zip :: "nat \<Rightarrow> byte list \<Rightarrow> archive zres" where
  "read_zip f p =
     (if length p < 22 then ZOk zip_none
      else zbind (find_eocd p (length p - 22)) (\<lambda>eocd. zbind (rd32 p eocd) (\<lambda>s.
        if s \<noteq> EOCD_SIG then ZOk zip_none
        else zbind (rd16 p (eocd + 10)) (\<lambda>total. zbind (rd32 p (eocd + 16)) (\<lambda>cd.
          zbind (zip_loop f p total cd zip_none) (\<lambda>z. ZOk (z\<lparr>z_ok := True\<rparr>)))))))"

definition read_zip_file :: "(string \<Rightarrow> byte list option) \<Rightarrow> nat \<Rightarrow> string \<Rightarrow> archive zres" where
  "read_zip_file fs f path = (case fs path of None \<Rightarrow> ZOk zip_none | Some buf \<Rightarrow> read_zip f buf)"

definition zip_has :: "archive \<Rightarrow> string \<Rightarrow> bool" where
  "zip_has z name = (mget (z_entries z) name \<noteq> None)"

definition zip_text :: "archive \<Rightarrow> string \<Rightarrow> string" where
  "zip_text z name = (case mget (z_entries z) name of None \<Rightarrow> [] | Some ys \<Rightarrow> text_of ys)"

definition zip_bytes :: "archive \<Rightarrow> string \<Rightarrow> byte list option" where
  "zip_bytes z name = mget (z_entries z) name"

definition zip_list :: "archive \<Rightarrow> string list" where
  "zip_list z = map fst (z_entries z)"

section \<open>The index over a file\<close>

record zip_index =
  zi_path :: string
  zi_entries :: "zip_entry list"
  zi_ok :: bool

definition zi_find :: "zip_index \<Rightarrow> string \<Rightarrow> zip_entry option" where
  "zi_find z name = find (\<lambda>e. ze_name e = name) (zi_entries z)"

definition zi_has :: "zip_index \<Rightarrow> string \<Rightarrow> bool" where
  "zi_has z name = list_ex (\<lambda>e. ze_name e = name) (zi_entries z)"

definition zi_usize_of :: "zip_index \<Rightarrow> string \<Rightarrow> nat" where
  "zi_usize_of z name = (case zi_find z name of Some e \<Rightarrow> ze_usize e | None \<Rightarrow> 0)"

definition zi_names :: "zip_index \<Rightarrow> string list" where
  "zi_names z = map ze_name (zi_entries z)"

text \<open>The compressed bytes of an entry: \<open>None\<close> when the file, its local header or the bytes are missing.\<close>

definition raw_entry :: "(string \<Rightarrow> byte list option) \<Rightarrow> zip_index \<Rightarrow> zip_entry \<Rightarrow> byte list option" where
  "raw_entry fs z e =
     (case fs (zi_path z) of None \<Rightarrow> None
      | Some file \<Rightarrow>
          (let lh = take 30 (drop (ze_lho e) file)
           in case rd32 lh 0 of ZOk s \<Rightarrow>
                if length lh \<noteq> 30 \<or> s \<noteq> LOCAL_SIG then None
                else
                  (case (rd16 lh 26, rd16 lh 28) of
                     (ZOk lfn, ZOk lextra) \<Rightarrow>
                       (let raw = take (ze_csize e) (drop (ze_lho e + 30 + lfn + lextra) file)
                        in if length raw \<noteq> ze_csize e then None else Some raw)
                   | _ \<Rightarrow> None)
              | _ \<Rightarrow> None))"

definition zi_extract :: "(string \<Rightarrow> byte list option) \<Rightarrow> nat \<Rightarrow> zip_index \<Rightarrow> string \<Rightarrow> nat \<Rightarrow> byte list zres" where
  "zi_extract fs f z name max_usize =
     (case zi_find z name of None \<Rightarrow> ZOk []
      | Some e \<Rightarrow>
          if max_usize \<noteq> 0 \<and> max_usize < ze_usize e then ZOk []
          else
            (case raw_entry fs z e of None \<Rightarrow> ZOk []
             | Some raw \<Rightarrow>
                 if ze_method e = 0 then ZOk raw else if ze_method e = 8 then inflate_res f raw else ZOk []))"

definition zi_text :: "(string \<Rightarrow> byte list option) \<Rightarrow> nat \<Rightarrow> zip_index \<Rightarrow> string \<Rightarrow> nat \<Rightarrow> string zres" where
  "zi_text fs f z name max_usize = zbind (zi_extract fs f z name max_usize) (\<lambda>ys. ZOk (text_of ys))"

text \<open>The chunks the sink receives and the result.\<close>

definition zi_inflate_to :: "(string \<Rightarrow> byte list option) \<Rightarrow> nat \<Rightarrow> zip_index \<Rightarrow> string \<Rightarrow> (byte list list \<times> bool) zres" where
  "zi_inflate_to fs f z name =
     (case zi_find z name of None \<Rightarrow> ZOk ([], False)
      | Some e \<Rightarrow>
          (case raw_entry fs z e of None \<Rightarrow> ZOk ([], False)
           | Some raw \<Rightarrow>
               if ze_method e = 0 then ZOk ([raw], True)
               else if ze_method e = 8 then (case inflate_cb f raw of Some cs \<Rightarrow> ZOk (cs, True) | None \<Rightarrow> ZFuel)
               else ZOk ([], False)))"

fun index_loop :: "byte list \<Rightarrow> nat \<Rightarrow> nat \<Rightarrow> zip_entry list \<Rightarrow> zip_entry list zres" where
  "index_loop p 0 off es = ZOk es"
| "index_loop p (Suc k) off es =
     (if length p < off + 46 then ZOk es
      else zbind (rd32 p off) (\<lambda>s. if s \<noteq> CD_SIG then ZOk es
        else zbind (cd_entry p off) (\<lambda>e. zbind (next_off p off) (\<lambda>off1. index_loop p k off1 (es @ [e])))))"

definition open_zip_file :: "(string \<Rightarrow> byte list option) \<Rightarrow> string \<Rightarrow> zip_index zres" where
  "open_zip_file fs path =
     (let z = \<lparr>zi_path = path, zi_entries = [], zi_ok = False\<rparr>
      in case fs path of None \<Rightarrow> ZOk z
         | Some file \<Rightarrow>
             if length file < 22 then ZOk z
             else
               (let tail = min (length file) 65557; buf = drop (length file - tail) file
                in zbind (find_eocd buf (tail - 22)) (\<lambda>e. zbind (rd32 buf e) (\<lambda>s.
                  if s \<noteq> EOCD_SIG then ZOk z
                  else zbind (rd16 buf (e + 10)) (\<lambda>total. zbind (rd32 buf (e + 12)) (\<lambda>cdsize. zbind (rd32 buf (e + 16)) (\<lambda>cdoff.
                    let cd = take cdsize (drop cdoff file)
                    in if length cd \<noteq> cdsize then ZOk z
                       else zbind (index_loop cd total 0 []) (\<lambda>es. ZOk (z\<lparr>zi_entries := es, zi_ok := True\<rparr>)))))))))"

section \<open>An archive of one stored entry\<close>

text \<open>The layout the format prescribes: local header and data, directory record, end record.\<close>

definition le16 :: "nat \<Rightarrow> byte list" where
  "le16 n = [word_of_nat (n mod 256), word_of_nat (n div 256 mod 256)]"

definition le32 :: "nat \<Rightarrow> byte list" where
  "le32 n = le16 (n mod 65536) @ le16 (n div 65536)"

definition zip_local :: "byte list \<Rightarrow> byte list \<Rightarrow> byte list" where
  "zip_local name ys = le32 LOCAL_SIG @ le16 0 @ le16 0 @ le16 0 @ le16 0 @ le16 0 @ le32 0 @ le32 (length ys) @ le32 (length ys) @ le16 (length name) @ le16 0 @ name @ ys"

definition zip_record :: "byte list \<Rightarrow> byte list \<Rightarrow> byte list" where
  "zip_record name ys = le32 CD_SIG @ le16 0 @ le16 0 @ le16 0 @ le16 0 @ le16 0 @ le16 0 @ le32 0 @ le32 (length ys) @ le32 (length ys)
     @ le16 (length name) @ le16 0 @ le16 0 @ le16 0 @ le16 0 @ le32 0 @ le32 0 @ name"

definition zip_end :: "nat \<Rightarrow> nat \<Rightarrow> byte list" where
  "zip_end cdsize cdoff = le32 EOCD_SIG @ le16 0 @ le16 0 @ le16 1 @ le16 1 @ le32 cdsize @ le32 cdoff @ le16 0"

definition make_zip :: "byte list \<Rightarrow> byte list \<Rightarrow> byte list" where
  "make_zip name ys = zip_local name ys @ zip_record name ys @ zip_end (46 + length name) (30 + length name + length ys)"

lemma length_le [simp]: "length (le16 n) = 2" "length (le32 n) = 4"
  by (simp_all add: le16_def le32_def)

lemma unat_byte: "n < 256 \<Longrightarrow> unat (word_of_nat n :: byte) = n"
  by (simp add: unat_of_nat take_bit_eq_mod)

lemma le16_val: "x < 65536 \<Longrightarrow> x mod 256 + 256 * (x div 256 mod 256) = (x::nat)"
  by (simp add: less_mult_imp_div_less)

lemma rd16_le: "length pre = p \<Longrightarrow> n < 65536 \<Longrightarrow> rd16 (pre @ le16 n @ post) p = ZOk n"
  using le16_val[of n] by (simp add: rd16_def le16_def nth_append unat_byte)

lemma rd32_le: "length pre = p \<Longrightarrow> n < 4294967296 \<Longrightarrow> rd32 (pre @ le32 n @ post) p = ZOk n"
proof -
  assume a: "length pre = p" "n < 4294967296"
  define l h where "l = n mod 65536" and "h = n div 65536"
  have lh: "l < 65536" "h < 65536" "n = l + 65536 * h" using a(2) by (simp_all add: l_def h_def less_mult_imp_div_less)
  have "rd32 (pre @ le32 n @ post) p = ZOk ((l mod 256 + 256 * (l div 256 mod 256)) + 65536 * (h mod 256 + 256 * (h div 256 mod 256)))"
    by (simp add: rd32_def le16_def le32_def nth_append unat_byte l_def[symmetric] h_def[symmetric] a(1))
  then show ?thesis using le16_val[OF lh(1)] le16_val[OF lh(2)] lh(3) by simp
qed

lemma slice_mid: "length pre = p \<Longrightarrow> length ys = n \<Longrightarrow> slice (pre @ ys @ post) p n = ZOk ys"
  by (simp add: slice_def)

text \<open>Reading a field of an archive: the field stands behind the bytes before it.\<close>

lemma rd16_field: "buf = pre @ le16 n @ post \<Longrightarrow> length pre = p \<Longrightarrow> n < 65536 \<Longrightarrow> rd16 buf p = ZOk n"
  by (simp add: rd16_le)

lemma rd32_field: "buf = pre @ le32 n @ post \<Longrightarrow> length pre = p \<Longrightarrow> n < 4294967296 \<Longrightarrow> rd32 buf p = ZOk n"
  by (simp add: rd32_le)

lemma slice_field: "buf = pre @ ys @ post \<Longrightarrow> length pre = p \<Longrightarrow> length ys = n \<Longrightarrow> slice buf p n = ZOk ys"
  by (simp add: slice_mid)

lemma find_eocd_here: "rd32 buf e = ZOk EOCD_SIG \<Longrightarrow> find_eocd buf e = ZOk e"
  by (cases e) simp_all

section \<open>Reading it back\<close>

text \<open>A directory record anywhere in a buffer.\<close>

lemma cd_record:
  assumes "buf = pre @ zip_record name ys @ post" "length pre = off" "length name < 65536" "length ys < 4294967296"
  shows "rd32 buf off = ZOk CD_SIG" "off + 46 \<le> length buf"
    "cd_entry buf off = ZOk \<lparr>ze_name = text_of name, ze_method = 0, ze_csize = length ys, ze_usize = length ys, ze_lho = 0\<rparr>"
    "next_off buf off = ZOk (off + 46 + length name)"
proof -
  note z = assms(1)[unfolded zip_record_def, simplified append_assoc]
  let ?h = "pre @ le32 CD_SIG @ le16 0 @ le16 0 @ le16 0"
  let ?l = "?h @ le16 0 @ le16 0 @ le16 0 @ le32 0"
  let ?n = "?l @ le32 (length ys) @ le32 (length ys)"
  let ?t = "?n @ le16 (length name)"
  have p: "length ?h = off + 10" "length ?l = off + 20" "length (?l @ le32 (length ys)) = off + 24"
    "length ?n = off + 28" "length ?t = off + 30" "length (?t @ le16 0) = off + 32"
    "length (?t @ le16 0 @ le16 0 @ le16 0 @ le16 0 @ le32 0) = off + 42"
    "length (?t @ le16 0 @ le16 0 @ le16 0 @ le16 0 @ le32 0 @ le32 0) = off + 46"
    by (simp_all add: assms(2))
  show "rd32 buf off = ZOk CD_SIG"
    by (rule rd32_field[OF z assms(2)]) (simp add: CD_SIG_def)
  show "off + 46 \<le> length buf" by (simp add: assms(1,2) zip_record_def)
  have me: "rd16 buf (off + 10) = ZOk 0" by (rule rd16_field[OF _ p(1)]) (simp_all add: z)
  have cs: "rd32 buf (off + 20) = ZOk (length ys)" by (rule rd32_field[OF _ p(2)]) (simp_all add: z assms(4))
  have us: "rd32 buf (off + 24) = ZOk (length ys)" by (rule rd32_field[OF _ p(3)]) (simp_all add: z assms(4))
  have fl: "rd16 buf (off + 28) = ZOk (length name)" by (rule rd16_field[OF _ p(4)]) (simp_all add: z assms(3))
  have ex: "rd16 buf (off + 30) = ZOk 0" by (rule rd16_field[OF _ p(5)]) (simp_all add: z)
  have cm: "rd16 buf (off + 32) = ZOk 0" by (rule rd16_field[OF _ p(6)]) (simp_all add: z)
  have lo: "rd32 buf (off + 42) = ZOk 0" by (rule rd32_field[OF _ p(7)]) (simp_all add: z)
  have na: "slice buf (off + 46) (length name) = ZOk name" by (rule slice_field[OF _ p(8)]) (simp_all add: z)
  show "cd_entry buf off = ZOk \<lparr>ze_name = text_of name, ze_method = 0, ze_csize = length ys, ze_usize = length ys, ze_lho = 0\<rparr>"
    by (simp add: cd_entry_def me cs us fl lo na)
  show "next_off buf off = ZOk (off + 46 + length name)"
    by (simp add: next_off_def fl ex cm)
qed

text \<open>The end record and the local header of the archive.\<close>

lemma zip_tail:
  assumes "buf = pre @ zip_end cdsize cdoff" "length pre = e" "cdsize < 4294967296" "cdoff < 4294967296"
  shows "length buf = e + 22" "find_eocd buf e = ZOk e" "rd32 buf e = ZOk EOCD_SIG" "rd16 buf (e + 10) = ZOk 1"
    "rd32 buf (e + 12) = ZOk cdsize" "rd32 buf (e + 16) = ZOk cdoff"
proof -
  note z = assms(1)[unfolded zip_end_def]
  let ?h = "pre @ le32 EOCD_SIG @ le16 0 @ le16 0 @ le16 1"
  have p: "length ?h = e + 10" "length (?h @ le16 1) = e + 12" "length (?h @ le16 1 @ le32 cdsize) = e + 16" by (simp_all add: assms(2))
  show "length buf = e + 22" by (simp add: z assms(2))
  show s: "rd32 buf e = ZOk EOCD_SIG" by (rule rd32_field[OF z assms(2)]) (simp add: EOCD_SIG_def)
  then show "find_eocd buf e = ZOk e" by (rule find_eocd_here)
  show "rd16 buf (e + 10) = ZOk 1" by (rule rd16_field[OF _ p(1)]) (simp_all add: z)
  show "rd32 buf (e + 12) = ZOk cdsize" by (rule rd32_field[OF _ p(2)]) (simp_all add: z assms(3))
  show "rd32 buf (e + 16) = ZOk cdoff" by (rule rd32_field[OF _ p(3)]) (simp_all add: z assms(4))
qed

lemma zip_head:
  assumes "buf = zip_local name ys @ post" "length name < 65536" "length ys < 4294967296"
  shows "rd32 buf 0 = ZOk LOCAL_SIG" "rd16 buf 26 = ZOk (length name)" "rd16 buf 28 = ZOk 0"
    "slice buf (30 + length name) (length ys) = ZOk ys" "30 \<le> length buf"
proof -
  note z = assms(1)[unfolded zip_local_def, simplified append_assoc]
  let ?h = "le32 LOCAL_SIG @ le16 0 @ le16 0 @ le16 0 @ le16 0 @ le16 0 @ le32 0 @ le32 (length ys) @ le32 (length ys)"
  have p: "length ?h = 26" "length (?h @ le16 (length name)) = 28" "length (?h @ le16 (length name) @ le16 0 @ name) = 30 + length name"
    by simp_all
  show "rd32 buf 0 = ZOk LOCAL_SIG" by (rule rd32_field[of _ "[]"]) (simp_all add: z LOCAL_SIG_def)
  show "rd16 buf 26 = ZOk (length name)" by (rule rd16_field[OF _ p(1)]) (simp_all add: z assms(2))
  show "rd16 buf 28 = ZOk 0" by (rule rd16_field[OF _ p(2)]) (simp_all add: z)
  show "slice buf (30 + length name) (length ys) = ZOk ys" by (rule slice_field[OF _ p(3)]) (simp_all add: z)
  show "30 \<le> length buf" by (simp add: z)
qed

text \<open>The sizes an archive of this layout can hold.\<close>

definition zip_fits :: "byte list \<Rightarrow> byte list \<Rightarrow> bool" where
  "zip_fits name ys \<longleftrightarrow> length name < 65536 \<and> 30 + length name + length ys < 4294967296"

lemma make_zip_parts:
  assumes "zip_fits name ys"
  shows "make_zip name ys = zip_local name ys @ zip_record name ys @ zip_end (46 + length name) (30 + length name + length ys)"
    "length (zip_local name ys) = 30 + length name + length ys" "length (zip_record name ys) = 46 + length name"
    "length name < 65536" "length ys < 4294967296"
  using assms by (simp_all add: make_zip_def zip_local_def zip_record_def zip_fits_def)

lemma read_make_zip:
  assumes "zip_fits name ys"
  shows "read_zip f (make_zip name ys) = ZOk \<lparr>z_entries = [(text_of name, ys)], z_ok = True\<rparr>"
proof -
  define buf where "buf = make_zip name ys"
  define off where "off = 30 + length name + length ys"
  note P = make_zip_parts[OF assms, folded buf_def off_def]
  have off: "off < 4294967296" "46 + length name < 4294967296" using assms by (simp_all add: off_def zip_fits_def)
  have b1: "buf = (zip_local name ys @ zip_record name ys) @ zip_end (46 + length name) off" by (simp add: P)
  have l1: "length (zip_local name ys @ zip_record name ys) = off + (46 + length name)" by (simp add: P)
  define E where "E = off + (46 + length name)"
  note T = zip_tail[OF b1 l1 off(2,1), folded E_def]
  have "length buf - 22 = E" using T(1) by simp
  note R = cd_record[OF P(1,2,4,5)]
  note L = zip_head[OF P(1,4,5)]
  define e where "e = \<lparr>ze_name = text_of name, ze_method = 0, ze_csize = length ys, ze_usize = length ys, ze_lho = 0\<rparr>"
  have ds: "(30 + length name) mod 4294967296 = 30 + length name" using assms by (simp add: zip_fits_def)
  have "add_entry f buf e zip_none = ZOk (zip_none\<lparr>z_entries := [(text_of name, ys)]\<rparr>)"
    using L ds by (simp add: add_entry_def e_def Let_def zip_none_def)
  then have "zip_loop f buf 1 off zip_none = ZOk (zip_none\<lparr>z_entries := [(text_of name, ys)]\<rparr>)"
    using R by (simp add: e_def zip_none_def)
  then show ?thesis unfolding buf_def[symmetric]
    using T \<open>length buf - 22 = E\<close> by (simp add: read_zip_def zip_none_def del: zip_loop.simps)
qed

lemma open_make_zip:
  assumes "zip_fits name ys" "fs path = Some (make_zip name ys)" "46 + length name + 22 \<le> 65557"
  shows "\<exists>z. open_zip_file fs path = ZOk z \<and> zi_ok z \<and> zi_names z = [text_of name] \<and> zi_extract fs f z (text_of name) 0 = ZOk ys"
proof -
  define buf where "buf = make_zip name ys"
  define off where "off = 30 + length name + length ys"
  note P = make_zip_parts[OF assms(1), folded buf_def off_def]
  have off: "off < 4294967296" "46 + length name < 4294967296" using assms by (simp_all add: off_def zip_fits_def)
  have len: "length buf = off + (46 + length name) + 22"
    by (simp add: P zip_end_def)
  define k where "k = length buf - min (length buf) 65557"
  define E where "E = off + (46 + length name) - k"
  have k: "k \<le> off + (46 + length name)" using len by (simp add: k_def)
  have b: "drop k buf = drop k (zip_local name ys @ zip_record name ys) @ zip_end (46 + length name) off"
    using k by (simp add: P)
  have l: "length (drop k (zip_local name ys @ zip_record name ys)) = E" by (simp add: P E_def)
  note T = zip_tail[OF b l off(2,1)]
  have tail: "length buf - min (length buf) 65557 = k" "min (length buf) 65557 - 22 = E"
    using len k by (simp_all add: k_def E_def)
  have cd: "take (46 + length name) (drop off buf) = zip_record name ys" by (simp add: P)
  have cdl: "length (zip_record name ys) = 46 + length name" by (simp add: P)
  note R = cd_record[of "zip_record name ys" "[]" name ys "[]" 0, OF _ _ P(4,5), simplified]
  define e where "e = \<lparr>ze_name = text_of name, ze_method = 0, ze_csize = length ys, ze_usize = length ys, ze_lho = 0\<rparr>"
  have loop: "index_loop (zip_record name ys) 1 0 [] = ZOk [e]"
    using R by (simp add: e_def)
  define z where "z = \<lparr>zi_path = path, zi_entries = [e], zi_ok = True\<rparr>"
  have "open_zip_file fs path = ZOk z"
    using T tail len loop cd cdl
    by (simp add: open_zip_file_def Let_def assms(2) buf_def[symmetric] z_def del: index_loop.simps)
  moreover have "raw_entry fs z e = Some ys"
  proof -
    note L = zip_head[OF P(1,4,5)]
    have lh: "length (take 30 buf) = 30" using L(5) by simp
    have t: "rd32 (take 30 buf) 0 = rd32 buf 0" "rd16 (take 30 buf) 26 = rd16 buf 26" "rd16 (take 30 buf) 28 = rd16 buf 28"
      using L(5) by (simp_all add: rd32_def rd16_def)
    have "take (length ys) (drop (30 + length name) buf) = ys \<and> 30 + length name + length ys \<le> length buf"
      using L(4) by (auto simp: slice_def split: if_splits)
    then show ?thesis using L lh t
      by (simp add: raw_entry_def z_def e_def assms(2) buf_def[symmetric] Let_def)
  qed
  ultimately show ?thesis
    by (simp add: z_def zi_names_def zi_extract_def zi_find_def e_def)
qed

section \<open>A directory record that reads past the buffer\<close>

text \<open>A directory record at the start that claims a name of 65535 bytes, and the end record.\<close>

definition over_bytes :: "byte list" where
  "over_bytes = (le32 CD_SIG @ le16 0 @ le16 0 @ le16 0 @ le16 0 @ le16 0 @ le16 0 @ le32 0 @ le32 0 @ le32 0
     @ le16 65535 @ le16 0 @ le16 0 @ le16 0 @ le16 0 @ le32 0 @ le32 0) @ zip_end 46 0"

lemma over_read: "read_zip f over_bytes = ZUB"
proof -
  let ?b = "over_bytes"
  have "length (le32 CD_SIG @ le16 0 @ le16 0 @ le16 0 @ le16 0 @ le16 0 @ le16 0 @ le32 0 @ le32 0 @ le32 0
     @ le16 65535 @ le16 0 @ le16 0 @ le16 0 @ le16 0 @ le32 0 @ le32 0) = 46" by simp
  note T = zip_tail[OF over_bytes_def this, simplified]
  note z = over_bytes_def[simplified append_assoc]
  let ?h = "le32 CD_SIG @ le16 0 @ le16 0 @ le16 0"
  let ?l = "?h @ le16 0 @ le16 0 @ le16 0 @ le32 0"
  let ?t = "?l @ le32 0 @ le32 0 @ le16 65535"
  have c: "rd32 ?b 0 = ZOk CD_SIG" by (rule rd32_field[of _ "[]"]) (simp_all add: z CD_SIG_def)
  have me: "rd16 ?b 10 = ZOk 0" by (rule rd16_field[of _ ?h]) (simp_all add: z)
  have cs: "rd32 ?b 20 = ZOk 0" by (rule rd32_field[of _ ?l]) (simp_all add: z)
  have us: "rd32 ?b 24 = ZOk 0" by (rule rd32_field[of _ "?l @ le32 0"]) (simp_all add: z)
  have fl: "rd16 ?b 28 = ZOk 65535" by (rule rd16_field[of _ "?l @ le32 0 @ le32 0"]) (simp_all add: z)
  have lo: "rd32 ?b 42 = ZOk 0" by (rule rd32_field[of _ "?t @ le16 0 @ le16 0 @ le16 0 @ le16 0 @ le32 0"]) (simp_all add: z)
  have na: "slice ?b 46 65535 = ZUB" by (simp add: slice_def T(1))
  have "cd_entry ?b 0 = ZUB" by (simp add: cd_entry_def me cs us fl lo na)
  then have "zip_loop f ?b 1 0 y = ZUB" for y by (simp add: T(1) c)
  then show ?thesis using T by (simp add: read_zip_def del: zip_loop.simps)
qed

end
