(* ===== verification/Fve_Xml.thy ===== *)
theory Fve_Xml
  imports Fve_Text
begin

text \<open>
  The XML reader (\<open>extractor/xml\<close>): entities, the recursive-descent parser over the remaining text
  and the queries on the tree. The parser has fuel; three more than twice the length of the text is
  enough. \<open>strtol\<close> saturates and the result is cut to 32 bits, as glibc does for \<open>atoi\<close> too.
\<close>

section \<open>Searching\<close>

definition at_start :: "string \<Rightarrow> string \<Rightarrow> bool" where
  "at_start pat s = (take (length pat) s = pat)"

text \<open>The text before the first occurrence of a pattern and the text after it.\<close>

fun split_at :: "string \<Rightarrow> string \<Rightarrow> (string \<times> string) option" where
  "split_at pat [] = (if pat = [] then Some ([], []) else None)"
| "split_at pat (c # s) =
     (if at_start pat (c # s) then Some ([], drop (length pat) (c # s))
      else case split_at pat s of Some (a, b) \<Rightarrow> Some (c # a, b) | None \<Rightarrow> None)"

definition skip_past :: "string \<Rightarrow> string \<Rightarrow> string" where
  "skip_past pat s = (case split_at pat s of Some (_, b) \<Rightarrow> b | None \<Rightarrow> [])"

section \<open>Entities\<close>

definition c_space :: "char \<Rightarrow> bool" where
  "c_space c = (c = CHR '' '' \<or> 9 \<le> (of_char c :: nat) \<and> (of_char c :: nat) \<le> 13)"

definition hex_val :: "char \<Rightarrow> nat option" where
  "hex_val c =
     (let n = (of_char c :: nat)
      in if 48 \<le> n \<and> n \<le> 57 then Some (n - 48) else if 97 \<le> n \<and> n \<le> 102 then Some (n - 87)
         else if 65 \<le> n \<and> n \<le> 70 then Some (n - 55) else None)"

fun digits_in :: "nat \<Rightarrow> nat \<Rightarrow> string \<Rightarrow> nat" where
  "digits_in base acc [] = acc"
| "digits_in base acc (c # s) =
     (case hex_val c of Some d \<Rightarrow> if d < base then digits_in base (acc * base + d) s else acc | None \<Rightarrow> acc)"

text \<open>\<open>strtol\<close>: leading space, a sign, \<open>0x\<close> before a hexadecimal digit, saturation at the bounds of long.\<close>

definition strtol :: "nat \<Rightarrow> string \<Rightarrow> int" where
  "strtol base s =
     (let t = dropWhile c_space s;
          (neg, u) = (case t of c # r \<Rightarrow> if c = CHR ''-'' then (True, r) else if c = CHR ''+'' then (False, r) else (False, t)
             | [] \<Rightarrow> (False, []));
          w = (case u of z # x # d # r \<Rightarrow>
                 if base = 16 \<and> z = CHR ''0'' \<and> (x = CHR ''x'' \<or> x = CHR ''X'') \<and> hex_val d \<noteq> None then d # r else u
               | _ \<Rightarrow> u);
          v = int (digits_in base 0 w)
      in if neg then max (- v) (- (2 ^ 63)) else min v (2 ^ 63 - 1))"

definition char_ref :: "string \<Rightarrow> char" where
  "char_ref e =
     (let code = (case e of _ # c # r \<Rightarrow> if c = CHR ''x'' then cast_int (strtol 16 r) else cast_int (strtol 10 (c # r))
                  | _ \<Rightarrow> 0)
      in if code < 128 then char_of (nat (code mod 256)) else CHR ''?'')"

definition entity :: "string \<Rightarrow> char" where
  "entity e =
     (if e = ''lt'' then CHR ''<'' else if e = ''gt'' then CHR ''>'' else if e = ''amp'' then CHR ''&''
      else if e = ''quot'' then CHR 34 else if e = ''apos'' then CHR 39
      else if e \<noteq> [] \<and> e ! 0 = CHR ''#'' then char_ref e else CHR ''?'')"

lemma split_at_shorter: "split_at pat s = Some (a, b) \<Longrightarrow> length a + length b + length pat = length s"
proof (induction s arbitrary: a b)
  case (Cons c s)
  show ?case
  proof (cases "at_start pat (c # s)")
    case True
    then have "length pat \<le> length (c # s)" by (metis at_start_def length_take min_def nle_le)
    then show ?thesis using Cons.prems True by auto
  qed (use Cons in \<open>auto split: option.splits\<close>)
qed (auto split: if_splits)

function unescape :: "string \<Rightarrow> string" where
  "unescape [] = []"
| "unescape (c # s) =
     (if c = CHR ''&'' then
        (case split_at '';'' (c # s) of Some (e, r) \<Rightarrow> entity (tl e) # unescape r | None \<Rightarrow> c # unescape s)
      else c # unescape s)"
  by pat_completeness auto
termination by (relation "measure length") (auto dest: split_at_shorter simp del: split_at.simps)

section \<open>The parser\<close>

datatype xml = Xml (x_tag: string) (x_attrs: "(string, string) omap") (x_text: string) (x_kids: "xml list")

definition local_name :: "string \<Rightarrow> string" where
  "local_name tag = (case split_at '':'' tag of Some (_, r) \<Rightarrow> r | None \<Rightarrow> tag)"

definition xws :: "char \<Rightarrow> bool" where
  "xws c = (c = CHR '' '' \<or> c = CHR 10 \<or> c = CHR 9 \<or> c = CHR 13)"

definition skip_ws :: "string \<Rightarrow> string" where
  "skip_ws s = dropWhile xws s"

lemma skip_past_shorter: "length (skip_past pat s) + length pat \<le> length s \<or> skip_past pat s = []"
  by (auto simp: skip_past_def split: option.splits dest!: split_at_shorter)

function skip_misc :: "string \<Rightarrow> string" where
  "skip_misc s =
     (let t = skip_ws s
      in if t = [] then []
         else if at_start ''<?'' t then skip_misc (skip_past ''?>'' t)
         else if at_start ''<!--'' t then skip_misc (skip_past ''-->'' t)
         else if at_start ''<!'' t then skip_misc (skip_past ''>'' t)
         else t)"
  by pat_completeness auto
termination
proof (relation "measure length", goal_cases)
  case 1
  show ?case by simp
next
  case (2 s t)
  then show ?case using skip_past_shorter[of "''?>''" t] length_dropWhile_le[of xws s] by (auto simp: skip_ws_def)
next
  case (3 s t)
  then show ?case using skip_past_shorter[of "''-->''" t] length_dropWhile_le[of xws s] by (auto simp: skip_ws_def)
next
  case (4 s t)
  then show ?case using skip_past_shorter[of "''>''" t] length_dropWhile_le[of xws s] by (auto simp: skip_ws_def)
qed

definition tag_char :: "char \<Rightarrow> bool" where
  "tag_char c = (\<not> xws c \<and> c \<noteq> CHR ''>'' \<and> c \<noteq> CHR ''/'')"

definition key_char :: "char \<Rightarrow> bool" where
  "key_char c = (c \<noteq> CHR ''='' \<and> c \<noteq> CHR '' '' \<and> c \<noteq> CHR ''>'' \<and> c \<noteq> CHR ''/'')"

text \<open>The value after a key: quoted text up to its quote, otherwise nothing.\<close>

definition attr_val :: "string \<Rightarrow> string \<times> string" where
  "attr_val s =
     (case skip_ws s of
        c # t \<Rightarrow>
          if c = CHR ''='' then
            (case skip_ws t of
               q # u \<Rightarrow>
                 if q = CHR 34 \<or> q = CHR 39 then (takeWhile (\<lambda>x. x \<noteq> q) u, drop 1 (dropWhile (\<lambda>x. x \<noteq> q) u)) else ([], q # u)
             | [] \<Rightarrow> ([], []))
          else ([], c # t)
      | [] \<Rightarrow> ([], []))"

lemma attr_val_le: "length (snd (attr_val s)) \<le> length s"
  by (auto simp: attr_val_def skip_ws_def split: list.splits)
    (metis length_dropWhile_le length_Cons le_SucI le_trans Suc_leD diff_le_self)+

lemma attr_val_eq: "length (snd (attr_val (CHR ''='' # t))) < Suc (length t)"
proof -
  have e: "skip_ws (CHR ''='' # t) = CHR ''='' # t" by (simp add: skip_ws_def xws_def)
  show ?thesis
  proof (cases "skip_ws t")
    case (Cons q u)
    have "length (q # u) \<le> length t" using Cons length_dropWhile_le[of xws t] by (simp add: skip_ws_def)
    then show ?thesis using length_dropWhile_le[of "\<lambda>x. x \<noteq> CHR 34" u] length_dropWhile_le[of "\<lambda>x. x \<noteq> CHR 39" u]
      by (auto simp: attr_val_def e Cons)
  qed (simp add: attr_val_def e)
qed

text \<open>
  The attributes: \<open>True\<close> when the element closed itself. Each round reads a key or the character
  that ended the last one.
\<close>

function attr_loop :: "string \<Rightarrow> (string, string) omap \<Rightarrow> bool \<times> (string, string) omap \<times> string" where
  "attr_loop s as =
     (case skip_ws s of
        [] \<Rightarrow> (False, as, [])
      | c # t \<Rightarrow>
          if c = CHR ''/'' then (True, as, if t \<noteq> [] \<and> t ! 0 = CHR ''>'' then tl t else t)
          else if c = CHR ''>'' then (False, as, t)
          else
            (let key = takeWhile key_char (c # t); (val, r) = attr_val (dropWhile key_char (c # t))
             in attr_loop r (mput (local_name key) (unescape val) as)))"
  by pat_completeness auto
termination
proof (relation "measure (\<lambda>(s, as). length s)", goal_cases)
  case 1
  show ?case by simp
next
  case (2 s as c t key p val r)
  have s: "length (c # t) \<le> length s" using 2(1) length_dropWhile_le[of xws s] by (simp add: skip_ws_def)
  have "length r < length (c # t)"
  proof (cases "c = CHR ''=''")
    case True
    then have "(val, r) = attr_val (CHR ''='' # t)" using 2 by (simp add: key_char_def)
    then show ?thesis using attr_val_eq[of t] by (metis length_Cons snd_conv)
  next
    case False
    have "\<not> xws c" using 2(1) by (metis hd_dropWhile list.distinct(1) list.sel(1) skip_ws_def)
    then have "key_char c" using False 2 by (simp add: key_char_def xws_def)
    then have "length (dropWhile key_char (c # t)) < length (c # t)" using length_dropWhile_le[of key_char t] by simp
    then show ?thesis using attr_val_le[of "dropWhile key_char (c # t)"] 2 by (metis le_less_trans snd_conv)
  qed
  then show ?case using s by simp
qed

declare attr_loop.simps [simp del]

fun element :: "nat \<Rightarrow> string \<Rightarrow> (xml option \<times> string) option"
  and contents :: "nat \<Rightarrow> string \<Rightarrow> string \<Rightarrow> xml list \<Rightarrow> (string \<times> xml list \<times> string) option" where
  "element 0 s = None"
| "element (Suc f) s =
     (case skip_misc s of
        [] \<Rightarrow> Some (None, [])
      | c # t \<Rightarrow>
          if c \<noteq> CHR ''<'' then Some (None, c # t)
          else
            (let tag = takeWhile tag_char t; (closed, as, r) = attr_loop (dropWhile tag_char t) []
             in if closed then Some (Some (Xml tag as [] []), r)
                else
                  (case contents f r [] [] of None \<Rightarrow> None
                   | Some (tx, kids, r1) \<Rightarrow> Some (Some (Xml tag as (unescape tx) kids), r1))))"
| "contents 0 s tx kids = None"
| "contents (Suc f) s tx kids =
     (case s of
        [] \<Rightarrow> Some (tx, kids, [])
      | c # t \<Rightarrow>
          if c \<noteq> CHR ''<'' then contents f t (tx @ [c]) kids
          else if at_start ''</'' s then Some (tx, kids, skip_past ''>'' s)
          else if at_start ''<![CDATA['' s then
            (case split_at '']]>'' (drop 9 s) of
               Some (a, r) \<Rightarrow> contents f r (tx @ a) kids
             | None \<Rightarrow> contents f [] (tx @ drop 9 s) kids)
          else if at_start ''<!--'' s then contents f (skip_past ''-->'' s) tx kids
          else
            (case element f s of None \<Rightarrow> None
             | Some (ok, r) \<Rightarrow> contents f r tx (case ok of Some k \<Rightarrow> kids @ [k] | None \<Rightarrow> kids)))"

definition xml_fuel :: "string \<Rightarrow> nat" where
  "xml_fuel s = 2 * length s + 3"

text \<open>\<open>Some None\<close> is a null pointer; \<open>None\<close>, which never occurs, is a lack of fuel.\<close>

definition parse_xml :: "string \<Rightarrow> xml option option" where
  "parse_xml s = map_option fst (element (xml_fuel s) s)"

section \<open>Queries\<close>

definition x_attr :: "xml \<Rightarrow> string \<Rightarrow> string \<Rightarrow> string" where
  "x_attr x k def = (case mget (x_attrs x) k of Some v \<Rightarrow> v | None \<Rightarrow> def)"

definition x_first :: "xml \<Rightarrow> string \<Rightarrow> xml option" where
  "x_first x t = find (\<lambda>k. local_name (x_tag k) = t) (x_kids x)"

definition x_all :: "xml \<Rightarrow> string \<Rightarrow> xml list" where
  "x_all x t = filter (\<lambda>k. local_name (x_tag k) = t) (x_kids x)"

fun find_all :: "string \<Rightarrow> xml \<Rightarrow> xml list \<Rightarrow> xml list" where
  "find_all t (Xml _ _ _ kids) out =
     foldl (\<lambda>o' k. find_all t k (if local_name (x_tag k) = t then o' @ [k] else o')) out kids"

section \<open>Termination\<close>

lemma skip_misc_le: "length (skip_misc s) \<le> length s"
proof (induction s rule: skip_misc.induct)
  case (1 s)
  have w: "length (skip_ws s) \<le> length s" by (simp add: skip_ws_def length_dropWhile_le)
  have p: "length (skip_past pat (skip_ws s)) \<le> length s" for pat using skip_past_shorter[of pat "skip_ws s"] w by auto
  show ?case unfolding skip_misc.simps[of s] Let_def using 1 w p by (auto intro: le_trans)
qed

lemma skip_misc_moves:
  assumes "s \<noteq> []" "s ! 0 = CHR ''<''"
  shows "skip_misc s = s \<or> length (skip_misc s) < length s"
proof -
  have w: "skip_ws s = s" using assms by (cases s) (auto simp: skip_ws_def xws_def)
  have "length (skip_misc (skip_past pat s)) < length s" if "pat \<noteq> []" for pat
  proof -
    have "length (skip_past pat s) < length s"
      using skip_past_shorter[of pat s] assms(1) that by (cases pat) auto
    then show ?thesis using skip_misc_le[of "skip_past pat s"] by (rule le_less_trans[rotated])
  qed
  then show ?thesis unfolding skip_misc.simps[of s] w Let_def by simp
qed

lemma attr_loop_le: "length (snd (snd (attr_loop s as))) \<le> length s"
proof (induction s as rule: attr_loop.induct)
  case (1 s as)
  show ?case
  proof (cases "skip_ws s")
    case Nil
    then show ?thesis by (simp add: attr_loop.simps)
  next
    case (Cons c t)
    have l: "length (c # t) \<le> length s" using Cons length_dropWhile_le[of xws s] by (simp add: skip_ws_def)
    show ?thesis
    proof (cases "c = CHR ''/'' \<or> c = CHR ''>''")
      case True
      then show ?thesis using l by (auto simp: attr_loop.simps[of s] Cons)
    next
      case False
      define v where "v = attr_val (dropWhile key_char (c # t))"
      define as1 where "as1 = mput (local_name (takeWhile key_char (c # t))) (unescape (fst v)) as"
      have "length (snd (snd (attr_loop (snd v) as1))) \<le> length (snd v)"
        using 1[OF Cons, of "takeWhile key_char (c # t)" v "fst v" "snd v"] False by (simp add: v_def as1_def)
      moreover have "attr_loop s as = attr_loop (snd v) as1"
        using False by (simp add: attr_loop.simps[of s] Cons Let_def v_def as1_def split: prod.split)
      moreover have "length (snd v) \<le> length (c # t)"
        using attr_val_le[of "dropWhile key_char (c # t)"] length_dropWhile_le[of key_char "c # t"] unfolding v_def by linarith
      ultimately show ?thesis using l by (metis le_trans)
    qed
  qed
qed

lemma element_total:
  "(2 * length s + 1 < f \<longrightarrow> (\<exists>ok r. element f s = Some (ok, r) \<and> (s \<noteq> [] \<longrightarrow> s ! 0 = CHR ''<'' \<longrightarrow> length r < length s) \<and> length r \<le> length s))
   \<and> (2 * length s + 2 < f \<longrightarrow> (\<exists>t k r. contents f s tx kids = Some (t, k, r) \<and> length r \<le> length s))"
proof (induction f arbitrary: s tx kids)
  case (Suc f)
  have el: "\<exists>ok r. element (Suc f) s = Some (ok, r) \<and> (s \<noteq> [] \<longrightarrow> s ! 0 = CHR ''<'' \<longrightarrow> length r < length s) \<and> length r \<le> length s"
    if b: "2 * length s + 1 < Suc f"
  proof (cases "skip_misc s")
    case (Cons c t)
    have l: "length (c # t) \<le> length s" using skip_misc_le[of s] Cons by simp
    show ?thesis
    proof (cases "c = CHR ''<''")
      case True
      obtain cl ats r where a: "attr_loop (dropWhile tag_char t) [] = (cl, ats, r)" by (metis surj_pair)
      have r: "length r \<le> length t" using attr_loop_le[of "dropWhile tag_char t" "[]"] a length_dropWhile_le[of tag_char t] by simp
      have "2 * length r + 2 < f" using b l r by simp
      then obtain tx k r1 where "contents f r [] [] = Some (tx, k, r1)" "length r1 \<le> length r" using Suc.IH by blast
      then show ?thesis using Cons True a l r by (cases cl) auto
    next
      case False
      have "s \<noteq> [] \<longrightarrow> s ! 0 = CHR ''<'' \<longrightarrow> length (c # t) < length s"
        using skip_misc_moves[of s] False Cons by auto
      then show ?thesis using Cons False l by simp
    qed
  qed auto
  have "\<exists>t k r. contents (Suc f) s tx kids = Some (t, k, r) \<and> length r \<le> length s" if b: "2 * length s + 2 < Suc f"
  proof (cases s)
    case (Cons c t)
    have C: "\<exists>t k r. contents f s1 tu ks = Some (t, k, r) \<and> length r \<le> length s" if "length s1 < length s" for s1 tu ks
    proof -
      have "2 * length s1 + 2 < f" using that b by simp
      then obtain t k r where "contents f s1 tu ks = Some (t, k, r)" "length r \<le> length s1" using Suc.IH by blast
      then show ?thesis using that by auto
    qed
    have past: "length (skip_past pat s) < length s" if "pat \<noteq> []" for pat
      using skip_past_shorter[of pat s] that Cons by (cases "skip_past pat s = []") (auto simp: neq_Nil_conv)
    show ?thesis
    proof (cases "c = CHR ''<''")
      case False
      then show ?thesis using C[of t "tx @ [c]" kids] Cons by simp
    next
      case lt: True
      show ?thesis
      proof (cases "at_start ''</'' s \<or> at_start ''<![CDATA['' s \<or> at_start ''<!--'' s")
        case True
        have cd: "\<exists>t k r. (case split_at '']]>'' (drop 9 s) of Some (a, r) \<Rightarrow> contents f r (tx @ a) kids
            | None \<Rightarrow> contents f [] (tx @ drop 9 s) kids) = Some (t, k, r) \<and> length r \<le> length s"
          using C Cons by (auto split: option.split dest!: split_at_shorter)
        show ?thesis using True lt past[of "''>''"] C[OF past[of "''-->''"]] cd Cons by auto
      next
        case no: False
        have "2 * length s + 1 < f" using b by simp
        then obtain x r where x: "element f s = Some (x, r)" "length r < length s" using Suc.IH[of s] lt Cons by fastforce
        then show ?thesis using C[of r] no lt Cons by auto
      qed
    qed
  qed simp
  then show ?case using el by blast
qed simp

lemma parse_xml_returns: "\<exists>x. parse_xml s = Some x"
  using element_total[of s "xml_fuel s" "[]" "[]"] by (auto simp: parse_xml_def xml_fuel_def)

lemma xml_fuel_mono:
  "(element f s = Some p \<longrightarrow> element (Suc f) s = Some p) \<and> (contents f s tx kids = Some q \<longrightarrow> contents (Suc f) s tx kids = Some q)"
proof (induction f arbitrary: s p tx kids q)
  case (Suc f)
  have el: "element (Suc (Suc f)) s = Some p" if a: "element (Suc f) s = Some p"
  proof (cases "skip_misc s")
    case (Cons c t)
    obtain cl ats r where at: "attr_loop (dropWhile tag_char t) [] = (cl, ats, r)" by (metis surj_pair)
    show ?thesis
    proof (cases "c = CHR ''<'' \<and> \<not> cl")
      case True
      then obtain q where "contents f r [] [] = Some q" using a Cons at by (auto split: option.splits)
      then have "contents (Suc f) r [] [] = contents f r [] []" using Suc.IH by metis
      then show ?thesis using a Cons at True unfolding element.simps by (simp del: contents.simps)
    qed (use a Cons at in auto)
  qed (use a in simp)
  have "contents (Suc (Suc f)) s tx kids = Some q" if a: "contents (Suc f) s tx kids = Some q"
  proof (cases s)
    case (Cons c t)
    note cs = contents.simps(2)[of _ "c # t" tx kids, unfolded list.case, folded Cons]
    have C: "contents f s' tu ks = Some q \<Longrightarrow> contents (Suc f) s' tu ks = Some q" for s' tu ks using Suc.IH by blast
    have E: "element f s = Some p \<Longrightarrow> element (Suc f) s = Some p" for p using Suc.IH by blast
    show ?thesis
    proof (cases "c = CHR ''<'' \<and> \<not> at_start ''</'' s \<and> at_start ''<![CDATA['' s")
      case True
      then show ?thesis using a C[of "[]"] C cs[of f] cs[of "Suc f"]
        by (cases "split_at '']]>'' (drop 9 s)") (auto simp del: contents.simps element.simps)
    next
      case nc: False
      show ?thesis
      proof (cases "c \<noteq> CHR ''<'' \<or> at_start ''</'' s \<or> at_start ''<!--'' s")
        case True
        then show ?thesis using nc a C[of t "tx @ [c]"] C[of "skip_past ''-->'' s"] cs[of f] cs[of "Suc f"]
          by (auto simp del: contents.simps element.simps split: if_splits)
      next
        case False
        then obtain ok r where x: "element f s = Some (ok, r)" "contents f r tx (case ok of Some k \<Rightarrow> kids @ [k] | None \<Rightarrow> kids) = Some q"
          using nc a Cons by (auto split: option.splits simp del: element.simps)
        then show ?thesis using False nc E[OF x(1)] C[OF x(2)] cs[of "Suc f"]
          by (simp del: contents.simps element.simps)
      qed
    qed
  qed (use a in simp)
  then show ?case using el by blast
qed simp

lemma element_mono: "element f s = Some p \<Longrightarrow> f \<le> g \<Longrightarrow> element g s = Some p"
  by (rotate_tac, induction g rule: dec_induct) (use xml_fuel_mono in blast)+

lemma contents_mono: "contents f s tx kids = Some p \<Longrightarrow> f \<le> g \<Longrightarrow> contents g s tx kids = Some p"
  by (rotate_tac, induction g rule: dec_induct) (use xml_fuel_mono in blast)+

lemma parse_xml_some: "element f s = Some (x, r) \<Longrightarrow> parse_xml s = Some x"
proof -
  assume a: "element f s = Some (x, r)"
  obtain y r' where b: "element (xml_fuel s) s = Some (y, r')"
    using element_total[of s "xml_fuel s" "[]" "[]"] by (auto simp: xml_fuel_def)
  have "Some (x, r) = Some (y, r')"
    using element_mono[OF a, of "f + xml_fuel s"] element_mono[OF b, of "f + xml_fuel s"] by simp
  then show ?thesis using b by (simp add: parse_xml_def)
qed

section \<open>Printing a tree and reading it back\<close>

text \<open>The standard's serialisation of a tree, with the four entities.\<close>

definition esc_ent :: "char \<Rightarrow> string" where
  "esc_ent c =
     (if c = CHR ''&'' then ''&amp;'' else if c = CHR ''<'' then ''&lt;'' else if c = CHR ''>'' then ''&gt;''
      else if c = CHR 34 then ''&quot;'' else [c])"

definition esc_xml :: "string \<Rightarrow> string" where
  "esc_xml s = concat (map esc_ent s)"

definition attr_str :: "string \<times> string \<Rightarrow> string" where
  "attr_str kv = CHR '' '' # fst kv @ CHR ''='' # CHR 34 # esc_xml (snd kv) @ [CHR 34]"

fun xml_str :: "xml \<Rightarrow> string" where
  "xml_str (Xml tag as tx kids) =
     CHR ''<'' # tag @ concat (map attr_str as) @ CHR ''>'' # esc_xml tx @ concat (map xml_str kids) @ ''</'' @ tag @ ''>''"

definition name_ok :: "string \<Rightarrow> bool" where
  "name_ok k \<longleftrightarrow> k \<noteq> [] \<and> list_all (\<lambda>c. key_char c \<and> \<not> xws c \<and> c \<noteq> CHR '':'') k"

fun xml_wf :: "xml \<Rightarrow> bool" where
  "xml_wf (Xml tag as tx kids) \<longleftrightarrow>
     tag \<noteq> [] \<and> list_all tag_char tag \<and> tag ! 0 \<noteq> CHR ''?'' \<and> tag ! 0 \<noteq> CHR ''!''
     \<and> mwf as \<and> list_all (\<lambda>kv. name_ok (fst kv)) as \<and> list_all xml_wf kids"

lemma split_at_none: "c \<notin> set s \<Longrightarrow> split_at [c] s = None"
  by (induction s) (auto simp: at_start_def)

lemma split_at_char: "c \<notin> set a \<Longrightarrow> split_at [c] (a @ c # b) = Some (a, b)"
  by (induction a) (auto simp: at_start_def)

lemma unescape_esc: "unescape (esc_xml s @ r) = s @ unescape r"
proof (induction s)
  case (Cons c s)
  have e: "unescape (CHR ''&'' # e @ CHR '';'' # t) = entity e # unescape t" if "CHR '';'' \<notin> set e" for e t
    using split_at_char[of "CHR '';''" "CHR ''&'' # e" t] that by simp
  show ?case using Cons e[of "''amp''" "esc_xml s @ r"] e[of "''lt''" "esc_xml s @ r"] e[of "''gt''" "esc_xml s @ r"]
      e[of "''quot''" "esc_xml s @ r"]
    by (auto simp: esc_xml_def esc_ent_def entity_def)
qed (simp add: esc_xml_def)

lemma unescape_esc_xml [simp]: "unescape (esc_xml s) = s"
  using unescape_esc[of s "[]"] by simp

lemma esc_xml_plain: "c \<in> set (esc_xml s) \<Longrightarrow> c \<noteq> CHR ''<'' \<and> c \<noteq> CHR 34"
  by (auto simp: esc_xml_def esc_ent_def split: if_splits)

lemma local_name_plain: "CHR '':'' \<notin> set k \<Longrightarrow> local_name k = k"
  by (simp add: local_name_def split_at_none)

lemma dropWhile_not: "xs = [] \<or> \<not> P (xs ! 0) \<Longrightarrow> dropWhile P xs = xs"
  by (cases xs) auto

lemma attr_step:
  assumes "name_ok k"
  shows "attr_loop (attr_str (k, v) @ r) m = attr_loop r (mput k v m)"
proof -
  define w where "w = CHR ''='' # CHR 34 # esc_xml v @ CHR 34 # r"
  have k: "k \<noteq> []" "list_all key_char k" "list_all (\<lambda>c. \<not> xws c) k" "CHR '':'' \<notin> set k"
    using assms by (auto simp: name_ok_def list_all_iff)
  obtain c t where ct: "k = c # t" using k(1) by (cases k) auto
  have s: "skip_ws (attr_str (k, v) @ r) = c # t @ w"
    using k(3) by (simp add: skip_ws_def attr_str_def w_def ct xws_def)
  have kt: "takeWhile key_char (c # t @ w) = k" "dropWhile key_char (c # t @ w) = w"
  proof -
    have "takeWhile key_char (k @ w) = k \<and> dropWhile key_char (k @ w) = w"
      using k(2) unfolding list_all_iff by (simp add: takeWhile_append2 dropWhile_append2 w_def key_char_def)
    then show "takeWhile key_char (c # t @ w) = k" "dropWhile key_char (c # t @ w) = w" by (simp_all add: ct)
  qed
  have q: "takeWhile (\<lambda>x. x \<noteq> CHR 34) (esc_xml v @ CHR 34 # r) = esc_xml v"
      "dropWhile (\<lambda>x. x \<noteq> CHR 34) (esc_xml v @ CHR 34 # r) = CHR 34 # r"
    using esc_xml_plain by (auto simp: takeWhile_append2 dropWhile_append2)
  have a: "attr_val w = (esc_xml v, r)"
    by (simp add: attr_val_def w_def skip_ws_def xws_def q)
  have "c \<noteq> CHR ''/'' \<and> c \<noteq> CHR ''>''" using k(2) by (simp add: ct key_char_def)
  then show ?thesis using a kt k(4) local_name_plain[of k]
    by (simp add: attr_loop.simps[of "attr_str (k, v) @ r"] s Let_def)
qed

lemma attr_loop_str:
  "list_all (\<lambda>kv. name_ok (fst kv)) as \<Longrightarrow>
   attr_loop (concat (map attr_str as) @ CHR ''>'' # r) m = (False, foldl (\<lambda>m kv. mput (fst kv) (snd kv) m) m as, r)"
proof (induction as arbitrary: m)
  case Nil
  show ?case by (simp add: attr_loop.simps skip_ws_def xws_def)
next
  case (Cons kv as)
  then show ?case using attr_step[of "fst kv" "snd kv"] by simp
qed

lemma contents_text: "CHR ''<'' \<notin> set t \<Longrightarrow> contents (length t + f) (t @ s) tx kids = contents f s (tx @ t) kids"
  by (induction t arbitrary: tx) auto

lemma contents_close:
  "CHR ''>'' \<notin> set tag \<Longrightarrow> contents (Suc f) (''</'' @ tag @ ''>'' @ r) tx kids = Some (tx, kids, r)"
  using split_at_char[of "CHR ''>''" "''</'' @ tag" r] by (simp add: at_start_def skip_past_def)

lemma contents_kid:
  assumes "element f (xml_str k @ s) = Some (Some k, s)" "xml_wf k"
  shows "contents (Suc f) (xml_str k @ s) tx kids = contents f s tx (kids @ [k])"
proof -
  obtain tag as t ks where k: "k = Xml tag as t ks" by (cases k)
  obtain c u where "tag = c # u" using assms(2) k by (cases tag) auto
  then show ?thesis using assms by (simp add: k at_start_def tag_char_def)
qed

lemma elem_str: "xml_wf x \<Longrightarrow> \<exists>f. element f (xml_str x @ r) = Some (Some x, r)"
proof (induction x arbitrary: r)
  case (Xml tag as tx kids)
  obtain c u where tag: "tag = c # u" using Xml.prems by (cases tag) auto
  have tc: "list_all tag_char tag" "c \<noteq> CHR ''?''" "c \<noteq> CHR ''!''" using Xml.prems by (auto simp: tag)
  have gt: "CHR ''>'' \<notin> set tag" using tc by (auto simp: list_all_iff tag_char_def)
  define z where "z = ''</'' @ tag @ ''>'' @ r"
  have ks: "\<exists>f. contents f (concat (map xml_str ks) @ z) t k0 = Some (t, k0 @ ks, r)" if "set ks \<subseteq> set kids" for ks t k0
    using that
  proof (induction ks arbitrary: k0)
    case Nil
    then show ?case using contents_close[OF gt, of 0 r t k0] by (auto simp: z_def intro!: exI[of _ "Suc 0"])
  next
    case (Cons k ks)
    then have k: "k \<in> set kids" "xml_wf k" using Xml.prems by (auto simp: list_all_iff)
    define s where "s = concat (map xml_str ks) @ z"
    obtain f1 where f1: "element f1 (xml_str k @ s) = Some (Some k, s)" using Xml.IH[OF k] by blast
    obtain f2 where f2: "contents f2 s t (k0 @ [k]) = Some (t, (k0 @ [k]) @ ks, r)" 
      using Cons.IH[of "k0 @ [k]"] Cons.prems unfolding s_def by (auto simp del: append_assoc)
    have "contents (Suc (f1 + f2)) (xml_str k @ s) t k0 = Some (t, k0 @ k # ks, r)"
      using contents_kid[OF element_mono[OF f1, of "f1 + f2"] k(2)] contents_mono[OF f2, of "f1 + f2"] by simp
    then show ?case unfolding s_def by (intro exI[of _ "Suc (f1 + f2)"]) simp
  qed
  obtain f where f: "contents f (concat (map xml_str kids) @ z) (esc_xml tx) [] = Some (esc_xml tx, kids, r)" 
    using ks[of kids "esc_xml tx" "[]"] by auto
  define b where "b = esc_xml tx @ concat (map xml_str kids) @ z"
  have b: "contents (length (esc_xml tx) + f) b [] [] = Some (esc_xml tx, kids, r)"
    using contents_text[of "esc_xml tx" f] f esc_xml_plain unfolding b_def by fastforce
  define w where "w = concat (map attr_str as) @ CHR ''>'' # b"
  have w0: "w \<noteq> [] \<and> \<not> tag_char (w ! 0)" unfolding w_def by (cases as) (auto simp: tag_char_def attr_str_def xws_def)
  have tk: "takeWhile tag_char (tag @ w) = tag" "dropWhile tag_char (tag @ w) = w"
    using tc(1) w0 unfolding list_all_iff by (cases w; simp add: takeWhile_append2 dropWhile_append2)+
  have al: "attr_loop w [] = (False, as, b)"
    using attr_loop_str[of as b "[]"] Xml.prems mbuild_id[of as] unfolding w_def by (simp add: mbuild_def)
  have "skip_misc (CHR ''<'' # tag @ w) = CHR ''<'' # tag @ w"
    using tc by (simp add: skip_misc.simps[of "CHR ''<'' # tag @ w"] skip_ws_def xws_def at_start_def tag)
  then have "element (Suc (length (esc_xml tx) + f)) (CHR ''<'' # tag @ w) = Some (Some (Xml tag as tx kids), r)"
    using b by (simp add: tk al)
  moreover have "xml_str (Xml tag as tx kids) @ r = CHR ''<'' # tag @ w" by (simp add: w_def b_def z_def)
  ultimately show ?case by metis
qed

lemma parse_xml_str: "xml_wf x \<Longrightarrow> parse_xml (xml_str x @ r) = Some (Some x)"
  using elem_str[of x r] parse_xml_some by blast

text \<open>\<open>find_all\<close> is a filter of the descendants in document order.\<close>

fun descendants :: "xml \<Rightarrow> xml list" where
  "descendants (Xml _ _ _ kids) = concat (map (\<lambda>k. k # descendants k) kids)"

lemma find_all_filter: "find_all t x out = out @ filter (\<lambda>k. local_name (x_tag k) = t) (descendants x)"
proof (induction x arbitrary: out)
  case (Xml tag as tx kids)
  have "foldl (\<lambda>o' k. find_all t k (if local_name (x_tag k) = t then o' @ [k] else o')) out ks
      = out @ filter (\<lambda>k. local_name (x_tag k) = t) (concat (map (\<lambda>k. k # descendants k) ks))" if "set ks \<subseteq> set kids" for ks
    using that
  proof (induction ks arbitrary: out)
    case (Cons k ks)
    then show ?case using Xml.IH[of k] by simp
  qed simp
  then show ?case by simp
qed

text \<open>
  A processing instruction before a closing tag is read as a child with an empty name, and the text
  of a CDATA section is unescaped like other text.
\<close>

lemma instruction_makes_kid:
  "parse_xml ''<a><?x?></a>'' = Some (Some (Xml ''a'' [] ''a>'' [Xml [] [] [] []]))"
  by code_simp

lemma cdata_unescaped: "parse_xml ''<a><![CDATA[&lt;]]></a>'' = Some (Some (Xml ''a'' [] ''<'' []))"
  by code_simp

end
