(* ===== verification/Fve_Formats.thy ===== *)
theory Fve_Formats
  imports Fve_Archive Fve_Xml
begin

text \<open>
  The properties of the file readers below the workbook: the inflater, the archive and the XML
  parser, each with a concrete run.
\<close>

section \<open>The inflater\<close>

text \<open>C21. The inflater, which keeps only a ring of 32768 bytes and hands out chunks of 65536, produces exactly
  what copying from the whole history produces: every distance the code accepts still lies in the ring.\<close>

theorem inflate_window_exact: "inflate f data = ref_blocks f (bits_of data) []"
  by (rule inflate_ref)

text \<open>Data written as stored blocks of fewer than 65536 bytes each is read back as its concatenation, with
  fuel for one step more than the blocks.\<close>

theorem stored_round_trip:
  assumes "list_all (\<lambda>ys. length ys < 65536) yss" "length yss < f"
  shows "inflate f (store_all yss) = Some (concat yss)"
  using assms by (rule inflate_store_all)

lemma stored_round_trip_witness: "inflate 3 (store_all [[1, 2], [3]]) = Some [1, 2, 3]"
  using stored_round_trip[of "[[1, 2], [3]]" 3] by simp

text \<open>A symbol decoded with a table built from any list of code lengths, also one that overfills the code
  space, is an index of that list: the decoder never reads outside its symbol table.\<close>

theorem decoded_symbol_in_range:
  assumes "huff_decode (huff_build lens) b = (s, b')" "s \<noteq> - 1"
  shows "0 \<le> s \<and> s < int (length lens) \<and> (\<exists>k < length (hf_sym (huff_build lens)). s = int (hf_sym (huff_build lens) ! k))"
  using assms by (rule huff_decode_range)

lemma decoded_symbol_in_range_witness:
  "(1::int) < int (length [2, 1, 2 :: nat])
   \<and> (\<exists>k < length (hf_sym (huff_build [2, 1, 2])). (1::int) = int (hf_sym (huff_build [2, 1, 2]) ! k))"
proof -
  have "huff_decode (huff_build [2, 1, 2]) (bits_of [0]) = (1, snd (huff_decode (huff_build [2, 1, 2]) (bits_of [0])))"
    by code_simp
  from decoded_symbol_in_range[OF this] show ?thesis by simp
qed

text \<open>C35. There is a stream of twelve bytes on which the inflater never returns: the symbol loop does not look
  at the flag the bit reader sets at the end of the input, and the zeros it then yields are a literal.\<close>

theorem truncated_stream_hangs: "\<forall>f. inflate f hang_bytes = None"
  using hang by blast

section \<open>Archives\<close>

text \<open>C22. An archive of one stored entry laid out as the format says is read back by both readers, the one in
  memory and the indexed one: the entry's name and its bytes.\<close>

theorem archive_round_trip:
  assumes "zip_fits name ys" "fs path = Some (make_zip name ys)" "length name < 65490"
  shows "read_zip f (make_zip name ys) = ZOk \<lparr>z_entries = [(text_of name, ys)], z_ok = True\<rparr>
    \<and> (\<exists>z. open_zip_file fs path = ZOk z \<and> zi_ok z \<and> zi_names z = [text_of name] \<and> zi_extract fs f z (text_of name) 0 = ZOk ys)"
  using assms read_make_zip[of name ys f] open_make_zip[of name ys fs path f] by simp

lemma archive_round_trip_witness:
  "read_zip 0 (make_zip [97] [1, 2]) = ZOk \<lparr>z_entries = [(''a'', [1, 2])], z_ok = True\<rparr>"
proof -
  have "text_of [97] = ''a''" by code_simp
  then show ?thesis using archive_round_trip[of "[97]" "[1, 2]" "\<lambda>_. Some (make_zip [97] [1, 2])" "[]" 0] by (simp add: zip_fits_def)
qed

text \<open>The reader of a whole archive does not check the lengths a directory record gives: on an archive of
  68 bytes it reads past the end of the buffer.\<close>

theorem directory_reads_past_end: "length over_bytes = 68 \<and> (\<forall>f. read_zip f over_bytes = ZUB)"
  by (simp add: over_read) (simp add: over_bytes_def zip_end_def)

section \<open>XML\<close>

text \<open>C23. The parser gives back every tree that was printed with the standard entities, whatever follows it, for
  names without separators and attributes in the order of the map.\<close>

theorem xml_round_trip:
  assumes "xml_wf x"
  shows "parse_xml (xml_str x @ rest) = Some (Some x)"
  using assms by (rule parse_xml_str)

lemma xml_round_trip_witness:
  "parse_xml (xml_str (Xml ''c'' [(''r'', ''A1'')] ''a<b'' [Xml ''v'' [] ''1'' []]) @ []) =
     Some (Some (Xml ''c'' [(''r'', ''A1'')] ''a<b'' [Xml ''v'' [] ''1'' []]))"
  by (rule xml_round_trip) code_simp

text \<open>The parser returns on every text, without exception and whatever the nesting, and the search in the
  tree it returns lists the matching descendants in document order.\<close>

theorem xml_search_total:
  "\<exists>r. parse_xml s = Some r \<and> (case r of Some x \<Rightarrow> find_all t x [] = filter (\<lambda>k. local_name (x_tag k) = t) (descendants x) | None \<Rightarrow> True)"
  using parse_xml_returns[of s] find_all_filter[of t] by (auto split: option.split)

end
