(* ===== verification/Fve_Store.thy ===== *)
theory Fve_Store
  imports Fve_Json
begin

text \<open>
  The document store (\<open>db/store\<close>): documents in one file each, logs with one document per line.
  The directories under the root are an ordered map from names to their files, and a predicate says
  which paths the system refuses to open for writing. \<open>None\<close> is an exception of the JSON reader,
  \<open>Some None\<close> a null pointer. The order of a directory listing, which the system does not fix, is
  the order of the map.
\<close>

section \<open>Paths and lines\<close>

definition sanitize_char :: "char \<Rightarrow> char" where
  "sanitize_char c = (if c = CHR ''/'' \<or> c = CHR 92 \<or> c = CHR ''.'' \<or> c = CHR '' '' then CHR ''_'' else c)"

definition sanitize :: "string \<Rightarrow> string" where
  "sanitize s = map sanitize_char s"

text \<open>\<open>std::getline\<close> until the end: the last line may lack its newline.\<close>

function lines_of :: "string \<Rightarrow> string list" where
  "lines_of s = (if s = [] then [] else takeWhile (\<lambda>c. c \<noteq> CHR 10) s # lines_of (drop 1 (dropWhile (\<lambda>c. c \<noteq> CHR 10) s)))"
  by pat_completeness auto
termination
proof (relation "measure length", goal_cases)
  case (2 s)
  have "length (dropWhile (\<lambda>c. c \<noteq> CHR 10) s) \<le> length s" by (rule length_dropWhile_le)
  then show ?case using 2 by (cases s) auto
qed simp

declare lines_of.simps [simp del]

section \<open>The store\<close>

record store =
  st_root :: string
  st_dirs :: "(string, (string, string) omap) omap"
  st_deny :: "string \<Rightarrow> bool"

definition store_new :: "string \<Rightarrow> store" where
  "store_new root' = \<lparr>st_root = root', st_dirs = [], st_deny = (\<lambda>_. False)\<rparr>"

definition dir_files :: "store \<Rightarrow> string \<Rightarrow> (string, string) omap" where
  "dir_files s d = (case mget (st_dirs s) d of Some fs \<Rightarrow> fs | None \<Rightarrow> [])"

definition ensure :: "string \<Rightarrow> store \<Rightarrow> store" where
  "ensure d s = (if mget (st_dirs s) d = None then s\<lparr>st_dirs := mput d [] (st_dirs s)\<rparr> else s)"

definition file_text :: "store \<Rightarrow> string \<Rightarrow> string \<Rightarrow> string option" where
  "file_text s d n = mget (dir_files s d) n"

definition file_path :: "store \<Rightarrow> string \<Rightarrow> string \<Rightarrow> string" where
  "file_path s d n = st_root s @ ''/'' @ d @ ''/'' @ n"

text \<open>Opening a file for writing fails or replaces its text.\<close>

definition file_write :: "string \<Rightarrow> string \<Rightarrow> string \<Rightarrow> store \<Rightarrow> bool \<times> store" where
  "file_write d n t s =
     (if st_deny s (file_path s d n) then (False, s)
      else (True, s\<lparr>st_dirs := mput d (mput n t (dir_files s d)) (st_dirs s)\<rparr>))"

definition doc_file :: "string \<Rightarrow> string" where
  "doc_file i = sanitize i @ ''.json''"

definition log_file :: "string \<Rightarrow> string" where
  "log_file l = sanitize l @ ''.ndjson''"

definition store_put :: "string \<Rightarrow> string \<Rightarrow> json \<Rightarrow> store \<Rightarrow> bool \<times> store" where
  "store_put coll i doc s = file_write (sanitize coll) (doc_file i) (dump doc) (ensure (sanitize coll) s)"

definition store_get :: "store \<Rightarrow> string \<Rightarrow> string \<Rightarrow> json option option" where
  "store_get s coll i =
     (case file_text s (sanitize coll) (doc_file i) of
        None \<Rightarrow> Some None
      | Some t \<Rightarrow> (case parse t of None \<Rightarrow> None | Some j \<Rightarrow> Some (Some j)))"

definition store_exists :: "store \<Rightarrow> string \<Rightarrow> string \<Rightarrow> bool" where
  "store_exists s coll i = (file_text s (sanitize coll) (doc_file i) \<noteq> None)"

definition strip_json :: "string \<Rightarrow> string option" where
  "strip_json n = (if 5 < length n \<and> drop (length n - 5) n = ''.json'' then Some (take (length n - 5) n) else None)"

definition store_list :: "store \<Rightarrow> string \<Rightarrow> string list" where
  "store_list s coll = map the (filter (\<lambda>x. x \<noteq> None) (map (\<lambda>f. strip_json (fst f)) (dir_files s (sanitize coll))))"

definition LOGS :: string where
  "LOGS = ''_logs''"

definition store_append :: "string \<Rightarrow> json \<Rightarrow> store \<Rightarrow> bool \<times> store" where
  "store_append l doc s =
     (let s1 = ensure LOGS s; old = (case file_text s1 LOGS (log_file l) of Some t \<Rightarrow> t | None \<Rightarrow> [])
      in file_write LOGS (log_file l) (old @ dump doc @ [CHR 10]) s1)"

fun parse_lines :: "string list \<Rightarrow> json list option" where
  "parse_lines [] = Some []"
| "parse_lines (t # ts) =
     (if t = [] then parse_lines ts
      else case parse t of None \<Rightarrow> None
           | Some j \<Rightarrow> (case parse_lines ts of None \<Rightarrow> None | Some js \<Rightarrow> Some (j # js)))"

definition store_read_log :: "store \<Rightarrow> string \<Rightarrow> json list option" where
  "store_read_log s l = (case file_text s LOGS (log_file l) of None \<Rightarrow> Some [] | Some t \<Rightarrow> parse_lines (lines_of t))"

section \<open>Files\<close>

definition writable :: "store \<Rightarrow> bool" where
  "writable s \<longleftrightarrow> (\<forall>p. \<not> st_deny s p)"

lemma ensure_files [simp]: "dir_files (ensure d s) d' = dir_files s d'"
  by (auto simp: dir_files_def ensure_def mget_mput)

lemma ensure_text [simp]: "file_text (ensure d s) d' n = file_text s d' n"
  by (simp add: file_text_def)

lemma ensure_deny [simp]: "st_deny (ensure d s) = st_deny s" "writable (ensure d s) = writable s" "st_root (ensure d s) = st_root s"
  by (simp_all add: ensure_def writable_def)

lemma write_text:
  assumes "writable s"
  shows "file_text (snd (file_write d n t s)) d' n' = (if d' = d \<and> n' = n then Some t else file_text s d' n')"
    "fst (file_write d n t s)" "writable (snd (file_write d n t s))"
  using assms by (simp_all add: file_write_def writable_def file_text_def dir_files_def mget_mput)

lemma dir_write:
  assumes "writable s"
  shows "dir_files (snd (file_write d n t s)) d' = (if d' = d then mput n t (dir_files s d) else dir_files s d')"
  using assms by (simp add: file_write_def writable_def dir_files_def mget_mput)

lemma write_deny: "st_deny (snd (file_write d n t s)) = st_deny s"
  by (simp add: file_write_def)

lemma doc_file_eq [simp]: "doc_file i = doc_file j \<longleftrightarrow> sanitize i = sanitize j"
  by (simp add: doc_file_def)

lemma log_file_eq [simp]: "log_file i = log_file j \<longleftrightarrow> sanitize i = sanitize j"
  by (simp add: log_file_def)

lemma doc_not_log [simp]: "doc_file i \<noteq> log_file j"
proof
  assume "doc_file i = log_file j"
  then have "rev (doc_file i) ! 4 = rev (log_file j) ! 4" by simp
  then show False by (simp add: doc_file_def log_file_def)
qed

lemma log_not_doc [simp]: "log_file j \<noteq> doc_file i"
  using doc_not_log by metis

lemma sanitize_idem [simp]: "sanitize (sanitize s) = sanitize s"
  by (simp add: sanitize_def sanitize_char_def)

lemma sanitize_LOGS [simp]: "sanitize LOGS = LOGS"
  by (simp add: sanitize_def sanitize_char_def LOGS_def)

section \<open>Documents\<close>

text \<open>The interface a document store offers: keys that may fall together, and the two laws.\<close>

locale doc_store =
  fixes put :: "string \<Rightarrow> string \<Rightarrow> json \<Rightarrow> 's \<Rightarrow> bool \<times> 's"
    and get :: "'s \<Rightarrow> string \<Rightarrow> string \<Rightarrow> json option option"
    and key :: "string \<Rightarrow> 'k"
    and up :: "'s \<Rightarrow> bool"
  assumes get_put: "up s \<Longrightarrow> json_plain d \<Longrightarrow>
      get (snd (put c i d s)) c' i' = (if key c' = key c \<and> key i' = key i then Some (Some d) else get s c' i')"
    and put_up: "up s \<Longrightarrow> up (snd (put c i d s))"
begin

lemma get_put_same: "up s \<Longrightarrow> json_plain d \<Longrightarrow> get (snd (put c i d s)) c i = Some (Some d)"
  by (simp add: get_put)

lemma get_put_other: "up s \<Longrightarrow> json_plain d \<Longrightarrow> key c' \<noteq> key c \<or> key i' \<noteq> key i \<Longrightarrow> get (snd (put c i d s)) c' i' = get s c' i'"
  by (auto simp: get_put)

lemma get_put_put: "up s \<Longrightarrow> json_plain d \<Longrightarrow> json_plain e \<Longrightarrow>
    get (snd (put c i d (snd (put c i e s)))) c' i' = get (snd (put c i d s)) c' i'"
  by (simp add: get_put put_up)

end

lemma store_put_text:
  assumes "writable s"
  shows "file_text (snd (store_put c i d s)) d' n
    = (if d' = sanitize c \<and> n = doc_file i then Some (dump d) else file_text s d' n)"
    "fst (store_put c i d s)" "writable (snd (store_put c i d s))"
  using write_text[of "ensure (sanitize c) s"] assms by (simp_all add: store_put_def)

section \<open>Logs\<close>

text \<open>A log holds whole lines.\<close>

definition whole_lines :: "string \<Rightarrow> bool" where
  "whole_lines t \<longleftrightarrow> t = [] \<or> last t = CHR 10"

definition logs_ok :: "store \<Rightarrow> bool" where
  "logs_ok s \<longleftrightarrow> (\<forall>l t. file_text s LOGS (log_file l) = Some t \<longrightarrow> whole_lines t)"

lemma lines_cons: "CHR 10 \<notin> set x \<Longrightarrow> lines_of (x @ CHR 10 # t) = x # lines_of t"
proof -
  assume a: "CHR 10 \<notin> set x"
  have "takeWhile (\<lambda>c. c \<noteq> CHR 10) (x @ CHR 10 # t) = x" "dropWhile (\<lambda>c. c \<noteq> CHR 10) (x @ CHR 10 # t) = CHR 10 # t"
    using a by (induction x) auto
  then show ?thesis by (subst lines_of.simps) simp
qed

lemma whole_split: "whole_lines t \<Longrightarrow> t \<noteq> [] \<Longrightarrow> \<exists>x r. t = x @ CHR 10 # r \<and> CHR 10 \<notin> set x \<and> whole_lines r"
proof -
  assume a: "whole_lines t" "t \<noteq> []"
  then have "CHR 10 \<in> set t" by (metis whole_lines_def last_in_set)
  from split_list_first[OF this] obtain x r where xr: "t = x @ CHR 10 # r" "CHR 10 \<notin> set x" by blast
  moreover have "whole_lines r" using a xr(1) by (cases "r = []") (auto simp: whole_lines_def)
  ultimately show ?thesis by blast
qed

lemma lines_snoc: "whole_lines t \<Longrightarrow> CHR 10 \<notin> set x \<Longrightarrow> lines_of (t @ x @ [CHR 10]) = lines_of t @ [x]"
proof (induction "length t" arbitrary: t rule: less_induct)
  case less
  show ?case
  proof (cases "t = []")
    case True
    then show ?thesis using less.prems lines_cons[of x "[]"] by (simp add: lines_of.simps[of "[]"])
  next
    case False
    then obtain y r where r: "t = y @ CHR 10 # r" "CHR 10 \<notin> set y" "whole_lines r" using whole_split less.prems(1) by blast
    then show ?thesis using less.hyps[of r] less.prems(2) lines_cons[of y] by simp
  qed
qed

lemma parse_lines_snoc: "parse_lines (ts @ [t]) =
    (case parse_lines ts of None \<Rightarrow> None | Some js \<Rightarrow> if t = [] then Some js else case parse t of None \<Rightarrow> None | Some j \<Rightarrow> Some (js @ [j]))"
  by (induction ts) (auto split: option.splits)

lemma esc_line: "CHR 10 \<notin> set (esc s)"
  by (auto simp: esc_def)

lemma dump_line: "json_plain j \<Longrightarrow> CHR 10 \<notin> set (dump j)"
proof (induction j)
  case (JNum v)
  then have "list_all num_char (num_out v)" using num_out_normal[of v] by simp
  moreover have "\<not> num_char (CHR 10)" by (simp add: num_char_def is_digit_def)
  ultimately show ?case by (metis dump.simps(3) list_all_iff)
next
  case (JStr t)
  show ?case by (simp add: esc_line)
next
  case (JArr xs)
  have "CHR 10 \<notin> set (join (CHR '','') (map dump ys))" if "set ys \<subseteq> set xs" for ys
    using that JArr by (induction ys rule: induct_list012) (auto simp: list_all_iff)
  then show ?case by simp
next
  case (JObj m)
  have "CHR 10 \<notin> set (member p)" if "p \<in> set m" for p
  proof -
    have "json_plain (snd p)" using that JObj.prems by (simp add: list_all_iff)
    then have "CHR 10 \<notin> set (dump (snd p))" using JObj.IH[OF that, of "snd p"] by (cases p) simp
    then show ?thesis by (simp add: member_def esc_line)
  qed
  then have "CHR 10 \<notin> set (join (CHR '','') (map member ps))" if "set ps \<subseteq> set m" for ps
    using that by (induction ps rule: induct_list012) auto
  then show ?case by (simp add: dump_JObj del: dump.simps)
qed auto

lemma dump_nonempty: "json_plain j \<Longrightarrow> dump j \<noteq> []"
  using pvalue_dump_start by fastforce

lemma store_append_text:
  assumes "writable s"
  shows "file_text (snd (store_append l d s)) d' n
    = (if d' = LOGS \<and> n = log_file l then Some ((case file_text s LOGS (log_file l) of Some t \<Rightarrow> t | None \<Rightarrow> []) @ dump d @ [CHR 10])
       else file_text s d' n)"
    "fst (store_append l d s)" "writable (snd (store_append l d s))"
  using write_text[of "ensure LOGS s"] assms by (simp_all add: store_append_def Let_def)

definition store_up :: "store \<Rightarrow> bool" where
  "store_up s \<longleftrightarrow> writable s \<and> logs_ok s"

lemma store_read_append:
  assumes "store_up s" "json_plain d"
  shows "store_read_log (snd (store_append l d s)) l'
    = (if sanitize l' = sanitize l then map_option (\<lambda>es. es @ [d]) (store_read_log s l') else store_read_log s l')"
proof (cases "sanitize l' = sanitize l")
  case True
  define old where "old = (case file_text s LOGS (log_file l) of Some t \<Rightarrow> t | None \<Rightarrow> [])"
  have "whole_lines old" using assms(1) by (auto simp: old_def store_up_def logs_ok_def whole_lines_def split: option.split)
  then have "lines_of (old @ dump d @ [CHR 10]) = lines_of old @ [dump d]" using lines_snoc dump_line[OF assms(2)] by blast
  moreover have e: "log_file l' = log_file l" using True by simp
  ultimately have "store_read_log (snd (store_append l d s)) l' = parse_lines (lines_of old @ [dump d])"
    using assms(1) unfolding store_read_log_def e by (simp add: store_append_text store_up_def old_def)
  moreover have "store_read_log s l' = parse_lines (lines_of old)"
    unfolding store_read_log_def e by (auto simp: old_def lines_of.simps[of "[]"] split: option.split)
  ultimately show ?thesis
    using assms(2) True by (simp add: parse_lines_snoc parse_dump dump_nonempty map_option_case split: option.split)
next
  case False
  then have "log_file l' \<noteq> log_file l" by simp
  then show ?thesis using assms(1) False by (simp add: store_read_log_def store_append_text store_up_def del: log_file_eq)
qed

lemma store_append_up: "store_up s \<Longrightarrow> store_up (snd (store_append l d s))"
  using store_append_text[of s] by (auto simp: store_up_def logs_ok_def whole_lines_def)

lemma store_put_up: "store_up s \<Longrightarrow> store_up (snd (store_put c i d s))"
  using store_put_text[of s] by (auto simp: store_up_def logs_ok_def)

section \<open>The interfaces\<close>

text \<open>A log in which entries are only added, and a database with both.\<close>

locale doc_log =
  fixes app :: "string \<Rightarrow> json \<Rightarrow> 's \<Rightarrow> bool \<times> 's"
    and read :: "'s \<Rightarrow> string \<Rightarrow> json list option"
    and lkey :: "string \<Rightarrow> 'k"
    and up :: "'s \<Rightarrow> bool"
  assumes read_app: "up s \<Longrightarrow> json_plain d \<Longrightarrow>
      read (snd (app l d s)) l' = (if lkey l' = lkey l then map_option (\<lambda>es. es @ [d]) (read s l') else read s l')"
    and app_up: "up s \<Longrightarrow> up (snd (app l d s))"
begin

definition app_all :: "string \<Rightarrow> json list \<Rightarrow> 's \<Rightarrow> 's" where
  "app_all l ds s = foldl (\<lambda>t d. snd (app l d t)) s ds"

lemma app_all_up: "up s \<Longrightarrow> up (app_all l ds s)"
  by (induction ds arbitrary: s) (auto simp: app_all_def app_up)

lemma read_app_all:
  "up s \<Longrightarrow> list_all json_plain ds \<Longrightarrow> read s l = Some es \<Longrightarrow> read (app_all l ds s) l = Some (es @ ds)"
proof (induction ds arbitrary: s es)
  case (Cons d ds)
  have "app_all l (d # ds) s = app_all l ds (snd (app l d s))" by (simp add: app_all_def)
  then show ?case using Cons by (simp add: read_app app_up)
qed (simp add: app_all_def)

end

locale doc_db = doc_store put get key up + doc_log app read lkey up
  for put :: "string \<Rightarrow> string \<Rightarrow> json \<Rightarrow> 's \<Rightarrow> bool \<times> 's"
    and get :: "'s \<Rightarrow> string \<Rightarrow> string \<Rightarrow> json option option"
    and key :: "string \<Rightarrow> 'k"
    and app :: "string \<Rightarrow> json \<Rightarrow> 's \<Rightarrow> bool \<times> 's"
    and read :: "'s \<Rightarrow> string \<Rightarrow> json list option"
    and lkey :: "string \<Rightarrow> 'k"
    and up :: "'s \<Rightarrow> bool" +
  assumes read_put: "up s \<Longrightarrow> read (snd (put c i d s)) l = read s l"
    and get_app: "up s \<Longrightarrow> get (snd (app l d s)) c i = get s c i"
begin

lemma get_app_all: "up s \<Longrightarrow> get (app_all l ds s) c i = get s c i"
  by (induction ds arbitrary: s) (auto simp: app_all_def app_up get_app)

text \<open>A document and a log entry written together are both there, in either order.\<close>

lemma put_then_app:
  assumes "up s" "json_plain d" "json_plain e" "read s l = Some es"
  shows "get (snd (app l e (snd (put c i d s)))) c i = Some (Some d) \<and> read (snd (app l e (snd (put c i d s)))) l = Some (es @ [e])"
  using assms by (simp add: get_app get_put_same put_up read_app read_put)

end

interpretation db: doc_db store_put store_get sanitize store_append store_read_log sanitize store_up
  
proof
  show "store_get (snd (store_put c i d s)) c' i' = (if sanitize c' = sanitize c \<and> sanitize i' = sanitize i then Some (Some d) else store_get s c' i')"
    if "store_up s" "json_plain d" for s d c i c' i'
    using that by (simp add: store_get_def store_put_text store_up_def parse_dump)
  show "store_read_log (snd (store_put c i d s)) l = store_read_log s l" if "store_up s" for s c i d l
    using that by (simp add: store_read_log_def store_put_text store_up_def)
  show "store_get (snd (store_append l d s)) c i = store_get s c i" if "store_up s" for s l d c i
    using that by (simp add: store_get_def store_append_text store_up_def)
qed (simp_all add: store_put_up store_append_up store_read_append)


text \<open>Listing: the names of the documents of a collection.\<close>

lemma strip_doc: "sanitize i \<noteq> [] \<Longrightarrow> strip_json (doc_file i) = Some (sanitize i)"
  by (simp add: strip_json_def doc_file_def)

lemma strip_some: "strip_json n = Some i \<Longrightarrow> n = i @ ''.json'' \<and> i \<noteq> []"
proof -
  assume "strip_json n = Some i"
  then have a: "5 < length n" "drop (length n - 5) n = ''.json''" "i = take (length n - 5) n"
    by (auto simp: strip_json_def split: if_splits)
  then show ?thesis by (metis append_take_drop_id diff_is_0_eq not_le take_eq_Nil list.size(3) not_less_zero)
qed

lemma strip_iff: "strip_json n = Some i \<longleftrightarrow> n = i @ ''.json'' \<and> i \<noteq> []"
proof
  show "n = i @ ''.json'' \<and> i \<noteq> [] \<Longrightarrow> strip_json n = Some i" by (simp add: strip_json_def)
qed (rule strip_some)

lemma in_store_list:
  "i \<in> set (store_list s c) \<longleftrightarrow> i \<noteq> [] \<and> file_text s (sanitize c) (i @ ''.json'') \<noteq> None"
proof -
  have "i \<in> set (map the (filter (\<lambda>x. x \<noteq> None) (map (\<lambda>f. strip_json (fst f)) fs))) \<longleftrightarrow> (\<exists>p \<in> set fs. strip_json (fst p) = Some i)"
    for fs :: "(string, string) omap"
    by (induction fs) auto
  then have "i \<in> set (store_list s c) \<longleftrightarrow> (\<exists>p \<in> set (dir_files s (sanitize c)). strip_json (fst p) = Some i)"
    unfolding store_list_def by blast
  moreover have "mget m n \<noteq> None \<longleftrightarrow> (\<exists>p \<in> set m. fst p = n)" for m :: "(string, string) omap" and n
    using mget_None_iff[of m n] by (auto simp: image_iff)
  ultimately show ?thesis unfolding strip_iff file_text_def by (simp only:) blast
qed

lemma list_put:
  assumes "store_up s" "sanitize i \<noteq> []"
  shows "set (store_list (snd (store_put c i d s)) c') = (if sanitize c' = sanitize c then insert (sanitize i) (set (store_list s c')) else set (store_list s c'))"
proof -
  have "j @ ''.json'' = doc_file i \<longleftrightarrow> j = sanitize i" for j by (simp add: doc_file_def)
  then have "j \<in> set (store_list (snd (store_put c i d s)) c') \<longleftrightarrow>
      (if sanitize c' = sanitize c then j = sanitize i \<or> j \<in> set (store_list s c') else j \<in> set (store_list s c'))" for j
    using assms by (simp add: in_store_list store_put_text store_up_def)
  then show ?thesis by (cases "sanitize c' = sanitize c") auto
qed

end
