(* ===== verification/Fve_Records.thy ===== *)
theory Fve_Records
  imports Fve_Store Fve_Merkle Fve_Ast
begin

text \<open>
  The records kept in the document store: the artifact registry (\<open>registry/registry\<close>), the audit
  log with its hash chain (\<open>audit/audit\<close>) and the users and signatures (\<open>platform/identity\<close>). \<open>None\<close>
  is an exception of the JSON reader or a conversion to \<open>int\<close> that is undefined. The clock is an
  argument.
\<close>

section \<open>Documents\<close>

definition jint :: "int \<Rightarrow> json" where
  "jint i = JNum (fround RNear (of_int i))"

definition jopt :: "string \<Rightarrow> json option \<Rightarrow> (string \<times> json) list" where
  "jopt k v = (case v of Some j \<Rightarrow> [(k, j)] | None \<Rightarrow> [])"

definition int_field :: "json \<Rightarrow> string \<Rightarrow> int option" where
  "int_field j k = (case to_int32 (jn j k (Fin 0)) of Inr i \<Rightarrow> Some i | Inl _ \<Rightarrow> None)"

definition inc_int :: "int \<Rightarrow> int option" where
  "inc_int v = (if v < 2147483647 then Some (v + 1) else None)"

lemma jint_val: "\<bar>i\<bar> < 2 ^ 53 \<Longrightarrow> jint i = JNum (Fin (of_int i))"
  unfolding jint_def by (simp add: fround_exact representable_int)

lemma jint_plain [simp]: "\<bar>i\<bar> < 2 ^ 53 \<Longrightarrow> json_plain (jint i)"
proof -
  assume a: "\<bar>i\<bar> < 2 ^ 53"
  have "i = 0 \<or> 1 \<le> \<bar>real_of_int i\<bar>" by linarith
  moreover have "(2::real) powi (- 1022) < 1" by (simp add: power_int_minus)
  ultimately show ?thesis using a representable_int[OF a] unfolding jint_val[OF a] by auto
qed

lemma mbuild_vals: "p \<in> set (mbuild ps) \<Longrightarrow> p \<in> set ps"
proof -
  have "p \<in> set (foldl (\<lambda>m p. mput (fst p) (snd p) m) m ps) \<Longrightarrow> p \<in> set m \<or> p \<in> set ps" for m
  proof (induction ps arbitrary: m)
    case (Cons q ps)
    then show ?case using in_mput[of p "fst q" "snd q" m] by auto
  qed simp
  from this[of "[]"] show "p \<in> set (mbuild ps) \<Longrightarrow> p \<in> set ps" by (simp add: mbuild_def)
qed

lemma mkobj_plain: "list_all (\<lambda>p. json_plain (snd p)) ps \<Longrightarrow> json_plain (mkobj ps)"
  by (auto simp: mkobj_def list_all_iff dest: mbuild_vals)

lemma mkobj_get: "mget (jobj (mkobj ps)) k = map_of (rev ps) k"
  by (simp add: mkobj_def mget_mbuild)

lemma jopt_plain [simp]: "list_all (\<lambda>p. json_plain (snd p)) (jopt k v) \<longleftrightarrow> pred_option json_plain v"
  by (simp add: jopt_def split: option.split)

lemma jopt_get [simp]: "map_of (jopt k v) k' = (if k' = k then v else None)"
  by (simp add: jopt_def split: option.split)

lemma add_jopt [simp]: "(m ++ map_of (jopt k v)) k' = (if k' = k \<and> v \<noteq> None then v else m k')"
  by (auto simp: jopt_def map_add_def split: option.split)

lemma rev_jopt [simp]: "rev (jopt k v) = jopt k v"
  by (simp add: jopt_def split: option.split)

section \<open>The artifact registry\<close>

definition B64 :: string where
  "B64 = ''ABCDEFGHIJKLMNOPQRSTUVWXYZabcdefghijklmnopqrstuvwxyz0123456789+/''"

definition sextet :: "nat \<Rightarrow> nat \<Rightarrow> char" where
  "sextet n sh = B64 ! (n div 2 ^ sh mod 64)"

fun b64 :: "byte list \<Rightarrow> string" where
  "b64 (a # b # c # d) =
     (let n = 65536 * unat a + 256 * unat b + unat c in sextet n 18 # sextet n 12 # sextet n 6 # sextet n 0 # b64 d)"
| "b64 [a, b] = (let n = 65536 * unat a + 256 * unat b in [sextet n 18, sextet n 12, sextet n 6, CHR ''=''])"
| "b64 [a] = (let n = 65536 * unat a in [sextet n 18, sextet n 12, CHR ''='', CHR ''=''])"
| "b64 [] = []"

definition doc_version :: "store \<Rightarrow> string \<Rightarrow> string \<Rightarrow> string \<Rightarrow> int option" where
  "doc_version s kind key i =
     (case store_get s kind i of None \<Rightarrow> None
      | Some None \<Rightarrow> Some 0
      | Some (Some d) \<Rightarrow> if jstr d ''key'' [] = key then int_field d ''version'' else Some 0)"

fun max_version :: "store \<Rightarrow> string \<Rightarrow> string \<Rightarrow> string list \<Rightarrow> int \<Rightarrow> int option" where
  "max_version s kind key [] v = Some v"
| "max_version s kind key (i # ids) v =
     (case doc_version s kind key i of None \<Rightarrow> None | Some vv \<Rightarrow> max_version s kind key ids (if v < vv then vv else v))"

definition version_of :: "store \<Rightarrow> string \<Rightarrow> string \<Rightarrow> int option" where
  "version_of s kind key = max_version s kind key (store_list s kind) 0"

definition artifact_doc :: "string \<Rightarrow> string \<Rightarrow> byte list \<Rightarrow> json option \<Rightarrow> int \<Rightarrow> json" where
  "artifact_doc name mime ys meta ver =
     (let hh = hex (sha256 ys)
      in mkobj ([(''id'', JStr (''art_'' @ take 16 hh)), (''kind'', JStr ''artifact''), (''key'', JStr name), (''name'', JStr name),
           (''mime'', JStr mime), (''hash'', JStr (''sha256:'' @ hh)), (''version'', jint ver), (''size'', jint (int (length ys))),
           (''data'', JStr (b64 ys))] @ jopt ''meta'' meta))"

definition artifact_id :: "byte list \<Rightarrow> string" where
  "artifact_id ys = ''art_'' @ take 16 (hex (sha256 ys))"

definition put_artifact :: "string \<Rightarrow> string \<Rightarrow> byte list \<Rightarrow> json option \<Rightarrow> store \<Rightarrow> (string \<times> store) option" where
  "put_artifact name mime ys meta s =
     Option.bind (version_of s ''artifacts'' name) (\<lambda>v. Option.bind (inc_int v) (\<lambda>ver.
       Some (artifact_id ys, snd (store_put ''artifacts'' (artifact_id ys) (artifact_doc name mime ys meta ver) s))))"

definition link :: "string \<Rightarrow> string \<Rightarrow> string \<Rightarrow> store \<Rightarrow> store" where
  "link from' to rel s = snd (store_append ''provenance'' (mkobj [(''from'', JStr from'), (''to'', JStr to), (''rel'', JStr rel)]) s)"

definition model_id :: "json \<Rightarrow> string" where
  "model_id model = ''mdl_'' @ take 16 (hex (sha256_str (dump model)))"

definition model_doc :: "string \<Rightarrow> json \<Rightarrow> json option \<Rightarrow> int \<Rightarrow> json" where
  "model_doc art model meta ver =
     mkobj ([(''id'', JStr (model_id model)), (''kind'', JStr ''model''), (''key'', JStr art), (''artifact'', JStr art),
       (''hash'', JStr (''sha256:'' @ hex (sha256_str (dump model)))), (''version'', jint ver), (''model'', model)] @ jopt ''meta'' meta)"

definition put_model :: "string \<Rightarrow> json \<Rightarrow> json option \<Rightarrow> store \<Rightarrow> (string \<times> store) option" where
  "put_model art model meta s =
     Option.bind (version_of s ''models'' art) (\<lambda>v. Option.bind (inc_int v) (\<lambda>ver.
       Some (model_id model, link art (model_id model) ''produced''
         (snd (store_put ''models'' (model_id model) (model_doc art model meta ver) s)))))"

definition touches :: "string \<Rightarrow> json \<Rightarrow> bool" where
  "touches i e = (jstr e ''from'' [] = i \<or> jstr e ''to'' [] = i)"

definition provenance :: "store \<Rightarrow> string \<Rightarrow> json list option" where
  "provenance s i = map_option (filter (touches i)) (store_read_log s ''provenance'')"

section \<open>The audit log\<close>

record audit =
  au_store :: store
  au_chain :: audit_chain

definition log_chain :: "json list \<Rightarrow> audit_chain" where
  "log_chain es = foldl (\<lambda>c e. chain_append (sha256_str (dump e)) c) chain_new es"

definition audit_rebuild :: "store \<Rightarrow> audit_chain option" where
  "audit_rebuild s = map_option log_chain (store_read_log s ''audit'')"

definition audit_open :: "store \<Rightarrow> audit option" where
  "audit_open s = map_option (\<lambda>c. \<lparr>au_store = s, au_chain = c\<rparr>) (audit_rebuild s)"

definition audit_entry_doc :: "nat \<Rightarrow> string \<Rightarrow> string \<Rightarrow> string \<Rightarrow> digest \<Rightarrow> json option \<Rightarrow> json" where
  "audit_entry_doc n ty subject user hd' pl =
     mkobj ([(''seq'', jint (int n)), (''type'', JStr ty), (''subject'', JStr subject), (''actor'', JStr user),
       (''prev'', JStr (hex hd'))] @ jopt ''payload'' pl)"

definition audit_record :: "string \<Rightarrow> string \<Rightarrow> json option \<Rightarrow> string \<Rightarrow> audit \<Rightarrow> (digest \<times> audit) option" where
  "audit_record ty subject pl user a =
     Option.bind (store_read_log (au_store a) ''audit'') (\<lambda>es.
       let e = audit_entry_doc (length es) ty subject user (head (au_chain a)) pl;
           c = chain_append (sha256_str (dump e)) (au_chain a)
       in Some (head c, \<lparr>au_store = snd (store_append ''audit'' e (au_store a)), au_chain = c\<rparr>))"

definition audit_history :: "audit \<Rightarrow> string \<Rightarrow> json list option" where
  "audit_history a subject =
     map_option (filter (\<lambda>e. subject = [] \<or> jstr e ''subject'' [] = subject)) (store_read_log (au_store a) ''audit'')"

definition audit_lineage :: "audit \<Rightarrow> string \<Rightarrow> json list option" where
  "audit_lineage a art = map_option (filter (touches art)) (store_read_log (au_store a) ''provenance'')"

definition audit_certificates :: "audit \<Rightarrow> json list option" where
  "audit_certificates a =
     map_option (filter (\<lambda>e. jstr e ''type'' [] = ''certificate'')) (store_read_log (au_store a) ''audit'')"

definition audit_verify :: "audit \<Rightarrow> bool option" where
  "audit_verify a = map_option chain_verify (audit_rebuild (au_store a))"

section \<open>Users and signatures\<close>

record user =
  us_id :: string
  us_external :: string
  us_name :: string
  us_role :: string
  us_scope :: "string list"
  us_active :: bool
  us_token :: string

definition user_id :: "user \<Rightarrow> string" where
  "user_id u = (if us_id u = [] then ''user_'' @ take 16 (hex (sha256_str (us_external u @ ''|'' @ us_name u))) else us_id u)"

definition user_doc :: "user \<Rightarrow> json" where
  "user_doc u =
     mkobj [(''id'', JStr (user_id u)), (''external_id'', JStr (us_external u)), (''display_name'', JStr (us_name u)), (''role'', JStr (us_role u)),
       (''section_scope'', JArr (map JStr (us_scope u))), (''active'', JBool (us_active u)), (''api_token_hash'', JStr (us_token u))]"

definition create_user :: "user \<Rightarrow> store \<Rightarrow> string \<times> store" where
  "create_user u s = (user_id u, snd (store_put ''users'' (user_id u) (user_doc u) s))"

definition get_user :: "store \<Rightarrow> string \<Rightarrow> json option option" where
  "get_user s i = store_get s ''users'' i"

text \<open>The documents of a list of names; null pointers are skipped.\<close>

fun get_all :: "store \<Rightarrow> string \<Rightarrow> string list \<Rightarrow> json list option" where
  "get_all s coll [] = Some []"
| "get_all s coll (i # ids) =
     Option.bind (store_get s coll i) (\<lambda>d. map_option (\<lambda>ds. case d of Some j \<Rightarrow> j # ds | None \<Rightarrow> ds) (get_all s coll ids))"

definition list_users :: "store \<Rightarrow> json list option" where
  "list_users s = get_all s ''users'' (store_list s ''users'')"

definition user_active :: "store \<Rightarrow> string \<Rightarrow> bool option" where
  "user_active s i = map_option (\<lambda>d. case d of None \<Rightarrow> False | Some u \<Rightarrow> \<not> jhas u ''active'' \<or> jbool (jat u ''active'')) (get_user s i)"

definition has_role :: "store \<Rightarrow> string \<Rightarrow> string \<Rightarrow> bool option" where
  "has_role s i role =
     map_option (\<lambda>d. case d of None \<Rightarrow> False
       | Some u \<Rightarrow> if jhas u ''active'' \<and> \<not> jbool (jat u ''active'') then False
                   else let r = jstr u ''role'' [] in r = ''admin'' \<or> r = role) (get_user s i)"

definition sign_id :: "string \<Rightarrow> string \<Rightarrow> string \<Rightarrow> int \<Rightarrow> string" where
  "sign_id user subject meaning now =
     ''sig_'' @ take 24 (hex (sha256_str (user @ ''|'' @ subject @ ''|'' @ meaning @ ''|'' @ show_int now)))"

definition sign_doc :: "string \<Rightarrow> string \<Rightarrow> string \<Rightarrow> json option \<Rightarrow> int \<Rightarrow> json" where
  "sign_doc user subject meaning pl now =
     mkobj ([(''id'', JStr (sign_id user subject meaning now)), (''user_id'', JStr user), (''subject'', JStr subject), (''meaning'', JStr meaning)]
       @ jopt ''payload'' pl @ [(''signed_at'', jint now)])"

definition sign_subject :: "string \<Rightarrow> string \<Rightarrow> string \<Rightarrow> json option \<Rightarrow> int \<Rightarrow> store \<Rightarrow> string \<times> store" where
  "sign_subject user subject meaning pl now s =
     (let i = sign_id user subject meaning now; d = sign_doc user subject meaning pl now
      in (i, snd (store_append ''signatures_log'' d (snd (store_put ''signatures'' i d s)))))"

definition signatures :: "store \<Rightarrow> string \<Rightarrow> json list option" where
  "signatures s subject =
     map_option (filter (\<lambda>d. subject = [] \<or> jstr d ''subject'' [] = subject)) (get_all s ''signatures'' (store_list s ''signatures''))"


section \<open>The base 64 text\<close>

text \<open>The decoder of the standard.\<close>

definition b64_val :: "char \<Rightarrow> nat" where
  "b64_val c =
     (let n = of_char c :: nat
      in if 65 \<le> n \<and> n \<le> 90 then n - 65 else if 97 \<le> n \<and> n \<le> 122 then n - 71
         else if 48 \<le> n \<and> n \<le> 57 then n + 4 else if n = 43 then 62 else 63)"

definition quad :: "char \<Rightarrow> char \<Rightarrow> char \<Rightarrow> char \<Rightarrow> nat" where
  "quad w x y z = 262144 * b64_val w + 4096 * b64_val x + 64 * b64_val y + b64_val z"

fun unb64 :: "string \<Rightarrow> byte list" where
  "unb64 (w # x # y # z # r) =
     (if y = CHR ''='' then [of_nat (quad w x CHR ''A'' CHR ''A'' div 65536)]
      else if z = CHR ''='' then (let n = quad w x y CHR ''A'' in [of_nat (n div 65536), of_nat (n div 256 mod 256)])
      else (let n = quad w x y z in of_nat (n div 65536) # of_nat (n div 256 mod 256) # of_nat (n mod 256) # unb64 r))"
| "unb64 _ = []"

lemma b64_codes: "list_all (\<lambda>k. b64_val (B64 ! k) = k \<and> B64 ! k \<noteq> CHR ''='') [0..<64]"
  by code_simp

lemma b64_sextet: "b64_val (sextet n sh) = n div 2 ^ sh mod 64" "sextet n sh \<noteq> CHR ''=''"
  using b64_codes by (simp_all add: sextet_def list_all_iff)

lemma quad_sum: "n < 16777216 \<Longrightarrow> 262144 * (n div 262144 mod 64) + 4096 * (n div 4096 mod 64) + 64 * (n div 64 mod 64) + n mod 64 = (n :: nat)"
proof -
  assume n: "n < 16777216"
  have "n mod 4096 = 64 * (n div 64 mod 64) + n mod 64" using mod_mult2_eq[of n 64 64] by simp
  moreover have "n mod 262144 = 4096 * (n div 4096 mod 64) + n mod 4096" using mod_mult2_eq[of n 4096 64] by simp
  moreover have "n = 262144 * (n div 262144 mod 64) + n mod 262144" using n mod_mult2_eq[of n 262144 64] by simp
  ultimately show ?thesis by linarith
qed

lemma quad_back:
  assumes "n < 16777216"
  shows "quad (sextet n 18) (sextet n 12) (sextet n 6) (sextet n 0) = n"
proof -
  have p: "(2::nat) ^ 18 = 262144" "(2::nat) ^ 12 = 4096" "(2::nat) ^ 6 = 64" "(2::nat) ^ 0 = 1" by simp_all
  show ?thesis unfolding quad_def b64_sextet p div_by_1 using quad_sum[OF assms] .
qed

lemma unat_lt: "unat (a :: byte) < 256"
  using unsigned_less[of a] by simp

lemma three_bytes:
  assumes "x < 256" "y < 256" "z < 256" "n = 65536 * x + 256 * y + z"
  shows "n < 16777216" "n div 65536 = x" "n div 256 mod 256 = y" "n mod 256 = (z :: nat)"
proof -
  have n: "n = z + (y + x * 256) * 256" using assms(4) by simp
  have d: "n div 256 = y + x * 256" "n mod 256 = z" using assms(3) unfolding n by (simp_all only: div_mult_self1 mod_mult_self1 mod_less div_less)
  show "n mod 256 = z" by (rule d)
  show "n div 256 mod 256 = y" using assms(2) unfolding d(1) by (simp only: mod_mult_self1 mod_less)
  have "n div 65536 = n div 256 div 256" using div_mult2_eq[of n 256 256] by simp
  then show "n div 65536 = x" using assms(2) unfolding d(1) by (simp only: div_mult_self1 div_less)
  show "n < 16777216" using assms by linarith
qed

lemma b64_A: "b64_val CHR ''A'' = 0"
  by code_simp

lemma b64_zero: "n mod 64 = 0 \<Longrightarrow> b64_val (sextet n 0) = b64_val CHR ''A''"
  by (simp add: b64_sextet b64_A)

lemma b64_zero6: "n div 64 mod 64 = 0 \<Longrightarrow> b64_val (sextet n 6) = b64_val CHR ''A''"
  by (simp add: b64_sextet b64_A)

lemma unb64_b64: "unb64 (b64 d) = d"
proof (induction d rule: b64.induct)
  case (1 a b c d)
  define n where "n = 65536 * unat a + 256 * unat b + unat c"
  have n: "n < 16777216" "n div 65536 = unat a" "n div 256 mod 256 = unat b" "n mod 256 = unat c"
    using three_bytes[OF unat_lt[of a] unat_lt[of b] unat_lt[of c] n_def] by simp_all
  have "quad (sextet n 18) (sextet n 12) (sextet n 6) (sextet n 0) = n"
    by (rule quad_back[OF n(1)])
  then show ?case using 1 n by (simp add: b64_sextet Let_def n_def[symmetric])
next
  case (2 a b)
  define n where "n = 65536 * unat a + 256 * unat b"
  have n: "n < 16777216" "n div 65536 = unat a" "n div 256 mod 256 = unat b" "n mod 64 = 0"
    using three_bytes[OF unat_lt[of a] unat_lt[of b], of 0 n] by (simp_all add: n_def mod_add_eq[symmetric])
  have "quad (sextet n 18) (sextet n 12) (sextet n 6) CHR ''A'' = n"
    using quad_back[OF n(1)] b64_zero[OF n(4)] by (simp only: quad_def)
  then show ?case using n by (simp add: b64_sextet Let_def n_def[symmetric])
next
  case (3 a)
  define n where "n = 65536 * unat a"
  have n: "n < 16777216" "n div 65536 = unat a" "n mod 64 = 0" "n div 64 mod 64 = 0"
    using three_bytes[OF unat_lt[of a], of 0 0 n] by (simp_all add: n_def)
  have "quad (sextet n 18) (sextet n 12) CHR ''A'' CHR ''A'' = n"
    using quad_back[OF n(1)] b64_zero[OF n(3)] b64_zero6[OF n(4)] by (simp only: quad_def)
  then show ?case using n by (simp add: b64_sextet Let_def n_def[symmetric])
qed simp

section \<open>Versions\<close>

lemma max_version_bounds:
  "max_version s kind key ids v = Some w \<Longrightarrow> v \<le> w \<and> (\<forall>i \<in> set ids. \<exists>x. doc_version s kind key i = Some x \<and> x \<le> w)
     \<and> (w = v \<or> (\<exists>i \<in> set ids. doc_version s kind key i = Some w))"
proof (induction ids arbitrary: v)
  case (Cons i ids)
  obtain x where x: "doc_version s kind key i = Some x" "max_version s kind key ids (if v < x then x else v) = Some w"
    using Cons.prems by (auto split: option.splits)
  show ?case using Cons.IH[OF x(2)] x(1) by (auto split: if_splits)
qed simp

lemma max_version_some:
  "(\<forall>i \<in> set ids. doc_version s kind key i \<noteq> None) \<Longrightarrow> \<exists>w. max_version s kind key ids v = Some w"
  by (induction ids arbitrary: v) (auto split: option.split)

lemma version_of_iff:
  assumes "version_of s kind key = Some v"
  shows "0 \<le> v" "i \<in> set (store_list s kind) \<Longrightarrow> \<exists>x. doc_version s kind key i = Some x \<and> x \<le> v"
  using max_version_bounds[of s kind key "store_list s kind" 0 v] assms by (auto simp: version_of_def)

text \<open>A new document whose version is above all the others of its key is the newest.\<close>

lemma version_of_put:
  assumes "store_up s" "version_of s kind key = Some v" "json_plain d" "sanitize i \<noteq> []"
    and d: "jstr d ''key'' [] = key" "int_field d ''version'' = Some w" and "v < w"
  shows "version_of (snd (store_put kind i d s)) kind key = Some w"
proof -
  define s1 where "s1 = snd (store_put kind i d s)"
  have g: "doc_version s1 kind key j = (if sanitize j = sanitize i then Some w else doc_version s kind key j)" for j
    using assms by (simp add: doc_version_def s1_def db.get_put)
  have l: "set (store_list s1 kind) = insert (sanitize i) (set (store_list s kind))"
    using list_put[OF assms(1,4)] by (simp add: s1_def)
  have "\<exists>u. version_of s1 kind key = Some u" unfolding version_of_def
    by (rule max_version_some) (use g l version_of_iff(2)[OF assms(2)] in fastforce)
  then obtain u where u: "version_of s1 kind key = Some u" by blast
  note b = max_version_bounds[OF u[unfolded version_of_def]]
  have "w \<le> u" using b l g[of "sanitize i"] by auto
  moreover have "u \<le> w"
  proof (cases "u = 0")
    case True
    then show ?thesis using version_of_iff(1)[OF assms(2)] assms(7) by simp
  next
    case False
    then obtain j where j: "j \<in> set (store_list s1 kind)" "doc_version s1 kind key j = Some u" using b by auto
    show ?thesis
    proof (cases "sanitize j = sanitize i")
      case False
      then have "j \<in> set (store_list s kind)" using j(1) l by auto
      then show ?thesis using version_of_iff(2)[OF assms(2)] j(2) g[of j] False assms(7) by force
    qed (use j(2) g[of j] in simp)
  qed
  ultimately show ?thesis using u by (simp add: s1_def)
qed

lemma int_field_jint: "\<bar>i\<bar> < 2147483648 \<Longrightarrow> mget (jobj d) k = Some (jint i) \<Longrightarrow> int_field d k = Some i"
  by (auto simp: int_field_def jn_def jint_val to_int32_def Let_def abs_less_iff)

lemma hex_nonempty: "sanitize (''art_'' @ x) \<noteq> []" "sanitize (''mdl_'' @ x) \<noteq> []"
  by (simp_all add: sanitize_def)

lemma artifact_plain:
  "pred_option json_plain meta \<Longrightarrow> \<bar>ver\<bar> < 2 ^ 53 \<Longrightarrow> int (length ys) < 2 ^ 53 \<Longrightarrow> json_plain (artifact_doc name mime ys meta ver)"
  unfolding artifact_doc_def Let_def by (rule mkobj_plain) simp

lemma artifact_get:
  "mget (jobj (artifact_doc name mime ys meta ver)) ''version'' = Some (jint ver)"
  "jstr (artifact_doc name mime ys meta ver) ''key'' [] = name"
  "jstr (artifact_doc name mime ys meta ver) ''data'' [] = b64 ys"
  by (simp_all add: artifact_doc_def Let_def mkobj_get jstr_def)

lemma put_artifact_step:
  assumes "store_up s" "version_of s ''artifacts'' name = Some v" "v < 2147483647" "pred_option json_plain meta" "int (length ys) < 2 ^ 53"
  shows "\<exists>s'. put_artifact name mime ys meta s = Some (artifact_id ys, s') \<and> store_up s'
    \<and> version_of s' ''artifacts'' name = Some (v + 1)
    \<and> store_get s' ''artifacts'' (artifact_id ys) = Some (Some (artifact_doc name mime ys meta (v + 1)))"
proof -
  define d where "d = artifact_doc name mime ys meta (v + 1)"
  define s' where "s' = snd (store_put ''artifacts'' (artifact_id ys) d s)"
  have v: "0 \<le> v" using version_of_iff(1)[OF assms(2)] .
  have d: "json_plain d" unfolding d_def by (rule artifact_plain) (use assms v in simp_all)
  have "version_of s' ''artifacts'' name = Some (v + 1)" unfolding s'_def
    by (rule version_of_put[OF assms(1,2) d])
      (use v assms(3) in \<open>simp_all add: d_def artifact_get artifact_id_def hex_nonempty[simplified] int_field_jint\<close>)
  moreover have "put_artifact name mime ys meta s = Some (artifact_id ys, s')"
    using assms(2,3) by (simp add: put_artifact_def inc_int_def s'_def d_def)
  moreover have "store_up s'" "store_get s' ''artifacts'' (artifact_id ys) = Some (Some d)"
    using assms(1) d unfolding s'_def by (simp_all add: store_put_up db.get_put)
  ultimately show ?thesis unfolding d_def by blast
qed

section \<open>The audit log in step with its chain\<close>

text \<open>The chain in memory is the one its log would be replayed to.\<close>

definition audit_ok :: "audit \<Rightarrow> bool" where
  "audit_ok a \<longleftrightarrow> store_up (au_store a) \<and> audit_rebuild (au_store a) = Some (au_chain a)"

lemma log_chain_fold: "log_chain es = fold chain_append (map (\<lambda>e. sha256_str (dump e)) es) chain_new"
  by (simp add: log_chain_def foldl_conv_fold fold_map comp_def)

lemma log_chain_snoc: "log_chain (es @ [e]) = chain_append (sha256_str (dump e)) (log_chain es)"
  by (simp add: log_chain_def)

lemma log_chain_valid: "chain_verify (log_chain es)" "map payload (entries (log_chain es)) = map (\<lambda>e. sha256_str (dump e)) es"
  using ac.rebuild by (simp_all add: log_chain_fold)

lemma audit_doc_plain:
  "int n < 2 ^ 53 \<Longrightarrow> pred_option json_plain pl \<Longrightarrow> json_plain (audit_entry_doc n ty subject user h pl)"
  unfolding audit_entry_doc_def by (rule mkobj_plain) simp

lemma audit_record_step:
  assumes "audit_ok a" "pred_option json_plain pl" "store_read_log (au_store a) ''audit'' = Some es" "int (length es) < 2 ^ 53"
  shows "\<exists>a' e. audit_record ty subject pl user a = Some (head (au_chain a'), a') \<and> audit_ok a'
    \<and> store_read_log (au_store a') ''audit'' = Some (es @ [e]) \<and> jstr e ''prev'' [] = hex (head (au_chain a))"
proof -
  define e where "e = audit_entry_doc (length es) ty subject user (head (au_chain a)) pl"
  define a' where "a' = \<lparr>au_store = snd (store_append ''audit'' e (au_store a)), au_chain = chain_append (sha256_str (dump e)) (au_chain a)\<rparr>"
  have e: "json_plain e" unfolding e_def using audit_doc_plain assms(2,4) by blast
  have up: "store_up (au_store a)" using assms(1) by (simp add: audit_ok_def)
  have l: "store_read_log (au_store a') ''audit'' = Some (es @ [e])" using db.read_app[OF up e] assms(3) by (simp add: a'_def)
  have "au_chain a = log_chain es" using assms(1,3) by (simp add: audit_ok_def audit_rebuild_def)
  then have "audit_ok a'" using l db.app_up[OF up] by (simp add: audit_ok_def audit_rebuild_def log_chain_snoc) (simp add: a'_def)
  moreover have "jstr e ''prev'' [] = hex (head (au_chain a))"
    by (simp add: e_def audit_entry_doc_def jstr_def mkobj_get)
  moreover have "audit_record ty subject pl user a = Some (head (au_chain a'), a')"
    using assms(3) by (simp add: audit_record_def a'_def e_def Let_def)
  ultimately show ?thesis using l by blast
qed

lemma audit_open_ok: "store_up s \<Longrightarrow> audit_open s = Some a \<Longrightarrow> audit_ok a"
  by (auto simp: audit_open_def audit_ok_def)

text \<open>The check rebuilds the chain from the log it checks, so that it cannot fail.\<close>

lemma audit_verify_true: "audit_verify a = Some b \<Longrightarrow> b"
  using log_chain_valid(1) by (auto simp: audit_verify_def audit_rebuild_def)

section \<open>Roles\<close>

lemma user_doc_plain: "json_plain (user_doc u)"
  unfolding user_doc_def by (rule mkobj_plain) (simp add: list_all_iff)

lemma user_doc_get:
  "jhas (user_doc u) ''active''" "jat (user_doc u) ''active'' = JBool (us_active u)" "jstr (user_doc u) ''role'' [] = us_role u"
  by (simp_all add: user_doc_def jhas_def jat_def jstr_def mkobj_get)

lemma created_user:
  assumes "store_up s"
  shows "get_user (snd (create_user u s)) j =
      (if sanitize j = sanitize (user_id u) then Some (Some (user_doc u)) else get_user s j)"
  using db.get_put[OF assms user_doc_plain] by (simp add: get_user_def create_user_def)

lemma created_role:
  assumes "store_up s"
  shows "has_role (snd (create_user u s)) (user_id u) r = Some (us_active u \<and> (us_role u = ''admin'' \<or> us_role u = r))"
    "user_active (snd (create_user u s)) (user_id u) = Some (us_active u)"
  using created_user[OF assms] by (auto simp: has_role_def user_active_def user_doc_get Let_def)

end
