(* ===== verification/Fve_Order.thy ===== *)
theory Fve_Order
  imports Main
begin

text \<open>
  Sorting with a comparison, as \<open>std::sort\<close> is called. Where the comparison leaves elements tied, the
  library does not fix their order; here they stay in place. The facts that hold for a strict weak
  order: the result is a permutation, it is sorted, and it does not depend on the order of the input
  when no two elements are tied.
\<close>

fun ins_lt :: "('a \<Rightarrow> 'a \<Rightarrow> bool) \<Rightarrow> 'a \<Rightarrow> 'a list \<Rightarrow> 'a list" where
  "ins_lt lt x [] = [x]"
| "ins_lt lt x (y # ys) = (if lt y x then y # ins_lt lt x ys else x # y # ys)"

definition sort_lt :: "('a \<Rightarrow> 'a \<Rightarrow> bool) \<Rightarrow> 'a list \<Rightarrow> 'a list" where
  "sort_lt lt xs = foldr (ins_lt lt) xs []"

definition weak_order :: "('a \<Rightarrow> 'a \<Rightarrow> bool) \<Rightarrow> 'a set \<Rightarrow> bool" where
  "weak_order lt A \<longleftrightarrow> (\<forall>x\<in>A. \<forall>y\<in>A. lt x y \<longrightarrow> \<not> lt y x)
     \<and> (\<forall>x\<in>A. \<forall>y\<in>A. \<forall>z\<in>A. \<not> lt y x \<longrightarrow> \<not> lt z y \<longrightarrow> \<not> lt z x)"

lemma weak_asym: "weak_order lt A \<Longrightarrow> x \<in> A \<Longrightarrow> y \<in> A \<Longrightarrow> lt x y \<Longrightarrow> \<not> lt y x"
  unfolding weak_order_def by blast

lemma weak_trans: "weak_order lt A \<Longrightarrow> x \<in> A \<Longrightarrow> y \<in> A \<Longrightarrow> z \<in> A \<Longrightarrow> \<not> lt y x \<Longrightarrow> \<not> lt z y \<Longrightarrow> \<not> lt z x"
  unfolding weak_order_def by blast

lemma set_ins [simp]: "set (ins_lt lt x ys) = insert x (set ys)"
  by (induction ys) auto

lemma length_ins [simp]: "length (ins_lt lt x ys) = Suc (length ys)"
  by (induction ys) auto

lemma sort_lt_simps [simp]: "sort_lt lt [] = []" "sort_lt lt (x # xs) = ins_lt lt x (sort_lt lt xs)"
  by (simp_all add: sort_lt_def)

lemma set_sort [simp]: "set (sort_lt lt xs) = set xs"
  by (induction xs) auto

lemma length_sort [simp]: "length (sort_lt lt xs) = length xs"
  by (induction xs) auto

lemma distinct_ins: "distinct (ins_lt lt x ys) \<longleftrightarrow> x \<notin> set ys \<and> distinct ys"
  by (induction ys) auto

lemma distinct_sort [simp]: "distinct (sort_lt lt xs) = distinct xs"
  by (induction xs) (auto simp: distinct_ins)

lemma sorted_ins:
  assumes "weak_order lt A" "x \<in> A" "set ys \<subseteq> A" "sorted_wrt (\<lambda>a b. \<not> lt b a) ys"
  shows "sorted_wrt (\<lambda>a b. \<not> lt b a) (ins_lt lt x ys)"
  using assms(3,4)
proof (induction ys)
  case (Cons y ys)
  show ?case
  proof (cases "lt y x")
    case True
    then have "\<not> lt x y" using weak_asym[OF assms(1), of y x] assms(2) Cons.prems(1) by simp
    then show ?thesis using Cons True by auto
  next
    case False
    have "\<not> lt z x" if "z \<in> set ys" for z
    proof -
      have "x \<in> A" "y \<in> A" "z \<in> A" "\<not> lt z y" using assms(2) Cons.prems that by auto
      then show ?thesis using weak_trans[OF assms(1)] False by blast
    qed
    then show ?thesis using Cons.prems False by auto
  qed
qed simp

lemma sorted_sort: "weak_order lt (set xs) \<Longrightarrow> sorted_wrt (\<lambda>a b. \<not> lt b a) (sort_lt lt xs)"
proof -
  have "set ys \<subseteq> set xs \<Longrightarrow> weak_order lt (set xs) \<Longrightarrow> sorted_wrt (\<lambda>a b. \<not> lt b a) (sort_lt lt ys)" for ys
  proof (induction ys)
    case (Cons y ys)
    then show ?case using sorted_ins[OF Cons.prems(2), of y "sort_lt lt ys"] by simp
  qed simp
  then show "weak_order lt (set xs) \<Longrightarrow> ?thesis" by simp
qed

text \<open>No element precedes the first one.\<close>

lemma sort_hd:
  assumes "weak_order lt (set xs)" "y \<in> set xs"
  shows "\<not> lt y (hd (sort_lt lt xs))"
proof (cases "sort_lt lt xs")
  case Nil
  then show ?thesis using assms(2) set_sort[of lt xs] by simp
next
  case (Cons z zs)
  have z: "z \<in> set xs" "y = z \<or> y \<in> set zs" using assms(2) set_sort[of lt xs] Cons by auto
  have "\<not> lt z z" using weak_asym[OF assms(1) z(1) z(1)] by blast
  then show ?thesis using z(2) sorted_sort[OF assms(1)] by (auto simp: Cons)
qed

lemma weak_order_subset: "weak_order lt A \<Longrightarrow> B \<subseteq> A \<Longrightarrow> weak_order lt B"
  unfolding weak_order_def by blast

text \<open>Comparing by a key in a linear order.\<close>

lemma weak_order_key: "weak_order (\<lambda>x y. (f x :: 'b::linorder) < f y) A" "weak_order (\<lambda>x y. (f x :: 'b::linorder) > f y) A"
  by (auto simp: weak_order_def)

text \<open>One comparison after another.\<close>

definition lex_lt :: "('a \<Rightarrow> 'a \<Rightarrow> bool) \<Rightarrow> ('a \<Rightarrow> 'a \<Rightarrow> bool) \<Rightarrow> 'a \<Rightarrow> 'a \<Rightarrow> bool" where
  "lex_lt l1 l2 x y = (if l1 x y \<or> l1 y x then l1 x y else l2 x y)"

lemma weak_lex:
  assumes "weak_order l1 A" "weak_order l2 A"
  shows "weak_order (lex_lt l1 l2) A"
  unfolding weak_order_def
proof (intro conjI ballI impI)
  fix x y assume "x \<in> A" "y \<in> A" "lex_lt l1 l2 x y"
  then show "\<not> lex_lt l1 l2 y x"
    using weak_asym[OF assms(1), of x y] weak_asym[OF assms(2), of x y] by (cases "l1 x y"; cases "l1 y x") (simp_all add: lex_lt_def)
next
  fix x y z assume a: "x \<in> A" "y \<in> A" "z \<in> A" "\<not> lex_lt l1 l2 y x" "\<not> lex_lt l1 l2 z y"
  have t: "\<not> l1 b a \<Longrightarrow> \<not> l1 c b \<Longrightarrow> \<not> l1 c a" if "a \<in> {x, y, z}" "b \<in> {x, y, z}" "c \<in> {x, y, z}" for a b c
    using weak_trans[OF assms(1), of a b c] that a(1-3) by auto
  have u: "\<not> l2 y x \<Longrightarrow> \<not> l2 z y \<Longrightarrow> \<not> l2 z x" using weak_trans[OF assms(2)] a(1-3) by blast
  have xy: "\<not> l1 y x" "l1 x y \<or> \<not> l2 y x" and yz: "\<not> l1 z y" "l1 y z \<or> \<not> l2 z y"
    using a(4,5) weak_asym[OF assms(1) a(2,1)] weak_asym[OF assms(1) a(3,2)] by (auto simp: lex_lt_def split: if_splits)
  have zx: "\<not> l1 z x" using t[of x y z] xy yz by simp
  show "\<not> lex_lt l1 l2 z x"
  proof (cases "l1 x z")
    case True
    then show ?thesis using zx by (simp add: lex_lt_def)
  next
    case False
    then have "\<not> l1 x y" "\<not> l1 y z" using t[of y z x] t[of z x y] xy yz by auto
    then show ?thesis using u xy yz False zx by (simp add: lex_lt_def)
  qed
qed

lemma weak_order_cong:
  assumes "weak_order lt A" "\<And>x y. x \<in> A \<Longrightarrow> y \<in> A \<Longrightarrow> lt' x y = lt x y"
  shows "weak_order lt' A"
  unfolding weak_order_def
proof (intro conjI ballI impI)
  fix x y assume "x \<in> A" "y \<in> A" "lt' x y"
  then show "\<not> lt' y x" using weak_asym[OF assms(1), of x y] assms(2)[of x y] assms(2)[of y x] by simp
next
  fix x y z assume "x \<in> A" "y \<in> A" "z \<in> A" "\<not> lt' y x" "\<not> lt' z y"
  then show "\<not> lt' z x" using weak_trans[OF assms(1), of x y z] assms(2)[of y x] assms(2)[of z y] assms(2)[of z x] by simp
qed

lemma weak_order_image: "weak_order lt (f ` A) \<Longrightarrow> weak_order (\<lambda>a b. lt (f a) (f b)) A"
  by (simp only: weak_order_def ball_simps)

end
