(* ===== verification/Fve_Cases.thy ===== *)
theory Fve_Cases
  imports Fve_Records Fve_Proof Fve_Order
begin

text \<open>
  The case base (\<open>casebase/casebase\<close>): boxes with their verdicts, proposed and approved fixes, the
  search for a near case with a resolved fix, and the transfer of a fix to another program, which is
  verified again before it is offered. \<open>None\<close> is an exception, and in a transfer an evaluation that
  reads outside a vector. \<open>snprintf\<close> cuts its text to the buffer.
\<close>

section \<open>Boxes as text and as documents\<close>

definition c_lit :: "real \<Rightarrow> double" where
  "c_lit q = fround RNear q"

definition cstr :: "string \<Rightarrow> string" where
  "cstr s = takeWhile (\<lambda>c. c \<noteq> CHR 0x00) s"

text \<open>Each entry goes through a buffer that holds \<open>k\<close> characters and prints \<open>P\<close> digits.\<close>

definition entry_text :: "nat \<Rightarrow> nat \<Rightarrow> string \<times> ival \<Rightarrow> string" where
  "entry_text k P e =
     take k (cstr (fst e) @ '':'' @ fmt_g P (lo (snd e)) @ '','' @ fmt_g P (hi (snd e)) @ '';'')"

definition canon_box :: "box \<Rightarrow> string" where
  "canon_box b = concat (map (entry_text 63 9) b)"

definition box_json :: "box \<Rightarrow> json" where
  "box_json b = mkobj (map (\<lambda>e. (fst e, JArr [JNum (lo (snd e)), JNum (hi (snd e))])) b)"

definition json_box :: "json \<Rightarrow> box" where
  "json_box j =
     foldl (\<lambda>b e. case jarr (snd e) of [x, y] \<Rightarrow> mput (fst e) (Ival (jnum x) (jnum y)) b | _ \<Rightarrow> b) [] (jobj j)"

section \<open>The distance of two boxes\<close>

definition dist_denom :: "ival \<Rightarrow> ival \<Rightarrow> double" where
  "dist_denom a b =
     foldl std_max (width a) [width b, fmul RNear (fabs (mid a)) (c_lit (1 / 100)), c_lit (1 / 10 ^ 9)]"

definition dist_term :: "ival \<Rightarrow> ival \<Rightarrow> double" where
  "dist_term a b = fdiv RNear (fsub RNear (mid a) (mid b)) (dist_denom a b)"

fun dist_sum :: "box \<Rightarrow> box \<Rightarrow> double \<times> nat \<Rightarrow> double \<times> nat" where
  "dist_sum [] b acc = acc"
| "dist_sum ((k, i) # a) b acc =
     (case mget b k of
        None \<Rightarrow> dist_sum a b acc
      | Some j \<Rightarrow> (let t = dist_term i j in dist_sum a b (fadd RNear (fst acc) (fmul RNear t t), snd acc + 1)))"

definition case_distance :: "box \<Rightarrow> box \<Rightarrow> double" where
  "case_distance a b =
     (let (s, n) = dist_sum a b (Fin 0, 0)
      in if n = 0 then c_lit (10 ^ 9) else fdiv RNear (fsqrt RNear s) (fsqrt RNear (fround RNear (real n))))"

section \<open>Recording\<close>

record fve_case =
  ca_id :: string
  ca_prog :: string
  ca_artifact :: string
  ca_box :: box
  ca_norm :: "(string, double) omap"
  ca_verdict :: verdict
  ca_cs :: double
  ca_cert :: string

definition case_none :: fve_case where
  "case_none = \<lparr>ca_id = [], ca_prog = [], ca_artifact = [], ca_box = [], ca_norm = [], ca_verdict = Abstain, ca_cs = Fin 0, ca_cert = []\<rparr>"

record fve_fix =
  fx_id :: string
  fx_text :: string
  fx_patch :: box

definition case_id :: "string \<Rightarrow> box \<Rightarrow> string" where
  "case_id ph b = ''case_'' @ take 24 (hex (sha256_str (ph @ ''|'' @ canon_box b)))"

definition record_id :: "fve_case \<Rightarrow> string" where
  "record_id c = (if ca_id c = [] then case_id (ca_prog c) (ca_box c) else ca_id c)"

definition record_case :: "fve_case \<Rightarrow> store \<Rightarrow> string \<times> store" where
  "record_case c s =
     (let d = mkobj [(''id'', JStr (record_id c)), (''program_hash'', JStr (ca_prog c)), (''artifact_id'', JStr (ca_artifact c)),
                (''box'', box_json (ca_box c)), (''box_norm'', mkobj (map (\<lambda>e. (fst e, JNum (mid (snd e)))) (ca_box c))),
                (''verdict'', JStr (verdict_name (ca_verdict c))), (''cs'', JNum (ca_cs c)), (''cert_hash'', JStr (ca_cert c))]
      in (record_id c, snd (store_put ''cases'' (record_id c) d s)))"

definition fix_doc :: "fve_fix \<Rightarrow> json" where
  "fix_doc f =
     mkobj [(''id'', JStr (fx_id f)), (''description'', JStr (fx_text f)), (''patch'', box_json (fx_patch f)), (''status'', JStr ''proposed'')]"

definition record_fix :: "fve_fix \<Rightarrow> store \<Rightarrow> store" where
  "record_fix f s = snd (store_put ''fixes'' (fx_id f) (fix_doc f) s)"

text \<open>Only an object shows the members that are set here.\<close>

definition jset :: "string \<Rightarrow> json \<Rightarrow> json \<Rightarrow> json" where
  "jset k v j = (case j of JObj m \<Rightarrow> JObj (mput k v m) | _ \<Rightarrow> j)"

definition approve_fix :: "string \<Rightarrow> string \<Rightarrow> store \<Rightarrow> store option" where
  "approve_fix i approver s =
     (case store_get s ''fixes'' i of
        None \<Rightarrow> None
      | Some None \<Rightarrow> Some s
      | Some (Some f) \<Rightarrow>
          Some (snd (store_put ''fixes'' i (jset ''approved_by'' (JStr approver) (jset ''status'' (JStr ''approved'') f)) s)))"

definition record_outcome :: "string \<Rightarrow> string \<Rightarrow> string \<Rightarrow> string \<Rightarrow> store \<Rightarrow> store" where
  "record_outcome c f outcome cert s =
     snd (store_put ''case_fix_links'' (c @ ''__'' @ f)
       (mkobj [(''case_id'', JStr c), (''fix_id'', JStr f), (''outcome'', JStr outcome), (''verified_cert'', JStr cert)]) s)"

section \<open>The search\<close>

record case_match =
  cm_ref :: fve_case
  cm_dist :: double
  cm_fix :: fve_fix
  cm_verified :: bool
  cm_cert :: "certificate option"

text \<open>The first approved fix that a link of the case calls resolved.\<close>

fun find_fix :: "store \<Rightarrow> string \<Rightarrow> string list \<Rightarrow> fve_fix option option" where
  "find_fix s c [] = Some None"
| "find_fix s c (l # ls) =
     Option.bind (store_get s ''case_fix_links'' l) (\<lambda>lk. case lk of
        None \<Rightarrow> find_fix s c ls
      | Some k \<Rightarrow>
          if jstr k ''case_id'' [] \<noteq> c \<or> jstr k ''outcome'' [] \<noteq> ''resolved'' then find_fix s c ls
          else Option.bind (store_get s ''fixes'' (jstr k ''fix_id'' [])) (\<lambda>fo. case fo of
              None \<Rightarrow> find_fix s c ls
            | Some f \<Rightarrow>
                if jstr f ''status'' [] \<noteq> ''approved'' then find_fix s c ls
                else Some (Some \<lparr>fx_id = jstr f ''id'' [], fx_text = jstr f ''description'' [], fx_patch = json_box (jat f ''patch'')\<rparr>)))"

definition match_case :: "store \<Rightarrow> string \<Rightarrow> box \<Rightarrow> double \<Rightarrow> string \<Rightarrow> case_match option option" where
  "match_case s ph b delta i =
     Option.bind (store_get s ''cases'' i) (\<lambda>co. case co of
        None \<Rightarrow> Some None
      | Some c \<Rightarrow>
          if jstr c ''program_hash'' [] \<noteq> ph then Some None
          else let cb = json_box (jat c ''box''); d = case_distance b cb
               in if fle delta d then Some None
                  else map_option (map_option (\<lambda>f. \<lparr>cm_ref = case_none\<lparr>ca_id := i, ca_prog := ph, ca_box := cb, ca_cert := jstr c ''cert_hash'' []\<rparr>,
                         cm_dist = d, cm_fix = f, cm_verified = False, cm_cert = None\<rparr>))
                       (find_fix s i (store_list s ''case_fix_links'')))"

fun matches :: "store \<Rightarrow> string \<Rightarrow> box \<Rightarrow> double \<Rightarrow> string list \<Rightarrow> case_match list option" where
  "matches s ph b delta [] = Some []"
| "matches s ph b delta (i # ids) =
     Option.bind (match_case s ph b delta i) (\<lambda>m.
       map_option (\<lambda>hs. case m of Some h \<Rightarrow> h # hs | None \<Rightarrow> hs) (matches s ph b delta ids))"

definition nearer :: "case_match \<Rightarrow> case_match \<Rightarrow> bool" where
  "nearer a b = flt (cm_dist a) (cm_dist b)"

text \<open>A negative limit makes \<open>resize\<close> throw.\<close>

definition query :: "store \<Rightarrow> string \<Rightarrow> box \<Rightarrow> double \<Rightarrow> int \<Rightarrow> case_match list option" where
  "query s ph b delta top_k =
     Option.bind (matches s ph b delta (store_list s ''cases'')) (\<lambda>hits.
       let hits = sort_lt nearer hits
       in if top_k < int (length hits) then (if top_k < 0 then None else Some (take (nat top_k) hits)) else Some hits)"

section \<open>The transfer\<close>

definition patched :: "prog \<Rightarrow> fve_fix \<Rightarrow> prog" where
  "patched p f = p\<lparr>p_box := foldl (\<lambda>b e. mput (fst e) (snd e) b) (p_box p) (fx_patch f)\<rparr>"

definition try_transfer :: "libm \<Rightarrow> prog \<Rightarrow> case_match \<Rightarrow> case_match option option" where
  "try_transfer L p m =
     (let q = patched p (cm_fix m)
      in case eval L q of
           None \<Rightarrow> None
         | Some r \<Rightarrow>
             (let cert = build_cert q r ''case_transfer''
              in if \<not> validate cert then Some None
                 else if decide_eval r \<noteq> Safe then Some None
                 else Some (Some (m\<lparr>cm_verified := True, cm_cert := Some cert\<rparr>))))"

section \<open>What the search returns\<close>

text \<open>A fix the change control admits for a case: approved, and linked as resolved.\<close>

definition admitted :: "store \<Rightarrow> string \<Rightarrow> fve_fix \<Rightarrow> bool" where
  "admitted s c f \<longleftrightarrow> (\<exists>l \<in> set (store_list s ''case_fix_links''). \<exists>k j. store_get s ''case_fix_links'' l = Some (Some k)
     \<and> jstr k ''case_id'' [] = c \<and> jstr k ''outcome'' [] = ''resolved''
     \<and> store_get s ''fixes'' (jstr k ''fix_id'' []) = Some (Some j) \<and> jstr j ''status'' [] = ''approved''
     \<and> fx_id f = jstr j ''id'' [] \<and> fx_patch f = json_box (jat j ''patch''))"

lemma find_fix_admitted:
  "find_fix s c ls = Some (Some f) \<Longrightarrow> set ls \<subseteq> set (store_list s ''case_fix_links'') \<Longrightarrow> admitted s c f"
proof (induction ls)
  case (Cons l ls)
  obtain lk where lk: "store_get s ''case_fix_links'' l = Some lk" using Cons.prems(1) by (auto simp: Option.bind_eq_Some_conv)
  show ?case
  proof (cases "find_fix s c ls = Some (Some f)")
    case False
    then obtain k j where k: "lk = Some k" "jstr k ''case_id'' [] = c" "jstr k ''outcome'' [] = ''resolved''"
        "store_get s ''fixes'' (jstr k ''fix_id'' []) = Some (Some j)" "jstr j ''status'' [] = ''approved''"
        "f = \<lparr>fx_id = jstr j ''id'' [], fx_text = jstr j ''description'' [], fx_patch = json_box (jat j ''patch'')\<rparr>"
      using Cons.prems(1) lk by (auto simp: Option.bind_eq_Some_conv split: option.splits if_splits)
    then show ?thesis using Cons.prems(2) lk by (auto simp: admitted_def)
  qed (use Cons in simp)
qed simp

definition good_match :: "store \<Rightarrow> string \<Rightarrow> box \<Rightarrow> double \<Rightarrow> case_match \<Rightarrow> bool" where
  "good_match s ph b delta m \<longleftrightarrow> ca_prog (cm_ref m) = ph \<and> cm_dist m = case_distance b (ca_box (cm_ref m))
     \<and> (flt (cm_dist m) delta \<or> cm_dist m = NaN \<or> delta = NaN) \<and> admitted s (ca_id (cm_ref m)) (cm_fix m) \<and> \<not> cm_verified m
     \<and> (\<exists>c. store_get s ''cases'' (ca_id (cm_ref m)) = Some (Some c) \<and> jstr c ''program_hash'' [] = ph)"

lemma match_case_good:
  assumes "match_case s ph b delta i = Some (Some m)"
  shows "good_match s ph b delta m"
proof -
  obtain co where co: "store_get s ''cases'' i = Some co" using assms by (auto simp: match_case_def Option.bind_eq_Some_conv)
  then obtain c where c: "co = Some c" using assms by (cases co) (auto simp: match_case_def)
  define cb where "cb = json_box (jat c ''box'')"
  have d: "jstr c ''program_hash'' [] = ph" "\<not> fle delta (case_distance b cb)"
    using assms co c by (auto simp: match_case_def cb_def Let_def split: if_splits)
  obtain f where f: "find_fix s i (store_list s ''case_fix_links'') = Some (Some f)"
      "m = \<lparr>cm_ref = case_none\<lparr>ca_id := i, ca_prog := ph, ca_box := cb, ca_cert := jstr c ''cert_hash'' []\<rparr>,
         cm_dist = case_distance b cb, cm_fix = f, cm_verified = False, cm_cert = None\<rparr>"
    using assms co c d by (auto simp: match_case_def cb_def Let_def)
  have "admitted s i f" using find_fix_admitted[OF f(1)] by simp
  moreover have "flt (case_distance b cb) delta \<or> case_distance b cb = NaN \<or> delta = NaN"
    using d(2) by (cases "case_distance b cb"; cases delta) auto
  ultimately show ?thesis using d co c f(2) by (simp add: good_match_def)
qed

lemma matches_good: "matches s ph b delta ids = Some hs \<Longrightarrow> list_all (good_match s ph b delta) hs"
  by (induction ids arbitrary: hs) (auto simp: Option.bind_eq_Some_conv match_case_good split: option.splits)

lemma nearer_order: "(\<And>m. m \<in> A \<Longrightarrow> is_fin (cm_dist m)) \<Longrightarrow> weak_order nearer A"
  by (auto simp: weak_order_def nearer_def flt_fin)

lemma query_good:
  assumes "query s ph b delta k = Some hs"
  shows "list_all (good_match s ph b delta) hs" "0 \<le> k \<Longrightarrow> int (length hs) \<le> k"
proof -
  obtain hits where h: "matches s ph b delta (store_list s ''cases'') = Some hits"
      "hs = (if k < int (length hits) then take (nat k) (sort_lt nearer hits) else sort_lt nearer hits)"
    using assms by (cases "matches s ph b delta (store_list s ''cases'')") (auto simp: query_def Let_def split: if_splits)
  have "list_all (good_match s ph b delta) (sort_lt nearer hits)" using matches_good[OF h(1)] by (simp add: list_all_iff)
  then show "list_all (good_match s ph b delta) hs" using h(2) by (auto simp: list_all_iff dest: in_set_takeD)
  show "0 \<le> k \<Longrightarrow> int (length hs) \<le> k" using h(2) by auto
qed

section \<open>What a transfer is worth\<close>

lemma transfer_result:
  assumes "try_transfer L p m = Some (Some m')"
  shows "\<exists>r cert. eval L (patched p (cm_fix m)) = Some r \<and> decide_eval r = Safe \<and> cm_cert m' = Some cert
    \<and> cert = build_cert (patched p (cm_fix m)) r ''case_transfer'' \<and> validate cert \<and> cm_verified m' \<and> cm_fix m' = cm_fix m"
  using assms by (auto simp: try_transfer_def Let_def split: option.splits if_splits)

lemma transfer_real:
  assumes "libm_ok L" "prog_rigorous L (patched p (cm_fix m))" "prog_value (patched p (cm_fix m)) \<rho> H y"
    and "try_transfer L p m = Some (Some m')"
  shows "0 < y"
proof -
  obtain r where r: "eval L (patched p (cm_fix m)) = Some r" "decide_eval r = Safe" using transfer_result[OF assms(4)] by blast
  have i: "imem y (ms r)" using eval_encloses[OF assms(1-3) r(1)] .
  have "decide (lo (ms r)) (hi (ms r)) (residual r) = Safe" using r(2) by (simp add: decide_eval_def split: if_splits)
  then have "0 \<le> fval (residual r)" by (rule decide_safe)
  then show ?thesis using decide_eval_sound(1)[OF i _ r(2), of y] by simp
qed

text \<open>The second test is implied by the first: a SAFE certificate always validates.\<close>

lemma transfer_iff:
  "(\<exists>m'. try_transfer L p m = Some (Some m')) \<longleftrightarrow> (\<exists>r. eval L (patched p (cm_fix m)) = Some r \<and> decide_eval r = Safe)"
  using validate_build by (auto simp: try_transfer_def Let_def split: option.splits if_splits)

end
