(* ===== verification/Fve_Cache.thy ===== *)
theory Fve_Cache
  imports Fve_Cases
begin

text \<open>
  The evaluation cache and the difference of two programs (\<open>platform/incremental\<close>). The cache is a map
  from keys to slots and a list of the keys, the most recently used first; the clock is an argument
  and the lock is left out, since every operation holds it from beginning to end. The abstract cache is
  the one list of keys and slots in order of use, cut to the limit.
\<close>

section \<open>Keys\<close>

definition box_fingerprint :: "box \<Rightarrow> string" where
  "box_fingerprint b = hex (sha256_str (concat (map (entry_text 79 12) b)))"

definition key_of :: "string \<Rightarrow> box \<Rightarrow> string" where
  "key_of ph b = ph @ '':'' @ box_fingerprint b"

section \<open>The cache\<close>

record cache_entry =
  ce_result :: eval_result
  ce_cert :: certificate
  ce_at :: int

record cache_slot =
  cl_entry :: cache_entry
  cl_prog :: string
  cl_syms :: "string list"

record eval_cache =
  ec_map :: "(string, cache_slot) omap"
  ec_lru :: "string list"
  ec_limit :: nat

definition cache_new :: eval_cache where
  "cache_new = \<lparr>ec_map = [], ec_lru = [], ec_limit = 10000\<rparr>"

definition cache_get :: "string \<Rightarrow> box \<Rightarrow> eval_cache \<Rightarrow> cache_entry option \<times> eval_cache" where
  "cache_get ph b c =
     (let k = key_of ph b
      in case mget (ec_map c) k of
           None \<Rightarrow> (None, c)
         | Some s \<Rightarrow> (Some (cl_entry s), c\<lparr>ec_lru := k # removeAll k (ec_lru c)\<rparr>))"

text \<open>The loop that drops the last key while there are too many entries.\<close>

function evict :: "eval_cache \<Rightarrow> eval_cache" where
  "evict c =
     (if ec_limit c < length (ec_map c) \<and> ec_lru c \<noteq> []
      then evict (c\<lparr>ec_map := mdel (last (ec_lru c)) (ec_map c), ec_lru := butlast (ec_lru c)\<rparr>)
      else c)"
  by pat_completeness auto
termination by (relation "measure (\<lambda>c. length (ec_lru c))") auto

declare evict.simps [simp del]

definition cache_put :: "int \<Rightarrow> string \<Rightarrow> box \<Rightarrow> eval_result \<Rightarrow> certificate \<Rightarrow> eval_cache \<Rightarrow> eval_cache" where
  "cache_put now ph b r cert c =
     (let k = key_of ph b;
          s = \<lparr>cl_entry = \<lparr>ce_result = r, ce_cert = cert, ce_at = now\<rparr>, cl_prog = ph, cl_syms = map fst b\<rparr>;
          lru = (if mget (ec_map c) k = None then k # ec_lru c else k # removeAll k (ec_lru c))
      in evict (c\<lparr>ec_map := mput k s (ec_map c), ec_lru := lru\<rparr>))"

text \<open>The loop of both invalidations: every entry whose slot matches is dropped, with its key.\<close>

fun drop_slots :: "(cache_slot \<Rightarrow> bool) \<Rightarrow> (string, cache_slot) omap \<Rightarrow> string list \<Rightarrow> (string, cache_slot) omap \<times> string list" where
  "drop_slots P [] lru = ([], lru)"
| "drop_slots P ((k, s) # m) lru =
     (if P s then drop_slots P m (removeAll k lru) else (let (m', lru') = drop_slots P m lru in ((k, s) # m', lru')))"

definition invalidate :: "string \<Rightarrow> eval_cache \<Rightarrow> eval_cache" where
  "invalidate ph c =
     (let (m, lru) = drop_slots (\<lambda>s. cl_prog s = ph) (ec_map c) (ec_lru c) in c\<lparr>ec_map := m, ec_lru := lru\<rparr>)"

definition invalidate_sym :: "string \<Rightarrow> eval_cache \<Rightarrow> eval_cache" where
  "invalidate_sym x c =
     (let (m, lru) = drop_slots (\<lambda>s. x \<in> set (cl_syms s)) (ec_map c) (ec_lru c) in c\<lparr>ec_map := m, ec_lru := lru\<rparr>)"

definition cache_size :: "eval_cache \<Rightarrow> nat" where
  "cache_size c = length (ec_map c)"

definition set_limit :: "nat \<Rightarrow> eval_cache \<Rightarrow> eval_cache" where
  "set_limit n c = evict (c\<lparr>ec_limit := n\<rparr>)"

section \<open>The difference of two programs\<close>

text \<open>The hashes of the nodes and the names of the holes, as sets.\<close>

function node_sets :: "node \<Rightarrow> string set \<times> string set \<Rightarrow> string set \<times> string set" where
  "node_sets n (hs, qs) =
     (let a = (insert (hex (n_hash n)) hs, if n_kind n = KHole then insert (n_hole n) qs else qs);
          b = foldl (\<lambda>x k. node_sets k x) a (n_args n)
      in foldl (\<lambda>x k. node_sets k x) b (n_cands n))"
  by pat_completeness auto
termination
  by (relation "measure (\<lambda>(n, _). size n)") (auto intro: node_child_size)

record program_diff =
  pd_changed :: "string list"
  pd_unchanged :: "string list"
  pd_new_holes :: "string list"
  pd_closed_holes :: "string list"
  pd_structure :: bool

definition root_text :: "node option \<Rightarrow> string" where
  "root_text n = (case n of Some r \<Rightarrow> hex (n_hash r) | None \<Rightarrow> [])"

definition opt_sets :: "node option \<Rightarrow> string set \<times> string set" where
  "opt_sets n = (case n of Some r \<Rightarrow> node_sets r ({}, {}) | None \<Rightarrow> ({}, {}))"

text \<open>The loops visit the sets in ascending order.\<close>

definition diff_programs :: "node option \<Rightarrow> node option \<Rightarrow> program_diff" where
  "diff_programs old new =
     (let (ho, qo) = opt_sets old; (hn, qn) = opt_sets new
      in \<lparr>pd_changed = filter (\<lambda>h. h \<notin> ho) (sorted_list_of_set hn), pd_unchanged = filter (\<lambda>h. h \<in> ho) (sorted_list_of_set hn),
          pd_new_holes = filter (\<lambda>h. h \<notin> qo) (sorted_list_of_set qn), pd_closed_holes = filter (\<lambda>h. h \<notin> qn) (sorted_list_of_set qo),
          pd_structure = (root_text old \<noteq> root_text new)\<rparr>)"


section \<open>The invariant\<close>

text \<open>The list holds the keys of the map, each once.\<close>

definition cache_keys_ok :: "eval_cache \<Rightarrow> bool" where
  "cache_keys_ok c \<longleftrightarrow> mwf (ec_map c) \<and> distinct (ec_lru c) \<and> set (ec_lru c) = fst ` set (ec_map c)"

definition cache_ok :: "eval_cache \<Rightarrow> bool" where
  "cache_ok c \<longleftrightarrow> cache_keys_ok c \<and> length (ec_map c) \<le> ec_limit c"

lemma keys_length: "cache_keys_ok c \<Longrightarrow> length (ec_map c) = length (ec_lru c)"
proof -
  assume a: "cache_keys_ok c"
  have "length (ec_lru c) = card (set (ec_lru c))" using a unfolding cache_keys_ok_def by (metis distinct_card)
  also have "\<dots> = card (set (map fst (ec_map c)))" using a by (simp add: cache_keys_ok_def)
  also have "\<dots> = length (map fst (ec_map c))" using a mwf_distinct distinct_card unfolding cache_keys_ok_def by blast
  finally show ?thesis by simp
qed

lemma key_in: "cache_keys_ok c \<Longrightarrow> k \<in> set (ec_lru c) \<longleftrightarrow> mget (ec_map c) k \<noteq> None"
  using mget_None_iff[of "ec_map c" k] by (simp add: cache_keys_ok_def)

lemma keys_mdel: "fst ` set (mdel k m) = fst ` set m - {k}"
  by (auto simp: mdel_def)

text \<open>The abstract cache: the slots in the order of their last use.\<close>

definition abs_cache :: "eval_cache \<Rightarrow> (string \<times> cache_slot) list" where
  "abs_cache c = map (\<lambda>k. (k, the (mget (ec_map c) k))) (ec_lru c)"

lemma abs_find: "cache_keys_ok c \<Longrightarrow> map_of (abs_cache c) k = mget (ec_map c) k"
proof -
  assume a: "cache_keys_ok c"
  have "map_of (map (\<lambda>k. (k, the (mget m k))) ks) k = (if k \<in> set ks then Some (the (mget m k)) else None)"
    for ks and m :: "(string, cache_slot) omap"
    by (induction ks) auto
  then show ?thesis using key_in[OF a, of k] by (auto simp: abs_cache_def)
qed

lemma abs_length: "length (abs_cache c) = length (ec_lru c)"
  by (simp add: abs_cache_def)

section \<open>The operations on the abstract cache\<close>

lemma evict_step:
  assumes "cache_keys_ok c" "ec_lru c \<noteq> []"
  shows "cache_keys_ok (c\<lparr>ec_map := mdel (last (ec_lru c)) (ec_map c), ec_lru := butlast (ec_lru c)\<rparr>)"
    "abs_cache (c\<lparr>ec_map := mdel (last (ec_lru c)) (ec_map c), ec_lru := butlast (ec_lru c)\<rparr>) = butlast (abs_cache c)"
proof -
  obtain ks k where ks: "ec_lru c = ks @ [k]" using assms(2) by (cases "ec_lru c" rule: rev_cases) auto
  have k: "k \<notin> set ks" "insert k (set ks) = fst ` set (ec_map c)" using assms(1) by (auto simp: cache_keys_ok_def ks)
  show "cache_keys_ok (c\<lparr>ec_map := mdel (last (ec_lru c)) (ec_map c), ec_lru := butlast (ec_lru c)\<rparr>)"
    using assms(1) k by (auto simp: cache_keys_ok_def ks keys_mdel mwf_mdel)
  show "abs_cache (c\<lparr>ec_map := mdel (last (ec_lru c)) (ec_map c), ec_lru := butlast (ec_lru c)\<rparr>) = butlast (abs_cache c)"
    using k(1) by (auto simp: abs_cache_def ks mget_mdel)
qed

lemma evict_abs:
  "cache_keys_ok c \<Longrightarrow> cache_ok (evict c) \<and> abs_cache (evict c) = take (ec_limit c) (abs_cache c) \<and> ec_limit (evict c) = ec_limit c"
proof (induction c rule: evict.induct)
  case (1 c)
  note len = keys_length[OF 1(2)]
  show ?case
  proof (cases "ec_limit c < length (ec_map c) \<and> ec_lru c \<noteq> []")
    case True
    define d where "d = c\<lparr>ec_map := mdel (last (ec_lru c)) (ec_map c), ec_lru := butlast (ec_lru c)\<rparr>"
    have d: "cache_keys_ok d" "abs_cache d = butlast (abs_cache c)" "ec_limit d = ec_limit c"
      using evict_step[OF 1(2)] True by (simp_all add: d_def)
    have "take (ec_limit c) (butlast (abs_cache c)) = take (ec_limit c) (abs_cache c)"
      using True len by (intro take_butlast) (simp add: abs_length)
    moreover have "evict c = evict d" using True by (simp add: evict.simps[of c] d_def)
    ultimately show ?thesis using 1(1)[OF True] d unfolding d_def[symmetric] by simp
  next
    case False
    then have "length (ec_map c) \<le> ec_limit c" using len by auto
    moreover have "evict c = c" using False by (subst evict.simps) auto
    ultimately show ?thesis using 1(2) len by (simp add: cache_ok_def abs_length)
  qed
qed

definition touch :: "string \<Rightarrow> cache_slot \<Rightarrow> (string \<times> cache_slot) list \<Rightarrow> (string \<times> cache_slot) list" where
  "touch k s xs = (k, s) # filter (\<lambda>p. fst p \<noteq> k) xs"

lemma abs_remove:
  "map (\<lambda>j. (j, the (mget m j))) (removeAll k ks) = filter (\<lambda>p. fst p \<noteq> k) (map (\<lambda>j. (j, the (mget m j))) ks)"
  by (induction ks) auto

lemma get_abs:
  assumes "cache_ok c"
  shows "fst (cache_get ph b c) = map_option cl_entry (map_of (abs_cache c) (key_of ph b))"
    "abs_cache (snd (cache_get ph b c)) = (case map_of (abs_cache c) (key_of ph b) of None \<Rightarrow> abs_cache c | Some s \<Rightarrow> touch (key_of ph b) s (abs_cache c))"
    "cache_ok (snd (cache_get ph b c))"
proof -
  have k: "cache_keys_ok c" using assms by (simp add: cache_ok_def)
  note f = abs_find[OF k, of "key_of ph b"]
  show "fst (cache_get ph b c) = map_option cl_entry (map_of (abs_cache c) (key_of ph b))"
    by (auto simp: f cache_get_def Let_def split: option.split)
  show "abs_cache (snd (cache_get ph b c)) = (case map_of (abs_cache c) (key_of ph b) of None \<Rightarrow> abs_cache c | Some s \<Rightarrow> touch (key_of ph b) s (abs_cache c))"
    unfolding f by (auto simp: cache_get_def Let_def touch_def abs_cache_def abs_remove split: option.split)
  show "cache_ok (snd (cache_get ph b c))"
    using assms key_in[OF k, of "key_of ph b"]
    by (auto simp: cache_get_def Let_def cache_ok_def cache_keys_ok_def distinct_removeAll split: option.split)
qed

lemma put_abs:
  assumes "cache_ok c"
  shows "abs_cache (cache_put now ph b r cert c) = take (ec_limit c) (touch (key_of ph b)
      \<lparr>cl_entry = \<lparr>ce_result = r, ce_cert = cert, ce_at = now\<rparr>, cl_prog = ph, cl_syms = map fst b\<rparr> (abs_cache c))"
    "cache_ok (cache_put now ph b r cert c)" "ec_limit (cache_put now ph b r cert c) = ec_limit c"
proof -
  define k where "k = key_of ph b"
  define s where "s = \<lparr>cl_entry = \<lparr>ce_result = r, ce_cert = cert, ce_at = now\<rparr>, cl_prog = ph, cl_syms = map fst b\<rparr>"
  define d where "d = c\<lparr>ec_map := mput k s (ec_map c), ec_lru := k # removeAll k (ec_lru c)\<rparr>"
  have ok: "cache_keys_ok c" using assms by (simp add: cache_ok_def)
  have r: "mget (ec_map c) k = None \<Longrightarrow> removeAll k (ec_lru c) = ec_lru c" using key_in[OF ok, of k] by simp
  have p: "cache_put now ph b r cert c = evict d"
    using r by (simp add: cache_put_def Let_def d_def k_def s_def)
  have "cache_keys_ok d" using ok by (auto simp: cache_keys_ok_def d_def keys_mput distinct_removeAll)
  note e = evict_abs[OF this]
  have "map (\<lambda>j. (j, the (mget (mput k s (ec_map c)) j))) (removeAll k (ec_lru c)) = map (\<lambda>j. (j, the (mget (ec_map c) j))) (removeAll k (ec_lru c))"
    by (rule map_cong) (auto simp: mget_mput)
  then have "abs_cache d = touch k s (abs_cache c)"
    by (simp add: d_def abs_cache_def touch_def mget_mput abs_remove)
  then show "abs_cache (cache_put now ph b r cert c) = take (ec_limit c) (touch (key_of ph b)
      \<lparr>cl_entry = \<lparr>ce_result = r, ce_cert = cert, ce_at = now\<rparr>, cl_prog = ph, cl_syms = map fst b\<rparr> (abs_cache c))"
    "cache_ok (cache_put now ph b r cert c)" "ec_limit (cache_put now ph b r cert c) = ec_limit c"
    using e p by (simp_all add: k_def s_def d_def)
qed

lemma drop_slots_eq:
  "drop_slots P m lru = (filter (\<lambda>p. \<not> P (snd p)) m, filter (\<lambda>k. \<not> (\<exists>s. (k, s) \<in> set m \<and> P s)) lru)"
proof (induction m arbitrary: lru)
  case (Cons p m)
  obtain k s where p: "p = (k, s)" by (cases p)
  show ?case
  proof (cases "P s")
    case True
    have "removeAll k lru = filter (\<lambda>j. j \<noteq> k) lru" by (simp add: removeAll_filter_not_eq) (metis (full_types))
    then show ?thesis using Cons[of "removeAll k lru"] True by (auto simp: p intro!: filter_cong)
  next
    case False
    then show ?thesis using Cons[of lru] by (auto simp: p intro!: filter_cong)
  qed
qed simp

lemma drop_abs:
  assumes "cache_ok c" "drop_slots P (ec_map c) (ec_lru c) = (m, lru)"
  shows "abs_cache (c\<lparr>ec_map := m, ec_lru := lru\<rparr>) = filter (\<lambda>p. \<not> P (snd p)) (abs_cache c)"
    "cache_ok (c\<lparr>ec_map := m, ec_lru := lru\<rparr>)"
proof -
  have ok: "mwf (ec_map c)" "distinct (ec_lru c)" "set (ec_lru c) = fst ` set (ec_map c)" "length (ec_map c) \<le> ec_limit c"
    using assms(1) by (simp_all add: cache_ok_def cache_keys_ok_def)
  have e: "m = filter (\<lambda>p. \<not> P (snd p)) (ec_map c)" "lru = filter (\<lambda>k. \<not> (\<exists>s. (k, s) \<in> set (ec_map c) \<and> P s)) (ec_lru c)"
    using assms(2) by (simp_all add: drop_slots_eq)
  have g: "(\<exists>s. (k, s) \<in> set (ec_map c) \<and> P s) \<longleftrightarrow> P (the (mget (ec_map c) k))" if kk: "k \<in> set (ec_lru c)" for k
  proof -
    obtain s where s: "(k, s) \<in> set (ec_map c)" using kk unfolding ok(3) by auto
    have "mget (ec_map c) k = Some t" if "(k, t) \<in> set (ec_map c)" for t using mwf_get_in[OF ok(1) that] .
    then show ?thesis using s by (metis option.sel)
  qed
  have w: "mwf m" using ok(1) unfolding e(1) mwf_def by (simp add: sorted_wrt_map sorted_wrt_filter)
  have gm: "mget m k = mget (ec_map c) k" if kk: "k \<in> set lru" for k
  proof -
    obtain s where s: "(k, s) \<in> set (ec_map c)" "\<not> P s" using kk unfolding e(2) by (auto simp: ok(3))
    then have "(k, s) \<in> set m" by (simp add: e(1))
    then show ?thesis using mwf_get_in[OF w] mwf_get_in[OF ok(1) s(1)] by simp
  qed
  have "abs_cache (c\<lparr>ec_map := m, ec_lru := lru\<rparr>) = map (\<lambda>k. (k, the (mget (ec_map c) k))) lru"
    using gm by (simp add: abs_cache_def)
  also have "\<dots> = filter (\<lambda>p. \<not> P (snd p)) (abs_cache c)"
  proof -
    have "lru = filter (\<lambda>k. \<not> P (the (mget (ec_map c) k))) (ec_lru c)" unfolding e(2) by (rule filter_cong) (simp_all add: g)
    then show ?thesis by (simp add: abs_cache_def filter_map comp_def)
  qed
  finally show "abs_cache (c\<lparr>ec_map := m, ec_lru := lru\<rparr>) = filter (\<lambda>p. \<not> P (snd p)) (abs_cache c)" .
  have "fst ` set m = set lru"
  proof
    show "fst ` set m \<subseteq> set lru"
    proof
      fix k assume "k \<in> fst ` set m"
      then obtain s where s: "(k, s) \<in> set (ec_map c)" "\<not> P s" by (auto simp: e(1))
      then have "k \<in> set (ec_lru c)" using ok(3) by force
      then show "k \<in> set lru" using g[of k] mwf_get_in[OF ok(1) s(1)] s(2) by (simp add: e(2))
    qed
    show "set lru \<subseteq> fst ` set m" using ok(3) by (force simp: e)
  qed
  moreover have "length m \<le> length (ec_map c)" by (simp add: e(1))
  ultimately show "cache_ok (c\<lparr>ec_map := m, ec_lru := lru\<rparr>)"
    using ok w by (simp add: cache_ok_def cache_keys_ok_def e(2))
qed

section \<open>Runs of the cache\<close>

datatype cache_op =
    CGet string box
  | CPut int string box eval_result certificate
  | CDrop string
  | CDropSym string
  | CLimit nat

fun cache_step :: "cache_op \<Rightarrow> eval_cache \<Rightarrow> cache_entry option \<times> eval_cache" where
  "cache_step (CGet ph b) c = cache_get ph b c"
| "cache_step (CPut now ph b r cert) c = (None, cache_put now ph b r cert c)"
| "cache_step (CDrop ph) c = (None, invalidate ph c)"
| "cache_step (CDropSym x) c = (None, invalidate_sym x c)"
| "cache_step (CLimit n) c = (None, set_limit n c)"

type_synonym lru = "nat \<times> (string \<times> cache_slot) list"

fun lru_step :: "cache_op \<Rightarrow> lru \<Rightarrow> cache_entry option \<times> lru" where
  "lru_step (CGet ph b) (n, xs) =
     (case map_of xs (key_of ph b) of None \<Rightarrow> (None, (n, xs)) | Some s \<Rightarrow> (Some (cl_entry s), (n, touch (key_of ph b) s xs)))"
| "lru_step (CPut now ph b r cert) (n, xs) =
     (None, (n, take n (touch (key_of ph b)
        \<lparr>cl_entry = \<lparr>ce_result = r, ce_cert = cert, ce_at = now\<rparr>, cl_prog = ph, cl_syms = map fst b\<rparr> xs)))"
| "lru_step (CDrop ph) (n, xs) = (None, (n, filter (\<lambda>p. cl_prog (snd p) \<noteq> ph) xs))"
| "lru_step (CDropSym x) (n, xs) = (None, (n, filter (\<lambda>p. x \<notin> set (cl_syms (snd p))) xs))"
| "lru_step (CLimit m) (n, xs) = (None, (m, take m xs))"

definition cache_abs :: "eval_cache \<Rightarrow> lru" where
  "cache_abs c = (ec_limit c, abs_cache c)"

lemma limit_keep: "ec_limit (snd (cache_get ph b c)) = ec_limit c" "ec_limit (invalidate ph c) = ec_limit c" "ec_limit (invalidate_sym x c) = ec_limit c"
  by (auto simp: cache_get_def invalidate_def invalidate_sym_def Let_def split: option.split prod.split)

lemma cache_step_refines:
  assumes "cache_ok c"
  shows "cache_ok (snd (cache_step op c))"
    "fst (cache_step op c) = fst (lru_step op (cache_abs c))"
    "cache_abs (snd (cache_step op c)) = snd (lru_step op (cache_abs c))"
proof -
  have "cache_ok (snd (cache_step op c)) \<and> fst (cache_step op c) = fst (lru_step op (cache_abs c))
    \<and> cache_abs (snd (cache_step op c)) = snd (lru_step op (cache_abs c))"
  proof (cases op)
    case (CGet ph b)
    show ?thesis using get_abs[OF assms, of ph b] by (simp add: CGet cache_abs_def limit_keep split: option.split)
  next
    case (CPut now ph b r cert)
    show ?thesis using put_abs[OF assms, of now ph b r cert] by (simp add: CPut cache_abs_def)
  next
    case (CDrop ph)
    obtain m l where d: "drop_slots (\<lambda>s. cl_prog s = ph) (ec_map c) (ec_lru c) = (m, l)" by fastforce
    show ?thesis using drop_abs[OF assms d] by (simp add: CDrop invalidate_def d cache_abs_def)
  next
    case (CDropSym x)
    obtain m l where d: "drop_slots (\<lambda>s. x \<in> set (cl_syms s)) (ec_map c) (ec_lru c) = (m, l)" by fastforce
    show ?thesis using drop_abs[OF assms d] by (simp add: CDropSym invalidate_sym_def d cache_abs_def)
  next
    case (CLimit n)
    have k: "cache_keys_ok (c\<lparr>ec_limit := n\<rparr>)" "abs_cache (c\<lparr>ec_limit := n\<rparr>) = abs_cache c"
      using assms by (simp_all add: cache_ok_def cache_keys_ok_def abs_cache_def)
    show ?thesis using evict_abs[OF k(1)] k(2) by (simp add: CLimit set_limit_def cache_abs_def)
  qed
  then show "cache_ok (snd (cache_step op c))" "fst (cache_step op c) = fst (lru_step op (cache_abs c))"
    "cache_abs (snd (cache_step op c)) = snd (lru_step op (cache_abs c))" by simp_all
qed

text \<open>The caches the program can reach.\<close>

inductive cache_reach :: "eval_cache \<Rightarrow> bool" where
  cr_new: "cache_reach cache_new"
| cr_step: "cache_reach c \<Longrightarrow> cache_reach (snd (cache_step op c))"

lemma cache_new_ok: "cache_ok cache_new"
  by (simp add: cache_ok_def cache_keys_ok_def cache_new_def)

lemma reach_ok: "cache_reach c \<Longrightarrow> cache_ok c"
  by (induction rule: cache_reach.induct) (simp_all add: cache_new_ok cache_step_refines)

text \<open>What was put last is found, as long as the cache holds anything.\<close>

lemma get_put_entry:
  assumes "cache_ok c" "0 < ec_limit c" "key_of ph' b' = key_of ph b"
  shows "fst (cache_get ph' b' (cache_put now ph b r cert c)) = Some \<lparr>ce_result = r, ce_cert = cert, ce_at = now\<rparr>"
proof -
  obtain n where n: "ec_limit c = Suc n" using assms(2) by (cases "ec_limit c") auto
  note p = put_abs[OF assms(1), of now ph b r cert]
  show ?thesis using get_abs(1)[OF p(2), of ph' b'] p(1) by (simp add: n touch_def assms(3))
qed

text \<open>A name that fills the buffer leaves no room for the interval.\<close>

lemma entry_cut: "k \<le> length (cstr n) \<Longrightarrow> entry_text k P (n, i) = entry_text k P (n, j)"
  by (simp add: entry_text_def)

lemma fingerprint_cut: "79 \<le> length (cstr n) \<Longrightarrow> key_of ph [(n, i)] = key_of ph [(n, j)]"
  using entry_cut[of 79 n 12 i j] by (simp add: key_of_def box_fingerprint_def)

section \<open>What the difference says\<close>

lemma foldl_sets:
  assumes "\<And>k hs qs. k \<in> set ks \<Longrightarrow> node_sets k (hs, qs) = (hs \<union> fst (node_sets k ({}, {})), qs \<union> snd (node_sets k ({}, {})))"
  shows "foldl (\<lambda>x k. node_sets k x) (hs, qs) ks
    = (hs \<union> (\<Union>k\<in>set ks. fst (node_sets k ({}, {}))), qs \<union> (\<Union>k\<in>set ks. snd (node_sets k ({}, {}))))"
  using assms
proof (induction ks arbitrary: hs qs)
  case (Cons k ks)
  have k: "node_sets k (hs, qs) = (hs \<union> fst (node_sets k ({}, {})), qs \<union> snd (node_sets k ({}, {})))" by (rule Cons.prems) simp
  have "foldl (\<lambda>x k. node_sets k x) (hs, qs) (k # ks) = foldl (\<lambda>x k. node_sets k x) (node_sets k (hs, qs)) ks" by simp
  also have "\<dots> = (hs \<union> fst (node_sets k ({}, {})) \<union> (\<Union>k\<in>set ks. fst (node_sets k ({}, {}))),
      qs \<union> snd (node_sets k ({}, {})) \<union> (\<Union>k\<in>set ks. snd (node_sets k ({}, {}))))"
    unfolding k by (rule Cons.IH, rule Cons.prems, simp)
  finally show ?case by (simp only: list.set UN_insert Un_assoc)
qed simp

declare node_sets.simps [simp del]

lemma node_sets_acc: "node_sets n (hs, qs) = (hs \<union> fst (node_sets n ({}, {})), qs \<union> snd (node_sets n ({}, {})))"
proof (induction n arbitrary: hs qs rule: measure_induct_rule[of size])
  case (less n)
  have c: "node_sets k (h, q) = (h \<union> fst (node_sets k ({}, {})), q \<union> snd (node_sets k ({}, {})))" if "k \<in> set (n_args n @ n_cands n)" for k h q
    using less[of k h q] node_child_size[OF that] by simp
  have "foldl (\<lambda>x k. node_sets k x) (h, q) ks = (h \<union> (\<Union>k\<in>set ks. fst (node_sets k ({}, {}))), q \<union> (\<Union>k\<in>set ks. snd (node_sets k ({}, {}))))"
    if "set ks \<subseteq> set (n_args n @ n_cands n)" for ks h q
    by (rule foldl_sets, rule c, use that in blast)
  from this[of "n_args n"] this[of "n_cands n"] show ?case by (auto simp: node_sets.simps[of n] Let_def)
qed

lemma node_sets_eq:
  "fst (node_sets n ({}, {})) = insert (hex (n_hash n)) (\<Union>k\<in>set (n_args n @ n_cands n). fst (node_sets k ({}, {})))"
proof -
  note f = foldl_sets[OF node_sets_acc]
  show ?thesis unfolding node_sets.simps[of n] Let_def fst_conv snd_conv by (simp add: f Un_assoc)
qed

lemma node_sets_finite: "finite hs \<Longrightarrow> finite qs \<Longrightarrow> finite (fst (node_sets n (hs, qs))) \<and> finite (snd (node_sets n (hs, qs)))"
proof (induction n arbitrary: hs qs rule: measure_induct_rule[of size])
  case (less n)
  have "finite (fst (foldl (\<lambda>x k. node_sets k x) a ks)) \<and> finite (snd (foldl (\<lambda>x k. node_sets k x) a ks))"
    if "set ks \<subseteq> set (n_args n @ n_cands n)" "finite (fst a)" "finite (snd a)" for ks a
    using that
  proof (induction ks arbitrary: a)
    case (Cons k ks)
    then show ?case using less(1)[of k "fst a" "snd a"] node_child_size[of k n] by simp
  qed simp
  then show ?case using less(2,3) by (simp add: node_sets.simps[of n] Let_def)
qed

lemma opt_sets_finite: "finite (fst (opt_sets n))" "finite (snd (opt_sets n))"
  using node_sets_finite[of "{}" "{}"] by (auto simp: opt_sets_def split: option.split)

lemma diff_sets:
  "set (pd_changed (diff_programs a b)) = fst (opt_sets b) - fst (opt_sets a)"
  "set (pd_unchanged (diff_programs a b)) = fst (opt_sets b) \<inter> fst (opt_sets a)"
  "set (pd_new_holes (diff_programs a b)) = snd (opt_sets b) - snd (opt_sets a)"
  "set (pd_closed_holes (diff_programs a b)) = snd (opt_sets a) - snd (opt_sets b)"
  using opt_sets_finite[of a] opt_sets_finite[of b]
  by (auto simp: diff_programs_def split: prod.split)

text \<open>The change of a node is the change of every node above it up to the root.\<close>

lemma root_changed:
  "pd_structure (diff_programs (Some a) (Some b)) \<longleftrightarrow> hex (n_hash a) \<noteq> hex (n_hash b)"
  by (simp add: diff_programs_def root_text_def split: prod.split)

lemma same_program:
  "diff_programs n n = \<lparr>pd_changed = [], pd_unchanged = sorted_list_of_set (fst (opt_sets n)), pd_new_holes = [], pd_closed_holes = [], pd_structure = False\<rparr>"
  using opt_sets_finite[of n] by (cases "opt_sets n") (simp add: diff_programs_def filter_empty_conv filter_True)

end
