(* ===== verification/Fve_Graph.thy ===== *)
theory Fve_Graph
  imports Fve_Records
begin

text \<open>
  The graph of artifacts (\<open>platform/artifact_graph\<close>): the dependencies kept in the store, the part
  reachable from a root within a depth, its order with dependencies first, and the artifacts that
  depend on a changed one. \<open>std::map::operator[]\<close> on an absent key is the empty list or 0. The depth
  first search has fuel, one more than the number of artifacts.
\<close>

record art_edge =
  ae_from :: string
  ae_to :: string
  ae_symbol :: string
  ae_cell :: string

record art_graph =
  ag_artifacts :: "string list"
  ag_edges :: "art_edge list"
  ag_cycle :: bool

definition add_artifact_dep :: "art_edge \<Rightarrow> store \<Rightarrow> store" where
  "add_artifact_dep e s =
     snd (store_put ''artifact_deps'' (take 24 (hex (sha256_str (ae_from e @ ''|'' @ ae_to e @ ''|'' @ ae_symbol e))))
       (mkobj [(''from'', JStr (ae_from e)), (''to'', JStr (ae_to e)), (''symbol'', JStr (ae_symbol e)), (''cell_ref'', JStr (ae_cell e))]) s)"

definition edge_of :: "json \<Rightarrow> art_edge" where
  "edge_of d = \<lparr>ae_from = jstr d ''from'' [], ae_to = jstr d ''to'' [], ae_symbol = jstr d ''symbol'' [], ae_cell = jstr d ''cell_ref'' []\<rparr>"

definition all_edges :: "store \<Rightarrow> art_edge list option" where
  "all_edges s = map_option (map edge_of) (get_all s ''artifact_deps'' (store_list s ''artifact_deps''))"

text \<open>The edges that leave an artifact, and the artifacts they lead to, in order.\<close>

definition out_edges :: "art_edge list \<Rightarrow> string \<Rightarrow> art_edge list" where
  "out_edges es u = filter (\<lambda>e. ae_from e = u) es"

definition adj :: "art_edge list \<Rightarrow> string \<Rightarrow> string list" where
  "adj es u = map ae_to (out_edges es u)"

definition rev_adj :: "art_edge list \<Rightarrow> string \<Rightarrow> string list" where
  "rev_adj es u = map ae_from (filter (\<lambda>e. ae_to e = u) es)"

section \<open>The reachable part\<close>

text \<open>The loop over the edges of one artifact: the names that are new go to the end of the work list.\<close>

fun push_new :: "int \<Rightarrow> string list \<Rightarrow> string set \<times> (string \<times> int) list \<Rightarrow> string set \<times> (string \<times> int) list" where
  "push_new d [] nq = nq"
| "push_new d (v # vs) (ns, q) = (if v \<in> ns then push_new d vs (ns, q) else push_new d vs (insert v ns, q @ [(v, d)]))"

lemma push_new_props:
  "push_new d vs (ns, q) = (ns', q') \<Longrightarrow>
     ns' = ns \<union> set vs \<and> (\<exists>p. q' = q @ p \<and> fst ` set p = set vs - ns \<and> (\<forall>x\<in>set p. snd x = d) \<and> length p = card (set vs - ns))"
proof (induction vs arbitrary: ns q)
  case (Cons v vs)
  show ?case
  proof (cases "v \<in> ns")
    case True
    then show ?thesis using Cons.IH[of ns q] Cons.prems by (auto simp: insert_absorb insert_Diff_if)
  next
    case False
    then obtain p where p: "ns' = insert v ns \<union> set vs" "q' = (q @ [(v, d)]) @ p" "fst ` set p = set vs - insert v ns"
        "\<forall>x\<in>set p. snd x = d" "length p = card (set vs - insert v ns)"
      using Cons.IH[of "insert v ns" "q @ [(v, d)]"] Cons.prems by auto
    have "set (v # vs) - ns = insert v (set vs - insert v ns)" using False by auto
    then show ?thesis using p by (intro conjI exI[of _ "(v, d) # p"]) auto
  qed
qed simp

function collect :: "art_edge list \<Rightarrow> int \<Rightarrow> string set \<times> (string \<times> int) list \<Rightarrow> art_edge list \<Rightarrow> string set \<times> art_edge list" where
  "collect es maxd (ns, q) out =
     (if q = [] then (ns, out)
      else let (u, d) = last q; q1 = butlast q
           in if maxd \<le> d then collect es maxd (ns, q1) out
              else collect es maxd (push_new (d + 1) (adj es u) (ns, q1)) (out @ out_edges es u))"
  by pat_completeness auto
termination
proof (relation "measures [\<lambda>(es, m, (ns, q), out). card (set (map ae_to es) - ns), \<lambda>(es, m, (ns, q), out). length q]", goal_cases)
  case (3 es m ns q out p u d q1)
  obtain ns' q' where n: "push_new (d + 1) (adj es u) (ns, q1) = (ns', q')" by fastforce
  from push_new_props[OF this] obtain p' where p: "ns' = ns \<union> set (adj es u)" "q' = q1 @ p'" "length p' = card (set (adj es u) - ns)"
    by blast
  have sub: "set (adj es u) \<subseteq> set (map ae_to es)" by (auto simp: adj_def out_edges_def)
  show ?case
  proof (cases "set (adj es u) \<subseteq> ns")
    case True
    then have e: "set (adj es u) - ns = {}" by auto
    have "p' = []" using p(3) unfolding e by simp
    then have "q' = q1" "ns' = ns" using p True by auto
    then show ?thesis using 3 n by (simp add: length_butlast)
  next
    case False
    then have "set (map ae_to es) - ns' \<subset> set (map ae_to es) - ns" using sub p(1) by auto
    then show ?thesis using n by (simp add: psubset_card_mono)
  qed
qed simp_all

declare collect.simps [simp del]

section \<open>Dependencies first\<close>

record dfs_state =
  ds_state :: "(string, nat) omap"
  ds_order :: "string list"
  ds_cycle :: bool

definition colour :: "dfs_state \<Rightarrow> string \<Rightarrow> nat" where
  "colour S v = (case mget (ds_state S) v of Some n \<Rightarrow> n | None \<Rightarrow> 0)"

definition paint :: "nat \<Rightarrow> string \<Rightarrow> dfs_state \<Rightarrow> dfs_state" where
  "paint n u S = S\<lparr>ds_state := mput u n (ds_state S)\<rparr>"

fun dfs :: "nat \<Rightarrow> art_edge list \<Rightarrow> string \<Rightarrow> dfs_state \<Rightarrow> dfs_state option"
  and visits :: "nat \<Rightarrow> art_edge list \<Rightarrow> string list \<Rightarrow> dfs_state \<Rightarrow> dfs_state option" where
  "dfs 0 es u S = None"
| "dfs (Suc f) es u S =
     (case visits f es (adj es u) (paint 1 u S) of None \<Rightarrow> None
      | Some T \<Rightarrow> Some ((paint 2 u T)\<lparr>ds_order := ds_order T @ [u]\<rparr>))"
| "visits f es [] S = Some S"
| "visits f es (v # vs) S =
     (if colour S v = 1 then visits f es vs (S\<lparr>ds_cycle := True\<rparr>)
      else if colour S v = 0 then (case dfs f es v S of None \<Rightarrow> None | Some T \<Rightarrow> visits f es vs T)
      else visits f es vs S)"

text \<open>The outer loop over the set of artifacts; a white one starts a search.\<close>

fun dfs_all :: "nat \<Rightarrow> art_edge list \<Rightarrow> string list \<Rightarrow> dfs_state \<Rightarrow> dfs_state option" where
  "dfs_all f es [] S = Some S"
| "dfs_all f es (n # ns) S =
     (if colour S n = 0 then (case dfs f es n S of None \<Rightarrow> None | Some T \<Rightarrow> dfs_all f es ns T) else dfs_all f es ns S)"

definition build_graph :: "art_edge list \<Rightarrow> string \<Rightarrow> int \<Rightarrow> art_graph option" where
  "build_graph edges root' maxd =
     (let (ns, es) = collect edges maxd ({root'}, [(root', 0)]) []
      in map_option (\<lambda>S. \<lparr>ag_artifacts = ds_order S, ag_edges = es, ag_cycle = ds_cycle S\<rparr>)
           (dfs_all (card ns + 1) es (sorted_list_of_set ns) \<lparr>ds_state = [], ds_order = [], ds_cycle = False\<rparr>))"

definition build_artifact_graph :: "store \<Rightarrow> string \<Rightarrow> int \<Rightarrow> art_graph option" where
  "build_artifact_graph s root' maxd = Option.bind (all_edges s) (\<lambda>es. build_graph es root' maxd)"

section \<open>Affected artifacts\<close>

fun push_seen :: "string list \<Rightarrow> string set \<times> string list \<times> string list \<Rightarrow> string set \<times> string list \<times> string list" where
  "push_seen [] x = x"
| "push_seen (d # ds) (seen, out, stk) =
     (if d \<in> seen then push_seen ds (seen, out, stk) else push_seen ds (insert d seen, out @ [d], stk @ [d]))"

lemma push_seen_props:
  "push_seen ds (seen, out, stk) = (seen', out', stk') \<Longrightarrow>
     seen' = seen \<union> set ds \<and> (\<exists>p. out' = out @ p \<and> stk' = stk @ p \<and> set p = set ds - seen \<and> length p = card (set ds - seen) \<and> distinct p)"
proof (induction ds arbitrary: seen out stk)
  case (Cons v vs)
  show ?case
  proof (cases "v \<in> seen")
    case True
    then show ?thesis using Cons.IH[of seen out stk] Cons.prems by (auto simp: insert_absorb insert_Diff_if)
  next
    case False
    then obtain p where p: "seen' = insert v seen \<union> set vs" "out' = (out @ [v]) @ p" "stk' = (stk @ [v]) @ p" "set p = set vs - insert v seen"
        "length p = card (set vs - insert v seen)" "distinct p"
      using Cons.IH[of "insert v seen" "out @ [v]" "stk @ [v]"] Cons.prems by auto
    have "set (v # vs) - seen = insert v (set vs - insert v seen)" using False by auto
    then show ?thesis using p by (intro conjI exI[of _ "v # p"]) auto
  qed
qed simp

function affected_loop :: "art_edge list \<Rightarrow> string set \<times> string list \<times> string list \<Rightarrow> string list" where
  "affected_loop es (seen, out, stk) =
     (if stk = [] then out
      else affected_loop es (push_seen (rev_adj es (last stk)) (seen, out, butlast stk)))"
  by pat_completeness auto
termination
proof (relation "measures [\<lambda>(es, (seen, out, stk)). card (set (map ae_from es) - seen), \<lambda>(es, (seen, out, stk)). length stk]", goal_cases)
  case (2 es seen out stk)
  obtain seen' out' stk' where n: "push_seen (rev_adj es (last stk)) (seen, out, butlast stk) = (seen', out', stk')"
    by (metis surj_pair)
  from push_seen_props[OF this] obtain p where p: "seen' = seen \<union> set (rev_adj es (last stk))" "stk' = butlast stk @ p"
      "length p = card (set (rev_adj es (last stk)) - seen)" by blast
  have sub: "set (rev_adj es (last stk)) \<subseteq> set (map ae_from es)" by (auto simp: rev_adj_def)
  show ?case
  proof (cases "set (rev_adj es (last stk)) \<subseteq> seen")
    case True
    then have e: "set (rev_adj es (last stk)) - seen = {}" by auto
    have "p = []" using p(3) unfolding e by simp
    then have "stk' = butlast stk" "seen' = seen" using p True by auto
    then show ?thesis using 2 n by (simp add: length_butlast)
  next
    case False
    then have "set (map ae_from es) - seen' \<subset> set (map ae_from es) - seen" using sub p(1) by auto
    then show ?thesis using n by (simp add: psubset_card_mono)
  qed
qed simp

declare affected_loop.simps [simp del]

definition affected_artifacts :: "art_graph \<Rightarrow> string \<Rightarrow> string list" where
  "affected_artifacts g changed = affected_loop (ag_edges g) ({}, [], [changed])"


section \<open>The relation of the edges\<close>

definition edge_rel :: "art_edge list \<Rightarrow> (string \<times> string) set" where
  "edge_rel es = {(ae_from e, ae_to e) | e. e \<in> set es}"

lemma adj_rel: "v \<in> set (adj es u) \<longleftrightarrow> (u, v) \<in> edge_rel es"
  by (auto simp: adj_def out_edges_def edge_rel_def)

lemma rev_adj_rel: "v \<in> set (rev_adj es u) \<longleftrightarrow> (v, u) \<in> edge_rel es"
  by (auto simp: rev_adj_def edge_rel_def)

lemma edge_rel_app: "edge_rel (es @ fs) = edge_rel es \<union> edge_rel fs"
  by (auto simp: edge_rel_def)

lemma edge_rel_out: "edge_rel (out_edges es u) = {u} \<times> set (adj es u)"
  by (auto simp: edge_rel_def out_edges_def adj_def)

section \<open>What is collected\<close>

definition collected :: "art_edge list \<Rightarrow> string \<Rightarrow> string set \<Rightarrow> art_edge list \<Rightarrow> bool" where
  "collected es r ns out \<longleftrightarrow> finite ns \<and> r \<in> ns \<and> set out \<subseteq> set es \<and> edge_rel out \<subseteq> ns \<times> ns
     \<and> (\<forall>n\<in>ns. (r, n) \<in> (edge_rel out)\<^sup>*)"

lemma collect_collected:
  "collected es r ns out \<Longrightarrow> fst ` set q \<subseteq> ns \<Longrightarrow> collect es m (ns, q) out = (ns', out') \<Longrightarrow> collected es r ns' out'"
proof (induction es m "(ns, q)" out arbitrary: ns q rule: collect.induct)
  case (1 es m ns q out)
  show ?case
  proof (cases "q = []")
    case True
    then show ?thesis using 1(3-) by (simp add: collect.simps)
  next
    case False
    obtain u d where l: "last q = (u, d)" by fastforce
    have u: "u \<in> ns" using False l 1(4) last_in_set[OF False] by force
    have b: "fst ` set (butlast q) \<subseteq> ns" using 1(4) by (auto dest: in_set_butlastD)
    show ?thesis
    proof (cases "m \<le> d")
      case True
      then have "collect es m (ns, q) out = collect es m (ns, butlast q) out" using False l by (simp add: collect.simps[of es m ns q])
      then show ?thesis using 1(1)[OF False refl l[symmetric] refl True 1(3) b] 1(5) by simp
    next
      case deep: False
      obtain ns2 q2 where n: "push_new (d + 1) (adj es u) (ns, butlast q) = (ns2, q2)" by fastforce
      from push_new_props[OF this] obtain p where p: "ns2 = ns \<union> set (adj es u)" "q2 = butlast q @ p" "fst ` set p = set (adj es u) - ns" by blast
      have e: "collect es m (ns, q) out = collect es m (ns2, q2) (out @ out_edges es u)"
        using False deep l n by (simp add: collect.simps[of es m ns q])
      have c: "collected es r ns2 (out @ out_edges es u)" unfolding collected_def
      proof (intro conjI ballI)
        show "finite ns2" "r \<in> ns2" using 1(3) p(1) by (auto simp: collected_def)
        show "set (out @ out_edges es u) \<subseteq> set es" using 1(3) by (auto simp: collected_def out_edges_def)
        show "edge_rel (out @ out_edges es u) \<subseteq> ns2 \<times> ns2"
          using 1(3) u by (auto simp: collected_def edge_rel_app edge_rel_out p(1))
        fix n assume "n \<in> ns2"
        have mono: "(edge_rel out)\<^sup>* \<subseteq> (edge_rel (out @ out_edges es u))\<^sup>*" by (rule rtrancl_mono) (simp add: edge_rel_app)
        then have ns: "k \<in> ns \<Longrightarrow> (r, k) \<in> (edge_rel (out @ out_edges es u))\<^sup>*" for k using 1(3) by (auto simp: collected_def)
        show "(r, n) \<in> (edge_rel (out @ out_edges es u))\<^sup>*"
        proof (cases "n \<in> ns")
          case False
          then have "(u, n) \<in> edge_rel (out @ out_edges es u)" using \<open>n \<in> ns2\<close> p(1) by (auto simp: edge_rel_app edge_rel_out)
          then show ?thesis using ns[OF u] by (rule rtrancl_into_rtrancl[rotated])
        qed (rule ns)
      qed
      have q2: "fst ` set q2 \<subseteq> ns2" using b p by auto
      then show ?thesis using 1(2)[OF False refl l[symmetric] refl deep n c] 1(5) unfolding e n by simp
    qed
  qed
qed

text \<open>
  The loop over the work list \<open>q\<close>, with \<open>xs\<close> the artifacts it has expanded: their outgoing edges are the edges so far,
  in their order, and the artifacts so far are the root and the targets. What waits at a depth is at the end of a path of
  that length, and what was met and not expanded is at the depth limit.
\<close>

definition exploring :: "art_edge list \<Rightarrow> string \<Rightarrow> int \<Rightarrow> string set \<Rightarrow> (string \<times> int) list \<Rightarrow> string list \<Rightarrow> art_edge list \<Rightarrow> bool" where
  "exploring es r m ns q xs out \<longleftrightarrow>
     distinct xs \<and> out = concat (map (out_edges es) xs) \<and> ns = insert r (ae_to ` set out)
     \<and> distinct (map fst q) \<and> fst ` set q \<inter> set xs = {} \<and> set xs \<union> fst ` set q \<subseteq> ns
     \<and> (\<forall>k\<in>set q. 0 \<le> snd k \<and> snd k \<le> max m 0 \<and> (r, fst k) \<in> edge_rel es ^^ nat (snd k) \<and> snd k < int (card ns))
     \<and> (\<forall>u\<in>ns - set xs - fst ` set q. (r, u) \<in> edge_rel es ^^ nat m \<and> m < int (card ns))"

lemma to_out_edges: "ae_to ` set (out_edges es u) = set (adj es u)"
  by (simp add: adj_def)

lemma exploringD:
  assumes "exploring es r m ns q xs out"
  shows "distinct xs" "out = concat (map (out_edges es) xs)" "ns = insert r (ae_to ` set out)"
    "distinct (map fst q)" "fst ` set q \<inter> set xs = {}" "set xs \<union> fst ` set q \<subseteq> ns"
    "\<And>k. k \<in> set q \<Longrightarrow> 0 \<le> snd k \<and> snd k \<le> max m 0 \<and> (r, fst k) \<in> edge_rel es ^^ nat (snd k) \<and> snd k < int (card ns)"
    "\<And>u. u \<in> ns \<Longrightarrow> u \<notin> set xs \<Longrightarrow> u \<notin> fst ` set q \<Longrightarrow> (r, u) \<in> edge_rel es ^^ nat m \<and> m < int (card ns)"
    "finite ns"
  using assms unfolding exploring_def by blast+

lemma exploringI:
  assumes "distinct xs" "out = concat (map (out_edges es) xs)" "ns = insert r (ae_to ` set out)"
    "distinct (map fst q)" "fst ` set q \<inter> set xs = {}" "set xs \<union> fst ` set q \<subseteq> ns"
    "\<And>k. k \<in> set q \<Longrightarrow> 0 \<le> snd k \<and> snd k \<le> max m 0 \<and> (r, fst k) \<in> edge_rel es ^^ nat (snd k) \<and> snd k < int (card ns)"
    "\<And>u. u \<in> ns \<Longrightarrow> u \<notin> set xs \<Longrightarrow> u \<notin> fst ` set q \<Longrightarrow> (r, u) \<in> edge_rel es ^^ nat m \<and> m < int (card ns)"
  shows "exploring es r m ns q xs out"
  unfolding exploring_def using assms by blast

lemma exploring_last:
  assumes "exploring es r m ns (q @ [(u, d)]) xs out"
  shows "0 \<le> d" "d \<le> max m 0" "(r, u) \<in> edge_rel es ^^ nat d" "d < int (card ns)" "u \<notin> fst ` set q" "u \<notin> set xs"
    "u \<in> ns" "distinct (map fst q)"
  using exploringD(4-6)[OF assms] exploringD(7)[OF assms, of "(u, d)"] by auto

lemma exploring_skip:
  assumes "exploring es r m ns (q @ [(u, d)]) xs out" "m \<le> d"
  shows "exploring es r m ns q xs out"
proof (rule exploringI)
  note k = exploring_last[OF assms(1)] and inv = exploringD[OF assms(1)]
  show "distinct xs" "out = concat (map (out_edges es) xs)" "ns = insert r (ae_to ` set out)" by (rule inv)+
  show "distinct (map fst q)" by (rule k)
  show "fst ` set q \<inter> set xs = {}" "set xs \<union> fst ` set q \<subseteq> ns" using inv(5,6) by auto
  show "x \<in> set q \<Longrightarrow> 0 \<le> snd x \<and> snd x \<le> max m 0 \<and> (r, fst x) \<in> edge_rel es ^^ nat (snd x) \<and> snd x < int (card ns)" for x
    using inv(7)[of x] by simp
  have "nat d = nat m" using k(1,2) assms(2) by (cases "0 \<le> m") auto
  then have u: "(r, u) \<in> edge_rel es ^^ nat m" "m < int (card ns)" using k(3,4) assms(2) by simp_all
  show "v \<in> ns \<Longrightarrow> v \<notin> set xs \<Longrightarrow> v \<notin> fst ` set q \<Longrightarrow> (r, v) \<in> edge_rel es ^^ nat m \<and> m < int (card ns)" for v
    using inv(8)[of v] u by (cases "v = u") auto
qed

lemma exploring_expand:
  assumes "exploring es r m ns (q @ [(u, d)]) xs out" "d < m" "push_new (d + 1) (adj es u) (ns, q) = (ns2, q2)"
  shows "exploring es r m ns2 q2 (xs @ [u]) (out @ out_edges es u)"
proof -
  from push_new_props[OF assms(3)] obtain p where p: "ns2 = ns \<union> set (adj es u)" "q2 = q @ p"
    "fst ` set p = set (adj es u) - ns" "\<forall>x\<in>set p. snd x = d + 1" "length p = card (set (adj es u) - ns)" by blast
  note k = exploring_last[OF assms(1)] and inv = exploringD[OF assms(1)]
  have dp: "distinct (map fst p)" by (rule card_distinct) (simp add: p(3,5))
  have le: "card ns \<le> card ns2" unfolding p(1) using inv(9) by (simp add: card_mono)
  have lt: "card ns < card ns2" if "x \<in> set p" for x
  proof -
    have "fst x \<in> ns2 - ns" using that p(1,3) by blast
    then show ?thesis using inv(9) p(1) by (intro psubset_card_mono) auto
  qed
  have new: "0 \<le> snd x \<and> snd x \<le> max m 0 \<and> (r, fst x) \<in> edge_rel es ^^ nat (snd x) \<and> snd x < int (card ns2)" if x: "x \<in> set p" for x
  proof -
    have "(u, fst x) \<in> edge_rel es" using x p(3) adj_rel by blast
    then have "(r, fst x) \<in> edge_rel es ^^ Suc (nat d)" using k(3) by auto
    moreover have "nat (snd x) = Suc (nat d)" using x p(4) k(1) by simp
    ultimately show ?thesis using x p(4) k(1,4) assms(2) lt[OF x] by simp
  qed
  have q2: "set q2 = set q \<union> set p" by (simp add: p(2))
  show ?thesis
  proof (rule exploringI)
    show "distinct (xs @ [u])" "out @ out_edges es u = concat (map (out_edges es) (xs @ [u]))" using inv(1,2) k(6) by simp_all
    show "ns2 = insert r (ae_to ` set (out @ out_edges es u))"
      unfolding p(1) set_append image_Un to_out_edges using inv(3) by blast
    have "fst ` set q \<inter> fst ` set p = {}" using inv(6) p(3) by auto
    then show "distinct (map fst q2)" using k(8) dp by (simp add: p(2))
    show "fst ` set q2 \<inter> set (xs @ [u]) = {}" using inv(5,6) p(3) k(5,7) by (auto simp: q2)
    show "set (xs @ [u]) \<union> fst ` set q2 \<subseteq> ns2" using inv(6) p(3) k(7) by (auto simp: p(1) q2)
    show "0 \<le> snd x \<and> snd x \<le> max m 0 \<and> (r, fst x) \<in> edge_rel es ^^ nat (snd x) \<and> snd x < int (card ns2)" if "x \<in> set q2" for x
    proof (cases "x \<in> set p")
      case False
      then have "x \<in> set q" using that q2 by blast
      then show ?thesis using inv(7)[of x] le by simp
    qed (rule new)
    show "(r, v) \<in> edge_rel es ^^ nat m \<and> m < int (card ns2)" if "v \<in> ns2" "v \<notin> set (xs @ [u])" "v \<notin> fst ` set q2" for v
    proof -
      have "v \<in> ns" "v \<notin> set xs" "v \<notin> fst ` set q" "v \<noteq> u" using that p(1-3) q2 by auto
      then show ?thesis using inv(8)[of v] le by auto
    qed
  qed
qed

lemma collect_exploring:
  "exploring es r m ns q xs out \<Longrightarrow> collect es m (ns, q) out = (ns', out') \<Longrightarrow> \<exists>ys. exploring es r m ns' [] ys out'"
proof (induction es m "(ns, q)" out arbitrary: ns q xs rule: collect.induct)
  case (1 es m ns q out)
  show ?case
  proof (cases "q = []")
    case True
    then show ?thesis using 1(3,4) by (auto simp: collect.simps)
  next
    case False
    obtain u d where l: "last q = (u, d)" by fastforce
    then have q: "exploring es r m ns (butlast q @ [(u, d)]) xs out" using 1(3) False by (metis append_butlast_last_id)
    show ?thesis
    proof (cases "m \<le> d")
      case True
      then have "collect es m (ns, q) out = collect es m (ns, butlast q) out" using False l by (simp add: collect.simps[of es m ns q])
      then show ?thesis using 1(1)[OF False refl l[symmetric] refl True exploring_skip[OF q True]] 1(4) by simp
    next
      case deep: False
      obtain ns2 q2 where n: "push_new (d + 1) (adj es u) (ns, butlast q) = (ns2, q2)" by fastforce
      have e: "collect es m (ns, q) out = collect es m (ns2, q2) (out @ out_edges es u)"
        using False deep l n by (simp add: collect.simps[of es m ns q])
      have "d < m" using deep by simp
      from exploring_expand[OF q this n] 1(2)[OF False refl l[symmetric] refl deep n] 1(4) show ?thesis unfolding e n by blast
    qed
  qed
qed

text \<open>Within a limit of at least the number of artifacts everything reachable is expanded.\<close>

lemma explored_all:
  assumes "exploring es r m ns [] xs out" "int (card ns) \<le> m" "\<forall>n\<in>ns. (r, n) \<in> (edge_rel out)\<^sup>*"
  shows "ns = {x. (r, x) \<in> (edge_rel es)\<^sup>*} \<and> set out = {e \<in> set es. (r, ae_from e) \<in> (edge_rel es)\<^sup>*}"
proof -
  note inv = exploringD[OF assms(1)]
  have x: "set xs = ns" using inv(6,8) assms(2) by fastforce
  have o': "e \<in> set out \<longleftrightarrow> e \<in> set es \<and> ae_from e \<in> ns" for e
    unfolding inv(2) x[symmetric] by (auto simp: out_edges_def)
  have cl: "y \<in> ns" if "(r, y) \<in> (edge_rel es)\<^sup>*" for y
    using that
  proof (induction rule: rtrancl_induct)
    case base
    show ?case using inv(3) by blast
  next
    case (step y z)
    then obtain e where "e \<in> set out" "z = ae_to e" using o' by (auto simp: edge_rel_def)
    then show ?case using inv(3) by blast
  qed
  have "(edge_rel out)\<^sup>* \<subseteq> (edge_rel es)\<^sup>*" by (rule rtrancl_mono) (use o' in \<open>auto simp: edge_rel_def\<close>)
  then have "ns = {x. (r, x) \<in> (edge_rel es)\<^sup>*}" using assms(3) cl by blast
  then show ?thesis using o' by auto
qed

section \<open>The search\<close>

fun topo :: "art_edge list \<Rightarrow> string list \<Rightarrow> bool" where
  "topo es [] = True"
| "topo es (u # us) = (set (adj es u) \<subseteq> set us \<and> topo es us)"

definition dfs_ok :: "art_edge list \<Rightarrow> dfs_state \<Rightarrow> bool" where
  "dfs_ok es S \<longleftrightarrow> distinct (ds_order S) \<and> set (ds_order S) = {v. colour S v = 2} \<and> (\<forall>v. colour S v \<le> 2)
     \<and> (\<not> ds_cycle S \<longrightarrow> topo es (rev (ds_order S))) \<and> (ds_cycle S \<longrightarrow> (\<exists>x. (x, x) \<in> (edge_rel es)\<^sup>+))"

definition dfs_ext :: "dfs_state \<Rightarrow> dfs_state \<Rightarrow> bool" where
  "dfs_ext S T \<longleftrightarrow> (\<forall>v. colour T v = 1 \<longleftrightarrow> colour S v = 1) \<and> (\<forall>v. colour S v = 2 \<longrightarrow> colour T v = 2) \<and> (ds_cycle S \<longrightarrow> ds_cycle T)"

definition greys :: "art_edge list \<Rightarrow> dfs_state \<Rightarrow> string \<Rightarrow> bool" where
  "greys es S u \<longleftrightarrow> (\<forall>g. colour S g = 1 \<longrightarrow> (g, u) \<in> (edge_rel es)\<^sup>*)"

lemma colour_paint [simp]: "colour (paint n u S) v = (if v = u then n else colour S v)"
  by (simp add: colour_def paint_def mget_mput)

lemma colour_upd [simp]: "colour (S\<lparr>ds_order := o'\<rparr>) v = colour S v" "colour (S\<lparr>ds_cycle := c\<rparr>) v = colour S v"
  by (simp_all add: colour_def)

lemma paint_sel [simp]: "ds_order (paint n u S) = ds_order S" "ds_cycle (paint n u S) = ds_cycle S"
  by (simp_all add: paint_def)

lemma ext_trans: "dfs_ext S T \<Longrightarrow> dfs_ext T U \<Longrightarrow> dfs_ext S U"
  by (auto simp: dfs_ext_def)

lemma dfs_visits_ok:
  "dfs_ok es S \<Longrightarrow> colour S u = 0 \<Longrightarrow> greys es S u \<Longrightarrow> dfs f es u S = Some T \<Longrightarrow> dfs_ok es T \<and> dfs_ext S T \<and> colour T u = 2"
  "dfs_ok es S \<Longrightarrow> greys es S w \<Longrightarrow> set vs \<subseteq> set (adj es w) \<Longrightarrow> visits f es vs S = Some T \<Longrightarrow>
     dfs_ok es T \<and> dfs_ext S T \<and> (\<not> ds_cycle T \<longrightarrow> (\<forall>v\<in>set vs. colour T v = 2))"
proof (induction f es u S and f es vs S arbitrary: T and w T rule: dfs_visits.induct)
  case (2 f es u S)
  define S1 where "S1 = paint 1 u S"
  obtain U where U: "visits f es (adj es u) S1 = Some U" "T = (paint 2 u U)\<lparr>ds_order := ds_order U @ [u]\<rparr>"
    using 2(5) by (auto simp: S1_def split: option.splits)
  have "dfs_ok es S1" using 2(2,3) by (auto simp: dfs_ok_def S1_def)
  moreover have "greys es S1 u" using 2(4) by (auto simp: greys_def S1_def)
  ultimately have V: "dfs_ok es U" "dfs_ext S1 U" "\<not> ds_cycle U \<Longrightarrow> (\<forall>v\<in>set (adj es u). colour U v = 2)"
    using 2(1)[of u U] U(1) by (auto simp: S1_def)
  have g: "colour U u = 1" using V(2) by (auto simp: dfs_ext_def S1_def)
  have "u \<notin> set (ds_order U)" using V(1) g by (auto simp: dfs_ok_def)
  moreover have "\<not> ds_cycle U \<Longrightarrow> set (adj es u) \<subseteq> set (ds_order U)" using V(1,3) by (auto simp: dfs_ok_def)
  moreover have "colour T v = (if v = u then 2 else colour U v)" for v by (simp add: U(2))
  moreover have "ds_order T = ds_order U @ [u]" "ds_cycle T = ds_cycle U" by (simp_all add: U(2))
  moreover have "{v. (if v = u then 2 else colour U v) = 2} = insert u {v. colour U v = 2}" by auto
  ultimately have "dfs_ok es T" using V(1) unfolding dfs_ok_def by simp
  moreover have "dfs_ext S T" using V(2) 2(3) by (auto simp: dfs_ext_def S1_def U(2))
  ultimately show ?case by (simp add: U(2))
next
  case (4 f es v vs S)
  have uv: "(w, v) \<in> edge_rel es" and vs: "set vs \<subseteq> set (adj es w)" using 4(7) adj_rel by auto
  consider "colour S v = 1" | "colour S v = 0" | "colour S v = 2"
    using 4(5) unfolding dfs_ok_def by (metis One_nat_def le_Suc_eq le_zero_eq numeral_2_eq_2)
  then show ?case
  proof cases
    case 1
    have "(v, v) \<in> (edge_rel es)\<^sup>+" using 4(6) 1 uv by (auto simp: greys_def intro: rtrancl_into_trancl1)
    then have "dfs_ok es (S\<lparr>ds_cycle := True\<rparr>)" using 4(5) by (auto simp: dfs_ok_def)
    moreover have "greys es (S\<lparr>ds_cycle := True\<rparr>) w" using 4(6) by (simp add: greys_def)
    ultimately have "dfs_ok es T \<and> dfs_ext (S\<lparr>ds_cycle := True\<rparr>) T \<and> (\<not> ds_cycle T \<longrightarrow> (\<forall>v\<in>set vs. colour T v = 2))"
      using 4(1)[OF 1, of w T] vs 4(8) 1 by simp
    then show ?thesis by (auto simp: dfs_ext_def)
  next
    case 2
    then obtain U where U: "dfs f es v S = Some U" "visits f es vs U = Some T" using 4(8) 2 by (auto split: option.splits)
    have "greys es S v" using 4(6) uv by (auto simp: greys_def intro: rtrancl_into_rtrancl)
    then have V: "dfs_ok es U" "dfs_ext S U" "colour U v = 2" using 4(2)[of U] 2 U(1) 4(5) by auto
    have "greys es U w" using 4(6) V(2) by (auto simp: greys_def dfs_ext_def)
    then have W: "dfs_ok es T" "dfs_ext U T" "\<not> ds_cycle T \<longrightarrow> (\<forall>v\<in>set vs. colour T v = 2)"
      using 4(3)[of U w T] 2 U V(1) vs by auto
    then show ?thesis using V ext_trans[OF V(2) W(2)] by (auto simp: dfs_ext_def)
  next
    case 3
    have "dfs_ok es T \<and> dfs_ext S T \<and> (\<not> ds_cycle T \<longrightarrow> (\<forall>v\<in>set vs. colour T v = 2))"
      using 4(4)[of w T] 3 4(5-8) vs by auto
    then show ?thesis using 3 by (auto simp: dfs_ext_def)
  qed
qed (auto simp: dfs_ext_def)

text \<open>No search makes an artifact white again.\<close>

lemma dfs_visits_white:
  "dfs f es u S = Some T \<Longrightarrow> colour T v = 0 \<Longrightarrow> colour S v = 0"
  "visits f es vs S = Some T \<Longrightarrow> colour T v = 0 \<Longrightarrow> colour S v = 0"
proof (induction f es u S and f es vs S arbitrary: T and T rule: dfs_visits.induct)
  case (2 f es u S)
  then show ?case by (auto split: option.splits if_splits)
next
  case (4 f es w vs S)
  show ?case
  proof (cases "colour S w = 0")
    case True
    then obtain U where "dfs f es w S = Some U" "visits f es vs U = Some T" using 4(5) by (auto split: option.splits)
    then show ?thesis using 4(2)[of U] 4(3)[of U T] 4(6) True by simp
  next
    case False
    then show ?thesis using 4(1)[of T] 4(4)[of T] 4(5,6) by (cases "colour S w = 1") auto
  qed
qed auto

definition whites :: "string set \<Rightarrow> dfs_state \<Rightarrow> string set" where
  "whites N S = {v \<in> N. colour S v = 0}"

lemma dfs_visits_total:
  "finite N \<Longrightarrow> (\<forall>x\<in>N. set (adj es x) \<subseteq> N) \<Longrightarrow> u \<in> N \<Longrightarrow> colour S u = 0 \<Longrightarrow> card (whites N S) \<le> f \<Longrightarrow> \<exists>T. dfs f es u S = Some T"
  "finite N \<Longrightarrow> (\<forall>x\<in>N. set (adj es x) \<subseteq> N) \<Longrightarrow> set vs \<subseteq> N \<Longrightarrow> card (whites N S) \<le> f \<Longrightarrow> \<exists>T. visits f es vs S = Some T"
proof (induction f es u S and f es vs S rule: dfs_visits.induct)
  case (1 es u S)
  then have "u \<in> whites N S" "finite (whites N S)" by (simp_all add: whites_def)
  then have "0 < card (whites N S)" by (auto simp: card_gt_0_iff)
  then show ?case using 1(5) by simp
next
  case (2 f es u S)
  have "whites N (paint 1 u S) \<subset> whites N S" using 2(4,5) by (auto simp: whites_def)
  then have "card (whites N (paint 1 u S)) < card (whites N S)" using 2(2) by (intro psubset_card_mono) (simp_all add: whites_def)
  then show ?case using 2(1)[OF 2(2,3)] 2(3,4,6) by (auto split: option.split)
next
  case (4 f es v vs S)
  have mono: "card (whites N U) \<le> card (whites N S)" if "\<And>x. colour U x = 0 \<Longrightarrow> colour S x = 0" for U
    using that 4(5) by (intro card_mono) (auto simp: whites_def)
  consider "colour S v = 1" | "colour S v = 0" | "colour S v \<noteq> 1" "colour S v \<noteq> 0" by blast
  then show ?case
  proof cases
    case 1
    then show ?thesis using 4(1)[OF 1 4(5,6)] 4(7,8) by (simp add: whites_def)
  next
    case 2
    then obtain U where U: "dfs f es v S = Some U" using 4(2)[OF _ 2 4(5,6)] 4(7,8) by auto
    have "card (whites N U) \<le> f" 
      by (rule order_trans[OF mono 4(8)], rule dfs_visits_white(1)[OF U])
    then show ?thesis using 4(3)[OF _ 2 U 4(5,6)] 4(7) 2 U by auto
  next
    case 3
    then show ?thesis using 4(4)[OF 3 4(5,6)] 4(7,8) by simp
  qed
qed auto

lemma dfs_all_ok:
  assumes "finite N" "\<forall>x\<in>N. set (adj es x) \<subseteq> N" "card N \<le> f"
  shows "dfs_ok es S \<Longrightarrow> (\<forall>v. colour S v \<noteq> 1) \<Longrightarrow> set ns \<subseteq> N \<Longrightarrow>
    \<exists>T. dfs_all f es ns S = Some T \<and> dfs_ok es T \<and> (\<forall>v. colour T v \<noteq> 1) \<and> (\<forall>v\<in>set ns. colour T v = 2) \<and> (\<forall>v. colour S v = 2 \<longrightarrow> colour T v = 2)"
proof (induction ns arbitrary: S)
  case (Cons n ns)
  show ?case
  proof (cases "colour S n = 0")
    case True
    have "card (whites N S) \<le> card N" using assms(1) by (intro card_mono) (auto simp: whites_def)
    then obtain U where U: "dfs f es n S = Some U" using dfs_visits_total(1)[OF assms(1,2), of n S f] Cons.prems(3) True assms(3) by auto
    have "greys es S n" using Cons.prems(2) by (simp add: greys_def)
    then have V: "dfs_ok es U" "dfs_ext S U" "colour U n = 2" using dfs_visits_ok(1)[OF Cons.prems(1) True _ U] by auto
    then have "\<forall>v. colour U v \<noteq> 1" using Cons.prems(2) by (simp add: dfs_ext_def)
    then obtain T where "dfs_all f es ns U = Some T" "dfs_ok es T" "\<forall>v. colour T v \<noteq> 1" "\<forall>v\<in>set ns. colour T v = 2" "\<forall>v. colour U v = 2 \<longrightarrow> colour T v = 2"
      using Cons.IH[OF V(1)] Cons.prems(3) by auto
    then show ?thesis using True U V by (auto simp: dfs_ext_def)
  next
    case False
    have "colour S n \<le> 2" "colour S n \<noteq> 1" using Cons.prems(1,2) by (simp_all add: dfs_ok_def)
    then have "colour S n = 2" using False by linarith
    then show ?thesis using Cons.IH[OF Cons.prems(1,2)] Cons.prems(3) False by auto
  qed
qed simp

section \<open>The graph that is built\<close>

definition before :: "'a list \<Rightarrow> 'a \<Rightarrow> 'a \<Rightarrow> bool" where
  "before xs v u \<longleftrightarrow> (\<exists>i j. i < j \<and> j < length xs \<and> xs ! i = v \<and> xs ! j = u)"

lemma topo_before: "topo es (rev xs) \<Longrightarrow> u \<in> set xs \<Longrightarrow> (u, v) \<in> edge_rel es \<Longrightarrow> before xs v u"
proof (induction xs rule: rev_induct)
  case (snoc x xs)
  show ?case
  proof (cases "u = x")
    case True
    then have "v \<in> set xs" using snoc.prems adj_rel[of v es x] by auto
    then obtain i where "i < length xs" "xs ! i = v" by (auto simp: in_set_conv_nth)
    then show ?thesis using True unfolding before_def by (intro exI[of _ i] exI[of _ "length xs"]) (simp add: nth_append)
  next
    case False
    then obtain i j where "i < j" "j < length xs" "xs ! i = v" "xs ! j = u" using snoc by (auto simp: before_def)
    then show ?thesis unfolding before_def by (intro exI[of _ i] exI[of _ j]) (simp add: nth_append)
  qed
qed simp

lemma before_trans: "distinct xs \<Longrightarrow> before xs v u \<Longrightarrow> before xs w v \<Longrightarrow> before xs w u"
proof -
  assume d: "distinct xs" and "before xs v u" "before xs w v"
  then obtain i j i' j' where i: "i < j" "j < length xs" "xs ! i = v" "xs ! j = u" and i': "i' < j'" "j' < length xs" "xs ! i' = w" "xs ! j' = v"
    by (auto simp: before_def)
  have "i < length xs" using i by simp
  then have "j' = i" using d i(3) i'(2,4) nth_eq_iff_index_eq[of xs j' i] by simp
  then show ?thesis using i i' unfolding before_def by (intro exI[of _ i'] exI[of _ j]) simp
qed

lemma before_irrefl: "distinct xs \<Longrightarrow> \<not> before xs u u"
  by (auto simp: before_def nth_eq_iff_index_eq)

lemma dfs_visits_black:
  "(\<forall>x\<in>N. set (adj es x) \<subseteq> N) \<Longrightarrow> u \<in> N \<Longrightarrow> dfs f es u S = Some T \<Longrightarrow> colour T v = 2 \<Longrightarrow> colour S v = 2 \<or> v \<in> N"
  "(\<forall>x\<in>N. set (adj es x) \<subseteq> N) \<Longrightarrow> set vs \<subseteq> N \<Longrightarrow> visits f es vs S = Some T \<Longrightarrow> colour T v = 2 \<Longrightarrow> colour S v = 2 \<or> v \<in> N"
proof (induction f es u S and f es vs S arbitrary: T and T rule: dfs_visits.induct)
  case (2 f es u S)
  then show ?case by (auto split: option.splits if_splits)
next
  case (4 f es w vs S)
  show ?case
  proof (cases "colour S w = 0")
    case True
    then obtain U where U: "dfs f es w S = Some U" "visits f es vs U = Some T" using 4(7) by (auto split: option.splits)
    have "colour U v = 2 \<or> v \<in> N" using 4(3)[OF _ True U(1) 4(5) _ U(2) 4(8)] 4(6) True by simp
    then show ?thesis using 4(2)[OF _ True 4(5) _ U(1)] 4(6) True by auto
  next
    case False
    then show ?thesis using 4(1)[of T] 4(4)[of T] 4(5-8) by (cases "colour S w = 1") auto
  qed
qed auto

lemma dfs_all_black:
  "(\<forall>x\<in>N. set (adj es x) \<subseteq> N) \<Longrightarrow> set ns \<subseteq> N \<Longrightarrow> dfs_all f es ns S = Some T \<Longrightarrow> colour T v = 2 \<Longrightarrow> colour S v = 2 \<or> v \<in> N"
proof (induction ns arbitrary: S)
  case (Cons n ns)
  then show ?case using dfs_visits_black(1)[of N es n f S] by (fastforce split: if_splits option.splits)
qed simp

lemma build_graph_ok:
  "\<exists>g. build_graph edges r m = Some g \<and> distinct (ag_artifacts g) \<and> collected edges r (set (ag_artifacts g)) (ag_edges g)
     \<and> (\<exists>xs. exploring edges r m (set (ag_artifacts g)) [] xs (ag_edges g))
     \<and> (ag_cycle g \<longleftrightarrow> (\<exists>x. (x, x) \<in> (edge_rel (ag_edges g))\<^sup>+))
     \<and> (\<not> ag_cycle g \<longrightarrow> (\<forall>e\<in>set (ag_edges g). before (ag_artifacts g) (ae_to e) (ae_from e)))"
proof -
  obtain ns es where c: "collect edges m ({r}, [(r, 0)]) [] = (ns, es)" by fastforce
  have "collected edges r {r} []" by (simp add: collected_def edge_rel_def)
  from collect_collected[OF this _ c] have k: "collected edges r ns es" by simp
  have "exploring edges r m {r} [(r, 0)] [] []" by (rule exploringI) auto
  from collect_exploring[OF this c] obtain xs where xs: "exploring edges r m ns [] xs es" by blast
  have N: "finite ns" "\<forall>x\<in>ns. set (adj es x) \<subseteq> ns" using k adj_rel by (auto simp: collected_def)
  define S0 where "S0 = \<lparr>ds_state = [], ds_order = [], ds_cycle = False\<rparr>"
  have "dfs_ok es S0" "\<forall>v. colour S0 v \<noteq> 1" by (simp_all add: dfs_ok_def S0_def colour_def)
  from dfs_all_ok[OF N _ this, of "card ns + 1" "sorted_list_of_set ns"] N(1) obtain T where
    T: "dfs_all (card ns + 1) es (sorted_list_of_set ns) S0 = Some T" "dfs_ok es T" "\<forall>v\<in>ns. colour T v = 2" by auto
  define g where "g = \<lparr>ag_artifacts = ds_order T, ag_edges = es, ag_cycle = ds_cycle T\<rparr>"
  have b: "build_graph edges r m = Some g" using T(1) by (simp add: build_graph_def c g_def S0_def)
  have sub: "set (ds_order T) \<subseteq> ns"
    using dfs_all_black[OF N(2) _ T(1)] T(2) N(1) by (auto simp: dfs_ok_def S0_def colour_def)
  have ord: "set (ds_order T) = ns" using T(2,3) sub by (auto simp: dfs_ok_def)
  have d: "distinct (ds_order T)" using T(2) by (simp add: dfs_ok_def)
  have bef: "before (ds_order T) v u" if "\<not> ds_cycle T" "(u, v) \<in> edge_rel es" for u v
  proof (rule topo_before[OF _ _ that(2)])
    show "topo es (rev (ds_order T))" using T(2) that(1) by (simp add: dfs_ok_def)
    show "u \<in> set (ds_order T)" using k that(2) ord by (auto simp: collected_def)
  qed
  have tr: "before (ds_order T) v u" if "\<not> ds_cycle T" "(u, v) \<in> (edge_rel es)\<^sup>+" for u v
    using that(2) by (induction rule: trancl_induct) (use bef[OF that(1)] before_trans[OF d] in blast)+
  have "ds_cycle T \<longleftrightarrow> (\<exists>x. (x, x) \<in> (edge_rel es)\<^sup>+)" using T(2) tr before_irrefl[OF d] by (auto simp: dfs_ok_def)
  moreover have "\<forall>e\<in>set es. before (ds_order T) (ae_to e) (ae_from e)" if "\<not> ds_cycle T"
    using bef[OF that] by (auto simp: edge_rel_def)
  ultimately show ?thesis using b d k ord xs by (intro exI[of _ g]) (auto simp: g_def)
qed


section \<open>Affected artifacts are the dependents\<close>

definition dependents :: "art_edge list \<Rightarrow> string \<Rightarrow> string set" where
  "dependents es c = {x. (x, c) \<in> (edge_rel es)\<^sup>+}"

text \<open>Everything found depends on the changed artifact, and what is found but not on the work list has all
  its own dependents found.\<close>

definition seen_ok :: "art_edge list \<Rightarrow> string \<Rightarrow> string set \<times> string list \<times> string list \<Rightarrow> bool" where
  "seen_ok es c s \<longleftrightarrow>
     (case s of (seen, out, stk) \<Rightarrow> set out = seen \<and> distinct out \<and> seen \<subseteq> dependents es c \<and> set stk \<subseteq> insert c seen
        \<and> (\<forall>u \<in> insert c seen - set stk. set (rev_adj es u) \<subseteq> seen))"

lemma affected_loop_ok:
  "seen_ok es c (seen, out, stk) \<Longrightarrow> distinct (affected_loop es (seen, out, stk)) \<and> set (affected_loop es (seen, out, stk)) = dependents es c"
proof (induction es "(seen, out, stk)" arbitrary: seen out stk rule: affected_loop.induct)
  case (1 es seen out stk)
  show ?case
  proof (cases "stk = []")
    case True
    have s: "set out = seen" "distinct out" "seen \<subseteq> dependents es c" "\<forall>u \<in> insert c seen. set (rev_adj es u) \<subseteq> seen"
      using 1(2) True by (auto simp: seen_ok_def)
    have "x \<in> seen" if "(x, c) \<in> (edge_rel es)\<^sup>+" for x
      using that by (induction rule: converse_trancl_induct) (use s(4) rev_adj_rel in blast)+
    then show ?thesis using s True by (auto simp: affected_loop.simps[of es seen] dependents_def)
  next
    case False
    define u where "u = last stk"
    obtain seen' out' stk' where n: "push_seen (rev_adj es u) (seen, out, butlast stk) = (seen', out', stk')" by (metis surj_pair)
    from push_seen_props[OF this] obtain p where p: "seen' = seen \<union> set (rev_adj es u)" "out' = out @ p" "stk' = butlast stk @ p"
      "set p = set (rev_adj es u) - seen" "distinct p" by blast
    have s: "set out = seen" "distinct out" "seen \<subseteq> dependents es c" "set stk \<subseteq> insert c seen"
        "\<And>w. w \<in> insert c seen \<Longrightarrow> w \<notin> set stk \<Longrightarrow> set (rev_adj es w) \<subseteq> seen"
      using 1(2) by (auto simp: seen_ok_def)
    have stk: "set stk = insert u (set (butlast stk))" using False unfolding u_def by (metis append_butlast_last_id set_append list.simps(15) list.set(1) Un_insert_right Un_empty_right)
    have u: "u \<in> insert c seen" using s(4) stk by auto
    have "set (rev_adj es u) \<subseteq> dependents es c"
    proof
      fix x assume "x \<in> set (rev_adj es u)"
      then have "(x, u) \<in> edge_rel es" using rev_adj_rel by blast
      moreover have "u = c \<or> (u, c) \<in> (edge_rel es)\<^sup>+" using u s(3) by (auto simp: dependents_def)
      ultimately show "x \<in> dependents es c" by (auto simp: dependents_def intro: trancl_into_trancl2)
    qed
    moreover have "set (rev_adj es w) \<subseteq> seen'" if "w \<in> insert c seen'" "w \<notin> set stk'" for w
    proof (cases "w = u")
      case False
      have "w \<in> insert c seen" "w \<notin> set stk" using that p(1,3,4) stk False by auto
      then show ?thesis using s(5) p(1) by blast
    qed (use p(1) in blast)
    moreover have "set out' = seen'" "distinct out'" "set stk' \<subseteq> insert c seen'"
      using s(1,2,4) p stk by auto
    ultimately have "seen_ok es c (seen', out', stk')" using s(3) p(1) by (simp add: seen_ok_def)
    then show ?thesis using 1(1)[OF False, of seen' out' stk'] n False by (simp add: affected_loop.simps[of es seen] u_def)
  qed
qed

lemma affected_ok: "distinct (affected_artifacts g c) \<and> set (affected_artifacts g c) = dependents (ag_edges g) c"
  unfolding affected_artifacts_def by (rule affected_loop_ok) (simp add: seen_ok_def)

section \<open>The depth is not a distance\<close>

text \<open>
  The work list is a stack: an artifact first met along a long path is not looked at again along a short one.
  Here \<open>d\<close> is two steps from the root, and its dependency \<open>e\<close> is lost within a depth of three.
\<close>

definition link_edge :: "string \<Rightarrow> string \<Rightarrow> art_edge" where
  "link_edge a b = \<lparr>ae_from = a, ae_to = b, ae_symbol = [], ae_cell = []\<rparr>"

definition deep_edges :: "art_edge list" where
  "deep_edges = [link_edge ''r'' ''a'', link_edge ''r'' ''b'', link_edge ''b'' ''c'', link_edge ''c'' ''d'', link_edge ''a'' ''d'', link_edge ''d'' ''e'']"

lemma deep_collect:
  "collect deep_edges 3 ({''r''}, [(''r'', 0)]) [] =
     ({''d'', ''c'', ''b'', ''a'', ''r''}, [link_edge ''r'' ''a'', link_edge ''r'' ''b'', link_edge ''b'' ''c'', link_edge ''c'' ''d'', link_edge ''a'' ''d''])"
  by (simp add: collect.simps deep_edges_def link_edge_def adj_def out_edges_def)

end
