(* ===== verification/Fve_Diff.thy ===== *)
theory Fve_Diff
  imports Fve_Cases
begin

text \<open>
  The difference of two verification runs (\<open>audit/diff\<close>): the targets of the new run against those of
  the old one, what changed in their verdicts, and whether the new run is called no worse. \<open>None\<close> is an
  exception of the JSON reader or an undefined conversion to \<open>int\<close>.
\<close>

datatype transition = SafeSafe | SafeAbstain | AbstainSafe | ToFail | FromFail | OtherChange

fun transition_name :: "transition \<Rightarrow> string" where
  "transition_name SafeSafe = ''SAFE->SAFE''"
| "transition_name SafeAbstain = ''SAFE->ABSTAIN''"
| "transition_name AbstainSafe = ''ABSTAIN->SAFE''"
| "transition_name ToFail = ''->FAIL''"
| "transition_name FromFail = ''FAIL->''"
| "transition_name OtherChange = ''other''"

definition transition_of :: "string \<Rightarrow> string \<Rightarrow> transition" where
  "transition_of a b =
     (if b = ''FAIL'' \<and> a \<noteq> ''FAIL'' then ToFail
      else if a = ''FAIL'' \<and> b \<noteq> ''FAIL'' then FromFail
      else if a = ''SAFE'' \<and> b = ''SAFE'' then SafeSafe
      else if a = ''SAFE'' \<and> b = ''ABSTAIN'' then SafeAbstain
      else if a = ''ABSTAIN'' \<and> b = ''SAFE'' then AbstainSafe
      else OtherChange)"

record target_delta =
  td_cell :: string
  td_label :: string
  td_ms_old :: ival
  td_ms_new :: ival
  td_dlo :: double
  td_dhi :: double
  td_dwidth :: double
  td_cs_old :: double
  td_cs_new :: double
  td_dcs :: double
  td_verdict_old :: string
  td_verdict_new :: string
  td_trans :: transition
  td_holes_old :: int
  td_holes_new :: int

record cert_diff =
  cd_old :: string
  cd_new :: string
  cd_artifact :: string
  cd_targets :: "target_delta list"
  cd_new_holes :: "string list"
  cd_closed_holes :: "string list"
  cd_safe :: bool
  cd_summary :: string
  cd_ok :: bool

definition enc_of :: "json \<Rightarrow> ival" where
  "enc_of t =
     (if jhas t ''ms_enclosure'' then (case jarr (jat t ''ms_enclosure'') of [x, y] \<Rightarrow> Ival (jnum x) (jnum y) | _ \<Rightarrow> Ival (Fin 0) (Fin 0))
      else Ival (Fin 0) (Fin 0))"

definition targets_by_cell :: "json \<Rightarrow> (string, json) omap" where
  "targets_by_cell r =
     (if jhas r ''targets'' then foldl (\<lambda>m t. mput (jstr t ''cell'' []) t m) [] (jarr (jat r ''targets'')) else [])"

text \<open>The half of a delta that the new run gives, then the other half.\<close>

definition fresh_delta :: "string \<Rightarrow> json \<Rightarrow> int \<Rightarrow> target_delta" where
  "fresh_delta cell tn h =
     \<lparr>td_cell = cell, td_label = jstr tn ''label'' [], td_ms_old = ival_empty, td_ms_new = enc_of tn, td_dlo = Fin 0, td_dhi = Fin 0,
      td_dwidth = Fin 0, td_cs_old = Fin 0, td_cs_new = jn tn ''cs'' (Fin 0), td_dcs = Fin 0, td_verdict_old = ''(absent)'',
      td_verdict_new = jstr tn ''verdict'' [], td_trans = OtherChange, td_holes_old = 0, td_holes_new = h\<rparr>"

definition matched_delta :: "json \<Rightarrow> int \<Rightarrow> target_delta \<Rightarrow> target_delta" where
  "matched_delta to ho d =
     (let mo = enc_of to; vo = jstr to ''verdict'' []; co = jn to ''cs'' (Fin 0)
      in d\<lparr>td_ms_old := mo, td_cs_old := co, td_verdict_old := vo, td_holes_old := ho,
           td_dlo := fsub RNear (lo (td_ms_new d)) (lo mo), td_dhi := fsub RNear (hi (td_ms_new d)) (hi mo),
           td_dwidth := fsub RNear (width (td_ms_new d)) (width mo), td_dcs := fsub RNear (td_cs_new d) co,
           td_trans := transition_of vo (td_verdict_new d)\<rparr>)"

definition worse :: "double \<Rightarrow> bool" where
  "worse d = flt (c_lit (5 / 100)) d"

definition better :: "double \<Rightarrow> bool" where
  "better d = flt d (fneg (c_lit (5 / 100)))"

definition regressed :: "target_delta \<Rightarrow> bool" where
  "regressed d = (td_trans d = ToFail \<or> td_trans d = SafeAbstain \<or> td_trans d = SafeSafe \<and> worse (td_dcs d))"

definition add_target :: "(string, json) omap \<Rightarrow> string \<Rightarrow> json \<Rightarrow> cert_diff \<Rightarrow> cert_diff option" where
  "add_target old cell tn d =
     Option.bind (int_field tn ''holes'') (\<lambda>h.
       let f = fresh_delta cell tn h
       in case mget old cell of
            None \<Rightarrow> Some (d\<lparr>cd_targets := cd_targets d @ [f]\<rparr>)
          | Some to \<Rightarrow>
              map_option (\<lambda>ho. let t = matched_delta to ho f
                in d\<lparr>cd_targets := cd_targets d @ [t],
                     cd_new_holes := (if ho < h then cd_new_holes d @ [cell] else cd_new_holes d),
                     cd_closed_holes := (if h < ho then cd_closed_holes d @ [cell] else cd_closed_holes d),
                     cd_safe := (if regressed t then False else cd_safe d)\<rparr>)
                (int_field to ''holes''))"

fun add_targets :: "(string, json) omap \<Rightarrow> (string \<times> json) list \<Rightarrow> cert_diff \<Rightarrow> cert_diff option" where
  "add_targets old [] d = Some d"
| "add_targets old ((cell, tn) # ts) d = Option.bind (add_target old cell tn d) (add_targets old ts)"

definition diff_start :: "string \<Rightarrow> string \<Rightarrow> cert_diff" where
  "diff_start a b = \<lparr>cd_old = a, cd_new = b, cd_artifact = [], cd_targets = [], cd_new_holes = [], cd_closed_holes = [],
     cd_safe = True, cd_summary = [], cd_ok = False\<rparr>"

text \<open>The order puts the greatest change first.\<close>

definition hotter :: "target_delta \<Rightarrow> target_delta \<Rightarrow> bool" where
  "hotter a b = flt (fabs (td_dcs b)) (fabs (td_dcs a))"

definition summary_text :: "target_delta list \<Rightarrow> bool \<Rightarrow> string" where
  "summary_text ts safe =
     show_nat (length ts) @ '' targets: '' @ show_nat (length (filter (\<lambda>t. \<not> worse (td_dcs t) \<and> better (td_dcs t)) ts)) @ '' improved, ''
     @ show_nat (length (filter (\<lambda>t. worse (td_dcs t)) ts)) @ '' regressed; '' @ (if safe then ''Rev_new not worse'' else ''REGRESSION'')"

definition diff_runs :: "store \<Rightarrow> string \<Rightarrow> string \<Rightarrow> cert_diff option" where
  "diff_runs s a b =
     Option.bind (store_get s ''runs'' a) (\<lambda>ra. Option.bind (store_get s ''runs'' b) (\<lambda>rb.
       case (ra, rb) of
         (Some ja, Some jb) \<Rightarrow>
           map_option (\<lambda>d. let ts = sort_lt hotter (cd_targets d)
               in d\<lparr>cd_targets := ts, cd_summary := summary_text ts (cd_safe d), cd_ok := True\<rparr>)
             (add_targets (targets_by_cell ja) (targets_by_cell jb) ((diff_start a b)\<lparr>cd_artifact := jstr jb ''artifact'' []\<rparr>))
       | _ \<Rightarrow> Some (diff_start a b)))"

definition delta_json :: "target_delta \<Rightarrow> json" where
  "delta_json t = mkobj
     [(''cell'', JStr (td_cell t)), (''label'', JStr (td_label t)), (''verdict_old'', JStr (td_verdict_old t)), (''verdict_new'', JStr (td_verdict_new t)),
      (''transition'', JStr (transition_name (td_trans t))), (''delta_cs'', JNum (td_dcs t)), (''delta_width'', JNum (td_dwidth t)),
      (''cs_old'', JNum (td_cs_old t)), (''cs_new'', JNum (td_cs_new t))]"

definition cert_diff_json :: "cert_diff \<Rightarrow> json" where
  "cert_diff_json d = mkobj
     [(''ok'', JBool (cd_ok d)), (''run_old'', JStr (cd_old d)), (''run_new'', JStr (cd_new d)), (''artifact'', JStr (cd_artifact d)),
      (''safe'', JBool (cd_safe d)), (''summary'', JStr (cd_summary d)), (''targets'', JArr (map delta_json (cd_targets d))),
      (''new_holes'', JArr (map JStr (cd_new_holes d))), (''closed_holes'', JArr (map JStr (cd_closed_holes d)))]"

section \<open>What the flag says\<close>

text \<open>The flag is cleared exactly by a target of both runs that regressed.\<close>

definition old_present :: "(string, json) omap \<Rightarrow> target_delta \<Rightarrow> bool" where
  "old_present old t = (mget old (td_cell t) \<noteq> None)"

lemma matched_cell [simp]: "td_cell (matched_delta to ho d) = td_cell d" "td_cell (fresh_delta cell tn h) = cell"
  by (simp_all add: matched_delta_def fresh_delta_def Let_def)

lemma fresh_calm: "\<not> regressed (fresh_delta cell tn h)"
  by (simp add: fresh_delta_def regressed_def)

lemma add_target_safe:
  assumes "add_target old cell tn d = Some d'"
  shows "\<exists>t. cd_targets d' = cd_targets d @ [t] \<and> td_cell t = cell \<and> (cd_safe d' \<longleftrightarrow> cd_safe d \<and> \<not> regressed t)
    \<and> (mget old cell = None \<longrightarrow> \<not> regressed t)"
proof -
  obtain h where h: "int_field tn ''holes'' = Some h" using assms by (auto simp: add_target_def Option.bind_eq_Some_conv)
  show ?thesis
  proof (cases "mget old cell")
    case None
    then show ?thesis using assms h fresh_calm by (auto simp: add_target_def)
  next
    case (Some to)
    then show ?thesis using assms h by (auto simp: add_target_def Let_def)
  qed
qed

lemma add_targets_safe:
  "add_targets old ts d = Some d' \<Longrightarrow> \<exists>us. cd_targets d' = cd_targets d @ us \<and> map td_cell us = map fst ts
     \<and> (cd_safe d' \<longleftrightarrow> cd_safe d \<and> list_all (\<lambda>t. \<not> regressed t) us) \<and> list_all (\<lambda>t. old_present old t \<or> \<not> regressed t) us"
proof (induction ts arbitrary: d)
  case (Cons p ts)
  obtain cell tn where p: "p = (cell, tn)" by (cases p)
  obtain d1 where d1: "add_target old cell tn d = Some d1" "add_targets old ts d1 = Some d'"
    using Cons.prems by (auto simp: p Option.bind_eq_Some_conv)
  obtain t where t: "cd_targets d1 = cd_targets d @ [t]" "td_cell t = cell" "cd_safe d1 \<longleftrightarrow> cd_safe d \<and> \<not> regressed t"
      "mget old cell = None \<longrightarrow> \<not> regressed t" using add_target_safe[OF d1(1)] by (elim exE conjE) (rule that)
  obtain us where us: "cd_targets d' = cd_targets d1 @ us" "map td_cell us = map fst ts" "cd_safe d' \<longleftrightarrow> cd_safe d1 \<and> list_all (\<lambda>t. \<not> regressed t) us"
      "list_all (\<lambda>t. old_present old t \<or> \<not> regressed t) us" using Cons.IH[OF d1(2)] by (elim exE conjE) (rule that)
  show ?case by (rule exI[of _ "t # us"]) (use t us in \<open>auto simp: p old_present_def\<close>)
qed simp

lemma diff_runs_safe:
  assumes "diff_runs s a b = Some d" "cd_ok d"
  shows "\<exists>ja jb. store_get s ''runs'' a = Some (Some ja) \<and> store_get s ''runs'' b = Some (Some jb)
    \<and> td_cell ` set (cd_targets d) = fst ` set (targets_by_cell jb)
    \<and> (cd_safe d \<longleftrightarrow> (\<forall>t\<in>set (cd_targets d). \<not> regressed t))
    \<and> (\<forall>t\<in>set (cd_targets d). regressed t \<longrightarrow> old_present (targets_by_cell ja) t)"
proof -
  obtain ra rb where r: "store_get s ''runs'' a = Some ra" "store_get s ''runs'' b = Some rb"
    using assms(1) by (auto simp: diff_runs_def Option.bind_eq_Some_conv)
  have "\<not> cd_ok (diff_start a b)" by (simp add: diff_start_def)
  then obtain ja jb where j: "ra = Some ja" "rb = Some jb"
    using assms r by (cases ra; cases rb) (simp_all add: diff_runs_def)
  define d0 where "d0 = (diff_start a b)\<lparr>cd_artifact := jstr jb ''artifact'' []\<rparr>"
  obtain d1 where d1: "add_targets (targets_by_cell ja) (targets_by_cell jb) d0 = Some d1"
      "cd_targets d = sort_lt hotter (cd_targets d1)" "cd_safe d = cd_safe d1"
  proof (cases "add_targets (targets_by_cell ja) (targets_by_cell jb) d0")
    case None
    then show ?thesis using assms(1) by (simp add: diff_runs_def r j d0_def)
  next
    case (Some d1)
    have "d = (let ts = sort_lt hotter (cd_targets d1) in d1\<lparr>cd_targets := ts, cd_summary := summary_text ts (cd_safe d1), cd_ok := True\<rparr>)"
      using assms(1) Some by (simp add: diff_runs_def r j d0_def)
    then show ?thesis using that[OF Some] by (simp add: Let_def)
  qed
  from add_targets_safe[OF d1(1)] obtain us where us: "cd_targets d1 = cd_targets d0 @ us" "map td_cell us = map fst (targets_by_cell jb)"
      "cd_safe d1 \<longleftrightarrow> cd_safe d0 \<and> list_all (\<lambda>t. \<not> regressed t) us" "list_all (\<lambda>t. old_present (targets_by_cell ja) t \<or> \<not> regressed t) us"
    by (elim exE conjE) (rule that)
  have d0: "cd_targets d0 = []" "cd_safe d0" by (simp_all add: d0_def diff_start_def)
  have t: "set (cd_targets d) = set us" using d1(2) us(1) d0(1) by simp
  have "td_cell ` set us = fst ` set (targets_by_cell jb)" using us(2) by (metis set_map)
  then show ?thesis using r j t d1(3) us(3,4) d0(2) by (auto simp: list_all_iff)
qed

text \<open>A run without targets is never worse: targets that are gone are not looked for.\<close>

lemma no_targets_safe:
  assumes "store_get s ''runs'' a = Some (Some ja)" "store_get s ''runs'' b = Some (Some jb)" "targets_by_cell jb = []"
  shows "\<exists>d. diff_runs s a b = Some d \<and> cd_ok d \<and> cd_safe d"
  using assms by (simp add: diff_runs_def diff_start_def Let_def)

end
