(* ===== verification/Fve_Files.thy ===== *)
theory Fve_Files
  imports Fve_Archive Fve_Xml Fve_Workbook Fve_Order
begin

text \<open>
  The first layer (\<open>l0\<close>): the walk over a directory tree, the fingerprint of a file's format, the
  revision in a file's name and the polling watcher's comparison. The system is a record of functions:
  the names in a directory, the status of a path with and without following a link, and the bytes of a
  file. The walk is bounded by its own depth guard. \<open>None\<close> in the revisions is an exception of
  \<open>std::stod\<close>; the fingerprint has the inflater's results.
\<close>

section \<open>The system\<close>

datatype file_kind = KDir | KReg | KLink | KOtherFile

record file_stat =
  fs_kind :: file_kind
  fs_dev :: int
  fs_ino :: int
  fs_size :: int
  fs_mtime :: int

record system =
  sys_readdir :: "string \<Rightarrow> string list option"
  sys_lstat :: "string \<Rightarrow> file_stat option"
  sys_stat :: "string \<Rightarrow> file_stat option"
  sys_read :: "string \<Rightarrow> byte list option"

section \<open>The walk\<close>

record fs_dir =
  fd_path :: string
  fd_rel :: string
  fd_name :: string
  fd_parent :: int
  fd_depth :: int

record fs_file =
  ff_path :: string
  ff_rel :: string
  ff_name :: string
  ff_ext :: string
  ff_dir :: nat
  ff_size :: int
  ff_mtime :: int

record crawl_result =
  cr_dirs :: "fs_dir list"
  cr_files :: "fs_file list"
  cr_errors :: "(string \<times> string) list"
  cr_scanned :: nat
  cr_skipped :: nat

text \<open>The text behind the last occurrence of a character, if there is one.\<close>

definition after_last :: "char \<Rightarrow> string \<Rightarrow> string option" where
  "after_last c s = (if c \<in> set s then Some (rev (takeWhile (\<lambda>x. x \<noteq> c) (rev s))) else None)"

definition lower_text :: "string \<Rightarrow> string" where
  "lower_text s = map lower_char s"

definition lower_ext :: "string \<Rightarrow> string" where
  "lower_ext name = (case after_last CHR ''.'' name of None \<Rightarrow> [] | Some e \<Rightarrow> lower_text e)"

definition wanted :: "string \<Rightarrow> string list \<Rightarrow> bool" where
  "wanted ext exts = (if exts = [] then True else ext \<in> set exts)"

definition add_error :: "string \<Rightarrow> string \<Rightarrow> crawl_result \<Rightarrow> crawl_result" where
  "add_error p why out = out\<lparr>cr_errors := cr_errors out @ [(p, why)]\<rparr>"

type_synonym seen_dirs = "(int \<times> int) set"
type_synonym scan_state = "crawl_result \<times> seen_dirs \<times> (string \<times> string) list"

definition sub_rel :: "string \<Rightarrow> string \<Rightarrow> string" where
  "sub_rel rel n = (if rel = [] then n else rel @ ''/'' @ n)"

definition scan_reg :: "string \<Rightarrow> string \<Rightarrow> string \<Rightarrow> nat \<Rightarrow> string list \<Rightarrow> int \<Rightarrow> file_stat \<Rightarrow> crawl_result \<Rightarrow> crawl_result" where
  "scan_reg ap rp n idx exts since st out =
     (let out1 = out\<lparr>cr_scanned := cr_scanned out + 1\<rparr>; ext = lower_ext n
      in if \<not> wanted ext exts then out1
         else if 0 < since \<and> fs_mtime st \<le> since then out1\<lparr>cr_skipped := cr_skipped out1 + 1\<rparr>
         else out1\<lparr>cr_files := cr_files out1 @ [\<lparr>ff_path = ap, ff_rel = rp, ff_name = n, ff_ext = ext, ff_dir = idx,
                ff_size = fs_size st, ff_mtime = fs_mtime st\<rparr>]\<rparr>)"

text \<open>One name of a directory.\<close>

definition scan_entry :: "system \<Rightarrow> string \<Rightarrow> string \<Rightarrow> nat \<Rightarrow> string list \<Rightarrow> int \<Rightarrow> string \<Rightarrow> scan_state \<Rightarrow> scan_state" where
  "scan_entry sys here rel idx exts since n s =
     (let (out, seen, subs) = s; ap = here @ ''/'' @ n; rp = sub_rel rel n
      in if n = ''.'' \<or> n = ''..'' \<or> (n \<noteq> [] \<and> n ! 0 = CHR ''.'') then s
         else
           (case sys_lstat sys ap of
              None \<Rightarrow> (add_error ap ''lstat_failed'' out, seen, subs)
            | Some st0 \<Rightarrow>
                (case (if fs_kind st0 = KLink then sys_stat sys ap else Some st0) of
                   None \<Rightarrow> (add_error ap ''dangling_symlink'' out, seen, subs)
                 | Some st \<Rightarrow>
                     if fs_kind st = KDir then
                       (if (fs_dev st, fs_ino st) \<in> seen then (add_error ap ''cycle_skipped'' out, seen, subs)
                        else (out, insert (fs_dev st, fs_ino st) seen, subs @ [(ap, rp)]))
                     else if fs_kind st = KReg then (scan_reg ap rp n idx exts since st out, seen, subs)
                     else s)))"

definition pair_less :: "string \<times> string \<Rightarrow> string \<times> string \<Rightarrow> bool" where
  "pair_less a b = (fst a < fst b \<or> fst a = fst b \<and> snd a < snd b)"

text \<open>\<open>k\<close> counts the levels the depth guard still allows.\<close>

fun walk :: "nat \<Rightarrow> system \<Rightarrow> string list \<Rightarrow> int \<Rightarrow> string \<Rightarrow> string \<Rightarrow> nat \<Rightarrow> crawl_result \<times> seen_dirs \<Rightarrow> crawl_result \<times> seen_dirs"
  and walks :: "nat \<Rightarrow> system \<Rightarrow> string list \<Rightarrow> int \<Rightarrow> nat \<Rightarrow> (string \<times> string) list \<Rightarrow> crawl_result \<times> seen_dirs \<Rightarrow> crawl_result \<times> seen_dirs" where
  "walk 0 sys exts since here rel idx (out, seen) = (add_error here ''max_depth'' out, seen)"
| "walk (Suc k) sys exts since here rel idx (out, seen) =
     (case sys_readdir sys here of
        None \<Rightarrow> (add_error here ''opendir_failed'' out, seen)
      | Some names \<Rightarrow>
          (let (out1, seen1, subs) = fold (scan_entry sys here rel idx exts since) names (out, seen, [])
           in walks k sys exts since idx (sort_lt pair_less subs) (out1, seen1)))"
| "walks k sys exts since idx [] s = s"
| "walks k sys exts since idx (sd # sds) (out, seen) =
     (let nm = (case after_last CHR ''/'' (snd sd) of None \<Rightarrow> snd sd | Some t \<Rightarrow> t);
          d = \<lparr>fd_path = fst sd, fd_rel = snd sd, fd_name = nm, fd_parent = int idx, fd_depth = fd_depth (cr_dirs out ! idx) + 1\<rparr>
      in walks k sys exts since idx sds
           (walk k sys exts since (fst sd) (snd sd) (length (cr_dirs out)) (out\<lparr>cr_dirs := cr_dirs out @ [d]\<rparr>, seen)))"

definition crawl :: "system \<Rightarrow> string \<Rightarrow> string list \<Rightarrow> int \<Rightarrow> crawl_result" where
  "crawl sys root' exts since =
     (let d = \<lparr>fd_path = root', fd_rel = [], fd_name = ''.'', fd_parent = - 1, fd_depth = 0\<rparr>;
          out = \<lparr>cr_dirs = [d], cr_files = [], cr_errors = [], cr_scanned = 0, cr_skipped = 0\<rparr>;
          seen = (case sys_stat sys root' of None \<Rightarrow> {} | Some st \<Rightarrow> {(fs_dev st, fs_ino st)})
      in fst (walk 65 sys exts since root' [] 0 (out, seen)))"

section \<open>The watcher\<close>

definition file_digest :: "system \<Rightarrow> string \<Rightarrow> string" where
  "file_digest sys p = hex (sha256_file (case sys_read sys p of None \<Rightarrow> [] | Some ys \<Rightarrow> [ys]))"

definition file_id_for :: "string \<Rightarrow> string" where
  "file_id_for rel = ''file_'' @ take 16 (hex (sha256_str rel))"

definition poll_file :: "system \<Rightarrow> fs_file \<Rightarrow> string list \<times> (string, string) omap \<Rightarrow> string list \<times> (string, string) omap" where
  "poll_file sys f cs =
     (let sha = file_digest sys (ff_path f)
      in (if mget (snd cs) (ff_rel f) = Some sha then fst cs else fst cs @ [ff_rel f], mput (ff_rel f) sha (snd cs)))"

definition poll_once :: "system \<Rightarrow> string \<Rightarrow> (string, string) omap \<Rightarrow> string list \<times> (string, string) omap" where
  "poll_once sys root' seen = fold (poll_file sys) (cr_files (crawl sys root' [''xlsx'', ''xlsm'', ''xlsb'', ''csv''] 0)) ([], seen)"

section \<open>Fingerprints\<close>

record domain_schema =
  sc_format :: string
  sc_domain :: string
  sc_markers :: "string list"

definition schema_registry :: "domain_schema list" where
  "schema_registry =
     [\<lparr>sc_format = ''skin_stringer_fem'', sc_domain = ''structural.skin_stringer'',
        sc_markers = [''ms_summary'', ''stringerfemloads'', ''skin_flows'', ''aux_skin_input'', ''aux_stringer_input'', ''stringer'', ''skin'', ''buckling'', ''crippling'']\<rparr>,
      \<lparr>sc_format = ''stringer_fem_loads'', sc_domain = ''structural.stringer'', sc_markers = [''bay id'', ''fem load case'', ''nx'', ''nxy'', ''msstr_buck'']\<rparr>,
      \<lparr>sc_format = ''rivet_joint'', sc_domain = ''fastener.rivet'', sc_markers = [''rivet'', ''bacr15fv'', ''shear'', ''pitch'', ''rivet diameter'']\<rparr>,
      \<lparr>sc_format = ''bolt_joint'', sc_domain = ''fastener.bolt'', sc_markers = [''bolt'', ''torque'', ''preload'', ''bolt diameter'', ''shank'']\<rparr>,
      \<lparr>sc_format = ''frame_section'', sc_domain = ''structural.frame'', sc_markers = [''frame'', ''station'', ''moment of inertia'', ''bending'']\<rparr>,
      \<lparr>sc_format = ''panel_buckling'', sc_domain = ''structural.panel'', sc_markers = [''panel'', ''buckling'', ''sigma_cr'', ''kc'']\<rparr>]"

record print_of =
  fp_format :: string
  fp_domain :: string
  fp_sig :: string
  fp_hits :: nat
  fp_parsed :: bool
  fp_markers :: "string list"

definition fp_none :: print_of where
  "fp_none = \<lparr>fp_format = ''unknown_format'', fp_domain = ''unknown'', fp_sig = [], fp_hits = 0, fp_parsed = False, fp_markers = []\<rparr>"

definition occurs :: "string \<Rightarrow> string \<Rightarrow> bool" where
  "occurs m s = (split_at m s \<noteq> None)"

text \<open>Tokens of at least two printable characters; the state is the current token and the tag flag.\<close>

definition tok_flush :: "string \<Rightarrow> string list \<times> string \<Rightarrow> string list \<times> string" where
  "tok_flush cur tc = (if 2 \<le> length cur then (fst tc @ [cur], snd tc @ cur @ '' '') else tc)"

fun tokens_loop :: "bool \<Rightarrow> byte list \<Rightarrow> string \<Rightarrow> bool \<Rightarrow> string list \<times> string \<Rightarrow> string list \<times> string" where
  "tokens_loop strip [] cur tag tc = tok_flush cur tc"
| "tokens_loop strip (y # ys) cur tag tc =
     (let c = unat y
      in if c = 0 then tokens_loop strip ys cur tag tc
         else if strip \<and> c = 60 then tokens_loop strip ys [] True (tok_flush cur tc)
         else if strip \<and> c = 62 then tokens_loop strip ys cur False tc
         else if strip \<and> tag then tokens_loop strip ys cur tag tc
         else if 32 \<le> c \<and> c < 127 \<and> c \<noteq> 32 \<and> c \<noteq> 44 \<and> c \<noteq> 59 then tokens_loop strip ys (cur @ [char_of c]) tag tc
         else tokens_loop strip ys [] tag (tok_flush cur tc))"

definition tokens_of :: "byte list \<Rightarrow> bool \<Rightarrow> string list \<times> string \<Rightarrow> string list \<times> string" where
  "tokens_of ys strip tc = tokens_loop strip ys [] False tc"

definition marker_hits :: "string \<Rightarrow> domain_schema \<Rightarrow> nat" where
  "marker_hits lc sc = length (filter (\<lambda>m. occurs m lc) (sc_markers sc))"

definition classify :: "string \<Rightarrow> string \<Rightarrow> print_of" where
  "classify corpus sg =
     (let lc = lower_text corpus;
          (best, sc) = foldl (\<lambda>(b, o') sc. if b < marker_hits lc sc then (marker_hits lc sc, Some sc) else (b, o')) (0, None) schema_registry
      in case sc of
           None \<Rightarrow> fp_none\<lparr>fp_sig := sg\<rparr>
         | Some c \<Rightarrow> fp_none\<lparr>fp_sig := sg, fp_hits := best, fp_format := sc_format c, fp_domain := sc_domain c,
             fp_markers := filter (\<lambda>m. occurs m lc) (sc_markers c)\<rparr>)"

text \<open>The loop over the small worksheets with its budget of bytes.\<close>

fun sheet_tokens :: "(string \<Rightarrow> byte list option) \<Rightarrow> nat \<Rightarrow> zip_index \<Rightarrow> bool \<Rightarrow> string list \<Rightarrow> nat \<Rightarrow> string \<Rightarrow> string zres" where
  "sheet_tokens fs f z xml [] budget corpus = ZOk corpus"
| "sheet_tokens fs f z xml (name # names) budget corpus =
     (if take 18 name \<noteq> ''xl/worksheets/shee'' then sheet_tokens fs f z xml names budget corpus
      else let us = zi_usize_of z name
           in if us = 0 \<or> 2097152 < us \<or> budget < us then sheet_tokens fs f z xml names budget corpus
              else zbind (zi_extract fs f z name 2097152) (\<lambda>ys.
                let corpus1 = snd (tokens_of ys xml ([], corpus)); budget1 = budget - us
                in if 400000 < length corpus1 \<or> budget1 = 0 then ZOk corpus1 else sheet_tokens fs f z xml names budget1 corpus1))"

definition from_opc :: "(string \<Rightarrow> byte list option) \<Rightarrow> nat \<Rightarrow> zip_index \<Rightarrow> bool \<Rightarrow> print_of zres" where
  "from_opc fs f z xml =
     zbind (zi_extract fs f z (if xml then ''xl/workbook.xml'' else ''xl/workbook.bin'') 8388608) (\<lambda>wb.
       let (toks, corpus) = tokens_of wb xml ([], [])
       in zbind (zi_extract fs f z (if xml then ''xl/sharedStrings.xml'' else ''xl/sharedStrings.bin'') 33554432) (\<lambda>ss.
         let corpus1 = snd (tokens_of ss xml ([], corpus))
         in zbind (if length corpus1 < 200000 then sheet_tokens fs f z xml (zi_names z) 8388608 corpus1 else ZOk corpus1) (\<lambda>corpus2.
           let uniq = sorted_list_of_set (set toks); canon = ''n:'' @ show_nat (length uniq) @ ''|'' @ concat (map (\<lambda>t. t @ '','') uniq)
           in ZOk ((classify corpus2 (hex (sha256_str canon)))\<lparr>fp_parsed := True\<rparr>))))"

definition fingerprint_text :: "string \<Rightarrow> print_of" where
  "fingerprint_text h = (classify h (hex (sha256_str h)))\<lparr>fp_parsed := True\<rparr>"

text \<open>A file that cannot be read gives an empty head.\<close>

definition fingerprint :: "(string \<Rightarrow> byte list option) \<Rightarrow> nat \<Rightarrow> string \<Rightarrow> string \<Rightarrow> print_of zres" where
  "fingerprint fs f path ext =
     (let other = ZOk (fp_none\<lparr>fp_sig := hex (sha256_str path)\<rparr>)
      in if ext = ''xlsx'' \<or> ext = ''xlsm'' \<or> ext = ''xlsb'' then
           zbind (open_zip_file fs path) (\<lambda>z. if zi_ok z then from_opc fs f z (ext \<noteq> ''xlsb'') else other)
         else if ext = ''csv'' \<or> ext = ''txt'' \<or> ext = ''tsv'' then
           ZOk (fingerprint_text (text_of (take 4096 (case fs path of None \<Rightarrow> [] | Some ys \<Rightarrow> ys))))
         else other)"

section \<open>Revisions\<close>

record revision =
  rv_key :: string
  rv_label :: string
  rv_rank :: double
  rv_found :: bool

definition strip_ext :: "string \<Rightarrow> string" where
  "strip_ext n = (case after_last CHR ''.'' n of None \<Rightarrow> n | Some e \<Rightarrow> take (length n - length e - 1) n)"

definition is_sep :: "char \<Rightarrow> bool" where
  "is_sep c = (c \<in> set ''_- .()'')"

fun split_tokens :: "string \<Rightarrow> string \<Rightarrow> string list" where
  "split_tokens [] cur = (if cur = [] then [] else [cur])"
| "split_tokens (c # s) cur =
     (if is_sep c then (if cur = [] then split_tokens s [] else cur # split_tokens s []) else split_tokens s (cur @ [c]))"

definition all_digits :: "string \<Rightarrow> bool" where
  "all_digits s = (s \<noteq> [] \<and> list_all is_digit s)"

definition all_alnum :: "string \<Rightarrow> bool" where
  "all_alnum s = (s \<noteq> [] \<and> list_all (\<lambda>c. is_digit c \<or> is_alpha c) s)"

definition letters_rank :: "string \<Rightarrow> double" where
  "letters_rank s =
     foldl (\<lambda>r c. fadd RNear (fmul RNear r (Fin 26)) (Fin (real_of_int (of_char (lower_char c) - 97 + 1)))) (Fin 0) s"

definition alnum_rank :: "string \<Rightarrow> double option" where
  "alnum_rank s =
     (let al = filter is_alpha s; dg = filter is_digit s
      in if al \<noteq> [] then
           (if dg = [] then Some (letters_rank al)
            else map_option (\<lambda>d. fadd RNear (letters_rank al) (fdiv RNear d (Fin 1000))) (stod dg))
         else if dg = [] then Some (Fin 0) else stod dg)"

definition rev_value :: "string \<Rightarrow> bool" where
  "rev_value s = (all_alnum s \<and> length s \<le> 4 \<and> (list_ex is_digit s \<or> length s \<le> 2))"

definition take_rev :: "double option \<Rightarrow> string \<Rightarrow> revision \<Rightarrow> revision option" where
  "take_rev rank label r = map_option (\<lambda>d. r\<lparr>rv_rank := d, rv_label := label, rv_found := True\<rparr>) rank"

definition rev_word :: "string \<Rightarrow> bool" where
  "rev_word t = (t = ''rev'' \<or> t = ''revision'' \<or> t = ''ver'' \<or> t = ''version'')"

text \<open>What a token standing alone says: a revision, or nothing.\<close>

definition token_rev :: "string \<Rightarrow> (double option \<times> string) option" where
  "token_rev t =
     (if 3 < length t \<and> take 3 t = ''rev'' \<and> rev_value (drop 3 t) then Some (alnum_rank (drop 3 t), ''rev'' @ drop 3 t)
      else if t \<noteq> [] \<and> t ! 0 = CHR ''v'' \<and> all_digits (tl t) then Some (stod (tl t), ''v'' @ tl t)
      else if t \<noteq> [] \<and> t ! 0 = CHR ''r'' \<and> all_digits (tl t) then Some (stod (tl t), ''r'' @ tl t)
      else None)"

fun rev_loop :: "string list \<Rightarrow> revision \<Rightarrow> string list \<Rightarrow> (revision \<times> string list) option" where
  "rev_loop [] r keep = Some (r, keep)"
| "rev_loop [t] r keep =
     (case token_rev (lower_text t) of
        Some (d, l) \<Rightarrow> Option.bind (take_rev d l r) (\<lambda>r1. rev_loop [] r1 keep)
      | None \<Rightarrow> rev_loop [] r (keep @ [lower_text t]))"
| "rev_loop (t # u # ts) r keep =
     (if rev_word (lower_text t) \<and> rev_value (lower_text u)
      then Option.bind (take_rev (alnum_rank (lower_text u)) (''rev'' @ lower_text u) r) (\<lambda>r1. rev_loop ts r1 keep)
      else case token_rev (lower_text t) of
             Some (d, l) \<Rightarrow> Option.bind (take_rev d l r) (\<lambda>r1. rev_loop (u # ts) r1 keep)
           | None \<Rightarrow> rev_loop (u # ts) r (keep @ [lower_text t]))"

definition parse_revision :: "string \<Rightarrow> revision option" where
  "parse_revision name =
     (let nm = strip_ext name
      in map_option (\<lambda>(r, keep). let k = join CHR ''_'' keep in r\<lparr>rv_key := if k = [] then lower_text nm else k\<rparr>)
           (rev_loop (split_tokens nm []) \<lparr>rv_key = [], rv_label = [], rv_rank = Fin 0, rv_found = False\<rparr> []))"

section \<open>What the walk keeps\<close>

definition dirs_ok :: "fs_dir list \<Rightarrow> bool" where
  "dirs_ok ds \<longleftrightarrow> ds \<noteq> [] \<and> (\<forall>i<length ds. if i = 0 then fd_parent (ds ! i) = - 1 \<and> fd_depth (ds ! i) = 0
     else 0 \<le> fd_parent (ds ! i) \<and> fd_parent (ds ! i) < int i \<and> fd_depth (ds ! i) = fd_depth (ds ! nat (fd_parent (ds ! i))) + 1)"

definition file_ok :: "string list \<Rightarrow> int \<Rightarrow> nat \<Rightarrow> fs_file \<Rightarrow> bool" where
  "file_ok exts since n f \<longleftrightarrow> ff_dir f < n \<and> wanted (ff_ext f) exts \<and> ff_ext f = lower_ext (ff_name f) \<and> (0 < since \<longrightarrow> since < ff_mtime f)"

definition crawl_ok :: "string list \<Rightarrow> int \<Rightarrow> crawl_result \<Rightarrow> bool" where
  "crawl_ok exts since out \<longleftrightarrow> dirs_ok (cr_dirs out) \<and> list_all (file_ok exts since (length (cr_dirs out))) (cr_files out)"

lemma dirs_snoc:
  assumes "dirs_ok ds" "idx < length ds" "fd_parent d = int idx" "fd_depth d = fd_depth (ds ! idx) + 1"
  shows "dirs_ok (ds @ [d])"
  using assms by (auto simp: dirs_ok_def nth_append less_Suc_eq Let_def split: if_splits)

text \<open>One entry adds no directory; it remembers one more exactly when it is queued.\<close>

lemma scan_entry_ok:
  assumes "crawl_ok exts since out" "idx < length (cr_dirs out)" "finite seen"
    and "scan_entry sys here rel idx exts since n (out, seen, subs) = (out', seen', subs')"
  shows "crawl_ok exts since out'" "cr_dirs out' = cr_dirs out" "finite seen'" "card seen' + length subs = card seen + length subs'"
  using assms
  by (auto simp: scan_entry_def Let_def add_error_def scan_reg_def crawl_ok_def file_ok_def split: if_splits option.splits)

lemma scan_ok:
  "crawl_ok exts since out \<Longrightarrow> idx < length (cr_dirs out) \<Longrightarrow> finite seen \<Longrightarrow>
   fold (scan_entry sys here rel idx exts since) names (out, seen, subs) = (out', seen', subs') \<Longrightarrow>
   crawl_ok exts since out' \<and> cr_dirs out' = cr_dirs out \<and> finite seen' \<and> card seen' + length subs = card seen + length subs'"
proof (induction names arbitrary: out seen subs)
  case (Cons n names)
  obtain o1 s1 b1 where e: "scan_entry sys here rel idx exts since n (out, seen, subs) = (o1, s1, b1)" by (metis surj_pair)
  note k = scan_entry_ok[OF Cons.prems(1-3) e]
  show ?case using Cons.IH[OF k(1) _ k(3), of b1] k Cons.prems(2,4) e by simp
qed simp

text \<open>The directories entered are as many as the directories remembered on the way.\<close>

lemma walk_ok:
  "crawl_ok exts since out \<Longrightarrow> idx < length (cr_dirs out) \<Longrightarrow> finite seen \<Longrightarrow> walk k sys exts since here rel idx (out, seen) = (out', seen') \<Longrightarrow>
     crawl_ok exts since out' \<and> finite seen' \<and> length (cr_dirs out) \<le> length (cr_dirs out') \<and> card seen' + length (cr_dirs out) = card seen + length (cr_dirs out')"
  "crawl_ok exts since out \<Longrightarrow> idx < length (cr_dirs out) \<Longrightarrow> finite seen \<Longrightarrow> walks k sys exts since idx sds (out, seen) = (out', seen') \<Longrightarrow>
     crawl_ok exts since out' \<and> finite seen' \<and> length (cr_dirs out) \<le> length (cr_dirs out') \<and> card seen' + length (cr_dirs out) + length sds = card seen + length (cr_dirs out')"
proof (induction k sys exts since here rel idx "(out, seen)" and k sys exts since idx sds "(out, seen)" arbitrary: out seen out' seen' and out seen out' seen' rule: walk_walks.induct)
  case (1 sys exts since here rel idx out seen)
  then show ?case by (auto simp: add_error_def crawl_ok_def)
next
  case (2 k sys exts since here rel idx out seen)
  show ?case
  proof (cases "sys_readdir sys here")
    case None
    then show ?thesis using 2(2-) by (auto simp: add_error_def crawl_ok_def)
  next
    case (Some names)
    obtain o1 s1 b1 where f: "fold (scan_entry sys here rel idx exts since) names (out, seen, []) = (o1, s1, b1)" by (metis surj_pair)
    note k = scan_ok[OF 2(2-4) f]
    have "walks k sys exts since idx (sort_lt pair_less b1) (o1, s1) = (out', seen')" using 2(5) Some f by simp
    from 2(1)[OF Some f[symmetric] refl refl _ _ _ this] k 2(3) show ?thesis by simp
  qed
next
  case (3 k sys exts since idx out seen)
  then show ?case by simp
next
  case (4 k sys exts since idx sd sds out seen)
  define d where "d = \<lparr>fd_path = fst sd, fd_rel = snd sd, fd_name = (case after_last CHR ''/'' (snd sd) of None \<Rightarrow> snd sd | Some t \<Rightarrow> t),
     fd_parent = int idx, fd_depth = fd_depth (cr_dirs out ! idx) + 1\<rparr>"
  define o1 where "o1 = out\<lparr>cr_dirs := cr_dirs out @ [d]\<rparr>"
  obtain o2 s2 where w: "walk k sys exts since (fst sd) (snd sd) (length (cr_dirs out)) (o1, seen) = (o2, s2)" by fastforce
  have "dirs_ok (cr_dirs o1)" unfolding o1_def using 4(3,4) dirs_snoc[of "cr_dirs out" idx d] by (simp add: crawl_ok_def d_def)
  then have o1: "crawl_ok exts since o1" using 4(3) by (auto simp: crawl_ok_def o1_def list_all_iff file_ok_def)
  have a: "crawl_ok exts since o2 \<and> finite s2 \<and> length (cr_dirs o1) \<le> length (cr_dirs o2) \<and> card s2 + length (cr_dirs o1) = card seen + length (cr_dirs o2)"
    using 4(1)[OF refl d_def] o1 4(5) w by (simp add: o1_def)
  have "walks k sys exts since idx sds (o2, s2) = (out', seen')" using 4(6) w by (simp add: o1_def d_def)
  then have "crawl_ok exts since out' \<and> finite seen' \<and> length (cr_dirs o2) \<le> length (cr_dirs out')
      \<and> card seen' + length (cr_dirs o2) + length sds = card s2 + length (cr_dirs out')"
    using 4(2)[OF refl d_def w[unfolded o1_def]] a 4(4) by (simp add: o1_def d_def)
  then show ?case using a by (simp add: o1_def)
qed

lemma crawl_start:
  assumes "sys_stat sys r = Some st"
  shows "crawl_ok exts since (crawl sys r exts since)"
    "\<exists>seen :: seen_dirs. finite seen \<and> card seen = length (cr_dirs (crawl sys r exts since))"
proof -
  define out where "out = \<lparr>cr_dirs = [\<lparr>fd_path = r, fd_rel = [], fd_name = ''.'', fd_parent = - 1, fd_depth = 0\<rparr>], cr_files = [], cr_errors = [],
    cr_scanned = 0, cr_skipped = 0\<rparr>"
  obtain out' seen' where w: "walk 65 sys exts since r [] 0 (out, {(fs_dev st, fs_ino st)}) = (out', seen')" by fastforce
  have "crawl_ok exts since out" by (simp add: crawl_ok_def dirs_ok_def out_def)
  from walk_ok(1)[OF this _ _ w] have k: "crawl_ok exts since out'" "finite seen'" "card seen' = length (cr_dirs out')" by (simp_all add: out_def)
  moreover have "crawl sys r exts since = out'" using w assms by (simp add: crawl_def out_def)
  ultimately show "crawl_ok exts since (crawl sys r exts since)"
    "\<exists>seen :: seen_dirs. finite seen \<and> card seen = length (cr_dirs (crawl sys r exts since))" by auto
qed

section \<open>The watcher sees what changed\<close>

lemma poll_fold:
  "snd (fold (poll_file sys) fs (c, m)) = foldl (\<lambda>m (f :: fs_file). mput (ff_rel f) (file_digest sys (ff_path f)) m) m fs"
  by (induction fs arbitrary: c m) (auto simp: poll_file_def Let_def split: if_splits)

lemma poll_quiet:
  "\<forall>f\<in>set fs. mget m (ff_rel f) = Some (file_digest sys (ff_path f)) \<Longrightarrow> fst (fold (poll_file sys) fs (c, m)) = c"
proof (induction fs arbitrary: c m)
  case (Cons f fs)
  define m1 where "m1 = mput (ff_rel f) (file_digest sys (ff_path f)) m"
  have "\<forall>g\<in>set fs. mget m1 (ff_rel g) = Some (file_digest sys (ff_path g))"
  proof
    fix g assume "g \<in> set fs"
    then have "mget m (ff_rel g) = Some (file_digest sys (ff_path g))" "mget m (ff_rel f) = Some (file_digest sys (ff_path f))"
      using Cons.prems by auto
    then show "mget m1 (ff_rel g) = Some (file_digest sys (ff_path g))"
      by (cases "ff_rel g = ff_rel f") (simp_all add: m1_def mget_mput)
  qed
  moreover have "poll_file sys f (c, m) = (c, m1)" using Cons.prems by (simp add: poll_file_def Let_def m1_def)
  ultimately show ?case using Cons.IH by simp
qed simp

text \<open>A second pass over an unchanged tree with distinct paths reports nothing.\<close>

lemma poll_twice:
  assumes "distinct (map ff_rel (cr_files (crawl sys r [''xlsx'', ''xlsm'', ''xlsb'', ''csv''] 0)))"
  shows "fst (poll_once sys r (snd (poll_once sys r seen))) = []"
proof -
  define fs where "fs = cr_files (crawl sys r [''xlsx'', ''xlsm'', ''xlsb'', ''csv''] 0)"
  define upd where "upd = (\<lambda>m (f :: fs_file). mput (ff_rel f) (file_digest sys (ff_path f)) m)"
  have kept: "distinct (map ff_rel gs) \<Longrightarrow> \<forall>f\<in>set gs. mget (foldl upd m gs) (ff_rel f) = Some (file_digest sys (ff_path f))"
    for gs m
  proof (induction gs rule: rev_induct)
    case (snoc g gs)
    show ?case
    proof
      fix f assume f: "f \<in> set (gs @ [g])"
      show "mget (foldl upd m (gs @ [g])) (ff_rel f) = Some (file_digest sys (ff_path f))"
      proof (cases "f = g")
        case True
        then show ?thesis by (simp add: mget_mput upd_def)
      next
        case False
        then have "f \<in> set gs" using f by simp
        moreover from this have "ff_rel f \<noteq> ff_rel g" using snoc.prems by (auto simp: image_iff)
        ultimately show ?thesis using snoc by (simp add: mget_mput upd_def)
      qed
    qed
  qed simp
  have "snd (poll_once sys r seen) = foldl upd seen fs" by (simp add: poll_once_def fs_def[symmetric] poll_fold upd_def)
  moreover have "\<forall>f\<in>set fs. mget (foldl upd seen fs) (ff_rel f) = Some (file_digest sys (ff_path f))"
    using kept assms by (simp add: fs_def)
  ultimately show ?thesis using poll_quiet[of fs "foldl upd seen fs" sys "[]"] by (simp add: poll_once_def fs_def[symmetric])
qed

section \<open>The configuration key\<close>

definition tok_ok :: "string \<Rightarrow> bool" where
  "tok_ok t \<longleftrightarrow> t \<noteq> [] \<and> list_all (\<lambda>c. \<not> is_sep c) t"

definition plain_token :: "string \<Rightarrow> bool" where
  "plain_token t \<longleftrightarrow> token_rev (lower_text t) = None \<and> \<not> rev_word (lower_text t)"

lemma split_tokens_app: "list_all (\<lambda>c. \<not> is_sep c) t \<Longrightarrow> split_tokens (t @ s) cur = split_tokens s (cur @ t)"
  by (induction t arbitrary: cur) auto

lemma split_join: "list_all tok_ok ts \<Longrightarrow> split_tokens (join CHR ''_'' ts) [] = ts"
proof (induction "CHR ''_''" ts rule: join.induct)
  case (2 t)
  then show ?case using split_tokens_app[of t "[]" "[]"] by (auto simp: tok_ok_def)
next
  case (3 t u ts)
  have "is_sep CHR ''_''" by (simp add: is_sep_def)
  then show ?case using 3 split_tokens_app[of t "CHR ''_'' # join CHR ''_'' (u # ts)" "[]"] by (auto simp: tok_ok_def)
qed simp

lemma rev_loop_plain1: "plain_token t \<Longrightarrow> rev_loop (t # us) r keep = rev_loop us r (keep @ [lower_text t])"
  by (cases us) (simp_all add: plain_token_def)

lemma rev_loop_plain: "list_all plain_token ts \<Longrightarrow> rev_loop (ts @ us) r keep = rev_loop us r (keep @ map lower_text ts)"
  by (induction ts arbitrary: keep) (simp_all add: rev_loop_plain1)

lemma strip_ext_dot: "CHR ''.'' \<notin> set ext \<Longrightarrow> strip_ext (s @ CHR ''.'' # ext) = s"
proof -
  assume a: "CHR ''.'' \<notin> set ext"
  then have "takeWhile (\<lambda>x. x \<noteq> CHR ''.'') (rev ext @ CHR ''.'' # rev s) = rev ext" by (subst takeWhile_append2) auto
  then show ?thesis by (simp add: strip_ext_def after_last_def)
qed

lemma join_nonempty: "list_all tok_ok ts \<Longrightarrow> ts \<noteq> [] \<Longrightarrow> join c (map lower_text ts) \<noteq> []"
  by (cases ts) (auto simp: join_Cons tok_ok_def lower_text_def)

text \<open>A revision at the end of a name leaves the key of the name without it.\<close>

lemma revision_key:
  assumes "ts \<noteq> []" "list_all tok_ok ts" "list_all plain_token ts" "tok_ok t" "token_rev (lower_text t) = Some (Some d, l)" "CHR ''.'' \<notin> set ext"
  shows "parse_revision (join CHR ''_'' (ts @ [t]) @ CHR ''.'' # ext)
      = Some \<lparr>rv_key = join CHR ''_'' (map lower_text ts), rv_label = l, rv_rank = d, rv_found = True\<rparr>"
  using assms split_join[of "ts @ [t]"] rev_loop_plain[of ts "[t]"] join_nonempty[of ts]
  by (simp add: parse_revision_def strip_ext_dot take_rev_def Let_def)

lemma no_revision_key:
  assumes "ts \<noteq> []" "list_all tok_ok ts" "list_all plain_token ts" "CHR ''.'' \<notin> set ext"
  shows "parse_revision (join CHR ''_'' ts @ CHR ''.'' # ext)
      = Some \<lparr>rv_key = join CHR ''_'' (map lower_text ts), rv_label = [], rv_rank = Fin 0, rv_found = False\<rparr>"
  using assms split_join[of ts] rev_loop_plain[of ts "[]"] join_nonempty[of ts]
  by (simp add: parse_revision_def strip_ext_dot Let_def)

end
