(* ===== verification/Fve_Catalog.thy ===== *)
theory Fve_Catalog
  imports Fve_Files Fve_Records "HOL-Library.Multiset"
begin

text \<open>
  The catalog of the first layer (\<open>l0/registry\<close>): the folders and files a walk found, each file with
  its digest, fingerprint and revision, the newest revision of each group, the documents and the SQL
  script it is stored as. An inner \<open>None\<close> is an exception of \<open>std::stod\<close> on a revision.
\<close>

section \<open>Entries\<close>

record folder =
  fo_id :: nat
  fo_path :: string
  fo_rel :: string
  fo_name :: string
  fo_parent :: int
  fo_depth :: int

record file_entry =
  fe_id :: string
  fe_folder :: nat
  fe_path :: string
  fe_rel :: string
  fe_name :: string
  fe_ext :: string
  fe_size :: int
  fe_mtime :: int
  fe_sha :: string
  fe_format :: string
  fe_domain :: string
  fe_sig :: string
  fe_hits :: nat
  fe_key :: string
  fe_revision :: string
  fe_rank :: double
  fe_head :: bool
  fe_group :: string
  fe_index :: nat
  fe_keywords :: string

record catalog =
  ct_root :: string
  ct_folders :: "folder list"
  ct_files :: "file_entry list"
  ct_errors :: "(string \<times> string) list"

definition folder_of :: "nat \<Rightarrow> fs_dir \<Rightarrow> folder" where
  "folder_of i d = \<lparr>fo_id = i, fo_path = fd_path d, fo_rel = fd_rel d, fo_name = fd_name d, fo_parent = fd_parent d, fo_depth = fd_depth d\<rparr>"

definition entry_of :: "system \<Rightarrow> fs_file \<Rightarrow> print_of \<Rightarrow> revision \<Rightarrow> file_entry" where
  "entry_of sys f fp rv =
     \<lparr>fe_id = file_id_for (ff_rel f), fe_folder = ff_dir f, fe_path = ff_path f, fe_rel = ff_rel f, fe_name = ff_name f, fe_ext = ff_ext f,
      fe_size = ff_size f, fe_mtime = ff_mtime f, fe_sha = file_digest sys (ff_path f), fe_format = fp_format fp, fe_domain = fp_domain fp,
      fe_sig = fp_sig fp, fe_hits = fp_hits fp, fe_key = rv_key rv, fe_revision = rv_label rv, fe_rank = rv_rank rv, fe_head = False,
      fe_group = [], fe_index = 0, fe_keywords = concat (map (\<lambda>m. m @ '' '') (fp_markers fp))\<rparr>"

fun file_entries :: "system \<Rightarrow> nat \<Rightarrow> fs_file list \<Rightarrow> file_entry list option zres" where
  "file_entries sys fuel [] = ZOk (Some [])"
| "file_entries sys fuel (f # fs) =
     zbind (fingerprint (sys_read sys) fuel (ff_path f) (ff_ext f)) (\<lambda>fp.
       case parse_revision (ff_name f) of
         None \<Rightarrow> ZOk None
       | Some rv \<Rightarrow> zbind (file_entries sys fuel fs) (\<lambda>es. ZOk (map_option (\<lambda>es. entry_of sys f fp rv # es) es)))"

section \<open>Heads\<close>

text \<open>The order in which the revisions of a group are listed.\<close>

definition newer :: "folder list \<Rightarrow> file_entry \<Rightarrow> file_entry \<Rightarrow> bool" where
  "newer ds x y =
     (if \<not> feq (fe_rank x) (fe_rank y) then flt (fe_rank y) (fe_rank x)
      else if fe_mtime x \<noteq> fe_mtime y then fe_mtime y < fe_mtime x
      else let da = fo_depth (ds ! fe_folder x); db = fo_depth (ds ! fe_folder y)
           in if da \<noteq> db then db < da else fe_rel y < fe_rel x)"

definition group_add :: "file_entry list \<Rightarrow> nat \<Rightarrow> (string, nat list) omap \<Rightarrow> (string, nat list) omap" where
  "group_add fs i m =
     (let k = fe_key (fs ! i) in mput k ((case mget m k of None \<Rightarrow> [] | Some is' \<Rightarrow> is') @ [i]) m)"

definition groups_of :: "file_entry list \<Rightarrow> (string, nat list) omap" where
  "groups_of fs = fold (group_add fs) [0..<length fs] []"

definition group_name :: "string \<Rightarrow> string" where
  "group_name k = ''vg_'' @ take 12 (hex (sha256_str k))"

fun number :: "string \<Rightarrow> nat \<Rightarrow> nat list \<Rightarrow> file_entry list \<Rightarrow> file_entry list" where
  "number vg k [] fs = fs"
| "number vg k (i # ids) fs = number vg (k + 1) ids (fs[i := (fs ! i)\<lparr>fe_head := k = 0, fe_group := vg, fe_index := k\<rparr>])"

definition resolve_group :: "folder list \<Rightarrow> string \<times> nat list \<Rightarrow> file_entry list \<Rightarrow> file_entry list" where
  "resolve_group ds kv fs = number (group_name (fst kv)) 0 (sort_lt (\<lambda>a b. newer ds (fs ! a) (fs ! b)) (snd kv)) fs"

definition resolve_heads :: "catalog \<Rightarrow> catalog" where
  "resolve_heads c = c\<lparr>ct_files := fold (resolve_group (ct_folders c)) (groups_of (ct_files c)) (ct_files c)\<rparr>"

definition build_registry :: "system \<Rightarrow> nat \<Rightarrow> string \<Rightarrow> string list \<Rightarrow> int \<Rightarrow> catalog option zres" where
  "build_registry sys fuel root' exts since =
     (let cr = crawl sys root' exts since; ds = cr_dirs cr
      in zbind (file_entries sys fuel (cr_files cr)) (\<lambda>es. ZOk (map_option (\<lambda>es.
           resolve_heads \<lparr>ct_root = root', ct_folders = map (\<lambda>i. folder_of i (ds ! i)) [0..<length ds], ct_files = es,
             ct_errors = cr_errors cr\<rparr>) es)))"

definition child_folders :: "catalog \<Rightarrow> int \<Rightarrow> nat list" where
  "child_folders c i = map fo_id (filter (\<lambda>d. fo_parent d = i) (ct_folders c))"

definition files_in :: "catalog \<Rightarrow> nat \<Rightarrow> file_entry list" where
  "files_in c i = filter (\<lambda>e. fe_folder e = i) (ct_files c)"

definition head_of :: "catalog \<Rightarrow> string \<Rightarrow> file_entry option" where
  "head_of c k = List.find (\<lambda>e. fe_key e = k \<and> fe_head e) (ct_files c)"

section \<open>Documents\<close>

definition folder_doc :: "folder \<Rightarrow> json" where
  "folder_doc d =
     mkobj [(''id'', jint (int (fo_id d))), (''path'', JStr (fo_path d)), (''rel'', JStr (fo_rel d)), (''name'', JStr (fo_name d)),
       (''parent_id'', jint (fo_parent d)), (''depth'', jint (fo_depth d))]"

definition file_doc :: "file_entry \<Rightarrow> json" where
  "file_doc e =
     mkobj [(''id'', JStr (fe_id e)), (''folder_id'', jint (int (fe_folder e))), (''path'', JStr (fe_path e)), (''rel_path'', JStr (fe_rel e)),
       (''name'', JStr (fe_name e)), (''ext'', JStr (fe_ext e)), (''size'', jint (fe_size e)), (''mtime'', jint (fe_mtime e)),
       (''sha256'', JStr (fe_sha e)), (''format_type'', JStr (fe_format e)), (''domain'', JStr (fe_domain e)),
       (''structural_sig'', JStr (fe_sig e)), (''marker_hits'', jint (int (fe_hits e))), (''config_key'', JStr (fe_key e)),
       (''revision'', JStr (fe_revision e)), (''rev_rank'', JNum (fe_rank e)), (''is_head'', JBool (fe_head e)),
       (''version_group'', JStr (fe_group e)), (''version_index'', jint (int (fe_index e))), (''keywords'', JStr (fe_keywords e))]"

definition unknown_format :: "file_entry \<Rightarrow> bool" where
  "unknown_format e = (fe_format e = ''unknown_format'')"

definition unknown_doc :: "file_entry \<Rightarrow> json" where
  "unknown_doc e = mkobj [(''id'', JStr (fe_id e)), (''rel_path'', JStr (fe_rel e)), (''ext'', JStr (fe_ext e))]"

definition error_doc :: "string \<times> string \<Rightarrow> json" where
  "error_doc er = mkobj [(''path'', JStr (fst er)), (''reason'', JStr (snd er))]"

definition index_doc :: "catalog \<Rightarrow> json" where
  "index_doc c =
     mkobj [(''root'', JStr (ct_root c)), (''folders'', jint (int (length (ct_folders c)))), (''files'', jint (int (length (ct_files c)))),
       (''heads'', jint (int (length (filter fe_head (ct_files c))))),
       (''unknown_format'', jint (int (length (filter unknown_format (ct_files c))))),
       (''errors'', jint (int (length (ct_errors c))))]"

definition put_folder :: "folder \<Rightarrow> store \<Rightarrow> store" where
  "put_folder d s = snd (store_put ''folders'' (''fold_'' @ show_nat (fo_id d)) (folder_doc d) s)"

definition put_file :: "file_entry \<Rightarrow> store \<Rightarrow> store" where
  "put_file e s = snd (store_put ''file_registry'' (fe_id e) (file_doc e) s)"

definition log_unknown :: "file_entry \<Rightarrow> store \<Rightarrow> store" where
  "log_unknown e s = (if unknown_format e then snd (store_append ''unknown_format'' (unknown_doc e) s) else s)"

definition log_error :: "string \<times> string \<Rightarrow> store \<Rightarrow> store" where
  "log_error er s = snd (store_append ''l0_errors'' (error_doc er) s)"

definition migrate :: "catalog \<Rightarrow> store \<Rightarrow> store" where
  "migrate c s =
     (let s1 = fold put_folder (ct_folders c) s; s2 = fold put_file (ct_files c) s1;
          s3 = fold log_unknown (ct_files c) s2; s4 = fold log_error (ct_errors c) s3
      in snd (store_append ''l0_crawl'' (index_doc c) (snd (store_put ''l0'' ''registry_index'' (index_doc c) s4))))"

section \<open>The SQL script\<close>

definition sqlesc :: "string \<Rightarrow> string" where
  "sqlesc s = concat (map (\<lambda>c. if c = CHR 39 then [CHR 39, CHR 39] else [c]) s)"

definition sqstr :: "string \<Rightarrow> string" where
  "sqstr s = [CHR 39] @ sqlesc s @ [CHR 39]"

definition folder_sql :: "folder \<Rightarrow> string" where
  "folder_sql d =
     ''INSERT INTO folders(id,path,rel,name,parent_id,depth) VALUES('' @ show_nat (fo_id d) @ '','' @ sqstr (fo_path d) @ '',''
     @ sqstr (fo_rel d) @ '','' @ sqstr (fo_name d) @ '','' @ (if fo_parent d < 0 then ''NULL'' else show_int (fo_parent d)) @ '',''
     @ show_int (fo_depth d) @ '') ON CONFLICT (id) DO NOTHING;'' @ [CHR 10]"

definition file_sql :: "file_entry \<Rightarrow> string" where
  "file_sql e =
     ''INSERT INTO file_registry(id,folder_id,path,rel_path,name,ext,size,mtime,sha256,''
     @ ''format_type,domain,structural_sig,marker_hits,config_key,revision,rev_rank,''
     @ ''is_head,version_group,version_index) VALUES('' @ sqstr (fe_id e) @ '','' @ show_nat (fe_folder e) @ '','' @ sqstr (fe_path e) @ '',''
     @ sqstr (fe_rel e) @ '','' @ sqstr (fe_name e) @ '','' @ sqstr (fe_ext e) @ '','' @ show_int (fe_size e) @ '','' @ show_int (fe_mtime e)
     @ '','' @ sqstr (fe_sha e) @ '','' @ sqstr (fe_format e) @ '','' @ sqstr (fe_domain e) @ '','' @ sqstr (fe_sig e) @ '',''
     @ show_nat (fe_hits e) @ '','' @ sqstr (fe_key e) @ '','' @ sqstr (fe_revision e) @ '','' @ fmt_g 6 (fe_rank e) @ '',''
     @ (if fe_head e then ''true'' else ''false'') @ '','' @ sqstr (fe_group e) @ '','' @ show_nat (fe_index e)
     @ '') ON CONFLICT (id) DO UPDATE SET is_head=EXCLUDED.is_head, mtime=EXCLUDED.mtime;'' @ [CHR 10]"

definition registry_sql :: "catalog \<Rightarrow> string" where
  "registry_sql c =
     ''BEGIN;'' @ [CHR 10] @ concat (map folder_sql (ct_folders c)) @ concat (map file_sql (ct_files c)) @ ''COMMIT;'' @ [CHR 10]"

section \<open>Groups\<close>

definition base_of :: "file_entry \<Rightarrow> file_entry" where
  "base_of e = e\<lparr>fe_head := False, fe_group := [], fe_index := 0\<rparr>"

lemma newer_base [simp]: "newer ds (base_of x) y = newer ds x y" "newer ds x (base_of y) = newer ds x y"
  by (simp_all add: newer_def base_of_def)

lemma base_fields [simp]: "fe_key (base_of e) = fe_key e" "fe_rank (base_of e) = fe_rank e" "fe_folder (base_of e) = fe_folder e"
  by (simp_all add: base_of_def)

lemma groups_fold:
  "mget (fold (group_add fs) [0..<n] []) k
    = (let is' = filter (\<lambda>i. fe_key (fs ! i) = k) [0..<n] in if is' = [] then None else Some is')"
proof (induction n arbitrary: k)
  case (Suc n)
  then show ?case by (simp add: group_add_def mget_mput Let_def)
qed simp

lemma groups_get: "mget (groups_of fs) k
    = (let is' = filter (\<lambda>i. fe_key (fs ! i) = k) [0..<length fs] in if is' = [] then None else Some is')"
  by (simp add: groups_of_def groups_fold)

lemma groups_wf: "mwf (groups_of fs)"
proof -
  have "mwf (fold (group_add fs) ids m)" if "mwf m" for ids m
    using that by (induction ids arbitrary: m) (simp_all add: group_add_def Let_def)
  then show ?thesis by (simp add: groups_of_def mwf_def)
qed

lemma in_groups: "(k, ids) \<in> set (groups_of fs) \<Longrightarrow> ids = filter (\<lambda>i. fe_key (fs ! i) = k) [0..<length fs] \<and> ids \<noteq> []"
proof -
  assume "(k, ids) \<in> set (groups_of fs)"
  then have "mget (groups_of fs) k = Some ids" using groups_wf[of fs] unfolding mget_def mwf_def by (intro map_of_is_SomeI) (simp_all add: strict_sorted_iff)
  then show ?thesis by (auto simp: groups_get Let_def split: if_splits)
qed

lemma number_length [simp]: "length (number vg k ids fs) = length fs"
  by (induction vg k ids fs rule: number.induct) simp_all

lemma number_other: "j \<notin> set ids \<Longrightarrow> number vg k ids fs ! j = fs ! j"
  by (induction vg k ids fs rule: number.induct) simp_all

lemma number_at:
  "distinct ids \<Longrightarrow> set ids \<subseteq> {..<length fs} \<Longrightarrow> p < length ids \<Longrightarrow>
   number vg k ids fs ! (ids ! p) = (fs ! (ids ! p))\<lparr>fe_head := k + p = 0, fe_group := vg, fe_index := k + p\<rparr>"
proof (induction vg k ids fs arbitrary: p rule: number.induct)
  case (1 vg k fs)
  from 1(3) have False by simp
  then show ?case ..
next
  case (2 vg k i ids fs)
  show ?case
  proof (cases p)
    case 0
    then show ?thesis using 2(2,3) by (simp add: number_other)
  next
    case (Suc q)
    then have "ids ! q \<noteq> i" using 2(2,4) by (auto dest: nth_mem)
    moreover have "number vg (k + 1) ids (fs[i := (fs ! i)\<lparr>fe_head := k = 0, fe_group := vg, fe_index := k\<rparr>]) ! (ids ! q)
        = (fs[i := (fs ! i)\<lparr>fe_head := k = 0, fe_group := vg, fe_index := k\<rparr>] ! (ids ! q))
          \<lparr>fe_head := k + 1 + q = 0, fe_group := vg, fe_index := k + 1 + q\<rparr>"
      using 2(2-4) Suc by (intro 2(1)) auto
    ultimately show ?thesis using Suc by simp
  qed
qed

text \<open>What the files of one group come to.\<close>

definition placed :: "folder list \<Rightarrow> file_entry list \<Rightarrow> nat list \<Rightarrow> string \<Rightarrow> file_entry list \<Rightarrow> bool" where
  "placed ds fs ids k fs' \<longleftrightarrow> (\<forall>p<length ids. let i = sort_lt (\<lambda>a b. newer ds (fs ! a) (fs ! b)) ids ! p
     in fs' ! i = (fs ! i)\<lparr>fe_head := p = 0, fe_group := group_name k, fe_index := p\<rparr>)"

definition group_ids :: "file_entry list \<Rightarrow> string \<Rightarrow> nat list" where
  "group_ids fs k = filter (\<lambda>i. fe_key (fs ! i) = k) [0..<length fs]"

lemma group_ids_ok [simp]: "distinct (group_ids fs k)" "set (group_ids fs k) = {i. i < length fs \<and> fe_key (fs ! i) = k}"
  by (auto simp: group_ids_def)

lemma resolve_other: "j \<notin> set ids \<Longrightarrow> resolve_group ds (k, ids) fs ! j = fs ! j" "length (resolve_group ds kv fs) = length fs"
  by (simp_all add: resolve_group_def number_other)


text \<open>Resolving some groups leaves the files of the others alone.\<close>

lemma resolve_fold_other:
  "\<forall>kv\<in>set gs. j \<notin> set (snd kv) \<Longrightarrow> fold (resolve_group ds) gs fs ! j = fs ! j \<and> length (fold (resolve_group ds) gs fs) = length fs"
proof (induction gs arbitrary: fs)
  case (Cons kv gs)
  then show ?case using resolve_other(1)[of j "snd kv" ds "fst kv" fs] by (simp add: resolve_other(2))
qed simp

lemma resolve_fold_length: "length (fold (resolve_group ds) gs fs) = length fs"
  by (induction gs arbitrary: fs) (simp_all add: resolve_other(2))

lemma sort_cong:
  "(\<And>a b. a \<in> set xs \<Longrightarrow> b \<in> set xs \<Longrightarrow> lt a b = lt' a b) \<Longrightarrow> sort_lt lt xs = sort_lt lt' xs"
proof (induction xs)
  case (Cons x xs)
  have "ins_lt lt x ys = ins_lt lt' x ys" if "set ys \<subseteq> set xs" for ys
    using that Cons.prems by (induction ys) auto
  then show ?case using Cons by simp
qed simp

lemma placed_cong:
  assumes "\<And>i. i \<in> set ids \<Longrightarrow> fs ! i = gs ! i" "placed ds fs ids k fs'"
  shows "placed ds gs ids k fs'"
proof -
  let ?s = "sort_lt (\<lambda>a b. newer ds (fs ! a) (fs ! b)) ids"
  have e: "?s = sort_lt (\<lambda>a b. newer ds (gs ! a) (gs ! b)) ids" using assms(1) by (intro sort_cong) simp
  have "?s ! p \<in> set ids" if "p < length ids" for p
    using nth_mem[of p ?s] that by simp
  then show ?thesis using assms unfolding placed_def e[symmetric] Let_def by simp
qed

lemma placed_later:
  assumes "\<And>i. i \<in> set ids \<Longrightarrow> fs'' ! i = fs' ! i" "placed ds fs ids k fs'"
  shows "placed ds fs ids k fs''"
proof -
  let ?s = "sort_lt (\<lambda>a b. newer ds (fs ! a) (fs ! b)) ids"
  have "?s ! p \<in> set ids" if "p < length ids" for p
    using nth_mem[of p ?s] that by simp
  then show ?thesis using assms unfolding placed_def Let_def by simp
qed

lemma resolve_all:
  assumes "k \<in> fe_key ` set fs"
  shows "placed ds fs (group_ids fs k) k (fold (resolve_group ds) (groups_of fs) fs)"
proof -
  obtain j where "j < length fs" "fe_key (fs ! j) = k" using assms by (auto simp: in_set_conv_nth)
  then have ne: "group_ids fs k \<noteq> []" using group_ids_ok(2)[of fs k] by fastforce
  then have "mget (groups_of fs) k = Some (group_ids fs k)" by (simp add: groups_get group_ids_def Let_def)
  then have "(k, group_ids fs k) \<in> set (groups_of fs)" by (rule mget_Some_in)
  then obtain as bs where s: "groups_of fs = as @ (k, group_ids fs k) # bs" by (auto dest: split_list)
  have "distinct (map fst (groups_of fs))" using groups_wf by (auto simp: mwf_def strict_sorted_iff)
  then have "\<forall>kv\<in>set as \<union> set bs. fst kv \<noteq> k" by (auto simp: s image_iff)
  moreover have "snd kv = group_ids fs (fst kv)" if "kv \<in> set (groups_of fs)" for kv
    using in_groups[of "fst kv" "snd kv" fs] that by (simp add: group_ids_def)
  ultimately have o: "\<forall>kv\<in>set as \<union> set bs. \<forall>j\<in>set (group_ids fs k). j \<notin> set (snd kv)"
    unfolding s by (metis (mono_tags, lifting) Un_iff group_ids_ok(2) list.set_intros(2) mem_Collect_eq set_append)
  define f1 where "f1 = fold (resolve_group ds) as fs"
  have f1: "f1 ! i = fs ! i" if "i \<in> set (group_ids fs k)" for i
    using resolve_fold_other[of as i ds fs] o that by (simp add: f1_def)
  have l1: "length f1 = length fs" by (simp add: f1_def resolve_fold_length)
  have "placed ds f1 (group_ids fs k) k (resolve_group ds (k, group_ids fs k) f1)"
  proof -
    let ?ids = "sort_lt (\<lambda>a b. newer ds (f1 ! a) (f1 ! b)) (group_ids fs k)"
    have "distinct ?ids" "set ?ids \<subseteq> {..<length f1}" "length ?ids = length (group_ids fs k)" using l1 by auto
    then show ?thesis by (simp add: placed_def resolve_group_def number_at Let_def)
  qed
  from placed_cong[OF f1 this] have "placed ds fs (group_ids fs k) k (resolve_group ds (k, group_ids fs k) f1)" by simp
  then have "placed ds fs (group_ids fs k) k (fold (resolve_group ds) bs (resolve_group ds (k, group_ids fs k) f1))"
    by (rule placed_later[rotated]) (use resolve_fold_other o in simp)
  then show ?thesis by (simp add: s f1_def)
qed

lemma number_base: "set ids \<subseteq> {..<length fs} \<Longrightarrow> map base_of (number vg k ids fs) = map base_of fs"
proof (induction vg k ids fs rule: number.induct)
  case (2 vg k i ids fs)
  have "map base_of (fs[i := (fs ! i)\<lparr>fe_head := b, fe_group := g, fe_index := n\<rparr>]) = map base_of fs" for b g n
    using 2(2) by (auto intro: nth_equalityI simp: nth_list_update base_of_def)
  then show ?case using 2 by simp
qed simp

lemma resolve_base: "map base_of (ct_files (resolve_heads c)) = map base_of (ct_files c)"
proof -
  have "set (map fst gs) \<subseteq> UNIV \<Longrightarrow> \<forall>kv\<in>set gs. set (snd kv) \<subseteq> {..<length fs} \<Longrightarrow> map base_of (fold (resolve_group ds) gs fs) = map base_of fs"
    for gs fs ds
    by (induction gs arbitrary: fs) (simp_all add: resolve_other(2) resolve_group_def number_base)
  moreover have "\<forall>kv\<in>set (groups_of (ct_files c)). set (snd kv) \<subseteq> {..<length (ct_files c)}"
    by (auto dest: in_groups)
  ultimately show ?thesis by (simp add: resolve_heads_def)
qed

text \<open>The comparison is a strict weak order when no rank is a NaN.\<close>

lemma weak_flt: "\<forall>e\<in>A. fe_rank e \<noteq> NaN \<Longrightarrow> weak_order (\<lambda>x y. flt (fe_rank y) (fe_rank x)) A"
proof -
  have a: "flt x y \<Longrightarrow> \<not> flt y x" for x y by (cases x; cases y) auto
  have b: "\<not> flt y x \<Longrightarrow> \<not> flt z y \<Longrightarrow> \<not> flt z x" if "x \<noteq> NaN" "y \<noteq> NaN" "z \<noteq> NaN" for x y z
    using that by (cases x; cases y; cases z) auto
  show "\<forall>e\<in>A. fe_rank e \<noteq> NaN \<Longrightarrow> ?thesis" unfolding weak_order_def using a b by blast
qed

lemma rank_tie: "x \<noteq> NaN \<Longrightarrow> y \<noteq> NaN \<Longrightarrow> feq x y \<longleftrightarrow> \<not> flt x y \<and> \<not> flt y x"
  by (cases x; cases y) auto

lemma weak_newer: "\<forall>e\<in>A. fe_rank e \<noteq> NaN \<Longrightarrow> weak_order (newer ds) A"
proof -
  assume r: "\<forall>e\<in>A. fe_rank e \<noteq> NaN"
  define d where "d e = fo_depth (ds ! fe_folder e)" for e :: file_entry
  let ?lt3 = "lex_lt (\<lambda>x y. d x > d y) (\<lambda>(x :: file_entry) y. fe_rel x > fe_rel y)"
  let ?lt = "lex_lt (\<lambda>(x :: file_entry) y. flt (fe_rank y) (fe_rank x)) (lex_lt (\<lambda>(x :: file_entry) y. fe_mtime x > fe_mtime y) ?lt3)"
  have "weak_order ?lt A" using r by (intro weak_lex weak_flt weak_order_key)
  moreover have "newer ds x y = ?lt x y" if "x \<in> A" "y \<in> A" for x y
  proof -
    have "newer ds x y = (if flt (fe_rank y) (fe_rank x) \<or> flt (fe_rank x) (fe_rank y) then flt (fe_rank y) (fe_rank x)
        else if fe_mtime x \<noteq> fe_mtime y then fe_mtime y < fe_mtime x else if d x \<noteq> d y then d y < d x else fe_rel y < fe_rel x)"
      using r that rank_tie[of "fe_rank x" "fe_rank y"] by (simp add: newer_def Let_def d_def)
    then show ?thesis by (auto simp: lex_lt_def)
  qed
  ultimately show ?thesis by (rule weak_order_cong)
qed

text \<open>The files of a group after the heads are resolved.\<close>

definition group_files :: "catalog \<Rightarrow> string \<Rightarrow> file_entry list" where
  "group_files c k = filter (\<lambda>e. fe_key e = k) (ct_files c)"

lemma base_nth: "map base_of xs = map base_of ys \<Longrightarrow> i < length xs \<Longrightarrow> base_of (xs ! i) = base_of (ys ! i)"
  by (metis length_map nth_map)

lemma filter_nth: "filter P xs = map ((!) xs) (filter (\<lambda>i. P (xs ! i)) [0..<length xs])"
proof -
  have "filter P xs = filter P (map ((!) xs) [0..<length xs])" by (simp only: map_nth)
  then show ?thesis by (simp only: filter_map comp_def)
qed

lemma resolved_group:
  fixes c :: catalog and k :: string
  defines "fs \<equiv> ct_files c" and "ds \<equiv> ct_folders c" and "c' \<equiv> resolve_heads c"
  defines "ids \<equiv> sort_lt (\<lambda>a b. newer ds (fs ! a) (fs ! b)) (group_ids fs k)"
  assumes k: "k \<in> fe_key ` set fs"
  shows "mset (group_files c' k) = mset (map ((!) (ct_files c')) ids)"
    "map fe_index (map ((!) (ct_files c')) ids) = [0..<length ids]"
    "map fe_head (map ((!) (ct_files c')) ids) = map (\<lambda>p. p = 0) [0..<length ids]"
    "ids \<noteq> []" "set ids = {i. i < length fs \<and> fe_key (fs ! i) = k}"
proof -
  have b: "map base_of (ct_files c') = map base_of fs" unfolding c'_def fs_def by (rule resolve_base)
  then have l: "length (ct_files c') = length fs" by (metis length_map)
  have ky: "fe_key (ct_files c' ! i) = fe_key (fs ! i)" if "i < length fs" for i
    using base_nth[OF b] that l by (metis base_fields(1))
  have "group_files c' k = map ((!) (ct_files c')) (group_ids fs k)"
  proof -
    have "filter (\<lambda>i. fe_key (ct_files c' ! i) = k) [0..<length fs] = group_ids fs k"
      unfolding group_ids_def by (rule filter_cong) (simp_all add: ky)
    then show ?thesis unfolding group_files_def by (subst filter_nth) (simp add: l)
  qed
  moreover have "mset ids = mset (group_ids fs k)"
    unfolding ids_def by (subst set_eq_iff_mset_eq_distinct[symmetric]) simp_all
  ultimately show "mset (group_files c' k) = mset (map ((!) (ct_files c')) ids)" by (metis mset_map)
  have "placed ds fs (group_ids fs k) k (ct_files c')"
    unfolding c'_def resolve_heads_def ds_def using resolve_all[OF k, of "ct_folders c"] by (simp add: fs_def)
  then have p: "ct_files c' ! (ids ! p) = (fs ! (ids ! p))\<lparr>fe_head := p = 0, fe_group := group_name k, fe_index := p\<rparr>" if "p < length ids" for p
    using that by (simp add: placed_def ids_def Let_def)
  show "map fe_index (map ((!) (ct_files c')) ids) = [0..<length ids]"
    by (rule nth_equalityI) (simp_all add: p)
  show "map fe_head (map ((!) (ct_files c')) ids) = map (\<lambda>p. p = 0) [0..<length ids]"
    by (rule nth_equalityI) (simp_all add: p)
  show s: "set ids = {i. i < length fs \<and> fe_key (fs ! i) = k}" by (simp add: ids_def)
  obtain j where "j < length fs" "fe_key (fs ! j) = k" using k by (auto simp: in_set_conv_nth)
  then have "j \<in> set ids" by (simp add: s)
  then show "ids \<noteq> []" by auto
qed

section \<open>One head for each group\<close>

lemma find_filter: "List.find P xs = (case filter P xs of [] \<Rightarrow> None | x # _ \<Rightarrow> Some x)"
  by (induction xs) auto

lemma filter_first:
  assumes "map f L = map (\<lambda>p. p = 0) [0..<length L]" "L \<noteq> []"
  shows "filter f L = [L ! 0]"
proof -
  obtain x xs where L: "L = x # xs" using assms(2) by (cases L) auto
  have n: "f (L ! p) = (p = 0)" if "p < length L" for p
  proof -
    have "map f L ! p = map (\<lambda>p. p = 0) [0..<length L] ! p" by (simp only: assms(1))
    then show ?thesis using that by simp
  qed
  have "f x" using n[of 0] by (simp add: L)
  moreover have "\<not> f (xs ! p)" if "p < length xs" for p using n[of "Suc p"] that by (simp add: L)
  moreover from this have "filter f xs = []" by (auto simp: filter_empty_conv in_set_conv_nth)
  ultimately show ?thesis by (simp add: L)
qed

lemma head_facts:
  fixes c :: catalog and k :: string
  defines "c' \<equiv> resolve_heads c"
  assumes k: "k \<in> fe_key ` set (ct_files c)" and r: "\<forall>e\<in>set (ct_files c). fe_rank e \<noteq> NaN"
  shows "\<exists>e. filter fe_head (group_files c' k) = [e] \<and> fe_index e = 0 \<and> (\<forall>x\<in>set (group_files c' k). \<not> newer (ct_folders c) x e)"
    "mset (map fe_index (group_files c' k)) = mset [0..<length (group_files c' k)]"
proof -
  define fs where "fs = ct_files c"
  define ds where "ds = ct_folders c"
  define ids where "ids = sort_lt (\<lambda>a b. newer ds (fs ! a) (fs ! b)) (group_ids fs k)"
  define L where "L = map ((!) (ct_files c')) ids"
  have m: "mset (group_files c' k) = mset L" and ix: "map fe_index L = [0..<length ids]"
    and hd': "map fe_head L = map (\<lambda>p. p = 0) [0..<length ids]" and ne: "ids \<noteq> []" and sids: "set ids = {i. i < length fs \<and> fe_key (fs ! i) = k}"
    using resolved_group[OF k] unfolding L_def ids_def fs_def ds_def c'_def by simp_all
  have len: "length L = length ids" by (simp add: L_def)
  have "length (group_files c' k) = length L" using m by (metis size_mset)
  then show "mset (map fe_index (group_files c' k)) = mset [0..<length (group_files c' k)]"
    using m ix len by (metis mset_map)
  have "filter fe_head L = [L ! 0]" by (rule filter_first) (use hd' ne len in \<open>auto simp: L_def\<close>)
  then have "mset (filter fe_head (group_files c' k)) = mset [L ! 0]" using m by (metis mset_filter)
  then have f: "filter fe_head (group_files c' k) = [L ! 0]" using mset_eq_length[of "filter fe_head (group_files c' k)" "[L ! 0]"]
    by (cases "filter fe_head (group_files c' k)") auto
  have b: "map base_of (ct_files c') = map base_of fs" unfolding c'_def fs_def by (rule resolve_base)
  then have l: "length (ct_files c') = length fs" by (metis length_map)
  have nw: "newer ds (ct_files c' ! i) (ct_files c' ! j) = newer ds (fs ! i) (fs ! j)" if "i < length fs" "j < length fs" for i j
    using base_nth[OF b] that l newer_base by metis
  have w: "weak_order (\<lambda>a b. newer ds (fs ! a) (fs ! b)) (set (group_ids fs k))"
  proof -
    have "weak_order (newer ds) (set fs)" by (rule weak_newer) (use r in \<open>simp add: fs_def\<close>)
    moreover have "(!) fs ` set (group_ids fs k) \<subseteq> set fs" by auto
    ultimately have "weak_order (newer ds) ((!) fs ` set (group_ids fs k))" by (rule weak_order_subset)
    then show ?thesis by (rule weak_order_image)
  qed
  have "\<not> newer ds x (L ! 0)" if x: "x \<in> set (group_files c' k)" for x
  proof -
    have "x \<in> set L" using x m by (metis set_mset_mset)
    then obtain i where i: "i \<in> set ids" "x = ct_files c' ! i" by (auto simp: L_def)
    then have "\<not> newer ds (fs ! i) (fs ! hd ids)" using sort_hd[OF w, of i] by (simp add: ids_def)
    moreover have "L ! 0 = ct_files c' ! hd ids" "hd ids \<in> set ids" using ne by (simp_all add: L_def hd_conv_nth)
    ultimately show ?thesis using nw[of i "hd ids"] i sids by auto
  qed
  moreover have "fe_index (L ! 0) = 0" using ix ne len nth_map[of 0 L fe_index] by simp
  ultimately show "\<exists>e. filter fe_head (group_files c' k) = [e] \<and> fe_index e = 0 \<and> (\<forall>x\<in>set (group_files c' k). \<not> newer (ct_folders c) x e)"
    using f by (auto simp: ds_def)
qed

text \<open>How deep the directory of a file lies, and what it means that a file is not newer than another.\<close>

definition file_depth :: "catalog \<Rightarrow> file_entry \<Rightarrow> int" where
  "file_depth c e = fo_depth (ct_folders c ! fe_folder e)"

lemma not_newer:
  assumes "\<not> newer ds x e" "fe_rank x \<noteq> NaN" "fe_rank e \<noteq> NaN"
  shows "flt (fe_rank x) (fe_rank e) \<or> feq (fe_rank x) (fe_rank e) \<and> (fe_mtime x < fe_mtime e \<or> fe_mtime x = fe_mtime e
    \<and> (fo_depth (ds ! fe_folder x) < fo_depth (ds ! fe_folder e)
       \<or> fo_depth (ds ! fe_folder x) = fo_depth (ds ! fe_folder e) \<and> fe_rel x \<le> fe_rel e))"
  using assms rank_tie[of "fe_rank x" "fe_rank e"] by (auto simp: newer_def Let_def split: if_splits)

lemma resolved_rank:
  assumes "\<forall>e\<in>set (ct_files c). fe_rank e \<noteq> NaN" "x \<in> set (ct_files (resolve_heads c))"
  shows "fe_rank x \<noteq> NaN"
proof -
  have "base_of x \<in> set (map base_of (ct_files c))" using assms(2) resolve_base[of c] by (metis image_eqI list.set_map)
  then obtain y where "y \<in> set (ct_files c)" "base_of x = base_of y" by auto
  then show ?thesis using assms(1) by (metis base_fields(2))
qed

lemma head_of_group: "head_of c k = (case filter fe_head (group_files c k) of [] \<Rightarrow> None | e # _ \<Rightarrow> Some e)"
  by (simp add: head_of_def group_files_def find_filter conj_commute)

section \<open>Reading the script back\<close>

text \<open>The quoted literals of an SQL text, in their order; a doubled quote inside one is a quote.\<close>

fun sql_out :: "string \<Rightarrow> string list" and sql_in :: "string \<Rightarrow> string \<Rightarrow> string list" where
  "sql_out [] = []"
| "sql_out (c # s) = (if c = CHR 39 then sql_in [] s else sql_out s)"
| "sql_in cur [] = [cur]"
| "sql_in cur [c] = (if c = CHR 39 then [cur] else [cur @ [c]])"
| "sql_in cur (c # d # s) =
     (if c = CHR 39 then (if d = CHR 39 then sql_in (cur @ [CHR 39]) s else cur # sql_out (d # s)) else sql_in (cur @ [c]) (d # s))"

lemma sql_out_skip: "CHR 39 \<notin> set t \<Longrightarrow> sql_out (t @ s) = sql_out s"
  by (induction t) auto

lemma sqlesc_Cons: "sqlesc (c # s) = (if c = CHR 39 then CHR 39 # CHR 39 # sqlesc s else c # sqlesc s)"
  by (simp add: sqlesc_def)

lemma sql_in_esc: "r \<noteq> [] \<Longrightarrow> r ! 0 \<noteq> CHR 39 \<Longrightarrow> sql_in cur (sqlesc s @ CHR 39 # r) = (cur @ s) # sql_out r"
proof (induction s arbitrary: cur)
  case Nil
  then show ?case by (cases r) (simp_all add: sqlesc_def)
next
  case (Cons c s)
  obtain d t where d: "sqlesc s @ CHR 39 # r = d # t" by (cases "sqlesc s @ CHR 39 # r") auto
  show ?case
  proof (cases "c = CHR 39")
    case True
    then show ?thesis using Cons by (simp add: sqlesc_Cons)
  next
    case False
    then have "sql_in cur (sqlesc (c # s) @ CHR 39 # r) = sql_in (cur @ [c]) (sqlesc s @ CHR 39 # r)" by (simp add: sqlesc_Cons d)
    then show ?thesis using Cons by simp
  qed
qed

lemma sql_out_str: "r \<noteq> [] \<Longrightarrow> r ! 0 \<noteq> CHR 39 \<Longrightarrow> sql_out (sqstr s @ r) = s # sql_out r"
  using sql_in_esc[of r "[]" s] by (simp add: sqstr_def)

lemma digits_unquoted: "list_all is_digit s \<Longrightarrow> CHR 39 \<notin> set s"
  by (auto simp: list_all_iff is_digit_def)

lemma show_unquoted [simp]: "CHR 39 \<notin> set (show_nat n)" "CHR 39 \<notin> set (show_int i)"
  by (auto simp: show_int_def digits_unquoted[OF show_nat_digits])

lemma fmt_unquoted [simp]: "CHR 39 \<notin> set (fmt_g P d)"
proof -
  have z: "CHR 39 \<notin> set t \<Longrightarrow> CHR 39 \<notin> set (strip_zeros t)" "CHR 39 \<notin> set t \<Longrightarrow> CHR 39 \<notin> set (dot_frac t)" for t
    by (auto simp: strip_zeros_def dot_frac_def dest: set_dropWhileD)
  have t: "CHR 39 \<notin> set (take k (show_nat n))" "CHR 39 \<notin> set (drop k (show_nat n))" for k n
    using show_unquoted(1)[of n] by (auto dest: in_set_takeD in_set_dropD)
  have "CHR 39 \<notin> set (show_exp x)" for x by (simp add: show_exp_def Let_def)
  then have "CHR 39 \<notin> set (fmt_pos P q)" for q
    unfolding fmt_pos_def Let_def by (auto simp: z t split: prod.split)
  then show ?thesis by (cases d) simp_all
qed

definition folder_texts :: "folder \<Rightarrow> string list" where
  "folder_texts d = [fo_path d, fo_rel d, fo_name d]"

definition file_texts :: "file_entry \<Rightarrow> string list" where
  "file_texts e = [fe_id e, fe_path e, fe_rel e, fe_name e, fe_ext e, fe_sha e, fe_format e, fe_domain e, fe_sig e, fe_key e, fe_revision e, fe_group e]"

lemma sql_out_comma: "sql_out (sqstr s @ CHR '','' # r) = s # sql_out (CHR '','' # r)" "sql_out (sqstr s @ CHR '')'' # r) = s # sql_out (CHR '')'' # r)"
  by (rule sql_out_str; simp)+

lemma folder_literals: "sql_out (folder_sql d @ r) = folder_texts d @ sql_out r"
  by (simp add: folder_sql_def folder_texts_def sql_out_comma sql_out_skip)

lemma file_literals: "sql_out (file_sql e @ r) = file_texts e @ sql_out r"
  by (simp add: file_sql_def file_texts_def sql_out_comma sql_out_skip)

lemma registry_literals:
  "sql_out (registry_sql c) = concat (map folder_texts (ct_folders c)) @ concat (map file_texts (ct_files c))"
proof -
  have "sql_out (concat (map folder_sql ds) @ r) = concat (map folder_texts ds) @ sql_out r" for ds r
    by (induction ds) (simp_all add: folder_literals)
  moreover have "sql_out (concat (map file_sql fs) @ r) = concat (map file_texts fs) @ sql_out r" for fs r
    by (induction fs) (simp_all add: file_literals)
  ultimately show ?thesis by (simp add: registry_sql_def)
qed

section \<open>The stored catalog\<close>

lemma put_file_up: "store_up s \<Longrightarrow> store_up (fold put_file es s)"
  by (induction es arbitrary: s) (simp_all add: put_file_def db.put_up)

lemma put_folder_up: "store_up s \<Longrightarrow> store_up (fold put_folder ds s)"
  by (induction ds arbitrary: s) (simp_all add: put_folder_def db.put_up)

lemma log_unknown_up: "store_up s \<Longrightarrow> store_up (fold log_unknown es s) \<and> store_get (fold log_unknown es s) k i = store_get s k i"
  by (induction es arbitrary: s) (simp_all add: log_unknown_def db.app_up db.get_app)

lemma log_error_up: "store_up s \<Longrightarrow> store_up (fold log_error es s) \<and> store_get (fold log_error es s) k i = store_get s k i"
  by (induction es arbitrary: s) (simp_all add: log_error_def db.app_up db.get_app)

lemma put_file_get:
  "store_up s \<Longrightarrow> \<forall>e\<in>set es. json_plain (file_doc e) \<Longrightarrow> distinct (map (sanitize \<circ> fe_id) es) \<Longrightarrow>
   e \<in> set es \<or> sanitize (fe_id e) \<notin> (sanitize \<circ> fe_id) ` set es \<and> store_get s ''file_registry'' (fe_id e) = Some (Some (file_doc e)) \<Longrightarrow>
   store_get (fold put_file es s) ''file_registry'' (fe_id e) = Some (Some (file_doc e))"
proof (induction es arbitrary: s)
  case (Cons x es)
  define s1 where "s1 = put_file x s"
  have u: "store_up s1" using Cons.prems(1) by (simp add: s1_def put_file_def db.put_up)
  have g: "store_get s1 ''file_registry'' i = (if sanitize i = sanitize (fe_id x) then Some (Some (file_doc x)) else store_get s ''file_registry'' i)" for i
    using Cons.prems(1,2) by (simp add: s1_def put_file_def db.get_put)
  have "e \<in> set es \<or> sanitize (fe_id e) \<notin> (sanitize \<circ> fe_id) ` set es \<and> store_get s1 ''file_registry'' (fe_id e) = Some (Some (file_doc e))"
    using Cons.prems(3,4) unfolding g by (cases "e = x") auto
  then have "store_get (fold put_file es s1) ''file_registry'' (fe_id e) = Some (Some (file_doc e))"
    using Cons.prems(2,3) by (intro Cons.IH[OF u]) auto
  then show ?case by (simp add: s1_def)
qed simp

lemma index_plain: "length (ct_folders c) < 2 ^ 53 \<Longrightarrow> length (ct_files c) < 2 ^ 53 \<Longrightarrow> length (ct_errors c) < 2 ^ 53 \<Longrightarrow> json_plain (index_doc c)"
proof -
  assume a: "length (ct_folders c) < 2 ^ 53" "length (ct_files c) < 2 ^ 53" "length (ct_errors c) < 2 ^ 53"
  have "length (filter P (ct_files c)) < 2 ^ 53" for P using a(2) length_filter_le[of P "ct_files c"] by linarith
  then have "\<bar>int (length (filter P (ct_files c)))\<bar> < 2 ^ 53" for P by (metis abs_of_nat of_nat_less_iff of_nat_numeral of_nat_power)
  moreover have "\<bar>int n\<bar> < 2 ^ 53" if "n < 2 ^ 53" for n using that by (metis abs_of_nat of_nat_less_iff of_nat_numeral of_nat_power)
  ultimately show ?thesis unfolding index_doc_def using a by (intro mkobj_plain) simp
qed

lemma store_get_migrate:
  assumes "store_up s" "\<forall>e\<in>set (ct_files c). json_plain (file_doc e)" "distinct (map (sanitize \<circ> fe_id) (ct_files c))" "json_plain (index_doc c)"
    and "e \<in> set (ct_files c)"
  shows "store_get (migrate c s) ''file_registry'' (fe_id e) = Some (Some (file_doc e))"
proof -
  have k: "sanitize ''file_registry'' \<noteq> sanitize ''l0''" by (simp add: sanitize_def)
  have u: "store_up (fold put_file (ct_files c) (fold put_folder (ct_folders c) s))" using assms(1) by (simp add: put_file_up put_folder_up)
  have "store_get (fold put_file (ct_files c) (fold put_folder (ct_folders c) s)) ''file_registry'' (fe_id e) = Some (Some (file_doc e))"
    using assms put_folder_up by (intro put_file_get) auto
  then show ?thesis
    using u k assms(4) by (simp add: migrate_def Let_def log_unknown_up log_error_up db.put_up db.get_app db.get_put)
qed

lemma migrate_up: "store_up s \<Longrightarrow> store_up (migrate c s)"
  by (simp add: migrate_def Let_def put_file_up put_folder_up log_unknown_up log_error_up db.app_up db.put_up)

end
