(* ===== verification/Fve_Platform.thy ===== *)
theory Fve_Platform
  imports Fve_Cache Fve_Graph Fve_Diff Fve_Catalog
begin

text \<open>
  The properties of the layers around the engine: the cache, the case base, the artifact graph, the
  difference of runs, the records and the catalog, each with a concrete run.
\<close>

lemma empty_store_up: "store_up (store_new r)"
  by (simp add: store_up_def store_new_def writable_def logs_ok_def file_text_def dir_files_def)

section \<open>The evaluation cache\<close>

text \<open>C14. The evaluation cache refines a plain list of entries in order of use, cut to the limit: every
  operation gives the same answer and leads to the same list, and keeps the map and the list of keys
  consistent.\<close>

theorem cache_refines_lru:
  assumes "cache_reach c"
  shows "fst (cache_step op c) = fst (lru_step op (cache_abs c)) \<and> cache_abs (snd (cache_step op c)) = snd (lru_step op (cache_abs c))
    \<and> cache_reach (snd (cache_step op c)) \<and> cache_ok (snd (cache_step op c))"
  using cache_step_refines[OF reach_ok[OF assms]] cr_step[OF assms] by blast

text \<open>A cache of one entry that has answered once.\<close>

definition demo_cache :: eval_cache where
  "demo_cache = snd (cache_step (CGet ''p'' []) (snd (cache_step
     (CPut 7 ''p'' [] \<lparr>ms = point (Fin 1), residual = Fin 0, r_trace = []\<rparr>
     \<lparr>program_hash = [], ms_lo = Fin 1, ms_hi = Fin 1, c_residual = Fin 0, c_ks = Fin 0, c_method = [], c_regime = CHR ''A'', c_verdict = Safe,
       conditions = [], c_digest = []\<rparr>) cache_new)))"

lemma demo_cache_reach: "cache_reach demo_cache"
  unfolding demo_cache_def by (intro cr_step cr_new)

lemma cache_refines_lru_witness:
  "fst (cache_step (CGet ''p'' []) demo_cache) = fst (lru_step (CGet ''p'' []) (cache_abs demo_cache))
     \<and> cache_abs (snd (cache_step (CDrop ''p'') demo_cache)) = snd (lru_step (CDrop ''p'') (cache_abs demo_cache))"
  using cache_refines_lru[OF demo_cache_reach] by blast

text \<open>A name of 79 characters or more fills the buffer the fingerprint is printed into, so that an evaluation
  over one interval is answered with the result cached for another.\<close>

theorem cache_answers_wrong_box:
  assumes "cache_reach c" "0 < ec_limit c" "79 \<le> length (cstr n)"
  shows "fst (cache_get ph [(n, j)] (cache_put now ph [(n, i)] r cert c)) = Some \<lparr>ce_result = r, ce_cert = cert, ce_at = now\<rparr>"
  using get_put_entry[OF reach_ok[OF assms(1)] assms(2), of ph "[(n, j)]" ph "[(n, i)]"] fingerprint_cut[OF assms(3)] by blast

definition long_name :: string where
  "long_name = replicate 79 CHR ''x''"

lemma cache_answers_wrong_box_witness:
  "ce_result (the (fst (cache_get ''p'' [(long_name, point (Fin 2))] (cache_put 0 ''p'' [(long_name, point (Fin 1))]
      \<lparr>ms = point (Fin 1), residual = Fin 0, r_trace = []\<rparr> cert cache_new)))) = \<lparr>ms = point (Fin 1), residual = Fin 0, r_trace = []\<rparr>"
proof -
  have "79 \<le> length (cstr long_name)" by (simp add: long_name_def cstr_def takeWhile_replicate)
  from cache_answers_wrong_box[OF cr_new _ this] show ?thesis by (simp add: cache_new_def)
qed

section \<open>The case base\<close>

text \<open>C30. A search returns only cases of the same program whose distance is below the limit, or for which the
  distance or the limit is no number, each with a fix that is approved and that a link calls resolved for this case,
  and no more than were asked for.\<close>

theorem case_query_admitted:
  assumes "query s ph b delta k = Some hs"
  shows "list_all (good_match s ph b delta) hs \<and> (0 \<le> k \<longrightarrow> int (length hs) \<le> k)"
  using query_good[OF assms] by blast

text \<open>A store with a case, an approved fix and a link between them.\<close>

definition demo_link :: json where
  "demo_link = mkobj [(''case_id'', JStr ''c''), (''fix_id'', JStr ''f''), (''outcome'', JStr ''resolved'')]"

definition demo_case :: json where
  "demo_case = mkobj [(''program_hash'', JStr ''p''), (''box'', mkobj [(''x'', JArr [JNum (Fin 1), JNum (Fin 2)])])]"

definition demo_fix :: json where
  "demo_fix = mkobj [(''id'', JStr ''f''), (''status'', JStr ''approved''), (''patch'', mkobj [])]"

definition demo_store :: store where
  "demo_store = \<lparr>st_root = ''r'', st_dirs =
     [(''case_fix_links'', [(''l.json'', dump demo_link)]), (''cases'', [(''c.json'', dump demo_case)]), (''fixes'', [(''f.json'', dump demo_fix)])],
     st_deny = (\<lambda>_. False)\<rparr>"

lemma small_plain: "json_plain (JNum (Fin 1))" "json_plain (JNum (Fin 2))"
  using jint_plain[of 1] jint_plain[of 2] by (simp_all add: jint_val)

lemma demo_get:
  "store_get demo_store ''cases'' ''c'' = Some (Some demo_case)"
  "store_get demo_store ''fixes'' ''f'' = Some (Some demo_fix)"
  "store_get demo_store ''case_fix_links'' ''l'' = Some (Some demo_link)"
  "store_list demo_store ''cases'' = [''c'']" "store_list demo_store ''case_fix_links'' = [''l'']"
proof -
  have "json_plain demo_case" unfolding demo_case_def
    by (rule mkobj_plain) (use small_plain in \<open>simp add: mkobj_plain del: json_plain.simps(3)\<close>)
  moreover have "json_plain demo_fix" "json_plain demo_link" unfolding demo_fix_def demo_link_def
    by (rule mkobj_plain, simp add: mkobj_plain)+
  ultimately show "store_get demo_store ''cases'' ''c'' = Some (Some demo_case)"
    "store_get demo_store ''fixes'' ''f'' = Some (Some demo_fix)"
    "store_get demo_store ''case_fix_links'' ''l'' = Some (Some demo_link)"
    by (simp_all add: store_get_def file_text_def dir_files_def demo_store_def doc_file_def sanitize_def sanitize_char_def parse_dump)
  show "store_list demo_store ''cases'' = [''c'']" "store_list demo_store ''case_fix_links'' = [''l'']"
    by (simp_all add: store_list_def dir_files_def demo_store_def sanitize_def sanitize_char_def strip_json_def)
qed

lemma demo_fields:
  "jstr demo_link ''case_id'' [] = ''c''" "jstr demo_link ''fix_id'' [] = ''f''" "jstr demo_link ''outcome'' [] = ''resolved''"
  "jstr demo_case ''program_hash'' [] = ''p''" "jstr demo_case ''cert_hash'' [] = []"
  "jat demo_case ''box'' = mkobj [(''x'', JArr [JNum (Fin 1), JNum (Fin 2)])]"
  "jstr demo_fix ''id'' [] = ''f''" "jstr demo_fix ''status'' [] = ''approved''" "jstr demo_fix ''description'' [] = []"
  "jat demo_fix ''patch'' = mkobj []"
  by (simp_all add: demo_link_def demo_case_def demo_fix_def jstr_def jat_def mkobj_get)

lemma demo_dist: "case_distance [] b = Fin (10 ^ 9)"
  using representable_int[of "10 ^ 9"] by (simp add: case_distance_def c_lit_def fround_exact)

definition demo_match :: case_match where
  "demo_match = \<lparr>cm_ref = case_none\<lparr>ca_id := ''c'', ca_prog := ''p'', ca_box := [(''x'', Ival (Fin 1) (Fin 2))]\<rparr>, cm_dist = Fin (10 ^ 9),
     cm_fix = \<lparr>fx_id = ''f'', fx_text = [], fx_patch = []\<rparr>, cm_verified = False, cm_cert = None\<rparr>"

lemma demo_query: "query demo_store ''p'' [] (Fin (10 ^ 10)) 5 = Some [demo_match]"
  by (simp add: query_def demo_get match_case_def demo_fields json_box_def mkobj_def mbuild_def demo_dist demo_match_def case_none_def Let_def fle_def)

lemma case_query_admitted_witness: "admitted demo_store ''c'' (cm_fix demo_match)"
  using case_query_admitted[OF demo_query] by (simp add: good_match_def demo_match_def case_none_def)

section \<open>The artifact graph\<close>

text \<open>C31. The graph is always built, and is exact. It expands a list of different artifacts: its edges are all
  stored dependencies of these and no others, its artifacts are the root and the targets of its edges, each once and
  each reached through its edges, and an artifact it does not expand is at the end of a path as long as the depth
  limit. When the limit is at least the number of artifacts these are all that the root reaches, and the edges all
  that leave them. The cycle flag is set exactly when the edges have a cycle, and without one the order puts every
  dependency before the artifact that needs it.\<close>

theorem build_order_exact:
  "\<exists>g xs. build_graph edges r m = Some g \<and> distinct (ag_artifacts g)
     \<and> distinct xs \<and> ag_edges g = concat (map (out_edges edges) xs)
     \<and> set xs \<subseteq> set (ag_artifacts g) \<and> set (ag_artifacts g) = insert r (ae_to ` set (ag_edges g))
     \<and> (\<forall>x\<in>set (ag_artifacts g). (r, x) \<in> (edge_rel (ag_edges g))\<^sup>*)
     \<and> (\<forall>x\<in>set (ag_artifacts g) - set xs. (r, x) \<in> edge_rel edges ^^ nat m)
     \<and> (int (length (ag_artifacts g)) \<le> m \<longrightarrow> set (ag_artifacts g) = {x. (r, x) \<in> (edge_rel edges)\<^sup>*}
          \<and> set (ag_edges g) = {e \<in> set edges. (r, ae_from e) \<in> (edge_rel edges)\<^sup>*})
     \<and> (ag_cycle g = (\<exists>x. (x, x) \<in> (edge_rel (ag_edges g))\<^sup>+))
     \<and> (ag_cycle g \<or> (\<forall>e. e \<in> set (ag_edges g) \<longrightarrow> before (ag_artifacts g) (ae_to e) (ae_from e)))"
proof -
  obtain g xs where g: "build_graph edges r m = Some g" "distinct (ag_artifacts g)"
      "collected edges r (set (ag_artifacts g)) (ag_edges g)" "ag_cycle g \<longleftrightarrow> (\<exists>x. (x, x) \<in> (edge_rel (ag_edges g))\<^sup>+)"
      "\<not> ag_cycle g \<longrightarrow> (\<forall>e\<in>set (ag_edges g). before (ag_artifacts g) (ae_to e) (ae_from e))"
    and x: "exploring edges r m (set (ag_artifacts g)) [] xs (ag_edges g)"
    using build_graph_ok[of edges r m] by blast
  have reach: "\<forall>x\<in>set (ag_artifacts g). (r, x) \<in> (edge_rel (ag_edges g))\<^sup>*" using g(3) by (simp add: collected_def)
  have "\<forall>x\<in>set (ag_artifacts g) - set xs. (r, x) \<in> edge_rel edges ^^ nat m" using exploringD(8)[OF x] by auto
  moreover have "int (length (ag_artifacts g)) \<le> m \<longrightarrow> set (ag_artifacts g) = {x. (r, x) \<in> (edge_rel edges)\<^sup>*}
      \<and> set (ag_edges g) = {e \<in> set edges. (r, ae_from e) \<in> (edge_rel edges)\<^sup>*}"
    using explored_all[OF x _ reach] distinct_card[OF g(2)] by simp
  moreover have "set xs \<subseteq> set (ag_artifacts g)" using exploringD(6)[OF x] by simp
  moreover have "ag_cycle g \<or> (\<forall>e. e \<in> set (ag_edges g) \<longrightarrow> before (ag_artifacts g) (ae_to e) (ae_from e))" using g(5) by blast
  ultimately show ?thesis using g(1,2,4) exploringD(1-3)[OF x] reach by (intro exI[of _ g] exI[of _ xs] conjI)
qed

lemma build_order_exact_witness:
  "\<exists>g. build_graph deep_edges ''r'' 9 = Some g \<and> (ag_cycle g = (\<exists>x. (x, x) \<in> (edge_rel (ag_edges g))\<^sup>+))"
proof -
  obtain g where "build_graph deep_edges ''r'' 9 = Some g" "ag_cycle g = (\<exists>x. (x, x) \<in> (edge_rel (ag_edges g))\<^sup>+)"
    using build_order_exact[of deep_edges "''r''" 9] by (elim exE conjE) (rule that)
  then show ?thesis by (intro exI[of _ g] conjI)
qed

text \<open>The artifacts affected by a change are exactly those with a path of dependencies to the changed one, each
  once.\<close>

theorem affected_are_dependents:
  "distinct (affected_artifacts g c) \<and> set (affected_artifacts g c) = {x. (x, c) \<in> (edge_rel (ag_edges g))\<^sup>+}"
  using affected_ok[of g c] by (simp add: dependents_def)

section \<open>The difference of two runs\<close>

text \<open>The difference of two stored runs has one entry for each cell of the new run, and calls the new run no
  worse exactly when no entry regressed; only cells that both runs have can regress.\<close>

theorem run_diff_flag:
  assumes "diff_runs s a b = Some d" "cd_ok d"
  shows "\<exists>ja jb. store_get s ''runs'' a = Some (Some ja) \<and> store_get s ''runs'' b = Some (Some jb)
    \<and> td_cell ` set (cd_targets d) = fst ` set (targets_by_cell jb)
    \<and> cd_safe d = list_all (\<lambda>t. \<not> (old_present (targets_by_cell ja) t \<and> regressed t)) (cd_targets d)"
proof -
  obtain ja jb where j: "store_get s ''runs'' a = Some (Some ja)" "store_get s ''runs'' b = Some (Some jb)"
      "td_cell ` set (cd_targets d) = fst ` set (targets_by_cell jb)" "cd_safe d \<longleftrightarrow> (\<forall>t\<in>set (cd_targets d). \<not> regressed t)"
      "\<forall>t\<in>set (cd_targets d). regressed t \<longrightarrow> old_present (targets_by_cell ja) t"
    using diff_runs_safe[OF assms] by (elim exE conjE) (rule that)
  have "cd_safe d = list_all (\<lambda>t. \<not> (old_present (targets_by_cell ja) t \<and> regressed t)) (cd_targets d)"
    using j(4,5) by (auto simp: list_all_iff)
  then show ?thesis using j(1-3) by blast
qed

definition run_doc :: "string \<Rightarrow> json" where
  "run_doc v = mkobj [(''targets'', JArr [mkobj [(''cell'', JStr ''A1''), (''verdict'', JStr v)]])]"

definition run_store :: store where
  "run_store = \<lparr>st_root = ''r'', st_dirs = [(''runs'', [(''a.json'', dump (run_doc ''SAFE'')), (''b.json'', dump (run_doc ''ABSTAIN''))])],
     st_deny = (\<lambda>_. False)\<rparr>"

lemma run_get: "store_get run_store ''runs'' ''a'' = Some (Some (run_doc ''SAFE''))"
  "store_get run_store ''runs'' ''b'' = Some (Some (run_doc ''ABSTAIN''))"
proof -
  have "json_plain (run_doc v)" for v
    unfolding run_doc_def by (rule mkobj_plain) (simp add: mkobj_plain)
  then show "store_get run_store ''runs'' ''a'' = Some (Some (run_doc ''SAFE''))"
    "store_get run_store ''runs'' ''b'' = Some (Some (run_doc ''ABSTAIN''))"
    by (simp_all add: store_get_def file_text_def dir_files_def run_store_def doc_file_def sanitize_def sanitize_char_def parse_dump)
qed

lemma demo_diff: "\<exists>d. diff_runs run_store ''a'' ''b'' = Some d \<and> cd_ok d \<and> \<not> cd_safe d"
proof -
  define t where "t v = mkobj [(''cell'', JStr ''A1''), (''verdict'', JStr v)]" for v
  have t: "targets_by_cell (run_doc v) = [(''A1'', t v)]" for v
    by (simp add: targets_by_cell_def run_doc_def jhas_def jat_def mkobj_get t_def jstr_def)
  have f: "int_field (t v) ''holes'' = Some 0" for v
    by (simp add: int_field_def jn_def t_def mkobj_get to_int32_def)
  have v: "jstr (t v) ''verdict'' [] = v" for v by (simp add: t_def jstr_def mkobj_get)
  show ?thesis
    by (simp add: diff_runs_def run_get t add_target_def f Let_def diff_start_def regressed_def matched_delta_def fresh_delta_def v transition_of_def)
qed

lemma run_diff_flag_witness:
  "\<exists>d ja. diff_runs run_store ''a'' ''b'' = Some d
     \<and> \<not> list_all (\<lambda>t. \<not> (old_present (targets_by_cell ja) t \<and> regressed t)) (cd_targets d)"
proof -
  obtain d where d: "diff_runs run_store ''a'' ''b'' = Some d" "cd_ok d" "\<not> cd_safe d" using demo_diff by blast
  from run_diff_flag[OF d(1,2)] d show ?thesis by blast
qed

section \<open>Records\<close>

text \<open>C33. While every append to the store succeeds, the payload of an event survives the JSON text (its numbers
  are zero or normal doubles, its objects are in order) and the log has fewer than 2^53 entries, recording an event
  appends one entry to the audit log, which carries the head of the chain before it, and the chain in memory stays the
  chain of the log.\<close>

theorem audit_stays_in_step:
  assumes "audit_ok a" "pred_option json_plain pl" "store_read_log (au_store a) ''audit'' = Some es" "int (length es) < 2 ^ 53"
  shows "\<exists>a' e. audit_record ty subject pl user a = Some (head (au_chain a'), a') \<and> audit_ok a'
    \<and> store_read_log (au_store a') ''audit'' = Some (es @ [e]) \<and> jstr e ''prev'' [] = hex (head (au_chain a))"
  using audit_record_step[OF assms] .

lemma audit_stays_in_step_witness:
  "\<exists>a' e. audit_record ''run'' ''s'' None ''u'' \<lparr>au_store = store_new ''r'', au_chain = chain_new\<rparr> = Some (head (au_chain a'), a')
     \<and> store_read_log (au_store a') ''audit'' = Some [e]"
proof -
  have r: "store_read_log (store_new ''r'') ''audit'' = Some []" by (simp add: store_read_log_def file_text_def dir_files_def store_new_def)
  then have "audit_ok \<lparr>au_store = store_new ''r'', au_chain = chain_new\<rparr>"
    by (simp add: audit_ok_def empty_store_up audit_rebuild_def log_chain_def)
  from audit_stays_in_step[OF this, of None "[]" "''run''" "''s''" "''u''"] r show ?thesis by auto
qed

text \<open>Putting an artifact stores its document under the digest of its bytes, as the next version of its name.\<close>

theorem artifact_next_version:
  assumes "store_up s" "version_of s ''artifacts'' name = Some v" "v < 2147483647" "pred_option json_plain meta" "int (length ys) < 2 ^ 53"
  shows "\<exists>s'. put_artifact name mime ys meta s = Some (artifact_id ys, s') \<and> store_up s'
    \<and> version_of s' ''artifacts'' name = Some (v + 1)
    \<and> store_get s' ''artifacts'' (artifact_id ys) = Some (Some (artifact_doc name mime ys meta (v + 1)))
    \<and> unb64 (jstr (artifact_doc name mime ys meta (v + 1)) ''data'' []) = ys"
proof -
  have "jstr (artifact_doc name mime ys meta (v + 1)) ''data'' [] = b64 ys"
    by (simp add: artifact_doc_def Let_def jstr_def mkobj_get)
  then show ?thesis using put_artifact_step[OF assms] by (simp add: unb64_b64)
qed

lemma artifact_next_version_witness:
  "\<exists>s'. put_artifact ''a'' ''m'' [1, 2] None (store_new ''r'') = Some (artifact_id [1, 2], s') \<and> version_of s' ''artifacts'' ''a'' = Some 1"
proof -
  have "version_of (store_new ''r'') ''artifacts'' ''a'' = Some 0"
    by (simp add: version_of_def store_list_def dir_files_def store_new_def)
  from artifact_next_version[OF empty_store_up this, of None "[1, 2]" "''m''"] show ?thesis by auto
qed

section \<open>The catalog\<close>

text \<open>C32. When no rank is a NaN, every group of revisions has exactly one head after the heads are resolved,
  and the catalog returns it: no file of the group has a higher rank, none of the same rank has a later time, none of
  the same rank and time lies in a deeper directory, and none that agrees in all three has a greater path. The files
  of the group are numbered from 0 without a gap, the head is number 0, and nothing else of the files changes.\<close>

theorem one_head_per_group:
  assumes "k \<in> fe_key ` set (ct_files c)" "\<forall>e. e \<in> set (ct_files c) \<longrightarrow> fe_rank e \<noteq> NaN"
  shows "\<exists>e. head_of (resolve_heads c) k = Some e \<and> filter fe_head (group_files (resolve_heads c) k) = [e] \<and> fe_index e = 0
      \<and> list_all (\<lambda>x. flt (fe_rank x) (fe_rank e) \<or> feq (fe_rank x) (fe_rank e) \<and> (fe_mtime x < fe_mtime e \<or> fe_mtime x = fe_mtime e
           \<and> (file_depth c x < file_depth c e \<or> file_depth c x = file_depth c e \<and> fe_rel x \<le> fe_rel e)))
         (group_files (resolve_heads c) k)
      \<and> mset (map fe_index (group_files (resolve_heads c) k)) = mset [0..<length (group_files (resolve_heads c) k)]
      \<and> map base_of (ct_files (resolve_heads c)) = map base_of (ct_files c)"
proof -
  let ?g = "group_files (resolve_heads c) k"
  have r: "\<forall>e\<in>set (ct_files c). fe_rank e \<noteq> NaN" using assms(2) by blast
  obtain e where e: "filter fe_head ?g = [e]" "fe_index e = 0" "\<forall>x\<in>set ?g. \<not> newer (ct_folders c) x e"
    using head_facts(1)[OF assms(1) r] by blast
  have "e \<in> set ?g" using e(1) by (metis filter_is_subset list.set_intros(1) subsetD)
  then have n: "x \<in> set ?g \<Longrightarrow> fe_rank x \<noteq> NaN \<and> fe_rank e \<noteq> NaN" for x using resolved_rank[OF r] by (auto simp: group_files_def)
  have "head_of (resolve_heads c) k = Some e \<and> filter fe_head ?g = [e] \<and> fe_index e = 0 \<and> list_all (\<lambda>x. flt (fe_rank x) (fe_rank e)
      \<or> feq (fe_rank x) (fe_rank e) \<and> (fe_mtime x < fe_mtime e \<or> fe_mtime x = fe_mtime e
           \<and> (file_depth c x < file_depth c e \<or> file_depth c x = file_depth c e \<and> fe_rel x \<le> fe_rel e))) ?g"
    using e n not_newer by (simp add: head_of_group list_all_iff file_depth_def)
  then show ?thesis using head_facts(2)[OF assms(1) r] resolve_base[of c] by blast
qed

definition demo_file :: "string \<Rightarrow> real \<Rightarrow> file_entry" where
  "demo_file n r = \<lparr>fe_id = n, fe_folder = 0, fe_path = n, fe_rel = n, fe_name = n, fe_ext = ''csv'', fe_size = 1, fe_mtime = 1, fe_sha = [],
     fe_format = [], fe_domain = [], fe_sig = [], fe_hits = 0, fe_key = ''k'', fe_revision = [], fe_rank = Fin r, fe_head = False,
     fe_group = [], fe_index = 0, fe_keywords = []\<rparr>"

lemma demo_rank: "fe_rank (demo_file n r) = Fin r" "fe_key (demo_file n r) = ''k''"
  by (simp_all add: demo_file_def)

definition demo_catalog :: catalog where
  "demo_catalog = \<lparr>ct_root = ''r'', ct_folders = [], ct_files = [demo_file ''a'' 1, demo_file ''b'' 2], ct_errors = []\<rparr>"

lemma one_head_per_group_witness:
  "\<exists>e. head_of (resolve_heads demo_catalog) ''k'' = Some e \<and> fe_rank e \<noteq> Fin 1"
proof -
  have k: "''k'' \<in> fe_key ` set (ct_files demo_catalog)" "\<forall>e. e \<in> set (ct_files demo_catalog) \<longrightarrow> fe_rank e \<noteq> NaN"
    by (auto simp: demo_catalog_def demo_file_def)
  obtain e where e: "head_of (resolve_heads demo_catalog) ''k'' = Some e" "list_all (\<lambda>x. flt (fe_rank x) (fe_rank e) \<or> feq (fe_rank x) (fe_rank e))
      (group_files (resolve_heads demo_catalog) ''k'')" "map base_of (ct_files (resolve_heads demo_catalog)) = map base_of (ct_files demo_catalog)"
    using one_head_per_group[OF k] by (fastforce simp: list_all_iff)
  have "length (ct_files (resolve_heads demo_catalog)) = 2" using arg_cong[OF e(3), of length] by (simp add: demo_catalog_def)
  then have i: "ct_files (resolve_heads demo_catalog) ! 1 \<in> set (ct_files (resolve_heads demo_catalog))" by simp
  have "base_of (ct_files (resolve_heads demo_catalog) ! 1) = base_of (demo_file ''b'' 2)"
    using base_nth[OF e(3), of 1] \<open>length _ = 2\<close> by (simp add: demo_catalog_def)
  then have "fe_rank (ct_files (resolve_heads demo_catalog) ! 1) = Fin 2" "fe_key (ct_files (resolve_heads demo_catalog) ! 1) = ''k''"
    by (metis base_fields(2) demo_rank, metis base_fields(1) demo_rank(2))
  then show ?thesis using e(1,2) i by (auto simp: group_files_def list_all_iff)
qed

text \<open>C34. The SQL script is safe against any text in a path, a name or a key: the quoted literals a server
  reads back from it are the texts of the folders and of the files, in their order, and nothing more.\<close>

theorem sql_script_literals:
  "sql_out (registry_sql c) = concat (map folder_texts (ct_folders c)) @ concat (map file_texts (ct_files c))"
  by (rule registry_literals)

text \<open>Every file of a migrated catalog is in the document store under its id, when the ids differ.\<close>

theorem migrated_file_stored:
  assumes "store_up s" "list_all (\<lambda>e. json_plain (file_doc e)) (ct_files c)" "distinct (map (sanitize \<circ> fe_id) (ct_files c))"
    and "json_plain (index_doc c)" "e \<in> set (ct_files c)"
  shows "store_get (migrate c s) ''file_registry'' (fe_id e) = Some (Some (file_doc e)) \<and> store_up (migrate c s)"
  using store_get_migrate[OF assms(1) _ assms(3-5)] migrate_up[OF assms(1)] assms(2) by (simp add: list_all_iff)

lemma migrated_file_stored_witness:
  "store_get (migrate demo_catalog (store_new ''r'')) ''file_registry'' ''b'' = Some (Some (file_doc (demo_file ''b'' 2)))"
proof -
  have i: "json_plain (jint 0)" "json_plain (jint 1)" by (rule jint_plain, simp)+
  have n: "json_plain (JNum (Fin 1))" "json_plain (JNum (Fin 2))" using i(2) jint_plain[of 2] by (simp_all add: jint_val)
  then have "list_all (\<lambda>e. json_plain (file_doc e)) (ct_files demo_catalog)"
    unfolding demo_catalog_def by (auto simp: file_doc_def demo_file_def intro!: mkobj_plain)
  moreover have "json_plain (index_doc demo_catalog)" by (rule index_plain) (simp_all add: demo_catalog_def)
  moreover have "distinct (map (sanitize \<circ> fe_id) (ct_files demo_catalog))"
    by (simp add: demo_catalog_def demo_file_def sanitize_def sanitize_char_def)
  moreover have "demo_file ''b'' 2 \<in> set (ct_files demo_catalog)" by (simp add: demo_catalog_def)
  ultimately show ?thesis using migrated_file_stored[OF empty_store_up] by (fastforce simp: demo_file_def)
qed

text \<open>A walk numbers every directory behind its parent, one level deeper, and lists only files of a listed
  directory that have a wanted extension and are newer than asked for.\<close>

theorem crawl_well_formed:
  assumes "sys_stat sys r = Some st"
  shows "crawl_ok exts since (crawl sys r exts since)"
  using crawl_start(1)[OF assms] .

definition dir_stat :: file_stat where
  "dir_stat = \<lparr>fs_kind = KDir, fs_dev = 1, fs_ino = 1, fs_size = 0, fs_mtime = 0\<rparr>"

lemma crawl_well_formed_witness:
  "crawl_ok [''csv''] 0 (crawl \<lparr>sys_readdir = (\<lambda>_. Some [''a.csv'']), sys_lstat = (\<lambda>_. Some (dir_stat\<lparr>fs_kind := KReg\<rparr>)),
      sys_stat = (\<lambda>_. Some dir_stat), sys_read = (\<lambda>_. None)\<rparr> ''r'' [''csv''] 0)"
  by (rule crawl_well_formed[of _ _ dir_stat]) simp

text \<open>A second pass of the watcher over an unchanged tree with distinct paths reports no file.\<close>

theorem watcher_quiet:
  assumes "distinct (map ff_rel (cr_files (crawl sys r [''xlsx'', ''xlsm'', ''xlsb'', ''csv''] 0)))"
  shows "fst (poll_once sys r (snd (poll_once sys r seen))) = []"
  using poll_twice[OF assms] .

lemma watcher_quiet_witness:
  "fst (poll_once \<lparr>sys_readdir = (\<lambda>_. Some [''a.csv'']), sys_lstat = (\<lambda>_. Some (dir_stat\<lparr>fs_kind := KReg\<rparr>)),
      sys_stat = (\<lambda>_. Some dir_stat), sys_read = (\<lambda>_. None)\<rparr> ''r''
    (snd (poll_once \<lparr>sys_readdir = (\<lambda>_. Some [''a.csv'']), sys_lstat = (\<lambda>_. Some (dir_stat\<lparr>fs_kind := KReg\<rparr>)),
      sys_stat = (\<lambda>_. Some dir_stat), sys_read = (\<lambda>_. None)\<rparr> ''r'' []))) = []"
  by (rule watcher_quiet) code_simp

text \<open>A revision at the end of a file name does not change the key of the group: the name with it and the name
  without it have the same key, and the revision gives the rank.\<close>

theorem revision_keeps_key:
  assumes "ts \<noteq> []" "list_all tok_ok ts" "list_all plain_token ts" "tok_ok t" "token_rev (lower_text t) = Some (Some d, l)" "CHR ''.'' \<notin> set ext"
  shows "\<exists>r r'. parse_revision (join CHR ''_'' (ts @ [t]) @ CHR ''.'' # ext) = Some r \<and> parse_revision (join CHR ''_'' ts @ CHR ''.'' # ext) = Some r'
    \<and> rv_key r = rv_key r' \<and> rv_rank r = d \<and> rv_found r \<and> \<not> rv_found r'"
  using revision_key[OF assms] no_revision_key[OF assms(1-3,6)] by simp

lemma revision_keeps_key_witness:
  "\<exists>r r'. parse_revision ''wing_v3.csv'' = Some r \<and> parse_revision ''wing.csv'' = Some r' \<and> rv_key r = rv_key r' \<and> rv_rank r = Fin 3"
proof -
  have "token_rev (lower_text ''v3'') = Some (Some (Fin 3), ''v3'')" by code_simp
  moreover have "list_all tok_ok [''wing'']" "list_all plain_token [''wing'']" "tok_ok ''v3''" by code_simp+
  ultimately show ?thesis using revision_keeps_key[of "[''wing'']" "''v3''" "Fin 3" "''v3''" "''csv''"] by simp blast
qed


end
