(* ===== verification/Fve_Synth.thy ===== *)
theory Fve_Synth
  imports Fve_Holes Fve_Verifier
begin

text \<open>
  Wrapper synthesis (\<open>wrapper/synth\<close>) and the verdict \<open>platform/service\<close> draws from it: a function is
  probed on a grid and between its steepest probes, its slope is estimated, and the Lipschitz wrapper of
  the estimate stands in for the function. The function is a parameter.
\<close>

section \<open>The grid\<close>

record probe_fn =
  pf_f :: "double list \<Rightarrow> double"
  pf_domain :: "ival list"

definition grid_coord :: "nat \<Rightarrow> ival \<Rightarrow> nat \<Rightarrow> double" where
  "grid_coord per d i =
     (let t = (if per = 1 then Fin (1 / 2) else fdiv RNear (fround RNear (real i)) (fround RNear (real per - 1)))
      in fadd RNear (lo d) (fmul RNear t (fsub RNear (hi d) (lo d))))"

fun probe_grid :: "ival list \<Rightarrow> nat \<Rightarrow> double list list" where
  "probe_grid [] per = [[]]"
| "probe_grid (d # ds) per =
     (let rest = probe_grid ds per in concat (map (\<lambda>i. map (\<lambda>r. grid_coord per d i # r) rest) [0..<per]))"

section \<open>The model of a function\<close>

record local_model =
  lm_probes :: "probe list"
  lm_lip :: double
  lm_range :: ival
  lm_sign :: int
  lm_mono :: bool

definition tiny :: double where
  "tiny = fround RNear (1 / 10 ^ 12)"

fun pairs_of :: "'a list \<Rightarrow> ('a \<times> 'a) list" where
  "pairs_of [] = []"
| "pairs_of (x # xs) = map (Pair x) xs @ pairs_of xs"

definition probe_dist :: "probe \<Rightarrow> probe \<Rightarrow> double" where
  "probe_dist p q = fsqrt RNear (sqdist (p_x p) (p_x q))"

definition probe_slope :: "probe \<Rightarrow> probe \<Rightarrow> double" where
  "probe_slope p q = fdiv RNear (fabs (fsub RNear (p_f p) (p_f q))) (probe_dist p q)"

definition lip_step :: "double \<Rightarrow> probe \<times> probe \<Rightarrow> double" where
  "lip_step l pq =
     (if flt tiny (probe_dist (fst pq) (snd pq)) \<and> flt l (probe_slope (fst pq) (snd pq)) then probe_slope (fst pq) (snd pq) else l)"

definition lip_of :: "probe list \<Rightarrow> double" where
  "lip_of ps = foldl lip_step (Fin 0) (pairs_of ps)"

definition range_of :: "ival \<Rightarrow> probe list \<Rightarrow> ival" where
  "range_of r ps = foldl (\<lambda>r p. ihull r (point (p_f p))) r ps"

text \<open>The values at neighbouring probes, in the order of the grid.\<close>

definition rises :: "probe list \<Rightarrow> bool" where
  "rises ps = list_all (\<lambda>(p, q). \<not> flt (p_f q) (fsub RNear (p_f p) tiny)) (zip ps (drop 1 ps))"

definition falls :: "probe list \<Rightarrow> bool" where
  "falls ps = list_all (\<lambda>(p, q). \<not> flt (fadd RNear (p_f p) tiny) (p_f q)) (zip ps (drop 1 ps))"

definition probe_model :: "probe_fn \<Rightarrow> nat \<Rightarrow> local_model" where
  "probe_model fn per =
     (let ps = map (\<lambda>x. \<lparr>p_x = x, p_f = pf_f fn x\<rparr>) (probe_grid (pf_domain fn) per);
          line = (length (pf_domain fn) = 1 \<and> 2 \<le> length ps)
      in \<lparr>lm_probes = ps, lm_lip = lip_of ps, lm_range = range_of ival_empty ps,
          lm_sign = (if line then if rises ps then 1 else if falls ps then - 1 else 0 else 0),
          lm_mono = (line \<and> (rises ps \<or> falls ps))\<rparr>)"

section \<open>Refining the model\<close>

text \<open>The steepest pair of probes; the first two when no pair is told apart.\<close>

definition steep_step :: "double \<times> probe \<times> probe \<Rightarrow> probe \<times> probe \<Rightarrow> double \<times> probe \<times> probe" where
  "steep_step b pq =
     (if fle (probe_dist (fst pq) (snd pq)) tiny then b
      else if flt (fst b) (probe_slope (fst pq) (snd pq)) then (probe_slope (fst pq) (snd pq), pq) else b)"

definition steepest :: "probe list \<Rightarrow> probe \<times> probe" where
  "steepest ps = snd (foldl steep_step (Fin (- 1), ps ! 0, ps ! 1) (pairs_of ps))"

definition midpoint :: "probe \<Rightarrow> probe \<Rightarrow> double list" where
  "midpoint p q = map (\<lambda>(x, y). fmul RNear (Fin (1 / 2)) (fadd RNear x y)) (zip (p_x p) (p_x q))"

text \<open>The loop meant to take the new probe into the slope; its condition is \<open>i + 1 == m.probes.size()\<close>.\<close>

definition late_step :: "probe list \<Rightarrow> probe \<Rightarrow> double \<Rightarrow> double" where
  "late_step ps new l = foldl (\<lambda>l p. lip_step l (new, p)) l (butlast ps)"

function late_loop :: "nat \<Rightarrow> probe list \<Rightarrow> probe \<Rightarrow> double \<Rightarrow> double" where
  "late_loop i ps new l = (if i + 1 = length ps then late_loop (i + 1) ps new (late_step ps new l) else l)"
  by pat_completeness auto
termination by (relation "measure (\<lambda>(i, ps, new, l). length ps - i)") auto

declare late_loop.simps [simp del]

definition adapt_round :: "probe_fn \<Rightarrow> local_model \<Rightarrow> local_model" where
  "adapt_round fn m =
     (if length (lm_probes m) < 2 then m
      else let (p, q) = steepest (lm_probes m); x = midpoint p q; new = \<lparr>p_x = x, p_f = pf_f fn x\<rparr>; ps = lm_probes m @ [new]
           in m\<lparr>lm_probes := ps, lm_range := ihull (lm_range m) (point (p_f new)), lm_lip := late_loop 0 ps new (lm_lip m)\<rparr>)"

definition probe_adaptive :: "probe_fn \<Rightarrow> nat \<Rightarrow> nat \<Rightarrow> local_model" where
  "probe_adaptive fn per rounds = (adapt_round fn ^^ rounds) (probe_model fn per)"

section \<open>The wrapper\<close>

definition model_phys :: "local_model \<Rightarrow> ival" where
  "model_phys m =
     (if is_empty (lm_range m) then entire
      else let pad = fadd RNear (fmul RNear (Fin (1 / 2)) (width (lm_range m))) (fround RNear (1 / 10 ^ 9))
           in ival_of (fsub RNear (lo (lm_range m)) pad) (fadd RNear (hi (lm_range m)) pad))"

definition synth_wrapper :: "local_model \<Rightarrow> double \<Rightarrow> wrapper" where
  "synth_wrapper m safety = lipschitz_wrapper (lm_probes m) (fmul RNear (lm_lip m) safety) (model_phys m)"

definition wrap_enclose :: "local_model \<Rightarrow> ival list \<Rightarrow> double \<Rightarrow> ival" where
  "wrap_enclose m ins safety = w_encl (synth_wrapper m safety ins)"

text \<open>The verdict drawn from it when the evaluation abstains.\<close>

definition probe_count :: "nat \<Rightarrow> nat" where
  "probe_count n = (if 4 \<le> n then 3 else 5)"

definition wrapper_verdict :: "probe_fn \<Rightarrow> verdict" where
  "wrapper_verdict fn =
     (let we = wrap_enclose (probe_adaptive fn (probe_count (length (pf_domain fn))) 2) (pf_domain fn) (Fin (5 / 4))
      in if is_empty we \<or> is_entire we then Abstain else decide (lo we) (hi we) (Fin 0))"

section \<open>The probes\<close>

lemma grid_count: "length (probe_grid ds per) = per ^ length ds"
proof (induction ds)
  case (Cons d ds)
  have "length (concat (map (\<lambda>i. map (\<lambda>r. grid_coord per d i # r) (probe_grid ds per)) is')) = length is' * length (probe_grid ds per)" for is'
    by (induction is') simp_all
  then show ?case using Cons by (simp add: Let_def)
qed simp

lemma grid_dims: "x \<in> set (probe_grid ds per) \<Longrightarrow> length x = length ds"
  by (induction ds arbitrary: x) (auto simp: Let_def)

text \<open>The loop over the new probe is never entered: a round adds a third probe at least.\<close>

lemma late_loop_idle: "length ps \<noteq> 1 \<Longrightarrow> late_loop 0 ps new l = l"
  by (simp add: late_loop.simps)

lemma adapt_round_lip: "lm_lip (adapt_round fn m) = lm_lip m"
  by (simp add: adapt_round_def Let_def late_loop.simps split: prod.split)

lemma adapt_lip: "lm_lip (probe_adaptive fn per n) = lm_lip (probe_model fn per)"
  unfolding probe_adaptive_def by (induction n) (simp_all add: adapt_round_lip)

section \<open>Bounded arithmetic\<close>

text \<open>A finite value of at most \<open>B\<close>.\<close>

definition capped :: "real \<Rightarrow> double \<Rightarrow> bool" where
  "capped B d \<longleftrightarrow> is_fin d \<and> \<bar>fval d\<bar> \<le> B"

lemma capped_fround: "representable B \<Longrightarrow> \<bar>q\<bar> \<le> B \<Longrightarrow> capped B (fround m q)"
proof (cases "q = 0")
  case False
  assume r: "representable B" "\<bar>q\<bar> \<le> B"
  have b: "grid m q \<le> B" "- B \<le> grid m q"
  proof -
    have "grid m q \<le> grid RUp q" "grid RDown q \<le> grid m q" using grid_between by blast+
    moreover have "grid RUp q \<le> B" using grid_up_least[OF r(1)] r(2) False by simp
    moreover have "- B \<le> grid RDown q" using grid_dn_greatest[of "- B" q] r False by simp
    ultimately show "grid m q \<le> B" "- B \<le> grid m q" by simp_all
  qed
  have "\<bar>B\<bar> \<le> max_fin" using r(1) by (rule representable_le_max)
  moreover have "0 \<le> B" using r(2) by simp
  ultimately show ?thesis using b by (cases rule: fround_cases[OF False, of m]) (auto simp: capped_def)
qed (simp add: capped_def)

lemma capped_mono: "capped A d \<Longrightarrow> A \<le> B \<Longrightarrow> capped B d"
  by (simp add: capped_def)

lemma capped_fadd: "capped A a \<Longrightarrow> capped B b \<Longrightarrow> representable C \<Longrightarrow> A + B \<le> C \<Longrightarrow> capped C (fadd m a b)"
proof -
  assume w: "capped A a" "capped B b" "representable C" "A + B \<le> C"
  then have q: "\<bar>fval a + fval b\<bar> \<le> C" unfolding capped_def by linarith
  show ?thesis
  proof (cases "fval a + fval b = 0")
    case True
    then show ?thesis using fadd_real_zero[of a b m] w q by (simp add: capped_def)
  next
    case False
    then show ?thesis using fadd_real[of a b m] capped_fround[OF w(3) q] w by (simp add: capped_def)
  qed
qed

lemma capped_fneg [simp]: "capped B (fneg d) = capped B d"
  by (simp add: capped_def)

lemma capped_fsub: "capped A a \<Longrightarrow> capped B b \<Longrightarrow> representable C \<Longrightarrow> A + B \<le> C \<Longrightarrow> capped C (fsub m a b)"
  by (simp add: fsub_def capped_fadd)

lemma capped_fmul: "capped A a \<Longrightarrow> capped B b \<Longrightarrow> representable C \<Longrightarrow> A * B \<le> C \<Longrightarrow> capped C (fmul m a b)"
proof -
  assume w: "capped A a" "capped B b" "representable C" "A * B \<le> C"
  then have "\<bar>fval a * fval b\<bar> \<le> A * B" unfolding capped_def abs_mult by (intro mult_mono) auto
  then have q: "\<bar>fval a * fval b\<bar> \<le> C" using w(4) by linarith
  then have "0 \<le> C" by (meson abs_ge_zero order_trans)
  then show ?thesis using fmul_fin_cases[of a b m] capped_fround[OF w(3) q] w by (auto simp: capped_def)
qed

lemma capped_fin: "is_fin d \<Longrightarrow> \<bar>fval d\<bar> \<le> B \<Longrightarrow> capped B d"
  by (simp add: capped_def)

lemma fsqrt_fin: "is_fin d \<Longrightarrow> 0 \<le> fval d \<Longrightarrow> is_fin (fsqrt m d)"
  by (cases d) auto

lemma representable_frac: "numeral n < (2::int) ^ 53 \<Longrightarrow> k \<le> 1074 \<Longrightarrow> representable (numeral n / 2 ^ k)"
  using representable_scaled[of "numeral n" k] by simp

lemma fround_lower: "representable B \<Longrightarrow> 0 < B \<Longrightarrow> B \<le> q \<Longrightarrow> representable C \<Longrightarrow> q \<le> C \<Longrightarrow>
    is_fin (fround m q) \<and> B \<le> fval (fround m q) \<and> fval (fround m q) \<le> C"
proof -
  assume a: "representable B" "0 < B" "B \<le> q" "representable C" "q \<le> C"
  have c: "capped C (fround m q)" by (rule capped_fround[OF a(4)]) (use a in simp)
  have "B \<le> grid RDown q" using grid_dn_greatest[OF a(1,3)] a by simp
  then have "B \<le> grid m q" using grid_between(1)[of q m] by simp
  then have "B \<le> fval (fround m q)"
    using a c representable_le_max[OF a(1)] by (cases rule: fround_cases[of q m, consumes 0]) (auto simp: capped_def fzero_def split: if_splits)
  then show ?thesis using c abs_le_D1 by (auto simp: capped_def)
qed

lemma fround_nonneg: "0 \<le> q \<Longrightarrow> representable C \<Longrightarrow> q \<le> C \<Longrightarrow> 0 \<le> fval (fround m q)"
proof (cases "q = 0")
  case False
  assume q: "0 \<le> q"
  have m: "0 \<le> max_fin" using representable_le_max[OF representable_0] by simp
  then have "0 \<le> grid m q" using grid_sgn(1)[of q m] q False by simp
  then show ?thesis using m q by (cases rule: fround_cases[OF False, of m]) (auto simp: fzero_def)
qed simp

lemma sqrt_capped: "0 \<le> r \<Longrightarrow> r \<le> 4 \<Longrightarrow> capped 4 (fsqrt RNear (Fin r))"
proof (cases "r = 0")
  case False
  assume r: "0 \<le> r" "r \<le> 4"
  define u :: real where "u = 2 powi (ilog2 r div 2 - 52)"
  define s where "s = real (floor_root (nat \<lfloor>r / (u * u)\<rfloor>))"
  have "2 powi ilog2 r \<le> (2::real) powi 2" using ilog2_bounds(1)[of r] r False by simp
  then have "ilog2 r \<le> 2" by (simp only: powi2_le_iff)
  then have "ilog2 r div 2 - 52 \<le> 0" by simp
  then have "u \<le> 2 powi 0" unfolding u_def by (simp only: powi2_le_iff)
  then have u: "0 < u" "u \<le> 1" by (simp_all add: u_def)
  have "s * u \<le> sqrt r" using fround_sqrt_bounds(1)[of r] r False by (simp add: fround_sqrt_def u_def s_def Let_def)
  moreover have "sqrt r \<le> 2" using r by (intro real_le_lsqrt) auto
  ultimately have "s * u + u \<le> 4" "0 \<le> s * u" using u by (simp_all add: s_def)
  then have "\<bar>fround_sqrt RNear r\<bar> \<le> 4"
    using u by (auto simp: fround_sqrt_def u_def[symmetric] s_def[symmetric] Let_def distrib_right)
  then show ?thesis using r False by (simp add: capped_def)
qed (simp add: capped_def)

section \<open>A function the probes do not see\<close>

text \<open>The value is 1 except at one point of the domain that no probe meets.\<close>

definition spike :: probe_fn where
  "spike = \<lparr>pf_f = (\<lambda>xs. if xs = [Fin (1 / 32)] then Fin (- 1) else Fin 1), pf_domain = [Ival (Fin 0) (Fin 1)]\<rparr>"

text \<open>Probes at multiples of \<open>2\<close> to the \<open>- k\<close>, with the value 1.\<close>

definition flat :: "nat \<Rightarrow> probe list \<Rightarrow> bool" where
  "flat k ps \<longleftrightarrow> 2 \<le> length ps \<and> (\<forall>p\<in>set ps. p_f p = Fin 1 \<and> (\<exists>n::nat. n \<le> 2 ^ k \<and> p_x p = [Fin (real n / 2 ^ k)]))"

lemma spike_at: "k \<le> 4 \<Longrightarrow> pf_f spike [Fin (real n / 2 ^ k)] = Fin 1"
proof -
  assume k: "k \<le> 4"
  have "real n / 2 ^ k \<noteq> 1 / 32"
  proof
    assume "real n / 2 ^ k = 1 / 32"
    then have "32 * real n = 2 ^ k" by (simp add: field_simps)
    then have "32 * n = 2 ^ k" by (metis of_nat_eq_iff of_nat_mult of_nat_numeral of_nat_power)
    moreover have "(2::nat) ^ k \<le> 2 ^ 4" using k by (intro power_increasing) auto
    ultimately show False by (cases n) auto
  qed
  then show ?thesis by (simp add: spike_def)
qed

lemma pairs_set: "(p, q) \<in> set (pairs_of ps) \<Longrightarrow> p \<in> set ps \<and> q \<in> set ps"
  by (induction ps) auto

lemma flat_slope: "p_f p = Fin 1 \<Longrightarrow> p_f q = Fin 1 \<Longrightarrow> flt (Fin 0) (probe_dist p q) \<Longrightarrow> probe_slope p q = Fin 0"
  by (cases "probe_dist p q") (auto simp: probe_slope_def fsub_def fdiv_def fzero_def is_zero_def)

lemma nonneg_flt: "0 \<le> fval t \<Longrightarrow> is_fin t \<Longrightarrow> flt t d \<Longrightarrow> flt (Fin 0) d"
  by (cases t; cases d) auto

lemma tiny_pos: "flt tiny d \<Longrightarrow> flt (Fin 0) d"
proof (rule nonneg_flt)
  show "0 \<le> fval tiny" unfolding tiny_def by (rule fround_nonneg[of _ 1]) (use representable_int[of 1] in auto)
  show "is_fin tiny" unfolding tiny_def using capped_fround[of 1 "1 / 10 ^ 12"] representable_int[of 1] by (simp add: capped_def)
qed

lemma flat_lip: "\<forall>p\<in>set ps. p_f p = Fin 1 \<Longrightarrow> lip_of ps = Fin 0"
proof -
  assume f: "\<forall>p\<in>set ps. p_f p = Fin 1"
  have "lip_step (Fin 0) pq = Fin 0" if "pq \<in> set (pairs_of ps)" for pq
    using flat_slope[of "fst pq" "snd pq"] tiny_pos pairs_set[of "fst pq" "snd pq" ps] f that by (auto simp: lip_step_def)
  then have "foldl lip_step (Fin 0) pqs = Fin 0" if "set pqs \<subseteq> set (pairs_of ps)" for pqs
    using that by (induction pqs) auto
  then show ?thesis by (simp add: lip_of_def)
qed

lemma steepest_in: "2 \<le> length ps \<Longrightarrow> fst (steepest ps) \<in> set ps \<and> snd (steepest ps) \<in> set ps"
proof -
  assume l: "2 \<le> length ps"
  have "snd b \<in> set ps \<times> set ps \<Longrightarrow> set pqs \<subseteq> set (pairs_of ps) \<Longrightarrow> snd (foldl steep_step b pqs) \<in> set ps \<times> set ps" for b pqs
  proof (induction pqs arbitrary: b)
    case (Cons pq pqs)
    have "snd (steep_step b pq) \<in> set ps \<times> set ps"
      using Cons.prems pairs_set[of "fst pq" "snd pq" ps] by (auto simp: steep_step_def mem_Times_iff)
    then show ?case using Cons by simp
  qed simp
  moreover have "ps ! 0 \<in> set ps" "ps ! 1 \<in> set ps" using l by (auto intro!: nth_mem)
  ultimately have "steepest ps \<in> set ps \<times> set ps" by (simp add: steepest_def)
  then show ?thesis by (simp add: mem_Times_iff)
qed

lemma flat_round:
  assumes "flat k (lm_probes m)" "k \<le> 3" "lm_lip m = Fin 0" "lm_range m = point (Fin 1)"
  shows "flat (Suc k) (lm_probes (adapt_round spike m))" "lm_lip (adapt_round spike m) = Fin 0" "lm_range (adapt_round spike m) = point (Fin 1)"
proof -
  obtain p q where pq: "steepest (lm_probes m) = (p, q)" by fastforce
  have l: "2 \<le> length (lm_probes m)" using assms(1) by (simp add: flat_def)
  have "p \<in> set (lm_probes m)" "q \<in> set (lm_probes m)" using steepest_in[OF l] by (simp_all add: pq)
  then obtain a b :: nat where ab: "a \<le> 2 ^ k" "p_x p = [Fin (real a / 2 ^ k)]" "b \<le> 2 ^ k" "p_x q = [Fin (real b / 2 ^ k)]"
    using assms(1) unfolding flat_def by meson
  have k8: "(2::nat) ^ k \<le> 2 ^ 3" using assms(2) by (intro power_increasing) auto
  have s: "fadd RNear (Fin (real a / 2 ^ k)) (Fin (real b / 2 ^ k)) = Fin (real (a + b) / 2 ^ k)"
  proof -
    have "representable (real (a + b) / 2 ^ k)" using representable_scaled[of "int (a + b)" k] ab(1,3) k8 assms(2) by simp
    then show ?thesis by (auto simp: add_divide_distrib fround_exact fzero_def)
  qed
  have "fmul RNear (Fin (1 / 2)) (Fin (real (a + b) / 2 ^ k)) = Fin (real (a + b) / 2 ^ Suc k)"
  proof -
    have "representable (real (a + b) / 2 ^ Suc k)" using representable_scaled[of "int (a + b)" "Suc k"] ab(1,3) k8 assms(2) by simp
    then show ?thesis by (auto simp: fmul_def is_zero_def fround_exact fzero_def)
  qed
  then have x: "midpoint p q = [Fin (real (a + b) / 2 ^ Suc k)]" using s by (simp add: midpoint_def ab)
  have v: "pf_f spike (midpoint p q) = Fin 1" unfolding x using assms(2) by (intro spike_at) simp
  have up: "\<exists>n'::nat. n' \<le> 2 ^ Suc k \<and> [Fin (real n / 2 ^ k)] = [Fin (real n' / 2 ^ Suc k)]" if "n \<le> 2 ^ k" for n
    using that by (intro exI[of _ "2 * n"]) simp
  have ps: "lm_probes (adapt_round spike m) = lm_probes m @ [\<lparr>p_x = midpoint p q, p_f = Fin 1\<rparr>]"
    using l by (simp add: adapt_round_def pq v Let_def)
  show "flat (Suc k) (lm_probes (adapt_round spike m))"
    unfolding ps flat_def
  proof (intro conjI ballI)
    fix r assume "r \<in> set (lm_probes m @ [\<lparr>p_x = midpoint p q, p_f = Fin 1\<rparr>])"
    then consider "r \<in> set (lm_probes m)" | "r = \<lparr>p_x = midpoint p q, p_f = Fin 1\<rparr>" by auto
    then have "p_f r = Fin 1 \<and> (\<exists>n::nat. n \<le> 2 ^ Suc k \<and> p_x r = [Fin (real n / 2 ^ Suc k)])"
    proof cases
      case 1
      then obtain n :: nat where "n \<le> 2 ^ k" "p_x r = [Fin (real n / 2 ^ k)]" "p_f r = Fin 1" using assms(1) by (auto simp: flat_def)
      then show ?thesis using up[of n] by simp
    next
      case 2
      then have "p_x r = [Fin (real (a + b) / 2 ^ Suc k)]" "a + b \<le> 2 ^ Suc k" using x ab(1,3) by simp_all
      then show ?thesis using 2 by auto
    qed
    then show "p_f r = Fin 1" "\<exists>n::nat. n \<le> 2 ^ Suc k \<and> p_x r = [Fin (real n / 2 ^ Suc k)]" by blast+
  qed (use l in simp)
  show "lm_lip (adapt_round spike m) = Fin 0" using adapt_round_lip assms(3) by simp
  show "lm_range (adapt_round spike m) = point (Fin 1)"
    using l assms(4) by (simp add: adapt_round_def pq v Let_def ihull_def point_def is_empty_def std_min_def std_max_def)
qed

section \<open>The verdict on it\<close>

definition posb :: "real \<Rightarrow> double \<Rightarrow> bool" where
  "posb C d \<longleftrightarrow> is_fin d \<and> 0 \<le> fval d \<and> fval d \<le> C"

lemma posb_capped: "posb C d \<Longrightarrow> capped C d"
  by (simp add: posb_def capped_def)

lemma posb_fround: "0 \<le> q \<Longrightarrow> representable C \<Longrightarrow> q \<le> C \<Longrightarrow> posb C (fround m q)"
  using capped_fround[of C q m] fround_nonneg[of q C m] by (auto simp: posb_def capped_def)

lemma posb_fmul: "posb A a \<Longrightarrow> posb B b \<Longrightarrow> representable C \<Longrightarrow> A * B \<le> C \<Longrightarrow> posb C (fmul m a b)"
proof -
  assume a: "posb A a" "posb B b" "representable C" "A * B \<le> C"
  have "capped C (fmul m a b)" using a posb_capped capped_fmul by blast
  moreover have "0 \<le> fval (fmul m a b)"
  proof -
    have "fval a * fval b \<le> A * B" "0 \<le> fval a * fval b" using a by (auto simp: posb_def intro!: mult_mono)
    then have "fval a * fval b \<le> C" using a(4) by linarith
    then show ?thesis using fmul_fin_cases[of a b m] fround_nonneg[of "fval a * fval b" C m] a \<open>0 \<le> fval a * fval b\<close>
      by (auto simp: posb_def)
  qed
  ultimately show ?thesis by (auto simp: posb_def capped_def)
qed

lemma posb_fadd: "posb A a \<Longrightarrow> posb B b \<Longrightarrow> representable C \<Longrightarrow> A + B \<le> C \<Longrightarrow> posb C (fadd m a b)"
proof -
  assume a: "posb A a" "posb B b" "representable C" "A + B \<le> C"
  show ?thesis
  proof (cases "fval a + fval b = 0")
    case True
    then show ?thesis using fadd_real_zero[of a b m] a by (auto simp: posb_def)
  next
    case False
    then show ?thesis using fadd_real[of a b m] posb_fround[of "fval a + fval b" C m] a by (auto simp: posb_def)
  qed
qed

lemma square_posb: "capped 1 d \<Longrightarrow> posb 1 (fmul m d d)"
proof -
  assume c: "capped 1 d"
  have "capped 1 (fmul m d d)" using capped_fmul[OF c c, of 1 m] representable_int[of 1] by simp
  moreover have "fval d * fval d \<le> 1" using c by (simp add: capped_def abs_square_le_1[symmetric] power2_eq_square[symmetric])
  ultimately show ?thesis
    using fmul_fin_cases[of d d m] fround_nonneg[of "fval d * fval d" 1 m] representable_int[of 1] c
    by (auto simp: posb_def capped_def)
qed

lemma sqrt_posb: "posb 4 d \<Longrightarrow> capped 4 (fsqrt RNear d)"
  using sqrt_capped by (cases d) (auto simp: posb_def capped_def)

lemma nudge_small: "0 < r \<Longrightarrow> r \<le> 2 \<Longrightarrow> nudge r \<le> 1 / 4"
proof -
  assume r: "0 < r" "r \<le> 2"
  have "2 powi ilog2 r \<le> (2::real) powi 1" using ilog2_bounds(1)[of r] r by simp
  then have "ilog2 r \<le> 1" by (simp only: powi2_le_iff)
  then have "qexp r - 2 \<le> - 2" using r by (simp add: qexp_def)
  then have "(2::real) powi (qexp r - 2) \<le> 2 powi - 2" by (simp only: powi2_le_iff)
  then show ?thesis using r by (simp add: nudge_def power_int_minus)
qed

lemma next_up_posb:
  assumes "posb 2 d" "representable C" "fval d + 1 / 4 \<le> C"
  shows "posb C (next_up d)"
proof (cases "fval d = 0")
  case True
  have "(2::real) powi (- 1074) \<le> 2 powi - 2" by (simp only: powi2_le_iff)
  then have "2 powi (- 1074) \<le> (1 / 4 :: real)" by (simp add: power_int_minus)
  then show ?thesis using assms True by (cases d) (auto simp: posb_def)
next
  case False
  then have n: "nudge (fval d) \<le> 1 / 4" "0 < nudge (fval d)" using assms(1) nudge_small[of "fval d"] nudge_pos by (auto simp: posb_def)
  then have "posb C (fround RUp (fval d + nudge (fval d)))" using assms by (intro posb_fround) (auto simp: posb_def)
  then show ?thesis using assms(1) False by (cases d) (auto simp: posb_def)
qed

lemma small_reps: "representable 2" "representable 1" "representable (1 / 2)" "representable (1 / 4)" "representable (3 / 4)" "representable 4" "representable 8"
  "representable (5 / 4)" "representable (3 / 2)"
  using representable_int[of 2] representable_int[of 1] representable_scaled[of 1 1] representable_scaled[of 1 2] representable_scaled[of 3 2]
    representable_int[of 4] representable_int[of 8] representable_scaled[of 5 2] representable_scaled[of 3 1] by simp_all

lemma slack_posb: "posb (3 / 2) d \<Longrightarrow> representable C \<Longrightarrow> representable (C + 1 / 4) \<Longrightarrow> fval d + 1 / 4 \<le> C \<Longrightarrow> C \<le> 2 \<Longrightarrow> posb (C + 1 / 4) (slack_up d)"
proof -
  assume a: "posb (3 / 2) d" "representable C" "representable (C + 1 / 4)" "fval d + 1 / 4 \<le> C" "C \<le> 2"
  have n: "posb C (next_up d)" by (rule next_up_posb) (use a in \<open>auto simp: posb_def\<close>)
  have "posb (C + 1 / 4) (next_up (next_up d))" by (rule next_up_posb) (use a n in \<open>auto simp: posb_def\<close>)
  moreover have "\<not> is_inf d \<and> d \<noteq> NaN" using a(1) by (cases d) (simp_all add: posb_def)
  ultimately show ?thesis by (simp add: slack_up_def)
qed

lemma unit_grid: "probe_grid [Ival (Fin 0) (Fin 1)] 5 = map (\<lambda>n. [Fin (real n / 2 ^ 2)]) [0, 1, 2, 3, 4]"
proof -
  have u: "[0..<5] = [0, 1, 2, 3, 4::nat]" by (simp add: upt_rec)
  have "grid_coord 5 (Ival (Fin 0) (Fin 1)) n = Fin (real n / 4)" if "n \<in> {0, 1, 2, 3, 4}" for n
    using that small_reps by (auto simp: grid_coord_def fdiv_def fmul_def fsub_def fround_exact is_zero_def fzero_def)
  then show ?thesis by (simp add: Let_def u)
qed

lemma spike_model: "flat 2 (lm_probes (probe_model spike 5))" "lm_lip (probe_model spike 5) = Fin 0" "lm_range (probe_model spike 5) = point (Fin 1)"
proof -
  have ps: "lm_probes (probe_model spike 5) = map (\<lambda>n. \<lparr>p_x = [Fin (real n / 2 ^ 2)], p_f = Fin 1\<rparr>) [0, 1, 2, 3, 4]"
    using spike_at[of 2] unit_grid by (simp add: probe_model_def spike_def Let_def)
  have "n \<in> {0, 1, 2, 3, 4} \<Longrightarrow> n \<le> 2 ^ 2" for n :: nat by auto
  then show "flat 2 (lm_probes (probe_model spike 5))" unfolding ps flat_def by (auto simp del: power2_eq_square)
  have l: "lm_lip (probe_model spike 5) = lip_of (lm_probes (probe_model spike 5))"
    "lm_range (probe_model spike 5) = range_of ival_empty (lm_probes (probe_model spike 5))" by (simp_all add: probe_model_def Let_def)
  show "lm_lip (probe_model spike 5) = Fin 0" unfolding l by (rule flat_lip) (simp add: ps)
  show "lm_range (probe_model spike 5) = point (Fin 1)" unfolding l ps
    by (simp add: range_of_def ihull_def point_def is_empty_def ival_empty_def std_min_def std_max_def)
qed

lemma flat_unrefuted: "\<forall>p\<in>set ps. p_f p = Fin 1 \<Longrightarrow> \<not> lip_refuted (Fin 0) ps"
proof (induction ps)
  case (Cons p ps)
  have "\<not> lip_pair_refutes (Fin 0) p q" if "q \<in> set ps" for q
    using flat_slope[of p q] Cons.prems that by (auto simp: lip_pair_refutes_def Let_def probe_dist_def probe_slope_def)
  then show ?case using Cons by (auto simp: list_ex_iff)
qed simp

lemma flat_band:
  assumes "is_fin (fadd RNear (fsqrt RNear (sqdist c (p_x p))) (fsqrt RNear rad))" "p_f p = Fin 1"
  shows "lip_band c rad (Fin 0) p = point (Fin 1)"
proof -
  define d where "d = fadd RNear (fsqrt RNear (sqdist c (p_x p))) (fsqrt RNear rad)"
  have z: "fmul RNear (Fin 0) d = Fin 0 \<or> fmul RNear (Fin 0) d = NegZero" "fmul RNear NegZero d = Fin 0 \<or> fmul RNear NegZero d = NegZero"
    using assms(1) unfolding d_def[symmetric] by (cases d; auto simp: fmul_def is_zero_def fzero_def)+
  then show ?thesis using assms(2)
    by (auto simp: lip_band_def Let_def d_def[symmetric] ival_of_def fle_def add_def is_empty_def point_def)
qed

text \<open>Every probe of a function on the unit interval is within reach of its middle.\<close>

lemma flat_reach:
  assumes "n \<le> 2 ^ k" "k \<le> 4" "posb 4 rad"
  shows "is_fin (fadd RNear (fsqrt RNear (sqdist [Fin (1 / 2)] [Fin (real n / 2 ^ k)])) (fsqrt RNear rad))"
proof -
  have n: "real n / 2 ^ k \<le> 1" using assms(1) by (simp add: divide_le_eq)
  have "capped 1 (fsub RNear (Fin (1 / 2)) (Fin (real n / 2 ^ k)))"
  proof (cases "1 / 2 - real n / 2 ^ k = 0")
    case True
    then have h: "real n / 2 ^ k = 1 / 2" by linarith
    show ?thesis unfolding h by (simp add: fsub_def fzero_def capped_def)
  next
    case False
    then have "fsub RNear (Fin (1 / 2)) (Fin (real n / 2 ^ k)) = fround RNear (1 / 2 - real n / 2 ^ k)"
      using fadd_real[of "Fin (1 / 2)" "fneg (Fin (real n / 2 ^ k))" RNear] by (simp add: fsub_def)
    moreover have "\<bar>1 / 2 - real n / 2 ^ k\<bar> \<le> 1"
    proof -
      have "0 \<le> real n / 2 ^ k" by simp
      then show ?thesis using n by linarith
    qed
    ultimately show ?thesis using capped_fround[of 1 "1 / 2 - real n / 2 ^ k" RNear] small_reps by simp
  qed
  then have "posb 1 (fmul RNear (fsub RNear (Fin (1 / 2)) (Fin (real n / 2 ^ k))) (fsub RNear (Fin (1 / 2)) (Fin (real n / 2 ^ k))))"
    by (rule square_posb)
  then have "posb 4 (sqdist [Fin (1 / 2)] [Fin (real n / 2 ^ k)])"
    unfolding sqdist_def using posb_fadd[of 0 "Fin 0" 1 _ 4 RNear] by (simp add: Let_def posb_def small_reps)
  then have "capped 4 (fsqrt RNear (sqdist [Fin (1 / 2)] [Fin (real n / 2 ^ k)]))" by (rule sqrt_posb)
  then have "capped 8 (fadd RNear (fsqrt RNear (sqdist [Fin (1 / 2)] [Fin (real n / 2 ^ k)])) (fsqrt RNear rad))"
    by (rule capped_fadd[OF _ sqrt_posb[OF assms(3)]]) (simp_all add: small_reps)
  then show ?thesis by (simp add: capped_def)
qed

lemma unit_radius: "posb 4 (fadd RNear (Fin 0) (half_sq (Ival (Fin 0) (Fin 1))))"
proof -
  have "fsub RNear (Fin 1) (Fin 0) = Fin 1" by (simp add: fsub_def)
  moreover have "posb 2 (slack_up (Fin 1))" using slack_posb[of "Fin 1" "7 / 4"] small_reps representable_scaled[of 7 2] by (simp add: posb_def)
  ultimately have w: "posb 2 (width (Ival (Fin 0) (Fin 1)))" by (simp add: width_def is_empty_def)
  have "posb 1 (fmul RNear (Fin (1 / 2)) (width (Ival (Fin 0) (Fin 1))))"
    by (rule posb_fmul[of "1 / 2" _ 2, OF _ w]) (simp_all add: posb_def small_reps)
  then have "posb (1 / 2) (fmul RNear (fmul RNear (Fin (1 / 2)) (width (Ival (Fin 0) (Fin 1)))) (Fin (1 / 2)))"
    by (rule posb_fmul[of 1 _ "1 / 2"]) (simp_all add: posb_def small_reps)
  then have "posb 1 (half_sq (Ival (Fin 0) (Fin 1)))" unfolding half_sq_def
    by (rule posb_fmul[OF _ w]) (simp_all add: small_reps)
  then show ?thesis by (rule posb_fadd[of 0, rotated]) (simp_all add: posb_def small_reps)
qed

lemma point_phys:
  assumes "lm_range m = point (Fin 1)"
  shows "\<exists>l h. model_phys m = Ival l h \<and> fle l (Fin 1) \<and> fle (Fin 1) h"
proof -
  have "posb (1 / 2) (width (point (Fin 1)))"
    using slack_posb[of "Fin 0" "1 / 4"] small_reps by (simp add: width_def point_def is_empty_def fsub_def posb_def fzero_def)
  then have "posb (1 / 4) (fmul RNear (Fin (1 / 2)) (width (point (Fin 1))))"
    by (rule posb_fmul[of "1 / 2", rotated]) (simp_all add: posb_def small_reps)
  moreover have "posb (1 / 4) (fround RNear (1 / 10 ^ 9))" by (rule posb_fround) (simp_all add: small_reps)
  ultimately have p: "posb (1 / 2) (fadd RNear (fmul RNear (Fin (1 / 2)) (width (point (Fin 1)))) (fround RNear (1 / 10 ^ 9)))" (is "posb _ ?pad")
    by (rule posb_fadd) (simp_all add: small_reps)
  have "fsub RNear (Fin 1) ?pad = fround RNear (1 - fval ?pad)" "fadd RNear (Fin 1) ?pad = fround RNear (1 + fval ?pad)"
    using p fadd_real[of "Fin 1" "fneg ?pad" RNear] fadd_real[of "Fin 1" ?pad RNear] by (simp_all add: fsub_def posb_def)
  then have l: "is_fin (fsub RNear (Fin 1) ?pad)" "fval (fsub RNear (Fin 1) ?pad) \<le> 1"
    and h: "is_fin (fadd RNear (Fin 1) ?pad)" "1 \<le> fval (fadd RNear (Fin 1) ?pad)"
    using fround_lower[of "1 / 2" "1 - fval ?pad" 1 RNear] fround_lower[of 1 "1 + fval ?pad" 2 RNear] p small_reps by (auto simp: posb_def)
  then have "fle (fsub RNear (Fin 1) ?pad) (Fin 1)" "fle (Fin 1) (fadd RNear (Fin 1) ?pad)" by (simp_all add: fle_fin)
  moreover from this have "fle (fsub RNear (Fin 1) ?pad) (fadd RNear (Fin 1) ?pad)" by (rule fle_trans)
  ultimately show ?thesis using assms by (simp add: model_phys_def Let_def ival_of_def) (simp add: point_def is_empty_def)
qed

lemma spike_enclosure: "wrap_enclose (probe_adaptive spike 5 2) [Ival (Fin 0) (Fin 1)] (Fin (5 / 4)) = point (Fin 1)"
proof -
  define m where "m = probe_adaptive spike 5 2"
  define m1 where "m1 = adapt_round spike (probe_model spike 5)"
  have m: "m = adapt_round spike m1" by (simp add: m_def m1_def probe_adaptive_def numeral_2_eq_2)
  have "flat 3 (lm_probes m1)" "lm_lip m1 = Fin 0" "lm_range m1 = point (Fin 1)"
    using flat_round[OF spike_model(1) _ spike_model(2,3)] by (simp_all add: m1_def)
  from flat_round[OF this(1) _ this(2,3)] have f: "flat 4 (lm_probes m)" "lm_lip m = Fin 0" "lm_range m = point (Fin 1)" by (simp_all add: m)
  define ps where "ps = lm_probes m"
  have v: "\<forall>p\<in>set ps. p_f p = Fin 1" "ps \<noteq> []" using f(1) by (auto simp: flat_def ps_def)
  define rad where "rad = fadd RNear (Fin 0) (half_sq (Ival (Fin 0) (Fin 1)))"
  have band: "lip_band [Fin (1 / 2)] rad (Fin 0) p = point (Fin 1)" if p: "p \<in> set ps" for p
  proof -
    obtain n :: nat where "n \<le> 2 ^ 4" "p_x p = [Fin (real n / 2 ^ 4)]" using f(1) p unfolding flat_def ps_def by blast
    then show ?thesis using flat_band flat_reach[of n 4 rad] unit_radius v(1) p by (simp add: rad_def)
  qed
  have "foldl (\<lambda>acc q. meet acc (lip_band [Fin (1 / 2)] rad (Fin 0) q)) a qs = point (Fin 1)"
    if "set qs \<subseteq> set ps" "a = point (Fin 1) \<or> a = entire \<and> qs \<noteq> []" for qs a
    using that
  proof (induction qs arbitrary: a)
    case (Cons q qs)
    have "meet a (point (Fin 1)) = point (Fin 1)" using Cons.prems(2)
      by (auto simp: meet_def point_def is_empty_def entire_def std_max_def std_min_def Let_def fle_def)
    then show ?case using Cons band[of q] by simp
  qed auto
  then have acc: "foldl (\<lambda>acc q. meet acc (lip_band [Fin (1 / 2)] rad (Fin 0) q)) entire ps = point (Fin 1)" using v(2) by simp
  obtain l h where ph: "model_phys m = Ival l h" "fle l (Fin 1)" "fle (Fin 1) h" using point_phys[OF f(3)] by blast
  have "meet (point (Fin 1)) (Ival l h) = point (Fin 1)"
  proof -
    have "fle l h" using fle_trans ph(2,3) by blast
    moreover have "\<not> flt h l" "\<not> flt (Fin 1) l" "\<not> flt h (Fin 1)" using ph calculation not_flt not_nan_if by (auto simp: fle_def split: if_splits elim!: flt.elims)
    ultimately show ?thesis by (auto simp: meet_def point_def is_empty_def std_max_def std_min_def Let_def fle_def)
  qed
  moreover have "mid (Ival (Fin 0) (Fin 1)) = Fin (1 / 2)"
    using small_reps by (simp add: mid_def is_empty_def fmul_def is_zero_def fround_exact)
  moreover have "fmul RNear (Fin 0) (Fin (5 / 4)) = Fin 0" by (simp add: fmul_def is_zero_def fzero_def)
  ultimately show ?thesis
    using flat_unrefuted[OF v(1)] v(2) f(2) acc ph(1)
    by (simp add: wrap_enclose_def synth_wrapper_def lipschitz_wrapper_def m_def[symmetric] ps_def[symmetric] rad_def Let_def)
qed

lemma spike_safe: "wrapper_verdict spike = Safe"
proof -
  have "probe_count (length (pf_domain spike)) = 5" "pf_domain spike = [Ival (Fin 0) (Fin 1)]" by (simp_all add: spike_def probe_count_def)
  then show ?thesis by (simp add: wrapper_verdict_def spike_enclosure point_def is_empty_def is_entire_def decide_def fsub_def)
qed

text \<open>Refining adds one probe a round.\<close>

lemma adapt_round_count: "2 \<le> length (lm_probes m) \<Longrightarrow> length (lm_probes (adapt_round fn m)) = length (lm_probes m) + 1"
  by (simp add: adapt_round_def Let_def split: prod.splits)

lemma adapt_round_stop: "length (lm_probes m) < 2 \<Longrightarrow> adapt_round fn m = m"
  by (simp add: adapt_round_def)

lemma adapt_count:
  "length (lm_probes (probe_adaptive fn per n)) =
     (let k = per ^ length (pf_domain fn) in if 2 \<le> k then k + n else k)"
proof -
  define m where "m = probe_model fn per"
  have k: "length (lm_probes m) = per ^ length (pf_domain fn)" by (simp add: m_def probe_model_def Let_def grid_count)
  have "length (lm_probes ((adapt_round fn ^^ n) m)) = (if 2 \<le> length (lm_probes m) then length (lm_probes m) + n else length (lm_probes m))"
    by (induction n) (simp_all add: adapt_round_count adapt_round_stop)
  then show ?thesis by (simp add: probe_adaptive_def m_def[symmetric] k Let_def)
qed

text \<open>The refinement of a model probes the function as often as it says: the grid, and one more point a round
  (none when the grid has a single point). The slope stays the slope of the grid: the loop that should take the new
  points into it is never entered, since its condition compares the index with the number of probes.\<close>

theorem adaptive_probe_budget:
  "length (lm_probes (probe_adaptive fn per n)) = (let k = per ^ length (pf_domain fn) in if 2 \<le> k then k + n else k)
     \<and> lm_lip (probe_adaptive fn per n) = lip_of (map (\<lambda>x. \<lparr>p_x = x, p_f = pf_f fn x\<rparr>) (probe_grid (pf_domain fn) per))"
  unfolding adapt_count adapt_lip by (simp add: probe_model_def Let_def)

text \<open>C15. The verdict drawn from a synthesised wrapper is not a sound one: a function that is negative inside its
  domain, between the probes, is given the verdict SAFE.\<close>

theorem wrapper_verdict_overclaims:
  "wrapper_verdict spike = Safe \<and> imem (1 / 32) (pf_domain spike ! 0) \<and> pf_f spike [Fin (1 / 32)] = Fin (- 1)"
  using spike_safe by (simp add: spike_def imem_def)

end
