(* ===== verification/Fve_Wire.thy ===== *)
theory Fve_Wire
  imports Fve_Ast Fve_Archive
begin

text \<open>
  The bytes on the wire: the protocol-buffer writer and reader (\<open>api/protobuf\<close>), the frames of the RPC
  service (\<open>api/grpc\<close>) and the messages of the database protocol (\<open>db/pgwire\<close>). Buffers are byte lists, read
  at an index as the code reads them; sizes and lengths are words of the width the code gives them.
\<close>

unbundle bit_operations_syntax

section \<open>Protocol buffers: the writer\<close>

function put_varint :: "64 word \<Rightarrow> byte list" where
  "put_varint v = (if 128 \<le> v then ucast ((v AND 127) OR 128) # put_varint (drop_bit 7 v) else [ucast v])"
  by pat_completeness auto
termination
proof (relation "measure unat", goal_cases)
  case (2 v)
  have "unat (drop_bit 7 v) = unat v div 128" by (simp add: drop_bit_eq_div unat_div)
  moreover have "128 \<le> unat v" using 2 by (simp add: word_le_nat_alt)
  ultimately show ?case by simp
qed simp

declare put_varint.simps [simp del]

definition pb_key :: "32 word \<Rightarrow> nat \<Rightarrow> byte list" where
  "pb_key n w = put_varint (push_bit 3 (scast n) OR word_of_nat w)"

definition pb_varint :: "32 word \<Rightarrow> 64 word \<Rightarrow> byte list" where
  "pb_varint n v = pb_key n 0 @ put_varint v"

definition pb_boolean :: "32 word \<Rightarrow> bool \<Rightarrow> byte list" where
  "pb_boolean n b = pb_varint n (if b then 1 else 0)"

definition pb_fixed64 :: "32 word \<Rightarrow> 64 word \<Rightarrow> byte list" where
  "pb_fixed64 n v = pb_key n 1 @ le_bytes64 v"

definition pb_dbl :: "32 word \<Rightarrow> double \<Rightarrow> byte list" where
  "pb_dbl n d = pb_fixed64 n (word_of_nat (double_bits d))"

definition pb_prefixed :: "32 word \<Rightarrow> byte list \<Rightarrow> byte list" where
  "pb_prefixed n bs = pb_key n 2 @ put_varint (word_of_nat (length bs)) @ bs"

definition pb_str :: "32 word \<Rightarrow> string \<Rightarrow> byte list" where
  "pb_str n s = pb_prefixed n (bytes_of s)"

definition pb_message :: "32 word \<Rightarrow> byte list \<Rightarrow> byte list" where
  "pb_message n bs = pb_prefixed n bs"

section \<open>Protocol buffers: the reader\<close>

record pb_field =
  pb_num :: "32 word"
  pb_wire :: nat
  pb_v :: "64 word"
  pb_bytes :: "byte list"

text \<open>\<open>raw_varint\<close> at an index: the value and the index behind it.\<close>

function get_varint :: "byte list \<Rightarrow> nat \<Rightarrow> nat \<Rightarrow> 64 word \<Rightarrow> 64 word \<times> nat" where
  "get_varint own i shift v =
     (if i < length own \<and> shift < 64
      then let b = own ! i; v' = v OR push_bit shift (ucast (b AND 127))
           in if b AND 128 = 0 then (v', i + 1) else get_varint own (i + 1) (shift + 7) v'
      else (v, i))"
  by pat_completeness auto
termination by (relation "measure (\<lambda>(own, i, shift, v). length own - i)") auto

declare get_varint.simps [simp del]

function get_fixed :: "byte list \<Rightarrow> nat \<Rightarrow> nat \<Rightarrow> nat \<Rightarrow> 64 word \<Rightarrow> 64 word \<times> nat" where
  "get_fixed own i j n v =
     (if j < n \<and> i < length own then get_fixed own (i + 1) (j + 1) n (v OR push_bit (8 * j) (ucast (own ! i))) else (v, i))"
  by pat_completeness auto
termination by (relation "measure (\<lambda>(own, i, j, n, v). n - j)") auto

declare get_fixed.simps [simp del]

text \<open>
  One call of \<open>next\<close>: no further field, a field and the index behind it, or an exception. The end of a
  length-prefixed field is computed in 64 bits and may wrap; \<open>assign\<close> then gets an end before its start
  and throws.
\<close>

datatype pb_out = PbEnd | PbThrows | PbField pb_field nat

definition pb_next :: "byte list \<Rightarrow> nat \<Rightarrow> pb_out" where
  "pb_next own i =
     (if length own \<le> i then PbEnd
      else let (k, i1) = get_varint own i 0 0; f = \<lparr>pb_num = ucast (drop_bit 3 k), pb_wire = unat (k AND 7), pb_v = 0, pb_bytes = []\<rparr>
           in if pb_wire f = 0 then (let (v, i2) = get_varint own i1 0 0 in PbField (f\<lparr>pb_v := v\<rparr>) i2)
              else if pb_wire f = 1 then (let (v, i2) = get_fixed own i1 0 8 0 in PbField (f\<lparr>pb_v := v\<rparr>) i2)
              else if pb_wire f = 2 then
                (let (len, i2) = get_varint own i1 0 0;
                     len' = (if word_of_nat (length own) < word_of_nat i2 + len then word_of_nat (length own) - word_of_nat i2 else len)
                 in if length own < i2 + unat len' then PbThrows
                    else PbField (f\<lparr>pb_bytes := take (unat len') (drop i2 own)\<rparr>) (i2 + unat len'))
              else if pb_wire f = 5 then (let (v, i2) = get_fixed own i1 0 4 0 in PbField (f\<lparr>pb_v := v\<rparr>) i2)
              else PbEnd)"

lemma get_varint_mono: "get_varint own i s v = (w, j) \<Longrightarrow> i \<le> j"
  by (induction own i s v arbitrary: w j rule: get_varint.induct) (subst (asm) get_varint.simps, fastforce split: if_splits simp: Let_def)

lemma get_varint_step: "i < length own \<Longrightarrow> get_varint own i 0 v = (w, j) \<Longrightarrow> i < j"
  by (subst (asm) get_varint.simps) (auto split: if_splits simp: Let_def dest: get_varint_mono)

lemma get_fixed_mono: "get_fixed own i j n v = (w, k) \<Longrightarrow> i \<le> k"
  by (induction own i j n v arbitrary: w k rule: get_fixed.induct) (subst (asm) get_fixed.simps, fastforce split: if_splits)

lemma pb_next_inside: "pb_next own i = PbField f j \<Longrightarrow> i < length own"
  by (auto simp: pb_next_def split: if_splits)

lemma pb_next_step: "pb_next own i = PbField f j \<Longrightarrow> i < j"
proof -
  assume n: "pb_next own i = PbField f j"
  obtain k i1 where k: "get_varint own i 0 0 = (k, i1)" by fastforce
  have "i < i1" by (rule get_varint_step[OF pb_next_inside[OF n] k])
  moreover have "i1 \<le> j" using n k
    by (auto simp: pb_next_def Let_def split: if_splits prod.splits dest!: get_varint_mono get_fixed_mono)
  ultimately show ?thesis by simp
qed

text \<open>The loop \<open>while (rd.next(f))\<close>: the fields in order, or the exception.\<close>

function pb_fields :: "byte list \<Rightarrow> nat \<Rightarrow> pb_field list option" where
  "pb_fields own i =
     (case pb_next own i of
        PbEnd \<Rightarrow> Some []
      | PbThrows \<Rightarrow> None
      | PbField f j \<Rightarrow> map_option (Cons f) (pb_fields own j))"
  by pat_completeness auto
termination by (relation "measure (\<lambda>(own, i). length own - i)") (simp, frule pb_next_step, drule pb_next_inside, simp)

declare pb_fields.simps [simp del]

section \<open>What is written is read back\<close>

lemma bits7: "bit (127 :: int) n = (n < 7)" "bit (128 :: int) n = (n = 7)"
proof -
  have m: "127 = (mask 7 :: int)" "128 = (push_bit 7 1 :: int)" by (simp_all add: mask_eq_exp_minus_1)
  show "bit (127 :: int) n = (n < 7)" unfolding m(1) bit_mask_iff by auto
  show "bit (128 :: int) n = (n = 7)" unfolding m(2) bit_push_bit_iff by (auto simp: bit_simps)
qed

lemma low_bits: "(ucast ((ucast ((v AND 127) OR 128) :: byte) AND 127) :: 64 word) = v AND 127" for v :: "64 word"
  by (rule bit_word_eqI) (auto simp: bit_ucast_iff bit_and_iff bit_or_iff bits7)

lemma more_bit: "(ucast ((v AND 127) OR 128) :: byte) AND 128 \<noteq> 0" for v :: "64 word"
proof
  assume "(ucast ((v AND 127) OR 128) :: byte) AND 128 = 0"
  then have "bit ((ucast ((v AND 127) OR 128) :: byte) AND 128) 7 = bit (0 :: byte) 7" by (rule arg_cong)
  then show False by (simp add: bit_ucast_iff bit_and_iff bit_or_iff bits7)
qed

lemma high_clear: "v < 128 \<Longrightarrow> bit v n \<Longrightarrow> n < 7" for v :: "64 word"
proof (rule ccontr)
  assume v: "v < 128" "bit v n" "\<not> n < 7"
  have "(2::nat) ^ 7 \<le> 2 ^ n" using v(3) by (intro power_increasing) simp_all
  moreover have "unat v < 128" using v(1) by (simp add: word_less_nat_alt)
  ultimately have "unat v div 2 ^ n = 0" by simp
  then have "\<not> bit (unat v) n" by (simp add: bit_iff_odd)
  then show False using v(2) by (simp add: bit_unsigned_iff)
qed

lemma last_byte: "v < 128 \<Longrightarrow> (ucast ((ucast v :: byte) AND 127) :: 64 word) = v \<and> (ucast v :: byte) AND 128 = 0" for v :: "64 word"
  by (intro conjI bit_word_eqI) (auto simp: bit_ucast_iff bit_and_iff bit_or_iff bits7 dest: high_clear less_trans[OF high_clear])

lemma varint_join: "push_bit s (v AND 127) OR push_bit (s + 7) (drop_bit 7 v) = push_bit s v" for v :: "64 word"
proof (rule bit_word_eqI)
  fix n assume "n < LENGTH(64)"
  moreover have "7 + (n - (s + 7)) = n - s" if "s + 7 \<le> n" using that by simp
  ultimately show "bit (push_bit s (v AND 127) OR push_bit (s + 7) (drop_bit 7 v)) n = bit (push_bit s v) n"
    by (cases "s + 7 \<le> n") (auto simp: bit_push_bit_iff bit_and_iff bit_or_iff bit_drop_bit_eq bits7)
qed

text \<open>The groups of a varint land where they were cut, as long as the shift stays within the word.\<close>

lemma get_put_varint:
  "s < 64 \<Longrightarrow> unat v < 2 ^ (64 - s) \<Longrightarrow> take (length (put_varint v)) (drop i own) = put_varint v \<Longrightarrow>
     get_varint own i s acc = (acc OR push_bit s v, i + length (put_varint v))"
proof (induction v arbitrary: i s acc rule: put_varint.induct)
  case (1 v)
  have ne: "0 < length (put_varint v)" by (subst put_varint.simps) simp
  have i: "i < length own" using 1(4) ne by (cases "i < length own") auto
  have hd: "own ! i = put_varint v ! 0" using arg_cong[OF 1(4), of "\<lambda>l. l ! 0"] ne i by simp
  show ?case
  proof (cases "128 \<le> v")
    case False
    then have b: "put_varint v = [ucast v]" by (subst put_varint.simps) simp
    show ?thesis using False i hd 1(2) b last_byte[of v] by (subst get_varint.simps) (simp add: Let_def)
  next
    case True
    then have b: "put_varint v = ucast ((v AND 127) OR 128) # put_varint (drop_bit 7 v)" by (subst put_varint.simps) simp
    have v: "128 \<le> unat v" using True by (simp add: word_le_nat_alt)
    have s: "s + 7 < 64"
    proof (rule ccontr)
      assume "\<not> s + 7 < 64"
      then have "(2::nat) ^ (64 - s) \<le> 2 ^ 7" by (intro power_increasing) auto
      then show False using v 1(3) by simp
    qed
    then have "(2::nat) ^ (64 - s) = 128 * 2 ^ (64 - (s + 7))" using power_add[of "2::nat" 7 "64 - (s + 7)"] by simp
    then have "unat (drop_bit 7 v) < 2 ^ (64 - (s + 7))" using 1(3) by (simp add: drop_bit_eq_div unat_div less_mult_imp_div_less mult.commute)
    moreover have "take (length (put_varint (drop_bit 7 v))) (drop (i + 1) own) = put_varint (drop_bit 7 v)"
      using 1(4) i by (simp add: b Cons_nth_drop_Suc[symmetric] del: Cons_nth_drop_Suc)
    ultimately have "get_varint own (i + 1) (s + 7) (acc OR push_bit s (v AND 127))
        = ((acc OR push_bit s (v AND 127)) OR push_bit (s + 7) (drop_bit 7 v), i + 1 + length (put_varint (drop_bit 7 v)))"
      by (rule 1(1)[OF True s])
    then show ?thesis using i hd 1(2) b low_bits[of v] more_bit[of v] varint_join[of s v]
      by (subst get_varint.simps) (simp add: Let_def or.assoc)
  qed
qed

text \<open>The bytes \<open>x\<close> lie in the buffer at index \<open>i\<close>.\<close>

definition sits :: "byte list \<Rightarrow> nat \<Rightarrow> byte list \<Rightarrow> bool" where
  "sits own i x \<longleftrightarrow> take (length x) (drop i own) = x"

lemma sits_append: "sits own i (x @ y) \<longleftrightarrow> sits own i x \<and> sits own (i + length x) y"
proof -
  have e: "take (length (x @ y)) (drop i own) = take (length x) (drop i own) @ take (length y) (drop (i + length x) own)"
    by (simp add: take_add add.commute)
  show ?thesis
  proof
    assume "sits own i (x @ y)"
    then have q: "take (length x) (drop i own) @ take (length y) (drop (i + length x) own) = x @ y" by (simp add: sits_def e del: length_append)
    from arg_cong[OF this, of length] have "length (take (length x) (drop i own)) = length x" by simp
    then show "sits own i x \<and> sits own (i + length x) y" using iffD1[OF append_eq_append_conv q] by (simp add: sits_def)
  qed (use e in \<open>simp add: sits_def del: length_append\<close>)
qed

lemma sits_nth: "sits own i x \<Longrightarrow> k < length x \<Longrightarrow> own ! (i + k) = x ! k \<and> i + k < length own"
proof -
  assume a: "sits own i x" "k < length x"
  then have "length (take (length x) (drop i own)) = length x" by (simp add: sits_def)
  then have l: "length x \<le> length own - i" by simp
  then show ?thesis using arg_cong[OF a(1)[unfolded sits_def], of "\<lambda>l. l ! k"] a(2) by simp
qed

lemma sits_length: "sits own i x \<Longrightarrow> x \<noteq> [] \<Longrightarrow> i + length x \<le> length own"
  using sits_nth[of own i x "length x - 1"] by (cases x rule: rev_cases) auto

lemma fixed_join: "take_bit (8 * j) v OR push_bit (8 * j) (ucast (byte_of v j)) = take_bit (8 * Suc j) v" for v :: "64 word"
proof (rule bit_word_eqI)
  fix m assume m: "m < LENGTH(64)"
  consider "m < 8 * j" | k where "m = 8 * j + k" "k < 8" | "8 * Suc j \<le> m" "\<not> m - 8 * j < 8"
    by (cases "m < 8 * j"; cases "m < 8 * Suc j") (auto dest: less_imp_add_positive intro: that(2)[of "m - 8 * j"])
  then show "bit (take_bit (8 * j) v OR push_bit (8 * j) (ucast (byte_of v j))) m = bit (take_bit (8 * Suc j) v) m"
    using m by cases (simp_all add: byte_of_def bit_take_bit_iff bit_push_bit_iff bit_or_iff bit_ucast_iff bit_drop_bit_eq)
qed

lemma get_fixed_le:
  "j \<le> n \<Longrightarrow> sits own i (map (byte_of v) [j..<n]) \<Longrightarrow>
     get_fixed own i j n (take_bit (8 * j) v) = (take_bit (8 * n) v, i + (n - j))" for v :: "64 word"
proof (induction "n - j" arbitrary: i j)
  case 0
  then show ?case by (subst get_fixed.simps) simp
next
  case (Suc d)
  then have j: "j < n" by simp
  have "map (byte_of v) [j..<n] = [byte_of v j] @ map (byte_of v) [Suc j..<n]" by (subst upt_conv_Cons[OF j]) simp
  then have "sits own i ([byte_of v j] @ map (byte_of v) [Suc j..<n])" using Suc(4) by (simp only:)
  then have s: "sits own i [byte_of v j]" "sits own (i + 1) (map (byte_of v) [Suc j..<n])"
    unfolding sits_append by simp_all
  have o: "own ! i = byte_of v j" "i < length own" using sits_nth[OF s(1), of 0] by simp_all
  have "get_fixed own i j n (take_bit (8 * j) v) = get_fixed own (i + 1) (j + 1) n (take_bit (8 * j) v OR push_bit (8 * j) (ucast (own ! i)))"
    using j o(2) by (subst get_fixed.simps) simp
  also have "\<dots> = get_fixed own (i + 1) (Suc j) n (take_bit (8 * Suc j) v)" by (simp only: o(1) fixed_join) simp
  also have "\<dots> = (take_bit (8 * n) v, i + 1 + (n - Suc j))" by (rule Suc(1)) (use Suc(2) j s(2) in simp_all)
  finally show ?case using j by simp
qed

lemma key_parts:
  assumes "w < 8"
  shows "ucast (drop_bit 3 (push_bit 3 (scast n) OR word_of_nat w :: 64 word)) = (n :: 32 word)"
    "unat ((push_bit 3 (scast n) OR word_of_nat w :: 64 word) AND 7) = w"
proof -
  have b: "m < 3" if "bit (word_of_nat w :: 64 word) m" for m
  proof (rule ccontr)
    assume "\<not> m < 3"
    then have "(2::nat) ^ 3 \<le> 2 ^ m" by (intro power_increasing) simp_all
    then have "\<not> bit w m" using assms by (simp add: bit_iff_odd)
    then show False using that by (simp add: bit_of_nat_iff)
  qed
  show "ucast (drop_bit 3 (push_bit 3 (scast n) OR word_of_nat w :: 64 word)) = (n :: 32 word)"
    by (rule bit_word_eqI) (auto simp: bit_ucast_iff bit_drop_bit_eq bit_or_iff bit_push_bit_iff bit_signed_iff dest: b)
  have "(push_bit 3 (scast n) OR word_of_nat w :: 64 word) AND mask 3 = word_of_nat w"
    by (rule bit_word_eqI) (auto simp: bit_and_iff bit_or_iff bit_push_bit_iff bit_mask_iff dest: b)
  moreover have "7 = (mask 3 :: 64 word)" by (simp add: mask_eq_exp_minus_1)
  ultimately show "unat ((push_bit 3 (scast n) OR word_of_nat w :: 64 word) AND 7) = w"
    using assms by (simp add: unat_of_nat)
qed

section \<open>Messages\<close>

text \<open>A field as the writer puts it: a varint, a 64-bit value or a length-prefixed piece.\<close>

definition pb_wf :: "pb_field \<Rightarrow> bool" where
  "pb_wf f \<longleftrightarrow> (if pb_wire f = 2 then pb_v f = 0 else pb_wire f < 2 \<and> pb_bytes f = [])"

definition pb_write :: "pb_field \<Rightarrow> byte list" where
  "pb_write f =
     (if pb_wire f = 0 then pb_varint (pb_num f) (pb_v f)
      else if pb_wire f = 1 then pb_fixed64 (pb_num f) (pb_v f) else pb_prefixed (pb_num f) (pb_bytes f))"

lemma get_varint_sits: "sits own i (put_varint v) \<Longrightarrow> get_varint own i 0 0 = (v, i + length (put_varint v))"
  using get_put_varint[of 0 v i own 0] unsigned_less[of v] by (simp add: sits_def)

lemma put_varint_nonempty: "put_varint v \<noteq> []"
  by (subst put_varint.simps) simp

lemma pb_next_write:
  assumes "pb_wf f" "sits own i (pb_write f)" "length own < 2 ^ 64"
  shows "pb_next own i = PbField f (i + length (pb_write f))"
proof -
  define k :: "64 word" where "k = push_bit 3 (scast (pb_num f)) OR word_of_nat (pb_wire f)"
  consider "pb_wire f = 0" | "pb_wire f = 1" | "pb_wire f = 2" using assms(1) by (fastforce simp: pb_wf_def split: if_splits)
  note cs = this
  define rest where "rest = (if pb_wire f = 0 then put_varint (pb_v f) else if pb_wire f = 1 then le_bytes64 (pb_v f)
             else put_varint (word_of_nat (length (pb_bytes f))) @ pb_bytes f)"
  have r1: "pb_write f = put_varint k @ rest"
    by (rule cs) (simp_all add: rest_def pb_write_def pb_varint_def pb_fixed64_def pb_prefixed_def pb_key_def k_def)
  note r = r1 rest_def
  define i1 where "i1 = i + length (put_varint k)"
  have s: "sits own i (put_varint k)" "sits own i1 rest" using assms(2) by (simp_all add: r(1) sits_append i1_def)
  have gk: "get_varint own i 0 0 = (k, i1)" using get_varint_sits[OF s(1)] by (simp add: i1_def)
  have kf: "ucast (drop_bit 3 k) = pb_num f" "unat (k AND 7) = pb_wire f"
    using key_parts[of "pb_wire f" "pb_num f"] assms(1) by (simp_all add: k_def pb_wf_def split: if_splits)
  have i: "\<not> length own \<le> i" using sits_length[OF s(1) put_varint_nonempty] put_varint_nonempty[of k] by (cases "put_varint k") auto
  from cs show ?thesis
  proof cases
    case 1
    then have "get_varint own i1 0 0 = (pb_v f, i1 + length rest)" using get_varint_sits s(2) r(2) by simp
    then show ?thesis using 1 i gk kf assms(1) r by (simp add: pb_next_def Let_def i1_def pb_wf_def)
  next
    case 2
    then have "sits own i1 (map (byte_of (pb_v f)) [0..<8])" using s(2) r(2) by (simp add: le_bytes64_def)
    from get_fixed_le[OF _ this] have "get_fixed own i1 0 8 0 = (pb_v f, i1 + 8)" by (simp add: take_bit_word_eq_self)
    then show ?thesis using 2 i gk kf assms(1) r by (simp add: pb_next_def Let_def i1_def pb_wf_def le_bytes64_def)
  next
    case 3
    define n where "n = length (pb_bytes f)"
    define i2 where "i2 = i1 + length (put_varint (word_of_nat n))"
    have t: "sits own i1 (put_varint (word_of_nat n))" "sits own i2 (pb_bytes f)"
      using s(2) r(2) 3 by (simp_all add: sits_append n_def i2_def)
    have g: "get_varint own i1 0 0 = (word_of_nat n, i2)" using get_varint_sits[OF t(1)] by (simp add: i2_def)
    have l: "i2 + n \<le> length own"
      using sits_length[OF t(1) put_varint_nonempty] sits_length[OF t(2)] by (cases "pb_bytes f = []") (auto simp: n_def i2_def)
    then have "unat (word_of_nat n :: 64 word) = n" "unat (word_of_nat i2 + word_of_nat n :: 64 word) = i2 + n"
      "unat (word_of_nat (length own) :: 64 word) = length own"
      using assms(3) by (simp_all add: unat_of_nat flip: of_nat_add)
    then have "\<not> (word_of_nat (length own) :: 64 word) < word_of_nat i2 + word_of_nat n" "unat (word_of_nat n :: 64 word) = n"
      using l by (simp_all add: word_less_nat_alt)
    then show ?thesis using 3 i gk g kf assms(1) r l t(2)
      by (simp add: pb_next_def Let_def i1_def i2_def pb_wf_def sits_def n_def)
  qed
qed

lemma pb_fields_write:
  "list_all pb_wf fs \<Longrightarrow> sits own i (concat (map pb_write fs)) \<Longrightarrow> i + length (concat (map pb_write fs)) = length own \<Longrightarrow>
     length own < 2 ^ 64 \<Longrightarrow> pb_fields own i = Some fs"
proof (induction fs arbitrary: i)
  case Nil
  then show ?case by (subst pb_fields.simps) (simp add: pb_next_def)
next
  case (Cons f fs)
  have "pb_next own i = PbField f (i + length (pb_write f))" using Cons.prems by (intro pb_next_write) (auto simp: sits_append)
  moreover have "pb_fields own (i + length (pb_write f)) = Some fs" using Cons.prems by (intro Cons.IH) (auto simp: sits_append)
  ultimately show ?case by (subst pb_fields.simps) simp
qed

text \<open>The 64-bit end of a length-prefixed field can wrap: eleven bytes make the reader throw.\<close>

definition wrapping_field :: "byte list" where
  "wrapping_field = [10] @ replicate 9 255 @ [1]"

lemma wrapping_throws: "pb_fields wrapping_field 0 = None"
proof -
  have l: "length wrapping_field = 11" by (simp add: wrapping_field_def)
  have v: "wrapping_field ! j = (if j = 0 then 10 else if j = 10 then 1 else 255)" if "j < 11" for j
    using that by (auto simp: wrapping_field_def nth_Cons' nth_append)
  have k: "get_varint wrapping_field 0 0 0 = (10, 1)" using l v by (subst get_varint.simps) (simp add: Let_def)
  have n: "get_varint wrapping_field 1 0 0 = (18446744073709551615, 11)"
    by (simp add: get_varint.simps[of wrapping_field] l v Let_def)
  have "pb_next wrapping_field 0 = PbThrows" using l by (simp add: pb_next_def k n[simplified] Let_def)
  then show ?thesis by (subst pb_fields.simps) simp
qed

section \<open>The frames of the RPC service\<close>

text \<open>The length is added in 32 bits.\<close>

definition grpc_unframe :: "byte list \<Rightarrow> byte list option" where
  "grpc_unframe body =
     (if length body < 5 then None
      else let len = be32 (body ! 1) (body ! 2) (body ! 3) (body ! 4)
           in if length body < unat (5 + len) then None else Some (take (unat len) (drop 5 body)))"

definition grpc_trailer :: "int \<Rightarrow> byte list" where
  "grpc_trailer status = bytes_of (''grpc-status:'' @ show_int status @ [CHR 13, CHR 10])"

definition grpc_response :: "byte list \<Rightarrow> int \<Rightarrow> byte list" where
  "grpc_response reply status =
     [0] @ be_bytes (word_of_nat (length reply)) @ reply @
     [128] @ be_bytes (word_of_nat (length (grpc_trailer status))) @ grpc_trailer status"

lemma be32_bytes: "be32 (byte_of x 3) (byte_of x 2) (byte_of x 1) (byte_of x 0) = x" for x :: "32 word"
proof (rule bit_word_eqI)
  fix m assume m: "m < LENGTH(32)"
  have "m < 32" using m by simp
  then have "m < 8 \<or> (\<exists>k<8. m = 8 + k) \<or> (\<exists>k<8. m = 16 + k) \<or> (\<exists>k<8. m = 24 + k)" by presburger
  then consider "m < 8" | k where "m = 8 + k" "k < 8" | k where "m = 16 + k" "k < 8" | k where "m = 24 + k" "k < 8" by blast
  then show "bit (be32 (byte_of x 3) (byte_of x 2) (byte_of x 1) (byte_of x 0)) m = bit x m"
    using m by cases (simp_all add: be32_def byte_of_def bit_or_iff bit_push_bit_iff bit_ucast_iff bit_drop_bit_eq)
qed

lemma be_bytes_nth: "k < 4 \<Longrightarrow> be_bytes x ! k = byte_of x (3 - k)" "length (be_bytes x) = 4"
  by (auto simp: be_bytes_def numeral_eq_Suc less_Suc_eq)

lemma unframe_frame:
  "grpc_unframe ([c] @ be_bytes len @ rest) =
     (if length rest + 5 < unat (5 + len) then None else Some (take (unat len) rest))"
proof -
  have n: "([c] @ be_bytes len @ rest) ! 1 = byte_of len 3" "([c] @ be_bytes len @ rest) ! 2 = byte_of len 2"
    "([c] @ be_bytes len @ rest) ! 3 = byte_of len 1" "([c] @ be_bytes len @ rest) ! 4 = byte_of len 0"
    by (simp_all add: be_bytes_def numeral_eq_Suc)
  have "length ([c] @ be_bytes len @ rest) = length rest + 5" "drop 5 ([c] @ be_bytes len @ rest) = rest"
    by (simp_all add: be_bytes_nth(2))
  then show ?thesis unfolding grpc_unframe_def n be32_bytes Let_def by simp
qed

section \<open>The calls of the RPC service\<close>

text \<open>The operations of the service the calls are passed on to; \<open>None\<close> is a null document.\<close>

record 's rpc_service =
  sv_ingest :: "string \<Rightarrow> string \<Rightarrow> byte list \<Rightarrow> 's \<Rightarrow> string \<times> 's"
  sv_analyze :: "string \<Rightarrow> 's \<Rightarrow> json option \<times> 's"
  sv_verify :: "string \<Rightarrow> double \<Rightarrow> 's \<Rightarrow> json option \<times> 's"
  sv_certificate :: "string \<Rightarrow> 's \<Rightarrow> json option"
  sv_meta :: "string \<Rightarrow> 's \<Rightarrow> json option"
  sv_graph :: "string \<Rightarrow> 's \<Rightarrow> json option"
  sv_provenance :: "string \<Rightarrow> 's \<Rightarrow> json option"
  sv_history :: "string \<Rightarrow> 's \<Rightarrow> json option"
  sv_audit_ok :: "'s \<Rightarrow> bool"

text \<open>The value of the last field with a number; the conversion of a double to an unsigned integer, which has a
  value only in the range of the integer.\<close>

definition last_bytes :: "32 word \<Rightarrow> pb_field list \<Rightarrow> byte list" where
  "last_bytes n fs = foldl (\<lambda>a f. if pb_num f = n then pb_bytes f else a) [] fs"

definition last_value :: "32 word \<Rightarrow> double \<Rightarrow> pb_field list \<Rightarrow> double" where
  "last_value n def fs = foldl (\<lambda>a f. if pb_num f = n then bits_double (unat (pb_v f)) else a) def fs"

definition last_text :: "32 word \<Rightarrow> pb_field list \<Rightarrow> string" where
  "last_text n fs = text_of (last_bytes n fs)"

definition u64_of :: "double \<Rightarrow> 64 word" where
  "u64_of d = (case d of Fin q \<Rightarrow> word_of_int (if q < 0 then - \<lfloor>- q\<rfloor> else \<lfloor>q\<rfloor>) | _ \<Rightarrow> 0)"

definition write_target :: "32 word \<Rightarrow> json \<Rightarrow> byte list" where
  "write_target n t =
     pb_message n
       (pb_str 1 (jstr t ''cell'' []) @ pb_str 2 (jstr t ''label'' []) @ pb_str 3 (jstr t ''verdict'' []) @
        (let e = jarr (jat t ''ms_enclosure'')
         in if jhas t ''ms_enclosure'' \<and> length e = 2 then pb_dbl 4 (jnum (e ! 0)) @ pb_dbl 5 (jnum (e ! 1)) else []) @
        pb_str 6 (jstr t ''method'' []) @ pb_varint 7 (u64_of (jn t ''holes'' (Fin 0))) @
        pb_str 8 (jstr t ''cert'' []) @ pb_boolean 9 (jbool (jat t ''cert_valid'')))"

definition pb_texts :: "json \<Rightarrow> (32 word \<times> string) list \<Rightarrow> byte list" where
  "pb_texts j ks = concat (map (\<lambda>(n, k). pb_str n (jstr j k [])) ks)"

definition rpc_graph :: "json \<Rightarrow> byte list" where
  "rpc_graph g =
     (if jbool (jat g ''ok'')
      then concat (map (\<lambda>n. pb_message 1 (pb_texts n [(1, ''id''), (2, ''label'')] @
                    pb_boolean 3 (jbool (jat n ''input'')) @ pb_boolean 4 (jbool (jat n ''ambiguous'')))) (jarr (jat g ''nodes''))) @
           concat (map (\<lambda>e. pb_message 2 (pb_texts e [(1, ''from''), (2, ''to''), (3, ''origin'')])) (jarr (jat g ''edges'')))
      else [])"

definition rpc_analysis :: "json \<Rightarrow> byte list" where
  "rpc_analysis a =
     (if jbool (jat a ''ok'')
      then pb_boolean 1 True @ pb_str 2 (jstr a ''model_id'' []) @
           (if jhas a ''analysis''
            then let an = jat a ''analysis''
                 in pb_str 3 (jstr an ''format'' []) @ pb_varint 4 (u64_of (jn an ''sdg_nodes'' (Fin 0))) @
                    pb_varint 5 (u64_of (jn an ''sdg_edges'' (Fin 0))) @
                    pb_boolean 6 (jbool (jat an ''glue_consistent'')) @ pb_boolean 7 (jbool (jat an ''glue_obstructed''))
            else [])
      else pb_boolean 1 False)"

definition rpc_meta :: "json \<Rightarrow> byte list" where
  "rpc_meta m = pb_texts m [(1, ''id''), (2, ''name''), (3, ''hash'')] @ pb_varint 4 (u64_of (jn m ''size'' (Fin 0)))"

definition opt_doc :: "json option \<Rightarrow> (json \<Rightarrow> byte list) \<Rightarrow> byte list" where
  "opt_doc j f = (case j of None \<Rightarrow> [] | Some d \<Rightarrow> f d)"

text \<open>A call: the reply, the status and the state of the service behind it, or the exception of the reader.\<close>

definition rpc_dispatch :: "'s rpc_service \<Rightarrow> string \<Rightarrow> byte list \<Rightarrow> 's \<Rightarrow> ((byte list \<times> int) \<times> 's) option" where
  "rpc_dispatch svc meth msg s =
     (let fields = pb_fields msg 0
      in if meth = ''Upload'' then
           map_option (\<lambda>fs. let name = last_text 1 fs; content = last_bytes 3 fs;
                                (i, s') = sv_ingest svc (if name = [] then ''upload.bin'' else name) (last_text 2 fs) content s
                            in ((pb_str 1 i @ pb_varint 2 (word_of_nat (length content)), 0), s')) fields
         else if meth = ''Analyze'' then
           map_option (\<lambda>fs. let (a, s') = sv_analyze svc (last_text 1 fs) s
                            in ((case a of None \<Rightarrow> pb_boolean 1 False | Some a' \<Rightarrow> rpc_analysis a', 0), s')) fields
         else if meth = ''Verify'' then
           map_option (\<lambda>fs. let (v, s') = sv_verify svc (last_text 1 fs) (last_value 2 (fround RNear (1 / 20)) fs) s
                            in ((pb_boolean 1 (case v of None \<Rightarrow> False | Some d \<Rightarrow> jbool (jat d ''ok'')) @
                                 opt_doc v (\<lambda>d. pb_str 2 (jstr d ''run_id'' []) @ concat (map (write_target 3) (jarr (jat d ''targets'')))), 0), s')) fields
         else if meth = ''GetCertificate'' then
           map_option (\<lambda>fs. ((opt_doc (sv_certificate svc (last_text 1 fs) s)
               (\<lambda>c. pb_texts c [(1, ''id''), (2, ''artifact'')] @ pb_boolean 3 (jbool (jat c ''audit_chain_ok'')) @
                    concat (map (write_target 4) (jarr (jat c ''targets'')))), 0), s)) fields
         else if meth = ''GetArtifact'' then
           map_option (\<lambda>fs. ((opt_doc (sv_meta svc (last_text 1 fs) s) rpc_meta, 0), s)) fields
         else if meth = ''GetGraph'' then
           map_option (\<lambda>fs. ((opt_doc (sv_graph svc (last_text 1 fs) s) rpc_graph, 0), s)) fields
         else if meth = ''Provenance'' then
           map_option (\<lambda>fs. ((opt_doc (sv_provenance svc (last_text 1 fs) s)
               (\<lambda>p. concat (map (\<lambda>e. pb_message 1 (pb_texts e [(1, ''from''), (2, ''to''), (3, ''rel'')])) (jarr p))), 0), s)) fields
         else if meth = ''AuditHistory'' then
           map_option (\<lambda>fs. ((pb_boolean 1 (sv_audit_ok svc s) @
               opt_doc (sv_history svc (last_text 1 fs) s)
                 (\<lambda>h. concat (map (\<lambda>e. pb_message 2 (pb_varint 1 (u64_of (jn e ''seq'' (Fin 0))) @
                    pb_texts e [(2, ''type''), (3, ''subject''), (4, ''prev'')])) (jarr h))), 0), s)) fields
         else Some (([], 12), s))"

text \<open>The route of the service: a bad frame is answered as such.\<close>

datatype rpc_answer = BadFrame | Answer "byte list"

definition rpc_route :: "'s rpc_service \<Rightarrow> string \<Rightarrow> byte list \<Rightarrow> 's \<Rightarrow> (rpc_answer \<times> 's) option" where
  "rpc_route svc meth body s =
     (case grpc_unframe body of
        None \<Rightarrow> Some (BadFrame, s)
      | Some msg \<Rightarrow> map_option (\<lambda>((reply, status), s'). (Answer (grpc_response reply status), s')) (rpc_dispatch svc meth msg s))"

section \<open>Properties of the wire\<close>

lemma text_bytes [simp]: "text_of (bytes_of s) = s"
proof -
  have "char_of (unat (of_char c :: byte)) = c" for c
  proof -
    have "unat (of_char c :: byte) = unat (of_nat (of_char c :: nat) :: byte)" by (simp only: of_nat_of_char)
    also have "\<dots> = of_char c" by (simp add: unat_of_nat)
    finally have "unat (of_char c :: byte) = of_char c" .
    then show ?thesis by simp
  qed
  then show ?thesis by (simp add: text_of_def bytes_of_def comp_def)
qed

lemma varint_length: "unat v < 2 ^ (7 * Suc k) \<Longrightarrow> length (put_varint v) \<le> Suc k"
proof (induction k arbitrary: v)
  case 0
  then show ?case by (subst put_varint.simps) (simp add: word_le_nat_alt)
next
  case (Suc k)
  have "2 ^ (7 * Suc (Suc k)) = (128::nat) * 2 ^ (7 * Suc k)" using power_add[of "2::nat" 7 "7 * Suc k"] by simp
  then have "unat (drop_bit 7 v) < 2 ^ (7 * Suc k)" using Suc.prems
    by (simp add: drop_bit_eq_div unat_div less_mult_imp_div_less mult.commute)
  from Suc.IH[OF this] show ?case by (subst put_varint.simps) simp
qed

lemma put_varint_short: "length (put_varint v) \<le> 10"
proof -
  have "unat v < 2 ^ (7 * Suc 9)" using unsigned_less[of v, where 'a = nat] by simp
  then show ?thesis using varint_length[of v 9] by simp
qed

lemma unframe_response: "length reply + 5 < 2 ^ 32 \<Longrightarrow> grpc_unframe (grpc_response reply status) = Some reply"
proof -
  assume a: "length reply + 5 < 2 ^ 32"
  then have "unat (word_of_nat (length reply) :: 32 word) = length reply" "unat (5 + word_of_nat (length reply) :: 32 word) = 5 + length reply"
    using unat_of_nat[where 'a = 32, of "5 + length reply"] by (simp_all add: unat_of_nat)
  then show ?thesis unfolding grpc_response_def unframe_frame by simp
qed

text \<open>C26. A protocol-buffer message is read back as it was written: the fields come out in their order, with their
  numbers, 64-bit values and bytes, whatever the values are.\<close>

theorem protobuf_round_trip:
  assumes "list_all pb_wf fs" "length (concat (map pb_write fs)) < 2 ^ 64"
  shows "pb_fields (concat (map pb_write fs)) 0 = Some fs"
  by (rule pb_fields_write) (use assms in \<open>simp_all add: sits_def\<close>)

lemma protobuf_round_trip_witness:
  "pb_fields (concat (map pb_write [\<lparr>pb_num = - 1, pb_wire = 2, pb_v = 0, pb_bytes = [1, 2]\<rparr>])) 0
     = Some [\<lparr>pb_num = - 1, pb_wire = 2, pb_v = 0, pb_bytes = [1, 2]\<rparr>]"
proof (rule protobuf_round_trip)
  have "length (put_varint v) + length (put_varint w) + 2 < 2 ^ 64" for v w
    using put_varint_short[of v] put_varint_short[of w] by simp
  then show "length (concat (map pb_write [\<lparr>pb_num = - 1, pb_wire = 2, pb_v = 0, pb_bytes = [1, 2]\<rparr>])) < 2 ^ 64"
    by (simp add: pb_write_def pb_prefixed_def pb_key_def)
qed (simp add: pb_wf_def)

text \<open>A body is taken by the 32-bit sum of header and length.\<close>

lemma unframe_bounds:
  "grpc_unframe ([c] @ be_bytes len @ rest) =
     (if unat len + 5 < 2 ^ 32 \<and> length rest < unat len then None else Some (take (unat len) rest))"
proof (cases "unat len + 5 < 2 ^ 32")
  case True
  then have "unat (5 + len) = 5 + unat len" by (simp add: unat_word_ariths)
  then show ?thesis using True unfolding unframe_frame by simp
next
  case False
  have "unat (5 + len) = (5 + unat len) mod 2 ^ 32" by (simp add: unat_word_ariths)
  also have "\<dots> = (5 + unat len - 2 ^ 32) mod 2 ^ 32" by (rule le_mod_geq) (use False in simp)
  also have "\<dots> \<le> 5 + unat len - 2 ^ 32" by (rule mod_less_eq_dividend)
  also have "\<dots> < 5" using unsigned_less[of len, where 'a = nat] by simp
  finally have "unat (5 + len) < 5" .
  then show ?thesis using False unfolding unframe_frame by simp
qed

lemma unframe_reply: "grpc_unframe (grpc_response reply status) = Some (take (length reply mod 2 ^ 32) reply)"
proof -
  define m where "m = length reply mod 2 ^ 32"
  have n: "unat (word_of_nat (length reply) :: 32 word) = m" by (simp add: unat_of_nat m_def)
  have le: "m \<le> length reply" unfolding m_def by (rule mod_less_eq_dividend)
  show ?thesis unfolding grpc_response_def unframe_bounds n m_def[symmetric] using le by simp
qed

text \<open>C27. The frame of a call: where the length and the header fit into 32 bits a message is taken exactly when the
  body holds as many bytes as its header says, and is those bytes. For the last five values of the length the 32-bit
  sum wraps, and a truncated message is taken as whole. The frame of a reply, unframed, gives as many bytes of the
  reply as the lower 32 bits of its length say, all of them below 4 GiB.\<close>

theorem rpc_frame_bounds:
  "grpc_unframe ([c] @ be_bytes len @ rest) =
     (if unat len + 5 < 2 ^ 32 \<and> length rest < unat len then None else Some (take (unat len) rest))
   \<and> grpc_unframe (grpc_response reply status) = Some (take (length reply mod 2 ^ 32) reply)"
  using unframe_bounds unframe_reply by blast

lemma write_str: "pb_str n s = pb_write \<lparr>pb_num = n, pb_wire = 2, pb_v = 0, pb_bytes = bytes_of s\<rparr>"
  by (simp add: pb_str_def pb_write_def)

lemma write_varint: "pb_varint n v = pb_write \<lparr>pb_num = n, pb_wire = 0, pb_v = v, pb_bytes = []\<rparr>"
  by (simp add: pb_write_def)

definition meta_fields :: "json \<Rightarrow> pb_field list" where
  "meta_fields m =
     [\<lparr>pb_num = 1, pb_wire = 2, pb_v = 0, pb_bytes = bytes_of (jstr m ''id'' [])\<rparr>,
      \<lparr>pb_num = 2, pb_wire = 2, pb_v = 0, pb_bytes = bytes_of (jstr m ''name'' [])\<rparr>,
      \<lparr>pb_num = 3, pb_wire = 2, pb_v = 0, pb_bytes = bytes_of (jstr m ''hash'' [])\<rparr>,
      \<lparr>pb_num = 4, pb_wire = 0, pb_v = u64_of (jn m ''size'' (Fin 0)), pb_bytes = []\<rparr>]"

lemma meta_written: "rpc_meta m = concat (map pb_write (meta_fields m))" "list_all pb_wf (meta_fields m)"
  by (simp_all add: rpc_meta_def pb_texts_def meta_fields_def write_str write_varint pb_wf_def)

lemma str_read: "length (pb_str n s) < 2 ^ 64 \<Longrightarrow> pb_fields (pb_str n s) 0 = Some [\<lparr>pb_num = n, pb_wire = 2, pb_v = 0, pb_bytes = bytes_of s\<rparr>]"
  using pb_fields_write[of "[\<lparr>pb_num = n, pb_wire = 2, pb_v = 0, pb_bytes = bytes_of s\<rparr>]" "pb_str n s" 0]
  by (simp add: write_str[symmetric] pb_wf_def sits_def)

lemma unframe_sent: "length msg + 5 < 2 ^ 32 \<Longrightarrow> grpc_unframe ([c] @ be_bytes (word_of_nat (length msg)) @ msg) = Some msg"
proof -
  assume a: "length msg + 5 < 2 ^ 32"
  then have "unat (word_of_nat (length msg) :: 32 word) = length msg" "unat (5 + word_of_nat (length msg) :: 32 word) = 5 + length msg"
    using unat_of_nat[where 'a = 32, of "5 + length msg"] by (simp_all add: unat_of_nat)
  then show ?thesis unfolding unframe_frame by simp
qed

text \<open>A call for an artifact, from the bytes of the request to the fields a client reads: the route unframes the
  request, finds the identifier in it, asks the service and answers with a frame whose fields are the document's.\<close>

theorem rpc_artifact_call:
  assumes "sv_meta svc i s = Some m" "length (pb_str 1 i) + 5 < 2 ^ 32" "length (rpc_meta m) + 5 < 2 ^ 32"
  shows "rpc_route svc ''GetArtifact'' ([0] @ be_bytes (word_of_nat (length (pb_str 1 i))) @ pb_str 1 i) s
           = Some (Answer (grpc_response (rpc_meta m) 0), s)
       \<and> map_option (\<lambda>reply. pb_fields reply 0) (grpc_unframe (grpc_response (rpc_meta m) 0)) = Some (Some (meta_fields m))"
proof -
  have "pb_fields (pb_str 1 i) 0 = Some [\<lparr>pb_num = 1, pb_wire = 2, pb_v = 0, pb_bytes = bytes_of i\<rparr>]"
    using assms(2) by (intro str_read) simp
  then have "rpc_dispatch svc ''GetArtifact'' (pb_str 1 i) s = Some ((rpc_meta m, 0), s)"
    using assms(1) by (simp add: rpc_dispatch_def last_text_def last_bytes_def opt_doc_def)
  then have "rpc_route svc ''GetArtifact'' ([0] @ be_bytes (word_of_nat (length (pb_str 1 i))) @ pb_str 1 i) s
      = Some (Answer (grpc_response (rpc_meta m) 0), s)"
    using unframe_sent[OF assms(2), of 0] by (simp add: rpc_route_def)
  moreover have "pb_fields (rpc_meta m) 0 = Some (meta_fields m)"
    unfolding meta_written(1) by (rule pb_fields_write) (use assms(3) meta_written in \<open>simp_all add: sits_def\<close>)
  ultimately show ?thesis using unframe_response[OF assms(3), of 0] by simp
qed

definition demo_rpc :: "unit rpc_service" where
  "demo_rpc = \<lparr>sv_ingest = (\<lambda>_ _ _ s. ([], s)), sv_analyze = (\<lambda>_ s. (None, s)), sv_verify = (\<lambda>_ _ s. (None, s)),
     sv_certificate = (\<lambda>_ _. None), sv_meta = (\<lambda>i _. Some (JObj [(''id'', JStr i), (''size'', JNum (Fin 7))])), sv_graph = (\<lambda>_ _. None),
     sv_provenance = (\<lambda>_ _. None), sv_history = (\<lambda>_ _. None), sv_audit_ok = (\<lambda>_. True)\<rparr>"

lemma rpc_artifact_call_witness:
  "fst (the (rpc_route demo_rpc ''GetArtifact'' ([0] @ be_bytes (word_of_nat (length (pb_str 1 ''a''))) @ pb_str 1 ''a'') ()))
     = Answer (grpc_response (rpc_meta (JObj [(''id'', JStr ''a''), (''size'', JNum (Fin 7))])) 0)"
proof -
  define m where "m = JObj [(''id'', JStr ''a''), (''size'', JNum (Fin 7))]"
  have b: "length (put_varint u) + length (put_varint v) + k \<le> 20 + k" for u v k
    using put_varint_short[of u] put_varint_short[of v] by simp
  have s: "length (pb_str 1 t) \<le> 20 + length t" "length (pb_varint 4 v) \<le> 20" for t v
    using b[of _ _ "length t"] b[of _ _ 0] by (simp_all add: pb_str_def pb_prefixed_def pb_varint_def pb_key_def bytes_of_def add.assoc)
  have t: "length (pb_str n t) \<le> 20 + length t" for n t
    using b[of _ _ "length t"] by (simp add: pb_str_def pb_prefixed_def pb_key_def bytes_of_def add.assoc)
  have "length (rpc_meta m) \<le> 100" using t[of 1 "jstr m ''id'' []"] t[of 2 "jstr m ''name'' []"] t[of 3 "jstr m ''hash'' []"] s(2)[of "u64_of (jn m ''size'' (Fin 0))"]
    by (simp add: rpc_meta_def pb_texts_def m_def jstr_def)
  moreover have "sv_meta demo_rpc ''a'' () = Some m" by (simp add: demo_rpc_def m_def)
  ultimately show ?thesis using rpc_artifact_call[of demo_rpc "''a''" "()" m] t[of 1 "''a''"] by (simp add: m_def)
qed

end
