(* ===== verification/Fve_Pgwire.thy ===== *)
theory Fve_Pgwire
  imports Fve_Wire Fve_Store
begin

text \<open>
  The database client: the messages of the protocol (\<open>db/pgwire\<close>), the connection that sends a query and
  collects its rows from the chunks a transport delivers, and the document store over such a connection
  (\<open>db/sqlstore\<close>). The transport and the server are parameters.
\<close>

unbundle bit_operations_syntax

section \<open>Messages to the server\<close>

definition be_bytes16 :: "16 word \<Rightarrow> byte list" where
  "be_bytes16 v = [byte_of v 1, byte_of v 0]"

definition get_i16 :: "byte list \<Rightarrow> nat \<Rightarrow> 16 word" where
  "get_i16 s off = (push_bit 8 (ucast (s ! off)) OR ucast (s ! (off + 1)))"

definition get_i32 :: "byte list \<Rightarrow> nat \<Rightarrow> 32 word" where
  "get_i32 s off = be32 (s ! off) (s ! (off + 1)) (s ! (off + 2)) (s ! (off + 3))"

definition framed :: "byte \<Rightarrow> byte list \<Rightarrow> byte list" where
  "framed t p = [t] @ be_bytes (word_of_nat (length p + 4)) @ p"

definition nul_term :: "string \<Rightarrow> byte list" where
  "nul_term s = bytes_of s @ [0]"

definition pg_startup :: "string \<Rightarrow> string \<Rightarrow> byte list" where
  "pg_startup usr db =
     (let p = be_bytes 196608 @ nul_term ''user'' @ nul_term usr @ nul_term ''database'' @ nul_term db @ [0]
      in be_bytes (word_of_nat (length p + 4)) @ p)"

definition pg_query :: "string \<Rightarrow> byte list" where
  "pg_query sql = framed 81 (nul_term sql)"

definition pg_parse :: "string \<Rightarrow> string \<Rightarrow> byte list" where
  "pg_parse nm sql = framed 80 (nul_term nm @ nul_term sql @ be_bytes16 0)"

definition pg_bind :: "string \<Rightarrow> string \<Rightarrow> string list \<Rightarrow> byte list" where
  "pg_bind portal stmt params =
     framed 66 (nul_term portal @ nul_term stmt @ be_bytes16 0 @ be_bytes16 (word_of_nat (length params)) @
       concat (map (\<lambda>v. be_bytes (word_of_nat (length v)) @ bytes_of v) params) @ be_bytes16 0)"

definition pg_describe_portal :: "string \<Rightarrow> byte list" where
  "pg_describe_portal portal = framed 68 ([80] @ nul_term portal)"

definition pg_execute :: "string \<Rightarrow> int \<Rightarrow> byte list" where
  "pg_execute portal max_rows = framed 69 (nul_term portal @ be_bytes (word_of_int max_rows))"

definition pg_sync :: "byte list" where
  "pg_sync = framed 83 []"

definition pg_terminate :: "byte list" where
  "pg_terminate = framed 88 []"

section \<open>Messages from the server\<close>

record pg_msg =
  pm_type :: byte
  pm_payload :: "byte list"

text \<open>One message at an offset. The length of the payload and the step of the offset are 32-bit sums, the end of the
  message a 64-bit one.\<close>

definition pg_read_msg :: "byte list \<Rightarrow> nat \<Rightarrow> (pg_msg \<times> nat) option" where
  "pg_read_msg buf off =
     (if length buf < off + 5 then None
      else let len = get_i32 buf (off + 1)
           in if length buf < off + 1 + unat len then None
              else Some (\<lparr>pm_type = buf ! off, pm_payload = take (unat (len - 4)) (drop (off + 5) buf)\<rparr>, off + unat (1 + len)))"

fun desc_loop :: "byte list \<Rightarrow> nat \<Rightarrow> nat \<Rightarrow> byte list list" where
  "desc_loop p i 0 = []"
| "desc_loop p i (Suc k) =
     (if i < length p \<and> (\<exists>z\<in>set (drop i p). z = 0)
      then let nm = takeWhile (\<lambda>b. b \<noteq> 0) (drop i p) in nm # desc_loop p (i + length nm + 1 + 18) k
      else [])"

definition pg_row_description :: "byte list \<Rightarrow> byte list list" where
  "pg_row_description p = (if length p < 2 then [] else desc_loop p 2 (unat (get_i16 p 0)))"

fun row_loop :: "byte list \<Rightarrow> nat \<Rightarrow> nat \<Rightarrow> byte list list" where
  "row_loop p i 0 = []"
| "row_loop p i (Suc k) =
     (if i + 4 \<le> length p
      then let len = get_i32 p i
           in if len = 0xFFFFFFFF then [] # row_loop p (i + 4) k
              else take (unat len) (drop (i + 4) p) # row_loop p (i + 4 + unat len) k
      else [])"

definition pg_data_row :: "byte list \<Rightarrow> byte list list" where
  "pg_data_row p = (if length p < 2 then [] else row_loop p 2 (unat (get_i16 p 0)))"

section \<open>The connection\<close>

text \<open>
  A transport delivers the reply in chunks until a read fails, which ends the list. The loop over the
  messages of a buffer can go round for ever on a message of length \<open>2^32 - 1\<close>, whose step is 0; it
  returns whether the end was reached, the offset behind the last message and the rows.
\<close>

type_synonym rows = "byte list list list"

partial_function (option) drain :: "byte list \<Rightarrow> nat \<Rightarrow> rows \<Rightarrow> (bool \<times> nat \<times> rows) option" where
  "drain buf off rs =
     (case pg_read_msg buf off of
        None \<Rightarrow> Some (False, off, rs)
      | Some (m, off') \<Rightarrow>
          if pm_type m = 68 then drain buf off' (rs @ [pg_data_row (pm_payload m)])
          else if pm_type m = 90 then Some (True, off', rs)
          else drain buf off' rs)"

fun recv_rows :: "byte list list \<Rightarrow> byte list \<Rightarrow> rows \<Rightarrow> rows option" where
  "recv_rows [] buf rs = Some rs"
| "recv_rows (c # cs) buf rs =
     (case drain (buf @ c) 0 rs of
        None \<Rightarrow> None
      | Some (fin, off, rs') \<Rightarrow> if fin then Some rs' else recv_rows cs (drop off (buf @ c)) rs')"

definition pg_request :: "string \<Rightarrow> string list \<Rightarrow> byte list" where
  "pg_request sql params =
     pg_parse [] sql @ pg_bind [] [] params @ pg_describe_portal [] @ pg_execute [] 0 @ pg_sync"

text \<open>The transport: whether a request is sent, and the chunks that answer it.\<close>

definition pg_exec :: "(byte list \<Rightarrow> byte list list option) \<Rightarrow> string \<Rightarrow> string list \<Rightarrow> rows option" where
  "pg_exec tr sql params =
     (case tr (pg_request sql params) of None \<Rightarrow> Some [] | Some cs \<Rightarrow> recv_rows cs [] [])"

partial_function (option) await :: "byte list \<Rightarrow> nat \<Rightarrow> bool option option" where
  "await buf off =
     (case pg_read_msg buf off of
        None \<Rightarrow> Some None
      | Some (m, off') \<Rightarrow>
          if pm_type m = 90 then Some (Some True) else if pm_type m = 69 then Some (Some False) else await buf off')"

fun recv_ready :: "byte list list \<Rightarrow> byte list \<Rightarrow> bool option" where
  "recv_ready [] buf = Some False"
| "recv_ready (c # cs) buf =
     (case await (buf @ c) 0 of
        None \<Rightarrow> None
      | Some (Some b) \<Rightarrow> Some b
      | Some None \<Rightarrow> recv_ready cs (buf @ c))"

definition pg_connect :: "(byte list \<Rightarrow> byte list list option) \<Rightarrow> string \<Rightarrow> string \<Rightarrow> bool option" where
  "pg_connect tr usr db = (case tr (pg_startup usr db) of None \<Rightarrow> Some False | Some cs \<Rightarrow> recv_ready cs [])"

section \<open>Reading what is framed\<close>

definition msg_bytes :: "pg_msg \<Rightarrow> byte list" where
  "msg_bytes m = framed (pm_type m) (pm_payload m)"

definition msg_ok :: "pg_msg \<Rightarrow> bool" where
  "msg_ok m \<longleftrightarrow> length (pm_payload m) + 5 < 2 ^ 32"

lemma framed_length [simp]: "length (framed t p) = length p + 5"
  by (simp add: framed_def be_bytes_nth(2))

lemma framed_len: "sits buf off (framed t p) \<Longrightarrow> get_i32 buf (off + 1) = word_of_nat (length p + 4)"
proof -
  assume s: "sits buf off (framed t p)"
  have n: "framed t p ! 1 = byte_of (word_of_nat (length p + 4) :: 32 word) 3" "framed t p ! 2 = byte_of (word_of_nat (length p + 4) :: 32 word) 2"
    "framed t p ! 3 = byte_of (word_of_nat (length p + 4) :: 32 word) 1" "framed t p ! 4 = byte_of (word_of_nat (length p + 4) :: 32 word) 0"
    by (simp_all add: framed_def be_bytes_def numeral_eq_Suc)
  have "buf ! (off + k) = framed t p ! k" if "k < 5" for k using sits_nth[OF s, of k] that by simp
  from this[of 1] this[of 2] this[of 3] this[of 4]
  have "buf ! (off + 1) = framed t p ! 1" "buf ! (off + 1 + 1) = framed t p ! 2" "buf ! (off + 1 + 2) = framed t p ! 3"
    "buf ! (off + 1 + 3) = framed t p ! 4" by (simp_all add: add.assoc numeral_eq_Suc)
  then show ?thesis unfolding get_i32_def n by (simp only: be32_bytes)
qed

lemma framed_words:
  assumes "length p + 5 < 2 ^ 32"
  shows "unat (word_of_nat (length p + 4) :: 32 word) = length p + 4" "unat (word_of_nat (length p + 4) - 4 :: 32 word) = length p"
    "unat (1 + word_of_nat (length p + 4) :: 32 word) = length p + 5"
proof -
  have "unat (word_of_nat n :: 32 word) = n" if "n \<le> length p + 5" for n using that assms by (simp add: unat_of_nat)
  from this[of "length p + 4"] this[of "length p"] this[of "1 + (length p + 4)"]
  show "unat (word_of_nat (length p + 4) :: 32 word) = length p + 4" "unat (word_of_nat (length p + 4) - 4 :: 32 word) = length p"
    "unat (1 + word_of_nat (length p + 4) :: 32 word) = length p + 5" by simp_all
qed

lemma read_framed: "msg_ok m \<Longrightarrow> sits buf off (msg_bytes m) \<Longrightarrow> pg_read_msg buf off = Some (m, off + length (msg_bytes m))"
proof -
  assume a: "msg_ok m" "sits buf off (msg_bytes m)"
  let ?p = "pm_payload m"
  have s: "sits buf off (framed (pm_type m) ?p)" using a(2) by (simp add: msg_bytes_def)
  have l: "off + 5 + length ?p \<le> length buf" using sits_length[OF s] by (simp add: framed_def be_bytes_nth(2))
  have "framed (pm_type m) ?p = ([pm_type m] @ be_bytes (word_of_nat (length ?p + 4))) @ ?p" by (simp add: framed_def)
  then have "sits buf (off + 5) ?p" using s sits_append[of buf off "[pm_type m] @ be_bytes (word_of_nat (length ?p + 4))" ?p] by (simp add: be_bytes_nth(2))
  then have "take (length ?p) (drop (off + 5) buf) = ?p" by (simp add: sits_def)
  moreover have "buf ! off = pm_type m" using sits_nth[OF s, of 0] by (simp add: framed_def)
  ultimately show ?thesis using l framed_len[OF s] framed_words[of ?p] a(1)
    by (simp add: pg_read_msg_def Let_def msg_ok_def msg_bytes_def del: of_nat_add)
qed

lemma sits_prefix: "buf @ beyond = pre @ x @ y \<Longrightarrow> length pre + length x \<le> length buf \<Longrightarrow> sits buf (length pre) x"
proof -
  assume a: "buf @ beyond = pre @ x @ y" "length pre + length x \<le> length buf"
  have "take (length x) (drop (length pre) (buf @ beyond)) = x" using a(1) by simp
  then show ?thesis using a(2) by (simp add: sits_def)
qed

lemma read_partial:
  assumes "msg_ok m" "buf @ beyond = pre @ msg_bytes m @ y" "length buf < length pre + length (msg_bytes m)"
  shows "pg_read_msg buf (length pre) = None"
proof (cases "length buf < length pre + 5")
  case False
  let ?p = "pm_payload m"
  have "sits (buf @ beyond) (length pre) (framed (pm_type m) ?p)" using assms(2) by (simp add: sits_def msg_bytes_def)
  from framed_len[OF this] have "get_i32 (buf @ beyond) (length pre + 1) = word_of_nat (length ?p + 4)" .
  then have "get_i32 buf (length pre + 1) = word_of_nat (length ?p + 4)" using False by (simp add: get_i32_def nth_append)
  then show ?thesis using assms(1,3) framed_words[of ?p] by (simp add: pg_read_msg_def Let_def msg_ok_def msg_bytes_def del: of_nat_add)
qed (simp add: pg_read_msg_def)

text \<open>The messages of a reply: the first that says the server is ready is the last.\<close>

fun ending :: "pg_msg list \<Rightarrow> bool" where
  "ending [] = False"
| "ending (m # ms) = (if pm_type m = 90 then ms = [] else ending ms)"

definition rows_of :: "pg_msg list \<Rightarrow> rows" where
  "rows_of ms = map (\<lambda>m. pg_data_row (pm_payload m)) (filter (\<lambda>m. pm_type m = 68) ms)"

definition wire_of :: "pg_msg list \<Rightarrow> byte list" where
  "wire_of ms = concat (map msg_bytes ms)"

lemma wire_simps [simp]: "wire_of [] = []" "wire_of (m # ms) = msg_bytes m @ wire_of ms" "wire_of (ms @ ns) = wire_of ms @ wire_of ns"
  by (simp_all add: wire_of_def)

lemma rows_simps [simp]: "rows_of [] = []" "rows_of (m # ms) = (if pm_type m = 68 then pg_data_row (pm_payload m) # rows_of ms else rows_of ms)"
  "rows_of (ms @ ns) = rows_of ms @ rows_of ns"
  by (simp_all add: rows_of_def)

lemma ending_suffix: "ending (ms @ ns) \<Longrightarrow> ns \<noteq> [] \<Longrightarrow> ending ns"
  by (induction ms) (auto split: if_splits)

lemma drain_stream:
  assumes "list_all msg_ok ms" "ending ms" "buf @ beyond = pre @ wire_of ms" "length pre \<le> length buf"
  shows "\<exists>ms1 ms2. ms = ms1 @ ms2 \<and> drain buf (length pre) rs = Some (ms2 = [], length pre + length (wire_of ms1), rs @ rows_of ms1)
     \<and> drop (length pre + length (wire_of ms1)) buf @ beyond = wire_of ms2
     \<and> (ms2 \<noteq> [] \<longrightarrow> length (drop (length pre + length (wire_of ms1)) buf) < length (msg_bytes (hd ms2)))"
  using assms
proof (induction ms arbitrary: pre rs)
  case (Cons m ms)
  show ?case
  proof (cases "length buf < length pre + length (msg_bytes m)")
    case True
    have "pg_read_msg buf (length pre) = None" using read_partial[of m buf beyond pre "wire_of ms"] Cons.prems True by simp
    then have "drain buf (length pre) rs = Some (False, length pre, rs)" by (subst drain.simps) simp
    moreover have "drop (length pre) buf @ beyond = wire_of (m # ms)"
      using arg_cong[OF Cons.prems(3), of "drop (length pre)"] Cons.prems(4) by simp
    ultimately show ?thesis using True Cons.prems(4) by (intro exI[of _ "[]"] exI[of _ "m # ms"]) auto
  next
    case False
    have s: "sits buf (length pre) (msg_bytes m)" using sits_prefix[of buf beyond pre "msg_bytes m" "wire_of ms"] Cons.prems False by simp
    have r: "pg_read_msg buf (length pre) = Some (m, length (pre @ msg_bytes m))" using read_framed[OF _ s] Cons.prems by simp
    have e: "buf @ beyond = (pre @ msg_bytes m) @ wire_of ms" using Cons.prems by simp
    show ?thesis
    proof (cases "pm_type m = 90")
      case True
      then have ms: "ms = []" using Cons.prems by simp
      have "drain buf (length pre) rs = Some (True, length (pre @ msg_bytes m), rs)" using True by (subst drain.simps) (simp add: r)
      moreover have "length buf + length beyond = length pre + length (msg_bytes m)" using arg_cong[OF e, of length] ms by simp
      then have "length beyond = 0" "length buf = length pre + length (msg_bytes m)" using False by linarith+
      then have "drop (length (pre @ msg_bytes m)) buf @ beyond = []" by simp
      ultimately show ?thesis using True ms by (intro exI[of _ "[m]"] exI[of _ "[]"]) simp
    next
      case F: False
      define rs' where "rs' = (if pm_type m = 68 then rs @ [pg_data_row (pm_payload m)] else rs)"
      have d: "drain buf (length pre) rs = drain buf (length (pre @ msg_bytes m)) rs'"
        using F by (subst drain.simps) (simp add: r rs'_def)
      have "ending ms" "list_all msg_ok ms" using Cons.prems F by simp_all
      moreover have "length (pre @ msg_bytes m) \<le> length buf" using False by simp
      ultimately obtain ms1 ms2 where
        "ms = ms1 @ ms2" "drain buf (length (pre @ msg_bytes m)) rs' = Some (ms2 = [], length (pre @ msg_bytes m) + length (wire_of ms1), rs' @ rows_of ms1)"
        "drop (length (pre @ msg_bytes m) + length (wire_of ms1)) buf @ beyond = wire_of ms2"
        "ms2 \<noteq> [] \<longrightarrow> length (drop (length (pre @ msg_bytes m) + length (wire_of ms1)) buf) < length (msg_bytes (hd ms2))" using Cons.IH[OF _ _ e, of rs'] by blast
      then show ?thesis unfolding d
        by (intro exI[of _ "m # ms1"] exI[of _ ms2]) (simp add: rs'_def add.assoc)
    qed
  qed
qed simp

lemma recv_stream:
  "list_all msg_ok ms \<Longrightarrow> ending ms \<Longrightarrow> buf @ concat cs = wire_of ms \<Longrightarrow> length buf < length (msg_bytes (hd ms)) \<Longrightarrow>
     recv_rows cs buf rs = Some (rs @ rows_of ms)"
proof (induction cs arbitrary: buf ms rs)
  case Nil
  then show ?case by (cases ms) auto
next
  case (Cons c cs)
  have e: "(buf @ c) @ concat cs = [] @ wire_of ms" using Cons.prems by simp
  obtain ms1 ms2 where m: "ms = ms1 @ ms2" "drain (buf @ c) 0 rs = Some (ms2 = [], length (wire_of ms1), rs @ rows_of ms1)"
    "drop (length (wire_of ms1)) (buf @ c) @ concat cs = wire_of ms2"
    "ms2 \<noteq> [] \<longrightarrow> length (drop (length (wire_of ms1)) (buf @ c)) < length (msg_bytes (hd ms2))"
    using drain_stream[OF Cons.prems(1,2) e, of rs] by auto
  show ?case
  proof (cases "ms2 = []")
    case True
    then show ?thesis using m(1,2) by simp
  next
    case False
    have "ending ms2" using ending_suffix Cons.prems(2) m(1) False by blast
    then have "recv_rows cs (drop (length (wire_of ms1)) (buf @ c)) (rs @ rows_of ms1) = Some ((rs @ rows_of ms1) @ rows_of ms2)"
      using Cons.prems(1) m False by (intro Cons.IH) auto
    then show ?thesis using m False by simp
  qed
qed

section \<open>The rows of a reply\<close>

text \<open>A row as the server sends it: its columns with their lengths.\<close>

definition row_bytes :: "byte list list \<Rightarrow> byte list" where
  "row_bytes cols = be_bytes16 (word_of_nat (length cols)) @ concat (map (\<lambda>c. be_bytes (word_of_nat (length c)) @ c) cols)"

lemma i32_sits: "sits p i (be_bytes x) \<Longrightarrow> get_i32 p i = x"
proof -
  assume s: "sits p i (be_bytes x)"
  have "p ! (i + k) = byte_of x (3 - k)" if "k < 4" for k using sits_nth[OF s, of k] that by (simp add: be_bytes_nth)
  from this[of 0] this[of 1] this[of 2] this[of 3]
  have "p ! i = byte_of x 3" "p ! (i + 1) = byte_of x 2" "p ! (i + 2) = byte_of x 1" "p ! (i + 3) = byte_of x 0" by simp_all
  then show ?thesis unfolding get_i32_def by (simp only: be32_bytes)
qed

lemma i16_bytes: "(push_bit 8 (ucast (byte_of x 1)) OR ucast (byte_of x 0)) = x" for x :: "16 word"
proof (rule bit_word_eqI)
  fix m assume m: "m < LENGTH(16)"
  then have "m < 16" by simp
  then have "m < 8 \<or> (\<exists>k<8. m = 8 + k)" by presburger
  then consider "m < 8" | k where "m = 8 + k" "k < 8" by blast
  then show "bit (push_bit 8 (ucast (byte_of x 1)) OR ucast (byte_of x 0) :: 16 word) m = bit x m"
    using m by cases (simp_all add: byte_of_def bit_or_iff bit_push_bit_iff bit_ucast_iff bit_drop_bit_eq)
qed

lemma row_loop_cols:
  "list_all (\<lambda>c. length c < 2 ^ 32 - 1) cols \<Longrightarrow> sits p i (concat (map (\<lambda>c. be_bytes (word_of_nat (length c)) @ c) cols)) \<Longrightarrow>
     row_loop p i (length cols) = cols"
proof (induction cols arbitrary: i)
  case (Cons c cols)
  have s: "sits p i (be_bytes (word_of_nat (length c)))" "sits p (i + 4) c"
    "sits p (i + 4 + length c) (concat (map (\<lambda>c. be_bytes (word_of_nat (length c)) @ c) cols))"
    using Cons.prems(2) by (simp_all add: sits_append be_bytes_nth(2) add.assoc)
  have i: "i + 4 \<le> length p" using sits_length[OF s(1)] by (simp add: be_bytes_nth(2)) (metis be_bytes_nth(2) list.size(3) zero_neq_numeral)
  have u: "unat (word_of_nat (length c) :: 32 word) = length c" using Cons.prems(1) by (simp add: unat_of_nat)
  have "(word_of_nat (length c) :: 32 word) \<noteq> 0xFFFFFFFF"
  proof
    assume "(word_of_nat (length c) :: 32 word) = 0xFFFFFFFF"
    from arg_cong[OF this, of unat] show False using u Cons.prems(1) by simp
  qed
  moreover have "take (length c) (drop (i + 4) p) = c" using s(2) by (simp add: sits_def)
  moreover have "row_loop p (i + 4 + length c) (length cols) = cols" using Cons s(3) by simp
  ultimately show ?case using i i32_sits[OF s(1)] u by (simp add: Let_def)
qed simp

lemma data_row_cols:
  assumes "length cols < 2 ^ 16" "list_all (\<lambda>c. length c < 2 ^ 32 - 1) cols"
  shows "pg_data_row (row_bytes cols) = cols"
proof -
  have "sits (row_bytes cols) 2 (concat (map (\<lambda>c. be_bytes (word_of_nat (length c)) @ c) cols))"
    by (simp add: row_bytes_def be_bytes16_def sits_def)
  from row_loop_cols[OF assms(2) this] have "row_loop (row_bytes cols) 2 (length cols) = cols" .
  moreover have "get_i16 (row_bytes cols) 0 = word_of_nat (length cols)"
    using i16_bytes[of "word_of_nat (length cols)"] by (simp add: get_i16_def row_bytes_def be_bytes16_def)
  moreover have "unat (word_of_nat (length cols) :: 16 word) = length cols" using assms(1) by (simp add: unat_of_nat)
  ultimately show ?thesis by (simp add: pg_data_row_def row_bytes_def be_bytes16_def)
qed

text \<open>C25. The rows of a query do not depend on how the transport cuts the reply: for any chunks that make up a
  sequence of framed messages up to the first that says the server is ready, the rows are the columns of its data
  messages, in order, and the loop ends.\<close>

theorem query_rows_any_chunks:
  assumes "tr (pg_request sql params) = Some cs" "concat cs = wire_of ms" "list_all msg_ok ms" "ending ms"
  shows "pg_exec tr sql params = Some (map (\<lambda>m. pg_data_row (pm_payload m)) (filter (\<lambda>m. pm_type m = 68) ms))"
proof -
  obtain m ns where "ms = m # ns" using assms(4) by (cases ms) auto
  then have "recv_rows cs [] [] = Some ([] @ rows_of ms)" using assms by (intro recv_stream) (simp_all add: msg_bytes_def)
  then show ?thesis using assms(1) by (simp add: pg_exec_def rows_of_def)
qed

definition demo_reply :: "pg_msg list" where
  "demo_reply = [\<lparr>pm_type = 68, pm_payload = row_bytes [[1], [2, 3]]\<rparr>, \<lparr>pm_type = 90, pm_payload = [73]\<rparr>]"

lemma query_rows_any_chunks_witness:
  "pg_exec (\<lambda>_. Some (map (\<lambda>b. [b]) (wire_of demo_reply))) ''SELECT'' [] = Some [[[1], [2, 3]]]"
proof -
  have "list_all msg_ok demo_reply" "ending demo_reply" by (simp_all add: demo_reply_def msg_ok_def row_bytes_def be_bytes16_def be_bytes_def)
  moreover have "concat (map (\<lambda>b. [b]) (wire_of demo_reply)) = wire_of demo_reply" by (induction "wire_of demo_reply") simp_all
  ultimately have "pg_exec (\<lambda>_. Some (map (\<lambda>b. [b]) (wire_of demo_reply))) ''SELECT'' []
      = Some (map (\<lambda>m. pg_data_row (pm_payload m)) (filter (\<lambda>m. pm_type m = 68) demo_reply))"
    by (intro query_rows_any_chunks[where cs = "map (\<lambda>b. [b]) (wire_of demo_reply)"]) simp_all
  also have "\<dots> = Some [[[1], [2, 3]]]" using data_row_cols[of "[[1], [2, 3]]"] by (simp add: demo_reply_def)
  finally show ?thesis .
qed

section \<open>The document store over SQL\<close>

text \<open>A server: the rows of a statement with its parameters, and its state afterwards.\<close>

type_synonym 'd sql_exec = "string \<Rightarrow> string list \<Rightarrow> 'd \<Rightarrow> string list list \<times> 'd"

definition SQL_PUT :: string where
  "SQL_PUT = ''INSERT INTO documents(coll,id,body) VALUES($1,$2,$3) '' @ ''ON CONFLICT (coll,id) DO UPDATE SET body=EXCLUDED.body''"

definition SQL_GET :: string where
  "SQL_GET = ''SELECT body FROM documents WHERE coll=$1 AND id=$2''"

definition SQL_EXISTS :: string where
  "SQL_EXISTS = ''SELECT 1 FROM documents WHERE coll=$1 AND id=$2''"

definition SQL_LIST :: string where
  "SQL_LIST = ''SELECT id FROM documents WHERE coll=$1''"

definition SQL_APPEND :: string where
  "SQL_APPEND = ''INSERT INTO logs(log,seq,entry) VALUES($1,'' @ ''COALESCE((SELECT MAX(seq) FROM logs WHERE log=$1),-1)+1,$2)''"

definition SQL_READ :: string where
  "SQL_READ = ''SELECT entry FROM logs WHERE log=$1 ORDER BY seq''"

definition sql_put :: "'d sql_exec \<Rightarrow> string \<Rightarrow> string \<Rightarrow> json \<Rightarrow> 'd \<Rightarrow> bool \<times> 'd" where
  "sql_put exec coll i doc d = (True, snd (exec SQL_PUT [coll, i, dump doc] d))"

text \<open>\<open>None\<close> is an exception of the JSON reader, \<open>Some None\<close> the null pointer.\<close>

definition sql_get :: "'d sql_exec \<Rightarrow> 'd \<Rightarrow> string \<Rightarrow> string \<Rightarrow> json option option" where
  "sql_get exec d coll i =
     (case fst (exec SQL_GET [coll, i] d) of
        (b # _) # _ \<Rightarrow> (case parse b of None \<Rightarrow> None | Some j \<Rightarrow> Some (Some j))
      | _ \<Rightarrow> Some None)"

definition sql_exists :: "'d sql_exec \<Rightarrow> 'd \<Rightarrow> string \<Rightarrow> string \<Rightarrow> bool" where
  "sql_exists exec d coll i = (fst (exec SQL_EXISTS [coll, i] d) \<noteq> [])"

definition sql_list :: "'d sql_exec \<Rightarrow> 'd \<Rightarrow> string \<Rightarrow> string list" where
  "sql_list exec d coll = map (\<lambda>r. r ! 0) (filter (\<lambda>r. r \<noteq> []) (fst (exec SQL_LIST [coll] d)))"

definition sql_append :: "'d sql_exec \<Rightarrow> string \<Rightarrow> json \<Rightarrow> 'd \<Rightarrow> bool \<times> 'd" where
  "sql_append exec l entry' d = (True, snd (exec SQL_APPEND [l, dump entry'] d))"

fun parse_rows :: "string list list \<Rightarrow> json list option" where
  "parse_rows [] = Some []"
| "parse_rows (r # rs) =
     (case r of [] \<Rightarrow> parse_rows rs
      | b # _ \<Rightarrow> (case parse b of None \<Rightarrow> None | Some j \<Rightarrow> (case parse_rows rs of None \<Rightarrow> None | Some js \<Rightarrow> Some (j # js))))"

definition sql_read_log :: "'d sql_exec \<Rightarrow> 'd \<Rightarrow> string \<Rightarrow> json list option" where
  "sql_read_log exec d l = parse_rows (fst (exec SQL_READ [l] d))"

text \<open>
  What a server documents of these statements: an insert stores the body under its key, a select finds it, the
  log keeps its entries in order. A \<open>JSONB\<close> column need not give back the text it was given, but a text of the
  same value.
\<close>

definition sql_server ::
  "'d sql_exec \<Rightarrow> (string \<Rightarrow> string) \<Rightarrow> ('d \<Rightarrow> string \<times> string \<Rightarrow> string option) \<Rightarrow> ('d \<Rightarrow> string \<Rightarrow> string list) \<Rightarrow> bool" where
  "sql_server exec jsonb docs logs \<longleftrightarrow>
     (\<forall>b. parse (jsonb b) = parse b) \<and>
     (\<forall>d c i b. docs (snd (exec SQL_PUT [c, i, b] d)) = (docs d)((c, i) \<mapsto> jsonb b) \<and> logs (snd (exec SQL_PUT [c, i, b] d)) = logs d) \<and>
     (\<forall>d l b. logs (snd (exec SQL_APPEND [l, b] d)) = (logs d)(l := logs d l @ [jsonb b]) \<and> docs (snd (exec SQL_APPEND [l, b] d)) = docs d) \<and>
     (\<forall>d c i. fst (exec SQL_GET [c, i] d) = (case docs d (c, i) of None \<Rightarrow> [] | Some b \<Rightarrow> [[b]])) \<and>
     (\<forall>d c i. fst (exec SQL_EXISTS [c, i] d) = (case docs d (c, i) of None \<Rightarrow> [] | Some b \<Rightarrow> [[''1'']])) \<and>
     (\<forall>d l. fst (exec SQL_READ [l] d) = map (\<lambda>b. [b]) (logs d l))"

lemma parse_rows_snoc: "parse_rows (rs @ [[b]]) =
    (case parse_rows rs of None \<Rightarrow> None | Some js \<Rightarrow> (case parse b of None \<Rightarrow> None | Some j \<Rightarrow> Some (js @ [j])))"
  by (induction rs) (auto split: option.splits list.splits)

lemma sql_db:
  assumes "sql_server exec jsonb docs logs" "json_plain doc"
  shows "sql_get exec (snd (sql_put exec c i doc d)) c' i' = (if (c', i') = (c, i) then Some (Some doc) else sql_get exec d c' i')"
    "sql_exists exec (snd (sql_put exec c i doc d)) c' i' = ((c', i') = (c, i) \<or> sql_exists exec d c' i')"
    "sql_read_log exec (snd (sql_put exec c i doc d)) l = sql_read_log exec d l"
    "sql_read_log exec d l = Some es \<Longrightarrow> sql_read_log exec (snd (sql_append exec l doc d)) l = Some (es @ [doc])"
    "l' \<noteq> l \<Longrightarrow> sql_read_log exec (snd (sql_append exec l doc d)) l' = sql_read_log exec d l'"
    "sql_get exec (snd (sql_append exec l doc d)) c i = sql_get exec d c i"
proof -
  have p: "parse (jsonb (dump doc)) = Some doc" using assms parse_dump[OF assms(2)] by (simp add: sql_server_def)
  note s = assms(1)[unfolded sql_server_def]
  show "sql_get exec (snd (sql_put exec c i doc d)) c' i' = (if (c', i') = (c, i) then Some (Some doc) else sql_get exec d c' i')"
    "sql_exists exec (snd (sql_put exec c i doc d)) c' i' = ((c', i') = (c, i) \<or> sql_exists exec d c' i')"
    "sql_read_log exec (snd (sql_put exec c i doc d)) l = sql_read_log exec d l"
    "l' \<noteq> l \<Longrightarrow> sql_read_log exec (snd (sql_append exec l doc d)) l' = sql_read_log exec d l'"
    "sql_get exec (snd (sql_append exec l doc d)) c i = sql_get exec d c i"
    using s p by (auto simp: sql_get_def sql_put_def sql_exists_def sql_read_log_def sql_append_def split: option.splits)
  show "sql_read_log exec (snd (sql_append exec l doc d)) l = Some (es @ [doc])" if "sql_read_log exec d l = Some es"
    using s p that parse_rows_snoc[of "map (\<lambda>b. [b]) (logs d l)"] by (simp add: sql_read_log_def sql_append_def)
qed

text \<open>The store over SQL: with a server that does what SQL documents, a document that is put is got back under its
  exact keys, every other document and every log stay as they were, and an appended entry is read last. Keys that the
  file store maps to the same file are told apart.\<close>

theorem sql_store_laws:
  assumes "sql_server exec jsonb docs logs" "json_plain doc" "sql_read_log exec d l = Some es"
  shows "sql_get exec (snd (sql_put exec c i doc d)) c' i' = (if (c', i') = (c, i) then Some (Some doc) else sql_get exec d c' i')
    \<and> sql_exists exec (snd (sql_put exec c i doc d)) c i
    \<and> sql_read_log exec (snd (sql_append exec l doc (snd (sql_put exec c i doc d)))) l = Some (es @ [doc])
    \<and> sql_get exec (snd (sql_append exec l doc (snd (sql_put exec c i doc d)))) c i = Some (Some doc)"
  using sql_db[OF assms(1,2)] assms(3) by simp

text \<open>A server that keeps the tables in memory.\<close>

type_synonym tables = "(string \<times> string \<Rightarrow> string option) \<times> (string \<Rightarrow> string list)"

definition memory_exec :: "tables sql_exec" where
  "memory_exec sql ps d =
     (if sql = SQL_PUT then ([], ((fst d)((ps ! 0, ps ! 1) \<mapsto> ps ! 2), snd d))
      else if sql = SQL_APPEND then ([], (fst d, (snd d)(ps ! 0 := snd d (ps ! 0) @ [ps ! 1])))
      else if sql = SQL_GET then ((case fst d (ps ! 0, ps ! 1) of None \<Rightarrow> [] | Some b \<Rightarrow> [[b]]), d)
      else if sql = SQL_EXISTS then ((case fst d (ps ! 0, ps ! 1) of None \<Rightarrow> [] | Some b \<Rightarrow> [[''1'']]), d)
      else if sql = SQL_READ then (map (\<lambda>b. [b]) (snd d (ps ! 0)), d)
      else ([], d))"

lemma sql_distinct:
  "SQL_PUT \<noteq> SQL_APPEND" "SQL_PUT \<noteq> SQL_GET" "SQL_PUT \<noteq> SQL_EXISTS" "SQL_PUT \<noteq> SQL_READ" "SQL_APPEND \<noteq> SQL_GET"
  "SQL_APPEND \<noteq> SQL_EXISTS" "SQL_APPEND \<noteq> SQL_READ" "SQL_GET \<noteq> SQL_EXISTS" "SQL_GET \<noteq> SQL_READ" "SQL_EXISTS \<noteq> SQL_READ"
  by (simp_all add: SQL_PUT_def SQL_APPEND_def SQL_GET_def SQL_EXISTS_def SQL_READ_def)

lemma memory_server: "sql_server memory_exec (\<lambda>b. b) fst snd"
  using sql_distinct sql_distinct[symmetric] by (simp add: sql_server_def memory_exec_def)

lemma sql_store_laws_witness:
  "sql_get memory_exec (snd (sql_put memory_exec ''a.b'' ''x'' (JBool True) (Map.empty, \<lambda>_. []))) ''a_b'' ''x'' = Some None
   \<and> sql_get memory_exec (snd (sql_put memory_exec ''a.b'' ''x'' (JBool True) (Map.empty, \<lambda>_. []))) ''a.b'' ''x'' = Some (Some (JBool True))"
proof -
  have r: "sql_read_log memory_exec (Map.empty, \<lambda>_. []) ''l'' = Some []"
    using sql_distinct by (simp add: sql_read_log_def memory_exec_def)
  have n: "sql_get memory_exec (Map.empty, \<lambda>_. []) ''a_b'' ''x'' = Some None"
    using sql_distinct by (simp add: sql_get_def memory_exec_def)
  show ?thesis using n sql_store_laws[OF memory_server _ r, of "JBool True" "''a.b''" "''x''" "''a_b''" "''x''"]
      sql_store_laws[OF memory_server _ r, of "JBool True" "''a.b''" "''x''" "''a.b''" "''x''"] by simp
qed

text \<open>A statement the server does not take is reported as stored: a row that is missing and a reply that never
  came look alike to the store.\<close>

lemma silent_put:
  "pg_exec (\<lambda>_. None) (SQL_PUT) [c, i, b] = Some [] \<and> fst (sql_put (\<lambda>_ _ d. ([], d)) c i doc d) = True
     \<and> snd (sql_put (\<lambda>_ _ d. ([], d)) c i doc d) = d"
  by (simp add: pg_exec_def sql_put_def)

end
