(* ===== verification/Fve_Glue.thy ===== *)
theory Fve_Glue
  imports Fve_Types
begin

text \<open>
  Gluing the sections of a document (\<open>semantic/glue\<close>): the ranges and dimensions that the regions give a
  symbol are met, region by region, and what does not fit is a conflict. The second part is the check of
  the offsets between the regions: a forest of regions with potentials, where every overlap that closes
  a loop must agree with the potentials.
\<close>

section \<open>Sections\<close>

record assign =
  as_range :: ival
  as_dim :: dim
  as_has :: bool

record region_section =
  sc_region :: string
  sc_sym :: "(string, assign) omap"

record conflict =
  cf_symbol :: string
  cf_a :: string
  cf_b :: string
  cf_kind :: string

record glue_result =
  gr_global :: region_section
  gr_conflicts :: "conflict list"
  gr_matches :: "(string \<times> string) list"
  gr_consistent :: bool
  gr_obstructed :: bool

definition match_sections :: "region_section \<Rightarrow> region_section \<Rightarrow> (string \<times> string) list" where
  "match_sections a b =
     map (\<lambda>kv. (sc_region a @ '':'' @ fst kv, sc_region b @ '':'' @ fst kv)) (filter (\<lambda>kv. mget (sc_sym b) (fst kv) \<noteq> None) (sc_sym a))"

record glue_state =
  gs_acc :: "(string, assign \<times> string) omap"
  gs_conflicts :: "conflict list"
  gs_matches :: "(string \<times> string) list"
  gs_ok :: bool

definition clash :: "glue_state \<Rightarrow> string \<Rightarrow> string \<Rightarrow> string \<Rightarrow> string \<Rightarrow> glue_state" where
  "clash s nm ra rb kind =
     s\<lparr>gs_conflicts := gs_conflicts s @ [\<lparr>cf_symbol = nm, cf_a = ra, cf_b = rb, cf_kind = kind\<rparr>], gs_ok := False\<rparr>"

text \<open>One symbol of one region.\<close>

definition glue_symbol :: "string \<Rightarrow> glue_state \<Rightarrow> string \<times> assign \<Rightarrow> glue_state" where
  "glue_symbol reg s kv =
     (let nm = fst kv; a = snd kv
      in case mget (gs_acc s) nm of
           None \<Rightarrow> s\<lparr>gs_acc := mput nm (a, reg) (gs_acc s)\<rparr>
         | Some (cur, ra) \<Rightarrow>
             let s1 = s\<lparr>gs_matches := gs_matches s @ [(ra @ '':'' @ nm, reg @ '':'' @ nm)]\<rparr>
             in if as_has a \<and> as_has cur \<and> as_dim a \<noteq> as_dim cur then clash s1 nm ra reg ''dimension''
                else let cur1 = (if \<not> as_has cur \<and> as_has a then cur\<lparr>as_dim := as_dim a, as_has := True\<rparr> else cur);
                         m = meet (as_range cur1) (as_range a)
                     in if is_empty m then clash (s1\<lparr>gs_acc := mput nm (cur1, ra) (gs_acc s1)\<rparr>) nm ra reg ''range''
                        else s1\<lparr>gs_acc := mput nm (cur1\<lparr>as_range := m\<rparr>, ra) (gs_acc s1)\<rparr>)"

definition glue_section :: "glue_state \<Rightarrow> region_section \<Rightarrow> glue_state" where
  "glue_section s sec = foldl (glue_symbol (sc_region sec)) s (sc_sym sec)"

definition glue_start :: glue_state where
  "glue_start = \<lparr>gs_acc = [], gs_conflicts = [], gs_matches = [], gs_ok = True\<rparr>"

definition glue :: "region_section list \<Rightarrow> glue_result" where
  "glue secs =
     (let s = foldl glue_section glue_start secs
      in \<lparr>gr_global = \<lparr>sc_region = ''glued'', sc_sym = map (\<lambda>kv. (fst kv, fst (snd kv))) (gs_acc s)\<rparr>,
          gr_conflicts = gs_conflicts s, gr_matches = gs_matches s, gr_consistent = gs_ok s, gr_obstructed = (\<not> gs_ok s)\<rparr>)"

section \<open>What is glued\<close>

text \<open>The assignments of the regions, in the order they are read.\<close>

definition readings :: "region_section list \<Rightarrow> (string \<times> string \<times> assign) list" where
  "readings secs = concat (map (\<lambda>sec. map (\<lambda>kv. (sc_region sec, kv)) (sc_sym sec)) secs)"

lemma glue_readings: "foldl glue_section s secs = foldl (\<lambda>s r. glue_symbol (fst r) s (snd r)) s (readings secs)"
proof (induction secs arbitrary: s)
  case (Cons sec secs)
  have "foldl (glue_symbol reg) t kvs = foldl (\<lambda>s r. glue_symbol (fst r) s (snd r)) t (map (\<lambda>kv. (reg, kv)) kvs)" for reg t kvs
    by (induction kvs arbitrary: t) simp_all
  then show ?case using Cons by (simp add: readings_def glue_section_def)
qed (simp add: readings_def)

text \<open>The ends of a range are numbers or infinities.\<close>

definition ends_ok :: "ival \<Rightarrow> bool" where
  "ends_ok i \<longleftrightarrow> lo i \<noteq> NaN \<and> hi i \<noteq> NaN"

lemma std_max_iff: "a \<noteq> NaN \<Longrightarrow> b \<noteq> NaN \<Longrightarrow> below (std_max a b) x \<longleftrightarrow> below a x \<and> below b x"
  by (cases a; cases b) (auto simp: std_max_def)

lemma std_min_iff: "a \<noteq> NaN \<Longrightarrow> b \<noteq> NaN \<Longrightarrow> above (std_min a b) x \<longleftrightarrow> above a x \<and> above b x"
  by (cases a; cases b) (auto simp: std_min_def)

lemma meet_iff: "ends_ok a \<Longrightarrow> ends_ok b \<Longrightarrow> imem x (meet a b) \<longleftrightarrow> imem x a \<and> imem x b"
proof
  assume e: "ends_ok a" "ends_ok b" and m: "imem x (meet a b)"
  show "imem x a \<and> imem x b"
  proof (cases "is_empty a \<or> is_empty b \<or> \<not> fle (std_max (lo a) (lo b)) (std_min (hi a) (hi b))")
    case True
    then have "meet a b = ival_empty" by (auto simp: meet_def Let_def)
    then show ?thesis using m imem_not_empty[of x ival_empty] by (simp add: is_empty_def ival_empty_def)
  next
    case False
    then show ?thesis using m e by (auto simp: meet_def Let_def imem_def ends_ok_def std_max_iff std_min_iff)
  qed
qed (simp add: meet_incl)

lemma meet_ends: "ends_ok a \<Longrightarrow> ends_ok b \<Longrightarrow> ends_ok (meet a b)"
  by (auto simp: meet_def Let_def ends_ok_def ival_empty_def std_max_def std_min_def)

text \<open>The readings of one symbol, and what the accumulator says of them.\<close>

definition reads :: "(string \<times> string \<times> assign) list \<Rightarrow> string \<Rightarrow> assign set" where
  "reads rs nm = {a. \<exists>reg. (reg, nm, a) \<in> set rs}"

lemma reads_snoc: "reads (rs @ [(reg, k, a)]) nm = (if nm = k then insert a (reads rs nm) else reads rs nm)"
  by (auto simp: reads_def)

definition met :: "assign set \<Rightarrow> assign \<Rightarrow> bool" where
  "met R cur \<longleftrightarrow> R \<noteq> {} \<and> ends_ok (as_range cur) \<and> (\<forall>x. imem x (as_range cur) \<longleftrightarrow> (\<forall>a\<in>R. imem x (as_range a)))
     \<and> (as_has cur \<longleftrightarrow> (\<exists>a\<in>R. as_has a)) \<and> (\<forall>a\<in>R. as_has a \<longrightarrow> as_dim a = as_dim cur)"

definition glued :: "glue_state \<Rightarrow> (string \<times> string \<times> assign) list \<Rightarrow> bool" where
  "glued s rs \<longleftrightarrow> (gs_ok s \<longrightarrow> (\<forall>nm. case mget (gs_acc s) nm of None \<Rightarrow> reads rs nm = {} | Some (cur, _) \<Rightarrow> met (reads rs nm) cur))
     \<and> (gs_ok s \<longleftrightarrow> gs_conflicts s = [])"

lemma glued_start: "glued glue_start []"
  by (simp add: glued_def glue_start_def reads_def)

lemma glued_step:
  assumes "glued s rs" "ends_ok (as_range a)"
  shows "glued (glue_symbol reg s (k, a)) (rs @ [(reg, k, a)])"
proof (cases "gs_ok s")
  case False
  then have "\<not> gs_ok (glue_symbol reg s (k, a))" "gs_conflicts (glue_symbol reg s (k, a)) \<noteq> []"
    using assms(1) by (auto simp: glue_symbol_def clash_def Let_def glued_def split: option.splits)
  then show ?thesis by (simp add: glued_def)
next
  case True
  note ok = True
  have g: "case mget (gs_acc s) nm of None \<Rightarrow> reads rs nm = {} | Some (cur, _) \<Rightarrow> met (reads rs nm) cur" for nm
    using assms(1) ok by (simp add: glued_def)
  have c: "gs_conflicts s = []" using assms(1) ok by (simp add: glued_def)
  show ?thesis
  proof (cases "mget (gs_acc s) k")
    case None
    have "case mget (mput k (a, reg) (gs_acc s)) nm of None \<Rightarrow> reads (rs @ [(reg, k, a)]) nm = {}
        | Some (cur, _) \<Rightarrow> met (reads (rs @ [(reg, k, a)]) nm) cur" for nm
      using g[of nm] g[of k] None assms(2)
      by (cases "nm = k"; cases "mget (gs_acc s) nm") (auto simp: reads_snoc mget_mput met_def)
    then show ?thesis using None ok c by (simp add: glued_def glue_symbol_def)
  next
    case (Some p)
    obtain cur ra where p: "p = (cur, ra)" by (cases p)
    define cur1 where "cur1 = (if \<not> as_has cur \<and> as_has a then cur\<lparr>as_dim := as_dim a, as_has := True\<rparr> else cur)"
    have m: "met (reads rs k) cur" using g[of k] Some p by simp
    have r: "as_range cur1 = as_range cur" by (simp add: cur1_def)
    consider "as_has a \<and> as_has cur \<and> as_dim a \<noteq> as_dim cur"
      | "\<not> (as_has a \<and> as_has cur \<and> as_dim a \<noteq> as_dim cur)" "is_empty (meet (as_range cur) (as_range a))"
      | "\<not> (as_has a \<and> as_has cur \<and> as_dim a \<noteq> as_dim cur)" "\<not> is_empty (meet (as_range cur) (as_range a))" by blast
    then show ?thesis
    proof cases
      case 3
      have "met (insert a (reads rs k)) (cur1\<lparr>as_range := meet (as_range cur) (as_range a)\<rparr>)"
        using m 3 meet_iff[OF _ assms(2)] meet_ends[OF _ assms(2)] by (auto simp: met_def cur1_def)
      moreover have "glue_symbol reg s (k, a) = s\<lparr>gs_matches := gs_matches s @ [(ra @ '':'' @ k, reg @ '':'' @ k)],
          gs_acc := mput k (cur1\<lparr>as_range := meet (as_range cur) (as_range a)\<rparr>, ra) (gs_acc s)\<rparr>"
        using 3 Some p by (auto simp: glue_symbol_def Let_def cur1_def)
      moreover have "case mget (mput k (cur1\<lparr>as_range := meet (as_range cur) (as_range a)\<rparr>, ra) (gs_acc s)) nm of
          None \<Rightarrow> reads (rs @ [(reg, k, a)]) nm = {} | Some (cur, _) \<Rightarrow> met (reads (rs @ [(reg, k, a)]) nm) cur" for nm
        using g[of nm] calculation(1) by (cases "nm = k"; cases "mget (gs_acc s) nm") (auto simp: reads_snoc mget_mput)
      ultimately show ?thesis using ok c by (simp add: glued_def)
    qed (use Some p r in \<open>simp_all add: glued_def glue_symbol_def Let_def cur1_def[symmetric] clash_def\<close>)
  qed
qed

lemma glued_all:
  "list_all (\<lambda>r. ends_ok (as_range (snd (snd r)))) rs \<Longrightarrow> glued (foldl (\<lambda>s r. glue_symbol (fst r) s (snd r)) glue_start rs) rs"
proof (induction rs rule: rev_induct)
  case (snoc r rs)
  obtain reg k a where "r = (reg, k, a)" by (cases r)
  then show ?case using snoc glued_step[of "foldl (\<lambda>s r. glue_symbol (fst r) s (snd r)) glue_start rs" rs a reg k] by simp
qed (simp add: glued_start)

text \<open>Values and dimensions that suit every region leave no conflict.\<close>

definition suits :: "(string \<Rightarrow> real) \<Rightarrow> (string \<Rightarrow> dim) \<Rightarrow> string \<times> string \<times> assign \<Rightarrow> bool" where
  "suits v D r \<longleftrightarrow> imem (v (fst (snd r))) (as_range (snd (snd r)))
     \<and> (as_has (snd (snd r)) \<longrightarrow> as_dim (snd (snd r)) = D (fst (snd r)))"

lemma suited:
  assumes "list_all (suits v D) rs"
  defines "s \<equiv> foldl (\<lambda>s r. glue_symbol (fst r) s (snd r)) glue_start rs"
  shows "gs_ok s \<and> (\<forall>nm cur ra. mget (gs_acc s) nm = Some (cur, ra) \<longrightarrow> imem (v nm) (as_range cur) \<and> (as_has cur \<longrightarrow> as_dim cur = D nm))"
  using assms(1) unfolding s_def
proof (induction rs rule: rev_induct)
  case (snoc r rs)
  obtain reg k a where r: "r = (reg, k, a)" by (cases r)
  define t where "t = foldl (\<lambda>s r. glue_symbol (fst r) s (snd r)) glue_start rs"
  have t: "gs_ok t" "\<And>nm cur ra. mget (gs_acc t) nm = Some (cur, ra) \<Longrightarrow> imem (v nm) (as_range cur) \<and> (as_has cur \<longrightarrow> as_dim cur = D nm)"
    using snoc by (auto simp: t_def)
  have a: "imem (v k) (as_range a)" "as_has a \<longrightarrow> as_dim a = D k" using snoc.prems by (simp_all add: r suits_def)
  have "gs_ok (glue_symbol reg t (k, a)) \<and> (\<forall>nm cur ra. mget (gs_acc (glue_symbol reg t (k, a))) nm = Some (cur, ra) \<longrightarrow>
      imem (v nm) (as_range cur) \<and> (as_has cur \<longrightarrow> as_dim cur = D nm))"
  proof (cases "mget (gs_acc t) k")
    case None
    then show ?thesis using t a by (auto simp: glue_symbol_def mget_mput)
  next
    case (Some p)
    obtain cur ra where p: "p = (cur, ra)" by (cases p)
    have c: "imem (v k) (as_range cur)" "as_has cur \<longrightarrow> as_dim cur = D k" using t(2)[of k cur ra] Some p by simp_all
    have m: "imem (v k) (meet (as_range cur) (as_range a))" by (rule meet_incl[OF c(1) a(1)])
    have "\<not> is_empty (meet (as_range cur) (as_range a))" by (rule imem_not_empty[OF m])
    then show ?thesis using Some p t a c m by (auto simp: glue_symbol_def Let_def mget_mput)
  qed
  then show ?case by (simp add: r t_def)
qed (simp add: glue_start_def)

lemma mget_acc: "mget (map (\<lambda>kv. (fst kv, fst (snd kv))) m) k = map_option fst (mget m k)"
  by (induction m) auto

text \<open>C28. Gluing is exact. When no end of a range is NaN and the regions are consistent, a symbol has, in the glued
  section, exactly the values that every region giving it allows, and the dimension of each region that gives one; a
  symbol is there when a region gives it. And whenever one value and one dimension of every symbol suit all regions,
  gluing reports no conflict.\<close>

theorem glue_exact:
  shows "(list_all (\<lambda>r. ends_ok (as_range (snd (snd r)))) (readings secs) \<and> gr_consistent (glue secs) \<longrightarrow>
      (case mget (sc_sym (gr_global (glue secs))) nm of
         None \<Rightarrow> reads (readings secs) nm = {}
       | Some cur \<Rightarrow> reads (readings secs) nm \<noteq> {}
           \<and> (\<forall>x. imem x (as_range cur) \<longleftrightarrow> (\<forall>a\<in>reads (readings secs) nm. imem x (as_range a)))
           \<and> (\<forall>a\<in>reads (readings secs) nm. as_has a \<longrightarrow> as_dim a = as_dim cur)))
    \<and> ((\<exists>v D. list_all (suits v D) (readings secs)) \<longrightarrow> gr_consistent (glue secs) \<and> gr_conflicts (glue secs) = [])"
proof -
  define s where "s = foldl (\<lambda>s r. glue_symbol (fst r) s (snd r)) glue_start (readings secs)"
  have gl: "gr_consistent (glue secs) = gs_ok s" "gr_conflicts (glue secs) = gs_conflicts s"
    "mget (sc_sym (gr_global (glue secs))) nm = map_option fst (mget (gs_acc s) nm)"
    by (simp_all add: glue_def Let_def glue_readings s_def mget_acc)
  have g: "glued s (readings secs)" if "list_all (\<lambda>r. ends_ok (as_range (snd (snd r)))) (readings secs)"
    unfolding s_def by (rule glued_all[OF that])
  have fit: "gs_ok s" if "list_all (suits v D) (readings secs)" for v D using suited[OF that] by (simp add: s_def)
  have c: "gs_conflicts s = []" if "list_all (suits v D) (readings secs)" for v D
  proof -
    have "list_all (\<lambda>r. ends_ok (as_range (snd (snd r)))) (readings secs)"
      using that by (auto simp: list_all_iff suits_def imem_def ends_ok_def)
    from g[OF this] show ?thesis using fit[OF that] by (simp add: glued_def)
  qed
  have m: "case mget (gs_acc s) nm of None \<Rightarrow> reads (readings secs) nm = {} | Some (cur, _) \<Rightarrow> met (reads (readings secs) nm) cur"
    if "list_all (\<lambda>r. ends_ok (as_range (snd (snd r)))) (readings secs) \<and> gs_ok s"
    using g that by (simp add: glued_def)
  show ?thesis unfolding gl
  proof (intro conjI impI)
    assume "list_all (\<lambda>r. ends_ok (as_range (snd (snd r)))) (readings secs) \<and> gs_ok s"
    from m[OF this] show "case map_option fst (mget (gs_acc s) nm) of
         None \<Rightarrow> reads (readings secs) nm = {}
       | Some cur \<Rightarrow> reads (readings secs) nm \<noteq> {}
           \<and> (\<forall>x. imem x (as_range cur) \<longleftrightarrow> (\<forall>a\<in>reads (readings secs) nm. imem x (as_range a)))
           \<and> (\<forall>a\<in>reads (readings secs) nm. as_has a \<longrightarrow> as_dim a = as_dim cur)"
      by (cases "mget (gs_acc s) nm") (auto simp: met_def)
  next
    assume "\<exists>v D. list_all (suits v D) (readings secs)"
    then show "gs_ok s" "gs_conflicts s = []" using fit c by blast+
  qed
qed

definition demo_sections :: "region_section list" where
  "demo_sections =
     [\<lparr>sc_region = ''a'', sc_sym = [(''x'', \<lparr>as_range = Ival (Fin 0) (Fin 2), as_dim = [], as_has = False\<rparr>)]\<rparr>,
      \<lparr>sc_region = ''b'', sc_sym = [(''x'', \<lparr>as_range = Ival (Fin 1) PInf, as_dim = [1], as_has = True\<rparr>)]\<rparr>]"

lemma demo_readings: "readings demo_sections =
    [(''a'', ''x'', \<lparr>as_range = Ival (Fin 0) (Fin 2), as_dim = [], as_has = False\<rparr>),
     (''b'', ''x'', \<lparr>as_range = Ival (Fin 1) PInf, as_dim = [1], as_has = True\<rparr>)]"
  by (simp add: readings_def demo_sections_def)

lemma glue_exact_witness:
  "gr_consistent (glue demo_sections) \<and>
     (\<exists>cur. mget (sc_sym (gr_global (glue demo_sections))) ''x'' = Some cur \<and> (\<forall>x. imem x (as_range cur) \<longleftrightarrow> 1 \<le> x \<and> x \<le> 2))"
proof -
  have e: "list_all (\<lambda>r. ends_ok (as_range (snd (snd r)))) (readings demo_sections)" by (simp add: demo_readings ends_ok_def)
  have "list_all (suits (\<lambda>_. 1) (\<lambda>_. [1])) (readings demo_sections)" by (simp add: demo_readings suits_def imem_def)
  then have k: "gr_consistent (glue demo_sections)" using glue_exact[of demo_sections] by blast
  have r: "reads (readings demo_sections) ''x'' =
      {\<lparr>as_range = Ival (Fin 0) (Fin 2), as_dim = [], as_has = False\<rparr>, \<lparr>as_range = Ival (Fin 1) PInf, as_dim = [1], as_has = True\<rparr>}"
    by (auto simp: demo_readings reads_def)
  have c: "case mget (sc_sym (gr_global (glue demo_sections))) ''x'' of
         None \<Rightarrow> reads (readings demo_sections) ''x'' = {}
       | Some cur \<Rightarrow> reads (readings demo_sections) ''x'' \<noteq> {}
           \<and> (\<forall>x. imem x (as_range cur) \<longleftrightarrow> (\<forall>a\<in>reads (readings demo_sections) ''x''. imem x (as_range a)))
           \<and> (\<forall>a\<in>reads (readings demo_sections) ''x''. as_has a \<longrightarrow> as_dim a = as_dim cur)"
    by (rule mp[OF conjunct1[OF glue_exact] conjI[OF e k]])
  then obtain cur where cur: "mget (sc_sym (gr_global (glue demo_sections))) ''x'' = Some cur" using r
    by (cases "mget (sc_sym (gr_global (glue demo_sections))) ''x''") auto
  have i: "(\<forall>a\<in>reads (readings demo_sections) ''x''. imem x (as_range a)) \<longleftrightarrow> 1 \<le> x \<and> x \<le> 2" for x by (auto simp: r imem_def)
  have "\<forall>x. imem x (as_range cur) \<longleftrightarrow> (\<forall>a\<in>reads (readings demo_sections) ''x''. imem x (as_range a))"
    using c unfolding cur option.case by (rule conjunct1[OF conjunct2])
  then have "\<forall>x. imem x (as_range cur) \<longleftrightarrow> 1 \<le> x \<and> x \<le> 2" unfolding i .
  then show ?thesis using k cur by blast
qed

text \<open>A region with a NaN range allows no value, and gluing does not see it.\<close>

definition nan_sections :: "region_section list" where
  "nan_sections =
     [\<lparr>sc_region = ''a'', sc_sym = [(''x'', \<lparr>as_range = Ival (Fin 1) (Fin 1), as_dim = [], as_has = False\<rparr>)]\<rparr>,
      \<lparr>sc_region = ''b'', sc_sym = [(''x'', \<lparr>as_range = Ival NaN NaN, as_dim = [], as_has = False\<rparr>)]\<rparr>]"

lemma nan_region_glued: "gr_consistent (glue nan_sections) \<and> \<not> imem y (Ival NaN NaN)"
  by (simp add: glue_def nan_sections_def glue_section_def glue_symbol_def glue_start_def meet_def is_empty_def
      std_max_def std_min_def imem_def Let_def fle_def)

end
