(* ===== verification/Fve_Sdg.thy ===== *)
theory Fve_Sdg
  imports Fve_Oracle Fve_Lower
begin

text \<open>
  The dependency graph of a workbook (\<open>model/sdg\<close>) and the cells worth verifying (\<open>extractor/pipeline\<close>): the
  references written in the formulas, joined with the dependencies found by intervention.
\<close>

unbundle bit_operations_syntax

section \<open>The graph\<close>

datatype origin = Syntactic | Interventional | Both

record sdg_node =
  sn_id :: cell_id
  sn_label :: string
  sn_input :: bool
  sn_ambiguous :: bool
  sn_alts :: int

record sdg_edge =
  se_from :: cell_id
  se_to :: cell_id
  se_origin :: origin
  se_sens :: double

record sdg =
  sg_nodes :: "sdg_node list"
  sg_edges :: "sdg_edge list"
  sg_idx :: "(cell_id, nat) omap"
  sg_labels :: "(cell_id, string) omap"

definition sdg_new :: sdg where
  "sdg_new = \<lparr>sg_nodes = [], sg_edges = [], sg_idx = [], sg_labels = []\<rparr>"

definition label_or :: "sdg \<Rightarrow> cell_id \<Rightarrow> string \<Rightarrow> string" where
  "label_or g i def = (case mget (sg_labels g) i of Some l \<Rightarrow> l | None \<Rightarrow> def)"

definition sdg_touch :: "cell_id \<Rightarrow> sdg \<Rightarrow> sdg" where
  "sdg_touch i g =
     (case mget (sg_idx g) i of
        Some k \<Rightarrow> g
      | None \<Rightarrow> g\<lparr>sg_idx := mput i (length (sg_nodes g)) (sg_idx g),
                 sg_nodes := sg_nodes g @ [\<lparr>sn_id = i, sn_label = label_or g i [], sn_input = False, sn_ambiguous = False, sn_alts = 1\<rparr>]\<rparr>)"

definition sdg_index :: "cell_id \<Rightarrow> sdg \<Rightarrow> nat" where
  "sdg_index i g = the (mget (sg_idx (sdg_touch i g)) i)"

definition sdg_find :: "sdg \<Rightarrow> cell_id \<Rightarrow> sdg_node option" where
  "sdg_find g i = map_option (\<lambda>k. sg_nodes g ! k) (mget (sg_idx g) i)"

section \<open>Labels\<close>

definition label_cell :: "sheet \<Rightarrow> int \<Rightarrow> sdg \<Rightarrow> (int \<times> int) \<times> cell \<Rightarrow> sdg" where
  "label_cell sh si g kv =
     (let r = fst (fst kv); c = snd (fst kv); ce = snd kv
      in if has_value ce \<and> cell_text ce \<noteq> []
         then (case sheet_at sh r (c + 1) of
                 Some x \<Rightarrow> if has_value x \<or> cell_formula x \<noteq> [] then g\<lparr>sg_labels := mput (CellId si r (c + 1)) (cell_text ce) (sg_labels g)\<rparr> else g
               | None \<Rightarrow> g)
         else g)"

definition label_name :: "sdg \<Rightarrow> string \<times> wb_name \<Rightarrow> sdg" where
  "label_name g kv =
     (let t = wn_target (snd kv); sh = (if r_sheet t < 0 then 0 else r_sheet t)
      in g\<lparr>sg_labels := mput (CellId sh (r_row t) (r_col t)) (fst kv) (sg_labels g)\<rparr>)"

definition resolve_labels :: "workbook \<Rightarrow> sdg \<Rightarrow> sdg" where
  "resolve_labels wb g =
     foldl label_name (foldl (\<lambda>g (si, sh). foldl (label_cell sh (int si)) g (sh_cells sh)) g (enumerate 0 (wb_sheets wb))) (wb_names wb)"

section \<open>References\<close>

definition push_ref :: "int \<Rightarrow> cell_id \<Rightarrow> sdg \<Rightarrow> int \<times> int \<times> int \<Rightarrow> sdg" where
  "push_ref cur t g p =
     (let i = CellId (if fst p < 0 then cur else fst p) (fst (snd p)) (snd (snd p))
      in sdg_touch i (g\<lparr>sg_edges := sg_edges g @ [\<lparr>se_from = i, se_to = t, se_origin = Syntactic, se_sens = Fin 0\<rparr>]\<rparr>))"

definition ref_sheet :: "workbook \<Rightarrow> string \<Rightarrow> int \<Rightarrow> int" where
  "ref_sheet wb shn cur = (if shn = [] then cur else sheet_index wb shn)"

fun walk_refs :: "workbook \<Rightarrow> int \<Rightarrow> cell_id \<Rightarrow> xast \<Rightarrow> sdg \<Rightarrow> sdg" where
  "walk_refs wb cur t (XCell shn r) g = push_ref cur t g (ref_sheet wb shn cur, r_row r, r_col r)"
| "walk_refs wb cur t (XRange shn r e) g =
     foldl (\<lambda>g row. foldl (\<lambda>g col. push_ref cur t g (ref_sheet wb shn cur, row, col)) g [min (r_col r) (r_col e) .. max (r_col r) (r_col e)])
       g [min (r_row r) (r_row e) .. max (r_row r) (r_row e)]"
| "walk_refs wb cur t (XName nm) g =
     (case mget (wb_names wb) nm of
        Some n \<Rightarrow> push_ref cur t g (r_sheet (wn_target n), r_row (wn_target n), r_col (wn_target n))
      | None \<Rightarrow> g)"
| "walk_refs wb cur t (XCall f as) g = fold (walk_refs wb cur t) as g"
| "walk_refs wb cur t (XBin op l r) g = walk_refs wb cur t r (walk_refs wb cur t l g)"
| "walk_refs wb cur t (XUn op x) g = walk_refs wb cur t x g"
| "walk_refs wb cur t _ g = g"

text \<open>\<open>None\<close> is an exception of the formula reader.\<close>

definition syntactic_cell :: "workbook \<Rightarrow> int \<times> (int \<times> int) \<times> cell \<Rightarrow> sdg \<Rightarrow> sdg option" where
  "syntactic_cell wb c g =
     (let si = fst c; i = CellId si (fst (fst (snd c))) (snd (fst (snd c))); ce = snd (snd c)
      in if cell_formula ce = [] then Some g
         else case parse_formula (cell_formula ce) of
                None \<Rightarrow> None
              | Some p \<Rightarrow>
                  Some (if xp_ok p then sdg_touch i (case xp_ast p of Some a \<Rightarrow> walk_refs wb si i a g | None \<Rightarrow> g) else g))"

fun add_syntactic :: "workbook \<Rightarrow> (int \<times> (int \<times> int) \<times> cell) list \<Rightarrow> sdg \<Rightarrow> sdg option" where
  "add_syntactic wb [] g = Some g"
| "add_syntactic wb (c # cs) g = (case syntactic_cell wb c g of None \<Rightarrow> None | Some g1 \<Rightarrow> add_syntactic wb cs g1)"

section \<open>Joining the graphs\<close>

text \<open>\<open>key\<close>: the sheet, the row and the column in one integer.\<close>

definition cell_code :: "cell_id \<Rightarrow> int" where
  "cell_code i = (push_bit 40 (c_sheet i) OR push_bit 20 (c_row i) OR c_col i)"

definition mark_input :: "sdg \<Rightarrow> cell_id \<Rightarrow> sdg" where
  "mark_input g i =
     (let g1 = sdg_touch i g; k = sdg_index i g
      in g1\<lparr>sg_nodes := (sg_nodes g1)[k := (sg_nodes g1 ! k)\<lparr>sn_input := True\<rparr>]\<rparr>)"

definition seen_edges :: "sdg_edge list \<Rightarrow> (int \<times> int, nat) omap" where
  "seen_edges es = foldl (\<lambda>m (k, e). mput (cell_code (se_from e), cell_code (se_to e)) k m) [] (enumerate 0 es)"

definition join_edge :: "(int \<times> int, nat) omap \<Rightarrow> sdg \<Rightarrow> dep_edge \<Rightarrow> sdg" where
  "join_edge seen g e =
     (case mget seen (cell_code (de_from e), cell_code (de_to e)) of
        Some k \<Rightarrow> g\<lparr>sg_edges := (sg_edges g)[k := (sg_edges g ! k)\<lparr>se_origin := Both, se_sens := de_sens e\<rparr>]\<rparr>
      | None \<Rightarrow>
          sdg_touch (de_to e) (sdg_touch (de_from e)
            (g\<lparr>sg_edges := sg_edges g @ [\<lparr>se_from = de_from e, se_to = de_to e, se_origin = Interventional, se_sens = de_sens e\<rparr>]\<rparr>)))"

definition relabel :: "sdg \<Rightarrow> sdg" where
  "relabel g = g\<lparr>sg_nodes := map (\<lambda>n. n\<lparr>sn_label := label_or g (sn_id n) (sn_label n)\<rparr>) (sg_nodes g)\<rparr>"

definition build_sdg :: "workbook \<Rightarrow> dep_graph \<Rightarrow> sdg option" where
  "build_sdg wb dep =
     (let g1 = foldl mark_input (resolve_labels wb sdg_new) (dg_in dep); g2 = foldl (\<lambda>g i. sdg_touch i g) g1 (dg_out dep)
      in case add_syntactic wb (wb_cells wb) g2 of
           None \<Rightarrow> None
         | Some g3 \<Rightarrow> Some (relabel (foldl (join_edge (seen_edges (sg_edges g3))) g3 (dg_edges dep))))"

definition mark_ambiguous :: "cell_id \<Rightarrow> int \<Rightarrow> sdg \<Rightarrow> sdg" where
  "mark_ambiguous i alts g =
     (let g1 = sdg_touch i g; k = sdg_index i g
      in g1\<lparr>sg_nodes := (sg_nodes g1)[k := (sg_nodes g1 ! k)\<lparr>sn_ambiguous := True, sn_alts := alts\<rparr>]\<rparr>)"

text \<open>The cells that are neither an input nor read by another cell.\<close>

definition margin_targets :: "sdg \<Rightarrow> cell_id list" where
  "margin_targets g =
     map sn_id (filter (\<lambda>n. \<not> sn_input n \<and> cell_code (sn_id n) \<notin> (\<lambda>e. cell_code (se_from e)) ` set (sg_edges g)) (sg_nodes g))"

section \<open>Nodes\<close>

definition ids :: "sdg \<Rightarrow> cell_id set" where
  "ids g = sn_id ` set (sg_nodes g)"

definition idx_ok :: "sdg \<Rightarrow> bool" where
  "idx_ok g \<longleftrightarrow> (\<forall>i k. mget (sg_idx g) i = Some k \<longleftrightarrow> k < length (sg_nodes g) \<and> sn_id (sg_nodes g ! k) = i)"

lemma idx_ids: "idx_ok g \<Longrightarrow> i \<in> ids g \<longleftrightarrow> mget (sg_idx g) i \<noteq> None"
  by (force simp: idx_ok_def ids_def in_set_conv_nth)

lemma idx_distinct: "idx_ok g \<Longrightarrow> distinct (map sn_id (sg_nodes g))"
  by (auto simp: distinct_conv_nth idx_ok_def) (metis option.inject)

lemma touch_parts [simp]:
  "sg_edges (sdg_touch i g) = sg_edges g" "sg_labels (sdg_touch i g) = sg_labels g"
  by (simp_all add: sdg_touch_def split: option.splits)

lemma touch_ids: "idx_ok g \<Longrightarrow> ids (sdg_touch i g) = insert i (ids g)"
  using idx_ids[of g i] by (auto simp: sdg_touch_def ids_def split: option.splits)

lemma touch_ok: "idx_ok g \<Longrightarrow> idx_ok (sdg_touch i g)"
proof (cases "mget (sg_idx g) i")
  case None
  assume a: "idx_ok g"
  have n: "\<not> (k < length (sg_nodes g) \<and> sn_id (sg_nodes g ! k) = i)" for k
    using a[unfolded idx_ok_def, THEN spec[of _ i], THEN spec[of _ k]] None by simp
  show ?thesis using None a n unfolding idx_ok_def sdg_touch_def
    by (auto simp: mget_mput nth_append less_Suc_eq)
qed (simp add: sdg_touch_def)

lemma touch_inputs:
  "idx_ok g \<Longrightarrow> sn_id ` {n \<in> set (sg_nodes (sdg_touch i g)). sn_input n} = sn_id ` {n \<in> set (sg_nodes g). sn_input n}"
  by (auto simp: sdg_touch_def split: option.splits)

definition inputs_of :: "sdg \<Rightarrow> cell_id set" where
  "inputs_of g = sn_id ` {n \<in> set (sg_nodes g). sn_input n}"

text \<open>What a step may change: more nodes, more edges, the same inputs.\<close>

definition grows :: "sdg \<Rightarrow> cell_id set \<Rightarrow> sdg_edge list \<Rightarrow> sdg \<Rightarrow> bool" where
  "grows g I es g' \<longleftrightarrow> idx_ok g' \<and> ids g' = ids g \<union> I \<and> sg_edges g' = sg_edges g @ es \<and> inputs_of g' = inputs_of g"

lemma grows_refl: "idx_ok g \<Longrightarrow> grows g {} [] g"
  by (simp add: grows_def)

lemma grows_trans: "grows g I es g1 \<Longrightarrow> grows g1 J fs g2 \<Longrightarrow> grows g (I \<union> J) (es @ fs) g2"
  by (auto simp: grows_def)

lemma grows_ok: "grows g I es g' \<Longrightarrow> idx_ok g'"
  by (simp add: grows_def)

lemma grows_touch: "idx_ok g \<Longrightarrow> grows g {i} [] (sdg_touch i g)"
  using touch_inputs[of g i] by (simp add: grows_def touch_ok touch_ids inputs_of_def)

lemma idx_edges [simp]: "idx_ok (g\<lparr>sg_edges := es\<rparr>) = idx_ok g" "ids (g\<lparr>sg_edges := es\<rparr>) = ids g" "inputs_of (g\<lparr>sg_edges := es\<rparr>) = inputs_of g"
  by (simp_all add: idx_ok_def ids_def inputs_of_def)

section \<open>The references of a formula\<close>

text \<open>The cells a formula names, in the order of its tree.\<close>

fun refs_of :: "workbook \<Rightarrow> int \<Rightarrow> xast \<Rightarrow> cell_id list" where
  "refs_of wb cur (XCell shn r) = [ref_id (ref_sheet wb shn cur) cur r]"
| "refs_of wb cur (XRange shn r e) =
     concat (map (\<lambda>row. map (\<lambda>col. CellId (if ref_sheet wb shn cur < 0 then cur else ref_sheet wb shn cur) row col)
       [min (r_col r) (r_col e) .. max (r_col r) (r_col e)]) [min (r_row r) (r_row e) .. max (r_row r) (r_row e)])"
| "refs_of wb cur (XName nm) = (case mget (wb_names wb) nm of Some n \<Rightarrow> [ref_id (r_sheet (wn_target n)) cur (wn_target n)] | None \<Rightarrow> [])"
| "refs_of wb cur (XCall f as) = concat (map (refs_of wb cur) as)"
| "refs_of wb cur (XBin op l r) = refs_of wb cur l @ refs_of wb cur r"
| "refs_of wb cur (XUn op x) = refs_of wb cur x"
| "refs_of wb cur _ = []"

definition written :: "cell_id \<Rightarrow> cell_id \<Rightarrow> sdg_edge" where
  "written t i = \<lparr>se_from = i, se_to = t, se_origin = Syntactic, se_sens = Fin 0\<rparr>"

lemma push_ref_grows: "idx_ok g \<Longrightarrow> grows g {CellId (if sh < 0 then cur else sh) r c} [written t (CellId (if sh < 0 then cur else sh) r c)] (push_ref cur t g (sh, r, c))"
proof -
  assume g: "idx_ok g"
  define i where "i = CellId (if sh < 0 then cur else sh) r c"
  have "grows g {} [written t i] (g\<lparr>sg_edges := sg_edges g @ [written t i]\<rparr>)" using g by (simp add: grows_def)
  from grows_trans[OF this grows_touch[OF grows_ok[OF this], of i]]
  show ?thesis unfolding push_ref_def Let_def fst_conv snd_conv i_def[symmetric] written_def[symmetric] by simp
qed

lemma foldl_grows:
  assumes "\<And>g x. idx_ok g \<Longrightarrow> grows g (set (f x)) (map (written t) (f x)) (k g x)" "idx_ok g"
  shows "grows g (set (concat (map f xs))) (map (written t) (concat (map f xs))) (foldl k g xs)"
  using assms(2)
proof (induction xs rule: rev_induct)
  case Nil
  then show ?case by (simp add: grows_refl)
next
  case (snoc x xs)
  from grows_trans[OF snoc.IH[OF snoc.prems] assms(1)[OF grows_ok[OF snoc.IH[OF snoc.prems]]]]
  show ?case by simp
qed

lemma walk_refs_grows: "idx_ok g \<Longrightarrow> grows g (set (refs_of wb cur a)) (map (written t) (refs_of wb cur a)) (walk_refs wb cur t a g)"
proof (induction wb cur t a g rule: walk_refs.induct)
  case (1 wb cur t shn r g)
  then show ?case using push_ref_grows[OF 1] by (simp add: ref_id_def)
next
  case (2 wb cur t shn r e g)
  define sh where "sh = ref_sheet wb shn cur"
  define F where "F = CellId (if sh < 0 then cur else sh)"
  have m: "concat (map (\<lambda>col. [F row col]) cs) = map (F row) cs" for row cs by (induction cs) simp_all
  have p: "grows g (set [F row col]) (map (written t) [F row col]) (push_ref cur t g (sh, row, col))" if "idx_ok g" for g row col
    using push_ref_grows[OF that, of sh cur row col t] by (simp add: F_def)
  have c: "grows g (set (map (F row) cs)) (map (written t) (map (F row) cs)) (foldl (\<lambda>g col. push_ref cur t g (sh, row, col)) g cs)"
    if "idx_ok g" for g row cs
    using foldl_grows[of "\<lambda>col. [F row col]" t "\<lambda>g col. push_ref cur t g (sh, row, col)", OF p that, of cs] unfolding m .
  show ?case using foldl_grows[of "\<lambda>row. map (F row) [min (r_col r) (r_col e) .. max (r_col r) (r_col e)]" t
      "\<lambda>g row. foldl (\<lambda>g col. push_ref cur t g (sh, row, col)) g [min (r_col r) (r_col e) .. max (r_col r) (r_col e)]", OF c 2]
    unfolding walk_refs.simps refs_of.simps sh_def[symmetric] F_def[symmetric] .
next
  case (3 wb cur t nm g)
  show ?case
  proof (cases "mget (wb_names wb) nm")
    case (Some n)
    then show ?thesis using push_ref_grows[OF 3, of "r_sheet (wn_target n)" cur "r_row (wn_target n)" "r_col (wn_target n)" t]
      by (simp add: ref_id_def del: if_split)
  qed (use 3 in \<open>simp add: grows_refl\<close>)
next
  case (4 wb cur t f as g)
  have "grows g (set (concat (map (refs_of wb cur) xs))) (map (written t) (concat (map (refs_of wb cur) xs))) (fold (walk_refs wb cur t) xs g)"
    if "idx_ok g" "set xs \<subseteq> set as" for xs g using that
  proof (induction xs arbitrary: g)
    case (Cons x xs)
    have x: "grows g (set (refs_of wb cur x)) (map (written t) (refs_of wb cur x)) (walk_refs wb cur t x g)"
      using 4 Cons.prems by simp
    from grows_trans[OF x Cons.IH[OF grows_ok[OF x]]] Cons.prems show ?case by simp
  qed (simp add: grows_refl)
  then show ?case using 4(2) by simp
next
  case (5 wb cur t op l r g)
  note l = 5(1)[OF 5(3)]
  from grows_trans[OF l 5(2)[OF grows_ok[OF l]]] show ?case by simp
qed (simp_all add: grows_refl)

text \<open>The references written in the formulas of a workbook, in the order of its cells.\<close>

definition cell_refs :: "workbook \<Rightarrow> int \<times> (int \<times> int) \<times> cell \<Rightarrow> (cell_id \<times> cell_id) list" where
  "cell_refs wb c =
     (let si = fst c; i = CellId si (fst (fst (snd c))) (snd (fst (snd c))); ce = snd (snd c)
      in if cell_formula ce = [] then []
         else case parse_formula (cell_formula ce) of
                Some p \<Rightarrow> if xp_ok p then (case xp_ast p of Some a \<Rightarrow> map (\<lambda>j. (j, i)) (refs_of wb si a) | None \<Rightarrow> []) else []
              | None \<Rightarrow> [])"

definition formula_cell :: "int \<times> (int \<times> int) \<times> cell \<Rightarrow> bool" where
  "formula_cell c \<longleftrightarrow> cell_formula (snd (snd c)) \<noteq> []
     \<and> (case parse_formula (cell_formula (snd (snd c))) of Some p \<Rightarrow> xp_ok p | None \<Rightarrow> False)"

definition place :: "int \<times> (int \<times> int) \<times> cell \<Rightarrow> cell_id" where
  "place c = CellId (fst c) (fst (fst (snd c))) (snd (fst (snd c)))"

lemma syntactic_cell_grows:
  "idx_ok g \<Longrightarrow> syntactic_cell wb c g = Some g' \<Longrightarrow>
     grows g (fst ` set (cell_refs wb c) \<union> (if formula_cell c then {place c} else {})) (map (\<lambda>p. written (snd p) (fst p)) (cell_refs wb c)) g'"
proof -
  assume a: "idx_ok g" "syntactic_cell wb c g = Some g'"
  show ?thesis
  proof (cases "formula_cell c")
    case False
    show ?thesis
    proof (cases "parse_formula (cell_formula (snd (snd c)))")
      case None
      then show ?thesis using a False by (cases "cell_formula (snd (snd c)) = []") (simp_all add: syntactic_cell_def formula_cell_def cell_refs_def Let_def grows_refl)
    next
      case (Some p)
      then show ?thesis using a False
        by (cases "cell_formula (snd (snd c)) = []"; cases "xp_ok p") (simp_all add: syntactic_cell_def formula_cell_def cell_refs_def Let_def grows_refl)
    qed
  next
    case True
    then obtain p where p: "cell_formula (snd (snd c)) \<noteq> []" "parse_formula (cell_formula (snd (snd c))) = Some p" "xp_ok p"
      by (auto simp: formula_cell_def split: option.splits)
    define g1 where "g1 = (case xp_ast p of Some x \<Rightarrow> walk_refs wb (fst c) (place c) x g | None \<Rightarrow> g)"
    have e: "g' = sdg_touch (place c) g1" unfolding g1_def place_def using a(2) p by (simp add: syntactic_cell_def Let_def)
    have "grows g (fst ` set (cell_refs wb c)) (map (\<lambda>p. written (snd p) (fst p)) (cell_refs wb c)) g1"
      using p walk_refs_grows[OF a(1), of wb "fst c" _ "place c"] a(1)
      by (auto simp: g1_def cell_refs_def Let_def place_def grows_refl image_image comp_def split: option.splits)
    from grows_trans[OF this grows_touch[OF grows_ok[OF this], of "place c"]] show ?thesis using True by (simp add: e)
  qed
qed

lemma add_syntactic_grows:
  "idx_ok g \<Longrightarrow> add_syntactic wb cs g = Some g' \<Longrightarrow>
     grows g (fst ` set (concat (map (cell_refs wb) cs)) \<union> place ` {c \<in> set cs. formula_cell c})
       (map (\<lambda>p. written (snd p) (fst p)) (concat (map (cell_refs wb) cs))) g'"
proof (induction cs arbitrary: g)
  case Nil
  then show ?case by (simp add: grows_refl)
next
  case (Cons c cs)
  then obtain g1 where g1: "syntactic_cell wb c g = Some g1" "add_syntactic wb cs g1 = Some g'" by (auto split: option.splits)
  have s: "grows g (fst ` set (cell_refs wb c) \<union> (if formula_cell c then {place c} else {})) (map (\<lambda>p. written (snd p) (fst p)) (cell_refs wb c)) g1"
    by (rule syntactic_cell_grows[OF Cons.prems(1) g1(1)])
  have set: "(fst ` set (cell_refs wb c) \<union> (if formula_cell c then {place c} else {}))
      \<union> (fst ` set (concat (map (cell_refs wb) cs)) \<union> place ` {c \<in> set cs. formula_cell c})
      = fst ` set (concat (map (cell_refs wb) (c # cs))) \<union> place ` {d \<in> set (c # cs). formula_cell d}" by auto
  show ?case using grows_trans[OF s Cons.IH[OF grows_ok[OF s] g1(2)]] unfolding set by simp
qed

section \<open>Joining\<close>

text \<open>A cell within a sheet of the size the formats allow: its code is its own.\<close>

definition in_grid :: "cell_id \<Rightarrow> bool" where
  "in_grid i \<longleftrightarrow> 0 \<le> c_row i \<and> c_row i < 2 ^ 20 \<and> 0 \<le> c_col i \<and> c_col i < 2 ^ 20"

lemma small_bit: "0 \<le> k \<Longrightarrow> k < 2 ^ 20 \<Longrightarrow> bit k n \<Longrightarrow> n < 20" for k :: int
proof -
  assume a: "0 \<le> k" "k < 2 ^ 20" "bit k n"
  have "take_bit 20 k = k" using a by (simp add: take_bit_int_eq_self)
  then show "n < 20" using a(3) bit_take_bit_iff[of 20 k n] by simp
qed

lemma code_bits:
  assumes "in_grid i"
  shows "bit (cell_code i) n \<longleftrightarrow> (if n < 20 then bit (c_col i) n else if n < 40 then bit (c_row i) (n - 20) else bit (c_sheet i) (n - 40))"
  using assms small_bit[of "c_col i" n] small_bit[of "c_row i" "n - 20"]
  by (auto simp: in_grid_def cell_code_def bit_or_iff bit_push_bit_iff)

lemma code_inject: "in_grid i \<Longrightarrow> in_grid j \<Longrightarrow> cell_code i = cell_code j \<longleftrightarrow> i = j"
proof
  assume a: "in_grid i" "in_grid j" "cell_code i = cell_code j"
  have b: "bit (cell_code i) n = bit (cell_code j) n" for n using a(3) by simp
  have "c_sheet i = c_sheet j"
  proof (rule bit_eqI)
    fix n show "bit (c_sheet i) n = bit (c_sheet j) n" using b[of "n + 40"] unfolding code_bits[OF a(1)] code_bits[OF a(2)] by simp
  qed
  moreover have "c_row i = c_row j"
  proof (rule bit_eqI)
    fix n show "bit (c_row i) n = bit (c_row j) n" using b[of "n + 20"] a(1,2) small_bit[of "c_row i" n] small_bit[of "c_row j" n]
      unfolding code_bits[OF a(1)] code_bits[OF a(2)] by (cases "n < 20") (auto simp: in_grid_def)
  qed
  moreover have "c_col i = c_col j"
  proof (rule bit_eqI)
    fix n show "bit (c_col i) n = bit (c_col j) n" using b[of n] a(1,2) small_bit[of "c_col i" n] small_bit[of "c_col j" n]
      unfolding code_bits[OF a(1)] code_bits[OF a(2)] by (cases "n < 20") (auto simp: in_grid_def)
  qed
  ultimately show "i = j" by (cases i; cases j) simp
qed simp

definition ends_of :: "sdg_edge list \<Rightarrow> (cell_id \<times> cell_id) set" where
  "ends_of es = (\<lambda>e. (se_from e, se_to e)) ` set es"

lemma ends_of_append [simp]: "ends_of (es @ fs) = ends_of es \<union> ends_of fs"
  by (auto simp: ends_of_def)

lemma seen_at: "mget (seen_edges es) c = Some k \<Longrightarrow> k < length es \<and> c = (cell_code (se_from (es ! k)), cell_code (se_to (es ! k)))"
proof (induction es arbitrary: k rule: rev_induct)
  case (snoc e es)
  have "seen_edges (es @ [e]) = mput (cell_code (se_from e), cell_code (se_to e)) (length es) (seen_edges es)"
    by (simp add: seen_edges_def enumerate_append_eq)
  then show ?case using snoc by (auto simp: mget_mput nth_append less_Suc_eq split: if_splits)
qed (simp add: seen_edges_def)

text \<open>The graph after the join: the index of a known edge stays the index of an edge with the same ends.\<close>

definition joins :: "sdg_edge list \<Rightarrow> sdg \<Rightarrow> bool" where
  "joins es g \<longleftrightarrow> idx_ok g \<and> length es \<le> length (sg_edges g)
     \<and> (\<forall>k<length es. se_from (sg_edges g ! k) = se_from (es ! k) \<and> se_to (sg_edges g ! k) = se_to (es ! k))"

lemma ends_update: "k < length es \<Longrightarrow> se_from e = se_from (es ! k) \<Longrightarrow> se_to e = se_to (es ! k) \<Longrightarrow> ends_of (es[k := e]) = ends_of es"
proof -
  assume a: "k < length es" "se_from e = se_from (es ! k)" "se_to e = se_to (es ! k)"
  have "map (\<lambda>e. (se_from e, se_to e)) (es[k := e]) = map (\<lambda>e. (se_from e, se_to e)) es"
    using a by (intro nth_equalityI) (auto simp: nth_list_update)
  then have "set (map (\<lambda>e. (se_from e, se_to e)) (es[k := e])) = set (map (\<lambda>e. (se_from e, se_to e)) es)" by (rule arg_cong)
  then show ?thesis by (simp add: ends_of_def)
qed

lemma join_edge_step:
  assumes "joins es g" "\<forall>e\<in>set es. in_grid (se_from e) \<and> in_grid (se_to e)" "in_grid (de_from d)" "in_grid (de_to d)"
    and "\<forall>e\<in>set es. se_from e \<in> ids g \<and> se_to e \<in> ids g"
  shows "joins es (join_edge (seen_edges es) g d) \<and> ends_of (sg_edges (join_edge (seen_edges es) g d)) = insert (de_from d, de_to d) (ends_of (sg_edges g))
     \<and> ids (join_edge (seen_edges es) g d) = ids g \<union> {de_from d, de_to d} \<and> inputs_of (join_edge (seen_edges es) g d) = inputs_of g"
proof (cases "mget (seen_edges es) (cell_code (de_from d), cell_code (de_to d))")
  case (Some k)
  have k: "k < length es" "cell_code (de_from d) = cell_code (se_from (es ! k))" "cell_code (de_to d) = cell_code (se_to (es ! k))"
    using seen_at[OF Some] by auto
  then have e: "de_from d = se_from (es ! k)" "de_to d = se_to (es ! k)" using assms(2-4) code_inject nth_mem[of k es] by blast+
  have l: "k < length (sg_edges g)" "se_from (sg_edges g ! k) = de_from d" "se_to (sg_edges g ! k) = de_to d"
    using assms(1) k(1) e by (auto simp: joins_def)
  define e' where "e' = (sg_edges g ! k)\<lparr>se_origin := Both, se_sens := de_sens d\<rparr>"
  have j: "join_edge (seen_edges es) g d = g\<lparr>sg_edges := (sg_edges g)[k := e']\<rparr>" using Some by (simp add: join_edge_def e'_def)
  have "ends_of ((sg_edges g)[k := e']) = ends_of (sg_edges g)" using l by (intro ends_update) (simp_all add: e'_def)
  moreover have "(de_from d, de_to d) = (\<lambda>e. (se_from e, se_to e)) (sg_edges g ! k)" using l by simp
  then have "(de_from d, de_to d) \<in> ends_of (sg_edges g)" unfolding ends_of_def using nth_mem[OF l(1)] by (rule image_eqI)
  moreover note this
  moreover have "de_from d \<in> ids g" "de_to d \<in> ids g" using assms(5) k(1) e by auto
  moreover have "joins es (g\<lparr>sg_edges := (sg_edges g)[k := e']\<rparr>)" using assms(1) l by (auto simp: joins_def nth_list_update e'_def)
  ultimately show ?thesis unfolding j by auto
next
  case None
  define e where "e = \<lparr>se_from = de_from d, se_to = de_to d, se_origin = Interventional, se_sens = de_sens d\<rparr>"
  define g1 where "g1 = g\<lparr>sg_edges := sg_edges g @ [e]\<rparr>"
  have j: "join_edge (seen_edges es) g d = sdg_touch (de_to d) (sdg_touch (de_from d) g1)" using None by (simp add: join_edge_def g1_def e_def)
  have g1: "grows g {} [e] g1" using assms(1) by (simp add: grows_def g1_def joins_def)
  note t1 = grows_touch[OF grows_ok[OF g1], of "de_from d"]
  note t = grows_trans[OF grows_trans[OF g1 t1] grows_touch[OF grows_ok[OF t1], of "de_to d"]]
  then have "joins es (join_edge (seen_edges es) g d)" using assms(1) unfolding j by (auto simp: joins_def grows_def nth_append)
  then show ?thesis using t unfolding j by (auto simp: grows_def ends_of_def e_def)
qed

lemma join_all:
  assumes "joins es g" "\<forall>e\<in>set es. in_grid (se_from e) \<and> in_grid (se_to e)" "\<forall>d\<in>set ds. in_grid (de_from d) \<and> in_grid (de_to d)"
    and "\<forall>e\<in>set es. se_from e \<in> ids g \<and> se_to e \<in> ids g"
  defines "h \<equiv> foldl (join_edge (seen_edges es)) g ds"
  shows "joins es h \<and> ends_of (sg_edges h) = ends_of (sg_edges g) \<union> (\<lambda>d. (de_from d, de_to d)) ` set ds
     \<and> ids h = ids g \<union> de_from ` set ds \<union> de_to ` set ds \<and> inputs_of h = inputs_of g"
  using assms(3) unfolding h_def
proof (induction ds rule: rev_induct)
  case Nil
  then show ?case using assms(1) by simp
next
  case (snoc d ds)
  define k where "k = foldl (join_edge (seen_edges es)) g ds"
  have ih: "joins es k" "ends_of (sg_edges k) = ends_of (sg_edges g) \<union> (\<lambda>d. (de_from d, de_to d)) ` set ds"
    "ids k = ids g \<union> de_from ` set ds \<union> de_to ` set ds" "inputs_of k = inputs_of g" using snoc by (simp_all add: k_def)
  have "\<forall>e\<in>set es. se_from e \<in> ids k \<and> se_to e \<in> ids k" using assms(4) ih(3) by auto
  from join_edge_step[OF ih(1) assms(2) _ _ this, of d] snoc.prems ih show ?case by (auto simp: k_def)
qed

section \<open>The graph of a workbook\<close>

lemma labels_frame: "sg_nodes (resolve_labels wb g) = sg_nodes g" "sg_edges (resolve_labels wb g) = sg_edges g" "sg_idx (resolve_labels wb g) = sg_idx g"
proof -
  have c: "sg_nodes (label_cell sh si g kv) = sg_nodes g \<and> sg_edges (label_cell sh si g kv) = sg_edges g \<and> sg_idx (label_cell sh si g kv) = sg_idx g"
    for sh si g kv by (simp add: label_cell_def Let_def split: option.splits)
  have f: "sg_nodes (foldl k g xs) = sg_nodes g \<and> sg_edges (foldl k g xs) = sg_edges g \<and> sg_idx (foldl k g xs) = sg_idx g"
    if "\<And>g x. sg_nodes (k g x) = sg_nodes g \<and> sg_edges (k g x) = sg_edges g \<and> sg_idx (k g x) = sg_idx g" for k :: "sdg \<Rightarrow> 'b \<Rightarrow> sdg" and g xs
    using that by (induction xs arbitrary: g) auto
  have "sg_nodes (foldl (\<lambda>g (si, sh). foldl (label_cell sh (int si)) g (sh_cells sh)) g xs) = sg_nodes g
      \<and> sg_edges (foldl (\<lambda>g (si, sh). foldl (label_cell sh (int si)) g (sh_cells sh)) g xs) = sg_edges g
      \<and> sg_idx (foldl (\<lambda>g (si, sh). foldl (label_cell sh (int si)) g (sh_cells sh)) g xs) = sg_idx g" for xs
  proof (induction xs arbitrary: g)
    case (Cons x xs)
    have "sg_nodes (foldl (label_cell sh si) g cs) = sg_nodes g \<and> sg_edges (foldl (label_cell sh si) g cs) = sg_edges g
        \<and> sg_idx (foldl (label_cell sh si) g cs) = sg_idx g" for sh si cs using c by (induction cs arbitrary: g) auto
    then show ?case using Cons by (cases x) simp
  qed simp
  moreover have "sg_nodes (foldl label_name g ns) = sg_nodes g \<and> sg_edges (foldl label_name g ns) = sg_edges g
      \<and> sg_idx (foldl label_name g ns) = sg_idx g" for g ns
    by (induction ns arbitrary: g) (auto simp: label_name_def Let_def)
  ultimately show "sg_nodes (resolve_labels wb g) = sg_nodes g" "sg_edges (resolve_labels wb g) = sg_edges g" "sg_idx (resolve_labels wb g) = sg_idx g"
    by (simp_all add: resolve_labels_def)
qed

lemma mark_input_step:
  assumes "idx_ok g"
  shows "idx_ok (mark_input g i) \<and> ids (mark_input g i) = insert i (ids g) \<and> sg_edges (mark_input g i) = sg_edges g
     \<and> inputs_of (mark_input g i) = insert i (inputs_of g)"
proof -
  define g1 k where "g1 = sdg_touch i g" and "k = sdg_index i g"
  have g1: "grows g {i} [] g1" unfolding g1_def by (rule grows_touch[OF assms])
  have "i \<in> ids g1" using g1 by (simp add: grows_def)
  then have "mget (sg_idx g1) i = Some k" using idx_ids[OF grows_ok[OF g1]] by (auto simp: k_def g1_def sdg_index_def)
  then have k: "k < length (sg_nodes g1)" "sn_id (sg_nodes g1 ! k) = i" using grows_ok[OF g1] by (auto simp: idx_ok_def)
  define ns where "ns = (sg_nodes g1)[k := (sg_nodes g1 ! k)\<lparr>sn_input := True\<rparr>]"
  have m: "map sn_id ns = map sn_id (sg_nodes g1)" using k by (intro nth_equalityI) (auto simp: ns_def nth_list_update)
  have at: "sn_id (ns ! j) = sn_id (sg_nodes g1 ! j)" if "j < length (sg_nodes g1)" for j using that k by (simp add: ns_def nth_list_update)
  have e: "mark_input g i = g1\<lparr>sg_nodes := ns\<rparr>" by (simp add: mark_input_def Let_def g1_def k_def ns_def)
  have "idx_ok (g1\<lparr>sg_nodes := ns\<rparr>)" using grows_ok[OF g1] at by (auto simp: idx_ok_def ns_def)
  moreover have "ids (g1\<lparr>sg_nodes := ns\<rparr>) = ids g1" using arg_cong[OF m, of set] by (simp add: ids_def)
  moreover have "inputs_of (g1\<lparr>sg_nodes := ns\<rparr>) = insert i (inputs_of g1)"
  proof (rule set_eqI)
    fix j
    have "j \<in> inputs_of (g1\<lparr>sg_nodes := ns\<rparr>) \<longleftrightarrow> (\<exists>a<length (sg_nodes g1). sn_input (ns ! a) \<and> sn_id (ns ! a) = j)"
      by (auto simp: inputs_of_def in_set_conv_nth ns_def)
    also have "\<dots> \<longleftrightarrow> j = i \<or> (\<exists>a<length (sg_nodes g1). sn_input (sg_nodes g1 ! a) \<and> sn_id (sg_nodes g1 ! a) = j)"
      using k by (auto simp: ns_def nth_list_update split: if_splits)
    also have "\<dots> \<longleftrightarrow> j \<in> insert i (inputs_of g1)" by (auto simp: inputs_of_def in_set_conv_nth)
    finally show "j \<in> inputs_of (g1\<lparr>sg_nodes := ns\<rparr>) \<longleftrightarrow> j \<in> insert i (inputs_of g1)" .
  qed
  ultimately show ?thesis using g1 by (simp add: e grows_def)
qed

lemma mark_inputs:
  "idx_ok g \<Longrightarrow> idx_ok (foldl mark_input g js) \<and> ids (foldl mark_input g js) = ids g \<union> set js \<and> sg_edges (foldl mark_input g js) = sg_edges g
     \<and> inputs_of (foldl mark_input g js) = inputs_of g \<union> set js"
proof (induction js arbitrary: g)
  case (Cons i js)
  then show ?case using mark_input_step[OF Cons.prems, of i] by auto
qed simp

lemma touch_all: "idx_ok g \<Longrightarrow> grows g (set js) [] (foldl (\<lambda>g i. sdg_touch i g) g js)"
proof (induction js arbitrary: g)
  case (Cons i js)
  from grows_trans[OF grows_touch[OF Cons.prems, of i] Cons.IH[OF touch_ok[OF Cons.prems, of i]]] show ?case by simp
qed (simp add: grows_refl)

text \<open>Every cell that is an input, an output, a formula, or named by one; and who reads whom.\<close>

definition graph_cells :: "workbook \<Rightarrow> dep_graph \<Rightarrow> cell_id set" where
  "graph_cells wb dep =
     set (dg_in dep) \<union> set (dg_out dep) \<union> fst ` set (concat (map (cell_refs wb) (wb_cells wb))) \<union> place ` {c \<in> set (wb_cells wb). formula_cell c}
       \<union> de_from ` set (dg_edges dep) \<union> de_to ` set (dg_edges dep)"

definition reads_of :: "workbook \<Rightarrow> dep_graph \<Rightarrow> (cell_id \<times> cell_id) set" where
  "reads_of wb dep = set (concat (map (cell_refs wb) (wb_cells wb))) \<union> (\<lambda>d. (de_from d, de_to d)) ` set (dg_edges dep)"

lemma cell_refs_place: "p \<in> set (cell_refs wb c) \<Longrightarrow> snd p = place c \<and> formula_cell c"
proof -
  assume p: "p \<in> set (cell_refs wb c)"
  show ?thesis
  proof (cases "cell_formula (snd (snd c)) = []")
    case False
    note f = this
    show ?thesis
    proof (cases "parse_formula (cell_formula (snd (snd c)))")
      case (Some q)
      then have "xp_ok q" using p f by (cases "xp_ok q") (simp_all add: cell_refs_def Let_def)
      then have "snd p = place c" using p f Some by (cases "xp_ast q") (auto simp: cell_refs_def Let_def place_def)
      then show ?thesis using f Some \<open>xp_ok q\<close> by (simp add: formula_cell_def)
    qed (use p f in \<open>simp add: cell_refs_def Let_def\<close>)
  qed (use p in \<open>simp add: cell_refs_def Let_def\<close>)
qed

lemma relabel_frame: "sg_edges (relabel g) = sg_edges g" "ids (relabel g) = ids g" "inputs_of (relabel g) = inputs_of g"
  "map sn_id (sg_nodes (relabel g)) = map sn_id (sg_nodes g)"
  by (force simp: relabel_def ids_def inputs_of_def image_iff)+

lemma sdg_graph:
  assumes "build_sdg wb dep = Some g" "\<forall>i\<in>graph_cells wb dep. in_grid i"
  shows "ids g = graph_cells wb dep" "ends_of (sg_edges g) = reads_of wb dep" "inputs_of g = set (dg_in dep)"
    "distinct (map sn_id (sg_nodes g))"
proof -
  define g0 where "g0 = resolve_labels wb sdg_new"
  have g0: "idx_ok g0" "ids g0 = {}" "sg_edges g0 = []" "inputs_of g0 = {}"
    by (simp_all add: g0_def idx_ok_def ids_def inputs_of_def labels_frame sdg_new_def)
  define g1 where "g1 = foldl mark_input g0 (dg_in dep)"
  have g1: "idx_ok g1" "ids g1 = set (dg_in dep)" "sg_edges g1 = []" "inputs_of g1 = set (dg_in dep)"
    using mark_inputs[OF g0(1), of "dg_in dep"] g0 by (simp_all add: g1_def)
  define g2 where "g2 = foldl (\<lambda>g i. sdg_touch i g) g1 (dg_out dep)"
  have g2: "grows g1 (set (dg_out dep)) [] g2" unfolding g2_def by (rule touch_all[OF g1(1)])
  obtain g3 where g3: "add_syntactic wb (wb_cells wb) g2 = Some g3"
    "g = relabel (foldl (join_edge (seen_edges (sg_edges g3))) g3 (dg_edges dep))"
    using assms(1) by (auto simp: build_sdg_def Let_def g0_def g1_def g2_def split: option.splits)
  define R where "R = concat (map (cell_refs wb) (wb_cells wb))"
  have s: "grows g2 (fst ` set R \<union> place ` {c \<in> set (wb_cells wb). formula_cell c}) (map (\<lambda>p. written (snd p) (fst p)) R) g3"
    using add_syntactic_grows[OF grows_ok[OF g2] g3(1)] by (simp add: R_def)
  have e3: "sg_edges g3 = map (\<lambda>p. written (snd p) (fst p)) R" using s g2 g1 by (simp add: grows_def)
  have i3: "ids g3 = set (dg_in dep) \<union> set (dg_out dep) \<union> fst ` set R \<union> place ` {c \<in> set (wb_cells wb). formula_cell c}"
    using s g2 g1 by (auto simp: grows_def)
  have n3: "inputs_of g3 = set (dg_in dep)" using s g2 g1 by (simp add: grows_def)
  have R: "snd p \<in> place ` {c \<in> set (wb_cells wb). formula_cell c}" if "p \<in> set R" for p
    using that cell_refs_place[of p wb] by (auto simp: R_def)
  have w: "\<forall>e\<in>set (sg_edges g3). se_from e \<in> ids g3 \<and> se_to e \<in> ids g3" using R by (auto simp: e3 i3 written_def)
  have sub: "ids g3 \<subseteq> graph_cells wb dep" by (auto simp: i3 graph_cells_def R_def)
  have a: "\<forall>e\<in>set (sg_edges g3). in_grid (se_from e) \<and> in_grid (se_to e)" using w sub assms(2) by blast
  have d: "\<forall>d\<in>set (dg_edges dep). in_grid (de_from d) \<and> in_grid (de_to d)" using assms(2) by (auto simp: graph_cells_def)
  have j: "joins (sg_edges g3) g3" using grows_ok[OF s] by (simp add: joins_def)
  note h = join_all[OF j a d w]
  have "ends_of (sg_edges g3) = set R" by (force simp: e3 ends_of_def written_def image_iff)
  then show "ends_of (sg_edges g) = reads_of wb dep" using h by (simp add: g3(2) relabel_frame reads_of_def R_def)
  show "ids g = graph_cells wb dep" using h i3 by (auto simp: g3(2) relabel_frame graph_cells_def R_def)
  show "inputs_of g = set (dg_in dep)" using h n3 by (simp add: g3(2) relabel_frame)
  show "distinct (map sn_id (sg_nodes g))" using h idx_distinct by (simp add: g3(2) relabel_frame joins_def)
qed

lemma reads_cells: "(i, t) \<in> reads_of wb dep \<Longrightarrow> i \<in> graph_cells wb dep"
  by (force simp: reads_of_def graph_cells_def)

text \<open>Outside of the grid keys collide: a cell of the column 1048576 (which the reader accepts) has the key of a cell
  of the next row.\<close>

lemma keys_collide: "cell_code (CellId 0 0 (2 ^ 20)) = cell_code (CellId 0 1 0)"
  by code_simp

text \<open>C20. In a workbook whose cells, references and interventions all lie in rows and columns from 0 to 2^20 -
  1, the cells the pipeline verifies are exactly the ends of the workbook: the cells of the graph that are no input of
  the oracle and that no formula names and no intervention showed to matter to another cell; each is listed once. The
  graph's cells are those the workbook, its formulas and the interventions name.\<close>

theorem margin_cells_exact:
  assumes "build_sdg wb dep = Some g" "\<forall>i. i \<in> graph_cells wb dep \<longrightarrow> in_grid i"
  shows "set (margin_targets g) = {i \<in> graph_cells wb dep. i \<notin> set (dg_in dep) \<and> (\<forall>t. (i, t) \<notin> reads_of wb dep)}
     \<and> distinct (margin_targets g)"
proof -
  have gr: "\<forall>i\<in>graph_cells wb dep. in_grid i" using assms(2) by blast
  note f = sdg_graph[OF assms(1) gr]
  have inp: "sn_input n \<longleftrightarrow> sn_id n \<in> set (dg_in dep)" if n: "n \<in> set (sg_nodes g)" for n
  proof -
    have "sn_input n \<longleftrightarrow> sn_id n \<in> inputs_of g"
      using n f(4) by (auto simp: inputs_of_def distinct_map dest: inj_onD)
    then show ?thesis by (simp add: f(3))
  qed
  have src: "cell_code (sn_id n) \<in> (\<lambda>e. cell_code (se_from e)) ` set (sg_edges g) \<longleftrightarrow> (\<exists>t. (sn_id n, t) \<in> reads_of wb dep)"
    if n: "n \<in> set (sg_nodes g)" for n
  proof -
    have i: "in_grid (sn_id n)" using n f(1) gr by (auto simp: ids_def)
    have "in_grid (se_from e)" if "e \<in> set (sg_edges g)" for e
    proof -
      have "(se_from e, se_to e) \<in> reads_of wb dep" unfolding f(2)[symmetric] ends_of_def using that by blast
      then show ?thesis using reads_cells gr by blast
    qed
    then have "cell_code (sn_id n) \<in> (\<lambda>e. cell_code (se_from e)) ` set (sg_edges g) \<longleftrightarrow> (\<exists>e\<in>set (sg_edges g). se_from e = sn_id n)"
      unfolding image_iff by (intro bex_cong refl) (use code_inject[OF i] in auto)
    also have "\<dots> \<longleftrightarrow> (\<exists>t. (sn_id n, t) \<in> ends_of (sg_edges g))" by (auto simp: ends_of_def image_iff) metis
    finally show ?thesis by (simp add: f(2))
  qed
  have "set (margin_targets g) = {i \<in> ids g. i \<notin> set (dg_in dep) \<and> (\<forall>t. (i, t) \<notin> reads_of wb dep)}"
    using inp src by (force simp: margin_targets_def ids_def image_iff)
  moreover have "distinct (margin_targets g)" unfolding margin_targets_def by (rule distinct_map_filter[OF f(4)])
  ultimately show ?thesis by (simp add: f(1))
qed

definition demo_dep :: dep_graph where
  "demo_dep = \<lparr>dg_in = [CellId 0 0 0], dg_out = [CellId 0 0 1], dg_edges = [\<lparr>de_from = CellId 0 0 0, de_to = CellId 0 0 1, de_sens = Fin 1\<rparr>],
     dg_deps = []\<rparr>"

lemma margin_cells_exact_witness:
  "\<exists>g. build_sdg \<lparr>wb_sheets = [], wb_names = []\<rparr> demo_dep = Some g \<and> set (margin_targets g) = {CellId 0 0 1}"
proof -
  define wb where "wb = \<lparr>wb_sheets = [], wb_names = []\<rparr>"
  have c: "wb_cells wb = []" by (simp add: wb_cells_def wb_def)
  have "build_sdg wb demo_dep \<noteq> None" unfolding build_sdg_def Let_def c by simp
  then obtain g where g: "build_sdg wb demo_dep = Some g" by blast
  have cells: "graph_cells wb demo_dep = {CellId 0 0 0, CellId 0 0 1}" and rd: "reads_of wb demo_dep = {(CellId 0 0 0, CellId 0 0 1)}"
    by (auto simp: graph_cells_def reads_of_def c demo_dep_def)
  have "\<forall>i. i \<in> graph_cells wb demo_dep \<longrightarrow> in_grid i" by (simp add: cells in_grid_def)
  note m = conjunct1[OF margin_cells_exact[OF g this]]
  have "set (dg_in demo_dep) = {CellId 0 0 0}" by (simp add: demo_dep_def)
  then have "set (margin_targets g) = {CellId 0 0 1}" unfolding m cells rd by auto
  then show ?thesis using g unfolding wb_def by blast
qed

end
