(* ===== verification/Fve_Xlsx.thy ===== *)
theory Fve_Xlsx
  imports Fve_Archive Fve_Xml Fve_Sdg
begin

text \<open>
  The spreadsheet reader (\<open>extractor/xlsx\<close>): the parts of an archive are parsed as XML and turned into a
  workbook. \<open>None\<close> is an exception, or the undefined behaviour of an index out of range.
\<close>

section \<open>Numbers in a document\<close>

text \<open>\<open>atoi\<close>, and \<open>strtod\<close> on any text: leading space, a sign, an infinity or a NaN in letters of either case, a
  hexadecimal or a decimal numeral; 0 when there is none.\<close>

definition c_atoi :: "string \<Rightarrow> int" where
  "c_atoi s = cast_int (strtol 10 s)"

fun begins_ci :: "string \<Rightarrow> string \<Rightarrow> bool" where
  "begins_ci [] s = True"
| "begins_ci (c # cs) [] = False"
| "begins_ci (c # cs) (d # ds) = (lower_char d = c \<and> begins_ci cs ds)"

definition dot_split :: "(char \<Rightarrow> bool) \<Rightarrow> string \<Rightarrow> string \<times> string \<times> string" where
  "dot_split P s =
     (let d1 = takeWhile P s; s2 = dropWhile P s
      in case s2 of [] \<Rightarrow> (d1, [], [])
         | c # s' \<Rightarrow> if c = CHR ''.'' then (d1, takeWhile P s', dropWhile P s') else (d1, [], s2))"

definition is_xdigit :: "char \<Rightarrow> bool" where
  "is_xdigit c = (hex_val c \<noteq> None)"

definition hex_digits_val :: "string \<Rightarrow> nat" where
  "hex_digits_val s = foldl (\<lambda>n c. 16 * n + (case hex_val c of Some d \<Rightarrow> d | None \<Rightarrow> 0)) 0 s"

definition bin_exp :: "string \<Rightarrow> int" where
  "bin_exp s =
     (case s of [] \<Rightarrow> 0
      | c # s' \<Rightarrow>
          if c = CHR ''p'' \<or> c = CHR ''P''
          then let (ng, t) = take_sign s'; v = int (digits_val (takeWhile is_digit t)) in if ng then - v else v
          else 0)"

definition c_strtod :: "string \<Rightarrow> double" where
  "c_strtod s =
     (let (ng, t) = take_sign (dropWhile c_space s)
      in if begins_ci ''inf'' t then fneg_if ng PInf
         else if begins_ci ''nan'' t then NaN
         else let (h1, h2, hr) = dot_split is_xdigit (drop 2 t)
              in if begins_ci ''0x'' t \<and> h1 @ h2 \<noteq> []
                 then fneg_if ng (fround RNear (real (hex_digits_val (h1 @ h2)) * 2 powi (bin_exp hr - 4 * int (length h2))))
                 else let (d1, d2, r) = dot_split is_digit t
                      in if d1 @ d2 = [] then Fin 0
                         else fneg_if ng (fround RNear (real (digits_val (d1 @ d2)) * 10 powi (take_exp r - int (length d2)))))"

section \<open>Parts\<close>

definition xml_root :: "string \<Rightarrow> xml option" where
  "xml_root s = (case parse_xml s of Some r \<Rightarrow> r | None \<Rightarrow> None)"

definition kid_text :: "xml \<Rightarrow> string \<Rightarrow> string" where
  "kid_text x t = (case x_first x t of Some k \<Rightarrow> x_text k | None \<Rightarrow> [])"

definition shared_strings :: "archive \<Rightarrow> string list" where
  "shared_strings z =
     (let s = zip_text z ''xl/sharedStrings.xml''
      in if s = [] then []
         else case xml_root s of
                None \<Rightarrow> []
              | Some r \<Rightarrow> map (\<lambda>si. kid_text si ''t'' @ concat (map (\<lambda>r. kid_text r ''t'') (x_all si ''r''))) (x_all r ''si''))"

definition rel_target :: "string \<Rightarrow> string" where
  "rel_target t = (if t \<noteq> [] \<and> hd t \<noteq> CHR ''/'' \<and> take 3 t \<noteq> ''xl/'' then ''xl/'' @ t else t)"

definition rels :: "archive \<Rightarrow> (string, string) omap" where
  "rels z =
     (case xml_root (zip_text z ''xl/_rels/workbook.xml.rels'') of
        None \<Rightarrow> []
      | Some r \<Rightarrow> foldl (\<lambda>m x. mput (x_attr x ''Id'' []) (rel_target (x_attr x ''Target'' [])) m) [] (x_all r ''Relationship''))"

section \<open>Cells\<close>

text \<open>A shared string, an inline string, a formula's string or a number.\<close>

definition read_cell :: "string list \<Rightarrow> xml \<Rightarrow> cell" where
  "read_cell sst c =
     (let typ = x_attr c ''t'' ''n'';
          fx = (case x_first c ''f'' of Some f \<Rightarrow> if x_text f \<noteq> [] then CHR ''='' # x_text f else [] | None \<Rightarrow> []);
          ce = cell_default\<lparr>cell_formula := fx\<rparr>
      in if typ = ''s'' then
           (case x_first c ''v'' of
              None \<Rightarrow> ce
            | Some v \<Rightarrow>
                let i = c_atoi (x_text v)
                in if 0 \<le> i \<and> i < int (length sst) then ce\<lparr>cell_text := sst ! nat i, has_value := True\<rparr> else ce)
         else if typ = ''inlineStr'' then
           (case x_first c ''is'' of
              None \<Rightarrow> ce
            | Some k \<Rightarrow> (case x_first k ''t'' of Some t \<Rightarrow> ce\<lparr>cell_text := x_text t, has_value := True\<rparr> | None \<Rightarrow> ce))
         else if typ = ''str'' then
           (case x_first c ''v'' of Some v \<Rightarrow> ce\<lparr>cell_text := x_text v, has_value := True\<rparr> | None \<Rightarrow> ce)
         else (case x_first c ''v'' of Some v \<Rightarrow> ce\<lparr>cell_value := c_strtod (x_text v), has_value := True\<rparr> | None \<Rightarrow> ce))"

definition put_cell :: "string list \<Rightarrow> sheet option \<Rightarrow> xml \<Rightarrow> sheet option" where
  "put_cell sst osh c =
     (case osh of
        None \<Rightarrow> None
      | Some sh \<Rightarrow>
          (case parse_a1 (x_attr c ''r'' []) of
             None \<Rightarrow> None
           | Some p \<Rightarrow>
               Some (case a1_pos p of
                       Some (r, k) \<Rightarrow> if a1_ok p then sheet_set r k (read_cell sst c) sh else sh
                     | None \<Rightarrow> sh)))"

definition parse_sheet :: "string list \<Rightarrow> string \<Rightarrow> sheet \<Rightarrow> sheet option" where
  "parse_sheet sst s sh =
     (case xml_root s of
        None \<Rightarrow> Some sh
      | Some r \<Rightarrow>
          (case x_first r ''sheetData'' of
             None \<Rightarrow> Some sh
           | Some d \<Rightarrow> foldl (put_cell sst) (Some sh) (concat (map (\<lambda>row. x_all row ''c'') (x_all d ''row'')))))"

section \<open>Names\<close>

text \<open>The sheet and the cell part of a reference, split at the last exclamation mark.\<close>

definition bang_split :: "string \<Rightarrow> string \<times> string" where
  "bang_split b =
     (if CHR ''!'' \<in> set b
      then let c = rev (takeWhile (\<lambda>x. x \<noteq> CHR ''!'') (rev b)); s = take (length b - length c - 1) b
           in (if s \<noteq> [] \<and> hd s = CHR 39 \<and> last s = CHR 39 then take (length s - 2) (tl s) else s, c)
      else ([], b))"

definition put_pos :: "a1_parse \<Rightarrow> cell_ref \<Rightarrow> cell_ref" where
  "put_pos p r = (case a1_pos p of Some (a, b) \<Rightarrow> r\<lparr>r_row := a, r_col := b\<rparr> | None \<Rightarrow> r)"

definition read_name :: "workbook \<Rightarrow> xml \<Rightarrow> wb_name option" where
  "read_name wb d =
     (let (shn, part) = bang_split (x_text d); si = sheet_index wb shn;
          nm = \<lparr>wn_id = x_attr d ''name'' [], wn_target = ref_default, wn_sheet = si, wn_is_range = False, wn_end = ref_default\<rparr>
      in if CHR '':'' \<in> set part then
           let p1 = takeWhile (\<lambda>c. c \<noteq> CHR '':'') part; p2 = drop (length p1 + 1) part
           in (case (parse_a1 p1, parse_a1 p2) of
                 (Some a, Some b) \<Rightarrow>
                   Some (nm\<lparr>wn_is_range := True, wn_target := (put_pos a ref_default)\<lparr>r_sheet := si\<rparr>,
                     wn_end := (if a1_ok b then put_pos b ref_default else ref_default)\<rparr>)
               | _ \<Rightarrow> None)
         else (case parse_a1 part of
                 Some a \<Rightarrow> Some (nm\<lparr>wn_target := (put_pos a ref_default)\<lparr>r_sheet := si\<rparr>\<rparr>)
               | None \<Rightarrow> None))"

definition put_name :: "workbook option \<Rightarrow> xml \<Rightarrow> workbook option" where
  "put_name owb d =
     (case owb of
        None \<Rightarrow> None
      | Some wb \<Rightarrow>
          (case read_name wb d of
             None \<Rightarrow> None
           | Some nm \<Rightarrow> Some (if wn_id nm \<noteq> [] then wb\<lparr>wb_names := mput (wn_id nm) nm (wb_names wb)\<rparr> else wb)))"

definition parse_names :: "xml \<Rightarrow> workbook \<Rightarrow> workbook option" where
  "parse_names root' wb =
     (case x_first root' ''definedNames'' of
        None \<Rightarrow> Some wb
      | Some dn \<Rightarrow> foldl put_name (Some wb) (x_all dn ''definedName''))"

section \<open>The workbook\<close>

record load_result =
  lr_wb :: workbook
  lr_ok :: bool
  lr_fmt :: string
  lr_err :: string

definition load_none :: load_result where
  "load_none = \<lparr>lr_wb = \<lparr>wb_sheets = [], wb_names = []\<rparr>, lr_ok = False, lr_fmt = [], lr_err = []\<rparr>"

definition sheet_part :: "archive \<Rightarrow> (string, string) omap \<Rightarrow> nat \<Rightarrow> string \<Rightarrow> string" where
  "sheet_part z rmap i rid =
     (let def = ''xl/worksheets/sheet'' @ show_nat (i + 1) @ ''.xml'';
          s = zip_text z (case mget rmap rid of Some p \<Rightarrow> p | None \<Rightarrow> def)
      in if s = [] then zip_text z def else s)"

text \<open>The sheets in their order; a second sheet of the same name has no place in the list.\<close>

definition load_sheet :: "archive \<Rightarrow> (string, string) omap \<Rightarrow> string list \<Rightarrow> workbook option \<Rightarrow> nat \<times> string \<Rightarrow> workbook option" where
  "load_sheet z rmap sst owb k =
     (case owb of
        None \<Rightarrow> None
      | Some wb \<Rightarrow>
          if length (wb_sheets wb) \<le> fst k then None
          else (case parse_sheet sst (sheet_part z rmap (fst k) (snd k)) (wb_sheets wb ! fst k) of
                  None \<Rightarrow> None
                | Some sh \<Rightarrow> Some (wb\<lparr>wb_sheets := (wb_sheets wb)[fst k := sh]\<rparr>)))"

definition load_xlsx :: "archive \<Rightarrow> load_result option" where
  "load_xlsx z =
     (if \<not> z_ok z then Some (load_none\<lparr>lr_err := ''bad zip''\<rparr>)
      else let fmt = (if split_at ''ms-excel.sheet.macroEnabled'' (zip_text z ''[Content_Types].xml'') \<noteq> None then ''xlsm'' else ''xlsx'')
           in case xml_root (zip_text z ''xl/workbook.xml'') of
                None \<Rightarrow> Some (load_none\<lparr>lr_fmt := fmt, lr_err := ''no workbook.xml''\<rparr>)
              | Some r \<Rightarrow>
                  let ss = (case x_first r ''sheets'' of Some s \<Rightarrow> x_all s ''sheet'' | None \<Rightarrow> []);
                      wb0 = foldl (\<lambda>wb s. snd (wb_sheet (x_attr s ''name'' []) wb)) (lr_wb load_none) ss
                  in case foldl (load_sheet z (rels z) (shared_strings z)) (Some wb0) (enumerate 0 (map (\<lambda>s. x_attr s ''id'' []) ss)) of
                       None \<Rightarrow> None
                     | Some wb1 \<Rightarrow>
                         (case parse_names r wb1 of
                            None \<Rightarrow> None
                          | Some wb \<Rightarrow> Some \<lparr>lr_wb = wb, lr_ok = True, lr_fmt = fmt, lr_err = []\<rparr>))"

definition load_xlsx_file :: "(string \<Rightarrow> byte list option) \<Rightarrow> nat \<Rightarrow> string \<Rightarrow> load_result option" where
  "load_xlsx_file fs f path = (case read_zip_file fs f path of ZOk z \<Rightarrow> load_xlsx z | _ \<Rightarrow> None)"

section \<open>A sheet is read as it was written\<close>

text \<open>A cell as a spreadsheet program writes it: a formula if it has one, and its value.\<close>

datatype src_value = NoValue | Shared nat | Inline string | FormulaText string | Numeral string

record src_cell =
  sx_row :: int
  sx_col :: int
  sx_formula :: string
  sx_value :: src_value

fun value_type :: "src_value \<Rightarrow> string" where
  "value_type (Shared _) = ''s''"
| "value_type (Inline _) = ''inlineStr''"
| "value_type (FormulaText _) = ''str''"
| "value_type _ = ''n''"

fun value_kids :: "src_value \<Rightarrow> xml list" where
  "value_kids NoValue = []"
| "value_kids (Shared i) = [Xml ''v'' [] (show_nat i) []]"
| "value_kids (Inline t) = [Xml ''is'' [] [] [Xml ''t'' [] t []]]"
| "value_kids (FormulaText t) = [Xml ''v'' [] t []]"
| "value_kids (Numeral t) = [Xml ''v'' [] t []]"

definition cell_xml :: "src_cell \<Rightarrow> xml" where
  "cell_xml c =
     Xml ''c'' [(''r'', a1 (sx_row c) (sx_col c)), (''t'', value_type (sx_value c))] []
       ((if sx_formula c = [] then [] else [Xml ''f'' [] (sx_formula c) []]) @ value_kids (sx_value c))"

definition sheet_xml :: "src_cell list list \<Rightarrow> xml" where
  "sheet_xml rs = Xml ''worksheet'' [] [] [Xml ''sheetData'' [] [] (map (\<lambda>cs. Xml ''row'' [] [] (map cell_xml cs)) rs)]"

text \<open>The cell of the workbook it stands for.\<close>

definition cell_meant :: "string list \<Rightarrow> src_cell \<Rightarrow> cell" where
  "cell_meant sst c =
     (let ce = cell_default\<lparr>cell_formula := (if sx_formula c = [] then [] else CHR ''='' # sx_formula c)\<rparr>
      in case sx_value c of
           NoValue \<Rightarrow> ce
         | Shared i \<Rightarrow> if i < length sst then ce\<lparr>cell_text := sst ! i, has_value := True\<rparr> else ce
         | Inline t \<Rightarrow> ce\<lparr>cell_text := t, has_value := True\<rparr>
         | FormulaText t \<Rightarrow> ce\<lparr>cell_text := t, has_value := True\<rparr>
         | Numeral t \<Rightarrow> ce\<lparr>cell_value := c_strtod t, has_value := True\<rparr>)"

definition src_ok :: "src_cell \<Rightarrow> bool" where
  "src_ok c \<longleftrightarrow> 0 \<le> sx_row c \<and> sx_row c < int_max \<and> 0 \<le> sx_col c \<and> sx_col c < int_max
     \<and> (case sx_value c of Shared i \<Rightarrow> i < 2 ^ 31 | _ \<Rightarrow> True)"

lemma hex_val_digit: "is_digit c \<Longrightarrow> hex_val c = Some (char_digit c)"
  by (simp add: hex_val_def is_digit_def char_digit_def Let_def)

lemma char_digit_less: "is_digit c \<Longrightarrow> char_digit c < 10"
  by (auto simp: is_digit_def char_digit_def)

lemma digits_in_ten: "list_all is_digit s \<Longrightarrow> digits_in 10 acc s = acc * 10 ^ length s + digits_val s"
proof (induction s arbitrary: acc)
  case (Cons c s)
  then have "digits_in 10 acc (c # s) = digits_in 10 (acc * 10 + char_digit c) s" by (simp add: hex_val_digit char_digit_less)
  also have "\<dots> = acc * 10 ^ length (c # s) + digits_val (c # s)"
    using Cons digits_val_append[of "[c]" s] by (simp add: digits_val_def algebra_simps)
  finally show ?case .
qed (simp add: digits_val_def)

lemma strtol_ten:
  "\<not> c_space c \<Longrightarrow> c \<noteq> CHR ''-'' \<Longrightarrow> c \<noteq> CHR ''+'' \<Longrightarrow> strtol 10 (c # s) = min (int (digits_in 10 0 (c # s))) (2 ^ 63 - 1)"
  by (simp add: strtol_def Let_def del: digits_in.simps split: list.splits)

lemma atoi_show: "n < 2 ^ 31 \<Longrightarrow> c_atoi (show_nat n) = int n"
proof -
  assume n: "n < 2 ^ 31"
  obtain c s where cs: "show_nat n = c # s" using show_nat_nonempty[of n] by (cases "show_nat n") auto
  have d: "is_digit c" "list_all is_digit (show_nat n)" using show_nat_digits[of n] by (simp_all add: cs)
  have "\<not> c_space c" "c \<noteq> CHR ''-''" "c \<noteq> CHR ''+''" using d(1) by (auto simp: c_space_def is_digit_def)
  then have "strtol 10 (show_nat n) = min (int n) (2 ^ 63 - 1)"
    using digits_in_ten[OF d(2), of 0] strtol_ten[of c s] by (simp add: cs[symmetric] del: digits_in.simps)
  then show ?thesis using n by (simp add: c_atoi_def cast_int_def)
qed

lemma tag_names [simp]:
  "local_name ''c'' = ''c''" "local_name ''f'' = ''f''" "local_name ''v'' = ''v''" "local_name ''is'' = ''is''" "local_name ''t'' = ''t''"
  "local_name ''row'' = ''row''" "local_name ''sheetData'' = ''sheetData''"
  by (simp_all add: local_name_def at_start_def)

lemma read_cell_xml: "src_ok c \<Longrightarrow> read_cell sst (cell_xml c) = cell_meant sst c"
  by (cases "sx_value c")
    (auto simp: read_cell_def cell_xml_def cell_meant_def Let_def x_attr_def x_first_def atoi_show src_ok_def)

lemma cell_xml_wf: "xml_wf (cell_xml c)"
  by (cases "sx_value c")
    (auto simp: cell_xml_def name_ok_def key_char_def tag_char_def xws_def mwf_def)

lemma sheet_xml_wf: "xml_wf (sheet_xml rs)"
  by (auto simp: sheet_xml_def list_all_iff cell_xml_wf tag_char_def xws_def mwf_def)

lemma put_cells:
  "list_all src_ok cs \<Longrightarrow>
     foldl (put_cell sst) (Some sh) (map cell_xml cs) = Some (foldl (\<lambda>sh c. sheet_set (sx_row c) (sx_col c) (cell_meant sst c) sh) sh cs)"
proof (induction cs arbitrary: sh)
  case (Cons c cs)
  have "x_attr (cell_xml c) ''r'' [] = a1 (sx_row c) (sx_col c)" by (simp add: cell_xml_def x_attr_def)
  then have "put_cell sst (Some sh) (cell_xml c) = Some (sheet_set (sx_row c) (sx_col c) (cell_meant sst c) sh)"
    using Cons.prems parse_a1_a1[of "sx_row c" "sx_col c"] by (simp add: put_cell_def read_cell_xml src_ok_def)
  then show ?case using Cons by simp
qed simp

text \<open>C24. A sheet is read as it was written: every cell of every row, with its formula, its shared, inline or formula
  text, or its number, is at its row and column in the sheet, the later of two at the same place winning.\<close>

theorem sheet_round_trip:
  assumes "\<forall>cs c. cs \<in> set rs \<longrightarrow> c \<in> set cs \<longrightarrow> src_ok c"
  shows "parse_sheet sst (xml_str (sheet_xml rs)) sh
     = Some (foldl (\<lambda>sh c. sheet_set (sx_row c) (sx_col c) (cell_meant sst c) sh) sh (concat rs))"
proof -
  have r: "xml_root (xml_str (sheet_xml rs)) = Some (sheet_xml rs)" using parse_xml_str[OF sheet_xml_wf, of rs "[]"] by (simp add: xml_root_def)
  have c: "filter (\<lambda>k. local_name (x_tag k) = ''c'') (map cell_xml cs) = map cell_xml cs" for cs
    by (simp add: filter_id_conv cell_xml_def)
  have w: "filter (\<lambda>k. local_name (x_tag k) = ''row'') (map (\<lambda>cs. Xml ''row'' [] [] (map cell_xml cs)) rs) = map (\<lambda>cs. Xml ''row'' [] [] (map cell_xml cs)) rs"
    by (simp add: filter_id_conv)
  have "concat (map (\<lambda>row. x_all row ''c'') (map (\<lambda>cs. Xml ''row'' [] [] (map cell_xml cs)) rs)) = map cell_xml (concat rs)"
    by (simp add: x_all_def c map_concat comp_def)
  moreover have "list_all src_ok (concat rs)" using assms by (auto simp: list_all_iff)
  ultimately show ?thesis unfolding parse_sheet_def r
    by (simp add: sheet_xml_def x_first_def x_all_def w put_cells)
qed

lemma sheet_round_trip_witness:
  "map_option (\<lambda>sh. sheet_at sh 2 1) (parse_sheet [''load''] (xml_str (sheet_xml [[\<lparr>sx_row = 2, sx_col = 1, sx_formula = ''A1*2'', sx_value = Shared 0\<rparr>]]))
     \<lparr>sh_name = ''S'', sh_cells = []\<rparr>)
   = Some (Some (cell_default\<lparr>cell_formula := ''=A1*2'', cell_text := ''load'', has_value := True\<rparr>))"
proof -
  have "\<forall>cs c. cs \<in> set [[\<lparr>sx_row = 2, sx_col = 1, sx_formula = ''A1*2'', sx_value = Shared 0\<rparr>]] \<longrightarrow> c \<in> set cs \<longrightarrow> src_ok c"
    by (simp add: src_ok_def int_max_def)
  from sheet_round_trip[OF this, of "[''load'']" "\<lparr>sh_name = ''S'', sh_cells = []\<rparr>"]
  show ?thesis by (simp add: sheet_set_def sheet_at_def cell_meant_def)
qed

end
