(* ===== verification/Fve_Xlsb.thy ===== *)
theory Fve_Xlsb
  imports Fve_Xlsx Fve_Files
begin

text \<open>
  The binary workbook format (\<open>extractor/xlsb\<close>): the records of a part, read at once or as the bytes arrive, the
  tokens of a formula, the cells and the sheets. \<open>ZUB\<close> is a read outside of a buffer. The sign and the payload of
  a NaN are not kept.
\<close>

section \<open>Numbers in a buffer\<close>

fun le_num :: "byte list \<Rightarrow> nat" where
  "le_num [] = 0"
| "le_num (b # bs) = unat b + 256 * le_num bs"

definition num16 :: "byte list \<Rightarrow> nat" where
  "num16 p = le_num (take 2 p)"

definition num32 :: "byte list \<Rightarrow> nat" where
  "num32 p = le_num (take 4 p)"

definition read_double :: "nat \<Rightarrow> double" where
  "read_double n = (if 0x7FF0000000000000 < n mod 2 ^ 63 then NaN else bits_double n)"

definition num_dbl :: "byte list \<Rightarrow> double" where
  "num_dbl p = read_double (le_num (take 8 p))"

text \<open>Characters of two bytes; those outside of ASCII become question marks. Also the bytes used.\<close>

fun wide_chars :: "nat \<Rightarrow> byte list \<Rightarrow> string" where
  "wide_chars (Suc k) (a # b # p) =
     (let ch = unat a + 256 * unat b in (if ch < 128 then char_of ch else CHR ''?'') # wide_chars k p)"
| "wide_chars _ _ = []"

definition wide_str :: "byte list \<Rightarrow> string \<times> nat" where
  "wide_str p =
     (if length p < 4 then ([], length p)
      else let s = wide_chars (num32 p) (drop 4 p) in (s, 4 + 2 * length s))"

text \<open>A number packed into 30 bits: an integer or the upper bits of a double, perhaps times 100.\<close>

definition rk_num :: "nat \<Rightarrow> double" where
  "rk_num v =
     (let d = (if v div 2 mod 2 = 1 then fround RNear (of_int (cast_int (int v) div 4)) else read_double (v div 4 * 4 * 2 ^ 32))
      in if v mod 2 = 1 then fdiv RNear d (Fin 100) else d)"

section \<open>Records\<close>

record xrec =
  xr_id :: nat
  xr_data :: "byte list"

text \<open>The identifier, in one or two bytes.\<close>

definition take_id :: "byte list \<Rightarrow> (nat \<times> byte list) option" where
  "take_id p =
     (case p of [] \<Rightarrow> None
      | b # r \<Rightarrow> if unat b < 128 then Some (unat b, r)
                else (case r of [] \<Rightarrow> None | c # r' \<Rightarrow> Some (unat b mod 128 + 128 * unat c, r')))"

text \<open>The size, in up to four bytes of seven bits; a truncated size counts with what there is.\<close>

fun take_size :: "nat \<Rightarrow> nat \<Rightarrow> byte list \<Rightarrow> nat \<times> byte list" where
  "take_size (Suc k) sh (b # r) =
     (let v = (unat b mod 128) * 2 ^ sh
      in if unat b < 128 then (v, r) else (let (n, r') = take_size k (sh + 7) r in (v + n, r')))"
| "take_size _ sh r = (0, r)"

lemma take_id_shorter: "take_id p = Some (i, r) \<Longrightarrow> length r < length p"
  by (auto simp: take_id_def split: list.splits if_splits)

lemma take_size_length: "length (snd (take_size k sh p)) \<le> length p"
proof (induction k sh p rule: take_size.induct)
  case (1 k sh b r)
  show ?case
  proof (cases "unat b < 128")
    case False
    from "1.IH"[OF refl False] show ?thesis using False by (simp add: Let_def split: prod.split) (metis le_SucI snd_conv)
  qed (simp add: Let_def)
qed auto

function read_records :: "byte list \<Rightarrow> xrec list" where
  "read_records p =
     (case take_id p of None \<Rightarrow> []
      | Some (i, r) \<Rightarrow>
          (let (n, d) = take_size 4 0 r
           in if length d < n then [] else \<lparr>xr_id = i, xr_data = take n d\<rparr> # read_records (drop n d)))"
  by pat_completeness auto
termination
proof (relation "measure length", goal_cases)
  case (2 p a i r b n d)
  have "length r < length p" using 2 take_id_shorter[of p i r] by auto
  moreover have "length d \<le> length r" using 2 take_size_length[of 4 0 r] by (metis snd_conv)
  ultimately show ?case by simp
qed simp

declare read_records.simps [simp del]

section \<open>Records from a stream\<close>

text \<open>A size whose fourth byte announces a fifth is never complete.\<close>

fun take_size_ok :: "nat \<Rightarrow> nat \<Rightarrow> byte list \<Rightarrow> (nat \<times> byte list) option" where
  "take_size_ok (Suc k) sh (b # r) =
     (let v = (unat b mod 128) * 2 ^ sh
      in if unat b < 128 then Some (v, r) else map_option (\<lambda>(n, r'). (v + n, r')) (take_size_ok k (sh + 7) r))"
| "take_size_ok _ sh r = None"

lemma take_size_ok_eq: "take_size_ok k sh p = Some x \<Longrightarrow> take_size k sh p = x"
  by (induction k sh p arbitrary: x rule: take_size.induct) (auto simp: Let_def split: if_splits)

lemma take_size_ok_length: "take_size_ok k sh p = Some (n, r) \<Longrightarrow> length r \<le> length p"
  using take_size_ok_eq take_size_length[of k sh p] by fastforce

text \<open>The complete records at the front of the buffer, and the rest that waits for more bytes.\<close>

function asm_parse :: "byte list \<Rightarrow> xrec list \<times> byte list" where
  "asm_parse p =
     (case take_id p of None \<Rightarrow> ([], p)
      | Some (i, r) \<Rightarrow>
          (case take_size_ok 4 0 r of None \<Rightarrow> ([], p)
           | Some (n, d) \<Rightarrow>
               if length d < n then ([], p)
               else (let (rs, q) = asm_parse (drop n d) in (\<lparr>xr_id = i, xr_data = take n d\<rparr> # rs, q))))"
  by pat_completeness auto
termination
proof (relation "measure length", goal_cases)
  case (2 p a i r b n d)
  have "length r < length p" using 2 take_id_shorter[of p i r] by auto
  moreover have "length d \<le> length r" using 2 take_size_ok_length[of 4 0 r n d] by (cases b) auto
  ultimately show ?case by simp
qed simp

declare asm_parse.simps [simp del]

definition asm_feed :: "byte list \<Rightarrow> xrec list \<times> byte list \<Rightarrow> xrec list \<times> byte list" where
  "asm_feed p st = (let (rs, q) = asm_parse (snd st @ p) in (fst st @ rs, q))"

definition stream_records :: "byte list list \<Rightarrow> xrec list" where
  "stream_records chunks = fst (fold asm_feed chunks ([], []))"

section \<open>The tokens of a formula\<close>

definition fn_name :: "nat \<Rightarrow> string option" where
  "fn_name ift =
     (if ift = 0 then Some ''COUNT'' else if ift = 4 then Some ''SUM'' else if ift = 5 then Some ''AVERAGE''
      else if ift = 6 then Some ''MIN'' else if ift = 7 then Some ''MAX'' else if ift = 24 then Some ''ABS''
      else if ift = 19 then Some ''PI'' else if ift = 36 then Some ''AND'' else if ift = 37 then Some ''OR''
      else if ift = 38 then Some ''NOT'' else if ift = 1 then Some ''IF'' else None)"

definition bin_text :: "nat \<Rightarrow> string option" where
  "bin_text t =
     (if t = 0x03 then Some ''+'' else if t = 0x04 then Some ''-'' else if t = 0x05 then Some ''*''
      else if t = 0x06 then Some ''/'' else if t = 0x07 then Some ''^'' else None)"

definition tok_ref :: "byte list \<Rightarrow> byte list \<Rightarrow> string" where
  "tok_ref rows cols = a1 (cast_int (int (num32 rows))) (int (num16 cols mod 0x4000))"

text \<open>One token: the stack, its top first, and the bytes of the token after the first. \<open>None\<close> is a failure.\<close>

definition rpn_step :: "nat \<Rightarrow> byte list \<Rightarrow> string list \<Rightarrow> (string list \<times> byte list) option" where
  "rpn_step t p st =
     (if t = 0x1E then if length p < 2 then None else Some (show_nat (num16 p) # st, drop 2 p)
      else if t = 0x1F then if length p < 8 then None else Some (take 31 (fmt_g 6 (num_dbl p)) # st, drop 8 p)
      else case bin_text t of
             Some o' \<Rightarrow> (case st of b # a # st' \<Rightarrow> Some ((''('' @ a @ o' @ b @ '')'') # st', p) | _ \<Rightarrow> None)
           | None \<Rightarrow>
               if t = 0x12 \<or> t = 0x15 then Some (st, p)
               else if t = 0x13 then Some (case st of [] \<Rightarrow> [] | a # st' \<Rightarrow> (''-'' @ a) # st', p)
               else if t \<in> {0x24, 0x44, 0x64} then
                 if length p < 6 then None else Some (tok_ref p (drop 4 p) # st, drop 6 p)
               else if t \<in> {0x25, 0x45, 0x65} then
                 if length p < 12 then None
                 else Some ((tok_ref p (drop 8 p) @ '':'' @ tok_ref (drop 4 p) (drop 10 p)) # st, drop 12 p)
               else if t \<in> {0x21, 0x41, 0x61} then
                 if length p < 2 then None
                 else (case fn_name (num16 p) of None \<Rightarrow> None
                       | Some f \<Rightarrow> Some ((f @ ''('' @ (case st of [] \<Rightarrow> [] | a # _ \<Rightarrow> a) @ '')'') # st, drop 2 p))
               else if t \<in> {0x22, 0x42, 0x62} then
                 if length p < 3 then None
                 else (case fn_name (num16 (drop 1 p)) of None \<Rightarrow> None
                       | Some f \<Rightarrow>
                           (let cp = unat (hd p)
                            in if length st < cp then None
                               else Some ((f @ ''('' @ join (CHR '','') (rev (take cp st)) @ '')'') # drop cp st, drop 3 p)))
               else None)"

lemma rpn_step_shorter: "rpn_step t p st = Some (st', r) \<Longrightarrow> length r \<le> length p"
  by (auto simp: rpn_step_def Let_def split: if_splits option.splits list.splits)

function rpn :: "byte list \<Rightarrow> string list \<Rightarrow> string list option" where
  "rpn [] st = Some st"
| "rpn (t # p) st = (case rpn_step (unat t mod 128) p st of None \<Rightarrow> None | Some (st', r) \<Rightarrow> rpn r st')"
  by pat_completeness auto
termination by (relation "measure (\<lambda>(p, st). length p)") (auto dest: rpn_step_shorter)

definition decode_rpn :: "byte list \<Rightarrow> string option" where
  "decode_rpn p = (case rpn p [] of Some [s] \<Rightarrow> Some s | _ \<Rightarrow> None)"

section \<open>Parts\<close>

definition sst_bin :: "archive \<Rightarrow> string list" where
  "sst_bin z =
     (case zip_bytes z ''xl/sharedStrings.bin'' of None \<Rightarrow> []
      | Some b \<Rightarrow> map (\<lambda>r. fst (wide_str (drop 1 (xr_data r))))
                    (filter (\<lambda>r. xr_id r = 0x13 \<and> 5 \<le> length (xr_data r)) (read_records b)))"

definition sheet_names :: "archive \<Rightarrow> string list" where
  "sheet_names z =
     (case zip_bytes z ''xl/workbook.bin'' of None \<Rightarrow> []
      | Some b \<Rightarrow> map (\<lambda>r. let p = drop 8 (xr_data r) in fst (wide_str (drop (snd (wide_str p)) p)))
                    (filter (\<lambda>r. xr_id r = 0x9C \<and> 12 \<le> length (xr_data r)) (read_records b)))"

text \<open>The formula of a numeric result: its length is checked in 32 bits.\<close>

definition fmla_text :: "byte list \<Rightarrow> string zres" where
  "fmla_text v =
     (if length v < 14 then ZOk []
      else let cce = num32 (drop 10 v)
           in if length v < (14 + cce) mod 2 ^ 32 then ZOk []
              else if length v < 14 + cce then ZUB
              else ZOk (case decode_rpn (take cce (drop 14 v)) of Some f \<Rightarrow> if f = [] then [] else CHR ''='' # f | None \<Rightarrow> []))"

text \<open>\<open>None\<close> is a record that sets no cell.\<close>

definition bin_cell :: "string list \<Rightarrow> nat \<Rightarrow> byte list \<Rightarrow> cell option zres" where
  "bin_cell sst i v =
     (let num = (\<lambda>d. cell_default\<lparr>cell_value := d, has_value := True\<rparr>); txt' = (\<lambda>s. cell_default\<lparr>cell_text := s, has_value := True\<rparr>)
      in if i = 0x05 \<and> 8 \<le> length v then ZOk (Some (num (num_dbl v)))
         else if i = 0x02 \<and> 4 \<le> length v then ZOk (Some (num (rk_num (num32 v))))
         else if i = 0x07 \<and> 4 \<le> length v then
           ZOk (Some (if num32 v < length sst then txt' (sst ! num32 v) else cell_default))
         else if i = 0x06 \<and> 4 \<le> length v then ZOk (Some (txt' (fst (wide_str v))))
         else if i = 0x04 \<and> 1 \<le> length v then ZOk (Some (num (Fin (if unat (hd v) \<noteq> 0 then 1 else 0))))
         else if i = 0x09 \<and> 8 \<le> length v then
           zbind (fmla_text v) (\<lambda>f. ZOk (Some ((num (num_dbl v))\<lparr>cell_formula := f\<rparr>)))
         else ZOk None)"

definition put_rec :: "string list \<Rightarrow> xrec \<Rightarrow> int \<times> sheet \<Rightarrow> (int \<times> sheet) zres" where
  "put_rec sst r st =
     (let d = xr_data r
      in if xr_id r = 0x00 \<and> 4 \<le> length d then ZOk (cast_int (int (num32 d)), snd st)
         else if 8 \<le> length d then
           zbind (bin_cell sst (xr_id r) (drop 8 d)) (\<lambda>oc. ZOk (case oc of None \<Rightarrow> st
             | Some c \<Rightarrow> (fst st, sheet_set (fst st) (cast_int (int (num32 d))) c (snd st))))
         else ZOk st)"

fun put_recs :: "string list \<Rightarrow> xrec list \<Rightarrow> int \<times> sheet \<Rightarrow> (int \<times> sheet) zres" where
  "put_recs sst [] st = ZOk st"
| "put_recs sst (r # rs) st = zbind (put_rec sst r st) (put_recs sst rs)"

definition parse_sheet_bin :: "string list \<Rightarrow> byte list \<Rightarrow> sheet \<Rightarrow> sheet zres" where
  "parse_sheet_bin sst b sh = zbind (put_recs sst (read_records b) (0, sh)) (\<lambda>st. ZOk (snd st))"

section \<open>The workbook\<close>

definition bin_part :: "nat \<Rightarrow> string" where
  "bin_part i = ''xl/worksheets/sheet'' @ show_nat (i + 1) @ ''.bin''"

definition is_sheet_part :: "string \<Rightarrow> bool" where
  "is_sheet_part nm = (take 19 nm = ''xl/worksheets/sheet'' \<and> drop (length nm - 4) nm = ''.bin'')"

definition bin_names :: "archive \<Rightarrow> string list" where
  "bin_names z =
     (let ns = sheet_names z
      in if ns \<noteq> [] then ns
         else map (\<lambda>k. ''Sheet'' @ show_nat (k + 1)) [0..<length (filter is_sheet_part (zip_list z))])"

definition bin_sheet :: "archive \<Rightarrow> string list \<Rightarrow> nat \<times> string \<Rightarrow> workbook zres \<Rightarrow> workbook zres" where
  "bin_sheet z sst k rwb =
     zbind rwb (\<lambda>wb. let (i, wb1) = wb_sheet (snd k) wb
       in case zip_bytes z (bin_part (fst k)) of
            None \<Rightarrow> ZOk wb1
          | Some b \<Rightarrow> zbind (parse_sheet_bin sst b (wb_sheets wb1 ! i)) (\<lambda>sh. ZOk (wb1\<lparr>wb_sheets := (wb_sheets wb1)[i := sh]\<rparr>)))"

definition load_xlsb :: "archive \<Rightarrow> load_result zres" where
  "load_xlsb z =
     (if \<not> z_ok z then ZOk (load_none\<lparr>lr_err := ''bad zip''\<rparr>)
      else zbind (fold (bin_sheet z (sst_bin z)) (enumerate 0 (bin_names z)) (ZOk (lr_wb load_none))) (\<lambda>wb.
        ZOk \<lparr>lr_wb = wb, lr_ok = True, lr_fmt = ''xlsb'', lr_err = []\<rparr>))"

definition load_xlsb_file :: "(string \<Rightarrow> byte list option) \<Rightarrow> nat \<Rightarrow> string \<Rightarrow> load_result option" where
  "load_xlsb_file fs f path = (case zbind (read_zip_file fs f path) load_xlsb of ZOk r \<Rightarrow> Some r | _ \<Rightarrow> None)"

section \<open>Statistics of a large workbook\<close>

record xlsb_stats =
  xs_records :: nat
  xs_cells :: nat
  xs_rows :: nat
  xs_max_row :: int
  xs_max_col :: int
  xs_bytes :: nat
  xs_sheets :: nat

definition stats_zero :: xlsb_stats where
  "stats_zero = \<lparr>xs_records = 0, xs_cells = 0, xs_rows = 0, xs_max_row = - 1, xs_max_col = - 1, xs_bytes = 0, xs_sheets = 0\<rparr>"

definition count_rec :: "xrec \<Rightarrow> xlsb_stats \<Rightarrow> xlsb_stats" where
  "count_rec r s0 =
     (let s = s0\<lparr>xs_records := xs_records s0 + 1\<rparr>; d = xr_data r; v = int (num32 d)
      in if xr_id r = 0x00 \<and> 4 \<le> length d then s\<lparr>xs_rows := xs_rows s + 1, xs_max_row := max (xs_max_row s) v\<rparr>
         else if 0x01 \<le> xr_id r \<and> xr_id r \<le> 0x0B
         then s\<lparr>xs_cells := xs_cells s + 1, xs_max_col := (if 4 \<le> length d then max (xs_max_col s) v else xs_max_col s)\<rparr>
         else s)"

definition stat_part :: "string \<Rightarrow> bool" where
  "stat_part nm = (take 19 nm = ''xl/worksheets/sheet'' \<and> occurs ''.bin'' nm \<and> \<not> occurs ''binaryIndex'' nm)"

definition count_part :: "(string \<Rightarrow> byte list option) \<Rightarrow> nat \<Rightarrow> zip_index \<Rightarrow> string \<Rightarrow> xlsb_stats \<Rightarrow> xlsb_stats zres" where
  "count_part fs f z nm s =
     zbind (zi_inflate_to fs f z nm) (\<lambda>(chunks, _).
       let t = fold count_rec (stream_records chunks) (s\<lparr>xs_sheets := xs_sheets s + 1\<rparr>)
       in ZOk (t\<lparr>xs_bytes := xs_bytes t + zi_usize_of z nm\<rparr>))"

definition stream_workbook_stats :: "(string \<Rightarrow> byte list option) \<Rightarrow> nat \<Rightarrow> string \<Rightarrow> xlsb_stats zres" where
  "stream_workbook_stats fs f path =
     zbind (open_zip_file fs path) (\<lambda>z.
       if \<not> zi_ok z then ZOk stats_zero
       else fold (\<lambda>nm r. zbind r (count_part fs f z nm)) (filter stat_part (zi_names z)) (ZOk stats_zero))"

section \<open>Records in any chunks\<close>

fun put_size :: "nat \<Rightarrow> byte list" where
  "put_size n = (if n < 128 then [of_nat n] else of_nat (128 + n mod 128) # put_size (n div 128))"

declare put_size.simps [simp del]

definition put_id :: "nat \<Rightarrow> byte list" where
  "put_id i = (if i < 128 then [of_nat i] else [of_nat (128 + i mod 128), of_nat (i div 128)])"

definition put_xrec :: "xrec \<Rightarrow> byte list" where
  "put_xrec r = put_id (xr_id r) @ put_size (length (xr_data r)) @ xr_data r"

definition xrec_ok :: "xrec \<Rightarrow> bool" where
  "xrec_ok r = (xr_id r < 2 ^ 15 \<and> length (xr_data r) < 2 ^ 28)"

lemma byte_nat: "n < 256 \<Longrightarrow> unat (of_nat n :: byte) = n"
  by (simp add: unat_of_nat)

lemma byte_more: "unat (128 + of_nat (m mod 128) :: byte) = 128 + m mod 128"
  using byte_nat[of "128 + m mod 128"] by simp

lemma take_id_put: "i < 2 ^ 15 \<Longrightarrow> take_id (put_id i @ r) = Some (i, r)"
  by (auto simp: put_id_def take_id_def byte_nat byte_more less_mult_imp_div_less)

lemma take_size_put: "n < 128 ^ k \<Longrightarrow> 0 < k \<Longrightarrow> take_size_ok k sh (put_size n @ r) = Some (n * 2 ^ sh, r)"
proof (induction n arbitrary: k sh rule: put_size.induct)
  case (1 n)
  then obtain k' where k: "k = Suc k'" by (cases k) auto
  show ?case
  proof (cases "n < 128")
    case True
    then show ?thesis by (simp add: k put_size.simps byte_nat)
  next
    case False
    have "n div 128 < 128 ^ k'" using "1.prems" by (simp add: k less_mult_imp_div_less mult.commute)
    moreover from this False have "0 < k'" by (cases k') auto
    ultimately have ih: "take_size_ok k' (sh + 7) (put_size (n div 128) @ r) = Some (n div 128 * 2 ^ (sh + 7), r)"
      using "1.IH"[OF False] by blast
    have "(2 :: nat) ^ (sh + 7) = 128 * 2 ^ sh" by (simp add: power_add)
    then have "n mod 128 * 2 ^ sh + n div 128 * 2 ^ (sh + 7) = (n mod 128 + n div 128 * 128) * 2 ^ sh"
      by (simp only: distrib_right mult.assoc)
    then have "n mod 128 * 2 ^ sh + n div 128 * 2 ^ (sh + 7) = n * 2 ^ sh" by simp
    then show ?thesis using False ih by (simp add: k put_size.simps[of n] byte_more)
  qed
qed

lemma take_size_rec: "n < 2 ^ 28 \<Longrightarrow> take_size_ok 4 0 (put_size n @ r) = Some (n, r)"
  using take_size_put[of n 4 0 r] by simp

lemma asm_put:
  "xrec_ok r \<Longrightarrow> asm_parse (put_xrec r @ p) = (r # fst (asm_parse p), snd (asm_parse p))"
  by (subst asm_parse.simps)
    (simp add: xrec_ok_def put_xrec_def take_id_put take_size_rec split: prod.split)

lemma asm_puts: "list_all xrec_ok rs \<Longrightarrow> asm_parse (concat (map put_xrec rs)) = (rs, [])"
  by (induction rs) (simp_all add: asm_put, simp add: asm_parse.simps take_id_def)

lemma read_put: "xrec_ok r \<Longrightarrow> read_records (put_xrec r @ p) = r # read_records p"
  by (subst read_records.simps)
    (simp add: xrec_ok_def put_xrec_def take_id_put take_size_ok_eq[OF take_size_rec])

lemma records_puts: "list_all xrec_ok rs \<Longrightarrow> read_records (concat (map put_xrec rs)) = rs"
  by (induction rs) (simp_all add: read_put, simp add: read_records.simps take_id_def)

lemma take_id_append: "take_id p = Some (i, r) \<Longrightarrow> take_id (p @ q) = Some (i, r @ q)"
  by (auto simp: take_id_def split: list.splits if_splits)

lemma take_size_append: "take_size_ok k sh p = Some (n, r) \<Longrightarrow> take_size_ok k sh (p @ q) = Some (n, r @ q)"
  by (induction k sh p arbitrary: n r rule: take_size.induct) (auto simp: Let_def split: if_splits)

text \<open>More bytes only add records: those already read stay.\<close>

lemma asm_append:
  "asm_parse (p @ q) =
     (fst (asm_parse p) @ fst (asm_parse (snd (asm_parse p) @ q)), snd (asm_parse (snd (asm_parse p) @ q)))"
proof (induction p rule: asm_parse.induct)
  case (1 p)
  show ?case
  proof (cases "\<exists>i r n d. take_id p = Some (i, r) \<and> take_size_ok 4 0 r = Some (n, d) \<and> n \<le> length d")
    case True
    then obtain i r n d where e: "take_id p = Some (i, r)" "take_size_ok 4 0 r = Some (n, d)" "n \<le> length d" by blast
    then have ih: "asm_parse (drop n d @ q) =
      (fst (asm_parse (drop n d)) @ fst (asm_parse (snd (asm_parse (drop n d)) @ q)),
       snd (asm_parse (snd (asm_parse (drop n d)) @ q)))"
      using 1[of "(i, r)" i r "(n, d)" n d] by simp
    have a: "asm_parse p = (\<lparr>xr_id = i, xr_data = take n d\<rparr> # fst (asm_parse (drop n d)), snd (asm_parse (drop n d)))"
      using e by (subst asm_parse.simps) (simp split: prod.split)
    have b: "asm_parse (p @ q) = (\<lparr>xr_id = i, xr_data = take n d\<rparr> # fst (asm_parse (drop n d @ q)), snd (asm_parse (drop n d @ q)))"
      using e take_id_append[OF e(1), of q] take_size_append[OF e(2), of q]
      by (subst asm_parse.simps) (simp split: prod.split)
    show ?thesis using ih by (simp add: a b)
  next
    case False
    then have "asm_parse p = ([], p)"
      by (subst asm_parse.simps) (auto split: option.splits prod.splits)
    then show ?thesis by simp
  qed
qed

lemma feed_chunks:
  "st = asm_parse p \<Longrightarrow> fold asm_feed chunks st = asm_parse (p @ concat chunks)"
proof (induction chunks arbitrary: p st)
  case (Cons c cs)
  have "asm_feed c st = asm_parse (p @ c)"
    by (simp add: asm_feed_def Cons.prems asm_append[of p c] split: prod.split)
  then show ?case using Cons.IH[of "asm_feed c st" "p @ c"] by simp
qed simp

lemma stream_asm: "stream_records chunks = fst (asm_parse (concat chunks))"
  using feed_chunks[of "([], [])" "[]" chunks] by (simp add: stream_records_def asm_parse.simps[of "[]"] take_id_def)

text \<open>The records of a part are read the same at once and from a stream: for a part that is the encoding of a
  list of records, cut into chunks anywhere, the streaming assembler delivers exactly these records in order, and so
  does the reader of the whole part.\<close>

theorem xlsb_records_any_chunks:
  assumes "list_all xrec_ok rs" "concat chunks = concat (map put_xrec rs)"
  shows "stream_records chunks = rs \<and> read_records (concat chunks) = rs"
  using assms by (simp add: stream_asm asm_puts records_puts)

theorem xlsb_records_any_chunks_witness:
  "stream_records [[0x9C], [1, 2, 7], [], [8, 0], [0]] = [\<lparr>xr_id = 156, xr_data = [7, 8]\<rparr>, \<lparr>xr_id = 0, xr_data = []\<rparr>]"
proof -
  let ?rs = "[\<lparr>xr_id = 156, xr_data = [7, 8]\<rparr>, \<lparr>xr_id = 0, xr_data = []\<rparr>] :: xrec list"
  have "stream_records [[0x9C], [1, 2, 7], [], [8, 0], [0]] = ?rs \<and>
      read_records (concat [[0x9C], [1, 2, 7], [], [8, 0], [0]]) = ?rs"
    by (rule xlsb_records_any_chunks) (simp_all add: xrec_ok_def put_xrec_def put_id_def put_size.simps)
  then show ?thesis by blast
qed

end
