(* ===== verification/Fve_Pipeline.thy ===== *)
theory Fve_Pipeline
  imports Fve_Xlsx Fve_Xlsb Fve_Sheets
begin

text \<open>
  From a file to a verdict (\<open>extractor/pipeline\<close>): the workbook of a file with its dependency graph, and the
  verification of a cell over the box of its inputs.
\<close>

section \<open>Extraction\<close>

record extracted =
  ex_wb :: workbook
  ex_dep :: dep_graph
  ex_sdg :: sdg
  ex_fmt :: string
  ex_ok :: bool
  ex_err :: string

definition ext_of :: "string \<Rightarrow> string" where
  "ext_of p = (if CHR ''.'' \<in> set p then map lower_char (rev (takeWhile (\<lambda>c. c \<noteq> CHR ''.'') (rev p))) else [])"

definition extract_none :: extracted where
  "extract_none = \<lparr>ex_wb = \<lparr>wb_sheets = [], wb_names = []\<rparr>, ex_dep = \<lparr>dg_in = [], dg_out = [], dg_edges = [], dg_deps = []\<rparr>,
     ex_sdg = sdg_new, ex_fmt = [], ex_ok = False, ex_err = []\<rparr>"

text \<open>\<open>None\<close> is an exception on the way. The step and the tolerance are the defaults of \<open>induce_deps\<close>.\<close>

definition extract_file ::
  "'a mathlib_scheme \<Rightarrow> (string \<Rightarrow> byte list option) \<Rightarrow> nat \<Rightarrow> string \<Rightarrow> extracted option" where
  "extract_file M fs f path =
     (case (if ext_of path = ''xlsb'' then load_xlsb_file fs f path else load_xlsx_file fs f path) of
        None \<Rightarrow> None
      | Some lr \<Rightarrow>
          if \<not> lr_ok lr then Some (extract_none\<lparr>ex_err := (if lr_err lr = [] then ''load failed'' else lr_err lr)\<rparr>)
          else (case orc_build (orc_new (lr_wb lr)) of
                  None \<Rightarrow> None
                | Some orc \<Rightarrow>
                    (case induce_deps M (fround RNear (1 / 1000)) (fround RNear (1 / 10 ^ 7)) orc of
                       None \<Rightarrow> None
                     | Some (dep, _) \<Rightarrow>
                         (case build_sdg (lr_wb lr) dep of
                            None \<Rightarrow> None
                          | Some g \<Rightarrow> Some \<lparr>ex_wb = lr_wb lr, ex_dep = dep, ex_sdg = g, ex_fmt = lr_fmt lr, ex_ok = True, ex_err = []\<rparr>))))"

section \<open>Verification\<close>

record verified =
  vf_target :: cell_id
  vf_label :: string
  vf_lowered :: lowered
  vf_run :: run_result
  vf_ok :: bool

text \<open>The box around the values of the inputs. Lowering always sets its success flag, so the early return for a
  target that was not lowered is never taken.\<close>

definition dev_ival :: "double \<Rightarrow> double \<Rightarrow> ival" where
  "dev_ival rel b = (let d = fmul RNear (fabs b) rel in ival_of (fsub RNear b d) (fadd RNear b d))"

definition target_prog :: "lowered \<Rightarrow> double \<Rightarrow> prog" where
  "target_prog l rel =
     \<lparr>p_root = lw_root l, p_box = map (\<lambda>kv. (fst kv, dev_ival rel (snd kv))) (lw_base l), p_holes = hole_empty, p_ks = Fin 0\<rparr>"

definition target_label :: "workbook \<Rightarrow> sdg \<Rightarrow> cell_id \<Rightarrow> string" where
  "target_label wb g i =
     (case sdg_find g i of
        Some n \<Rightarrow> if sn_label n \<noteq> [] then sn_label n else cell_key wb i
      | None \<Rightarrow> cell_key wb i)"

definition verify_target :: "libm \<Rightarrow> workbook \<Rightarrow> sdg \<Rightarrow> cell_id \<Rightarrow> double \<Rightarrow> audit_chain \<Rightarrow> (verified \<times> audit_chain) option" where
  "verify_target L wb g i rel chain =
     (case lower_target wb i of
        XOk l _ \<Rightarrow>
          (case run L (target_prog l rel) chain (if 0 < lw_holes l then ''interval+holes'' else ''interval'') of
             None \<Rightarrow> None
           | Some (r, chain') \<Rightarrow> Some (\<lparr>vf_target = i, vf_label = target_label wb g i, vf_lowered = l, vf_run = r, vf_ok = True\<rparr>, chain'))
      | _ \<Rightarrow> None)"

section \<open>What lowering builds\<close>

text \<open>A property of nodes that every node the lifter makes has, when its parts have it.\<close>

definition node_closed :: "(node \<Rightarrow> bool) \<Rightarrow> bool" where
  "node_closed P \<longleftrightarrow> (\<forall>v. P (konst v dim_none)) \<and> (\<forall>s. P (var s dim_none entire)) \<and> (\<forall>i. P (hole i 0 entire (CHR ''B'') []))
     \<and> (\<forall>b as. list_all P as \<longrightarrow> P (oper b as)) \<and> (\<forall>f as. list_all P as \<longrightarrow> P (call f as)) \<and> (\<forall>cs. list_all P cs \<longrightarrow> P (disj cs))"

definition memo_all :: "(node \<Rightarrow> bool) \<Rightarrow> lift \<Rightarrow> bool" where
  "memo_all P st \<longleftrightarrow> (\<forall>i n. mget (memo st) i = Some n \<longrightarrow> P n)"

abbreviation has_all :: "(node \<Rightarrow> bool) \<Rightarrow> ('a \<Rightarrow> bool) \<Rightarrow> 'a \<Rightarrow> lift \<Rightarrow> bool" where
  "has_all P R \<equiv> \<lambda>x st. memo_all P st \<and> R x"

lemma all_bind:
  "xwp True r (has_all P R) \<Longrightarrow> (\<And>x s. memo_all P s \<Longrightarrow> R x \<Longrightarrow> xwp True (k x s) Q) \<Longrightarrow> xwp True (xbind r k) Q"
  unfolding xwp_bind by (erule xwp_mono) simp

lemma all_lmap:
  "(\<And>x s. x \<in> set xs \<Longrightarrow> memo_all P s \<Longrightarrow> xwp True (k x s) (has_all P R)) \<Longrightarrow> memo_all P st \<Longrightarrow>
     xwp True (lmap k xs st) (has_all P (list_all R))"
proof (induction xs arbitrary: st)
  case (Cons x xs)
  show ?case unfolding lmap.simps
  proof (rule all_bind)
    show "xwp True (k x st) (has_all P R)" using Cons.prems by simp
    show "xwp True (xbind (lmap k xs s) (\<lambda>ys. XOk (y # ys))) (has_all P (list_all R))" if "memo_all P s" "R y" for y s
      by (rule all_bind[OF Cons.IH]) (use Cons.prems that in simp_all)
  qed
qed simp

lemma closed_folds:
  assumes "node_closed P" "list_all P ns"
  shows "P (fold_op b ns)" "P (fold_call f ns)"
proof -
  have fo: "P (foldl (\<lambda>acc y. oper b [acc, y]) m xs)" "P (foldl (\<lambda>acc y. call f [acc, y]) m xs)" if "P m" "list_all P xs" for m xs
    using that assms(1) by (induction xs arbitrary: m) (auto simp: node_closed_def)
  show "P (fold_op b ns)" "P (fold_call f ns)"
    using assms fo by (auto simp: fold_op_def fold_call_def node_closed_def split: list.splits)
qed

lemma closed_agg: "node_closed P \<Longrightarrow> agg_fn fn = Some g \<Longrightarrow> list_all P ns \<Longrightarrow> P (g ns)"
proof -
  assume a: "node_closed P" "agg_fn fn = Some g" "list_all P ns"
  have sq: "list_all P (map (\<lambda>x. oper Mul [x, x]) ns)" using a(1,3) by (auto simp: list_all_iff node_closed_def)
  have op: "P (oper b [x, y])" "P (konst v dim_none)" if "P x" "P y" for b x y v using a(1) that by (simp_all add: node_closed_def)
  show ?thesis using a(2) closed_folds[OF a(1,3)] closed_folds(1)[OF a(1) sq] a(1)
    by (auto simp: agg_fn_def node_closed_def split: if_splits)
qed

lemma closed_un: "node_closed P \<Longrightarrow> un_fn fn = Some g \<Longrightarrow> P x \<Longrightarrow> P (g x)"
  by (auto simp: un_fn_def node_closed_def split: if_splits)

lemma closed_minus: "node_closed P \<Longrightarrow> P x \<Longrightarrow> P (un_node b x)"
  by (auto simp: un_node_def node_closed_def)

lemma all_hole: "node_closed P \<Longrightarrow> memo_all P st \<Longrightarrow> xwp True (mk_hole st) (has_all P P)"
  by (simp add: mk_hole_def node_closed_def memo_all_def)

lemma all_done: "memo_all P st \<Longrightarrow> P n \<Longrightarrow> xwp True (done_cell i n st) (has_all P P)"
  by (auto simp: done_cell_def memo_all_def mget_mput)

lemma all_mono: "xwp True r (has_all P R) \<Longrightarrow> (\<And>x. R x \<Longrightarrow> R' x) \<Longrightarrow> xwp True r (has_all P R')"
  by (erule xwp_mono) simp

lemma all_memo: "memo_all P st \<Longrightarrow> mget (memo st) i = Some n \<Longrightarrow> P n"
  by (auto simp: memo_all_def)

lemma list_all_concat: "list_all (list_all P) xss \<Longrightarrow> list_all P (concat xss)"
  by (induction xss) auto

lemma lower_closed:
  assumes nc: "node_closed P"
  shows "memo_all P st \<longrightarrow>
     xwp True (lower_cell f wb i st) (has_all P P) \<and> xwp True (lower_x f wb cur a st) (has_all P P)
     \<and> xwp True (expand_arg f wb cur a st) (has_all P (list_all P))"
proof (induction f arbitrary: i cur a st)
  case (Suc f)
  have C: "xwp True (lower_cell f wb j s) (has_all P P)" if "memo_all P s" for j s using Suc.IH that by blast
  have X: "xwp True (lower_x f wb cu x s) (has_all P P)" if "memo_all P s" for cu x s using Suc.IH that by blast
  have E: "xwp True (expand_arg f wb cu x s) (has_all P (list_all P))" if "memo_all P s" for cu x s using Suc.IH that by blast
  have H: "xwp True (mk_hole s) (has_all P P)" if "memo_all P s" for s by (rule all_hole[OF nc that])
  have D: "xwp True (xbind r (done_cell j)) (has_all P P)" if "xwp True r (has_all P P)" for r j
    by (rule all_bind[OF that]) (rule all_done)
  have K: "P (konst v dim_none)" "P (var s dim_none entire)" for v s using nc by (simp_all add: node_closed_def)
  have O: "P (oper b [m, n])" "P (oper b [m])" "P (disj [m, n])" if "P m" "P n" for b m n using nc that by (simp_all add: node_closed_def)
  have cell: "xwp True (lower_cell (Suc f) wb i st) (has_all P P)" if m: "memo_all P st"
  proof (cases "mget (memo st) i")
    case (Some n)
    then show ?thesis using m all_memo by simp
  next
    case nm: None
    define st1 where "st1 = st\<lparr>visiting := i # visiting st\<rparr>"
    have m1: "memo_all P st1" "memo_all P (st1\<lparr>base := B\<rparr>)" for B using m by (simp_all add: memo_all_def st1_def)
    show ?thesis
    proof (cases "i \<in> set (visiting st)")
      case True
      then show ?thesis using nm H[OF m] by simp
    next
      case nv: False
      show ?thesis
      proof (cases "cell_of wb i")
        case None
        then show ?thesis using nm nv by (simp add: Let_def)
      next
        case (Some oc)
        note o = Some
        show ?thesis
        proof (cases oc)
          case None
          then show ?thesis using nm nv o all_done[OF m1(1) K(1)] by (simp add: Let_def st1_def)
        next
          case (Some c)
          show ?thesis
          proof (cases "cell_formula c = []")
            case True
            then show ?thesis using nm nv o Some all_done[OF m1(1) K(1)] all_done[OF m1(2) K(2)] by (simp add: Let_def st1_def)
          next
            case False
            have p: "xwp True (case xp_ast p of
                Some a \<Rightarrow> xbind (if xp_ok p then lower_x f wb (c_sheet i) a st1 else mk_hole st1) (done_cell i)
              | None \<Rightarrow> xbind (mk_hole st1) (done_cell i)) (has_all P P)" for p
              using D[OF H[OF m1(1)]] D[OF X[OF m1(1)]] by (cases "xp_ast p"; cases "xp_ok p") simp_all
            show ?thesis
            proof (cases "parse_formula (cell_formula c)")
              case None
              then show ?thesis by (simp add: nm nv o \<open>oc = Some c\<close> False Let_def)
            next
              case q: (Some q)
              show ?thesis using p[of q] unfolding st1_def by (simp add: nm nv o \<open>oc = Some c\<close> False q Let_def)
            qed
          qed
        qed
      qed
    qed
  qed
  have expr: "xwp True (lower_x (Suc f) wb cur a st) (has_all P P)" if m: "memo_all P st"
  proof (cases a)
    case (XBin o' x y)
    show ?thesis unfolding lower_x.simps XBin xast.case
    proof (rule all_bind[OF X[OF m]], rule all_bind[OF X], assumption)
      fix u v s assume "memo_all P s" "P u" "P v"
      then show "xwp True (case bin_op o' of None \<Rightarrow> mk_hole s | Some b \<Rightarrow> XOk (oper b [u, v]) s) (has_all P P)"
        using H O(1) by (cases "bin_op o'") simp_all
    qed
  next
    case (XUn o' x)
    show ?thesis unfolding lower_x.simps XUn xast.case
      by (rule all_bind[OF X[OF m]]) (simp add: closed_minus[OF nc])
  next
    case (XCall fn xs)
    have A: "xwp True (if k < length xs then lower_x f wb cur (xs ! k) s else XThrow) (has_all P P)"
      "xwp True (if k < length xs then lower_x f wb cur (xs ! k) s else XOk (konst (Fin 0) dim_none) s) (has_all P P)"
      if "memo_all P s" for k s using X[OF that] that K by simp_all
    have L: "xwp True (lmap (\<lambda>x st'. expand_arg f wb cur x st') xs st) (has_all P (list_all (list_all P)))"
      by (rule all_lmap[OF E m])
    show ?thesis
    proof (cases "agg_fn fn")
      case (Some g)
      have "xwp True (xbind (lmap (\<lambda>x st'. expand_arg f wb cur x st') xs st) (\<lambda>xss. XOk (g (concat xss)))) (has_all P P)"
        by (rule all_bind[OF L]) (simp add: closed_agg[OF nc Some] list_all_concat)
      then show ?thesis unfolding lower_x.simps XCall xast.case Let_def Some option.case .
    next
      case ag: None
      show ?thesis
      proof (cases "un_fn fn")
        case (Some g)
        have "xwp True (xbind (if 0 < length xs then lower_x f wb cur (xs ! 0) st else XThrow) (\<lambda>n. XOk (g n))) (has_all P P)"
          by (rule all_bind[OF A(1)[OF m]]) (simp add: closed_un[OF nc Some])
        then show ?thesis unfolding lower_x.simps XCall xast.case Let_def ag Some option.case .
      next
        case un: None
        have two: "xwp True (xbind (if j < length xs then lower_x f wb cur (xs ! j) st else XThrow)
            (\<lambda>m st1. xbind (if k < length xs then lower_x f wb cur (xs ! k) st1 else XThrow) (\<lambda>n. XOk (g m n)))) (has_all P P)"
          if "\<And>m n. P m \<Longrightarrow> P n \<Longrightarrow> P (g m n)" for j k g
          by (rule all_bind[OF A(1)[OF m]], rule all_bind[OF A(1)], assumption) (simp add: that)
        have opt: "xwp True (xbind (if j < length xs then lower_x f wb cur (xs ! j) st else XThrow)
            (\<lambda>m st1. xbind (if k < length xs then lower_x f wb cur (xs ! k) st1 else XOk (konst (Fin 0) dim_none) st1) (\<lambda>n. XOk (g m n))))
            (has_all P P)" if "\<And>m n. P m \<Longrightarrow> P n \<Longrightarrow> P (g m n)" for j k g
          by (rule all_bind[OF A(1)[OF m]], rule all_bind[OF A(2)], assumption) (simp add: that)
        have log: "xwp True (xbind (if 0 < length xs then lower_x f wb cur (xs ! 0) st else XThrow) (\<lambda>m st1.
            if c then xbind (if 1 < length xs then lower_x f wb cur (xs ! 1) st1 else XThrow) (\<lambda>n. XOk (g m n))
            else XOk (h m) st1)) (has_all P P)"
          if "\<And>m n. P m \<Longrightarrow> P n \<Longrightarrow> P (g m n)" "\<And>m. P m \<Longrightarrow> P (h m)" for c g h
          by (rule all_bind[OF A(1)[OF m]], cases c, simp_all only: if_True if_False, rule all_bind[OF A(1)], assumption)
            (simp_all add: that)
        show ?thesis unfolding lower_x.simps XCall xast.case Let_def ag un option.case
          by (intro xwp_if log two opt H m) (simp_all add: O K m)
      qed
    qed
  qed (use m C H K in \<open>simp_all split: option.split\<close>)
  have "xwp True (expand_arg (Suc f) wb cur a st) (has_all P (list_all P))" if m: "memo_all P st"
  proof -
    have "xwp True (xbind (lower_x f wb cur a st) (\<lambda>n. XOk [n])) (has_all P (list_all P))"
      by (rule all_bind[OF X[OF m]]) simp
    moreover have "xwp True (lmap (\<lambda>i st'. lower_cell f wb i st') (range_ids wb sh r e cur) st) (has_all P (list_all P))" for sh r e
      by (rule all_lmap[OF C m])
    ultimately show ?thesis unfolding expand_arg.simps by (cases a) simp_all
  qed
  then show ?case using cell expr by blast
qed simp

lemma lowered_closed:
  assumes "node_closed P" "lower_target wb i = XOk l u"
  shows "P (lw_root l)"
  using lower_closed[OF assms(1), of lift_start "lower_fuel wb" wb i undefined undefined] assms(2)
  by (auto simp: lower_target_ok memo_all_def lift_start_def)

lemma env_closed:
  assumes "\<And>s. case mget B s of Some b \<Rightarrow> imem (\<rho> s) b | None \<Rightarrow> True"
  shows "node_closed (env_in \<rho> B)"
proof -
  have "imem (\<rho> s) (case mget B s of Some b \<Rightarrow> b | None \<Rightarrow> entire)" for s
    using assms[of s] by (cases "mget B s") (simp_all add: imem_def entire_def)
  then show ?thesis by (simp add: node_closed_def constructor_defs finish_Node)
qed

lemma holes_closed: "node_closed (holes_sound H hole_empty)"
proof -
  have "w_encl (hole_eval hole_empty i entire is) = entire" for i "is"
    by (simp add: hole_empty_def hole_eval_def phys_wrap_def mget_def Let_def)
  then show ?thesis by (simp add: node_closed_def constructor_defs finish_Node hole_sound_def imem_def entire_def)
qed

section \<open>The verdict of a target\<close>

lemma mget_dev: "mget (map (\<lambda>kv. (fst kv, dev_ival rel (snd kv))) m) s = map_option (dev_ival rel) (mget m s)"
  by (induction m) (auto simp: mget_def)

lemma verify_target_run:
  "verify_target L wb g i rel chain = Some (v, chain') \<longleftrightarrow>
     (\<exists>l u r m. lower_target wb i = XOk l u \<and> run L (target_prog l rel) chain m = Some (r, chain')
        \<and> m = (if 0 < lw_holes l then ''interval+holes'' else ''interval'')
        \<and> v = \<lparr>vf_target = i, vf_label = target_label wb g i, vf_lowered = l, vf_run = r, vf_ok = True\<rparr>)"
  by (auto simp: verify_target_def split: xres.splits option.splits)

lemma decided_residual: "decide_eval r \<noteq> Abstain \<Longrightarrow> 0 \<le> fval (residual r)"
  using decide_safe(4)[of "lo (ms r)" "hi (ms r)" "residual r"] decide_fail(4)[of "lo (ms r)" "hi (ms r)" "residual r"]
  by (cases "decide (lo (ms r)) (hi (ms r)) (residual r)") (auto simp: decide_eval_def split: if_splits)


lemma demo_target: "target_prog \<lparr>lw_root = demo_node, lw_base = [(''S!A1'', Fin 2), (''S!B1'', Fin 1)], lw_holes = 0, lw_ok = True\<rparr> (Fin 0) = sheet_prog"
  by (simp add: target_prog_def sheet_prog_def dev_ival_def Let_def fmul_def fabs.simps is_zero_def fzero_def fsub_def ival_of_def)


text \<open>The box of an input holds its value, so the values of the workbook are an instance.\<close>

lemma fround_ge: "representable b \<Longrightarrow> b \<le> q \<Longrightarrow> fle (Fin b) (fround m q)"
proof (cases "q = 0")
  case False
  assume b: "representable b" "b \<le> q"
  have "b \<le> grid m q" using grid_dn_greatest[OF b False] grid_between(1)[of q m] by linarith
  then show ?thesis using representable_le_max[OF b(1)]
    by (cases rule: fround_cases[OF False, of m]) (auto simp: fzero_def)
qed simp

lemma fround_le: "representable b \<Longrightarrow> q \<le> b \<Longrightarrow> fle (fround m q) (Fin b)"
proof (cases "q = 0")
  case False
  assume b: "representable b" "q \<le> b"
  have "grid m q \<le> b" using grid_up_least[OF b False] grid_between(2)[of m q] by linarith
  then show ?thesis using representable_le_max[OF b(1)]
    by (cases rule: fround_cases[OF False, of m]) (auto simp: fzero_def)
qed simp

lemma dev_around:
  assumes "representable b" "d = PInf \<or> is_fin d \<and> 0 \<le> fval d"
  shows "fle (fsub RNear (Fin b) d) (Fin b) \<and> fle (Fin b) (fadd RNear (Fin b) d)"
  using assms fround_ge[of b "b + fval d" RNear] fround_le[of b "b - fval d" RNear] assms(1)
  by (cases d) (auto simp: fsub_def fzero_def add.commute)

lemma base_in_dev:
  assumes "representable b" "0 \<le> e"
  shows "imem b (dev_ival (Fin e) (Fin b))"
proof -
  let ?d = "fmul RNear (fabs (Fin b)) (Fin e)"
  have "?d = PInf \<or> is_fin ?d \<and> 0 \<le> fval ?d"
    using fround_ge[of 0 "\<bar>b\<bar> * e" RNear] assms(2)
    by (cases "fround RNear (\<bar>b\<bar> * e)") (auto simp: fmul_def is_zero_def fzero_def fabs.simps fle_def)
  from dev_around[OF assms(1) this] show ?thesis
    by (cases "fsub RNear (Fin b) ?d"; cases "fadd RNear (Fin b) ?d")
      (auto simp: dev_ival_def ival_of_def Let_def imem_def fle_def)
qed

end
