(* ===== verification/Fve_Dim.thy ===== *)
theory Fve_Dim
  imports Fve_Types "HOL-Library.Signed_Division"
begin

text \<open>
  The inference of dimensions (\<open>model/dim\<close>): integer matrices as lists of rows, the Smith normal form
  by row and column steps, and the dimensions of the symbols a system of constraints leaves open.
  The entries are the code's \<open>long long\<close>s, whose signed overflow is undefined, so they are unbounded
  here, while the conversion of an exponent to \<open>int\<close> keeps its lower 32 bits, as in the code; division and
  remainder round towards zero as in C. The loops of the normal form are partial
  functions: that they end is proved.
\<close>

section \<open>Matrices\<close>

type_synonym imat = "int list list"

definition ident :: "nat \<Rightarrow> imat" where
  "ident n = map (\<lambda>i. (replicate n 0)[i := 1]) [0..<n]"

definition row_swap :: "nat \<Rightarrow> nat \<Rightarrow> imat \<Rightarrow> imat" where
  "row_swap r1 r2 a = a[r1 := a ! r2, r2 := a ! r1]"

definition col_swap :: "nat \<Rightarrow> nat \<Rightarrow> imat \<Rightarrow> imat" where
  "col_swap c1 c2 a = map (\<lambda>row. row[c1 := row ! c2, c2 := row ! c1]) a"

definition row_addmul :: "nat \<Rightarrow> nat \<Rightarrow> int \<Rightarrow> imat \<Rightarrow> imat" where
  "row_addmul dst src q a = (if q = 0 then a else a[dst := map2 (\<lambda>x y. x - q * y) (a ! dst) (a ! src)])"

definition col_addmul :: "nat \<Rightarrow> nat \<Rightarrow> int \<Rightarrow> imat \<Rightarrow> imat" where
  "col_addmul dst src q a = (if q = 0 then a else map (\<lambda>row. row[dst := row ! dst - q * row ! src]) a)"

definition row_neg :: "nat \<Rightarrow> imat \<Rightarrow> imat" where
  "row_neg i a = a[i := map uminus (a ! i)]"

definition matmul :: "imat \<Rightarrow> imat \<Rightarrow> imat" where
  "matmul a b =
     (let k = length b; n = (if b = [] then 0 else length (b ! 0))
      in map (\<lambda>row. map (\<lambda>j. sum_list (map (\<lambda>t. row ! t * b ! t ! j) [0..<k])) [0..<n]) a)"

section \<open>The Smith normal form\<close>

text \<open>The matrix and the two transformations built along with it.\<close>

record snf =
  nf_a :: imat
  nf_u :: imat
  nf_v :: imat

definition on_rows :: "(imat \<Rightarrow> imat) \<Rightarrow> snf \<Rightarrow> snf" where
  "on_rows f s = s\<lparr>nf_a := f (nf_a s), nf_u := f (nf_u s)\<rparr>"

definition on_cols :: "(imat \<Rightarrow> imat) \<Rightarrow> snf \<Rightarrow> snf" where
  "on_cols f s = s\<lparr>nf_a := f (nf_a s), nf_v := f (nf_v s)\<rparr>"

definition better_pivot :: "imat \<Rightarrow> (nat \<times> nat) option \<Rightarrow> nat \<times> nat \<Rightarrow> (nat \<times> nat) option" where
  "better_pivot a best p =
     (if a ! fst p ! snd p \<noteq> 0 \<and> (case best of None \<Rightarrow> True | Some b \<Rightarrow> \<bar>a ! fst p ! snd p\<bar> < \<bar>a ! fst b ! snd b\<bar>)
      then Some p else best)"

definition find_pivot :: "imat \<Rightarrow> nat \<Rightarrow> nat \<Rightarrow> nat \<Rightarrow> (nat \<times> nat) option" where
  "find_pivot a t m n = foldl (better_pivot a) None (concat (map (\<lambda>i. map (Pair i) [t..<n]) [t..<m]))"

definition row_step :: "nat \<Rightarrow> snf \<times> bool \<Rightarrow> nat \<Rightarrow> snf \<times> bool" where
  "row_step t p i =
     (let s = fst p; a = nf_a s
      in if a ! i ! t = 0 then p
         else let s1 = on_rows (row_addmul i t (a ! i ! t sdiv a ! t ! t)) s
              in if nf_a s1 ! i ! t \<noteq> 0 then (on_rows (row_swap t i) s1, True) else (s1, snd p))"

definition col_step :: "nat \<Rightarrow> snf \<times> bool \<Rightarrow> nat \<Rightarrow> snf \<times> bool" where
  "col_step t p j =
     (let s = fst p; a = nf_a s
      in if a ! t ! j = 0 then p
         else let s1 = on_cols (col_addmul j t (a ! t ! j sdiv a ! t ! t)) s
              in if nf_a s1 ! t ! j \<noteq> 0 then (on_cols (col_swap t j) s1, True) else (s1, snd p))"

definition elim_pass :: "nat \<Rightarrow> nat \<Rightarrow> nat \<Rightarrow> snf \<Rightarrow> snf \<times> bool" where
  "elim_pass m n t s = foldl (col_step t) (foldl (row_step t) (s, False) [t + 1..<m]) [t + 1..<n]"

partial_function (option) eliminate :: "nat \<Rightarrow> nat \<Rightarrow> nat \<Rightarrow> snf \<Rightarrow> snf option" where
  "eliminate m n t s =
     (let p = elim_pass m n t s in if snd p then eliminate m n t (fst p) else Some (fst p))"

text \<open>The first row with an entry the pivot does not divide.\<close>

definition misfit :: "imat \<Rightarrow> nat \<Rightarrow> nat \<Rightarrow> nat \<Rightarrow> nat option" where
  "misfit a t m n = find (\<lambda>i. list_ex (\<lambda>j. a ! i ! j smod a ! t ! t \<noteq> 0) [t + 1..<n]) [t + 1..<m]"

definition to_corner :: "nat \<Rightarrow> nat \<times> nat \<Rightarrow> snf \<Rightarrow> snf" where
  "to_corner t p s =
     (let s1 = (if fst p \<noteq> t then on_rows (row_swap t (fst p)) s else s)
      in if snd p \<noteq> t then on_cols (col_swap t (snd p)) s1 else s1)"

partial_function (option) snf_loop :: "nat \<Rightarrow> nat \<Rightarrow> nat \<Rightarrow> snf \<Rightarrow> snf option" where
  "snf_loop m n t s =
     (if t < min m n
      then case find_pivot (nf_a s) t m n of
             None \<Rightarrow> Some s
           | Some p \<Rightarrow>
               (case eliminate m n t (to_corner t p s) of
                  None \<Rightarrow> None
                | Some s1 \<Rightarrow>
                    (case misfit (nf_a s1) t m n of
                       Some i \<Rightarrow> snf_loop m n t (on_rows (row_addmul t i (- 1)) s1)
                     | None \<Rightarrow> snf_loop m n (t + 1) s1))
      else Some s)"

definition fix_sign :: "snf \<Rightarrow> nat \<Rightarrow> snf" where
  "fix_sign s i = (if nf_a s ! i ! i < 0 then on_rows (row_neg i) s else s)"

record smith =
  sm_u :: imat
  sm_d :: imat
  sm_v :: imat
  sm_rank :: nat

definition smith_normal_form :: "imat \<Rightarrow> smith option" where
  "smith_normal_form a =
     (let m = length a; n = (if m = 0 then 0 else length (a ! 0))
      in case snf_loop m n 0 \<lparr>nf_a = a, nf_u = ident m, nf_v = ident n\<rparr> of
           None \<Rightarrow> None
         | Some s \<Rightarrow>
             let s1 = foldl fix_sign s [0..<min m n]
             in Some \<lparr>sm_u = nf_u s1, sm_d = nf_a s1, sm_v = nf_v s1,
                  sm_rank = length (filter (\<lambda>i. nf_a s1 ! i ! i \<noteq> 0) [0..<min m n])\<rparr>)"

section \<open>Matrices as maps on vectors\<close>

definition rect :: "nat \<Rightarrow> nat \<Rightarrow> imat \<Rightarrow> bool" where
  "rect m n a \<longleftrightarrow> length a = m \<and> (\<forall>i<m. length (a ! i) = n)"

definition mv :: "nat \<Rightarrow> imat \<Rightarrow> (nat \<Rightarrow> int) \<Rightarrow> nat \<Rightarrow> int" where
  "mv n a y i = (\<Sum>j<n. a ! i ! j * y j)"

lemma rect_length: "rect m n a \<Longrightarrow> length a = m" "rect m n a \<Longrightarrow> i < m \<Longrightarrow> length (a ! i) = n"
  by (simp_all add: rect_def)

lemma rect_ops:
  assumes "rect m n a"
  shows "r < m \<Longrightarrow> k < m \<Longrightarrow> rect m n (row_swap r k a)" "r < m \<Longrightarrow> k < m \<Longrightarrow> rect m n (row_addmul r k q a)"
    "rect m n (col_swap c d a)" "rect m n (col_addmul c d q a)" "r < m \<Longrightarrow> rect m n (row_neg r a)"
  using assms by (auto simp: rect_def row_swap_def row_addmul_def col_swap_def col_addmul_def row_neg_def nth_list_update)

lemma row_swap_at: "rect m n a \<Longrightarrow> r < m \<Longrightarrow> k < m \<Longrightarrow> i < m \<Longrightarrow>
    row_swap r k a ! i ! j = (if i = k then a ! r ! j else if i = r then a ! k ! j else a ! i ! j)"
  by (auto simp: rect_def row_swap_def nth_list_update)

lemma row_addmul_at: "rect m n a \<Longrightarrow> r < m \<Longrightarrow> k < m \<Longrightarrow> i < m \<Longrightarrow> j < n \<Longrightarrow>
    row_addmul r k q a ! i ! j = (if i = r then a ! r ! j - q * a ! k ! j else a ! i ! j)"
  by (auto simp: rect_def row_addmul_def nth_list_update)

lemma col_swap_at: "rect m n a \<Longrightarrow> c < n \<Longrightarrow> d < n \<Longrightarrow> i < m \<Longrightarrow> j < n \<Longrightarrow>
    col_swap c d a ! i ! j = (if j = d then a ! i ! c else if j = c then a ! i ! d else a ! i ! j)"
  by (auto simp: rect_def col_swap_def nth_list_update)

lemma col_addmul_at: "rect m n a \<Longrightarrow> c < n \<Longrightarrow> d < n \<Longrightarrow> i < m \<Longrightarrow> j < n \<Longrightarrow>
    col_addmul c d q a ! i ! j = (if j = c then a ! i ! c - q * a ! i ! d else a ! i ! j)"
  by (auto simp: rect_def col_addmul_def nth_list_update)

lemma row_neg_at: "rect m n a \<Longrightarrow> r < m \<Longrightarrow> i < m \<Longrightarrow> j < n \<Longrightarrow>
    row_neg r a ! i ! j = (if i = r then - a ! r ! j else a ! i ! j)"
  by (auto simp: rect_def row_neg_def nth_list_update)

lemma ident_rect: "rect n n (ident n)"
  by (simp add: rect_def ident_def)

lemma ident_at: "i < n \<Longrightarrow> j < n \<Longrightarrow> ident n ! i ! j = (if i = j then 1 else 0)"
  by (auto simp: ident_def nth_list_update)

lemma mv_ident: "i < n \<Longrightarrow> mv n (ident n) y i = y i"
proof -
  assume i: "i < n"
  have "mv n (ident n) y i = (\<Sum>j<n. if j = i then y j else 0)"
    unfolding mv_def by (rule sum.cong) (use i in \<open>auto simp: ident_at\<close>)
  then show ?thesis using i by simp
qed

lemma mv_cong: "(\<And>j. j < n \<Longrightarrow> y j = z j) \<Longrightarrow> mv n a y i = mv n a z i"
  by (simp add: mv_def)

text \<open>Row steps act on the value, column steps on the argument.\<close>

lemma mv_rows:
  assumes "rect m n a" "r < m" "k < m" "i < m"
  shows "mv n (row_swap r k a) y i = (if i = k then mv n a y r else if i = r then mv n a y k else mv n a y i)"
    "mv n (row_addmul r k q a) y i = (if i = r then mv n a y r - q * mv n a y k else mv n a y i)"
    "mv n (row_neg r a) y i = (if i = r then - mv n a y r else mv n a y i)"
  using assms by (simp_all add: mv_def row_swap_at row_addmul_at row_neg_at sum_subtractf sum_distrib_left algebra_simps sum_negf)

lemma mv_col_addmul:
  assumes "rect m n a" "c < n" "d < n" "c \<noteq> d" "i < m"
  shows "mv n (col_addmul c d q a) y i = mv n a (y(d := y d - q * y c)) i"
proof -
  have "mv n (col_addmul c d q a) y i = (\<Sum>j<n. a ! i ! j * y j - (if j = c then q * a ! i ! d * y c else 0))"
    unfolding mv_def using assms by (intro sum.cong) (auto simp: col_addmul_at algebra_simps)
  also have "\<dots> = (\<Sum>j<n. a ! i ! j * y j) - q * a ! i ! d * y c" using assms(2) by (simp add: sum_subtractf)
  also have "\<dots> = (\<Sum>j<n. a ! i ! j * y j - (if j = d then q * a ! i ! d * y c else 0))" using assms(3) by (simp add: sum_subtractf)
  also have "\<dots> = mv n a (y(d := y d - q * y c)) i"
    unfolding mv_def by (rule sum.cong) (auto simp: algebra_simps)
  finally show ?thesis .
qed

lemma mv_col_swap:
  assumes "rect m n a" "c < n" "d < n" "i < m"
  shows "mv n (col_swap c d a) y i = mv n a (y(c := y d, d := y c)) i"
proof -
  let ?p = "\<lambda>j. if j = d then c else if j = c then d else j"
  have b: "bij_betw ?p {..<n} {..<n}"
    by (rule bij_betw_byWitness[of _ ?p]) (use assms in auto)
  have "mv n (col_swap c d a) y i = (\<Sum>j<n. a ! i ! ?p j * y j)"
    unfolding mv_def using assms by (intro sum.cong) (auto simp: col_swap_at)
  also have "\<dots> = (\<Sum>j<n. a ! i ! ?p j * (y(c := y d, d := y c)) (?p j))" by (rule sum.cong) auto
  also have "\<dots> = mv n a (y(c := y d, d := y c)) i" unfolding mv_def by (rule sum.reindex_bij_betw[OF b])
  finally show ?thesis .
qed

section \<open>Equivalent matrices\<close>

text \<open>\<open>u\<close> and \<open>v\<close> are bijections on integer vectors, and \<open>u a\<^sub>0 v\<close> is the present matrix.\<close>

definition agree :: "nat \<Rightarrow> (nat \<Rightarrow> int) \<Rightarrow> (nat \<Rightarrow> int) \<Rightarrow> bool" where
  "agree n x y \<longleftrightarrow> (\<forall>j<n. x j = y j)"

definition onto :: "nat \<Rightarrow> ((nat \<Rightarrow> int) \<Rightarrow> nat \<Rightarrow> int) \<Rightarrow> bool" where
  "onto n f \<longleftrightarrow> (\<forall>x. \<exists>y. agree n (f y) x)"

definition faithful :: "nat \<Rightarrow> ((nat \<Rightarrow> int) \<Rightarrow> nat \<Rightarrow> int) \<Rightarrow> bool" where
  "faithful n f \<longleftrightarrow> (\<forall>x y. agree n (f x) (f y) \<longleftrightarrow> agree n x y)"

definition equiv_snf :: "nat \<Rightarrow> nat \<Rightarrow> imat \<Rightarrow> snf \<Rightarrow> bool" where
  "equiv_snf m n A s \<longleftrightarrow>
     rect m n (nf_a s) \<and> rect m m (nf_u s) \<and> rect n n (nf_v s)
     \<and> onto m (mv m (nf_u s)) \<and> faithful m (mv m (nf_u s)) \<and> onto n (mv n (nf_v s)) \<and> faithful n (mv n (nf_v s))
     \<and> (\<forall>y. agree m (mv m (nf_u s) (mv n A (mv n (nf_v s) y))) (mv n (nf_a s) y))"

lemma agree_refl [simp]: "agree n x x"
  by (simp add: agree_def)

lemma agree_trans: "agree n x y \<Longrightarrow> agree n y z \<Longrightarrow> agree n x z"
  by (simp add: agree_def)

lemma agree_sym: "agree n x y \<Longrightarrow> agree n y x"
  by (simp add: agree_def)

lemma agree_cong: "agree n x x' \<Longrightarrow> agree n y y' \<Longrightarrow> agree n x y \<longleftrightarrow> agree n x' y'"
  by (simp add: agree_def)

text \<open>A step that another undoes.\<close>

lemma undone:
  assumes "\<And>x y. agree n x y \<Longrightarrow> agree n (e x) (e y)" "\<And>x y. agree n x y \<Longrightarrow> agree n (d x) (d y)"
    and "\<And>x. d (e x) = x" "\<And>x. e (d x) = x"
  shows "agree n (e x) (e y) \<longleftrightarrow> agree n x y" "onto n e"
proof -
  show "agree n (e x) (e y) \<longleftrightarrow> agree n x y" using assms(1)[of x y] assms(2)[of "e x" "e y"] assms(3) by auto
  show "onto n e" unfolding onto_def using assms(4) agree_refl by metis
qed

lemma mv_agree: "agree n x y \<Longrightarrow> mv n a x = mv n a y"
  by (simp add: agree_def mv_def fun_eq_iff)

text \<open>A row step \<open>f\<close> that acts on vectors as \<open>e\<close>.\<close>

lemma equiv_on_rows:
  assumes "equiv_snf m n A s"
    and f: "\<And>k x. rect m k x \<Longrightarrow> rect m k (f x)" "\<And>k x y. rect m k x \<Longrightarrow> agree m (mv k (f x) y) (e (mv k x y))"
    and e: "\<And>x y. agree m (e x) (e y) \<longleftrightarrow> agree m x y" "onto m e"
  shows "equiv_snf m n A (on_rows f s)"
proof -
  have r: "rect m n (nf_a s)" "rect m m (nf_u s)" using assms(1) by (simp_all add: equiv_snf_def)
  have u: "onto m (mv m (nf_u s))" "faithful m (mv m (nf_u s))" using assms(1) by (simp_all add: equiv_snf_def)
  note fu = f(2)[OF r(2)] and fa = f(2)[OF r(1)]
  have "\<exists>y. agree m (mv m (f (nf_u s)) y) x" for x
  proof -
    obtain z where z: "agree m (e z) x" using e(2) unfolding onto_def by blast
    obtain y where "agree m (mv m (nf_u s) y) z" using u(1) unfolding onto_def by blast
    then have "agree m (e (mv m (nf_u s) y)) (e z)" using e(1) by simp
    then show ?thesis using agree_trans[OF agree_trans[OF fu] z] by blast
  qed
  moreover have "agree m (mv m (f (nf_u s)) x) (mv m (f (nf_u s)) y) \<longleftrightarrow> agree m x y" for x y
    using agree_cong[OF fu[of x] fu[of y]] e(1) u(2) unfolding faithful_def by simp
  moreover have "agree m (mv m (f (nf_u s)) (mv n A (mv n (nf_v s) y))) (mv n (f (nf_a s)) y)" for y
  proof -
    have "agree m (mv m (nf_u s) (mv n A (mv n (nf_v s) y))) (mv n (nf_a s) y)" using assms(1) by (simp add: equiv_snf_def)
    then show ?thesis using agree_cong[OF fu fa] e(1) by simp
  qed
  ultimately show ?thesis using assms(1) f(1) by (simp add: equiv_snf_def on_rows_def onto_def faithful_def)
qed

text \<open>A column step \<open>f\<close> that acts on the argument as \<open>c\<close>.\<close>

lemma equiv_on_cols:
  assumes "equiv_snf m n A s"
    and f: "\<And>k x. rect k n x \<Longrightarrow> rect k n (f x)" "\<And>k x y. rect k n x \<Longrightarrow> agree k (mv n (f x) y) (mv n x (c y))"
    and c: "\<And>x y. agree n (c x) (c y) \<longleftrightarrow> agree n x y" "onto n c"
  shows "equiv_snf m n A (on_cols f s)"
proof -
  have r: "rect m n (nf_a s)" "rect n n (nf_v s)" using assms(1) by (simp_all add: equiv_snf_def)
  have v: "onto n (mv n (nf_v s))" "faithful n (mv n (nf_v s))" using assms(1) by (simp_all add: equiv_snf_def)
  note fv = f(2)[OF r(2)] and fa = f(2)[OF r(1)]
  have "\<exists>y. agree n (mv n (f (nf_v s)) y) x" for x
  proof -
    obtain z where z: "agree n (mv n (nf_v s) z) x" using v(1) unfolding onto_def by blast
    obtain y where "agree n (c y) z" using c(2) unfolding onto_def by blast
    then have "mv n (nf_v s) (c y) = mv n (nf_v s) z" by (rule mv_agree)
    then show ?thesis using fv[of y] z agree_trans by metis
  qed
  moreover have "agree n (mv n (f (nf_v s)) x) (mv n (f (nf_v s)) y) \<longleftrightarrow> agree n x y" for x y
    using agree_cong[OF fv[of x] fv[of y]] c(1) v(2) unfolding faithful_def by simp
  moreover have "agree m (mv m (nf_u s) (mv n A (mv n (f (nf_v s)) y))) (mv n (f (nf_a s)) y)" for y
  proof -
    have "agree m (mv m (nf_u s) (mv n A (mv n (nf_v s) (c y)))) (mv n (nf_a s) (c y))" using assms(1) by (simp add: equiv_snf_def)
    moreover have "mv n A (mv n (f (nf_v s)) y) = mv n A (mv n (nf_v s) (c y))" by (rule mv_agree[OF fv])
    ultimately show ?thesis using fa[of y] agree_sym agree_trans by metis
  qed
  ultimately show ?thesis using assms(1) f(1) by (simp add: equiv_snf_def on_cols_def onto_def faithful_def)
qed

lemma equiv_row_swap: "equiv_snf m n A s \<Longrightarrow> r < m \<Longrightarrow> k < m \<Longrightarrow> equiv_snf m n A (on_rows (row_swap r k) s)"
proof (erule equiv_on_rows[where e = "\<lambda>x. x(r := x k, k := x r)"])
  assume a: "r < m" "k < m"
  show "rect m l (row_swap r k x)" if "rect m l x" for l x using rect_ops(1)[OF that a] .
  show "agree m (mv l (row_swap r k x) y) ((mv l x y)(r := mv l x y k, k := mv l x y r))" if "rect m l x" for l x y
    using mv_rows(1)[OF that a] by (simp add: agree_def)
  note d = undone[where e = "\<lambda>x. x(r := x k, k := x r)" and d = "\<lambda>x. x(r := x k, k := x r)" and n = m]
  show "agree m (x(r := x k, k := x r)) (y(r := y k, k := y r)) = agree m x y" for x y
    by (rule d(1)) (use a in \<open>auto simp: agree_def\<close>)
  show "onto m (\<lambda>x. x(r := x k, k := x r))" by (rule d(2)) (use a in \<open>auto simp: agree_def\<close>)
qed

lemma equiv_row_addmul:
  "equiv_snf m n A s \<Longrightarrow> r < m \<Longrightarrow> k < m \<Longrightarrow> r \<noteq> k \<Longrightarrow> equiv_snf m n A (on_rows (row_addmul r k q) s)"
proof (erule equiv_on_rows[where e = "\<lambda>x. x(r := x r - q * x k)"])
  assume a: "r < m" "k < m" and ne: "r \<noteq> k"
  show "rect m l (row_addmul r k q x)" if "rect m l x" for l x using rect_ops(2)[OF that a] .
  show "agree m (mv l (row_addmul r k q x) y) ((mv l x y)(r := mv l x y r - q * mv l x y k))" if "rect m l x" for l x y
    using mv_rows(2)[OF that a] by (simp add: agree_def)
  note d = undone[where e = "\<lambda>x. x(r := x r - q * x k)" and d = "\<lambda>x. x(r := x r + q * x k)" and n = m]
  show "agree m (x(r := x r - q * x k)) (y(r := y r - q * y k)) = agree m x y" for x y
    by (rule d(1)) (use a ne in \<open>auto simp: agree_def\<close>)
  show "onto m (\<lambda>x. x(r := x r - q * x k))" by (rule d(2)) (use a ne in \<open>auto simp: agree_def\<close>)
qed

lemma equiv_row_neg: "equiv_snf m n A s \<Longrightarrow> r < m \<Longrightarrow> equiv_snf m n A (on_rows (row_neg r) s)"
proof (erule equiv_on_rows[where e = "\<lambda>x. x(r := - x r)"])
  assume a: "r < m"
  show "rect m l (row_neg r x)" if "rect m l x" for l x using rect_ops(5)[OF that a] .
  show "agree m (mv l (row_neg r x) y) ((mv l x y)(r := - mv l x y r))" if "rect m l x" for l x y
    using mv_rows(3)[OF that a a] by (simp add: agree_def)
  show "agree m (x(r := - x r)) (y(r := - y r)) = agree m x y" for x y
    using a by (auto simp: agree_def split: if_splits)
  show "onto m (\<lambda>x. x(r := - x r))"
    unfolding onto_def by (rule allI, rule_tac x = "x(r := - x r)" in exI) (simp add: agree_def)
qed

lemma equiv_col_swap: "equiv_snf m n A s \<Longrightarrow> r < n \<Longrightarrow> k < n \<Longrightarrow> equiv_snf m n A (on_cols (col_swap r k) s)"
proof (erule equiv_on_cols[where c = "\<lambda>x. x(r := x k, k := x r)"])
  assume a: "r < n" "k < n"
  show "rect l n (col_swap r k x)" if "rect l n x" for l x using rect_ops(3)[OF that] .
  show "agree l (mv n (col_swap r k x) y) (mv n x (y(r := y k, k := y r)))" if "rect l n x" for l x y
    using mv_col_swap[OF that a] by (simp add: agree_def)
  note d = undone[where e = "\<lambda>x. x(r := x k, k := x r)" and d = "\<lambda>x. x(r := x k, k := x r)" and n = n]
  show "agree n (x(r := x k, k := x r)) (y(r := y k, k := y r)) = agree n x y" for x y
    by (rule d(1)) (use a in \<open>auto simp: agree_def\<close>)
  show "onto n (\<lambda>x. x(r := x k, k := x r))" by (rule d(2)) (use a in \<open>auto simp: agree_def\<close>)
qed

lemma equiv_col_addmul:
  "equiv_snf m n A s \<Longrightarrow> r < n \<Longrightarrow> k < n \<Longrightarrow> r \<noteq> k \<Longrightarrow> equiv_snf m n A (on_cols (col_addmul r k q) s)"
proof (erule equiv_on_cols[where c = "\<lambda>x. x(k := x k - q * x r)"])
  assume a: "r < n" "k < n" "r \<noteq> k"
  show "rect l n (col_addmul r k q x)" if "rect l n x" for l x using rect_ops(4)[OF that] .
  show "agree l (mv n (col_addmul r k q x) y) (mv n x (y(k := y k - q * y r)))" if "rect l n x" for l x y
    using mv_col_addmul[OF that a] by (simp add: agree_def)
  note d = undone[where e = "\<lambda>x. x(k := x k - q * x r)" and d = "\<lambda>x. x(k := x k + q * x r)" and n = n]
  show "agree n (x(k := x k - q * x r)) (y(k := y k - q * y r)) = agree n x y" for x y
    by (rule d(1)) (use a  in \<open>auto simp: agree_def\<close>)
  show "onto n (\<lambda>x. x(k := x k - q * x r))" by (rule d(2)) (use a  in \<open>auto simp: agree_def\<close>)
qed

lemma equiv_start: "rect m n a \<Longrightarrow> equiv_snf m n a \<lparr>nf_a = a, nf_u = ident m, nf_v = ident n\<rparr>"
proof -
  assume r: "rect m n a"
  have "agree n (mv n (ident n) y) y" for n y by (simp add: agree_def mv_ident)
  then have o: "onto n (mv n (ident n))" "faithful n (mv n (ident n))" for n
    unfolding onto_def faithful_def by (meson agree_sym agree_trans)+
  have "agree m (mv m (ident m) (mv n a (mv n (ident n) y))) (mv n a y)" for y
    using mv_agree[of n "mv n (ident n) y" y a] by (simp add: agree_def mv_ident)
  then show ?thesis using r o ident_rect by (simp add: equiv_snf_def)
qed

section \<open>The steps keep what is done\<close>

text \<open>Before row and column \<open>t\<close> only the diagonal is left, and each of its entries divides what follows.\<close>

definition cleared :: "nat \<Rightarrow> nat \<Rightarrow> nat \<Rightarrow> imat \<Rightarrow> bool" where
  "cleared m n t a \<longleftrightarrow> (\<forall>i<m. \<forall>j<n. i \<noteq> j \<and> (i < t \<or> j < t) \<longrightarrow> a ! i ! j = 0)"

definition chained :: "nat \<Rightarrow> nat \<Rightarrow> nat \<Rightarrow> imat \<Rightarrow> bool" where
  "chained m n t a \<longleftrightarrow> (\<forall>k<t. \<forall>i<m. \<forall>j<n. k \<le> i \<and> k \<le> j \<longrightarrow> a ! k ! k dvd a ! i ! j)"

definition good :: "nat \<Rightarrow> nat \<Rightarrow> imat \<Rightarrow> nat \<Rightarrow> snf \<Rightarrow> bool" where
  "good m n A t s \<longleftrightarrow> equiv_snf m n A s \<and> cleared m n t (nf_a s) \<and> chained m n t (nf_a s) \<and> t \<le> m \<and> t \<le> n"

lemma good_rect: "good m n A t s \<Longrightarrow> rect m n (nf_a s)"
  by (simp add: good_def equiv_snf_def)

lemma nf_a_on [simp]: "nf_a (on_rows f s) = f (nf_a s)" "nf_a (on_cols f s) = f (nf_a s)"
  by (simp_all add: on_rows_def on_cols_def)

lemma kept:
  assumes "cleared m n t a" "chained m n t a" "t \<le> m" "t \<le> n"
    and "\<And>i j. i < m \<Longrightarrow> j < n \<Longrightarrow> i < t \<or> j < t \<Longrightarrow> b ! i ! j = a ! i ! j"
    and "\<And>k i j. k < t \<Longrightarrow> t \<le> i \<Longrightarrow> i < m \<Longrightarrow> t \<le> j \<Longrightarrow> j < n \<Longrightarrow> a ! k ! k dvd b ! i ! j"
  shows "cleared m n t b \<and> chained m n t b"
proof
  show "cleared m n t b" using assms(1,5) by (auto simp: cleared_def)
  show "chained m n t b" unfolding chained_def
  proof (intro allI impI)
    fix k i j assume k: "k < t" "i < m" "j < n" "k \<le> i \<and> k \<le> j"
    have kk: "b ! k ! k = a ! k ! k" using assms(3-5) k(1) by simp
    have d: "a ! k ! k dvd a ! i ! j" using assms(2) k by (auto simp: chained_def)
    show "b ! k ! k dvd b ! i ! j"
    proof (cases "i < t \<or> j < t")
      case True
      then show ?thesis using assms(5) k d kk by simp
    next
      case False
      then show ?thesis using assms(6)[of k i j] k kk by simp
    qed
  qed
qed

lemma chained_dvd: "chained m n t a \<Longrightarrow> k < t \<Longrightarrow> t \<le> i \<Longrightarrow> i < m \<Longrightarrow> t \<le> j \<Longrightarrow> j < n \<Longrightarrow> a ! k ! k dvd a ! i ! j"
  by (auto simp: chained_def)

lemma cleared_eq: "cleared m n t a \<Longrightarrow> i < m \<Longrightarrow> j < n \<Longrightarrow> i \<noteq> j \<Longrightarrow> i < t \<or> j < t \<Longrightarrow> a ! i ! j = 0"
  by (auto simp: cleared_def)

lemma good_row_swap:
  assumes "good m n A t s" "t \<le> r" "r < m" "t \<le> k" "k < m"
  shows "good m n A t (on_rows (row_swap r k) s)"
proof -
  note g = assms(1)[unfolded good_def]
  note at = row_swap_at[OF good_rect[OF assms(1)] assms(3,5)]
  have "cleared m n t (row_swap r k (nf_a s)) \<and> chained m n t (row_swap r k (nf_a s))"
    by (rule kept[of m n t "nf_a s"]) (use g assms(2-5) at chained_dvd cleared_eq[of m n t "nf_a s"] in \<open>auto simp: cleared_eq\<close>)
  then show ?thesis using g equiv_row_swap[of m n A s r k] assms by (simp add: good_def)
qed

lemma good_row_addmul:
  assumes "good m n A t s" "t \<le> r" "r < m" "t \<le> k" "k < m" "r \<noteq> k"
  shows "good m n A t (on_rows (row_addmul r k q) s)"
proof -
  note g = assms(1)[unfolded good_def]
  note at = row_addmul_at[OF good_rect[OF assms(1)] assms(3,5)]
  have "cleared m n t (row_addmul r k q (nf_a s)) \<and> chained m n t (row_addmul r k q (nf_a s))"
    by (rule kept[of m n t "nf_a s"]) (use g assms(2-6) at chained_dvd cleared_eq[of m n t "nf_a s"] in \<open>auto intro!: dvd_diff dvd_mult\<close>)
  then show ?thesis using g equiv_row_addmul[of m n A s r k q] assms by (simp add: good_def)
qed

lemma good_col_swap:
  assumes "good m n A t s" "t \<le> r" "r < n" "t \<le> k" "k < n"
  shows "good m n A t (on_cols (col_swap r k) s)"
proof -
  note g = assms(1)[unfolded good_def]
  note at = col_swap_at[OF good_rect[OF assms(1)] assms(3,5)]
  have "cleared m n t (col_swap r k (nf_a s)) \<and> chained m n t (col_swap r k (nf_a s))"
    by (rule kept[of m n t "nf_a s"]) (use g assms(2-5) at chained_dvd cleared_eq[of m n t "nf_a s"] in \<open>auto simp: cleared_eq\<close>)
  then show ?thesis using g equiv_col_swap[of m n A s r k] assms by (simp add: good_def)
qed

lemma good_col_addmul:
  assumes "good m n A t s" "t \<le> r" "r < n" "t \<le> k" "k < n" "r \<noteq> k"
  shows "good m n A t (on_cols (col_addmul r k q) s)"
proof -
  note g = assms(1)[unfolded good_def]
  note at = col_addmul_at[OF good_rect[OF assms(1)] assms(3,5)]
  have "cleared m n t (col_addmul r k q (nf_a s)) \<and> chained m n t (col_addmul r k q (nf_a s))"
    by (rule kept[of m n t "nf_a s"]) (use g assms(2-6) at chained_dvd cleared_eq[of m n t "nf_a s"] in \<open>auto intro!: dvd_diff dvd_mult\<close>)
  then show ?thesis using g equiv_col_addmul[of m n A s r k q] assms by (simp add: good_def)
qed

section \<open>Elimination\<close>

lemma smod_small: "b \<noteq> 0 \<Longrightarrow> \<bar>x smod b\<bar> < \<bar>b\<bar>" for x b :: int
  using smod_int_range[of b x] by force

lemma smod_dvd: "x smod b = 0 \<longleftrightarrow> b dvd x" for x b :: int
  by (auto simp: smod_int_alt_def sgn_0_0 dvd_eq_mod_eq_0[symmetric])

lemma quot_rest: "x - x sdiv b * b = x smod b" for x b :: int
  by (rule minus_sdiv_mult_eq_smod)

definition rows_done :: "nat \<Rightarrow> nat \<Rightarrow> imat \<Rightarrow> nat \<Rightarrow> imat \<Rightarrow> nat \<Rightarrow> snf \<times> bool \<Rightarrow> bool" where
  "rows_done m n A t a0 k p \<longleftrightarrow>
     (let a = nf_a (fst p)
      in good m n A t (fst p) \<and> a ! t ! t \<noteq> 0
         \<and> (if snd p then \<bar>a ! t ! t\<bar> < \<bar>a0 ! t ! t\<bar>
            else (\<forall>i<m. i = t \<or> k \<le> i \<longrightarrow> (\<forall>j<n. a ! i ! j = a0 ! i ! j))
               \<and> (\<forall>i<k. t < i \<longrightarrow> a ! i ! t = 0 \<and> a0 ! t ! t dvd a0 ! i ! t)))"

lemma rows_done_step:
  assumes "rows_done m n A t a0 k p" "t < k" "k < m" "t < n"
  shows "rows_done m n A t a0 (Suc k) (row_step t p k)"
proof -
  obtain s b where p: "p = (s, b)" by (cases p)
  let ?a = "nf_a s" and ?q = "nf_a s ! k ! t sdiv nf_a s ! t ! t"
  have g: "good m n A t s" and nz: "?a ! t ! t \<noteq> 0"
    and f: "if b then \<bar>?a ! t ! t\<bar> < \<bar>a0 ! t ! t\<bar>
      else (\<forall>i<m. i = t \<or> k \<le> i \<longrightarrow> (\<forall>j<n. ?a ! i ! j = a0 ! i ! j)) \<and> (\<forall>i<k. t < i \<longrightarrow> ?a ! i ! t = 0 \<and> a0 ! t ! t dvd a0 ! i ! t)"
    using assms(1) by (simp_all add: rows_done_def p Let_def)
  define s1 where "s1 = on_rows (row_addmul k t ?q) s"
  have t: "t < m" "t \<noteq> k" using assms by simp_all
  have g1: "good m n A t s1" unfolding s1_def by (rule good_row_addmul[OF g]) (use assms t in auto)
  have at: "nf_a s1 ! i ! j = (if i = k then ?a ! k ! j - ?q * ?a ! t ! j else ?a ! i ! j)" if "i < m" "j < n" for i j
    unfolding s1_def using row_addmul_at[OF good_rect[OF g] assms(3) t(1) that] by simp
  have rest: "nf_a s1 ! k ! t = ?a ! k ! t smod ?a ! t ! t" using at[OF assms(3,4)] quot_rest by simp
  show ?thesis
  proof (cases "?a ! k ! t = 0")
    case True
    then have r: "row_step t p k = p" by (simp add: row_step_def p)
    have z: "\<not> b \<longrightarrow> a0 ! k ! t = 0" using f True assms(3,4) by (cases b) auto
    show ?thesis unfolding r using f g nz True z
      by (cases b) (auto simp: rows_done_def p less_Suc_eq assms(3))
  next
    case nk: False
    show ?thesis
    proof (cases "nf_a s1 ! k ! t = 0")
      case True
      then have r: "row_step t p k = (s1, b)" using nk by (simp add: row_step_def p Let_def s1_def)
      have d: "?a ! t ! t dvd ?a ! k ! t" using True rest smod_dvd by simp
      have tt: "nf_a s1 ! t ! t = ?a ! t ! t" and old: "i < m \<Longrightarrow> i \<noteq> k \<Longrightarrow> j < n \<Longrightarrow> nf_a s1 ! i ! j = ?a ! i ! j" for i j
        using at t assms(4) by auto
      show ?thesis
      proof (cases b)
        case True
        then show ?thesis unfolding r using f g1 nz tt by (simp add: rows_done_def)
      next
        case False
        have a0: "i < m \<Longrightarrow> i = t \<or> k \<le> i \<Longrightarrow> j < n \<Longrightarrow> ?a ! i ! j = a0 ! i ! j" for i j using f False by auto
        have z: "i < k \<Longrightarrow> t < i \<Longrightarrow> ?a ! i ! t = 0 \<and> a0 ! t ! t dvd a0 ! i ! t" for i using f False by auto
        have "nf_a s1 ! i ! j = a0 ! i ! j" if "i < m" "i = t \<or> Suc k \<le> i" "j < n" for i j
          using old[OF that(1) _ that(3)] a0[OF that(1) _ that(3)] that(2) t by auto
        moreover have "nf_a s1 ! i ! t = 0 \<and> a0 ! t ! t dvd a0 ! i ! t" if "i < Suc k" "t < i" for i
        proof (cases "i = k")
          case True
          then show ?thesis using \<open>nf_a s1 ! k ! t = 0\<close> d a0[OF t(1) _ assms(4)] a0[OF assms(3) _ assms(4)] by simp
        next
          case False
          then show ?thesis using z[of i] old[of i t] that assms(3,4) by simp
        qed
        ultimately show ?thesis unfolding r using g1 nz tt False by (simp add: rows_done_def)
      qed
    next
      case False
      then have r: "row_step t p k = (on_rows (row_swap t k) s1, True)" using nk by (simp add: row_step_def p Let_def s1_def)
      have g2: "good m n A t (on_rows (row_swap t k) s1)" by (rule good_row_swap[OF g1]) (use assms t in auto)
      have e: "nf_a (on_rows (row_swap t k) s1) ! t ! t = nf_a s1 ! k ! t"
        using row_swap_at[OF good_rect[OF g1] t(1) assms(3) t(1)] t(2) by simp
      have "\<bar>nf_a s1 ! k ! t\<bar> < \<bar>?a ! t ! t\<bar>" unfolding rest by (rule smod_small[OF nz])
      moreover have "\<bar>?a ! t ! t\<bar> \<le> \<bar>a0 ! t ! t\<bar>"
      proof (cases b)
        case False
        then have "\<forall>i<m. i = t \<or> k \<le> i \<longrightarrow> (\<forall>j<n. ?a ! i ! j = a0 ! i ! j)" using f by (simp only: if_False) blast
        from this[rule_format, OF t(1) _ assms(4)] show ?thesis by simp
      qed (use f in simp)
      ultimately show ?thesis unfolding r using g2 e False by (simp add: rows_done_def)
    qed
  qed
qed

lemma rows_done_pass:
  assumes "good m n A t s" "nf_a s ! t ! t \<noteq> 0" "t < n" "t < m" "k \<le> m"
  shows "rows_done m n A t (nf_a s) (max k (Suc t)) (foldl (row_step t) (s, False) [t + 1..<k])"
  using assms(5)
proof (induction k)
  case 0
  then show ?case using assms by (simp add: rows_done_def)
next
  case (Suc k)
  show ?case
  proof (cases "t < k")
    case True
    then have e: "max k (Suc t) = k" "max (Suc k) (Suc t) = Suc k" "[t + 1..<Suc k] = [t + 1..<k] @ [k]" by simp_all
    show ?thesis using rows_done_step[OF Suc.IH[unfolded e(1)] True] Suc.prems assms(3) unfolding e(2,3) by simp
  next
    case False
    then show ?thesis using assms by (auto simp: rows_done_def max_def)
  qed
qed

definition cols_done :: "nat \<Rightarrow> nat \<Rightarrow> imat \<Rightarrow> nat \<Rightarrow> imat \<Rightarrow> bool \<Rightarrow> nat \<Rightarrow> snf \<times> bool \<Rightarrow> bool" where
  "cols_done m n A t a1 b1 k p \<longleftrightarrow>
     (let a = nf_a (fst p)
      in good m n A t (fst p) \<and> a ! t ! t \<noteq> 0 \<and> \<bar>a ! t ! t\<bar> \<le> \<bar>a1 ! t ! t\<bar>
         \<and> (if snd p then b1 \<or> \<bar>a ! t ! t\<bar> < \<bar>a1 ! t ! t\<bar>
            else \<not> b1 \<and> a ! t ! t = a1 ! t ! t \<and> (\<forall>i<m. t < i \<longrightarrow> a ! i ! t = 0) \<and> (\<forall>j<n. k \<le> j \<longrightarrow> a ! t ! j = a1 ! t ! j)
               \<and> (\<forall>j<k. t < j \<longrightarrow> a ! t ! j = 0 \<and> a1 ! t ! t dvd a1 ! t ! j)))"

lemma cols_done_step:
  assumes "cols_done m n A t a1 b1 k p" "t < k" "k < n" "t < m"
  shows "cols_done m n A t a1 b1 (Suc k) (col_step t p k)"
proof -
  obtain s b where p: "p = (s, b)" by (cases p)
  let ?a = "nf_a s" and ?q = "nf_a s ! t ! k sdiv nf_a s ! t ! t"
  have g: "good m n A t s" and nz: "?a ! t ! t \<noteq> 0" and le: "\<bar>?a ! t ! t\<bar> \<le> \<bar>a1 ! t ! t\<bar>"
    and fb: "b \<Longrightarrow> b1 \<or> \<bar>?a ! t ! t\<bar> < \<bar>a1 ! t ! t\<bar>"
    and f: "\<not> b \<Longrightarrow> \<not> b1 \<and> ?a ! t ! t = a1 ! t ! t \<and> (\<forall>i<m. t < i \<longrightarrow> ?a ! i ! t = 0) \<and> (\<forall>j<n. k \<le> j \<longrightarrow> ?a ! t ! j = a1 ! t ! j)
        \<and> (\<forall>j<k. t < j \<longrightarrow> ?a ! t ! j = 0 \<and> a1 ! t ! t dvd a1 ! t ! j)"
    using assms(1) by (simp_all add: cols_done_def p Let_def)
  define s1 where "s1 = on_cols (col_addmul k t ?q) s"
  have t: "t < n" "t \<noteq> k" using assms by simp_all
  have g1: "good m n A t s1" unfolding s1_def by (rule good_col_addmul[OF g]) (use assms t in auto)
  have at: "nf_a s1 ! i ! j = (if j = k then ?a ! i ! k - ?q * ?a ! i ! t else ?a ! i ! j)" if "i < m" "j < n" for i j
    unfolding s1_def using col_addmul_at[OF good_rect[OF g] assms(3) t(1) that] by simp
  have rest: "nf_a s1 ! t ! k = ?a ! t ! k smod ?a ! t ! t" using at[OF assms(4,3)] quot_rest by simp
  show ?thesis
  proof (cases "?a ! t ! k = 0")
    case True
    then have r: "col_step t p k = p" by (simp add: col_step_def p)
    have z: "\<not> b \<Longrightarrow> a1 ! t ! k = 0" using f True assms(3) by auto
    show ?thesis unfolding r using f fb g nz le True z
      by (cases b) (auto simp: cols_done_def p less_Suc_eq)
  next
    case nk: False
    show ?thesis
    proof (cases "nf_a s1 ! t ! k = 0")
      case True
      then have r: "col_step t p k = (s1, b)" using nk by (simp add: col_step_def p Let_def s1_def)
      have d: "?a ! t ! t dvd ?a ! t ! k" using True rest smod_dvd by simp
      have tt: "nf_a s1 ! t ! t = ?a ! t ! t" and old: "i < m \<Longrightarrow> j \<noteq> k \<Longrightarrow> j < n \<Longrightarrow> nf_a s1 ! i ! j = ?a ! i ! j" for i j
        using at t assms(4) by auto
      show ?thesis
      proof (cases b)
        case True
        then show ?thesis unfolding r using fb g1 nz tt le by (simp add: cols_done_def)
      next
        case False
        note f' = f[OF False]
        have "nf_a s1 ! t ! j = 0 \<and> a1 ! t ! t dvd a1 ! t ! j" if "j < Suc k" "t < j" for j
        proof (cases "j = k")
          case True
          then show ?thesis using \<open>nf_a s1 ! t ! k = 0\<close> d f' assms(3) by simp
        next
          case False
          then show ?thesis using f' old[of t j] that assms(3,4) by simp
        qed
        then show ?thesis unfolding r using g1 nz tt le f' False old t assms(4) by (simp add: cols_done_def)
      qed
    next
      case False
      then have r: "col_step t p k = (on_cols (col_swap t k) s1, True)" using nk by (simp add: col_step_def p Let_def s1_def)
      have g2: "good m n A t (on_cols (col_swap t k) s1)" by (rule good_col_swap[OF g1]) (use assms t in auto)
      have e: "nf_a (on_cols (col_swap t k) s1) ! t ! t = nf_a s1 ! t ! k"
        using col_swap_at[OF good_rect[OF g1] t(1) assms(3,4) t(1)] t(2) by simp
      have "\<bar>nf_a s1 ! t ! k\<bar> < \<bar>?a ! t ! t\<bar>" unfolding rest by (rule smod_small[OF nz])
      then show ?thesis unfolding r using g2 e False le by (simp add: cols_done_def)
    qed
  qed
qed

lemma cols_done_pass:
  assumes "cols_done m n A t a1 b1 (Suc t) p" "t < m" "t < n" "k \<le> n"
  shows "cols_done m n A t a1 b1 (max k (Suc t)) (foldl (col_step t) p [t + 1..<k])"
  using assms(4)
proof (induction k)
  case (Suc k)
  show ?case
  proof (cases "t < k")
    case True
    then have e: "max k (Suc t) = k" "max (Suc k) (Suc t) = Suc k" "[t + 1..<Suc k] = [t + 1..<k] @ [k]" by simp_all
    show ?thesis using cols_done_step[OF Suc.IH[unfolded e(1)] True] Suc.prems assms(2) unfolding e(2,3) by simp
  qed (use assms in \<open>auto simp: max_def\<close>)
qed (use assms in simp)

text \<open>After a pass that swapped something the pivot is smaller; otherwise its row and column are clear.\<close>

lemma elim_pass_ok:
  assumes "good m n A t s" "nf_a s ! t ! t \<noteq> 0" "t < n" "t < m" "elim_pass m n t s = (s', b)"
  shows "good m n A t s' \<and> nf_a s' ! t ! t \<noteq> 0
    \<and> (b \<longrightarrow> \<bar>nf_a s' ! t ! t\<bar> < \<bar>nf_a s ! t ! t\<bar>)
    \<and> (\<not> b \<longrightarrow> nf_a s' ! t ! t = nf_a s ! t ! t \<and> (\<forall>i<m. t < i \<longrightarrow> nf_a s' ! i ! t = 0) \<and> (\<forall>j<n. t < j \<longrightarrow> nf_a s' ! t ! j = 0)
        \<and> (\<forall>j<n. t < j \<longrightarrow> nf_a s ! t ! t dvd nf_a s ! t ! j))"
proof -
  obtain s1 b1 where p1: "foldl (row_step t) (s, False) [t + 1..<m] = (s1, b1)" by (metis surj_pair)
  have "max m (Suc t) = m" "max n (Suc t) = n" using assms(3,4) by simp_all
  note mx = this
  have r: "rows_done m n A t (nf_a s) m (s1, b1)" using rows_done_pass[OF assms(1-4), of m] p1 mx by simp
  have rn: "\<not> b1 \<Longrightarrow> (\<forall>j<n. nf_a s1 ! t ! j = nf_a s ! t ! j) \<and> (\<forall>i<m. t < i \<longrightarrow> nf_a s1 ! i ! t = 0)"
    using r assms(4) by (simp add: rows_done_def Let_def)
  have c0: "cols_done m n A t (nf_a s1) b1 (Suc t) (s1, b1)"
    using r rn by (auto simp: rows_done_def cols_done_def Let_def)
  have c: "cols_done m n A t (nf_a s1) b1 n (s', b)"
    using cols_done_pass[OF c0 assms(4,3), of n] p1 mx assms(5) by (simp add: elim_pass_def)
  have le: "\<bar>nf_a s1 ! t ! t\<bar> \<le> \<bar>nf_a s ! t ! t\<bar>" "b1 \<Longrightarrow> \<bar>nf_a s1 ! t ! t\<bar> < \<bar>nf_a s ! t ! t\<bar>"
    using r rn assms(3) by (cases b1; force simp: rows_done_def Let_def)+
  have "b \<longrightarrow> \<bar>nf_a s' ! t ! t\<bar> < \<bar>nf_a s ! t ! t\<bar>" using c le by (auto simp: cols_done_def Let_def)
  moreover have "\<not> b \<longrightarrow> nf_a s' ! t ! t = nf_a s ! t ! t \<and> (\<forall>i<m. t < i \<longrightarrow> nf_a s' ! i ! t = 0)
      \<and> (\<forall>j<n. t < j \<longrightarrow> nf_a s' ! t ! j = 0) \<and> (\<forall>j<n. t < j \<longrightarrow> nf_a s ! t ! t dvd nf_a s ! t ! j)"
  proof
    assume nb: "\<not> b"
    have c': "\<not> b1" "nf_a s' ! t ! t = nf_a s1 ! t ! t" "\<forall>i<m. t < i \<longrightarrow> nf_a s' ! i ! t = 0"
      "\<forall>j<n. t < j \<longrightarrow> nf_a s' ! t ! j = 0 \<and> nf_a s1 ! t ! t dvd nf_a s1 ! t ! j"
      using c nb by (simp_all add: cols_done_def Let_def)
    have "\<forall>j<n. nf_a s1 ! t ! j = nf_a s ! t ! j" using rn[OF c'(1)] by blast
    then show "nf_a s' ! t ! t = nf_a s ! t ! t \<and> (\<forall>i<m. t < i \<longrightarrow> nf_a s' ! i ! t = 0)
      \<and> (\<forall>j<n. t < j \<longrightarrow> nf_a s' ! t ! j = 0) \<and> (\<forall>j<n. t < j \<longrightarrow> nf_a s ! t ! t dvd nf_a s ! t ! j)"
      using c' assms(3) by simp
  qed
  ultimately show ?thesis using c by (simp add: cols_done_def Let_def)
qed

definition swept :: "nat \<Rightarrow> nat \<Rightarrow> nat \<Rightarrow> imat \<Rightarrow> bool" where
  "swept m n t a \<longleftrightarrow> a ! t ! t \<noteq> 0 \<and> (\<forall>i<m. t < i \<longrightarrow> a ! i ! t = 0) \<and> (\<forall>j<n. t < j \<longrightarrow> a ! t ! j = 0)"

lemma eliminate_ok:
  assumes "good m n A t s" "nf_a s ! t ! t \<noteq> 0" "t < n" "t < m"
  shows "\<exists>s'. eliminate m n t s = Some s' \<and> good m n A t s' \<and> swept m n t (nf_a s') \<and> \<bar>nf_a s' ! t ! t\<bar> \<le> \<bar>nf_a s ! t ! t\<bar>
    \<and> ((\<exists>j<n. t < j \<and> \<not> nf_a s ! t ! t dvd nf_a s ! t ! j) \<longrightarrow> \<bar>nf_a s' ! t ! t\<bar> < \<bar>nf_a s ! t ! t\<bar>)"
  using assms(1,2)
proof (induction "nat \<bar>nf_a s ! t ! t\<bar>" arbitrary: s rule: less_induct)
  case less
  obtain s1 b where p: "elim_pass m n t s = (s1, b)" by (metis surj_pair)
  note e = elim_pass_ok[OF less.prems assms(3,4) p]
  show ?case
  proof (cases b)
    case True
    then have "nat \<bar>nf_a s1 ! t ! t\<bar> < nat \<bar>nf_a s ! t ! t\<bar>" using e by linarith
    from less.hyps[OF this] obtain s' where s': "eliminate m n t s1 = Some s'" "good m n A t s'" "swept m n t (nf_a s')"
      "\<bar>nf_a s' ! t ! t\<bar> \<le> \<bar>nf_a s1 ! t ! t\<bar>" using e by blast
    have "eliminate m n t s = Some s'" using s'(1) True by (subst eliminate.simps) (simp add: p)
    then show ?thesis using s' e True by auto
  next
    case False
    then have "eliminate m n t s = Some s1" by (subst eliminate.simps) (simp add: p)
    then show ?thesis using e False by (auto simp: swept_def)
  qed
qed

section \<open>The loop\<close>

lemma better_pivot_keeps: "foldl (better_pivot a) (Some b) ps = Some q \<Longrightarrow> q = b \<or> \<bar>a ! fst q ! snd q\<bar> < \<bar>a ! fst b ! snd b\<bar>"
proof (induction ps arbitrary: b)
  case (Cons p ps)
  show ?case
  proof (cases "better_pivot a (Some b) p = Some b")
    case False
    then have "better_pivot a (Some b) p = Some p" "\<bar>a ! fst p ! snd p\<bar> < \<bar>a ! fst b ! snd b\<bar>" by (auto simp: better_pivot_def split: if_splits)
    then show ?thesis using Cons.IH[of p] Cons.prems by auto
  qed (use Cons in simp)
qed simp

lemma better_pivot_Some: "\<exists>q. foldl (better_pivot a) (Some b) ps = Some q"
  by (induction ps arbitrary: b) (auto simp: better_pivot_def)

lemma better_pivot_None: "foldl (better_pivot a) None ps = None \<longleftrightarrow> (\<forall>p \<in> set ps. a ! fst p ! snd p = 0)"
proof (induction ps)
  case (Cons p ps)
  obtain q where q: "foldl (better_pivot a) (Some p) ps = Some q" using better_pivot_Some by blast
  have "better_pivot a None p = (if a ! fst p ! snd p \<noteq> 0 then Some p else None)" by (simp add: better_pivot_def)
  then show ?case using Cons.IH q by simp
qed simp

lemma better_pivot_in: "foldl (better_pivot a) None ps = Some q \<Longrightarrow> q \<in> set ps \<and> a ! fst q ! snd q \<noteq> 0"
proof -
  have "foldl (better_pivot a) b ps = Some q \<Longrightarrow> b = Some q \<or> q \<in> set ps \<and> a ! fst q ! snd q \<noteq> 0" for b
  proof (induction ps arbitrary: b)
    case (Cons p ps)
    then show ?case by (auto simp: better_pivot_def split: if_splits)
  qed simp
  then show "foldl (better_pivot a) None ps = Some q \<Longrightarrow> ?thesis" by blast
qed

lemma pivot_none: "find_pivot a t m n = None \<Longrightarrow> t \<le> i \<Longrightarrow> i < m \<Longrightarrow> t \<le> j \<Longrightarrow> j < n \<Longrightarrow> a ! i ! j = 0"
  by (auto simp: find_pivot_def better_pivot_None)

lemma pivot_some: "find_pivot a t m n = Some p \<Longrightarrow>
    t \<le> fst p \<and> fst p < m \<and> t \<le> snd p \<and> snd p < n \<and> a ! fst p ! snd p \<noteq> 0"
  using better_pivot_in by (fastforce simp: find_pivot_def)

text \<open>A corner entry that is not zero bounds the pivot, and is the pivot when nothing is smaller.\<close>

lemma pivot_corner:
  assumes "a ! t ! t \<noteq> 0" "t < m" "t < n"
  shows "\<exists>p. find_pivot a t m n = Some p \<and> (p = (t, t) \<or> \<bar>a ! fst p ! snd p\<bar> < \<bar>a ! t ! t\<bar>)"
proof -
  obtain ps where "concat (map (\<lambda>i. map (Pair i) [t..<n]) [t..<m]) = (t, t) # ps"
    using assms(2,3) by (simp add: upt_rec[of t m] upt_rec[of t n])
  then have f: "find_pivot a t m n = foldl (better_pivot a) (Some (t, t)) ps" using assms(1) by (simp add: find_pivot_def better_pivot_def)
  then show ?thesis using better_pivot_Some[of a "(t, t)" ps] better_pivot_keeps[of a "(t, t)" ps] by force
qed

lemma misfit_some: "misfit a t m n = Some i \<Longrightarrow> t < i \<and> i < m \<and> (\<exists>j<n. t < j \<and> \<not> a ! t ! t dvd a ! i ! j)"
  by (auto simp: misfit_def find_Some_iff list_ex_iff smod_dvd nth_append)

lemma misfit_none: "misfit a t m n = None \<Longrightarrow> t < i \<Longrightarrow> i < m \<Longrightarrow> t < j \<Longrightarrow> j < n \<Longrightarrow> a ! t ! t dvd a ! i ! j"
  by (auto simp: misfit_def find_None_iff list_ex_iff smod_dvd)

definition uneven :: "nat \<Rightarrow> nat \<Rightarrow> imat \<Rightarrow> bool" where
  "uneven n t a \<longleftrightarrow> (\<exists>j<n. t < j \<and> \<not> a ! t ! t dvd a ! t ! j)"

definition loop_size :: "nat \<Rightarrow> nat \<Rightarrow> nat \<Rightarrow> imat \<Rightarrow> nat" where
  "loop_size m n t a =
     (case find_pivot a t m n of None \<Rightarrow> 0
      | Some p \<Rightarrow> 2 * nat \<bar>a ! fst p ! snd p\<bar> + (if p = (t, t) \<and> uneven n t a then 0 else 1))"

lemma to_corner_ok:
  assumes "good m n A t s" "find_pivot (nf_a s) t m n = Some p"
  shows "good m n A t (to_corner t p s) \<and> nf_a (to_corner t p s) ! t ! t = nf_a s ! fst p ! snd p
    \<and> (p = (t, t) \<longrightarrow> to_corner t p s = s)"
proof -
  note p = pivot_some[OF assms(2)]
  define s1 where "s1 = (if fst p \<noteq> t then on_rows (row_swap t (fst p)) s else s)"
  have t: "t < m" "t < n" using p by simp_all
  have g1: "good m n A t s1" unfolding s1_def using good_row_swap[OF assms(1), of t "fst p"] assms(1) p t by simp
  have a1: "nf_a s1 ! t ! snd p = nf_a s ! fst p ! snd p"
    unfolding s1_def using row_swap_at[OF good_rect[OF assms(1)] t(1), of "fst p" t] p t by simp
  have c: "to_corner t p s = (if snd p \<noteq> t then on_cols (col_swap t (snd p)) s1 else s1)" by (simp add: to_corner_def s1_def)
  have "good m n A t (to_corner t p s)" unfolding c using g1 good_col_swap[OF g1, of t "snd p"] p t by simp
  moreover have "nf_a (to_corner t p s) ! t ! t = nf_a s1 ! t ! snd p"
    unfolding c using p t col_swap_at[OF good_rect[OF g1] t(2), of "snd p" t t] by simp
  moreover have "p = (t, t) \<longrightarrow> to_corner t p s = s" unfolding c s1_def by simp
  ultimately show ?thesis using a1 by simp
qed

lemma good_next:
  assumes "good m n A t s" "swept m n t (nf_a s)" "misfit (nf_a s) t m n = None" "t < m" "t < n"
  shows "good m n A (Suc t) s"
proof -
  have "cleared m n (Suc t) (nf_a s)"
    using assms(1,2) unfolding good_def cleared_def swept_def by (metis less_Suc_eq not_less_iff_gr_or_eq)
  moreover have "nf_a s ! t ! t dvd nf_a s ! i ! j" if "i < m" "j < n" "t \<le> i" "t \<le> j" for i j
    using misfit_none[OF assms(3), of i j] assms(2) that unfolding swept_def
    by (cases "i = t"; cases "j = t") auto
  ultimately show ?thesis using assms unfolding good_def chained_def by (metis Suc_leI less_Suc_eq)
qed

lemma good_stop:
  assumes "good m n A t s" "find_pivot (nf_a s) t m n = None"
  shows "good m n A (min m n) s"
proof -
  note z = pivot_none[OF assms(2)]
  have "cleared m n (min m n) (nf_a s)"
    using assms(1) z unfolding good_def cleared_def by (metis not_less)
  moreover have "nf_a s ! k ! k dvd nf_a s ! i ! j" if "k < min m n" "i < m" "j < n" "k \<le> i" "k \<le> j" for k i j
    using assms(1) z that unfolding good_def chained_def by (metis dvd_0_right le_trans not_less)
  ultimately show ?thesis using assms(1) by (simp add: good_def chained_def)
qed

lemma add_row_smaller:
  assumes "good m n A t s" "swept m n t (nf_a s)" "misfit (nf_a s) t m n = Some i" "t < m" "t < n"
    and "s' = on_rows (row_addmul t i (- 1)) s"
  shows "good m n A t s' \<and> nf_a s' ! t ! t = nf_a s ! t ! t \<and> uneven n t (nf_a s')"
proof -
  note i = misfit_some[OF assms(3)]
  have at: "nf_a s' ! t ! j = nf_a s ! t ! j + nf_a s ! i ! j" if "j < n" for j
    using row_addmul_at[OF good_rect[OF assms(1)] assms(4) _ assms(4) that, of i "- 1"] i assms(6) by simp
  have z: "nf_a s ! i ! t = 0" "j < n \<Longrightarrow> t < j \<Longrightarrow> nf_a s ! t ! j = 0" for j using assms(2) i by (auto simp: swept_def)
  have "good m n A t s'" unfolding assms(6) by (rule good_row_addmul[OF assms(1)]) (use i assms in auto)
  moreover have tt: "nf_a s' ! t ! t = nf_a s ! t ! t" using at[OF assms(5)] z(1) by simp
  moreover have "uneven n t (nf_a s')" unfolding uneven_def tt using i at z(2) by auto
  ultimately show ?thesis by blast
qed

lemma snf_loop_ok:
  "good m n A t s \<Longrightarrow> \<exists>s'. snf_loop m n t s = Some s' \<and> good m n A (min m n) s'"
proof (induction "(t, s)" arbitrary: t s rule: wf_induct_rule[OF wf_measures[of "[\<lambda>(t, s). min m n - t, \<lambda>(t, s). loop_size m n t (nf_a s)]"]])
  case 1
  show ?case
  proof (cases "t < min m n")
    case False
    then have "t = min m n" using 1(2) by (auto simp: good_def)
    then show ?thesis using 1(2) by (subst snf_loop.simps) simp
  next
    case t: True
    show ?thesis
    proof (cases "find_pivot (nf_a s) t m n")
      case None
      then show ?thesis using good_stop[OF 1(2)] t by (subst snf_loop.simps) simp
    next
      case (Some p)
      note c = to_corner_ok[OF 1(2) Some] and pv = pivot_some[OF Some]
      have tn: "t < m" "t < n" using t by simp_all
      obtain s1 where s1: "eliminate m n t (to_corner t p s) = Some s1" "good m n A t s1" "swept m n t (nf_a s1)"
        "\<bar>nf_a s1 ! t ! t\<bar> \<le> \<bar>nf_a s ! fst p ! snd p\<bar>"
        "uneven n t (nf_a (to_corner t p s)) \<Longrightarrow> \<bar>nf_a s1 ! t ! t\<bar> < \<bar>nf_a s ! fst p ! snd p\<bar>"
        using eliminate_ok[of m n A t "to_corner t p s"] c pv tn by (auto simp: uneven_def)
      show ?thesis
      proof (cases "misfit (nf_a s1) t m n")
        case None
        have "min m n - Suc t < min m n - t" by (rule diff_less_mono2[OF lessI t])
        then have "\<exists>s'. snf_loop m n (Suc t) s1 = Some s' \<and> good m n A (min m n) s'"
          by (intro 1(1)) (use good_next[OF s1(2,3) None tn] in simp_all)
        then show ?thesis using t Some s1(1) None by (subst snf_loop.simps) simp
      next
        case m: (Some i)
        define s2 where "s2 = on_rows (row_addmul t i (- 1)) s1"
        note a = add_row_smaller[OF s1(2,3) m tn s2_def]
        have nz: "nf_a s2 ! t ! t \<noteq> 0" using a s1(3) by (simp add: swept_def)
        obtain q where q: "find_pivot (nf_a s2) t m n = Some q" "q = (t, t) \<or> \<bar>nf_a s2 ! fst q ! snd q\<bar> < \<bar>nf_a s1 ! t ! t\<bar>"
          using pivot_corner[OF nz tn] a by auto
        have "loop_size m n t (nf_a s2) < loop_size m n t (nf_a s)"
        proof (cases "p = (t, t) \<and> uneven n t (nf_a s)")
          case True
          then show ?thesis using s1(5) c q a by (auto simp: loop_size_def Some)
        next
          case False
          then show ?thesis using s1(4) q a by (auto simp: loop_size_def Some)
        qed
        then have "\<exists>s'. snf_loop m n t s2 = Some s' \<and> good m n A (min m n) s'"
          by (intro 1(1)) (use a in simp_all)
        then show ?thesis using t Some s1(1) m by (subst snf_loop.simps) (simp add: s2_def)
      qed
    qed
  qed
qed

section \<open>The normal form\<close>

text \<open>A diagonal of numbers that are not negative, each dividing the next.\<close>

definition smith_shape :: "nat \<Rightarrow> nat \<Rightarrow> imat \<Rightarrow> bool" where
  "smith_shape m n d \<longleftrightarrow> rect m n d \<and> (\<forall>i<m. \<forall>j<n. i \<noteq> j \<longrightarrow> d ! i ! j = 0)
     \<and> (\<forall>i<min m n. 0 \<le> d ! i ! i) \<and> (\<forall>i. Suc i < min m n \<longrightarrow> d ! i ! i dvd d ! Suc i ! Suc i)"

lemma fix_sign_ok:
  assumes "good m n A (min m n) s" "r < min m n"
  shows "good m n A (min m n) (fix_sign s r) \<and> 0 \<le> nf_a (fix_sign s r) ! r ! r
    \<and> (\<forall>i<min m n. i \<noteq> r \<longrightarrow> nf_a (fix_sign s r) ! i ! i = nf_a s ! i ! i)"
proof (cases "nf_a s ! r ! r < 0")
  case True
  let ?b = "row_neg r (nf_a s)"
  have r: "r < m" "r < n" using assms(2) by simp_all
  have at: "i < m \<Longrightarrow> j < n \<Longrightarrow> ?b ! i ! j = (if i = r then - nf_a s ! r ! j else nf_a s ! i ! j)" for i j
    by (rule row_neg_at[OF good_rect[OF assms(1)] r(1)])
  have "cleared m n (min m n) ?b" using assms(1) at r by (auto simp: good_def cleared_def)
  moreover have "chained m n (min m n) ?b" unfolding chained_def
  proof (intro allI impI)
    fix k i j assume k: "k < min m n" "i < m" "j < n" "k \<le> i \<and> k \<le> j"
    have "nf_a s ! k ! k dvd nf_a s ! i ! j" using assms(1) k unfolding good_def chained_def by blast
    then show "?b ! k ! k dvd ?b ! i ! j" using at[of k k] at[of i j] k by (cases "k = r"; cases "i = r") simp_all
  qed
  ultimately have "good m n A (min m n) (on_rows (row_neg r) s)"
    using equiv_row_neg[of m n A s r] assms(1) r by (simp add: good_def)
  then show ?thesis using True at r by (simp add: fix_sign_def)
qed (use assms in \<open>simp add: fix_sign_def\<close>)

lemma fix_signs:
  assumes "good m n A (min m n) s" "k \<le> min m n"
  shows "good m n A (min m n) (foldl fix_sign s [0..<k]) \<and> (\<forall>i<k. 0 \<le> nf_a (foldl fix_sign s [0..<k]) ! i ! i)"
  using assms(2)
proof (induction k)
  case (Suc k)
  then have "good m n A (min m n) (foldl fix_sign s [0..<k])" "\<forall>i<k. 0 \<le> nf_a (foldl fix_sign s [0..<k]) ! i ! i" by simp_all
  then show ?case using fix_sign_ok[of m n A "foldl fix_sign s [0..<k]" k] Suc.prems by (auto simp: less_Suc_eq)
qed (use assms in simp)

lemma smith_ok:
  assumes "rect m n a" "m = 0 \<Longrightarrow> n = 0"
  shows "\<exists>r. smith_normal_form a = Some r \<and> equiv_snf m n a \<lparr>nf_a = sm_d r, nf_u = sm_u r, nf_v = sm_v r\<rparr> \<and> smith_shape m n (sm_d r)"
proof -
  let ?s = "\<lparr>nf_a = a, nf_u = ident m, nf_v = ident n\<rparr>"
  have l: "length a = m" "(if m = 0 then 0 else length (a ! 0)) = n" using assms by (auto simp: rect_def)
  have "good m n a 0 ?s" using equiv_start[OF assms(1)] by (simp add: good_def cleared_def chained_def)
  from snf_loop_ok[OF this] obtain s where s: "snf_loop m n 0 ?s = Some s" "good m n a (min m n) s" by blast
  define s1 where "s1 = foldl fix_sign s [0..<min m n]"
  have g: "good m n a (min m n) s1" "\<forall>i<min m n. 0 \<le> nf_a s1 ! i ! i" unfolding s1_def using fix_signs[OF s(2) order_refl] by blast+
  have e: "equiv_snf m n a \<lparr>nf_a = nf_a s1, nf_u = nf_u s1, nf_v = nf_v s1\<rparr>" using g(1) by (simp add: good_def equiv_snf_def)
  have "cleared m n (min m n) (nf_a s1)" "chained m n (min m n) (nf_a s1)" using g(1) by (simp_all add: good_def)
  moreover have "i < min m n \<or> j < min m n" if "i < m" "j < n" "i \<noteq> j" for i j using that by auto
  ultimately have "smith_shape m n (nf_a s1)"
    using g(2) good_rect[OF g(1)] by (simp add: smith_shape_def cleared_def chained_def)
  then show ?thesis using e s(1) l by (simp add: smith_normal_form_def Let_def s1_def)
qed

lemma rect_eq:
  assumes "rect m n a" "rect m n b" "\<And>i j. i < m \<Longrightarrow> j < n \<Longrightarrow> a ! i ! j = b ! i ! j"
  shows "a = b"
proof (rule nth_equalityI)
  show "a ! i = b ! i" if "i < length a" for i
    by (rule nth_equalityI) (use assms that in \<open>auto simp: rect_def\<close>)
qed (use assms in \<open>simp add: rect_def\<close>)

lemma matmul_rect: "rect m k a \<Longrightarrow> rect k n b \<Longrightarrow> k = 0 \<Longrightarrow> rect m 0 (matmul a b)"
  "rect m k a \<Longrightarrow> rect k n b \<Longrightarrow> 0 < k \<Longrightarrow> rect m n (matmul a b)"
  by (auto simp: rect_def matmul_def)

lemma matmul_at: "rect m k a \<Longrightarrow> rect k n b \<Longrightarrow> 0 < k \<Longrightarrow> i < m \<Longrightarrow> j < n \<Longrightarrow>
    matmul a b ! i ! j = mv k a (\<lambda>t. b ! t ! j) i"
  by (auto simp: rect_def matmul_def mv_def sum_list_sum_nth atLeast0LessThan)

lemma mv_matmul:
  assumes "rect m k a" "rect k n b" "0 < k" "i < m"
  shows "mv n (matmul a b) y i = mv k a (mv n b y) i"
proof -
  have "mv n (matmul a b) y i = (\<Sum>j<n. \<Sum>t<k. a ! i ! t * b ! t ! j * y j)"
    unfolding mv_def[of n "matmul a b"] using matmul_at[OF assms] by (intro sum.cong) (simp_all add: mv_def sum_distrib_right)
  also have "\<dots> = (\<Sum>t<k. \<Sum>j<n. a ! i ! t * b ! t ! j * y j)" by (rule sum.swap)
  finally show ?thesis by (simp add: mv_def sum_distrib_left mult.assoc)
qed

text \<open>The matrix is the product of the two transformations around the given one.\<close>

lemma equiv_product:
  assumes "equiv_snf m n a s" "rect m n a" "0 < m" "0 < n"
  shows "matmul (matmul (nf_u s) a) (nf_v s) = nf_a s"
proof (rule rect_eq)
  have r: "rect m m (nf_u s)" "rect n n (nf_v s)" "rect m n (nf_a s)" using assms(1) by (simp_all add: equiv_snf_def)
  note ua = matmul_rect(2)[OF r(1) assms(2,3)]
  show "rect m n (matmul (matmul (nf_u s) a) (nf_v s))" by (rule matmul_rect(2)[OF ua r(2) assms(4)])
  show "rect m n (nf_a s)" by (rule r(3))
  fix i j assume i: "i < m" and j: "j < n"
  let ?e = "\<lambda>l. if l = j then 1 else 0 :: int"
  have unit: "mv n x ?e k = x ! k ! j" for x k
  proof -
    have "mv n x ?e k = (\<Sum>l<n. if l = j then x ! k ! l else 0)" unfolding mv_def by (rule sum.cong) simp_all
    then show ?thesis using j by simp
  qed
  have "matmul (matmul (nf_u s) a) (nf_v s) ! i ! j = mv n (matmul (nf_u s) a) (\<lambda>t. nf_v s ! t ! j) i"
    by (rule matmul_at[OF ua r(2) assms(4) i j])
  also have "\<dots> = mv m (nf_u s) (mv n a (\<lambda>t. nf_v s ! t ! j)) i" by (rule mv_matmul[OF r(1) assms(2,3) i])
  also have "\<dots> = mv m (nf_u s) (mv n a (mv n (nf_v s) ?e)) i" unfolding unit ..
  also have "\<dots> = mv n (nf_a s) ?e i" using assms(1) i by (auto simp: equiv_snf_def agree_def)
  finally show "matmul (matmul (nf_u s) a) (nf_v s) ! i ! j = nf_a s ! i ! j" unfolding unit .
qed

section \<open>Constraints on dimensions\<close>

text \<open>Symbols are named by their position. A constraint says that the terms and the right side cancel.\<close>

record dim_con =
  dc_terms :: "(nat \<times> int) list"
  dc_rhs :: dim

record dim_graph =
  dm_syms :: "string list"
  dm_idx :: "(string, nat) omap"
  dm_cons :: "dim_con list"
  dm_known :: "(nat, dim) omap"

definition dim_graph_new :: dim_graph where
  "dim_graph_new = \<lparr>dm_syms = [], dm_idx = [], dm_cons = [], dm_known = []\<rparr>"

definition dim_symbol :: "string \<Rightarrow> dim_graph \<Rightarrow> nat \<times> dim_graph" where
  "dim_symbol nm g =
     (case mget (dm_idx g) nm of
        Some i \<Rightarrow> (i, g)
      | None \<Rightarrow> let i = length (dm_syms g) in (i, g\<lparr>dm_idx := mput nm i (dm_idx g), dm_syms := dm_syms g @ [nm]\<rparr>))"

definition add_eq :: "nat \<Rightarrow> nat \<Rightarrow> dim_graph \<Rightarrow> dim_graph" where
  "add_eq a b g = g\<lparr>dm_cons := dm_cons g @ [\<lparr>dc_terms = [(a, 1), (b, - 1)], dc_rhs = dim_none\<rparr>]\<rparr>"

definition add_combo :: "nat \<Rightarrow> (nat \<times> int) list \<Rightarrow> dim_graph \<Rightarrow> dim_graph" where
  "add_combo out ins g =
     g\<lparr>dm_cons := dm_cons g @ [\<lparr>dc_terms = (out, 1) # map (\<lambda>p. (fst p, - snd p)) ins, dc_rhs = dim_none\<rparr>]\<rparr>"

definition set_known :: "nat \<Rightarrow> dim \<Rightarrow> dim_graph \<Rightarrow> dim_graph" where
  "set_known s d g = g\<lparr>dm_known := mput s d (dm_known g)\<rparr>"

record dim_result =
  dr_dims :: "(string, dim) omap"
  dr_consistent :: bool
  dr_clashes :: "string list"

text \<open>The unknown symbols are the columns of the system.\<close>

definition unknowns :: "dim_graph \<Rightarrow> nat list" where
  "unknowns g = filter (\<lambda>s. mget (dm_known g) s = None) [0..<length (dm_syms g)]"

definition column_of :: "nat list \<Rightarrow> nat \<Rightarrow> nat" where
  "column_of us s = length (takeWhile (\<lambda>x. x \<noteq> s) us)"

definition add_term :: "dim_graph \<Rightarrow> nat list \<Rightarrow> int list \<times> int list \<Rightarrow> nat \<times> int \<Rightarrow> int list \<times> int list" where
  "add_term g us row p =
     (case mget (dm_known g) (fst p) of
        None \<Rightarrow> (let j = column_of us (fst p) in ((fst row)[j := fst row ! j + snd p], snd row))
      | Some d \<Rightarrow> (fst row, map2 (\<lambda>x e. x - snd p * e) (snd row) d))"

definition con_row :: "dim_graph \<Rightarrow> nat list \<Rightarrow> dim_con \<Rightarrow> int list \<times> int list" where
  "con_row g us c =
     (let row = foldl (add_term g us) (replicate (length us) 0, replicate 7 0) (dc_terms c)
      in (fst row, map2 (-) (snd row) (dc_rhs c)))"

definition solvable_at :: "imat \<Rightarrow> imat \<Rightarrow> nat \<Rightarrow> nat \<Rightarrow> nat \<Rightarrow> bool" where
  "solvable_at d ub nd i k =
     (if i < nd \<and> d ! i ! i \<noteq> 0 then ub ! i ! k smod d ! i ! i = 0 else ub ! i ! k = 0)"

definition quotient_at :: "imat \<Rightarrow> imat \<Rightarrow> nat \<Rightarrow> nat \<Rightarrow> nat \<Rightarrow> int" where
  "quotient_at d ub nd i k =
     (if i < nd \<and> d ! i ! i \<noteq> 0 \<and> ub ! i ! k smod d ! i ! i = 0 then ub ! i ! k sdiv d ! i ! i else 0)"

definition free_column :: "imat \<Rightarrow> nat \<Rightarrow> nat \<Rightarrow> bool" where
  "free_column d nd i \<longleftrightarrow> nd \<le> i \<or> d ! i ! i = 0"

definition determined :: "imat \<Rightarrow> imat \<Rightarrow> nat \<Rightarrow> nat \<Rightarrow> nat \<Rightarrow> bool" where
  "determined d v nd nu j = list_all (\<lambda>i. \<not> (free_column d nd i \<and> v ! j ! i \<noteq> 0)) [0..<nu]"

text \<open>\<open>None\<close> without a constraint and with an unknown symbol: the transformations are then empty and
  the code reads a row they do not have.\<close>

definition infer_dims :: "dim_graph \<Rightarrow> dim_result option" where
  "infer_dims g =
     (let us = unknowns g; nu = length us; m = length (dm_cons g); rows = map (con_row g us) (dm_cons g); nd = min m nu
      in if m = 0 \<and> 0 < nu then None
         else case smith_normal_form (map fst rows) of
                None \<Rightarrow> None
              | Some s \<Rightarrow>
                  let ub = matmul (sm_u s) (map snd rows); d = sm_d s;
                      ok = list_all (\<lambda>k. list_all (\<lambda>i. solvable_at d ub nd i k) [0..<m]) [0..<7];
                      y = map (\<lambda>i. map (quotient_at d ub nd i) [0..<7]) [0..<nu];
                      x = matmul (sm_v s) y
                  in Some \<lparr>dr_dims = mbuild (map (\<lambda>kv. (dm_syms g ! fst kv, snd kv)) (dm_known g)
                               @ map (\<lambda>j. (dm_syms g ! (us ! j), map (\<lambda>k. cast_int (x ! j ! k)) [0..<7]))
                                   (filter (determined d (sm_v s) nd nu) [0..<nu])),
                       dr_consistent = ok,
                       dr_clashes = (if ok then [] else concat (map (\<lambda>c. map (\<lambda>p. dm_syms g ! fst p) (dc_terms c)) (dm_cons g)))\<rparr>)"

section \<open>Linear systems\<close>

lemma sdiv_exact: "b \<noteq> 0 \<Longrightarrow> x smod b = 0 \<Longrightarrow> b * (x sdiv b) = x" for x b :: int
  using mult_sdiv_smod_eq[of b x] by simp

text \<open>A diagonal system.\<close>

lemma mv_diag:
  assumes "smith_shape m n d" "i < m"
  shows "mv n d y i = (if i < min m n then d ! i ! i * y i else 0)"
proof (cases "i < n")
  case True
  have "mv n d y i = (\<Sum>j<n. if j = i then d ! i ! i * y i else 0)"
    unfolding mv_def using assms by (intro sum.cong) (auto simp: smith_shape_def)
  then show ?thesis using True assms(2) by simp
next
  case False
  have "mv n d y i = (\<Sum>j<n. 0)" unfolding mv_def by (rule sum.cong) (use assms False in \<open>auto simp: smith_shape_def\<close>)
  then show ?thesis using False by simp
qed

lemma diag_solution:
  assumes "smith_shape m n d" "\<And>i. i < m \<Longrightarrow> if i < min m n \<and> d ! i ! i \<noteq> 0 then c i smod d ! i ! i = 0 else c i = 0"
  shows "agree m (mv n d (\<lambda>i. if i < min m n \<and> d ! i ! i \<noteq> 0 then c i sdiv d ! i ! i else 0)) c"
  unfolding agree_def
proof (intro allI impI)
  fix i assume i: "i < m"
  show "mv n d (\<lambda>i. if i < min m n \<and> d ! i ! i \<noteq> 0 then c i sdiv d ! i ! i else 0) i = c i"
    using assms(2)[OF i] mv_diag[OF assms(1) i] sdiv_exact by (cases "i < min m n \<and> d ! i ! i \<noteq> 0") auto
qed

lemma system_solution:
  assumes "equiv_snf m n A \<lparr>nf_a = d, nf_u = u, nf_v = v\<rparr>" "smith_shape m n d"
    and "\<And>i. i < m \<Longrightarrow> if i < min m n \<and> d ! i ! i \<noteq> 0 then mv m u b i smod d ! i ! i = 0 else mv m u b i = 0"
  shows "agree m (mv n A (mv n v (\<lambda>i. if i < min m n \<and> d ! i ! i \<noteq> 0 then mv m u b i sdiv d ! i ! i else 0))) b"
proof -
  have e: "agree m (mv m u (mv n A (mv n v y))) (mv n d y)" for y using assms(1) by (simp add: equiv_snf_def)
  have f: "agree m (mv m u x) (mv m u z) \<longleftrightarrow> agree m x z" for x z using assms(1) by (simp add: equiv_snf_def faithful_def)
  show ?thesis using e diag_solution[OF assms(2,3)] agree_trans f by blast
qed

lemma system_solvable:
  assumes "equiv_snf m n A \<lparr>nf_a = d, nf_u = u, nf_v = v\<rparr>" "smith_shape m n d"
  shows "(\<exists>x. agree m (mv n A x) b)
    \<longleftrightarrow> (\<forall>i<m. if i < min m n \<and> d ! i ! i \<noteq> 0 then mv m u b i smod d ! i ! i = 0 else mv m u b i = 0)"
    (is "?L = ?R")
proof
  have e: "agree m (mv m u (mv n A (mv n v y))) (mv n d y)" for y using assms(1) by (simp add: equiv_snf_def)
  assume ?L
  then obtain x where x: "agree m (mv n A x) b" by blast
  obtain y where "agree n (mv n v y) x" using assms(1) unfolding equiv_snf_def onto_def by fastforce
  then have "agree m (mv n A (mv n v y)) b" using x mv_agree by metis
  then have "agree m (mv n d y) (mv m u b)" using e[of y] mv_agree[of m "mv n A (mv n v y)" b u] agree_sym by metis
  then have "i < m \<Longrightarrow> mv m u b i = (if i < min m n then d ! i ! i * y i else 0)" for i
    using mv_diag[OF assms(2), of i y] by (simp add: agree_def)
  then show ?R by (auto simp: smod_dvd)
next
  assume ?R
  then show ?L using system_solution[OF assms, of b] by blast
qed

text \<open>Two solutions differ only along the free columns.\<close>

lemma solutions_meet:
  assumes "equiv_snf m n A \<lparr>nf_a = d, nf_u = u, nf_v = v\<rparr>" "smith_shape m n d"
    and "agree m (mv n A x) b" "agree m (mv n A z) b" "determined d v (min m n) n j" "j < n"
  shows "x j = z j"
proof -
  have e: "agree m (mv m u (mv n A (mv n v y))) (mv n d y)" for y using assms(1) by (simp add: equiv_snf_def)
  have on: "\<exists>y. agree n (mv n v y) w" for w using assms(1) unfolding equiv_snf_def onto_def by simp
  obtain p q where p: "agree n (mv n v p) x" and q: "agree n (mv n v q) z" using on by blast
  have "agree m (mv n A (mv n v p)) (mv n A (mv n v q))"
    using mv_agree[OF p, of A] mv_agree[OF q, of A] assms(3,4) agree_sym agree_trans by metis
  then have "mv m u (mv n A (mv n v p)) = mv m u (mv n A (mv n v q))" by (rule mv_agree)
  then have "agree m (mv n d p) (mv n d q)" using e agree_sym agree_trans by metis
  then have pq: "p i = q i" if "\<not> free_column d (min m n) i" for i
    using that mv_diag[OF assms(2), of i p] mv_diag[OF assms(2), of i q] by (auto simp: agree_def free_column_def not_le)
  have pv: "v ! j ! i * p i = v ! j ! i * q i" if "i < n" for i
    using assms(5) pq[of i] that by (cases "free_column d (min m n) i") (auto simp: determined_def list_all_iff)
  have "mv n v p j = mv n v q j" unfolding mv_def by (rule sum.cong) (simp_all only: lessThan_iff pv)
  then show ?thesis using p q assms(6) by (simp add: agree_def)
qed

lemma solutions_part:
  assumes "equiv_snf m n A \<lparr>nf_a = d, nf_u = u, nf_v = v\<rparr>" "smith_shape m n d"
    and "agree m (mv n A x) b" "\<not> determined d v (min m n) n j" "j < n"
  shows "\<exists>z. agree m (mv n A z) b \<and> z j \<noteq> x j"
proof -
  have e: "agree m (mv m u (mv n A (mv n v y))) (mv n d y)" for y using assms(1) by (simp add: equiv_snf_def)
  have f: "agree m (mv m u x) (mv m u z) \<longleftrightarrow> agree m x z" for x z using assms(1) by (simp add: equiv_snf_def faithful_def)
  obtain p where p: "agree n (mv n v p) x" using assms(1) unfolding equiv_snf_def onto_def by fastforce
  obtain i where i: "i < n" "free_column d (min m n) i" "v ! j ! i \<noteq> 0"
    using assms(4) by (auto simp: determined_def list_all_iff)
  let ?q = "p(i := p i + 1)"
  have "agree m (mv n d ?q) (mv n d p)"
    unfolding agree_def using mv_diag[OF assms(2)] i(2) by (auto simp: free_column_def)
  then have "agree m (mv m u (mv n A (mv n v ?q))) (mv m u (mv n A (mv n v p)))"
    using e[of ?q] e[of p] agree_sym agree_trans by metis
  then have "agree m (mv n A (mv n v ?q)) (mv n A (mv n v p))" using f by blast
  then have "agree m (mv n A (mv n v ?q)) b" using mv_agree[OF p, of A] assms(3) agree_trans by metis
  moreover have "mv n v ?q j = mv n v p j + v ! j ! i"
  proof -
    have "mv n v ?q j = (\<Sum>l<n. v ! j ! l * p l + (if l = i then v ! j ! i else 0))"
      unfolding mv_def by (rule sum.cong) (auto simp: algebra_simps)
    then show ?thesis using i(1) by (simp add: sum.distrib mv_def)
  qed
  ultimately show ?thesis using p i(3) assms(5) unfolding agree_def by (metis add_cancel_right_right)
qed

section \<open>What a graph of constraints means\<close>

definition dims_wf :: "dim_graph \<Rightarrow> bool" where
  "dims_wf g \<longleftrightarrow> distinct (dm_syms g) \<and> mwf (dm_known g)
     \<and> (\<forall>s d. mget (dm_known g) s = Some d \<longrightarrow> s < length (dm_syms g) \<and> length d = 7 \<and> map cast_int d = d)
     \<and> (\<forall>c \<in> set (dm_cons g). length (dc_rhs c) = 7 \<and> (\<forall>p \<in> set (dc_terms c). fst p < length (dm_syms g)))"

text \<open>An exponent of each base dimension for each symbol.\<close>

definition knows :: "dim_graph \<Rightarrow> (nat \<Rightarrow> nat \<Rightarrow> int) \<Rightarrow> bool" where
  "knows g w \<longleftrightarrow> (\<forall>s d. mget (dm_known g) s = Some d \<longrightarrow> (\<forall>k<7. w s k = d ! k))"

definition balances :: "(nat \<Rightarrow> nat \<Rightarrow> int) \<Rightarrow> dim_con \<Rightarrow> bool" where
  "balances w c \<longleftrightarrow> (\<forall>k<7. sum_list (map (\<lambda>p. snd p * w (fst p) k) (dc_terms c)) + dc_rhs c ! k = 0)"

definition solves :: "dim_graph \<Rightarrow> (nat \<Rightarrow> nat \<Rightarrow> int) \<Rightarrow> bool" where
  "solves g w \<longleftrightarrow> knows g w \<and> list_all (balances w) (dm_cons g)"

lemma column_of_ok: "s \<in> set us \<Longrightarrow> column_of us s < length us \<and> us ! column_of us s = s"
  unfolding column_of_def by (induction us) auto

lemma column_of_nth: "distinct us \<Longrightarrow> j < length us \<Longrightarrow> column_of us (us ! j) = j"
  using column_of_ok[of "us ! j" us] nth_eq_iff_index_eq by force

lemma unknowns_ok: "distinct (unknowns g)" "s \<in> set (unknowns g) \<longleftrightarrow> mget (dm_known g) s = None \<and> s < length (dm_syms g)"
  by (auto simp: unknowns_def)

definition row_at :: "nat list \<Rightarrow> (nat \<Rightarrow> nat \<Rightarrow> int) \<Rightarrow> int list \<times> int list \<Rightarrow> nat \<Rightarrow> int" where
  "row_at us w row k = (\<Sum>j<length us. fst row ! j * w (us ! j) k) - snd row ! k"

lemma add_term_ok:
  assumes "dims_wf g" "knows g w" "us = unknowns g" "length (fst row) = length us" "length (snd row) = 7" "fst p < length (dm_syms g)"
  shows "length (fst (add_term g us row p)) = length us \<and> length (snd (add_term g us row p)) = 7
    \<and> (\<forall>k<7. row_at us w (add_term g us row p) k = row_at us w row k + snd p * w (fst p) k)"
proof (cases "mget (dm_known g) (fst p)")
  case None
  define j where "j = column_of us (fst p)"
  have "fst p \<in> set us" using None assms(3,6) unknowns_ok(2) by simp
  then have j: "j < length us" "us ! j = fst p" using column_of_ok by (simp_all add: j_def)
  have "(\<Sum>i<length us. (fst row)[j := fst row ! j + snd p] ! i * w (us ! i) k)
      = (\<Sum>i<length us. fst row ! i * w (us ! i) k + (if i = j then snd p * w (fst p) k else 0))" for k
    by (rule sum.cong) (use j assms(4) in \<open>auto simp: nth_list_update algebra_simps\<close>)
  then show ?thesis using None assms(4,5) j(1) by (simp add: add_term_def Let_def row_at_def j_def[symmetric] sum.distrib)
next
  case (Some d)
  have d: "length d = 7" "\<And>k. k < 7 \<Longrightarrow> w (fst p) k = d ! k" using Some assms(1,2) by (auto simp: dims_wf_def knows_def)
  then show ?thesis using Some assms(4,5) by (simp add: add_term_def row_at_def)
qed

lemma add_terms_ok:
  assumes "dims_wf g" "knows g w" "us = unknowns g" "\<forall>p \<in> set ps. fst p < length (dm_syms g)"
    and "length (fst row) = length us" "length (snd row) = 7"
  shows "length (fst (foldl (add_term g us) row ps)) = length us \<and> length (snd (foldl (add_term g us) row ps)) = 7
    \<and> (\<forall>k<7. row_at us w (foldl (add_term g us) row ps) k = row_at us w row k + sum_list (map (\<lambda>p. snd p * w (fst p) k) ps))"
  using assms(4-6)
proof (induction ps arbitrary: row)
  case (Cons p ps)
  then show ?case using add_term_ok[OF assms(1-3), of row p] by simp
qed simp

lemma con_row_ok:
  assumes "dims_wf g" "knows g w" "us = unknowns g" "c \<in> set (dm_cons g)"
  shows "length (fst (con_row g us c)) = length us \<and> length (snd (con_row g us c)) = 7
    \<and> (balances w c \<longleftrightarrow> (\<forall>k<7. row_at us w (con_row g us c) k = 0))"
proof -
  let ?r = "foldl (add_term g us) (replicate (length us) 0, replicate 7 0) (dc_terms c)"
  have c: "length (dc_rhs c) = 7" "\<forall>p \<in> set (dc_terms c). fst p < length (dm_syms g)" using assms(1,4) by (auto simp: dims_wf_def)
  have "row_at us w (replicate (length us) 0, replicate 7 0) k = 0" if "k < 7" for k using that by (simp add: row_at_def)
  then have r: "length (fst ?r) = length us" "length (snd ?r) = 7"
    "k < 7 \<Longrightarrow> row_at us w ?r k = sum_list (map (\<lambda>p. snd p * w (fst p) k) (dc_terms c))" for k
    using add_terms_ok[OF assms(1-3) c(2), of "(replicate (length us) 0, replicate 7 0)"] by auto
  have "row_at us w (con_row g us c) k = row_at us w ?r k + dc_rhs c ! k" if "k < 7" for k
    using that r(2) c(1) by (simp add: con_row_def Let_def row_at_def)
  then show ?thesis using r c(1) by (simp add: con_row_def Let_def balances_def)
qed

text \<open>The system the code solves, one right side for each base dimension.\<close>

lemma solves_system:
  assumes "dims_wf g" "us = unknowns g" "m = length (dm_cons g)"
    and "A = map fst (map (con_row g us) (dm_cons g))" "b = map snd (map (con_row g us) (dm_cons g))"
  shows "solves g w \<longleftrightarrow> knows g w \<and> (\<forall>k<7. agree m (mv (length us) A (\<lambda>j. w (us ! j) k)) (\<lambda>r. b ! r ! k))"
proof -
  have "list_all (balances w) (dm_cons g) \<longleftrightarrow> (\<forall>k<7. agree m (mv (length us) A (\<lambda>j. w (us ! j) k)) (\<lambda>r. b ! r ! k))"
    if k: "knows g w"
  proof -
    have "balances w (dm_cons g ! r) \<longleftrightarrow> (\<forall>k<7. mv (length us) A (\<lambda>j. w (us ! j) k) r = b ! r ! k)" if "r < m" for r
      using con_row_ok[OF assms(1) k assms(2), of "dm_cons g ! r"] that assms(3-5) by (simp add: row_at_def mv_def)
    then show ?thesis using assms(3) by (auto simp: list_all_length agree_def)
  qed
  then show ?thesis by (auto simp: solves_def)
qed

text \<open>A vector for each base dimension gives exponents for all symbols.\<close>

definition spread :: "dim_graph \<Rightarrow> (nat \<Rightarrow> nat \<Rightarrow> int) \<Rightarrow> nat \<Rightarrow> nat \<Rightarrow> int" where
  "spread g x s k = (case mget (dm_known g) s of Some d \<Rightarrow> d ! k | None \<Rightarrow> x k (column_of (unknowns g) s))"

lemma spread_ok: "knows g (spread g x)" "j < length (unknowns g) \<Longrightarrow> spread g x (unknowns g ! j) k = x k j"
proof -
  show "knows g (spread g x)" by (simp add: knows_def spread_def)
  assume j: "j < length (unknowns g)"
  then have "mget (dm_known g) (unknowns g ! j) = None" using unknowns_ok(2)[of "unknowns g ! j" g] nth_mem by blast
  then show "spread g x (unknowns g ! j) k = x k j" using column_of_nth[OF unknowns_ok(1) j] by (simp add: spread_def)
qed

lemma map_of_rev: "distinct (map fst m) \<Longrightarrow> map_of (rev m) = map_of m"
  by (intro map_of_eqI) (auto simp: rev_map[symmetric] map_of_eq_Some_iff)

lemma mbuild_names:
  assumes "distinct syms" "distinct (map fst qs)" "\<forall>q \<in> set qs. fst q < length syms" "s < length syms"
  shows "mget (mbuild (map (\<lambda>q. (syms ! fst q, snd q)) qs)) (syms ! s) = map_of qs s"
proof -
  let ?ps = "map (\<lambda>q. (syms ! fst q, snd q)) qs"
  have "inj_on (\<lambda>i. syms ! i) (fst ` set qs)" using assms(1,3) by (auto simp: inj_on_def nth_eq_iff_index_eq)
  then have d: "distinct (map fst ?ps)" using assms(2) by (simp add: distinct_map comp_def inj_on_def)
  have "map_of (rev ?ps) = map_of ?ps" by (rule map_of_rev[OF d])
  moreover have "map_of ?ps (syms ! s) = map_of qs s"
    using assms(3) by (induction qs) (use assms(1,4) in \<open>auto simp: nth_eq_iff_index_eq\<close>)
  ultimately show ?thesis by (simp add: mget_mbuild)
qed

section \<open>The inference is exact\<close>

lemma infer_dims_parts:
  assumes "dims_wf g" "dm_cons g \<noteq> [] \<or> unknowns g = []"
    and "us = unknowns g" "m = length (dm_cons g)" "A = map fst (map (con_row g us) (dm_cons g))"
    and "b = map snd (map (con_row g us) (dm_cons g))"
  shows "\<exists>(s :: smith) r. infer_dims g = Some r \<and> equiv_snf m (length us) A \<lparr>nf_a = sm_d s, nf_u = sm_u s, nf_v = sm_v s\<rparr> \<and> smith_shape m (length us) (sm_d s)
    \<and> (dr_consistent r \<longleftrightarrow> (\<forall>k<7. \<forall>i<m. solvable_at (sm_d s) (matmul (sm_u s) b) (min m (length us)) i k))
    \<and> (\<forall>t<length (dm_syms g). mget (dr_dims r) (dm_syms g ! t) =
        (case mget (dm_known g) t of Some d \<Rightarrow> Some d
         | None \<Rightarrow> if determined (sm_d s) (sm_v s) (min m (length us)) (length us) (column_of us t)
              then Some (map (\<lambda>k. cast_int (matmul (sm_v s) (map (\<lambda>i. map (quotient_at (sm_d s) (matmul (sm_u s) b) (min m (length us)) i) [0..<7]) [0..<length us])
                ! column_of us t ! k)) [0..<7]) else None))"
proof -
  have "knows g (spread g (\<lambda>_ _. 0))" by (rule spread_ok(1))
  note rows = con_row_ok[OF assms(1) this assms(3)]
  have A: "rect m (length us) A" using rows assms(4,5) by (simp add: rect_def)
  have "m = 0 \<longrightarrow> length us = 0" using assms(2-4) by auto
  then obtain s where s: "smith_normal_form A = Some s" "equiv_snf m (length us) A \<lparr>nf_a = sm_d s, nf_u = sm_u s, nf_v = sm_v s\<rparr>"
    "smith_shape m (length us) (sm_d s)" using smith_ok[OF A] by auto
  define D where "D = determined (sm_d s) (sm_v s) (min m (length us)) (length us)"
  define X where "X = matmul (sm_v s) (map (\<lambda>i. map (quotient_at (sm_d s) (matmul (sm_u s) b) (min m (length us)) i) [0..<7]) [0..<length us])"
  define kn where "kn = dm_known g"
  define de where "de = map (\<lambda>j. (us ! j, map (\<lambda>k. cast_int (X ! j ! k)) [0..<7])) (filter D [0..<length us])"
  obtain r where r: "infer_dims g = Some r"
    "dr_dims r = mbuild (map (\<lambda>q. (dm_syms g ! fst q, snd q)) (kn @ de))"
    "dr_consistent r = list_all (\<lambda>k. list_all (\<lambda>i. solvable_at (sm_d s) (matmul (sm_u s) b) (min m (length us)) i k) [0..<m]) [0..<7]"
    using assms(2-6) s(1) by (auto simp: infer_dims_def Let_def D_def X_def kn_def de_def comp_def)
  have us: "distinct us" "\<And>j. j < length us \<Longrightarrow> mget kn (us ! j) = None \<and> us ! j < length (dm_syms g)"
    using unknowns_ok(1)[of g] unknowns_ok(2)[of _ g] assms(3) nth_mem[of _ us] by (auto simp: kn_def)
  have kw: "mwf kn" "\<And>t d. mget kn t = Some d \<Longrightarrow> t < length (dm_syms g)" using assms(1) by (auto simp: dims_wf_def kn_def)
  have "fst ` set de \<subseteq> set us" by (auto simp: de_def)
  then have dj: "fst ` set kn \<inter> fst ` set de = {}"
    unfolding disjoint_iff using us(2) unfolding mget_None_iff by (metis in_set_conv_nth subsetD)
  have "map fst de = map ((!) us) (filter D [0..<length us])" by (simp add: de_def)
  moreover have "inj_on ((!) us) (set (filter D [0..<length us]))" by (rule inj_on_nth[OF us(1)]) auto
  ultimately have "distinct (map fst de)" by (simp add: distinct_map)
  then have dq: "distinct (map fst (kn @ de))" using dj mwf_distinct[OF kw(1)] by simp
  have "q \<in> set kn \<Longrightarrow> fst q < length (dm_syms g)" for q using kw mwf_get_in[OF kw(1), of "fst q" "snd q"] by auto
  moreover have "q \<in> set de \<Longrightarrow> fst q < length (dm_syms g)" for q using us(2) by (auto simp: de_def)
  ultimately have rng: "\<forall>q \<in> set (kn @ de). fst q < length (dm_syms g)" by auto
  have "map_of de t = (if D (column_of us t) then Some (map (\<lambda>k. cast_int (X ! column_of us t ! k)) [0..<7]) else None)" if "t \<in> set us" for t
  proof -
    have c: "column_of us t < length us" "us ! column_of us t = t" using column_of_ok[OF that] by simp_all
    show ?thesis
    proof (cases "D (column_of us t)")
      case True
      then have "(t, map (\<lambda>k. cast_int (X ! column_of us t ! k)) [0..<7]) \<in> set de" using c by (force simp: de_def)
      then show ?thesis using True dq by simp
    next
      case False
      then have "t \<notin> fst ` set de" using us(1) c by (auto simp: de_def) (metis nth_eq_iff_index_eq)
      then show ?thesis using False by (simp add: map_of_eq_None_iff)
    qed
  qed
  moreover have "mget kn t = None \<Longrightarrow> t < length (dm_syms g) \<Longrightarrow> t \<in> set us" for t using unknowns_ok(2) assms(3) by (simp add: kn_def)
  ultimately have look: "mget (dr_dims r) (dm_syms g ! t) = (case mget kn t of Some d \<Rightarrow> Some d
      | None \<Rightarrow> if D (column_of us t) then Some (map (\<lambda>k. cast_int (X ! column_of us t ! k)) [0..<7]) else None)" if "t < length (dm_syms g)" for t
    using mbuild_names[OF _ dq rng that] assms(1) that unfolding r(2)
    by (simp add: dims_wf_def map_add_def mget_def split: option.split)
  have con: "dr_consistent r \<longleftrightarrow> (\<forall>k<7. \<forall>i<m. solvable_at (sm_d s) (matmul (sm_u s) b) (min m (length us)) i k)"
    unfolding r(3) by (auto simp: list_all_iff)
  note look' = look[unfolded D_def X_def kn_def]
  show ?thesis
    by (rule exI[of _ s], rule exI[of _ r]) (intro conjI r(1) s(2,3) con allI impI look')
qed

text \<open>One solution of the system for each base dimension, read off the normal form.\<close>

definition form_solution :: "smith \<Rightarrow> int list list \<Rightarrow> nat \<Rightarrow> nat \<Rightarrow> nat \<Rightarrow> nat \<Rightarrow> int" where
  "form_solution s b m n k i = quotient_at (sm_d s) (matmul (sm_u s) b) (min m n) i k"

lemma form_right_side:
  assumes "equiv_snf m n A \<lparr>nf_a = sm_d s, nf_u = sm_u s, nf_v = sm_v s\<rparr>" "rect m 7 b" "i < m" "k < 7"
  shows "matmul (sm_u s) b ! i ! k = mv m (sm_u s) (\<lambda>r. b ! r ! k) i"
proof -
  have "rect m m (sm_u s)" using assms(1) by (simp add: equiv_snf_def)
  from matmul_at[OF this assms(2)] show ?thesis using assms(3,4) by auto
qed

lemma form_solvable:
  assumes "equiv_snf m n A \<lparr>nf_a = sm_d s, nf_u = sm_u s, nf_v = sm_v s\<rparr>" "smith_shape m n (sm_d s)" "rect m 7 b" "k < 7"
  shows "(\<forall>i<m. solvable_at (sm_d s) (matmul (sm_u s) b) (min m n) i k) \<longleftrightarrow> (\<exists>x. agree m (mv n A x) (\<lambda>r. b ! r ! k))"
  unfolding system_solvable[OF assms(1,2)] using form_right_side[OF assms(1,3) _ assms(4)] by (simp add: solvable_at_def)

lemma form_solves:
  assumes "equiv_snf m n A \<lparr>nf_a = sm_d s, nf_u = sm_u s, nf_v = sm_v s\<rparr>" "smith_shape m n (sm_d s)" "rect m 7 b" "k < 7"
    and "\<forall>i<m. solvable_at (sm_d s) (matmul (sm_u s) b) (min m n) i k"
  shows "agree m (mv n A (mv n (sm_v s) (form_solution s b m n k))) (\<lambda>r. b ! r ! k)"
proof -
  note ub = form_right_side[OF assms(1,3) _ assms(4)]
  have h: "if i < min m n \<and> sm_d s ! i ! i \<noteq> 0 then mv m (sm_u s) (\<lambda>r. b ! r ! k) i smod sm_d s ! i ! i = 0
      else mv m (sm_u s) (\<lambda>r. b ! r ! k) i = 0" if "i < m" for i
    using assms(5) that ub by (force simp: solvable_at_def)
  have "form_solution s b m n k = (\<lambda>i. if i < min m n \<and> sm_d s ! i ! i \<noteq> 0 \<and> mv m (sm_u s) (\<lambda>r. b ! r ! k) i smod sm_d s ! i ! i = 0
      then mv m (sm_u s) (\<lambda>r. b ! r ! k) i sdiv sm_d s ! i ! i else 0)"
    using ub assms(4) by (auto simp: form_solution_def quotient_at_def fun_eq_iff)
  also have "\<dots> = (\<lambda>i. if i < min m n \<and> sm_d s ! i ! i \<noteq> 0 then mv m (sm_u s) (\<lambda>r. b ! r ! k) i sdiv sm_d s ! i ! i else 0)"
    using h by (auto simp: fun_eq_iff)
  finally show ?thesis using system_solution[OF assms(1,2) h] by simp
qed

lemma form_value:
  assumes "equiv_snf m n A \<lparr>nf_a = sm_d s, nf_u = sm_u s, nf_v = sm_v s\<rparr>" "j < n" "k < 7"
  shows "matmul (sm_v s) (map (\<lambda>i. map (quotient_at (sm_d s) (matmul (sm_u s) b) (min m n) i) [0..<7]) [0..<n]) ! j ! k
    = mv n (sm_v s) (form_solution s b m n k) j"
proof -
  define Y where "Y = map (\<lambda>i. map (quotient_at (sm_d s) (matmul (sm_u s) b) (min m n) i) [0..<7]) [0..<n]"
  have "rect n n (sm_v s)" "rect n 7 Y" using assms(1) by (simp_all add: equiv_snf_def rect_def Y_def)
  then show ?thesis
    using matmul_at[of n n "sm_v s" 7 Y j k] assms(2,3) mv_cong[of n "\<lambda>i. Y ! i ! k" "form_solution s b m n k" "sm_v s" j]
    by (simp add: Y_def form_solution_def)
qed

text \<open>C4. The inference of dimensions is exact. The symbols are distinct, a known dimension has seven exponents
  that an int holds, every constraint names listed symbols, and there is a constraint or nothing is unknown. Then the
  system is called consistent exactly when some dimensions of the symbols satisfy it; and when it is consistent, a
  symbol gets a dimension exactly when all solutions agree on it. What it gets are the lower 32 bits of its exponents
  in every solution, as the code narrows a long long to an int: the exponents themselves where an int holds them. The
  long long arithmetic of the elimination is taken as unbounded.\<close>

theorem dim_inference_exact:
  assumes "dims_wf g" "dm_cons g \<noteq> [] \<or> unknowns g = []"
  shows "\<exists>r. infer_dims g = Some r \<and> (dr_consistent r \<longleftrightarrow> (\<exists>w. solves g w))
    \<and> (dr_consistent r \<longrightarrow> (\<forall>t<length (dm_syms g). case mget (dr_dims r) (dm_syms g ! t) of
          Some d \<Rightarrow> \<forall>w. solves g w \<longrightarrow> (\<forall>k<7. d ! k = cast_int (w t k))
        | None \<Rightarrow> \<exists>w w'. solves g w \<and> solves g w' \<and> (\<exists>k<7. w t k \<noteq> w' t k)))"
proof -
  define us where "us = unknowns g"
  define m where "m = length (dm_cons g)"
  define A where "A = map fst (map (con_row g us) (dm_cons g))"
  define b where "b = map snd (map (con_row g us) (dm_cons g))"
  define n where "n = length us"
  note parts = infer_dims_parts[OF assms us_def m_def A_def b_def, folded n_def]
  note sys = solves_system[OF assms(1) us_def m_def A_def b_def, folded n_def]
  from parts obtain s :: smith and r where r: "infer_dims g = Some r" and
    e: "equiv_snf m n A \<lparr>nf_a = sm_d s, nf_u = sm_u s, nf_v = sm_v s\<rparr>" and sh: "smith_shape m n (sm_d s)" and
    con: "dr_consistent r \<longleftrightarrow> (\<forall>k<7. \<forall>i<m. solvable_at (sm_d s) (matmul (sm_u s) b) (min m n) i k)" and
    look: "\<forall>t<length (dm_syms g). mget (dr_dims r) (dm_syms g ! t) =
        (case mget (dm_known g) t of Some d \<Rightarrow> Some d
         | None \<Rightarrow> if determined (sm_d s) (sm_v s) (min m n) n (column_of us t)
              then Some (map (\<lambda>k. cast_int (matmul (sm_v s) (map (\<lambda>i. map (quotient_at (sm_d s) (matmul (sm_u s) b) (min m n) i) [0..<7]) [0..<n])
                ! column_of us t ! k)) [0..<7]) else None)"
    by blast
  have rb: "rect m 7 b" using con_row_ok[OF assms(1) spread_ok(1) us_def] by (simp add: rect_def b_def m_def)
  define x where "x = (\<lambda>k. mv n (sm_v s) (form_solution s b m n k))"
  have x: "agree m (mv n A (x k)) (\<lambda>r. b ! r ! k)" if "k < 7" "dr_consistent r" for k
    using form_solves[OF e sh rb that(1)] con that by (simp add: x_def)
  have spread_col: "mv n A (\<lambda>j. spread g z (us ! j) k) = mv n A (z k)" for z k
    by (rule mv_agree) (simp add: agree_def spread_ok(2) us_def n_def)
  have all_sol: "solves g (spread g z)" if "\<And>k. k < 7 \<Longrightarrow> agree m (mv n A (z k)) (\<lambda>r. b ! r ! k)" for z
    unfolding sys spread_col using that spread_ok(1) by blast
  have c1: "dr_consistent r \<longleftrightarrow> (\<exists>w. solves g w)"
    using all_sol[OF x] form_solvable[OF e sh rb] sys unfolding con by blast
  have c2: "case mget (dr_dims r) (dm_syms g ! t) of
          Some d \<Rightarrow> \<forall>w. solves g w \<longrightarrow> (\<forall>k<7. d ! k = cast_int (w t k))
        | None \<Rightarrow> \<exists>w w'. solves g w \<and> solves g w' \<and> (\<exists>k<7. w t k \<noteq> w' t k)" if c: "dr_consistent r" and t: "t < length (dm_syms g)" for t
  proof (cases "mget (dm_known g) t")
    case (Some d)
    have "length d = 7" "map cast_int d = d" using assms(1) Some by (auto simp: dims_wf_def)
    then have "cast_int (d ! k) = d ! k" if "k < 7" for k using that by (metis nth_map)
    then show ?thesis using Some look t by (auto simp: solves_def knows_def)
  next
    case None
    define j where "j = column_of us t"
    have "t \<in> set us" using None t unknowns_ok(2) by (simp add: us_def)
    then have j: "j < n" "us ! j = t" using column_of_ok by (simp_all add: j_def n_def)
    show ?thesis
    proof (cases "determined (sm_d s) (sm_v s) (min m n) n j")
      case True
      have "w t k = x k j" if w: "solves g w" and k: "k < 7" for w k
      proof -
        have "agree m (mv n A (\<lambda>j. w (us ! j) k)) (\<lambda>r. b ! r ! k)" using w sys k by blast
        from solutions_meet[OF e sh this x[OF k c] True j(1)] show ?thesis using j(2) by simp
      qed
      then show ?thesis using look t None True form_value[OF e j(1)] by (simp add: j_def[symmetric] x_def)
    next
      case False
      obtain z where z: "agree m (mv n A z) (\<lambda>r. b ! r ! 0)" "z j \<noteq> x 0 j" using solutions_part[OF e sh x[of 0] False j(1)] c by auto
      have "solves g (spread g x)" by (rule all_sol) (rule x[OF _ c])
      moreover have "solves g (spread g (x(0 := z)))" by (rule all_sol) (use x c z(1) in auto)
      moreover have "spread g x t 0 \<noteq> spread g (x(0 := z)) t 0"
        using spread_ok(2)[of j g x 0] spread_ok(2)[of j g "x(0 := z)" 0] j z(2) by (simp add: us_def n_def)
      ultimately have "\<exists>w w'. solves g w \<and> solves g w' \<and> (\<exists>k<7. w t k \<noteq> w' t k)" by (meson zero_less_numeral)
      then show ?thesis using look t None False by (simp add: j_def[symmetric])
    qed
  qed
  show ?thesis using r c1 c2 by blast
qed

text \<open>C19. Every integer matrix with a row and a column has its normal form: the loops end, the transformations
  are bijections on the integer vectors, their product with the matrix is the form, and the form is diagonal with
  entries that are not negative, each dividing the next.\<close>

theorem smith_form_exact:
  assumes "rect m n a" "0 < m" "0 < n"
  shows "\<exists>r. smith_normal_form a = Some r \<and> matmul (matmul (sm_u r) a) (sm_v r) = sm_d r \<and> smith_shape m n (sm_d r)
    \<and> onto m (mv m (sm_u r)) \<and> faithful m (mv m (sm_u r)) \<and> onto n (mv n (sm_v r)) \<and> faithful n (mv n (sm_v r))"
proof -
  obtain r where r: "smith_normal_form a = Some r" "equiv_snf m n a \<lparr>nf_a = sm_d r, nf_u = sm_u r, nf_v = sm_v r\<rparr>"
    "smith_shape m n (sm_d r)" using smith_ok[OF assms(1)] assms(2) by auto
  then show ?thesis using equiv_product[OF r(2) assms] by (simp add: equiv_snf_def)
qed

theorem smith_form_exact_witness:
  "\<exists>r. smith_normal_form [[2, 4], [6, 8]] = Some r \<and> matmul (matmul (sm_u r) [[2, 4], [6, 8]]) (sm_v r) = sm_d r"
  using smith_form_exact[of 2 2 "[[2, 4], [6, 8]]"] by (auto simp: rect_def less_2_cases_iff)

text \<open>An acceleration that is a length over a squared time.\<close>

definition demo_dims :: dim_graph where
  "demo_dims = \<lparr>dm_syms = [''x'', ''t'', ''a''], dm_idx = [(''a'', 2), (''t'', 1), (''x'', 0)],
     dm_cons = [\<lparr>dc_terms = [(2, 1), (0, - 1), (1, 2)], dc_rhs = dim_none\<rparr>],
     dm_known = [(0, dim_base 1), (1, dim_base 2)]\<rparr>"

lemma demo_dims_wf: "dims_wf demo_dims" "dm_cons demo_dims \<noteq> []" "dm_syms demo_dims ! 2 = ''a''" "length (dm_syms demo_dims) = 3"
  by (simp_all add: dims_wf_def demo_dims_def dim_none_def dim_base_def mwf_def map_update) (simp add: cast_int_def)

lemma demo_dims_solves: "solves demo_dims w \<longleftrightarrow>
    (\<forall>k<7. w 0 k = dim_base 1 ! k) \<and> (\<forall>k<7. w 1 k = dim_base 2 ! k) \<and> (\<forall>k<7. w 2 k = w 0 k - 2 * w 1 k)"
proof -
  have "balances w \<lparr>dc_terms = [(2, 1), (0, - 1), (1, 2)], dc_rhs = dim_none\<rparr> \<longleftrightarrow> (\<forall>k<7. w 2 k = w 0 k - 2 * w 1 k)"
    by (force simp: balances_def)
  moreover have "knows demo_dims w \<longleftrightarrow> (\<forall>k<7. w 0 k = dim_base 1 ! k) \<and> (\<forall>k<7. w 1 k = dim_base 2 ! k)"
    by (auto simp: knows_def demo_dims_def)
  ultimately show ?thesis by (simp add: solves_def) (simp add: demo_dims_def)
qed

theorem dim_inference_exact_witness:
  "\<exists>r d. infer_dims demo_dims = Some r \<and> dr_consistent r \<and> mget (dr_dims r) ''a'' = Some d \<and> d ! 1 = 1 \<and> d ! 2 = - 2"
proof -
  let ?ok = "\<lambda>r. case mget (dr_dims r) ''a'' of
          Some d \<Rightarrow> \<forall>w. solves demo_dims w \<longrightarrow> (\<forall>k<7. d ! k = cast_int (w 2 k))
        | None \<Rightarrow> \<exists>w w'. solves demo_dims w \<and> solves demo_dims w' \<and> (\<exists>k<7. w 2 k \<noteq> w' 2 k)"
  obtain r where r: "infer_dims demo_dims = Some r" "dr_consistent r \<longleftrightarrow> (\<exists>w. solves demo_dims w)" and
    all: "dr_consistent r \<longrightarrow> (\<forall>t<length (dm_syms demo_dims). case mget (dr_dims r) (dm_syms demo_dims ! t) of
          Some d \<Rightarrow> \<forall>w. solves demo_dims w \<longrightarrow> (\<forall>k<7. d ! k = cast_int (w t k))
        | None \<Rightarrow> \<exists>w w'. solves demo_dims w \<and> solves demo_dims w' \<and> (\<exists>k<7. w t k \<noteq> w' t k))"
    using dim_inference_exact[OF demo_dims_wf(1) disjI1[OF demo_dims_wf(2)]] by blast
  have at2: "dr_consistent r \<Longrightarrow> ?ok r"
    using all[rule_format, of 2] unfolding demo_dims_wf(3,4) by simp
  define w :: "nat \<Rightarrow> nat \<Rightarrow> int" where "w = (\<lambda>s k. if s = 0 then dim_base 1 ! k else if s = 1 then dim_base 2 ! k else dim_base 1 ! k - 2 * dim_base 2 ! k)"
  have w: "solves demo_dims w" by (simp add: demo_dims_solves w_def)
  then have c: "dr_consistent r" using r(2) by blast
  have "\<not> (solves demo_dims x \<and> solves demo_dims x' \<and> (\<exists>k<7. x 2 k \<noteq> x' 2 k))" for x x' by (auto simp: demo_dims_solves)
  then obtain d where d: "mget (dr_dims r) ''a'' = Some d" "\<forall>k<7. d ! k = cast_int (w 2 k)"
    using at2[OF c] w by (cases "mget (dr_dims r) ''a''") auto
  have "w 2 1 = 1" "w 2 2 = - 2" by (simp_all add: w_def dim_base_def dim_none_def)
  moreover have "d ! 1 = cast_int (w 2 1)" "d ! 2 = cast_int (w 2 2)" using d(2) by simp_all
  ultimately have "d ! 1 = 1" "d ! 2 = - 2" by (simp_all add: cast_int_id)
  then show ?thesis using r(1) c d(1) by blast
qed

section \<open>The graphs the operations build\<close>

definition dims_built :: "dim_graph \<Rightarrow> bool" where
  "dims_built g \<longleftrightarrow> dims_wf g \<and> (\<forall>nm i. mget (dm_idx g) nm = Some i \<longleftrightarrow> i < length (dm_syms g) \<and> dm_syms g ! i = nm)"

lemma dims_built_new: "dims_built dim_graph_new"
  by (simp add: dims_built_def dims_wf_def dim_graph_new_def)

lemma dims_built_symbol:
  assumes "dims_built g" "dim_symbol nm g = (i, g')"
  shows "dims_built g' \<and> i < length (dm_syms g') \<and> dm_syms g' ! i = nm"
proof (cases "mget (dm_idx g) nm")
  case None
  have "nm \<noteq> dm_syms g ! j" if "j < length (dm_syms g)" for j
    using assms(1) None that unfolding dims_built_def by (metis option.distinct(1))
  then have n: "nm \<notin> set (dm_syms g)" by (auto simp: in_set_conv_nth)
  have g: "g' = g\<lparr>dm_idx := mput nm (length (dm_syms g)) (dm_idx g), dm_syms := dm_syms g @ [nm]\<rparr>" "i = length (dm_syms g)"
    using assms(2) None by (auto simp: dim_symbol_def Let_def)
  have "dims_wf g'" using assms(1) n unfolding dims_built_def dims_wf_def g by (fastforce intro: less_SucI)
  moreover have "mget (dm_idx g') x = Some j \<longleftrightarrow> j < length (dm_syms g') \<and> dm_syms g' ! j = x" for x j
    using assms(1) n by (auto simp: g mget_mput dims_built_def nth_append less_Suc_eq)
  ultimately show ?thesis using g by (simp add: dims_built_def)
qed (use assms in \<open>auto simp: dim_symbol_def dims_built_def\<close>)

lemma dims_built_ops:
  assumes "dims_built g"
  shows "a < length (dm_syms g) \<Longrightarrow> b < length (dm_syms g) \<Longrightarrow> dims_built (add_eq a b g)"
    "a < length (dm_syms g) \<Longrightarrow> \<forall>p \<in> set ps. fst p < length (dm_syms g) \<Longrightarrow> dims_built (add_combo a ps g)"
    "a < length (dm_syms g) \<Longrightarrow> dim_wf d \<Longrightarrow> map cast_int d = d \<Longrightarrow> dims_built (set_known a d g)"
  using assms by (auto simp: dims_built_def dims_wf_def add_eq_def add_combo_def set_known_def dim_none_def mget_mput dim_wf_def)

end
