(* ===== verification/Fve_Service.thy ===== *)
theory Fve_Service
  imports Fve_Cases Fve_Criticality Fve_Pipeline Fve_Files
begin

text \<open>
  The service over the document store (\<open>platform/service\<close>): users and signatures, the change control of
  fixes, work orders, and the production events with their signals. The state is the audit log with the store
  it shares with the other parts. An operation gives its reply, \<open>None\<close> for an exception on the way, and
  the state it leaves behind, also after an exception. The lock, held by the operations that need it from
  beginning to end, is left out; the clock and the random bytes are arguments.
\<close>

section \<open>Users and signatures\<close>

type_synonym 'a reply = "'a option \<times> audit"

definition on_store :: "(store \<Rightarrow> store) \<Rightarrow> audit \<Rightarrow> audit" where
  "on_store f a = a\<lparr>au_store := f (au_store a)\<rparr>"

definition then_record :: "string \<Rightarrow> string \<Rightarrow> json option \<Rightarrow> string \<Rightarrow> 'a \<Rightarrow> audit \<Rightarrow> 'a reply" where
  "then_record ty subject pl user r a =
     (case audit_record ty subject pl user a of None \<Rightarrow> (None, a) | Some (_, a') \<Rightarrow> (Some r, a'))"

definition user_blank :: user where
  "user_blank = \<lparr>us_id = [], us_external = [], us_name = [], us_role = [], us_scope = [], us_active = True, us_token = []\<rparr>"

definition or_system :: "string \<Rightarrow> string" where
  "or_system u = (if u = [] then ''system'' else u)"

definition svc_create_user :: "string \<Rightarrow> string \<Rightarrow> string \<Rightarrow> string list \<Rightarrow> audit \<Rightarrow> json reply" where
  "svc_create_user nm role ext scope a =
     (let u = user_blank\<lparr>us_name := nm, us_role := role, us_external := ext, us_scope := scope\<rparr>
      in then_record ''user_created'' (user_id u) None ''system'' (mkobj [(''id'', JStr (user_id u)), (''role'', JStr role)])
           (on_store (\<lambda>s. snd (create_user u s)) a))"

definition users_empty :: "audit \<Rightarrow> bool option" where
  "users_empty a = map_option (\<lambda>us. us = []) (list_users (au_store a))"

text \<open>The token of the first administrator, from 32 random bytes or from the clock alone.\<close>

definition fresh_token :: "string option \<Rightarrow> int \<Rightarrow> string" where
  "fresh_token raw now =
     hex (sha256_str ((case raw of Some r \<Rightarrow> r | None \<Rightarrow> ''fallback'') @ show_int now))"

definition svc_bootstrap :: "string option \<Rightarrow> int \<Rightarrow> audit \<Rightarrow> json reply" where
  "svc_bootstrap raw now a =
     (case users_empty a of
        None \<Rightarrow> (None, a)
      | Some False \<Rightarrow> (Some (mkobj [(''exists'', JBool True)]), a)
      | Some True \<Rightarrow>
          (let tok = fresh_token raw now; u = user_blank\<lparr>us_name := ''admin'', us_role := ''admin'', us_token := hex (sha256_str tok)\<rparr>
           in then_record ''identity_bootstrap'' (user_id u) None ''system''
                (mkobj [(''exists'', JBool False), (''user_id'', JStr (user_id u)), (''token'', JStr tok)])
                (on_store (\<lambda>s. snd (create_user u s)) a)))"

definition refuse :: "string \<Rightarrow> json" where
  "refuse e = mkobj [(''ok'', JBool False), (''error'', JStr e)]"

definition svc_sign :: "string \<Rightarrow> string \<Rightarrow> string \<Rightarrow> json option \<Rightarrow> int \<Rightarrow> audit \<Rightarrow> json reply" where
  "svc_sign user subject meaning pl now a =
     (case user_active (au_store a) user of
        None \<Rightarrow> (None, a)
      | Some False \<Rightarrow> (Some (refuse ''unknown_or_inactive_user''), a)
      | Some True \<Rightarrow>
          then_record ''signature'' subject None user
            (mkobj [(''ok'', JBool True), (''signature_id'', JStr (sign_id user subject meaning now))])
            (on_store (\<lambda>s. snd (sign_subject user subject meaning pl now s)) a))"

definition svc_signatures :: "audit \<Rightarrow> string \<Rightarrow> json option" where
  "svc_signatures a subject = map_option (\<lambda>ss. mkobj [(''signatures'', JArr ss)]) (signatures (au_store a) subject)"

definition svc_list_users :: "audit \<Rightarrow> json option" where
  "svc_list_users a = map_option (\<lambda>us. mkobj [(''users'', JArr us)]) (list_users (au_store a))"

section \<open>Change control\<close>

text \<open>A reviewer signs a fix and approves it.\<close>

definition svc_approve_fix :: "string \<Rightarrow> string \<Rightarrow> int \<Rightarrow> audit \<Rightarrow> json reply" where
  "svc_approve_fix i reviewer now a =
     (case has_role (au_store a) reviewer ''reviewer'' of
        None \<Rightarrow> (None, a)
      | Some False \<Rightarrow> (Some (refuse ''requires_reviewer_role''), a)
      | Some True \<Rightarrow>
          (case store_get (au_store a) ''fixes'' i of
             None \<Rightarrow> (None, a)
           | Some None \<Rightarrow> (Some (refuse ''fix_not_found''), a)
           | Some (Some f) \<Rightarrow>
               (let a1 = on_store (\<lambda>s. snd (sign_subject reviewer i ''approved_fix'' (Some f) now s)) a
                in case approve_fix i reviewer (au_store a1) of
                     None \<Rightarrow> (None, a1)
                   | Some s \<Rightarrow>
                       then_record ''fix_approved'' i None reviewer
                         (mkobj [(''ok'', JBool True), (''fix_id'', JStr i), (''status'', JStr ''approved'')])
                         (on_store (\<lambda>_. s) a1))))"

text \<open>A bound proposed for a hole, and the resolution of a work order: both propose a fix.\<close>

definition hole_fix :: "string \<Rightarrow> string \<Rightarrow> double \<Rightarrow> double \<Rightarrow> fve_fix" where
  "hole_fix h nm l u =
     \<lparr>fx_id = ''fix_'' @ h, fx_text = ''bound hole '' @ h @ '' on '' @ nm, fx_patch = [(nm, ival_of l u)]\<rparr>"

definition svc_resolve_hole :: "string \<Rightarrow> string \<Rightarrow> double \<Rightarrow> double \<Rightarrow> string \<Rightarrow> audit \<Rightarrow> json reply" where
  "svc_resolve_hole h nm l u user a =
     then_record ''hole_resolution_proposed'' h None (or_system user)
       (mkobj [(''ok'', JBool True), (''fix_id'', JStr (''fix_'' @ h)), (''status'', JStr ''proposed''),
          (''note'', JStr ''requires reviewer approval before automatic transfer'')])
       (on_store (record_fix (hole_fix h nm l u)) a)"

definition order_fix :: "string \<Rightarrow> string \<Rightarrow> box \<Rightarrow> fve_fix" where
  "order_fix w f patch =
     \<lparr>fx_id = (if f = [] then ''fix_'' @ w else f), fx_text = ''engineer fix for '' @ w, fx_patch = patch\<rparr>"

definition svc_resolve_work_order :: "string \<Rightarrow> string \<Rightarrow> box \<Rightarrow> audit \<Rightarrow> json option reply" where
  "svc_resolve_work_order w f patch a =
     (case store_get (au_store a) ''work_orders'' w of
        None \<Rightarrow> (None, a)
      | Some None \<Rightarrow> (Some None, a)
      | Some (Some d) \<Rightarrow>
          (let fx = order_fix w f patch;
               d1 = jset ''fix_id'' (JStr (fx_id fx)) (jset ''status'' (JStr ''resolved'') d)
           in then_record ''work_order_resolved'' w (Some d1) ''system'' (Some d1)
                (on_store (\<lambda>s. snd (store_put ''work_orders'' w d1 (record_fix fx s))) a)))"

section \<open>Events\<close>

datatype event_action = AutoFix | WorkOrder | Halt

fun action_name :: "event_action \<Rightarrow> string" where
  "action_name AutoFix = ''auto_fix''"
| "action_name Halt = ''halt''"
| "action_name WorkOrder = ''work_order''"

record prod_event =
  pe_id :: string
  pe_part :: string
  pe_section :: string
  pe_defect :: string
  pe_params :: "(string, double) omap"
  pe_operator :: string
  pe_voice :: string
  pe_photo :: string
  pe_time :: int

text \<open>A time that does not fit a \<open>long\<close> has no value.\<close>

definition to_long :: "double \<Rightarrow> int option" where
  "to_long d =
     (case d of NaN \<Rightarrow> None | PInf \<Rightarrow> None | NInf \<Rightarrow> None
      | _ \<Rightarrow> (let i = (if 0 \<le> fval d then \<lfloor>fval d\<rfloor> else \<lceil>fval d\<rceil>)
             in if - (2 ^ 63) \<le> i \<and> i < 2 ^ 63 then Some i else None))"

fun num_params :: "(string \<times> json) list \<Rightarrow> (string, double) omap" where
  "num_params [] = []"
| "num_params ((k, JNum v) # ps) = mput k v (num_params ps)"
| "num_params (_ # ps) = num_params ps"

definition parse_event :: "json \<Rightarrow> prod_event option" where
  "parse_event b =
     map_option (\<lambda>t. \<lparr>pe_id = [], pe_part = jstr b ''part_id'' [], pe_section = jstr b ''section'' [], pe_defect = jstr b ''defect_type'' [],
         pe_params = num_params (jobj (jat b ''params'')), pe_operator = jstr b ''operator_id'' [],
         pe_voice = jstr b ''voice_note_id'' [], pe_photo = jstr b ''photo_id'' [], pe_time = t\<rparr>)
       (if jhas b ''timestamp'' then to_long (jn b ''timestamp'' (Fin 0)) else Some 0)"

text \<open>The box of an event: measured inputs within one per cent, the others within five.\<close>

definition event_ival :: "(string, double) omap \<Rightarrow> string \<times> double \<Rightarrow> string \<times> ival" where
  "event_ival ps kv =
     (fst kv,
      case mget ps (fst kv) of
        Some v \<Rightarrow> (let d = fmul RNear (fabs v) (c_lit (1 / 100)) in ival_of (fsub RNear v d) (fadd RNear v d))
      | None \<Rightarrow> (let b = snd kv; d0 = fmul RNear (fabs b) (c_lit (5 / 100)); d = (if is_zero d0 then c_lit (5 / 100) else d0)
                in ival_of (fsub RNear b d) (fadd RNear b d)))"

definition event_prog :: "prod_event \<Rightarrow> lowered \<Rightarrow> prog" where
  "event_prog ev l =
     \<lparr>p_root = lw_root l, p_box = map (event_ival (pe_params ev)) (lw_base l), p_holes = hole_empty, p_ks = Fin 0\<rparr>"

text \<open>The first of the near cases whose fix transfers.\<close>

fun first_transfer :: "libm \<Rightarrow> prog \<Rightarrow> case_match list \<Rightarrow> (case_match \<times> certificate) option option" where
  "first_transfer L p [] = Some None"
| "first_transfer L p (m # rest) =
     (case try_transfer L p m of
        None \<Rightarrow> None
      | Some None \<Rightarrow> first_transfer L p rest
      | Some (Some m') \<Rightarrow> (case cm_cert m' of Some c \<Rightarrow> Some (Some (m, c)) | None \<Rightarrow> None))"

definition decide_action :: "libm \<Rightarrow> store \<Rightarrow> prog \<Rightarrow> crit_score \<Rightarrow> (event_action \<times> (case_match \<times> certificate) option) option" where
  "decide_action L s p score =
     (if 4 \<le> priority score then Some (Halt, None)
      else Option.bind (query s (hex (n_hash (p_root p))) (p_box p) (c_lit (15 / 100)) 5)
             (\<lambda>near. map_option (\<lambda>t. case t of None \<Rightarrow> (WorkOrder, None) | Some x \<Rightarrow> (AutoFix, Some x)) (first_transfer L p near)))"

section \<open>The search for a file\<close>

definition word_break :: "char \<Rightarrow> bool" where
  "word_break c = (c \<in> set '' _-.,'')"

fun words_of :: "string \<Rightarrow> string \<Rightarrow> string list" where
  "words_of w [] = (if w = [] then [] else [w])"
| "words_of w (c # s) = (if word_break c then (if w = [] then [] else [w]) @ words_of [] s else words_of (w @ [c]) s)"

definition query_words :: "string \<Rightarrow> string list" where
  "query_words q = words_of [] (lower_text q)"

definition haystack :: "json \<Rightarrow> string" where
  "haystack d =
     lower_text (join (CHR '' '') (map (\<lambda>k. jstr d k [])
       [''config_key'', ''name'', ''rel_path'', ''format_type'', ''domain'', ''keywords'', ''revision'']))"

record hit =
  ht_doc :: json
  ht_score :: int
  ht_mtime :: int

definition word_score :: "json \<Rightarrow> string \<Rightarrow> int" where
  "word_score d w = (if occurs w (jstr d ''config_key'' []) then 3 else 1)"

definition is_head :: "json \<Rightarrow> bool" where
  "is_head d = jbool (jat d ''is_head'')"

definition hit_words :: "string list \<Rightarrow> json \<Rightarrow> bool" where
  "hit_words wds d \<longleftrightarrow> wds \<noteq> [] \<and> list_all (\<lambda>w. occurs w (haystack d)) wds"

text \<open>\<open>None\<close> is a conversion that is undefined.\<close>

definition hit_of :: "string list \<Rightarrow> json \<Rightarrow> hit option option" where
  "hit_of wds d =
     (if is_head d \<and> hit_words wds d
      then Option.bind (int_field d ''marker_hits'') (\<lambda>k. map_option (\<lambda>t.
             Some \<lparr>ht_doc = d, ht_score = sum_list (map (word_score d) wds) + k, ht_mtime = t\<rparr>) (to_long (jn d ''mtime'' (Fin 0))))
      else Some None)"

fun hits_of :: "string list \<Rightarrow> json list \<Rightarrow> hit list option" where
  "hits_of wds [] = Some []"
| "hits_of wds (d # ds) =
     Option.bind (hit_of wds d) (\<lambda>h. map_option (\<lambda>hs. case h of Some x \<Rightarrow> x # hs | None \<Rightarrow> hs) (hits_of wds ds))"

definition hit_before :: "hit \<Rightarrow> hit \<Rightarrow> bool" where
  "hit_before a b = (if ht_score a \<noteq> ht_score b then ht_score b < ht_score a else ht_mtime b < ht_mtime a)"

definition search_hits :: "store \<Rightarrow> string \<Rightarrow> hit list option" where
  "search_hits s q =
     Option.bind (get_all s ''file_registry'' (store_list s ''file_registry''))
       (\<lambda>ds. map_option (sort_lt hit_before) (hits_of (query_words q) ds))"

definition hit_json :: "hit \<Rightarrow> json" where
  "hit_json h =
     mkobj (map (\<lambda>k. (k, jat (ht_doc h) k))
       [''id'', ''name'', ''rel_path'', ''format_type'', ''domain'', ''revision'', ''rev_rank'', ''version_group''] @ [(''is_head'', JBool True)])"

definition svc_search :: "audit \<Rightarrow> string \<Rightarrow> int \<Rightarrow> json option" where
  "svc_search a q limit =
     map_option (\<lambda>hs. let arr = map hit_json (take (nat limit) hs)
         in mkobj ([(''query'', JStr q), (''matches'', JArr arr), (''count'', jint (int (length hs)))]
              @ (if hs = [] then [] else [(''newest'', if arr = [] then JNull else arr ! 0)])))
       (search_hits (au_store a) q)"

section \<open>Handling an event\<close>

text \<open>The service with the files of its artifacts, and what it takes from outside: the mathematical library, the
  files of the system and the fuel of the inflater.\<close>

record service =
  sv_audit :: audit
  sv_blobs :: "(string, byte list) omap"

record outside =
  ox_math :: mathlib
  ox_fs :: "string \<Rightarrow> byte list option"
  ox_fuel :: nat

definition ox_libm :: "outside \<Rightarrow> libm" where
  "ox_libm e = libm.truncate (ox_math e)"

definition ext_for :: "string \<Rightarrow> string" where
  "ext_for nm = (if CHR ''.'' \<in> set nm then ext_of nm else ''xlsx'')"

definition blob_path :: "store \<Rightarrow> string \<Rightarrow> string" where
  "blob_path s i = st_root s @ ''/blobs/'' @ i"

definition files_of :: "outside \<Rightarrow> service \<Rightarrow> string \<Rightarrow> byte list option" where
  "files_of e sv p = (case mget (sv_blobs sv) p of Some b \<Rightarrow> Some b | None \<Rightarrow> ox_fs e p)"

definition ingest :: "string \<Rightarrow> string \<Rightarrow> byte list \<Rightarrow> service \<Rightarrow> string option \<times> service" where
  "ingest nm mime bs sv =
     (let s = au_store (sv_audit sv)
      in case put_artifact nm mime bs None s of
           None \<Rightarrow> (None, sv)
         | Some (i, s1) \<Rightarrow>
             (let p = blob_path s i @ ''.'' @ ext_for nm;
                  bl = (if st_deny s p then sv_blobs sv else mput p bs (sv_blobs sv));
                  doc = mkobj [(''name'', JStr nm), (''bytes'', jint (int (length bs)))];
                  r = then_record ''ingest'' i (Some doc) ''system'' i (on_store (\<lambda>_. s1) (sv_audit sv))
              in (fst r, \<lparr>sv_audit = snd r, sv_blobs = bl\<rparr>)))"

definition pe_reply :: "prod_event \<Rightarrow> (string \<times> json) list" where
  "pe_reply ev = [(''part_id'', JStr (pe_part ev)), (''section'', JStr (pe_section ev)), (''defect_type'', JStr (pe_defect ev))]"

definition evt_id :: "store \<Rightarrow> prod_event \<Rightarrow> string" where
  "evt_id s ev =
     ''evt_'' @ take 16 (hex (sha256_str (pe_part ev @ pe_section ev @ pe_defect ev @ show_nat (length (store_list s ''production_events'')))))"

definition jtext :: "string \<Rightarrow> string \<Rightarrow> (string \<times> json) list" where
  "jtext k v = (if v = [] then [] else [(k, JStr v)])"

definition order_doc :: "string \<Rightarrow> string \<Rightarrow> prod_event \<Rightarrow> string \<Rightarrow> eval_result \<Rightarrow> crit_score \<Rightarrow> json" where
  "order_doc w eid ev file r score =
     mkobj [(''id'', JStr w), (''event_id'', JStr eid), (''status'', JStr ''open''), (''cs'', JNum (cs score)), (''priority'', jint (priority score)),
       (''section'', JStr (pe_section ev)), (''file_id'', JStr file),
       (''abstain_why'', JStr (if decide_eval r = Abstain then summary (explain_abstain r) else why score))]"

definition event_doc :: "string \<Rightarrow> string \<Rightarrow> prod_event \<Rightarrow> string \<Rightarrow> string \<Rightarrow> eval_result \<Rightarrow> crit_score \<Rightarrow> event_action \<Rightarrow> string \<Rightarrow> string \<Rightarrow> json" where
  "event_doc cfg eid ev file ph r score act fixid w =
     mkobj ([(''id'', JStr eid)] @ pe_reply ev @ [(''file_id'', JStr file), (''program_hash'', JStr ph), (''verdict'', JStr (verdict_name (decide_eval r))),
       (''cs'', JNum (cs score)), (''priority'', jint (priority score)), (''action'', JStr (action_name act))]
       @ jtext ''fix_id'' fixid @ jtext ''work_order_id'' w @ jtext ''reported_by'' (pe_operator ev) @ jtext ''voice_note_id'' (pe_voice ev)
       @ jtext ''photo_id'' (pe_photo ev) @ [(''config_hash'', JStr cfg)])"

definition event_reply :: "string \<Rightarrow> prod_event \<Rightarrow> eval_result \<Rightarrow> crit_score \<Rightarrow> event_action \<Rightarrow> string \<Rightarrow> string \<Rightarrow> string \<Rightarrow> json" where
  "event_reply eid ev r score act fixid tcert w =
     mkobj (pe_reply ev @ [(''event_id'', JStr eid), (''action'', JStr (action_name act)), (''verdict'', JStr (verdict_name (decide_eval r))),
       (''cs'', JNum (cs score)), (''priority'', jint (priority score)), (''priority_label'', JStr (crit_score.label score))]
       @ (if fixid = [] then [] else [(''fix_id'', JStr fixid), (''transfer_cert'', JStr tcert)]) @ jtext ''work_order_id'' w @ [(''ok'', JBool True)])"

definition svc_config :: crit_config where
  "svc_config = default_config"

text \<open>The part after the target is lowered: the decision and the documents it leaves.\<close>

definition finish_event :: "libm \<Rightarrow> prod_event \<Rightarrow> string \<Rightarrow> lowered \<Rightarrow> audit \<Rightarrow> json reply" where
  "finish_event L ev file l a =
     (let p = event_prog ev l; s = au_store a; ph = hex (n_hash (p_root p))
      in case eval L p of
           None \<Rightarrow> (None, a)
         | Some r \<Rightarrow>
             (let score = criticality_cfg L r svc_config; eid = evt_id s ev
              in case decide_action L s p score of
                   None \<Rightarrow> (None, a)
                 | Some (act, x) \<Rightarrow>
                     (let fixid = (case x of Some (m, _) \<Rightarrow> fx_id (cm_fix m) | None \<Rightarrow> []);
                          tcert = (case x of Some (_, c) \<Rightarrow> ''sha256:'' @ hex (c_digest c) | None \<Rightarrow> []);
                          w = (if act = WorkOrder then ''wo_'' @ drop 4 eid else []);
                          s1 = (case x of Some (m, _) \<Rightarrow> record_outcome (ca_id (cm_ref m)) (fx_id (cm_fix m)) ''resolved'' tcert s | None \<Rightarrow> s);
                          s2 = (if act = WorkOrder then snd (store_put ''work_orders'' w (order_doc w eid ev file r score) s1) else s1);
                          d = event_doc (hex (config_hash svc_config)) eid ev file ph r score act fixid w
                      in then_record ''production_event'' eid (Some d) (or_system (pe_operator ev)) (event_reply eid ev r score act fixid tcert w)
                           (on_store (\<lambda>_. snd (store_put ''production_events'' eid d s2)) a))))"

definition pe_fail :: "prod_event \<Rightarrow> string \<Rightarrow> json" where
  "pe_fail ev e = mkobj (pe_reply ev @ [(''error'', JStr e)])"

definition first_file :: "audit \<Rightarrow> prod_event \<Rightarrow> json option option" where
  "first_file a ev =
     (case search_hits (au_store a) (pe_section ev @ '' '' @ pe_defect ev) of
        None \<Rightarrow> None
      | Some (h # _) \<Rightarrow> Some (Some (hit_json h))
      | Some [] \<Rightarrow> map_option (\<lambda>hs. case hs of [] \<Rightarrow> None | h # _ \<Rightarrow> Some (hit_json h)) (search_hits (au_store a) (pe_section ev)))"

definition stats_new :: run_stats where
  "stats_new = \<lparr>st_evals = 0, st_cells = 0, st_limit_hit = False\<rparr>"

definition svc_handle_event :: "outside \<Rightarrow> prod_event \<Rightarrow> service \<Rightarrow> json option \<times> service" where
  "svc_handle_event e ev sv =
     (let a = sv_audit sv
      in case first_file a ev of
           None \<Rightarrow> (None, sv)
         | Some None \<Rightarrow> (Some (mkobj (pe_reply ev @ [(''action'', JStr ''work_order''), (''error'', JStr ''no_file_found'')])), sv)
         | Some (Some m) \<Rightarrow>
             (case store_get (au_store a) ''file_registry'' (jstr m ''id'' []) of
                None \<Rightarrow> (None, sv)
              | Some None \<Rightarrow> (Some (pe_fail ev ''file_missing''), sv)
              | Some (Some fe) \<Rightarrow>
                  (case files_of e sv (jstr fe ''path'' []) of
                     None \<Rightarrow> (Some (pe_fail ev ''file_unreadable''), sv)
                   | Some [] \<Rightarrow> (Some (pe_fail ev ''file_unreadable''), sv)
                   | Some bs \<Rightarrow>
                       (case ingest (jstr fe ''name'' []) ''application/octet-stream'' bs sv of
                          (None, sv1) \<Rightarrow> (None, sv1)
                        | (Some i, sv1) \<Rightarrow>
                            (case extract_file (ox_math e) (files_of e sv1) (ox_fuel e)
                                    (blob_path (au_store (sv_audit sv1)) i @ ''.'' @ ext_for (jstr fe ''name'' [])) of
                               None \<Rightarrow> (None, sv1)
                             | Some ex \<Rightarrow>
                                 if \<not> ex_ok ex then (Some (pe_fail ev ''extract_failed''), sv1)
                                 else (case orc_run (ox_math e) default_limits None stats_new (orc_new (ex_wb ex)) of
                                         None \<Rightarrow> (None, sv1)
                                       | Some _ \<Rightarrow>
                                           (case margin_targets (ex_sdg ex) of
                                              [] \<Rightarrow> (Some (pe_fail ev ''no_target''), sv1)
                                            | t # _ \<Rightarrow>
                                                (case lower_target (ex_wb ex) t of
                                                   XOk l _ \<Rightarrow>
                                                     (let r = finish_event (ox_libm e) ev (jstr m ''id'' []) l (sv_audit sv1)
                                                      in (fst r, sv1\<lparr>sv_audit := snd r\<rparr>))
                                                 | _ \<Rightarrow> (None, sv1)))))))))"

section \<open>The signal at the station\<close>

definition light_of :: "int \<Rightarrow> string \<times> string \<times> json" where
  "light_of p =
     (if p \<le> 1 then (''green'', ''PROCEED'', JNull)
      else if p = 2 then (''yellow'', ''REVIEW'', JNull)
      else (''red'', ''STOP'', jint (if 4 \<le> p then 25 else 15)))"

text \<open>The Russian messages, in UTF-8, are arguments.\<close>

definition apply_light :: "(string \<Rightarrow> string) \<Rightarrow> int \<Rightarrow> string \<Rightarrow> (string \<times> json) list" where
  "apply_light msg p eid =
     (let (l, st, eta) = light_of p
      in [(''light'', JStr l), (''status'', JStr st), (''message'', JStr (msg st)), (''eta_minutes'', eta), (''event_id'', JStr eid)])"

definition station_event :: "prod_event \<Rightarrow> prod_event" where
  "station_event ev = (if pe_section ev = [] then ev\<lparr>pe_section := pe_part ev\<rparr> else ev)"

definition report_json :: "(string \<Rightarrow> string) \<Rightarrow> json \<Rightarrow> json option" where
  "report_json msg r =
     (case (if jhas r ''priority'' then int_field r ''priority'' else Some 3) of
        None \<Rightarrow> None
      | Some p \<Rightarrow>
          Some (if \<not> (jhas r ''ok'' \<and> jbool (jat r ''ok''))
                then mkobj [(''light'', JStr ''red''), (''status'', JStr ''STOP''), (''message'', JStr (msg ''no match'')), (''eta_minutes'', jint 20),
                       (''event_id'', JStr (if jhas r ''event_id'' then jstr r ''event_id'' [] else []))]
                else mkobj (apply_light msg p (jstr r ''event_id'' [])
                       @ (if jhas r ''work_order_id'' then [(''work_order_id'', jat r ''work_order_id'')] else []))))"

definition svc_production_report :: "(string \<Rightarrow> string) \<Rightarrow> outside \<Rightarrow> prod_event \<Rightarrow> service \<Rightarrow> json option \<times> service" where
  "svc_production_report msg e ev sv =
     (let r = svc_handle_event e (station_event ev) sv in (Option.bind (fst r) (report_json msg), snd r))"

definition svc_report_status :: "(string \<Rightarrow> string) \<Rightarrow> audit \<Rightarrow> string \<Rightarrow> json option" where
  "svc_report_status msg a eid =
     Option.bind (store_get (au_store a) ''production_events'' eid) (\<lambda>d. case d of
        None \<Rightarrow> Some (mkobj [(''light'', JStr ''pending''), (''message'', JStr (msg ''pending''))])
      | Some e \<Rightarrow> map_option (\<lambda>p. mkobj (apply_light msg p eid)) (int_field e ''priority''))"

end
