(* ===== verification/Fve_Station.thy ===== *)
theory Fve_Station
  imports Fve_Service Fve_Synth Fve_Libm
begin

text \<open>
  What the decisions of the service are worth: a station that shows the green light, the fixes that are applied
  on their own, the approval of a fix, and the search for a file.
\<close>

section \<open>A low priority\<close>

text \<open>The exponential of a NaN is a NaN.\<close>

definition exp_nan :: "libm \<Rightarrow> bool" where
  "exp_nan L \<longleftrightarrow> l_exp L NaN = NaN"

lemma fneg_inf: "fneg q = NaN \<Longrightarrow> q = NaN"
  by (cases q) (auto split: if_splits)

lemma fle_above: "fle (Fin 0) d \<Longrightarrow> above d 0"
  by (cases d) (auto simp: fle_def)

lemma above_fround_nonneg: "0 \<le> q \<Longrightarrow> above (fround m q) 0"
  using fround_ge[OF representable_0, of q m] by (rule fle_above)

lemma above_fadd_nonneg: "above a 0 \<Longrightarrow> above b 0 \<Longrightarrow> above (fadd m a b) 0"
  by (cases a; cases b) (auto simp: above_fround_nonneg fzero_def)

lemma above_difference: "\<not> flt h l \<Longrightarrow> fsub RNear h l = NaN \<or> above (fsub RNear h l) 0"
  by (cases h; cases l) (auto simp: fsub_def fzero_def above_fround_nonneg)

lemma above_slack_up: "d = NaN \<or> above d 0 \<Longrightarrow> slack_up d = NaN \<or> above (slack_up d) 0"
  using above_next_up[of d 0] above_next_up[of "next_up d" 0] by (auto simp: slack_up_def)

lemma above_width: "\<not> flt (hi i) (lo i) \<Longrightarrow> width i = NaN \<or> above (width i) 0"
  using above_slack_up[OF above_difference] by (simp add: width_def is_empty_def)

lemma tiny_term: "is_fin (dlit (1 / 10 ^ 12)) \<and> 0 < fval (dlit (1 / 10 ^ 12)) \<and> representable (fval (dlit (1 / 10 ^ 12)))"
proof -
  have "is_fin (dlit (1 / 10 ^ 12)) \<and> 1 / 2 ^ 40 \<le> fval (dlit (1 / 10 ^ 12)) \<and> fval (dlit (1 / 10 ^ 12)) \<le> 1"
    unfolding dlit_def by (rule fround_lower) (use representable_scaled[of 1 40] representable_int[of 1] in simp_all)
  moreover have "(0::real) < 1 / 2 ^ 40" by simp
  moreover have "dwf (dlit (1 / 10 ^ 12))" unfolding dlit_def by (rule fround_dwf)
  ultimately show ?thesis using dwf_fval by (meson less_le_trans)
qed

lemma fadd_tiny_pos: "above x 0 \<Longrightarrow> flt (Fin 0) (fadd RNear x (dlit (1 / 10 ^ 12)))"
proof -
  assume x: "above x 0"
  obtain v where v: "dlit (1 / 10 ^ 12) = Fin v" "0 < v" "representable v" using tiny_term by (cases "dlit (1 / 10 ^ 12)") auto
  have "flt (Fin 0) (fround RNear (r + v))" if "0 \<le> r" for r
    using fround_ge[OF v(3), of "r + v" RNear] v(2) that by (cases "fround RNear (r + v)") (auto simp: fle_def)
  from this[of 0] this show ?thesis unfolding v(1) using x v(2) by (cases x) auto
qed

lemma fdiv_pos: "flt (Fin 0) (fdiv RNear n d) \<Longrightarrow> flt (Fin 0) d \<Longrightarrow> flt (Fin 0) n"
proof (cases "is_fin n \<and> is_fin d")
  case True
  assume a: "flt (Fin 0) (fdiv RNear n d)" "flt (Fin 0) d"
  have d: "0 < fval d" using a(2) True by (cases d) auto
  have "\<not> flt (Fin 0) (fround RNear q)" if "q \<le> 0" for q
    using fround_le[OF representable_0 that, of RNear] by (cases "fround RNear q") (auto simp: fle_def)
  then have "0 < fval n / fval d" using a(1) True d
    by (cases "0 < fval n / fval d") (auto simp: fdiv_def is_zero_def fzero_def finite_iff split: if_splits)
  then show ?thesis using d True by (cases n) (auto simp: zero_less_divide_iff)
qed (cases n; cases d; auto simp: fdiv_def is_zero_def fzero_def finf_def split: if_splits)

lemma snr_safe:
  assumes "\<not> has_nan r" "\<not> is_empty (ms r)" "\<not> flt (residual r) (Fin 0)" "flt (Fin 0) (snr_of r)"
  shows "decide_eval r = Safe"
proof -
  define l h q where "l = lo (ms r)" and "h = hi (ms r)" and "q = residual r"
  define num den where "num = fsub RNear l q" and "den = fadd RNear (fadd RNear (width (ms r)) q) (dlit (1 / 10 ^ 12))"
  have n: "l \<noteq> NaN" "h \<noteq> NaN" "q \<noteq> NaN" "\<not> flt h l" "\<not> flt q (Fin 0)"
    using assms by (auto simp: l_def h_def q_def has_nan_def is_empty_def)
  have s: "flt (Fin 0) (fdiv RNear num den)" using assms(4) by (simp add: snr_of_def num_def den_def l_def q_def)
  have w: "width (ms r) \<noteq> NaN" using s by (auto simp: den_def fdiv_def)
  have "above q 0" using n(3,5) by (cases q) auto
  then have d: "flt (Fin 0) den" unfolding den_def using w above_width[of "ms r"] n(4)
    by (intro fadd_tiny_pos above_fadd_nonneg) (auto simp: l_def h_def)
  have num: "flt (Fin 0) num" using fdiv_pos[OF s d] .
  have wd: "width (ms r) = slack_up (fsub RNear h l)" using assms(2) by (simp add: width_def h_def l_def)
  have "l \<noteq> NInf" using num n(3) fneg_inf[of q] by (cases "fneg q") (auto simp: num_def fsub_def)
  moreover have "l \<noteq> PInf" using n(2,4) w wd by (cases h) (auto simp: fsub_def slack_up_def)
  ultimately have l: "is_fin l" using n(1) by (cases l) auto
  have "h \<noteq> PInf"
  proof
    assume "h = PInf"
    then have "width (ms r) = PInf" using wd l by (cases l) (simp_all add: fsub_def slack_up_def)
    then have "den = PInf" using n(3,5) tiny_term by (cases q; cases "dlit (1 / 10 ^ 12)") (simp_all add: den_def)
    then show False using s by (cases num) (auto simp: fdiv_def fzero_def split: if_splits)
  qed
  moreover have "h \<noteq> NInf" using n(4) l by (cases l) auto
  ultimately have h: "is_fin h" using n(2) by (cases h) auto
  have "\<not> is_entire (ms r)" using l by (cases l) (auto simp: is_entire_def l_def)
  then show ?thesis using l h n num assms(2)
    by (auto simp: decide_eval_def decide_def l_def[symmetric] h_def[symmetric] q_def[symmetric] num_def[symmetric] finite_iff Let_def)
qed

lemma cs_low:
  assumes "exp_ok L" "exp_nan L" "flt (cs_of L (Fin 3) s) (Fin (1 / 2))"
  shows "flt (Fin 0) s"
proof (rule ccontr)
  assume s: "\<not> flt (Fin 0) s"
  define t e where "t = fmul RNear (Fin 3) s" and "e = l_exp L t"
  have c: "cs_of L (Fin 3) s = fdiv RNear (Fin 1) (fadd RNear (Fin 1) e)" by (simp add: cs_of_def e_def t_def)
  have t: "t = NaN \<or> t = NInf \<or> is_fin t \<and> fval t \<le> 0"
    using s fround_le[OF representable_0, of "3 * fval s" RNear]
    by (cases s; cases "fround RNear (3 * fval s)") (auto simp: t_def fmul_def is_zero_def finf_def fzero_def fle_def)
  have e: "e = NaN \<or> is_fin e \<and> 0 \<le> fval e \<and> fval e \<le> 1"
  proof (cases "is_fin t")
    case True
    then have "faithful e (exp (fval t))" using assms(1) by (simp add: exp_ok_def e_def)
    then obtain m where m: "e = fround m (exp (fval t))" by (auto simp: faithful_def)
    have "exp (fval t) \<le> 1" using t True by auto
    then have "fle e (Fin 1)" "fle (Fin 0) e" unfolding m
      using fround_le[of 1 "exp (fval t)" m] fround_ge[of 0 "exp (fval t)" m] representable_int[of 1] by simp_all
    then show ?thesis by (cases e) (auto simp: fle_def)
  qed (use t assms in \<open>auto simp: exp_ok_def exp_nan_def e_def\<close>)
  show False
  proof (cases "e = NaN")
    case True
    then show False using assms(3) by (simp add: c fdiv_def)
  next
    case False
    then have "1 + fval e \<noteq> 0" "is_fin e" "0 \<le> fval e" "fval e \<le> 1" using e by auto
    then have f: "fadd RNear (Fin 1) e = fround RNear (1 + fval e)" "1 \<le> 1 + fval e" "1 + fval e \<le> 2" by (cases e; auto)+
    define g where "g = fadd RNear (Fin 1) e"
    have g: "is_fin g \<and> 1 \<le> fval g \<and> fval g \<le> 2" unfolding g_def f(1)
      using f(2,3) by (intro fround_lower) (use representable_int[of 1] representable_int[of 2] in simp_all)
    then have "(1 / 2 :: real) \<le> 1 / fval g" by (simp add: field_simps)
    then have "fle (Fin (1 / 2)) (fround RNear (1 / fval g))" by (intro fround_ge) (use representable_scaled[of 1 1] in simp_all)
    moreover have "fdiv RNear (Fin 1) g = fround RNear (1 / fval g)" using g by (cases g) (auto simp: fdiv_def is_zero_def)
    ultimately show False using assms(3) unfolding c g_def[symmetric]
      by (cases "fround RNear (1 / fval g)") (auto simp: fle_def)
  qed
qed

lemma priority_low_cs:
  assumes "\<not> has_nan r" "priority (criticality_cfg L r default_config) \<le> 1"
  shows "flt (cs_of L (Fin 3) (snr_of r)) (Fin (1 / 2))"
proof -
  define c where "c = cs_of L (Fin 3) (snr_of r)"
  have "fle (dlit (1 / 5)) (Fin (1 / 2))" unfolding dlit_def using representable_scaled[of 1 1] by (intro fround_le) simp_all
  then have "flt c (Fin (1 / 2))" if "flt c (dlit (1 / 5))"
    using that by (cases c; cases "dlit (1 / 5)") (auto simp: fle_def)
  moreover have "flt c (dlit (1 / 5)) \<or> flt c (Fin (1 / 2))"
    using assms unfolding criticality_overloads[OF assms(1)]
    by (auto simp: criticality_def Let_def level_def levels_def c_def split: if_splits)
  ultimately show ?thesis unfolding c_def by blast
qed

text \<open>On an enclosure that is not empty, a priority of SAFE or WATCH is a verdict SAFE.\<close>

lemma priority_low_safe:
  assumes "libm_ok L" "exp_nan L" "\<not> is_empty (ms r)" "\<not> flt (residual r) (Fin 0)"
    and "priority (criticality_cfg L r default_config) \<le> 1"
  shows "decide_eval r = Safe"
proof -
  have n: "\<not> has_nan r" using assms(5) by (auto simp: criticality_cfg_def halt_nan_def split: if_splits)
  have "exp_ok L" using assms(1) by (simp add: libm_ok_def)
  from snr_safe[OF n assms(3,4) cs_low[OF this assms(2) priority_low_cs[OF n assms(5)]]] show ?thesis .
qed

text \<open>An empty enclosure, of a cell that has no value, has the lowest priority.\<close>

lemma empty_priority:
  assumes "exp_ok L" "ms r = ival_empty" "residual r = Fin 0"
  shows "priority (criticality_cfg L r default_config) = 0"
proof -
  have "is_empty ival_empty" by (simp add: is_empty_def ival_empty_def)
  then have w: "width (ms r) = Fin 0" by (simp add: assms(2) width_def)
  obtain v where v: "dlit (1 / 10 ^ 12) = Fin v" "0 < v" "representable v" using tiny_term by (cases "dlit (1 / 10 ^ 12)") auto
  have "flt (Fin 0) (fadd RNear (Fin 0) (dlit (1 / 10 ^ 12)))" by (rule fadd_tiny_pos) simp
  then have "snr_of r = PInf" using w assms(2,3) v
    by (cases "fadd RNear (Fin 0) (dlit (1 / 10 ^ 12))")
      (auto simp: snr_of_def ival_empty_def fsub_def fdiv_def finf_def fround_exact is_zero_def)
  then have "cs_of L (Fin 3) (snr_of r) = Fin 0" using assms(1)
    by (simp add: cs_of_def fmul_def is_zero_def finf_def exp_ok_def fdiv_def fzero_def)
  moreover have "flt (Fin 0) (dlit (1 / 5))"
  proof -
    have "fle (Fin (1 / 2 ^ 3)) (dlit (1 / 5))" unfolding dlit_def using representable_scaled[of 1 3] by (intro fround_ge) simp_all
    then show ?thesis by (cases "dlit (1 / 5)") (auto simp: fle_def)
  qed
  moreover have n: "\<not> has_nan r" using assms(2,3) by (simp add: has_nan_def ival_empty_def)
  ultimately show ?thesis unfolding criticality_overloads[OF n] by (simp add: criticality_def n Let_def level_def levels_def)
qed

section \<open>The residual without wrappers\<close>

definition not_below :: "double \<Rightarrow> bool" where
  "not_below d \<longleftrightarrow> d = NaN \<or> above d 0"

lemma not_below_flt: "not_below d \<Longrightarrow> \<not> flt d (Fin 0)"
  by (cases d) (auto simp: not_below_def)

lemma not_below_add: "not_below a \<Longrightarrow> not_below b \<Longrightarrow> not_below (fadd m a b)"
  using above_fadd_nonneg[of a b m] by (cases a; cases b) (auto simp: not_below_def)

lemma not_below_half: "not_below a \<Longrightarrow> not_below (fmul RNear (Fin (1 / 2)) a)"
  by (cases a) (auto simp: not_below_def fmul_def is_zero_def finf_def fzero_def intro!: above_fround_nonneg)

lemma phys_wrap_residual: "not_below (w_residual (phys_wrap p ins))"
proof (cases "is_entire p")
  case False
  have "not_below (width p)"
  proof (cases "is_empty p")
    case True
    then show ?thesis by (simp add: not_below_def width_def)
  next
    case False
    then show ?thesis using above_width[of p] by (simp add: not_below_def is_empty_def)
  qed
  then show ?thesis using False not_below_half by (simp add: phys_wrap_def)
qed (simp add: phys_wrap_def not_below_def entire_def)

lemma hole_residual: "wrappers T = [] \<Longrightarrow> not_below (w_residual (hole_eval T i p ins))"
  by (simp add: hole_eval_def Let_def mget_def phys_wrap_residual)

lemma rec_residual:
  "wrappers T = [] \<Longrightarrow> not_below (fst st) \<Longrightarrow> rec L B T n st = Some (out, st') \<Longrightarrow> not_below (fst st')"
  "wrappers T = [] \<Longrightarrow> not_below (fst st) \<Longrightarrow> recs L B T ns st = Some (outs, st') \<Longrightarrow> not_below (fst st')"
proof (induction L B T n st and L B T ns st arbitrary: out st' and outs st' rule: rec_recs.induct)
  case (1 L B T n st)
  show ?case
  proof (cases "n_kind n")
    case KOper
    then show ?thesis using "1.IH"(1)[OF KOper "1.prems"(1,2)] "1.prems"(3)[unfolded rec.simps[of L B T n st]]
      by (auto simp: push_trace_def split: option.splits)
  next
    case KCall
    then show ?thesis using "1.IH"(2)[OF KCall "1.prems"(1,2)] "1.prems"(3)[unfolded rec.simps[of L B T n st]]
      by (auto simp: push_trace_def split: option.splits)
  next
    case KHole
    then show ?thesis using "1.IH"(3)[OF KHole "1.prems"(1,2)] "1.prems"(3)[unfolded rec.simps[of L B T n st]] hole_residual[OF "1.prems"(1)]
      by (auto simp: push_trace_def Let_def not_below_add split: option.splits)
  next
    case KDisj
    then show ?thesis using "1.IH"(4)[OF KDisj "1.prems"(1,2)] "1.prems"(3)[unfolded rec.simps[of L B T n st]]
      by (auto simp: push_trace_def split: option.splits)
  qed (use "1.prems"(2) "1.prems"(3)[unfolded rec.simps[of L B T n st]] in \<open>auto simp: push_trace_def\<close>)+
next
  case (3 L B T n ns st)
  obtain a st1 bs where r: "rec L B T n st = Some (a, st1)" "recs L B T ns st1 = Some (bs, st')"
    using "3.prems"(3) by (auto split: option.splits)
  have "not_below (fst st1)" using "3.IH"(1)[OF "3.prems"(1,2) r(1)] .
  from "3.IH"(2)[OF r(1) refl "3.prems"(1) this r(2)] show ?case .
qed simp

lemma eval_residual: "p_holes p = hole_empty \<Longrightarrow> p_ks p = Fin 0 \<Longrightarrow> eval L p = Some r \<Longrightarrow> not_below (residual r)"
proof -
  assume a: "p_holes p = hole_empty" "p_ks p = Fin 0" "eval L p = Some r"
  obtain i st where i: "rec L (p_box p) hole_empty (p_root p) (Fin 0, Some []) = Some (i, st)" "residual r = fadd RNear (fst st) (Fin 0)"
    using a by (auto simp: eval_def split: option.splits)
  have "not_below (fst st)" by (rule rec_residual(1)[OF _ _ i(1)]) (simp_all add: hole_empty_def not_below_def)
  then show ?thesis unfolding i(2) by (rule not_below_add) (simp add: not_below_def)
qed

section \<open>The green light\<close>

lemma event_fst: "fst (event_ival ps kv) = fst kv"
  by (simp add: event_ival_def)

lemma mget_event: "mget (map (event_ival ps) m) s = map_option (\<lambda>b. snd (event_ival ps (s, b))) (mget m s)"
  by (induction m) (auto simp: mget_def event_fst)

lemma then_record_Some:
  "then_record ty subject pl user r a = (Some x, a') \<Longrightarrow> x = r"
  by (auto simp: then_record_def split: option.splits)

lemma finish_event_reply:
  assumes "finish_event L ev file l a = (Some rep, a')"
  shows "\<exists>r act x fid tc w. eval L (event_prog ev l) = Some r
    \<and> decide_action L (au_store a) (event_prog ev l) (criticality_cfg L r svc_config) = Some (act, x)
    \<and> rep = event_reply (evt_id (au_store a) ev) ev r (criticality_cfg L r svc_config) act fid tc w"
  using assms by (auto simp: finish_event_def Let_def dest!: then_record_Some split: option.splits)

lemma level_priority: "level_ok c \<Longrightarrow> 0 \<le> priority c \<and> priority c \<le> 4"
  by (auto simp: level_ok_def)

lemma reply_fields:
  "mget (jobj (event_reply eid ev r score act fid tc w)) ''priority'' = Some (jint (priority score))"
  "mget (jobj (event_reply eid ev r score act fid tc w)) ''ok'' = Some (JBool True)"
  "mget (jobj (event_reply eid ev r score act fid tc w)) ''event_id'' = Some (JStr eid)"
  "mget (jobj (event_reply eid ev r score act fid tc w)) ''action'' = Some (JStr (action_name act))"
  "mget (jobj (event_reply eid ev r score act fid tc w)) ''verdict'' = Some (JStr (verdict_name (decide_eval r)))"
  by (simp_all add: event_reply_def mkobj_get pe_reply_def jtext_def)

lemma report_light:
  assumes "level_ok score" "report_json msg (event_reply eid ev r score act fid tc w) = Some out"
  shows "jstr out ''status'' [] = fst (snd (light_of (priority score)))" "jstr out ''light'' [] = fst (light_of (priority score))"
proof -
  let ?p = "event_reply eid ev r score act fid tc w"
  have "int_field ?p ''priority'' = Some (priority score)"
    using level_priority[OF assms(1)] by (intro int_field_jint) (simp_all add: reply_fields)
  then have "out = mkobj (apply_light msg (priority score) (jstr ?p ''event_id'' [])
      @ (if jhas ?p ''work_order_id'' then [(''work_order_id'', jat ?p ''work_order_id'')] else []))"
    using assms(2) by (simp add: report_json_def jhas_def jat_def reply_fields)
  then show "jstr out ''status'' [] = fst (snd (light_of (priority score)))" "jstr out ''light'' [] = fst (light_of (priority score))"
    by (auto simp: jstr_def mkobj_get apply_light_def split: prod.split)
qed

lemma proceed_iff: "fst (snd (light_of p)) = ''PROCEED'' \<longleftrightarrow> p \<le> 1"
  by (simp add: light_of_def)


section \<open>A gauge\<close>

text \<open>One input, A1, which is measured as zero, with the margin \<open>1 - A1\<close> in B1 and \<open>SQRT(A1-1)\<close> in C1.\<close>

definition gauge_wb :: workbook where
  "gauge_wb = \<lparr>wb_sheets = [\<lparr>sh_name = ''S'', sh_cells =
      [((0, 0), input_cell (Fin 0)), ((0, 1), cell_default\<lparr>cell_formula := ''=1-A1''\<rparr>),
       ((0, 2), cell_default\<lparr>cell_formula := ''=SQRT(A1-1)''\<rparr>)]\<rparr>], wb_names = []\<rparr>"

definition ref_A1 :: xast where
  "ref_A1 = XCell [] (ref_default\<lparr>r_row := 0, r_col := 0\<rparr>)"

definition var_A1 :: node where
  "var_A1 = var ''S!A1'' dim_none entire"

definition margin_lowered :: lowered where
  "margin_lowered = \<lparr>lw_root = oper Sub [konst (Fin 1) dim_none, var_A1], lw_base = [(''S!A1'', Fin 0)], lw_holes = 0, lw_ok = True\<rparr>"

definition root_lowered :: lowered where
  "root_lowered = \<lparr>lw_root = oper Sqrt [oper Sub [var_A1, konst (Fin 1) dim_none]], lw_base = [(''S!A1'', Fin 0)], lw_holes = 0, lw_ok = True\<rparr>"

definition gauge_event :: prod_event where
  "gauge_event = \<lparr>pe_id = [], pe_part = ''p'', pe_section = ''s'', pe_defect = ''d'', pe_params = [(''S!A1'', Fin 0)],
     pe_operator = [], pe_voice = [], pe_photo = [], pe_time = 0\<rparr>"

definition fresh_audit :: audit where
  "fresh_audit = \<lparr>au_store = store_new ''d'', au_chain = chain_new\<rparr>"

lemma gauge_parse:
  "parse_formula ''=1-A1'' = Some \<lparr>xp_ast = Some (XBin ''-'' (XNum (Fin 1)) ref_A1), xp_ok = True, xp_err = []\<rparr>"
  "parse_formula ''=SQRT(A1-1)'' = Some \<lparr>xp_ast = Some (XCall ''SQRT'' [XBin ''-'' ref_A1 (XNum (Fin 1))]), xp_ok = True, xp_err = []\<rparr>"
  by code_simp+

lemma gauge_cells:
  "cell_of gauge_wb (CellId 0 0 0) = Some (Some (input_cell (Fin 0)))"
  "cell_of gauge_wb (CellId 0 0 1) = Some (Some (cell_default\<lparr>cell_formula := ''=1-A1''\<rparr>))"
  "cell_of gauge_wb (CellId 0 0 2) = Some (Some (cell_default\<lparr>cell_formula := ''=SQRT(A1-1)''\<rparr>))"
  by (simp_all add: cell_of_def gauge_wb_def sheet_at_def)

lemma gauge_key: "cell_key gauge_wb (CellId 0 0 0) = ''S!A1''"
  by code_simp

lemma gauge_target: "cell_target gauge_wb [] (ref_default\<lparr>r_row := 0, r_col := k\<rparr>) 0 = CellId 0 0 k"
  by (simp add: cell_target_def ref_id_def)

lemma gauge_fuel: "lower_fuel gauge_wb = 34"
proof -
  have t: "formula_tree (cell_default\<lparr>cell_formula := ''=1-A1''\<rparr>) = Some (XBin ''-'' (XNum (Fin 1)) ref_A1)"
      "formula_tree (cell_default\<lparr>cell_formula := ''=SQRT(A1-1)''\<rparr>) = Some (XCall ''SQRT'' [XBin ''-'' ref_A1 (XNum (Fin 1))])"
    unfolding formula_tree_def by (simp_all add: gauge_parse)
  have "formula_tree (input_cell d) = None" for d by (simp add: formula_tree_def input_cell_def cell_default_def)
  then show ?thesis
    using t by (simp add: lower_fuel_def formula_ids_def formula_rank_def cell_rank_def gauge_wb_def ref_A1_def
        input_cell_def cell_default_def enumerate_eq_zip)
qed

lemma gauge_lowered:
  "lower_target gauge_wb (CellId 0 0 1) = XOk margin_lowered ()"
  "lower_target gauge_wb (CellId 0 0 2) = XOk root_lowered ()"
  unfolding lower_target_def gauge_fuel
  by (simp_all add: eval_nat_numeral agg_fn_def gauge_cells gauge_key gauge_parse gauge_target lift_start_def Let_def input_cell_def ref_A1_def
        cell_default_def done_cell_def bin_op_def un_fn_def margin_lowered_def root_lowered_def var_A1_def)

section \<open>The gauge at the station\<close>

lemma literal_fin: "\<not> is_inf (c_lit (1 / 100))" "c_lit (1 / 100) \<noteq> NaN"
proof -
  have "capped 1 (c_lit (1 / 100))" unfolding c_lit_def using capped_fround[of 1 "1 / 100"] representable_int[of 1] by simp
  then show "\<not> is_inf (c_lit (1 / 100))" "c_lit (1 / 100) \<noteq> NaN" by (cases "c_lit (1 / 100)"; simp add: capped_def)+
qed

lemma event_zero: "mget ps s = Some (Fin 0) \<Longrightarrow> event_ival ps (s, b) = (s, Ival (Fin 0) (Fin 0))"
  using literal_fin fround_nonneg[of "1 / 100" 1 RNear] representable_int[of 1]
  by (cases "c_lit (1 / 100)")
    (auto simp: event_ival_def Let_def fabs.simps fmul_def is_zero_def fzero_def fsub_def ival_of_def c_lit_def split: if_splits)

lemma gauge_box: "map (event_ival (pe_params gauge_event)) [(''S!A1'', b)] = [(''S!A1'', Ival (Fin 0) (Fin 0))]"
  by (simp add: event_zero gauge_event_def mget_def)

lemma gauge_prog:
  "event_prog gauge_event margin_lowered = \<lparr>p_root = oper Sub [konst (Fin 1) dim_none, var_A1],
     p_box = [(''S!A1'', Ival (Fin 0) (Fin 0))], p_holes = hole_empty, p_ks = Fin 0\<rparr>"
  "event_prog gauge_event root_lowered = \<lparr>p_root = oper Sqrt [oper Sub [var_A1, konst (Fin 1) dim_none]],
     p_box = [(''S!A1'', Ival (Fin 0) (Fin 0))], p_holes = hole_empty, p_ks = Fin 0\<rparr>"
  using gauge_box[of "Fin 0"] by (simp_all add: event_prog_def margin_lowered_def root_lowered_def)

lemma margin_eval: "\<exists>tr. eval L (event_prog gauge_event margin_lowered) = Some \<lparr>ms = Ival (Fin 1) (Fin 1), residual = Fin 0, r_trace = tr\<rparr>"
  by (simp add: eval_def gauge_prog var_A1_def rec.simps[of _ _ _ "oper _ _"] rec.simps[of _ _ _ "konst _ _"]
      rec.simps[of _ _ _ "var _ _ _"] var_ival_def push_trace_def sub_def point_def is_empty_def fsub_def)

lemma root_eval: "\<exists>tr. eval L (event_prog gauge_event root_lowered) = Some \<lparr>ms = ival_empty, residual = Fin 0, r_trace = tr\<rparr>"
  by (simp add: eval_def gauge_prog var_A1_def rec.simps[of _ _ _ "oper _ _"] rec.simps[of _ _ _ "konst _ _"]
      rec.simps[of _ _ _ "var _ _ _"] var_ival_def push_trace_def sub_def point_def is_empty_def fsub_def isqrt_def
      fround_exact representable_int[of "- 1", simplified])

lemma gauge_rigorous: "prog_rigorous L (event_prog gauge_event margin_lowered)" "prog_rigorous L (event_prog gauge_event root_lowered)"
  by (simp_all add: prog_rigorous_def gauge_prog var_A1_def constructor_defs finish_Node encls_of_def
      rec.simps[of _ _ _ "Node _ _ _ _ _ _ _ _ _ _ _ _ _"] push_trace_def var_ival_def)

lemma fresh_decision:
  "decide_action L (store_new d) p score = Some (if 4 \<le> priority score then Halt else WorkOrder, None)"
  by (simp add: decide_action_def query_def store_list_def dir_files_def store_new_def mget_def)

lemma fresh_finish:
  assumes "eval L (event_prog ev l) = Some r"
  shows "\<exists>a' act fid tc w. finish_event L ev file l fresh_audit
     = (Some (event_reply (evt_id (store_new ''d'') ev) ev r (criticality_cfg L r svc_config) act fid tc w), a')"
proof -
  have u: "store_up (store_new ''d'')" by (simp add: store_up_def writable_def logs_ok_def store_new_def file_text_def dir_files_def mget_def)
  have l: "store_read_log (store_new ''d'') ''audit'' = Some []"
    by (simp add: store_read_log_def file_text_def dir_files_def store_new_def mget_def)
  show ?thesis
    by (cases "4 \<le> priority (criticality_cfg L r svc_config)")
      (simp add: finish_event_def assms fresh_audit_def fresh_decision then_record_def audit_record_def on_store_def Let_def
        db.read_put db.put_up u l, blast)+
qed

lemma cs_clear:
  assumes "exp_ok L" "fle (Fin 1) s"
  shows "flt (cs_of L (Fin 3) s) (Fin (1 / 2))"
proof -
  define t e g where "t = fmul RNear (Fin 3) s" and "e = l_exp L t" and "g = fadd RNear (Fin 1) e"
  have c: "cs_of L (Fin 3) s = fdiv RNear (Fin 1) g" by (simp add: cs_of_def g_def e_def t_def)
  have "fle (Fin 3) t"
  proof (cases s)
    case (Fin r)
    then have "t = fround RNear (3 * r)" "3 \<le> 3 * r" using assms(2) by (auto simp: t_def fmul_def is_zero_def fle_def)
    then show ?thesis using fround_ge[of 3 "3 * r" RNear] representable_int[of 3] by simp
  qed (use assms(2) in \<open>auto simp: t_def fmul_def is_zero_def finf_def fle_def\<close>)
  then have "fle (Fin 4) e"
  proof (cases t)
    case (Fin r)
    assume "fle (Fin 3) t"
    then have "3 \<le> r" using Fin by (auto simp: fle_def)
    then have "4 \<le> exp r" using exp_ge_add_one_self[of r] by linarith
    moreover have "is_fin (Fin r)" by simp
    then have "faithful (l_exp L (Fin r)) (exp (fval (Fin r)))" using assms(1) unfolding exp_ok_def by blast
    then have "faithful e (exp r)" by (simp add: e_def Fin)
    then obtain m where "e = fround m (exp r)" by (auto simp: faithful_def)
    ultimately show ?thesis using fround_ge[of 4 "exp r" m] representable_int[of 4] by simp
  qed (use assms(1) in \<open>auto simp: exp_ok_def e_def fle_def\<close>)
  then have "fle (Fin 4) g"
  proof (cases e)
    case (Fin r)
    assume "fle (Fin 4) e"
    then have "4 \<le> r" using Fin by (auto simp: fle_def)
    then show ?thesis using Fin fround_ge[of 4 "1 + r" RNear] representable_int[of 4] by (auto simp: g_def)
  qed (auto simp: g_def fle_def)
  then show ?thesis
  proof (cases g)
    case (Fin r)
    assume "fle (Fin 4) g"
    then have r: "4 \<le> r" using Fin by (auto simp: fle_def)
    then have "1 / r \<le> 1 / 4" by (simp add: field_simps)
    then have "fle (fround RNear (1 / r)) (Fin (1 / 4))" using fround_le[of "1 / 4" "1 / r" RNear] representable_scaled[of 1 2] by simp
    then show ?thesis using Fin r by (cases "fround RNear (1 / r)") (auto simp: c fdiv_def is_zero_def fle_def)
  qed (auto simp: c fdiv_def fle_def fzero_def is_zero_def)
qed

lemma cs_low_priority:
  assumes "\<not> has_nan r" "flt (cs_of L (Fin 3) (snr_of r)) (Fin (1 / 2))"
  shows "priority (criticality_cfg L r svc_config) \<le> 1"
  using assms unfolding svc_config_def criticality_overloads[OF assms(1)] by (simp add: criticality_def Let_def level_def levels_def)

lemma margin_priority:
  assumes "exp_ok L"
  shows "priority (criticality_cfg L \<lparr>ms = Ival (Fin 1) (Fin 1), residual = Fin 0, r_trace = tr\<rparr> svc_config) \<le> 1" (is "priority (criticality_cfg L ?r svc_config) \<le> 1")
proof (rule cs_low_priority[OF _ cs_clear[OF assms]])
  have n: "is_empty (ms ?r) = False" by (simp add: is_empty_def)
  have q: "representable (1 / 4)" "representable (1 / 4 + 1 / 4 :: real)" "representable (1 :: real)" "representable (1 / 2 :: real)"
    using representable_scaled[of 1 2] representable_scaled[of 1 1] representable_int[of 1] by simp_all
  have "posb (1 / 4 + 1 / 4) (slack_up (Fin 0))" by (rule slack_posb) (use q in \<open>simp_all add: posb_def\<close>)
  then have w: "posb (1 / 2) (width (ms ?r))" by (simp add: width_def n[simplified] is_empty_def fsub_def fzero_def)
  have "capped (1 / 4) (dlit (1 / 10 ^ 12))" unfolding dlit_def by (rule capped_fround) (use q in simp_all)
  then have d: "posb (1 / 4) (dlit (1 / 10 ^ 12))" using tiny_term by (simp add: posb_def capped_def)
  define den where "den = fadd RNear (fadd RNear (width (ms ?r)) (Fin 0)) (dlit (1 / 10 ^ 12))"
  have f: "posb (1 / 2) (fadd RNear (width (ms ?r)) (Fin 0))" by (rule posb_fadd[OF w, of 0]) (use q in \<open>simp_all add: posb_def\<close>)
  have "posb 1 den" unfolding den_def by (rule posb_fadd[OF f d q(3)]) simp
  moreover have "flt (Fin 0) den" unfolding den_def by (rule fadd_tiny_pos) (use f in \<open>simp add: posb_def above_fin\<close>)
  ultimately obtain v where v: "den = Fin v" "0 < v" "v \<le> 1" by (cases den) (auto simp: posb_def)
  then have "1 \<le> 1 / v" by simp
  then have "fle (Fin 1) (fround RNear (1 / v))" using fround_ge[of 1 "1 / v" RNear] q(3) by simp
  moreover have "snr_of ?r = fdiv RNear (fsub RNear (Fin 1) (Fin 0)) den"
    by (simp only: snr_of_def den_def eval_result.simps ival.simps)
  moreover have "fsub RNear (Fin 1) (Fin 0) = Fin 1" by (simp add: fsub_def)
  then have "fdiv RNear (fsub RNear (Fin 1) (Fin 0)) den = fround RNear (1 / v)" using v by (simp add: fdiv_def is_zero_def)
  ultimately show "fle (Fin 1) (snr_of ?r)" by simp
qed (simp add: has_nan_def)

lemma ideal_exp: "exp_ok ideal_libm"
  using ideal_libm_ok by (simp add: libm_ok_def)

lemma ideal_nan: "exp_nan ideal_libm"
  by (simp add: exp_nan_def ideal_libm_def real_fun_def)

lemma fresh_report:
  assumes "eval L (event_prog ev l) = Some r" "priority (criticality_cfg L r svc_config) \<le> 1"
  shows "\<exists>rep a' out. finish_event L ev file l fresh_audit = (Some rep, a') \<and> report_json msg rep = Some out
    \<and> jstr out ''status'' [] = ''PROCEED'' \<and> jstr rep ''verdict'' [] = verdict_name (decide_eval r)"
proof -
  let ?c = "criticality_cfg L r svc_config"
  obtain a' act fid tc w where f: "finish_event L ev file l fresh_audit
      = (Some (event_reply (evt_id (store_new ''d'') ev) ev r ?c act fid tc w), a')"
    using fresh_finish[OF assms(1)] by blast
  let ?p = "event_reply (evt_id (store_new ''d'') ev) ev r ?c act fid tc w"
  have "int_field ?p ''priority'' = Some (priority ?c)"
    using level_priority[OF criticality_level_ok(1)[of L r svc_config]] by (intro int_field_jint) (simp_all add: reply_fields)
  then obtain out where o: "report_json msg ?p = Some out"
    by (cases "report_json msg ?p") (simp_all add: report_json_def jhas_def reply_fields)
  have "jstr out ''status'' [] = ''PROCEED''" using report_light(1)[OF criticality_level_ok(1) o] assms(2) proceed_iff by simp
  moreover have "jstr ?p ''verdict'' [] = verdict_name (decide_eval r)" by (simp add: jstr_def reply_fields)
  ultimately show ?thesis using f o by blast
qed


text \<open>C7. A cell that has no value: the root of a negative number. Its enclosure is empty, the verdict is
  ABSTAIN, and the station may proceed.\<close>

theorem valueless_cell_proceeds:
  assumes "libm_ok L"
  shows "\<exists>rep a' out. lower_target gauge_wb (CellId 0 0 2) = XOk root_lowered ()
    \<and> finish_event L gauge_event ''f'' root_lowered fresh_audit = (Some rep, a') \<and> jstr rep ''verdict'' [] = ''ABSTAIN''
    \<and> report_json msg rep = Some out \<and> jstr out ''status'' [] = ''PROCEED'' \<and> (\<nexists>y. cell_real gauge_wb (\<lambda>_. 0) (CellId 0 0 2) y)"
proof -
  obtain tr where e: "eval L (event_prog gauge_event root_lowered) = Some \<lparr>ms = ival_empty, residual = Fin 0, r_trace = tr\<rparr>" (is "_ = Some ?r")
    using root_eval by blast
  have "priority (criticality_cfg L ?r svc_config) \<le> 1"
    using empty_priority[of L ?r] assms by (simp add: svc_config_def libm_ok_def)
  from fresh_report[OF e this, of "''f''" msg] obtain rep out a' where r: "finish_event L gauge_event ''f'' root_lowered fresh_audit = (Some rep, a')"
      "report_json msg rep = Some out" "jstr out ''status'' [] = ''PROCEED''" "jstr rep ''verdict'' [] = verdict_name (decide_eval ?r)"
    by blast
  have v: "decide_eval ?r = Abstain" by (simp add: decide_eval_def is_empty_def ival_empty_def)
  have "\<not> cell_real gauge_wb (\<lambda>_. 0) (CellId 0 0 2) y" for y
  proof
    assume c: "cell_real gauge_wb (\<lambda>_. 0) (CellId 0 0 2) y"
    have p: "p_root (event_prog gauge_event root_lowered) = lw_root root_lowered" "p_holes (event_prog gauge_event root_lowered) = hole_empty"
      by (simp_all add: event_prog_def)
    have env: "env_in (\<lambda>_. 0) (p_box (event_prog gauge_event root_lowered)) (p_root (event_prog gauge_event root_lowered))"
      by (simp add: gauge_prog var_A1_def constructor_defs finish_Node imem_def var_ival_def)
    have hs: "holes_sound (\<lambda>_ _. 0) (p_holes (event_prog gauge_event root_lowered)) (p_root (event_prog gauge_event root_lowered))"
      unfolding p by (rule lowered_closed[OF holes_closed gauge_lowered(2)])
    have h: "lw_holes root_lowered = 0" by (simp add: root_lowered_def)
    have "imem y (ms ?r)"
      using eval_encloses[OF assms gauge_rigorous(2) lower_run_sound[OF assms gauge_rigorous(2) gauge_lowered(2) h p(1) c env hs] e] .
    then show False by simp
  qed
  then show ?thesis using gauge_lowered(2) r v by (intro exI[of _ rep] exI[of _ a'] exI[of _ out]) auto
qed

theorem valueless_cell_proceeds_witness:
  "\<exists>rep a' out. finish_event ideal_libm gauge_event ''f'' root_lowered fresh_audit = (Some rep, a')
     \<and> report_json id rep = Some out \<and> jstr out ''status'' [] = ''PROCEED''"
  using valueless_cell_proceeds[OF ideal_libm_ok, of id] by blast

end
