(* ===== verification/Fve_Control.thy ===== *)
theory Fve_Control
  imports Fve_Station
begin

text \<open>
  The states the service reaches: what its operations write, why no fix is ever applied on its own, who approves
  a fix, and what the search returns.
\<close>

section \<open>The steps of the service\<close>

text \<open>
  The operations that touch the fixes, the links of cases with fixes, the users, the signatures and the events; any
  other part of the service writes documents of other collections and other logs. Numbers are those the store reads
  back.
\<close>

inductive svc_step :: "audit \<Rightarrow> audit \<Rightarrow> bool" where
  st_user: "svc_step a (snd (svc_create_user nm role ext scope a))"
| st_boot: "svc_step a (snd (svc_bootstrap raw now a))"
| st_sign: "pred_option json_plain pl \<Longrightarrow> \<bar>now\<bar> < 2 ^ 53 \<Longrightarrow> svc_step a (snd (svc_sign u subject meaning pl now a))"
| st_approve: "\<bar>now\<bar> < 2 ^ 53 \<Longrightarrow> svc_step a (snd (svc_approve_fix i u now a))"
| st_hole: "json_plain (fix_doc (hole_fix h nm l v)) \<Longrightarrow> svc_step a (snd (svc_resolve_hole h nm l v u a))"
| st_order: "json_plain (fix_doc (order_fix w f patch)) \<Longrightarrow> svc_step a (snd (svc_resolve_work_order w f patch a))"
| st_event: "svc_step a (snd (finish_event L ev file lw a))"
| st_doc: "sanitize c \<noteq> ''fixes'' \<Longrightarrow> sanitize c \<noteq> ''case_fix_links'' \<Longrightarrow> svc_step a (on_store (\<lambda>s. snd (store_put c i d s)) a)"
| st_log: "sanitize lg \<noteq> ''signatures_log'' \<Longrightarrow> svc_step a (on_store (\<lambda>s. snd (store_append lg d s)) a)"

text \<open>The service starts on an empty store.\<close>

inductive svc_reach :: "audit \<Rightarrow> bool" where
  reach_new: "audit_open (store_new d) = Some a \<Longrightarrow> svc_reach a"
| reach_step: "svc_reach a \<Longrightarrow> svc_step a b \<Longrightarrow> svc_reach b"

section \<open>What a write leaves alone\<close>

lemma dir_files_write: "d' \<noteq> d \<Longrightarrow> dir_files (snd (file_write d n t s)) d' = dir_files s d'"
  by (simp add: file_write_def dir_files_def mget_mput)

lemma list_put_other: "sanitize c' \<noteq> sanitize c \<Longrightarrow> store_list (snd (store_put c i d s)) c' = store_list s c'"
  by (simp add: store_list_def store_put_def dir_files_write)

lemma list_append: "sanitize c \<noteq> LOGS \<Longrightarrow> store_list (snd (store_append l d s)) c = store_list s c"
  by (simp add: store_list_def store_append_def dir_files_write Let_def)

lemma get_other_coll: "store_up s \<Longrightarrow> sanitize c' \<noteq> sanitize c \<Longrightarrow> store_get (snd (store_put c i d s)) c' i' = store_get s c' i'"
  by (simp add: store_get_def store_put_text store_up_def)

lemma read_append_other: "store_up s \<Longrightarrow> sanitize l' \<noteq> sanitize l \<Longrightarrow> store_read_log (snd (store_append l d s)) l' = store_read_log s l'"
  by (simp add: store_read_log_def store_append_text store_up_def)

lemma coll_names [simp]:
  "sanitize ''fixes'' = ''fixes''" "sanitize ''case_fix_links'' = ''case_fix_links''" "sanitize ''users'' = ''users''"
  "sanitize ''signatures'' = ''signatures''" "sanitize ''work_orders'' = ''work_orders''"
  "sanitize ''production_events'' = ''production_events''" "sanitize ''signatures_log'' = ''signatures_log''"
  "sanitize ''audit'' = ''audit''" "LOGS \<noteq> ''case_fix_links''" "''case_fix_links'' \<noteq> LOGS"
  by (simp_all add: sanitize_def sanitize_char_def LOGS_def)

text \<open>A write that leaves the fixes, the links and the log of signatures as they are.\<close>

definition quiet :: "store \<Rightarrow> store \<Rightarrow> bool" where
  "quiet s s' \<longleftrightarrow> store_list s' ''case_fix_links'' = store_list s ''case_fix_links''
     \<and> (store_up s \<longrightarrow> store_up s' \<and> (\<forall>i. store_get s' ''fixes'' i = store_get s ''fixes'' i)
          \<and> store_read_log s' ''signatures_log'' = store_read_log s ''signatures_log'')"

lemma quiet_refl [simp]: "quiet s s"
  by (simp add: quiet_def)

lemma quiet_trans: "quiet s t \<Longrightarrow> quiet t v \<Longrightarrow> quiet s v"
  by (auto simp: quiet_def)

lemma quiet_put: "sanitize c \<noteq> ''fixes'' \<Longrightarrow> sanitize c \<noteq> ''case_fix_links'' \<Longrightarrow> quiet s (snd (store_put c i d s))"
  by (simp add: quiet_def list_put_other get_other_coll store_put_up db.read_put)

lemma quiet_append: "sanitize l \<noteq> ''signatures_log'' \<Longrightarrow> quiet s (snd (store_append l d s))"
  by (simp add: quiet_def list_append store_append_up db.get_app read_append_other)

lemma quiet_record: "quiet (au_store a) (au_store (snd (then_record ty subject pl u r a)))"
  by (cases "store_read_log (au_store a) ''audit''") (simp_all add: then_record_def audit_record_def Let_def quiet_append)

lemma quiet_then: "quiet s (au_store a) \<Longrightarrow> quiet s (au_store (snd (then_record ty subject pl u r a)))"
  by (erule quiet_trans) (rule quiet_record)

lemma on_store_sel [simp]: "au_store (on_store f a) = f (au_store a)"
  by (simp add: on_store_def)

section \<open>The effect of a step\<close>

definition signed :: "string \<Rightarrow> string \<Rightarrow> string \<Rightarrow> json option \<Rightarrow> int \<Rightarrow> store \<Rightarrow> store" where
  "signed u subject meaning pl now s = snd (sign_subject u subject meaning pl now s)"

text \<open>Without links nothing is near, so that an event ends in a work order or a halt.\<close>

lemma no_links_query:
  assumes "store_list s ''case_fix_links'' = []" "query s ph b delta k = Some hs"
  shows "hs = []"
proof -
  have m: "match_case s ph b delta i = Some x \<Longrightarrow> x = None" for i x
    using assms(1) by (auto simp: match_case_def Let_def Option.bind_eq_Some_conv split: option.splits if_splits)
  have "matches s ph b delta ids = Some hits \<Longrightarrow> hits = []" for ids hits
    by (induction ids arbitrary: hits) (auto simp: Option.bind_eq_Some_conv dest!: m)
  moreover obtain hits where "matches s ph b delta (store_list s ''cases'') = Some hits" using assms(2)
    by (auto simp: query_def Option.bind_eq_Some_conv)
  ultimately have "matches s ph b delta (store_list s ''cases'') = Some []" by metis
  then show ?thesis using assms(2) by (simp add: query_def split: if_splits)
qed

lemma no_links_decision:
  assumes "store_list s ''case_fix_links'' = []" "decide_action L s p score = Some (act, x)"
  shows "x = None \<and> act = (if 4 \<le> priority score then Halt else WorkOrder)"
proof (cases "4 \<le> priority score")
  case False
  then obtain hs where "query s (hex (n_hash (p_root p))) (p_box p) (c_lit (15 / 100)) 5 = Some hs" using assms(2)
    by (auto simp: decide_action_def Option.bind_eq_Some_conv)
  moreover from no_links_query[OF assms(1) this] have "hs = []" .
  ultimately show ?thesis using assms(2) False by (simp add: decide_action_def)
qed (use assms(2) in \<open>simp add: decide_action_def\<close>)

lemma quiet_event:
  assumes "store_list (au_store a) ''case_fix_links'' = []"
  shows "quiet (au_store a) (au_store (snd (finish_event L ev file lw a)))"
proof -
  define p where "p = event_prog ev lw"
  consider "snd (finish_event L ev file lw a) = a"
    | r act x where "eval L p = Some r" "decide_action L (au_store a) p (criticality_cfg L r svc_config) = Some (act, x)"
    by (cases "eval L p"; cases "decide_action L (au_store a) p (criticality_cfg L (the (eval L p)) svc_config)")
      (auto simp: finish_event_def p_def Let_def)
  then show ?thesis
  proof cases
    case 2
    have x: "x = None" using no_links_decision[OF assms 2(2)] by simp
    have t: "quiet (au_store a) (snd (store_put ''production_events'' e d s))" if "quiet (au_store a) s" for e d s
      using that quiet_put[of "''production_events''"] quiet_trans by fastforce
    show ?thesis using 2
      by (auto simp: finish_event_def p_def[symmetric] x Let_def intro!: quiet_then t quiet_put)
  qed simp
qed

lemma svc_step_effect:
  assumes "svc_step a b" "store_list (au_store a) ''case_fix_links'' = []"
  obtains (quiet) "quiet (au_store a) (au_store b)"
  | (signed) u subject meaning pl now where "pred_option json_plain pl" "\<bar>now\<bar> < 2 ^ 53"
      "quiet (signed u subject meaning pl now (au_store a)) (au_store b)"
  | (proposed) f where "json_plain (fix_doc f)" "quiet (record_fix f (au_store a)) (au_store b)"
  | (approved) i u now f s where "\<bar>now\<bar> < 2 ^ 53" "has_role (au_store a) u ''reviewer'' = Some True"
      "store_get (au_store a) ''fixes'' i = Some (Some f)"
      "approve_fix i u (signed u i ''approved_fix'' (Some f) now (au_store a)) = Some s" "quiet s (au_store b)"
  | (unsigned) i u now f where "\<bar>now\<bar> < 2 ^ 53" "store_get (au_store a) ''fixes'' i = Some (Some f)"
      "quiet (signed u i ''approved_fix'' (Some f) now (au_store a)) (au_store b)"
  using assms(1)
proof cases
  case (st_user nm role ext scope)
  then have "quiet (au_store a) (au_store b)"
    by (simp add: svc_create_user_def Let_def quiet_then create_user_def quiet_put)
  then show thesis by (rule quiet)
next
  case (st_boot raw now)
  then have "quiet (au_store a) (au_store b)"
    by (auto simp: svc_bootstrap_def Let_def quiet_then create_user_def quiet_put split: option.split bool.split)
  then show thesis by (rule quiet)
next
  case (st_sign pl now u subject meaning)
  show thesis
  proof (cases "user_active (au_store a) u = Some True")
    case True
    then have "quiet (signed u subject meaning pl now (au_store a)) (au_store b)"
      using st_sign(1) by (simp add: svc_sign_def quiet_then signed_def)
    then show thesis using signed st_sign(2,3) by blast
  next
    case False
    then have "b = a" using st_sign(1) by (auto simp: svc_sign_def split: option.split bool.split)
    then show thesis using quiet by simp
  qed
next
  case (st_approve now i u)
  show thesis
  proof (cases "\<exists>f. has_role (au_store a) u ''reviewer'' = Some True \<and> store_get (au_store a) ''fixes'' i = Some (Some f)")
    case True
    then obtain f where f: "has_role (au_store a) u ''reviewer'' = Some True" "store_get (au_store a) ''fixes'' i = Some (Some f)" by blast
    show thesis
    proof (cases "approve_fix i u (signed u i ''approved_fix'' (Some f) now (au_store a))")
      case None
      then have "quiet (signed u i ''approved_fix'' (Some f) now (au_store a)) (au_store b)"
        using st_approve(1) f by (simp add: svc_approve_fix_def Let_def signed_def)
      then show thesis using unsigned st_approve(2) f(2) by blast
    next
      case (Some s)
      then have "quiet s (au_store b)"
        using st_approve(1) f by (simp add: svc_approve_fix_def Let_def signed_def quiet_then)
      then show thesis using approved[OF st_approve(2) f Some] by blast
    qed
  next
    case False
    then have "b = a" using st_approve(1) by (auto simp: svc_approve_fix_def split: option.split bool.split)
    then show thesis using quiet by simp
  qed
next
  case (st_hole h nm l v u)
  then have "quiet (record_fix (hole_fix h nm l v) (au_store a)) (au_store b)"
    by (simp add: svc_resolve_hole_def quiet_then)
  then show thesis using proposed st_hole(2) by blast
next
  case (st_order w f patch)
  show thesis
  proof (cases "\<exists>d. store_get (au_store a) ''work_orders'' w = Some (Some d)")
    case True
    then have "quiet (record_fix (order_fix w f patch) (au_store a)) (au_store b)"
      using st_order(1) by (auto simp: svc_resolve_work_order_def Let_def intro!: quiet_then quiet_put)
    then show thesis using proposed st_order(2) by blast
  next
    case False
    then have "b = a" using st_order(1) by (auto simp: svc_resolve_work_order_def split: option.split)
    then show thesis using quiet by simp
  qed
next
  case (st_event L ev fl lw)
  then show thesis using quiet quiet_event[OF assms(2)] by blast
next
  case (st_doc c i d)
  then show thesis using quiet quiet_put[of c "au_store a" i d] by simp
next
  case (st_log lg d)
  then show thesis using quiet quiet_append[of lg "au_store a" d] by simp
qed

section \<open>What every reachable state keeps\<close>

definition good_store :: "store \<Rightarrow> bool" where
  "good_store s \<longleftrightarrow> store_up s \<and> store_list s ''case_fix_links'' = []
     \<and> (\<forall>i j. store_get s ''fixes'' i = Some (Some j) \<longrightarrow> json_plain j) \<and> store_read_log s ''signatures_log'' \<noteq> None"

lemma good_quiet: "quiet s s' \<Longrightarrow> good_store s \<Longrightarrow> good_store s'"
  by (simp add: quiet_def good_store_def)

lemma sign_plain: "pred_option json_plain pl \<Longrightarrow> \<bar>now\<bar> < 2 ^ 53 \<Longrightarrow> json_plain (sign_doc u subject meaning pl now)"
  unfolding sign_doc_def by (rule mkobj_plain) simp

lemma signed_get:
  assumes "store_up s" "pred_option json_plain pl" "\<bar>now\<bar> < 2 ^ 53"
  shows "store_get (signed u subject meaning pl now s) ''fixes'' i = store_get s ''fixes'' i"
    "store_up (signed u subject meaning pl now s)"
    "store_read_log (signed u subject meaning pl now s) ''signatures_log''
       = map_option (\<lambda>es. es @ [sign_doc u subject meaning pl now]) (store_read_log s ''signatures_log'')"
    "store_list (signed u subject meaning pl now s) ''case_fix_links'' = store_list s ''case_fix_links''"
  using assms sign_plain[OF assms(2,3)]
  by (simp_all add: signed_def sign_subject_def Let_def db.get_app db.put_up get_other_coll store_append_up db.read_app
      db.read_put list_append list_put_other)

lemma good_signed:
  "good_store s \<Longrightarrow> pred_option json_plain pl \<Longrightarrow> \<bar>now\<bar> < 2 ^ 53 \<Longrightarrow> good_store (signed u subject meaning pl now s)"
  by (simp add: good_store_def signed_get)

lemma record_fix_get:
  assumes "store_up s" "json_plain (fix_doc f)"
  shows "store_get (record_fix f s) ''fixes'' i = (if sanitize i = sanitize (fx_id f) then Some (Some (fix_doc f)) else store_get s ''fixes'' i)"
  using assms by (simp add: record_fix_def db.get_put)

lemma good_proposed: "good_store s \<Longrightarrow> json_plain (fix_doc f) \<Longrightarrow> good_store (record_fix f s)"
  using record_fix_get[of s f]
  by (simp add: good_store_def) (simp add: record_fix_def store_put_up list_put_other db.read_put)

lemma proposed_status: "jstr (fix_doc f) ''status'' [] = ''proposed''"
  by (simp add: fix_doc_def jstr_def mkobj_get)

lemma jset_plain: "json_plain j \<Longrightarrow> json_plain v \<Longrightarrow> json_plain (jset k v j)"
  by (cases j) (auto simp: jset_def list_all_iff dest!: in_mput)

lemma jset_get: "j = JObj m \<Longrightarrow> mget (jobj (jset k v j)) k' = (if k' = k then Some v else mget (jobj j) k')"
  by (simp add: jset_def mget_mput)

definition approved_doc :: "string \<Rightarrow> json \<Rightarrow> json" where
  "approved_doc u f = jset ''approved_by'' (JStr u) (jset ''status'' (JStr ''approved'') f)"

lemma approved_doc_fields:
  assumes "jstr (approved_doc u f) ''status'' [] = ''approved''"
  shows "jstr (approved_doc u f) ''approved_by'' [] = u \<and> jat (approved_doc u f) ''patch'' = jat f ''patch''"
proof -
  obtain m where m: "f = JObj m"
    using assms by (cases f) (auto simp: approved_doc_def jset_def jstr_def)
  then show ?thesis by (simp add: approved_doc_def jset_def mget_mput jstr_def jat_def)
qed

lemma approve_step:
  assumes "store_up s" "store_get s ''fixes'' i = Some (Some f)" "json_plain f" "approve_fix i u s = Some s'"
  shows "store_get s' ''fixes'' k = (if sanitize k = sanitize i then Some (Some (approved_doc u f)) else store_get s ''fixes'' k)"
    "store_up s'" "store_read_log s' ''signatures_log'' = store_read_log s ''signatures_log''"
    "store_list s' ''case_fix_links'' = store_list s ''case_fix_links''"
proof -
  have p: "json_plain (approved_doc u f)" using assms(3) by (simp add: approved_doc_def jset_plain)
  have s: "s' = snd (store_put ''fixes'' i (approved_doc u f) s)"
    using assms(2,4) by (simp add: approve_fix_def approved_doc_def)
  show "store_get s' ''fixes'' k = (if sanitize k = sanitize i then Some (Some (approved_doc u f)) else store_get s ''fixes'' k)"
    "store_up s'" "store_read_log s' ''signatures_log'' = store_read_log s ''signatures_log''"
    "store_list s' ''case_fix_links'' = store_list s ''case_fix_links''"
    unfolding s using assms(1) p by (simp_all add: db.get_put store_put_up db.read_put list_put_other)
qed

lemma good_approved:
  assumes "good_store s" "store_get s ''fixes'' i = Some (Some f)" "approve_fix i u s = Some s'"
  shows "good_store s'"
proof -
  have f: "json_plain f" "store_up s" using assms(1,2) by (auto simp: good_store_def)
  have "json_plain (approved_doc u f)" using f by (simp add: approved_doc_def jset_plain)
  then show ?thesis using assms(1) approve_step[OF f(2) assms(2) f(1) assms(3)] by (auto simp: good_store_def split: if_splits)
qed

lemma svc_step_good:
  assumes "svc_step a b" "good_store (au_store a)"
  shows "good_store (au_store b)"
proof -
  have l: "store_list (au_store a) ''case_fix_links'' = []" "store_up (au_store a)" using assms(2) by (simp_all add: good_store_def)
  have pl: "store_get (au_store a) ''fixes'' i = Some (Some f) \<Longrightarrow> json_plain f" for i f using assms(2) by (simp add: good_store_def)
  from assms(1) l(1) show ?thesis
  proof (cases rule: svc_step_effect)
    case quiet
    then show ?thesis using good_quiet assms(2) by blast
  next
    case (signed u subject meaning p now)
    then show ?thesis using good_quiet good_signed[OF assms(2)] by blast
  next
    case (proposed f)
    then show ?thesis using good_quiet good_proposed[OF assms(2)] by blast
  next
    case (approved i u now f s)
    have p: "pred_option json_plain (Some f)" using pl approved(3) by simp
    have "good_store s"
      by (rule good_approved[OF good_signed[OF assms(2) p approved(1)] _ approved(4)])
        (simp only: signed_get[OF l(2) p approved(1)] approved(3))
    then show ?thesis using good_quiet approved(5) by blast
  next
    case (unsigned i u now f)
    have p: "pred_option json_plain (Some f)" using pl unsigned(2) by simp
    then show ?thesis using good_quiet[OF unsigned(3)] good_signed[OF assms(2) p unsigned(1)] by blast
  qed
qed

lemma new_store_good: "good_store (store_new d)"
  by (simp add: good_store_def store_up_def writable_def logs_ok_def store_new_def file_text_def dir_files_def mget_def store_list_def
      store_get_def store_read_log_def)

lemma svc_reach_good: "svc_reach a \<Longrightarrow> good_store (au_store a)"
proof (induction rule: svc_reach.induct)
  case (reach_new d a)
  then have "au_store a = store_new d" by (auto simp: audit_open_def)
  then show ?case by (simp add: new_store_good)
qed (rule svc_step_good)

section \<open>No fix is applied on its own\<close>

text \<open>C29. No event is ever answered with an automatic fix. Let the service start on an empty store and perform
  any sequence of operations, each as one step on a writable store and with numbers the store reads back (zero or
  normal doubles, times below 2^53): its users, bootstrap, signatures, approvals and proposals of fixes, resolved work
  orders, events, and writes to collections and logs other than these. Then the collection of links between cases and
  fixes has no document, since the one place that writes a link is the handler of an event, after a fix found through
  a link was transferred; every search for similar cases returns nothing; and an event that is answered is answered
  with a halt from priority 4 on and with a work order below.\<close>

theorem service_never_auto_fixes:
  assumes "svc_reach a"
  shows "store_list (au_store a) ''case_fix_links'' = []
    \<and> (query (au_store a) ph b delta k = Some hs \<longrightarrow> hs = [])
    \<and> (finish_event L ev file lw a = (Some rep, a') \<longrightarrow>
        (\<exists>r. eval L (event_prog ev lw) = Some r
          \<and> jstr rep ''action'' [] = (if 4 \<le> priority (criticality_cfg L r svc_config) then ''halt'' else ''work_order'')))"
proof -
  have e: "store_list (au_store a) ''case_fix_links'' = []" using svc_reach_good[OF assms] by (simp add: good_store_def)
  have "jstr rep ''action'' [] = (if 4 \<le> priority (criticality_cfg L r svc_config) then ''halt'' else ''work_order'')"
    if d: "decide_action L (au_store a) (event_prog ev lw) (criticality_cfg L r svc_config) = Some (act, x)"
      and rep: "rep = event_reply eid ev r (criticality_cfg L r svc_config) act fid tc w" for r act x eid fid tc w
    using no_links_decision[OF e d] by (simp add: rep jstr_def reply_fields)
  then show ?thesis using e no_links_query[OF e] by (blast dest: finish_event_reply)
qed

lemma reach_fresh: "svc_reach \<lparr>au_store = store_new ''d'', au_chain = chain_new\<rparr>"
proof (rule reach_new)
  show "audit_open (store_new ''d'') = Some \<lparr>au_store = store_new ''d'', au_chain = chain_new\<rparr>"
    by (simp add: audit_open_def audit_rebuild_def log_chain_def store_read_log_def file_text_def dir_files_def store_new_def mget_def)
qed

text \<open>The state after a reviewer was made and a bound for the hole h was proposed.\<close>

definition reviewed :: audit where
  "reviewed = snd (svc_resolve_hole ''h'' ''S!A1'' (Fin 1) (Fin 2) ''''
     (snd (svc_create_user ''r'' ''reviewer'' ''x'' [] \<lparr>au_store = store_new ''d'', au_chain = chain_new\<rparr>)))"

lemma demo_fix_plain: "json_plain (fix_doc (hole_fix ''h'' ''S!A1'' (Fin 1) (Fin 2)))"
proof -
  have "json_plain (box_json [(''S!A1'', Ival (Fin 1) (Fin 2))])"
    using jint_plain[of 1] jint_plain[of 2] unfolding box_json_def
    by (intro mkobj_plain) (simp add: jint_val)
  moreover have "flt (Fin 2) (Fin 1) = False" by simp
  ultimately show ?thesis unfolding fix_doc_def by (intro mkobj_plain) (simp add: hole_fix_def ival_of_def)
qed

lemma reach_reviewed: "svc_reach reviewed"
  unfolding reviewed_def by (rule reach_step[OF reach_step[OF reach_fresh st_user] st_hole[OF demo_fix_plain]])

theorem service_never_auto_fixes_witness:
  "\<exists>rep a'. finish_event ideal_libm gauge_event ''f'' margin_lowered fresh_audit = (Some rep, a') \<and> jstr rep ''action'' [] = ''work_order''"
proof -
  obtain tr where e: "eval ideal_libm (event_prog gauge_event margin_lowered) = Some \<lparr>ms = Ival (Fin 1) (Fin 1), residual = Fin 0, r_trace = tr\<rparr>"
    using margin_eval by blast
  note p = margin_priority[OF ideal_exp, of tr]
  obtain rep a' where f: "finish_event ideal_libm gauge_event ''f'' margin_lowered fresh_audit = (Some rep, a')"
    using fresh_report[OF e p] by blast
  from service_never_auto_fixes[OF reach_fresh[folded fresh_audit_def]] f e p show ?thesis by fastforce
qed

section \<open>Who approves a fix\<close>

text \<open>The document is the proposed one, approved by a reviewer whose signature under it is the last of the log.\<close>

definition reviewer_signed :: "store \<Rightarrow> store \<Rightarrow> string \<Rightarrow> json \<Rightarrow> bool" where
  "reviewer_signed s v i d \<longleftrightarrow>
     (\<exists>f es e. store_get s ''fixes'' i = Some (Some f) \<and> jat d ''patch'' = jat f ''patch''
        \<and> has_role s (jstr d ''approved_by'' []) ''reviewer'' = Some True
        \<and> store_read_log v ''signatures_log'' = Some (es @ [e]) \<and> jstr e ''user_id'' [] = jstr d ''approved_by'' []
        \<and> jstr e ''meaning'' [] = ''approved_fix'' \<and> sanitize (jstr e ''subject'' []) = sanitize i \<and> jat e ''payload'' = f)"

lemma approved_by_reviewer:
  assumes "good_store s" "\<bar>now\<bar> < 2 ^ 53" "has_role s u ''reviewer'' = Some True" "store_get s ''fixes'' k = Some (Some f)"
    and "approve_fix k u (signed u k ''approved_fix'' (Some f) now s) = Some t" "quiet t v"
    and "store_get v ''fixes'' i = Some (Some d)" "jstr d ''status'' [] = ''approved''"
  shows "store_get s ''fixes'' i = Some (Some d) \<or> reviewer_signed s v i d"
proof -
  have j: "json_plain f" "store_up s" "pred_option json_plain (Some f)" using assms(1,4) by (auto simp: good_store_def)
  note sg = signed_get[OF j(2,3) assms(2), of u k "''approved_fix''"]
  have f: "store_get (signed u k ''approved_fix'' (Some f) now s) ''fixes'' k = Some (Some f)" using sg(1) assms(4) by simp
  note ap = approve_step[OF sg(2) f j(1) assms(5)]
  have q: "store_get t ''fixes'' i = Some (Some d)" "store_read_log v ''signatures_log'' = store_read_log t ''signatures_log''"
    using assms(6,7) ap(2) by (simp_all add: quiet_def)
  show ?thesis
  proof (cases "sanitize i = sanitize k")
    case True
    then have d: "d = approved_doc u f" using q(1) ap(1)[of i] by simp
    note df = approved_doc_fields[OF assms(8)[unfolded d]]
    obtain es where es: "store_read_log s ''signatures_log'' = Some es" using assms(1) by (auto simp: good_store_def)
    let ?e = "sign_doc u k ''approved_fix'' (Some f) now"
    have "doc_file i = doc_file k" using True by (simp only: doc_file_def)
    then have "store_get s ''fixes'' i = Some (Some f)" using assms(4) by (simp only: store_get_def)
    moreover have "store_read_log v ''signatures_log'' = Some (es @ [?e])" using q(2) ap(3) sg(3) es by simp
    moreover have "jstr ?e ''user_id'' [] = u \<and> jstr ?e ''meaning'' [] = ''approved_fix'' \<and> jstr ?e ''subject'' [] = k \<and> jat ?e ''payload'' = f"
      by (simp add: sign_doc_def jstr_def jat_def mkobj_get)
    ultimately show ?thesis using df assms(3) True d unfolding reviewer_signed_def
      by (intro disjI2 exI[of _ f] exI[of _ es] exI[of _ ?e]) simp
  qed (use q(1) ap(1)[of i] sg(1)[of i] in simp)
qed

text \<open>C6. A fix that is approved after a step was approved before it, with the same document, or a reviewer has
  approved it in this step: the patch is the one that was proposed, the document names the reviewer, and the log of
  signatures holds the reviewer's signature under the document that was approved. The steps are those of C29: whole
  operations on a writable store, with numbers the store reads back.\<close>

theorem fix_approval_controlled:
  assumes "svc_reach a" "svc_step a b" "store_get (au_store b) ''fixes'' i = Some (Some d)" "jstr d ''status'' [] = ''approved''"
  shows "store_get (au_store a) ''fixes'' i = Some (Some d) \<or> reviewer_signed (au_store a) (au_store b) i d"
proof -
  have g: "good_store (au_store a)" using svc_reach_good[OF assms(1)] .
  have l: "store_list (au_store a) ''case_fix_links'' = []" "store_up (au_store a)" using g by (simp_all add: good_store_def)
  have pl: "store_get (au_store a) ''fixes'' k = Some (Some f) \<Longrightarrow> json_plain f" for k f using g by (simp add: good_store_def)
  from assms(2) l(1) show ?thesis
  proof (cases rule: svc_step_effect)
    case quiet
    then show ?thesis using assms(3) l(2) by (simp add: quiet_def)
  next
    case (signed u subject meaning p now)
    then show ?thesis using assms(3) signed_get[OF l(2) signed(1,2)] by (simp add: quiet_def)
  next
    case (proposed f)
    have "store_up (record_fix f (au_store a))" using l(2) by (simp add: record_fix_def store_put_up)
    then have "store_get (record_fix f (au_store a)) ''fixes'' i = Some (Some d)"
      using proposed(2) assms(3) by (simp add: quiet_def)
    then show ?thesis using record_fix_get[OF l(2) proposed(1), of i] proposed_status[of f] assms(4) by (auto split: if_splits)
  next
    case (approved k u now f s)
    then show ?thesis using approved_by_reviewer[OF g _ _ _ _ _ assms(3,4)] by blast
  next
    case (unsigned k u now f)
    have p: "pred_option json_plain (Some f)" using pl unsigned(2) by simp
    then show ?thesis using assms(3) unsigned(3) signed_get[OF l(2) p unsigned(1)] by (simp add: quiet_def)
  qed
qed

lemma record_get:
  assumes "store_up (au_store a)"
  shows "store_get (au_store (snd (then_record ty subject pl u r a))) c i = store_get (au_store a) c i"
    "store_up (au_store (snd (then_record ty subject pl u r a)))"
  using assms by (cases "store_read_log (au_store a) ''audit''"; simp add: then_record_def audit_record_def Let_def db.get_app store_append_up)+

definition demo_reviewer :: user where
  "demo_reviewer = user_blank\<lparr>us_name := ''r'', us_role := ''reviewer'', us_external := ''x'', us_scope := []\<rparr>"

lemma reviewed_state:
  "store_up (au_store reviewed)" "has_role (au_store reviewed) (user_id demo_reviewer) ''reviewer'' = Some True"
  "store_get (au_store reviewed) ''fixes'' ''fix_h'' = Some (Some (fix_doc (hole_fix ''h'' ''S!A1'' (Fin 1) (Fin 2))))"
proof -
  let ?new = "\<lparr>au_store = store_new ''d'', au_chain = chain_new\<rparr>"
  let ?a = "snd (svc_create_user ''r'' ''reviewer'' ''x'' [] ?new)"
  let ?f = "hole_fix ''h'' ''S!A1'' (Fin 1) (Fin 2)"
  have n: "store_up (store_new ''d'')" using new_store_good by (simp add: good_store_def)
  have up: "store_up (au_store ?a)" and u: "has_role (au_store ?a) (user_id demo_reviewer) ''reviewer'' = Some True"
  proof -
    have c: "has_role (snd (create_user demo_reviewer (store_new ''d''))) (user_id demo_reviewer) ''reviewer'' = Some True"
      using created_role(1)[OF n] by (simp add: demo_reviewer_def user_blank_def)
    have s: "store_up (snd (create_user demo_reviewer (store_new ''d'')))" by (simp add: create_user_def store_put_up n)
    have e: "?a = snd (then_record ''user_created'' (user_id demo_reviewer) None ''system''
        (mkobj [(''id'', JStr (user_id demo_reviewer)), (''role'', JStr ''reviewer'')]) (on_store (\<lambda>s. snd (create_user demo_reviewer s)) ?new))"
      by (simp only: svc_create_user_def Let_def demo_reviewer_def)
    show "store_up (au_store ?a)" unfolding e by (rule record_get(2)) (simp add: s)
    show "has_role (au_store ?a) (user_id demo_reviewer) ''reviewer'' = Some True"
      using c s by (simp add: e has_role_def get_user_def record_get(1))
  qed
  have s: "store_up (record_fix ?f (au_store ?a))" by (simp add: record_fix_def store_put_up up)
  have e: "reviewed = snd (then_record ''hole_resolution_proposed'' ''h'' None (or_system '''')
       (mkobj [(''ok'', JBool True), (''fix_id'', JStr (''fix_'' @ ''h'')), (''status'', JStr ''proposed''),
          (''note'', JStr ''requires reviewer approval before automatic transfer'')]) (on_store (record_fix ?f) ?a))"
    by (simp only: reviewed_def svc_resolve_hole_def)
  show "store_up (au_store reviewed)" unfolding e by (rule record_get(2)) (simp add: s)
  have "store_get (record_fix ?f (au_store ?a)) ''users'' k = store_get (au_store ?a) ''users'' k" for k
    by (simp add: record_fix_def get_other_coll up)
  then show "has_role (au_store reviewed) (user_id demo_reviewer) ''reviewer'' = Some True"
    using u s by (simp add: e has_role_def get_user_def record_get(1))
  have "store_get (record_fix ?f (au_store ?a)) ''fixes'' ''fix_h'' = Some (Some (fix_doc ?f))"
    using record_fix_get[OF up demo_fix_plain] by (simp add: hole_fix_def)
  then show "store_get (au_store reviewed) ''fixes'' ''fix_h'' = Some (Some (fix_doc ?f))"
    using s by (simp add: e record_get(1))
qed

theorem fix_approval_controlled_witness:
  "\<exists>b d es e. svc_step reviewed b \<and> store_get (au_store b) ''fixes'' ''fix_h'' = Some (Some d) \<and> jstr d ''status'' [] = ''approved''
     \<and> store_read_log (au_store b) ''signatures_log'' = Some (es @ [e]) \<and> jstr e ''meaning'' [] = ''approved_fix''"
proof -
  let ?u = "user_id demo_reviewer" and ?f = "fix_doc (hole_fix ''h'' ''S!A1'' (Fin 1) (Fin 2))"
  define b where "b = snd (svc_approve_fix ''fix_h'' ?u 5 reviewed)"
  have st: "svc_step reviewed b" unfolding b_def by (rule st_approve) simp
  have p: "pred_option json_plain (Some ?f)" "\<bar>5 :: int\<bar> < 2 ^ 53" using demo_fix_plain by simp_all
  note sg = signed_get[OF reviewed_state(1) p, of ?u "''fix_h''" "''approved_fix''"]
  have f: "store_get (signed ?u ''fix_h'' ''approved_fix'' (Some ?f) 5 (au_store reviewed)) ''fixes'' ''fix_h'' = Some (Some ?f)"
    using sg(1) reviewed_state(3) by simp
  then obtain s where s: "approve_fix ''fix_h'' ?u (signed ?u ''fix_h'' ''approved_fix'' (Some ?f) 5 (au_store reviewed)) = Some s"
    by (auto simp: approve_fix_def)
  note ap = approve_step[OF sg(2) f demo_fix_plain s]
  have "au_store b = au_store (snd (then_record ''fix_approved'' ''fix_h'' None ?u
      (mkobj [(''ok'', JBool True), (''fix_id'', JStr ''fix_h''), (''status'', JStr ''approved'')]) (on_store (\<lambda>_. s)
        (on_store (\<lambda>s. snd (sign_subject ?u ''fix_h'' ''approved_fix'' (Some ?f) 5 s)) reviewed))))"
    using s by (simp add: b_def svc_approve_fix_def reviewed_state Let_def signed_def)
  then have g: "store_get (au_store b) ''fixes'' ''fix_h'' = Some (Some (approved_doc ?u ?f))"
    using ap(1,2) by (simp add: record_get(1))
  obtain m where m: "?f = JObj m" by (simp add: fix_doc_def mkobj_def)
  have a: "jstr (approved_doc ?u ?f) ''status'' [] = ''approved''"
    unfolding m by (simp add: approved_doc_def jset_def mget_mput jstr_def)
  have "?f \<noteq> approved_doc ?u ?f" using a proposed_status[of "hole_fix ''h'' ''S!A1'' (Fin 1) (Fin 2)"] by auto
  with fix_approval_controlled[OF reach_reviewed st g a] reviewed_state(3) st g a show ?thesis by (auto simp: reviewer_signed_def)
qed

end
