(* ===== verification/Fve_Grammar.thy ===== *)
theory Fve_Grammar
  imports Fve_Formula
begin

text \<open>
  The language of the formula reader: a grammar of texts with the tree each stands for, with the precedences of the
  operators, blanks, calls, strings, references and names. The theorem is that the parser, with the fuel it has, reads
  every text of the grammar as its tree.
\<close>

section \<open>More fuel does not change a result\<close>

definition ext :: "('a, 's) xres \<Rightarrow> ('a, 's) xres \<Rightarrow> bool" where
  "ext m m' \<longleftrightarrow> (m \<noteq> XFuel \<longrightarrow> m' = m)"

lemma ext_refl [intro, simp]: "ext m m" "ext XFuel m"
  by (simp_all add: ext_def)

lemma ext_bind [intro]:
  "ext m m' \<Longrightarrow> (\<And>x st. ext (k x st) (k' x st)) \<Longrightarrow> ext (xbind m k) (xbind m' k')"
  by (cases m) (auto simp: ext_def)

lemma expr_fuel_mono:
  "f \<le> g \<Longrightarrow> ext (parse_expr f mp st) (parse_expr g mp st)"
  "f \<le> g \<Longrightarrow> ext (expr_loop f mp lhs st) (expr_loop g mp lhs st)"
  "f \<le> g \<Longrightarrow> ext (parse_unary f st) (parse_unary g st)"
  "f \<le> g \<Longrightarrow> ext (post_loop f x st) (post_loop g x st)"
  "f \<le> g \<Longrightarrow> ext (parse_primary f st) (parse_primary g st)"
  "f \<le> g \<Longrightarrow> ext (parse_args f as st) (parse_args g as st)"
proof (induction f mp st and f mp lhs st and f st and f x st and f st and f as st
    arbitrary: g and g and g and g and g and g
    rule: parse_expr_expr_loop_parse_unary_post_loop_parse_primary_parse_args.induct)
  case (2 f mp st)
  from Suc_le_D[OF "2.prems"] obtain h where h: "g = Suc h" by blast
  show ?case using "2.prems" unfolding h parse_expr.simps by (intro ext_bind "2.IH") simp_all
next
  case (4 f mp lhs st)
  from Suc_le_D[OF "4.prems"] obtain h where h: "g = Suc h" by blast
  show ?case
  proof (cases "p_ok st \<and> tt (p_cur st) = TOp \<and> mp \<le> prec (ts (p_cur st)) \<and> 0 < prec (ts (p_cur st))")
    case True
    have "ext (xbind (parse_expr f q (p_adv st)) (\<lambda>rhs. expr_loop f mp (XBin (ts (p_cur st)) lhs rhs)))
        (xbind (parse_expr h q (p_adv st)) (\<lambda>rhs. expr_loop h mp (XBin (ts (p_cur st)) lhs rhs)))"
      if "q = (if ts (p_cur st) = ''^'' then prec (ts (p_cur st)) else prec (ts (p_cur st)) + 1)" for q
      unfolding that using "4.prems" h
      by (intro ext_bind "4.IH"(1)[OF refl refl True] "4.IH"(2)[OF refl refl True]) simp_all
    then show ?thesis using True by (simp add: h Let_def)
  next
    case False
    show ?thesis unfolding h expr_loop.simps Let_def if_not_P[OF False] by simp
  qed
next
  case (6 f st)
  from Suc_le_D[OF "6.prems"] obtain h where h: "g = Suc h" by blast
  then have le: "f \<le> h" using "6.prems" by simp
  show ?case
  proof (cases "is_op [''-'', ''+''] st")
    case True
    then show ?thesis using "6.IH"(1)[OF True le] by (auto simp: h)
  next
    case False
    then show ?thesis using "6.IH"(2)[OF False le] "6.IH"(3)[OF False le] by (auto simp: h)
  qed
next
  case (8 f x st)
  from Suc_le_D[OF "8.prems"] obtain h where h: "g = Suc h" by blast
  then show ?case using "8.IH"[of h] "8.prems" by (auto simp: h)
next
  case (10 f st)
  from Suc_le_D[OF "10.prems"] obtain h where h: "g = Suc h" by blast
  then have le: "f \<le> h" using "10.prems" by simp
  show ?case
  proof (cases "tt (p_cur st)")
    case TLP
    then show ?thesis using "10.IH"(2)[OF refl TLP le] by (auto simp: h Let_def)
  next
    case TIdent
    have a: "ext (parse_args f [] (p_adv (p_adv st))) (parse_args h [] (p_adv (p_adv st)))"
      if "tt (p_cur (p_adv st)) = TLP" "tt (p_cur (p_adv (p_adv st))) \<noteq> TRP"
      using "10.IH"(1)[OF refl TIdent refl that(1) refl that(2) le] .
    show ?thesis using a TIdent by (cases "tt (p_cur (p_adv (p_adv st))) = TRP") (auto simp: h Let_def)
  qed (simp_all add: h)
next
  case (12 f as st)
  from Suc_le_D[OF "12.prems"] obtain h where h: "g = Suc h" by blast
  then have le: "f \<le> h" using "12.prems" by simp
  show ?case unfolding h parse_args.simps
    by (intro ext_bind "12.IH"(1)[OF le]) (use "12.IH"(2) le in auto)
qed simp_all

section \<open>What the parser gives with enough fuel\<close>

text \<open>The state of a parser at a text, without an error so far.\<close>

definition pst_at :: "string \<Rightarrow> pst" where
  "pst_at s = \<lparr>p_cur = fst (lex_next s), p_rest = snd (lex_next s), p_ok = True, p_err = []\<rparr>"

lemma pst_at_sel [simp]:
  "p_cur (pst_at s) = fst (lex_next s)" "p_ok (pst_at s)" "p_err (pst_at s) = []"
  "p_adv (pst_at s) = pst_at (snd (lex_next s))"
  by (simp_all add: pst_at_def p_adv_def split: prod.split)

definition gives :: "(nat \<Rightarrow> ('a, pst) xres) \<Rightarrow> 'a \<Rightarrow> string \<Rightarrow> bool" where
  "gives F x r \<longleftrightarrow> (\<exists>n. \<forall>f\<ge>n. F f = XOk x (pst_at r))"

lemma gives_Suc: "gives (\<lambda>f. F (Suc f)) x r \<Longrightarrow> gives F x r"
proof -
  assume "gives (\<lambda>f. F (Suc f)) x r"
  then obtain n where n: "\<forall>f\<ge>n. F (Suc f) = XOk x (pst_at r)" by (auto simp: gives_def)
  have "F f = XOk x (pst_at r)" if "Suc n \<le> f" for f using n that by (cases f) simp_all
  then show ?thesis unfolding gives_def by blast
qed

lemma gives_pure [intro]: "gives (\<lambda>f. XOk x (pst_at r)) x r"
  by (simp add: gives_def)

lemma gives_bind: "gives F x r \<Longrightarrow> gives (\<lambda>f. k f x (pst_at r)) y q \<Longrightarrow> gives (\<lambda>f. xbind (F f) (k f)) y q"
proof -
  assume "gives F x r" "gives (\<lambda>f. k f x (pst_at r)) y q"
  then obtain n m where "\<forall>f\<ge>n. F f = XOk x (pst_at r)" "\<forall>f\<ge>m. k f x (pst_at r) = XOk y (pst_at q)"
    unfolding gives_def by blast
  then have "\<forall>f\<ge>max n m. xbind (F f) (k f) = XOk y (pst_at q)" by simp
  then show ?thesis unfolding gives_def by blast
qed

abbreviation "gives_expr mp s \<equiv> gives (\<lambda>f. parse_expr f mp (pst_at s))"
abbreviation "gives_loop mp x s \<equiv> gives (\<lambda>f. expr_loop f mp x (pst_at s))"
abbreviation "gives_unary s \<equiv> gives (\<lambda>f. parse_unary f (pst_at s))"
abbreviation "gives_post x s \<equiv> gives (\<lambda>f. post_loop f x (pst_at s))"
abbreviation "gives_prim s \<equiv> gives (\<lambda>f. parse_primary f (pst_at s))"
abbreviation "gives_args as s \<equiv> gives (\<lambda>f. parse_args f as (pst_at s))"

text \<open>The precedence of the operator that comes next, 0 where there is none.\<close>

definition next_prec :: "string \<Rightarrow> nat" where
  "next_prec s = (if tt (fst (lex_next s)) = TOp then prec (ts (fst (lex_next s))) else 0)"

lemma expr_rule: "gives_unary s x r \<Longrightarrow> gives_loop mp x r y q \<Longrightarrow> gives_expr mp s y q"
  by (rule gives_Suc) (simp add: gives_bind)

lemma loop_stop: "next_prec s < mp \<or> next_prec s = 0 \<Longrightarrow> gives_loop mp x s x s"
  by (rule gives_Suc) (auto simp: next_prec_def Let_def split: if_splits)

lemma loop_step:
  assumes "lex_next s = (Tok TOp opr, r)" "mp \<le> prec opr" "0 < prec opr"
    and "gives_expr (if opr = ''^'' then prec opr else prec opr + 1) r y q" "gives_loop mp (XBin opr x y) q z t"
  shows "gives_loop mp x s z t"
  by (rule gives_Suc) (use assms in \<open>simp add: Let_def gives_bind[OF assms(4)]\<close>)

lemma unary_sign:
  "lex_next s = (Tok TOp opr, r) \<Longrightarrow> opr = ''-'' \<or> opr = ''+'' \<Longrightarrow> gives_unary r x q \<Longrightarrow> gives_unary s (XUn opr x) q"
  by (rule gives_Suc) (auto simp: is_op_def intro!: gives_bind)

lemma unary_rule:
  "tt (fst (lex_next s)) \<noteq> TOp \<Longrightarrow> gives_prim s x r \<Longrightarrow> gives_post x r y q \<Longrightarrow> gives_unary s y q"
  by (rule gives_Suc) (simp add: is_op_def gives_bind)

lemma post_stop: "\<not> is_op [''%''] (pst_at s) \<Longrightarrow> gives_post x s x s"
  by (rule gives_Suc) auto

lemma post_step: "lex_next s = (Tok TOp ''%'', r) \<Longrightarrow> gives_post (XUn ''%'' x) r y q \<Longrightarrow> gives_post x s y q"
  by (rule gives_Suc) (simp add: is_op_def)

lemma prim_token:
  "lex_next s = (\<lparr>tt = TNum, ts = n, tnum = v\<rparr>, r) \<Longrightarrow> gives_prim s (XNum v) r"
  "lex_next s = (Tok TStr u, r) \<Longrightarrow> gives_prim s (XStr u) r"
  "lex_next s = (Tok TRef u, r) \<Longrightarrow> make_ref u = Some a \<Longrightarrow> gives_prim s a r"
  "lex_next s = (Tok TIdent u, r) \<Longrightarrow> tt (fst (lex_next r)) \<noteq> TLP \<Longrightarrow> gives_prim s (XName u) r"
  by (rule gives_Suc, auto)+

lemma prim_paren:
  "lex_next s = (Tok TLP u, r) \<Longrightarrow> gives_expr 1 r x q \<Longrightarrow> lex_next q = (Tok TRP v, t) \<Longrightarrow> gives_prim s x t"
  by (rule gives_Suc) (auto intro!: gives_bind)

lemma prim_call:
  assumes "lex_next s = (Tok TIdent u, r)" "lex_next r = (Tok TLP l, q)"
    and "tt (fst (lex_next q)) \<noteq> TRP" "gives_args [] q xs t" "lex_next t = (Tok TRP v, w)"
  shows "gives_prim s (XCall (map upper_char u) xs) w"
  by (rule gives_Suc) (use assms in \<open>auto intro!: gives_bind[OF assms(4)]\<close>)

lemma prim_call0:
  assumes "lex_next s = (Tok TIdent u, r)" "lex_next r = (Tok TLP l, q)" "lex_next q = (Tok TRP v, w)"
  shows "gives_prim s (XCall (map upper_char u) []) w"
  by (rule gives_Suc) (use assms in auto)

lemma args_last: "gives_expr 1 s x r \<Longrightarrow> tt (fst (lex_next r)) \<noteq> TComma \<Longrightarrow> gives_args as s (as @ [x]) r"
  by (rule gives_Suc) (auto intro!: gives_bind)

lemma args_more:
  "gives_expr 1 s x r \<Longrightarrow> lex_next r = (Tok TComma u, q) \<Longrightarrow> gives_args (as @ [x]) q xs t \<Longrightarrow> gives_args as s xs t"
  by (rule gives_Suc) (auto intro!: gives_bind)

section \<open>The tokens\<close>

definition blanks :: "string \<Rightarrow> bool" where
  "blanks s = list_all (\<lambda>c. c = CHR '' '' \<or> c = CHR 9 \<or> c = CHR 10) s"

lemma blanks_alt: "blanks s = list_all is_blank s"
  by (simp add: blanks_def is_blank_def list_all_iff)

text \<open>What may follow an operand: the end, a blank, an operator, a percent sign, a comma or a closing parenthesis.\<close>

definition follow :: "string \<Rightarrow> bool" where
  "follow r \<longleftrightarrow> (case lex_skip r of [] \<Rightarrow> True | c # _ \<Rightarrow> c \<in> set ''+-*/^&=<>%,)'')"

definition word_text :: "string \<Rightarrow> bool" where
  "word_text w \<longleftrightarrow> w \<noteq> [] \<and> list_all (\<lambda>c. is_alpha c \<or> is_digit c \<or> c \<in> set ''$_.'') w
     \<and> (is_alpha (hd w) \<or> hd w = CHR ''$'' \<or> hd w = CHR ''_'')"

lemma word_text_alt:
  "word_text w = (w \<noteq> [] \<and> list_all word_char w \<and> (is_alpha (hd w) \<or> hd w = CHR ''$'' \<or> hd w = CHR ''_''))"
  by (simp add: word_text_def word_char_def is_alnum_def list_all_iff disj_assoc)

definition exp_text :: "string \<Rightarrow> bool" where
  "exp_text e \<longleftrightarrow> e = [] \<or> (\<exists>c sg ds. e = c # sg @ ds \<and> (c = CHR ''e'' \<or> c = CHR ''E'')
     \<and> (sg = [] \<or> sg = ''+'' \<or> sg = ''-'') \<and> ds \<noteq> [] \<and> list_all is_digit ds)"

definition num_text :: "string \<Rightarrow> bool" where
  "num_text s \<longleftrightarrow> (\<exists>m e. s = m @ e \<and> list_all (\<lambda>c. is_digit c \<or> c = CHR ''.'') m \<and> exp_text e
     \<and> (starts is_digit m \<or> starts (\<lambda>c. c = CHR ''.'') m \<and> starts is_digit (tl m)))"

text \<open>A word in the shape of a cell, which is no name.\<close>

definition cell_shape :: "string \<Rightarrow> bool" where
  "cell_shape w \<longleftrightarrow> (\<exists>a l b ds. w = a @ l @ b @ ds \<and> (a = [] \<or> a = ''$'') \<and> (b = [] \<or> b = ''$'')
     \<and> l \<noteq> [] \<and> ds \<noteq> [] \<and> list_all is_alpha l \<and> list_all is_digit ds)"

definition quoted :: "string \<Rightarrow> string" where
  "quoted t = CHR ''\"'' # concat (map (\<lambda>c. if c = CHR ''\"'' then [c, c] else [c]) t) @ [CHR ''\"'']"

text \<open>A reference: a cell, a range, and either of a sheet, whose name may be quoted.\<close>

inductive ref_text :: "string \<Rightarrow> bool" where
  ref_cell: "looks_ref w \<Longrightarrow> ref_text w"
| ref_range: "looks_ref w \<Longrightarrow> is_ref_start t \<Longrightarrow> list_all (\<lambda>c. is_alnum c \<or> c = CHR ''$'') t \<Longrightarrow> ref_text (w @ CHR '':'' # t)"
| ref_sheet: "word_text w \<Longrightarrow> list_all ref_char t \<Longrightarrow> ref_text (w @ CHR ''!'' # t)"
| ref_quoted: "CHR 39 \<notin> set w \<Longrightarrow> list_all ref_char t \<Longrightarrow> ref_text (CHR 39 # w @ [CHR 39, CHR ''!''] @ t)"

text \<open>The operators with their levels: comparisons bind loosest, then \<open>&\<close>, sums, products, and powers tightest.\<close>

definition opr :: "nat \<Rightarrow> string \<Rightarrow> bool" where
  "opr k o' \<longleftrightarrow> (k, o') \<in> set [(1, ''=''), (1, ''<>''), (1, ''<''), (1, ''>''), (1, ''<=''), (1, ''>=''), (2, ''&''),
     (3, ''+''), (3, ''-''), (4, ''*''), (4, ''/''), (5, ''^'')]"

lemma opr_prec: "opr k o' \<Longrightarrow> prec o' = k \<and> 0 < k \<and> k \<le> 5 \<and> (o' = ''^'' \<longleftrightarrow> k = 5) \<and> o' \<noteq> ''%''"
  unfolding opr_def by (simp, elim disjE conjE; simp add: prec_def)

lemma lex_skip_blanks: "blanks b \<Longrightarrow> lex_skip (b @ s) = lex_skip s"
  by (induction b) (simp_all add: blanks_alt lex_skip_def)

lemma lex_blanks: "blanks b \<Longrightarrow> lex_next (b @ s) = lex_next s"
  by (simp add: lex_next_def lex_skip_blanks)

lemma follow_blanks: "blanks b \<Longrightarrow> follow (b @ s) = follow s"
  by (simp add: follow_def lex_skip_blanks)

lemma follow_hd:
  "follow (c # r) \<Longrightarrow> c \<in> {CHR '' '', CHR 9, CHR 10} \<union> set ''+-*/^&=<>%,)''"
  by (cases "is_blank c") (auto simp: follow_def lex_skip_def is_blank_def)

lemma stop_char:
  "c \<in> {CHR '' '', CHR 9, CHR 10} \<union> set ''+-*/^&=<>%,)'' \<Longrightarrow> \<not> is_alnum c \<and> c \<notin> set ''$:_.!(e\"E''"
  by (auto simp: is_alnum_def is_alpha_def is_upper_def is_lower_def is_digit_def)

lemma follow_stops:
  assumes "follow r"
  shows "\<not> starts word_char r" "\<not> starts ref_char r" "\<not> starts (\<lambda>c. is_alnum c \<or> c = CHR ''$'') r"
    "\<not> starts (\<lambda>c. is_digit c \<or> c = CHR ''.'') r" "\<not> starts is_digit r" "\<not> starts (\<lambda>c. c = CHR ''!'') r"
    "\<not> starts (\<lambda>c. c = CHR '':'') r" "\<not> starts (\<lambda>c. c = CHR ''\"'') r" "\<not> starts (\<lambda>c. c = CHR ''e'' \<or> c = CHR ''E'') r"
proof -
  have "c = hd r \<Longrightarrow> r = c # tl r \<Longrightarrow> \<not> is_alnum c \<and> c \<notin> set ''$:_.!(e\"E''" for c
    using follow_hd[of c "tl r"] stop_char[of c] assms by simp
  then have n: "r = [] \<or> (\<exists>c t. r = c # t \<and> \<not> is_alnum c \<and> c \<notin> set ''$:_.!(e\"E'')" by (cases r) auto
  show "\<not> starts word_char r" "\<not> starts ref_char r" "\<not> starts (\<lambda>c. is_alnum c \<or> c = CHR ''$'') r"
    "\<not> starts (\<lambda>c. is_digit c \<or> c = CHR ''.'') r" "\<not> starts is_digit r" "\<not> starts (\<lambda>c. c = CHR ''!'') r"
    "\<not> starts (\<lambda>c. c = CHR '':'') r" "\<not> starts (\<lambda>c. c = CHR ''\"'') r" "\<not> starts (\<lambda>c. c = CHR ''e'' \<or> c = CHR ''E'') r"
    using n by (auto simp: starts_def word_char_def ref_char_def is_alnum_def)
qed

lemma follow_open: "follow r \<Longrightarrow> \<not> starts (\<lambda>c. c = CHR ''('') (lex_skip r)"
  by (auto simp: follow_def starts_def split: list.splits)

lemma take_stops:
  "list_all P w \<Longrightarrow> \<not> starts P r \<Longrightarrow> takeWhile P (w @ r) = w \<and> dropWhile P (w @ r) = r"
  by (induction w) (auto simp: starts_def split: list.splits)

lemma starts_append: "w \<noteq> [] \<Longrightarrow> starts P (w @ r) = starts P w"
  by (cases w) (simp_all add: starts_def)

lemma alpha_char:
  "is_alpha c \<or> c = CHR ''$'' \<or> c = CHR ''_'' \<Longrightarrow> \<not> is_blank c \<and> c \<notin> set ''(),\".'' \<and> c \<noteq> CHR 39 \<and> \<not> is_digit c"
  by (auto simp: is_alpha_def is_upper_def is_lower_def is_digit_def is_blank_def)

lemma digit_char: "is_digit c \<or> c = CHR ''.'' \<Longrightarrow> \<not> is_blank c \<and> c \<notin> set ''(),\"'' \<and> c \<noteq> CHR 39"
  by (auto simp: is_digit_def is_blank_def)

lemma lex_word: "starts (\<lambda>c. is_alpha c \<or> c = CHR ''$'' \<or> c = CHR ''_'') s \<Longrightarrow> lex_next s = ident_or_ref s"
  using alpha_char[of "hd s"] by (cases s) (auto simp: starts_def lex_next_def lex_skip_def Let_def)

lemma lex_digits:
  "starts is_digit s \<or> starts (\<lambda>c. c = CHR ''.'') s \<and> starts is_digit (tl s) \<Longrightarrow> lex_next s = lex_number s"
  using digit_char[of "hd s"] by (cases s) (auto simp: starts_def lex_next_def lex_skip_def Let_def)

lemma lex_num:
  assumes "num_text s" "follow r"
  shows "lex_next (s @ r) = (\<lparr>tt = TNum, ts = s, tnum = strtod s\<rparr>, r)"
proof -
  let ?P = "\<lambda>c. is_digit c \<or> c = CHR ''.''"
  obtain m e where s: "s = m @ e" "list_all ?P m" "exp_text e"
    and st: "starts is_digit m \<or> starts (\<lambda>c. c = CHR ''.'') m \<and> starts is_digit (tl m)"
    using assms(1) unfolding num_text_def by blast
  have "starts is_digit (s @ r) \<or> starts (\<lambda>c. c = CHR ''.'') (s @ r) \<and> starts is_digit (tl (s @ r))"
    using st unfolding s(1) by (cases m; cases "tl m") (auto simp: starts_def)
  then have l: "lex_next (s @ r) = lex_number (s @ r)" by (rule lex_digits)
  show ?thesis
  proof (cases "e = []")
    case True
    have m: "takeWhile ?P (s @ r) = s" "dropWhile ?P (s @ r) = r"
      using take_stops[OF s(2) follow_stops(4)[OF assms(2)]] True s(1) by simp_all
    show ?thesis unfolding l lex_number_def Let_def m using follow_stops(9)[OF assms(2)]
      by (cases r) (auto simp: starts_def)
  next
    case False
    obtain c sg ds where e: "e = c # sg @ ds" "c = CHR ''e'' \<or> c = CHR ''E''" "ds \<noteq> []" "list_all is_digit ds"
      "sg = [] \<or> sg = ''+'' \<or> sg = ''-''"
      using s(3) False unfolding exp_text_def by blast
    have "\<not> starts ?P (e @ r)" using e(1,2) by (auto simp: starts_def is_digit_def)
    from take_stops[OF s(2) this] have m: "takeWhile ?P (s @ r) = m" "dropWhile ?P (s @ r) = c # sg @ ds @ r"
      by (simp_all add: s(1) e(1))
    note d = take_stops[OF e(4) follow_stops(5)[OF assms(2)]]
    have "\<not> starts (\<lambda>c. c = CHR ''+'' \<or> c = CHR ''-'') (ds @ r)"
      using e(3,4) by (cases ds) (auto simp: starts_def is_digit_def)
    then show ?thesis unfolding l lex_number_def Let_def m using e(2,5) d
      by (auto simp: s(1) e(1) starts_def)
  qed
qed

lemma looks_ref_parts:
  "looks_ref w \<Longrightarrow> cell_shape w"
proof -
  have d: "\<exists>a. x = a @ snd (take_dollar x) \<and> (a = [] \<or> a = ''$'')" for x
    by (cases x) (auto simp: take_dollar_def)
  have t: "list_all P (takeWhile P x)" for P :: "char \<Rightarrow> bool" and x by (induction x) auto
  assume w: "looks_ref w"
  define w1 where "w1 = snd (take_dollar w)"
  define w2 where "w2 = snd (take_dollar (dropWhile is_alpha w1))"
  have e: "takeWhile is_alpha w1 \<noteq> []" "takeWhile is_digit w2 \<noteq> []" "dropWhile is_digit w2 = []"
    using w by (simp_all add: looks_ref_def Let_def w1_def w2_def)
  obtain a b where "w = a @ w1" "a = [] \<or> a = ''$''" "dropWhile is_alpha w1 = b @ w2" "b = [] \<or> b = ''$''"
    using d[of w] d[of "dropWhile is_alpha w1"] unfolding w1_def w2_def by blast
  moreover have "w1 = takeWhile is_alpha w1 @ dropWhile is_alpha w1" "w2 = takeWhile is_digit w2"
    using takeWhile_dropWhile_id[of is_alpha w1] takeWhile_dropWhile_id[of is_digit w2] e(3) by (simp, metis append_Nil2)
  ultimately show ?thesis using e(1,2) t unfolding cell_shape_def by (metis append_assoc)
qed

lemma looks_ref_word: "looks_ref w \<Longrightarrow> word_text w"
proof -
  assume "looks_ref w"
  from looks_ref_parts[OF this, unfolded cell_shape_def] obtain a l b ds where w: "w = a @ l @ b @ ds" "a = [] \<or> a = ''$''" "b = [] \<or> b = ''$''"
    "l \<noteq> []" "list_all is_alpha l" "list_all is_digit ds" by blast
  have "is_alpha (hd w) \<or> hd w = CHR ''$''" using w by (cases l) auto
  then show ?thesis using w by (auto simp: word_text_alt word_char_def is_alnum_def list_all_iff)
qed

lemma lex_word_text: "word_text w \<Longrightarrow> lex_next (w @ r) = ident_or_ref (w @ r)"
  by (rule lex_word) (cases w; auto simp: word_text_alt starts_def)

lemma word_stops:
  "word_text w \<Longrightarrow> \<not> starts word_char r \<Longrightarrow> takeWhile word_char (w @ r) = w \<and> dropWhile word_char (w @ r) = r"
  by (rule take_stops) (simp_all add: word_text_alt)


lemma take_text: "list_all P w \<Longrightarrow> \<not> starts P r \<Longrightarrow> takeWhile P (w @ r) = w" "list_all P w \<Longrightarrow> \<not> starts P r \<Longrightarrow> dropWhile P (w @ r) = r"
  by (simp_all add: take_stops)

lemma lex_ref:
  assumes "ref_text s" "follow r"
  shows "lex_next (s @ r) = (Tok TRef s, r)"
  using assms(1)
proof cases
  case ref_cell
  note w = looks_ref_word[OF ref_cell]
  show ?thesis unfolding lex_word_text[OF w] ident_or_ref_def Let_def word_stops[OF w follow_stops(1)[OF assms(2)], THEN conjunct1]
      word_stops[OF w follow_stops(1)[OF assms(2)], THEN conjunct2]
    using follow_stops[OF assms(2)] follow_open[OF assms(2)] ref_cell by simp
next
  case (ref_range w t)
  note w = looks_ref_word[OF ref_range(2)]
  have c: "\<not> starts word_char (CHR '':'' # t @ r)" by (simp add: starts_def word_char_def is_alnum_def is_alpha_def is_upper_def is_lower_def is_digit_def)
  have "is_ref_start (t @ r)" using ref_range(3) by (cases t) (simp_all add: is_ref_start_def starts_def)
  then show ?thesis using ref_range(2) lex_word_text[OF w, of "CHR '':'' # t @ r"] word_stops[OF w c]
      take_text[OF ref_range(4) follow_stops(3)[OF assms(2)]]
    by (simp add: ref_range(1) ident_or_ref_def Let_def starts_def)
next
  case (ref_sheet w t)
  have c: "\<not> starts word_char (CHR ''!'' # t @ r)" by (simp add: starts_def word_char_def is_alnum_def is_alpha_def is_upper_def is_lower_def is_digit_def)
  show ?thesis using lex_word_text[OF ref_sheet(2), of "CHR ''!'' # t @ r"] word_stops[OF ref_sheet(2) c]
      take_text[OF ref_sheet(3) follow_stops(2)[OF assms(2)]]
    by (simp add: ref_sheet(1) ident_or_ref_def Let_def starts_def)
next
  case (ref_quoted w t)
  have l: "lex_next (CHR 39 # u) = sheet_ref u" for u
    by (simp add: lex_next_def lex_skip_def is_blank_def)
  have q: "takeWhile (\<lambda>c. c \<noteq> CHR 39) (w @ CHR 39 # u) = w" "dropWhile (\<lambda>c. c \<noteq> CHR 39) (w @ CHR 39 # u) = CHR 39 # u" for u
    using ref_quoted(2) by (induction w) auto
  show ?thesis using l[of "w @ CHR 39 # CHR ''!'' # t @ r"] q[of "CHR ''!'' # t @ r"]
      take_text[OF ref_quoted(3) follow_stops(2)[OF assms(2)]]
    by (simp add: ref_quoted(1) sheet_ref_def Let_def starts_def)
qed

lemma lex_name:
  "word_text w \<Longrightarrow> \<not> looks_ref w \<Longrightarrow> follow r \<Longrightarrow> lex_next (w @ r) = (Tok TIdent w, r)"
  using follow_stops[of r] follow_open[of r] word_stops[of w r] by (simp add: lex_word_text ident_or_ref_def Let_def)

lemma lex_paren:
  "blanks b \<Longrightarrow> lex_next (b @ CHR ''('' # r) = (Tok TLP ''('', r)"
  "blanks b \<Longrightarrow> lex_next (b @ CHR '')'' # r) = (Tok TRP '')'', r)"
  "blanks b \<Longrightarrow> lex_next (b @ CHR '','' # r) = (Tok TComma '','', r)"
  by (simp_all add: lex_blanks) (simp_all add: lex_next_def lex_skip_def is_blank_def)

lemma lex_call_name:
  assumes "word_text w" "blanks b"
  shows "lex_next (w @ b @ CHR ''('' # r) = (Tok TIdent w, CHR ''('' # r)"
proof -
  let ?u = "b @ CHR ''('' # r"
  have n: "\<not> starts word_char ?u" "\<not> starts (\<lambda>c. c = CHR ''!'') ?u" "\<not> starts (\<lambda>c. c = CHR '':'') ?u"
    using assms(2) by (cases b; auto simp: starts_def blanks_alt is_blank_def word_char_def is_alnum_def is_alpha_def is_upper_def is_lower_def is_digit_def)+
  have "lex_skip ?u = CHR ''('' # r" using assms(2) by (simp add: lex_skip_blanks) (simp add: lex_skip_def is_blank_def)
  then show ?thesis using n word_stops[OF assms(1) n(1)] by (simp add: lex_word_text[OF assms(1)] ident_or_ref_def Let_def starts_def)
qed

lemma lex_quoted: "follow r \<Longrightarrow> lex_next (quoted t @ r) = (Tok TStr t, r)"
proof -
  assume r: "follow r"
  have "string_tok (concat (map (\<lambda>c. if c = CHR ''\"'' then [c, c] else [c]) t) @ CHR ''\"'' # r) = (t, r)"
    using follow_stops(8)[OF r] by (induction t) (auto simp: starts_def)
  then show ?thesis by (simp add: quoted_def lex_next_def lex_skip_def is_blank_def)
qed

text \<open>An operator before an operand, which never begins with a comparison.\<close>

lemma lex_opr:
  assumes "opr k o'" "s \<noteq> []" "hd s \<notin> set ''=>''" "blanks b"
  shows "lex_next (b @ o' @ s) = (Tok TOp o', s)"
proof -
  have "o' \<in> {''='', ''<>'', ''<'', ''>'', ''<='', ''>='', ''&'', ''+'', ''-'', ''*'', ''/'', ''^''}"
    using assms(1) by (auto simp: opr_def)
  then show ?thesis using assms(2-4) by (cases s; simp add: lex_blanks)
      (auto simp: lex_next_def lex_skip_def is_blank_def is_digit_def is_alpha_def is_upper_def is_lower_def lex_op_def starts_def)
qed

lemma lex_percent: "blanks b \<Longrightarrow> lex_next (b @ CHR ''%'' # s) = (Tok TOp ''%'', s)"
  by (simp add: lex_blanks)
    (simp add: lex_next_def lex_skip_def is_blank_def is_digit_def is_alpha_def is_upper_def is_lower_def lex_op_def starts_def)


section \<open>References\<close>

text \<open>The number of a column by its letters, A to Z the digits 1 to 26, in either case.\<close>

definition letter_value :: "char \<Rightarrow> nat" where
  "letter_value c = (if is_lower c then of_char c - 96 else of_char c - 64)"

definition column_value :: "string \<Rightarrow> nat" where
  "column_value l = foldl (\<lambda>n c. 26 * n + letter_value c) 0 l"

definition dollar :: "bool \<Rightarrow> string" where
  "dollar b = (if b then ''$'' else [])"

text \<open>A cell: letters and digits, each after a dollar sign where the column or the row is absolute; row and column
  count from 0.\<close>

definition cell_text :: "string \<Rightarrow> cell_ref \<Rightarrow> bool" where
  "cell_text s r \<longleftrightarrow> (\<exists>ac l ar ds. s = dollar ac @ l @ dollar ar @ ds \<and> l \<noteq> [] \<and> ds \<noteq> [] \<and> list_all is_alpha l \<and> list_all is_digit ds
     \<and> int (column_value l) \<le> int_max \<and> int (digits_val ds) \<le> int_max
     \<and> r = \<lparr>r_sheet = 0, r_row = int (digits_val ds) - 1, r_col = int (column_value l) - 1, abs_row = ar, abs_col = ac\<rparr>)"

text \<open>The end of a range loses its dollar signs.\<close>

definition range_end :: "cell_ref \<Rightarrow> cell_ref" where
  "range_end r = r\<lparr>abs_row := False, abs_col := False\<rparr>"

text \<open>The name of a sheet before a reference, plain or between apostrophes.\<close>

definition sheet_text :: "string \<Rightarrow> string \<Rightarrow> bool" where
  "sheet_text p nm \<longleftrightarrow> p = nm \<and> word_text nm \<or> p = CHR 39 # nm @ [CHR 39] \<and> CHR 39 \<notin> set nm"

lemma column_value_mono: "n \<le> foldl (\<lambda>n c. 26 * n + letter_value c) n l"
proof (induction l arbitrary: n)
  case (Cons c l)
  show ?case using Cons.IH[of "26 * n + letter_value c"] by simp
qed simp

lemma letter_upper: "is_alpha c \<Longrightarrow> is_upper (upper_char c) \<and> int (of_char (upper_char c)) - 64 = int (letter_value c)"
  by (auto simp: is_alpha_def is_upper_def is_lower_def upper_char_def letter_value_def)

lemma col_acc_value:
  "list_all is_alpha l \<Longrightarrow> int (foldl (\<lambda>n c. 26 * n + letter_value c) n l) \<le> int_max \<Longrightarrow>
     col_acc (int n) l = Some (int (foldl (\<lambda>n c. 26 * n + letter_value c) n l))"
proof (induction l arbitrary: n)
  case (Cons c l)
  let ?m = "26 * n + letter_value c"
  have "int n * 26 + (int (of_char (upper_char c)) - 64) = int ?m" using letter_upper[of c] Cons.prems(1) by simp
  moreover have "int ?m \<le> int_max" using column_value_mono[of ?m l] Cons.prems(2) by simp
  ultimately show ?case using Cons.IH[of ?m] Cons.prems letter_upper[of c] by (simp add: Let_def mult.commute)
qed simp

lemma take_dollar_text: "s \<noteq> [] \<Longrightarrow> hd s \<noteq> CHR ''$'' \<Longrightarrow> take_dollar (dollar b @ s) = (b, s)"
  by (cases s) (auto simp: take_dollar_def dollar_def)

lemma cell_text_facts:
  assumes "cell_text s r"
  shows "looks_ref s" "list_all (\<lambda>c. is_alnum c \<or> c = CHR ''$'') s" "is_ref_start s"
    and "\<exists>p. parse_a1 s = Some p \<and> a1_ok p \<and> ref_at p = r \<and> ref_at (p\<lparr>a1_ar := False, a1_ac := False\<rparr>) = range_end r"
proof -
  obtain ac l ar ds where s: "s = dollar ac @ l @ dollar ar @ ds" "l \<noteq> []" "ds \<noteq> []" "list_all is_alpha l" "list_all is_digit ds"
    and n: "int (column_value l) \<le> int_max" "int (digits_val ds) \<le> int_max"
    and r: "r = \<lparr>r_sheet = 0, r_row = int (digits_val ds) - 1, r_col = int (column_value l) - 1, abs_row = ar, abs_col = ac\<rparr>"
    using assms unfolding cell_text_def by blast
  have h: "is_alpha (hd l)" "is_digit (hd ds)" using s(2-5) by (cases l; cases ds; simp)+
  then have nd: "hd l \<noteq> CHR ''$''" "hd ds \<noteq> CHR ''$''" using upper_not_dollar by blast+
  have t: "take_dollar s = (ac, l @ dollar ar @ ds)" "take_dollar (dollar ar @ ds) = (ar, ds)"
    using s nd by (simp_all add: take_dollar_text)
  have "dollar ar @ ds = [] \<or> \<not> is_alpha ((dollar ar @ ds) ! 0)"
    using s(3) h(2) digit_not_alpha[of "hd ds"] by (cases ds) (simp_all add: dollar_def is_alpha_def is_upper_def is_lower_def)
  from takeWhile_all[OF s(4) this] have w: "takeWhile is_alpha (l @ dollar ar @ ds) = l" "dropWhile is_alpha (l @ dollar ar @ ds) = dollar ar @ ds"
    by simp_all
  have d: "takeWhile is_digit ds = ds" "dropWhile is_digit ds = []" using s(5) by (simp_all add: list_all_iff)
  show "looks_ref s" using s(2,3) s(5)[unfolded list_all_iff] by (simp add: looks_ref_def t w d(1) Let_def)
  have "col_index l = Some (int (column_value l) - 1)" using col_acc_value[OF s(4), of 0] n(1) by (simp add: col_index_def column_value_def)
  moreover have "stoi_digits ds = Some (int (digits_val ds))" using n(2) by (simp add: stoi_digits_def)
  ultimately have "parse_a1 s = Some \<lparr>a1_ok = True, a1_pos = Some (int (digits_val ds) - 1, int (column_value l) - 1), a1_ar = ar, a1_ac = ac\<rparr>"
    using s(2,3) s(5)[unfolded list_all_iff] by (simp add: parse_a1_def t w d(1))
  then show "\<exists>p. parse_a1 s = Some p \<and> a1_ok p \<and> ref_at p = r \<and> ref_at (p\<lparr>a1_ar := False, a1_ac := False\<rparr>) = range_end r"
    by (simp add: r ref_at_def ref_default_def range_end_def)
  show "list_all (\<lambda>c. is_alnum c \<or> c = CHR ''$'') s" using s(4,5) by (auto simp: s(1) dollar_def is_alnum_def list_all_iff)
  show "is_ref_start s" using s(2) h(1) by (cases l) (simp_all add: s(1) dollar_def is_ref_start_def starts_def)
qed

lemma cell_text_chars: "cell_text s r \<Longrightarrow> list_all ref_char s \<and> CHR ''!'' \<notin> set s \<and> CHR '':'' \<notin> set s"
  using cell_text_facts(2)[of s r] by (auto simp: list_all_iff ref_char_def is_alnum_def is_alpha_def is_upper_def is_lower_def is_digit_def)

definition cell_or_range :: "string \<Rightarrow> string \<Rightarrow> xast \<Rightarrow> bool" where
  "cell_or_range nm s a \<longleftrightarrow> (\<exists>r. cell_text s r \<and> a = XCell nm r)
     \<or> (\<exists>u v r e. s = u @ CHR '':'' # v \<and> cell_text u r \<and> cell_text v e \<and> a = XRange nm r (range_end e))"

lemma takeWhile_until: "c \<notin> set u \<Longrightarrow> takeWhile (\<lambda>x. x \<noteq> c) (u @ c # v) = u"
  by (induction u) auto

lemma takeWhile_whole: "c \<notin> set u \<Longrightarrow> takeWhile (\<lambda>x. x \<noteq> c) u = u"
  by (induction u) auto

lemma make_ref_text:
  assumes "split_sheet raw = (nm, s)" "cell_or_range nm s a"
  shows "make_ref raw = Some a"
  using assms(2) unfolding cell_or_range_def
proof
  assume "\<exists>r. cell_text s r \<and> a = XCell nm r"
  then obtain r where r: "cell_text s r" "a = XCell nm r" by blast
  then show ?thesis using cell_text_facts(4)[OF r(1)] cell_text_chars[OF r(1)] by (auto simp: make_ref_def assms(1))
next
  assume "\<exists>u v r e. s = u @ CHR '':'' # v \<and> cell_text u r \<and> cell_text v e \<and> a = XRange nm r (range_end e)"
  then obtain u v r e where r: "s = u @ CHR '':'' # v" "cell_text u r" "cell_text v e" "a = XRange nm r (range_end e)" by blast
  then show ?thesis using cell_text_facts(4)[OF r(2)] cell_text_facts(4)[OF r(3)] cell_text_chars[OF r(2)]
    by (auto simp: make_ref_def assms(1) takeWhile_until Let_def)
qed

lemma split_plain: "CHR ''!'' \<notin> set s \<Longrightarrow> split_sheet s = ([], s)"
  by (simp add: split_sheet_def)

lemma split_sheet_text:
  assumes "sheet_text p nm" "CHR ''!'' \<notin> set s"
  shows "split_sheet (p @ CHR ''!'' # s) = (nm, s)"
proof -
  have b: "rev (takeWhile (\<lambda>c. c \<noteq> CHR ''!'') (rev (p @ CHR ''!'' # s))) = s"
    using takeWhile_until[of "CHR ''!''" "rev s" "rev p"] assms(2) by simp
  have q: "word_text nm \<Longrightarrow> nm ! 0 \<noteq> CHR 39"
    using alpha_char[of "hd nm"] by (cases nm) (auto simp: word_text_alt)
  show ?thesis unfolding split_sheet_def b using assms(1) q by (auto simp: sheet_text_def Let_def nth_append)
qed

lemma ref_text_lexed:
  assumes "cell_or_range nm s a"
  shows "nm = [] \<Longrightarrow> ref_text s \<and> make_ref s = Some a"
    and "sheet_text p nm \<Longrightarrow> ref_text (p @ CHR ''!'' # s) \<and> make_ref (p @ CHR ''!'' # s) = Some a"
proof -
  have c: "list_all ref_char s \<and> CHR ''!'' \<notin> set s"
    using assms cell_text_chars by (auto simp: cell_or_range_def ref_char_def)
  have "ref_text s" using assms cell_text_facts(1-3) by (auto simp: cell_or_range_def intro: ref_text.intros)
  then show "nm = [] \<Longrightarrow> ref_text s \<and> make_ref s = Some a"
    using make_ref_text[OF _ assms] split_plain c by simp
  show "ref_text (p @ CHR ''!'' # s) \<and> make_ref (p @ CHR ''!'' # s) = Some a" if "sheet_text p nm"
    using make_ref_text[OF split_sheet_text[OF that] assms] c that ref_sheet[of p s] ref_quoted[of nm s]
    by (auto simp: sheet_text_def)
qed

section \<open>The grammar\<close>

text \<open>
  Operands, operands with percent signs, operands with signs, expressions of a level and lists of arguments, each with
  its tree. The operators are left associative, only \<open>^\<close> groups to the right; a sign binds tighter than any of them.
\<close>

inductive prim_text :: "string \<Rightarrow> xast \<Rightarrow> bool"
  and post_text :: "string \<Rightarrow> xast \<Rightarrow> bool"
  and un_text :: "string \<Rightarrow> xast \<Rightarrow> bool"
  and ex_text :: "nat \<Rightarrow> string \<Rightarrow> xast \<Rightarrow> bool"
  and args_text :: "string \<Rightarrow> xast list \<Rightarrow> bool" where
  pt_num: "num_text s \<Longrightarrow> prim_text s (XNum (strtod s))"
| pt_str: "prim_text (quoted t) (XStr t)"
| pt_ref: "cell_or_range [] s a \<Longrightarrow> prim_text s a"
| pt_sheet: "sheet_text p nm \<Longrightarrow> cell_or_range nm s a \<Longrightarrow> prim_text (p @ CHR ''!'' # s) a"
| pt_name: "word_text w \<Longrightarrow> \<not> cell_shape w \<Longrightarrow> prim_text w (XName w)"
| pt_paren: "ex_text 1 s x \<Longrightarrow> blanks b \<Longrightarrow> prim_text (CHR ''('' # s @ b @ '')'') x"
| pt_call0: "word_text w \<Longrightarrow> blanks b \<Longrightarrow> blanks c \<Longrightarrow> prim_text (w @ b @ CHR ''('' # c @ '')'') (XCall (map upper_char w) [])"
| pt_call: "word_text w \<Longrightarrow> blanks b \<Longrightarrow> args_text s xs \<Longrightarrow> blanks c \<Longrightarrow>
    prim_text (w @ b @ CHR ''('' # s @ c @ '')'') (XCall (map upper_char w) xs)"
| pt_blank: "prim_text s x \<Longrightarrow> blanks b \<Longrightarrow> prim_text (b @ s) x"
| po_prim: "prim_text s x \<Longrightarrow> post_text s x"
| po_percent: "post_text s x \<Longrightarrow> blanks b \<Longrightarrow> post_text (s @ b @ ''%'') (XUn ''%'' x)"
| un_post: "post_text s x \<Longrightarrow> un_text s x"
| un_minus: "un_text s x \<Longrightarrow> blanks b \<Longrightarrow> un_text (b @ CHR ''-'' # s) (XUn ''-'' x)"
| un_plus: "un_text s x \<Longrightarrow> blanks b \<Longrightarrow> un_text (b @ CHR ''+'' # s) (XUn ''+'' x)"
| ex_un: "un_text s x \<Longrightarrow> ex_text n s x"
| ex_left: "ex_text k s x \<Longrightarrow> ex_text (k + 1) t y \<Longrightarrow> opr k o' \<Longrightarrow> k < 5 \<Longrightarrow> n \<le> k \<Longrightarrow> blanks b \<Longrightarrow>
    ex_text n (s @ b @ o' @ t) (XBin o' x y)"
| ex_pow: "ex_text 6 s x \<Longrightarrow> ex_text 5 t y \<Longrightarrow> n \<le> 5 \<Longrightarrow> blanks b \<Longrightarrow> ex_text n (s @ b @ CHR ''^'' # t) (XBin ''^'' x y)"
| ar_one: "ex_text 1 s x \<Longrightarrow> args_text s [x]"
| ar_more: "ex_text 1 s x \<Longrightarrow> blanks b \<Longrightarrow> args_text t xs \<Longrightarrow> args_text (s @ b @ CHR '','' # t) (x # xs)"

text \<open>No text of an operand is empty, and none begins with a comparison.\<close>

definition opens :: "string \<Rightarrow> bool" where
  "opens s = (s \<noteq> [] \<and> hd s \<notin> set ''=>'')"

lemma opens_append [intro]: "opens s \<Longrightarrow> opens (s @ t)"
  by (cases s) (simp_all add: opens_def)

lemma opens_blanks [intro]: "opens s \<Longrightarrow> blanks b \<Longrightarrow> opens (b @ s)"
  by (cases b) (auto simp: opens_def blanks_alt is_blank_def)

lemma opens_word: "word_text w \<Longrightarrow> opens w"
  by (cases w) (auto simp: word_text_alt opens_def is_alpha_def is_upper_def is_lower_def)

lemma opens_num: "num_text s \<Longrightarrow> opens s"
proof -
  assume "num_text s"
  then obtain m e where m: "s = m @ e" "starts is_digit m \<or> starts (\<lambda>c. c = CHR ''.'') m" unfolding num_text_def by blast
  then have "opens m" by (cases m) (auto simp: starts_def opens_def is_digit_def)
  then show ?thesis using m(1) opens_append by blast
qed

lemma opens_ref: "ref_text s \<Longrightarrow> opens s"
  by (erule ref_text.cases) (auto intro: opens_word looks_ref_word, simp add: opens_def)

lemma opens_sign [simp]: "opens (CHR ''('' # s)" "opens (CHR ''-'' # s)" "opens (CHR ''+'' # s)" "opens (quoted t)"
  by (simp_all add: opens_def quoted_def)

lemma texts_open:
  "prim_text s x \<Longrightarrow> opens s" "post_text s x \<Longrightarrow> opens s" "un_text s x \<Longrightarrow> opens s" "ex_text n s x \<Longrightarrow> opens s"
  "args_text s xs \<Longrightarrow> opens s"
  by (induction rule: prim_text_post_text_un_text_ex_text_args_text.inducts)
    (auto intro: opens_word opens_num opens_ref dest: ref_text_lexed)

section \<open>The parser reads the grammar\<close>

text \<open>What may follow an expression of a level: an operand's follower, no percent sign, and no operator that the
  expression would take as its own.\<close>

definition after :: "nat \<Rightarrow> string \<Rightarrow> bool" where
  "after n r \<longleftrightarrow> follow r \<and> \<not> is_op [''%''] (pst_at r) \<and> next_prec r < (if n = 5 then 5 else n + 1)"

lemma lex_op_token: "tt (fst (lex_op s)) = TOp"
  by (simp add: lex_op_def Let_def)

lemma follow_token: "follow r \<Longrightarrow> tt (fst (lex_next r)) \<noteq> TLP"
proof (cases "lex_skip r")
  case (Cons c t)
  assume "follow r"
  then have "c \<in> set ''+-*/^&=<>%,)''" using Cons by (simp add: follow_def)
  then have "\<not> is_digit c \<and> \<not> is_alpha c \<and> c \<notin> set ''(\"$_.'' \<and> c \<noteq> CHR 39"
    using stop_char[of c] by (auto simp: is_alnum_def)
  then show ?thesis using Cons lex_op_token[of "c # t"] by (auto simp: lex_next_def Let_def)
qed (simp add: lex_next_def)

lemma follow_sign: "blanks b \<Longrightarrow> c \<in> set ''+-*/^&=<>%,)'' \<Longrightarrow> follow (b @ c # r)"
  unfolding follow_blanks by (auto simp: follow_def lex_skip_def is_blank_def)

lemma follow_opr: "opr k o' \<Longrightarrow> blanks b \<Longrightarrow> follow (b @ o' @ r)"
proof -
  assume o: "opr k o'" and b: "blanks b"
  from o obtain c t where "o' = c # t" "c \<in> set ''+-*/^&=<>%,)''" unfolding opr_def by (simp, elim disjE conjE; simp)
  then show ?thesis using follow_sign[OF b, of c "t @ r"] by simp
qed

lemma after_closed: "blanks b \<Longrightarrow> after n (b @ CHR '')'' # r)" "blanks b \<Longrightarrow> after n (b @ CHR '','' # r)" "after n []"
  using follow_sign[of b "CHR '')''" r] follow_sign[of b "CHR '',''" r]
  by (simp_all add: after_def is_op_def next_prec_def lex_paren)
    (simp add: follow_def lex_skip_def lex_next_def)

lemma after_opr:
  assumes "opr k o'" "opens t" "blanks b"
  shows "after (if k = 5 then 6 else k) (b @ o' @ t)" "lex_next (b @ o' @ t) = (Tok TOp o', t)"
proof -
  show l: "lex_next (b @ o' @ t) = (Tok TOp o', t)" using assms by (intro lex_opr) (simp_all add: opens_def)
  show "after (if k = 5 then 6 else k) (b @ o' @ t)"
    using follow_opr[OF assms(1,3)] opr_prec[OF assms(1)] by (simp add: after_def is_op_def next_prec_def l)
qed

text \<open>The token an operand begins with.\<close>

definition begins :: "string \<Rightarrow> bool" where
  "begins s \<longleftrightarrow> tt (fst (lex_next s)) \<notin> {TOp, TRP}"

definition starts_well :: "string \<Rightarrow> bool" where
  "starts_well s \<longleftrightarrow> tt (fst (lex_next s)) \<noteq> TRP"

lemma begins_well: "begins s \<Longrightarrow> starts_well s \<and> tt (fst (lex_next s)) \<noteq> TOp"
  by (simp add: begins_def starts_well_def)

lemma gives_blanks [simp]: "blanks b \<Longrightarrow> pst_at (b @ s) = pst_at s"
  by (simp add: pst_at_def lex_blanks)

lemma begins_blanks [simp]: "blanks b \<Longrightarrow> begins (b @ s) = begins s"
  by (simp add: begins_def lex_blanks)

lemma read_leaf:
  "num_text s \<Longrightarrow> follow r \<Longrightarrow> gives_prim (s @ r) (XNum (strtod s)) r \<and> begins (s @ r)"
  "follow r \<Longrightarrow> gives_prim (quoted t @ r) (XStr t) r \<and> begins (quoted t @ r)"
  "ref_text s \<and> make_ref s = Some a \<Longrightarrow> follow r \<Longrightarrow> gives_prim (s @ r) a r \<and> begins (s @ r)"
  "word_text w \<Longrightarrow> \<not> looks_ref w \<Longrightarrow> follow r \<Longrightarrow> gives_prim (w @ r) (XName w) r \<and> begins (w @ r)"
  using prim_token(1)[OF lex_num] prim_token(2)[OF lex_quoted] prim_token(3)[OF lex_ref] prim_token(4)[OF lex_name _]
  by (auto simp: begins_def lex_num lex_quoted lex_ref lex_name follow_token)

lemma read_paren:
  assumes "blanks b" "gives_expr 1 (s @ b @ CHR '')'' # r) x (b @ CHR '')'' # r)"
  shows "gives_prim (CHR ''('' # s @ b @ CHR '')'' # r) x r \<and> begins (CHR ''('' # s @ b @ CHR '')'' # r)"
  using prim_paren[OF lex_paren(1)[of "[]"] _ lex_paren(2)[OF assms(1)]] assms(2) lex_paren(1)[of "[]"]
  by (simp add: blanks_alt begins_def)

lemma read_call:
  assumes "word_text w" "blanks b" "blanks c"
  shows "gives_prim (w @ b @ CHR ''('' # c @ CHR '')'' # r) (XCall (map upper_char w) []) r \<and> begins (w @ b @ CHR ''('' # c @ CHR '')'' # r)"
    and "gives_args [] (s @ c @ CHR '')'' # r) xs (c @ CHR '')'' # r) \<Longrightarrow> starts_well (s @ c @ CHR '')'' # r) \<Longrightarrow>
      gives_prim (w @ b @ CHR ''('' # s @ c @ CHR '')'' # r) (XCall (map upper_char w) xs) r
      \<and> begins (w @ b @ CHR ''('' # s @ c @ CHR '')'' # r)"
  using prim_call0[OF lex_call_name[OF assms(1,2)] lex_paren(1)[of "[]", simplified] lex_paren(2)[OF assms(3)]]
    prim_call[OF lex_call_name[OF assms(1,2)] lex_paren(1)[of "[]", simplified] _ _ lex_paren(2)[OF assms(3)]]
  by (simp_all add: begins_def starts_well_def lex_call_name[OF assms(1,2)] blanks_alt)

lemma power_prec: "prec ''^'' = 5"
  by (simp add: prec_def)

lemma read_binary:
  assumes o': "opr k o'" "blanks b" "opens t" and m: "mp \<le> k" "after k r"
    and left: "\<And>y q. gives_loop mp x (b @ o' @ t @ r) y q \<Longrightarrow> gives_expr mp (s @ b @ o' @ t @ r) y q"
    and right: "gives_loop (if k = 5 then 5 else k + 1) y r y r \<Longrightarrow> gives_expr (if k = 5 then 5 else k + 1) (t @ r) y r"
    and rest: "gives_loop mp (XBin o' x y) r z q"
  shows "gives_expr mp (s @ b @ o' @ t @ r) z q"
proof (rule left, rule loop_step)
  note p = opr_prec[OF o'(1)]
  show "lex_next (b @ o' @ t @ r) = (Tok TOp o', t @ r)" using after_opr(2)[OF o'(1) opens_append[OF o'(3)] o'(2)] .
  show "mp \<le> prec o'" "0 < prec o'" using p m(1) by simp_all
  have "gives_loop (if k = 5 then 5 else k + 1) y r y r" using m(2) by (intro loop_stop) (auto simp: after_def)
  then show "gives_expr (if o' = ''^'' then prec o' else prec o' + 1) (t @ r) y r"
    using right p power_prec by (cases "k = 5") auto
  show "gives_loop mp (XBin o' x y) r z q" using rest .
qed

lemma after_le: "after n r \<Longrightarrow> n \<le> k \<Longrightarrow> after k r"
  by (auto simp: after_def split: if_splits)

lemma next_prec_le: "next_prec r \<le> 5"
  by (simp add: next_prec_def prec_def)

lemma after_right: "after n r \<Longrightarrow> n \<le> k \<Longrightarrow> k < 5 \<Longrightarrow> after (k + 1) r" "after n r \<Longrightarrow> n \<le> 5 \<Longrightarrow> after 5 r"
  by (auto simp: after_def split: if_splits)

lemma grammar_parsed:
  "prim_text s x \<Longrightarrow> \<forall>r. follow r \<longrightarrow> gives_prim (s @ r) x r \<and> begins (s @ r)"
  "post_text s x \<Longrightarrow> \<forall>r y q. follow r \<longrightarrow> gives_post x r y q \<longrightarrow> begins (s @ r) \<and> gives_unary (s @ r) y q"
  "un_text s x \<Longrightarrow> \<forall>r. after 6 r \<longrightarrow> gives_unary (s @ r) x r \<and> starts_well (s @ r)"
  "ex_text n s x \<Longrightarrow> \<forall>r mp y q. after n r \<longrightarrow> mp \<le> n \<longrightarrow> starts_well (s @ r) \<and> (gives_loop mp x r y q \<longrightarrow> gives_expr mp (s @ r) y q)"
  "args_text s xs \<Longrightarrow> \<forall>r as. after 0 r \<longrightarrow> tt (fst (lex_next r)) \<noteq> TComma \<longrightarrow>
     starts_well (s @ r) \<and> gives_args as (s @ r) (as @ xs) r"
proof (induction rule: prim_text_post_text_un_text_ex_text_args_text.inducts)
  case (pt_num s)
  then show ?case using read_leaf(1) by blast
next
  case (pt_str t)
  then show ?case using read_leaf(2) by blast
next
  case (pt_ref s a)
  then show ?case using read_leaf(3) ref_text_lexed(1)[OF pt_ref.hyps refl] by blast
next
  case (pt_sheet p nm s a)
  then show ?case using read_leaf(3)[OF ref_text_lexed(2)[OF pt_sheet.hyps(2,1)]] by simp
next
  case (pt_name w)
  then show ?case using read_leaf(4) looks_ref_parts by blast
next
  case (pt_paren s x b)
  have "gives_expr 1 (s @ b @ CHR '')'' # r) x (b @ CHR '')'' # r)" for r
    using pt_paren.IH after_closed(1)[OF pt_paren.hyps(2), of 1 r] loop_stop[of "b @ CHR '')'' # r" 1 x]
    by (simp add: next_prec_def lex_paren[OF pt_paren.hyps(2)])
  from read_paren[OF pt_paren.hyps(2) this] show ?case by simp
next
  case (pt_call0 w b c)
  then show ?case using read_call(1)[OF pt_call0.hyps] by simp
next
  case (pt_call w b s xs c)
  have "starts_well (s @ c @ CHR '')'' # r) \<and> gives_args [] (s @ c @ CHR '')'' # r) xs (c @ CHR '')'' # r)" for r
    using pt_call.IH[THEN spec, of "c @ CHR '')'' # r", THEN spec, of "[]"] after_closed(1)[OF pt_call.hyps(4), of 0 r]
    by (simp add: lex_paren[OF pt_call.hyps(4)])
  then show ?case using read_call(2)[OF pt_call.hyps(1,2,4), of s _ xs] by simp
next
  case (pt_blank s x b)
  then show ?case by simp
next
  case (po_prim s x)
  then show ?case using begins_well unary_rule by blast
next
  case (po_percent s x b)
  show ?case
  proof (intro allI impI)
    fix r y q assume "follow r" "gives_post (XUn ''%'' x) r y q"
    then have "gives_post x (b @ CHR ''%'' # r) y q" using post_step lex_percent[OF po_percent.hyps(2)] by blast
    then show "begins ((s @ b @ ''%'') @ r) \<and> gives_unary ((s @ b @ ''%'') @ r) y q"
      using po_percent.IH follow_sign[OF po_percent.hyps(2), of "CHR ''%''" r] by simp
  qed
next
  case (un_post s x)
  show ?case
  proof (intro allI impI)
    fix r assume "after 6 r"
    then have "follow r" "gives_post x r x r" using post_stop by (simp_all add: after_def)
    then show "gives_unary (s @ r) x r \<and> starts_well (s @ r)" using un_post.IH begins_well by blast
  qed
next
  case (un_minus s x b)
  have "lex_next (b @ CHR ''-'' # s @ r) = (Tok TOp ''-'', s @ r)" for r
    using after_opr(2)[of 3 "''-''" "s @ r" b] texts_open(3)[OF un_minus.hyps(1)] un_minus.hyps(2) opens_append by (simp add: opr_def)
  then show ?case using un_minus.IH unary_sign by (simp add: starts_well_def)
next
  case (un_plus s x b)
  have "lex_next (b @ CHR ''+'' # s @ r) = (Tok TOp ''+'', s @ r)" for r
    using after_opr(2)[of 3 "''+''" "s @ r" b] texts_open(3)[OF un_plus.hyps(1)] un_plus.hyps(2) opens_append by (simp add: opr_def)
  then show ?case using un_plus.IH unary_sign by (simp add: starts_well_def)
next
  case (ex_un s x n)
  have "after n r \<Longrightarrow> after 6 r" for r using next_prec_le[of r] by (simp add: after_def)
  then show ?case using ex_un.IH expr_rule by blast
next
  case (ex_left k s x t y o' n b)
  show ?case
  proof (intro allI impI)
    fix r mp z q assume r: "after n r" "mp \<le> n"
    have t: "opens t" using texts_open(4)[OF ex_left.hyps(2)] .
    have a: "after k (b @ o' @ t @ r)" using after_opr(1)[OF ex_left.hyps(3) opens_append[OF t] ex_left.hyps(6), of r] ex_left.hyps(4) by simp
    have l: "gives_loop mp x (b @ o' @ t @ r) w v \<Longrightarrow> gives_expr mp (s @ b @ o' @ t @ r) w v" for w v
      using ex_left.IH(1) a r(2) ex_left.hyps(5) by (meson le_trans)
    have "gives_expr mp (s @ b @ o' @ t @ r) z q" if "gives_loop mp (XBin o' x y) r z q"
      using ex_left.IH(2) after_right(1)[OF r(1) ex_left.hyps(5,4)] ex_left.hyps(4,5) r(2) that
      by (intro read_binary[OF ex_left.hyps(3,6) t _ after_le[OF r(1) ex_left.hyps(5)] l]) auto
    moreover have "starts_well (s @ b @ o' @ t @ r)" using ex_left.IH(1) a by blast
    ultimately show "starts_well ((s @ b @ o' @ t) @ r) \<and> (gives_loop mp (XBin o' x y) r z q \<longrightarrow> gives_expr mp ((s @ b @ o' @ t) @ r) z q)"
      by simp
  qed
next
  case (ex_pow s x t y n b)
  show ?case
  proof (intro allI impI)
    fix r mp z q assume r: "after n r" "mp \<le> n"
    have o': "opr 5 ''^''" by (simp add: opr_def)
    have t: "opens t" using texts_open(4)[OF ex_pow.hyps(2)] .
    have a: "after 6 (b @ ''^'' @ t @ r)" using after_opr(1)[OF o' opens_append[OF t] ex_pow.hyps(4), of r] by simp
    have l: "gives_loop mp x (b @ ''^'' @ t @ r) w v \<Longrightarrow> gives_expr mp (s @ b @ ''^'' @ t @ r) w v" for w v
    proof -
      have "mp \<le> 6" using r(2) ex_pow.hyps(3) by simp
      then show "gives_loop mp x (b @ ''^'' @ t @ r) w v \<Longrightarrow> gives_expr mp (s @ b @ ''^'' @ t @ r) w v" using ex_pow.IH(1) a by blast
    qed
    have "gives_expr mp (s @ b @ ''^'' @ t @ r) z q" if "gives_loop mp (XBin ''^'' x y) r z q"
      using ex_pow.IH(2) after_right(2)[OF r(1) ex_pow.hyps(3)] ex_pow.hyps(3) r(2) that
      by (intro read_binary[OF o' ex_pow.hyps(4) t _ after_right(2)[OF r(1) ex_pow.hyps(3)] l]) auto
    moreover have "starts_well (s @ b @ ''^'' @ t @ r)" using ex_pow.IH(1) a by blast
    ultimately show "starts_well ((s @ b @ CHR ''^'' # t) @ r)
        \<and> (gives_loop mp (XBin ''^'' x y) r z q \<longrightarrow> gives_expr mp ((s @ b @ CHR ''^'' # t) @ r) z q)"
      by simp
  qed
next
  case (ar_one s x)
  show ?case
  proof (intro allI impI)
    fix r as assume r: "after 0 r" "tt (fst (lex_next r)) \<noteq> TComma"
    have "after 1 r" using after_le[OF r(1)] by simp
    moreover have "gives_loop 1 x r x r" using r(1) by (intro loop_stop) (simp add: after_def)
    ultimately have "after 1 r" "gives_loop 1 x r x r" by simp_all
    then show "starts_well (s @ r) \<and> gives_args as (s @ r) (as @ [x]) r" using ar_one.IH args_last[OF _ r(2)] by blast
  qed
next
  case (ar_more s x b t xs)
  show ?case
  proof (intro allI impI)
    fix r as assume r: "after 0 r" "tt (fst (lex_next r)) \<noteq> TComma"
    let ?r = "b @ CHR '','' # t @ r"
    have "after 1 ?r" by (rule after_closed(2)[OF ar_more.hyps(2)])
    moreover have "gives_loop 1 x ?r x ?r" by (rule loop_stop) (simp add: next_prec_def lex_paren[OF ar_more.hyps(2)])
    ultimately have e: "starts_well (s @ ?r)" "gives_expr 1 (s @ ?r) x ?r" using ar_more.IH(1) by blast+
    have "gives_args (as @ [x]) (t @ r) ((as @ [x]) @ xs) r" using ar_more.IH(2) r by blast
    then show "starts_well ((s @ b @ CHR '','' # t) @ r) \<and> gives_args as ((s @ b @ CHR '','' # t) @ r) (as @ x # xs) r"
      using e args_more[OF e(2) lex_paren(3)[OF ar_more.hyps(2)]] by simp
  qed
qed

section \<open>Formulas\<close>

lemma gives_enough:
  assumes "gives_expr 1 s x r"
  shows "parse_expr (expr_fuel s) 1 (pst_at s) = XOk x (pst_at r)"
proof -
  obtain n where n: "\<forall>f\<ge>n. parse_expr f 1 (pst_at s) = XOk x (pst_at r)" using assms unfolding gives_def by blast
  have p: "p_adv \<lparr>p_cur = Tok TEnd [], p_rest = s, p_ok = True, p_err = []\<rparr> = pst_at s"
    by (simp add: p_adv_def pst_at_def split: prod.split)
  let ?m = "max n (expr_fuel s)"
  have "ext (parse_expr (expr_fuel s) 1 (pst_at s)) (parse_expr ?m 1 (pst_at s))" by (rule expr_fuel_mono(1)) simp
  then show ?thesis using parse_formula_returns[of s] n unfolding p ext_def by simp
qed

text \<open>A formula may begin with one equals sign and end in blanks.\<close>

lemma grammar_formula:
  assumes "ex_text 1 s x" "blanks b"
  shows "parse_formula (CHR ''='' # s @ b) = Some \<lparr>xp_ast = Some x, xp_ok = True, xp_err = []\<rparr>"
    and "parse_formula (s @ b) = Some \<lparr>xp_ast = Some x, xp_ok = True, xp_err = []\<rparr>"
proof -
  have l: "lex_next b = (Tok TEnd [], [])" using lex_blanks[OF assms(2), of "[]"] by (simp add: lex_next_def lex_skip_def)
  have "follow b" using follow_blanks[OF assms(2), of "[]"] by (simp add: follow_def lex_skip_def)
  then have a: "after 1 b" "gives_loop 1 x b x b" by (simp_all add: after_def is_op_def next_prec_def l loop_stop)
  then have "gives_expr 1 (s @ b) x b" using grammar_parsed(4)[OF assms(1)] by blast
  from gives_enough[OF this] have e: "parse_expr (expr_fuel (s @ b)) 1 (pst_at (s @ b)) = XOk x (pst_at b)" .
  have p: "p_adv \<lparr>p_cur = Tok TEnd [], p_rest = s @ b, p_ok = True, p_err = []\<rparr> = pst_at (s @ b)"
    by (simp add: p_adv_def pst_at_def split: prod.split)
  have o': "opens (s @ b)" using texts_open(4)[OF assms(1)] opens_append by blast
  then have "formula_body (CHR ''='' # s @ b) = s @ b" "formula_body (s @ b) = s @ b" "s @ b \<noteq> []"
    by (cases "s @ b"; simp add: formula_body_def starts_def opens_def)+
  then show "parse_formula (CHR ''='' # s @ b) = Some \<lparr>xp_ast = Some x, xp_ok = True, xp_err = []\<rparr>"
    "parse_formula (s @ b) = Some \<lparr>xp_ast = Some x, xp_ok = True, xp_err = []\<rparr>"
    unfolding parse_formula_def Let_def p by (simp_all add: p e[simplified] l)
qed

text \<open>C40. The parser of formulas reads every text of the grammar as the tree the grammar gives it, with no error:
  numbers, as strtod reads them, strings, names, cells and ranges with their rows, columns (both within an int), dollar
  signs and sheets, parentheses, calls with their name in upper case, signs and percent signs, and the operators with
  their five levels, left associative but for the power, which groups to the right; with or without the equals sign in
  front, and with blanks around the parts. The end of a range loses its dollar signs.\<close>

theorem formula_grammar_parsed:
  assumes "ex_text 1 s x" "blanks b"
  shows "parse_formula (CHR ''='' # s @ b) = Some \<lparr>xp_ast = Some x, xp_ok = True, xp_err = []\<rparr>
    \<and> parse_formula (s @ b) = Some \<lparr>xp_ast = Some x, xp_ok = True, xp_err = []\<rparr>"
  using grammar_formula[OF assms] by blast

lemma grammar_cells: "cell_text ''A1'' \<lparr>r_sheet = 0, r_row = 0, r_col = 0, abs_row = False, abs_col = False\<rparr>"
  "cell_text ''$b$12'' \<lparr>r_sheet = 0, r_row = 11, r_col = 1, abs_row = True, abs_col = True\<rparr>"
proof -
  show "cell_text ''A1'' \<lparr>r_sheet = 0, r_row = 0, r_col = 0, abs_row = False, abs_col = False\<rparr>" unfolding cell_text_def
    by (rule exI[of _ False], rule exI[of _ "''A''"], rule exI[of _ False], rule exI[of _ "''1''"]) code_simp
  show "cell_text ''$b$12'' \<lparr>r_sheet = 0, r_row = 11, r_col = 1, abs_row = True, abs_col = True\<rparr>" unfolding cell_text_def
    by (rule exI[of _ True], rule exI[of _ "''b''"], rule exI[of _ True], rule exI[of _ "''12''"]) code_simp
qed

lemma grammar_operands: "ex_text n ''A1'' (XCell [] \<lparr>r_sheet = 0, r_row = 0, r_col = 0, abs_row = False, abs_col = False\<rparr>)"
  "ex_text n ''$b$12'' (XCell [] \<lparr>r_sheet = 0, r_row = 11, r_col = 1, abs_row = True, abs_col = True\<rparr>)"
  "ex_text n ''rate'' (XName ''rate'')"
proof -
  have "cell_shape w \<Longrightarrow> is_digit (last w)" for w by (auto simp: cell_shape_def list_all_iff)
  from this[of "''rate''"] have "\<not> cell_shape ''rate''" by (auto simp: is_digit_def)
  moreover have "word_text ''rate''" by code_simp
  ultimately show "ex_text n ''rate'' (XName ''rate'')" by (blast intro: pt_name po_prim un_post ex_un)
qed (rule ex_un, rule un_post, rule po_prim, rule pt_ref, unfold cell_or_range_def, blast intro: grammar_cells)+

text \<open>A product under a sum, and a power under the product.\<close>

lemma formula_grammar_parsed_witness:
  "\<exists>a c. parse_formula ''=A1+$b$12*rate^A1 '' = Some \<lparr>xp_ast = Some (XBin ''+'' a (XBin ''*'' c (XBin ''^'' (XName ''rate'') a))), xp_ok = True, xp_err = []\<rparr>
     \<and> a = XCell [] \<lparr>r_sheet = 0, r_row = 0, r_col = 0, abs_row = False, abs_col = False\<rparr>
     \<and> c = XCell [] \<lparr>r_sheet = 0, r_row = 11, r_col = 1, abs_row = True, abs_col = True\<rparr>"
proof -
  define a where "a = XCell [] \<lparr>r_sheet = 0, r_row = 0, r_col = 0, abs_row = False, abs_col = False\<rparr>"
  define c where "c = XCell [] \<lparr>r_sheet = 0, r_row = 11, r_col = 1, abs_row = True, abs_col = True\<rparr>"
  have o': "opr 3 ''+''" "opr 4 ''*''" and b: "blanks []" "blanks '' ''" by (simp_all add: opr_def blanks_alt is_blank_def)
  note op' = grammar_operands[folded a_def c_def]
  have "ex_text 5 ''rate^A1'' (XBin ''^'' (XName ''rate'') a)" using ex_pow[OF op'(3) op'(1) order_refl b(1)] by simp
  then have "ex_text 4 ''$b$12*rate^A1'' (XBin ''*'' c (XBin ''^'' (XName ''rate'') a))"
    using ex_left[OF op'(2) _ o'(2) _ order_refl b(1), of "''rate^A1''"] by simp
  then have "ex_text 1 ''A1+$b$12*rate^A1'' (XBin ''+'' a (XBin ''*'' c (XBin ''^'' (XName ''rate'') a)))"
    using ex_left[OF op'(1) _ o'(1) _ _ b(1), of "''$b$12*rate^A1''" _ 1] by simp
  from formula_grammar_parsed[OF this b(2)] show ?thesis unfolding a_def c_def by simp
qed

end
