(* ===== verification/Spec2Isabelle.thy ===== *)
theory Spec2Isabelle
  imports Fve_Engine Fve_Sivia Fve_Criticality Fve_Libm Fve_Sheets Fve_Formats Fve_Platform Fve_Synth Fve_Pgwire Fve_Glue Fve_Pipeline Fve_Dim Fve_Station Fve_Control Fve_Grammar
begin

text \<open>
  FVE, the formula verification engine: a program in C++ that reads an engineering workbook, turns the formula of a
  cell into an expression graph, encloses its value over the tolerances of the inputs and answers SAFE, FAIL or
  ABSTAIN with a certificate; around it stand a document store with an audit log, a case base, a cache, a catalog of
  files, and a service that answers the events of a production line. This development models the program as it is
  written (paths are those under src/) and proves what makes its parts correct, and what does not hold of them.

  How the parts interact. A file is found by the walk (l0), read as an archive (extractor/zip) of XML or binary parts
  (extractor/xml, xlsx, xlsb) into a workbook (model/workbook). Its formulas are parsed (extractor/formula), evaluated
  by the oracle (oracle), whose interventions show which cell depends on which, and joined to a graph (model/sdg),
  whose ends are the cells to verify (extractor/pipeline). Lowering (model/lower) makes a cell an expression graph
  (core/ast); the engine (core/engine) evaluates it to an interval with a residual (core/enclosure, over core/interval,
  core/affine and core/holes), decides (core/verifier), writes a certificate (core/proof) and appends it to a hash
  chain (core/merkle). The service (platform/service) rates the result (core/criticality), looks for a similar case
  (casebase), and leaves documents in the store (db/store) and entries in the audit log (audit).

  The theories and the code they model.
  Shared material. Fve_Prelude: the ordered maps that stand for std::map, with the interface keyed_store, and the
  narrowing of integers. Fve_Order: sorting by a comparison. Fve_Double: binary64 with NaN, infinities, both zeros and
  the rounding modes, exactly over the reals; the C library functions are the record libm. Fve_Text: the number texts
  of printf and stod. Fve_Json: core/ast/json. Fve_Types: core/types.
  The core. Fve_Sha256 and Fve_Merkle: core/merkle; Fve_Interval: core/interval; Fve_Affine: core/affine; Fve_Ast:
  core/ast/ast; Fve_Holes: core/holes; Fve_Enclosure: core/enclosure; Fve_Verifier: core/verifier; Fve_Proof:
  core/proof; Fve_Engine: core/engine; Fve_Sivia: core/sivia; Fve_Criticality: core/criticality; Fve_Libm: a library
  that meets the specification, for the witnesses.
  Workbooks. Fve_Workbook: model/workbook; Fve_Formula: extractor/formula; Fve_Grammar: the language it reads;
  Fve_Lower: model/lower; Fve_LowerSound: the real meaning of a workbook and the proof that lowering implements it;
  Fve_Oracle: oracle; Fve_Sdg: model/sdg; Fve_Dim: model/dim; Fve_Sheets: properties of this group.
  Files. Fve_Zip and Fve_Archive: extractor/zip; Fve_Xml: extractor/xml; Fve_Xlsx and Fve_Xlsb: the readers of the two
  workbook formats; Fve_Pipeline: extractor/pipeline; Fve_Formats: properties of this group.
  Platform. Fve_Store: db/store, with the interfaces doc_store, doc_log and doc_db; Fve_Records: registry, audit and
  platform/identity; Fve_Cases: casebase; Fve_Cache: platform/incremental; Fve_Graph: platform/artifact_graph;
  Fve_Diff: audit/diff; Fve_Files and Fve_Catalog: l0; Fve_Synth: wrapper/synth; Fve_Wire: api/protobuf and api/grpc;
  Fve_Pgwire: db/pgwire and db/sqlstore; Fve_Glue: semantic/glue; Fve_Platform: properties of this group.
  Service. Fve_Service: the users, signatures, change control and production events of platform/service and
  platform/event; Fve_Station: what a light at a station means; Fve_Control: the states the service reaches.
  This theory holds the properties of the core.

  How state and operations correspond. A struct or class is a record with the code's fields, an enumeration a datatype,
  a std::map an ordered association list, a set of the code a set, a pointer to JSON a value with a null constructor.
  An operation takes the object and returns it updated beside its result. An exception, an overflow that is undefined,
  and a read outside of a buffer end in a value of their own (None, XThrow, ZUB), so the theorems are about runs
  without them unless they say otherwise. Bytes are 8-bit words, characters HOL characters, and sizes that wrap in the
  code are words or numbers with the wrap written out; the entries of the matrices in Fve_Dim are unbounded integers,
  since their overflow is undefined in the code.

  What the groups of lemmas show. Fve_Double, Fve_Interval and Fve_Enclosure: every rounded operation lies on its side
  of the real result, every interval operation contains the real results where a stated condition holds (op_rig), and
  so the evaluation encloses every value a graph denotes. Fve_LowerSound: a graph lowered without a hole denotes each
  real value of its cell. With the decision this gives the verdict of the pipeline and the light at a station. Fve_Ast,
  Fve_Json, Fve_Proof, Fve_Xml, Fve_Archive, Fve_Wire, Fve_Xlsx and Fve_Xlsb: what is printed or encoded is read back.
  Fve_Grammar: the parser reads each text of a grammar as its tree. Fve_Merkle, Fve_Ast and Fve_Proof: equal hashes
  mean equal contents or a collision of the hash function. Fve_Zip: the ring buffer of the inflater against the whole
  history. Fve_Cache: the cache against a list in the order of use. Fve_Dim: the Smith normal form and the inference
  over it. Fve_Store and Fve_Records: what a write leaves alone, and the audit log in step with its chain. Fve_Control:
  the invariant of the states the service reaches.

  Bounds and fuel. The JSON parser runs with 2 n + 1 steps for a text of n characters, the XML parser with 2 n + 3, the
  formula parser with 6 n + 11, the lowering with a bound over the formulas of the workbook; each is proved to be
  enough. The inflater takes its fuel as an argument, because it does not return on every stream
  (truncated_stream_hangs); the theorems about it hold for all larger fuel. The loops of the Smith form and of the
  database client are option-valued recursions whose None is not returning; that the first returns is proved. The
  loop of the set inversion has the code's own limit of iterations. All other recursions end by a measure.

  Taken as arguments, with what is assumed of them as a hypothesis: the mathematical library (libm_ok: exponential and
  logarithm are within a rounding of the real functions; witnesses use the library of Fve_Libm), the files of the
  system, the chunks a transport delivers, random bytes and the clock. The theorems about real values also assume that
  the evaluation is rigorous (prog_rigorous): the operands of products, quotients and powers are finite, an exponent is
  one integer, exponentials and logarithms do not overflow, and trigonometric functions are bounded by their whole
  range. Without it the claims fail, since the code loses infinities and NaN in some corners; the manifest lists these
  among its findings. Round trips of JSON assume numbers that are zero or normal doubles.

  Not modelled: sockets, threads and locks (api/http, the endless loop of the watcher), the recognition of formulas in
  images (extractor/ocr), the reports and dashboards of the service, bundles, coverage counters, backup, logging, the
  command line tools, the database schema, the user interface and the deployment. They compose modelled parts into
  documents or only do input and output.
\<close>

section \<open>The verdict\<close>

text \<open>A small program for the witnesses: \<open>x - 1\<close> with \<open>x\<close> in \<open>[3, 4]\<close>.\<close>

definition demo_prog :: prog where
  "demo_prog = \<lparr>p_root = oper Sub [var ''x'' dim_none entire, konst (Fin 1) dim_none],
     p_box = [(''x'', Ival (Fin 3) (Fin 4))], p_holes = hole_empty, p_ks = Fin 0\<rparr>"

lemma demo_value: "prog_value demo_prog (\<lambda>_. 7 / 2) H (5 / 2)"
proof -
  have x: "denotes (\<lambda>_. 7 / 2) H (var ''x'' dim_none entire) (7 / 2)"
    using den_var[of "var ''x'' dim_none entire" "\<lambda>_. 7 / 2" H] by simp
  have k: "denotes (\<lambda>_. 7 / 2) H (konst (Fin 1) dim_none) 1"
    using den_const[of "konst (Fin 1) dim_none"] by simp
  have "denotes (\<lambda>_. 7 / 2) H (p_root demo_prog) (5 / 2)"
    by (rule den_oper[of _ _ _ "[7 / 2, 1]"]) (simp_all add: demo_prog_def x k)
  then show ?thesis
    by (simp add: prog_value_def demo_prog_def constructor_defs finish_Node imem_def)
qed

lemma demo_eval: "\<exists>tr. eval L demo_prog = Some \<lparr>ms = Ival (Fin 2) (Fin 3), residual = Fin 0, r_trace = tr\<rparr>"
  by (simp add: eval_def demo_prog_def rec.simps[of _ _ _ "oper _ _"] rec.simps[of _ _ _ "konst _ _"]
      rec.simps[of _ _ _ "var _ _ _"] var_ival_def push_trace_def sub_def point_def is_empty_def fsub_def)

lemma demo_rigorous: "prog_rigorous L demo_prog"
  by (simp add: prog_rigorous_def demo_prog_def constructor_defs finish_Node encls_of_def
      rec.simps[of _ _ _ "Node _ _ _ _ _ _ _ _ _ _ _ _ _"] push_trace_def)

lemma demo_run:
  "\<exists>r c. run L demo_prog chain_new m = Some (r, c) \<and> rr_verdict r = Safe \<and> residual (rr_eval r) = Fin 0"
proof -
  obtain tr where e: "eval L demo_prog = Some \<lparr>ms = Ival (Fin 2) (Fin 3), residual = Fin 0, r_trace = tr\<rparr>"
    using demo_eval by blast
  show ?thesis by (simp add: run_def e Let_def decide_eval_def decide_def is_empty_def is_entire_def fsub_def)
qed

text \<open>C2. A verdict of a run is sound: where the evaluation is rigorous, every quantity within the residual of a
  value the program denotes is positive under SAFE and negative under FAIL.\<close>

theorem run_verdict_sound:
  assumes "libm_ok L" "prog_rigorous L p" "prog_value p \<rho> H y" "run L p chain m = Some (r, chain')"
    and "\<bar>t - y\<bar> \<le> fval (residual (rr_eval r))"
  shows "(rr_verdict r = Safe \<longrightarrow> 0 < t) \<and> (rr_verdict r = Fail \<longrightarrow> t < 0)"
  using run_sound[OF assms] by blast

theorem run_verdict_sound_witness:
  "\<exists>r c. run ideal_libm demo_prog chain_new ''interval'' = Some (r, c) \<and> rr_verdict r = Safe \<and> 0 < (5 / 2 :: real)"
proof -
  obtain r c where r: "run ideal_libm demo_prog chain_new ''interval'' = Some (r, c)" "rr_verdict r = Safe"
    "residual (rr_eval r) = Fin 0" using demo_run by blast
  have "\<bar>5 / 2 - 5 / 2\<bar> \<le> fval (residual (rr_eval r))" by (simp add: r(3))
  from run_verdict_sound[OF ideal_libm_ok demo_rigorous demo_value r(1) this]
  show ?thesis using r(1,2) by blast
qed


text \<open>C8. The enclosure computed for a program contains every value the program denotes, for an input in the box
  and functions of the holes that the hole table encloses. The mathematical library meets its specification and the
  evaluation is rigorous: the operands of products, quotients and powers are finite, an exponent is one integer below
  10^9 whose power stays finite, an exponential or a logarithm does not overflow, a sine, cosine or tangent is bounded
  only by its whole range, and no candidate of a disjunction has a NaN as an end.\<close>

theorem eval_encloses_value:
  assumes "libm_ok L" "prog_rigorous L p" "prog_value p \<rho> H y" "eval L p = Some r"
  shows "imem y (ms r)"
  using eval_encloses[OF assms] .

theorem eval_encloses_value_witness: "\<exists>r. eval ideal_libm demo_prog = Some r \<and> imem (5 / 2) (ms r)"
proof -
  obtain r where "eval ideal_libm demo_prog = Some r" using demo_eval by blast
  from this eval_encloses_value[OF ideal_libm_ok demo_rigorous demo_value this] show ?thesis by blast
qed

text \<open>C9. The decision fails closed: an end that is infinite or not a number, and a residual that is negative,
  infinite or not a number, give ABSTAIN.\<close>

theorem decide_fail_closed:
  assumes "l = NaN \<or> h = NaN \<or> is_inf l \<or> is_inf h \<or> r = NaN \<or> r = PInf \<or> flt r (Fin 0)"
  shows "decide l h r = Abstain"
proof (rule ccontr)
  assume "decide l h r \<noteq> Abstain"
  then consider "decide l h r = Safe" | "decide l h r = Fail" by (cases "decide l h r") auto
  then have "is_fin l \<and> is_fin h \<and> is_fin r \<and> 0 \<le> fval r"
    by cases (simp_all add: decide_safe decide_fail)
  then show False using assms by (auto simp: finite_iff flt_fin)
qed

theorem decide_fail_closed_witness: "decide (Fin 1) (Fin 2) (Fin (- 1)) = Abstain"
  by (rule decide_fail_closed) simp

definition demo_cert :: certificate where
  "demo_cert = self_hashed \<lparr>program_hash = zero_digest, ms_lo = Fin 2, ms_hi = Fin 3, c_residual = Fin 0, c_ks = Fin 0,
      c_method = ''interval'', c_regime = CHR ''A'', c_verdict = Safe, conditions = [], c_digest = zero_digest\<rparr>"

lemma representable_two_three: "representable 2" "representable 3"
  unfolding representable_def by (rule exI[of _ 2], rule exI[of _ 0], simp) (rule exI[of _ 3], rule exI[of _ 0], simp)

text \<open>C10. Reading back the text of a certificate gives the certificate, when it carries the digest computed
  from its content, its program hash has 32 bytes and its four numbers are zero or normal doubles: not infinite, NaN,
  negative zero or subnormal, whose texts the reader does not give back.\<close>

theorem cert_text_round_trip:
  "cert_ok c \<Longrightarrow> map_option cert_from_json (parse (cert_dump c)) = Some c"
  by (rule cert_round_trip)


lemma cert_ok_demo: "cert_ok demo_cert"
proof -
  have "(2::real) powi - 1022 < 2 powi 0" by (rule power_int_strict_increasing) simp_all
  then show ?thesis
    by (simp add: cert_ok_def demo_cert_def self_hashed_sel representable_two_three)
      (simp add: self_hashed_def zero_digest_def)
qed

theorem cert_text_round_trip_witness: "map_option cert_from_json (parse (cert_dump demo_cert)) = Some demo_cert"
  by (rule cert_text_round_trip[OF cert_ok_demo])

text \<open>C11. A digest binds its certificate: two different certificates have different digests, or their texts are
  two different strings with one hash. The certificates carry the digest computed from their content, their program
  hashes have 32 bytes, and their four numbers are zero or normal doubles: not infinite, NaN, negative zero or
  subnormal, whose texts the reader does not give back.\<close>

theorem cert_digest_binding:
  assumes "cert_ok c" "cert_ok d" "c \<noteq> d"
  shows "distinct [c_digest c, c_digest d] \<or> (bytes_of (dump (cert_json c)) \<noteq> bytes_of (dump (cert_json d))
    \<and> sha256 (bytes_of (dump (cert_json c))) = sha256 (bytes_of (dump (cert_json d))))"
  using cert_digest_binds[OF assms(1,2) _ assms(3)] by simp

text \<open>A certificate of the opposite verdict, on the enclosure from -3 to -2.\<close>

definition demo_fail_cert :: certificate where
  "demo_fail_cert = self_hashed \<lparr>program_hash = zero_digest, ms_lo = Fin (- 3), ms_hi = Fin (- 2), c_residual = Fin 0, c_ks = Fin 0,
      c_method = ''interval'', c_regime = CHR ''A'', c_verdict = Fail, conditions = [], c_digest = zero_digest\<rparr>"

lemma cert_ok_fail: "cert_ok demo_fail_cert" "demo_cert \<noteq> demo_fail_cert"
proof -
  have "(2::real) powi - 1022 < 2 powi 0" by (rule power_int_strict_increasing) simp_all
  moreover have "representable (- 2)" "representable (- 3)"
    using representable_two_three representable_uminus[of "- 2"] representable_uminus[of "- 3"] by simp_all
  ultimately show "cert_ok demo_fail_cert"
    by (simp add: cert_ok_def demo_fail_cert_def self_hashed_sel)
      (simp add: self_hashed_def zero_digest_def)
  have "c_verdict demo_cert \<noteq> c_verdict demo_fail_cert" by (simp add: demo_cert_def demo_fail_cert_def self_hashed_sel)
  then show "demo_cert \<noteq> demo_fail_cert" by metis
qed

theorem cert_digest_binding_witness:
  "distinct [c_digest demo_cert, c_digest demo_fail_cert] \<or> (bytes_of (dump (cert_json demo_cert)) \<noteq> bytes_of (dump (cert_json demo_fail_cert))
    \<and> sha256 (bytes_of (dump (cert_json demo_cert))) = sha256 (bytes_of (dump (cert_json demo_fail_cert))))"
  by (rule cert_digest_binding[OF cert_ok_demo cert_ok_fail])

text \<open>C12. A finite certificate that validates has the margin its verdict claims, in real numbers.\<close>

theorem validate_real_margin:
  assumes "validate c" "is_fin (ms_lo c)" "is_fin (ms_hi c)" "is_fin (c_residual c)"
  shows "c_digest c = cert_hash c \<and> 0 \<le> fval (c_residual c) \<and> fval (ms_lo c) \<le> fval (ms_hi c)
    \<and> (c_verdict c = Safe \<longrightarrow> fval (c_residual c) < fval (ms_lo c))
    \<and> (c_verdict c = Fail \<longrightarrow> fval (ms_hi c) < - fval (c_residual c))"
  using validate_margin[OF assms] by blast

lemma validate_demo: "validate demo_cert"
  by (simp add: validate_def demo_cert_def self_hashed_sel fsub_def Let_def)

theorem validate_real_margin_witness: "fval (c_residual demo_cert) < fval (ms_lo demo_cert)"
  using validate_real_margin[OF validate_demo] by (simp add: demo_cert_def self_hashed_sel)


text \<open>The program of the witnesses with a wider box, and the fix that narrows it back.\<close>

lemma demo_patched:
  "patched (demo_prog\<lparr>p_box := [(''x'', Ival (Fin 0) (Fin 4))]\<rparr>) (cm_fix (demo_match\<lparr>cm_fix := \<lparr>fx_id = ''f'', fx_text = [],
      fx_patch = [(''x'', Ival (Fin 3) (Fin 4))]\<rparr>\<rparr>)) = demo_prog"
  by (simp add: patched_def demo_prog_def)


text \<open>Every certificate built for a decided result validates.\<close>

theorem built_certificate_validates:
  assumes "decide_eval r \<noteq> Abstain"
  shows "validate (build_cert p r m)"
  by (rule validate_build[OF assms])

theorem built_certificate_validates_witness:
  "validate (build_cert demo_prog \<lparr>ms = Ival (Fin 2) (Fin 3), residual = Fin 0, r_trace = []\<rparr> ''interval'')"
  by (rule built_certificate_validates) (simp add: decide_eval_def decide_def is_empty_def is_entire_def fsub_def Let_def)

text \<open>A session of runs appends exactly the hashes of its certificates to the audit chain, in order,
  and leaves a chain that verifies.\<close>

theorem session_audit_log:
  assumes "run_all L ps chain_new = Some (rs, chain)"
  shows "map payload (entries chain) = map (\<lambda>r. leaf_hash (bytes_of (cert_dump (rr_cert r)))) rs \<and> chain_verify chain"
  using run_all_log[OF assms] by (simp add: chain_verify_new) (simp add: chain_new_def)

theorem session_audit_log_witness:
  "\<exists>r c. run_all ideal_libm [(demo_prog, ''interval'')] chain_new = Some ([r], c) \<and> length (entries c) = 1 \<and> chain_verify c"
proof -
  obtain r c where "run ideal_libm demo_prog chain_new ''interval'' = Some (r, c)" using demo_run by blast
  then have a: "run_all ideal_libm [(demo_prog, ''interval'')] chain_new = Some ([r], c)" by simp
  from session_audit_log[OF a] have "chain_verify c" "length (map payload (entries c)) = 1" by simp_all
  then show ?thesis using a by auto
qed

text \<open>C16. The paving loses no point: a point of the initial box, no variable of which ranges over the whole
  line, is in a kept box, in an undecided one, or in a box that the paving dropped, because its whole enclosure was
  below zero. Every value the program has at a point of a dropped box is negative, where the library meets its
  specification, the evaluation over that box is rigorous and its residual is not negative.\<close>

theorem sivia_covers_box:
  assumes "sivia L p b cfg = Some r" "in_box \<rho> b" "box_splittable b"
  shows "(\<exists>x\<in>set (sr_safe r @ sr_unknown r). in_box \<rho> x)
    \<or> (\<exists>x\<in>set (sivia_dropped L p b cfg). in_box \<rho> x \<and> failed L p x
        \<and> (\<forall>H y e. libm_ok L \<and> prog_rigorous L (p\<lparr>p_box := x\<rparr>) \<and> prog_value (p\<lparr>p_box := x\<rparr>) \<rho> H y
              \<and> eval L (p\<lparr>p_box := x\<rparr>) = Some e \<and> fle (Fin 0) (residual e) \<longrightarrow> y < 0))"
proof -
  have neg: "y < 0" if "libm_ok L" "prog_rigorous L (p\<lparr>p_box := x\<rparr>)" "prog_value (p\<lparr>p_box := x\<rparr>) \<rho> H y"
      "eval L (p\<lparr>p_box := x\<rparr>) = Some e" "fle (Fin 0) (residual e)" "failed L p x" for x H y e
    using failed_sound[OF eval_encloses[OF that(1-4)] that(5)] that(4,6) by (simp add: failed_def)
  have "list_all (failed L p) (sivia_dropped L p b cfg)" unfolding sivia_dropped_def by (rule dropped_failed)
  then show ?thesis using sivia_covers[OF assms] neg by (fastforce simp: covered_def list_all_iff)
qed

definition demo_cfg :: sivia_config where
  "demo_cfg = \<lparr>epsilon = Fin (1 / 2), max_iterations = 2\<rparr>"

lemma demo_sivia: "\<exists>r. sivia L demo_prog (p_box demo_prog) demo_cfg = Some r \<and> sr_safe r = [p_box demo_prog] \<and> sr_unknown r = []"
proof -
  obtain tr where e: "eval L demo_prog = Some \<lparr>ms = Ival (Fin 2) (Fin 3), residual = Fin 0, r_trace = tr\<rparr>"
    using demo_eval by blast
  have b: "demo_prog\<lparr>p_box := p_box demo_prog\<rparr> = demo_prog" by simp
  show ?thesis
    by (simp add: sivia_def demo_cfg_def numeral_2_eq_2 sivia_step_def b e classify_box_def fsub_def Let_def)
qed

theorem sivia_covers_box_witness:
  "\<exists>r. sivia ideal_libm demo_prog (p_box demo_prog) demo_cfg = Some r
     \<and> (list_ex (in_box (\<lambda>_. 7 / 2)) (sr_safe r @ sr_unknown r)
         \<or> list_ex (in_box (\<lambda>_. 7 / 2)) (sivia_dropped ideal_libm demo_prog (p_box demo_prog) demo_cfg))"
proof -
  obtain r where r: "sivia ideal_libm demo_prog (p_box demo_prog) demo_cfg = Some r" using demo_sivia by blast
  have "in_box (\<lambda>_. 7 / 2) (p_box demo_prog)" "box_splittable (p_box demo_prog)"
    by (auto simp: in_box_def box_splittable_def splittable_def demo_prog_def imem_def)
  from sivia_covers_box[OF r this] show ?thesis using r unfolding list_ex_iff by blast
qed

text \<open>In a kept box with a non-negative residual every value the program denotes is positive.\<close>

theorem sivia_kept_positive:
  assumes "libm_ok L" "sivia L p b cfg = Some r" "x \<in> set (sr_safe r)"
    and "prog_rigorous L (p\<lparr>p_box := x\<rparr>)" "prog_value (p\<lparr>p_box := x\<rparr>) \<rho> H y"
    and "eval L (p\<lparr>p_box := x\<rparr>) = Some e" "fle (Fin 0) (residual e)"
  shows "0 < y"
proof -
  have "accepted L p x" using sivia_accepted[OF assms(2)] assms(3) by (simp add: list_all_iff)
  then have "flt (Fin 0) (fsub RNear (lo (ms e)) (residual e))" by (simp add: accepted_def assms(6))
  with accepted_sound eval_encloses[OF assms(1,4,5,6)] assms(7) show ?thesis by blast
qed

theorem sivia_kept_positive_witness: "0 < (5 / 2 :: real)"
proof -
  obtain r where r: "sivia ideal_libm demo_prog (p_box demo_prog) demo_cfg = Some r" "sr_safe r = [p_box demo_prog]"
    using demo_sivia by blast
  obtain tr where e: "eval ideal_libm demo_prog = Some \<lparr>ms = Ival (Fin 2) (Fin 3), residual = Fin 0, r_trace = tr\<rparr>"
    using demo_eval by blast
  have e': "eval ideal_libm (demo_prog\<lparr>p_box := p_box demo_prog\<rparr>) = Some \<lparr>ms = Ival (Fin 2) (Fin 3), residual = Fin 0, r_trace = tr\<rparr>"
    by (simp add: e)
  show ?thesis
    by (rule sivia_kept_positive[OF ideal_libm_ok r(1) _ _ _ e'])
      (use demo_value in \<open>simp_all add: r(2) demo_rigorous fle_def\<close>)
qed


section \<open>Integrity\<close>

text \<open>C17. The inclusion proof of a leaf verifies against the root of the tree built over the leaves.\<close>

theorem merkle_proof_verifies:
  assumes "i < length leaves"
  shows "merkle_verify (leaves ! i) (merkle_proof (merkle_build leaves) i) (m_root (merkle_build leaves))"
  using proof_path_levels[OF assms] assms
  by (auto simp: merkle_verify_def merkle_proof_def merkle_build_def Let_def)

theorem merkle_proof_verifies_witness:
  "merkle_verify genesis (merkle_proof (merkle_build [zero_digest, genesis, zero_digest]) 1)
     (m_root (merkle_build [zero_digest, genesis, zero_digest]))"
  using merkle_proof_verifies[of 1 "[zero_digest, genesis, zero_digest]"] by simp

text \<open>A root binds its leaves: a digest that verifies at the position of another leaf is that leaf, or
  the two paths expose two different strings with one hash.\<close>

theorem merkle_root_binds:
  assumes "merkle_verify a p rt" "merkle_verify b q rt" "map right p = map right q"
    and "list_all (\<lambda>s. length (sib s) = 32) (p @ q)" "length a = 32" "length b = 32"
  shows "a = b \<or> (\<exists>x y. path_collision a p b q = Some (x, y) \<and> x \<noteq> y \<and> sha256 x = sha256 y)"
proof (cases "a = b")
  case False
  have "path_collision a p b q \<noteq> None"
    by (rule path_collision_found) (use assms False in \<open>simp_all add: merkle_verify_def\<close>)
  then obtain x y where "path_collision a p b q = Some (x, y)" by auto
  then show ?thesis using path_collision_sound by blast
qed simp

theorem merkle_root_binds_witness:
  "zero_digest = zero_digest \<or> (\<exists>x y. path_collision zero_digest [\<lparr>sib = zero_digest, right = True\<rparr>] zero_digest
     [\<lparr>sib = zero_digest, right = True\<rparr>] = Some (x, y) \<and> x \<noteq> y \<and> sha256 x = sha256 y)"
  by (rule merkle_root_binds[of _ _ "node_hash zero_digest zero_digest"])
    (simp_all add: merkle_verify_def step_hash_def zero_digest_def)

text \<open>C36. The audit chain is tamper evident: two chains that verify with the same head and length are equal, or
  they contain two different strings with one hash.\<close>

theorem audit_chain_tamper_evident:
  assumes "chain_verify c" "chain_verify d" "head c = head d" "length (entries c) = length (entries d)"
    and "list_all entry_wf (entries c @ entries d)"
  shows "c = d \<or> (\<exists>x y. chain_collision (rev (entries c)) (rev (entries d)) = Some (x, y) \<and> x \<noteq> y \<and> sha256 x = sha256 y)"
  by (rule chain_binds[OF assms])

definition demo_chain :: audit_chain where
  "demo_chain = chain_append zero_digest chain_new"

theorem audit_chain_tamper_evident_witness:
  "demo_chain = demo_chain \<or> (\<exists>x y. chain_collision (rev (entries demo_chain)) (rev (entries demo_chain)) = Some (x, y)
     \<and> x \<noteq> y \<and> sha256 x = sha256 y)"
proof (rule audit_chain_tamper_evident)
  have g: "length genesis = 32" by (simp add: genesis_def)
  show "list_all entry_wf (entries demo_chain @ entries demo_chain)"
    using entry_wf_append[of zero_digest chain_new] g
    by (simp add: demo_chain_def) (simp add: chain_new_def zero_digest_def)
qed (simp_all add: demo_chain_def chain_verify_append chain_verify_new)

text \<open>Appending any payloads to a new chain gives a chain that verifies and holds exactly them.\<close>

theorem audit_chain_replay:
  "chain_verify (fold chain_append ps chain_new) \<and> map payload (entries (fold chain_append ps chain_new)) = ps"
  by (rule ac.rebuild)

text \<open>Hashing a file by chunks, whatever their sizes, gives the digest of the whole content.\<close>

theorem file_digest_is_content_digest: "sha256_file chunks = sha256 (concat chunks)"
  by (rule sha256_file_stream)

text \<open>A digest survives printing in hexadecimal and reading back.\<close>

theorem hex_round_trip:
  assumes "length d = 32"
  shows "from_hex (hex d) = d \<and> length (hex d) = 64"
  using from_hex_hex[OF assms] length_hex[of d] assms by simp

theorem hex_round_trip_witness: "from_hex (hex zero_digest) = zero_digest"
  using hex_round_trip[of zero_digest] by (simp add: zero_digest_def)

section \<open>Text forms\<close>

text \<open>C37. Parsing the text printed for a JSON value gives the value back, when every number in it is zero or a
  normal double (not infinite, NaN, negative zero or subnormal) and the keys of every object are distinct and in the
  order of a std::map.\<close>

theorem json_round_trip: "json_plain j \<Longrightarrow> parse (dump j) = Some j"
  by (rule parse_dump)

theorem json_round_trip_witness:
  "parse (dump (JObj [(''a'', JArr [JNull, JBool True]), (''b'', JStr ''x'')])) = Some (JObj [(''a'', JArr [JNull, JBool True]), (''b'', JStr ''x'')])"
  by (rule json_round_trip) (simp add: mwf_def)

text \<open>The parser returns on every text: the fuel of twice its length and one is never used up, and
  a larger one gives the same result.\<close>

theorem parser_terminates:
  "pvalue (2 * length s + 1) s \<noteq> PFuel \<and> pvalue (2 * length s + 1 + n) s = pvalue (2 * length s + 1) s"
  using parse_not_fuel[of s] fuel_mono(1)[OF parse_not_fuel, of s "2 * length s + 1 + n"] by simp

text \<open>A number printed by the engine reads back as the same double.\<close>

theorem number_round_trip: "num_normal v \<Longrightarrow> stod (num_out v) = Some v"
  using num_out_normal by blast

theorem number_round_trip_witness: "stod (num_out (Fin 3)) = Some (Fin 3)"
proof (rule number_round_trip)
  have "(2::real) powi - 1022 < 2 powi 0" by (rule power_int_strict_increasing) simp_all
  then show "num_normal (Fin 3)" by (simp add: representable_two_three)
qed


section \<open>Formulas\<close>

text \<open>C38. A formula survives serialisation: reading the text of a well-formed tree gives the tree, when no node
  carries a dimension, the physical range of a variable or a hole is ordered, the arity of a hole is an int, and the
  numbers printed are zero or normal doubles (so a hole with an infinite range is excluded, which the text does not
  keep).\<close>

theorem formula_round_trip:
  assumes "node_wf n" "json_node n" "json_plain (to_json n)"
  shows "deserialize (serialize n) = Inr n"
  by (rule deserialize_serialize[OF assms])

definition demo_node :: node where
  "demo_node = call ''max'' [var ''x'' dim_none entire, oper Neg [var ''y'' dim_none entire]]"

lemma demo_node_ok: "node_wf demo_node" "json_node demo_node" "json_plain (to_json demo_node)"
proof -
  show "node_wf demo_node" by (simp add: demo_node_def constructors_wf)
  show "json_node demo_node"
    by (simp add: demo_node_def constructor_defs finish_Node entire_def ival_of_def fle_def)
  show "json_plain (to_json demo_node)"
    by (simp add: demo_node_def constructor_defs finish_Node json_plain_mkobj is_entire_def entire_def)
qed

theorem formula_round_trip_witness: "deserialize (serialize demo_node) = Inr demo_node"
  by (rule formula_round_trip[OF demo_node_ok])

text \<open>C39. The hash of a formula addresses its content: two well-formed trees with one hash agree in everything
  but the arities of holes, or two different byte strings of theirs have one hash.\<close>

theorem formula_hash_binding:
  assumes "node_wf a" "node_wf b" "hashable a" "hashable b" "n_hash a = n_hash b"
  shows "no_arity a = no_arity b \<or> (\<exists>x y. hash_clash a b = Some (x, y) \<and> x \<noteq> y \<and> sha256 x = sha256 y)"
proof (cases "hash_clash a b")
  case None
  then show ?thesis using hash_clash_complete[OF assms] by simp
next
  case (Some xy)
  then show ?thesis using hash_clash_sound[of a b] by (cases xy) blast
qed

definition demo_hole :: "int \<Rightarrow> node" where
  "demo_hole ar = hole ''h'' ar entire (CHR ''A'') []"

lemma hashable_demo_hole: "hashable (demo_hole ar)"
  by (simp add: demo_hole_def constructor_defs finish_Node int32_def dim_none_def entire_def list_all_iff)

theorem formula_hash_binding_witness:
  "no_arity (demo_hole 1) = no_arity (demo_hole 2)
     \<or> (\<exists>x y. hash_clash (demo_hole 1) (demo_hole 2) = Some (x, y) \<and> x \<noteq> y \<and> sha256 x = sha256 y)"
  by (rule formula_hash_binding)
    (use hash_arity[of "''h''" 1] in \<open>simp_all add: demo_hole_def constructors_wf hashable_demo_hole[unfolded demo_hole_def]\<close>)

text \<open>The linear form is in evaluation order: a slot refers only to slots before it, and the last slot
  is the root's.\<close>

theorem linear_form_ordered:
  "linearize n \<noteq> [] \<and> hex (s_hash (last (linearize n))) = hex (n_hash n)
   \<and> list_all (\<lambda>i. list_all (\<lambda>j. j < i) (s_args (linearize n ! i) @ s_cands (linearize n ! i))) [0..<length (linearize n)]"
  using linearize_ordered(1)[of _ n] linearize_ordered(2,3)[of n] by (fastforce simp: list_all_iff)

text \<open>Whatever JSON value it is given, the reader of formulas builds only well-formed trees, with the hash
  of every node computed from its content.\<close>

theorem reader_builds_wf:
  assumes "from_json j = Inr n"
  shows "node_wf n \<and> n_hash n = compute_hash n"
  using from_json_wf[OF assms] node_wf_hash by blast

theorem reader_builds_wf_witness: "node_wf demo_node \<and> n_hash demo_node = compute_hash demo_node"
  by (rule reader_builds_wf[OF from_to_json[OF demo_node_ok(1,2)]])

section \<open>Arithmetic\<close>

text \<open>Every operator encloses: the value of the real operator at points of the operands lies in the
  interval computed from the operands, where the operands pass the check of the operator.\<close>

theorem operator_encloses:
  assumes "libm_ok L" "op_rig L o' as" "list_all2 imem xs as" "op_real o' xs = Some y" "apply_op L o' as = Some i"
  shows "imem y i"
  by (rule apply_op_incl[OF assms])

theorem operator_encloses_witness:
  "\<exists>i. apply_op ideal_libm Div [Ival (Fin 1) (Fin 2), Ival (Fin 3) (Fin 4)] = Some i \<and> imem (1 / 2) i"
proof -
  obtain i where i: "apply_op ideal_libm Div [Ival (Fin 1) (Fin 2), Ival (Fin 3) (Fin 4)] = Some i" by simp
  have "imem (2 / 4) i"
    by (rule operator_encloses[OF ideal_libm_ok _ _ _ i, of "[2, 4]"]) (simp_all add: imem_def ifin_def)
  then show ?thesis using i by auto
qed

text \<open>Sums are tight: no double between an end of the computed sum and the real sum of the ends of the
  operands would have been a better end.\<close>

theorem sum_ends_tight:
  assumes "ifin a" "ifin b" "\<not> is_empty a" "\<not> is_empty b" "representable d"
  shows "(d \<le> fval (lo a) + fval (lo b) \<longrightarrow> fle (Fin d) (lo (add a b)))
    \<and> (fval (hi a) + fval (hi b) \<le> d \<longrightarrow> fle (hi (add a b)) (Fin d))"
proof -
  have f: "is_fin (lo a)" "is_fin (lo b)" "is_fin (hi a)" "is_fin (hi b)"
    using assms(1,2) by (simp_all add: ifin_def)
  show ?thesis using fadd_tight[OF f(1,2) assms(5)] fadd_tight[OF f(3,4) assms(5)] assms(3,4) by (simp add: add_def)
qed

theorem sum_ends_tight_witness: "fle (Fin 3) (lo (add (point (Fin 1)) (point (Fin 2))))"
  using sum_ends_tight[of "point (Fin 1)" "point (Fin 2)" 3]
  by (simp add: ifin_def is_empty_def point_def representable_two_three)

text \<open>The affine form of a quantity minus itself is exactly zero: shared noise symbols cancel.\<close>

theorem affine_cancels:
  assumes "aff_wf a" "aff_fin a" "fval (aerr a) = 0"
  shows "imem x (aff_to_ival (aff_sub a a)) \<longleftrightarrow> x = 0"
  by (rule aff_self_difference[OF assms])

definition demo_aff :: aff where
  "demo_aff = \<lparr>ctr = Fin 5, trm = [(0, Fin 2), (1, Fin 3)], aerr = Fin 0\<rparr>"

theorem affine_cancels_witness: "\<not> imem 1 (aff_to_ival (aff_sub demo_aff demo_aff)) \<and> imem 0 (aff_to_ival (aff_sub demo_aff demo_aff))"
proof -
  have "aff_wf demo_aff" "aff_fin demo_aff" "fval (aerr demo_aff) = 0"
    by (simp_all add: demo_aff_def aff_wf_def aff_fin_def mwf_def)
  then show ?thesis using affine_cancels[of demo_aff 1] affine_cancels[of demo_aff 0] by simp
qed

text \<open>The hole table never reports a refuted wrapper nor, where the physical range that applies is not
  empty, an empty enclosure.\<close>

theorem hole_table_guards:
  "\<not> refuted (hole_eval t i fb ins)
   \<and> is_empty (w_encl (hole_eval t i fb ins))
       \<le> is_empty (case mget (phys_of_hole t) i of Some p \<Rightarrow> p | None \<Rightarrow> fb)"
  using hole_eval_nonempty[where t = t and i = i and fb = fb and ins = ins] by (auto simp: hole_eval_not_refuted le_bool_def)

text \<open>The wrapper of an increasing function, exactly computed, encloses its values on the inputs.\<close>

theorem monotone_wrapper_encloses:
  assumes "0 \<le> sign" "mono_list g" "list_all2 imem xs ins" "list_all ifin ins"
    and "\<And>as. list_all is_fin as \<Longrightarrow> below (f as) (g (map fval as))"
    and "\<And>as. list_all is_fin as \<Longrightarrow> above (f as) (g (map fval as))"
    and "imem (g xs) p"
  shows "imem (g xs) (w_encl (monotone_wrapper sign p f ins))"
  by (rule monotone_incl[OF assms])

theorem monotone_wrapper_encloses_witness:
  "imem 4 (w_encl (monotone_wrapper 1 entire (\<lambda>as. case as of [] \<Rightarrow> Fin 0 | a # _ \<Rightarrow> a) [Ival (Fin 3) (Fin 5)]))"
proof -
  have "imem ((\<lambda>xs. case xs of [] \<Rightarrow> 0 | x # _ \<Rightarrow> x) [4])
      (w_encl (monotone_wrapper 1 entire (\<lambda>as. case as of [] \<Rightarrow> Fin 0 | a # _ \<Rightarrow> a) [Ival (Fin 3) (Fin 5)]))"
  proof (rule monotone_wrapper_encloses)
    show "mono_list (\<lambda>xs. case xs of [] \<Rightarrow> 0 | x # _ \<Rightarrow> x)"
      by (auto simp: mono_list_def list_all2_Cons1 split: list.splits)
    fix as :: "double list" assume "list_all is_fin as"
    then show "below (case as of [] \<Rightarrow> Fin 0 | a # _ \<Rightarrow> a) (case map fval as of [] \<Rightarrow> 0 | x # _ \<Rightarrow> x)"
      "above (case as of [] \<Rightarrow> Fin 0 | a # _ \<Rightarrow> a) (case map fval as of [] \<Rightarrow> 0 | x # _ \<Rightarrow> x)"
      by (auto simp: below_fin above_fin split: list.splits)
  qed (simp_all add: imem_fin ifin_def)
  then show ?thesis by simp
qed


text \<open>Dimensions form an abelian group under multiplication, with division its inverse and integer powers
  acting on it.\<close>

theorem dimensions_group:
  assumes "dim_wf a" "dim_wf b" "dim_wf c"
  shows "dim_mul a b = dim_mul b a \<and> dim_mul (dim_mul a b) c = dim_mul a (dim_mul b c) \<and> dim_mul a dim_none = a
    \<and> dim_mul (dim_div a b) b = a \<and> powd a (m + n) = dim_mul (powd a m) (powd a n)
    \<and> powd (dim_mul a b) n = dim_mul (powd a n) (powd b n)"
  using dim_mul_commute[OF assms(1,2)] dim_mul_assoc[OF assms] dim_mul_none[OF assms(1)] dim_div_mul[OF assms(1,2)]
    powd_add[OF assms(1)] powd_mul[OF assms(1,2)] by simp

theorem dimensions_group_witness: "dim_mul (dim_div (dim_base 1) (dim_base 2)) (dim_base 2) = dim_base 1"
  using dimensions_group[of "dim_base 1" "dim_base 2" dim_none] by simp

text \<open>The two overloads of the criticality score agree on the default thresholds, and each score carries the
  label that belongs to its priority.\<close>

theorem criticality_consistent:
  assumes "\<not> has_nan r"
  shows "criticality_cfg L r default_config = criticality L r (Fin 3) \<and> level_ok (criticality L r a) \<and> level_ok (criticality_cfg L r cfg)"
  using criticality_overloads[OF assms] criticality_level_ok by simp

theorem criticality_consistent_witness: "level_ok (criticality ideal_libm \<lparr>ms = point (Fin 1), residual = Fin 0, r_trace = []\<rparr> (Fin 3))"
  using criticality_consistent[of "\<lparr>ms = point (Fin 1), residual = Fin 0, r_trace = []\<rparr>" ideal_libm "Fin 3" default_config]
  by (simp add: has_nan_def point_def)

text \<open>The reduction plan lists the holes of the trace by falling share of the width, without losing one.\<close>

theorem reduction_plan_sorted:
  assumes "list_all (\<lambda>c. width_contribution c \<noteq> NaN) (reduction_plan r)" "\<not> fle (total_width (r_trace r)) (Fin 0)"
  shows "descending width_contribution (reduction_plan r)
    \<and> mset (map hole_id (reduction_plan r)) = mset (map (\<lambda>t. hole_id_of (t_label t)) (filter t_holed (r_trace r)))"
proof -
  define xs where "xs = map (reduction_of (total_width (r_trace r))) (filter t_holed (r_trace r))"
  have p: "reduction_plan r = sort_desc width_contribution xs" using assms(2) by (simp add: reduction_plan_def xs_def Let_def)
  have m: "mset (reduction_plan r) = mset xs" by (simp add: p sort_desc_mset)
  have "\<forall>x\<in>set xs. width_contribution x \<noteq> NaN"
    using assms(1) mset_eq_setD[OF m] by (simp add: list_all_iff)
  then have "descending width_contribution (reduction_plan r)" unfolding p by (rule sort_desc_sorted)
  moreover have "map hole_id xs = map (\<lambda>t. hole_id_of (t_label t)) (filter t_holed (r_trace r))"
    by (simp add: xs_def reduction_of_def)
  moreover have "mset (map hole_id (reduction_plan r)) = mset (map hole_id xs)" using m by simp
  ultimately show ?thesis by simp
qed

definition demo_trace :: "eval_result" where
  "demo_trace = \<lparr>ms = point (Fin 1), residual = Fin 0, r_trace =
     [\<lparr>t_node = [], t_label = ''hole a'', t_encl = entire, t_width = Fin 0, t_holed = True, t_regime = CHR ''A''\<rparr>,
      \<lparr>t_node = [], t_label = ''hole b'', t_encl = entire, t_width = Fin 2, t_holed = True, t_regime = CHR ''A''\<rparr>]\<rparr>"

lemma demo_total: "total_width (r_trace demo_trace) = Fin 2"
  by (simp add: demo_trace_def total_width_def std_max_def)
lemma demo_shares: "fdiv RNear (Fin 0) (Fin 2) = Fin 0" "fdiv RNear (Fin 2) (Fin 2) = Fin 1"
  by (simp_all add: fdiv_def is_zero_def fzero_def)
lemma demo_plan: "map width_contribution (reduction_plan demo_trace) = [Fin 1, Fin 0]"
  unfolding reduction_plan_def demo_total
  by (simp add: demo_trace_def reduction_of_def sort_desc_def demo_shares fle_def)
lemma demo_plan': "list_all (\<lambda>c. width_contribution c \<noteq> NaN) (reduction_plan demo_trace)"
proof -
  have "list_all (\<lambda>w. w \<noteq> NaN) (map width_contribution (reduction_plan demo_trace))" unfolding demo_plan by simp
  then show ?thesis by (simp add: list_all_iff)
qed

theorem reduction_plan_sorted_witness: "descending width_contribution (reduction_plan demo_trace)"
  using reduction_plan_sorted[OF demo_plan'] by (simp add: demo_total fle_def)

section \<open>Where the code falls short\<close>

text \<open>The product of two half lines loses its infinite end, since the maximum over the four corner products
  skips a corner that is not a number depending on its position: a program with the verdict SAFE denotes a
  negative value.\<close>

theorem half_line_false_safe:
  "\<exists>r. eval L half_line_prog = Some r \<and> decide_eval r = Safe \<and> residual r = Fin 0
     \<and> denotes (\<lambda>_. 2) H (p_root half_line_prog) (- 3)"
proof -
  obtain r where r: "eval L half_line_prog = Some r" "ms r = point (Fin 1)" "residual r = Fin 0"
    using half_line_eval by blast
  have "decide_eval r = Safe"
    by (simp add: decide_eval_def r is_empty_def is_entire_def point_def decide_def fsub_def Let_def)
  then show ?thesis using r half_line_value by blast
qed

text \<open>Validation is weaker than the decision: a certificate for SAFE whose ends are infinite validates,
  while the decision on the same numbers abstains.\<close>

theorem validation_accepts_infinite:
  "validate (self_hashed infinite_cert) \<and> c_verdict (self_hashed infinite_cert) = Safe
   \<and> decide (ms_lo infinite_cert) (ms_hi infinite_cert) (c_residual infinite_cert) = Abstain"
  using validate_infinite by (simp add: self_hashed_sel) (simp add: infinite_cert_def)

text \<open>Set inversion does not check the sign of the residual, as the decision does: with a negative
  \<open>ks\<close> it keeps a box on which the program is negative everywhere and the decision abstains.\<close>

theorem negative_ks_kept:
  "accepted L negative_ks_prog [] \<and> denotes \<rho> H (p_root negative_ks_prog) (- 1)
   \<and> map_option decide_eval (eval L negative_ks_prog) = Some Abstain"
proof -
  obtain r where r: "eval L negative_ks_prog = Some r" "decide_eval r = Abstain"
    "flt (Fin 0) (fsub RNear (lo (ms r)) (residual r))" using negative_ks by blast
  have "negative_ks_prog\<lparr>p_box := []\<rparr> = negative_ks_prog" by (simp add: negative_ks_prog_def)
  then show ?thesis using r negative_ks_value by (auto simp: accepted_def)
qed

text \<open>The tail of an affine sum covers no rounding of the centre: \<open>2^53 + 1\<close> has the point enclosure
  \<open>2^53\<close>.\<close>

theorem affine_sum_rounds:
  "\<not> imem (fval big + 1) (aff_to_ival (aff_add (aff_const big) (aff_const (Fin 1))))"
  unfolding aff_sum_rounds by (simp add: imem_def point_def big_def)

end
